(* ===== verification/Prelude.thy ===== *)
theory Prelude
  imports Main "HOL-Library.Word"
begin

text \<open>
  Shared vocabulary of the development: the C integer types, the arithmetic of
  \<open>size_t\<close> on natural numbers with the wrap-around written out, memory as a list
  of bytes with in-place writes, and the lemmas on bytes, big-endian integers and
  memory that the components share.
\<close>

unbundle bit_operations_syntax

named_theorems view_simps \<open>what the cursor operations do on a cursor given by its bytes\<close>
named_theorems size_simps \<open>size arithmetic that does not wrap\<close>

section \<open>C integer types\<close>

type_synonym u8 = "8 word"
type_synonym u16 = "16 word"
type_synonym u32 = "32 word"
type_synonym u64 = "64 word"

text \<open>
  Sizes are natural numbers below \<open>2 ^ 64\<close> (the code is built for 64-bit targets);
  the operations that can wrap are written with \<open>mod\<close>.
\<close>

definition sz_add :: "nat \<Rightarrow> nat \<Rightarrow> nat" where
  "sz_add a b = (a + b) mod 2 ^ 64"

definition sz_mul :: "nat \<Rightarrow> nat \<Rightarrow> nat" where
  "sz_mul a b = (a * b) mod 2 ^ 64"

definition sz_sub :: "nat \<Rightarrow> nat \<Rightarrow> nat" where
  "sz_sub a b = (a + (2 ^ 64 - b)) mod 2 ^ 64"

definition INT_MAX :: nat where
  "INT_MAX = 2147483647"

lemma sz_add_id [size_simps]: "a + b < 2 ^ 64 \<Longrightarrow> sz_add a b = a + b"
  by (simp add: sz_add_def)

lemma sz_mul_id [size_simps]: "a * b < 2 ^ 64 \<Longrightarrow> sz_mul a b = a * b"
  by (simp add: sz_mul_def)

lemma sz_add_less: "sz_add a b < 2 ^ 64"
  by (simp add: sz_add_def)

lemma sz_sub_id [size_simps]: "b \<le> a \<Longrightarrow> a < 2 ^ 64 \<Longrightarrow> sz_sub a b = a - b"
proof -
  assume ba: "b \<le> a" and a: "a < 2 ^ 64"
  then have "a + (2 ^ 64 - b) = (a - b) + 2 ^ 64" by simp
  then have "sz_sub a b = (a - b) mod 2 ^ 64"
    by (simp only: sz_sub_def mod_add_self2)
  with a show ?thesis by simp
qed

text \<open>The code's overflow test \<open>a + b < a\<close> is exactly "the sum does not fit".\<close>

lemma sz_add_overflow:
  assumes "a < 2 ^ 64" and "b < 2 ^ 64"
  shows "sz_add a b < a \<longleftrightarrow> 2 ^ 64 \<le> a + b"
proof (cases "a + b < 2 ^ 64")
  case True
  then show ?thesis by (simp add: sz_add_def)
next
  case False
  have "(a + b) mod 2 ^ 64 = ((a + b - 2 ^ 64) + 2 ^ 64) mod 2 ^ 64"
    using False by simp
  also have "\<dots> = (a + b - 2 ^ 64) mod 2 ^ 64"
    by (rule mod_add_self2)
  also have "\<dots> = a + b - 2 ^ 64"
    using assms by simp
  finally have "sz_add a b = a + b - 2 ^ 64"
    by (simp add: sz_add_def)
  with False assms show ?thesis by simp
qed

section \<open>Memory as a list of bytes\<close>

text \<open>\<open>mem_write off bs m\<close>: the bytes \<open>bs\<close> stored at offset \<open>off\<close> of the block \<open>m\<close>
  (\<open>memcpy\<close>, \<open>memmove\<close>, \<open>memset\<close> with the source bytes read beforehand).\<close>

definition mem_write :: "nat \<Rightarrow> 'a list \<Rightarrow> 'a list \<Rightarrow> 'a list" where
  "mem_write off bs m = take off m @ bs @ drop (off + length bs) m"

lemma length_mem_write [simp]:
  "off + length bs \<le> length m \<Longrightarrow> length (mem_write off bs m) = length m"
  by (simp add: mem_write_def)

lemma mem_write_Nil [simp]: "mem_write off [] m = m"
  by (simp add: mem_write_def)

lemma take_mem_write:
  "off \<le> length m \<Longrightarrow> take (off + length bs) (mem_write off bs m) = take off m @ bs"
  by (simp add: mem_write_def)

lemma take_mem_write_before:
  "n \<le> off \<Longrightarrow> off \<le> length m \<Longrightarrow> take n (mem_write off bs m) = take n m"
  by (simp add: mem_write_def min_def)

lemma take_upd_last:
  "n < length m \<Longrightarrow> take (Suc n) (m[n := b]) = take n m @ [b]"
  by (simp add: take_Suc_conv_app_nth)

lemma xor_u8_eq_0_iff [simp]: "x OR (a XOR b) = 0 \<longleftrightarrow> x = 0 \<and> a = (b :: u8)"
  by (auto simp: bit_eq_iff bit_simps)

lemma unat_ucast_up:
  assumes "LENGTH('a) \<le> LENGTH('b)"
  shows "unat (ucast (v :: 'a::len word) :: 'b::len word) = unat v"
proof -
  have "(2::nat) ^ LENGTH('a) \<le> 2 ^ LENGTH('b)"
    using assms by (intro power_increasing) auto
  with unsigned_less [of v, where ?'a = nat] have "unat v < 2 ^ LENGTH('b)"
    by (rule less_le_trans)
  then show ?thesis by (simp add: unsigned_ucast_eq take_bit_nat_eq_self)
qed

text \<open>Small numbers as words, and shifts.\<close>

lemma unat_u8_of_nat: "n < 256 \<Longrightarrow> unat (word_of_nat n :: u8) = n"
  by (simp add: unsigned_of_nat take_bit_eq_mod)

lemma unat_drop_u64: "unat (drop_bit k w :: u64) = unat w div 2 ^ k"
proof -
  have "unat w < 2 ^ 64" using unsigned_less [of w, where ?'a = nat] by simp
  then show ?thesis
    by (simp only: unsigned_drop_bit_eq) (simp add: drop_bit_eq_div take_bit_nat_eq_self)
qed

lemma unat_of_nat64: "n < 2 ^ 64 \<Longrightarrow> unat (word_of_nat n :: u64) = n"
  by (simp add: unsigned_of_nat take_bit_nat_eq_self)

lemma unat_of_nat32: "n < 2 ^ 32 \<Longrightarrow> unat (word_of_nat n :: u32) = n"
  by (simp add: unsigned_of_nat take_bit_nat_eq_self)

lemma unat_drop_u32: "unat (drop_bit k (w :: u32)) = unat w div 2 ^ k"
proof -
  have "unat w < 2 ^ 32" using unsigned_less [of w, where ?'a = nat] by simp
  then show ?thesis
    by (simp only: unsigned_drop_bit_eq) (simp add: drop_bit_eq_div take_bit_nat_eq_self)
qed

text \<open>Joining disjoint bit fields is addition.\<close>

lemma push_bit_or_nat:
  assumes "y < 2 ^ k"
  shows "push_bit k (word_of_nat x) OR word_of_nat y = (word_of_nat (x * 2 ^ k + y) :: 'a::len word)"
proof -
  have "\<not> bit y n" if "k \<le> n" for n
  proof -
    have "y < 2 ^ n" using assms that by (meson less_le_trans one_le_numeral power_increasing)
    then show ?thesis by (simp add: bit_iff_odd)
  qed
  then have "push_bit k (word_of_nat x :: 'a word) AND word_of_nat y = 0"
    by (intro bit_word_eqI) (auto simp: bit_simps)
  then have "push_bit k (word_of_nat x :: 'a word) OR word_of_nat y = push_bit k (word_of_nat x) + word_of_nat y"
    by (simp only: disjunctive_add_eq_or)
  then show ?thesis by (simp add: push_bit_eq_mult)
qed

section \<open>Big-endian integers\<close>

text \<open>\<open>be_nat bs\<close> is the value of \<open>bs\<close> as a big-endian number; \<open>be_bytes n v\<close> the
  low \<open>n\<close> bytes of \<open>v\<close>, most significant first.\<close>

definition be_nat :: "u8 list \<Rightarrow> nat" where
  "be_nat bs = foldl (\<lambda>r b. r * 256 + unat b) 0 bs"

fun be_bytes :: "nat \<Rightarrow> nat \<Rightarrow> u8 list" where
  "be_bytes 0 v = []"
| "be_bytes (Suc n) v = be_bytes n (v div 256) @ [word_of_nat v]"

lemma length_be_bytes [simp]: "length (be_bytes n v) = n"
  by (induction n arbitrary: v) auto

lemma be_nat_Nil [simp]: "be_nat [] = 0"
  by (simp add: be_nat_def)

lemma be_nat_snoc [simp]: "be_nat (bs @ [b]) = be_nat bs * 256 + unat b"
  by (simp add: be_nat_def)

lemma unat_u8_less [simp]: "unat (b :: u8) < 256"
  using unsigned_less [of b] by simp

lemma u8_of_nat_eq_iff: "(word_of_nat n :: u8) = b \<longleftrightarrow> n mod 256 = unat b"
  by (simp add: word_eq_iff_unsigned [where 'a = nat] unsigned_of_nat take_bit_eq_mod)

lemma be_nat_less: "be_nat bs < 256 ^ length bs"
proof (induction bs rule: rev_induct)
  case Nil
  then show ?case by simp
next
  case (snoc b bs)
  have "be_nat bs * 256 + unat b < (be_nat bs + 1) * 256"
    by simp
  also have "\<dots> \<le> 256 ^ length bs * 256"
    using snoc by (intro mult_right_mono) auto
  finally show ?case by simp
qed

lemma be_nat_be_bytes: "be_nat (be_bytes n v) = v mod 256 ^ n"
proof (induction n arbitrary: v)
  case 0
  then show ?case by simp
next
  case (Suc n)
  have "be_nat (be_bytes (Suc n) v) = (v div 256) mod 256 ^ n * 256 + v mod 256"
    by (simp add: Suc unat_of_nat)
  also have "\<dots> = v mod (256 * 256 ^ n)"
    by (simp add: mod_mult2_eq mult.commute)
  finally show ?case by simp
qed

lemma be_bytes_be_nat: "be_bytes (length bs) (be_nat bs) = bs"
proof (induction bs rule: rev_induct)
  case Nil
  then show ?case by simp
next
  case (snoc b bs)
  have "(be_nat bs * 256 + unat b) div 256 = be_nat bs"
    by simp
  moreover have "word_of_nat (be_nat bs * 256 + unat b) = b"
    by (simp only: u8_of_nat_eq_iff mod_mult_self3) simp
  ultimately show ?case
    using snoc by simp
qed

section \<open>The bits of a byte\<close>

lemma u8_eq_iff: "a = (b :: u8) \<longleftrightarrow>
  (bit a 0 = bit b 0) \<and> (bit a 1 = bit b 1) \<and> (bit a 2 = bit b 2) \<and> (bit a 3 = bit b 3) \<and>
  (bit a 4 = bit b 4) \<and> (bit a 5 = bit b 5) \<and> (bit a 6 = bit b 6) \<and> (bit a 7 = bit b 7)"
  (is "_ = ?R")
proof
  assume R: ?R
  show "a = b"
  proof (rule bit_word_eqI)
    fix n assume "n < LENGTH(8)"
    then have "n = 0 \<or> n = 1 \<or> n = 2 \<or> n = 3 \<or> n = 4 \<or> n = 5 \<or> n = 6 \<or> n = 7"
      by simp arith
    with R show "bit a n = bit b n" by blast
  qed
qed simp

lemma unat_and_7f: "unat (b AND 0x7f :: u8) = unat b mod 128"
proof -
  have "b AND 0x7f = b mod 128"
    by (simp add: take_bit_eq_mask mask_eq_exp_minus_1 flip: take_bit_eq_mod [where n=7, simplified])
  then show ?thesis by (simp add: unat_mod)
qed

lemma and_80_eq_0_iff: "b AND 0x80 = 0 \<longleftrightarrow> unat (b :: u8) < 128"
proof -
  have 1: "b AND 0x80 = 0 \<longleftrightarrow> \<not> bit b 7"
    by (simp add: u8_eq_iff bit_simps)
  have "bit b 7 \<longleftrightarrow> bit (unat b) 7" by (simp add: bit_unsigned_iff)
  then have "bit b 7 \<longleftrightarrow> odd (unat b div 128)" by (simp add: bit_iff_odd)
  moreover have "unat b div 128 < 2" using unat_u8_less [of b] by linarith
  ultimately show ?thesis using 1 by (cases "unat b div 128"; auto)
qed

end
