(* ===== verification/OpenSSL_Mem.thy ===== *)
theory OpenSSL_Mem
  imports Prelude
begin

text \<open>
  \<open>crypto/mem.c\<close> of BoringSSL: the allocation wrappers and the memory and string
  helpers. The C library's \<open>malloc\<close> is not part of the sources; it is the parameter
  \<open>m\<close> of type \<open>allocator\<close>, which for each requested size either fails or
  returns a block with arbitrary contents. Memory is a list of bytes; a C string is
  the memory from the pointer on.
\<close>

section \<open>Allocation\<close>

type_synonym allocator = "nat \<Rightarrow> u8 list option"

text \<open>What is documented of \<open>malloc\<close>: the block has the requested size, and a request
  beyond \<open>PTRDIFF_MAX\<close> fails.\<close>

definition malloc_ok :: "allocator \<Rightarrow> bool" where
  "malloc_ok m \<longleftrightarrow> (\<forall>n b. m n = Some b \<longrightarrow> length b = n \<and> n < 2 ^ 63)"

definition OPENSSL_MALLOC_PREFIX :: nat where
  "OPENSSL_MALLOC_PREFIX = 8"

text \<open>The payload of an allocated block, behind the eight bytes that record its size. The
  addition wraps, as the code's does.\<close>

definition OPENSSL_malloc :: "allocator \<Rightarrow> nat \<Rightarrow> u8 list option" where
  "OPENSSL_malloc m sz =
     (case m (sz_add sz OPENSSL_MALLOC_PREFIX) of
        None \<Rightarrow> None
      | Some ptr \<Rightarrow> Some (drop OPENSSL_MALLOC_PREFIX ptr))"

definition OPENSSL_cleanse :: "u8 list \<Rightarrow> nat \<Rightarrow> u8 list" where
  "OPENSSL_cleanse ptr n = mem_write 0 (replicate n 0) ptr"

text \<open>\<open>OPENSSL_free\<close> hands the whole block (\<open>blk\<close>, prefix included) back to the
  system; the result is the memory as the system receives it.\<close>

definition OPENSSL_free :: "nat \<Rightarrow> u8 list \<Rightarrow> u8 list" where
  "OPENSSL_free sz blk = OPENSSL_cleanse blk (sz_add sz OPENSSL_MALLOC_PREFIX)"

text \<open>\<open>orig\<close> is the payload of the old block, whose recorded size is its length.\<close>

definition OPENSSL_realloc :: "allocator \<Rightarrow> u8 list \<Rightarrow> nat \<Rightarrow> u8 list option" where
  "OPENSSL_realloc m orig new_size =
     (case OPENSSL_malloc m new_size of
        None \<Rightarrow> None
      | Some ret \<Rightarrow>
          let old_size = length orig;
              to_copy = (if old_size < new_size then old_size else new_size)
          in Some (mem_write 0 (take to_copy orig) ret))"

definition OPENSSL_memdup :: "allocator \<Rightarrow> u8 list \<Rightarrow> nat \<Rightarrow> u8 list option" where
  "OPENSSL_memdup m p sz =
     (if sz = 0 then None
      else case OPENSSL_malloc m sz of
             None \<Rightarrow> None
           | Some ret \<Rightarrow> Some (mem_write 0 (take sz p) ret))"

lemma OPENSSL_malloc_Some:
  assumes "malloc_ok m" and "OPENSSL_malloc m sz = Some p" and "sz + 8 < 2 ^ 64"
  shows "length p = sz" and "sz + 8 < 2 ^ 63"
proof -
  from assms(2,3) obtain blk where "m (sz + 8) = Some blk" and p: "p = drop 8 blk"
    by (auto simp: OPENSSL_malloc_def OPENSSL_MALLOC_PREFIX_def size_simps split: option.splits)
  with assms(1) have "length blk = sz + 8" and "sz + 8 < 2 ^ 63"
    by (auto simp: malloc_ok_def)
  then show "length p = sz" and "sz + 8 < 2 ^ 63"
    by (simp_all add: p)
qed

lemma OPENSSL_realloc_Some:
  assumes ok: "malloc_ok m" and r: "OPENSSL_realloc m orig n = Some p"
    and n: "n + 8 < 2 ^ 64" and le: "length orig \<le> n"
  shows "length p = n" and "take (length orig) p = orig" and "n + 8 < 2 ^ 63"
proof -
  from r obtain ret where ret: "OPENSSL_malloc m n = Some ret"
    and p: "p = mem_write 0 (take (if length orig < n then length orig else n) orig) ret"
    by (auto simp: OPENSSL_realloc_def Let_def split: option.splits)
  have len: "length ret = n" and small: "n + 8 < 2 ^ 63"
    using OPENSSL_malloc_Some [OF ok ret n] by auto
  have p': "p = mem_write 0 orig ret"
    using le by (simp add: p)
  show "length p = n" using len le by (simp add: p')
  show "take (length orig) p = orig" by (simp add: p' mem_write_def)
  show "n + 8 < 2 ^ 63" by (rule small)
qed

lemma OPENSSL_memdup_Some:
  assumes ok: "malloc_ok m" and r: "OPENSSL_memdup m p n = Some q"
    and n: "n \<le> length p" "n + 8 < 2 ^ 64"
  shows "q = take n p"
proof -
  from r obtain ret where ret: "OPENSSL_malloc m n = Some ret"
    and q: "q = mem_write 0 (take n p) ret"
    by (auto simp: OPENSSL_memdup_def split: option.splits if_splits)
  have "length ret = n"
    using OPENSSL_malloc_Some [OF ok ret n(2)] by simp
  with n q show ?thesis by (simp add: mem_write_def)
qed

section \<open>Comparison and hashing\<close>

fun memcmp_loop :: "u8 \<Rightarrow> u8 list \<Rightarrow> u8 list \<Rightarrow> nat \<Rightarrow> u8" where
  "memcmp_loop x a b 0 = x"
| "memcmp_loop x (a0 # a) (b0 # b) (Suc n) = memcmp_loop (x OR (a0 XOR b0)) a b n"
| "memcmp_loop x a b (Suc n) = x"

definition CRYPTO_memcmp :: "u8 list \<Rightarrow> u8 list \<Rightarrow> nat \<Rightarrow> u8" where
  "CRYPTO_memcmp a b n = memcmp_loop 0 a b n"

lemma memcmp_loop_zero:
  "n \<le> length a \<Longrightarrow> n \<le> length b \<Longrightarrow>
     memcmp_loop x a b n = 0 \<longleftrightarrow> x = 0 \<and> take n a = take n b"
proof (induction x a b n rule: memcmp_loop.induct)
  case (2 x a0 a b0 b n)
  have "x OR (a0 XOR b0) = 0 \<longleftrightarrow> x = 0 \<and> a0 = b0"
    by (simp add: xor_u8_eq_0_iff)
  with 2 show ?case by auto
qed auto

text \<open>Without an early exit, the result still says exactly whether the bytes agree.\<close>

lemma CRYPTO_memcmp_zero:
  "n \<le> length a \<Longrightarrow> n \<le> length b \<Longrightarrow> CRYPTO_memcmp a b n = 0 \<longleftrightarrow> take n a = take n b"
  by (simp add: CRYPTO_memcmp_def memcmp_loop_zero)

definition OPENSSL_hash32 :: "u8 list \<Rightarrow> nat \<Rightarrow> u32" where
  "OPENSSL_hash32 ptr n =
     foldl (\<lambda>h c. (h XOR ucast c) * 16777619) 2166136261 (take n ptr)"

section \<open>Strings\<close>

text \<open>\<open>strlen\<close> of the C library: the bytes before the first NUL.\<close>

definition c_strlen :: "u8 list \<Rightarrow> nat" where
  "c_strlen s = length (takeWhile (\<lambda>c. c \<noteq> 0) s)"

fun strnlen_loop :: "nat \<Rightarrow> u8 list \<Rightarrow> nat \<Rightarrow> nat" where
  "strnlen_loop i s 0 = i"
| "strnlen_loop i [] (Suc n) = i"
| "strnlen_loop i (c # s) (Suc n) = (if c = 0 then i else strnlen_loop (Suc i) s n)"

definition OPENSSL_strnlen :: "u8 list \<Rightarrow> nat \<Rightarrow> nat" where
  "OPENSSL_strnlen s n = strnlen_loop 0 s n"

lemma strnlen_loop_eq:
  "n \<le> length s \<Longrightarrow> strnlen_loop i s n = i + c_strlen (take n s)"
  by (induction i s n rule: strnlen_loop.induct) (auto simp: c_strlen_def)

lemma OPENSSL_strnlen_eq:
  "n \<le> length s \<Longrightarrow> OPENSSL_strnlen s n = c_strlen (take n s)"
  by (simp add: OPENSSL_strnlen_def strnlen_loop_eq)

definition OPENSSL_strdup :: "allocator \<Rightarrow> u8 list option \<Rightarrow> u8 list option" where
  "OPENSSL_strdup m s =
     (case s of
        None \<Rightarrow> None
      | Some s \<Rightarrow>
          let len = sz_add (c_strlen s) 1
          in case OPENSSL_malloc m len of
               None \<Rightarrow> None
             | Some ret \<Rightarrow> Some (mem_write 0 (take len s) ret))"

definition OPENSSL_strndup :: "allocator \<Rightarrow> u8 list option \<Rightarrow> nat \<Rightarrow> u8 list option" where
  "OPENSSL_strndup m str sz =
     (case str of
        None \<Rightarrow> None
      | Some s \<Rightarrow>
          let slen = OPENSSL_strnlen s sz;
              alloc_size = sz_add slen 1
          in if alloc_size < slen then None
             else case OPENSSL_malloc m alloc_size of
                    None \<Rightarrow> None
                  | Some ret \<Rightarrow> Some ((mem_write 0 (take slen s) ret)[slen := 0]))"

lemma OPENSSL_strndup_Some:
  assumes ok: "malloc_ok m" and r: "OPENSSL_strndup m (Some s) n = Some q"
    and n: "n \<le> length s" "n + 9 < 2 ^ 64"
  shows "q = takeWhile (\<lambda>c. c \<noteq> 0) (take n s) @ [0]"
proof -
  let ?k = "OPENSSL_strnlen s n"
  have k: "?k = c_strlen (take n s)" by (rule OPENSSL_strnlen_eq [OF n(1)])
  then have kn: "?k \<le> n"
    using length_takeWhile_le [of "\<lambda>c. c \<noteq> 0" "take n s"] by (simp add: c_strlen_def)
  with n have sz: "sz_add ?k 1 = ?k + 1" by (simp add: size_simps)
  from r sz obtain ret where ret: "OPENSSL_malloc m (?k + 1) = Some ret"
    and q: "q = (mem_write 0 (take ?k s) ret)[?k := 0]"
    by (auto simp: OPENSSL_strndup_def Let_def split: option.splits)
  have len: "length ret = ?k + 1"
    using OPENSSL_malloc_Some [OF ok ret] kn n by simp
  have tk: "take ?k s = takeWhile (\<lambda>c. c \<noteq> 0) (take n s)"
  proof -
    have "take ?k (take n s) = takeWhile (\<lambda>c. c \<noteq> 0) (take n s)"
      by (simp only: k c_strlen_def takeWhile_eq_take [symmetric])
    with kn show ?thesis by (simp add: min_def)
  qed
  have "q = take ?k s @ [0]"
  proof -
    have "length (drop ?k ret) = Suc 0" using len by simp
    then obtain z where "drop ?k ret = [z]" unfolding length_Suc_conv by blast
    moreover have "length (take ?k s) = ?k" using kn n by simp
    ultimately show ?thesis by (simp add: q mem_write_def list_update_append)
  qed
  with tk show ?thesis by simp
qed

text \<open>\<open>int\<close> arguments; the characters of a string are signed, as on the Apple targets.\<close>

definition OPENSSL_tolower :: "int \<Rightarrow> int" where
  "OPENSSL_tolower c = (if 65 \<le> c \<and> c \<le> 90 then c + (97 - 65) else c)"

text \<open>\<open>None\<close> is a read past the end of the memory that holds the string.\<close>

fun OPENSSL_strcasecmp :: "u8 list \<Rightarrow> u8 list \<Rightarrow> int option" where
  "OPENSSL_strcasecmp (a # as) (b # bs) =
     (let aa = OPENSSL_tolower (sint a); bb = OPENSSL_tolower (sint b)
      in if aa < bb then Some (-1)
         else if aa > bb then Some 1
         else if aa = 0 then Some 0
         else OPENSSL_strcasecmp as bs)"
| "OPENSSL_strcasecmp as bs = None"

fun OPENSSL_strncasecmp :: "u8 list \<Rightarrow> u8 list \<Rightarrow> nat \<Rightarrow> int option" where
  "OPENSSL_strncasecmp as bs 0 = Some 0"
| "OPENSSL_strncasecmp (a # as) (b # bs) (Suc n) =
     (let aa = OPENSSL_tolower (sint a); bb = OPENSSL_tolower (sint b)
      in if aa < bb then Some (-1)
         else if aa > bb then Some 1
         else if aa = 0 then Some 0
         else OPENSSL_strncasecmp as bs n)"
| "OPENSSL_strncasecmp as bs (Suc n) = None"

text \<open>The copy loop of \<open>OPENSSL_strlcpy\<close>: destination memory, position, remaining size,
  source. It returns the memory, the position, the remaining size and the rest of the
  source.\<close>

fun strlcpy_loop ::
  "u8 list \<Rightarrow> nat \<Rightarrow> nat \<Rightarrow> u8 list \<Rightarrow> u8 list \<times> nat \<times> nat \<times> u8 list" where
  "strlcpy_loop dst i dst_size [] = (dst, i, dst_size, [])"
| "strlcpy_loop dst i dst_size (c # src) =
     (if dst_size > 1 \<and> c \<noteq> 0 then strlcpy_loop (dst[i := c]) (Suc i) (dst_size - 1) src
      else (dst, i, dst_size, c # src))"

text \<open>\<open>OPENSSL_strlcpy\<close> writing from offset \<open>off\<close> of \<open>dst\<close> on: the memory
  and the returned length.\<close>

definition OPENSSL_strlcpy :: "u8 list \<Rightarrow> nat \<Rightarrow> u8 list \<Rightarrow> nat \<Rightarrow> u8 list \<times> nat" where
  "OPENSSL_strlcpy dst off src dst_size =
     (case strlcpy_loop dst off dst_size src of
        (dst', i, dst_size', src') \<Rightarrow>
          (if dst_size' \<noteq> 0 then dst'[i := 0] else dst', (i - off) + c_strlen src'))"

fun strlcat_loop :: "u8 list \<Rightarrow> nat \<Rightarrow> nat \<Rightarrow> nat \<times> nat" where
  "strlcat_loop dst l 0 = (l, 0)"
| "strlcat_loop dst l (Suc n) =
     (if dst ! l \<noteq> 0 then strlcat_loop dst (Suc l) n else (l, Suc n))"

definition OPENSSL_strlcat :: "u8 list \<Rightarrow> u8 list \<Rightarrow> nat \<Rightarrow> u8 list \<times> nat" where
  "OPENSSL_strlcat dst src dst_size =
     (case strlcat_loop dst 0 dst_size of
        (l, n) \<Rightarrow> (case OPENSSL_strlcpy dst l src n of (dst', r) \<Rightarrow> (dst', l + r)))"

end
