(* ===== verification/Cbs.thy ===== *)
theory Cbs
  imports OpenSSL_Mem
begin

text \<open>
  The byte-string cursor of \<open>crypto/bytestring/cbs.c\<close>: \<open>CBS\<close> is a pointer and a
  length. The pointer is modelled by the memory from it on (\<open>cbs_data\<close>), which may
  reach beyond the \<open>cbs_len\<close> bytes that belong to the cursor. An operation returns
  its out-parameter, or \<open>None\<close> where the code returns zero, with the cursor as it
  leaves it, on failure too. \<open>view bs after\<close> is the cursor over the bytes \<open>bs\<close>
  with other memory \<open>after\<close> behind them; every cursor whose bytes are allocated has
  this form, and the lemmas state each operation on it.
\<close>

section \<open>The cursor and the reads everything is built from\<close>

record CBS =
  cbs_data :: "u8 list"
  cbs_len :: nat

definition CBS_init :: "u8 list \<Rightarrow> nat \<Rightarrow> CBS" where
  "CBS_init data len = \<lparr>cbs_data = data, cbs_len = len\<rparr>"

definition cbs_get :: "nat \<Rightarrow> CBS \<Rightarrow> u8 list option \<times> CBS" where
  "cbs_get n cbs =
     (if cbs_len cbs < n then (None, cbs)
      else (Some (cbs_data cbs),
            cbs\<lparr>cbs_data := drop n (cbs_data cbs), cbs_len := cbs_len cbs - n\<rparr>))"

definition CBS_skip :: "nat \<Rightarrow> CBS \<Rightarrow> unit option \<times> CBS" where
  "CBS_skip len cbs =
     (case cbs_get len cbs of
        (None, cbs') \<Rightarrow> (None, cbs')
      | (Some dummy, cbs') \<Rightarrow> (Some (), cbs'))"

definition CBS_data :: "CBS \<Rightarrow> u8 list" where
  "CBS_data cbs = cbs_data cbs"

definition CBS_len :: "CBS \<Rightarrow> nat" where
  "CBS_len cbs = cbs_len cbs"

text \<open>The copy made by \<open>CBS_stow\<close>: \<open>Some None\<close> is success with a NULL pointer (an
  empty cursor), \<open>None\<close> an allocation failure.\<close>

definition CBS_stow :: "allocator \<Rightarrow> CBS \<Rightarrow> u8 list option option" where
  "CBS_stow m cbs =
     (if cbs_len cbs = 0 then Some None
      else case OPENSSL_memdup m (cbs_data cbs) (cbs_len cbs) of
             None \<Rightarrow> None
           | Some p \<Rightarrow> Some (Some p))"

definition CBS_strdup :: "allocator \<Rightarrow> CBS \<Rightarrow> u8 list option" where
  "CBS_strdup m cbs = OPENSSL_strndup m (Some (cbs_data cbs)) (cbs_len cbs)"

definition CBS_contains_zero_byte :: "CBS \<Rightarrow> bool" where
  "CBS_contains_zero_byte cbs \<longleftrightarrow> 0 \<in> set (take (cbs_len cbs) (cbs_data cbs))"

definition CBS_mem_equal :: "CBS \<Rightarrow> u8 list \<Rightarrow> nat \<Rightarrow> bool" where
  "CBS_mem_equal cbs data len =
     (if len \<noteq> cbs_len cbs then False
      else CRYPTO_memcmp (cbs_data cbs) data len = 0)"

text \<open>The loop of \<open>cbs_get_u\<close>: shift the accumulator and take the next byte.\<close>

definition be_acc :: "u64 \<Rightarrow> u8 list \<Rightarrow> u64" where
  "be_acc = foldl (\<lambda>result b. push_bit 8 result OR ucast b)"

definition cbs_get_u :: "nat \<Rightarrow> CBS \<Rightarrow> u64 option \<times> CBS" where
  "cbs_get_u len cbs =
     (case cbs_get len cbs of
        (None, cbs') \<Rightarrow> (None, cbs')
      | (Some data, cbs') \<Rightarrow> (Some (be_acc 0 (take len data)), cbs'))"

definition CBS_get_u8 :: "CBS \<Rightarrow> u8 option \<times> CBS" where
  "CBS_get_u8 cbs =
     (case cbs_get 1 cbs of
        (None, cbs') \<Rightarrow> (None, cbs')
      | (Some v, cbs') \<Rightarrow> (Some (v ! 0), cbs'))"

definition CBS_get_u16 :: "CBS \<Rightarrow> u16 option \<times> CBS" where
  "CBS_get_u16 cbs =
     (case cbs_get_u 2 cbs of
        (None, cbs') \<Rightarrow> (None, cbs')
      | (Some v, cbs') \<Rightarrow> (Some (ucast v), cbs'))"

definition CRYPTO_bswap2 :: "u16 \<Rightarrow> u16" where
  "CRYPTO_bswap2 x = drop_bit 8 x OR push_bit 8 x"

definition CRYPTO_bswap4 :: "u32 \<Rightarrow> u32" where
  "CRYPTO_bswap4 x =
     (let x1 = (drop_bit 16 x OR push_bit 16 x)
      in drop_bit 8 (x1 AND 0xff00ff00) OR push_bit 8 (x1 AND 0x00ff00ff))"

definition CRYPTO_bswap8 :: "u64 \<Rightarrow> u64" where
  "CRYPTO_bswap8 x =
     ucast (CRYPTO_bswap4 (ucast (drop_bit 32 x))) OR push_bit 32 (ucast (CRYPTO_bswap4 (ucast x)))"

definition CBS_get_u16le :: "CBS \<Rightarrow> u16 option \<times> CBS" where
  "CBS_get_u16le cbs =
     (case CBS_get_u16 cbs of
        (None, cbs') \<Rightarrow> (None, cbs')
      | (Some v, cbs') \<Rightarrow> (Some (CRYPTO_bswap2 v), cbs'))"

definition CBS_get_u24 :: "CBS \<Rightarrow> u32 option \<times> CBS" where
  "CBS_get_u24 cbs =
     (case cbs_get_u 3 cbs of
        (None, cbs') \<Rightarrow> (None, cbs')
      | (Some v, cbs') \<Rightarrow> (Some (ucast v), cbs'))"

definition CBS_get_u32 :: "CBS \<Rightarrow> u32 option \<times> CBS" where
  "CBS_get_u32 cbs =
     (case cbs_get_u 4 cbs of
        (None, cbs') \<Rightarrow> (None, cbs')
      | (Some v, cbs') \<Rightarrow> (Some (ucast v), cbs'))"

definition CBS_get_u32le :: "CBS \<Rightarrow> u32 option \<times> CBS" where
  "CBS_get_u32le cbs =
     (case CBS_get_u32 cbs of
        (None, cbs') \<Rightarrow> (None, cbs')
      | (Some v, cbs') \<Rightarrow> (Some (CRYPTO_bswap4 v), cbs'))"

definition CBS_get_u64 :: "CBS \<Rightarrow> u64 option \<times> CBS" where
  "CBS_get_u64 cbs = cbs_get_u 8 cbs"

definition CBS_get_u64le :: "CBS \<Rightarrow> u64 option \<times> CBS" where
  "CBS_get_u64le cbs =
     (case cbs_get_u 8 cbs of
        (None, cbs') \<Rightarrow> (None, cbs')
      | (Some v, cbs') \<Rightarrow> (Some (CRYPTO_bswap8 v), cbs'))"

definition CBS_get_last_u8 :: "CBS \<Rightarrow> u8 option \<times> CBS" where
  "CBS_get_last_u8 cbs =
     (if cbs_len cbs = 0 then (None, cbs)
      else (Some (cbs_data cbs ! (cbs_len cbs - 1)), cbs\<lparr>cbs_len := cbs_len cbs - 1\<rparr>))"

definition CBS_get_bytes :: "nat \<Rightarrow> CBS \<Rightarrow> CBS option \<times> CBS" where
  "CBS_get_bytes len cbs =
     (case cbs_get len cbs of
        (None, cbs') \<Rightarrow> (None, cbs')
      | (Some v, cbs') \<Rightarrow> (Some (CBS_init v len), cbs'))"

text \<open>The bytes that \<open>CBS_copy_bytes\<close> copies to the output buffer.\<close>

definition CBS_copy_bytes :: "nat \<Rightarrow> CBS \<Rightarrow> u8 list option \<times> CBS" where
  "CBS_copy_bytes len cbs =
     (case cbs_get len cbs of
        (None, cbs') \<Rightarrow> (None, cbs')
      | (Some v, cbs') \<Rightarrow> (Some (take len v), cbs'))"

definition cbs_get_length_prefixed :: "nat \<Rightarrow> CBS \<Rightarrow> CBS option \<times> CBS" where
  "cbs_get_length_prefixed len_len cbs =
     (case cbs_get_u len_len cbs of
        (None, cbs') \<Rightarrow> (None, cbs')
      | (Some len, cbs') \<Rightarrow> CBS_get_bytes (unat len) cbs')"

definition CBS_get_u8_length_prefixed :: "CBS \<Rightarrow> CBS option \<times> CBS" where
  "CBS_get_u8_length_prefixed cbs = cbs_get_length_prefixed 1 cbs"

definition CBS_get_u16_length_prefixed :: "CBS \<Rightarrow> CBS option \<times> CBS" where
  "CBS_get_u16_length_prefixed cbs = cbs_get_length_prefixed 2 cbs"

definition CBS_get_u24_length_prefixed :: "CBS \<Rightarrow> CBS option \<times> CBS" where
  "CBS_get_u24_length_prefixed cbs = cbs_get_length_prefixed 3 cbs"

section \<open>The operations on a cursor given by its bytes\<close>

definition view :: "u8 list \<Rightarrow> u8 list \<Rightarrow> CBS" where
  "view bs after = \<lparr>cbs_data = bs @ after, cbs_len = length bs\<rparr>"

text \<open>A cursor is good when the bytes it claims are allocated; those bytes.\<close>

definition cbs_ok :: "CBS \<Rightarrow> bool" where
  "cbs_ok cbs \<longleftrightarrow> cbs_len cbs \<le> length (cbs_data cbs)"

definition cbs_bytes :: "CBS \<Rightarrow> u8 list" where
  "cbs_bytes cbs = take (cbs_len cbs) (cbs_data cbs)"

lemma cbs_ok_view [simp]: "cbs_ok (view bs after)"
  by (simp add: cbs_ok_def view_def)

lemma cbs_bytes_view [simp]: "cbs_bytes (view bs after) = bs"
  by (simp add: cbs_bytes_def view_def)

lemma cbs_ok_view_ex: "cbs_ok cbs \<Longrightarrow> \<exists>after. cbs = view (cbs_bytes cbs) after"
  by (rule exI [of _ "drop (cbs_len cbs) (cbs_data cbs)"])
     (simp add: view_def cbs_bytes_def cbs_ok_def)

lemma view_len [simp]: "cbs_len (view bs after) = length bs"
  and CBS_len_view [simp]: "CBS_len (view bs after) = length bs"
  and CBS_data_view [simp]: "CBS_data (view bs after) = bs @ after"
  by (simp_all add: view_def CBS_len_def CBS_data_def)

lemma view_inject: "view a x = view b y \<longleftrightarrow> a = b \<and> x = y"
  by (auto simp: view_def)

lemma CBS_init_view: "CBS_init (bs @ after) (length bs) = view bs after"
  by (simp add: CBS_init_def view_def)

lemma CBS_init_all [simp]: "CBS_init bs (length bs) = view bs []"
  by (simp add: CBS_init_def view_def)

lemma cbs_get_view:
  "cbs_get n (view bs after) =
     (if length bs < n then (None, view bs after)
      else (Some (bs @ after), view (drop n bs) after))"
  by (simp add: cbs_get_def view_def)

lemma cbs_get_u_view:
  "cbs_get_u n (view bs after) =
     (if length bs < n then (None, view bs after)
      else (Some (be_acc 0 (take n bs)), view (drop n bs) after))"
  by (simp add: cbs_get_u_def cbs_get_view)

lemma CBS_get_bytes_view [view_simps]:
  "CBS_get_bytes n (view bs after) =
     (if length bs < n then (None, view bs after)
      else (Some (view (take n bs) (drop n bs @ after)), view (drop n bs) after))"
  by (simp add: CBS_get_bytes_def cbs_get_view) (simp add: CBS_init_def view_def)

lemma CBS_get_bytes_app [view_simps]:
  "n = length bs \<Longrightarrow>
     CBS_get_bytes n (view (bs @ rest) after) = (Some (view bs (rest @ after)), view rest after)"
  by (simp add: CBS_get_bytes_view)

lemma CBS_skip_view [view_simps]:
  "CBS_skip n (view bs after) =
     (if length bs < n then (None, view bs after) else (Some (), view (drop n bs) after))"
  by (simp add: CBS_skip_def cbs_get_view)

lemma CBS_get_u8_Cons [view_simps]:
  "CBS_get_u8 (view (b # bs) after) = (Some b, view bs after)"
  by (simp add: CBS_get_u8_def cbs_get_view)

lemma CBS_get_u8_Nil [view_simps]: "CBS_get_u8 (view [] after) = (None, view [] after)"
  by (simp add: CBS_get_u8_def cbs_get_view)

lemma CBS_get_last_u8_snoc [view_simps]:
  "CBS_get_last_u8 (view (bs @ [b]) after) = (Some b, view bs (b # after))"
  by (simp add: CBS_get_last_u8_def view_def nth_append)

lemma CBS_get_last_u8_Nil [view_simps]: "CBS_get_last_u8 (view [] after) = (None, view [] after)"
  by (simp add: CBS_get_last_u8_def view_def)

lemma CBS_copy_bytes_view [view_simps]:
  "CBS_copy_bytes n (view bs after) =
     (if length bs < n then (None, view bs after) else (Some (take n bs), view (drop n bs) after))"
  by (simp add: CBS_copy_bytes_def cbs_get_view)

section \<open>Big-endian reads\<close>

lemma be_acc_append: "be_acc r (xs @ ys) = be_acc (be_acc r xs) ys"
  by (simp add: be_acc_def)

lemma push_or_u8: "push_bit 8 (r :: u64) OR ucast (b :: u8) = r * 256 + ucast b"
proof -
  have "push_bit 8 r AND ucast b = 0"
    by (auto simp: bit_eq_iff bit_simps dest: bit_imp_le_length)
  then have "push_bit 8 r OR ucast b = push_bit 8 r + ucast b"
    by (simp add: disjunctive_add_eq_or)
  then show ?thesis by (simp add: push_bit_eq_mult)
qed

text \<open>The accumulator reads the bytes as a big-endian number, modulo \<open>2 ^ 64\<close>.\<close>

lemma be_acc_0: "be_acc 0 bs = word_of_nat (be_nat bs)"
proof (induction bs rule: rev_induct)
  case Nil
  then show ?case by (simp add: be_acc_def)
next
  case (snoc b bs)
  have "be_acc 0 (bs @ [b]) = push_bit 8 (be_acc 0 bs) OR ucast b"
    by (simp add: be_acc_def)
  also have "\<dots> = be_acc 0 bs * 256 + ucast b" by (rule push_or_u8)
  also have "\<dots> = word_of_nat (be_nat (bs @ [b]))"
    by (simp add: snoc.IH)
  finally show ?case .
qed

lemma unat_be_acc: "length bs \<le> 8 \<Longrightarrow> unat (be_acc 0 bs) = be_nat bs"
proof -
  assume "length bs \<le> 8"
  then have "(256::nat) ^ length bs \<le> 256 ^ 8" by (intro power_increasing) auto
  with be_nat_less [of bs] have "be_nat bs < 2 ^ 64" by simp
  then show ?thesis
    by (simp add: be_acc_0 unsigned_of_nat take_bit_eq_mod)
qed

end
