(* ===== verification/Cbs_Asn1.thy ===== *)
theory Cbs_Asn1
  imports Cbs
begin

text \<open>
  The ASN.1 side of \<open>crypto/bytestring/cbs.c\<close>: base-128 integers, tags, DER and BER
  element headers, and the readers of INTEGER, BOOLEAN, OPTIONAL and BIT STRING
  values. Tags are the 32-bit in-memory representation of \<open>bytestring.h\<close>, with the
  class and constructed bits in the top three bits.
\<close>

section \<open>Tags\<close>

definition CBS_ASN1_TAG_SHIFT :: nat where "CBS_ASN1_TAG_SHIFT = 24"
definition CBS_ASN1_CONSTRUCTED :: u32 where "CBS_ASN1_CONSTRUCTED = 0x20000000"
definition CBS_ASN1_TAG_NUMBER_MASK :: u32 where "CBS_ASN1_TAG_NUMBER_MASK = 0x1fffffff"
definition CBS_ASN1_BOOLEAN :: u32 where "CBS_ASN1_BOOLEAN = 0x1"
definition CBS_ASN1_INTEGER :: u32 where "CBS_ASN1_INTEGER = 0x2"
definition CBS_ASN1_BITSTRING :: u32 where "CBS_ASN1_BITSTRING = 0x3"
definition CBS_ASN1_OCTETSTRING :: u32 where "CBS_ASN1_OCTETSTRING = 0x4"

function parse_base128_loop :: "u64 \<Rightarrow> CBS \<Rightarrow> u64 option \<times> CBS" where
  "parse_base128_loop v cbs =
     (case CBS_get_u8 cbs of
        (None, cbs') \<Rightarrow> (None, cbs')
      | (Some b, cbs') \<Rightarrow>
          if drop_bit (64 - 7) v \<noteq> 0 then (None, cbs')
          else if v = 0 \<and> b = 0x80 then (None, cbs')
          else let v' = push_bit 7 v OR ucast (b AND 0x7f)
               in if b AND 0x80 \<noteq> 0 then parse_base128_loop v' cbs' else (Some v', cbs'))"
  by pat_completeness auto
termination
  by (relation "measure (\<lambda>(v, cbs). cbs_len cbs)")
     (auto simp: CBS_get_u8_def cbs_get_def split: if_splits)

declare parse_base128_loop.simps [simp del]

definition parse_base128_integer :: "CBS \<Rightarrow> u64 option \<times> CBS" where
  "parse_base128_integer cbs = parse_base128_loop 0 cbs"

definition parse_asn1_tag :: "CBS \<Rightarrow> u32 option \<times> CBS" where
  "parse_asn1_tag cbs =
     (case CBS_get_u8 cbs of
        (None, cbs') \<Rightarrow> (None, cbs')
      | (Some tag_byte, cbs') \<Rightarrow>
          let tag = push_bit CBS_ASN1_TAG_SHIFT (ucast tag_byte AND 0xe0) :: u32;
              tag_number = ucast (tag_byte AND 0x1f) :: u32
          in if tag_number = 0x1f then
               (case parse_base128_integer cbs' of
                  (None, cbs'') \<Rightarrow> (None, cbs'')
                | (Some v, cbs'') \<Rightarrow>
                    if v > ucast CBS_ASN1_TAG_NUMBER_MASK \<or> v < 0x1f then (None, cbs'')
                    else (Some (tag OR ucast v), cbs''))
             else (Some (tag OR tag_number), cbs'))"

section \<open>Element headers\<close>

text \<open>The common end of \<open>cbs_get_any_asn1_element\<close>: hand out the first \<open>len\<close> bytes,
  with the out-parameters set before.\<close>

definition get_element :: "u32 \<Rightarrow> nat \<Rightarrow> nat \<Rightarrow> CBS \<Rightarrow> (CBS \<times> u32 \<times> nat) option \<times> CBS" where
  "get_element tag header_len len cbs =
     (case CBS_get_bytes len cbs of
        (None, cbs') \<Rightarrow> (None, cbs')
      | (Some out, cbs') \<Rightarrow> (Some (out, tag, header_len), cbs'))"

definition cbs_get_any_asn1_element :: "bool \<Rightarrow> CBS \<Rightarrow> (CBS \<times> u32 \<times> nat) option \<times> CBS" where
  "cbs_get_any_asn1_element ber_ok cbs =
     (case parse_asn1_tag cbs of
        (None, header) \<Rightarrow> (None, cbs)
      | (Some tag, header) \<Rightarrow>
     (case CBS_get_u8 header of
        (None, header) \<Rightarrow> (None, cbs)
      | (Some length_byte, header) \<Rightarrow>
          let header_len = CBS_len cbs - CBS_len header
          in if length_byte AND 0x80 = 0
             then get_element tag header_len (sz_add (unat length_byte) header_len) cbs
             else
               let num_bytes = unat (length_byte AND 0x7f)
               in if ber_ok \<and> tag AND CBS_ASN1_CONSTRUCTED \<noteq> 0 \<and> num_bytes = 0
                  then get_element tag header_len header_len cbs
                  else if num_bytes = 0 \<or> num_bytes > 4 then (None, cbs)
                  else
                    (case cbs_get_u num_bytes header of
                       (None, header) \<Rightarrow> (None, cbs)
                     | (Some len64, header) \<Rightarrow>
                         if len64 < 128 then (None, cbs)
                         else if drop_bit ((num_bytes - 1) * 8) len64 = 0 then (None, cbs)
                         else
                           let len = unat len64
                           in if sz_add (sz_add len header_len) num_bytes < len then (None, cbs)
                              else get_element tag (sz_add header_len num_bytes)
                                     (sz_add len (sz_add header_len num_bytes)) cbs)))"

definition CBS_get_any_asn1_element :: "CBS \<Rightarrow> (CBS \<times> u32 \<times> nat) option \<times> CBS" where
  "CBS_get_any_asn1_element cbs = cbs_get_any_asn1_element False cbs"

definition CBS_get_any_ber_asn1_element :: "CBS \<Rightarrow> (CBS \<times> u32 \<times> nat) option \<times> CBS" where
  "CBS_get_any_ber_asn1_element cbs = cbs_get_any_asn1_element True cbs"

definition CBS_get_any_asn1 :: "CBS \<Rightarrow> (CBS \<times> u32) option \<times> CBS" where
  "CBS_get_any_asn1 cbs =
     (case CBS_get_any_asn1_element cbs of
        (None, cbs') \<Rightarrow> (None, cbs')
      | (Some (out, tag, header_len), cbs') \<Rightarrow>
          (case CBS_skip header_len out of
             (None, out') \<Rightarrow> (None, cbs')
           | (Some _, out') \<Rightarrow> (Some (out', tag), cbs')))"

definition cbs_get_asn1 :: "u32 \<Rightarrow> bool \<Rightarrow> CBS \<Rightarrow> CBS option \<times> CBS" where
  "cbs_get_asn1 tag_value skip_header cbs =
     (case CBS_get_any_asn1_element cbs of
        (None, cbs') \<Rightarrow> (None, cbs')
      | (Some (out, tag, header_len), cbs') \<Rightarrow>
          if tag \<noteq> tag_value then (None, cbs')
          else if skip_header then
            (case CBS_skip header_len out of
               (None, out') \<Rightarrow> (None, cbs')
             | (Some _, out') \<Rightarrow> (Some out', cbs'))
          else (Some out, cbs'))"

definition CBS_get_asn1 :: "u32 \<Rightarrow> CBS \<Rightarrow> CBS option \<times> CBS" where
  "CBS_get_asn1 tag_value cbs = cbs_get_asn1 tag_value True cbs"

definition CBS_get_asn1_element :: "u32 \<Rightarrow> CBS \<Rightarrow> CBS option \<times> CBS" where
  "CBS_get_asn1_element tag_value cbs = cbs_get_asn1 tag_value False cbs"

definition CBS_peek_asn1_tag :: "CBS \<Rightarrow> u32 \<Rightarrow> bool" where
  "CBS_peek_asn1_tag cbs tag_value =
     (if CBS_len cbs < 1 then False
      else case parse_asn1_tag cbs of
             (None, copy) \<Rightarrow> False
           | (Some actual_tag, copy) \<Rightarrow> tag_value = actual_tag)"

section \<open>Values\<close>

text \<open>The loop of \<open>CBS_get_asn1_uint64\<close> over the content octets.\<close>

fun asn1_uint64_loop :: "u64 \<Rightarrow> u8 list \<Rightarrow> u64 option" where
  "asn1_uint64_loop out [] = Some out"
| "asn1_uint64_loop out (b # bs) =
     (if drop_bit 56 out \<noteq> 0 then None
      else asn1_uint64_loop (push_bit 8 out OR ucast b) bs)"

definition CBS_get_asn1_uint64 :: "CBS \<Rightarrow> u64 option \<times> CBS" where
  "CBS_get_asn1_uint64 cbs =
     (case CBS_get_asn1 CBS_ASN1_INTEGER cbs of
        (None, cbs') \<Rightarrow> (None, cbs')
      | (Some bytes, cbs') \<Rightarrow>
          let data = CBS_data bytes; len = CBS_len bytes
          in if len = 0 then (None, cbs')
             else if data ! 0 AND 0x80 \<noteq> 0 then (None, cbs')
             else if data ! 0 = 0 \<and> len > 1 \<and> data ! 1 AND 0x80 = 0 then (None, cbs')
             else (asn1_uint64_loop 0 (take len data), cbs'))"

text \<open>Little-endian bytes of a 64-bit value: the view of the union in the signed readers and
  writers on the (little-endian) targets.\<close>

fun le_word :: "u8 list \<Rightarrow> u64" where
  "le_word [] = 0"
| "le_word (b # bs) = ucast b OR push_bit 8 (le_word bs)"

text \<open>The value is the 64-bit pattern of the \<open>int64_t\<close>.\<close>

definition CBS_get_asn1_int64 :: "CBS \<Rightarrow> u64 option \<times> CBS" where
  "CBS_get_asn1_int64 cbs =
     (case CBS_get_asn1 CBS_ASN1_INTEGER cbs of
        (None, cbs') \<Rightarrow> (None, cbs')
      | (Some bytes, cbs') \<Rightarrow>
          let data = CBS_data bytes; len = CBS_len bytes
          in if len = 0 \<or> len > 8 then (None, cbs')
             else if len > 1 \<and> data ! 0 = 0 \<and> data ! 1 AND 0x80 = 0 then (None, cbs')
             else if len > 1 \<and> data ! 0 = 0xff \<and> data ! 1 AND 0x80 \<noteq> 0 then (None, cbs')
             else
               let is_negative = data ! 0 AND 0x80 \<noteq> 0;
                   u = replicate 8 (if is_negative then 0xff else 0);
                   u' = mem_write 0 (rev (take len data)) u
               in (Some (le_word u'), cbs'))"

definition CBS_get_asn1_bool :: "CBS \<Rightarrow> bool option \<times> CBS" where
  "CBS_get_asn1_bool cbs =
     (case CBS_get_asn1 CBS_ASN1_BOOLEAN cbs of
        (None, cbs') \<Rightarrow> (None, cbs')
      | (Some bytes, cbs') \<Rightarrow>
          if CBS_len bytes \<noteq> 1 then (None, cbs')
          else let v = CBS_data bytes ! 0
               in if v \<noteq> 0 \<and> v \<noteq> 0xff then (None, cbs') else (Some (v \<noteq> 0), cbs'))"

text \<open>\<open>Some None\<close>: the element is absent, and the cursor has not moved.\<close>

definition CBS_get_optional_asn1 :: "u32 \<Rightarrow> CBS \<Rightarrow> CBS option option \<times> CBS" where
  "CBS_get_optional_asn1 tag cbs =
     (if CBS_peek_asn1_tag cbs tag then
        (case CBS_get_asn1 tag cbs of
           (None, cbs') \<Rightarrow> (None, cbs')
         | (Some out, cbs') \<Rightarrow> (Some (Some out), cbs'))
      else (Some None, cbs))"

text \<open>The value and whether it was present.\<close>

definition CBS_get_optional_asn1_octet_string :: "u32 \<Rightarrow> CBS \<Rightarrow> (CBS \<times> bool) option \<times> CBS" where
  "CBS_get_optional_asn1_octet_string tag cbs =
     (case CBS_get_optional_asn1 tag cbs of
        (None, cbs') \<Rightarrow> (None, cbs')
      | (Some None, cbs') \<Rightarrow> (Some (CBS_init [] 0, False), cbs')
      | (Some (Some child), cbs') \<Rightarrow>
          (case CBS_get_asn1 CBS_ASN1_OCTETSTRING child of
             (None, child') \<Rightarrow> (None, cbs')
           | (Some out, child') \<Rightarrow>
               if CBS_len child' \<noteq> 0 then (None, cbs') else (Some (out, True), cbs')))"

definition CBS_get_optional_asn1_uint64 :: "u32 \<Rightarrow> u64 \<Rightarrow> CBS \<Rightarrow> u64 option \<times> CBS" where
  "CBS_get_optional_asn1_uint64 tag default_value cbs =
     (case CBS_get_optional_asn1 tag cbs of
        (None, cbs') \<Rightarrow> (None, cbs')
      | (Some None, cbs') \<Rightarrow> (Some default_value, cbs')
      | (Some (Some child), cbs') \<Rightarrow>
          (case CBS_get_asn1_uint64 child of
             (None, child') \<Rightarrow> (None, cbs')
           | (Some out, child') \<Rightarrow>
               if CBS_len child' \<noteq> 0 then (None, cbs') else (Some out, cbs')))"

definition CBS_get_optional_asn1_bool :: "u32 \<Rightarrow> int \<Rightarrow> CBS \<Rightarrow> int option \<times> CBS" where
  "CBS_get_optional_asn1_bool tag default_value cbs =
     (case CBS_get_optional_asn1 tag cbs of
        (None, cbs') \<Rightarrow> (None, cbs')
      | (Some None, cbs') \<Rightarrow> (Some default_value, cbs')
      | (Some (Some child), cbs') \<Rightarrow>
          (case CBS_get_asn1 CBS_ASN1_BOOLEAN child of
             (None, child') \<Rightarrow> (None, cbs')
           | (Some child2, child') \<Rightarrow>
               if CBS_len child2 \<noteq> 1 \<or> CBS_len child' \<noteq> 0 then (None, cbs')
               else let boolean = CBS_data child2 ! 0
                    in if boolean = 0 then (Some 0, cbs')
                       else if boolean = 0xff then (Some 1, cbs')
                       else (None, cbs')))"

definition CBS_is_valid_asn1_bitstring :: "CBS \<Rightarrow> bool" where
  "CBS_is_valid_asn1_bitstring cbs =
     (case CBS_get_u8 cbs of
        (None, in') \<Rightarrow> False
      | (Some num_unused_bits, in') \<Rightarrow>
          if num_unused_bits > 7 then False
          else if num_unused_bits = 0 then True
          else (case CBS_get_last_u8 in' of
                  (None, in'') \<Rightarrow> False
                | (Some last_byte, in'') \<Rightarrow>
                    last_byte AND (push_bit (unat num_unused_bits) 1 - 1) = 0))"

definition CBS_asn1_bitstring_has_bit :: "CBS \<Rightarrow> u32 \<Rightarrow> bool" where
  "CBS_asn1_bitstring_has_bit cbs b =
     (if \<not> CBS_is_valid_asn1_bitstring cbs then False
      else let byte_num = unat (drop_bit 3 b + 1);
               bit_num = 7 - unat (b AND 7)
           in byte_num < CBS_len cbs \<and> CBS_data cbs ! byte_num AND push_bit bit_num 1 \<noteq> 0)"

end
