(* ===== verification/Cbb.thy ===== *)
theory Cbb
  imports Cbs_Asn1
begin

text \<open>
  The byte-string builder of \<open>crypto/bytestring/cbb.c\<close>. All \<open>CBB\<close> objects that write
  to one buffer share one \<open>cbb_buffer_st\<close> and form a chain: the top-level object, its
  open child, the child's open child, and so on. The model keeps the buffer and the
  chain of open children in one record; an object is named by its depth in the chain
  (0 is the top-level object), and a depth beyond the chain is an object whose
  \<open>base\<close> the code has set to NULL. The number at a depth is the object that is open
  there now. Every operation takes the allocator \<open>m\<close> and returns the code's zero/one
  result as a \<open>bool\<close> with the new state.
\<close>

section \<open>State\<close>

record cbb_buffer =
  b_data :: "u8 list"
  b_len :: nat
  b_cap :: nat
  b_can_resize :: bool
  b_error :: bool

record cbb_child =
  offset :: nat
  pending_len_len :: nat
  pending_is_asn1 :: bool

record CBB =
  cbb_base :: "cbb_buffer option"
  cbb_children :: "cbb_child list"

definition CBB_zero :: CBB where
  "CBB_zero = \<lparr>cbb_base = None, cbb_children = []\<rparr>"

definition sizeof_cbb_buffer :: nat where
  "sizeof_cbb_buffer = 32"

definition cbb_init :: "allocator \<Rightarrow> u8 list \<Rightarrow> nat \<Rightarrow> CBB \<Rightarrow> bool \<times> CBB" where
  "cbb_init m buf cap cbb =
     (case OPENSSL_malloc m sizeof_cbb_buffer of
        None \<Rightarrow> (False, cbb)
      | Some _ \<Rightarrow>
          (True, cbb\<lparr>cbb_base := Some \<lparr>b_data = buf, b_len = 0, b_cap = cap,
                                      b_can_resize = True, b_error = False\<rparr>\<rparr>))"

definition CBB_init :: "allocator \<Rightarrow> nat \<Rightarrow> bool \<times> CBB" where
  "CBB_init m initial_capacity =
     (let buf = OPENSSL_malloc m initial_capacity
      in if initial_capacity > 0 \<and> buf = None then (False, CBB_zero)
         else cbb_init m (case buf of None \<Rightarrow> [] | Some p \<Rightarrow> p) initial_capacity CBB_zero)"

definition CBB_init_fixed :: "allocator \<Rightarrow> u8 list \<Rightarrow> nat \<Rightarrow> bool \<times> CBB" where
  "CBB_init_fixed m buf len =
     (case cbb_init m buf len CBB_zero of
        (False, cbb) \<Rightarrow> (False, cbb)
      | (True, cbb) \<Rightarrow>
          (True, cbb\<lparr>cbb_base := map_option (\<lambda>b. b\<lparr>b_can_resize := False\<rparr>) (cbb_base cbb)\<rparr>))"

definition CBB_cleanup :: "nat \<Rightarrow> CBB \<Rightarrow> CBB" where
  "CBB_cleanup d cbb = (if d > 0 then cbb else cbb\<lparr>cbb_base := None\<rparr>)"

section \<open>The shared buffer\<close>

text \<open>The out-pointer of the code is always \<open>base->buf + base->len\<close> as it was before
  the call.\<close>

definition cbb_buffer_reserve :: "allocator \<Rightarrow> nat \<Rightarrow> cbb_buffer \<Rightarrow> bool \<times> cbb_buffer" where
  "cbb_buffer_reserve m len base =
     (let newlen = sz_add (b_len base) len
      in if newlen < b_len base then (False, base\<lparr>b_error := True\<rparr>)
         else if newlen > b_cap base then
           let newcap = sz_mul (b_cap base) 2
           in if \<not> b_can_resize base then (False, base\<lparr>b_error := True\<rparr>)
              else
                let newcap = (if newcap < b_cap base \<or> newcap < newlen then newlen else newcap)
                in case OPENSSL_realloc m (b_data base) newcap of
                     None \<Rightarrow> (False, base\<lparr>b_error := True\<rparr>)
                   | Some newbuf \<Rightarrow> (True, base\<lparr>b_data := newbuf, b_cap := newcap\<rparr>)
         else (True, base))"

definition cbb_buffer_add :: "allocator \<Rightarrow> nat \<Rightarrow> cbb_buffer \<Rightarrow> bool \<times> cbb_buffer" where
  "cbb_buffer_add m len base =
     (case cbb_buffer_reserve m len base of
        (False, base) \<Rightarrow> (False, base)
      | (True, base) \<Rightarrow> (True, base\<lparr>b_len := sz_add (b_len base) len\<rparr>))"

text \<open>The loop that stores an integer backwards from its last byte: the new memory and
  what is left of the integer.\<close>

fun put_be :: "nat \<Rightarrow> nat \<Rightarrow> u64 \<Rightarrow> u8 list \<Rightarrow> u8 list \<times> u64" where
  "put_be off 0 v buf = (buf, v)"
| "put_be off (Suc i) v buf = put_be off i (drop_bit 8 v) (buf[off + i := ucast v])"

definition cbb_buffer_add_u :: "allocator \<Rightarrow> u64 \<Rightarrow> nat \<Rightarrow> cbb_buffer \<Rightarrow> bool \<times> cbb_buffer" where
  "cbb_buffer_add_u m v len_len base =
     (if len_len = 0 then (True, base)
      else case cbb_buffer_add m len_len base of
             (False, base') \<Rightarrow> (False, base')
           | (True, base') \<Rightarrow>
               (case put_be (b_len base) len_len v (b_data base') of
                  (buf, v') \<Rightarrow>
                    if v' \<noteq> 0 then (False, base'\<lparr>b_data := buf, b_error := True\<rparr>)
                    else (True, base'\<lparr>b_data := buf\<rparr>)))"

text \<open>An operation on the shared buffer, reached through an object's \<open>base\<close> pointer.\<close>

definition on_base :: "(cbb_buffer \<Rightarrow> bool \<times> cbb_buffer) \<Rightarrow> CBB \<Rightarrow> bool \<times> CBB" where
  "on_base f cbb =
     (case cbb_base cbb of
        None \<Rightarrow> (False, cbb)
      | Some base \<Rightarrow> (case f base of (ok, base') \<Rightarrow> (ok, cbb\<lparr>cbb_base := Some base'\<rparr>)))"

section \<open>Flushing pending length prefixes\<close>

definition cbb_set_error :: "CBB \<Rightarrow> CBB" where
  "cbb_set_error cbb = cbb\<lparr>cbb_base := map_option (\<lambda>b. b\<lparr>b_error := True\<rparr>) (cbb_base cbb)\<rparr>"

text \<open>The ASN.1 branch: the number of length bytes, the first of them and the rest of the
  length that is still to be stored.\<close>

definition asn1_len_len :: "nat \<Rightarrow> nat \<times> u8 \<times> nat" where
  "asn1_len_len len =
     (if len > 0xffffff then (5, 0x80 OR 4, len)
      else if len > 0xffff then (4, 0x80 OR 3, len)
      else if len > 0xff then (3, 0x80 OR 2, len)
      else if len > 0x7f then (2, 0x80 OR 1, len)
      else (1, word_of_nat len, 0))"

definition flush_asn1_prefix ::
  "allocator \<Rightarrow> nat \<Rightarrow> nat \<Rightarrow> cbb_child \<Rightarrow> cbb_buffer \<Rightarrow> bool \<times> nat \<times> cbb_child \<times> cbb_buffer" where
  "flush_asn1_prefix m child_start len child base =
     (if len > 0xfffffffe then (False, len, child, base)
      else case asn1_len_len len of
        (len_len, initial_length_byte, len) \<Rightarrow>
          (case (if len_len \<noteq> 1 then
                   let extra_bytes = len_len - 1
                   in case cbb_buffer_add m extra_bytes base of
                        (False, base) \<Rightarrow> (False, base)
                      | (True, base) \<Rightarrow>
                          (True, base\<lparr>b_data := mem_write (child_start + extra_bytes)
                             (take len (drop child_start (b_data base))) (b_data base)\<rparr>)
                 else (True, base)) of
             (False, base) \<Rightarrow> (False, len, child, base)
           | (True, base) \<Rightarrow>
               (True, len,
                child\<lparr>offset := offset child + 1, pending_len_len := len_len - 1\<rparr>,
                base\<lparr>b_data := (b_data base)[offset child := initial_length_byte]\<rparr>)))"

text \<open>The rest of \<open>CBB_flush\<close> once the child itself is flushed: write the child's
  length prefix and detach it.\<close>

definition flush_child :: "allocator \<Rightarrow> nat \<Rightarrow> nat \<Rightarrow> CBB \<Rightarrow> bool \<times> CBB" where
  "flush_child m d child_start cbb =
     (case cbb_base cbb of
        None \<Rightarrow> (False, cbb)
      | Some base \<Rightarrow>
          let child = cbb_children cbb ! d;
              len = b_len base - child_start
          in case (if pending_is_asn1 child then flush_asn1_prefix m child_start len child base
                   else (True, len, child, base)) of
               (False, _, _, base) \<Rightarrow> (False, cbb\<lparr>cbb_base := Some (base\<lparr>b_error := True\<rparr>)\<rparr>)
             | (True, len, child, base) \<Rightarrow>
                 (case put_be (offset child) (pending_len_len child) (word_of_nat len) (b_data base) of
                    (buf, v) \<Rightarrow>
                      if v \<noteq> 0 then
                        (False, cbb\<lparr>cbb_base := Some (base\<lparr>b_data := buf, b_error := True\<rparr>),
                                    cbb_children := (cbb_children cbb)[d := child]\<rparr>)
                      else
                        (True, cbb\<lparr>cbb_base := Some (base\<lparr>b_data := buf\<rparr>),
                                   cbb_children := take d (cbb_children cbb)\<rparr>)))"

function CBB_flush :: "allocator \<Rightarrow> nat \<Rightarrow> CBB \<Rightarrow> bool \<times> CBB" where
  "CBB_flush m d cbb =
     (case cbb_base cbb of
        None \<Rightarrow> (False, cbb)
      | Some base \<Rightarrow>
          if d > length (cbb_children cbb) \<or> b_error base then (False, cbb)
          else if d = length (cbb_children cbb) \<or> pending_len_len (cbb_children cbb ! d) = 0
          then (True, cbb)
          else
            let child = cbb_children cbb ! d;
                child_start = sz_add (offset child) (pending_len_len child)
            in case CBB_flush m (Suc d) cbb of
                 (ok, cbb') \<Rightarrow>
                   if \<not> ok \<or> child_start < offset child \<or>
                      (case cbb_base cbb' of None \<Rightarrow> True | Some b \<Rightarrow> b_len b < child_start)
                   then (False, cbb_set_error cbb')
                   else flush_child m d child_start cbb')"
  by pat_completeness auto
termination
  by (relation "measure (\<lambda>(m, d, cbb). length (cbb_children cbb) - d)") auto

declare CBB_flush.simps [simp del]

text \<open>The result is the block with the bytes written so far at its front, and their number.
  \<open>want_data\<close> and \<open>want_len\<close> say that the out-pointers are not NULL.\<close>

definition CBB_finish :: "allocator \<Rightarrow> bool \<Rightarrow> bool \<Rightarrow> nat \<Rightarrow> CBB \<Rightarrow> (u8 list \<times> nat) option \<times> CBB" where
  "CBB_finish m want_data want_len d cbb =
     (if d > 0 then (None, cbb)
      else case CBB_flush m d cbb of
        (False, cbb) \<Rightarrow> (None, cbb)
      | (True, cbb) \<Rightarrow>
          (case cbb_base cbb of
             None \<Rightarrow> (None, cbb)
           | Some base \<Rightarrow>
               if b_can_resize base \<and> (\<not> want_data \<or> \<not> want_len) then (None, cbb)
               else (Some (b_data base, b_len base), CBB_cleanup d cbb)))"

text \<open>The fields of the object at depth \<open>d\<close>; the top-level object has no pending prefix.\<close>

definition cbb_self :: "nat \<Rightarrow> CBB \<Rightarrow> cbb_child" where
  "cbb_self d cbb =
     (if d = 0 then \<lparr>offset = 0, pending_len_len = 0, pending_is_asn1 = False\<rparr>
      else cbb_children cbb ! (d - 1))"

text \<open>\<open>None\<close> where the code would read through a NULL \<open>base\<close>. The asserted
  precondition \<open>child == NULL\<close> is \<open>d = length (cbb_children cbb)\<close>.\<close>

definition CBB_data :: "nat \<Rightarrow> CBB \<Rightarrow> u8 list option" where
  "CBB_data d cbb =
     (if d > length (cbb_children cbb) then None
      else map_option (\<lambda>base. drop (offset (cbb_self d cbb) + pending_len_len (cbb_self d cbb)) (b_data base))
             (cbb_base cbb))"

definition CBB_len :: "nat \<Rightarrow> CBB \<Rightarrow> nat option" where
  "CBB_len d cbb =
     (if d > length (cbb_children cbb) then None
      else map_option (\<lambda>base. sz_sub (sz_sub (b_len base) (offset (cbb_self d cbb)))
                                (pending_len_len (cbb_self d cbb)))
             (cbb_base cbb))"

section \<open>Adding data\<close>

text \<open>Every adding operation flushes the object first, then works on the buffer.\<close>

definition flush_then :: "allocator \<Rightarrow> nat \<Rightarrow> (cbb_buffer \<Rightarrow> bool \<times> cbb_buffer) \<Rightarrow> CBB \<Rightarrow> bool \<times> CBB" where
  "flush_then m d f cbb =
     (case CBB_flush m d cbb of
        (False, cbb) \<Rightarrow> (False, cbb)
      | (True, cbb) \<Rightarrow> on_base f cbb)"

text \<open>Attach the new child \<open>out_contents\<close> to the object at depth \<open>d\<close>.\<close>

definition cbb_set_child :: "nat \<Rightarrow> cbb_child \<Rightarrow> CBB \<Rightarrow> CBB" where
  "cbb_set_child d child cbb = cbb\<lparr>cbb_children := take d (cbb_children cbb) @ [child]\<rparr>"

definition base_len :: "CBB \<Rightarrow> nat" where
  "base_len cbb = (case cbb_base cbb of None \<Rightarrow> 0 | Some base \<Rightarrow> b_len base)"

definition cbb_add_length_prefixed :: "allocator \<Rightarrow> nat \<Rightarrow> nat \<Rightarrow> CBB \<Rightarrow> bool \<times> CBB" where
  "cbb_add_length_prefixed m len_len d cbb =
     (case CBB_flush m d cbb of
        (False, cbb) \<Rightarrow> (False, cbb)
      | (True, cbb) \<Rightarrow>
          let offs = base_len cbb
          in case on_base (cbb_buffer_add m len_len) cbb of
               (False, cbb) \<Rightarrow> (False, cbb)
             | (True, cbb) \<Rightarrow>
                 let cbb = cbb\<lparr>cbb_base := map_option (\<lambda>b. b\<lparr>b_data :=
                              mem_write offs (replicate len_len 0) (b_data b)\<rparr>) (cbb_base cbb)\<rparr>
                 in (True, cbb_set_child d
                      \<lparr>offset = offs, pending_len_len = len_len, pending_is_asn1 = False\<rparr> cbb))"

definition CBB_add_u8_length_prefixed :: "allocator \<Rightarrow> nat \<Rightarrow> CBB \<Rightarrow> bool \<times> CBB" where
  "CBB_add_u8_length_prefixed m d cbb = cbb_add_length_prefixed m 1 d cbb"

definition CBB_add_u16_length_prefixed :: "allocator \<Rightarrow> nat \<Rightarrow> CBB \<Rightarrow> bool \<times> CBB" where
  "CBB_add_u16_length_prefixed m d cbb = cbb_add_length_prefixed m 2 d cbb"

definition CBB_add_u24_length_prefixed :: "allocator \<Rightarrow> nat \<Rightarrow> CBB \<Rightarrow> bool \<times> CBB" where
  "CBB_add_u24_length_prefixed m d cbb = cbb_add_length_prefixed m 3 d cbb"

definition CBB_add_bytes :: "allocator \<Rightarrow> u8 list \<Rightarrow> nat \<Rightarrow> nat \<Rightarrow> CBB \<Rightarrow> bool \<times> CBB" where
  "CBB_add_bytes m data len d cbb =
     flush_then m d (\<lambda>base.
       case cbb_buffer_add m len base of
         (False, base') \<Rightarrow> (False, base')
       | (True, base') \<Rightarrow>
           (True, base'\<lparr>b_data := mem_write (b_len base) (take len data) (b_data base')\<rparr>)) cbb"

definition CBB_add_space :: "allocator \<Rightarrow> nat \<Rightarrow> nat \<Rightarrow> CBB \<Rightarrow> bool \<times> CBB" where
  "CBB_add_space m len d cbb = flush_then m d (cbb_buffer_add m len) cbb"

definition CBB_reserve :: "allocator \<Rightarrow> nat \<Rightarrow> nat \<Rightarrow> CBB \<Rightarrow> bool \<times> CBB" where
  "CBB_reserve m len d cbb = flush_then m d (cbb_buffer_reserve m len) cbb"

text \<open>\<open>None\<close> where the code would read through a NULL \<open>base\<close>.\<close>

definition CBB_did_write :: "nat \<Rightarrow> nat \<Rightarrow> CBB \<Rightarrow> (bool \<times> CBB) option" where
  "CBB_did_write len d cbb =
     (if d > length (cbb_children cbb) then None
      else case cbb_base cbb of
        None \<Rightarrow> None
      | Some base \<Rightarrow>
          let newlen = sz_add (b_len base) len
          in Some (if d < length (cbb_children cbb) \<or> newlen < b_len base \<or> newlen > b_cap base
                   then (False, cbb)
                   else (True, cbb\<lparr>cbb_base := Some (base\<lparr>b_len := newlen\<rparr>)\<rparr>)))"

definition CBB_add_u8 :: "allocator \<Rightarrow> u8 \<Rightarrow> nat \<Rightarrow> CBB \<Rightarrow> bool \<times> CBB" where
  "CBB_add_u8 m value d cbb = flush_then m d (cbb_buffer_add_u m (ucast value) 1) cbb"

definition CBB_add_u16 :: "allocator \<Rightarrow> u16 \<Rightarrow> nat \<Rightarrow> CBB \<Rightarrow> bool \<times> CBB" where
  "CBB_add_u16 m value d cbb = flush_then m d (cbb_buffer_add_u m (ucast value) 2) cbb"

definition CBB_add_u16le :: "allocator \<Rightarrow> u16 \<Rightarrow> nat \<Rightarrow> CBB \<Rightarrow> bool \<times> CBB" where
  "CBB_add_u16le m value d cbb = CBB_add_u16 m (CRYPTO_bswap2 value) d cbb"

definition CBB_add_u24 :: "allocator \<Rightarrow> u32 \<Rightarrow> nat \<Rightarrow> CBB \<Rightarrow> bool \<times> CBB" where
  "CBB_add_u24 m value d cbb = flush_then m d (cbb_buffer_add_u m (ucast value) 3) cbb"

definition CBB_add_u32 :: "allocator \<Rightarrow> u32 \<Rightarrow> nat \<Rightarrow> CBB \<Rightarrow> bool \<times> CBB" where
  "CBB_add_u32 m value d cbb = flush_then m d (cbb_buffer_add_u m (ucast value) 4) cbb"

definition CBB_add_u32le :: "allocator \<Rightarrow> u32 \<Rightarrow> nat \<Rightarrow> CBB \<Rightarrow> bool \<times> CBB" where
  "CBB_add_u32le m value d cbb = CBB_add_u32 m (CRYPTO_bswap4 value) d cbb"

definition CBB_add_u64 :: "allocator \<Rightarrow> u64 \<Rightarrow> nat \<Rightarrow> CBB \<Rightarrow> bool \<times> CBB" where
  "CBB_add_u64 m value d cbb = flush_then m d (cbb_buffer_add_u m value 8) cbb"

definition CBB_add_u64le :: "allocator \<Rightarrow> u64 \<Rightarrow> nat \<Rightarrow> CBB \<Rightarrow> bool \<times> CBB" where
  "CBB_add_u64le m value d cbb = CBB_add_u64 m (CRYPTO_bswap8 value) d cbb"

definition CBB_discard_child :: "nat \<Rightarrow> CBB \<Rightarrow> CBB" where
  "CBB_discard_child d cbb =
     (if d \<ge> length (cbb_children cbb) then cbb
      else cbb\<lparr>cbb_base := map_option (\<lambda>b. b\<lparr>b_len := offset (cbb_children cbb ! d)\<rparr>) (cbb_base cbb),
               cbb_children := take d (cbb_children cbb)\<rparr>)"

end
