(* ===== verification/Der.thy ===== *)
theory Der
  imports Cbs_Asn1
begin

text \<open>
  The DER encoding that the parser of \<open>cbs.c\<close> accepts and the builder of
  \<open>cbb.c\<close> writes, as a reference: base-128 integers, identifier octets and length
  octets. The lemmas show that the parser inverts the encoding, and that what it accepts
  in DER mode is the encoding of its result and nothing else.
\<close>

section \<open>Bits of bytes and tags\<close>

lemma and_1f_id: "n < 0x1f \<Longrightarrow> n AND 0x1f = (n :: u8)"
proof -
  assume "n < 0x1f"
  then have "n mod 32 = n"
    by (simp add: word_eq_iff_unsigned [where 'a = nat] unat_mod word_less_nat_alt)
  then show ?thesis
    by (simp add: take_bit_eq_mask mask_eq_exp_minus_1 flip: take_bit_eq_mod [where n=5, simplified])
qed

lemma tag_byte_high [simp]:
  "(x AND 0xe0 OR 0x1f) AND 0x1f = (0x1f :: u8)"
  "(x AND 0xe0 OR 0x1f) AND 0xe0 = (x AND 0xe0 :: u8)"
  by (simp_all add: bit.conj_disj_distrib2 and.assoc)

lemma tag_byte_low:
  assumes "n < 0x1f"
  shows "(x AND 0xe0 OR n) AND 0x1f = (n :: u8)"
    and "(x AND 0xe0 OR n) AND 0xe0 = (x AND 0xe0 :: u8)"
proof -
  have n: "n AND 0x1f = n" by (rule and_1f_id [OF assms])
  then have "n AND 0xe0 = (n AND 0x1f) AND 0xe0" by simp
  also have "\<dots> = 0" by (simp add: and.assoc)
  finally have n0: "n AND 0xe0 = 0" .
  show "(x AND 0xe0 OR n) AND 0x1f = n"
    by (simp add: bit.conj_disj_distrib2 and.assoc n)
  show "(x AND 0xe0 OR n) AND 0xe0 = x AND 0xe0"
    by (simp add: bit.conj_disj_distrib2 and.assoc n0)
qed

lemma push_24_and: "push_bit 24 (ucast (ucast (drop_bit 24 (t::u32)) AND m :: u8)) =
    t AND push_bit 24 (ucast m)"
  by (rule bit_word_eqI) (auto simp: bit_simps)

lemma class_bits: "push_bit 24 (ucast (ucast (drop_bit 24 (t::u32)) AND 0xe0 :: u8)) =
    t AND 0xe0000000"
  using push_24_and [of t "0xe0"] by simp

lemma ucast_and_e0: "(ucast (b :: u8) AND 0xe0 :: u32) = ucast (b AND 0xe0)"
  by (rule bit_word_eqI) (auto simp: bit_simps unsigned_and_eq)

lemma tag_split: "(t AND 0xe0000000) OR (t AND 0x1fffffff) = (t :: u32)"
proof -
  have "(t AND 0xe0000000) OR (t AND 0x1fffffff) = t AND (0xe0000000 OR 0x1fffffff)"
    by (simp only: bit.conj_disj_distrib)
  also have "0xe0000000 OR 0x1fffffff = (-1 :: u32)" by simp
  finally show ?thesis by simp
qed

section \<open>Base-128 integers\<close>

text \<open>\<open>base128_high v\<close>: the groups of seven bits of \<open>v\<close>, each marked as followed by
  more; \<open>base128 v\<close> ends the last group.\<close>

fun base128_high :: "nat \<Rightarrow> u8 list" where
  "base128_high v = (if v = 0 then [] else base128_high (v div 128) @ [word_of_nat (128 + v mod 128)])"

declare base128_high.simps [simp del]

definition base128 :: "nat \<Rightarrow> u8 list" where
  "base128 v = base128_high (v div 128) @ [word_of_nat (v mod 128)]"

lemma base128_high_0 [simp]: "base128_high 0 = []"
  by (subst base128_high.simps) simp

lemma base128_high_step:
  "x < 128 \<Longrightarrow> u \<noteq> 0 \<or> x \<noteq> 0 \<Longrightarrow>
     base128_high (u * 128 + x) = base128_high u @ [word_of_nat (128 + x)]"
  by (subst base128_high.simps) (auto simp: algebra_simps)

lemma and_7f_take_bit: "b AND 0x7f = take_bit 7 (b :: u8)"
  by (simp add: take_bit_eq_mask mask_eq_exp_minus_1)

lemma push_7_or: "push_bit 7 (v :: u64) OR ucast (b AND 0x7f :: u8) = v * 128 + word_of_nat (unat b mod 128)"
proof -
  have "push_bit 7 v AND ucast (take_bit 7 b) = 0"
    by (rule bit_word_eqI) (auto simp: bit_simps)
  then have sum: "push_bit 7 v OR ucast (b AND 0x7f) = push_bit 7 v + ucast (b AND 0x7f)"
    by (simp only: and_7f_take_bit disjunctive_add_eq_or)
  have v: "push_bit 7 v = v * 128"
    by (simp add: push_bit_eq_mult)
  have "ucast (b AND 0x7f) = (word_of_nat (unat (b AND 0x7f)) :: u64)"
    by (simp only: of_nat_unat)
  then have b: "ucast (b AND 0x7f) = (word_of_nat (unat b mod 128) :: u64)"
    by (simp only: unat_and_7f)
  show ?thesis by (rule trans [OF sum]) (simp only: v b)
qed

text \<open>One round of the parser's loop, on numbers.\<close>

lemma drop_57_eq_0_iff: "u < 2 ^ 64 \<Longrightarrow> drop_bit 57 (word_of_nat u :: u64) = 0 \<longleftrightarrow> u < 2 ^ 57"
  by (simp add: word_unat_eq_iff unsigned_drop_bit_eq unsigned_of_nat take_bit_eq_mod
      drop_bit_eq_div div_eq_0_iff unat_div)

lemma word_of_nat_u64_eq_0_iff: "u < 2 ^ 64 \<Longrightarrow> (word_of_nat u :: u64) = 0 \<longleftrightarrow> u = 0"
  by (simp add: word_unat_eq_iff unsigned_of_nat take_bit_eq_mod)

lemma parse_base128_loop_Nil [simp]:
  "parse_base128_loop v (view [] after) = (None, view [] after)"
  by (subst parse_base128_loop.simps) (simp add: view_simps)

lemma parse_base128_loop_Cons:
  assumes "u < 2 ^ 64"
  shows "parse_base128_loop (word_of_nat u) (view (b # bs) after) =
    (if u \<ge> 2 ^ 57 \<or> (u = 0 \<and> b = 0x80) then (None, view bs after)
     else let u' = u * 128 + unat b mod 128
          in if unat b \<ge> 128 then parse_base128_loop (word_of_nat u') (view bs after)
             else (Some (word_of_nat u'), view bs after))"
  using assms
  by (subst parse_base128_loop.simps)
     (auto simp: view_simps drop_57_eq_0_iff word_of_nat_u64_eq_0_iff push_7_or and_80_eq_0_iff Let_def)

lemma unat_u8_eq_128_iff: "b = (0x80 :: u8) \<longleftrightarrow> unat b = 128"
  by (simp add: word_unat_eq_iff)

lemma parse_base128_high:
  "u < 2 ^ 64 \<Longrightarrow>
     parse_base128_loop 0 (view (base128_high u @ rest) after) =
     parse_base128_loop (word_of_nat u) (view rest after)"
proof (induction u arbitrary: rest rule: base128_high.induct)
  case (1 u)
  show ?case
  proof (cases "u = 0")
    case True
    then show ?thesis by simp
  next
    case False
    let ?b = "word_of_nat (128 + u mod 128) :: u8"
    have ub: "unat ?b = 128 + u mod 128" by (rule unat_u8_of_nat) simp
    have small: "u div 128 < 2 ^ 57" using 1(2) by (simp add: div_less_iff_less_mult)
    have "parse_base128_loop 0 (view (base128_high u @ rest) after) =
        parse_base128_loop 0 (view (base128_high (u div 128) @ (?b # rest)) after)"
      using False by (subst base128_high.simps) simp
    also have "\<dots> = parse_base128_loop (word_of_nat (u div 128)) (view (?b # rest) after)"
      using 1 False by simp
    also have "\<dots> = parse_base128_loop (word_of_nat u) (view rest after)"
    proof -
      have "\<not> (u div 128 = 0 \<and> u mod 128 = 0)" using False
        by (metis div_mult_mod_eq mult_zero_left add_0)
      with small ub show ?thesis
        by (subst parse_base128_loop_Cons) (auto simp: Let_def unat_u8_eq_128_iff simp del: of_nat_add)
    qed
    finally show ?thesis using 1(2) by simp
  qed
qed

lemma parse_base128:
  assumes "u < 2 ^ 64"
  shows "parse_base128_integer (view (base128 u @ rest) after) = (Some (word_of_nat u), view rest after)"
proof -
  have small: "u div 128 < 2 ^ 57" and "u div 128 < 2 ^ 64"
    using assms by (simp_all add: div_less_iff_less_mult)
  moreover have "unat (word_of_nat (u mod 128) :: u8) = u mod 128"
    by (rule unat_u8_of_nat) (simp add: order_less_trans [of _ 128])
  moreover have "\<not> 128 \<le> u mod 128" and "u mod 128 \<noteq> 128"
    by (simp_all add: not_le order_less_imp_not_eq)
  ultimately show ?thesis
    by (simp add: parse_base128_integer_def base128_def parse_base128_high
        parse_base128_loop_Cons Let_def unat_u8_eq_128_iff del: of_nat_add)
qed

text \<open>What the loop accepts is the encoding of its result, after what it has read so far.\<close>

lemma nat_high_mod: "128 \<le> n \<Longrightarrow> n < 256 \<Longrightarrow> n = 128 + n mod (128 :: nat)"
  by (simp add: le_mod_geq)

lemma parse_base128_loop_inv:
  "u < 2 ^ 64 \<Longrightarrow> parse_base128_loop (word_of_nat u) (view bs after) = (Some v, cbs') \<Longrightarrow>
     \<exists>rest. cbs' = view rest after \<and> base128_high u @ bs = base128 (unat v) @ rest"
proof (induction bs arbitrary: u)
  case Nil
  then show ?case by simp
next
  case (Cons b bs)
  let ?x = "unat b mod 128"
  have u: "u < 2 ^ 57" and nz: "\<not> (u = 0 \<and> b = 0x80)"
    using Cons.prems by (auto simp: parse_base128_loop_Cons split: if_splits)
  have small: "u * 128 + ?x < 2 ^ 64"
  proof -
    have "u * 128 + ?x < (u + 1) * 128" by simp
    also have "\<dots> \<le> 2 ^ 57 * 128" using u by (intro mult_right_mono) auto
    finally show ?thesis by simp
  qed
  show ?case
  proof (cases "unat b \<ge> 128")
    case True
    then have bx: "unat b = 128 + ?x" by (rule nat_high_mod) (rule unat_u8_less)
    then have b: "b = word_of_nat (128 + ?x)"
      by (metis of_nat_unat ucast_id)
    have "u \<noteq> 0 \<or> ?x \<noteq> 0"
      using nz bx by (auto simp: unat_u8_eq_128_iff)
    then have high: "base128_high (u * 128 + ?x) = base128_high u @ [b]"
      using b by (metis base128_high_step mod_less_divisor zero_less_numeral)
    have "parse_base128_loop (word_of_nat (u * 128 + ?x)) (view bs after) = (Some v, cbs')"
      using Cons.prems(2) u nz True
      by (simp only: parse_base128_loop_Cons [OF Cons.prems(1)] Let_def) (auto split: if_splits)
    from Cons.IH [OF small this] show ?thesis by (simp add: high)
  next
    case False
    then have x: "?x = unat b" by simp
    have res: "v = word_of_nat (u * 128 + ?x)" "cbs' = view bs after"
      using Cons.prems(2) u nz False
      by (auto simp only: parse_base128_loop_Cons [OF Cons.prems(1)] Let_def split: if_splits)
    have "unat v = u * 128 + ?x"
      using small by (simp add: res unsigned_of_nat take_bit_eq_mod del: of_nat_add)
    then have "base128 (unat v) = base128_high u @ [word_of_nat ?x]"
      by (simp add: base128_def)
    also have "word_of_nat ?x = b" using x by simp
    finally show ?thesis using res(2) by simp
  qed
qed

lemma parse_base128_inv:
  assumes "parse_base128_integer (view bs after) = (Some v, cbs')"
  shows "\<exists>rest. cbs' = view rest after \<and> bs = base128 (unat v) @ rest"
  using parse_base128_loop_inv [of 0 bs after v cbs'] assms
  by (simp add: parse_base128_integer_def)

section \<open>Identifier octets\<close>

definition der_tag :: "u32 \<Rightarrow> u8 list" where
  "der_tag t =
     (let leading = ucast (drop_bit 24 t) AND 0xe0; n = t AND 0x1fffffff
      in if n \<ge> 0x1f then (leading OR 0x1f) # base128 (unat n) else [leading OR ucast n])"

lemma der_tag_nonempty: "der_tag t \<noteq> []"
  by (simp add: der_tag_def Let_def)

lemma unat_ucast_u32_u64: "unat (ucast (n :: u32) :: u64) = unat n"
proof -
  have "unat n < 2 ^ 64" using unsigned_less [of n, where ?'a = nat] by simp
  then show ?thesis by (simp add: unsigned_ucast_eq take_bit_nat_eq_self)
qed

lemma unat_ucast_u8_u32: "unat (ucast (n :: u8) :: u32) = unat n"
proof -
  have "unat n < 256" by simp
  then have "unat n < 2 ^ 32" by (rule order_less_trans) simp
  then show ?thesis by (simp add: unsigned_ucast_eq take_bit_nat_eq_self)
qed

lemma ucast_u32_u64_u32 [simp]: "ucast (ucast (n :: u32) :: u64) = n"
  by (rule bit_word_eqI) (auto simp: bit_simps)

lemma parse_asn1_tag_der_tag:
  "parse_asn1_tag (view (der_tag t @ rest) after) = (Some t, view rest after)"
proof -
  let ?l = "ucast (drop_bit 24 t) :: u8"
  let ?n = "t AND 0x1fffffff"
  have nle: "?n \<le> 0x1fffffff" by (rule word_and_le1)
  show ?thesis
  proof (cases "?n \<ge> 0x1f")
    case True
    have v: "(word_of_nat (unat ?n) :: u64) = ucast ?n" by simp
    have "unat ?n < 2 ^ 64"
      using nle by (simp add: word_le_nat_alt)
    moreover have "\<not> (ucast ?n :: u64) > ucast CBS_ASN1_TAG_NUMBER_MASK"
      using nle by (simp add: CBS_ASN1_TAG_NUMBER_MASK_def word_le_nat_alt word_less_nat_alt unat_ucast_u32_u64)
    moreover have "\<not> (ucast ?n :: u64) < 0x1f"
      using True by (simp add: word_le_nat_alt word_less_nat_alt unat_ucast_u32_u64)
    ultimately show ?thesis
      using True
      by (simp add: der_tag_def Let_def parse_asn1_tag_def view_simps parse_base128 v
          CBS_ASN1_TAG_SHIFT_def ucast_and_e0 class_bits tag_split)
  next
    case False
    let ?m = "ucast ?n :: u8"
    have lt: "unat ?n < 31" using False by (simp add: word_le_nat_alt not_le)
    then have um: "unat ?m = unat ?n"
      by (simp add: unsigned_ucast_eq take_bit_eq_mod)
    with lt have m: "?m < 0x1f" by (simp add: word_less_nat_alt)
    have bk: "(ucast ?m :: u32) = ?n"
      by (simp only: word_unat_eq_iff unat_ucast_u8_u32 um)
    have "?n \<noteq> 0x1f" using False by auto
    with False show ?thesis
      by (simp add: der_tag_def Let_def parse_asn1_tag_def view_simps
          CBS_ASN1_TAG_SHIFT_def ucast_and_e0 tag_byte_low [OF m] class_bits tag_split bk)
  qed
qed

text \<open>Conversely, a tag is only read from its identifier octets.\<close>

lemma tag_number_bits: "n \<le> 0x1fffffff \<Longrightarrow> take_bit 29 n = (n :: u32)"
  by (simp add: word_unat_eq_iff unsigned_take_bit_eq word_le_nat_alt take_bit_nat_eq_self)

lemma tag_join:
  assumes n: "n \<le> 0x1fffffff"
  shows "(push_bit 24 (ucast (b :: u8) AND 0xe0) OR n) AND 0x1fffffff = (n :: u32)"
    and "(ucast (drop_bit 24 (push_bit 24 (ucast (b :: u8) AND 0xe0) OR n)) AND 0xe0 :: u8) = b AND 0xe0"
proof -
  have n29: "take_bit 29 n = n" by (rule tag_number_bits [OF n])
  have hi: "\<not> bit n 29" "\<not> bit n 30" "\<not> bit n 31"
    by (subst n29 [symmetric], simp add: bit_simps)+
  have L: "push_bit 24 (ucast b AND 0xe0 :: u32) = push_bit 24 (ucast (b AND 0xe0))"
    by (simp add: ucast_and_e0)
  have "push_bit 24 (ucast b AND 0xe0 :: u32) = push_bit 24 (ucast b) AND 0xe0000000"
    by (simp add: push_bit_and)
  then have "push_bit 24 (ucast b AND 0xe0 :: u32) AND 0x1fffffff = 0"
    by (simp add: and.assoc)
  moreover have "n AND 0x1fffffff = n"
    using n29 by (simp add: take_bit_eq_mask mask_eq_exp_minus_1)
  ultimately show "(push_bit 24 (ucast b AND 0xe0) OR n) AND 0x1fffffff = n"
    by (simp add: bit.conj_disj_distrib2)
  show "(ucast (drop_bit 24 (push_bit 24 (ucast b AND 0xe0) OR n)) AND 0xe0 :: u8) = b AND 0xe0"
    unfolding L by (simp add: u8_eq_iff bit_simps hi)
qed

lemma byte_split: "(b AND 0xe0) OR (b AND 0x1f) = (b :: u8)"
proof -
  have "(b AND 0xe0) OR (b AND 0x1f) = b AND (0xe0 OR 0x1f)"
    by (simp only: bit.conj_disj_distrib)
  also have "0xe0 OR 0x1f = (-1 :: u8)" by simp
  finally show ?thesis by simp
qed

lemma ucast_1f: "(ucast (b AND 0x1f :: u8) :: u32) = 0x1f \<longleftrightarrow> b AND 0x1f = 0x1f"
  by (simp add: word_unat_eq_iff unat_ucast_u8_u32)

lemma parse_asn1_tag_inv:
  assumes "parse_asn1_tag (view bs after) = (Some t, cbs')"
  shows "\<exists>rest. cbs' = view rest after \<and> bs = der_tag t @ rest"
proof (cases bs)
  case Nil
  with assms show ?thesis by (simp add: parse_asn1_tag_def view_simps)
next
  case (Cons b bs')
  let ?num = "ucast (b AND 0x1f) :: u32"
  let ?lead = "push_bit 24 (ucast b AND 0xe0) :: u32"
  show ?thesis
  proof (cases "?num = 0x1f")
    case False
    have res: "t = ?lead OR ?num" "cbs' = view bs' after"
      using assms Cons False
      by (simp_all add: parse_asn1_tag_def view_simps CBS_ASN1_TAG_SHIFT_def Let_def)
    have "unat (b AND 0x1f) \<le> 31"
      using word_and_le1 [of b "0x1f"] by (simp add: word_le_nat_alt)
    moreover have "unat (b AND 0x1f) \<noteq> 31"
      using False unfolding ucast_1f by (simp add: word_unat_eq_iff)
    ultimately have lt: "unat ?num < 31" by (simp add: unat_ucast_u8_u32)
    then have le: "?num \<le> 0x1fffffff" and "\<not> ?num \<ge> 0x1f"
      by (simp_all add: word_le_nat_alt)
    moreover have "ucast ?num = b AND 0x1f" by (rule bit_word_eqI) (auto simp: bit_simps)
    moreover have "t AND 0x1fffffff = ?num" and "(ucast (drop_bit 24 t) AND 0xe0 :: u8) = b AND 0xe0"
      unfolding res by (rule tag_join [OF le])+
    ultimately have "der_tag t = [b]"
      by (simp add: der_tag_def Let_def byte_split)
    with res Cons show ?thesis by simp
  next
    case True
    with assms Cons obtain v where v: "parse_base128_integer (view bs' after) = (Some v, cbs')"
       and vle: "v \<le> 0x1fffffff" and vge: "v \<ge> 0x1f" and t: "t = ?lead OR ucast v"
      by (auto simp: parse_asn1_tag_def view_simps CBS_ASN1_TAG_SHIFT_def Let_def
          CBS_ASN1_TAG_NUMBER_MASK_def not_less split: if_splits option.splits prod.splits)
    have uv: "unat (ucast v :: u32) = unat v"
      using vle by (simp add: unsigned_ucast_eq take_bit_nat_eq_self word_le_nat_alt)
    with vle vge have le: "ucast v \<le> (0x1fffffff :: u32)" and ge: "ucast v \<ge> (0x1f :: u32)"
      by (simp_all add: word_le_nat_alt)
    have "b AND 0x1f = 0x1f" using True by (simp add: ucast_1f)
    then have "(b AND 0xe0) OR 0x1f = b" using byte_split [of b] by simp
    moreover have "t AND 0x1fffffff = ucast v" and "(ucast (drop_bit 24 t) AND 0xe0 :: u8) = b AND 0xe0"
      unfolding t by (rule tag_join [OF le])+
    ultimately have "der_tag t = b # base128 (unat v)"
      using ge by (simp add: der_tag_def Let_def uv)
    with parse_base128_inv [OF v] Cons show ?thesis by auto
  qed
qed

section \<open>Length octets and elements\<close>

text \<open>The number of length octets that follow the first.\<close>

definition der_len_octets :: "nat \<Rightarrow> nat" where
  "der_len_octets n =
     (if n > 0xffffff then 4 else if n > 0xffff then 3 else if n > 0xff then 2
      else if n > 0x7f then 1 else 0)"

definition der_len :: "nat \<Rightarrow> u8 list" where
  "der_len n =
     (if der_len_octets n = 0 then [word_of_nat n]
      else word_of_nat (128 + der_len_octets n) # be_bytes (der_len_octets n) n)"

definition der_header :: "u32 \<Rightarrow> nat \<Rightarrow> u8 list" where
  "der_header t n = der_tag t @ der_len n"

definition der_element :: "u32 \<Rightarrow> u8 list \<Rightarrow> u8 list" where
  "der_element t body = der_header t (length body) @ body"

lemma der_len_octets_le: "der_len_octets n \<le> 4"
  by (simp add: der_len_octets_def)

lemma length_der_len [simp]: "length (der_len n) = Suc (der_len_octets n)"
  by (simp add: der_len_def)

lemma length_base128_high: "u < 128 ^ k \<Longrightarrow> length (base128_high u) \<le> k"
proof (induction u arbitrary: k rule: base128_high.induct)
  case (1 u)
  show ?case
  proof (cases "u = 0")
    case False
    with 1(2) obtain k' where k: "k = Suc k'" by (cases k) auto
    with 1(2) have "u div 128 < 128 ^ k'" by (simp add: div_less_iff_less_mult mult.commute)
    with 1(1) [OF False] have "length (base128_high (u div 128)) \<le> k'" .
    with False k show ?thesis by (subst base128_high.simps) simp
  qed simp
qed

lemma length_der_tag: "length (der_tag t) \<le> 6"
proof -
  let ?n = "unat (t AND 0x1fffffff)"
  have "?n \<le> 0x1fffffff"
    using word_and_le1 [of t "0x1fffffff"] by (simp add: word_le_nat_alt)
  then have "?n div 128 < 128 ^ 4" by (simp add: div_less_iff_less_mult)
  then have "length (base128_high (?n div 128)) \<le> 4" by (rule length_base128_high)
  then show ?thesis by (simp add: der_tag_def Let_def base128_def)
qed

lemma length_der_header: "length (der_header t n) \<le> 11"
  using length_der_tag [of t] der_len_octets_le [of n] by (simp add: der_header_def)

lemma der_header_nonempty [simp]: "der_header t n \<noteq> []"
  by (simp add: der_header_def der_len_def)

lemma less_256_power_cases:
  "n < 256 ^ der_len_octets n \<or> der_len_octets n = 0" if "n < 2 ^ 32"
  using that by (simp add: der_len_octets_def)

lemma get_element_view:
  "get_element t h n (view bs after) =
     (if length bs < n then (None, view bs after)
      else (Some (view (take n bs) (drop n bs @ after), t, h), view (drop n bs) after))"
  by (simp add: get_element_def CBS_get_bytes_view)

lemma der_len_first:
  assumes "der_len_octets n \<noteq> 0"
  shows "unat (word_of_nat (128 + der_len_octets n) :: u8) = 128 + der_len_octets n"
  using der_len_octets_le [of n] by (intro unat_u8_of_nat) simp

lemma u8_and_80_7f_large:
  assumes "unat b = 128 + k" and "k < 128"
  shows "b AND 0x80 \<noteq> (0 :: u8)" and "unat (b AND 0x7f) = k"
  using assms by (simp_all add: and_80_eq_0_iff unat_and_7f)

text \<open>The parser reads an element that is encoded this way, in either mode.\<close>

lemma get_any_asn1_der:
  assumes body: "length body < 2 ^ 32"
  shows "cbs_get_any_asn1_element ber_ok (view (der_element t body @ rest) after) =
    (Some (view (der_element t body) (rest @ after), t, length (der_header t (length body))),
     view rest after)"
proof -
  let ?n = "length body"
  let ?k = "der_len_octets ?n"
  have tag: "length (der_tag t) \<le> 6" by (rule length_der_tag)
  show ?thesis
  proof (cases "?k = 0")
    case True
    then have n: "?n < 128" by (simp add: der_len_octets_def split: if_splits)
    then have un: "unat (word_of_nat ?n :: u8) = ?n" by (intro unat_u8_of_nat) simp
    have short: "(word_of_nat ?n :: u8) AND 0x80 = 0"
      using n by (simp add: and_80_eq_0_iff un)
    have "sz_add ?n (Suc (length (der_tag t))) = ?n + Suc (length (der_tag t))"
      using n tag by (simp add: size_simps)
    then show ?thesis
      using True short un
      by (simp add: cbs_get_any_asn1_element_def der_element_def der_header_def der_len_def
          parse_asn1_tag_der_tag view_simps Let_def get_element_view)
  next
    case False
    let ?b = "word_of_nat (128 + ?k) :: u8"
    have ub: "unat ?b = 128 + ?k" by (rule der_len_first [OF False])
    have k: "0 < ?k" "?k \<le> 4" using False der_len_octets_le by auto
    have long: "?b AND 0x80 \<noteq> 0" "unat (?b AND 0x7f) = ?k"
      using u8_and_80_7f_large [OF ub] k by auto
    have lt: "?n < 256 ^ ?k" using less_256_power_cases [OF body] False by simp
    have v: "be_acc 0 (be_bytes ?k ?n) = word_of_nat ?n"
      using lt by (simp add: be_acc_0 be_nat_be_bytes)
    have uv: "unat (word_of_nat ?n :: u64) = ?n"
      using body by (simp add: unsigned_of_nat take_bit_nat_eq_self)
    have ge: "\<not> (word_of_nat ?n :: u64) < 128"
      using False uv by (simp add: word_less_nat_alt der_len_octets_def split: if_splits)
    have drop: "drop_bit ((?k - 1) * 8) (word_of_nat ?n :: u64) \<noteq> 0"
    proof -
      have "2 ^ ((?k - 1) * 8) \<le> ?n"
        using False by (simp add: der_len_octets_def split: if_splits)
      then have "0 < ?n div 2 ^ ((?k - 1) * 8)" by (simp add: div_greater_zero_iff)
      then have "unat (drop_bit ((?k - 1) * 8) (word_of_nat ?n :: u64)) \<noteq> 0"
        by (simp only: unat_drop_u64 uv)
      then show ?thesis by (metis unat_0)
    qed
    let ?h = "Suc (length (der_tag t))"
    have "cbs_get_any_asn1_element ber_ok (view (der_element t body @ rest) after) =
        get_element t (?h + ?k) (?n + (?h + ?k)) (view (der_element t body @ rest) after)"
      using False long k ge drop body tag
      by (simp add: cbs_get_any_asn1_element_def der_element_def der_header_def der_len_def
          parse_asn1_tag_der_tag view_simps Let_def cbs_get_u_view v uv size_simps add.assoc)
    then show ?thesis
      using False by (simp add: get_element_view der_element_def der_header_def)
  qed
qed

lemma u8_high: "b AND 0x80 \<noteq> 0 \<Longrightarrow> unat b = 128 + unat (b AND 0x7f :: u8)"
  unfolding and_80_eq_0_iff unat_and_7f not_less
  by (rule nat_high_mod) (simp_all only: unat_u8_less)

text \<open>What the parser accepts. In DER mode an element is exactly the encoding of its tag and
  contents; in BER mode a constructed element may also have the indefinite length, of
  which only the header is handed out.\<close>

lemma be_nat_length_octets:
  assumes len: "length bs = k" "k \<noteq> 0" "k \<le> 4"
    and big: "be_nat bs \<ge> 128" and top: "be_nat bs div 2 ^ ((k - 1) * 8) \<noteq> 0"
  shows "der_len_octets (be_nat bs) = k" and "be_nat bs < 2 ^ 32"
proof -
  have up: "be_nat bs < 256 ^ k" using be_nat_less [of bs] len by simp
  have lo: "2 ^ ((k - 1) * 8) \<le> be_nat bs" using top by (simp add: div_eq_0_iff not_less)
  have "k = 1 \<or> k = 2 \<or> k = 3 \<or> k = 4" using len by arith
  then show "der_len_octets (be_nat bs) = k" and "be_nat bs < 2 ^ 32"
    using up lo big by (auto simp: der_len_octets_def)
qed

lemma get_element_Some:
  assumes "get_element t h n (view (pre @ bs) after) = (Some (out, t', h'), cbs')"
    and "n = m + length pre"
  shows "m \<le> length bs \<and> t' = t \<and> h' = h \<and>
     out = view (pre @ take m bs) (drop m bs @ after) \<and> cbs' = view (drop m bs) after"
  using assms by (auto simp: get_element_view split: if_splits)

lemma get_any_asn1_inv:
  assumes "cbs_get_any_asn1_element ber_ok (view bs after) = (Some (out, t, h), cbs')"
  shows "(\<exists>body rest. length body < 2 ^ 32 \<and> bs = der_element t body @ rest \<and>
       out = view (der_element t body) (rest @ after) \<and>
       h = length (der_header t (length body)) \<and> cbs' = view rest after) \<or>
    (ber_ok \<and> t AND CBS_ASN1_CONSTRUCTED \<noteq> 0 \<and>
      (\<exists>rest. bs = der_tag t @ 0x80 # rest \<and> out = view (der_tag t @ [0x80]) (rest @ after) \<and>
        h = Suc (length (der_tag t)) \<and> cbs' = view rest after))"
proof -
  obtain tag header where ptag: "parse_asn1_tag (view bs after) = (Some tag, header)"
    using assms by (auto simp: cbs_get_any_asn1_element_def split: option.splits prod.splits)
  from parse_asn1_tag_inv [OF ptag] obtain r1 where bs: "bs = der_tag tag @ r1"
    and header: "header = view r1 after" by auto
  obtain b r2 where r1: "r1 = b # r2"
    using assms ptag header by (cases r1) (auto simp: cbs_get_any_asn1_element_def view_simps)
  let ?k = "unat (b AND 0x7f)"
  have tag6: "length (der_tag tag) \<le> 6" by (rule length_der_tag)
  show ?thesis
  proof (cases "b AND 0x80 = 0")
    case True
    then have b: "unat b < 128" by (simp add: and_80_eq_0_iff)
    have "get_element tag (Suc (length (der_tag tag))) (unat b + Suc (length (der_tag tag)))
        (view ((der_tag tag @ [b]) @ r2) after) = (Some (out, t, h), cbs')"
      using assms ptag header True b tag6
      by (simp add: cbs_get_any_asn1_element_def view_simps bs r1 size_simps Let_def)
    from get_element_Some [OF this, of "unat b"]
    have res: "unat b \<le> length r2" "t = tag" "h = Suc (length (der_tag tag))"
      "out = view ((der_tag tag @ [b]) @ take (unat b) r2) (drop (unat b) r2 @ after)"
      "cbs' = view (drop (unat b) r2) after" by auto
    let ?body = "take (unat b) r2"
    have "der_header tag (length ?body) = der_tag tag @ [b]"
      using res(1) b by (simp add: der_header_def der_len_def der_len_octets_def min_def)
    then have "der_element tag ?body = (der_tag tag @ [b]) @ ?body"
      by (simp only: der_element_def)
    with res b bs r1 \<open>der_header tag (length ?body) = der_tag tag @ [b]\<close>
    show ?thesis
      by (intro disjI1 exI [of _ ?body] exI [of _ "drop (unat b) r2"]) (simp add: min_def)
  next
    case False
    then have b: "unat b = 128 + ?k" by (rule u8_high)
    show ?thesis
    proof (cases "?k = 0")
      case True
      with assms ptag header False have ber: "ber_ok" "tag AND CBS_ASN1_CONSTRUCTED \<noteq> 0"
        by (auto simp: cbs_get_any_asn1_element_def view_simps bs r1 Let_def split: if_splits)
      have "get_element tag (Suc (length (der_tag tag))) (Suc (length (der_tag tag)))
          (view ((der_tag tag @ [b]) @ r2) after) = (Some (out, t, h), cbs')"
        using assms ptag header False True ber
        by (simp add: cbs_get_any_asn1_element_def view_simps bs r1 Let_def)
      moreover have "b = 0x80" using b True by (simp add: unat_u8_eq_128_iff)
      ultimately show ?thesis
        using get_element_Some [of tag _ _ "der_tag tag @ [b]" r2 after out t h cbs' 0] ber bs r1
        by (intro disjI2) auto
    next
      case k0: False
      with assms ptag header False have k4: "?k \<le> 4" and kr: "?k \<le> length r2"
        by (auto simp: cbs_get_any_asn1_element_def view_simps bs r1 Let_def cbs_get_u_view
            split: if_splits)
      let ?l = "take ?k r2"
      let ?n = "be_nat ?l"
      have len: "length ?l = ?k" using kr by simp
      have acc: "be_acc 0 ?l = word_of_nat ?n" by (rule be_acc_0)
      have un: "unat (be_acc 0 ?l) = ?n" using unat_be_acc [of ?l] k4 by simp
      have n128: "?n \<ge> 128" and top: "?n div 2 ^ ((?k - 1) * 8) \<noteq> 0"
        using assms ptag header False k0 k4 kr un
        by (auto simp: cbs_get_any_asn1_element_def view_simps bs r1 Let_def cbs_get_u_view
            word_less_nat_alt not_less word_unat_eq_iff unat_drop_u64 split: if_splits)
      from be_nat_length_octets [OF len k0 k4 n128 top]
      have oct: "der_len_octets ?n = ?k" and n32: "?n < 2 ^ 32" by auto
      have ge: "\<not> be_acc 0 ?l < 128"
        using n128 un by (simp add: word_less_nat_alt)
      have tp: "drop_bit ((?k - 1) * 8) (be_acc 0 ?l) \<noteq> 0"
        using top un by (metis unat_drop_u64 unat_0)
      have "get_element tag (Suc (length (der_tag tag)) + ?k)
          (?n + (Suc (length (der_tag tag)) + ?k))
          (view ((der_tag tag @ b # ?l) @ drop ?k r2) after) = (Some (out, t, h), cbs')"
        using assms ptag header False k0 k4 kr n32 tag6 ge tp
        by (simp add: cbs_get_any_asn1_element_def view_simps bs r1 Let_def cbs_get_u_view un
            size_simps add.assoc)
      from get_element_Some [OF this, of ?n] len
      have res: "?n \<le> length (drop ?k r2)" "t = tag" "h = Suc (length (der_tag tag)) + ?k"
        "out = view ((der_tag tag @ b # ?l) @ take ?n (drop ?k r2)) (drop ?n (drop ?k r2) @ after)"
        "cbs' = view (drop ?n (drop ?k r2)) after" by auto
      let ?body = "take ?n (drop ?k r2)"
      have lb: "length ?body = ?n" using res(1) by simp
      have "b = word_of_nat (128 + ?k)" using b by (metis of_nat_unat ucast_id)
      then have hdr: "der_header tag (length ?body) = der_tag tag @ b # ?l"
        using oct k0 len be_bytes_be_nat [of ?l] by (simp only: lb der_header_def der_len_def) simp
      then have elem: "der_element tag ?body = (der_tag tag @ b # ?l) @ ?body"
        by (simp only: der_element_def)
      have "bs = der_element tag ?body @ drop ?n (drop ?k r2)"
        unfolding elem bs r1 by (simp only: append.assoc append_Cons append_take_drop_id)
      moreover have "h = length (der_header tag (length ?body))"
        unfolding hdr res(3) using len by simp
      ultimately show ?thesis
        using res n32 lb elem by (intro disjI1 exI [of _ ?body] exI [of _ "drop ?n (drop ?k r2)"]) simp
    qed
  qed
qed

end
