(* ===== verification/Cbb_Spec.thy ===== *)
theory Cbb_Spec
  imports Cbb Der
begin

text \<open>
  What the builder promises, and that \<open>Cbb\<close> implements it. The abstract state is the
  contents of the top-level object and a stack of open children with their contents;
  writing appends to the innermost object, closing a child appends its length prefix
  and contents to its parent. \<open>cbb_rep\<close> relates a concrete state to an abstract one,
  and each operation is shown to be the abstract one under it.
\<close>

section \<open>The abstract builder\<close>

datatype prefix_kind = Fixed nat | Der

type_synonym layer = "prefix_kind \<times> u8 list"
type_synonym builder = "u8 list \<times> layer list"

text \<open>The placeholder a kind of prefix occupies while its child is open.\<close>

fun hole_len :: "prefix_kind \<Rightarrow> nat" where
  "hole_len (Fixed n) = n"
| "hole_len Der = 1"

fun prefix_bytes :: "prefix_kind \<Rightarrow> nat \<Rightarrow> u8 list" where
  "prefix_bytes (Fixed n) len = be_bytes n len"
| "prefix_bytes Der len = der_len len"

fun prefix_fits :: "prefix_kind \<Rightarrow> nat \<Rightarrow> bool" where
  "prefix_fits (Fixed n) len \<longleftrightarrow> len < 256 ^ n"
| "prefix_fits Der len \<longleftrightarrow> len \<le> 0xfffffffe"

fun kind_ok :: "prefix_kind \<Rightarrow> bool" where
  "kind_ok (Fixed n) \<longleftrightarrow> 0 < n \<and> n \<le> 8"
| "kind_ok Der \<longleftrightarrow> True"

definition closed :: "layer \<Rightarrow> u8 list" where
  "closed l = prefix_bytes (fst l) (length (snd l)) @ snd l"

definition add_top :: "u8 list \<Rightarrow> builder \<Rightarrow> builder" where
  "add_top x a =
     (if snd a = [] then (fst a @ x, [])
      else (fst a, butlast (snd a) @ [(fst (last (snd a)), snd (last (snd a)) @ x)]))"

definition open_top :: "prefix_kind \<Rightarrow> builder \<Rightarrow> builder" where
  "open_top k a = (fst a, snd a @ [(k, [])])"

definition close_top :: "builder \<Rightarrow> builder" where
  "close_top a = add_top (closed (last (snd a))) (fst a, butlast (snd a))"

function close_to :: "nat \<Rightarrow> builder \<Rightarrow> builder" where
  "close_to d a = (if length (snd a) \<le> d then a else close_top (close_to (Suc d) a))"
  by pat_completeness auto
termination by (relation "measure (\<lambda>(d, a). length (snd a) - d)") auto

declare close_to.simps [simp del]

text \<open>Every child that \<open>close_to d\<close> closes fits its prefix.\<close>

function fits_to :: "nat \<Rightarrow> builder \<Rightarrow> bool" where
  "fits_to d a \<longleftrightarrow>
     (if length (snd a) \<le> d then True
      else fits_to (Suc d) a \<and>
        (let l = last (snd (close_to (Suc d) a)) in prefix_fits (fst l) (length (snd l))))"
  by pat_completeness auto
termination by (relation "measure (\<lambda>(d, a). length (snd a) - d)") auto

declare fits_to.simps [simp del]

section \<open>The representation\<close>

definition layer_bytes :: "layer \<Rightarrow> u8 list" where
  "layer_bytes l = replicate (hole_len (fst l)) 0 @ snd l"

definition written :: "builder \<Rightarrow> u8 list" where
  "written a = fst a @ concat (map layer_bytes (snd a))"

fun frames_at :: "nat \<Rightarrow> layer list \<Rightarrow> cbb_child list" where
  "frames_at off [] = []"
| "frames_at off (l # ls) =
     \<lparr>offset = off, pending_len_len = hole_len (fst l), pending_is_asn1 = (fst l = Der)\<rparr>
     # frames_at (off + length (layer_bytes l)) ls"

definition frames :: "builder \<Rightarrow> cbb_child list" where
  "frames a = frames_at (length (fst a)) (snd a)"

text \<open>The buffer holds exactly \<open>w\<close> in a block of \<open>b_cap\<close> bytes.\<close>

definition buf_ok :: "cbb_buffer \<Rightarrow> u8 list \<Rightarrow> bool" where
  "buf_ok base w \<longleftrightarrow>
     \<not> b_error base \<and> b_len base = length w \<and> take (length w) (b_data base) = w \<and>
     length (b_data base) = b_cap base \<and> length w \<le> b_cap base \<and> b_cap base + 8 < 2 ^ 63"

definition cbb_rep :: "CBB \<Rightarrow> builder \<Rightarrow> bool" where
  "cbb_rep cbb a \<longleftrightarrow>
     (\<exists>base. cbb_base cbb = Some base \<and> buf_ok base (written a)) \<and>
     cbb_children cbb = frames a \<and> (\<forall>l \<in> set (snd a). kind_ok (fst l))"

lemma length_frames_at [simp]: "length (frames_at off ls) = length ls"
  by (induction ls arbitrary: off) auto

lemma length_frames [simp]: "length (frames a) = length (snd a)"
  by (simp add: frames_def)

lemma frames_at_append:
  "frames_at off (ls @ ls') = frames_at off ls @ frames_at (off + length (concat (map layer_bytes ls))) ls'"
  by (induction ls arbitrary: off) (auto simp: add.assoc)

lemma written_snoc: "written (r, ls @ [l]) = written (r, ls) @ layer_bytes l"
  by (simp add: written_def)

lemma frames_snoc:
  "frames (r, ls @ [l]) = frames (r, ls) @
     [\<lparr>offset = length (written (r, ls)), pending_len_len = hole_len (fst l),
       pending_is_asn1 = (fst l = Der)\<rparr>]"
  by (simp add: frames_def frames_at_append written_def)

lemma add_top_Nil: "add_top x (r, []) = (r @ x, [])"
  by (simp add: add_top_def)

lemma add_top_snoc: "add_top x (r, ls @ [(k, c)]) = (r, ls @ [(k, c @ x)])"
  by (simp add: add_top_def)

lemma close_top_snoc: "close_top (r, ls @ [l]) = add_top (closed l) (r, ls)"
  by (simp add: close_top_def)

lemma builder_cases:
  obtains r where "a = (r, [] :: layer list)" | r ls k c where "a = (r, ls @ [(k :: prefix_kind, c :: u8 list)])"
  by (cases a, cases "snd a" rule: rev_cases) auto

lemma written_add_top [simp]: "written (add_top x a) = written a @ x"
  by (rule builder_cases [of a])
     (auto simp: add_top_Nil add_top_snoc written_def layer_bytes_def)

lemma frames_add_top [simp]: "frames (add_top x a) = frames a"
  by (rule builder_cases [of a])
     (auto simp: add_top_Nil add_top_snoc frames_def frames_at_append)

lemma length_snd_add_top [simp]: "length (snd (add_top x a)) = length (snd a)"
  by (rule builder_cases [of a]) (auto simp: add_top_Nil add_top_snoc)

lemma kinds_add_top [simp]: "map fst (snd (add_top x a)) = map fst (snd a)"
  by (rule builder_cases [of a]) (auto simp: add_top_Nil add_top_snoc)

lemma add_top_add_top [simp]: "add_top y (add_top x a) = add_top (x @ y) a"
  by (rule builder_cases [of a]) (auto simp: add_top_Nil add_top_snoc)

lemma add_top_empty [simp]: "add_top [] a = a"
  by (rule builder_cases [of a]) (auto simp: add_top_Nil add_top_snoc)

lemma kind_ok_add_top [simp]:
  "(\<forall>l \<in> set (snd (add_top x a)). kind_ok (fst l)) \<longleftrightarrow> (\<forall>l \<in> set (snd a). kind_ok (fst l))"
  by (rule builder_cases [of a]) (auto simp: add_top_Nil add_top_snoc)

lemma length_snd_close_to: "length (snd (close_to d a)) = min d (length (snd a))"
proof (induction d a rule: close_to.induct)
  case (1 d a)
  then show ?case
    by (subst close_to.simps) (auto simp: close_top_def)
qed

lemma close_to_id [simp]: "length (snd a) \<le> d \<Longrightarrow> close_to d a = a"
  by (subst close_to.simps) simp

lemma fits_to_id [simp]: "length (snd a) \<le> d \<Longrightarrow> fits_to d a"
  by (subst fits_to.simps) simp

section \<open>The buffer operations\<close>

lemma buf_ok_reserve:
  assumes m: "malloc_ok m" and ok: "buf_ok base w" and n: "n < 2 ^ 63"
    and r: "cbb_buffer_reserve m n base = (True, base')"
  shows "buf_ok base' w" and "length w + n \<le> b_cap base'" and "b_can_resize base' = b_can_resize base"
proof -
  have cap: "b_cap base + 8 < 2 ^ 63" and len: "b_len base = length w" and le: "length w \<le> b_cap base"
    and dl: "length (b_data base) = b_cap base" using ok by (auto simp: buf_ok_def)
  have new: "sz_add (b_len base) n = length w + n"
    using cap len le n by (simp add: size_simps)
  have dbl: "sz_mul (b_cap base) 2 = b_cap base * 2"
    using cap by (simp add: size_simps)
  have "buf_ok base' w \<and> length w + n \<le> b_cap base' \<and> b_can_resize base' = b_can_resize base"
  proof (cases "length w + n > b_cap base")
    case False
    with r new have "base' = base" by (simp add: cbb_buffer_reserve_def len)
    with ok False show ?thesis by simp
  next
    case True
    let ?c = "if b_cap base * 2 < length w + n then length w + n else b_cap base * 2"
    from r new dbl True obtain buf where buf: "OPENSSL_realloc m (b_data base) ?c = Some buf"
      and b': "base' = base\<lparr>b_data := buf, b_cap := ?c\<rparr>"
      by (auto simp: cbb_buffer_reserve_def len Let_def split: if_splits option.splits)
    have c: "?c + 8 < 2 ^ 64" "length (b_data base) \<le> ?c"
      using cap le n dl True by auto
    from OPENSSL_realloc_Some [OF m buf c]
    have "length buf = ?c" "take (b_cap base) buf = b_data base" "?c + 8 < 2 ^ 63"
      using dl by auto
    moreover have "take (length w) buf = take (length w) (take (b_cap base) buf)"
      using le by (simp add: min_def)
    ultimately show ?thesis
      using ok True unfolding buf_ok_def b' by (auto simp: len)
  qed
  then show "buf_ok base' w" and "length w + n \<le> b_cap base'"
    and "b_can_resize base' = b_can_resize base" by auto
qed

lemma buf_ok_len: "buf_ok base w \<Longrightarrow> b_len base = length w"
  by (simp add: buf_ok_def)

lemma buf_ok_small: "buf_ok base w \<Longrightarrow> length w < 2 ^ 63"
  by (simp add: buf_ok_def)

lemma buf_ok_add:
  assumes m: "malloc_ok m" and ok: "buf_ok base w" and n: "n < 2 ^ 63"
    and r: "cbb_buffer_add m n base = (True, base')"
  shows "\<exists>junk. length junk = n \<and> buf_ok base' (w @ junk)"
proof -
  from r obtain b where b: "cbb_buffer_reserve m n base = (True, b)"
    and b': "base' = b\<lparr>b_len := sz_add (b_len b) n\<rparr>"
    by (auto simp: cbb_buffer_add_def split: prod.splits bool.splits)
  from buf_ok_reserve [OF m ok n b] have bo: "buf_ok b w" and cap: "length w + n \<le> b_cap b" by auto
  have lt: "b_cap b < 2 ^ 63" using bo by (simp add: buf_ok_def)
  have len: "sz_add (b_len b) n = length w + n"
    using bo cap lt by (simp add: size_simps buf_ok_len)
  let ?junk = "take n (drop (length w) (b_data b))"
  have lj: "length ?junk = n" using bo cap by (simp add: buf_ok_def)
  have "take (length w + n) (b_data b) = w @ ?junk"
    using bo by (simp add: take_add buf_ok_def)
  then have "buf_ok base' (w @ ?junk)"
    using bo cap len lj unfolding buf_ok_def b' by simp
  with lj show ?thesis by blast
qed

lemma mem_write_append:
  "off + length bs \<le> length x \<Longrightarrow> mem_write off bs (x @ y) = mem_write off bs x @ y"
  by (simp add: mem_write_def)

lemma take_mem_write_within:
  "off + length bs \<le> n \<Longrightarrow> n \<le> length m \<Longrightarrow> take n (mem_write off bs m) = mem_write off bs (take n m)"
  using mem_write_append [of off bs "take n m" "drop n m"] by simp

lemma buf_ok_write:
  assumes "buf_ok base w" and "off + length bs \<le> length w"
  shows "buf_ok (base\<lparr>b_data := mem_write off bs (b_data base)\<rparr>) (mem_write off bs w)"
  using assms by (auto simp: buf_ok_def take_mem_write_within)

lemma buf_ok_upd:
  assumes "buf_ok base w" and "off < length w"
  shows "buf_ok (base\<lparr>b_data := (b_data base)[off := x]\<rparr>) (w[off := x])"
  using assms by (auto simp: buf_ok_def take_update_swap)

lemma mem_write_mid:
  "length old = length bs \<Longrightarrow> mem_write (length pre) bs (pre @ old @ post) = pre @ bs @ post"
  by (simp add: mem_write_def)

lemma be_bytes_drop: "be_bytes (Suc n) (unat v) = be_bytes n (unat (drop_bit 8 v :: u64)) @ [ucast v]"
proof -
  have "unat (drop_bit 8 v) = unat v div 256" by (simp add: unat_drop_u64)
  moreover have "word_of_nat (unat v) = (ucast v :: u8)"
    by (metis of_nat_unat)
  ultimately show ?thesis by simp
qed

lemma put_be_eq:
  "off + n \<le> length buf \<Longrightarrow>
     put_be off n v buf = (mem_write off (be_bytes n (unat v)) buf, drop_bit (8 * n) v)"
proof (induction n arbitrary: v buf)
  case 0
  then show ?case by simp
next
  case (Suc n)
  let ?bs = "be_bytes n (unat (drop_bit 8 v))"
  have "mem_write off ?bs (buf[off + n := ucast v]) = mem_write off (?bs @ [ucast v]) buf"
    using Suc.prems by (simp add: mem_write_def upd_conv_take_nth_drop min_def)
  with Suc show ?case
    by (simp only: be_bytes_drop) (simp add: drop_bit_drop_bit add.commute)
qed

lemma drop_u64_eq_0: "n < 8 \<Longrightarrow> drop_bit (8 * n) (v :: u64) = 0 \<longleftrightarrow> unat v < 256 ^ n"
proof -
  assume "n < 8"
  have "drop_bit (8 * n) v = 0 \<longleftrightarrow> unat v div 2 ^ (8 * n) = 0"
    by (metis unat_drop_u64 unat_0 unat_eq_zero)
  then show ?thesis by (simp add: div_eq_0_iff power_mult)
qed

lemma buf_ok_add_u:
  assumes m: "malloc_ok m" and ok: "buf_ok base w" and n: "0 < n" "n \<le> 8"
    and r: "cbb_buffer_add_u m v n base = (True, base')"
  shows "buf_ok base' (w @ be_bytes n (unat v))" and "drop_bit (8 * n) v = 0"
proof -
  from r n obtain b where b: "cbb_buffer_add m n base = (True, b)"
    by (auto simp: cbb_buffer_add_u_def split: prod.splits bool.splits)
  from buf_ok_add [OF m ok _ b] n obtain junk where j: "length junk = n" and bo: "buf_ok b (w @ junk)"
    by auto
  have len: "b_len base = length w" using ok by (rule buf_ok_len)
  have "length w + n \<le> length (b_data b)" using bo j by (simp add: buf_ok_def)
  note eq = put_be_eq [OF this, of v]
  have b': "base' = b\<lparr>b_data := mem_write (length w) (be_bytes n (unat v)) (b_data b)\<rparr>"
    and z: "drop_bit (8 * n) v = 0"
    using r b n by (auto simp: cbb_buffer_add_u_def len eq split: if_splits)
  have "buf_ok base' (mem_write (length w) (be_bytes n (unat v)) (w @ junk))"
    unfolding b' using bo j by (intro buf_ok_write) auto
  with mem_write_mid [of junk "be_bytes n (unat v)" w "[]"] j
  show "buf_ok base' (w @ be_bytes n (unat v))" and "drop_bit (8 * n) v = 0" using z by simp_all
qed

section \<open>Flushing closes the open children\<close>

lemma asn1_len_len_eq:
  "asn1_len_len n = (Suc (der_len_octets n), hd (der_len n), if der_len_octets n = 0 then 0 else n)"
  by (simp add: asn1_len_len_def der_len_octets_def der_len_def)

lemma der_len_Cons: "der_len n = hd (der_len n) # be_bytes (der_len_octets n) n"
  by (simp add: der_len_def)

lemma drop_len_eq_0:
  assumes "n < 2 ^ 63" and "k \<le> 8"
  shows "drop_bit (8 * k) (word_of_nat n :: u64) = 0 \<longleftrightarrow> n < 256 ^ k"
proof (cases "k = 8")
  case True
  have "drop_bit 64 (word_of_nat n :: u64) = 0" by (simp add: drop_bit_word_beyond)
  with True assms show ?thesis by simp
next
  case False
  have "unat (word_of_nat n :: u64) = n"
    using assms(1) by (simp add: unsigned_of_nat take_bit_nat_eq_self)
  with False assms(2) show ?thesis by (simp add: drop_u64_eq_0)
qed

lemma unat_len: "n < 2 ^ 63 \<Longrightarrow> unat (word_of_nat n :: u64) = n"
  by (simp add: unsigned_of_nat take_bit_nat_eq_self)

lemma flush_asn1_prefix_ok:
  assumes m: "malloc_ok m" and ok: "buf_ok base (W @ 0 # c)"
    and off: "offset child = length W"
    and r: "flush_asn1_prefix m (Suc (length W)) (length c) child base = (True, len, child', base')"
  shows "\<exists>junk. length junk = der_len_octets (length c) \<and>
      buf_ok base' (W @ hd (der_len (length c)) # junk @ c) \<and>
      len = (if der_len_octets (length c) = 0 then 0 else length c) \<and>
      child' = child\<lparr>offset := Suc (length W), pending_len_len := der_len_octets (length c)\<rparr> \<and>
      length c \<le> 0xfffffffe"
proof -
  let ?k = "der_len_octets (length c)"
  have small: "length c \<le> 0xfffffffe"
    using r by (auto simp: flush_asn1_prefix_def split: if_splits)
  show ?thesis
  proof (cases "?k = 0")
    case True
    then have res: "len = 0" "child' = child\<lparr>offset := Suc (length W), pending_len_len := 0\<rparr>"
      "base' = base\<lparr>b_data := (b_data base)[length W := hd (der_len (length c))]\<rparr>"
      using r small by (auto simp: flush_asn1_prefix_def asn1_len_len_eq off)
    have "buf_ok base' (W @ hd (der_len (length c)) # c)"
      unfolding res using buf_ok_upd [OF ok, of "length W"] by simp
    with True res small show ?thesis by (intro exI [of _ "[]"]) simp
  next
    case False
    obtain ok1 b where b1: "cbb_buffer_add m ?k base = (ok1, b)" by fastforce
    have ok1: ok1 using r small False b1
      by (cases ok1) (simp_all add: flush_asn1_prefix_def asn1_len_len_eq)
    with b1 have b: "cbb_buffer_add m ?k base = (True, b)" by simp
    have res: "len = length c" "child' = child\<lparr>offset := Suc (length W), pending_len_len := ?k\<rparr>"
        "base' = b\<lparr>b_data := (mem_write (Suc (length W) + ?k)
           (take (length c) (drop (Suc (length W)) (b_data b))) (b_data b))
              [length W := hd (der_len (length c))]\<rparr>"
      using r small False b by (auto simp: flush_asn1_prefix_def asn1_len_len_eq off)
    have "?k < 2 ^ 63" using der_len_octets_le [of "length c"] by simp
    from buf_ok_add [OF m ok this b] obtain junk where j: "length junk = ?k"
      and bo: "buf_ok b (W @ 0 # c @ junk)" by auto
    have "take (length c) (drop (Suc (length W)) (b_data b)) =
        take (length c) (drop (Suc (length W)) (take (length (W @ 0 # c @ junk)) (b_data b)))"
      by (simp add: drop_take min_def)
    also have "\<dots> = c" using bo by (simp add: buf_ok_def)
    finally have c: "take (length c) (drop (Suc (length W)) (b_data b)) = c" .
    let ?w = "mem_write (Suc (length W) + ?k) c (W @ 0 # c @ junk)"
    have bo2: "buf_ok (b\<lparr>b_data := mem_write (Suc (length W) + ?k) c (b_data b)\<rparr>) ?w"
      using bo j by (intro buf_ok_write) auto
    have w: "?w = W @ 0 # take ?k (c @ junk) @ c"
      using j by (simp add: mem_write_def)
    have "buf_ok base' (W @ hd (der_len (length c)) # take ?k (c @ junk) @ c)"
      using buf_ok_upd [OF bo2, of "length W" "hd (der_len (length c))"] j unfolding res c w by simp
    with False res small j show ?thesis by (intro exI [of _ "take ?k (c @ junk)"]) auto
  qed
qed

lemma flush_child_rep:
  assumes m: "malloc_ok m" and rep: "cbb_rep cbb (r, ls @ [(k, c)])"
    and st: "start = length (written (r, ls)) + hole_len k"
    and f: "flush_child m (length ls) start cbb = (True, cbb')"
  shows "cbb_rep cbb' (close_top (r, ls @ [(k, c)]))" and "prefix_fits k (length c)"
proof -
  let ?W = "written (r, ls)"
  obtain base where base: "cbb_base cbb = Some base"
    and bo: "buf_ok base (?W @ replicate (hole_len k) 0 @ c)"
    using rep by (auto simp: cbb_rep_def written_snoc layer_bytes_def)
  have ch: "cbb_children cbb = frames (r, ls) @
      [\<lparr>offset = length ?W, pending_len_len = hole_len k, pending_is_asn1 = (k = Der)\<rparr>]"
    using rep by (simp add: cbb_rep_def frames_snoc)
  have kinds: "\<forall>l \<in> set ls. kind_ok (fst l)" and kk: "kind_ok k"
    using rep by (auto simp: cbb_rep_def)
  have nth: "cbb_children cbb ! length ls =
      \<lparr>offset = length ?W, pending_len_len = hole_len k, pending_is_asn1 = (k = Der)\<rparr>"
    and tk: "take (length ls) (cbb_children cbb) = frames (r, ls)"
    unfolding ch by (simp_all add: nth_append)
  have c63: "length c < 2 ^ 63" using buf_ok_small [OF bo] by simp
  have blen: "b_len base - start = length c" using buf_ok_len [OF bo] st by simp
  have goal: "cbb_rep cbb' (close_top (r, ls @ [(k, c)]))"
    if "cbb' = cbb\<lparr>cbb_base := Some base2, cbb_children := frames (r, ls)\<rparr>"
      and "buf_ok base2 (?W @ prefix_bytes k (length c) @ c)" for base2
    unfolding cbb_rep_def close_top_snoc kind_ok_add_top frames_add_top written_add_top
    using that kinds by (simp add: closed_def)
  have "cbb_rep cbb' (close_top (r, ls @ [(k, c)])) \<and> prefix_fits k (length c)"
  proof (cases k)
    case (Fixed n)
    have dl: "length ?W + n \<le> length (b_data base)" using bo Fixed by (simp add: buf_ok_def)
    have n8: "n \<le> 8" using kk Fixed by simp
    have fit: "drop_bit (8 * n) (word_of_nat (length c) :: u64) = 0"
      and cbb': "cbb' = cbb\<lparr>cbb_base := Some (base\<lparr>b_data :=
          mem_write (length ?W) (be_bytes n (length c)) (b_data base)\<rparr>), cbb_children := frames (r, ls)\<rparr>"
      using f base blen Fixed
      by (auto simp: flush_child_def Let_def nth tk put_be_eq [OF dl] unat_len [OF c63] split: if_splits)
    have "buf_ok (base\<lparr>b_data := mem_write (length ?W) (be_bytes n (length c)) (b_data base)\<rparr>)
        (mem_write (length ?W) (be_bytes n (length c)) (?W @ replicate n 0 @ c))"
      using bo Fixed by (intro buf_ok_write) auto
    then show ?thesis
      using goal [OF cbb'] fit drop_len_eq_0 [OF c63 n8] Fixed
      by (simp add: mem_write_mid)
  next
    case Der
    let ?k = "der_len_octets (length c)"
    from Der bo have bo': "buf_ok base (?W @ 0 # c)" by simp
    obtain len child2 base2 where pre: "flush_asn1_prefix m (Suc (length ?W)) (length c)
          (cbb_children cbb ! length ls) base = (True, len, child2, base2)"
      using f base blen Der st by (auto simp: flush_child_def Let_def nth split: prod.splits bool.splits)
    from flush_asn1_prefix_ok [OF m bo' _ pre] nth obtain junk where
      j: "length junk = ?k" and bo2: "buf_ok base2 (?W @ hd (der_len (length c)) # junk @ c)"
      and len: "len = (if ?k = 0 then 0 else length c)"
      and child2: "offset child2 = Suc (length ?W)" "pending_len_len child2 = ?k"
      and fits: "length c \<le> 0xfffffffe" by auto
    have dl: "Suc (length ?W) + ?k \<le> length (b_data base2)" using bo2 j by (simp add: buf_ok_def)
    have be: "be_bytes ?k (unat (word_of_nat len :: u64)) = be_bytes ?k (length c)"
      using len unat_len [OF c63] by simp
    have cbb': "cbb' = cbb\<lparr>cbb_base := Some (base2\<lparr>b_data :=
          mem_write (Suc (length ?W)) (be_bytes ?k (length c)) (b_data base2)\<rparr>),
            cbb_children := frames (r, ls)\<rparr>"
      using f base blen Der st pre
      by (auto simp: flush_child_def Let_def nth tk child2 put_be_eq [OF dl] be split: if_splits)
    let ?P = "?W @ [hd (der_len (length c))]"
    have bo3: "buf_ok base2 (?P @ junk @ c)" using bo2 by simp
    have w: "mem_write (length ?P) (be_bytes ?k (length c)) (?P @ junk @ c) =
        ?W @ prefix_bytes k (length c) @ c"
      using j Der by (subst mem_write_mid) (simp_all add: der_len_def)
    have "buf_ok (base2\<lparr>b_data := mem_write (Suc (length ?W)) (be_bytes ?k (length c)) (b_data base2)\<rparr>)
        (?W @ prefix_bytes k (length c) @ c)"
      using buf_ok_write [OF bo3, of "length ?P" "be_bytes ?k (length c)"] j unfolding w by simp
    with goal [OF cbb'] fits Der show ?thesis by simp
  qed
  then show "cbb_rep cbb' (close_top (r, ls @ [(k, c)]))" and "prefix_fits k (length c)" by auto
qed

lemma flush_done [simp]:
  assumes "cbb_rep cbb a" and "d = length (snd a)"
  shows "CBB_flush m d cbb = (True, cbb)"
  using assms by (subst CBB_flush.simps) (auto simp: cbb_rep_def buf_ok_def)

lemma flush_detached: "d > length (cbb_children cbb) \<Longrightarrow> CBB_flush m d cbb = (False, cbb)"
  by (subst CBB_flush.simps) (auto split: option.splits)

lemma hole_len_pos: "kind_ok k \<Longrightarrow> 0 < hole_len k"
  by (cases k) auto

lemma hole_len_le: "hole_len k \<le> length (prefix_bytes k n)"
  by (cases k) auto

lemma frames_at_nth:
  "i < length ls \<Longrightarrow> frames_at off ls ! i =
     \<lparr>offset = off + length (concat (map layer_bytes (take i ls))),
      pending_len_len = hole_len (fst (ls ! i)), pending_is_asn1 = (fst (ls ! i) = Der)\<rparr>"
proof (induction ls arbitrary: off i)
  case (Cons l ls)
  then show ?case by (cases i) (auto simp: add.assoc)
qed simp

lemma frames_nth:
  "i < length ls \<Longrightarrow> frames (r, ls) ! i =
     \<lparr>offset = length (written (r, take i ls)), pending_len_len = hole_len (fst (ls ! i)),
      pending_is_asn1 = (fst (ls ! i) = Der)\<rparr>"
  by (simp add: frames_def frames_at_nth written_def)

text \<open>Closing children does not touch the layers below, except to append to the last.\<close>

lemma close_to_shape:
  assumes "d < length ls"
  shows "\<exists>x. close_to (Suc d) (r, ls) = (r, take d ls @ [(fst (ls ! d), snd (ls ! d) @ x)])"
proof -
  have "\<exists>x. close_to (Suc d) (r, ls) = (r, take d ls @ [(fst (ls ! d), snd (ls ! d) @ x)])"
    if "length ls = Suc d + n" for n using that
  proof (induction n arbitrary: d)
    case 0
    then have "ls = take d ls @ [ls ! d]"
      by (metis add.right_neutral lessI take_Suc_conv_app_nth take_all_iff le_refl)
    with 0 show ?case by (intro exI [of _ "[]"]) simp
  next
    case (Suc n)
    from Suc.IH [of "Suc d"] Suc.prems obtain x where x: "close_to (Suc (Suc d)) (r, ls) =
        (r, take (Suc d) ls @ [(fst (ls ! Suc d), snd (ls ! Suc d) @ x)])" by auto
    have tk: "take (Suc d) ls = take d ls @ [(fst (ls ! d), snd (ls ! d))]"
      using Suc.prems by (simp add: take_Suc_conv_app_nth)
    have "close_to (Suc d) (r, ls) = close_top (close_to (Suc (Suc d)) (r, ls))"
      using Suc.prems by (subst close_to.simps) simp
    also have "\<dots> = add_top (closed (fst (ls ! Suc d), snd (ls ! Suc d) @ x))
        (r, take d ls @ [(fst (ls ! d), snd (ls ! d))])"
      unfolding x tk by (rule close_top_snoc)
    also have "\<dots> = (r, take d ls @ [(fst (ls ! d), snd (ls ! d) @
        closed (fst (ls ! Suc d), snd (ls ! Suc d) @ x))])"
      by (rule add_top_snoc)
    finally show ?case by blast
  qed
  from this [of "length ls - Suc d"] assms show ?thesis by simp
qed

lemma fits_to_step:
  "d < length ls \<Longrightarrow> close_to (Suc d) (r, ls) = (r, ls' @ [(k, c)]) \<Longrightarrow>
     fits_to d (r, ls) \<longleftrightarrow> fits_to (Suc d) (r, ls) \<and> prefix_fits k (length c)"
  by (subst fits_to.simps) simp

lemma length_written_take: "length (written (r, take d ls)) \<le> length (written (r, ls))"
proof -
  have "written (r, xs @ ys) = written (r, xs) @ concat (map layer_bytes ys)" for xs ys
    by (simp add: written_def)
  from this [of "take d ls" "drop d ls"] show ?thesis by simp
qed

lemma flush_rep:
  assumes m: "malloc_ok m"
  shows "cbb_rep cbb a \<Longrightarrow> d \<le> length (snd a) \<Longrightarrow> CBB_flush m d cbb = (True, cbb') \<Longrightarrow>
    cbb_rep cbb' (close_to d a) \<and> fits_to d a"
proof (induction "length (snd a) - d" arbitrary: d cbb')
  case 0
  then show ?case by simp
next
  case (Suc n)
  obtain r ls where a: "a = (r, ls)" by (cases a)
  have d: "d < length ls" using Suc.hyps(2) a by simp
  obtain base where base: "cbb_base cbb = Some base" and bo: "buf_ok base (written a)"
    and ch: "cbb_children cbb = frames (r, ls)" and kinds: "\<forall>l \<in> set ls. kind_ok (fst l)"
    using Suc.prems(1) a by (auto simp: cbb_rep_def)
  let ?k = "fst (ls ! d)" and ?W = "written (r, take d ls)"
  let ?start = "sz_add (length ?W) (hole_len ?k)"
  have kd: "kind_ok ?k" using kinds d by simp
  have pll: "hole_len ?k \<noteq> 0" using hole_len_pos [OF kd] by simp
  have err: "\<not> b_error base" using bo by (simp add: buf_ok_def)
  obtain ok cbb1 where f1: "CBB_flush m (Suc d) cbb = (ok, cbb1)" by fastforce
  have steps: "ok \<and> flush_child m d ?start cbb1 = (True, cbb')"
    using Suc.prems(3) base err ch pll d f1 frames_nth [of d ls r]
    by (subst (asm) CBB_flush.simps) (auto simp: Let_def split: if_splits)
  from close_to_shape [OF d, of r] obtain x where
    sh: "close_to (Suc d) (r, ls) = (r, take d ls @ [(?k, snd (ls ! d) @ x)])" ..
  have rep1: "cbb_rep cbb1 (r, take d ls @ [(?k, snd (ls ! d) @ x)])" and fit1: "fits_to (Suc d) a"
    using Suc.hyps(1) [of "Suc d" cbb1] Suc.hyps(2) Suc.prems(1) d f1 steps sh a by auto
  have "hole_len ?k \<le> 8" using kd by (cases ?k) auto
  moreover have "length ?W < 2 ^ 63"
    using length_written_take [of r d ls] buf_ok_small [OF bo] a by simp
  ultimately have start: "?start = length ?W + hole_len ?k" by (simp add: size_simps)
  have "flush_child m (length (take d ls)) ?start cbb1 = (True, cbb')" using steps d by simp
  from flush_child_rep [OF m rep1 start this]
  have "cbb_rep cbb' (close_top (close_to (Suc d) a))" and fit: "prefix_fits ?k (length (snd (ls ! d) @ x))"
    using sh a by auto
  moreover have "close_to d a = close_top (close_to (Suc d) a)"
    using d a by (subst close_to.simps) simp
  moreover have "fits_to d a"
    using fits_to_step [OF d sh] fit fit1 a by simp
  ultimately show ?case by simp
qed

end
