(* ===== verification/Sink.thy ===== *)
theory Sink
  imports Prelude
begin

text \<open>
  The interface of everything bytes can be written to: the byte-string builder, the
  growable buffer and the nanopb output stream. A client that writes item after item
  and stops at the first failure is \<open>put_all\<close>; the locales state what a provider
  promises of one item and what follows for a whole list.
\<close>

fun put_all :: "('x \<Rightarrow> 's \<Rightarrow> bool \<times> 's) \<Rightarrow> 'x list \<Rightarrow> 's \<Rightarrow> bool \<times> 's" where
  "put_all put [] s = (True, s)"
| "put_all put (x # xs) s =
     (case put x s of
        (False, s') \<Rightarrow> (False, s')
      | (True, s') \<Rightarrow> put_all put xs s')"

text \<open>\<open>holds s w\<close>: the bytes \<open>w\<close> have been written since some fixed moment.
  \<open>enc x\<close> are the bytes of an item that meets its precondition \<open>item_ok x\<close>.\<close>

locale sink =
  fixes put :: "'x \<Rightarrow> 's \<Rightarrow> bool \<times> 's"
    and enc :: "'x \<Rightarrow> u8 list"
    and item_ok :: "'x \<Rightarrow> bool"
    and holds :: "'s \<Rightarrow> u8 list \<Rightarrow> bool"
  assumes put_holds: "item_ok x \<Longrightarrow> holds s w \<Longrightarrow> put x s = (True, s') \<Longrightarrow> holds s' (w @ enc x)"
begin

lemma put_all_holds:
  "\<forall>x \<in> set xs. item_ok x \<Longrightarrow> holds s w \<Longrightarrow> put_all put xs s = (True, s') \<Longrightarrow> holds s' (w @ concat (map enc xs))"
proof (induction xs arbitrary: s w)
  case (Cons x xs)
  from Cons.prems(3) obtain s1 where s1: "put x s = (True, s1)"
    and rest: "put_all put xs s1 = (True, s')"
    by (auto split: prod.splits bool.splits)
  from Cons.IH [OF _ put_holds [OF _ Cons.prems(2) s1] rest] Cons.prems(1) show ?case by simp
qed simp

end

text \<open>A sink that accepts items while there is room: \<open>room s n\<close> says that
  \<open>n\<close> bytes in all will be accepted.\<close>

locale total_sink = sink +
  fixes room :: "'s \<Rightarrow> nat \<Rightarrow> bool"
  assumes put_total: "item_ok x \<Longrightarrow> holds s w \<Longrightarrow> room s n \<Longrightarrow> length w + length (enc x) \<le> n \<Longrightarrow>
      \<exists>s'. put x s = (True, s') \<and> room s' n"
begin

lemma put_all_total:
  "\<forall>x \<in> set xs. item_ok x \<Longrightarrow> holds s w \<Longrightarrow> room s n \<Longrightarrow>
     length w + length (concat (map enc xs)) \<le> n \<Longrightarrow>
     \<exists>s'. put_all put xs s = (True, s') \<and> room s' n \<and> holds s' (w @ concat (map enc xs))"
proof (induction xs arbitrary: s w)
  case (Cons x xs)
  from put_total [of x s w n] Cons.prems obtain s1 where
    s1: "put x s = (True, s1)" and r1: "room s1 n" by auto
  from Cons.IH [OF _ put_holds [OF _ Cons.prems(2) s1] r1] Cons.prems(1,4) s1 show ?case by simp
qed simp

end

end
