(* ===== verification/Comparator.thy ===== *)
theory Comparator
  imports Prelude "HOL-Library.Multiset"
begin

text \<open>
  Comparison functions in the style of the C library, its \<open>qsort\<close>, and the contract
  under which it sorts: the comparison is that of a key from a linear order. The
  builder's SET OF and the stack rely on it.
\<close>

fun qsort_insert :: "('a \<Rightarrow> 'a \<Rightarrow> int) \<Rightarrow> 'a \<Rightarrow> 'a list \<Rightarrow> 'a list" where
  "qsort_insert cmp x [] = [x]"
| "qsort_insert cmp x (y # ys) = (if cmp x y \<le> 0 then x # y # ys else y # qsort_insert cmp x ys)"

definition c_qsort :: "('a \<Rightarrow> 'a \<Rightarrow> int) \<Rightarrow> 'a list \<Rightarrow> 'a list" where
  "c_qsort cmp xs = foldr (qsort_insert cmp) xs []"

lemma set_qsort_insert [simp]: "set (qsort_insert cmp x ys) = insert x (set ys)"
  by (induction ys) auto

lemma set_c_qsort [simp]: "set (c_qsort cmp xs) = set xs"
  by (induction xs) (auto simp: c_qsort_def)

lemma length_qsort_insert [simp]: "length (qsort_insert cmp x ys) = Suc (length ys)"
  by (induction ys) auto

lemma length_c_qsort [simp]: "length (c_qsort cmp xs) = length xs"
  by (induction xs) (auto simp: c_qsort_def)

lemma mset_qsort_insert [simp]: "mset (qsort_insert cmp x ys) = add_mset x (mset ys)"
  by (induction ys) auto

lemma mset_c_qsort [simp]: "mset (c_qsort cmp xs) = mset xs"
  by (induction xs) (auto simp: c_qsort_def)

text \<open>\<open>sane x\<close> restricts the elements to those the comparison may be applied to.\<close>

locale comparator =
  fixes cmp :: "'a \<Rightarrow> 'a \<Rightarrow> int"
    and key :: "'a \<Rightarrow> 'k::linorder"
    and sane :: "'a \<Rightarrow> bool"
  assumes cmp_le: "sane x \<Longrightarrow> sane y \<Longrightarrow> cmp x y \<le> 0 \<longleftrightarrow> key x \<le> key y"
    and cmp_eq: "sane x \<Longrightarrow> sane y \<Longrightarrow> cmp x y = 0 \<longleftrightarrow> key x = key y"
begin

lemma qsort_insert_key:
  "sane x \<Longrightarrow> \<forall>y \<in> set ys. sane y \<Longrightarrow> map key (qsort_insert cmp x ys) = insort (key x) (map key ys)"
  by (induction ys) (auto simp: cmp_le)

lemma c_qsort_key:
  "\<forall>x \<in> set xs. sane x \<Longrightarrow> map key (c_qsort cmp xs) = sort (map key xs)"
proof (induction xs)
  case Nil
  then show ?case by (simp add: c_qsort_def)
next
  case (Cons x xs)
  have "map key (c_qsort cmp (x # xs)) = map key (qsort_insert cmp x (c_qsort cmp xs))"
    by (simp add: c_qsort_def)
  also have "\<dots> = insort (key x) (map key (c_qsort cmp xs))"
    using Cons.prems by (intro qsort_insert_key) auto
  finally show ?case using Cons by simp
qed

end

end
