(* ===== verification/Cbb_Asn1.thy ===== *)
theory Cbb_Asn1
  imports Cbb Sink Comparator
begin

text \<open>
  The ASN.1 side of \<open>crypto/bytestring/cbb.c\<close>: base-128 integers, element headers,
  INTEGER, OCTET STRING, BOOLEAN, object identifiers given as text, and the reordering
  of a SET OF. A child that the code declares as a local variable is the object at
  depth \<open>Suc d\<close>.
\<close>

section \<open>Tags and elements\<close>

function base128_len_loop :: "u64 \<Rightarrow> nat \<Rightarrow> nat" where
  "base128_len_loop copy len_len =
     (if copy > 0 then base128_len_loop (drop_bit 7 copy) (Suc len_len) else len_len)"
  by pat_completeness auto
termination
proof (relation "measure (\<lambda>(copy, n). unat copy)", simp)
  fix copy :: u64 and n :: nat
  assume "copy > 0"
  then have "0 < unat copy" by (simp add: word_less_nat_alt)
  then have "unat copy div 128 < unat copy" by (intro div_less_dividend) auto
  then show "((drop_bit 7 copy, Suc n), (copy, n)) \<in> measure (\<lambda>(copy, n). unat copy)"
    by (simp only: in_measure prod.case) (simp add: drop_bit_eq_div unat_div)
qed

declare base128_len_loop.simps [simp del]

definition base128_byte :: "u64 \<Rightarrow> nat \<Rightarrow> u8" where
  "base128_byte v i =
     (let byte = ucast (drop_bit (7 * i) v AND 0x7f) in if i \<noteq> 0 then byte OR 0x80 else byte)"

fun add_base128_loop :: "allocator \<Rightarrow> nat \<Rightarrow> u64 \<Rightarrow> nat \<Rightarrow> CBB \<Rightarrow> bool \<times> CBB" where
  "add_base128_loop m d v 0 cbb = (True, cbb)"
| "add_base128_loop m d v (Suc i) cbb =
     (case CBB_add_u8 m (base128_byte v i) d cbb of
        (False, cbb) \<Rightarrow> (False, cbb)
      | (True, cbb) \<Rightarrow> add_base128_loop m d v i cbb)"

definition add_base128_integer :: "allocator \<Rightarrow> u64 \<Rightarrow> nat \<Rightarrow> CBB \<Rightarrow> bool \<times> CBB" where
  "add_base128_integer m v d cbb =
     (let len_len = base128_len_loop v 0;
          len_len = (if len_len = 0 then 1 else len_len)
      in add_base128_loop m d v len_len cbb)"

definition CBB_add_asn1 :: "allocator \<Rightarrow> u32 \<Rightarrow> nat \<Rightarrow> CBB \<Rightarrow> bool \<times> CBB" where
  "CBB_add_asn1 m tag d cbb =
     (case CBB_flush m d cbb of
        (False, cbb) \<Rightarrow> (False, cbb)
      | (True, cbb) \<Rightarrow>
          let tag_bits = ucast (drop_bit CBS_ASN1_TAG_SHIFT tag AND 0xe0) :: u8;
              tag_number = tag AND CBS_ASN1_TAG_NUMBER_MASK
          in case (if tag_number \<ge> 0x1f then
                     (case CBB_add_u8 m (tag_bits OR 0x1f) d cbb of
                        (False, cbb) \<Rightarrow> (False, cbb)
                      | (True, cbb) \<Rightarrow> add_base128_integer m (ucast tag_number) d cbb)
                   else CBB_add_u8 m (tag_bits OR ucast tag_number) d cbb) of
               (False, cbb) \<Rightarrow> (False, cbb)
             | (True, cbb) \<Rightarrow>
                 let offs = base_len cbb
                 in case CBB_add_u8 m 0 d cbb of
                      (False, cbb) \<Rightarrow> (False, cbb)
                    | (True, cbb) \<Rightarrow>
                        (True, cbb_set_child d
                           \<lparr>offset = offs, pending_len_len = 1, pending_is_asn1 = True\<rparr> cbb))"

section \<open>Values\<close>

text \<open>One run of the loop of \<open>CBB_add_asn1_uint64\<close> with \<open>n\<close> bytes to go; the result
  keeps the flag \<open>started\<close>.\<close>

fun add_uint64_loop :: "allocator \<Rightarrow> nat \<Rightarrow> u64 \<Rightarrow> nat \<Rightarrow> bool \<Rightarrow> CBB \<Rightarrow> bool \<times> bool \<times> CBB" where
  "add_uint64_loop m d value 0 started cbb = (True, started, cbb)"
| "add_uint64_loop m d value (Suc n) started cbb =
     (let byte = ucast (drop_bit (8 * n) value AND 0xff) :: u8
      in if \<not> started \<and> byte = 0 then add_uint64_loop m d value n started cbb
         else
           case (if \<not> started \<and> byte AND 0x80 \<noteq> 0 then CBB_add_u8 m 0 d cbb else (True, cbb)) of
             (False, cbb) \<Rightarrow> (False, started, cbb)
           | (True, cbb) \<Rightarrow>
               (case CBB_add_u8 m byte d cbb of
                  (False, cbb) \<Rightarrow> (False, True, cbb)
                | (True, cbb) \<Rightarrow> add_uint64_loop m d value n True cbb))"

definition CBB_add_asn1_uint64 :: "allocator \<Rightarrow> u64 \<Rightarrow> nat \<Rightarrow> CBB \<Rightarrow> bool \<times> CBB" where
  "CBB_add_asn1_uint64 m value d cbb =
     (case CBB_add_asn1 m CBS_ASN1_INTEGER d cbb of
        (False, cbb) \<Rightarrow> (False, cbb)
      | (True, cbb) \<Rightarrow>
          (case add_uint64_loop m (Suc d) value 8 False cbb of
             (False, started, cbb) \<Rightarrow> (False, cbb)
           | (True, started, cbb) \<Rightarrow>
               (case (if \<not> started then CBB_add_u8 m 0 (Suc d) cbb else (True, cbb)) of
                  (False, cbb) \<Rightarrow> (False, cbb)
                | (True, cbb) \<Rightarrow> CBB_flush m d cbb)))"

text \<open>The union of \<open>CBB_add_asn1_int64\<close> on a little-endian machine: byte \<open>i\<close> of the
  value.\<close>

definition int64_byte :: "u64 \<Rightarrow> nat \<Rightarrow> u8" where
  "int64_byte value i = ucast (drop_bit (8 * i) value)"

fun int64_start :: "u64 \<Rightarrow> nat \<Rightarrow> nat" where
  "int64_start value 0 = 0"
| "int64_start value (Suc start) =
     (if int64_byte value (Suc start) = 0xff \<and> int64_byte value start AND 0x80 \<noteq> 0
      then int64_start value start else Suc start)"

text \<open>The loop \<open>for (i = start; i >= 0; i--)\<close> with \<open>n = i + 1\<close> bytes to go.\<close>

fun add_int64_loop :: "allocator \<Rightarrow> nat \<Rightarrow> u64 \<Rightarrow> nat \<Rightarrow> CBB \<Rightarrow> bool \<times> CBB" where
  "add_int64_loop m d value 0 cbb = (True, cbb)"
| "add_int64_loop m d value (Suc i) cbb =
     (case CBB_add_u8 m (int64_byte value i) d cbb of
        (False, cbb) \<Rightarrow> (False, cbb)
      | (True, cbb) \<Rightarrow> add_int64_loop m d value i cbb)"

definition CBB_add_asn1_int64 :: "allocator \<Rightarrow> u64 \<Rightarrow> nat \<Rightarrow> CBB \<Rightarrow> bool \<times> CBB" where
  "CBB_add_asn1_int64 m value d cbb =
     (if sint value \<ge> 0 then CBB_add_asn1_uint64 m value d cbb
      else
        let start = int64_start value 7
        in case CBB_add_asn1 m CBS_ASN1_INTEGER d cbb of
             (False, cbb) \<Rightarrow> (False, cbb)
           | (True, cbb) \<Rightarrow>
               (case add_int64_loop m (Suc d) value (Suc start) cbb of
                  (False, cbb) \<Rightarrow> (False, cbb)
                | (True, cbb) \<Rightarrow> CBB_flush m d cbb))"

definition CBB_add_asn1_octet_string ::
  "allocator \<Rightarrow> u8 list \<Rightarrow> nat \<Rightarrow> nat \<Rightarrow> CBB \<Rightarrow> bool \<times> CBB" where
  "CBB_add_asn1_octet_string m data data_len d cbb =
     (case CBB_add_asn1 m CBS_ASN1_OCTETSTRING d cbb of
        (False, cbb) \<Rightarrow> (False, cbb)
      | (True, cbb) \<Rightarrow>
          (case CBB_add_bytes m data data_len (Suc d) cbb of
             (False, cbb) \<Rightarrow> (False, cbb)
           | (True, cbb) \<Rightarrow> CBB_flush m d cbb))"

definition CBB_add_asn1_bool :: "allocator \<Rightarrow> int \<Rightarrow> nat \<Rightarrow> CBB \<Rightarrow> bool \<times> CBB" where
  "CBB_add_asn1_bool m value d cbb =
     (case CBB_add_asn1 m CBS_ASN1_BOOLEAN d cbb of
        (False, cbb) \<Rightarrow> (False, cbb)
      | (True, cbb) \<Rightarrow>
          (case CBB_add_u8 m (if value \<noteq> 0 then 0xff else 0) (Suc d) cbb of
             (False, cbb) \<Rightarrow> (False, cbb)
           | (True, cbb) \<Rightarrow> CBB_flush m d cbb))"

section \<open>Object identifiers\<close>

text \<open>One component of a dotted-decimal text: success, the value and the rest.\<close>

function dotted_decimal_loop :: "u64 \<Rightarrow> bool \<Rightarrow> CBS \<Rightarrow> bool \<times> u64 \<times> CBS" where
  "dotted_decimal_loop out seen_digit cbs =
     (case CBS_get_u8 cbs of
        (None, cbs') \<Rightarrow> (seen_digit, out, cbs')
      | (Some u, cbs') \<Rightarrow>
          if u = 46 \<and> CBS_len cbs' > 0 then (seen_digit, out, cbs')
          else if u < 48 \<or> u > 57 \<or> (seen_digit \<and> out = 0) \<or>
                  out > 0xffffffffffffffff div 10 \<or>
                  out * 10 > 0xffffffffffffffff - ucast (u - 48)
               then (False, out, cbs')
               else dotted_decimal_loop (out * 10 + ucast (u - 48)) True cbs')"
  by pat_completeness auto
termination
  by (relation "measure (\<lambda>(out, seen, cbs). cbs_len cbs)")
     (auto simp: CBS_get_u8_def cbs_get_def split: if_splits)

declare dotted_decimal_loop.simps [simp del]

definition parse_dotted_decimal :: "CBS \<Rightarrow> bool \<times> u64 \<times> CBS" where
  "parse_dotted_decimal cbs = dotted_decimal_loop 0 False cbs"

lemma dotted_decimal_loop_len:
  "dotted_decimal_loop out seen cbs = (ok, v, cbs') \<Longrightarrow> cbs_len cbs' \<le> cbs_len cbs"
proof (induction out seen cbs rule: dotted_decimal_loop.induct)
  case (1 out seen cbs)
  obtain r cbs1 where g: "CBS_get_u8 cbs = (r, cbs1)" by fastforce
  then have le: "cbs_len cbs1 \<le> cbs_len cbs"
    by (auto simp: CBS_get_u8_def cbs_get_def split: if_splits)
  show ?case
  proof (cases r)
    case None
    with 1(2) g le show ?thesis by (subst (asm) dotted_decimal_loop.simps) simp
  next
    case (Some u)
    note IH = 1(1) [OF g [symmetric] Some]
    show ?thesis
    proof (cases "(u = 46 \<and> CBS_len cbs1 > 0) \<or> u < 48 \<or> u > 57 \<or> (seen \<and> out = 0) \<or>
        out > 0xffffffffffffffff div 10 \<or> out * 10 > 0xffffffffffffffff - ucast (u - 48)")
      case True
      with 1(2) g Some le show ?thesis
        by (subst (asm) dotted_decimal_loop.simps) (simp split: if_splits)
    next
      case False
      with 1(2) g Some have "dotted_decimal_loop (out * 10 + ucast (u - 48)) True cbs1 = (ok, v, cbs')"
        by (subst (asm) dotted_decimal_loop.simps) (auto split: if_splits)
      with IH False le show ?thesis by auto
    qed
  qed
qed

text \<open>Each run of the parser consumes at least one byte.\<close>

lemma parse_dotted_decimal_len:
  assumes "parse_dotted_decimal cbs = (ok, v, cbs')" and "cbs_len cbs > 0"
  shows "cbs_len cbs' < cbs_len cbs"
proof -
  obtain r cbs1 where g: "CBS_get_u8 cbs = (r, cbs1)" by fastforce
  with assms(2) have lt: "cbs_len cbs1 < cbs_len cbs" and r: "r \<noteq> None"
    by (auto simp: CBS_get_u8_def cbs_get_def split: if_splits)
  with g assms(1) show ?thesis
    unfolding parse_dotted_decimal_def
    by (subst (asm) dotted_decimal_loop.simps)
       (auto split: if_splits dest!: dotted_decimal_loop_len)
qed

function oid_components_loop :: "allocator \<Rightarrow> nat \<Rightarrow> CBS \<Rightarrow> CBB \<Rightarrow> bool \<times> CBB" where
  "oid_components_loop m d cbs cbb =
     (if CBS_len cbs > 0 then
        (case parse_dotted_decimal cbs of
           (ok, a, cbs') \<Rightarrow>
             if \<not> ok then (False, cbb)
             else case add_base128_integer m a d cbb of
                    (False, cbb) \<Rightarrow> (False, cbb)
                  | (True, cbb) \<Rightarrow> oid_components_loop m d cbs' cbb)
      else (True, cbb))"
  by pat_completeness auto
termination
  by (relation "measure (\<lambda>(m, d, cbs, cbb). cbs_len cbs)")
     (auto simp: CBS_len_def intro: parse_dotted_decimal_len [OF sym])

declare oid_components_loop.simps [simp del]

definition CBB_add_asn1_oid_from_text :: "allocator \<Rightarrow> u8 list \<Rightarrow> nat \<Rightarrow> nat \<Rightarrow> CBB \<Rightarrow> bool \<times> CBB" where
  "CBB_add_asn1_oid_from_text m txt len d cbb =
     (case CBB_flush m d cbb of
        (False, cbb) \<Rightarrow> (False, cbb)
      | (True, cbb) \<Rightarrow>
     (case parse_dotted_decimal (CBS_init txt len) of
        (ok_a, a, cbs) \<Rightarrow>
          if \<not> ok_a then (False, cbb)
          else case parse_dotted_decimal cbs of
            (ok_b, b, cbs) \<Rightarrow>
              if \<not> ok_b then (False, cbb)
              else if a > 2 \<or> (a < 2 \<and> b > 39) \<or> b > 0xffffffffffffffff - 80 then (False, cbb)
              else case add_base128_integer m (40 * a + b) d cbb of
                     (False, cbb) \<Rightarrow> (False, cbb)
                   | (True, cbb) \<Rightarrow> oid_components_loop m d cbs cbb))"

section \<open>SET OF\<close>

text \<open>The C library's \<open>memcmp\<close>: the sign is that of the first difference.\<close>

fun memcmp_int :: "u8 list \<Rightarrow> u8 list \<Rightarrow> nat \<Rightarrow> int" where
  "memcmp_int (x # xs) (y # ys) (Suc n) =
     (if x = y then memcmp_int xs ys n else uint x - uint y)"
| "memcmp_int xs ys n = 0"

definition compare_set_of_element :: "CBS \<Rightarrow> CBS \<Rightarrow> int" where
  "compare_set_of_element a b =
     (let a_len = CBS_len a; b_len = CBS_len b;
          min_len = (if a_len < b_len then a_len else b_len);
          ret = memcmp_int (CBS_data a) (CBS_data b) min_len
      in if ret \<noteq> 0 then ret
         else if a_len = b_len then 0
         else if a_len < b_len then -1 else 1)"

text \<open>The counting loop; every element takes at least two bytes, so the length of the
  contents is enough fuel.\<close>

fun count_elements :: "nat \<Rightarrow> CBS \<Rightarrow> nat \<Rightarrow> nat option" where
  "count_elements fuel cbs n =
     (if CBS_len cbs = 0 then Some n
      else case fuel of
             0 \<Rightarrow> None
           | Suc fuel' \<Rightarrow>
               (case CBS_get_any_asn1_element cbs of
                  (None, cbs') \<Rightarrow> None
                | (Some _, cbs') \<Rightarrow> count_elements fuel' cbs' (Suc n)))"

declare count_elements.simps [simp del]

fun get_elements :: "nat \<Rightarrow> CBS \<Rightarrow> CBS list option" where
  "get_elements 0 cbs = Some []"
| "get_elements (Suc n) cbs =
     (case CBS_get_any_asn1_element cbs of
        (None, cbs') \<Rightarrow> None
      | (Some (out, tag, header_len), cbs') \<Rightarrow> map_option (\<lambda>es. out # es) (get_elements n cbs'))"

definition sizeof_CBS :: nat where
  "sizeof_CBS = 16"

definition CBB_flush_asn1_set_of :: "allocator \<Rightarrow> nat \<Rightarrow> CBB \<Rightarrow> bool \<times> CBB" where
  "CBB_flush_asn1_set_of m d cbb =
     (case CBB_flush m d cbb of
        (False, cbb) \<Rightarrow> (False, cbb)
      | (True, cbb) \<Rightarrow>
     (case (CBB_data d cbb, CBB_len d cbb) of
        (Some data, Some buf_len) \<Rightarrow>
          (case count_elements buf_len (CBS_init data buf_len) 0 of
             None \<Rightarrow> (False, cbb)
           | Some num_children \<Rightarrow>
               if num_children < 2 then (True, cbb)
               else if num_children > (2 ^ 64 - 1) div sizeof_CBS then (False, cbb)
               else
                 (case (OPENSSL_memdup m data buf_len, OPENSSL_malloc m (sz_mul num_children sizeof_CBS)) of
                    (Some buf, Some _) \<Rightarrow>
                      (case get_elements num_children (CBS_init buf buf_len) of
                         None \<Rightarrow> (False, cbb)
                       | Some children \<Rightarrow>
                           let start = offset (cbb_self d cbb) + pending_len_len (cbb_self d cbb)
                           in put_all (\<lambda>c. CBB_add_bytes m (CBS_data c) (CBS_len c) d)
                                (c_qsort compare_set_of_element children)
                                (cbb\<lparr>cbb_base := map_option (\<lambda>b. b\<lparr>b_len := start\<rparr>) (cbb_base cbb)\<rparr>))
                  | _ \<Rightarrow> (False, cbb)))
      | _ \<Rightarrow> (False, cbb)))"

section \<open>The i2d calling convention\<close>

text \<open>\<open>CBB_finish_i2d\<close> of \<open>asn1_compat.c\<close>. The out-argument is NULL, points to NULL (and
  then receives the new block), or points into the caller's memory at some position,
  which is filled and advanced. The result is the length or -1.\<close>

datatype i2d_out =
    No_out
  | Null_out
  | New_out "u8 list"
  | Buf_out "u8 list" nat

definition CBB_finish_i2d :: "allocator \<Rightarrow> i2d_out \<Rightarrow> nat \<Rightarrow> CBB \<Rightarrow> int \<times> i2d_out \<times> CBB" where
  "CBB_finish_i2d m outp d cbb =
     (case CBB_finish m True True d cbb of
        (None, cbb) \<Rightarrow> (-1, outp, CBB_cleanup d cbb)
      | (Some (der, der_len), cbb) \<Rightarrow>
          if der_len > INT_MAX then (-1, outp, cbb)
          else (int der_len,
                (case outp of
                   No_out \<Rightarrow> No_out
                 | Null_out \<Rightarrow> New_out der
                 | New_out old \<Rightarrow> Buf_out (mem_write 0 (take der_len der) old) der_len
                 | Buf_out mem pos \<Rightarrow> Buf_out (mem_write pos (take der_len der) mem) (pos + der_len)),
                cbb))"

end
