(* ===== verification/Cbb_Ops.thy ===== *)
theory Cbb_Ops
  imports Cbb_Spec Cbb_Asn1
begin

text \<open>
  Each adding operation of the builder is an operation of the abstract builder: it
  closes the open children below its object and appends bytes, or opens a child. The
  operations are providers of the \<open>sink\<close> interface, through which the loops of the
  ASN.1 writers are verified.
\<close>

section \<open>Operations that append\<close>

text \<open>\<open>appends m d op x\<close>: a successful \<open>op\<close> closes the children of the object
  at depth \<open>d\<close>, all of which fit their prefixes, and appends \<open>x\<close> to it.\<close>

definition appends :: "nat \<Rightarrow> (CBB \<Rightarrow> bool \<times> CBB) \<Rightarrow> u8 list \<Rightarrow> bool" where
  "appends d f x \<longleftrightarrow>
     (\<forall>cbb a cbb'. cbb_rep cbb a \<longrightarrow> d \<le> length (snd a) \<longrightarrow> f cbb = (True, cbb') \<longrightarrow>
        fits_to d a \<and> cbb_rep cbb' (add_top x (close_to d a)))"

lemma appendsD:
  "appends d f x \<Longrightarrow> cbb_rep cbb a \<Longrightarrow> d \<le> length (snd a) \<Longrightarrow> f cbb = (True, cbb') \<Longrightarrow>
     fits_to d a \<and> cbb_rep cbb' (add_top x (close_to d a))"
  unfolding appends_def by blast

lemma cbb_rep_add_top:
  "cbb_rep cbb a \<Longrightarrow> cbb_base cbb = Some base \<Longrightarrow> buf_ok base' (written a @ x) \<Longrightarrow>
     cbb_rep (cbb\<lparr>cbb_base := Some base'\<rparr>) (add_top x a)"
  by (simp add: cbb_rep_def)

lemma flush_then_appends:
  assumes m: "malloc_ok m"
    and f: "\<And>base w base'. buf_ok base w \<Longrightarrow> f base = (True, base') \<Longrightarrow> buf_ok base' (w @ x)"
  shows "appends d (flush_then m d f) x"
  unfolding appends_def
proof (intro allI impI)
  fix cbb a cbb'
  assume rep: "cbb_rep cbb a" and d: "d \<le> length (snd a)"
    and r: "flush_then m d f cbb = (True, cbb')"
  from r obtain cbb1 where fl: "CBB_flush m d cbb = (True, cbb1)" and ob: "on_base f cbb1 = (True, cbb')"
    by (auto simp: flush_then_def split: prod.splits bool.splits)
  from flush_rep [OF m rep d fl] have rep1: "cbb_rep cbb1 (close_to d a)" and fit: "fits_to d a" by auto
  from rep1 obtain base where base: "cbb_base cbb1 = Some base" "buf_ok base (written (close_to d a))"
    by (auto simp: cbb_rep_def)
  with ob obtain base' where f': "f base = (True, base')" "cbb' = cbb1\<lparr>cbb_base := Some base'\<rparr>"
    by (auto simp: on_base_def split: prod.splits)
  from cbb_rep_add_top [OF rep1 base(1) f [OF base(2) f'(1)]] fit f'(2)
  show "fits_to d a \<and> cbb_rep cbb' (add_top x (close_to d a))" by simp
qed

lemma add_u_appends:
  assumes m: "malloc_ok m" and n: "0 < n" "n \<le> 8"
  shows "appends d (flush_then m d (cbb_buffer_add_u m v n)) (be_bytes n (unat v))"
  using assms buf_ok_add_u(1) by (intro flush_then_appends) auto

lemma be_bytes_1: "be_bytes 1 (unat (ucast (b :: u8) :: u64)) = [b]"
proof -
  have "unat (ucast b :: u64) = unat b" by (rule unat_ucast_up) simp
  then show ?thesis by simp
qed

lemma CBB_add_u8_appends: "malloc_ok m \<Longrightarrow> appends d (CBB_add_u8 m b d) [b]"
  using add_u_appends [of m 1 d "ucast b"]
  unfolding CBB_add_u8_def be_bytes_1 [symmetric] by simp

lemma CBB_add_u16_appends: "malloc_ok m \<Longrightarrow> appends d (CBB_add_u16 m v d) (be_bytes 2 (unat v))"
  using add_u_appends [of m 2 d "ucast v"]
  unfolding CBB_add_u16_def by (simp add: unat_ucast_up)

lemma CBB_add_u24_appends: "malloc_ok m \<Longrightarrow> appends d (CBB_add_u24 m v d) (be_bytes 3 (unat v))"
  using add_u_appends [of m 3 d "ucast v"]
  unfolding CBB_add_u24_def by (simp add: unat_ucast_up)

lemma CBB_add_u32_appends: "malloc_ok m \<Longrightarrow> appends d (CBB_add_u32 m v d) (be_bytes 4 (unat v))"
  using add_u_appends [of m 4 d "ucast v"]
  unfolding CBB_add_u32_def by (simp add: unat_ucast_up)

lemma CBB_add_u64_appends: "malloc_ok m \<Longrightarrow> appends d (CBB_add_u64 m v d) (be_bytes 8 (unat v))"
  using add_u_appends [of m 8 d v] unfolding CBB_add_u64_def by simp

lemma CBB_add_bytes_appends:
  assumes m: "malloc_ok m" and len: "len \<le> length data" "len < 2 ^ 63"
  shows "appends d (CBB_add_bytes m data len d) (take len data)"
  unfolding CBB_add_bytes_def
proof (rule flush_then_appends [OF m])
  fix base w base'
  assume ok: "buf_ok base w" and r: "(case cbb_buffer_add m len base of
      (False, base') \<Rightarrow> (False, base')
    | (True, base') \<Rightarrow>
        (True, base'\<lparr>b_data := mem_write (b_len base) (take len data) (b_data base')\<rparr>)) = (True, base')"
  from r obtain b where b: "cbb_buffer_add m len base = (True, b)"
    and b': "base' = b\<lparr>b_data := mem_write (length w) (take len data) (b_data b)\<rparr>"
    using buf_ok_len [OF ok] by (auto split: prod.splits bool.splits)
  from buf_ok_add [OF m ok len(2) b] obtain junk where
    j: "length junk = len" and bo: "buf_ok b (w @ junk)" by auto
  have "buf_ok base' (mem_write (length w) (take len data) (w @ junk))"
    unfolding b' using bo j len by (intro buf_ok_write) auto
  then show "buf_ok base' (w @ take len data)"
    using mem_write_mid [of junk "take len data" w "[]"] j len by simp
qed

section \<open>Enough room\<close>

text \<open>\<open>roomy m base n\<close>: the buffer can take \<open>n\<close> bytes in all, because its
  capacity suffices or because it may grow and the allocator does not fail.\<close>

definition roomy :: "allocator \<Rightarrow> cbb_buffer \<Rightarrow> nat \<Rightarrow> bool" where
  "roomy m base n \<longleftrightarrow>
     n \<le> b_cap base \<or>
     (b_can_resize base \<and> (\<forall>k < 2 ^ 63. m k \<noteq> None) \<and> b_cap base \<le> 2 ^ 61 \<and> n \<le> 2 ^ 60)"

lemma roomy_add:
  assumes m: "malloc_ok m" and ok: "buf_ok base w" and room: "roomy m base n"
    and le: "length w + k \<le> n" and k: "k < 2 ^ 63"
  shows "\<exists>base'. cbb_buffer_add m k base = (True, base') \<and> roomy m base' n"
proof -
  have cap: "b_cap base + 8 < 2 ^ 63" "length w \<le> b_cap base" and len: "b_len base = length w"
    and dl: "length (b_data base) = b_cap base"
    using ok by (auto simp: buf_ok_def)
  have new: "sz_add (length w) k = length w + k" using cap k by (simp add: size_simps)
  show ?thesis
  proof (cases "length w + k > b_cap base")
    case False
    then show ?thesis
      using room by (simp add: cbb_buffer_add_def cbb_buffer_reserve_def len new roomy_def)
  next
    case True
    have dbl: "sz_mul (b_cap base) 2 = b_cap base * 2" using cap by (simp add: size_simps)
    let ?c = "if b_cap base * 2 < length w + k then length w + k else b_cap base * 2"
    from room True le have grow: "b_can_resize base" "\<forall>k < 2 ^ 63. m k \<noteq> None"
      "b_cap base \<le> 2 ^ 61" "n \<le> 2 ^ 60" by (auto simp: roomy_def)
    have c: "?c + 8 < 2 ^ 63" "?c \<le> 2 ^ 61" using grow True le by auto
    then obtain blk where "m (?c + 8) = Some blk" using grow(2) by blast
    then have "OPENSSL_realloc m (b_data base) ?c \<noteq> None"
      using c by (simp add: OPENSSL_realloc_def OPENSSL_malloc_def OPENSSL_MALLOC_PREFIX_def sz_add_def Let_def)
    then obtain buf where buf: "OPENSSL_realloc m (b_data base) ?c = Some buf" by blast
    have "cbb_buffer_add m k base =
        (True, base\<lparr>b_data := buf, b_cap := ?c, b_len := length w + k\<rparr>)"
      using True grow(1) buf by (simp add: cbb_buffer_add_def cbb_buffer_reserve_def len new dbl Let_def)
    then show ?thesis using grow c by (auto simp: roomy_def)
  qed
qed

definition cbb_room :: "allocator \<Rightarrow> CBB \<Rightarrow> nat \<Rightarrow> bool" where
  "cbb_room m cbb n \<longleftrightarrow> (\<exists>base. cbb_base cbb = Some base \<and> roomy m base n)"

lemma roomy_data [simp]: "roomy m (base\<lparr>b_data := x\<rparr>) n = roomy m base n"
  by (simp add: roomy_def)

lemma CBB_add_u8_total:
  assumes m: "malloc_ok m" and rep: "cbb_rep cbb a" and d: "d = length (snd a)"
    and room: "cbb_room m cbb n" and le: "length (written a) + 1 \<le> n"
  shows "\<exists>cbb'. CBB_add_u8 m b d cbb = (True, cbb') \<and> cbb_room m cbb' n"
proof -
  obtain base where base: "cbb_base cbb = Some base" and bo: "buf_ok base (written a)"
    using rep by (auto simp: cbb_rep_def)
  from roomy_add [OF m bo _ le] room base obtain base' where
    add: "cbb_buffer_add m 1 base = (True, base')" and r: "roomy m base' n"
    by (auto simp: cbb_room_def)
  obtain buf where "cbb_buffer_add_u m (ucast b) 1 base = (True, base'\<lparr>b_data := buf\<rparr>)"
  proof -
    have "drop_bit 8 (ucast b :: u64) = 0" by (simp add: drop_u64_eq_0 [of 1, simplified] unat_ucast_up)
    with add that show ?thesis by (simp add: cbb_buffer_add_u_def)
  qed
  with rep d base r show ?thesis
    by (simp add: CBB_add_u8_def flush_then_def on_base_def cbb_room_def)
qed

section \<open>The builder as a sink\<close>

text \<open>\<open>a\<close> is the abstract state at the start, \<open>d\<close> its innermost object.\<close>

definition cbb_holds :: "allocator \<Rightarrow> nat \<Rightarrow> builder \<Rightarrow> CBB \<Rightarrow> u8 list \<Rightarrow> bool" where
  "cbb_holds m d a cbb w \<longleftrightarrow> malloc_ok m \<and> d = length (snd a) \<and> cbb_rep cbb (add_top w a)"

lemma appends_holds:
  assumes "malloc_ok m \<Longrightarrow> appends d f x"
    and "cbb_holds m d a cbb w" and "f cbb = (True, cbb')"
  shows "cbb_holds m d a cbb' (w @ x)"
  using appendsD [OF assms(1), of cbb "add_top w a" cbb'] assms(2,3)
  by (auto simp: cbb_holds_def)

interpretation cbb_u8: total_sink "\<lambda>b. CBB_add_u8 m b d" "\<lambda>b. [b]" "\<lambda>b. True"
    "cbb_holds m d a" "\<lambda>cbb n. cbb_room m cbb (length (written a) + n)" for m d a
proof unfold_locales
  fix b s w s'
  assume "cbb_holds m d a s w" "CBB_add_u8 m b d s = (True, s')"
  then show "cbb_holds m d a s' (w @ [b])"
    using appends_holds [of m d "CBB_add_u8 m b d" "[b]" a s w s'] CBB_add_u8_appends by blast
next
  fix b :: u8 and s w n
  assume "cbb_holds m d a s w" "cbb_room m s (length (written a) + n)" "length w + length [b] \<le> n"
  then show "\<exists>s'. CBB_add_u8 m b d s = (True, s') \<and> cbb_room m s' (length (written a) + n)"
    by (intro CBB_add_u8_total [of m s "add_top w a"]) (auto simp: cbb_holds_def)
qed

interpretation cbb_cbs: sink "\<lambda>c. CBB_add_bytes m (CBS_data c) (CBS_len c) d" cbs_bytes
    "\<lambda>c. cbs_ok c \<and> cbs_len c < 2 ^ 63" "cbb_holds m d a" for m d a
proof unfold_locales
  fix c s w s'
  assume c: "cbs_ok c \<and> cbs_len c < 2 ^ 63" and h: "cbb_holds m d a s w"
    and r: "CBB_add_bytes m (CBS_data c) (CBS_len c) d s = (True, s')"
  have "appends d (CBB_add_bytes m (CBS_data c) (CBS_len c) d) (cbs_bytes c)"
    if "malloc_ok m"
    using CBB_add_bytes_appends [OF that, of "CBS_len c" "CBS_data c" d] c
    by (simp add: CBS_len_def CBS_data_def cbs_ok_def cbs_bytes_def)
  from appends_holds [OF this h r] show "cbb_holds m d a s' (w @ cbs_bytes c)" by simp
qed

section \<open>Base-128 integers\<close>

lemma unat_drop_7: "unat (drop_bit 7 v :: u64) = unat v div 128"
  using unat_drop_u64 [of 7 v] by simp

lemma base128_len_loop_eq: "base128_len_loop v n = n + length (base128_high (unat v))"
proof (induction v n rule: base128_len_loop.induct)
  case (1 v n)
  show ?case
  proof (cases "v > 0")
    case True
    then have "unat v \<noteq> 0" by (simp add: word_less_nat_alt)
    with 1 True show ?thesis
      by (simp add: base128_len_loop.simps [of v] base128_high.simps [of "unat v"] unat_drop_7)
  next
    case False
    then have "v = 0" by (simp add: word_less_nat_alt unat_eq_zero)
    then show ?thesis by (simp add: base128_len_loop.simps)
  qed
qed

text \<open>The bytes of the loop, for a value and for what is left of it after the last group.\<close>

lemma ucast_and_7f: "unat (ucast (w AND 0x7f :: u64) :: u8) = unat w mod 128"
proof -
  have "w AND 0x7f = take_bit 7 w"
    by (simp add: take_bit_eq_mask mask_eq_exp_minus_1)
  then have "unat (w AND 0x7f) = unat w mod 128"
    by (simp add: unat_mod take_bit_eq_mod)
  then show ?thesis by (simp add: unsigned_ucast_eq take_bit_eq_mod)
qed

lemma base128_byte_0: "base128_byte v 0 = word_of_nat (unat v mod 128)"
  by (simp add: base128_byte_def word_unat_eq_iff ucast_and_7f unsigned_of_nat take_bit_eq_mod)

lemma u8_7f_or_80:
  assumes "unat (b :: u8) < 128"
  shows "b OR 0x80 = word_of_nat (128 + unat b)"
proof -
  have "b AND 0x80 = 0" using assms by (simp add: and_80_eq_0_iff)
  then have "b OR 0x80 = b + 0x80" by (simp only: disjunctive_add_eq_or)
  then show ?thesis by (simp add: add.commute)
qed

lemma base128_byte_Suc:
  "base128_byte v (Suc i) = word_of_nat (128 + unat (drop_bit (7 * i) (drop_bit 7 v)) mod 128)"
proof -
  have "unat (ucast (drop_bit (7 * Suc i) v AND 0x7f) :: u8) < 128"
    by (simp add: ucast_and_7f)
  from u8_7f_or_80 [OF this] show ?thesis
    by (simp add: base128_byte_def Let_def ucast_and_7f add.commute)
qed

lemma map_rev_upt_Suc: "map f (rev [0..<Suc n]) = map (\<lambda>i. f (Suc i)) (rev [0..<n]) @ [f 0]"
  by (simp add: upt_conv_Cons map_Suc_upt [symmetric] rev_map del: upt_Suc)

lemma base128_high_bytes:
  "map (\<lambda>i. word_of_nat (128 + unat (drop_bit (7 * i) w) mod 128))
     (rev [0..<length (base128_high (unat w))]) = base128_high (unat (w :: u64))"
proof (induction "unat w" arbitrary: w rule: less_induct)
  case less
  show ?case
  proof (cases "unat w = 0")
    case False
    have step: "base128_high (unat w) =
        base128_high (unat (drop_bit 7 w)) @ [word_of_nat (128 + unat w mod 128)]"
      using False by (subst base128_high.simps) (simp add: unat_drop_7)
    have "unat (drop_bit 7 w) < unat w"
      using False by (simp add: unat_drop_7)
    from less [OF this] show ?thesis
      unfolding step length_append_singleton map_rev_upt_Suc
      by (simp add: drop_bit_drop_bit add.commute)
  qed simp
qed

lemma base128_bytes:
  "map (base128_byte v) (rev [0..<Suc (length (base128_high (unat v div 128)))]) = base128 (unat v)"
  unfolding map_rev_upt_Suc base128_byte_Suc base128_byte_0 base128_def
  using base128_high_bytes [of "drop_bit 7 v"] by (simp only: unat_drop_7)

lemma add_base128_loop_eq:
  "add_base128_loop m d v n cbb = put_all (\<lambda>b. CBB_add_u8 m b d) (map (base128_byte v) (rev [0..<n])) cbb"
  by (induction n arbitrary: cbb) (auto split: prod.splits bool.splits)

lemma add_base128_integer_eq:
  "add_base128_integer m v d cbb = put_all (\<lambda>b. CBB_add_u8 m b d) (base128 (unat v)) cbb"
proof -
  have "(if base128_len_loop v 0 = 0 then 1 else base128_len_loop v 0) =
      Suc (length (base128_high (unat v div 128)))"
    by (cases "unat v = 0") (simp_all add: base128_len_loop_eq base128_high.simps [of "unat v"])
  then show ?thesis
    by (simp only: add_base128_integer_def Let_def add_base128_loop_eq base128_bytes)
qed

lemma concat_singletons [simp]: "concat (map (\<lambda>x. [x]) xs) = xs"
  by (induction xs) auto

lemma add_base128_integer_holds:
  "cbb_holds m d a cbb w \<Longrightarrow> add_base128_integer m v d cbb = (True, cbb') \<Longrightarrow>
     cbb_holds m d a cbb' (w @ base128 (unat v))"
  using cbb_u8.put_all_holds [of "base128 (unat v)" m d a cbb w cbb']
  by (simp add: add_base128_integer_eq)

interpretation cbb_base128: sink "\<lambda>v. add_base128_integer m v d" "\<lambda>v. base128 (unat v)"
    "\<lambda>v. True" "cbb_holds m d a" for m d a
  by unfold_locales (rule add_base128_integer_holds)

section \<open>Opening a child\<close>

lemma cbb_rep_open:
  assumes rep: "cbb_rep cbb a" and base: "cbb_base cbb = Some base"
    and bo: "buf_ok base' (written a @ replicate (hole_len k) 0)" and k: "kind_ok k"
    and off: "offs = length (written a)"
  shows "cbb_rep (cbb_set_child (length (snd a))
      \<lparr>offset = offs, pending_len_len = hole_len k, pending_is_asn1 = (k = Der)\<rparr>
      (cbb\<lparr>cbb_base := Some base'\<rparr>)) (open_top k a)"
  using assms by (cases a) (auto simp: cbb_rep_def cbb_set_child_def open_top_def frames_snoc
      written_snoc layer_bytes_def)

lemma add_length_prefixed_rep:
  assumes m: "malloc_ok m" and n: "0 < n" "n \<le> 8" and rep: "cbb_rep cbb a"
    and d: "d \<le> length (snd a)" and r: "cbb_add_length_prefixed m n d cbb = (True, cbb')"
  shows "fits_to d a" and "cbb_rep cbb' (open_top (Fixed n) (close_to d a))"
proof -
  let ?a = "close_to d a"
  from r obtain cbb1 where fl: "CBB_flush m d cbb = (True, cbb1)"
    by (auto simp: cbb_add_length_prefixed_def split: prod.splits bool.splits)
  from flush_rep [OF m rep d fl] have rep1: "cbb_rep cbb1 ?a" and fit: "fits_to d a" by auto
  from rep1 obtain base where base: "cbb_base cbb1 = Some base" and bo: "buf_ok base (written ?a)"
    by (auto simp: cbb_rep_def)
  have len: "base_len cbb1 = length (written ?a)"
    using base buf_ok_len [OF bo] by (simp add: base_len_def)
  from r fl base obtain b where b: "cbb_buffer_add m n base = (True, b)"
    and cbb': "cbb' = cbb_set_child d
       \<lparr>offset = length (written ?a), pending_len_len = n, pending_is_asn1 = False\<rparr>
       (cbb1\<lparr>cbb_base := Some (b\<lparr>b_data := mem_write (length (written ?a)) (replicate n 0) (b_data b)\<rparr>)\<rparr>)"
    by (auto simp: cbb_add_length_prefixed_def on_base_def len Let_def split: prod.splits bool.splits)
  from buf_ok_add [OF m bo _ b] n obtain junk where
    j: "length junk = n" and bo2: "buf_ok b (written ?a @ junk)" by auto
  have "buf_ok (b\<lparr>b_data := mem_write (length (written ?a)) (replicate n 0) (b_data b)\<rparr>)
      (written ?a @ replicate (hole_len (Fixed n)) 0)"
    using buf_ok_write [OF bo2, of "length (written ?a)" "replicate n 0"] j
      mem_write_mid [of junk "replicate n 0" "written ?a" "[]"] by simp
  from cbb_rep_open [OF rep1 base this _ refl] n d cbb'
  show "fits_to d a" and "cbb_rep cbb' (open_top (Fixed n) ?a)"
    using fit by (simp_all add: length_snd_close_to)
qed

lemma ucast_e0_down: "(ucast (w AND 0xe0 :: u32) :: u8) = ucast w AND 0xe0"
proof (rule bit_word_eqI)
  fix n assume "n < LENGTH(8)"
  then have n: "n \<in> {0, 1, 2, 3, 4, 5, 6, 7}" by auto
  then show "bit (ucast (w AND 0xe0 :: u32) :: u8) n = bit (ucast w AND 0xe0 :: u8) n"
    by (auto simp: bit_simps)
qed

lemma CBB_add_asn1_rep:
  assumes m: "malloc_ok m" and rep: "cbb_rep cbb a" and d: "d \<le> length (snd a)"
    and r: "CBB_add_asn1 m tag d cbb = (True, cbb')"
  shows "fits_to d a" and "cbb_rep cbb' (open_top Der (add_top (der_tag tag) (close_to d a)))"
proof -
  let ?a = "close_to d a" and ?num = "tag AND CBS_ASN1_TAG_NUMBER_MASK"
    and ?bits = "ucast (drop_bit CBS_ASN1_TAG_SHIFT tag AND 0xe0) :: u8"
  from r obtain cbb1 where fl: "CBB_flush m d cbb = (True, cbb1)"
    by (auto simp: CBB_add_asn1_def split: prod.splits bool.splits)
  from flush_rep [OF m rep d fl] have rep1: "cbb_rep cbb1 ?a" and fit: "fits_to d a" by auto
  have da: "d = length (snd ?a)" using d by (simp add: length_snd_close_to)
  have h1: "cbb_holds m d ?a cbb1 []" using m rep1 da by (simp add: cbb_holds_def)
  let ?tags = "\<lambda>c. if ?num \<ge> 0x1f then
      (case CBB_add_u8 m (?bits OR 0x1f) d c of
         (False, c) \<Rightarrow> (False, c)
       | (True, c) \<Rightarrow> add_base128_integer m (ucast ?num) d c)
     else CBB_add_u8 m (?bits OR ucast ?num) d c"
  from r fl obtain cbb2 where t: "?tags cbb1 = (True, cbb2)"
    and r2: "(case CBB_add_u8 m 0 d cbb2 of
        (False, cbb) \<Rightarrow> (False, cbb)
      | (True, cbb) \<Rightarrow> (True, cbb_set_child d
          \<lparr>offset = base_len cbb2, pending_len_len = 1, pending_is_asn1 = True\<rparr> cbb)) = (True, cbb')"
    by (cases "?tags cbb1") (auto simp: CBB_add_asn1_def Let_def split: bool.splits)
  have h2: "cbb_holds m d ?a cbb2 (der_tag tag)"
  proof (cases "?num \<ge> 0x1f")
    case True
    with t obtain c where "CBB_add_u8 m (?bits OR 0x1f) d cbb1 = (True, c)"
      and "add_base128_integer m (ucast ?num) d c = (True, cbb2)"
      by (auto split: prod.splits bool.splits)
    from add_base128_integer_holds [OF cbb_u8.put_holds [OF TrueI h1 this(1)] this(2)] True
    show ?thesis
      by (simp add: der_tag_def Let_def CBS_ASN1_TAG_NUMBER_MASK_def CBS_ASN1_TAG_SHIFT_def
          unat_ucast_up ucast_e0_down)
  next
    case False
    with t have "CBB_add_u8 m (?bits OR ucast ?num) d cbb1 = (True, cbb2)" by simp
    from cbb_u8.put_holds [OF TrueI h1 this] False show ?thesis
      by (simp add: der_tag_def Let_def CBS_ASN1_TAG_NUMBER_MASK_def CBS_ASN1_TAG_SHIFT_def
          ucast_e0_down)
  qed
  from r2 obtain cbb3 where w: "CBB_add_u8 m 0 d cbb2 = (True, cbb3)"
    and cbb': "cbb' = cbb_set_child d
       \<lparr>offset = base_len cbb2, pending_len_len = 1, pending_is_asn1 = True\<rparr> cbb3"
    by (auto split: prod.splits bool.splits)
  let ?b = "add_top (der_tag tag) ?a"
  from cbb_u8.put_holds [OF TrueI h2 w] have rep3: "cbb_rep cbb3 (add_top [0] ?b)"
    by (simp add: cbb_holds_def)
  obtain base where base: "cbb_base cbb2 = Some base" and bl: "base_len cbb2 = length (written ?b)"
    using h2 by (auto simp: cbb_holds_def cbb_rep_def base_len_def dest: buf_ok_len)
  obtain base3 where base3: "cbb_base cbb3 = Some base3" "buf_ok base3 (written ?b @ [0])"
    using rep3 by (auto simp: cbb_rep_def)
  have "cbb_children cbb3 = frames ?b" "\<forall>l \<in> set (snd ?b). kind_ok (fst l)"
    using rep3 by (auto simp: cbb_rep_def simp del: add_top_add_top)
  with base3 bl da cbb' show "fits_to d a" and "cbb_rep cbb' (open_top Der ?b)"
    using fit by (auto simp: cbb_rep_def cbb_set_child_def open_top_def frames_snoc [of "fst ?b" "snd ?b", simplified]
        written_snoc [of "fst ?b" "snd ?b", simplified] layer_bytes_def)
qed

end
