(* ===== verification/Der_Int.thy ===== *)
theory Der_Int
  imports Cbb_Ops
begin

text \<open>
  DER values: what the writers of \<open>cbb.c\<close> emit for INTEGER, BOOLEAN and OCTET STRING,
  and that the readers of \<open>cbs.c\<close> return what was written.
\<close>

section \<open>Unsigned content octets\<close>

fun nat_octets :: "nat \<Rightarrow> u8 list" where
  "nat_octets n = (if n = 0 then [] else nat_octets (n div 256) @ [word_of_nat n])"

declare nat_octets.simps [simp del]

text \<open>The shortest two's complement form of a natural number.\<close>

definition der_uint :: "nat \<Rightarrow> u8 list" where
  "der_uint n =
     (let bs = nat_octets n in if bs = [] \<or> hd bs AND 0x80 \<noteq> 0 then 0 # bs else bs)"

lemma nat_octets_0 [simp]: "nat_octets 0 = []"
  by (simp add: nat_octets.simps)

lemma nat_octets_be: "256 ^ n \<le> v \<Longrightarrow> v < 256 ^ Suc n \<Longrightarrow> nat_octets v = be_bytes (Suc n) v"
proof (induction n arbitrary: v)
  case 0
  then show ?case by (simp add: nat_octets.simps [of v])
next
  case (Suc n)
  have "256 ^ n \<le> v div 256"
    using div_le_mono [OF Suc.prems(1), of 256] by simp
  moreover have "v div 256 < 256 ^ Suc n"
    using Suc.prems(2) by (simp add: div_less_iff_less_mult mult.commute)
  ultimately have IH: "nat_octets (v div 256) = be_bytes (Suc n) (v div 256)" by (rule Suc.IH)
  have "v \<noteq> 0" using Suc.prems(1) by (cases "v = 0") auto
  then have "nat_octets v = nat_octets (v div 256) @ [word_of_nat v]"
    by (subst nat_octets.simps) simp
  with IH show ?case by simp
qed

lemma be_bytes_Cons: "be_bytes (Suc n) v = word_of_nat (v div 256 ^ n) # be_bytes n v"
proof (induction n arbitrary: v)
  case 0
  then show ?case by simp
next
  case (Suc n)
  have "be_bytes (Suc (Suc n)) v = be_bytes (Suc n) (v div 256) @ [word_of_nat v]"
    by (rule be_bytes.simps)
  also have "\<dots> = word_of_nat (v div 256 ^ Suc n) # be_bytes n (v div 256) @ [word_of_nat v]"
    unfolding Suc by (simp add: div_mult2_eq)
  finally show ?case by simp
qed

lemma nat_octets_inverse: "be_nat (nat_octets v) = v"
proof (induction v rule: nat_octets.induct)
  case (1 v)
  show ?case
  proof (cases "v = 0")
    case False
    then have "nat_octets v = nat_octets (v div 256) @ [word_of_nat v]"
      by (subst nat_octets.simps) simp
    moreover have "unat (word_of_nat v :: u8) = v mod 256"
      by (simp add: unsigned_of_nat take_bit_eq_mod)
    ultimately show ?thesis using 1 False by simp
  qed simp
qed

lemma length_nat_octets: "v < 256 ^ n \<Longrightarrow> length (nat_octets v) \<le> n"
proof (induction n arbitrary: v)
  case 0
  then show ?case by simp
next
  case (Suc n)
  show ?case
  proof (cases "v = 0")
    case False
    have "v div 256 < 256 ^ n" using Suc.prems by (simp add: div_less_iff_less_mult mult.commute)
    from Suc.IH [OF this] False show ?thesis by (subst nat_octets.simps) simp
  qed simp
qed

lemma hd_nat_octets: "v \<noteq> 0 \<Longrightarrow> nat_octets v \<noteq> [] \<and> hd (nat_octets v) \<noteq> 0"
proof (induction v rule: nat_octets.induct)
  case (1 v)
  show ?case
  proof (cases "v div 256 = 0")
    case True
    then have "v < 256" by (simp add: div_eq_0_iff)
    then have "unat (word_of_nat v :: u8) = v" by (intro unat_u8_of_nat)
    with 1(2) have "(word_of_nat v :: u8) \<noteq> 0" by (metis unat_0)
    with True 1(2) show ?thesis by (subst (1 2) nat_octets.simps) simp
  next
    case False
    with 1 show ?thesis by (subst (1 2) nat_octets.simps) simp
  qed
qed

lemma be_nat_Cons_0: "be_nat (0 # bs) = be_nat bs"
  by (simp add: be_nat_def)

lemma be_nat_der_uint: "be_nat (der_uint v) = v"
  by (simp add: der_uint_def Let_def be_nat_Cons_0 nat_octets_inverse)

section \<open>The writers\<close>

text \<open>Byte \<open>n\<close> of a 64-bit value.\<close>

lemma byte_of_u64: "ucast (drop_bit (8 * n) v :: u64) = (word_of_nat (unat v div 256 ^ n) :: u8)"
proof -
  have "unat (drop_bit (8 * n) v) = unat v div 256 ^ n"
    by (simp only: unat_drop_u64 power_mult) simp
  then have "word_of_nat (unat v div 256 ^ n) = (word_of_nat (unat (drop_bit (8 * n) v)) :: u8)"
    by simp
  then show ?thesis by (simp only: of_nat_unat)
qed

lemma ucast_and_ff: "ucast (w AND 0xff :: u64) = (ucast w :: u8)"
proof -
  have "w AND 0xff = take_bit 8 w" by (simp add: take_bit_eq_mask mask_eq_exp_minus_1)
  then show ?thesis by (simp only:) (rule bit_word_eqI, simp add: bit_simps)
qed

lemma add_uint64_loop_started:
  "cbb_holds m d a cbb w \<Longrightarrow> add_uint64_loop m d v n True cbb = (True, s, cbb') \<Longrightarrow>
     s \<and> cbb_holds m d a cbb' (w @ be_bytes n (unat v))"
proof (induction n arbitrary: cbb w)
  case 0
  then show ?case by simp
next
  case (Suc n)
  from Suc.prems(2) obtain cbb1 where w1: "CBB_add_u8 m (word_of_nat (unat v div 256 ^ n)) d cbb = (True, cbb1)"
    and rest: "add_uint64_loop m d v n True cbb1 = (True, s, cbb')"
    by (auto simp: Let_def ucast_and_ff byte_of_u64 split: prod.splits bool.splits)
  from Suc.IH [OF cbb_u8.put_holds [OF TrueI Suc.prems(1) w1] rest] show ?case
    unfolding be_bytes_Cons by simp
qed

lemma add_uint64_loop_fresh:
  "cbb_holds m d a cbb w \<Longrightarrow> unat v < 256 ^ n \<Longrightarrow>
     add_uint64_loop m d v n False cbb = (True, s, cbb') \<Longrightarrow>
     s = (v \<noteq> 0) \<and> cbb_holds m d a cbb' (w @ (if v = 0 then [] else der_uint (unat v)))"
proof (induction n)
  case 0
  then have "v = 0" by (simp add: unat_eq_zero)
  with 0 show ?case by simp
next
  case (Suc n)
  let ?q = "unat v div 256 ^ n" and ?b = "word_of_nat (unat v div 256 ^ n) :: u8"
  have q: "?q < 256" using Suc.prems(2) by (simp add: div_less_iff_less_mult)
  then have ub: "unat ?b = ?q" by (rule unat_u8_of_nat)
  show ?case
  proof (cases "?b = 0")
    case True
    then have "?q = 0" using ub by simp
    then have "unat v < 256 ^ n" by (simp add: div_eq_0_iff)
    with Suc True show ?thesis by (simp add: Let_def ucast_and_ff byte_of_u64)
  next
    case False
    have pos: "256 ^ n \<le> unat v"
    proof (rule ccontr)
      assume "\<not> 256 ^ n \<le> unat v"
      then have "?q = 0" by simp
      with False show False by simp
    qed
    then have v: "v \<noteq> 0" by (cases "v = 0") auto
    have oct: "nat_octets (unat v) = be_bytes (Suc n) (unat v)"
      using pos Suc.prems(2) by (rule nat_octets_be)
    then have der: "der_uint (unat v) = (if ?b AND 0x80 \<noteq> 0 then [0] else []) @ be_bytes (Suc n) (unat v)"
      by (simp add: der_uint_def be_bytes_Cons del: be_bytes.simps)
    obtain cbb1 cbb2 where
      w1: "(if ?b AND 0x80 \<noteq> 0 then CBB_add_u8 m 0 d cbb else (True, cbb)) = (True, cbb1)"
      and w2: "CBB_add_u8 m ?b d cbb1 = (True, cbb2)"
      and rest: "add_uint64_loop m d v n True cbb2 = (True, s, cbb')"
      using Suc.prems(3) False
      by (auto simp: Let_def ucast_and_ff byte_of_u64 split: prod.splits bool.splits if_splits)
    have h1: "cbb_holds m d a cbb1 (w @ (if ?b AND 0x80 \<noteq> 0 then [0] else []))"
      using w1 cbb_u8.put_holds [OF TrueI Suc.prems(1), of 0 cbb1] Suc.prems(1)
      by (auto split: if_splits)
    from add_uint64_loop_started [OF cbb_u8.put_holds [OF TrueI h1 w2] rest] v show ?thesis
      unfolding der be_bytes_Cons by simp
  qed
qed

text \<open>The common frame of the value writers: a child is opened, its contents are written
  to it and it is closed.\<close>

lemma asn1_child_appends:
  assumes m: "malloc_ok m" and rep: "cbb_rep cbb a" and d: "d \<le> length (snd a)"
    and hd: "CBB_add_asn1 m tag d cbb = (True, cbb1)"
    and body: "\<And>b. d = length (snd b) \<Longrightarrow> cbb_holds m (Suc d) (open_top Der b) cbb1 [] \<Longrightarrow>
      cbb_holds m (Suc d) (open_top Der b) cbb2 bs"
    and fl: "CBB_flush m d cbb2 = (True, cbb')"
  shows "fits_to d a \<and> length bs \<le> 0xfffffffe \<and>
    cbb_rep cbb' (add_top (der_element tag bs) (close_to d a))"
proof -
  let ?b = "add_top (der_tag tag) (close_to d a)"
  from CBB_add_asn1_rep [OF m rep d hd] have fit: "fits_to d a" and
    rep1: "cbb_rep cbb1 (open_top Der ?b)" by auto
  have db: "d = length (snd ?b)" using d by (simp add: length_snd_close_to)
  have "cbb_holds m (Suc d) (open_top Der ?b) cbb1 []"
    using m rep1 db by (simp add: cbb_holds_def open_top_def)
  from body [OF db this] have rep2: "cbb_rep cbb2 (add_top bs (open_top Der ?b))"
    by (simp add: cbb_holds_def)
  obtain r ls where b: "?b = (r, ls)" by fastforce
  have top: "add_top bs (open_top Der ?b) = (r, ls @ [(Der, bs)])"
    unfolding b by (simp add: open_top_def add_top_snoc)
  have dl: "d = length ls" using db b by simp
  have d2: "d \<le> length (snd (r, ls @ [(Der, bs)]))" using dl by simp
  from flush_rep [OF m rep2 [unfolded top] d2 fl]
  have rep': "cbb_rep cbb' (close_to d (r, ls @ [(Der, bs)]))"
    and fit2: "fits_to d (r, ls @ [(Der, bs)])" by auto
  have "close_to d (r, ls @ [(Der, bs)]) = close_top (r, ls @ [(Der, bs)])"
    using dl by (subst close_to.simps) simp
  also have "\<dots> = add_top (closed (Der, bs)) ?b"
    unfolding close_top_snoc b by (rule refl)
  also have "\<dots> = add_top (der_element tag bs) (close_to d a)"
    by (simp add: closed_def der_element_def der_header_def)
  finally have "close_to d (r, ls @ [(Der, bs)]) = add_top (der_element tag bs) (close_to d a)" .
  moreover have "length bs \<le> 0xfffffffe"
    using fit2 dl by (subst (asm) fits_to.simps) simp
  ultimately show ?thesis using rep' fit by simp
qed

lemma CBB_add_asn1_uint64_appends:
  assumes m: "malloc_ok m"
  shows "appends d (CBB_add_asn1_uint64 m v d) (der_element CBS_ASN1_INTEGER (der_uint (unat v)))"
  unfolding appends_def
proof (intro allI impI)
  fix cbb a cbb'
  assume rep: "cbb_rep cbb a" and d: "d \<le> length (snd a)"
    and r: "CBB_add_asn1_uint64 m v d cbb = (True, cbb')"
  from r obtain cbb1 s cbb2 cbb3 where hd: "CBB_add_asn1 m CBS_ASN1_INTEGER d cbb = (True, cbb1)"
    and lp: "add_uint64_loop m (Suc d) v 8 False cbb1 = (True, s, cbb2)"
    and z: "(if \<not> s then CBB_add_u8 m 0 (Suc d) cbb2 else (True, cbb2)) = (True, cbb3)"
    and fl: "CBB_flush m d cbb3 = (True, cbb')"
    by (auto simp: CBB_add_asn1_uint64_def split: prod.splits bool.splits if_splits)
  have v: "unat v < 256 ^ 8" using unsigned_less [of v, where ?'a = nat] by simp
  have "fits_to d a \<and> length (der_uint (unat v)) \<le> 0xfffffffe \<and>
    cbb_rep cbb' (add_top (der_element CBS_ASN1_INTEGER (der_uint (unat v))) (close_to d a))"
  proof (rule asn1_child_appends [OF m rep d hd _ fl])
    fix b
    assume "cbb_holds m (Suc d) (open_top Der b) cbb1 []"
    from add_uint64_loop_fresh [OF this v lp]
    have s: "s = (v \<noteq> 0)"
      and h: "cbb_holds m (Suc d) (open_top Der b) cbb2 (if v = 0 then [] else der_uint (unat v))" by auto
    show "cbb_holds m (Suc d) (open_top Der b) cbb3 (der_uint (unat v))"
    proof (cases "v = 0")
      case True
      with z s have "CBB_add_u8 m 0 (Suc d) cbb2 = (True, cbb3)" by simp
      from cbb_u8.put_holds [OF TrueI h this] True show ?thesis by (simp add: der_uint_def)
    next
      case False
      with z s h show ?thesis by simp
    qed
  qed
  then show "fits_to d a \<and>
    cbb_rep cbb' (add_top (der_element CBS_ASN1_INTEGER (der_uint (unat v))) (close_to d a))" by simp
qed

lemma CBB_add_asn1_octet_string_appends:
  assumes m: "malloc_ok m" and len: "len \<le> length data" "len < 2 ^ 63"
  shows "appends d (CBB_add_asn1_octet_string m data len d)
    (der_element CBS_ASN1_OCTETSTRING (take len data))"
  unfolding appends_def
proof (intro allI impI)
  fix cbb a cbb'
  assume rep: "cbb_rep cbb a" and d: "d \<le> length (snd a)"
    and r: "CBB_add_asn1_octet_string m data len d cbb = (True, cbb')"
  from r obtain cbb1 cbb2 where hd: "CBB_add_asn1 m CBS_ASN1_OCTETSTRING d cbb = (True, cbb1)"
    and w: "CBB_add_bytes m data len (Suc d) cbb1 = (True, cbb2)"
    and fl: "CBB_flush m d cbb2 = (True, cbb')"
    by (auto simp: CBB_add_asn1_octet_string_def split: prod.splits bool.splits)
  have "fits_to d a \<and> length (take len data) \<le> 0xfffffffe \<and>
    cbb_rep cbb' (add_top (der_element CBS_ASN1_OCTETSTRING (take len data)) (close_to d a))"
  proof (rule asn1_child_appends [OF m rep d hd _ fl])
    fix b
    assume "cbb_holds m (Suc d) (open_top Der b) cbb1 []"
    from appends_holds [OF CBB_add_bytes_appends [OF _ len] this w]
    show "cbb_holds m (Suc d) (open_top Der b) cbb2 (take len data)" by simp
  qed
  then show "fits_to d a \<and> cbb_rep cbb'
      (add_top (der_element CBS_ASN1_OCTETSTRING (take len data)) (close_to d a))" by simp
qed

definition der_bool :: "bool \<Rightarrow> u8 list" where
  "der_bool v = [if v then 0xff else 0]"

lemma CBB_add_asn1_bool_appends:
  assumes m: "malloc_ok m"
  shows "appends d (CBB_add_asn1_bool m v d) (der_element CBS_ASN1_BOOLEAN (der_bool (v \<noteq> 0)))"
  unfolding appends_def
proof (intro allI impI)
  fix cbb a cbb'
  assume rep: "cbb_rep cbb a" and d: "d \<le> length (snd a)"
    and r: "CBB_add_asn1_bool m v d cbb = (True, cbb')"
  from r obtain cbb1 cbb2 where hd: "CBB_add_asn1 m CBS_ASN1_BOOLEAN d cbb = (True, cbb1)"
    and w: "CBB_add_u8 m (if v \<noteq> 0 then 0xff else 0) (Suc d) cbb1 = (True, cbb2)"
    and fl: "CBB_flush m d cbb2 = (True, cbb')"
    by (auto simp: CBB_add_asn1_bool_def split: prod.splits bool.splits)
  have "fits_to d a \<and> length (der_bool (v \<noteq> 0)) \<le> 0xfffffffe \<and>
    cbb_rep cbb' (add_top (der_element CBS_ASN1_BOOLEAN (der_bool (v \<noteq> 0))) (close_to d a))"
  proof (rule asn1_child_appends [OF m rep d hd _ fl])
    fix b
    assume "cbb_holds m (Suc d) (open_top Der b) cbb1 []"
    from cbb_u8.put_holds [OF TrueI this w]
    show "cbb_holds m (Suc d) (open_top Der b) cbb2 (der_bool (v \<noteq> 0))"
      by (simp add: der_bool_def)
  qed
  then show "fits_to d a \<and>
    cbb_rep cbb' (add_top (der_element CBS_ASN1_BOOLEAN (der_bool (v \<noteq> 0))) (close_to d a))" by simp
qed

text \<open>Signed integers: the shortest two's complement form of the 64-bit pattern.\<close>

definition der_sint :: "u64 \<Rightarrow> u8 list" where
  "der_sint v =
     (if sint v \<ge> 0 then der_uint (unat v)
      else be_bytes (Suc (int64_start v 7)) (unat v))"

lemma int64_byte_eq: "int64_byte v i = word_of_nat (unat v div 256 ^ i)"
  by (simp only: int64_byte_def byte_of_u64)

lemma be_bytes_rev: "be_bytes n (unat v) = map (int64_byte v) (rev [0..<n])"
proof (induction n)
  case (Suc n)
  have "be_bytes (Suc n) (unat v) = int64_byte v n # be_bytes n (unat v)"
    by (simp only: be_bytes_Cons int64_byte_eq)
  with Suc show ?case by simp
qed simp

lemma add_int64_loop_eq:
  "add_int64_loop m d v n cbb = put_all (\<lambda>b. CBB_add_u8 m b d) (be_bytes n (unat v)) cbb"
  unfolding be_bytes_rev by (induction n arbitrary: cbb) (auto split: prod.splits bool.splits)

lemma CBB_add_asn1_int64_appends:
  assumes m: "malloc_ok m"
  shows "appends d (CBB_add_asn1_int64 m v d) (der_element CBS_ASN1_INTEGER (der_sint v))"
proof (cases "sint v \<ge> 0")
  case True
  then have "CBB_add_asn1_int64 m v d = CBB_add_asn1_uint64 m v d"
    by (intro ext) (simp add: CBB_add_asn1_int64_def)
  with CBB_add_asn1_uint64_appends [OF m, of d v] True show ?thesis by (simp add: der_sint_def)
next
  case False
  then have bs: "der_sint v = be_bytes (Suc (int64_start v 7)) (unat v)"
    by (simp add: der_sint_def)
  show ?thesis
    unfolding appends_def
  proof (intro allI impI)
    fix cbb a cbb'
    assume rep: "cbb_rep cbb a" and d: "d \<le> length (snd a)"
      and r: "CBB_add_asn1_int64 m v d cbb = (True, cbb')"
    from r False obtain cbb1 cbb2 where hd: "CBB_add_asn1 m CBS_ASN1_INTEGER d cbb = (True, cbb1)"
      and w: "add_int64_loop m (Suc d) v (Suc (int64_start v 7)) cbb1 = (True, cbb2)"
      and fl: "CBB_flush m d cbb2 = (True, cbb')"
      by (auto simp: CBB_add_asn1_int64_def Let_def simp del: add_int64_loop.simps int64_start.simps
          split: prod.splits bool.splits)
    have "fits_to d a \<and> length (der_sint v) \<le> 0xfffffffe \<and>
      cbb_rep cbb' (add_top (der_element CBS_ASN1_INTEGER (der_sint v)) (close_to d a))"
    proof (rule asn1_child_appends [OF m rep d hd _ fl])
      fix b
      assume h: "cbb_holds m (Suc d) (open_top Der b) cbb1 []"
      from cbb_u8.put_all_holds [OF _ h, of "der_sint v" cbb2] w
      show "cbb_holds m (Suc d) (open_top Der b) cbb2 (der_sint v)"
        by (simp add: add_int64_loop_eq bs del: be_bytes.simps)
    qed
    then show "fits_to d a \<and>
      cbb_rep cbb' (add_top (der_element CBS_ASN1_INTEGER (der_sint v)) (close_to d a))" by simp
  qed
qed

section \<open>The readers\<close>

lemma CBS_get_asn1_der:
  assumes "length body < 2 ^ 32"
  shows "CBS_get_asn1 t (view (der_element t body @ rest) after) =
    (Some (view body (rest @ after)), view rest after)"
proof -
  have "CBS_skip (length (der_header t (length body))) (view (der_element t body) (rest @ after)) =
      (Some (), view body (rest @ after))"
    by (simp add: CBS_skip_view der_element_def)
  then show ?thesis
    using get_any_asn1_der [OF assms, of False t rest after]
    by (simp add: CBS_get_asn1_def cbs_get_asn1_def CBS_get_any_asn1_element_def)
qed

lemma be_nat_single [simp]: "be_nat [b] = unat b"
  by (simp add: be_nat_def)

lemma reader_loop_eq:
  assumes "be_nat pre * 256 ^ length bs + be_nat bs < 2 ^ 64"
  shows "asn1_uint64_loop (word_of_nat (be_nat pre)) bs = Some (word_of_nat (be_nat (pre @ bs)))"
  using assms
proof (induction bs arbitrary: pre)
  case Nil
  then show ?case by simp
next
  case (Cons b bs)
  have app: "be_nat (xs @ ys) = be_nat xs * 256 ^ length ys + be_nat ys" for xs ys
    by (induction ys rule: rev_induct) (simp_all add: algebra_simps flip: append_assoc)
  have whole: "be_nat (pre @ [b]) * 256 ^ length bs + be_nat bs < 2 ^ 64"
    using Cons.prems app [of "[b]" bs] by (simp add: algebra_simps be_nat_single)
  have "be_nat pre * 256 \<le> be_nat (pre @ [b]) * 256 ^ length bs"
  proof -
    have "be_nat pre * 256 \<le> be_nat (pre @ [b]) * 1" by simp
    also have "\<dots> \<le> be_nat (pre @ [b]) * 256 ^ length bs" by (intro mult_le_mono2) simp
    finally show ?thesis .
  qed
  then have small: "be_nat pre < 2 ^ 56" using whole by simp
  then have u: "unat (word_of_nat (be_nat pre) :: u64) = be_nat pre"
    by (simp add: unsigned_of_nat take_bit_nat_eq_self)
  have "unat (drop_bit 56 (word_of_nat (be_nat pre) :: u64)) = 0"
    unfolding unat_drop_u64 u using small by simp
  then have "drop_bit 56 (word_of_nat (be_nat pre) :: u64) = 0" by (simp add: unat_eq_zero)
  moreover have "push_bit 8 (word_of_nat (be_nat pre) :: u64) OR ucast b = word_of_nat (be_nat (pre @ [b]))"
    by (simp add: push_or_u8)
  ultimately show ?case using Cons.IH [OF whole] by simp
qed

lemma reader_loop_inv:
  "be_nat pre < 2 ^ 64 \<Longrightarrow> asn1_uint64_loop (word_of_nat (be_nat pre)) bs = Some v \<Longrightarrow>
     unat v = be_nat (pre @ bs)"
proof (induction bs arbitrary: pre)
  case Nil
  then show ?case by (auto simp: unsigned_of_nat take_bit_nat_eq_self)
next
  case (Cons b bs)
  have u: "unat (word_of_nat (be_nat pre) :: u64) = be_nat pre"
    using Cons.prems(1) by (simp add: unsigned_of_nat take_bit_nat_eq_self)
  from Cons.prems(2) have "drop_bit 56 (word_of_nat (be_nat pre) :: u64) = 0"
    and rest: "asn1_uint64_loop (word_of_nat (be_nat (pre @ [b]))) bs = Some v"
    by (auto simp: push_or_u8 split: if_splits)
  then have "be_nat pre div 2 ^ 56 = 0" by (metis u unat_0 unat_drop_u64)
  then have lt: "be_nat pre < 2 ^ 56" by (simp add: div_eq_0_iff)
  have "be_nat (pre @ [b]) < (be_nat pre + 1) * 256" by simp
  also have "\<dots> \<le> 2 ^ 56 * 256" using lt by (intro mult_right_mono) auto
  finally have "be_nat (pre @ [b]) < 2 ^ 64" by simp
  from Cons.IH [OF this rest] show ?case by simp
qed

lemma nat_octets_be_nat: "bs = [] \<or> hd bs \<noteq> 0 \<Longrightarrow> nat_octets (be_nat bs) = bs"
proof (induction bs rule: rev_induct)
  case (snoc b bs)
  have ne: "be_nat (bs @ [b]) \<noteq> 0"
  proof (cases "bs = []")
    case True
    with snoc.prems show ?thesis by (simp add: unat_eq_zero)
  next
    case False
    with snoc have "nat_octets (be_nat bs) = bs" by simp
    with False have "be_nat bs \<noteq> 0" by (metis nat_octets_0)
    then show ?thesis by simp
  qed
  have bs: "nat_octets (be_nat bs) = bs" using snoc by (cases "bs = []") auto
  have "(be_nat bs * 256 + unat b) div 256 = be_nat bs" by simp
  moreover have "word_of_nat (be_nat bs * 256 + unat b) = b"
    by (simp only: u8_of_nat_eq_iff mod_mult_self3) simp
  ultimately show ?case using ne bs by (subst nat_octets.simps) simp
qed simp

lemma length_der_uint: "n < 2 ^ 64 \<Longrightarrow> length (der_uint n) \<le> 9"
  using length_nat_octets [of n 8] by (auto simp: der_uint_def Let_def)

lemma der_uint_first:
  "hd (der_uint n) AND 0x80 = 0 \<and> der_uint n \<noteq> [] \<and>
   \<not> (hd (der_uint n) = 0 \<and> length (der_uint n) > 1 \<and> der_uint n ! 1 AND 0x80 = 0)"
proof (cases "n = 0")
  case True
  then show ?thesis by (simp add: der_uint_def)
next
  case False
  then show ?thesis
    using hd_nat_octets [of n] by (auto simp: der_uint_def Let_def hd_conv_nth)
qed

lemma der_uint_canonical:
  assumes "bs \<noteq> []" and "hd bs AND 0x80 = 0"
    and "\<not> (hd bs = 0 \<and> length bs > 1 \<and> bs ! 1 AND 0x80 = 0)"
  shows "der_uint (be_nat bs) = bs"
proof (cases "hd bs = 0")
  case False
  with assms show ?thesis by (simp add: der_uint_def nat_octets_be_nat)
next
  case True
  with assms(1) obtain bs' where bs: "bs = 0 # bs'" by (cases bs) auto
  show ?thesis
  proof (cases "bs' = []")
    case True
    with bs show ?thesis by (simp add: der_uint_def)
  next
    case False
    with assms(3) bs have "hd bs' AND 0x80 \<noteq> 0" by (cases bs') auto
    moreover from this have "hd bs' \<noteq> 0" by auto
    ultimately show ?thesis
      using bs False by (simp add: der_uint_def be_nat_Cons_0 nat_octets_be_nat)
  qed
qed

lemma get_asn1_uint64_der:
  assumes n: "n < 2 ^ 64"
  shows "CBS_get_asn1_uint64 (view (der_element CBS_ASN1_INTEGER (der_uint n) @ rest) after) =
    (Some (word_of_nat n), view rest after)"
proof -
  have len: "length (der_uint n) < 2 ^ 32" using length_der_uint [OF n] by simp
  have loop: "asn1_uint64_loop 0 (der_uint n) = Some (word_of_nat n)"
    using reader_loop_eq [of "[]" "der_uint n"] n by (simp add: be_nat_der_uint)
  have ne: "der_uint n \<noteq> []" using der_uint_first by blast
  then obtain b bs where bs: "der_uint n = b # bs" by (cases "der_uint n") auto
  have first: "b AND 0x80 = 0" "\<not> (b = 0 \<and> bs \<noteq> [] \<and> hd bs AND 0x80 = 0)"
    using der_uint_first [of n] bs by (auto simp: hd_conv_nth)
  then have "\<not> (b = 0 \<and> 0 < length bs \<and> (bs @ rest @ after) ! 0 AND 0x80 = 0)"
    by (cases bs) auto
  then show ?thesis
    using CBS_get_asn1_der [OF len, of CBS_ASN1_INTEGER rest after] loop bs first(1)
    by (simp add: CBS_get_asn1_uint64_def Let_def)
qed

text \<open>Conversely, the readers accept nothing but the writers' output.\<close>

lemma CBS_get_asn1_inv:
  assumes "CBS_get_asn1 t (view bs after) = (Some out, cbs')"
  shows "\<exists>body rest. bs = der_element t body @ rest \<and> length body < 2 ^ 32 \<and>
    out = view body (rest @ after) \<and> cbs' = view rest after"
proof -
  from assms obtain el h el' u where g: "cbs_get_any_asn1_element False (view bs after) = (Some (el, t, h), cbs')"
    and sk: "CBS_skip h el = (Some u, out)"
    by (auto simp: CBS_get_asn1_def cbs_get_asn1_def CBS_get_any_asn1_element_def
        split: option.splits prod.splits if_splits)
  from get_any_asn1_inv [OF g] obtain body rest where res: "length body < 2 ^ 32"
    "bs = der_element t body @ rest" "el = view (der_element t body) (rest @ after)"
    "h = length (der_header t (length body))" "cbs' = view rest after" by auto
  have "out = view body (rest @ after)"
    using sk by (simp add: res(3,4) CBS_skip_view der_element_def)
  with res show ?thesis by blast
qed

lemma get_asn1_uint64_inv:
  assumes r: "CBS_get_asn1_uint64 (view bs after) = (Some v, cbs')"
  shows "\<exists>rest. bs = der_element CBS_ASN1_INTEGER (der_uint (unat v)) @ rest \<and> cbs' = view rest after"
proof -
  from r obtain out where g: "CBS_get_asn1 CBS_ASN1_INTEGER (view bs after) = (Some out, cbs')"
    by (auto simp: CBS_get_asn1_uint64_def Let_def split: option.splits prod.splits if_splits)
  from CBS_get_asn1_inv [OF g] obtain body rest where bs: "bs = der_element CBS_ASN1_INTEGER body @ rest"
    and out: "out = view body (rest @ after)" and cbs': "cbs' = view rest after" by auto
  from r g out have ne: "body \<noteq> []" and hi: "(body @ rest @ after) ! 0 AND 0x80 = 0"
    and pad: "\<not> ((body @ rest @ after) ! 0 = 0 \<and> length body > 1 \<and> (body @ rest @ after) ! 1 AND 0x80 = 0)"
    and loop: "asn1_uint64_loop 0 body = Some v"
    by (auto simp: CBS_get_asn1_uint64_def Let_def split: if_splits)
  have "der_uint (be_nat body) = body"
    using ne hi pad by (intro der_uint_canonical) (auto simp: hd_conv_nth nth_append)
  moreover have "unat v = be_nat body"
    using reader_loop_inv [of "[]" body v] loop by simp
  ultimately show ?thesis using bs cbs' by auto
qed

lemma get_asn1_bool_der:
  "CBS_get_asn1_bool (view (der_element CBS_ASN1_BOOLEAN (der_bool v) @ rest) after) =
     (Some v, view rest after)"
  using CBS_get_asn1_der [of "der_bool v" CBS_ASN1_BOOLEAN rest after]
  by (simp add: CBS_get_asn1_bool_def der_bool_def)

section \<open>Signed integers\<close>

lemma le_word_bit: "bit (le_word bs) n \<longleftrightarrow> n < 64 \<and> n div 8 < length bs \<and> bit (bs ! (n div 8)) (n mod 8)"
proof (induction bs arbitrary: n)
  case (Cons b bs)
  show ?case
  proof (cases "n < 8")
    case True
    then show ?thesis by (simp add: bit_simps)
  next
    case False
    then obtain k where n: "n = k + 8" by (metis add.commute le_Suc_ex not_less)
    have "bit b n = False" using False bit_imp_le_length [of b n] by auto
    moreover have "(k + 8) div 8 = Suc (k div 8)" "(k + 8) mod 8 = k mod 8" by simp_all
    ultimately show ?thesis
      unfolding n by (auto simp: bit_simps Cons)
  qed
qed simp

lemma int64_byte_bit: "i < 8 \<Longrightarrow> j < 8 \<Longrightarrow> bit (int64_byte v i) j \<longleftrightarrow> bit v (8 * i + j)"
  by (simp add: int64_byte_def bit_simps add.commute)

lemma le_word_int64_bytes: "le_word (map (int64_byte v) [0..<8]) = v"
proof (rule bit_word_eqI)
  fix n assume "n < LENGTH(64)"
  then have n: "n < 64" by simp
  then have "n div 8 < 8" by (simp add: div_less_iff_less_mult)
  then show "bit (le_word (map (int64_byte v) [0..<8])) n = bit v n"
    using n by (simp add: le_word_bit int64_byte_bit del: upt_Suc)
qed

text \<open>Where the search for the first octet stops.\<close>

lemma int64_start_spec:
  assumes "int64_byte v k AND 0x80 \<noteq> 0"
  shows "int64_start v k \<le> k \<and> int64_byte v (int64_start v k) AND 0x80 \<noteq> 0 \<and>
    (\<forall>i. int64_start v k < i \<and> i \<le> k \<longrightarrow> int64_byte v i = 0xff) \<and>
    (int64_start v k > 0 \<longrightarrow> \<not> (int64_byte v (int64_start v k) = 0xff \<and>
       int64_byte v (int64_start v k - 1) AND 0x80 \<noteq> 0))"
  using assms
proof (induction k)
  case (Suc k)
  show ?case
  proof (cases "int64_byte v (Suc k) = 0xff \<and> int64_byte v k AND 0x80 \<noteq> 0")
    case True
    with Suc.IH show ?thesis by (auto simp: le_Suc_eq)
  next
    case False
    with Suc.prems show ?thesis by auto
  qed
qed simp

lemma u8_and_80_bit: "b AND 0x80 \<noteq> (0 :: u8) \<longleftrightarrow> bit b 7"
proof -
  have "(0x80 :: u8) = push_bit 7 1" by simp
  then have "b AND 0x80 = 0 \<longleftrightarrow> \<not> bit b 7"
    by (simp only: and_exp_eq_0_iff_not_bit [symmetric] push_bit_of_1)
  then show ?thesis by simp
qed

lemma int64_neg: "sint v < 0 \<longleftrightarrow> int64_byte (v :: u64) 7 AND 0x80 \<noteq> 0"
proof -
  have "sint v < 0 \<longleftrightarrow> bit v 63" using bit_last_iff [of v] by simp
  then show ?thesis by (simp add: u8_and_80_bit int64_byte_bit)
qed

lemma be_nat_append: "be_nat (xs @ ys) = be_nat xs * 256 ^ length ys + be_nat ys"
  by (induction ys rule: rev_induct) (simp_all add: algebra_simps flip: append_assoc)

lemma le_word_rev: "le_word (rev bs @ replicate k 0) = word_of_nat (be_nat bs)"
proof (induction bs rule: rev_induct)
  case Nil
  show ?case by (induction k) auto
next
  case (snoc b bs)
  then show ?case
    using push_or_u8 [of "word_of_nat (be_nat bs)" b] by (simp add: or.commute)
qed

lemma length_der_uint_pos:
  assumes "n < 2 ^ 63"
  shows "length (der_uint n) \<le> 8"
proof -
  have le: "length (nat_octets n) \<le> 8" using assms length_nat_octets [of n 8] by simp
  have "length (nat_octets n) \<noteq> 8" if hi: "nat_octets n \<noteq> []" "hd (nat_octets n) AND 0x80 \<noteq> 0"
  proof
    assume l8: "length (nat_octets n) = 8"
    obtain b bs where bs: "nat_octets n = b # bs" using hi(1) by (cases "nat_octets n") auto
    have "128 \<le> unat b" using hi(2) bs and_80_eq_0_iff [of b] by simp
    then have "128 * 256 ^ 7 \<le> unat b * 256 ^ length bs"
      using l8 bs by (intro mult_le_mono) auto
    also have "\<dots> \<le> be_nat (b # bs)" using be_nat_append [of "[b]" bs] by simp
    also have "\<dots> = n" using nat_octets_inverse [of n] bs by simp
    finally show False using assms by simp
  qed
  with le have "nat_octets n \<noteq> [] \<Longrightarrow> hd (nat_octets n) AND 0x80 \<noteq> 0 \<Longrightarrow> length (nat_octets n) \<le> 7"
    by fastforce
  with le show ?thesis by (cases "nat_octets n = []") (auto simp: der_uint_def Let_def)
qed

lemma get_asn1_int64_der:
  "CBS_get_asn1_int64 (view (der_element CBS_ASN1_INTEGER (der_sint v) @ rest) after) =
     (Some v, view rest after)"
proof (cases "sint v < 0")
  case True
  let ?s = "int64_start v 7" and ?bs = "der_sint v"
  have sp: "?s \<le> 7" "int64_byte v ?s AND 0x80 \<noteq> 0"
    "\<forall>i. ?s < i \<and> i \<le> 7 \<longrightarrow> int64_byte v i = 0xff"
    "?s > 0 \<longrightarrow> \<not> (int64_byte v ?s = 0xff \<and> int64_byte v (?s - 1) AND 0x80 \<noteq> 0)"
    using int64_start_spec [of v 7] True int64_neg by auto
  have bs: "?bs = map (int64_byte v) (rev [0..<Suc ?s])"
    using True unfolding der_sint_def be_bytes_rev by simp
  have len: "length ?bs = Suc ?s" unfolding bs by simp
  have get: "CBS_get_asn1 CBS_ASN1_INTEGER (view (der_element CBS_ASN1_INTEGER ?bs @ rest) after) =
      (Some (view ?bs (rest @ after)), view rest after)"
    using len sp(1) by (intro CBS_get_asn1_der) simp
  have b0: "(?bs @ rest @ after) ! 0 = int64_byte v ?s" unfolding bs by simp
  have b1: "(?bs @ rest @ after) ! 1 = int64_byte v (?s - 1)" if "?s > 0"
    using that unfolding bs by (cases ?s) (auto simp: rev_map nth_append)
  have u: "rev ?bs @ replicate (7 - ?s) 0xff = map (int64_byte v) [0..<8]"
  proof (rule nth_equalityI)
    show "length (rev ?bs @ replicate (7 - ?s) 0xff) = length (map (int64_byte v) [0..<8])"
      using sp(1) len by simp
    fix i assume "i < length (rev ?bs @ replicate (7 - ?s) 0xff)"
    then have i: "i < 8" using sp(1) len by simp
    show "(rev ?bs @ replicate (7 - ?s) 0xff) ! i = map (int64_byte v) [0..<8] ! i"
    proof (cases "i \<le> ?s")
      case True
      then show ?thesis using i unfolding bs by (simp add: nth_append rev_map del: upt_Suc)
    next
      case False
      with sp(3) i have "int64_byte v i = 0xff" by auto
      with False i len show ?thesis by (simp add: nth_append del: upt_Suc)
    qed
  qed
  have nz: "int64_byte v ?s \<noteq> 0" using sp(2) by auto
  have mw: "mem_write 0 (rev ?bs) (replicate 8 0xff) = map (int64_byte v) [0..<8]"
    using len sp(1) by (simp add: mem_write_def u del: upt_Suc)
  show ?thesis
    using get b0 b1 sp(1,2,4) len nz mw le_word_int64_bytes [of v]
    by (cases "?s = 0") (auto simp: CBS_get_asn1_int64_def Let_def simp del: upt_Suc)
next
  case False
  let ?bs = "der_uint (unat v)"
  have bs: "der_sint v = ?bs" using False by (simp add: der_sint_def)
  have "\<not> bit v 63" using False bit_last_iff [of v] by simp
  then have top: "bit v n \<Longrightarrow> n < 63" for n
    using bit_imp_le_length [of v n] by (cases "n = 63") auto
  have "v = take_bit 63 v"
    by (rule bit_word_eqI) (auto simp: bit_simps dest: top)
  then have "unat v = take_bit 63 (unat v)" by (metis unsigned_take_bit_eq)
  then have "unat v < 2 ^ 63" by (metis take_bit_nat_less_exp)
  then have len: "length ?bs \<le> 8" by (rule length_der_uint_pos)
  have get: "CBS_get_asn1 CBS_ASN1_INTEGER (view (der_element CBS_ASN1_INTEGER ?bs @ rest) after) =
      (Some (view ?bs (rest @ after)), view rest after)"
    using len by (intro CBS_get_asn1_der) simp
  obtain b bs' where b: "?bs = b # bs'" using der_uint_first [of "unat v"] by (cases ?bs) auto
  have first: "b AND 0x80 = 0" "\<not> (b = 0 \<and> bs' \<noteq> [] \<and> hd bs' AND 0x80 = 0)"
    using der_uint_first [of "unat v"] b by (auto simp: hd_conv_nth)
  then have c1: "\<not> (0 < length bs' \<and> b = 0 \<and> (bs' @ rest @ after) ! 0 AND 0x80 = 0)"
    by (cases bs') auto
  have bff: "b \<noteq> 0xff" using first(1) by auto
  have "mem_write 0 (rev ?bs) (replicate 8 0) = rev ?bs @ replicate (8 - length ?bs) 0"
    using len by (simp add: mem_write_def)
  then have "le_word (mem_write 0 (rev ?bs) (replicate 8 0)) = v"
    by (simp only: le_word_rev be_nat_der_uint) simp
  then show ?thesis
    using get c1 bff first(1) len unfolding bs b
    by (simp add: CBS_get_asn1_int64_def Let_def)
qed

end
