(* ===== verification/Set_Of.thy ===== *)
theory Set_Of
  imports Der_Int "HOL-Library.List_Lexorder"
begin

text \<open>
  Finishing a builder, and the reordering of a SET OF: the elements written to the
  object come out sorted by their encodings.
\<close>

section \<open>Finishing\<close>

lemma CBB_finish_rep:
  assumes m: "malloc_ok m" and rep: "cbb_rep cbb a"
    and r: "CBB_finish m wd wl 0 cbb = (Some (data, len), cbb')"
  shows "fits_to 0 a \<and> take len data = fst (close_to 0 a) \<and> len = length (fst (close_to 0 a)) \<and>
    cbb_base cbb' = None"
proof -
  from r obtain cbb1 base where fl: "CBB_flush m 0 cbb = (True, cbb1)"
    and base: "cbb_base cbb1 = Some base" and res: "data = b_data base" "len = b_len base"
      "cbb' = CBB_cleanup 0 cbb1"
    by (auto simp: CBB_finish_def split: prod.splits bool.splits option.splits if_splits)
  from flush_rep [OF m rep _ fl] have rep1: "cbb_rep cbb1 (close_to 0 a)" and fit: "fits_to 0 a" by auto
  have "snd (close_to 0 a) = []" using length_snd_close_to [of 0 a] by simp
  then have "written (close_to 0 a) = fst (close_to 0 a)" by (simp add: written_def)
  with rep1 base have "buf_ok base (fst (close_to 0 a))" by (simp add: cbb_rep_def)
  with fit res show ?thesis by (auto simp: buf_ok_def CBB_cleanup_def)
qed

lemma CBB_init_rep:
  assumes m: "malloc_ok m" and cap: "cap + 8 < 2 ^ 64" and r: "CBB_init m cap = (True, cbb)"
  shows "cbb_rep cbb ([], [])"
proof -
  let ?buf = "case OPENSSL_malloc m cap of None \<Rightarrow> [] | Some p \<Rightarrow> p"
  from r have cbb: "cbb = \<lparr>cbb_base = Some \<lparr>b_data = ?buf, b_len = 0, b_cap = cap,
      b_can_resize = True, b_error = False\<rparr>, cbb_children = []\<rparr>"
    and nz: "cap > 0 \<longrightarrow> OPENSSL_malloc m cap \<noteq> None"
    by (auto simp: CBB_init_def cbb_init_def CBB_zero_def Let_def split: if_splits option.splits)
  have "length ?buf = cap \<and> cap + 8 < 2 ^ 63"
    using OPENSSL_malloc_Some [OF m _ cap] nz by (cases "cap = 0") (auto split: option.splits)
  then show ?thesis
    unfolding cbb by (simp add: cbb_rep_def buf_ok_def written_def frames_def)
qed

lemma CBB_init_fixed_rep:
  assumes cap: "length buf + 8 < 2 ^ 63" and r: "CBB_init_fixed m buf (length buf) = (True, cbb)"
  shows "cbb_rep cbb ([], [])"
proof -
  from r have cbb: "cbb = \<lparr>cbb_base = Some \<lparr>b_data = buf, b_len = 0, b_cap = length buf,
      b_can_resize = False, b_error = False\<rparr>, cbb_children = []\<rparr>"
    by (auto simp: CBB_init_fixed_def cbb_init_def CBB_zero_def split: option.splits)
  show ?thesis
    unfolding cbb using cap by (simp add: cbb_rep_def buf_ok_def written_def frames_def)
qed

section \<open>The comparison\<close>

lemma memcmp_lex:
  "let r = memcmp_int (xs @ xa) (ys @ ya) (min (length xs) (length ys))
   in (if r \<noteq> 0 then r \<le> 0 else length xs \<le> length ys) = (xs \<le> ys) \<and>
      ((if r \<noteq> 0 then False else length xs = length ys) = (xs = ys))"
proof (induction xs arbitrary: ys)
  case Nil
  then show ?case by (cases ys) auto
next
  case (Cons x xs)
  show ?case
  proof (cases ys)
    case Nil
    then show ?thesis by simp
  next
    case (Cons y ys')
    have "uint x - uint y \<le> 0 \<longleftrightarrow> x < y" "uint x - uint y \<noteq> 0" if "x \<noteq> y"
      using that by (auto simp: word_less_def word_uint_eq_iff)
    with Cons.IH [of ys'] Cons show ?thesis
      by (cases "x = y") (auto simp: Let_def)
  qed
qed

lemma compare_view:
  "compare_set_of_element (view xs xa) (view ys ya) \<le> 0 \<longleftrightarrow> xs \<le> ys"
  "compare_set_of_element (view xs xa) (view ys ya) = 0 \<longleftrightarrow> xs = ys"
proof -
  let ?r = "memcmp_int (xs @ xa) (ys @ ya) (min (length xs) (length ys))"
  have "compare_set_of_element (view xs xa) (view ys ya) =
      (if ?r \<noteq> 0 then ?r else if length xs = length ys then 0
       else if length xs < length ys then -1 else 1)"
    by (simp add: compare_set_of_element_def Let_def min_def not_less)
  with memcmp_lex [of xs xa ys ya]
  show "compare_set_of_element (view xs xa) (view ys ya) \<le> 0 \<longleftrightarrow> xs \<le> ys"
    and "compare_set_of_element (view xs xa) (view ys ya) = 0 \<longleftrightarrow> xs = ys"
    by (auto simp: Let_def split: if_splits)
qed

lemma compare_cbs:
  assumes "cbs_ok a" and "cbs_ok b"
  shows "compare_set_of_element a b \<le> 0 \<longleftrightarrow> cbs_bytes a \<le> cbs_bytes b"
    and "compare_set_of_element a b = 0 \<longleftrightarrow> cbs_bytes a = cbs_bytes b"
  using cbs_ok_view_ex [OF assms(1)] cbs_ok_view_ex [OF assms(2)]
  by (metis compare_view)+

interpretation set_of: comparator compare_set_of_element cbs_bytes cbs_ok
  by unfold_locales (simp_all add: compare_cbs)

section \<open>Sorting the elements\<close>

definition elements :: "(u32 \<times> u8 list) list \<Rightarrow> u8 list list" where
  "elements els = map (\<lambda>(t, body). der_element t body) els"

definition small_elements :: "(u32 \<times> u8 list) list \<Rightarrow> bool" where
  "small_elements els \<longleftrightarrow> (\<forall>(t, body) \<in> set els. length body < 2 ^ 32)"

lemma elements_Cons: "elements ((t, body) # els) = der_element t body # elements els"
  by (simp add: elements_def)

lemma der_element_length: "0 < length (der_element t body)" "length (der_element t body) \<le> 11 + length body"
  using length_der_header [of t "length body"] by (auto simp: der_element_def)

lemma length_elements: "length els \<le> length (concat (elements els))"
proof (induction els)
  case (Cons e els)
  obtain t body where e: "e = (t, body)" by fastforce
  have "Suc (length els) \<le> length (der_element t body) + length (concat (elements els))"
    using Cons der_element_length(1) [of t body] by linarith
  then show ?case by (simp add: e elements_Cons)
qed simp

lemma get_any_asn1_element_der:
  "length body < 2 ^ 32 \<Longrightarrow>
     CBS_get_any_asn1_element (view (der_element t body @ rest) after) =
       (Some (view (der_element t body) (rest @ after), t, length (der_header t (length body))),
        view rest after)"
  unfolding CBS_get_any_asn1_element_def by (rule get_any_asn1_der)

lemma count_elements_eq:
  "small_elements els \<Longrightarrow> length els \<le> fuel \<Longrightarrow>
     count_elements fuel (view (concat (elements els)) after) n = Some (n + length els)"
proof (induction els arbitrary: fuel n)
  case Nil
  then show ?case by (subst count_elements.simps) (simp add: elements_def)
next
  case (Cons e els)
  obtain t body where e: "e = (t, body)" by fastforce
  obtain k where k: "fuel = Suc k" using Cons.prems(2) by (cases fuel) auto
  have "der_element t body \<noteq> []" using der_element_length(1) [of t body] by auto
  moreover have "small_elements els" "length body < 2 ^ 32"
    using Cons.prems(1) by (auto simp: small_elements_def e)
  ultimately show ?case
    using Cons.IH [of k "Suc n"] Cons.prems(2) k e
    by (subst count_elements.simps) (simp add: elements_Cons get_any_asn1_element_der)
qed

lemma get_elements_eq:
  "small_elements els \<Longrightarrow> \<exists>cs. get_elements (length els) (view (concat (elements els)) after) = Some cs \<and>
     map cbs_bytes cs = elements els \<and> (\<forall>c \<in> set cs. cbs_ok c \<and> cbs_len c < 2 ^ 63)"
proof (induction els)
  case Nil
  then show ?case by (simp add: elements_def)
next
  case (Cons e els)
  obtain t body where e: "e = (t, body)" by fastforce
  have small: "small_elements els" and body: "length body < 2 ^ 32"
    using Cons.prems(1) by (auto simp: small_elements_def e)
  from Cons.IH [OF small] obtain cs where
    cs: "get_elements (length els) (view (concat (elements els)) after) = Some cs"
      "map cbs_bytes cs = elements els" "\<forall>c \<in> set cs. cbs_ok c \<and> cbs_len c < 2 ^ 63" by auto
  have "length (der_element t body) < 2 ^ 63"
    using der_element_length(2) [of t body] body by simp
  with cs show ?case
    by (simp add: e elements_Cons get_any_asn1_element_der [OF body])
qed

lemma buf_ok_shrink:
  assumes "buf_ok base (w @ x)"
  shows "buf_ok (base\<lparr>b_len := length w\<rparr>) w"
proof -
  have "take (length w) (b_data base) = take (length w) (take (length (w @ x)) (b_data base))"
    by (simp add: min_def)
  also have "\<dots> = take (length w) (w @ x)"
    using assms by (simp only: buf_ok_def)
  finally show ?thesis using assms by (simp add: buf_ok_def)
qed

text \<open>The contents of the innermost object.\<close>

definition top_contents :: "builder \<Rightarrow> u8 list" where
  "top_contents a = (if snd a = [] then fst a else snd (last (snd a)))"

lemma self_start:
  assumes rep: "cbb_rep cbb (add_top x a)" and top: "top_contents a = []" and d: "d = length (snd a)"
  shows "offset (cbb_self d cbb) + pending_len_len (cbb_self d cbb) = length (written a)"
proof (rule builder_cases [of a])
  fix r assume a: "a = (r, [])"
  with top d show ?thesis by (simp add: cbb_self_def top_contents_def written_def)
next
  fix r ls k c assume a: "a = (r, ls @ [(k, c)])"
  have ch: "cbb_children cbb = frames a" using rep by (simp add: cbb_rep_def)
  show ?thesis
    using top d unfolding a
    by (simp add: cbb_self_def ch a frames_snoc nth_append top_contents_def written_snoc layer_bytes_def)
qed

lemma sort_short: "length xs < 2 \<Longrightarrow> sort xs = xs"
  by (cases xs; cases "tl xs") auto

text \<open>What the operation sees once the object is flushed: its contents, and the state
  after they are taken back.\<close>

definition set_of_reset :: "nat \<Rightarrow> CBB \<Rightarrow> CBB" where
  "set_of_reset d cbb =
     cbb\<lparr>cbb_base := map_option (\<lambda>b. b\<lparr>b_len := offset (cbb_self d cbb) +
        pending_len_len (cbb_self d cbb)\<rparr>) (cbb_base cbb)\<rparr>"

lemma set_of_contents:
  assumes rep: "cbb_rep cbb (add_top C b)" and top: "top_contents b = []" and d: "d = length (snd b)"
  shows "\<exists>tail. CBB_data d cbb = Some (C @ tail)" and "CBB_len d cbb = Some (length C)"
    and "cbb_rep (set_of_reset d cbb) b" and "length C + 8 < 2 ^ 63"
proof -
  obtain base where base: "cbb_base cbb = Some base" and bo: "buf_ok base (written b @ C)"
    using rep by (auto simp: cbb_rep_def)
  have dch: "d = length (cbb_children cbb)" using rep d by (simp add: cbb_rep_def)
  note start = self_start [OF rep top d]
  have blen: "b_len base = length (written b) + length C" using buf_ok_len [OF bo] by simp
  show b63: "length C + 8 < 2 ^ 63" using bo by (simp add: buf_ok_def)
  have "b_data base = take (length (written b @ C)) (b_data base) @ drop (length (written b @ C)) (b_data base)"
    by simp
  also have "take (length (written b @ C)) (b_data base) = written b @ C"
    using bo by (simp only: buf_ok_def)
  finally obtain tail where dat: "b_data base = written b @ C @ tail" by auto
  show "\<exists>tail. CBB_data d cbb = Some (C @ tail)"
    unfolding CBB_data_def start using dch base dat by simp
  have "offset (cbb_self d cbb) \<le> b_len base"
    "pending_len_len (cbb_self d cbb) \<le> b_len base - offset (cbb_self d cbb)"
    "b_len base - offset (cbb_self d cbb) - pending_len_len (cbb_self d cbb) = length C" "b_len base < 2 ^ 64"
    using start blen buf_ok_small [OF bo] by auto
  then show "CBB_len d cbb = Some (length C)" using dch base by (simp add: CBB_len_def size_simps)
  show "cbb_rep (set_of_reset d cbb) b"
    using rep buf_ok_shrink [OF bo] base by (auto simp: cbb_rep_def start set_of_reset_def)
qed

text \<open>The operation on a flushed object with at least two elements.\<close>

lemma flush_set_of_eq:
  assumes fl: "CBB_flush m d cbb = (True, cbb1)" and rep: "cbb_rep cbb1 (add_top (concat (elements els)) b)"
    and top: "top_contents b = []" and d: "d = length (snd b)" and small: "small_elements els"
    and m: "malloc_ok m"
  shows "CBB_flush_asn1_set_of m d cbb =
    (if length els < 2 then (True, cbb1)
     else if length els > (2 ^ 64 - 1) div sizeof_CBS then (False, cbb1)
     else if OPENSSL_memdup m (the (CBB_data d cbb1)) (length (concat (elements els))) = None \<or>
             OPENSSL_malloc m (sz_mul (length els) sizeof_CBS) = None then (False, cbb1)
     else put_all (\<lambda>c. CBB_add_bytes m (CBS_data c) (CBS_len c) d)
       (c_qsort compare_set_of_element (the (get_elements (length els) (view (concat (elements els)) []))))
       (set_of_reset d cbb1))"
proof -
  let ?C = "concat (elements els)"
  note c = set_of_contents [OF rep top d]
  from c(1) obtain tail where data: "CBB_data d cbb1 = Some (?C @ tail)" ..
  have cnt: "count_elements (length ?C) (CBS_init (?C @ tail) (length ?C)) 0 = Some (length els)"
    using count_elements_eq [OF small length_elements, of tail 0] by (simp add: CBS_init_view)
  show ?thesis
  proof (cases "OPENSSL_memdup m (?C @ tail) (length ?C)")
    case None
    then show ?thesis using fl data c(2) cnt by (simp add: CBB_flush_asn1_set_of_def)
  next
    case (Some buf)
    from OPENSSL_memdup_Some [OF m Some] c(4) have "buf = ?C" by simp
    then have ini: "CBS_init buf (length ?C) = view ?C []" by simp
    from get_elements_eq [OF small, of "[]"] obtain cs where
      "get_elements (length els) (view ?C []) = Some cs" by blast
    then show ?thesis
      using fl data c(2) cnt Some ini
      by (auto simp: CBB_flush_asn1_set_of_def set_of_reset_def Let_def split: option.splits)
  qed
qed

lemma sorted_elements:
  assumes "small_elements els"
  shows "\<exists>cs. get_elements (length els) (view (concat (elements els)) []) = Some cs \<and>
    (\<forall>c \<in> set (c_qsort compare_set_of_element cs). cbs_ok c \<and> cbs_len c < 2 ^ 63) \<and>
    map cbs_bytes (c_qsort compare_set_of_element cs) = sort (elements els)"
proof -
  from get_elements_eq [OF assms, of "[]"] obtain cs where
    cs: "get_elements (length els) (view (concat (elements els)) []) = Some cs"
      "map cbs_bytes cs = elements els" "\<forall>c \<in> set cs. cbs_ok c \<and> cbs_len c < 2 ^ 63" by auto
  with set_of.c_qsort_key [of cs] show ?thesis by auto
qed

lemma flush_asn1_set_of_rep:
  assumes m: "malloc_ok m" and rep: "cbb_rep cbb a" and d: "d \<le> length (snd a)"
    and r: "CBB_flush_asn1_set_of m d cbb = (True, cbb')"
    and els: "close_to d a = add_top (concat (elements els)) b" and top: "top_contents b = []"
    and small: "small_elements els"
  shows "cbb_rep cbb' (add_top (concat (sort (elements els))) b)"
proof -
  let ?C = "concat (elements els)"
  from r obtain cbb1 where fl: "CBB_flush m d cbb = (True, cbb1)"
    by (auto simp: CBB_flush_asn1_set_of_def split: prod.splits bool.splits)
  from flush_rep [OF m rep d fl] els have rep1: "cbb_rep cbb1 (add_top ?C b)" by simp
  have db: "d = length (snd b)"
    using length_snd_close_to [of d a] d els by simp
  note r' = r [unfolded flush_set_of_eq [OF fl rep1 top db small m]]
  show ?thesis
  proof (cases "length els < 2")
    case True
    then have "cbb' = cbb1" using r' by simp
    moreover have "sort (elements els) = elements els" using True by (simp add: sort_short elements_def)
    ultimately show ?thesis using rep1 by simp
  next
    case False
    from sorted_elements [OF small] obtain cs where
      cs: "get_elements (length els) (view ?C []) = Some cs"
        "\<forall>c \<in> set (c_qsort compare_set_of_element cs). cbs_ok c \<and> cbs_len c < 2 ^ 63"
        "map cbs_bytes (c_qsort compare_set_of_element cs) = sort (elements els)" by auto
    have put: "put_all (\<lambda>c. CBB_add_bytes m (CBS_data c) (CBS_len c) d)
        (c_qsort compare_set_of_element cs) (set_of_reset d cbb1) = (True, cbb')"
      using r' False cs(1) by (simp split: if_splits)
    have "cbb_holds m d b (set_of_reset d cbb1) []"
      using m db set_of_contents(3) [OF rep1 top db] by (simp add: cbb_holds_def)
    from cbb_cbs.put_all_holds [OF cs(2) this put] cs(3) show ?thesis by (simp add: cbb_holds_def)
  qed
qed

end
