(* ===== verification/Ber.thy ===== *)
theory Ber
  imports Set_Of
begin

text \<open>
  \<open>crypto/bytestring/ber.c\<close>: the conversion of BER to DER. The walk that looks for BER,
  the converter and the entry points; the recursion of the code is bounded by
  \<open>kMaxDepth\<close>, its loops by the length of the input.
\<close>

section \<open>Elements make progress\<close>

text \<open>Any element that is handed out takes at least one byte, also from a cursor whose bytes
  are not all allocated: a header has at most 13 bytes and a length below \<open>2 ^ 32\<close>, so
  that no sum wraps.\<close>

lemma CBS_get_u8_Some: "CBS_get_u8 cbs = (Some b, cbs') \<Longrightarrow> cbs_len cbs = Suc (cbs_len cbs')"
  by (auto simp: CBS_get_u8_def cbs_get_def split: if_splits)

lemma push_7_nat:
  assumes "unat v < 2 ^ 57"
  shows "unat v * 128 \<le> unat (push_bit 7 v OR ucast (b AND 0x7f :: u8) :: u64)"
    and "b AND 0x7f \<noteq> 0 \<Longrightarrow> 0 < unat (push_bit 7 v OR ucast (b AND 0x7f :: u8) :: u64)"
proof -
  have le: "unat v * 128 + unat b mod 128 < 2 ^ 64"
  proof -
    have "unat v * 128 + unat b mod 128 < (unat v + 1) * 128" by simp
    also have "\<dots> \<le> 2 ^ 57 * 128" using assms by (intro mult_right_mono) auto
    finally show ?thesis by simp
  qed
  have "push_bit 7 v OR ucast (b AND 0x7f) = word_of_nat (unat v * 128 + unat b mod 128)"
    by (simp add: push_7_or)
  then have u: "unat (push_bit 7 v OR ucast (b AND 0x7f)) = unat v * 128 + unat b mod 128"
    using le by (simp only: unsigned_of_nat) (simp add: take_bit_nat_eq_self)
  then show "unat v * 128 \<le> unat (push_bit 7 v OR ucast (b AND 0x7f :: u8) :: u64)" by simp
  assume "b AND 0x7f \<noteq> 0"
  then have "unat b mod 128 \<noteq> 0" by (metis unat_and_7f unat_eq_zero)
  with u show "0 < unat (push_bit 7 v OR ucast (b AND 0x7f :: u8) :: u64)" by simp
qed

lemma base128_loop_consumes:
  "parse_base128_loop v cbs = (Some w, cbs') \<Longrightarrow>
     cbs_len cbs' < cbs_len cbs \<and> unat v * 128 ^ (cbs_len cbs - cbs_len cbs' - 1) < 2 ^ 57"
proof (induction v cbs rule: parse_base128_loop.induct)
  case (1 v cbs)
  obtain r cbs1 where g: "CBS_get_u8 cbs = (r, cbs1)" by fastforce
  with 1(2) obtain b where b: "r = Some b"
    by (subst (asm) parse_base128_loop.simps) (auto split: option.splits)
  with g have len: "cbs_len cbs = Suc (cbs_len cbs1)" using CBS_get_u8_Some by blast
  note step = 1(2) [unfolded parse_base128_loop.simps [of v cbs]]
  from step g b have n1: "\<not> drop_bit (64 - 7) v \<noteq> 0" and n2: "\<not> (v = 0 \<and> b = 0x80)"
    by (auto split: if_splits)
  from n1 have "drop_bit 57 v = 0" by simp
  then have "unat v div 2 ^ 57 = 0" by (metis unat_0 unat_drop_u64)
  then have v: "unat v < 2 ^ 57" by (simp add: div_eq_0_iff)
  show ?case
  proof (cases "b AND 0x80 = 0")
    case True
    with step g b n1 n2 len v show ?thesis by (auto simp: Let_def split: if_splits)
  next
    case False
    let ?v = "push_bit 7 v OR ucast (b AND 0x7f)"
    from False step g b n1 n2 have rec: "parse_base128_loop ?v cbs1 = (Some w, cbs')"
      by (auto simp: Let_def split: if_splits)
    from 1(1) [OF g [symmetric] b n1 n2 refl False rec]
    have lt: "cbs_len cbs' < cbs_len cbs1"
      and bound: "unat ?v * 128 ^ (cbs_len cbs1 - cbs_len cbs' - 1) < 2 ^ 57" by auto
    let ?n = "cbs_len cbs1 - cbs_len cbs' - 1"
    have exp: "cbs_len cbs - cbs_len cbs' - 1 = Suc ?n" using lt len by simp
    have "unat v * 128 ^ Suc ?n = unat v * 128 * 128 ^ ?n" by simp
    also have "\<dots> \<le> unat ?v * 128 ^ ?n" by (intro mult_right_mono push_7_nat(1) [OF v]) simp
    finally have "unat v * 128 ^ Suc ?n < 2 ^ 57" using bound by (rule le_less_trans)
    with lt len show ?thesis unfolding exp by simp
  qed
qed

lemma base128_consumes:
  assumes "parse_base128_integer cbs = (Some w, cbs')"
  shows "cbs_len cbs' < cbs_len cbs \<and> cbs_len cbs - cbs_len cbs' \<le> 10"
proof -
  from assms have r: "parse_base128_loop 0 cbs = (Some w, cbs')" by (simp add: parse_base128_integer_def)
  from base128_loop_consumes [OF r] have lt: "cbs_len cbs' < cbs_len cbs" by simp
  obtain b cbs1 where g: "CBS_get_u8 cbs = (Some b, cbs1)"
    using r by (subst (asm) parse_base128_loop.simps) (auto split: option.splits prod.splits)
  note len = CBS_get_u8_Some [OF g]
  show ?thesis
  proof (cases "b AND 0x80 = 0")
    case True
    with r g have "cbs' = cbs1"
      by (subst (asm) parse_base128_loop.simps) (auto simp: Let_def split: if_splits)
    with lt len show ?thesis by simp
  next
    case False
    let ?v = "push_bit 7 0 OR ucast (b AND 0x7f) :: u64"
    from False r g have nb: "b \<noteq> 0x80" and rec: "parse_base128_loop ?v cbs1 = (Some w, cbs')"
      by (subst (asm) parse_base128_loop.simps, auto simp: Let_def split: if_splits)+
    have "b AND 0x7f \<noteq> 0"
    proof
      assume "b AND 0x7f = 0"
      then have "unat b = 128" using u8_high [OF False] by simp
      with nb show False by (simp add: unat_u8_eq_128_iff)
    qed
    then have pos: "0 < unat ?v" by (intro push_7_nat(2)) simp
    from base128_loop_consumes [OF rec] have lt1: "cbs_len cbs' < cbs_len cbs1"
      and bound: "unat ?v * 128 ^ (cbs_len cbs1 - cbs_len cbs' - 1) < 2 ^ 57" by auto
    let ?n = "cbs_len cbs1 - cbs_len cbs' - 1"
    have "(128::nat) ^ ?n \<le> unat ?v * 128 ^ ?n" using pos by simp
    also note bound
    finally have "(2::nat) ^ (7 * ?n) < 2 ^ 57" by (simp only: power_mult) simp
    then have "7 * ?n < 57" by (rule power_less_imp_less_exp [rotated]) simp
    with lt1 len lt show ?thesis by linarith
  qed
qed

lemma tag_consumes:
  assumes "parse_asn1_tag cbs = (Some t, cbs')"
  shows "cbs_len cbs' < cbs_len cbs \<and> cbs_len cbs - cbs_len cbs' \<le> 11"
proof -
  obtain b cbs1 where g: "CBS_get_u8 cbs = (Some b, cbs1)"
    using assms by (auto simp: parse_asn1_tag_def split: option.splits prod.splits)
  note len = CBS_get_u8_Some [OF g]
  show ?thesis
  proof (cases "ucast (b AND 0x1f) = (0x1f :: u32)")
    case False
    with assms g have "cbs' = cbs1" by (simp add: parse_asn1_tag_def Let_def)
    with len show ?thesis by simp
  next
    case True
    with assms g obtain v where "parse_base128_integer cbs1 = (Some v, cbs')"
      by (auto simp: parse_asn1_tag_def Let_def split: option.splits prod.splits if_splits)
    from base128_consumes [OF this] len show ?thesis by linarith
  qed
qed

lemma get_element_lens:
  "get_element t h n cbs = (Some (out, t', h'), cbs') \<Longrightarrow>
     h' = h \<and> n \<le> cbs_len cbs \<and> cbs_len cbs' = cbs_len cbs - n \<and> cbs_len out = n"
  by (auto simp: get_element_def CBS_get_bytes_def cbs_get_def CBS_init_def
      split: option.splits prod.splits if_splits)

lemma element_progress:
  assumes "cbs_get_any_asn1_element ber_ok cbs = (Some (out, t, h), cbs')"
  shows "0 < h \<and> h \<le> cbs_len out \<and> cbs_len out \<le> cbs_len cbs \<and> cbs_len cbs' = cbs_len cbs - cbs_len out"
proof -
  obtain tag hd1 where p: "parse_asn1_tag cbs = (Some tag, hd1)"
    using assms by (auto simp: cbs_get_any_asn1_element_def split: option.splits prod.splits)
  obtain b hd2 where g: "CBS_get_u8 hd1 = (Some b, hd2)"
    using assms p by (auto simp: cbs_get_any_asn1_element_def split: option.splits prod.splits)
  let ?h = "CBS_len cbs - CBS_len hd2" and ?k = "unat (b AND 0x7f)"
  have h: "0 < ?h" "?h \<le> 12"
    using tag_consumes [OF p] CBS_get_u8_Some [OF g] by (auto simp: CBS_len_def)
  have fin: ?thesis if "get_element t' h' n cbs = (Some (out, t, h), cbs')" "0 < h'" "h' \<le> n" for t' h' n
    using get_element_lens [OF that(1)] that(2,3) by simp
  show ?thesis
  proof (cases "b AND 0x80 = 0")
    case True
    have "unat b < 256" by simp
    then have "unat b \<le> 0xffff" by linarith
    then have "sz_add (unat b) ?h = unat b + ?h" using h by (intro sz_add_id) simp
    then show ?thesis
      using assms p g True h by (intro fin [of tag ?h "unat b + ?h"])
        (simp_all add: cbs_get_any_asn1_element_def Let_def)
  next
    case long: False
    show ?thesis
    proof (cases "ber_ok \<and> tag AND CBS_ASN1_CONSTRUCTED \<noteq> 0 \<and> ?k = 0")
      case True
      then show ?thesis
        using assms p g long h by (intro fin [of tag ?h ?h])
          (simp_all add: cbs_get_any_asn1_element_def Let_def)
    next
      case False
      with assms p g long obtain l hd3 where k: "?k \<noteq> 0" "?k \<le> 4"
        and u: "cbs_get_u ?k hd2 = (Some l, hd3)"
        and el: "get_element tag (sz_add ?h ?k) (sz_add (unat l) (sz_add ?h ?k)) cbs = (Some (out, t, h), cbs')"
        by (auto simp: cbs_get_any_asn1_element_def Let_def split: if_splits option.splits prod.splits)
      from u obtain bs where l: "l = be_acc 0 bs" and bs: "length bs \<le> ?k"
        by (auto simp: cbs_get_u_def split: option.splits prod.splits)
      have "unat l = be_nat bs" unfolding l using bs k(2) by (intro unat_be_acc) simp
      also have "\<dots> < 256 ^ length bs" by (rule be_nat_less)
      also have "\<dots> \<le> 256 ^ 4" using bs k(2) by (intro power_increasing) auto
      finally have l32: "unat l < 2 ^ 32" by simp
      have s: "sz_add ?h ?k = ?h + ?k" using h k by (intro sz_add_id) simp
      have "sz_add (unat l) (sz_add ?h ?k) = unat l + (?h + ?k)"
        unfolding s using h k l32 by (intro sz_add_id) simp
      with el s h show ?thesis by (intro fin [of tag "?h + ?k" "unat l + (?h + ?k)"]) simp_all
    qed
  qed
qed

lemma ber_progress:
  "CBS_get_any_ber_asn1_element cbs = (Some (out, t, h), cbs') \<Longrightarrow>
     0 < h \<and> h \<le> cbs_len out \<and> cbs_len out \<le> cbs_len cbs \<and> cbs_len cbs' = cbs_len cbs - cbs_len out"
  unfolding CBS_get_any_ber_asn1_element_def by (rule element_progress)

section \<open>Looking for BER\<close>

definition kMaxDepth :: nat where
  "kMaxDepth = 2048"

definition string_tags :: "u32 list" where
  "string_tags = [0x3, 0x4, 0xc, 0x12, 0x13, 0x14, 0x15, 0x16, 0x19, 0x1a, 0x1b, 0x1c, 0x1e]"

definition is_string_type :: "u32 \<Rightarrow> bool" where
  "is_string_type tag \<longleftrightarrow> tag AND NOT CBS_ASN1_CONSTRUCTED \<in> set string_tags"

text \<open>An element without contents whose header ends in 0x80 has the indefinite length.\<close>

definition is_indefinite :: "nat \<Rightarrow> CBS \<Rightarrow> bool" where
  "is_indefinite header_len contents \<longleftrightarrow>
     CBS_len contents = header_len \<and> header_len > 0 \<and> CBS_data contents ! (header_len - 1) = 0x80"

text \<open>The loop of \<open>cbs_find_ber\<close> with the current value of \<open>*ber_found\<close>; the walk of
  the contents starts by resetting it. \<open>None\<close> is the error return.\<close>

function find_ber_loop :: "nat \<Rightarrow> CBS \<Rightarrow> bool \<Rightarrow> bool option" where
  "find_ber_loop depth inp ber_found =
     (if CBS_len inp > 0 then
        (case CBS_get_any_ber_asn1_element inp of
           (None, inp') \<Rightarrow> None
         | (Some (contents, tag, header_len), inp') \<Rightarrow>
             if is_indefinite header_len contents then Some True
             else if tag AND CBS_ASN1_CONSTRUCTED \<noteq> 0 then
               if is_string_type tag then Some True
               else
                 (case CBS_skip header_len contents of
                    (None, contents') \<Rightarrow> None
                  | (Some u, contents') \<Rightarrow>
                      (case (if Suc depth > kMaxDepth then None
                             else find_ber_loop (Suc depth) contents' False) of
                         None \<Rightarrow> None
                       | Some found \<Rightarrow> find_ber_loop depth inp' found))
             else find_ber_loop depth inp' ber_found)
      else Some ber_found)"
  by pat_completeness auto
termination
  by (relation "measure (\<lambda>(depth, inp, found). cbs_len inp)")
     (auto simp: CBS_skip_def cbs_get_def CBS_len_def split: option.splits prod.splits if_splits
       dest!: ber_progress [OF sym])

declare find_ber_loop.simps [simp del]

definition cbs_find_ber :: "CBS \<Rightarrow> nat \<Rightarrow> bool option" where
  "cbs_find_ber orig_in depth =
     (if depth > kMaxDepth then None
      else find_ber_loop depth (CBS_init (CBS_data orig_in) (CBS_len orig_in)) False)"

section \<open>The converter\<close>

definition is_eoc :: "nat \<Rightarrow> CBS \<Rightarrow> bool" where
  "is_eoc header_len contents \<longleftrightarrow>
     header_len = 2 \<and> CBS_len contents = 2 \<and> take 2 (CBS_data contents) = [0, 0]"

text \<open>\<open>cbs_convert_ber\<close> with the loop unrolled into recursion: one step handles one
  element and goes on. The steps are counted down by \<open>fuel\<close>, and \<open>None\<close> says that
  it ran out; \<open>Suc (CBS_len inp)\<close> is always enough. The output object is at depth
  \<open>d\<close> of the builder; \<open>nest\<close> is the code's recursion depth, tested on entry.\<close>

fun convert_ber_loop ::
  "nat \<Rightarrow> allocator \<Rightarrow> u32 \<Rightarrow> bool \<Rightarrow> nat \<Rightarrow> CBS \<Rightarrow> nat \<Rightarrow> CBB \<Rightarrow> (bool \<times> CBS \<times> CBB) option" where
  "convert_ber_loop 0 m string_tag looking_for_eoc nest inp d cbb = None"
| "convert_ber_loop (Suc fuel) m string_tag looking_for_eoc nest inp d cbb =
     (if CBS_len inp = 0 then Some (\<not> looking_for_eoc, inp, cbb)
      else
        (case CBS_get_any_ber_asn1_element inp of
           (None, inp) \<Rightarrow> Some (False, inp, cbb)
         | (Some (contents, tag, header_len), inp) \<Rightarrow>
             if is_eoc header_len contents then Some (looking_for_eoc, inp, cbb)
             else if string_tag \<noteq> 0 \<and> tag AND NOT CBS_ASN1_CONSTRUCTED \<noteq> string_tag
             then Some (False, inp, cbb)
             else
               let constructed = (tag AND CBS_ASN1_CONSTRUCTED \<noteq> 0);
                   out_tag = (if constructed \<and> is_string_type tag
                              then tag AND NOT CBS_ASN1_CONSTRUCTED else tag);
                   child_string_tag = (if string_tag = 0 \<and> constructed \<and> is_string_type tag
                                       then out_tag else string_tag);
                   d' = (if string_tag \<noteq> 0 then d else Suc d)
               in case (if string_tag \<noteq> 0 then (True, cbb) else CBB_add_asn1 m out_tag d cbb) of
                    (False, cbb) \<Rightarrow> Some (False, inp, cbb)
                  | (True, cbb) \<Rightarrow>
                      (case (if is_indefinite header_len contents then
                               (if Suc nest > kMaxDepth then Some (False, inp, cbb)
                                else convert_ber_loop fuel m child_string_tag True (Suc nest) inp d' cbb)
                             else
                               (case CBS_skip header_len contents of
                                  (None, contents) \<Rightarrow> Some (False, inp, cbb)
                                | (Some u, contents) \<Rightarrow>
                                    if constructed then
                                      (if Suc nest > kMaxDepth then Some (False, inp, cbb)
                                       else map_option (\<lambda>(ok, rest, cbb). (ok, inp, cbb))
                                              (convert_ber_loop fuel m child_string_tag False (Suc nest)
                                                 contents d' cbb))
                                    else
                                      (case CBB_add_bytes m (CBS_data contents) (CBS_len contents) d' cbb of
                                         (ok, cbb) \<Rightarrow> Some (ok, inp, cbb)))) of
                         None \<Rightarrow> None
                       | Some (False, inp, cbb) \<Rightarrow> Some (False, inp, cbb)
                       | Some (True, inp, cbb) \<Rightarrow>
                           (case CBB_flush m d cbb of
                              (False, cbb) \<Rightarrow> Some (False, inp, cbb)
                            | (True, cbb) \<Rightarrow>
                                convert_ber_loop fuel m string_tag looking_for_eoc nest inp d cbb))))"

declare convert_ber_loop.simps(2) [simp del]

definition cbs_convert_ber ::
  "allocator \<Rightarrow> u32 \<Rightarrow> bool \<Rightarrow> nat \<Rightarrow> CBS \<Rightarrow> nat \<Rightarrow> CBB \<Rightarrow> (bool \<times> CBS \<times> CBB) option" where
  "cbs_convert_ber m string_tag looking_for_eoc nest inp d cbb =
     (if nest > kMaxDepth then Some (False, inp, cbb)
      else convert_ber_loop (Suc (CBS_len inp)) m string_tag looking_for_eoc nest inp d cbb)"

text \<open>The output cursor and the new block, if one was needed, and the input as it is left.\<close>

definition CBS_asn1_ber_to_der :: "allocator \<Rightarrow> CBS \<Rightarrow> ((CBS \<times> u8 list option) option \<times> CBS) option" where
  "CBS_asn1_ber_to_der m inp =
     (case cbs_find_ber inp 0 of
        None \<Rightarrow> Some (None, inp)
      | Some conversion_needed \<Rightarrow>
          if \<not> conversion_needed then
            (case CBS_get_any_asn1_element inp of
               (None, inp) \<Rightarrow> Some (None, inp)
             | (Some (out, tag, header_len), inp) \<Rightarrow> Some (Some (out, None), inp))
          else
            (case CBB_init m (CBS_len inp) of
               (False, cbb) \<Rightarrow> Some (None, inp)
             | (True, cbb) \<Rightarrow>
                 (case cbs_convert_ber m 0 False 0 inp 0 cbb of
                    None \<Rightarrow> None
                  | Some (False, inp, cbb) \<Rightarrow> Some (None, inp)
                  | Some (True, inp, cbb) \<Rightarrow>
                      (case CBB_finish m True True 0 cbb of
                         (None, cbb) \<Rightarrow> Some (None, inp)
                       | (Some (data, len), cbb) \<Rightarrow> Some (Some (CBS_init data len, Some data), inp)))))"

section \<open>Implicitly tagged strings\<close>

lemma CBS_get_asn1_progress:
  "CBS_get_asn1 t cbs = (Some out, cbs') \<Longrightarrow> cbs_len cbs' < cbs_len cbs"
  by (auto simp: CBS_get_asn1_def cbs_get_asn1_def CBS_get_any_asn1_element_def
      split: option.splits prod.splits if_splits dest!: element_progress)

function implicit_chunks :: "allocator \<Rightarrow> u32 \<Rightarrow> CBS \<Rightarrow> CBB \<Rightarrow> bool \<times> CBB" where
  "implicit_chunks m inner_tag child result =
     (if CBS_len child > 0 then
        (case CBS_get_asn1 inner_tag child of
           (None, child) \<Rightarrow> (False, result)
         | (Some chunk, child) \<Rightarrow>
             (case CBB_add_bytes m (CBS_data chunk) (CBS_len chunk) 0 result of
                (False, result) \<Rightarrow> (False, result)
              | (True, result) \<Rightarrow> implicit_chunks m inner_tag child result))
      else (True, result))"
  by pat_completeness auto
termination
  by (relation "measure (\<lambda>(m, t, child, result). cbs_len child)")
     (auto intro: CBS_get_asn1_progress [OF sym])

declare implicit_chunks.simps [simp del]

definition CBS_get_asn1_implicit_string ::
  "allocator \<Rightarrow> u32 \<Rightarrow> u32 \<Rightarrow> CBS \<Rightarrow> (CBS \<times> u8 list option) option \<times> CBS" where
  "CBS_get_asn1_implicit_string m outer_tag inner_tag inp =
     (if CBS_peek_asn1_tag inp outer_tag then
        (case CBS_get_asn1 outer_tag inp of
           (None, inp) \<Rightarrow> (None, inp)
         | (Some out, inp) \<Rightarrow> (Some (out, None), inp))
      else
        (case CBB_init m (CBS_len inp) of
           (False, result) \<Rightarrow> (None, inp)
         | (True, result) \<Rightarrow>
             (case CBS_get_asn1 (outer_tag OR CBS_ASN1_CONSTRUCTED) inp of
                (None, inp) \<Rightarrow> (None, inp)
              | (Some child, inp) \<Rightarrow>
                  (case implicit_chunks m inner_tag child result of
                     (False, result) \<Rightarrow> (None, inp)
                   | (True, result) \<Rightarrow>
                       (case CBB_finish m True True 0 result of
                          (None, result) \<Rightarrow> (None, inp)
                        | (Some (data, len), result) \<Rightarrow> (Some (CBS_init data len, Some data), inp))))))"

end
