(* ===== verification/Ber_Der.thy ===== *)
theory Ber_Der
  imports Ber
begin

text \<open>
  The converter of \<open>ber.c\<close> is correct: on the encoding of a BER tree it writes the DER
  encoding of the same tree, with indefinite lengths made definite and the fragments of
  constructed strings joined; and it always terminates within its fuel.
\<close>

section \<open>BER trees\<close>

datatype ber =
    Prim u32 "u8 list"
  | Con u32 "ber list"
  | Indef u32 "ber list"

fun ber_bytes :: "ber \<Rightarrow> u8 list" where
  "ber_bytes (Prim t body) = der_element t body"
| "ber_bytes (Con t cs) = der_element t (concat (map ber_bytes cs))"
| "ber_bytes (Indef t cs) = der_tag t @ 0x80 # concat (map ber_bytes cs) @ [0, 0]"

text \<open>The contents octets of a string, fragments joined.\<close>

fun string_bytes :: "ber \<Rightarrow> u8 list" where
  "string_bytes (Prim t body) = body"
| "string_bytes (Con t cs) = concat (map string_bytes cs)"
| "string_bytes (Indef t cs) = concat (map string_bytes cs)"

fun der_bytes :: "ber \<Rightarrow> u8 list" where
  "der_bytes (Prim t body) = der_element t body"
| "der_bytes (Con t cs) =
     (if is_string_type t
      then der_element (t AND NOT CBS_ASN1_CONSTRUCTED) (concat (map string_bytes cs))
      else der_element t (concat (map der_bytes cs)))"
| "der_bytes (Indef t cs) =
     (if is_string_type t
      then der_element (t AND NOT CBS_ASN1_CONSTRUCTED) (concat (map string_bytes cs))
      else der_element t (concat (map der_bytes cs)))"

text \<open>Trees that have an encoding: the constructed bit is set where there are children,
  no primitive is the end-of-contents marker, definite lengths fit in four bytes.\<close>

fun ber_wf :: "ber \<Rightarrow> bool" where
  "ber_wf (Prim t body) \<longleftrightarrow>
     t AND CBS_ASN1_CONSTRUCTED = 0 \<and> (t \<noteq> 0 \<or> body \<noteq> []) \<and> length body < 2 ^ 32"
| "ber_wf (Con t cs) \<longleftrightarrow>
     t AND CBS_ASN1_CONSTRUCTED \<noteq> 0 \<and> length (concat (map ber_bytes cs)) < 2 ^ 32 \<and> (\<forall>c \<in> set cs. ber_wf c)"
| "ber_wf (Indef t cs) \<longleftrightarrow> t AND CBS_ASN1_CONSTRUCTED \<noteq> 0 \<and> (\<forall>c \<in> set cs. ber_wf c)"

text \<open>All tags of a constructed string are that of the string, up to the constructed bit.\<close>

fun string_ok :: "u32 \<Rightarrow> ber \<Rightarrow> bool" where
  "string_ok s (Prim t body) \<longleftrightarrow> t AND NOT CBS_ASN1_CONSTRUCTED = s"
| "string_ok s (Con t cs) \<longleftrightarrow> t AND NOT CBS_ASN1_CONSTRUCTED = s \<and> (\<forall>c \<in> set cs. string_ok s c)"
| "string_ok s (Indef t cs) \<longleftrightarrow> t AND NOT CBS_ASN1_CONSTRUCTED = s \<and> (\<forall>c \<in> set cs. string_ok s c)"

fun tags_ok :: "ber \<Rightarrow> bool" where
  "tags_ok (Prim t body) \<longleftrightarrow> True"
| "tags_ok (Con t cs) \<longleftrightarrow>
     (if is_string_type t then \<forall>c \<in> set cs. string_ok (t AND NOT CBS_ASN1_CONSTRUCTED) c
      else \<forall>c \<in> set cs. tags_ok c)"
| "tags_ok (Indef t cs) \<longleftrightarrow>
     (if is_string_type t then \<forall>c \<in> set cs. string_ok (t AND NOT CBS_ASN1_CONSTRUCTED) c
      else \<forall>c \<in> set cs. tags_ok c)"

text \<open>What the converter writes for a tree, and its precondition, in the two modes.\<close>

definition out_bytes :: "u32 \<Rightarrow> ber \<Rightarrow> u8 list" where
  "out_bytes s x = (if s = 0 then der_bytes x else string_bytes x)"

definition in_ok :: "u32 \<Rightarrow> ber \<Rightarrow> bool" where
  "in_ok s x \<longleftrightarrow> ber_wf x \<and> (if s = 0 then tags_ok x else string_ok s x)"

section \<open>Reading one element\<close>

lemma get_any_asn1_indef:
  assumes "t AND CBS_ASN1_CONSTRUCTED \<noteq> 0"
  shows "CBS_get_any_ber_asn1_element (view (der_tag t @ 0x80 # rest) after) =
    (Some (view (der_tag t @ [0x80]) (rest @ after), t, Suc (length (der_tag t))), view rest after)"
  using assms by (simp add: CBS_get_any_ber_asn1_element_def cbs_get_any_asn1_element_def
      parse_asn1_tag_der_tag view_simps Let_def get_element_view)

lemma get_any_ber_der:
  "length body < 2 ^ 32 \<Longrightarrow>
     CBS_get_any_ber_asn1_element (view (der_element t body @ rest) after) =
       (Some (view (der_element t body) (rest @ after), t, length (der_header t (length body))),
        view rest after)"
  unfolding CBS_get_any_ber_asn1_element_def by (rule get_any_asn1_der)

lemma der_tag_inj: "der_tag s = der_tag t \<Longrightarrow> s = t"
  using parse_asn1_tag_der_tag [of s "[]" "[]"] parse_asn1_tag_der_tag [of t "[]" "[]"] by simp

lemma der_tag_0: "der_tag 0 = [0]"
  by (simp add: der_tag_def)

lemma der_header_empty: "der_header t 0 = der_tag t @ [0]"
  by (simp add: der_header_def der_len_def der_len_octets_def)

lemma is_indefinite_der: "\<not> is_indefinite (length (der_header t (length body))) (view (der_element t body) after)"
  by (cases "body = []") (simp_all add: is_indefinite_def der_element_def der_header_empty nth_append)

lemma is_indefinite_indef: "is_indefinite (Suc (length (der_tag t))) (view (der_tag t @ [0x80]) after)"
  by (simp add: is_indefinite_def nth_append)

lemma is_eoc_der:
  "is_eoc (length (der_header t (length body))) (view (der_element t body) after) \<longleftrightarrow> t = 0 \<and> body = []"
proof
  assume e: "is_eoc (length (der_header t (length body))) (view (der_element t body) after)"
  then have "length (der_header t (length body)) + length body = 2" "length (der_header t (length body)) = 2"
    by (auto simp: is_eoc_def der_element_def)
  then have body: "body = []" by simp
  with e have "take 2 (der_tag t @ [0] @ after) = [0, 0]" "length (der_tag t) = 1"
    by (auto simp: is_eoc_def der_element_def der_header_empty)
  then have "der_tag t = der_tag 0" by (cases "der_tag t") (auto simp: der_tag_0)
  with body show "t = 0 \<and> body = []" by (simp add: der_tag_inj)
next
  assume "t = 0 \<and> body = []"
  then show "is_eoc (length (der_header t (length body))) (view (der_element t body) after)"
    by (simp add: is_eoc_def der_element_def der_header_empty der_tag_0)
qed

lemma is_eoc_indef: "\<not> is_eoc (Suc (length (der_tag t))) (view (der_tag t @ [0x80]) after)"
proof
  assume "is_eoc (Suc (length (der_tag t))) (view (der_tag t @ [0x80]) after)"
  then have "length (der_tag t) = 1" "take 2 (der_tag t @ 0x80 # after) = [0, 0]"
    by (auto simp: is_eoc_def)
  then show False by (cases "der_tag t") simp_all
qed

lemma eoc_bytes: "[0, 0] = der_element 0 []"
  by (simp add: der_element_def der_header_empty der_tag_0)

text \<open>A step of the converter, in named parts. First the part that handles the contents of the element.\<close>

definition convert_body ::
  "nat \<Rightarrow> allocator \<Rightarrow> u32 \<Rightarrow> nat \<Rightarrow> nat \<Rightarrow> CBS \<Rightarrow> u32 \<Rightarrow> CBS \<Rightarrow> nat \<Rightarrow> CBB \<Rightarrow> (bool \<times> CBS \<times> CBB) option" where
  "convert_body fuel m cs nest h contents tag inp d cbb =
     (if is_indefinite h contents then
        (if Suc nest > kMaxDepth then Some (False, inp, cbb)
         else convert_ber_loop fuel m cs True (Suc nest) inp d cbb)
      else
        (case CBS_skip h contents of
           (None, contents) \<Rightarrow> Some (False, inp, cbb)
         | (Some u, contents) \<Rightarrow>
             if tag AND CBS_ASN1_CONSTRUCTED \<noteq> 0 then
               (if Suc nest > kMaxDepth then Some (False, inp, cbb)
                else map_option (\<lambda>(ok, rest, cbb). (ok, inp, cbb))
                       (convert_ber_loop fuel m cs False (Suc nest) contents d cbb))
             else
               (case CBB_add_bytes m (CBS_data contents) (CBS_len contents) d cbb of
                  (ok, cbb) \<Rightarrow> Some (ok, inp, cbb))))"

definition child_tag :: "u32 \<Rightarrow> u32 \<Rightarrow> u32" where
  "child_tag s tag =
     (if s = 0 \<and> tag AND CBS_ASN1_CONSTRUCTED \<noteq> 0 \<and> is_string_type tag
      then tag AND NOT CBS_ASN1_CONSTRUCTED else s)"

definition out_tag :: "u32 \<Rightarrow> u32" where
  "out_tag tag =
     (if tag AND CBS_ASN1_CONSTRUCTED \<noteq> 0 \<and> is_string_type tag
      then tag AND NOT CBS_ASN1_CONSTRUCTED else tag)"

lemma convert_step_eq:
  assumes g: "CBS_get_any_ber_asn1_element inp = (Some (contents, tag, h), inp1)"
    and ne: "CBS_len inp \<noteq> 0" and eo: "\<not> is_eoc h contents"
    and st: "\<not> (s \<noteq> 0 \<and> tag AND NOT CBS_ASN1_CONSTRUCTED \<noteq> s)"
  shows "convert_ber_loop (Suc fuel) m s eoc nest inp d cbb =
    (case (if s \<noteq> 0 then (True, cbb) else CBB_add_asn1 m (out_tag tag) d cbb) of
       (False, cbb) \<Rightarrow> Some (False, inp1, cbb)
     | (True, cbb) \<Rightarrow>
         (case convert_body fuel m (child_tag s tag) nest h contents tag inp1 (if s \<noteq> 0 then d else Suc d) cbb of
            None \<Rightarrow> None
          | Some (False, inp, cbb) \<Rightarrow> Some (False, inp, cbb)
          | Some (True, inp, cbb) \<Rightarrow>
              (case CBB_flush m d cbb of
                 (False, cbb) \<Rightarrow> Some (False, inp, cbb)
               | (True, cbb) \<Rightarrow> convert_ber_loop fuel m s eoc nest inp d cbb)))"
proof -
  have "child_tag s tag = (if s = 0 \<and> tag AND CBS_ASN1_CONSTRUCTED \<noteq> 0 \<and> is_string_type tag
      then out_tag tag else s)"
    by (simp add: child_tag_def out_tag_def)
  then show ?thesis
    unfolding convert_ber_loop.simps(2) g prod.case option.case Let_def if_not_P [OF ne]
      if_not_P [OF eo] if_not_P [OF st]
    by (simp only: convert_body_def out_tag_def)
qed

section \<open>The fuel is enough\<close>

lemma convert_ber_fuel:
  "cbs_len inp < fuel \<Longrightarrow>
     \<exists>ok inp' cbb'. convert_ber_loop fuel m s eoc nest inp d cbb = Some (ok, inp', cbb') \<and>
       cbs_len inp' \<le> cbs_len inp"
proof (induction fuel arbitrary: s eoc nest inp d cbb)
  case (Suc fuel)
  obtain r inp1 where g: "CBS_get_any_ber_asn1_element inp = (r, inp1)" by fastforce
  show ?case
  proof (cases "CBS_len inp = 0 \<or> r = None")
    case True
    then have "cbs_len inp1 \<le> cbs_len inp" if "r = None"
      using g that by (auto simp: CBS_get_any_ber_asn1_element_def cbs_get_any_asn1_element_def
          get_element_def CBS_get_bytes_def cbs_get_def Let_def
          split: option.splits prod.splits if_splits)
    with True g show ?thesis
      by (cases "CBS_len inp = 0") (auto simp: convert_ber_loop.simps(2))
  next
    case False
    then obtain contents tag h where r: "r = Some (contents, tag, h)" and ne: "CBS_len inp \<noteq> 0" by auto
    from ber_progress [OF g [unfolded r]] have len1: "cbs_len inp1 < cbs_len inp"
      and h: "0 < h" "h \<le> cbs_len contents" "cbs_len contents \<le> cbs_len inp"
      using ne by (auto simp: CBS_len_def)
    have sk: "\<exists>contents'. CBS_skip h contents = (Some (), contents') \<and> cbs_len contents' < cbs_len inp"
      using h by (simp add: CBS_skip_def cbs_get_def)
    then obtain contents' where sk: "CBS_skip h contents = (Some (), contents')"
      and lc: "cbs_len contents' < cbs_len inp" by blast
    have lt: "cbs_len inp1 < fuel" "cbs_len contents' < fuel" using len1 lc Suc.prems by simp_all
    have le: "cbs_len inp1 \<le> cbs_len inp" using len1 by simp
    have next_step: "\<exists>ok i' c'. (case CBB_flush m d c of (False, c) \<Rightarrow> Some (False, i, c)
        | (True, c) \<Rightarrow> convert_ber_loop fuel m s eoc nest i d c) = Some (ok, i', c') \<and> cbs_len i' \<le> cbs_len inp"
      if "cbs_len i \<le> cbs_len inp1" for i c
    proof -
      obtain fo fc where "CBB_flush m d c = (fo, fc)" by fastforce
      moreover have "cbs_len i < fuel" using that lt by simp
      ultimately show ?thesis using Suc.IH [of i s eoc nest d fc] that le by (cases fo) force+
    qed
    show ?thesis
    proof (cases "is_eoc h contents \<or> (s \<noteq> 0 \<and> tag AND NOT CBS_ASN1_CONSTRUCTED \<noteq> s)")
      case True
      then show ?thesis
        using le ne by (cases "is_eoc h contents") (auto simp: convert_ber_loop.simps(2) g r)
    next
      case False
      let ?d = "if s \<noteq> 0 then d else Suc d"
      obtain ao ac where a: "(if s \<noteq> 0 then (True, cbb) else CBB_add_asn1 m (out_tag tag) d cbb) = (ao, ac)"
        by fastforce
      have "\<exists>ok i c. convert_body fuel m (child_tag s tag) nest h contents tag inp1 ?d ac = Some (ok, i, c) \<and>
          cbs_len i \<le> cbs_len inp1"
        using Suc.IH [OF lt(1), of "child_tag s tag" True "Suc nest" ?d ac]
          Suc.IH [OF lt(2), of "child_tag s tag" False "Suc nest" ?d ac]
        by (auto simp: convert_body_def sk split: prod.splits)
      then obtain bo bi bc where
        body: "convert_body fuel m (child_tag s tag) nest h contents tag inp1 ?d ac = Some (bo, bi, bc)"
        and bi: "cbs_len bi \<le> cbs_len inp1" by blast
      have eo: "\<not> is_eoc h contents" and st: "\<not> (s \<noteq> 0 \<and> tag AND NOT CBS_ASN1_CONSTRUCTED \<noteq> s)"
        using False by auto
      show ?thesis
        using next_step [OF bi, of bc] le bi
        unfolding convert_step_eq [OF g [unfolded r] ne eo st] a
        by (cases ao; cases bo) (auto simp: body)
    qed
  qed
qed simp

lemma cbs_convert_ber_total: "cbs_convert_ber m s eoc nest inp d cbb \<noteq> None"
  using convert_ber_fuel [of inp "Suc (CBS_len inp)" m s eoc nest d cbb]
  by (auto simp: cbs_convert_ber_def CBS_len_def)

section \<open>What is written\<close>

text \<open>Reading a tree's element: what the converter sees of it.\<close>

fun ber_tag :: "ber \<Rightarrow> u32" where
  "ber_tag (Prim t body) = t"
| "ber_tag (Con t cs) = t"
| "ber_tag (Indef t cs) = t"

lemma flush_holds:
  "cbb_holds m d a cbb w \<Longrightarrow> CBB_flush m d cbb = (True, cbb)"
  using flush_done [of cbb "add_top w a" d m] by (auto simp: cbb_holds_def)

text \<open>The element frame: tag written, contents written to the child, child closed.\<close>

lemma asn1_child_holds:
  assumes h: "cbb_holds m d a cbb w" and hd: "CBB_add_asn1 m t d cbb = (True, cbb1)"
    and body: "\<And>b. cbb_holds m (Suc d) b cbb1 [] \<Longrightarrow> cbb_holds m (Suc d) b cbb2 bs"
    and fl: "CBB_flush m d cbb2 = (True, cbb')"
  shows "cbb_holds m d a cbb' (w @ der_element t bs)"
proof -
  have m: "malloc_ok m" and rep: "cbb_rep cbb (add_top w a)" and d: "d = length (snd a)"
    using h by (auto simp: cbb_holds_def)
  from asn1_child_appends [OF m rep _ hd body fl] d
  have "cbb_rep cbb' (add_top (der_element t bs) (close_to d (add_top w a)))" by simp
  with m d show ?thesis by (simp add: cbb_holds_def)
qed

text \<open>A successful step, in its two modes.\<close>

lemma convert_step:
  assumes r: "convert_ber_loop (Suc fuel) m s eoc nest inp d cbb = Some (True, inp', cbb')"
    and g: "CBS_get_any_ber_asn1_element inp = (Some (contents, tag, h), inp1)"
    and ne: "CBS_len inp \<noteq> 0" and eo: "\<not> is_eoc h contents"
  obtains inp2 cbb2 cbb3 where
    "s \<noteq> 0" "tag AND NOT CBS_ASN1_CONSTRUCTED = s"
    "convert_body fuel m s nest h contents tag inp1 d cbb = Some (True, inp2, cbb2)"
    "CBB_flush m d cbb2 = (True, cbb3)"
    "convert_ber_loop fuel m s eoc nest inp2 d cbb3 = Some (True, inp', cbb')"
  | cbb1 inp2 cbb2 cbb3 where
    "s = 0" "CBB_add_asn1 m (out_tag tag) d cbb = (True, cbb1)"
    "convert_body fuel m (child_tag 0 tag) nest h contents tag inp1 (Suc d) cbb1 = Some (True, inp2, cbb2)"
    "CBB_flush m d cbb2 = (True, cbb3)"
    "convert_ber_loop fuel m s eoc nest inp2 d cbb3 = Some (True, inp', cbb')"
proof -
  let ?d = "if s \<noteq> 0 then d else Suc d"
  obtain ao ac where a: "(if s \<noteq> 0 then (True, cbb) else CBB_add_asn1 m (out_tag tag) d cbb) = (ao, ac)"
    by fastforce
  have st: "\<not> (s \<noteq> 0 \<and> tag AND NOT CBS_ASN1_CONSTRUCTED \<noteq> s)"
  proof
    assume c: "s \<noteq> 0 \<and> tag AND NOT CBS_ASN1_CONSTRUCTED \<noteq> s"
    from r [unfolded convert_ber_loop.simps(2) [of fuel m s eoc nest inp d cbb]
        g prod.case option.case if_not_P [OF ne] if_not_P [OF eo] if_P [OF c]]
    show False by simp
  qed
  note r' = r [unfolded convert_step_eq [OF g ne eo st] a]
  have ao: ao using r' by (cases ao) simp_all
  obtain bo bi bc where b: "convert_body fuel m (child_tag s tag) nest h contents tag inp1 ?d ac = Some (bo, bi, bc)"
    using r' ao by (cases "convert_body fuel m (child_tag s tag) nest h contents tag inp1 ?d ac") auto
  have bo: bo using r' ao b by (cases bo) simp_all
  obtain fo fc where f: "CBB_flush m d bc = (fo, fc)" by fastforce
  have fo: fo using r' ao b bo f by (cases fo) simp_all
  have rest: "convert_ber_loop fuel m s eoc nest bi d fc = Some (True, inp', cbb')"
    using r' ao b bo f fo by simp
  show thesis
  proof (cases "s = 0")
    case True
    show thesis
      by (rule that(2) [of ac bi bc fc]) (use True a ao b bo f fo rest in auto)
  next
    case False
    show thesis
      by (rule that(1) [of bi bc fc]) (use False st a ao b bo f fo rest in \<open>auto simp: child_tag_def\<close>)
  qed
qed

text \<open>The contents of a tree as they are written when its children are converted with
  string tag \<open>s\<close>.\<close>

fun body_bytes :: "u32 \<Rightarrow> ber \<Rightarrow> u8 list" where
  "body_bytes s (Prim t body) = body"
| "body_bytes s (Con t cs) = concat (map (out_bytes s) cs)"
| "body_bytes s (Indef t cs) = concat (map (out_bytes s) cs)"

fun kids :: "ber \<Rightarrow> ber list" where
  "kids (Prim t body) = []"
| "kids (Con t cs) = cs"
| "kids (Indef t cs) = cs"

lemma string_tag_nonzero: "is_string_type t \<Longrightarrow> t AND NOT CBS_ASN1_CONSTRUCTED \<noteq> 0"
  by (auto simp: is_string_type_def string_tags_def)

lemma body_bytes_string: "s \<noteq> 0 \<Longrightarrow> body_bytes s x = out_bytes s x"
  by (cases x) (simp_all add: out_bytes_def cong: map_cong)

lemma der_bytes_body:
  "ber_wf x \<Longrightarrow> der_element (out_tag (ber_tag x)) (body_bytes (child_tag 0 (ber_tag x)) x) = der_bytes x"
  by (cases x) (auto simp: out_tag_def child_tag_def out_bytes_def string_tag_nonzero cong: map_cong)

lemma kids_ok:
  assumes "in_ok s x" and "c \<in> set (kids x)"
  shows "in_ok (child_tag s (ber_tag x)) c"
  using assms by (cases x) (auto simp: in_ok_def child_tag_def string_tag_nonzero split: if_splits)

lemma in_ok_tag: "in_ok s x \<Longrightarrow> s \<noteq> 0 \<Longrightarrow> ber_tag x AND NOT CBS_ASN1_CONSTRUCTED = s"
  by (cases x) (auto simp: in_ok_def)

text \<open>What converting a list of trees does: the statement of the induction.\<close>

definition converts :: "nat \<Rightarrow> bool" where
  "converts fuel \<longleftrightarrow>
     (\<forall>m s eoc nest ts rest after d a cbb w inp' cbb'.
        convert_ber_loop fuel m s eoc nest
          (view (concat (map ber_bytes ts) @ (if eoc then [0, 0] @ rest else [])) after) d cbb
          = Some (True, inp', cbb') \<longrightarrow>
        (\<forall>x \<in> set ts. in_ok s x) \<longrightarrow> cbb_holds m d a cbb w \<longrightarrow>
        inp' = view (if eoc then rest else []) after \<and>
        cbb_holds m d a cbb' (w @ concat (map (out_bytes s) ts)))"

lemma convertsD:
  assumes "converts fuel"
    and "convert_ber_loop fuel m s eoc nest
      (view (concat (map ber_bytes ts) @ (if eoc then [0, 0] @ rest else [])) after) d cbb
      = Some (True, inp', cbb')"
    and "\<forall>x \<in> set ts. in_ok s x" and "cbb_holds m d a cbb w"
  shows "inp' = view (if eoc then rest else []) after"
    and "cbb_holds m d a cbb' (w @ concat (map (out_bytes s) ts))"
  using assms unfolding converts_def by blast+

text \<open>A tree's element as the converter reads it, and the conversion of its contents.\<close>

lemma read_tree:
  assumes wf: "ber_wf x"
  obtains contents h inp1 where
    "CBS_get_any_ber_asn1_element (view (ber_bytes x @ R) after) = (Some (contents, ber_tag x, h), inp1)"
    "\<not> is_eoc h contents"
    "\<And>fuel m s nest d a cbb w inp2 cbb2.
       converts fuel \<Longrightarrow> convert_body fuel m s nest h contents (ber_tag x) inp1 d cbb = Some (True, inp2, cbb2) \<Longrightarrow>
       \<forall>c \<in> set (kids x). in_ok s c \<Longrightarrow> cbb_holds m d a cbb w \<Longrightarrow>
       inp2 = view R after \<and> cbb_holds m d a cbb2 (w @ body_bytes s x)"
proof (cases x)
  case (Prim t body)
  with wf have t: "t AND CBS_ASN1_CONSTRUCTED = 0" "t \<noteq> 0 \<or> body \<noteq> []" "length body < 2 ^ 32" by auto
  let ?h = "length (der_header t (length body))" and ?c = "view (der_element t body) (R @ after)"
  have sk: "CBS_skip ?h ?c = (Some (), view body (R @ after))"
    by (simp add: CBS_skip_view der_element_def)
  show thesis
  proof (rule that [of ?c ?h "view R after"])
    show "CBS_get_any_ber_asn1_element (view (ber_bytes x @ R) after) = (Some (?c, ber_tag x, ?h), view R after)"
      using get_any_ber_der [OF t(3)] Prim by simp
    show "\<not> is_eoc ?h ?c" using t(2) by (simp add: is_eoc_der)
    fix fuel m s nest d a cbb w inp2 cbb2
    assume cb: "convert_body fuel m s nest ?h ?c (ber_tag x) (view R after) d cbb = Some (True, inp2, cbb2)"
      and h: "cbb_holds m d a cbb w"
    have w: "CBB_add_bytes m (body @ R @ after) (length body) d cbb = (True, cbb2)" and i: "inp2 = view R after"
      using cb Prim t(1) by (auto simp: convert_body_def is_indefinite_der sk split: prod.splits)
    have "malloc_ok m \<Longrightarrow> appends d (CBB_add_bytes m (body @ R @ after) (length body) d) body"
      using CBB_add_bytes_appends [of m "length body" "body @ R @ after" d] t(3) by simp
    from appends_holds [OF this h w] i Prim
    show "inp2 = view R after \<and> cbb_holds m d a cbb2 (w @ body_bytes s x)" by simp
  qed
next
  case (Con t cs)
  let ?body = "concat (map ber_bytes cs)"
  from Con wf have t: "t AND CBS_ASN1_CONSTRUCTED \<noteq> 0" "length ?body < 2 ^ 32" by auto
  let ?h = "length (der_header t (length ?body))" and ?c = "view (der_element t ?body) (R @ after)"
  have sk: "CBS_skip ?h ?c = (Some (), view ?body (R @ after))"
    by (simp add: CBS_skip_view der_element_def)
  show thesis
  proof (rule that [of ?c ?h "view R after"])
    show "CBS_get_any_ber_asn1_element (view (ber_bytes x @ R) after) = (Some (?c, ber_tag x, ?h), view R after)"
      using get_any_ber_der [OF t(2)] Con by simp
    show "\<not> is_eoc ?h ?c" using t(1) by (auto simp: is_eoc_der)
    fix fuel m s nest d a cbb w inp2 cbb2
    assume ih: "converts fuel"
      and cb: "convert_body fuel m s nest ?h ?c (ber_tag x) (view R after) d cbb = Some (True, inp2, cbb2)"
      and kids: "\<forall>c \<in> set (kids x). in_ok s c" and h: "cbb_holds m d a cbb w"
    obtain i2 where r: "convert_ber_loop fuel m s False (Suc nest) (view ?body (R @ after)) d cbb
        = Some (True, i2, cbb2)" and i: "inp2 = view R after"
      using cb Con t(1) by (auto simp: convert_body_def is_indefinite_der sk split: if_splits)
    from convertsD(2) [OF ih, of m s False "Suc nest" cs "[]" "R @ after" d cbb i2 cbb2 a w] r kids h i Con
    show "inp2 = view R after \<and> cbb_holds m d a cbb2 (w @ body_bytes s x)" by simp
  qed
next
  case (Indef t cs)
  let ?body = "concat (map ber_bytes cs)"
  from Indef wf have t: "t AND CBS_ASN1_CONSTRUCTED \<noteq> 0" by auto
  let ?h = "Suc (length (der_tag t))" and ?i = "view (?body @ [0, 0] @ R) after"
  let ?c = "view (der_tag t @ [0x80]) ((?body @ [0, 0] @ R) @ after)"
  show thesis
  proof (rule that [of ?c ?h ?i])
    show "CBS_get_any_ber_asn1_element (view (ber_bytes x @ R) after) = (Some (?c, ber_tag x, ?h), ?i)"
      using get_any_asn1_indef [OF t, of "?body @ [0, 0] @ R" after] Indef by simp
    show "\<not> is_eoc ?h ?c" by (rule is_eoc_indef)
    fix fuel m s nest d a cbb w inp2 cbb2
    assume ih: "converts fuel"
      and cb: "convert_body fuel m s nest ?h ?c (ber_tag x) ?i d cbb = Some (True, inp2, cbb2)"
      and kids: "\<forall>c \<in> set (kids x). in_ok s c" and h: "cbb_holds m d a cbb w"
    have r: "convert_ber_loop fuel m s True (Suc nest) ?i d cbb = Some (True, inp2, cbb2)"
      using cb by (simp add: convert_body_def is_indefinite_indef split: if_splits)
    from convertsD [OF ih, of m s True "Suc nest" cs R after d cbb inp2 cbb2 a w] r kids h Indef
    show "inp2 = view R after \<and> cbb_holds m d a cbb2 (w @ body_bytes s x)" by simp
  qed
qed

lemma ber_bytes_nonempty: "ber_bytes x \<noteq> []"
  by (cases x) (simp_all add: der_element_def)

lemma converts_all: "converts fuel"
proof (induction fuel)
  case 0
  then show ?case by (simp add: converts_def)
next
  case (Suc fuel)
  show ?case
    unfolding converts_def
  proof (intro allI impI)
    fix m s eoc nest ts rest after d a cbb w inp' cbb'
    let ?tail = "if eoc then [0, 0] @ rest else [] :: u8 list"
    assume r: "convert_ber_loop (Suc fuel) m s eoc nest (view (concat (map ber_bytes ts) @ ?tail) after) d cbb
        = Some (True, inp', cbb')" and ok: "\<forall>x \<in> set ts. in_ok s x" and h: "cbb_holds m d a cbb w"
    show "inp' = view (if eoc then rest else []) after \<and>
        cbb_holds m d a cbb' (w @ concat (map (out_bytes s) ts))"
    proof (cases ts)
      case Nil
      show ?thesis
      proof (cases eoc)
        case True
        have "CBS_get_any_ber_asn1_element (view ([0, 0] @ rest) after) =
            (Some (view [0, 0] (rest @ after), 0, 2), view rest after)"
          using get_any_ber_der [of "[]" 0 rest after] by (simp add: eoc_bytes [symmetric] der_header_empty der_tag_0)
        moreover have "is_eoc 2 (view [0, 0] (rest @ after))" by (simp add: is_eoc_def)
        ultimately show ?thesis
          using r Nil True h by (simp add: convert_ber_loop.simps(2))
      next
        case False
        then show ?thesis using r Nil h by (simp add: convert_ber_loop.simps(2))
      qed
    next
      case (Cons x xs)
      let ?R = "concat (map ber_bytes xs) @ ?tail"
      have x: "in_ok s x" and wf: "ber_wf x" using ok Cons by (auto simp: in_ok_def)
      obtain contents hl inp1 where
        g: "CBS_get_any_ber_asn1_element (view (ber_bytes x @ ?R) after) = (Some (contents, ber_tag x, hl), inp1)"
        and eo: "\<not> is_eoc hl contents"
        and body: "\<And>fuel m s nest d a cbb w inp2 cbb2. converts fuel \<Longrightarrow>
          convert_body fuel m s nest hl contents (ber_tag x) inp1 d cbb = Some (True, inp2, cbb2) \<Longrightarrow>
          \<forall>c \<in> set (kids x). in_ok s c \<Longrightarrow> cbb_holds m d a cbb w \<Longrightarrow>
          inp2 = view ?R after \<and> cbb_holds m d a cbb2 (w @ body_bytes s x)"
        using read_tree [OF wf, of ?R after] by blast
      have ne: "CBS_len (view (ber_bytes x @ ?R) after) \<noteq> 0" using ber_bytes_nonempty [of x] by simp
      have kx: "\<forall>c \<in> set (kids x). in_ok (child_tag s (ber_tag x)) c" using kids_ok [OF x] by blast
      have r': "convert_ber_loop (Suc fuel) m s eoc nest (view (ber_bytes x @ ?R) after) d cbb
          = Some (True, inp', cbb')" using r Cons by simp
      have fin: ?thesis
        if "cbb_holds m d a c (w @ out_bytes s x)" "i = view ?R after"
          "convert_ber_loop fuel m s eoc nest i d c = Some (True, inp', cbb')" for c i
        using convertsD [OF Suc.IH that(3) [unfolded that(2)] _ that(1)] ok Cons by simp
      from convert_step [OF r' g ne eo] show ?thesis
      proof cases
        case (1 inp2 cbb2 cbb3)
        have "child_tag s (ber_tag x) = s" using 1(1) by (simp add: child_tag_def)
        then have b: "inp2 = view ?R after" "cbb_holds m d a cbb2 (w @ out_bytes s x)"
          using body [OF Suc.IH 1(3) _ h] kx body_bytes_string [OF 1(1), of x] by auto
        have "cbb3 = cbb2" using flush_holds [OF b(2)] 1(4) by simp
        with b 1(5) show ?thesis by (intro fin [of cbb3 inp2]) auto
      next
        case (2 cbb1 inp2 cbb2 cbb3)
        have k0: "\<forall>c \<in> set (kids x). in_ok (child_tag 0 (ber_tag x)) c" using kx 2(1) by simp
        have i: "inp2 = view ?R after"
        proof -
          from CBB_add_asn1_rep(2) [of m cbb "add_top w a" d] h 2(2)
          have "\<exists>b. cbb_holds m (Suc d) b cbb1 []"
            by (intro exI [of _ "open_top Der (add_top (der_tag (out_tag (ber_tag x))) (add_top w a))"])
               (auto simp: cbb_holds_def open_top_def)
          with body [OF Suc.IH 2(3) k0] show ?thesis by blast
        qed
        have "cbb_holds m d a cbb3 (w @ der_element (out_tag (ber_tag x)) (body_bytes (child_tag 0 (ber_tag x)) x))"
        proof (rule asn1_child_holds [OF h 2(2) _ 2(4)])
          fix b assume "cbb_holds m (Suc d) b cbb1 []"
          from body [OF Suc.IH 2(3) k0 this]
          show "cbb_holds m (Suc d) b cbb2 (body_bytes (child_tag 0 (ber_tag x)) x)" by simp
        qed
        then have "cbb_holds m d a cbb3 (w @ out_bytes s x)"
          using der_bytes_body [OF wf] 2(1) by (simp add: out_bytes_def)
        with i 2(5) show ?thesis by (intro fin [of cbb3 inp2]) auto
      qed
    qed
  qed
qed

section \<open>The entry point\<close>

lemma ber_to_der_converted:
  assumes m: "malloc_ok m" and ok: "\<forall>x \<in> set ts. in_ok 0 x"
    and len: "length (concat (map ber_bytes ts)) + 8 < 2 ^ 64"
    and found: "cbs_find_ber (view (concat (map ber_bytes ts)) after) 0 = Some True"
    and r: "CBS_asn1_ber_to_der m (view (concat (map ber_bytes ts)) after) = Some (Some (out, storage), inp)"
  shows "cbs_bytes out = concat (map der_bytes ts) \<and> cbs_len inp = 0"
proof -
  let ?in = "view (concat (map ber_bytes ts)) after"
  obtain cbb1 cbb2 data n cbb3 where i: "CBB_init m (CBS_len ?in) = (True, cbb1)"
    and c: "cbs_convert_ber m 0 False 0 ?in 0 cbb1 = Some (True, inp, cbb2)"
    and fin: "CBB_finish m True True 0 cbb2 = (Some (data, n), cbb3)"
    and out: "out = CBS_init data n"
    using r found by (auto simp: CBS_asn1_ber_to_der_def split: prod.splits bool.splits option.splits)
  have "cbb_rep cbb1 ([], [])"
    using CBB_init_rep [OF m _ i] len by simp
  then have h: "cbb_holds m 0 ([], []) cbb1 []" using m by (simp add: cbb_holds_def)
  have c': "convert_ber_loop (Suc (CBS_len ?in)) m 0 False 0
      (view (concat (map ber_bytes ts) @ (if False then [0, 0] @ [] else [])) after) 0 cbb1 = Some (True, inp, cbb2)"
    using c by (simp add: cbs_convert_ber_def)
  note conv = convertsD [OF converts_all c' ok h]
  have "cbb_rep cbb2 (concat (map der_bytes ts), [])"
    using conv(2) by (simp add: cbb_holds_def add_top_Nil out_bytes_def cong: map_cong)
  from CBB_finish_rep [OF m this fin] out conv(1) show ?thesis
    by (auto simp: cbs_bytes_def CBS_init_def view_def)
qed

lemma ber_to_der_terminates: "CBS_asn1_ber_to_der m inp \<noteq> None"
  by (simp add: CBS_asn1_ber_to_der_def cbs_convert_ber_total split: option.split prod.split bool.split)

text \<open>The walk forgets BER that it found in an earlier child when a later constructed child
  has none: the flag is reset on entry and the loop does not stop.\<close>

lemma find_ber_forgets:
  "cbs_find_ber (view [0x30, 0x06, 0x30, 0x04, 0x24, 0x80, 0, 0] []) 0 = Some True"
  "cbs_find_ber (view [0x30, 0x08, 0x30, 0x04, 0x24, 0x80, 0, 0, 0x30, 0] []) 0 = Some False"
  by (simp_all add: cbs_find_ber_def kMaxDepth_def find_ber_loop.simps CBS_init_def view_def CBS_len_def
      CBS_data_def CBS_get_any_ber_asn1_element_def cbs_get_any_asn1_element_def parse_asn1_tag_def
      CBS_get_u8_def cbs_get_def Let_def CBS_ASN1_TAG_SHIFT_def CBS_ASN1_CONSTRUCTED_def get_element_def
      CBS_get_bytes_def is_indefinite_def sz_add_def is_string_type_def string_tags_def CBS_skip_def)

end
