(* ===== verification/Oid.thy ===== *)
theory Oid
  imports Set_Of
begin

text \<open>
  Object identifiers: the text printer of \<open>cbs.c\<close>, and the round trip with the text
  parser and encoder of \<open>cbb.c\<close>.
\<close>

section \<open>The printer\<close>

text \<open>The C library's \<open>"%" PRIu64\<close> conversion.\<close>

fun decimal_text :: "nat \<Rightarrow> u8 list" where
  "decimal_text n =
     (if n < 10 then [word_of_nat (48 + n)]
      else decimal_text (n div 10) @ [word_of_nat (48 + n mod 10)])"

declare decimal_text.simps [simp del]

definition add_decimal :: "allocator \<Rightarrow> u64 \<Rightarrow> nat \<Rightarrow> CBB \<Rightarrow> bool \<times> CBB" where
  "add_decimal m v d cbb =
     (let buf = decimal_text (unat v) in CBB_add_bytes m buf (length buf) d cbb)"

lemma parse_base128_loop_len:
  "parse_base128_loop v cbs = (Some w, cbs') \<Longrightarrow> cbs_len cbs' < cbs_len cbs"
proof (induction v cbs rule: parse_base128_loop.induct)
  case (1 v cbs)
  obtain r cbs1 where g: "CBS_get_u8 cbs = (r, cbs1)" by fastforce
  with 1(2) obtain b where b: "r = Some b"
    by (subst (asm) parse_base128_loop.simps) (auto split: option.splits)
  with g have lt: "cbs_len cbs1 < cbs_len cbs"
    by (auto simp: CBS_get_u8_def cbs_get_def split: if_splits)
  note step = 1(2) [unfolded parse_base128_loop.simps [of v cbs]]
  from step g b have n1: "\<not> drop_bit (64 - 7) v \<noteq> 0" and n2: "\<not> (v = 0 \<and> b = 0x80)"
    by (auto split: if_splits)
  show ?case
  proof (cases "b AND 0x80 = 0")
    case True
    with step g b n1 n2 lt show ?thesis by (auto simp: Let_def split: if_splits)
  next
    case False
    with step g b n1 n2
    have "parse_base128_loop (push_bit 7 v OR ucast (b AND 0x7f)) cbs1 = (Some w, cbs')"
      by (auto simp: Let_def split: if_splits)
    from 1(1) [OF g [symmetric] b n1 n2 refl False this] lt show ?thesis by simp
  qed
qed

function oid_text_loop :: "allocator \<Rightarrow> CBS \<Rightarrow> CBB \<Rightarrow> bool \<times> CBB" where
  "oid_text_loop m copy cbb =
     (if CBS_len copy \<noteq> 0 then
        (case parse_base128_integer copy of
           (None, copy') \<Rightarrow> (False, cbb)
         | (Some v, copy') \<Rightarrow>
             (case CBB_add_u8 m 46 0 cbb of
                (False, cbb) \<Rightarrow> (False, cbb)
              | (True, cbb) \<Rightarrow>
                  (case add_decimal m v 0 cbb of
                     (False, cbb) \<Rightarrow> (False, cbb)
                   | (True, cbb) \<Rightarrow> oid_text_loop m copy' cbb)))
      else (True, cbb))"
  by pat_completeness auto
termination
  by (relation "measure (\<lambda>(m, copy, cbb). cbs_len copy)")
     (auto simp: parse_base128_integer_def intro: parse_base128_loop_len [OF sym])

declare oid_text_loop.simps [simp del]

definition oid_text_first :: "allocator \<Rightarrow> u64 \<Rightarrow> CBB \<Rightarrow> bool \<times> CBB" where
  "oid_text_first m v cbb =
     (if v \<ge> 80 then
        (case CBB_add_bytes m [50, 46] 2 0 cbb of
           (False, cbb) \<Rightarrow> (False, cbb)
         | (True, cbb) \<Rightarrow> add_decimal m (v - 80) 0 cbb)
      else
        (case add_decimal m (v div 40) 0 cbb of
           (False, cbb) \<Rightarrow> (False, cbb)
         | (True, cbb) \<Rightarrow>
             (case CBB_add_u8 m 46 0 cbb of
                (False, cbb) \<Rightarrow> (False, cbb)
              | (True, cbb) \<Rightarrow> add_decimal m (v mod 40) 0 cbb)))"

text \<open>The new string, its terminating zero included, or NULL.\<close>

definition CBS_asn1_oid_to_text :: "allocator \<Rightarrow> CBS \<Rightarrow> u8 list option" where
  "CBS_asn1_oid_to_text m cbs =
     (case CBB_init m 32 of
        (False, cbb) \<Rightarrow> None
      | (True, cbb) \<Rightarrow>
     (case parse_base128_integer cbs of
        (None, copy) \<Rightarrow> None
      | (Some v, copy) \<Rightarrow>
     (case oid_text_first m v cbb of
        (False, cbb) \<Rightarrow> None
      | (True, cbb) \<Rightarrow>
     (case oid_text_loop m copy cbb of
        (False, cbb) \<Rightarrow> None
      | (True, cbb) \<Rightarrow>
     (case CBB_add_u8 m 0 0 cbb of
        (False, cbb) \<Rightarrow> None
      | (True, cbb) \<Rightarrow>
     (case CBB_finish m True True 0 cbb of
        (None, cbb) \<Rightarrow> None
      | (Some (txt, txt_len), cbb) \<Rightarrow> Some txt))))))"

section \<open>Decimal components\<close>

lemma dotted_decimal_loop_digit:
  assumes "x < 10" and "out = word_of_nat n" and "n * 10 + x < 2 ^ 64"
    and "\<not> (seen \<and> n = 0)"
  shows "dotted_decimal_loop out seen (view (word_of_nat (48 + x) # bs) after) =
    dotted_decimal_loop (word_of_nat (n * 10 + x)) True (view bs after)"
proof -
  let ?u = "word_of_nat (48 + x) :: u8"
  have u: "unat ?u = 48 + x" using assms(1) by (intro unat_u8_of_nat) simp
  have n64: "n < 2 ^ 64" using assms(3) by simp
  have un: "unat out = n" using n64 assms(2) by (simp add: unsigned_of_nat take_bit_nat_eq_self)
  have rng: "\<not> ?u < 48" "\<not> ?u > 57" "?u \<noteq> 46"
    using assms(1) u by (simp_all add: word_less_nat_alt word_unat_eq_iff)
  have sub: "?u - 48 = word_of_nat x" by simp
  have x: "unat (word_of_nat x :: u8) = x" using assms(1) by (intro unat_u8_of_nat) simp
  have uc: "ucast (word_of_nat x :: u8) = (word_of_nat x :: u64)"
    by (metis of_nat_unat x)
  have ux: "unat (word_of_nat x :: u64) = x" using assms(1) by (simp add: unsigned_of_nat take_bit_nat_eq_self)
  have z: "\<not> (seen \<and> out = 0)" using assms(4) un by auto
  have q: "n \<le> 1844674407370955161" using assms(3) by simp
  then have o1: "\<not> out > 0xffffffffffffffff div 10" by (simp add: word_less_nat_alt un)
  have "unat (out * 10) = n * 10"
    using assms(3) by (simp add: unat_word_ariths un)
  moreover have "unat (0xffffffffffffffff - word_of_nat x :: u64) = 0xffffffffffffffff - x"
    using assms(1) ux by (subst unat_sub) (simp_all add: word_le_nat_alt)
  ultimately have o2: "\<not> out * 10 > 0xffffffffffffffff - word_of_nat x"
    using assms(1,3) by (simp add: word_less_nat_alt)
  have "out * 10 + word_of_nat x = word_of_nat (n * 10 + x)" using assms(2) by simp
  then show ?thesis
    by (subst dotted_decimal_loop.simps) (use rng z o1 o2 in \<open>auto simp: view_simps sub uc\<close>)
qed

lemma dotted_decimal_loop_text:
  "n < 2 ^ 64 \<Longrightarrow> dotted_decimal_loop 0 False (view (decimal_text n @ rest) after) =
     dotted_decimal_loop (word_of_nat n) True (view rest after)"
proof (induction n arbitrary: rest rule: decimal_text.induct)
  case (1 n)
  show ?case
  proof (cases "n < 10")
    case True
    then show ?thesis
      using dotted_decimal_loop_digit [of n 0 0 False rest after]
      by (subst decimal_text.simps) simp
  next
    case False
    have split: "n div 10 * 10 + n mod 10 = n" by simp
    have "decimal_text n = decimal_text (n div 10) @ [word_of_nat (48 + n mod 10)]"
      using False by (subst decimal_text.simps) simp
    then have "dotted_decimal_loop 0 False (view (decimal_text n @ rest) after) =
        dotted_decimal_loop (word_of_nat (n div 10)) True (view (word_of_nat (48 + n mod 10) # rest) after)"
      using 1 False by simp
    also have "\<dots> = dotted_decimal_loop (word_of_nat (n div 10 * 10 + n mod 10)) True (view rest after)"
      using False 1(2) by (intro dotted_decimal_loop_digit) (auto simp: split div_eq_0_iff)
    finally show ?thesis by (simp only: split)
  qed
qed

lemma dotted_decimal_end:
  "dotted_decimal_loop v True (view [] after) = (True, v, view [] after)"
  by (subst dotted_decimal_loop.simps) (simp add: view_simps)

lemma dotted_decimal_dot:
  "bs \<noteq> [] \<Longrightarrow> dotted_decimal_loop v True (view (46 # bs) after) = (True, v, view bs after)"
  by (subst dotted_decimal_loop.simps) (simp add: view_simps)

text \<open>The components of an identifier, its text and its encoding.\<close>

fun oid_tail_text :: "nat list \<Rightarrow> u8 list" where
  "oid_tail_text [] = []"
| "oid_tail_text (a # as) = 46 # decimal_text a @ oid_tail_text as"

definition oid_text :: "nat \<Rightarrow> nat \<Rightarrow> nat list \<Rightarrow> u8 list" where
  "oid_text a b cs = decimal_text a @ oid_tail_text (b # cs)"

definition oid_body :: "nat \<Rightarrow> nat \<Rightarrow> nat list \<Rightarrow> u8 list" where
  "oid_body a b cs = base128 (40 * a + b) @ concat (map base128 cs)"

definition oid_ok :: "nat \<Rightarrow> nat \<Rightarrow> nat list \<Rightarrow> bool" where
  "oid_ok a b cs \<longleftrightarrow> a \<le> 2 \<and> (a < 2 \<longrightarrow> b \<le> 39) \<and> 40 * a + b < 2 ^ 64 \<and> (\<forall>c \<in> set cs. c < 2 ^ 64)"

lemma decimal_text_nonempty [simp]: "decimal_text n \<noteq> []"
  by (subst decimal_text.simps) simp

lemma parse_dotted_decimal_tail:
  assumes "n < 2 ^ 64"
  shows "parse_dotted_decimal (view (decimal_text n @ oid_tail_text cs) after) =
    (True, word_of_nat n,
     view (case cs of [] \<Rightarrow> [] | c # cs' \<Rightarrow> decimal_text c @ oid_tail_text cs') after)"
  using dotted_decimal_loop_text [OF assms, of "oid_tail_text cs" after]
  by (cases cs) (simp_all add: parse_dotted_decimal_def dotted_decimal_end dotted_decimal_dot)

lemma oid_components_loop_holds:
  "\<forall>c \<in> set cs. c < 2 ^ 64 \<Longrightarrow> cbb_holds m d a cbb w \<Longrightarrow>
     oid_components_loop m d
       (view (case cs of [] \<Rightarrow> [] | c # cs' \<Rightarrow> decimal_text c @ oid_tail_text cs') after) cbb = (True, cbb') \<Longrightarrow>
     cbb_holds m d a cbb' (w @ concat (map base128 cs))"
proof (induction cs arbitrary: cbb w)
  case Nil
  then show ?case by (subst (asm) oid_components_loop.simps) simp
next
  case (Cons c cs)
  have c: "c < 2 ^ 64" using Cons.prems(1) by simp
  let ?rest = "view (case cs of [] \<Rightarrow> [] | c # cs' \<Rightarrow> decimal_text c @ oid_tail_text cs') after"
  from Cons.prems(3) obtain cbb1 where
    w1: "add_base128_integer m (word_of_nat c) d cbb = (True, cbb1)"
    and rest: "oid_components_loop m d ?rest cbb1 = (True, cbb')"
    by (subst (asm) oid_components_loop.simps)
       (simp add: parse_dotted_decimal_tail [OF c] split: prod.splits bool.splits)
  from Cons.IH [OF _ add_base128_integer_holds [OF Cons.prems(2) w1] rest] Cons.prems(1) c
  show ?case by (simp add: unat_of_nat64)
qed

text \<open>On the text of an identifier the writer is its two loops.\<close>

lemma oid_from_text_eq:
  assumes ok: "oid_ok a b cs" and fl: "CBB_flush m d cbb = (True, cbb1)"
  shows "CBB_add_asn1_oid_from_text m (oid_text a b cs @ after) (length (oid_text a b cs)) d cbb =
    (case add_base128_integer m (word_of_nat (40 * a + b)) d cbb1 of
       (False, cbb) \<Rightarrow> (False, cbb)
     | (True, cbb) \<Rightarrow> oid_components_loop m d
         (view (case cs of [] \<Rightarrow> [] | c # cs' \<Rightarrow> decimal_text c @ oid_tail_text cs') after) cbb)"
proof -
  have a64: "a < 2 ^ 64" and b64: "b < 2 ^ 64" using ok by (auto simp: oid_ok_def)
  have b80: "b \<le> 0xffffffffffffffff - 80" using ok by (cases "a < 2") (auto simp: oid_ok_def)
  have sum: "40 * word_of_nat a + word_of_nat b = (word_of_nat (40 * a + b) :: u64)" by simp
  have p1: "parse_dotted_decimal (CBS_init (oid_text a b cs @ after) (length (oid_text a b cs))) =
      (True, word_of_nat a, view (decimal_text b @ oid_tail_text cs) after)"
    using parse_dotted_decimal_tail [OF a64, of "b # cs" after]
    unfolding CBS_init_view by (simp add: oid_text_def)
  have ua: "unat (word_of_nat a :: u64) = a" and ub: "unat (word_of_nat b :: u64) = b"
    by (rule unat_of_nat64 [OF a64], rule unat_of_nat64 [OF b64])
  have c1: "\<not> (word_of_nat a > (2 :: u64) \<or> (word_of_nat a < (2 :: u64) \<and> word_of_nat b > (39 :: u64)) \<or>
      word_of_nat b > (0xffffffffffffffff - 80 :: u64))"
    unfolding word_less_nat_alt ua ub using ok b80 by (auto simp: oid_ok_def)
  show ?thesis
    by (simp only: CBB_add_asn1_oid_from_text_def fl p1 parse_dotted_decimal_tail [OF b64]
        prod.case bool.case not_True_eq_False if_False if_not_P [OF c1] sum)
qed

lemma oid_from_text_appends:
  assumes m: "malloc_ok m" and ok: "oid_ok a b cs"
    and tx: "txt = oid_text a b cs"
  shows "appends d (CBB_add_asn1_oid_from_text m (txt @ after) (length txt) d) (oid_body a b cs)"
  unfolding appends_def
proof (intro allI impI)
  fix cbb s cbb'
  assume rep: "cbb_rep cbb s" and d: "d \<le> length (snd s)"
    and r: "CBB_add_asn1_oid_from_text m (txt @ after) (length txt) d cbb = (True, cbb')"
  from r obtain cbb1 where fl: "CBB_flush m d cbb = (True, cbb1)"
    by (auto simp: CBB_add_asn1_oid_from_text_def split: prod.splits bool.splits)
  from flush_rep [OF m rep d fl] have rep1: "cbb_rep cbb1 (close_to d s)" and fit: "fits_to d s" by auto
  have h: "cbb_holds m d (close_to d s) cbb1 []"
    using m rep1 d by (simp add: cbb_holds_def length_snd_close_to)
  from r [unfolded tx oid_from_text_eq [OF ok fl]] obtain cbb2 where
    w1: "add_base128_integer m (word_of_nat (40 * a + b)) d cbb1 = (True, cbb2)"
    and rest: "oid_components_loop m d
      (view (case cs of [] \<Rightarrow> [] | c # cs' \<Rightarrow> decimal_text c @ oid_tail_text cs') after) cbb2 = (True, cbb')"
    by (auto split: prod.splits bool.splits)
  have "cbb_holds m d (close_to d s) cbb' (base128 (40 * a + b) @ concat (map base128 cs))"
    using oid_components_loop_holds [OF _ add_base128_integer_holds [OF h w1] rest] ok
    by (simp add: oid_ok_def unat_of_nat64 del: of_nat_add of_nat_mult)
  then show "fits_to d s \<and> cbb_rep cbb' (add_top (oid_body a b cs) (close_to d s))"
    using fit by (simp add: cbb_holds_def oid_body_def)
qed

section \<open>Printing what was encoded\<close>

lemma CBB_add_bytes_total:
  assumes m: "malloc_ok m" and rep: "cbb_rep cbb a" and d: "d = length (snd a)"
    and room: "cbb_room m cbb n" and le: "length (written a) + length x \<le> n" and x: "length x < 2 ^ 63"
  shows "\<exists>cbb'. CBB_add_bytes m x (length x) d cbb = (True, cbb') \<and> cbb_room m cbb' n"
proof -
  obtain base where base: "cbb_base cbb = Some base" and bo: "buf_ok base (written a)"
    using rep by (auto simp: cbb_rep_def)
  from roomy_add [OF m bo _ le x] room base obtain base' where
    add: "cbb_buffer_add m (length x) base = (True, base')" and r: "roomy m base' n"
    by (auto simp: cbb_room_def)
  with rep d base show ?thesis
    by (simp add: CBB_add_bytes_def flush_then_def on_base_def cbb_room_def)
qed

lemma length_decimal_text: "n < 10 ^ Suc k \<Longrightarrow> length (decimal_text n) \<le> Suc k"
proof (induction k arbitrary: n)
  case 0
  then show ?case by (subst decimal_text.simps) simp
next
  case (Suc k)
  show ?case
  proof (cases "n < 10")
    case True
    then show ?thesis by (subst decimal_text.simps) simp
  next
    case False
    have "n div 10 < 10 ^ Suc k" using Suc.prems by (simp add: div_less_iff_less_mult mult.commute)
    from Suc.IH [OF this] False show ?thesis by (subst decimal_text.simps) simp
  qed
qed

lemma decimal_text_small: "length (decimal_text (unat (v :: u64))) < 2 ^ 63"
proof -
  have "unat v < 10 ^ Suc 19" using unsigned_less [of v, where ?'a = nat] by simp
  from length_decimal_text [OF this] show ?thesis by simp
qed

interpretation cbb_decimal: total_sink "\<lambda>v. add_decimal m v d" "\<lambda>v. decimal_text (unat v)" "\<lambda>v. True"
    "cbb_holds m d a" "\<lambda>cbb n. cbb_room m cbb (length (written a) + n)" for m d a
proof unfold_locales
  fix v s w s'
  assume h: "cbb_holds m d a s w" and r: "add_decimal m v d s = (True, s')"
  let ?t = "decimal_text (unat v)"
  have "malloc_ok m \<Longrightarrow> appends d (CBB_add_bytes m ?t (length ?t) d) ?t"
    using CBB_add_bytes_appends [of m "length ?t" ?t d] decimal_text_small by simp
  from appends_holds [OF this h] r show "cbb_holds m d a s' (w @ ?t)"
    by (simp add: add_decimal_def Let_def)
next
  fix v :: u64 and s w n
  assume "cbb_holds m d a s w" "cbb_room m s (length (written a) + n)"
    "length w + length (decimal_text (unat v)) \<le> n"
  then show "\<exists>s'. add_decimal m v d s = (True, s') \<and> cbb_room m s' (length (written a) + n)"
    using decimal_text_small [of v] unfolding add_decimal_def Let_def
    by (intro CBB_add_bytes_total [of m s "add_top w a"]) (auto simp: cbb_holds_def)
qed

lemma oid_text_loop_holds:
  "\<forall>c \<in> set cs. c < 2 ^ 64 \<Longrightarrow> cbb_holds m 0 a cbb w \<Longrightarrow>
     oid_text_loop m (view (concat (map base128 cs)) after) cbb = (True, cbb') \<Longrightarrow>
     cbb_holds m 0 a cbb' (w @ oid_tail_text cs)"
proof (induction cs arbitrary: cbb w)
  case Nil
  then show ?case by (subst (asm) oid_text_loop.simps) simp
next
  case (Cons c cs)
  have c: "c < 2 ^ 64" using Cons.prems(1) by simp
  have ne: "base128 c \<noteq> []" by (simp add: base128_def)
  from Cons.prems(3) obtain cbb1 cbb2 where
    w1: "CBB_add_u8 m 46 0 cbb = (True, cbb1)"
    and w2: "add_decimal m (word_of_nat c) 0 cbb1 = (True, cbb2)"
    and rest: "oid_text_loop m (view (concat (map base128 cs)) after) cbb2 = (True, cbb')"
    using ne by (subst (asm) oid_text_loop.simps)
       (simp add: parse_base128 [OF c] split: prod.splits bool.splits)
  from Cons.IH [OF _ cbb_decimal.put_holds [OF TrueI cbb_u8.put_holds [OF TrueI Cons.prems(2) w1] w2] rest]
    Cons.prems(1) c
  show ?case by (simp add: unat_of_nat64)
qed

lemma oid_text_first_holds:
  assumes ok: "oid_ok a b cs" and h: "cbb_holds m 0 s cbb w"
    and r: "oid_text_first m (word_of_nat (40 * a + b)) cbb = (True, cbb')"
  shows "cbb_holds m 0 s cbb' (w @ decimal_text a @ 46 # decimal_text b)"
proof -
  let ?v = "word_of_nat (40 * a + b) :: u64"
  have u: "unat ?v = 40 * a + b" using ok by (intro unat_of_nat64) (simp add: oid_ok_def)
  show ?thesis
  proof (cases "40 * a + b \<ge> 80")
    case True
    then have a: "a = 2" using ok by (auto simp: oid_ok_def)
    have ge: "?v \<ge> 80" using True u by (simp only: word_le_nat_alt) simp
    with r obtain cbb1 where w1: "CBB_add_bytes m [50, 46] 2 0 cbb = (True, cbb1)"
      and w2: "add_decimal m (?v - 80) 0 cbb1 = (True, cbb')"
      by (auto simp only: oid_text_first_def if_True split: prod.splits bool.splits)
    have "cbb_holds m 0 s cbb1 (w @ [50, 46])"
      using appends_holds [of m 0 "CBB_add_bytes m [50, 46] 2 0" "[50, 46]" s cbb w cbb1]
        CBB_add_bytes_appends [of m 2 "[50, 46]" 0] h w1 by simp
    from cbb_decimal.put_holds [OF TrueI this w2]
    have "cbb_holds m 0 s cbb' (w @ [50, 46] @ decimal_text (unat (?v - 80)))" by simp
    moreover have "unat (?v - 80) = b"
      using ge u a by (subst unat_sub) simp_all
    moreover have "decimal_text 2 = [50]" by (subst decimal_text.simps) simp
    ultimately show ?thesis using a by simp
  next
    case False
    have lt: "\<not> ?v \<ge> 80" using False u by (simp only: word_le_nat_alt) simp
    with r obtain cbb1 cbb2 where w1: "add_decimal m (?v div 40) 0 cbb = (True, cbb1)"
      and w2: "CBB_add_u8 m 46 0 cbb1 = (True, cbb2)"
      and w3: "add_decimal m (?v mod 40) 0 cbb2 = (True, cbb')"
      by (auto simp only: oid_text_first_def if_False split: prod.splits bool.splits)
    have b: "b < 40" using ok False by (cases "a < 2") (auto simp: oid_ok_def)
    have q: "unat (?v div 40) = a" "unat (?v mod 40) = b"
      using u b by (simp_all add: unat_div unat_mod)
    from cbb_decimal.put_holds [OF TrueI cbb_u8.put_holds [OF TrueI cbb_decimal.put_holds [OF TrueI h w1] w2] w3]
    show ?thesis unfolding q by simp
  qed
qed

lemma oid_to_text:
  assumes m: "malloc_ok m" and ok: "oid_ok a b cs"
    and r: "CBS_asn1_oid_to_text m (view (oid_body a b cs) after) = Some t"
  shows "\<exists>junk. t = oid_text a b cs @ 0 # junk"
proof -
  let ?v = "word_of_nat (40 * a + b) :: u64"
  have p: "parse_base128_integer (view (oid_body a b cs) after) =
      (Some ?v, view (concat (map base128 cs)) after)"
    unfolding oid_body_def by (rule parse_base128) (use ok in \<open>simp add: oid_ok_def\<close>)
  obtain cbb0 cbb1 cbb2 cbb3 cbb4 len where i: "CBB_init m 32 = (True, cbb0)"
    and f: "oid_text_first m ?v cbb0 = (True, cbb1)"
    and l: "oid_text_loop m (view (concat (map base128 cs)) after) cbb1 = (True, cbb2)"
    and z: "CBB_add_u8 m 0 0 cbb2 = (True, cbb3)"
    and fin: "CBB_finish m True True 0 cbb3 = (Some (t, len), cbb4)"
    using r unfolding CBS_asn1_oid_to_text_def p
    by (auto split: prod.splits bool.splits option.splits simp del: of_nat_add of_nat_mult)
  have h0: "cbb_holds m 0 ([], []) cbb0 []"
    using m CBB_init_rep [OF m _ i] by (simp add: cbb_holds_def)
  have h2: "cbb_holds m 0 ([], []) cbb2 (oid_text a b cs)"
    using oid_text_loop_holds [OF _ oid_text_first_holds [OF ok h0 f] l] ok
    by (simp add: oid_text_def oid_ok_def)
  have "cbb_rep cbb3 (oid_text a b cs @ [0], [])"
    using cbb_u8.put_holds [OF TrueI h2 z] by (simp add: cbb_holds_def add_top_Nil)
  from CBB_finish_rep [OF m this fin] have "take len t = oid_text a b cs @ [0]" by auto
  then have "t = (oid_text a b cs @ [0]) @ drop len t" by (metis append_take_drop_id)
  then show ?thesis by (intro exI [of _ "drop len t"]) simp
qed

end
