(* ===== verification/Cbb_Total.thy ===== *)
theory Cbb_Total
  imports Oid Der_Int Set_Of
begin

text \<open>
  The builder does not fail without a reason: while there is room and every child that
  is closed fits its length prefix, each operation succeeds. \<open>ready m n cbb a\<close> says that
  \<open>cbb\<close> represents \<open>a\<close> and accepts \<open>n\<close> bytes in all; the operations preserve it.
\<close>

section \<open>Flushing\<close>

lemma flush_prefix_total:
  assumes m: "malloc_ok m" and bo: "buf_ok base (W @ 0 # c)" and off: "offset child = length W"
    and small: "length c \<le> 0xfffffffe" and room: "roomy m base n"
    and le: "Suc (length W + length c) + 4 \<le> n"
  shows "\<exists>len child' base'. flush_asn1_prefix m (Suc (length W)) (length c) child base =
      (True, len, child', base') \<and> roomy m base' n"
proof (cases "der_len_octets (length c) = 0")
  case True
  then show ?thesis
    using small room by (auto simp: flush_asn1_prefix_def asn1_len_len_eq)
next
  case False
  have k: "der_len_octets (length c) \<le> 4" by (rule der_len_octets_le)
  then have fit: "length (W @ 0 # c) + der_len_octets (length c) \<le> n" using le by simp
  have "der_len_octets (length c) < 2 ^ 63" using k by simp
  from roomy_add [OF m bo room fit this] False small show ?thesis
    by (auto simp: flush_asn1_prefix_def asn1_len_len_eq)
qed

lemma flush_child_total:
  assumes m: "malloc_ok m" and rep: "cbb_rep cbb (r, ls @ [(k, c)])"
    and st: "start = length (written (r, ls)) + hole_len k"
    and fits: "prefix_fits k (length c)" and room: "cbb_room m cbb n"
    and le: "length (written (r, ls @ [(k, c)])) + 4 \<le> n"
  shows "\<exists>cbb'. flush_child m (length ls) start cbb = (True, cbb') \<and> cbb_room m cbb' n"
proof -
  let ?W = "written (r, ls)"
  obtain base where base: "cbb_base cbb = Some base"
    and bo: "buf_ok base (?W @ replicate (hole_len k) 0 @ c)"
    using rep by (auto simp: cbb_rep_def written_snoc layer_bytes_def)
  have roomy: "roomy m base n" using room base by (simp add: cbb_room_def)
  have nth: "cbb_children cbb ! length ls =
      \<lparr>offset = length ?W, pending_len_len = hole_len k, pending_is_asn1 = (k = Der)\<rparr>"
    using rep by (simp add: cbb_rep_def frames_snoc nth_append)
  have c63: "length c < 2 ^ 63" using buf_ok_small [OF bo] by simp
  have blen: "b_len base - start = length c" using buf_ok_len [OF bo] st by simp
  show ?thesis
  proof (cases k)
    case (Fixed j)
    have j: "j \<le> 8" using rep Fixed by (simp add: cbb_rep_def)
    have dl: "length ?W + j \<le> length (b_data base)" using bo Fixed by (simp add: buf_ok_def)
    from drop_len_eq_0 [OF c63 j] fits Fixed base blen nth roomy show ?thesis
      by (simp add: flush_child_def Let_def put_be_eq [OF dl] cbb_room_def)
  next
    case Der
    from bo Der have bo': "buf_ok base (?W @ 0 # c)" by simp
    have "length c \<le> 0xfffffffe" "Suc (length ?W + length c) + 4 \<le> n"
      using fits le Der by (simp_all add: written_snoc layer_bytes_def)
    from flush_prefix_total [OF m bo' _ this(1) roomy this(2), of "cbb_children cbb ! length ls"] nth
    obtain len child2 base2 where pre: "flush_asn1_prefix m (Suc (length ?W)) (length c)
          (cbb_children cbb ! length ls) base = (True, len, child2, base2)"
      and room2: "roomy m base2 n" by auto
    from flush_asn1_prefix_ok [OF m bo' _ pre] nth obtain junk where
      j: "length junk = der_len_octets (length c)"
      and bo2: "buf_ok base2 (?W @ hd (der_len (length c)) # junk @ c)"
      and len: "len = (if der_len_octets (length c) = 0 then 0 else length c)"
      and child2: "offset child2 = Suc (length ?W)" "pending_len_len child2 = der_len_octets (length c)" by auto
    have dl: "Suc (length ?W) + der_len_octets (length c) \<le> length (b_data base2)"
      using bo2 j by (simp add: buf_ok_def)
    have "drop_bit (8 * der_len_octets (length c)) (word_of_nat len :: u64) = 0"
    proof -
      have "len < 256 ^ der_len_octets (length c)" "len < 2 ^ 63" "der_len_octets (length c) \<le> 8"
        using len c63 fits Der by (auto simp: der_len_octets_def)
      then show ?thesis by (simp only: drop_len_eq_0)
    qed
    with base blen Der st pre room2 show ?thesis
      by (auto simp: flush_child_def Let_def nth child2 put_be_eq [OF dl] cbb_room_def)
  qed
qed

lemma length_close_top: "length (written (close_top (r, ls @ [l]))) \<le> length (written (r, ls @ [l])) + 4"
proof -
  have "length (prefix_bytes k x) \<le> hole_len k + 4" for k x
    using der_len_octets_le [of x] by (cases k) (simp_all add: der_len_def)
  from this [of "fst l"] show ?thesis
    by (simp add: close_top_snoc closed_def written_snoc layer_bytes_def)
qed

text \<open>The concrete state stands for \<open>a\<close> and has room for \<open>n\<close> bytes.\<close>

definition ready :: "allocator \<Rightarrow> nat \<Rightarrow> CBB \<Rightarrow> builder \<Rightarrow> bool" where
  "ready m n cbb a \<longleftrightarrow> malloc_ok m \<and> cbb_rep cbb a \<and> cbb_room m cbb n"

text \<open>Closing the children below depth \<open>d\<close> adds at most four bytes for each.\<close>

lemma length_close_to:
  "length (written (close_to d a)) \<le> length (written a) + 4 * (length (snd a) - d)"
proof (induction "length (snd a) - d" arbitrary: d)
  case 0
  then show ?case by (subst close_to.simps) simp
next
  case (Suc k)
  obtain r ls where a: "a = (r, ls)" by (cases a)
  have d: "d < length ls" using Suc.hyps(2) a by simp
  from close_to_shape [OF d, of r] obtain x where
    sh: "close_to (Suc d) a = (r, take d ls @ [(fst (ls ! d), snd (ls ! d) @ x)])" using a by blast
  have "close_to d a = close_top (close_to (Suc d) a)"
    using d a by (subst close_to.simps) simp
  then have "length (written (close_to d a)) \<le> length (written (close_to (Suc d) a)) + 4"
    using length_close_top [of r "take d ls"] unfolding sh by simp
  moreover have "length (written (close_to (Suc d) a)) \<le> length (written a) + 4 * (length (snd a) - Suc d)"
    using Suc.hyps by simp
  moreover have "4 + 4 * (length (snd a) - Suc d) = 4 * (length (snd a) - d)" using d a by simp
  ultimately show ?case by linarith
qed

lemma flush_ready:
  "ready m n cbb a \<Longrightarrow> d \<le> length (snd a) \<Longrightarrow> fits_to d a \<Longrightarrow>
     length (written a) + 4 * (length (snd a) - d) \<le> n \<Longrightarrow>
     \<exists>cbb'. CBB_flush m d cbb = (True, cbb') \<and> ready m n cbb' (close_to d a)"
proof (induction "length (snd a) - d" arbitrary: d)
  case 0
  then show ?case by (auto simp: ready_def close_to.simps [of d a])
next
  case (Suc k)
  obtain r ls where a: "a = (r, ls)" by (cases a)
  have d: "d < length ls" using Suc.hyps(2) a by simp
  let ?k = "fst (ls ! d)" and ?W = "written (r, take d ls)"
  have m: "malloc_ok m" and rep: "cbb_rep cbb a" using Suc.prems(1) by (auto simp: ready_def)
  obtain base where base: "cbb_base cbb = Some base" and bo: "buf_ok base (written a)"
    and ch: "cbb_children cbb = frames (r, ls)" and kinds: "\<forall>l \<in> set ls. kind_ok (fst l)"
    using rep a by (auto simp: cbb_rep_def)
  have kd: "kind_ok ?k" using kinds d by simp
  have err: "\<not> b_error base" using bo by (simp add: buf_ok_def)
  from close_to_shape [OF d, of r] obtain x where
    sh: "close_to (Suc d) (r, ls) = (r, take d ls @ [(?k, snd (ls ! d) @ x)])" ..
  have fit: "fits_to (Suc d) a" "prefix_fits ?k (length (snd (ls ! d) @ x))"
    using Suc.prems(3) fits_to_step [OF d sh] a by auto
  have "length (written a) + 4 * (length (snd a) - Suc d) \<le> n" using Suc.prems(4) by linarith
  moreover have "k = length (snd a) - Suc d" "Suc d \<le> length (snd a)" using Suc.hyps(2) by linarith+
  ultimately obtain cbb1 where
    f1: "CBB_flush m (Suc d) cbb = (True, cbb1)" and r1: "ready m n cbb1 (close_to (Suc d) a)"
    using Suc.hyps(1) [of "Suc d"] Suc.prems(1) fit(1) by blast
  have rep1: "cbb_rep cbb1 (r, take d ls @ [(?k, snd (ls ! d) @ x)])" and room1: "cbb_room m cbb1 n"
    using r1 sh a by (auto simp: ready_def)
  have start: "sz_add (length ?W) (hole_len ?k) = length ?W + hole_len ?k"
  proof -
    have "hole_len ?k \<le> 8" using kd by (cases ?k) auto
    then show ?thesis
      using length_written_take [of r d ls] buf_ok_small [OF bo] a by (simp add: size_simps)
  qed
  have len: "length (written (close_to (Suc d) a)) + 4 \<le> n"
    using length_close_to [of "Suc d" a] Suc.prems(4) d a by simp
  from flush_child_total [OF m rep1 _ fit(2) room1] len sh a obtain cbb2 where
    f2: "flush_child m d (length ?W + hole_len ?k) cbb1 = (True, cbb2)" and room2: "cbb_room m cbb2 n"
    using d by auto
  have "written (r, take d ls @ [(?k, snd (ls ! d) @ x)]) =
      ?W @ replicate (hole_len ?k) 0 @ snd (ls ! d) @ x" by (simp add: written_snoc layer_bytes_def)
  with rep1 have "\<exists>b. cbb_base cbb1 = Some b \<and> length ?W + hole_len ?k \<le> b_len b"
    by (auto simp: cbb_rep_def dest: buf_ok_len)
  then have "CBB_flush m d cbb = (True, cbb2)"
    using base err ch d f1 f2 frames_nth [OF d, of r] hole_len_pos [OF kd] start
    by (subst CBB_flush.simps) (auto simp: Let_def)
  moreover from this have "ready m n cbb2 (close_to d a)"
    using flush_rep [OF m rep _ \<open>CBB_flush m d cbb = (True, cbb2)\<close>] m room2 d a by (simp add: ready_def)
  ultimately show ?case by blast
qed

section \<open>Adding\<close>

text \<open>Operations on the innermost object, which has nothing to close.\<close>

lemma add_u8_ready:
  assumes "ready m n cbb a" and "length (written a) + 1 \<le> n" and "d = length (snd a)"
  shows "\<exists>cbb'. CBB_add_u8 m b d cbb = (True, cbb') \<and> ready m n cbb' (add_top [b] a)"
  using CBB_add_u8_total [of m cbb a d n b] appendsD [OF CBB_add_u8_appends [of m d b], of cbb a] assms
  by (auto simp: ready_def)

lemma add_bytes_ready:
  assumes "ready m n cbb a" and "length (written a) + length x \<le> n" and "d = length (snd a)" and "length x < 2 ^ 63"
  shows "\<exists>cbb'. CBB_add_bytes m x (length x) d cbb = (True, cbb') \<and> ready m n cbb' (add_top x a)"
  using CBB_add_bytes_total [of m cbb a d n x] appendsD [OF CBB_add_bytes_appends [of m "length x" x d], of cbb a] assms
  by (auto simp: ready_def)

lemma add_u8s_ready:
  "ready m n cbb a \<Longrightarrow> length (written a) + length bs \<le> n \<Longrightarrow> d = length (snd a) \<Longrightarrow>
     \<exists>cbb'. put_all (\<lambda>b. CBB_add_u8 m b d) bs cbb = (True, cbb') \<and> ready m n cbb' (add_top bs a)"
proof (induction bs arbitrary: cbb a)
  case Nil
  then show ?case by simp
next
  case (Cons b bs)
  from add_u8_ready [OF Cons.prems(1) _ Cons.prems(3), of b] Cons.prems(2) obtain c1 where
    c1: "CBB_add_u8 m b d cbb = (True, c1)" "ready m n c1 (add_top [b] a)" by auto
  from Cons.IH [OF c1(2)] Cons.prems(2,3) c1(1) show ?case by auto
qed

section \<open>ASN.1 elements\<close>

lemma length_written_open: "length (written (open_top k a)) = length (written a) + hole_len k"
  by (cases a) (simp add: open_top_def written_snoc layer_bytes_def)

text \<open>The tag is written byte by byte; a high tag number is a base-128 integer.\<close>

lemma add_tag_eq:
  assumes "ready m n cbb a" and "length (written a) + length (der_tag t) \<le> n" and "d = length (snd a)"
  shows "\<exists>cbb'. (let tag_bits = ucast (drop_bit CBS_ASN1_TAG_SHIFT t AND 0xe0) :: u8;
        tag_number = t AND CBS_ASN1_TAG_NUMBER_MASK
      in if tag_number \<ge> 0x1f then
           (case CBB_add_u8 m (tag_bits OR 0x1f) d cbb of
              (False, cbb) \<Rightarrow> (False, cbb)
            | (True, cbb) \<Rightarrow> add_base128_integer m (ucast tag_number) d cbb)
         else CBB_add_u8 m (tag_bits OR ucast tag_number) d cbb) = (True, cbb') \<and>
    ready m n cbb' (add_top (der_tag t) a)"
  using add_u8s_ready [OF assms]
  by (auto simp: der_tag_def Let_def CBS_ASN1_TAG_NUMBER_MASK_def CBS_ASN1_TAG_SHIFT_def ucast_e0_down
      unat_ucast_up add_base128_integer_eq split: if_splits prod.splits bool.splits)

lemma add_asn1_ready:
  assumes r: "ready m n cbb a" and le: "length (written a) + length (der_tag t) + 1 \<le> n"
    and d: "d = length (snd a)"
  shows "\<exists>cbb'. CBB_add_asn1 m t d cbb = (True, cbb') \<and> ready m n cbb' (open_top Der (add_top (der_tag t) a))"
proof -
  have m: "malloc_ok m" and rep: "cbb_rep cbb a" using r by (auto simp: ready_def)
  have fl: "CBB_flush m d cbb = (True, cbb)" using rep d by simp
  from add_tag_eq [OF r _ d, of t] le obtain c1 where
    t: "(let tag_bits = ucast (drop_bit CBS_ASN1_TAG_SHIFT t AND 0xe0) :: u8;
        tag_number = t AND CBS_ASN1_TAG_NUMBER_MASK
      in if tag_number \<ge> 0x1f then
           (case CBB_add_u8 m (tag_bits OR 0x1f) d cbb of
              (False, cbb) \<Rightarrow> (False, cbb)
            | (True, cbb) \<Rightarrow> add_base128_integer m (ucast tag_number) d cbb)
         else CBB_add_u8 m (tag_bits OR ucast tag_number) d cbb) = (True, c1)"
    and r1: "ready m n c1 (add_top (der_tag t) a)" by auto
  from add_u8_ready [OF r1, of d 0] le d obtain c2 where
    z: "CBB_add_u8 m 0 d c1 = (True, c2)" and r2: "ready m n c2 (add_top [0] (add_top (der_tag t) a))" by auto
  have ad: "CBB_add_asn1 m t d cbb = (True, cbb_set_child d
      \<lparr>offset = base_len c1, pending_len_len = 1, pending_is_asn1 = True\<rparr> c2)"
    unfolding CBB_add_asn1_def fl prod.case bool.case using t z
    by (simp only: Let_def prod.case bool.case)
  have "cbb_room m (cbb_set_child d \<lparr>offset = base_len c1, pending_len_len = 1, pending_is_asn1 = True\<rparr> c2) n"
    using r2 by (simp add: ready_def cbb_room_def cbb_set_child_def)
  with ad CBB_add_asn1_rep [OF m rep _ ad] m d show ?thesis by (simp add: ready_def)
qed

lemma close_element:
  assumes "d = length (snd a)"
  shows "close_to d (add_top bs (open_top Der (add_top (der_tag t) a))) = add_top (der_element t bs) a"
    and "fits_to d (add_top bs (open_top Der (add_top (der_tag t) a))) \<longleftrightarrow> length bs \<le> 0xfffffffe"
proof -
  obtain r ls where b: "add_top (der_tag t) a = (r, ls)" by fastforce
  have dl: "d = length ls" using assms b length_snd_add_top [of "der_tag t" a] by simp
  have top: "add_top bs (open_top Der (r, ls)) = (r, ls @ [(Der, bs)])"
    by (simp add: open_top_def add_top_snoc)
  have "close_to d (r, ls @ [(Der, bs)]) = add_top (closed (Der, bs)) (r, ls)"
    using dl by (subst close_to.simps) (simp add: close_top_snoc)
  then show "close_to d (add_top bs (open_top Der (add_top (der_tag t) a))) = add_top (der_element t bs) a"
    unfolding b top by (simp add: b [symmetric] closed_def der_element_def der_header_def)
  show "fits_to d (add_top bs (open_top Der (add_top (der_tag t) a))) \<longleftrightarrow> length bs \<le> 0xfffffffe"
    unfolding b top using dl by (subst fits_to.simps) simp
qed

lemma close_ready:
  assumes "ready m n c (add_top bs (open_top Der (add_top (der_tag t) a)))" and d: "d = length (snd a)"
    and "length bs \<le> 0xfffffffe" and "length (written a) + length (der_tag t) + length bs + 5 \<le> n"
  shows "\<exists>c'. CBB_flush m d c = (True, c') \<and> ready m n c' (add_top (der_element t bs) a)"
proof -
  let ?b = "add_top bs (open_top Der (add_top (der_tag t) a))"
  have len: "length (snd ?b) = Suc d" "length (written ?b) = length (written a) + length (der_tag t) + 1 + length bs"
    using d by (simp_all add: length_written_open) (simp add: open_top_def)
  from flush_ready [OF assms(1), of d] len close_element [OF d, of bs t] assms(3,4) show ?thesis by simp
qed

text \<open>The frame of the value writers, with the contents written by \<open>f\<close>.\<close>

lemma element_ready:
  assumes r: "ready m n cbb a" and d: "d = length (snd a)" and small: "length bs \<le> 0xfffffffe"
    and le: "length (written a) + length (der_tag t) + length bs + 5 \<le> n"
    and body: "\<And>c b. d = length (snd b) \<Longrightarrow> 
      length (written (open_top Der b)) = length (written a) + length (der_tag t) + 1 \<Longrightarrow> ready m n c (open_top Der b) \<Longrightarrow> \<exists>c'. f c = (True, c') \<and> ready m n c' (add_top bs (open_top Der b))"
  shows "\<exists>cbb'. (case CBB_add_asn1 m t d cbb of
        (False, cbb) \<Rightarrow> (False, cbb)
      | (True, cbb) \<Rightarrow>
          (case f cbb of (False, cbb) \<Rightarrow> (False, cbb) | (True, cbb) \<Rightarrow> CBB_flush m d cbb)) = (True, cbb') \<and>
    ready m n cbb' (add_top (der_element t bs) a)"
proof -
  from add_asn1_ready [OF r _ d, of t] le obtain c1 where
    c1: "CBB_add_asn1 m t d cbb = (True, c1)" "ready m n c1 (open_top Der (add_top (der_tag t) a))" by auto
  from body [OF _ _ c1(2)] d le obtain c2 where
    c2: "f c1 = (True, c2)" "ready m n c2 (add_top bs (open_top Der (add_top (der_tag t) a)))"
    by (auto simp: length_written_open)
  from close_ready [OF c2(2) d small le] c1 c2 show ?thesis by auto
qed

lemma add_uint64_loop_ready:
  "ready m n cbb a \<Longrightarrow> length (written a) + (if s then k else Suc k) \<le> n \<Longrightarrow> d = length (snd a) \<Longrightarrow>
     \<exists>s' cbb' w. add_uint64_loop m d v k s cbb = (True, s', cbb') \<and> ready m n cbb' (add_top w a) \<and>
       (s \<longrightarrow> s') \<and> (if s' then True else w = [])"
proof (induction k arbitrary: s cbb a)
  case 0
  then show ?case by (intro exI [of _ s] exI [of _ cbb] exI [of _ "[]"]) simp
next
  case (Suc k)
  let ?b = "ucast (drop_bit (8 * k) v AND 0xff) :: u8"
  show ?case
  proof (cases "\<not> s \<and> ?b = 0")
    case True
    with Suc.IH [OF Suc.prems(1), of s] Suc.prems show ?thesis by (auto simp: Let_def)
  next
    case False
    define z where "z = (if \<not> s \<and> ?b AND 0x80 \<noteq> 0 then [0] else [] :: u8 list)"
    have lz: "length z \<le> (if s then 0 else 1)" by (simp add: z_def)
    from add_u8s_ready [OF Suc.prems(1), of z d] Suc.prems(2,3) lz obtain c1 where
      c1: "put_all (\<lambda>b. CBB_add_u8 m b d) z cbb = (True, c1)" "ready m n c1 (add_top z a)"
      by (auto split: if_splits)
    then have "(if \<not> s \<and> ?b AND 0x80 \<noteq> 0 then CBB_add_u8 m 0 d cbb else (True, cbb)) = (True, c1)"
      by (auto simp: z_def split: if_splits prod.splits bool.splits)
    moreover from add_u8_ready [OF c1(2), of d ?b] Suc.prems(2,3) lz obtain c2 where
      c2: "CBB_add_u8 m ?b d c1 = (True, c2)" "ready m n c2 (add_top [?b] (add_top z a))"
      by (auto split: if_splits)
    moreover from Suc.IH [OF c2(2), of True] Suc.prems(2,3) lz obtain c3 w where
      "add_uint64_loop m d v k True c2 = (True, True, c3)" "ready m n c3 (add_top w (add_top [?b] (add_top z a)))"
      by (auto split: if_splits)
    ultimately show ?thesis using False by (auto simp: Let_def)
  qed
qed

lemma length_der_uint64: "length (der_uint (unat (v :: u64))) \<le> 9"
proof -
  have "unat v < 2 ^ 64" using unsigned_less [of v, where ?'a = nat] by simp
  then show ?thesis using length_der_uint [of "unat v"] by simp
qed

lemma add_uint64_ready:
  assumes r: "ready m n cbb a" and d: "d = length (snd a)" and le: "length (written a) + 20 \<le> n"
  shows "\<exists>cbb'. CBB_add_asn1_uint64 m v d cbb = (True, cbb') \<and>
    ready m n cbb' (add_top (der_element CBS_ASN1_INTEGER (der_uint (unat v))) a)"
proof -
  let ?f = "\<lambda>c. case add_uint64_loop m (Suc d) v 8 False c of
      (False, started, c) \<Rightarrow> (False, c)
    | (True, started, c) \<Rightarrow> if \<not> started then CBB_add_u8 m 0 (Suc d) c else (True, c)"
  have eq: "CBB_add_asn1_uint64 m v d cbb = (case CBB_add_asn1 m CBS_ASN1_INTEGER d cbb of
        (False, cbb) \<Rightarrow> (False, cbb)
      | (True, cbb) \<Rightarrow>
          (case ?f cbb of (False, cbb) \<Rightarrow> (False, cbb) | (True, cbb) \<Rightarrow> CBB_flush m d cbb))"
    by (auto simp: CBB_add_asn1_uint64_def split: prod.splits bool.splits if_splits)
  have v: "unat v < 256 ^ 8" using unsigned_less [of v, where ?'a = nat] by simp
  have m: "malloc_ok m" using r by (simp add: ready_def)
  show ?thesis
    unfolding eq
  proof (rule element_ready [OF r d])
    show "length (der_uint (unat v)) \<le> 0xfffffffe"
      and "length (written a) + length (der_tag CBS_ASN1_INTEGER) + length (der_uint (unat v)) + 5 \<le> n"
      using length_der_uint64 [of v] length_der_tag [of CBS_ASN1_INTEGER] le by simp_all
  next
    fix c b
    assume db: "d = length (snd b)"
      and len: "length (written (open_top Der b)) = length (written a) + length (der_tag CBS_ASN1_INTEGER) + 1"
      and rc: "ready m n c (open_top Der b)"
    have d': "Suc d = length (snd (open_top Der b))" using db by (simp add: open_top_def)
    have room: "length (written (open_top Der b)) + 9 \<le> n"
      using len le length_der_tag [of CBS_ASN1_INTEGER] by simp
    from add_uint64_loop_ready [OF rc _ d', of False 8 v] room obtain s c1 w where
      c1: "add_uint64_loop m (Suc d) v 8 False c = (True, s, c1)" "ready m n c1 (add_top w (open_top Der b))"
        "if s then True else w = []" by auto
    have "cbb_holds m (Suc d) (open_top Der b) c []"
      using rc m d' by (simp add: cbb_holds_def ready_def)
    from add_uint64_loop_fresh [OF this v c1(1)] have s: "s = (v \<noteq> 0)"
      and h: "cbb_rep c1 (add_top (if v = 0 then [] else der_uint (unat v)) (open_top Der b))"
      by (auto simp: cbb_holds_def)
    show "\<exists>c'. ?f c = (True, c') \<and> ready m n c' (add_top (der_uint (unat v)) (open_top Der b))"
    proof (cases "v = 0")
      case True
      with s c1 have "ready m n c1 (open_top Der b)" by simp
      from add_u8_ready [OF this _ d', of 0] room True s c1(1) show ?thesis
        by (simp add: der_uint_def)
    next
      case False
      with s h c1 show ?thesis by (simp add: ready_def)
    qed
  qed
qed

lemma int64_start_le: "int64_start v k \<le> k"
  by (induction k) auto

lemma length_der_sint: "length (der_sint v) \<le> 9"
  using int64_start_le [of v 7] length_der_uint64 [of v] by (simp add: der_sint_def)

lemma add_int64_ready:
  assumes r: "ready m n cbb a" and d: "d = length (snd a)" and le: "length (written a) + 20 \<le> n"
  shows "\<exists>cbb'. CBB_add_asn1_int64 m v d cbb = (True, cbb') \<and>
    ready m n cbb' (add_top (der_element CBS_ASN1_INTEGER (der_sint v)) a)"
proof (cases "sint v \<ge> 0")
  case True
  with add_uint64_ready [OF assms, of v] show ?thesis
    by (simp add: CBB_add_asn1_int64_def der_sint_def)
next
  case False
  then have bs: "der_sint v = be_bytes (Suc (int64_start v 7)) (unat v)" by (simp add: der_sint_def)
  then have len: "length (der_sint v) \<le> 8" using int64_start_le [of v 7] by simp
  have eq: "CBB_add_asn1_int64 m v d cbb = (case CBB_add_asn1 m CBS_ASN1_INTEGER d cbb of
        (False, cbb) \<Rightarrow> (False, cbb)
      | (True, cbb) \<Rightarrow>
          (case put_all (\<lambda>b. CBB_add_u8 m b (Suc d)) (der_sint v) cbb of
             (False, cbb) \<Rightarrow> (False, cbb) | (True, cbb) \<Rightarrow> CBB_flush m d cbb))"
    using False unfolding bs add_int64_loop_eq [symmetric]
    by (simp add: CBB_add_asn1_int64_def Let_def del: add_int64_loop.simps int64_start.simps)
  show ?thesis
    unfolding eq
  proof (rule element_ready [OF r d])
    show "length (der_sint v) \<le> 0xfffffffe"
      and "length (written a) + length (der_tag CBS_ASN1_INTEGER) + length (der_sint v) + 5 \<le> n"
      using len length_der_tag [of CBS_ASN1_INTEGER] le by simp_all
  next
    fix c b
    assume "d = length (snd b)" "ready m n c (open_top Der b)"
      and "length (written (open_top Der b)) = length (written a) + length (der_tag CBS_ASN1_INTEGER) + 1"
    then show "\<exists>c'. put_all (\<lambda>b. CBB_add_u8 m b (Suc d)) (der_sint v) c = (True, c') \<and>
        ready m n c' (add_top (der_sint v) (open_top Der b))"
      using len le length_der_tag [of CBS_ASN1_INTEGER]
      by (intro add_u8s_ready) (auto simp: open_top_def)
  qed
qed

section \<open>From start to finish\<close>

text \<open>Small requests to the allocator never fail.\<close>

definition generous :: "allocator \<Rightarrow> bool" where
  "generous m \<longleftrightarrow> malloc_ok m \<and> (\<forall>k < 2 ^ 63. m k \<noteq> None)"

lemma generousD: "generous m \<Longrightarrow> n < 2 ^ 63 \<Longrightarrow> \<exists>b. m n = Some b"
  by (simp add: generous_def)

lemma init_ready:
  assumes m: "generous m" and cap: "cap \<le> 2 ^ 61" and n: "n \<le> 2 ^ 60"
  shows "\<exists>cbb. CBB_init m cap = (True, cbb) \<and> ready m n cbb ([], [])"
proof -
  from generousD [OF m, of "cap + 8"] generousD [OF m, of 40] cap
  obtain b1 b2 where b: "m (cap + 8) = Some b1" "m 40 = Some b2" by auto
  then have c: "CBB_init m cap = (True, \<lparr>cbb_base = Some \<lparr>b_data = drop 8 b1, b_len = 0, b_cap = cap,
      b_can_resize = True, b_error = False\<rparr>, cbb_children = []\<rparr>)" (is "_ = (True, ?c)")
    using cap by (simp add: CBB_init_def cbb_init_def OPENSSL_malloc_def OPENSSL_MALLOC_PREFIX_def
        sizeof_cbb_buffer_def sz_add_def CBB_zero_def)
  have "cbb_rep ?c ([], [])" using CBB_init_rep [OF _ _ c] m cap by (simp add: generous_def)
  moreover have "cbb_room m ?c n"
    using m cap n by (simp add: cbb_room_def roomy_def generous_def)
  ultimately show ?thesis using c m by (simp add: ready_def generous_def)
qed

text \<open>A fixed buffer has room for as many bytes as it holds; only the control block is allocated.\<close>

lemma init_fixed_ready:
  assumes m: "malloc_ok m" "m 40 \<noteq> None" and cap: "length buf + 8 < 2 ^ 63"
  shows "\<exists>cbb. CBB_init_fixed m buf (length buf) = (True, cbb) \<and> ready m (length buf) cbb ([], [])"
proof -
  from m(2) obtain b where b: "m 40 = Some b" by blast
  then have c: "CBB_init_fixed m buf (length buf) = (True, \<lparr>cbb_base = Some \<lparr>b_data = buf, b_len = 0,
      b_cap = length buf, b_can_resize = False, b_error = False\<rparr>, cbb_children = []\<rparr>)"
    by (simp add: CBB_init_fixed_def cbb_init_def OPENSSL_malloc_def OPENSSL_MALLOC_PREFIX_def
        sizeof_cbb_buffer_def sz_add_def CBB_zero_def)
  from CBB_init_fixed_rep [OF cap c] c m show ?thesis
    by (simp add: ready_def cbb_room_def roomy_def)
qed

lemma finish_ready:
  assumes r: "ready m n cbb a" and fits: "fits_to 0 a"
    and le: "length (written a) + 4 * length (snd a) \<le> n"
  shows "\<exists>data len cbb'. CBB_finish m True True 0 cbb = (Some (data, len), cbb') \<and>
    take len data = fst (close_to 0 a) \<and> len = length (fst (close_to 0 a))"
proof -
  from flush_ready [OF r _ fits] le obtain c where
    c: "CBB_flush m 0 cbb = (True, c)" "ready m n c (close_to 0 a)" by auto
  then obtain base where "cbb_base c = Some base" by (auto simp: ready_def cbb_rep_def)
  with c(1) have f: "CBB_finish m True True 0 cbb = (Some (b_data base, b_len base), CBB_cleanup 0 c)"
    by (simp add: CBB_finish_def)
  from CBB_finish_rep [OF _ _ f] r f show ?thesis by (auto simp: ready_def)
qed

section \<open>SET OF\<close>

interpretation cbb_bytes: total_sink "\<lambda>c. CBB_add_bytes m (CBS_data c) (CBS_len c) d" cbs_bytes
    "\<lambda>c. cbs_ok c \<and> cbs_len c < 2 ^ 63" "cbb_holds m d a"
    "\<lambda>cbb n. cbb_room m cbb (length (written a) + n)" for m d a
proof unfold_locales
  fix c s w n
  assume c: "cbs_ok c \<and> cbs_len c < 2 ^ 63" and h: "cbb_holds m d a s w"
    and room: "cbb_room m s (length (written a) + n)" and le: "length w + length (cbs_bytes c) \<le> n"
  have len: "CBS_len c = length (cbs_bytes c)" using c by (simp add: CBS_len_def cbs_bytes_def cbs_ok_def)
  have len': "length (cbs_bytes c) = cbs_len c" using c by (simp add: cbs_bytes_def cbs_ok_def)
  have "CBB_add_bytes m (CBS_data c) (CBS_len c) d s = CBB_add_bytes m (cbs_bytes c) (length (cbs_bytes c)) d s"
    unfolding len' by (simp only: CBB_add_bytes_def CBS_data_def CBS_len_def cbs_bytes_def take_take min.idem)
  with CBB_add_bytes_total [of m s "add_top w a" d "length (written a) + n" "cbs_bytes c"] c h room le len
  show "\<exists>s'. CBB_add_bytes m (CBS_data c) (CBS_len c) d s = (True, s') \<and> cbb_room m s' (length (written a) + n)"
    by (auto simp: cbb_holds_def CBS_len_def)
qed

lemma memdup_generous:
  assumes "generous m" and "n \<noteq> 0" "n + 8 < 2 ^ 63"
  shows "\<exists>q. OPENSSL_memdup m p n = Some q"
  using generousD [OF assms(1), of "n + 8"] assms(2,3)
  by (auto simp: OPENSSL_memdup_def OPENSSL_malloc_def OPENSSL_MALLOC_PREFIX_def sz_add_def)

text \<open>\<open>CBB_flush_asn1_set_of\<close> succeeds and leaves the elements sorted.\<close>

lemma set_of_total:
  assumes g: "generous m" and r: "ready m n cbb a" and d: "d \<le> length (snd a)" and fits: "fits_to d a"
    and le: "length (written a) + 4 * (length (snd a) - d) \<le> n"
    and els: "close_to d a = add_top (concat (elements els)) b" and top: "top_contents b = []"
    and small: "small_elements els" and n: "n < 2 ^ 59"
  shows "\<exists>cbb'. CBB_flush_asn1_set_of m d cbb = (True, cbb') \<and>
    cbb_rep cbb' (add_top (concat (sort (elements els))) b)"
proof -
  let ?C = "concat (elements els)"
  have m: "malloc_ok m" and rep: "cbb_rep cbb a" using r by (auto simp: ready_def)
  from flush_ready [OF r d fits le] els obtain c1 where
    fl: "CBB_flush m d cbb = (True, c1)" and r1: "ready m n c1 (add_top ?C b)" by auto
  have rep1: "cbb_rep c1 (add_top ?C b)" using r1 by (simp add: ready_def)
  have db: "d = length (snd b)" using length_snd_close_to [of d a] d els by simp
  have len: "length (written b) + length ?C \<le> n"
    using length_close_to [of d a] le els by simp
  note eq = flush_set_of_eq [OF fl rep1 top db small m]
  have "\<exists>cbb'. CBB_flush_asn1_set_of m d cbb = (True, cbb')"
  proof (cases "length els < 2")
    case True
    then show ?thesis by (simp add: eq)
  next
    case False
    have num: "length els \<le> length ?C" by (rule length_elements)
    then have C: "length ?C \<noteq> 0" "length ?C + 8 < 2 ^ 63"
      using False n len by (linarith, simp del: length_concat)
    have sz: "sz_mul (length els) sizeof_CBS = length els * 16" "length els * 16 + 8 < 2 ^ 63"
      using num len n by (simp_all add: sizeof_CBS_def sz_mul_def)
    have mal: "OPENSSL_malloc m (length els * 16) \<noteq> None"
      using generousD [OF g sz(2)] sz(2)
      by (auto simp: OPENSSL_malloc_def OPENSSL_MALLOC_PREFIX_def sz_add_def)
    have few: "\<not> length els > (2 ^ 64 - 1) div sizeof_CBS" using num len n by (simp add: sizeof_CBS_def)
    from sorted_elements [OF small] obtain cs where
      cs: "get_elements (length els) (view ?C []) = Some cs"
        "\<forall>c \<in> set (c_qsort compare_set_of_element cs). cbs_ok c \<and> cbs_len c < 2 ^ 63"
        "map cbs_bytes (c_qsort compare_set_of_element cs) = sort (elements els)" by auto
    have h: "cbb_holds m d b (set_of_reset d c1) []"
      using m db set_of_contents(3) [OF rep1 top db] by (simp add: cbb_holds_def)
    have room: "cbb_room m (set_of_reset d c1) (length (written b) + length ?C)"
    proof -
      obtain base where base: "cbb_base c1 = Some base" and bo: "buf_ok base (written b @ ?C)"
        using rep1 by (auto simp: cbb_rep_def)
      then show ?thesis by (simp add: set_of_reset_def cbb_room_def roomy_def buf_ok_def)
    qed
    have "length (concat (sort (elements els))) = length ?C"
      unfolding length_concat by (metis mset_map mset_sort sum_mset_sum_list)
    with cbb_bytes.put_all_total [OF cs(2) h room] cs(3) obtain s where
      "put_all (\<lambda>c. CBB_add_bytes m (CBS_data c) (CBS_len c) d) (c_qsort compare_set_of_element cs)
         (set_of_reset d c1) = (True, s)" by auto
    with False few mal memdup_generous [OF g C] cs(1) sz show ?thesis
      by (auto simp: eq)
  qed
  with flush_asn1_set_of_rep [OF m rep d _ els top small] show ?thesis by blast
qed

section \<open>Object identifiers\<close>

lemma base128_ready:
  "ready m n cbb a \<Longrightarrow> length (written a) + length (base128 (unat v)) \<le> n \<Longrightarrow> d = length (snd a) \<Longrightarrow>
     \<exists>cbb'. add_base128_integer m v d cbb = (True, cbb') \<and> ready m n cbb' (add_top (base128 (unat v)) a)"
  unfolding add_base128_integer_eq by (rule add_u8s_ready)

lemma decimal_ready:
  "ready m n cbb a \<Longrightarrow> length (written a) + length (decimal_text (unat v)) \<le> n \<Longrightarrow> d = length (snd a) \<Longrightarrow>
     \<exists>cbb'. add_decimal m v d cbb = (True, cbb') \<and> ready m n cbb' (add_top (decimal_text (unat v)) a)"
  unfolding add_decimal_def Let_def by (intro add_bytes_ready decimal_text_small)

lemma oid_components_ready:
  "\<forall>c \<in> set cs. c < 2 ^ 64 \<Longrightarrow> ready m n cbb a \<Longrightarrow> d = length (snd a) \<Longrightarrow>
     length (written a) + length (concat (map base128 cs)) \<le> n \<Longrightarrow>
     \<exists>cbb'. oid_components_loop m d
         (view (case cs of [] \<Rightarrow> [] | c # cs' \<Rightarrow> decimal_text c @ oid_tail_text cs') after) cbb = (True, cbb') \<and>
       ready m n cbb' (add_top (concat (map base128 cs)) a)"
proof (induction cs arbitrary: cbb a)
  case Nil
  then show ?case by (subst oid_components_loop.simps) simp
next
  case (Cons c cs)
  have c: "c < 2 ^ 64" using Cons.prems(1) by simp
  from base128_ready [OF Cons.prems(2) _ Cons.prems(3), of "word_of_nat c"] Cons.prems(4) obtain c1 where
    c1: "add_base128_integer m (word_of_nat c) d cbb = (True, c1)" "ready m n c1 (add_top (base128 c) a)"
    by (auto simp: unat_of_nat64 [OF c])
  from Cons.IH [OF _ c1(2)] Cons.prems c1(1) show ?case
    by (subst oid_components_loop.simps) (auto simp: parse_dotted_decimal_tail [OF c])
qed

lemma oid_from_text_ready:
  assumes ok: "oid_ok a b cs" and r: "ready m n cbb s" and d: "d = length (snd s)"
    and le: "length (written s) + length (oid_body a b cs) \<le> n"
  shows "\<exists>cbb'. CBB_add_asn1_oid_from_text m (oid_text a b cs @ after) (length (oid_text a b cs)) d cbb = (True, cbb') \<and>
    ready m n cbb' (add_top (oid_body a b cs) s)"
proof -
  have fl: "CBB_flush m d cbb = (True, cbb)" using flush_done [of cbb s d m] r d by (auto simp: ready_def)
  have v: "40 * a + b < 2 ^ 64" using ok by (simp add: oid_ok_def)
  from base128_ready [OF r _ d, of "word_of_nat (40 * a + b)"] le obtain c1 where
    c1: "add_base128_integer m (word_of_nat (40 * a + b)) d cbb = (True, c1)"
      "ready m n c1 (add_top (base128 (40 * a + b)) s)"
    unfolding unat_of_nat64 [OF v] by (auto simp: oid_body_def)
  from oid_components_ready [OF _ c1(2), of cs d after] ok le d obtain c2 where
    "oid_components_loop m d (view (case cs of [] \<Rightarrow> [] | c # cs' \<Rightarrow> decimal_text c @ oid_tail_text cs') after) c1 = (True, c2)"
    "ready m n c2 (add_top (oid_body a b cs) s)"
    by (auto simp: oid_ok_def oid_body_def)
  then show ?thesis using c1(1) by (simp add: oid_from_text_eq [OF ok fl] del: of_nat_add of_nat_mult)
qed

lemma written_root [simp]: "written (x, []) = x"
  by (simp add: written_def)

lemma oid_text_loop_ready:
  "\<forall>c \<in> set cs. c < 2 ^ 64 \<Longrightarrow> ready m n cbb (x, []) \<Longrightarrow> length x + length (oid_tail_text cs) \<le> n \<Longrightarrow>
     \<exists>cbb'. oid_text_loop m (view (concat (map base128 cs)) after) cbb = (True, cbb') \<and>
       ready m n cbb' (x @ oid_tail_text cs, [])"
proof (induction cs arbitrary: cbb x)
  case Nil
  then show ?case by (subst oid_text_loop.simps) simp
next
  case (Cons c cs)
  have c: "c < 2 ^ 64" using Cons.prems(1) by simp
  have ne: "base128 c \<noteq> []" by (simp add: base128_def)
  from add_u8_ready [OF Cons.prems(2), of 0 46] Cons.prems(3) obtain c1 where
    c1: "CBB_add_u8 m 46 0 cbb = (True, c1)" "ready m n c1 (x @ [46], [])" by (auto simp: add_top_Nil)
  from decimal_ready [OF c1(2), of "word_of_nat c" 0] Cons.prems(3) obtain c2 where
    c2: "add_decimal m (word_of_nat c) 0 c1 = (True, c2)" "ready m n c2 (x @ 46 # decimal_text c, [])"
    by (auto simp: unat_of_nat64 [OF c] add_top_Nil)
  from Cons.IH [OF _ c2(2)] Cons.prems c1(1) c2(1) ne show ?case
    by (subst oid_text_loop.simps) (auto simp: parse_base128 [OF c])
qed

lemma oid_text_first_ready:
  assumes ok: "oid_ok a b cs" and r: "ready m n cbb ([], [])"
    and le: "length (decimal_text a) + length (decimal_text b) + 1 \<le> n"
  shows "\<exists>cbb'. oid_text_first m (word_of_nat (40 * a + b)) cbb = (True, cbb') \<and>
    ready m n cbb' (decimal_text a @ 46 # decimal_text b, [])"
proof -
  let ?v = "word_of_nat (40 * a + b) :: u64"
  have u: "unat ?v = 40 * a + b" using ok by (intro unat_of_nat64) (simp add: oid_ok_def)
  show ?thesis
  proof (cases "40 * a + b \<ge> 80")
    case True
    then have a: "a = 2" using ok by (auto simp: oid_ok_def)
    have ge: "?v \<ge> 80" using True u by (simp only: word_le_nat_alt) simp
    have ub: "unat (?v - 80) = b" using ge u a by (subst unat_sub) simp_all
    have two: "decimal_text 2 = [50]" by (subst decimal_text.simps) simp
    have l2: "length [50, 46 :: u8] = 2" by simp
    from add_bytes_ready [OF r, of "[50, 46]" 0, unfolded l2] le a two obtain c1 where
      c1: "CBB_add_bytes m [50, 46] 2 0 cbb = (True, c1)" "ready m n c1 ([50, 46], [])"
      by (auto simp: add_top_Nil)
    from decimal_ready [OF c1(2), of "?v - 80" 0] le a two ub c1(1) ge show ?thesis
      by (auto simp: oid_text_first_def add_top_Nil simp del: of_nat_add of_nat_mult)
  next
    case False
    have lt: "\<not> ?v \<ge> 80" using False u by (simp only: word_le_nat_alt) simp
    have b: "b < 40" using ok False by (cases "a < 2") (auto simp: oid_ok_def)
    have q: "unat (?v div 40) = a" "unat (?v mod 40) = b"
      using u b by (simp_all add: unat_div unat_mod)
    from decimal_ready [OF r, of "?v div 40" 0] le obtain c1 where
      c1: "add_decimal m (?v div 40) 0 cbb = (True, c1)" "ready m n c1 (decimal_text a, [])"
      unfolding q by (auto simp: add_top_Nil)
    from add_u8_ready [OF c1(2), of 0 46] le obtain c2 where
      c2: "CBB_add_u8 m 46 0 c1 = (True, c2)" "ready m n c2 (decimal_text a @ [46], [])"
      by (auto simp: add_top_Nil)
    from decimal_ready [OF c2(2), of "?v mod 40" 0] le obtain c3 where
      c3: "add_decimal m (?v mod 40) 0 c2 = (True, c3)" "ready m n c3 (decimal_text a @ 46 # decimal_text b, [])"
      unfolding q by (auto simp: add_top_Nil)
    show ?thesis
      unfolding oid_text_first_def if_not_P [OF lt] c1(1) prod.case bool.case c2(1) c3(1) using c3(2) by blast
  qed
qed

text \<open>Printing the encoding of an identifier returns its text, zero-terminated.\<close>

lemma oid_to_text_total:
  assumes g: "generous m" and ok: "oid_ok a b cs" and len: "length (oid_text a b cs) < 2 ^ 60"
  shows "\<exists>junk. CBS_asn1_oid_to_text m (view (oid_body a b cs) after) = Some (oid_text a b cs @ 0 # junk)"
proof -
  let ?v = "word_of_nat (40 * a + b) :: u64" and ?n = "2 ^ 60 :: nat"
  have m: "malloc_ok m" using g by (simp add: generous_def)
  have p: "parse_base128_integer (view (oid_body a b cs) after) =
      (Some ?v, view (concat (map base128 cs)) after)"
    unfolding oid_body_def by (rule parse_base128) (use ok in \<open>simp add: oid_ok_def\<close>)
  from init_ready [OF g, of 32 ?n] obtain c0 where
    i: "CBB_init m 32 = (True, c0)" and r0: "ready m ?n c0 ([], [])" by auto
  from oid_text_first_ready [OF ok r0] len obtain c1 where
    f: "oid_text_first m ?v c0 = (True, c1)" and r1: "ready m ?n c1 (decimal_text a @ 46 # decimal_text b, [])"
    by (auto simp: oid_text_def)
  from oid_text_loop_ready [OF _ r1, of cs after] ok len obtain c2 where
    l: "oid_text_loop m (view (concat (map base128 cs)) after) c1 = (True, c2)"
    and r2: "ready m ?n c2 (oid_text a b cs, [])" by (auto simp: oid_text_def oid_ok_def)
  from add_u8_ready [OF r2, of 0 0] len obtain c3 where
    z: "CBB_add_u8 m 0 0 c2 = (True, c3)" and r3: "ready m ?n c3 (oid_text a b cs @ [0], [])"
    by (auto simp: add_top_Nil)
  from finish_ready [OF r3] len obtain t n c4 where
    fin: "CBB_finish m True True 0 c3 = (Some (t, n), c4)" by auto
  have "CBS_asn1_oid_to_text m (view (oid_body a b cs) after) = Some t"
    unfolding CBS_asn1_oid_to_text_def i p prod.case bool.case option.case f l z fin by (rule refl)
  with oid_to_text [OF m ok this] show ?thesis by blast
qed

end
