(* ===== verification/Ber_Total.thy ===== *)
theory Ber_Total
  imports Ber_Der Cbb_Total
begin

text \<open>
  The converter succeeds on every well-formed encoding whose nesting it accepts, while
  the builder has room: the counterpart of \<open>Ber_Der\<close>, which shows what a successful
  conversion returns.
\<close>

fun depth :: "ber \<Rightarrow> nat" where
  "depth (Prim t body) = 0"
| "depth (Con t cs) = Suc (foldr max (map depth cs) 0)"
| "depth (Indef t cs) = Suc (foldr max (map depth cs) 0)"

lemma foldr_max_le: "c \<in> set cs \<Longrightarrow> f c \<le> foldr max (map f cs) (0 :: nat)"
  by (induction cs) auto

lemma depth_kids: "c \<in> set (kids x) \<Longrightarrow> Suc (depth c) \<le> depth x"
  by (cases x) (auto intro: foldr_max_le)

text \<open>The room that the trees \<open>ts\<close> take at nesting \<open>nest\<close>: their output, and five
  bytes for the prefix of each element that is open at the same time.\<close>

definition fits_room :: "nat \<Rightarrow> u32 \<Rightarrow> nat \<Rightarrow> ber list \<Rightarrow> builder \<Rightarrow> bool" where
  "fits_room n s nest ts a \<longleftrightarrow>
     (\<forall>x \<in> set ts. in_ok s x \<and> nest + depth x \<le> kMaxDepth) \<and>
     length (concat (map (out_bytes s) ts)) \<le> 0xfffffffe \<and>
     length (written a) + length (concat (map (out_bytes s) ts)) + 5 * (Suc kMaxDepth - nest) \<le> n"

lemma kids_len: "length (concat (map (out_bytes (child_tag s (ber_tag x))) (kids x))) \<le> length (out_bytes s x)"
  if "ber_wf x"
proof (cases "s = 0")
  case True
  have "length (body_bytes (child_tag 0 (ber_tag x)) x) \<le> length (der_bytes x)"
    using der_bytes_body [OF that] by (metis der_element_def le_add2 length_append)
  with True show ?thesis by (cases x) (auto simp: out_bytes_def)
next
  case False
  then have "child_tag s (ber_tag x) = s" by (simp add: child_tag_def)
  with False show ?thesis by (cases x) (simp_all add: out_bytes_def cong: map_cong)
qed


lemma fits_room_Cons:
  assumes "fits_room n s nest (x # xs) a"
  shows "fits_room n s nest xs (add_top (out_bytes s x) a)"
  using assms by (auto simp: fits_room_def)

text \<open>What a run of the loop with some fuel does: the statement of the induction.\<close>

definition completes :: "allocator \<Rightarrow> nat \<Rightarrow> nat \<Rightarrow> bool" where
  "completes m n fuel \<longleftrightarrow>
     (\<forall>s eoc nest ts rest after d a cbb.
        length (concat (map ber_bytes ts) @ (if eoc then [0, 0] @ rest else [])) < fuel \<and>
        fits_room n s nest ts a \<and> ready m n cbb a \<and> d = length (snd a) \<longrightarrow>
        (\<exists>cbb'. convert_ber_loop fuel m s eoc nest
            (view (concat (map ber_bytes ts) @ (if eoc then [0, 0] @ rest else [])) after) d cbb
            = Some (True, view (if eoc then rest else []) after, cbb') \<and>
          ready m n cbb' (add_top (concat (map (out_bytes s) ts)) a)))"

lemma completesD:
  assumes "completes m n fuel"
    and "length (concat (map ber_bytes ts) @ (if eoc then [0, 0] @ rest else [])) < fuel"
    and "fits_room n s nest ts a" and "ready m n cbb a" and "d = length (snd a)"
  shows "\<exists>cbb'. convert_ber_loop fuel m s eoc nest
      (view (concat (map ber_bytes ts) @ (if eoc then [0, 0] @ rest else [])) after) d cbb
      = Some (True, view (if eoc then rest else []) after, cbb') \<and>
    ready m n cbb' (add_top (concat (map (out_bytes s) ts)) a)"
  using assms(1)[unfolded completes_def, THEN spec, THEN spec, THEN spec, THEN spec, THEN spec, THEN spec,
    THEN spec, THEN spec, THEN spec, THEN mp, of ts eoc rest s nest a cbb d after] assms(2-) by blast

text \<open>The contents of one element: for a primitive a copy, else the loop on the children.\<close>

lemma body_total:
  assumes ih: "completes m n fuel" and wf: "ber_wf x" and len: "length (ber_bytes x @ R) \<le> fuel"
  obtains contents h inp1 where
    "CBS_get_any_ber_asn1_element (view (ber_bytes x @ R) after) = (Some (contents, ber_tag x, h), inp1)"
    "\<not> is_eoc h contents"
    "\<And>s nest d b c. fits_room n s (Suc nest) (kids x) b \<Longrightarrow> nest + depth x \<le> kMaxDepth \<Longrightarrow>
       length (written b) + length (body_bytes s x) \<le> n \<Longrightarrow> ready m n c b \<Longrightarrow> d = length (snd b) \<Longrightarrow>
       \<exists>c2. convert_body fuel m s nest h contents (ber_tag x) inp1 d c = Some (True, view R after, c2) \<and>
         ready m n c2 (add_top (body_bytes s x) b)"
proof (cases x)
  case (Prim t body)
  with wf have t: "t AND CBS_ASN1_CONSTRUCTED = 0" "t \<noteq> 0 \<or> body \<noteq> []" "length body < 2 ^ 32" by auto
  let ?h = "length (der_header t (length body))" and ?c = "view (der_element t body) (R @ after)"
  have sk: "CBS_skip ?h ?c = (Some (), view body (R @ after))"
    by (simp add: CBS_skip_view der_element_def)
  show thesis
  proof (rule that [of ?c ?h "view R after"])
    show "CBS_get_any_ber_asn1_element (view (ber_bytes x @ R) after) = (Some (?c, ber_tag x, ?h), view R after)"
      using get_any_ber_der [OF t(3)] Prim by simp
    show "\<not> is_eoc ?h ?c" using t(2) by (simp add: is_eoc_der)
    fix s nest d b c
    assume r: "ready m n c b" "d = length (snd b)" and le: "length (written b) + length (body_bytes s x) \<le> n"
    have tk: "take (length body) (body @ R @ after) = take (length body) body" by simp
    have cp: "CBB_add_bytes m (body @ R @ after) (length body) d c = CBB_add_bytes m body (length body) d c"
      unfolding CBB_add_bytes_def tk by (rule refl)
    from add_bytes_ready [OF r(1) _ r(2), of body] le t(3) Prim show
      "\<exists>c2. convert_body fuel m s nest ?h ?c (ber_tag x) (view R after) d c = Some (True, view R after, c2) \<and>
         ready m n c2 (add_top (body_bytes s x) b)"
      by (auto simp: convert_body_def is_indefinite_der sk t(1) cp)
  qed
next
  case (Con t cs)
  let ?body = "concat (map ber_bytes cs)"
  from Con wf have t: "t AND CBS_ASN1_CONSTRUCTED \<noteq> 0" "length ?body < 2 ^ 32" by auto
  let ?h = "length (der_header t (length ?body))" and ?c = "view (der_element t ?body) (R @ after)"
  have sk: "CBS_skip ?h ?c = (Some (), view ?body (R @ after))"
    by (simp add: CBS_skip_view der_element_def)
  have lb: "length ?body < fuel" using len Con
    by (cases "der_header t (length ?body)") (simp_all add: der_element_def)
  show thesis
  proof (rule that [of ?c ?h "view R after"])
    show "CBS_get_any_ber_asn1_element (view (ber_bytes x @ R) after) = (Some (?c, ber_tag x, ?h), view R after)"
      using get_any_ber_der [OF t(2)] Con by simp
    show "\<not> is_eoc ?h ?c" using t(1) by (auto simp: is_eoc_der)
    fix s nest d b c
    assume k: "fits_room n s (Suc nest) (kids x) b" "nest + depth x \<le> kMaxDepth" "ready m n c b" "d = length (snd b)"
    have "\<not> Suc nest > kMaxDepth" using k(2) Con by simp
    with completesD [OF ih, of cs False "[]" s "Suc nest" b c d "R @ after"] lb k Con t(1) show
      "\<exists>c2. convert_body fuel m s nest ?h ?c (ber_tag x) (view R after) d c = Some (True, view R after, c2) \<and>
         ready m n c2 (add_top (body_bytes s x) b)"
      by (auto simp: convert_body_def is_indefinite_der sk)
  qed
next
  case (Indef t cs)
  let ?body = "concat (map ber_bytes cs)"
  from Indef wf have t: "t AND CBS_ASN1_CONSTRUCTED \<noteq> 0" by auto
  let ?h = "Suc (length (der_tag t))" and ?i = "view (?body @ [0, 0] @ R) after"
  let ?c = "view (der_tag t @ [0x80]) ((?body @ [0, 0] @ R) @ after)"
  have lb: "length (?body @ [0, 0] @ R) < fuel" using len Indef by simp
  show thesis
  proof (rule that [of ?c ?h ?i])
    show "CBS_get_any_ber_asn1_element (view (ber_bytes x @ R) after) = (Some (?c, ber_tag x, ?h), ?i)"
      using get_any_asn1_indef [OF t, of "?body @ [0, 0] @ R" after] Indef by simp
    show "\<not> is_eoc ?h ?c" by (rule is_eoc_indef)
    fix s nest d b c
    assume k: "fits_room n s (Suc nest) (kids x) b" "nest + depth x \<le> kMaxDepth" "ready m n c b" "d = length (snd b)"
    have "\<not> Suc nest > kMaxDepth" using k(2) Indef by simp
    with completesD [OF ih, of cs True R s "Suc nest" b c d after] lb k Indef show
      "\<exists>c2. convert_body fuel m s nest ?h ?c (ber_tag x) ?i d c = Some (True, view R after, c2) \<and>
         ready m n c2 (add_top (body_bytes s x) b)"
      by (simp add: convert_body_def is_indefinite_indef)
  qed
qed

lemma kids_body: "length (concat (map (out_bytes s) (kids x))) \<le> length (body_bytes s x)"
  by (cases x) simp_all

lemma tags_match: "in_ok s x \<Longrightarrow> \<not> (s \<noteq> 0 \<and> ber_tag x AND NOT CBS_ASN1_CONSTRUCTED \<noteq> s)"
  by (auto dest: in_ok_tag)

lemma read_eoc:
  "CBS_get_any_ber_asn1_element (view ([0, 0] @ rest) after) =
     (Some (view [0, 0] (rest @ after), 0, 2), view rest after)" "is_eoc 2 (view [0, 0] (rest @ after))"
  using get_any_ber_der [of "[]" 0 rest after]
  by (simp_all add: eoc_bytes [symmetric] der_header_empty der_tag_0 is_eoc_def)

lemma completes_all: "completes m n fuel"
proof (induction fuel)
  case 0
  then show ?case by (simp add: completes_def)
next
  case (Suc fuel)
  show ?case
    unfolding completes_def
  proof (intro allI impI, elim conjE)
    fix s eoc nest ts rest after d a cbb
    let ?tail = "if eoc then [0, 0] @ rest else [] :: u8 list"
    let ?loop = "\<lambda>fuel i d c. convert_ber_loop fuel m s eoc nest i d c"
    assume len: "length (concat (map ber_bytes ts) @ ?tail) < Suc fuel"
      and fits: "fits_room n s nest ts a" and r: "ready m n cbb a" and d: "d = length (snd a)"
    show "\<exists>cbb'. ?loop (Suc fuel) (view (concat (map ber_bytes ts) @ ?tail) after) d cbb =
          Some (True, view (if eoc then rest else []) after, cbb') \<and>
        ready m n cbb' (add_top (concat (map (out_bytes s) ts)) a)"
    proof (cases ts)
      case Nil
      then show ?thesis
        using r read_eoc [of rest after] by (cases eoc) (simp_all add: convert_ber_loop.simps(2))
    next
      case (Cons x xs)
      let ?R = "concat (map ber_bytes xs) @ ?tail"
      have x: "in_ok s x" "nest + depth x \<le> kMaxDepth" and wf: "ber_wf x"
        using fits Cons by (auto simp: fits_room_def in_ok_def)
      have lx: "length (ber_bytes x @ ?R) \<le> fuel" using len Cons by simp
      obtain contents hl inp1 where
        g: "CBS_get_any_ber_asn1_element (view (ber_bytes x @ ?R) after) = (Some (contents, ber_tag x, hl), inp1)"
        and eo: "\<not> is_eoc hl contents"
        and body: "\<And>s nest d b c. fits_room n s (Suc nest) (kids x) b \<Longrightarrow> nest + depth x \<le> kMaxDepth \<Longrightarrow>
          length (written b) + length (body_bytes s x) \<le> n \<Longrightarrow> ready m n c b \<Longrightarrow> d = length (snd b) \<Longrightarrow>
          \<exists>c2. convert_body fuel m s nest hl contents (ber_tag x) inp1 d c = Some (True, view ?R after, c2) \<and>
            ready m n c2 (add_top (body_bytes s x) b)"
        using body_total [OF Suc.IH wf lx] by blast
      have ne: "CBS_len (view (ber_bytes x @ ?R) after) \<noteq> 0" using ber_bytes_nonempty [of x] by simp
      note step = convert_step_eq [OF g ne eo tags_match [OF x(1)]]
      have lR: "length ?R < fuel" using lx ber_bytes_nonempty [of x] by (cases "ber_bytes x") auto
      have fin: ?thesis
        if "?loop (Suc fuel) (view (ber_bytes x @ ?R) after) d cbb = ?loop fuel (view ?R after) d c"
          "ready m n c (add_top (out_bytes s x) a)" for c
        using completesD [OF Suc.IH lR fits_room_Cons that(2)] fits d that(1) Cons by simp
      have kx: "\<forall>c \<in> set (kids x). in_ok (child_tag s (ber_tag x)) c \<and> Suc nest + depth c \<le> kMaxDepth"
        using kids_ok [OF x(1)] depth_kids x(2) by fastforce
      have lo: "length (out_bytes s x) \<le> 0xfffffffe"
        "length (written a) + length (out_bytes s x) + 5 * (Suc kMaxDepth - nest) \<le> n"
        using fits Cons by (auto simp: fits_room_def)
      have deep: "5 * (Suc kMaxDepth - Suc nest) + 5 = 5 * (Suc kMaxDepth - nest)" using x(2) by simp
      show ?thesis
      proof (cases "s = 0")
        case False
        have ct: "child_tag s (ber_tag x) = s" using False by (simp add: child_tag_def)
        have bb: "body_bytes s x = out_bytes s x" by (rule body_bytes_string [OF False])
        have "fits_room n s (Suc nest) (kids x) a"
          unfolding fits_room_def using kx lo kids_body [of s x] deep unfolding ct bb by auto
        from body [OF this x(2) _ r d] lo(2) obtain c2 where
          c2: "convert_body fuel m s nest hl contents (ber_tag x) inp1 d cbb = Some (True, view ?R after, c2)"
            "ready m n c2 (add_top (out_bytes s x) a)" unfolding bb by auto
        have "CBB_flush m d c2 = (True, c2)"
          using flush_done [of c2 "add_top (out_bytes s x) a" d m] c2(2) d by (auto simp: ready_def)
        then have "?loop (Suc fuel) (view (ber_bytes x @ ?R) after) d cbb = ?loop fuel (view ?R after) d c2"
          unfolding step ct using c2(1) False by simp
        from fin [OF this c2(2)] show ?thesis .
      next
        case True
        let ?t = "out_tag (ber_tag x)" and ?s = "child_tag 0 (ber_tag x)"
        let ?b = "open_top Der (add_top (der_tag ?t) a)" and ?bs = "body_bytes (child_tag 0 (ber_tag x)) x"
        have der: "out_bytes s x = der_element ?t ?bs"
          using der_bytes_body [OF wf] True by (simp add: out_bytes_def)
        have lout: "length (out_bytes s x) \<ge> length (der_tag ?t) + 1 + length ?bs"
          unfolding der by (simp add: der_element_def der_header_def der_len_def)
        have room: "length (written a) + length (der_tag ?t) + 1 \<le> n"
          "length (written a) + length (der_tag ?t) + length ?bs + 5 \<le> n"
          "length (written ?b) + length ?bs + 5 * (Suc kMaxDepth - Suc nest) \<le> n"
          using lo(2) lout deep by (simp_all add: length_written_open)
        from add_asn1_ready [OF r room(1) d] obtain c1 where
          c1: "CBB_add_asn1 m ?t d cbb = (True, c1)" "ready m n c1 ?b" by auto
        have "fits_room n ?s (Suc nest) (kids x) ?b"
          unfolding fits_room_def using kx lo lout room(3) kids_body [of ?s x] True by auto
        from body [OF this x(2) _ c1(2)] room(3) d obtain c2 where
          c2: "convert_body fuel m ?s nest hl contents (ber_tag x) inp1 (Suc d) c1 = Some (True, view ?R after, c2)"
            "ready m n c2 (add_top ?bs ?b)" by (auto simp: open_top_def)
        from close_ready [OF c2(2) d _ room(2)] lo(1) lout obtain c3 where
          "CBB_flush m d c2 = (True, c3)" "ready m n c3 (add_top (out_bytes s x) a)" unfolding der by auto
        then have "?loop (Suc fuel) (view (ber_bytes x @ ?R) after) d cbb = ?loop fuel (view ?R after) d c3"
          and r3: "ready m n c3 (add_top (out_bytes s x) a)"
          unfolding step using c1(1) c2(1) True by simp_all
        from fin [OF this] show ?thesis .
      qed
    qed
  qed
qed

text \<open>The whole conversion: a result for every input within the limits.\<close>

lemma ber_to_der_total:
  assumes g: "generous m" and ok: "\<forall>x \<in> set ts. in_ok 0 x \<and> depth x \<le> kMaxDepth"
    and len: "length (concat (map ber_bytes ts)) \<le> 2 ^ 61" "length (concat (map der_bytes ts)) \<le> 0xfffffffe"
    and found: "cbs_find_ber (view (concat (map ber_bytes ts)) after) 0 = Some True"
  shows "\<exists>out storage inp. CBS_asn1_ber_to_der m (view (concat (map ber_bytes ts)) after)
      = Some (Some (out, storage), inp) \<and> cbs_bytes out = concat (map der_bytes ts) \<and> cbs_len inp = 0"
proof -
  let ?in = "view (concat (map ber_bytes ts)) after" and ?n = "2 ^ 60 :: nat"
  have m: "malloc_ok m" using g by (simp add: generous_def)
  from init_ready [OF g len(1), of ?n] obtain c0 where
    i: "CBB_init m (CBS_len ?in) = (True, c0)" and r0: "ready m ?n c0 ([], [])" by auto
  have out: "map (out_bytes 0) ts = map der_bytes ts" by (simp add: out_bytes_def)
  have k: "kMaxDepth = 2048" by (simp add: kMaxDepth_def)
  have fits: "fits_room ?n 0 0 ts ([], [])"
    unfolding fits_room_def out using ok len(2) by (simp add: k)
  from completesD [OF completes_all, of ts False "[]" "Suc (CBS_len ?in)" _ 0 0 "([], [])" m c0 0 after, OF _ fits r0]
  obtain c1 where conv: "cbs_convert_ber m 0 False 0 ?in 0 c0 = Some (True, view [] after, c1)"
    and r1: "ready m ?n c1 (concat (map der_bytes ts), [])"
    by (auto simp: cbs_convert_ber_def add_top_Nil out)
  from finish_ready [OF r1] len(2) obtain data n c2 where
    fin: "CBB_finish m True True 0 c1 = (Some (data, n), c2)" by auto
  have r: "CBS_asn1_ber_to_der m ?in = Some (Some (CBS_init data n, Some data), view [] after)"
    using i found conv fin by (simp add: CBS_asn1_ber_to_der_def)
  from ber_to_der_converted [OF m _ _ found r] ok len(1) r show ?thesis by auto
qed

end
