(* ===== verification/Ber_Values.thy ===== *)
theory Ber_Values
  imports Ber_Total
begin

text \<open>
  The values that BER trees stand for, without reference to the converter, and their DER
  encoding; the converter against them.
\<close>

section \<open>Values\<close>

text \<open>An ASN.1 value as its DER encoding shows it: a tag with contents octets, or a tag with the
  values inside.\<close>

datatype asn1 = Octets u32 "u8 list" | Group u32 "asn1 list"

fun der_of :: "asn1 \<Rightarrow> u8 list" where
  "der_of (Octets t body) = der_element t body"
| "der_of (Group t vs) = der_element t (concat (map der_of vs))"

text \<open>The contents of the primitive fragments of a constructed string, in order.\<close>

fun fragments :: "ber \<Rightarrow> u8 list list" where
  "fragments (Prim t body) = [body]"
| "fragments (Con t cs) = concat (map fragments cs)"
| "fragments (Indef t cs) = concat (map fragments cs)"

text \<open>The contents of the string that the fragments make. A fragment of a BIT STRING starts with
  the number of unused bits of its last octet, which is zero for all fragments but the last: the
  string has that number of the last fragment, then the octets of all. Fragments of other strings
  are put side by side.\<close>

definition joined :: "u32 \<Rightarrow> u8 list list \<Rightarrow> u8 list" where
  "joined t bodies =
     (if t = CBS_ASN1_BITSTRING then (if bodies = [] then 0 else hd (List.last bodies)) # concat (map tl bodies)
      else concat bodies)"

fun ber_value :: "ber \<Rightarrow> asn1" where
  "ber_value (Prim t body) = Octets t body"
| "ber_value (Con t cs) =
     (if is_string_type t
      then Octets (t AND NOT CBS_ASN1_CONSTRUCTED) (joined (t AND NOT CBS_ASN1_CONSTRUCTED) (concat (map fragments cs)))
      else Group t (map ber_value cs))"
| "ber_value (Indef t cs) =
     (if is_string_type t
      then Octets (t AND NOT CBS_ASN1_CONSTRUCTED) (joined (t AND NOT CBS_ASN1_CONSTRUCTED) (concat (map fragments cs)))
      else Group t (map ber_value cs))"

text \<open>No BIT STRING is in fragments.\<close>

fun whole_bits :: "ber \<Rightarrow> bool" where
  "whole_bits (Prim t body) \<longleftrightarrow> True"
| "whole_bits (Con t cs) \<longleftrightarrow> t AND NOT CBS_ASN1_CONSTRUCTED \<noteq> CBS_ASN1_BITSTRING \<and> (\<forall>c \<in> set cs. whole_bits c)"
| "whole_bits (Indef t cs) \<longleftrightarrow> t AND NOT CBS_ASN1_CONSTRUCTED \<noteq> CBS_ASN1_BITSTRING \<and> (\<forall>c \<in> set cs. whole_bits c)"

section \<open>The converter writes the DER of the value\<close>

lemma concat_fragments:
  "\<forall>c \<in> set cs. string_bytes c = concat (fragments c) \<Longrightarrow> concat (concat (map fragments cs)) = concat (map string_bytes cs)"
  by (induction cs) simp_all

lemma string_bytes_fragments: "string_bytes x = concat (fragments x)"
  by (induction x) (simp_all add: concat_fragments)

lemma der_bytes_value: "whole_bits x \<Longrightarrow> der_bytes x = der_of (ber_value x)"
proof (induction x)
  case (Con t cs)
  then have "concat (map der_bytes cs) = concat (map (\<lambda>c. der_of (ber_value c)) cs)"
    by (intro arg_cong [where f = concat] map_cong) auto
  with Con(2) show ?case by (simp add: joined_def concat_fragments string_bytes_fragments comp_def)
next
  case (Indef t cs)
  then have "concat (map der_bytes cs) = concat (map (\<lambda>c. der_of (ber_value c)) cs)"
    by (intro arg_cong [where f = concat] map_cong) auto
  with Indef(2) show ?case by (simp add: joined_def concat_fragments string_bytes_fragments comp_def)
qed simp

lemma ber_to_der_value:
  assumes g: "generous m" and ok: "\<forall>x \<in> set ts. in_ok 0 x \<and> whole_bits x \<and> depth x \<le> kMaxDepth"
    and len: "length (concat (map ber_bytes ts)) \<le> 2 ^ 61" "length (concat (map (\<lambda>x. der_of (ber_value x)) ts)) \<le> 0xfffffffe"
    and found: "cbs_find_ber (view (concat (map ber_bytes ts)) after) 0 = Some True"
  shows "\<exists>out storage inp. CBS_asn1_ber_to_der m (view (concat (map ber_bytes ts)) after)
      = Some (Some (out, storage), inp) \<and> cbs_bytes out = concat (map (\<lambda>x. der_of (ber_value x)) ts) \<and> cbs_len inp = 0"
proof -
  have "map der_bytes ts = map (\<lambda>x. der_of (ber_value x)) ts" using ok by (simp add: der_bytes_value)
  with ber_to_der_total [OF g _ len(1) _ found] ok len(2) show ?thesis by simp
qed

section \<open>BIT STRINGs in fragments\<close>

lemmas find_ber_simps = cbs_find_ber_def kMaxDepth_def find_ber_loop.simps CBS_init_def view_def CBS_len_def
  CBS_data_def CBS_get_any_ber_asn1_element_def cbs_get_any_asn1_element_def parse_asn1_tag_def
  CBS_get_u8_def cbs_get_def Let_def CBS_ASN1_TAG_SHIFT_def CBS_ASN1_CONSTRUCTED_def get_element_def
  CBS_get_bytes_def is_indefinite_def sz_add_def is_string_type_def string_tags_def CBS_skip_def

text \<open>The sixteen bits of two octets AA and BB in two fragments: the converter keeps the second
  fragment's number of unused bits as an octet of the string, which becomes one of 24 bits.\<close>

lemma bit_fragments_keep_octet:
  assumes "generous m"
  shows "\<exists>out storage inp. CBS_asn1_ber_to_der m (view [0x23, 8, 3, 2, 0, 0xAA, 3, 2, 0, 0xBB] []) = Some (Some (out, storage), inp) \<and>
      cbs_bytes out = [3, 4, 0, 0xAA, 0, 0xBB]"
    and "der_of (ber_value (Con 0x20000003 [Prim 3 [0, 0xAA], Prim 3 [0, 0xBB]])) = [3, 3, 0, 0xAA, 0xBB]"
proof -
  let ?ts = "[Con 0x20000003 [Prim 3 [0, 0xAA], Prim 3 [0, 0xBB]]]"
  note enc = der_element_def der_header_def der_tag_def der_len_def der_len_octets_def Let_def
  have st: "is_string_type 0x20000003" by (simp add: is_string_type_def string_tags_def CBS_ASN1_CONSTRUCTED_def)
  have b: "concat (map ber_bytes ?ts) = [0x23, 8, 3, 2, 0, 0xAA, 3, 2, 0, 0xBB]" by (simp add: enc)
  have d: "concat (map der_bytes ?ts) = [3, 4, 0, 0xAA, 0, 0xBB]" by (simp add: st enc CBS_ASN1_CONSTRUCTED_def)
  have f: "cbs_find_ber (view [0x23, 8, 3, 2, 0, 0xAA, 3, 2, 0, 0xBB] []) 0 = Some True" by (simp add: find_ber_simps)
  have ok: "\<forall>x \<in> set ?ts. in_ok 0 x \<and> depth x \<le> kMaxDepth"
    using st by (simp add: in_ok_def kMaxDepth_def CBS_ASN1_CONSTRUCTED_def enc)
  from ber_to_der_total [OF assms ok, of "[]"] show "\<exists>out storage inp.
      CBS_asn1_ber_to_der m (view [0x23, 8, 3, 2, 0, 0xAA, 3, 2, 0, 0xBB] []) = Some (Some (out, storage), inp) \<and>
      cbs_bytes out = [3, 4, 0, 0xAA, 0, 0xBB]" unfolding b d using f by auto
  show "der_of (ber_value (Con 0x20000003 [Prim 3 [0, 0xAA], Prim 3 [0, 0xBB]])) = [3, 3, 0, 0xAA, 0xBB]"
    using st by (simp add: joined_def CBS_ASN1_BITSTRING_def CBS_ASN1_CONSTRUCTED_def enc)
qed

end
