(* ===== verification/Unicode.thy ===== *)
theory Unicode
  imports Set_Of
begin

text \<open>
  \<open>crypto/bytestring/unicode.c\<close>: reading and writing one code point in UTF-8, Latin-1,
  UCS-2 and UTF-32, with the round trips and the canonicity of UTF-8.
\<close>

section \<open>The code\<close>

definition is_valid_code_point :: "u32 \<Rightarrow> bool" where
  "is_valid_code_point v =
     (\<not> (v > 0x10ffff \<or> v AND 0xfffe = 0xfffe \<or> (v \<ge> 0xfdd0 \<and> v \<le> 0xfdef) \<or>
         (v \<ge> 0xd800 \<and> v \<le> 0xdfff)))"

definition BOTTOM_BITS :: "nat \<Rightarrow> u8" where
  "BOTTOM_BITS n = ucast (push_bit n (1 :: u32) - 1)"

definition TOP_BITS :: "nat \<Rightarrow> u8" where
  "TOP_BITS n = NOT (BOTTOM_BITS (8 - n))"

fun utf8_tail :: "nat \<Rightarrow> u32 \<Rightarrow> CBS \<Rightarrow> u32 option \<times> CBS" where
  "utf8_tail 0 v cbs = (Some v, cbs)"
| "utf8_tail (Suc len) v cbs =
     (case CBS_get_u8 cbs of
        (None, cbs) \<Rightarrow> (None, cbs)
      | (Some c, cbs) \<Rightarrow>
          if c AND TOP_BITS 2 \<noteq> TOP_BITS 1 then (None, cbs)
          else utf8_tail len (push_bit 6 v OR ucast (c AND BOTTOM_BITS 6)) cbs)"

definition cbs_get_utf8 :: "CBS \<Rightarrow> u32 option \<times> CBS" where
  "cbs_get_utf8 cbs =
     (case CBS_get_u8 cbs of
        (None, cbs) \<Rightarrow> (None, cbs)
      | (Some c, cbs) \<Rightarrow>
          if c \<le> 0x7f then (Some (ucast c), cbs)
          else
            case (if c AND TOP_BITS 3 = TOP_BITS 2 then Some (ucast (c AND BOTTOM_BITS 5) :: u32, 1, 0x80)
                  else if c AND TOP_BITS 4 = TOP_BITS 3 then Some (ucast (c AND BOTTOM_BITS 4), 2, 0x800)
                  else if c AND TOP_BITS 5 = TOP_BITS 4 then Some (ucast (c AND BOTTOM_BITS 3), 3, 0x10000)
                  else None) of
              None \<Rightarrow> (None, cbs)
            | Some (v, len, lower_bound) \<Rightarrow>
                (case utf8_tail len v cbs of
                   (None, cbs) \<Rightarrow> (None, cbs)
                 | (Some v, cbs) \<Rightarrow>
                     if \<not> is_valid_code_point v \<or> v < lower_bound then (None, cbs)
                     else (Some v, cbs)))"

definition cbs_get_latin1 :: "CBS \<Rightarrow> u32 option \<times> CBS" where
  "cbs_get_latin1 cbs =
     (case CBS_get_u8 cbs of
        (None, cbs) \<Rightarrow> (None, cbs)
      | (Some c, cbs) \<Rightarrow> (Some (ucast c), cbs))"

definition cbs_get_ucs2_be :: "CBS \<Rightarrow> u32 option \<times> CBS" where
  "cbs_get_ucs2_be cbs =
     (case CBS_get_u16 cbs of
        (None, cbs) \<Rightarrow> (None, cbs)
      | (Some c, cbs) \<Rightarrow>
          if \<not> is_valid_code_point (ucast c) then (None, cbs) else (Some (ucast c), cbs))"

definition cbs_get_utf32_be :: "CBS \<Rightarrow> u32 option \<times> CBS" where
  "cbs_get_utf32_be cbs =
     (case CBS_get_u32 cbs of
        (None, cbs) \<Rightarrow> (None, cbs)
      | (Some c, cbs) \<Rightarrow> (if is_valid_code_point c then Some c else None, cbs))"

definition cbb_get_utf8_len :: "u32 \<Rightarrow> nat" where
  "cbb_get_utf8_len u = (if u \<le> 0x7f then 1 else if u \<le> 0x7ff then 2 else if u \<le> 0xffff then 3 else 4)"

text \<open>The chains of \<open>&&\<close> stop at the first failing write.\<close>

definition cbb_add_utf8 :: "allocator \<Rightarrow> u32 \<Rightarrow> nat \<Rightarrow> CBB \<Rightarrow> bool \<times> CBB" where
  "cbb_add_utf8 m u d cbb =
     (if \<not> is_valid_code_point u then (False, cbb)
      else if u \<le> 0x7f then CBB_add_u8 m (ucast u) d cbb
      else if u \<le> 0x7ff then
        put_all (\<lambda>b. CBB_add_u8 m b d)
          [TOP_BITS 2 OR ucast (drop_bit 6 u),
           TOP_BITS 1 OR (ucast u AND BOTTOM_BITS 6)] cbb
      else if u \<le> 0xffff then
        put_all (\<lambda>b. CBB_add_u8 m b d)
          [TOP_BITS 3 OR ucast (drop_bit 12 u),
           TOP_BITS 1 OR (ucast (drop_bit 6 u) AND BOTTOM_BITS 6),
           TOP_BITS 1 OR (ucast u AND BOTTOM_BITS 6)] cbb
      else if u \<le> 0x10ffff then
        put_all (\<lambda>b. CBB_add_u8 m b d)
          [TOP_BITS 4 OR ucast (drop_bit 18 u),
           TOP_BITS 1 OR (ucast (drop_bit 12 u) AND BOTTOM_BITS 6),
           TOP_BITS 1 OR (ucast (drop_bit 6 u) AND BOTTOM_BITS 6),
           TOP_BITS 1 OR (ucast u AND BOTTOM_BITS 6)] cbb
      else (False, cbb))"

definition cbb_add_latin1 :: "allocator \<Rightarrow> u32 \<Rightarrow> nat \<Rightarrow> CBB \<Rightarrow> bool \<times> CBB" where
  "cbb_add_latin1 m u d cbb = (if u \<le> 0xff then CBB_add_u8 m (ucast u) d cbb else (False, cbb))"

definition cbb_add_ucs2_be :: "allocator \<Rightarrow> u32 \<Rightarrow> nat \<Rightarrow> CBB \<Rightarrow> bool \<times> CBB" where
  "cbb_add_ucs2_be m u d cbb =
     (if u \<le> 0xffff \<and> is_valid_code_point u then CBB_add_u16 m (ucast u) d cbb else (False, cbb))"

definition cbb_add_utf32_be :: "allocator \<Rightarrow> u32 \<Rightarrow> nat \<Rightarrow> CBB \<Rightarrow> bool \<times> CBB" where
  "cbb_add_utf32_be m u d cbb =
     (if is_valid_code_point u then CBB_add_u32 m u d cbb else (False, cbb))"

section \<open>Bytes as numbers\<close>

lemma TOP_BITS_eval: "TOP_BITS 1 = 0x80" "TOP_BITS 2 = 0xc0" "TOP_BITS 3 = 0xe0" "TOP_BITS 4 = 0xf0"
  "TOP_BITS 5 = 0xf8" "BOTTOM_BITS 6 = 0x3f" "BOTTOM_BITS 5 = 0x1f" "BOTTOM_BITS 4 = 0xf" "BOTTOM_BITS 3 = 7"
  by (simp_all add: TOP_BITS_def BOTTOM_BITS_def)

lemma unat_and_low: "unat (c AND mask k :: u8) = unat c mod 2 ^ k"
  unfolding take_bit_eq_mask [symmetric] unsigned_take_bit_eq by (rule take_bit_eq_mod)

lemma unat_and_high: "unat (c AND NOT (mask k) :: u8) = unat c div 2 ^ k * 2 ^ k"
proof -
  have "(c AND NOT (mask k)) AND (c AND mask k) = 0"
    by (rule bit_word_eqI) (auto simp: bit_simps)
  then have "(c AND NOT (mask k)) + (c AND mask k) = (c AND NOT (mask k)) OR (c AND mask k)"
    by (simp only: disjunctive_add_eq_or)
  also have "\<dots> = c" by (rule bit_word_eqI) (auto simp: bit_simps)
  finally have "c AND NOT (mask k) = c - (c AND mask k)" by (simp add: algebra_simps)
  moreover have "c AND mask k \<le> c" by (rule word_and_le2)
  ultimately have "unat (c AND NOT (mask k)) = unat c - unat c mod 2 ^ k"
    using unat_and_low [of c k] by (simp only: unat_sub)
  then show ?thesis by (simp only: minus_mod_eq_div_mult)
qed

lemma byte_tests:
  fixes c :: u8
  shows "c AND 0xc0 = 0x80 \<longleftrightarrow> unat c div 64 = 2" "c AND 0xe0 = 0xc0 \<longleftrightarrow> unat c div 32 = 6"
    "c AND 0xf0 = 0xe0 \<longleftrightarrow> unat c div 16 = 14" "c AND 0xf8 = 0xf0 \<longleftrightarrow> unat c div 8 = 30"
    "unat (c AND 0x3f) = unat c mod 64" "unat (c AND 0x1f) = unat c mod 32"
    "unat (c AND 0xf) = unat c mod 16" "unat (c AND 7) = unat c mod 8"
proof -
  have m: "NOT (mask 6 :: u8) = 0xc0" "NOT (mask 5 :: u8) = 0xe0" "NOT (mask 4 :: u8) = 0xf0"
    "NOT (mask 3 :: u8) = 0xf8"
    by (simp_all add: mask_eq_exp_minus_1)
  have h: "unat (c AND 0xc0) = unat c div 64 * 64" "unat (c AND 0xe0) = unat c div 32 * 32"
    "unat (c AND 0xf0) = unat c div 16 * 16" "unat (c AND 0xf8) = unat c div 8 * 8"
    unfolding m [symmetric] unat_and_high by simp_all
  then show "c AND 0xc0 = 0x80 \<longleftrightarrow> unat c div 64 = 2" "c AND 0xe0 = 0xc0 \<longleftrightarrow> unat c div 32 = 6"
    "c AND 0xf0 = 0xe0 \<longleftrightarrow> unat c div 16 = 14" "c AND 0xf8 = 0xf0 \<longleftrightarrow> unat c div 8 = 30"
    unfolding word_unat_eq_iff [of "c AND x" for x] h by simp_all
  have l: "mask 6 = (0x3f :: u8)" "mask 5 = (0x1f :: u8)" "mask 4 = (0xf :: u8)" "mask 3 = (7 :: u8)"
    by (simp_all add: mask_eq_exp_minus_1)
  show "unat (c AND 0x3f) = unat c mod 64" "unat (c AND 0x1f) = unat c mod 32"
    "unat (c AND 0xf) = unat c mod 16" "unat (c AND 7) = unat c mod 8"
    unfolding l [symmetric] unat_and_low by simp_all
qed

section \<open>UTF-8\<close>

definition utf8 :: "nat \<Rightarrow> u8 list" where
  "utf8 u =
     map word_of_nat
       (if u < 0x80 then [u]
        else if u < 0x800 then [192 + u div 64, 128 + u mod 64]
        else if u < 0x10000 then [224 + u div 4096, 128 + u div 64 mod 64, 128 + u mod 64]
        else [240 + u div 262144, 128 + u div 4096 mod 64, 128 + u div 64 mod 64, 128 + u mod 64])"

lemma or_disjoint:
  assumes "h AND mask k = 0" and "unat x < 2 ^ k"
  shows "h OR x = h + (x :: u8)"
proof -
  have "x AND mask k = x"
    using assms(2) by (simp add: word_unat_eq_iff unat_and_low)
  then have "h AND x = h AND mask k AND x" by (simp add: and.assoc and.commute and.left_commute)
  also have "\<dots> = 0" using assms(1) by (simp flip: and.assoc)
  finally show ?thesis by (simp only: disjunctive_add_eq_or)
qed

lemma u8_of_word: "(ucast (w :: u32) :: u8) = word_of_nat (unat w)"
  by simp

lemma cont_byte: "0x80 OR (ucast (w :: u32) AND 0x3f) = (word_of_nat (128 + unat w mod 64) :: u8)"
proof -
  let ?x = "ucast w AND 0x3f :: u8"
  have x: "unat ?x = unat w mod 64"
    by (simp add: byte_tests unsigned_ucast_eq take_bit_eq_mod mod_mod_cancel)
  have "(0x80 :: u8) OR ?x = 0x80 + ?x"
    by (rule or_disjoint [of _ 6]) (simp_all add: x mask_eq_exp_minus_1)
  moreover have "?x = word_of_nat (unat w mod 64)" by (metis x of_nat_unat ucast_id)
  ultimately show ?thesis by simp
qed

lemma lead_byte:
  assumes "h AND mask k = (0 :: u8)" and "unat (w :: u32) < 2 ^ k" and "k \<le> 8"
  shows "h OR ucast w = h + word_of_nat (unat w)"
proof -
  have "(2 :: nat) ^ k \<le> 2 ^ 8" using assms(3) by (intro power_increasing) auto
  then have "unat (ucast w :: u8) = unat w"
    using assms(2) by (simp add: unsigned_ucast_eq take_bit_nat_eq_self)
  with or_disjoint [OF assms(1), of "ucast w"] assms(2) show ?thesis by simp
qed

lemma cbb_add_utf8_eq:
  assumes v: "is_valid_code_point u"
  shows "cbb_add_utf8 m u d cbb = put_all (\<lambda>b. CBB_add_u8 m b d) (utf8 (unat u)) cbb"
proof -
  have le: "unat u \<le> 0x10ffff" using v by (simp add: is_valid_code_point_def word_less_nat_alt not_less)
  have m: "(0xc0 :: u8) AND mask 5 = 0" "(0xe0 :: u8) AND mask 4 = 0" "(0xf0 :: u8) AND mask 3 = 0"
    by (simp_all add: mask_eq_exp_minus_1)
  have single: "CBB_add_u8 m b d cbb = put_all (\<lambda>b. CBB_add_u8 m b d) [b] cbb" for b
    by (auto split: prod.splits bool.splits)
  have l2: "unat u < 0x800 \<Longrightarrow> (0xc0 :: u8) OR ucast (drop_bit 6 u) = word_of_nat (192 + unat u div 64)"
    using lead_byte [OF m(1), of "drop_bit 6 u"] by (simp add: unat_drop_u32 div_less_iff_less_mult)
  have l3: "unat u < 0x10000 \<Longrightarrow> (0xe0 :: u8) OR ucast (drop_bit 12 u) = word_of_nat (224 + unat u div 4096)"
    using lead_byte [OF m(2), of "drop_bit 12 u"] by (simp add: unat_drop_u32 div_less_iff_less_mult)
  have l4: "(0xf0 :: u8) OR ucast (drop_bit 18 u) = word_of_nat (240 + unat u div 262144)"
    using lead_byte [OF m(3), of "drop_bit 18 u"] le by (simp add: unat_drop_u32 div_less_iff_less_mult)
  show ?thesis
    unfolding cbb_add_utf8_def TOP_BITS_eval cont_byte single utf8_def unat_drop_u32
    using v le l2 l3 l4 by (simp add: word_le_nat_alt less_Suc_eq_le [symmetric] del: put_all.simps)
qed

lemma tail_step:
  "utf8_tail (Suc len) (word_of_nat n) (view (c # bs) after) =
     (if unat c div 64 \<noteq> 2 then (None, view bs after)
      else utf8_tail len (word_of_nat (n * 64 + unat c mod 64)) (view bs after))"
proof -
  let ?x = "ucast (c AND 0x3f) :: u32"
  have x: "?x = word_of_nat (unat c mod 64)"
    by (metis byte_tests(5) of_nat_unat)
  have "push_bit 6 (word_of_nat n) AND ?x = 0"
  proof (rule bit_word_eqI)
    fix i
    have "c AND 0x3f = take_bit 6 c" by (simp add: take_bit_eq_mask mask_eq_exp_minus_1)
    then show "bit (push_bit 6 (word_of_nat n) AND ?x) i = bit (0 :: u32) i"
      by (simp only:) (auto simp: bit_simps)
  qed
  then have "push_bit 6 (word_of_nat n) OR ?x = push_bit 6 (word_of_nat n) + ?x"
    by (simp only: disjunctive_add_eq_or)
  also have "\<dots> = word_of_nat (n * 64 + unat c mod 64)"
    unfolding x by (simp add: push_bit_eq_mult)
  finally show ?thesis
    by (simp add: view_simps TOP_BITS_eval byte_tests del: One_nat_def)
qed

lemma byte_parts:
  "q < 32 \<Longrightarrow> (192 + q) div 32 = (6 :: nat)" "q < 32 \<Longrightarrow> (192 + q) mod 32 = (q :: nat)"
  "q < 16 \<Longrightarrow> (224 + q) div 32 = (7 :: nat)"
  "q < 16 \<Longrightarrow> (224 + q) div 16 = (14 :: nat)" "q < 16 \<Longrightarrow> (224 + q) mod 16 = (q :: nat)"
  "q < 8 \<Longrightarrow> (240 + q) div 32 = (7 :: nat)" "q < 8 \<Longrightarrow> (240 + q) div 16 = (15 :: nat)"
  "q < 8 \<Longrightarrow> (240 + q) div 8 = (30 :: nat)" "q < 8 \<Longrightarrow> (240 + q) mod 8 = (q :: nat)"
  "q < 64 \<Longrightarrow> (128 + q) div 64 = (2 :: nat)" "q < 64 \<Longrightarrow> (128 + q) mod 64 = (q :: nat)"
  by (simp_all add: div_nat_eqI mod_nat_eqI)

lemma join_parts: "q < 64 \<Longrightarrow> (x * 64 + q) mod 64 = (q :: nat)" "q < 64 \<Longrightarrow> (x * 64 + q) div 64 = (x :: nat)"
  by simp_all

lemma join_64: "n div 64 * 64 + n mod 64 = (n :: nat)"
  by simp

lemma join_4096: "n div 4096 * 64 + n div 64 mod 64 = n div (64 :: nat)"
  using join_64 [of "n div 64"] by (simp add: div_mult2_eq [symmetric])

lemma join_262144: "n div 262144 * 64 + n div 4096 mod 64 = n div (4096 :: nat)"
  using join_64 [of "n div 4096"] by (simp add: div_mult2_eq [symmetric])

lemma valid_bound: "is_valid_code_point u \<Longrightarrow> unat u < 0x110000"
  by (simp add: is_valid_code_point_def word_less_nat_alt not_less)

text \<open>What the reader does with the first byte.\<close>

lemma get_utf8_Cons:
  "cbs_get_utf8 (view (c # bs) after) =
     (if unat c < 128 then (Some (word_of_nat (unat c)), view bs after)
      else
        case (if unat c div 32 = 6 then Some (unat c mod 32, 1, 0x80)
              else if unat c div 16 = 14 then Some (unat c mod 16, 2, 0x800)
              else if unat c div 8 = 30 then Some (unat c mod 8, 3, 0x10000)
              else None) of
          None \<Rightarrow> (None, view bs after)
        | Some (n, len, lower_bound) \<Rightarrow>
            (case utf8_tail len (word_of_nat n) (view bs after) of
               (None, cbs) \<Rightarrow> (None, cbs)
             | (Some v, cbs) \<Rightarrow>
                 if \<not> is_valid_code_point v \<or> v < lower_bound then (None, cbs)
                 else (Some v, cbs)))"
proof -
  have n: "ucast (c AND 0x1f) = (word_of_nat (unat c mod 32) :: u32)"
    "ucast (c AND 0xf) = (word_of_nat (unat c mod 16) :: u32)"
    "ucast (c AND 7) = (word_of_nat (unat c mod 8) :: u32)" "ucast c = (word_of_nat (unat c) :: u32)"
    by (metis byte_tests(6) of_nat_unat, metis byte_tests(7) of_nat_unat, metis byte_tests(8) of_nat_unat, simp)
  have le: "c \<le> 0x7f \<longleftrightarrow> unat c < 128" by (auto simp: word_le_nat_alt)
  show ?thesis
    unfolding cbs_get_utf8_def CBS_get_u8_Cons TOP_BITS_eval byte_tests(1-4) n le prod.case option.case
    by (simp add: if_distrib [where f = "case_option _ _"] cong: if_cong)
qed

text \<open>The same for the bytes of a longer form, given by its groups of bits.\<close>

lemma unat_lead: "q < 128 \<Longrightarrow> unat (word_of_nat (128 + q) :: u8) = 128 + q"
  by (rule unat_u8_of_nat) simp

lemma tail_byte:
  "q < 64 \<Longrightarrow> utf8_tail (Suc len) (word_of_nat n) (view (word_of_nat (128 + q) # bs) after) =
     utf8_tail len (word_of_nat (n * 64 + q)) (view bs after)"
  using unat_lead [of q] by (simp only: tail_step byte_parts) simp

definition utf8_finish :: "u32 \<Rightarrow> u32 option \<times> CBS \<Rightarrow> u32 option \<times> CBS" where
  "utf8_finish lower_bound r =
     (case r of
        (None, cbs) \<Rightarrow> (None, cbs)
      | (Some v, cbs) \<Rightarrow>
          if \<not> is_valid_code_point v \<or> v < lower_bound then (None, cbs) else (Some v, cbs))"

lemma get_utf8_2:
  "q < 32 \<Longrightarrow> cbs_get_utf8 (view (word_of_nat (192 + q) # bs) after) =
     utf8_finish 0x80 (utf8_tail 1 (word_of_nat q) (view bs after))"
  using unat_lead [of "64 + q"] by (simp add: get_utf8_Cons byte_parts utf8_finish_def)

lemma get_utf8_3:
  "q < 16 \<Longrightarrow> cbs_get_utf8 (view (word_of_nat (224 + q) # bs) after) =
     utf8_finish 0x800 (utf8_tail 2 (word_of_nat q) (view bs after))"
  using unat_lead [of "96 + q"] by (simp add: get_utf8_Cons byte_parts utf8_finish_def)

lemma get_utf8_4:
  "q < 8 \<Longrightarrow> cbs_get_utf8 (view (word_of_nat (240 + q) # bs) after) =
     utf8_finish 0x10000 (utf8_tail 3 (word_of_nat q) (view bs after))"
  using unat_lead [of "112 + q"] by (simp add: get_utf8_Cons byte_parts utf8_finish_def)

lemma get_utf8:
  assumes v: "is_valid_code_point u"
  shows "cbs_get_utf8 (view (utf8 (unat u) @ rest) after) = (Some u, view rest after)"
proof -
  let ?n = "unat u"
  have n: "?n < 0x110000" using valid_bound [OF v] .
  have lt: "u < k \<longleftrightarrow> ?n < unat k" for k by (rule word_less_nat_alt)
  have m: "?n mod 64 < 64" "?n div 64 mod 64 < 64" "?n div 4096 mod 64 < 64" by simp_all
  consider "?n < 0x80" | "0x80 \<le> ?n" "?n < 0x800" | "0x800 \<le> ?n" "?n < 0x10000" | "0x10000 \<le> ?n"
    by linarith
  then show ?thesis
  proof cases
    case 1
    then have "unat (word_of_nat ?n :: u8) = ?n" by (intro unat_u8_of_nat) simp
    with 1 show ?thesis by (simp add: utf8_def get_utf8_Cons)
  next
    case 2
    have s: "utf8 ?n = [word_of_nat (192 + ?n div 64), word_of_nat (128 + ?n mod 64)]"
      using 2 by (simp add: utf8_def)
    have q: "?n div 64 < 32" using 2 by (simp add: div_less_iff_less_mult)
    show ?thesis
      unfolding s append_Cons append_Nil get_utf8_2 [OF q] One_nat_def tail_byte [OF m(1)]
        join_64 utf8_tail.simps(1)
      using 2 v by (simp add: utf8_finish_def lt)
  next
    case 3
    have s: "utf8 ?n = [word_of_nat (224 + ?n div 4096), word_of_nat (128 + ?n div 64 mod 64),
        word_of_nat (128 + ?n mod 64)]"
      using 3 by (simp add: utf8_def)
    have q: "?n div 4096 < 16" using 3 by (simp add: div_less_iff_less_mult)
    show ?thesis
      unfolding s append_Cons append_Nil get_utf8_3 [OF q] numeral_2_eq_2 tail_byte [OF m(2)]
        tail_byte [OF m(1)] join_4096 join_64 utf8_tail.simps(1)
      using 3 v by (simp add: utf8_finish_def lt)
  next
    case 4
    have s: "utf8 ?n = [word_of_nat (240 + ?n div 262144), word_of_nat (128 + ?n div 4096 mod 64),
        word_of_nat (128 + ?n div 64 mod 64), word_of_nat (128 + ?n mod 64)]"
      using 4 by (simp add: utf8_def)
    have q: "?n div 262144 < 8" using n by (simp add: div_less_iff_less_mult)
    show ?thesis
      unfolding s append_Cons append_Nil get_utf8_4 [OF q] numeral_3_eq_3 tail_byte [OF m(3)]
        tail_byte [OF m(2)] tail_byte [OF m(1)] join_262144 join_4096 join_64 utf8_tail.simps(1)
      using 4 v by (simp add: utf8_finish_def lt)
  qed
qed

text \<open>Only the shortest form of a valid code point is accepted.\<close>

lemma byte_of_parts: "unat (c :: u8) div k = h \<Longrightarrow> c = word_of_nat (h * k + unat c mod k)"
  by (metis div_mult_mod_eq of_nat_unat ucast_id)

lemma tail_inv:
  assumes "utf8_tail (Suc len) (word_of_nat n) (view bs after) = (Some v, cbs')"
  shows "\<exists>q bs'. q < 64 \<and> bs = word_of_nat (128 + q) # bs' \<and>
    utf8_tail len (word_of_nat (n * 64 + q)) (view bs' after) = (Some v, cbs')"
proof (cases bs)
  case Nil
  with assms show ?thesis by (simp add: view_simps)
next
  case (Cons c bs')
  with assms have "unat c div 64 = 2"
    and r: "utf8_tail len (word_of_nat (n * 64 + unat c mod 64)) (view bs' after) = (Some v, cbs')"
    by (auto simp only: tail_step split: if_splits)
  from byte_of_parts [OF this(1)] have "c = word_of_nat (128 + unat c mod 64)" by simp
  with r Cons show ?thesis by (intro exI [of _ "unat c mod 64"] exI [of _ bs']) simp
qed

lemma finish_Some:
  assumes "utf8_finish b r = (Some v, cbs')"
  shows "r = (Some v, cbs') \<and> is_valid_code_point v \<and> \<not> v < b"
  using assms by (auto simp: utf8_finish_def split: option.splits prod.splits if_splits)

lemma bound_3: "a < 16 \<Longrightarrow> p < 64 \<Longrightarrow> q < 64 \<Longrightarrow> (a * 64 + p) * 64 + q < (0x10000 :: nat)"
  by simp

lemma bound_4: "a < 8 \<Longrightarrow> o' < 64 \<Longrightarrow> p < 64 \<Longrightarrow> q < 64 \<Longrightarrow> ((a * 64 + o') * 64 + p) * 64 + q < (0x200000 :: nat)"
  by simp

lemma div_4096: "n div 4096 = n div 64 div (64 :: nat)"
  and div_262144: "n div 262144 = n div 4096 div (64 :: nat)"
  by (simp_all add: div_mult2_eq [symmetric])

lemma get_utf8_valid:
  assumes r: "cbs_get_utf8 cbs = (Some v, cbs')"
  shows "is_valid_code_point v"
proof -
  have ascii: "is_valid_code_point (ucast c)" if "c \<le> 0x7f" for c :: u8
  proof -
    have small: "unat (ucast c :: u32) < 128"
      using that by (simp add: unat_ucast_up word_le_nat_alt)
    have "(ucast c :: u32) AND 0xfffe \<le> ucast c" by (rule word_and_le2)
    with small have "(ucast c :: u32) AND 0xfffe \<noteq> 0xfffe" by (auto simp: word_less_nat_alt word_le_nat_alt)
    with small show ?thesis
      by (simp add: is_valid_code_point_def word_less_nat_alt word_le_nat_alt)
  qed
  with r show ?thesis
    by (auto simp: cbs_get_utf8_def Let_def split: prod.splits option.splits if_splits)
qed

lemma get_utf8_inv:
  assumes r: "cbs_get_utf8 (view bs after) = (Some v, cbs')"
  shows "\<exists>rest. bs = utf8 (unat v) @ rest \<and> cbs' = view rest after"
proof (cases bs)
  case Nil
  with r show ?thesis by (simp add: cbs_get_utf8_def view_simps)
next
  case (Cons c bs1)
  consider "unat c < 128" | "unat c div 32 = 6" | "unat c div 16 = 14" | "unat c div 8 = 30"
    using r Cons by (auto simp: get_utf8_Cons split: if_splits)
  then show ?thesis
  proof cases
    case 1
    with r Cons have v: "v = word_of_nat (unat c)" "cbs' = view bs1 after"
      by (simp_all add: get_utf8_Cons)
    have "unat v = unat c" unfolding v by (rule unat_of_nat32) (use 1 in simp)
    with 1 v Cons show ?thesis by (simp add: utf8_def)
  next
    case 2
    let ?a = "unat c mod 32"
    have c: "c = word_of_nat (192 + ?a)" using byte_of_parts [OF 2] by simp
    have a: "?a < 32" by simp
    from r have "cbs_get_utf8 (view (word_of_nat (192 + ?a) # bs1) after) = (Some v, cbs')"
      using Cons c by simp
    from finish_Some [OF this [unfolded get_utf8_2 [OF a]]]
    have t: "utf8_tail (Suc 0) (word_of_nat ?a) (view bs1 after) = (Some v, cbs')" and lo: "\<not> v < 0x80" by simp_all
    from tail_inv [OF t] obtain q bs2 where q: "q < 64" "bs1 = word_of_nat (128 + q) # bs2"
      "v = word_of_nat (?a * 64 + q)" "cbs' = view bs2 after" by auto
    have "?a * 64 + q < 0x800" using a q(1) by linarith
    then have uv: "unat v = ?a * 64 + q" unfolding q(3) by (intro unat_of_nat32) simp
    have "unat v div 64 = ?a" "unat v mod 64 = q" by (simp_all only: uv join_parts [OF q(1)])
    moreover have "0x80 \<le> unat v" "unat v < 0x800"
      using lo \<open>?a * 64 + q < 0x800\<close> uv by (simp_all add: word_less_nat_alt)
    ultimately have "utf8 (unat v) = [word_of_nat (192 + ?a), word_of_nat (128 + q)]"
      by (simp add: utf8_def)
    then show ?thesis
      using Cons c q by (intro exI [of _ bs2]) (simp del: of_nat_add)
  next
    case 3
    let ?a = "unat c mod 16"
    have c: "c = word_of_nat (224 + ?a)" using byte_of_parts [OF 3] by simp
    have a: "?a < 16" by simp
    from r have "cbs_get_utf8 (view (word_of_nat (224 + ?a) # bs1) after) = (Some v, cbs')"
      using Cons c by simp
    from finish_Some [OF this [unfolded get_utf8_3 [OF a]]]
    have t: "utf8_tail (Suc (Suc 0)) (word_of_nat ?a) (view bs1 after) = (Some v, cbs')"
      and lo: "\<not> v < 0x800" by (simp_all add: numeral_2_eq_2)
    from tail_inv [OF t] obtain p bs2 where p: "p < 64" "bs1 = word_of_nat (128 + p) # bs2"
      and t2: "utf8_tail (Suc 0) (word_of_nat (?a * 64 + p)) (view bs2 after) = (Some v, cbs')" by auto
    from tail_inv [OF t2] obtain q bs3 where q: "q < 64" "bs2 = word_of_nat (128 + q) # bs3"
      "v = word_of_nat ((?a * 64 + p) * 64 + q)" "cbs' = view bs3 after" by auto
    have up: "(?a * 64 + p) * 64 + q < 0x10000" using a p(1) q(1) by (rule bound_3)
    then have uv: "unat v = (?a * 64 + p) * 64 + q" unfolding q(3) by (intro unat_of_nat32) simp
    have parts: "unat v mod 64 = q" "unat v div 64 = ?a * 64 + p" by (simp_all only: uv join_parts [OF q(1)])
    have "unat v div 4096 = ?a" "unat v div 64 mod 64 = p"
      by (simp_all only: div_4096 parts(2) join_parts [OF p(1)])
    moreover have "0x800 \<le> unat v" "unat v < 0x10000"
      using lo up uv by (simp_all add: word_less_nat_alt)
    ultimately have "utf8 (unat v) = [word_of_nat (224 + ?a), word_of_nat (128 + p), word_of_nat (128 + q)]"
      using parts(1) by (simp add: utf8_def)
    then show ?thesis
      using Cons c p q by (intro exI [of _ bs3]) (simp del: of_nat_add)
  next
    case 4
    let ?a = "unat c mod 8"
    have c: "c = word_of_nat (240 + ?a)" using byte_of_parts [OF 4] by simp
    have a: "?a < 8" by simp
    from r have "cbs_get_utf8 (view (word_of_nat (240 + ?a) # bs1) after) = (Some v, cbs')"
      using Cons c by simp
    from finish_Some [OF this [unfolded get_utf8_4 [OF a]]]
    have t: "utf8_tail (Suc (Suc (Suc 0))) (word_of_nat ?a) (view bs1 after) = (Some v, cbs')"
      and lo: "\<not> v < 0x10000" by (simp_all add: numeral_3_eq_3)
    from tail_inv [OF t] obtain o' bs2 where o': "o' < 64" "bs1 = word_of_nat (128 + o') # bs2"
      and t2: "utf8_tail (Suc (Suc 0)) (word_of_nat (?a * 64 + o')) (view bs2 after) = (Some v, cbs')" by auto
    from tail_inv [OF t2] obtain p bs3 where p: "p < 64" "bs2 = word_of_nat (128 + p) # bs3"
      and t3: "utf8_tail (Suc 0) (word_of_nat ((?a * 64 + o') * 64 + p)) (view bs3 after) = (Some v, cbs')" by auto
    from tail_inv [OF t3] obtain q bs4 where q: "q < 64" "bs3 = word_of_nat (128 + q) # bs4"
      "v = word_of_nat (((?a * 64 + o') * 64 + p) * 64 + q)" "cbs' = view bs4 after" by auto
    have up: "((?a * 64 + o') * 64 + p) * 64 + q < 0x200000" using a o'(1) p(1) q(1) by (rule bound_4)
    then have uv: "unat v = ((?a * 64 + o') * 64 + p) * 64 + q" unfolding q(3) by (intro unat_of_nat32) simp
    have parts: "unat v mod 64 = q" "unat v div 64 = (?a * 64 + o') * 64 + p" by (simp_all only: uv join_parts [OF q(1)])
    have parts2: "unat v div 4096 = ?a * 64 + o'" "unat v div 64 mod 64 = p"
      by (simp_all only: div_4096 parts(2) join_parts [OF p(1)])
    have "unat v div 262144 = ?a" "unat v div 4096 mod 64 = o'"
      by (simp_all only: div_262144 parts2(1) join_parts [OF o'(1)])
    moreover have "0x10000 \<le> unat v" using lo by (simp add: word_less_nat_alt)
    ultimately have "utf8 (unat v) = [word_of_nat (240 + ?a), word_of_nat (128 + o'), word_of_nat (128 + p),
        word_of_nat (128 + q)]"
      using parts(1) parts2(2) by (simp add: utf8_def)
    then show ?thesis
      using Cons c o' p q by (intro exI [of _ bs4]) (simp del: of_nat_add)
  qed
qed

section \<open>What the writers append\<close>

lemma cbb_add_utf8_holds:
  assumes h: "cbb_holds m d a cbb w" and r: "cbb_add_utf8 m u d cbb = (True, cbb')"
  shows "is_valid_code_point u \<and> cbb_holds m d a cbb' (w @ utf8 (unat u))"
proof -
  have v: "is_valid_code_point u" using r by (auto simp: cbb_add_utf8_def split: if_splits)
  with cbb_u8.put_all_holds [of "utf8 (unat u)" m d a cbb w cbb'] h r show ?thesis
    by (simp add: cbb_add_utf8_eq)
qed

interpretation cbb_utf8: sink "\<lambda>u. cbb_add_utf8 m u d" "\<lambda>u. utf8 (unat u)" "\<lambda>u. True" "cbb_holds m d a" for m d a
  using cbb_add_utf8_holds by unfold_locales blast

lemma length_utf8: "is_valid_code_point u \<Longrightarrow> length (utf8 (unat u)) = cbb_get_utf8_len u"
  by (auto simp: utf8_def cbb_get_utf8_len_def word_le_nat_alt)

end
