(* ===== verification/Bytestring_Props.thy ===== *)
theory Bytestring_Props
  imports Ber_Values Unicode
begin

text \<open>
  The properties of the byte-string library (\<open>crypto/bytestring\<close>): what its parsers
  accept, and that what its builder writes is read back.
\<close>

section \<open>Parsing\<close>

text \<open>C1: \<open>CBS_get_any_asn1_element\<close> accepts exactly the DER elements. On any input it
  succeeds if and only if the input starts with the tag, the minimal length and the
  contents of an element with fewer than 2^32 content octets; then it returns that
  element with its tag and header length, and moves the cursor past it.\<close>

theorem parse_element_exact:
  "CBS_get_any_asn1_element (view bs after) = (Some (out, t, h), cbs') \<longleftrightarrow>
     (\<exists>body rest. length body < 2 ^ 32 \<and> bs = der_element t body @ rest \<and>
        out = view (der_element t body) (rest @ after) \<and>
        h = length (der_header t (length body)) \<and> cbs' = view rest after)"
  unfolding CBS_get_any_asn1_element_def
  using get_any_asn1_inv [of False bs after out t h cbs'] get_any_asn1_der [where ber_ok = False]
  by auto

text \<open>C2: \<open>CBS_get_asn1_uint64\<close> accepts exactly the DER INTEGERs between 0 and 2^64 - 1 in
  their minimal two's complement form, and returns their value: it rejects negative,
  non-minimal and overlong contents.\<close>

theorem parse_uint64_exact:
  "CBS_get_asn1_uint64 (view bs after) = (Some v, cbs') \<longleftrightarrow>
     (\<exists>rest. bs = der_element CBS_ASN1_INTEGER (der_uint (unat v)) @ rest \<and> cbs' = view rest after)"
  using get_asn1_uint64_inv [of bs after v cbs'] get_asn1_uint64_der [of "unat v", simplified]
    unsigned_less [of v] by auto

text \<open>C26: \<open>cbs_get_utf8\<close> accepts exactly the shortest UTF-8 encodings of the valid code
  points: no overlong form, no surrogate, no noncharacter, nothing above 0x10ffff.\<close>

theorem parse_utf8_exact:
  "cbs_get_utf8 (view bs after) = (Some u, cbs') \<longleftrightarrow>
     is_valid_code_point u \<and> (\<exists>rest. bs = utf8 (unat u) @ rest \<and> cbs' = view rest after)"
  using get_utf8_inv [of bs after u cbs'] get_utf8 [of u] get_utf8_valid [of "view bs after" u cbs'] by blast

section \<open>Building and parsing back\<close>

text \<open>An allocator that satisfies the assumptions on \<open>malloc\<close>.\<close>

definition zero_malloc :: allocator where
  "zero_malloc n = (if n < 2 ^ 63 then Some (replicate n 0) else None)"

lemma zero_malloc [simp]: "generous zero_malloc" "malloc_ok zero_malloc"
  by (auto simp: generous_def malloc_ok_def zero_malloc_def split: if_splits)

lemma CBS_init_split: "len \<le> length x \<Longrightarrow> CBS_init x len = view (take len x) (drop len x)"
  using CBS_init_view [of "take len x" "drop len x"] by simp

text \<open>One value in a new builder: what \<open>CBB_finish\<close> hands out is the bytes of the value.\<close>

lemma build_one:
  assumes g: "generous m" and cap: "cap \<le> 2 ^ 61" and n: "length x \<le> n" "n \<le> 2 ^ 60"
    and f: "\<And>c. ready m n c ([], []) \<Longrightarrow> \<exists>c'. f c = (True, c') \<and> ready m n c' (x, [])"
  shows "\<exists>c0 c1 c2 data len. CBB_init m cap = (True, c0) \<and> f c0 = (True, c1) \<and>
    CBB_finish m True True 0 c1 = (Some (data, len), c2) \<and> CBS_init data len = view x (drop len data)"
proof -
  from init_ready [OF g cap n(2)] obtain c0 where c0: "CBB_init m cap = (True, c0)" "ready m n c0 ([], [])" by blast
  from f [OF c0(2)] obtain c1 where c1: "f c0 = (True, c1)" "ready m n c1 (x, [])" by blast
  from finish_ready [OF c1(2)] n(1) obtain data len c2 where
    fin: "CBB_finish m True True 0 c1 = (Some (data, len), c2)" and t: "take len data = x" "len = length x" by auto
  then have "len \<le> length data" by (metis length_take min.cobounded1 min_def nat_le_linear)
  with c0(1) c1(1) fin t CBS_init_split [of len data] show ?thesis by auto
qed

text \<open>C4: any unsigned 64-bit value written with \<open>CBB_add_asn1_uint64\<close> into a new builder
  is read back by \<open>CBS_get_asn1_uint64\<close> from what \<open>CBB_finish\<close> returns, and nothing is
  left over; no step fails while the allocator serves requests.\<close>

theorem uint64_roundtrip:
  assumes "generous m" and "cap \<le> 2 ^ 61"
  shows "\<exists>c0 c1 c2 data len. CBB_init m cap = (True, c0) \<and> CBB_add_asn1_uint64 m v 0 c0 = (True, c1) \<and>
    CBB_finish m True True 0 c1 = (Some (data, len), c2) \<and>
    CBS_get_asn1_uint64 (CBS_init data len) = (Some v, view [] (drop len data))"
proof -
  let ?x = "der_element CBS_ASN1_INTEGER (der_uint (unat v))"
  have "length ?x \<le> 20"
    using length_der_header [of CBS_ASN1_INTEGER "length (der_uint (unat v))"] length_der_uint64 [of v]
    by (simp add: der_element_def)
  from build_one [OF assms this, of "CBB_add_asn1_uint64 m v 0"] add_uint64_ready [of m 20 _ "([], [])" 0 v]
  obtain c0 c1 c2 data len where "CBB_init m cap = (True, c0)" "CBB_add_asn1_uint64 m v 0 c0 = (True, c1)"
    "CBB_finish m True True 0 c1 = (Some (data, len), c2)" "CBS_init data len = view ?x (drop len data)"
    by (auto simp: add_top_Nil)
  with get_asn1_uint64_der [of "unat v" "[]" "drop len data"] unsigned_less [of v, where ?'a = nat]
  show ?thesis by auto
qed

theorem uint64_roundtrip_witness:
  "\<exists>c0 c1 c2 data len. CBB_init zero_malloc 0 = (True, c0) \<and> CBB_add_asn1_uint64 zero_malloc 300 0 c0 = (True, c1) \<and>
    CBB_finish zero_malloc True True 0 c1 = (Some (data, len), c2) \<and>
    CBS_get_asn1_uint64 (CBS_init data len) = (Some 300, view [] (drop len data))"
  by (rule uint64_roundtrip) simp_all

text \<open>C6: the same for every signed 64-bit value, given by its bit pattern, with
  \<open>CBB_add_asn1_int64\<close> and \<open>CBS_get_asn1_int64\<close>.\<close>

theorem int64_roundtrip:
  assumes "generous m" and "cap \<le> 2 ^ 61"
  shows "\<exists>c0 c1 c2 data len. CBB_init m cap = (True, c0) \<and> CBB_add_asn1_int64 m v 0 c0 = (True, c1) \<and>
    CBB_finish m True True 0 c1 = (Some (data, len), c2) \<and>
    CBS_get_asn1_int64 (CBS_init data len) = (Some v, view [] (drop len data))"
proof -
  let ?x = "der_element CBS_ASN1_INTEGER (der_sint v)"
  have "length ?x \<le> 20"
    using length_der_header [of CBS_ASN1_INTEGER "length (der_sint v)"] length_der_sint [of v]
    by (simp add: der_element_def)
  from build_one [OF assms this, of "CBB_add_asn1_int64 m v 0"] add_int64_ready [of m 20 _ "([], [])" 0 v]
  obtain c0 c1 c2 data len where "CBB_init m cap = (True, c0)" "CBB_add_asn1_int64 m v 0 c0 = (True, c1)"
    "CBB_finish m True True 0 c1 = (Some (data, len), c2)" "CBS_init data len = view ?x (drop len data)"
    by (auto simp: add_top_Nil)
  with get_asn1_int64_der [of v "[]" "drop len data"] show ?thesis by auto
qed

theorem int64_roundtrip_witness:
  "\<exists>c0 c1 c2 data len. CBB_init zero_malloc 0 = (True, c0) \<and> CBB_add_asn1_int64 zero_malloc (- 129) 0 c0 = (True, c1) \<and>
    CBB_finish zero_malloc True True 0 c1 = (Some (data, len), c2) \<and>
    CBS_get_asn1_int64 (CBS_init data len) = (Some (- 129), view [] (drop len data))"
  by (rule int64_roundtrip) simp_all

text \<open>C8: the dotted-decimal text of an object identifier, written with
  \<open>CBB_add_asn1_oid_from_text\<close>, is printed again by \<open>CBS_asn1_oid_to_text\<close> as the same
  text, followed by a zero.\<close>

theorem oid_roundtrip:
  assumes g: "generous m" and cap: "cap \<le> 2 ^ 61" and ok: "oid_ok a b cs"
    and len: "length (oid_text a b cs) < 2 ^ 60" "length (oid_body a b cs) \<le> 2 ^ 60"
  shows "\<exists>c0 c1 c2 data len junk. CBB_init m cap = (True, c0) \<and>
    CBB_add_asn1_oid_from_text m (oid_text a b cs) (length (oid_text a b cs)) 0 c0 = (True, c1) \<and>
    CBB_finish m True True 0 c1 = (Some (data, len), c2) \<and>
    CBS_asn1_oid_to_text m (CBS_init data len) = Some (oid_text a b cs @ 0 # junk)"
proof -
  let ?f = "CBB_add_asn1_oid_from_text m (oid_text a b cs) (length (oid_text a b cs)) 0"
  have "\<exists>c'. ?f c = (True, c') \<and> ready m (2 ^ 60) c' (oid_body a b cs, [])"
    if "ready m (2 ^ 60) c ([], [])" for c
    using oid_from_text_ready [OF ok that, of 0 "[]"] len(2) by (simp add: add_top_Nil)
  from build_one [OF g cap len(2) order_refl, where f = ?f, OF this] obtain c0 c1 c2 data n where
    "CBB_init m cap = (True, c0)" "?f c0 = (True, c1)" "CBB_finish m True True 0 c1 = (Some (data, n), c2)"
    "CBS_init data n = view (oid_body a b cs) (drop n data)" by blast
  with oid_to_text_total [OF g ok len(1), of "drop n data"] show ?thesis by metis
qed

theorem oid_roundtrip_witness:
  "\<exists>c0 c1 c2 data len junk. CBB_init zero_malloc 8 = (True, c0) \<and>
    CBB_add_asn1_oid_from_text zero_malloc (oid_text 1 2 [840]) (length (oid_text 1 2 [840])) 0 c0 = (True, c1) \<and>
    CBB_finish zero_malloc True True 0 c1 = (Some (data, len), c2) \<and>
    CBS_asn1_oid_to_text zero_malloc (CBS_init data len) = Some (oid_text 1 2 [840] @ 0 # junk)"
  by (rule oid_roundtrip)
     (simp_all add: oid_ok_def oid_text_def oid_body_def decimal_text.simps base128_def base128_high.simps)

text \<open>C5: \<open>CBB_flush\<close> implements closing: on a builder with room it succeeds if and only if
  each open child below the object fits the length prefix reserved for it, and then every
  one of them has its length and contents in its parent, innermost first.\<close>

theorem flush_refines:
  assumes "ready m n cbb a" and "d \<le> length (snd a)"
    and "length (written a) + 4 * (length (snd a) - d) \<le> n"
  shows "(\<exists>cbb'. CBB_flush m d cbb = (True, cbb') \<and> cbb_rep cbb' (close_to d a)) = fits_to d a"
  using flush_ready [OF assms(1,2) _ assms(3)] flush_rep [of m cbb a d] assms(1,2)
  unfolding ready_def by blast

theorem flush_refines_witness:
  "\<exists>cbb a. (\<exists>cbb'. CBB_flush zero_malloc 0 cbb = (True, cbb') \<and> cbb_rep cbb' (close_to 0 a)) = fits_to 0 a \<and>
    snd a = [(Der, [1])]"
proof -
  from init_ready [of zero_malloc 0 100] obtain c0 where c0: "ready zero_malloc 100 c0 ([], [])" by auto
  from add_asn1_ready [OF c0, of 4 0] length_der_tag [of 4] obtain c1 where
    "ready zero_malloc 100 c1 (open_top Der (add_top (der_tag 4) ([], [])))" by auto
  then have c1: "ready zero_malloc 100 c1 (der_tag 4, [(Der, [])])" by (simp add: open_top_def add_top_Nil)
  have w: "length (written (der_tag 4, [(Der, [])])) \<le> 7"
    using length_der_tag [of 4] by (simp add: written_def layer_bytes_def)
  from add_u8_ready [OF c1, of 1 1] w obtain c2 where
    c2: "ready zero_malloc 100 c2 (der_tag 4, [(Der, [1])])" by (auto simp: add_top_def)
  have "length (written (der_tag 4, [(Der, [1])])) \<le> 8"
    using length_der_tag [of 4] by (simp add: written_def layer_bytes_def)
  with flush_refines [OF c2, of 0] show ?thesis
    by (intro exI [of _ c2] exI [of _ "(der_tag 4, [(Der, [1])])"]) simp
qed

text \<open>C7: \<open>CBB_flush_asn1_set_of\<close> on an object that holds DER elements succeeds and
  leaves the same elements in ascending order of their encodings, as DER demands of a
  SET OF.\<close>

theorem set_of_sorted:
  assumes "generous m" and "ready m n cbb a" and "d \<le> length (snd a)" and "fits_to d a"
    and "length (written a) + 4 * (length (snd a) - d) \<le> n" and "n < 2 ^ 59"
    and "close_to d a = add_top (concat (elements els)) b" and "top_contents b = []" and "small_elements els"
  shows "\<exists>cbb'. CBB_flush_asn1_set_of m d cbb = (True, cbb') \<and>
    cbb_rep cbb' (add_top (concat (sort (elements els))) b)"
  using assms by (intro set_of_total)

theorem set_of_sorted_witness:
  "\<exists>cbb els b. (\<exists>cbb'. CBB_flush_asn1_set_of zero_malloc 0 cbb = (True, cbb') \<and>
      cbb_rep cbb' (add_top (concat (sort (elements els))) b)) \<and> els = [(4, [2]), (4, [1])]"
proof -
  let ?els = "[(4, [2]), (4, [1])] :: (u32 \<times> u8 list) list"
  let ?x = "concat (elements ?els)"
  have len: "length ?x \<le> 24"
    using der_element_length(2) [of 4 "[1]"] der_element_length(2) [of 4 "[2]"] by (simp add: elements_def)
  from init_ready [of zero_malloc 0 100] obtain c0 where c0: "ready zero_malloc 100 c0 ([], [])" by auto
  from add_bytes_ready [OF c0, of ?x 0] len obtain c1 where c1: "ready zero_malloc 100 c1 (?x, [])"
    by (auto simp: add_top_Nil)
  have "\<exists>cbb'. CBB_flush_asn1_set_of zero_malloc 0 c1 = (True, cbb') \<and>
      cbb_rep cbb' (add_top (concat (sort (elements ?els))) ([], []))"
    by (rule set_of_sorted [OF _ c1]) (use len in \<open>simp_all add: add_top_Nil top_contents_def small_elements_def\<close>)
  then show ?thesis by blast
qed

text \<open>C27: \<open>cbb_add_utf8\<close> fails exactly on what is not a valid code point; what it writes
  for a valid one is as long as \<open>cbb_get_utf8_len\<close> says and is read back by
  \<open>cbs_get_utf8\<close>.\<close>

theorem utf8_roundtrip:
  assumes "ready m n cbb a" and "d = length (snd a)" and "length (written a) + 4 \<le> n"
  shows "if is_valid_code_point u
    then \<exists>cbb' x. cbb_add_utf8 m u d cbb = (True, cbb') \<and> ready m n cbb' (add_top x a) \<and>
      length x = cbb_get_utf8_len u \<and> cbs_get_utf8 (view (x @ rest) after) = (Some u, view rest after)
    else fst (cbb_add_utf8 m u d cbb) = False"
proof (cases "is_valid_code_point u")
  case True
  have "length (utf8 (unat u)) \<le> 4" by (simp add: utf8_def)
  with add_u8s_ready [OF assms(1) _ assms(2), of "utf8 (unat u)"] assms(3) obtain cbb' where
    "cbb_add_utf8 m u d cbb = (True, cbb')" "ready m n cbb' (add_top (utf8 (unat u)) a)"
    by (auto simp: cbb_add_utf8_eq [OF True])
  with True get_utf8 [OF True, of rest after] length_utf8 [OF True] show ?thesis by auto
next
  case False
  then show ?thesis by (simp add: cbb_add_utf8_def)
qed

theorem utf8_roundtrip_witness:
  "\<exists>cbb cbb' x. cbb_add_utf8 zero_malloc 0x20ac 0 cbb = (True, cbb') \<and> length x = 3 \<and>
    cbs_get_utf8 (view x []) = (Some 0x20ac, view [] [])"
proof -
  from init_ready [of zero_malloc 0 100] obtain c0 where c0: "ready zero_malloc 100 c0 ([], [])" by auto
  have v: "is_valid_code_point 0x20ac" by (simp add: is_valid_code_point_def)
  from utf8_roundtrip [OF c0, where d = 0 and u = "0x20ac" and rest = "[]" and after = "[]"] v show ?thesis
    by (auto simp: cbb_get_utf8_len_def)
qed

section \<open>BER\<close>

text \<open>C32: the conversion of BER to DER returns on every input: the bounds on nesting and
  the consumption of input end every walk and every loop.\<close>

theorem ber_conversion_terminates: "CBS_asn1_ber_to_der m inp \<noteq> None"
  by (rule ber_to_der_terminates)



text \<open>The search for BER forgets what it found: with a second child that contains no BER
  after a first child that does, the conversion is not done and the non-DER input is
  returned as it is, although the first element alone is converted.\<close>

theorem ber_search_forgets:
  "cbs_find_ber (view [0x30, 0x06, 0x30, 0x04, 0x24, 0x80, 0, 0] []) 0 = Some True \<and>
   cbs_find_ber (view [0x30, 0x08, 0x30, 0x04, 0x24, 0x80, 0, 0, 0x30, 0] []) 0 = Some False \<and>
   CBS_asn1_ber_to_der m (view [0x30, 0x08, 0x30, 0x04, 0x24, 0x80, 0, 0, 0x30, 0] []) =
     Some (Some (view [0x30, 0x08, 0x30, 0x04, 0x24, 0x80, 0, 0, 0x30, 0] [], None), view [] [])"
  using find_ber_forgets by (simp_all add: CBS_asn1_ber_to_der_def CBS_get_any_asn1_element_def find_ber_simps)

end
