(* ===== verification/Base64.thy ===== *)
theory Base64
  imports Prelude
begin

text \<open>
  \<open>crypto/base64/base64.c\<close> and the constant-time primitives of \<open>crypto/internal.h\<close> it
  uses: block and streaming encoding and decoding. An output buffer is modelled by the
  bytes written from its start, a trailing zero byte included where the code writes
  one.
\<close>

section \<open>Constant-time primitives\<close>

definition constant_time_msb_w :: "u64 \<Rightarrow> u64" where
  "constant_time_msb_w a = 0 - drop_bit 63 a"

definition constant_time_is_zero_w :: "u64 \<Rightarrow> u64" where
  "constant_time_is_zero_w a = constant_time_msb_w (NOT a AND (a - 1))"

definition constant_time_eq_w :: "u64 \<Rightarrow> u64 \<Rightarrow> u64" where
  "constant_time_eq_w a b = constant_time_is_zero_w (a XOR b)"

definition constant_time_eq_8 :: "u64 \<Rightarrow> u64 \<Rightarrow> u8" where
  "constant_time_eq_8 a b = ucast (constant_time_eq_w a b)"

definition constant_time_select_w :: "u64 \<Rightarrow> u64 \<Rightarrow> u64 \<Rightarrow> u64" where
  "constant_time_select_w msk a b = (msk AND a) OR (NOT msk AND b)"

definition constant_time_select_8 :: "u8 \<Rightarrow> u8 \<Rightarrow> u8 \<Rightarrow> u8" where
  "constant_time_select_8 msk a b = ucast (constant_time_select_w (ucast msk) (ucast a) (ucast b))"

definition constant_time_lt_args_8 :: "u8 \<Rightarrow> u8 \<Rightarrow> u8" where
  "constant_time_lt_args_8 a b = ucast (constant_time_msb_w (ucast a - ucast b))"

definition constant_time_in_range_8 :: "u8 \<Rightarrow> u8 \<Rightarrow> u8 \<Rightarrow> u8" where
  "constant_time_in_range_8 a lo hi = constant_time_lt_args_8 (a - lo) (hi - lo + 1)"

section \<open>Encoding\<close>

definition conv_bin2ascii :: "u8 \<Rightarrow> u8" where
  "conv_bin2ascii a0 =
     (let a = a0 AND 0x3f;
          ret = constant_time_select_8 (constant_time_eq_8 (ucast a) 62) 43 47;
          ret = constant_time_select_8 (constant_time_lt_args_8 a 62) (a - 52 + 48) ret;
          ret = constant_time_select_8 (constant_time_lt_args_8 a 52) (a - 26 + 97) ret;
          ret = constant_time_select_8 (constant_time_lt_args_8 a 26) (a + 65) ret
      in ret)"

definition EVP_EncodedLength :: "nat \<Rightarrow> nat option" where
  "EVP_EncodedLength len =
     (if sz_add len 2 < len then None
      else
        let len = sz_add len 2 div 3
        in if sz_mul len 4 div 4 \<noteq> len then None
           else
             let len = sz_mul len 4
             in if sz_add len 1 < len then None else Some (sz_add len 1))"

record EVP_ENCODE_CTX =
  data_used :: nat
  ctx_data :: "u8 list"
  eof_seen :: bool
  error_encountered :: bool

definition EVP_EncodeInit :: EVP_ENCODE_CTX where
  "EVP_EncodeInit = \<lparr>data_used = 0, ctx_data = replicate 48 0, eof_seen = False, error_encountered = False\<rparr>"

text \<open>The loop of \<open>EVP_EncodeBlock\<close>: the characters written.\<close>

definition encode3 :: "u32 \<Rightarrow> u8 list" where
  "encode3 l = [conv_bin2ascii (ucast (drop_bit 18 l)), conv_bin2ascii (ucast (drop_bit 12 l)),
                conv_bin2ascii (ucast (drop_bit 6 l)), conv_bin2ascii (ucast l)]"

definition encode_tail :: "u32 \<Rightarrow> nat \<Rightarrow> u8 list" where
  "encode_tail l remaining =
     [conv_bin2ascii (ucast (drop_bit 18 l)), conv_bin2ascii (ucast (drop_bit 12 l)),
      (if remaining = 1 then 61 else conv_bin2ascii (ucast (drop_bit 6 l))), 61]"

fun encode_block_loop :: "u8 list \<Rightarrow> nat \<Rightarrow> u8 list" where
  "encode_block_loop src remaining =
     (if remaining = 0 then []
      else if remaining \<ge> 3 then
        let l = push_bit 16 (ucast (src ! 0)) OR push_bit 8 (ucast (src ! 1)) OR ucast (src ! 2)
        in encode3 l @ encode_block_loop (drop 3 src) (remaining - 3)
      else
        let l = push_bit 16 (ucast (src ! 0)) :: u32;
            l = (if remaining = 2 then l OR push_bit 8 (ucast (src ! 1)) else l)
        in encode_tail l remaining)"

declare encode_block_loop.simps [simp del]

definition EVP_EncodeBlock :: "u8 list \<Rightarrow> nat \<Rightarrow> u8 list \<times> nat" where
  "EVP_EncodeBlock src src_len =
     (let chars = encode_block_loop src src_len in (chars @ [0], length chars))"

text \<open>The loop over whole lines: the input left, the output so far and the total, or
  \<open>None\<close> if the total overflows.\<close>

function encode_lines ::
  "u8 list \<Rightarrow> nat \<Rightarrow> u8 list \<Rightarrow> nat \<Rightarrow> (u8 list \<times> nat \<times> u8 list \<times> nat) option" where
  "encode_lines inp in_len out tot =
     (if in_len \<ge> 48 then
        (case EVP_EncodeBlock inp 48 of
           (dst, encoded) \<Rightarrow>
             let out = out @ take encoded dst @ [10]
             in if sz_add tot (encoded + 1) < tot then None
                else encode_lines (drop 48 inp) (in_len - 48) out (sz_add tot (encoded + 1)))
      else Some (inp, in_len, out, tot))"
  by pat_completeness auto
termination by (relation "measure (\<lambda>(inp, in_len, out, tot). in_len)") auto

declare encode_lines.simps [simp del]

text \<open>The new context, the bytes written and \<open>*out_len\<close>.\<close>

definition EVP_EncodeUpdate :: "EVP_ENCODE_CTX \<Rightarrow> u8 list \<Rightarrow> nat \<Rightarrow> EVP_ENCODE_CTX \<times> u8 list \<times> nat" where
  "EVP_EncodeUpdate ctx inp in_len =
     (if in_len = 0 then (ctx, [], 0)
      else if 48 - data_used ctx > in_len then
        (ctx\<lparr>ctx_data := mem_write (data_used ctx) (take in_len inp) (ctx_data ctx),
             data_used := data_used ctx + in_len\<rparr>, [], 0)
      else
        let (ctx, inp, in_len, out, tot) =
              (if data_used ctx \<noteq> 0 then
                 let todo = 48 - data_used ctx;
                     data = mem_write (data_used ctx) (take todo inp) (ctx_data ctx);
                     (dst, encoded) = EVP_EncodeBlock data 48
                 in (ctx\<lparr>ctx_data := data, data_used := 0\<rparr>, drop todo inp, in_len - todo,
                     take encoded dst @ [10], encoded + 1)
               else (ctx, inp, in_len, [], 0))
        in case encode_lines inp in_len out tot of
             None \<Rightarrow> (ctx, out, 0)
           | Some (inp, in_len, out, tot) \<Rightarrow>
               (ctx\<lparr>ctx_data := mem_write 0 (take in_len inp) (ctx_data ctx), data_used := in_len\<rparr>,
                out @ (if out = [] then [] else [0]),
                if tot > INT_MAX then 0 else tot))"

definition EVP_EncodeFinal :: "EVP_ENCODE_CTX \<Rightarrow> EVP_ENCODE_CTX \<times> u8 list \<times> nat" where
  "EVP_EncodeFinal ctx =
     (if data_used ctx = 0 then (ctx, [], 0)
      else
        case EVP_EncodeBlock (ctx_data ctx) (data_used ctx) of
          (dst, encoded) \<Rightarrow>
            (ctx\<lparr>data_used := 0\<rparr>, take encoded dst @ [10, 0], encoded + 1))"

section \<open>Decoding\<close>

definition EVP_DecodedLength :: "nat \<Rightarrow> nat option" where
  "EVP_DecodedLength len = (if len mod 4 \<noteq> 0 then None else Some (len div 4 * 3))"

definition EVP_DecodeInit :: EVP_ENCODE_CTX where
  "EVP_DecodeInit = \<lparr>data_used = 0, ctx_data = replicate 48 0, eof_seen = False, error_encountered = False\<rparr>"

definition base64_ascii_to_bin :: "u8 \<Rightarrow> u8" where
  "base64_ascii_to_bin a =
     (let is_upper = constant_time_in_range_8 a 65 90;
          is_lower = constant_time_in_range_8 a 97 122;
          is_digit = constant_time_in_range_8 a 48 57;
          is_plus = constant_time_eq_8 (ucast a) 43;
          is_slash = constant_time_eq_8 (ucast a) 47;
          is_equals = constant_time_eq_8 (ucast a) 61;
          ret = 0xff;
          ret = constant_time_select_8 is_upper (a - 65) ret;
          ret = constant_time_select_8 is_lower (a - 97 + 26) ret;
          ret = constant_time_select_8 is_digit (a - 48 + 52) ret;
          ret = constant_time_select_8 is_plus 62 ret;
          ret = constant_time_select_8 is_slash 63 ret;
          ret = constant_time_select_8 is_equals 0 ret
      in ret)"

text \<open>The bytes decoded from the four characters at the front of \<open>inp\<close>.\<close>

definition base64_decode_quad :: "u8 list \<Rightarrow> u8 list option" where
  "base64_decode_quad inp =
     (let a = base64_ascii_to_bin (inp ! 0); b = base64_ascii_to_bin (inp ! 1);
          c = base64_ascii_to_bin (inp ! 2); d = base64_ascii_to_bin (inp ! 3)
      in if a = 0xff \<or> b = 0xff \<or> c = 0xff \<or> d = 0xff then None
         else
           let v = push_bit 18 (ucast a) OR push_bit 12 (ucast b) OR push_bit 6 (ucast c) OR ucast d :: u32
           in case (inp ! 0 = 61, inp ! 1 = 61, inp ! 2 = 61, inp ! 3 = 61) of
                (False, False, False, False) \<Rightarrow>
                  Some [ucast (drop_bit 16 v), ucast (drop_bit 8 v), ucast v]
              | (False, False, False, True) \<Rightarrow> Some [ucast (drop_bit 16 v), ucast (drop_bit 8 v)]
              | (False, False, True, True) \<Rightarrow> Some [ucast (drop_bit 16 v)]
              | _ \<Rightarrow> None)"

definition is_b64_space :: "u8 \<Rightarrow> bool" where
  "is_b64_space c \<longleftrightarrow> c = 32 \<or> c = 9 \<or> c = 13 \<or> c = 10"

text \<open>The loop of \<open>EVP_DecodeUpdate\<close>: the context and the bytes written, \<open>False\<close> when
  it stops with an error.\<close>

fun decode_loop :: "EVP_ENCODE_CTX \<Rightarrow> u8 list \<Rightarrow> u8 list \<Rightarrow> bool \<times> EVP_ENCODE_CTX \<times> u8 list" where
  "decode_loop ctx out [] = (True, ctx, out)"
| "decode_loop ctx out (c # cs) =
     (if is_b64_space c then decode_loop ctx out cs
      else if eof_seen ctx then (False, ctx\<lparr>error_encountered := True\<rparr>, out)
      else
        let ctx = ctx\<lparr>ctx_data := (ctx_data ctx)[data_used ctx := c], data_used := data_used ctx + 1\<rparr>
        in if data_used ctx = 4 then
             (case base64_decode_quad (ctx_data ctx) of
                None \<Rightarrow> (False, ctx\<lparr>error_encountered := True\<rparr>, out)
              | Some bs \<Rightarrow>
                  decode_loop
                    (ctx\<lparr>data_used := 0, eof_seen := (if length bs < 3 then True else eof_seen ctx)\<rparr>)
                    (out @ bs) cs)
           else decode_loop ctx out cs)"

text \<open>The result code, the new context, the bytes written and \<open>*out_len\<close>.\<close>

definition EVP_DecodeUpdate ::
  "EVP_ENCODE_CTX \<Rightarrow> u8 list \<Rightarrow> nat \<Rightarrow> int \<times> EVP_ENCODE_CTX \<times> u8 list \<times> nat" where
  "EVP_DecodeUpdate ctx inp in_len =
     (if error_encountered ctx then (-1, ctx, [], 0)
      else
        case decode_loop ctx [] (take in_len inp) of
          (False, ctx, out) \<Rightarrow> (-1, ctx, out, 0)
        | (True, ctx, out) \<Rightarrow>
            if length out > INT_MAX then (-1, ctx\<lparr>error_encountered := True\<rparr>, out, 0)
            else (if eof_seen ctx then 0 else 1, ctx, out, length out))"

definition EVP_DecodeFinal :: "EVP_ENCODE_CTX \<Rightarrow> int" where
  "EVP_DecodeFinal ctx = (if error_encountered ctx \<or> data_used ctx \<noteq> 0 then -1 else 1)"

text \<open>The loop of \<open>EVP_DecodeBase64\<close>, \<open>left\<close> bytes before the end of the input.\<close>

function decode64_loop :: "u8 list \<Rightarrow> nat \<Rightarrow> u8 list \<Rightarrow> u8 list option" where
  "decode64_loop inp left out =
     (if left = 0 then Some out
      else
        case base64_decode_quad inp of
          None \<Rightarrow> None
        | Some bs \<Rightarrow>
            if length bs \<noteq> 3 \<and> left \<noteq> 4 then None
            else decode64_loop (drop 4 inp) (left - 4) (out @ bs))"
  by pat_completeness auto
termination by (relation "measure (\<lambda>(inp, left, out). left)") auto

declare decode64_loop.simps [simp del]

definition EVP_DecodeBase64 :: "nat \<Rightarrow> u8 list \<Rightarrow> nat \<Rightarrow> u8 list option" where
  "EVP_DecodeBase64 max_out inp in_len =
     (if in_len mod 4 \<noteq> 0 then None
      else
        case EVP_DecodedLength in_len of
          None \<Rightarrow> None
        | Some max_len \<Rightarrow>
            if max_out < max_len then None else decode64_loop inp in_len [])"

fun trim_front :: "u8 list \<Rightarrow> u8 list" where
  "trim_front [] = []"
| "trim_front (c # cs) = (if c \<noteq> 32 \<and> c \<noteq> 9 then c # cs else trim_front cs)"

definition trim_back :: "u8 list \<Rightarrow> u8 list" where
  "trim_back cs = rev (dropWhile is_b64_space (rev cs))"

text \<open>The bytes written, zero bytes included, or \<open>None\<close> for -1.\<close>

definition EVP_DecodeBlock :: "u8 list \<Rightarrow> nat \<Rightarrow> u8 list option" where
  "EVP_DecodeBlock src src_len =
     (let src = trim_back (trim_front (take src_len src))
      in case EVP_DecodedLength (length src) of
           None \<Rightarrow> None
         | Some dst_len \<Rightarrow>
             if dst_len > INT_MAX then None
             else case EVP_DecodeBase64 dst_len src (length src) of
                    None \<Rightarrow> None
                  | Some dst \<Rightarrow> Some (dst @ replicate ((3 - length dst mod 3) mod 3) 0))"

section \<open>What the primitives compute\<close>

lemma msb_w: "constant_time_msb_w a = (if bit a 63 then -1 else 0)"
proof -
  have "drop_bit 63 a = (if bit a 63 then 1 else 0)"
  proof (rule bit_word_eqI)
    fix n
    show "bit (drop_bit 63 a) n = bit (if bit a 63 then 1 else 0 :: u64) n"
      by (cases "n = 0") (auto simp: bit_simps dest: bit_imp_le_length)
  qed
  then show ?thesis by (simp add: constant_time_msb_w_def)
qed

lemma bit_63_iff: "bit (a :: u64) 63 \<longleftrightarrow> 2 ^ 63 \<le> unat a"
proof -
  have lt: "unat a < 2 ^ 64" using unsigned_less [of a, where ?'a = nat] by simp
  have "bit a 63 \<longleftrightarrow> bit (unat a) 63" by (simp add: bit_unsigned_iff)
  also have "\<dots> \<longleftrightarrow> odd (unat a div 2 ^ 63)" by (simp only: bit_iff_odd)
  also have "\<dots> \<longleftrightarrow> 2 ^ 63 \<le> unat a"
  proof (cases "2 ^ 63 \<le> unat a")
    case True
    then have "unat a div 2 ^ 63 = 1" using lt by (intro div_nat_eqI) simp_all
    with True show ?thesis by simp
  qed simp
  finally show ?thesis .
qed

lemma ucast_minus_1 [simp]: "(ucast (-1 :: u64) :: u8) = 0xff"
proof -
  have "(ucast (-1 :: u64) :: u8) = -1" by (rule bit_word_eqI) (simp add: bit_simps)
  then show ?thesis by simp
qed

lemma ucast_ucast_u8 [simp]: "(ucast (ucast (b :: u8) :: u64) :: u8) = b"
  by (rule bit_word_eqI) (auto simp: bit_simps dest: bit_imp_le_length)

lemma lt_args_8: "constant_time_lt_args_8 a b = (if a < b then 0xff else 0)"
proof -
  have ua: "unat (ucast a :: u64) = unat a" and ub: "unat (ucast b :: u64) = unat b"
    by (simp_all add: unat_ucast_up)
  have "bit (ucast a - ucast b :: u64) 63 \<longleftrightarrow> a < b"
  proof (cases "a < b")
    case True
    then have lt: "unat a < unat b" by (simp add: word_less_nat_alt)
    let ?d = "unat b - unat a"
    have d: "?d < 256" "?d \<noteq> 0" using lt unat_u8_less [of b] by linarith+
    have "(word_of_nat (unat b) :: u64) = word_of_nat (unat a) + word_of_nat ?d"
      using lt by (simp flip: of_nat_add)
    then have "(ucast a - ucast b :: u64) = - word_of_nat ?d"
      by simp
    also have "\<dots> = word_of_nat (2 ^ 64 - ?d)"
      using d by (subst of_nat_diff) simp_all
    finally have eq: "(ucast a - ucast b :: u64) = word_of_nat (2 ^ 64 - ?d)" .
    have "unat (ucast a - ucast b :: u64) = 2 ^ 64 - ?d"
      unfolding eq using d by (simp only: unsigned_of_nat) (simp add: take_bit_nat_eq_self)
    then show ?thesis using True d by (simp add: bit_63_iff)
  next
    case False
    then have "unat b \<le> unat a" by (simp add: word_less_nat_alt)
    then have "unat (ucast a - ucast b :: u64) = unat a - unat b"
      using ua ub by (subst unat_sub) (simp_all add: word_le_nat_alt)
    moreover have "unat a - unat b < 256" using unat_u8_less [of a] by linarith
    ultimately show ?thesis using False by (simp add: bit_63_iff)
  qed
  then show ?thesis by (simp add: constant_time_lt_args_8_def msb_w)
qed

lemma is_zero_w: "constant_time_is_zero_w a = (if a = 0 then -1 else 0)"
proof -
  have "bit (NOT a AND (a - 1)) 63 \<longleftrightarrow> a = 0"
  proof (cases "a = 0")
    case True
    then show ?thesis by (simp add: bit_simps)
  next
    case False
    then have pos: "0 < unat a" by (simp add: unat_gt_0)
    then have "unat (a - 1) = unat a - 1" by (subst unat_sub) (simp_all add: word_le_nat_alt)
    then have "bit (a - 1) 63 \<Longrightarrow> bit a 63" unfolding bit_63_iff by simp
    with False show ?thesis by (auto simp: bit_and_iff bit_not_iff)
  qed
  then show ?thesis by (simp add: constant_time_is_zero_w_def msb_w)
qed

lemma eq_8: "constant_time_eq_8 a b = (if a = b then 0xff else 0)"
proof -
  have "a XOR b = 0 \<longleftrightarrow> a = b" by (auto simp: bit_eq_iff bit_simps)
  then show ?thesis by (simp add: constant_time_eq_8_def constant_time_eq_w_def is_zero_w)
qed

lemma select_8: "constant_time_select_8 (if c then 0xff else 0) a b = (if c then a else b)"
proof -
  have "ucast ((ucast (0xff :: u8) AND ucast a) OR (NOT (ucast (0xff :: u8)) AND ucast b) :: u64) = a"
  proof (rule bit_word_eqI)
    fix n assume "n < LENGTH(8)"
    then have n: "n \<in> {0, 1, 2, 3, 4, 5, 6, 7}" by auto
    then show "bit (ucast ((ucast (0xff :: u8) AND ucast a) OR (NOT (ucast (0xff :: u8)) AND ucast b) :: u64) :: u8) n
        = bit a n"
      by (auto simp: bit_simps)
  qed
  moreover have "ucast ((0 AND ucast a) OR (NOT 0 AND ucast b) :: u64) = b"
    by simp
  ultimately show ?thesis
    by (simp add: constant_time_select_8_def constant_time_select_w_def)
qed

lemma in_range_8:
  assumes "lo \<le> hi" and "hi < 255"
  shows "constant_time_in_range_8 a lo hi = (if lo \<le> a \<and> a \<le> hi then 0xff else 0)"
proof -
  have lh: "unat lo \<le> unat hi" "unat hi < 255" using assms by (simp_all add: word_le_nat_alt word_less_nat_alt)
  have r: "unat (hi - lo + 1) = unat hi - unat lo + 1"
    using lh by (subst unat_word_ariths, subst unat_sub) (simp_all add: word_le_nat_alt)
  have "a - lo < hi - lo + 1 \<longleftrightarrow> lo \<le> a \<and> a \<le> hi"
  proof (cases "lo \<le> a")
    case True
    then have "unat (a - lo) = unat a - unat lo" by (rule unat_sub)
    with True show ?thesis using lh by (auto simp: word_less_nat_alt word_le_nat_alt r)
  next
    case False
    then have lt: "unat a < unat lo" by (simp add: word_le_nat_alt)
    obtain d where dd: "d = unat lo - unat a" by simp
    have d: "d < 256" "d \<noteq> 0" "unat lo = unat a + d"
      unfolding dd using lt unat_u8_less [of lo] by linarith+
    have "a - lo = a - (a + word_of_nat d)"
      by (rule arg_cong [where f = "\<lambda>x. a - x"])
         (use d(3) in \<open>metis of_nat_add of_nat_unat ucast_id\<close>)
    also have "\<dots> = - word_of_nat d" by simp
    also have "\<dots> = word_of_nat (256 - d)"
      using d by (subst of_nat_diff) simp_all
    finally have eq: "a - lo = word_of_nat (256 - d)" .
    have "unat (a - lo) = 256 - d" unfolding eq by (rule unat_u8_of_nat) (use d in simp)
    then show ?thesis using lt lh False d by (simp add: word_less_nat_alt r)
  qed
  then show ?thesis by (simp add: constant_time_in_range_8_def lt_args_8)
qed

section \<open>The alphabet\<close>

text \<open>The character of a six-bit group (RFC 4648, table 1).\<close>

definition b64_char :: "nat \<Rightarrow> u8" where
  "b64_char x =
     word_of_nat (if x < 26 then 65 + x else if x < 52 then 71 + x
                  else if x < 62 then x - 4 else if x = 62 then 43 else 47)"

lemma conv_bin2ascii_eq: "conv_bin2ascii a = b64_char (unat a mod 64)"
proof -
  let ?b = "a AND 0x3f"
  have b: "unat ?b = unat a mod 64"
  proof -
    have "?b = take_bit 6 a" by (simp add: take_bit_eq_mask mask_eq_exp_minus_1)
    then have "unat ?b = take_bit 6 (unat a)" by (simp only: unsigned_take_bit_eq)
    then show ?thesis by (simp add: take_bit_eq_mod)
  qed
  have bw: "?b = word_of_nat (unat a mod 64)" by (metis b of_nat_unat ucast_id)
  have cmp: "?b < 62 \<longleftrightarrow> unat a mod 64 < 62" "?b < 52 \<longleftrightarrow> unat a mod 64 < 52" "?b < 26 \<longleftrightarrow> unat a mod 64 < 26"
    "(ucast ?b :: u64) = 62 \<longleftrightarrow> unat a mod 64 = 62"
    by (simp_all add: word_less_nat_alt b word_unat_eq_iff unat_ucast_up)
  show ?thesis
    unfolding conv_bin2ascii_def Let_def lt_args_8 eq_8 select_8 cmp b64_char_def
    by (auto simp: bw of_nat_diff)
qed

lemma base64_ascii_to_bin_eq:
  "base64_ascii_to_bin a =
     (let n = unat a
      in if n = 61 then 0 else if n = 47 then 63 else if n = 43 then 62
         else if 48 \<le> n \<and> n \<le> 57 then word_of_nat (n + 4)
         else if 97 \<le> n \<and> n \<le> 122 then word_of_nat (n - 71)
         else if 65 \<le> n \<and> n \<le> 90 then word_of_nat (n - 65) else 0xff)"
proof -
  have eq: "(ucast a :: u64) = k \<longleftrightarrow> unat a = unat k" for k
    by (simp add: word_unat_eq_iff unat_ucast_up)
  have r: "constant_time_in_range_8 a 65 90 = (if 65 \<le> unat a \<and> unat a \<le> 90 then 0xff else 0)"
    "constant_time_in_range_8 a 97 122 = (if 97 \<le> unat a \<and> unat a \<le> 122 then 0xff else 0)"
    "constant_time_in_range_8 a 48 57 = (if 48 \<le> unat a \<and> unat a \<le> 57 then 0xff else 0)"
    by (subst in_range_8; simp add: word_le_nat_alt)+
  have v: "a = word_of_nat (unat a)" by simp
  show ?thesis
    unfolding base64_ascii_to_bin_def Let_def r eq_8 select_8 eq
    by (auto simp: of_nat_diff)
qed

lemma unat_b64_char:
  "x < 64 \<Longrightarrow> unat (b64_char x) =
     (if x < 26 then 65 + x else if x < 52 then 71 + x else if x < 62 then x - 4 else if x = 62 then 43 else 47)"
  unfolding b64_char_def by (rule unat_u8_of_nat) auto

lemma b64_char_inverse: "x < 64 \<Longrightarrow> base64_ascii_to_bin (b64_char x) = word_of_nat x"
  unfolding base64_ascii_to_bin_eq Let_def by (cases "x = 63"; cases "x = 62") (auto simp: unat_b64_char)

lemma b64_char_not_pad: "x < 64 \<Longrightarrow> b64_char x \<noteq> 61 \<and> \<not> is_b64_space (b64_char x)"
  by (auto simp: is_b64_space_def word_unat_eq_iff unat_b64_char split: if_splits)

section \<open>Blocks\<close>

text \<open>The encoding of a 24-bit group, and of a byte string.\<close>

definition b64_group :: "nat \<Rightarrow> u8 list" where
  "b64_group n = map b64_char [n div 262144 mod 64, n div 4096 mod 64, n div 64 mod 64, n mod 64]"

definition group_nat :: "u8 \<Rightarrow> u8 \<Rightarrow> u8 \<Rightarrow> nat" where
  "group_nat a b c = unat a * 65536 + unat b * 256 + unat c"

fun b64 :: "u8 list \<Rightarrow> u8 list" where
  "b64 [] = []"
| "b64 [a] = take 2 (b64_group (group_nat a 0 0)) @ [61, 61]"
| "b64 [a, b] = take 3 (b64_group (group_nat a b 0)) @ [61]"
| "b64 (a # b # c # bs) = b64_group (group_nat a b c) @ b64 bs"

lemma group_nat_less: "group_nat a b c < 16777216"
  using unat_u8_less [of a] unat_u8_less [of b] unat_u8_less [of c]
  unfolding group_nat_def by linarith

lemma group_word:
  "push_bit 16 (ucast a) OR push_bit 8 (ucast b) OR ucast c = (word_of_nat (group_nat a b c) :: u32)"
proof -
  have w: "(ucast x :: u32) = word_of_nat (unat x)" for x :: u8 by simp
  have "unat c < 2 ^ 8" using unat_u8_less [of c] by simp
  then have bc: "push_bit 8 (word_of_nat (unat b)) OR word_of_nat (unat c) = (word_of_nat (unat b * 256 + unat c) :: u32)"
    using push_bit_or_nat [of "unat c" 8 "unat b"] by simp
  have "unat b * 256 + unat c < 65536"
    using unat_u8_less [of b] unat_u8_less [of c] by linarith
  then have "unat b * 256 + unat c < 2 ^ 16" by simp
  from push_bit_or_nat [OF this, of "unat a"] bc show ?thesis
    unfolding w or.assoc by (simp add: group_nat_def add.assoc)
qed

lemma encode3_eq: "n < 16777216 \<Longrightarrow> encode3 (word_of_nat n) = b64_group n"
proof -
  assume n: "n < 16777216"
  then have u: "unat (word_of_nat n :: u32) = n" by (intro unat_of_nat32) simp
  have d: "unat (ucast w :: u8) mod 64 = unat w mod 64" for w :: u32
    by (simp add: unsigned_ucast_eq take_bit_eq_mod mod_mod_cancel)
  show ?thesis
    unfolding encode3_def conv_bin2ascii_eq d unat_drop_u32 u by (simp add: b64_group_def)
qed

lemma encode_block_loop_eq: "encode_block_loop (bs @ rest) (length bs) = b64 bs"
proof (induction bs rule: b64.induct)
  case 1
  then show ?case by (simp add: encode_block_loop.simps)
next
  case (2 a)
  have "push_bit 16 (ucast a) = (word_of_nat (group_nat a 0 0) :: u32)"
    using group_word [of a 0 0] by simp
  then show ?case
    using encode3_eq [OF group_nat_less, of a 0 0]
    by (simp add: encode_block_loop.simps Let_def) (simp add: encode_tail_def encode3_def b64_group_def)
next
  case (3 a b)
  have "push_bit 16 (ucast a) OR push_bit 8 (ucast b) = (word_of_nat (group_nat a b 0) :: u32)"
    using group_word [of a b 0] by simp
  then show ?case
    using encode3_eq [OF group_nat_less, of a b 0]
    by (simp add: encode_block_loop.simps Let_def) (simp add: encode_tail_def encode3_def b64_group_def)
next
  case (4 a b c bs)
  then show ?case
    using encode3_eq [OF group_nat_less, of a b c] group_word [of a b c]
    by (subst encode_block_loop.simps) simp
qed

lemma EVP_EncodeBlock_eq: "EVP_EncodeBlock (bs @ rest) (length bs) = (b64 bs @ [0], length (b64 bs))"
  by (simp add: EVP_EncodeBlock_def encode_block_loop_eq Let_def)

lemma length_b64: "length (b64 bs) = (length bs + 2) div 3 * 4"
proof (induction bs rule: b64.induct)
  case (4 a b c bs)
  have "(length (a # b # c # bs) + 2) div 3 = Suc ((length bs + 2) div 3)"
    using div_add_self2 [of 3 "length bs + 2"] by simp
  with 4 show ?case by (simp add: b64_group_def)
qed (simp_all add: b64_group_def)

text \<open>One quad, decoded.\<close>

lemma quad_word:
  assumes "a < 64" and "b < 64" and "c < 64" and "d < 64"
  shows "push_bit 18 (ucast (word_of_nat a :: u8)) OR push_bit 12 (ucast (word_of_nat b :: u8)) OR
    push_bit 6 (ucast (word_of_nat c :: u8)) OR ucast (word_of_nat d :: u8)
    = (word_of_nat (a * 262144 + b * 4096 + c * 64 + d) :: u32)"
proof -
  have w: "(ucast (word_of_nat x :: u8) :: u32) = word_of_nat x" if "x < 64" for x
  proof -
    have "unat (word_of_nat x :: u8) = x" using that by (intro unat_u8_of_nat) simp
    then show ?thesis by (metis of_nat_unat)
  qed
  have cd: "push_bit 6 (word_of_nat c) OR word_of_nat d = (word_of_nat (c * 64 + d) :: u32)"
    using push_bit_or_nat [of d 6 c] assms by simp
  have "c * 64 + d < 2 ^ 12" using assms by simp
  from push_bit_or_nat [OF this, of b]
  have bcd: "push_bit 12 (word_of_nat b) OR word_of_nat (c * 64 + d) = (word_of_nat (b * 4096 + (c * 64 + d)) :: u32)"
    by simp
  have "b * 4096 + (c * 64 + d) < 2 ^ 18" using assms by simp
  from push_bit_or_nat [OF this, of a]
  have "push_bit 18 (word_of_nat a) OR word_of_nat (b * 4096 + (c * 64 + d)) =
      (word_of_nat (a * 262144 + (b * 4096 + (c * 64 + d))) :: u32)" by simp
  then show ?thesis
    unfolding w [OF assms(1)] w [OF assms(2)] w [OF assms(3)] w [OF assms(4)] or.assoc cd bcd
    by (simp only: add.assoc)
qed

lemma b64_not_ff: "x < 64 \<Longrightarrow> word_of_nat x \<noteq> (0xff :: u8)"
  using unat_u8_of_nat [of x] by (auto simp: word_unat_eq_iff)

lemma pad_to_bin: "base64_ascii_to_bin 61 = 0"
  by (simp add: base64_ascii_to_bin_eq)

lemma group_parts:
  "n < 16777216 \<Longrightarrow> n div 262144 mod 64 * 262144 + n div 4096 mod 64 * 4096 + n div 64 mod 64 * 64 + n mod 64 = (n :: nat)"
proof -
  assume "n < 16777216"
  then have "n div 262144 mod 64 = n div 262144" by (simp add: div_less_iff_less_mult)
  moreover have "n div 262144 * 64 + n div 4096 mod 64 = n div 4096"
    using div_mult_mod_eq [of "n div 4096" 64] by (simp add: div_mult2_eq [symmetric])
  moreover have "n div 4096 * 64 + n div 64 mod 64 = n div 64"
    using div_mult_mod_eq [of "n div 64" 64] by (simp add: div_mult2_eq [symmetric])
  moreover have "n div 64 * 64 + n mod 64 = n" by simp
  ultimately show ?thesis by linarith
qed

lemma byte_join: "q < 256 \<Longrightarrow> (x * 256 + q) div 256 = (x :: nat)" "q < 256 \<Longrightarrow> (x * 256 + q) mod 256 = (q :: nat)"
  by simp_all

lemma group_bytes:
  "ucast (drop_bit 16 (word_of_nat (group_nat a b c) :: u32)) = a"
  "ucast (drop_bit 8 (word_of_nat (group_nat a b c) :: u32)) = b"
  "ucast (word_of_nat (group_nat a b c) :: u32) = c"
proof -
  let ?n = "group_nat a b c"
  have u: "unat (word_of_nat ?n :: u32) = ?n"
    using group_nat_less [of a b c] by (intro unat_of_nat32) simp
  have t: "(ucast w :: u8) = x \<longleftrightarrow> unat w mod 256 = unat x" for w :: u32 and x
    by (simp add: word_unat_eq_iff unsigned_ucast_eq take_bit_eq_mod)
  have lt: "unat a < 256" "unat b < 256" "unat c < 256" by simp_all
  have e: "?n = (unat a * 256 + unat b) * 256 + unat c" by (simp add: group_nat_def)
  have n1: "?n div 256 = unat a * 256 + unat b" "?n mod 256 = unat c"
    by (simp_all only: e byte_join [OF lt(3)])
  have "?n div 65536 = ?n div 256 div 256" by (simp add: div_mult2_eq [symmetric])
  also have "\<dots> = unat a" by (simp only: n1(1) byte_join [OF lt(2)])
  finally have n2: "?n div 65536 = unat a" .
  show "ucast (drop_bit 16 (word_of_nat ?n :: u32)) = a" "ucast (drop_bit 8 (word_of_nat ?n :: u32)) = b"
    "ucast (word_of_nat ?n :: u32) = c"
    unfolding t unat_drop_u32 u using n1 n2 lt by simp_all
qed

lemma decode_group: "base64_decode_quad (b64_group (group_nat a b c) @ rest) = Some [a, b, c]"
proof -
  let ?n = "group_nat a b c"
  have n: "?n < 16777216" by (rule group_nat_less)
  have q: "?n div 262144 mod 64 < 64" "?n div 4096 mod 64 < 64" "?n div 64 mod 64 < 64" "?n mod 64 < 64" by simp_all
  show ?thesis
    unfolding base64_decode_quad_def b64_group_def
    using q b64_char_not_pad [OF q(1)] b64_char_not_pad [OF q(2)] b64_char_not_pad [OF q(3)] b64_char_not_pad [OF q(4)]
    by (simp add: Let_def b64_char_inverse b64_not_ff quad_word group_parts [OF n] group_bytes
        del: of_nat_add of_nat_mult)
qed

lemma decode_group_2: "base64_decode_quad (take 3 (b64_group (group_nat a b 0)) @ 61 # rest) = Some [a, b]"
proof -
  let ?n = "group_nat a b 0"
  have n: "?n < 16777216" by (rule group_nat_less)
  have m: "?n mod 64 = 0" by (simp add: group_nat_def)
  have q: "?n div 262144 mod 64 < 64" "?n div 4096 mod 64 < 64" "?n div 64 mod 64 < 64" by simp_all
  have w: "push_bit 18 (ucast (word_of_nat (?n div 262144 mod 64) :: u8)) OR
      push_bit 12 (ucast (word_of_nat (?n div 4096 mod 64) :: u8)) OR
      push_bit 6 (ucast (word_of_nat (?n div 64 mod 64) :: u8)) = (word_of_nat ?n :: u32)"
    using quad_word [OF q, of 0, unfolded group_parts [OF n, unfolded m]] by simp
  show ?thesis
    unfolding base64_decode_quad_def b64_group_def
    using q b64_char_not_pad [OF q(1)] b64_char_not_pad [OF q(2)] b64_char_not_pad [OF q(3)]
    by (simp add: Let_def b64_char_inverse b64_not_ff w group_bytes pad_to_bin)
qed

lemma decode_group_1: "base64_decode_quad (take 2 (b64_group (group_nat a 0 0)) @ 61 # 61 # rest) = Some [a]"
proof -
  let ?n = "group_nat a 0 0"
  have n: "?n < 16777216" by (rule group_nat_less)
  have m: "?n mod 64 = 0" "?n div 64 mod 64 = 0" by (simp_all add: group_nat_def)
  have q: "?n div 262144 mod 64 < 64" "?n div 4096 mod 64 < 64" by simp_all
  have w: "push_bit 18 (ucast (word_of_nat (?n div 262144 mod 64) :: u8)) OR
      push_bit 12 (ucast (word_of_nat (?n div 4096 mod 64) :: u8)) = (word_of_nat ?n :: u32)"
    using quad_word [OF q, of 0 0, unfolded group_parts [OF n, unfolded m]] by simp
  show ?thesis
    unfolding base64_decode_quad_def b64_group_def
    using q b64_char_not_pad [OF q(1)] b64_char_not_pad [OF q(2)]
    by (simp add: Let_def b64_char_inverse b64_not_ff w group_bytes pad_to_bin)
qed

lemma b64_loop_step:
  assumes "base64_decode_quad inp = Some bs" and "length bs = 3" and "left = Suc (Suc (Suc (Suc k)))"
  shows "decode64_loop inp left out = decode64_loop (drop 4 inp) k (out @ bs)"
  using assms by (subst decode64_loop.simps) simp

lemma decode64_b64: "decode64_loop (b64 bs @ rest) (length (b64 bs)) out = Some (out @ bs)"
proof (induction bs arbitrary: out rule: b64.induct)
  case 1
  then show ?case by (simp add: decode64_loop.simps)
next
  case (2 a)
  show ?case
    using decode_group_1 [of a rest]
    by (subst decode64_loop.simps) (simp add: b64_group_def decode64_loop.simps)
next
  case (3 a b)
  show ?case
    using decode_group_2 [of a b rest]
    by (subst decode64_loop.simps) (simp add: b64_group_def decode64_loop.simps)
next
  case (4 a b c bs)
  have "decode64_loop (b64 (a # b # c # bs) @ rest) (length (b64 (a # b # c # bs))) out =
      decode64_loop (drop 4 (b64_group (group_nat a b c) @ b64 bs @ rest)) (length (b64 bs)) (out @ [a, b, c])"
    using decode_group [of a b c "b64 bs @ rest"]
    by (subst b64_loop_step [where k = "length (b64 bs)"]) (simp_all add: b64_group_def)
  also have "drop 4 (b64_group (group_nat a b c) @ b64 bs @ rest) = b64 bs @ rest"
    by (simp add: b64_group_def)
  finally show ?case using 4 by simp
qed

text \<open>A block decodes to what was encoded, given room for whole groups.\<close>

lemma decode_base64_b64:
  assumes "(length bs + 2) div 3 * 3 \<le> max_out"
  shows "EVP_DecodeBase64 max_out (b64 bs @ rest) (length (b64 bs)) = Some bs"
  using assms decode64_b64 [of bs rest "[]"]
  by (simp add: EVP_DecodeBase64_def EVP_DecodedLength_def length_b64)

section \<open>Streams\<close>

definition enc_ctx_ok :: "EVP_ENCODE_CTX \<Rightarrow> bool" where
  "enc_ctx_ok ctx \<longleftrightarrow> length (ctx_data ctx) = 48 \<and> data_used ctx < 48"

definition pending :: "EVP_ENCODE_CTX \<Rightarrow> u8 list" where
  "pending ctx = take (data_used ctx) (ctx_data ctx)"

text \<open>The lines that are complete, and the bytes left for the next one.\<close>

function full_lines :: "u8 list \<Rightarrow> u8 list" where
  "full_lines bs = (if length bs \<ge> 48 then b64 (take 48 bs) @ 10 # full_lines (drop 48 bs) else [])"
  by pat_completeness auto
termination by (relation "measure length") auto

function leftover :: "u8 list \<Rightarrow> u8 list" where
  "leftover bs = (if length bs \<ge> 48 then leftover (drop 48 bs) else bs)"
  by pat_completeness auto
termination by (relation "measure length") auto

declare full_lines.simps [simp del] leftover.simps [simp del]

lemma length_b64_48: "length bs = 48 \<Longrightarrow> length (b64 bs) = 64"
  by (simp add: length_b64)

lemma leftover_short: "length (leftover bs) < 48"
  by (induction bs rule: leftover.induct) (subst leftover.simps, simp)

lemma full_lines_append: "full_lines (bs @ cs) = full_lines bs @ full_lines (leftover bs @ cs)"
proof (induction bs rule: full_lines.induct)
  case (1 bs)
  show ?case
  proof (cases "length bs \<ge> 48")
    case True
    with 1 show ?thesis
      by (simp add: full_lines.simps [of "bs @ cs"] full_lines.simps [of bs] leftover.simps [of bs])
  next
    case False
    then show ?thesis by (simp add: full_lines.simps [of bs] leftover.simps [of bs])
  qed
qed

lemma leftover_append: "leftover (bs @ cs) = leftover (leftover bs @ cs)"
proof (induction bs rule: leftover.induct)
  case (1 bs)
  show ?case
  proof (cases "length bs \<ge> 48")
    case True
    with 1 show ?thesis
      by (simp add: leftover.simps [of "bs @ cs"] leftover.simps [of bs])
  next
    case False
    then show ?thesis by (simp add: leftover.simps [of bs])
  qed
qed

lemma length_full_lines: "length (full_lines bs) \<le> 2 * length bs"
proof (induction bs rule: full_lines.induct)
  case (1 bs)
  show ?case
  proof (cases "length bs \<ge> 48")
    case True
    with 1 length_b64_48 [of "take 48 bs"] show ?thesis by (subst full_lines.simps) simp
  next
    case False
    then show ?thesis by (subst full_lines.simps) simp
  qed
qed

lemma encode_lines_eq:
  assumes "n + 2 * length bs < 2 ^ 64"
  shows "encode_lines (bs @ rest) (length bs) out n =
    Some (leftover bs @ rest, length (leftover bs), out @ full_lines bs, n + length (full_lines bs))"
  using assms
proof (induction bs arbitrary: out n rule: full_lines.induct)
  case (1 bs)
  show ?case
  proof (cases "length bs \<ge> 48")
    case True
    then have t: "length (take 48 bs) = 48" by simp
    have blk: "EVP_EncodeBlock (bs @ rest) 48 = (b64 (take 48 bs) @ [0], 64)"
      using EVP_EncodeBlock_eq [of "take 48 bs" "drop 48 bs @ rest"] True length_b64_48 [OF t]
      by (simp flip: append_assoc)
    have s: "sz_add n 65 = n + 65" using 1(2) True by (simp add: sz_add_id)
    have "encode_lines (bs @ rest) (length bs) out n =
        encode_lines (drop 48 bs @ rest) (length (drop 48 bs)) (out @ b64 (take 48 bs) @ [10]) (n + 65)"
      using True by (subst encode_lines.simps) (simp add: blk s length_b64_48)
    also have "\<dots> = Some (leftover (drop 48 bs) @ rest, length (leftover (drop 48 bs)),
        (out @ b64 (take 48 bs) @ [10]) @ full_lines (drop 48 bs), (n + 65) + length (full_lines (drop 48 bs)))"
      using True 1(2) by (intro 1(1)) auto
    finally show ?thesis
      using True length_b64_48 [OF t] by (simp add: full_lines.simps [of bs] leftover.simps [of bs])
  next
    case False
    then show ?thesis
      by (simp add: encode_lines.simps full_lines.simps [of bs] leftover.simps [of bs])
  qed
qed

lemma take_mem_write_0: "take (length bs) (mem_write 0 bs m) = bs"
  by (simp add: mem_write_def)

text \<open>One update appends its input to the pending bytes, writes the lines that are then
  complete and keeps the rest.\<close>

lemma encode_update:
  assumes ok: "enc_ctx_ok ctx" and len: "length bs < 2 ^ 60"
    and r: "EVP_EncodeUpdate ctx (bs @ rest) (length bs) = (ctx', out, n)"
  shows "enc_ctx_ok ctx' \<and> pending ctx' = leftover (pending ctx @ bs) \<and>
    (\<exists>z. out = full_lines (pending ctx @ bs) @ z \<and> set z \<subseteq> {0}) \<and>
    n = (if length (full_lines (pending ctx @ bs)) > INT_MAX then 0 else length (full_lines (pending ctx @ bs)))"
proof -
  let ?p = "pending ctx" and ?u = "data_used ctx"
  have used: "?u < 48" and ld: "length (ctx_data ctx) = 48" and lp: "length ?p = ?u"
    using ok by (auto simp: enc_ctx_ok_def pending_def)
  consider "bs = []" | "bs \<noteq> []" "?u + length bs < 48" | "bs \<noteq> []" "48 \<le> ?u + length bs" by linarith
  then show ?thesis
  proof cases
    case 1
    then show ?thesis
      using r ok used lp by (auto simp: EVP_EncodeUpdate_def full_lines.simps leftover.simps)
  next
    case 2
    then have c: "48 - ?u > length bs" by linarith
    with 2 r have res: "ctx' = ctx\<lparr>ctx_data := mem_write ?u bs (ctx_data ctx), data_used := ?u + length bs\<rparr>"
      "out = []" "n = 0"
      using used by (auto simp: EVP_EncodeUpdate_def)
    have "take (?u + length bs) (mem_write ?u bs (ctx_data ctx)) = ?p @ bs"
      using used ld by (simp add: take_mem_write pending_def)
    then have "pending ctx' = ?p @ bs" by (simp add: pending_def res)
    moreover have "length (mem_write ?u bs (ctx_data ctx)) = 48" using 2 ld by simp
    ultimately show ?thesis
      using 2 lp res ok by (simp add: enc_ctx_ok_def full_lines.simps leftover.simps INT_MAX_def)
  next
    case 3
    then have nc: "\<not> 48 - ?u > length bs" by linarith
    let ?todo = "48 - ?u"
    let ?first = "?p @ take ?todo bs"
    have lf: "length ?first = 48" if "?u \<noteq> 0" using 3 used lp that by simp
    have data: "mem_write ?u (take ?todo bs) (ctx_data ctx) = ?first"
      using 3 used ld lp by (simp add: mem_write_def pending_def)
    define start where "start = (if ?u \<noteq> 0 then b64 ?first @ [10] else [])"
    define todo where "todo = (if ?u \<noteq> 0 then ?todo else 0)"
    define ctx1 where "ctx1 = (if ?u \<noteq> 0 then ctx\<lparr>ctx_data := ?first, data_used := 0\<rparr> else ctx)"
    have todo_le: "todo \<le> length bs" using 3 used by (auto simp: todo_def)
    have fl: "full_lines (?p @ bs) = start @ full_lines (drop todo bs)"
      and lo: "leftover (?p @ bs) = leftover (drop todo bs)"
    proof -
      have "full_lines (?p @ bs) = start @ full_lines (drop todo bs) \<and>
          leftover (?p @ bs) = leftover (drop todo bs)"
      proof (cases "?u = 0")
        case True
        then show ?thesis using lp by (simp add: start_def todo_def)
      next
        case False
        have split: "?p @ bs = ?first @ drop ?todo bs" by simp
        have "take 48 (?p @ bs) = ?first" "drop 48 (?p @ bs) = drop ?todo bs"
          using lf [OF False] lp used by simp_all
        moreover have "48 \<le> length (?p @ bs)" using 3 lp by simp
        ultimately show ?thesis
          using False by (simp add: full_lines.simps [of "?p @ bs"] leftover.simps [of "?p @ bs"] start_def todo_def)
      qed
      then show "full_lines (?p @ bs) = start @ full_lines (drop todo bs)"
        and "leftover (?p @ bs) = leftover (drop todo bs)" by auto
    qed
    have blk: "EVP_EncodeBlock ?first 48 = (b64 ?first @ [0], 64)" if "?u \<noteq> 0"
      using EVP_EncodeBlock_eq [of ?first "[]"] lf [OF that] length_b64_48 [OF lf [OF that]] by simp
    have b: "length (b64 ?first) = 64" if "?u \<noteq> 0" using length_b64_48 [OF lf [OF that]] .
    have "length start \<le> 65" using b by (simp add: start_def)
    moreover have "length (drop todo bs) \<le> length bs" by simp
    moreover have "length bs < 1152921504606846976" using len by simp
    ultimately have "length start + 2 * length (drop todo bs) < 18446744073709551616" by linarith
    then have small: "length start + 2 * length (drop todo bs) < 2 ^ 64" by simp
    have lines: "encode_lines (drop todo bs @ rest) (length bs - todo) start (length start) =
        Some (leftover (drop todo bs) @ rest, length (leftover (drop todo bs)),
          start @ full_lines (drop todo bs), length start + length (full_lines (drop todo bs)))"
      using encode_lines_eq [OF small, of rest start] by simp
    have res: "EVP_EncodeUpdate ctx (bs @ rest) (length bs) =
        (ctx1\<lparr>ctx_data := mem_write 0 (leftover (?p @ bs)) (ctx_data ctx1), data_used := length (leftover (?p @ bs))\<rparr>,
         full_lines (?p @ bs) @ (if full_lines (?p @ bs) = [] then [] else [0]),
         if length (full_lines (?p @ bs)) > INT_MAX then 0 else length (full_lines (?p @ bs)))"
    proof (cases "?u = 0")
      case True
      then show ?thesis
        using 3 nc lines lp
        by (simp add: EVP_EncodeUpdate_def start_def todo_def ctx1_def lo [symmetric] fl [symmetric])
    next
      case False
      have parts: "start = b64 ?first @ [10]" "todo = ?todo" "ctx1 = ctx\<lparr>ctx_data := ?first, data_used := 0\<rparr>"
        using False by (simp_all add: start_def todo_def ctx1_def)
      have "EVP_EncodeUpdate ctx (bs @ rest) (length bs) =
          (case encode_lines (drop todo bs @ rest) (length bs - todo) start (length start) of
             None \<Rightarrow> (ctx1, start, 0)
           | Some (inp, in_len, out, tot) \<Rightarrow>
               (ctx1\<lparr>ctx_data := mem_write 0 (take in_len inp) (ctx_data ctx1), data_used := in_len\<rparr>,
                out @ (if out = [] then [] else [0]), if tot > INT_MAX then 0 else tot))"
        using 3 nc False todo_le blk [OF False] b [OF False] data used
        unfolding EVP_EncodeUpdate_def parts by (simp add: Let_def)
      then show ?thesis by (simp add: lines lo fl)
    qed
    have d1: "length (ctx_data ctx1) = 48" using ld lf by (simp add: ctx1_def)
    have ll: "length (leftover (?p @ bs)) < 48" by (rule leftover_short)
    then show ?thesis
      using r res d1 by (auto simp: enc_ctx_ok_def pending_def take_mem_write_0)
  qed
qed

text \<open>A whole stream: the updates for a list of chunks, then the final call. The text is
  the first \<open>*out_len\<close> bytes of each call.\<close>

fun encode_chunks :: "EVP_ENCODE_CTX \<Rightarrow> u8 list list \<Rightarrow> u8 list" where
  "encode_chunks ctx [] =
     (case EVP_EncodeFinal ctx of (ctx', out, n) \<Rightarrow> take n out)"
| "encode_chunks ctx (c # cs) =
     (case EVP_EncodeUpdate ctx c (length c) of
        (ctx', out, n) \<Rightarrow> take n out @ encode_chunks ctx' cs)"

text \<open>The text of a byte string: complete lines, then the rest in a line of its own.\<close>

definition b64_text :: "u8 list \<Rightarrow> u8 list" where
  "b64_text bs = full_lines bs @ (if leftover bs = [] then [] else b64 (leftover bs) @ [10])"

lemma encode_chunks_eq:
  "enc_ctx_ok ctx \<Longrightarrow> length (pending ctx) + length (concat cs) < 2 ^ 29 \<Longrightarrow>
     encode_chunks ctx cs = b64_text (pending ctx @ concat cs)"
proof (induction cs arbitrary: ctx)
  case Nil
  have used: "data_used ctx < 48" and ld: "length (ctx_data ctx) = 48"
    using Nil.prems by (auto simp: enc_ctx_ok_def)
  have lp: "length (pending ctx) = data_used ctx" using used ld by (simp add: pending_def)
  have dat: "ctx_data ctx = pending ctx @ drop (data_used ctx) (ctx_data ctx)"
    by (simp add: pending_def)
  have "EVP_EncodeBlock (ctx_data ctx) (data_used ctx) = (b64 (pending ctx) @ [0], length (b64 (pending ctx)))"
    using EVP_EncodeBlock_eq [of "pending ctx" "drop (data_used ctx) (ctx_data ctx)"] lp dat by simp
  then show ?case
    using lp used by (auto simp: EVP_EncodeFinal_def b64_text_def full_lines.simps leftover.simps)
next
  case (Cons c cs)
  obtain ctx' out n where r: "EVP_EncodeUpdate ctx c (length c) = (ctx', out, n)"
    by (metis prod_cases3)
  let ?full = "full_lines (pending ctx @ c)"
  have len: "length c < 2 ^ 60" using Cons.prems(2) by simp
  from encode_update [OF Cons.prems(1) len, of "[]" ctx' out n] r
  have ok: "enc_ctx_ok ctx'" and p: "pending ctx' = leftover (pending ctx @ c)"
    and out: "\<exists>z. out = ?full @ z" and n: "n = (if length ?full > INT_MAX then 0 else length ?full)"
    by auto
  have "length ?full \<le> 2 * (length (pending ctx) + length c)"
    using length_full_lines [of "pending ctx @ c"] by simp
  then have "length ?full \<le> INT_MAX" using Cons.prems(2) by (simp add: INT_MAX_def)
  then have t: "take n out = ?full" using out n by auto
  have shorter: "length (leftover bs) \<le> length bs" for bs
    by (induction bs rule: leftover.induct) (subst leftover.simps, auto)
  have "length (pending ctx') + length (concat cs) < 2 ^ 29"
    using shorter [of "pending ctx @ c"] Cons.prems(2) by (simp add: p)
  from Cons.IH [OF ok this] show ?case
    using full_lines_append [of "pending ctx @ c" "concat cs"] leftover_append [of "pending ctx @ c" "concat cs"]
    by (simp add: r t p b64_text_def)
qed

lemma encode_stream: "length (concat cs) < 2 ^ 29 \<Longrightarrow> encode_chunks EVP_EncodeInit cs = b64_text (concat cs)"
  using encode_chunks_eq [of EVP_EncodeInit cs] by (simp add: EVP_EncodeInit_def enc_ctx_ok_def pending_def)

text \<open>Decoding a stream: characters one at a time, so any split into chunks is the same.\<close>

lemma decode_loop_append:
  "decode_loop ctx out (xs @ ys) =
     (case decode_loop ctx out xs of
        (False, ctx', out') \<Rightarrow> (False, ctx', out')
      | (True, ctx', out') \<Rightarrow> decode_loop ctx' out' ys)"
  by (induction ctx out xs rule: decode_loop.induct) (auto simp: Let_def split: option.splits)

definition dec_ready :: "EVP_ENCODE_CTX \<Rightarrow> bool" where
  "dec_ready ctx \<longleftrightarrow> length (ctx_data ctx) = 48 \<and> data_used ctx = 0 \<and> \<not> eof_seen ctx \<and> \<not> error_encountered ctx"

lemma decode_loop_quad:
  assumes "dec_ready ctx" and "\<not> is_b64_space a" "\<not> is_b64_space b" "\<not> is_b64_space c" "\<not> is_b64_space d"
    and q: "\<And>rest. base64_decode_quad (a # b # c # d # rest) = Some bs"
  shows "\<exists>data. length data = 48 \<and> decode_loop ctx out (a # b # c # d # cs) =
    decode_loop (ctx\<lparr>ctx_data := data, data_used := 0, eof_seen := (length bs < 3)\<rparr>) (out @ bs) cs"
proof -
  obtain d0 d1 d2 d3 dr where dat: "ctx_data ctx = d0 # d1 # d2 # d3 # dr"
    using assms(1) by (auto simp: dec_ready_def length_Suc_conv numeral_eq_Suc)
  then show ?thesis
    using assms by (intro exI [of _ "a # b # c # d # dr"])
      (auto simp: dec_ready_def Let_def numeral_2_eq_2 numeral_3_eq_3)
qed

text \<open>The state after whole quads: ready for more, unless padding was seen.\<close>

definition dec_done :: "bool \<Rightarrow> EVP_ENCODE_CTX \<Rightarrow> bool" where
  "dec_done eof ctx \<longleftrightarrow> length (ctx_data ctx) = 48 \<and> data_used ctx = 0 \<and> eof_seen ctx = eof \<and> \<not> error_encountered ctx"

lemma dec_ready_done: "dec_ready ctx = dec_done False ctx"
  by (auto simp: dec_ready_def dec_done_def)

lemma pad_not_space: "\<not> is_b64_space 61"
  by (simp add: is_b64_space_def)

lemma decode_loop_b64:
  "dec_ready ctx \<Longrightarrow>
     \<exists>ctx'. decode_loop ctx out (b64 bs @ cs) = decode_loop ctx' (out @ bs) cs \<and>
       dec_done (length bs mod 3 \<noteq> 0) ctx'"
proof (induction bs arbitrary: ctx out rule: b64.induct)
  case 1
  then show ?case by (intro exI [of _ ctx]) (simp add: dec_ready_done)
next
  case (2 a)
  let ?n = "group_nat a 0 0"
  have q: "?n div 262144 mod 64 < 64" "?n div 4096 mod 64 < 64" by simp_all
  from decode_loop_quad [OF 2, of "b64_char (?n div 262144 mod 64)" "b64_char (?n div 4096 mod 64)" 61 61 "[a]" out cs]
    b64_char_not_pad [OF q(1)] b64_char_not_pad [OF q(2)] pad_not_space decode_group_1 [of a]
  obtain data where d: "length data = 48" "decode_loop ctx out (b64 [a] @ cs) =
      decode_loop (ctx\<lparr>ctx_data := data, data_used := 0, eof_seen := True\<rparr>) (out @ [a]) cs"
    by (auto simp: b64_group_def)
  then show ?case
    using 2 by (intro exI [of _ "ctx\<lparr>ctx_data := data, data_used := 0, eof_seen := True\<rparr>"])
      (simp add: dec_ready_done dec_done_def)
next
  case (3 a b)
  let ?n = "group_nat a b 0"
  have q: "?n div 262144 mod 64 < 64" "?n div 4096 mod 64 < 64" "?n div 64 mod 64 < 64" by simp_all
  from decode_loop_quad [OF 3, of "b64_char (?n div 262144 mod 64)" "b64_char (?n div 4096 mod 64)"
      "b64_char (?n div 64 mod 64)" 61 "[a, b]" out cs]
    b64_char_not_pad [OF q(1)] b64_char_not_pad [OF q(2)] b64_char_not_pad [OF q(3)]
    pad_not_space decode_group_2 [of a b]
  obtain data where d: "length data = 48" "decode_loop ctx out (b64 [a, b] @ cs) =
      decode_loop (ctx\<lparr>ctx_data := data, data_used := 0, eof_seen := True\<rparr>) (out @ [a, b]) cs"
    by (auto simp: b64_group_def)
  then show ?case
    using 3 by (intro exI [of _ "ctx\<lparr>ctx_data := data, data_used := 0, eof_seen := True\<rparr>"])
      (simp add: dec_ready_done dec_done_def)
next
  case (4 a b c bs)
  let ?n = "group_nat a b c"
  have q: "?n div 262144 mod 64 < 64" "?n div 4096 mod 64 < 64" "?n div 64 mod 64 < 64" "?n mod 64 < 64" by simp_all
  from decode_loop_quad [OF 4(2), of "b64_char (?n div 262144 mod 64)" "b64_char (?n div 4096 mod 64)"
      "b64_char (?n div 64 mod 64)" "b64_char (?n mod 64)" "[a, b, c]" out "b64 bs @ cs"]
    b64_char_not_pad [OF q(1)] b64_char_not_pad [OF q(2)] b64_char_not_pad [OF q(3)] b64_char_not_pad [OF q(4)]
    decode_group [of a b c]
  obtain data where d: "length data = 48" "decode_loop ctx out (b64 (a # b # c # bs) @ cs) =
      decode_loop (ctx\<lparr>ctx_data := data, data_used := 0, eof_seen := False\<rparr>) (out @ [a, b, c]) (b64 bs @ cs)"
    by (auto simp: b64_group_def)
  have "dec_ready (ctx\<lparr>ctx_data := data, data_used := 0, eof_seen := False\<rparr>)"
    using 4(2) d(1) by (simp add: dec_ready_def)
  from 4(1) [OF this, of "out @ [a, b, c]"] d(2) show ?case by auto
qed

lemma newline_skipped: "decode_loop ctx out (10 # cs) = decode_loop ctx out cs"
  by (simp add: is_b64_space_def)

lemma decode_loop_lines:
  "dec_ready ctx \<Longrightarrow>
     \<exists>ctx'. decode_loop ctx out (full_lines bs @ cs) =
       decode_loop ctx' (out @ take (length bs - length (leftover bs)) bs) cs \<and> dec_ready ctx'"
proof (induction bs arbitrary: ctx out rule: full_lines.induct)
  case (1 bs)
  show ?case
  proof (cases "length bs \<ge> 48")
    case True
    have l48: "length (take 48 bs) mod 3 = 0" using True by simp
    from decode_loop_b64 [OF 1(2), of out "take 48 bs" "10 # full_lines (drop 48 bs) @ cs"] l48 obtain c1 where
      c1: "decode_loop ctx out (b64 (take 48 bs) @ 10 # full_lines (drop 48 bs) @ cs) =
        decode_loop c1 (out @ take 48 bs) (full_lines (drop 48 bs) @ cs)" "dec_ready c1"
      by (auto simp: dec_ready_done newline_skipped simp del: decode_loop.simps)
    from 1(1) [OF True c1(2), of "out @ take 48 bs"] obtain c2 where
      c2: "decode_loop c1 (out @ take 48 bs) (full_lines (drop 48 bs) @ cs) =
        decode_loop c2 ((out @ take 48 bs) @ take (length (drop 48 bs) - length (leftover (drop 48 bs))) (drop 48 bs)) cs"
        "dec_ready c2" by blast
    have shorter: "length (leftover xs) \<le> length xs" for xs
      by (induction xs rule: leftover.induct) (subst leftover.simps, auto)
    have "take 48 bs @ take (length (drop 48 bs) - length (leftover (drop 48 bs))) (drop 48 bs) =
        take (length bs - length (leftover bs)) bs"
      using True shorter [of "drop 48 bs"]
      by (simp add: leftover.simps [of bs] take_add [symmetric])
    with c1 c2 show ?thesis
      using True by (intro exI [of _ c2]) (simp add: full_lines.simps [of bs])
  next
    case False
    then show ?thesis
      using 1(2) by (intro exI [of _ ctx]) (simp add: full_lines.simps [of bs] leftover.simps [of bs])
  qed
qed

lemma leftover_suffix: "bs = take (length bs - length (leftover bs)) bs @ leftover bs"
proof (induction bs rule: leftover.induct)
  case (1 bs)
  show ?case
  proof (cases "length bs \<ge> 48")
    case True
    have shorter: "length (leftover xs) \<le> length xs" for xs
      by (induction xs rule: leftover.induct) (subst leftover.simps, auto)
    have "bs = take 48 bs @ drop 48 bs" by simp
    also have "drop 48 bs = take (length (drop 48 bs) - length (leftover (drop 48 bs))) (drop 48 bs) @ leftover (drop 48 bs)"
      using 1 True by blast
    also have "take 48 bs @ take (length (drop 48 bs) - length (leftover (drop 48 bs))) (drop 48 bs) @ leftover (drop 48 bs) =
        take (length bs - length (leftover bs)) bs @ leftover bs"
      using True shorter [of "drop 48 bs"]
      by (simp add: leftover.simps [of bs] take_add [symmetric] flip: append_assoc)
    finally show ?thesis .
  next
    case False
    then show ?thesis by (simp add: leftover.simps [of bs])
  qed
qed

lemma leftover_mod: "length (leftover bs) mod 3 = length bs mod 3"
proof (induction bs rule: leftover.induct)
  case (1 bs)
  show ?case
  proof (cases "length bs \<ge> 48")
    case True
    then have "length bs = length (drop 48 bs) + 16 * 3" by simp
    then have "length bs mod 3 = length (drop 48 bs) mod 3" by (metis mod_mult_self1)
    with 1 True show ?thesis by (simp add: leftover.simps [of bs])
  qed (simp add: leftover.simps [of bs])
qed

lemma decode_text:
  assumes "length bs \<le> INT_MAX"
  shows "\<exists>ctx'. EVP_DecodeUpdate EVP_DecodeInit (b64_text bs) (length (b64_text bs)) =
      (if length bs mod 3 = 0 then 1 else 0, ctx', bs, length bs) \<and> EVP_DecodeFinal ctx' = 1"
proof -
  have init: "dec_ready EVP_DecodeInit" by (simp add: dec_ready_def EVP_DecodeInit_def)
  let ?lo = "leftover bs"
  let ?tail = "if ?lo = [] then [] else b64 ?lo @ [10]"
  from decode_loop_lines [OF init, of "[]" bs ?tail] obtain c1 where
    c1: "decode_loop EVP_DecodeInit [] (b64_text bs) =
      decode_loop c1 (take (length bs - length ?lo) bs) ?tail" "dec_ready c1"
    by (auto simp: b64_text_def)
  have "\<exists>c2. decode_loop c1 (take (length bs - length ?lo) bs) ?tail = (True, c2, bs) \<and>
      dec_done (length bs mod 3 \<noteq> 0) c2"
  proof (cases "?lo = []")
    case True
    then have "length bs mod 3 = 0" using leftover_mod [of bs] by simp
    then show ?thesis using True c1(2) by (simp add: dec_ready_done)
  next
    case False
    from decode_loop_b64 [OF c1(2), of "take (length bs - length ?lo) bs" ?lo "[10]"] obtain c2 where
      "decode_loop c1 (take (length bs - length ?lo) bs) (b64 ?lo @ [10]) =
        decode_loop c2 (take (length bs - length ?lo) bs @ ?lo) [10]" "dec_done (length ?lo mod 3 \<noteq> 0) c2"
      by blast
    with False show ?thesis
      using leftover_suffix [of bs] leftover_mod [of bs] by (simp add: newline_skipped del: decode_loop.simps(2))
  qed
  then obtain c2 where "decode_loop EVP_DecodeInit [] (b64_text bs) = (True, c2, bs)"
    and "dec_done (length bs mod 3 \<noteq> 0) c2" using c1 by auto
  then show ?thesis
    using assms by (intro exI [of _ c2])
      (auto simp: EVP_DecodeUpdate_def EVP_DecodeFinal_def EVP_DecodeInit_def dec_done_def)
qed

text \<open>The sizes the callers are told are enough.\<close>

lemma encoded_length:
  assumes "EVP_EncodedLength (length bs) = Some n" and "length bs < 2 ^ 64"
  shows "n = length (b64 bs) + 1"
proof -
  have a: "sz_add (length bs) 2 = length bs + 2"
    using assms sz_add_overflow [of "length bs" 2] by (auto simp: EVP_EncodedLength_def sz_add_def split: if_splits)
  let ?q = "(length bs + 2) div 3"
  have r: "sz_mul ?q 4 div 4 = ?q" and n: "n = sz_add (sz_mul ?q 4) 1" and nov: "\<not> sz_add (sz_mul ?q 4) 1 < sz_mul ?q 4"
    using assms(1) by (auto simp: EVP_EncodedLength_def Let_def a split: if_splits)
  have q4: "?q * 4 < 2 ^ 64"
  proof (rule ccontr)
    assume "\<not> ?q * 4 < 2 ^ 64"
    then have "sz_mul ?q 4 < ?q * 4" unfolding sz_mul_def by (meson leI less_le_trans mod_less_divisor zero_less_numeral zero_less_power)
    then have "sz_mul ?q 4 div 4 < ?q" by (simp add: div_less_iff_less_mult)
    with r show False by simp
  qed
  then have m: "sz_mul ?q 4 = ?q * 4" by (rule sz_mul_id)
  have "sz_add (?q * 4) 1 = ?q * 4 + 1"
    using q4 nov sz_add_overflow [of "?q * 4" 1] unfolding m by (simp add: sz_add_def)
  then show ?thesis using n m by (simp add: length_b64)
qed

end
