(* ===== verification/Buf_Mem.thy ===== *)
theory Buf_Mem
  imports OpenSSL_Mem Sink
begin

text \<open>
  The growable buffer of \<open>crypto/buf/buf.c\<close>: its record, every operation, what each does to
  the contents on success and on failure, and the buffer as a provider of the sink
  interface. The functions \<open>BUF_strdup\<close>, \<open>BUF_strlcpy\<close> and so on only
  forward to \<open>crypto/mem.c\<close>.
\<close>

section \<open>State and operations\<close>

text \<open>\<open>bm_data\<close> is the whole allocated block; a NULL \<open>data\<close> is the empty block.\<close>

record BUF_MEM =
  bm_length :: nat
  bm_data :: "u8 list"
  bm_max :: nat

definition sizeof_BUF_MEM :: nat where
  "sizeof_BUF_MEM = 24"

definition BUF_MEM_new :: "allocator \<Rightarrow> BUF_MEM option" where
  "BUF_MEM_new m =
     (case OPENSSL_malloc m sizeof_BUF_MEM of
        None \<Rightarrow> None
      | Some _ \<Rightarrow> Some \<lparr>bm_length = 0, bm_data = [], bm_max = 0\<rparr>)"

text \<open>The memory handed back to the system: the data block, wiped.\<close>

definition BUF_MEM_free :: "BUF_MEM option \<Rightarrow> u8 list" where
  "BUF_MEM_free buf =
     (case buf of None \<Rightarrow> [] | Some b \<Rightarrow> OPENSSL_cleanse (bm_data b) (length (bm_data b)))"

definition BUF_MEM_reserve :: "allocator \<Rightarrow> nat \<Rightarrow> BUF_MEM \<Rightarrow> bool \<times> BUF_MEM" where
  "BUF_MEM_reserve m cap buf =
     (if bm_max buf \<ge> cap then (True, buf)
      else
        let n = sz_add cap 3
        in if n < cap then (False, buf)
           else
             let n = n div 3;
                 alloc_size = sz_mul n 4
             in if alloc_size div 4 \<noteq> n then (False, buf)
                else case OPENSSL_realloc m (bm_data buf) alloc_size of
                       None \<Rightarrow> (False, buf)
                     | Some new_buf \<Rightarrow> (True, buf\<lparr>bm_data := new_buf, bm_max := alloc_size\<rparr>))"

text \<open>The returned number is the code's \<open>size_t\<close> result.\<close>

definition BUF_MEM_grow :: "allocator \<Rightarrow> nat \<Rightarrow> BUF_MEM \<Rightarrow> nat \<times> BUF_MEM" where
  "BUF_MEM_grow m len buf =
     (case BUF_MEM_reserve m len buf of
        (False, buf) \<Rightarrow> (0, buf)
      | (True, buf) \<Rightarrow>
          let buf = (if bm_length buf < len
                     then buf\<lparr>bm_data := mem_write (bm_length buf)
                                 (replicate (len - bm_length buf) 0) (bm_data buf)\<rparr>
                     else buf)
          in (len, buf\<lparr>bm_length := len\<rparr>))"

definition BUF_MEM_grow_clean :: "allocator \<Rightarrow> nat \<Rightarrow> BUF_MEM \<Rightarrow> nat \<times> BUF_MEM" where
  "BUF_MEM_grow_clean m len buf = BUF_MEM_grow m len buf"

definition BUF_MEM_append :: "allocator \<Rightarrow> u8 list \<Rightarrow> nat \<Rightarrow> BUF_MEM \<Rightarrow> bool \<times> BUF_MEM" where
  "BUF_MEM_append m inp len buf =
     (if len = 0 then (True, buf)
      else
        let new_len = sz_add (bm_length buf) len
        in if new_len < len then (False, buf)
           else case BUF_MEM_reserve m new_len buf of
                  (False, buf) \<Rightarrow> (False, buf)
                | (True, buf) \<Rightarrow>
                    (True, buf\<lparr>bm_data := mem_write (bm_length buf) (take len inp) (bm_data buf),
                               bm_length := new_len\<rparr>))"

definition BUF_strdup :: "allocator \<Rightarrow> u8 list option \<Rightarrow> u8 list option" where
  "BUF_strdup m str = OPENSSL_strdup m str"

definition BUF_strnlen :: "u8 list \<Rightarrow> nat \<Rightarrow> nat" where
  "BUF_strnlen str max_len = OPENSSL_strnlen str max_len"

definition BUF_strndup :: "allocator \<Rightarrow> u8 list option \<Rightarrow> nat \<Rightarrow> u8 list option" where
  "BUF_strndup m str sz = OPENSSL_strndup m str sz"

definition BUF_strlcpy :: "u8 list \<Rightarrow> u8 list \<Rightarrow> nat \<Rightarrow> u8 list \<times> nat" where
  "BUF_strlcpy dst src dst_size = OPENSSL_strlcpy dst 0 src dst_size"

definition BUF_strlcat :: "u8 list \<Rightarrow> u8 list \<Rightarrow> nat \<Rightarrow> u8 list \<times> nat" where
  "BUF_strlcat dst src dst_size = OPENSSL_strlcat dst src dst_size"

definition BUF_memdup :: "allocator \<Rightarrow> u8 list \<Rightarrow> nat \<Rightarrow> u8 list option" where
  "BUF_memdup m data sz = OPENSSL_memdup m data sz"

section \<open>Invariant and contents\<close>

definition buf_mem_ok :: "BUF_MEM \<Rightarrow> bool" where
  "buf_mem_ok buf \<longleftrightarrow>
     length (bm_data buf) = bm_max buf \<and> bm_length buf \<le> bm_max buf \<and> bm_max buf + 8 < 2 ^ 63"

definition contents :: "BUF_MEM \<Rightarrow> u8 list" where
  "contents buf = take (bm_length buf) (bm_data buf)"

lemma length_contents: "buf_mem_ok buf \<Longrightarrow> length (contents buf) = bm_length buf"
  by (simp add: buf_mem_ok_def contents_def)

lemma BUF_MEM_new_ok: "BUF_MEM_new m = Some buf \<Longrightarrow> buf_mem_ok buf \<and> contents buf = []"
  by (auto simp: BUF_MEM_new_def buf_mem_ok_def contents_def split: option.splits)

text \<open>The next capacity is enough and grows by about a third.\<close>

lemma reserve_size:
  fixes cap :: nat
  assumes "cap < 2 ^ 63 + 2 ^ 61"
  shows "sz_add cap 3 = cap + 3" and "sz_mul ((cap + 3) div 3) 4 = (cap + 3) div 3 * 4"
    and "cap < (cap + 3) div 3 * 4" and "(cap + 3) div 3 * 4 + 8 < 2 ^ 64"
proof -
  have q: "cap + 3 \<le> (cap + 3) div 3 * 3 + 2"
    using div_mult_mod_eq [of "cap + 3" 3] mod_less_divisor [of 3 "cap + 3"] by linarith
  have u: "(cap + 3) div 3 * 3 \<le> cap + 3" by (rule div_times_less_eq_dividend)
  show "sz_add cap 3 = cap + 3" using assms by (simp add: size_simps)
  show "cap < (cap + 3) div 3 * 4" using q by linarith
  show s: "(cap + 3) div 3 * 4 + 8 < 2 ^ 64" using u assms by simp
  then show "sz_mul ((cap + 3) div 3) 4 = (cap + 3) div 3 * 4" by (intro sz_mul_id) simp
qed

lemma BUF_MEM_reserve_Some:
  assumes m: "malloc_ok m" and ok: "buf_mem_ok buf" and cap: "cap < 2 ^ 63 + 2 ^ 61"
    and r: "BUF_MEM_reserve m cap buf = (True, buf')"
  shows "buf_mem_ok buf' \<and> bm_length buf' = bm_length buf \<and> contents buf' = contents buf \<and> cap \<le> bm_max buf'"
proof (cases "bm_max buf \<ge> cap")
  case True
  with ok r show ?thesis by (simp add: BUF_MEM_reserve_def)
next
  case False
  note sz = reserve_size [OF cap]
  let ?n = "(cap + 3) div 3 * 4"
  from r False obtain p where p: "OPENSSL_realloc m (bm_data buf) ?n = Some p"
    and b: "buf' = buf\<lparr>bm_data := p, bm_max := ?n\<rparr>"
    by (auto simp: BUF_MEM_reserve_def Let_def sz split: option.splits if_splits)
  have le: "length (bm_data buf) \<le> ?n" using ok False sz(3) by (simp add: buf_mem_ok_def)
  note re = OPENSSL_realloc_Some [OF m p sz(4) le]
  have "take (bm_length buf) p = take (bm_length buf) (bm_data buf)"
  proof -
    have "take (bm_length buf) p = take (bm_length buf) (take (length (bm_data buf)) p)"
      using ok by (simp add: buf_mem_ok_def min_def)
    with re(2) show ?thesis by simp
  qed
  then show ?thesis
    using re(1,3) ok False sz(3) by (simp add: b buf_mem_ok_def contents_def)
qed

lemma BUF_MEM_reserve_fail:
  "BUF_MEM_reserve m cap buf = (False, buf') \<Longrightarrow> buf' = buf"
  by (auto simp: BUF_MEM_reserve_def Let_def split: option.splits if_splits)

text \<open>A failed append changes nothing; a successful one adds the bytes.\<close>

lemma BUF_MEM_append_fail:
  assumes "BUF_MEM_append m inp len buf = (False, buf')" shows "buf' = buf"
  using assms BUF_MEM_reserve_fail [of m "sz_add (bm_length buf) len" buf]
  by (auto simp: BUF_MEM_append_def Let_def split: if_splits prod.splits bool.splits)

lemma BUF_MEM_append_Some:
  assumes m: "malloc_ok m" and ok: "buf_mem_ok buf"
    and len: "len \<le> length inp" "len < 2 ^ 61"
    and r: "BUF_MEM_append m inp len buf = (True, buf')"
  shows "buf_mem_ok buf' \<and> contents buf' = contents buf @ take len inp"
proof (cases "len = 0")
  case True
  with ok r show ?thesis by (simp add: BUF_MEM_append_def)
next
  case False
  have bnd: "bm_length buf + len < 2 ^ 63 + 2 ^ 61" using len(2) ok by (simp add: buf_mem_ok_def)
  then have new: "sz_add (bm_length buf) len = bm_length buf + len" by (simp add: size_simps)
  from r False obtain b where b: "BUF_MEM_reserve m (bm_length buf + len) buf = (True, b)"
    and b': "buf' = b\<lparr>bm_data := mem_write (bm_length b) (take len inp) (bm_data b),
                      bm_length := bm_length buf + len\<rparr>"
    by (auto simp: BUF_MEM_append_def Let_def new split: if_splits prod.splits bool.splits)
  from BUF_MEM_reserve_Some [OF m ok bnd b] have b_ok: "buf_mem_ok b"
    and bl: "bm_length b = bm_length buf" and bc: "contents b = contents buf"
    and bm: "bm_length buf + len \<le> bm_max b" by auto
  have "take (bm_length buf + length (take len inp)) (mem_write (bm_length buf) (take len inp) (bm_data b))
      = take (bm_length buf) (bm_data b) @ take len inp"
    by (rule take_mem_write) (use b_ok bm in \<open>auto simp: buf_mem_ok_def\<close>)
  moreover have "length (take len inp) = len" using len(1) by simp
  ultimately show ?thesis
    using b_ok bl bc bm by (simp only: b' buf_mem_ok_def contents_def) simp
qed

lemma BUF_MEM_grow_Some:
  assumes m: "malloc_ok m" and ok: "buf_mem_ok buf" and len: "len < 2 ^ 63 + 2 ^ 61" "0 < len"
    and r: "BUF_MEM_grow m len buf = (n, buf')" and n: "n \<noteq> 0"
  shows "n = len \<and> buf_mem_ok buf' \<and>
      contents buf' = take len (contents buf) @ replicate (len - bm_length buf) 0"
proof -
  from r n obtain b where b: "BUF_MEM_reserve m len buf = (True, b)"
    by (auto simp: BUF_MEM_grow_def split: prod.splits bool.splits)
  from BUF_MEM_reserve_Some [OF m ok len(1) b] have b_ok: "buf_mem_ok b"
    and bl: "bm_length b = bm_length buf" and bc: "contents b = contents buf"
    and bm: "len \<le> bm_max b" by auto
  show ?thesis
  proof (cases "bm_length buf < len")
    case True
    have "take (bm_length buf + length (replicate (len - bm_length buf) (0 :: u8)))
        (mem_write (bm_length buf) (replicate (len - bm_length buf) 0) (bm_data b))
      = take (bm_length buf) (bm_data b) @ replicate (len - bm_length buf) 0"
      by (rule take_mem_write) (use b_ok bl in \<open>auto simp: buf_mem_ok_def\<close>)
    moreover have "take len (contents buf) = contents buf"
      using True length_contents [OF ok] by simp
    ultimately show ?thesis
      using r b b_ok bl bc bm True by (auto simp: BUF_MEM_grow_def buf_mem_ok_def contents_def)
  next
    case False
    then have "take len (bm_data b) = take len (contents b)"
      using bl by (simp add: contents_def min_def)
    with bc have "take len (bm_data b) = take len (contents buf)" by simp
    then show ?thesis
      using r b b_ok bl bm False by (auto simp: BUF_MEM_grow_def buf_mem_ok_def contents_def [of "b\<lparr>bm_length := n\<rparr>" for n])
  qed
qed

section \<open>The buffer as a sink\<close>

definition buf_holds :: "allocator \<Rightarrow> BUF_MEM \<Rightarrow> u8 list \<Rightarrow> bool" where
  "buf_holds m buf w \<longleftrightarrow> malloc_ok m \<and> buf_mem_ok buf \<and> contents buf = w"

definition buf_room :: "allocator \<Rightarrow> BUF_MEM \<Rightarrow> nat \<Rightarrow> bool" where
  "buf_room m buf n \<longleftrightarrow> n < 2 ^ 61 \<and> (n \<le> bm_max buf \<or> (\<forall>k < 2 ^ 63. m k \<noteq> None))"

lemma BUF_MEM_reserve_total:
  assumes "buf_room m buf n" and "cap \<le> n"
  shows "\<exists>buf'. BUF_MEM_reserve m cap buf = (True, buf') \<and> buf_room m buf' n"
proof (cases "bm_max buf \<ge> cap")
  case True
  with assms show ?thesis by (simp add: BUF_MEM_reserve_def)
next
  case False
  with assms have never: "\<forall>k < 2 ^ 63. m k \<noteq> None" and n: "n < 2 ^ 61" by (auto simp: buf_room_def)
  have c: "cap < 2 ^ 61" using assms(2) n by simp
  then have "cap < 2 ^ 63 + 2 ^ 61" by simp
  note sz = reserve_size [OF this]
  have "(cap + 3) div 3 * 4 + 8 < 2 ^ 63" using c div_times_less_eq_dividend [of "cap + 3" 3] by simp
  with never obtain blk where "m ((cap + 3) div 3 * 4 + 8) = Some blk" by blast
  with False sz n never show ?thesis
    by (simp add: BUF_MEM_reserve_def Let_def OPENSSL_realloc_def OPENSSL_malloc_def
        OPENSSL_MALLOC_PREFIX_def sz_add_id buf_room_def)
qed

interpretation buf_bytes: total_sink "\<lambda>x. BUF_MEM_append m x (length x)" "\<lambda>x. x"
    "\<lambda>x. length x < 2 ^ 61" "buf_holds m" "buf_room m" for m
proof unfold_locales
  fix x s w s'
  assume "length x < 2 ^ 61" "buf_holds m s w" "BUF_MEM_append m x (length x) s = (True, s')"
  then show "buf_holds m s' (w @ x)"
    using BUF_MEM_append_Some [of m s "length x" x s'] by (simp add: buf_holds_def)
next
  fix x :: "u8 list" and s w n
  assume x: "length x < 2 ^ 61" and h: "buf_holds m s w" and room: "buf_room m s n"
    and le: "length w + length x \<le> n"
  have l: "bm_length s = length w" using h length_contents [of s] by (simp add: buf_holds_def)
  have n: "n < 2 ^ 61" using room by (simp add: buf_room_def)
  then have new: "sz_add (bm_length s) (length x) = bm_length s + length x"
    using le l by (simp add: size_simps)
  from BUF_MEM_reserve_total [OF room, of "bm_length s + length x"] le l obtain b where
    "BUF_MEM_reserve m (bm_length s + length x) s = (True, b)" "buf_room m b n" by auto
  then show "\<exists>s'. BUF_MEM_append m x (length x) s = (True, s') \<and> buf_room m s' n"
    using room by (auto simp: BUF_MEM_append_def new buf_room_def)
qed

text \<open>A sequence of appends writes the concatenation, and does not fail within the room.\<close>

lemma append_all:
  assumes "malloc_ok m" and "buf_mem_ok buf" and "\<forall>x \<in> set xs. length x < 2 ^ 61"
    and "buf_room m buf n" and "bm_length buf + length (concat xs) \<le> n"
  shows "\<exists>buf'. put_all (\<lambda>x. BUF_MEM_append m x (length x)) xs buf = (True, buf') \<and>
      buf_mem_ok buf' \<and> contents buf' = contents buf @ concat xs"
  using buf_bytes.put_all_total [of xs m buf "contents buf" n] assms length_contents [of buf]
  by (auto simp: buf_holds_def)

end
