(* ===== verification/Sk_Stack.thy ===== *)
theory Sk_Stack
  imports OpenSSL_Mem Comparator
begin

text \<open>
  The pointer stacks of \<open>crypto/stack/stack.c\<close> (\<open>STACK_OF(T)\<close>): the record, every
  operation, the refinement of each to a list operation, and the search with and without
  the \<open>sorted\<close> flag.

  A pointer is a \<open>'p option\<close>, NULL being \<open>None\<close>; a function pointer for comparing is a
  \<open>'c option\<close>, called through the parameter \<open>call\<close> as the code calls it through
  \<open>call_cmp_func\<close>. A stack argument may be NULL too. The allocator is that of
  \<open>OpenSSL_Mem\<close>, with \<open>h_ptr\<close> reading a pointer from eight bytes of fresh memory.
\<close>

section \<open>State\<close>

record ('p, 'c) STACK =
  st_num :: nat
  st_data :: "'p option list"
  st_sorted :: bool
  st_num_alloc :: nat
  st_comp :: "'c option"

record 'p heap =
  h_malloc :: allocator
  h_ptr :: "u8 list \<Rightarrow> 'p option"

definition sizeof_ptr :: nat where
  "sizeof_ptr = 8"

definition sizeof_STACK :: nat where
  "sizeof_STACK = 40"

text \<open>A block of bytes as the array of pointers it holds.\<close>

definition ptr_array :: "'p heap \<Rightarrow> u8 list \<Rightarrow> 'p option list" where
  "ptr_array h blk = map (\<lambda>i. h_ptr h (take 8 (drop (8 * i) blk))) [0..<length blk div 8]"

definition realloc_ptrs :: "'p heap \<Rightarrow> 'p option list \<Rightarrow> nat \<Rightarrow> 'p option list option" where
  "realloc_ptrs h old alloc_size =
     (case OPENSSL_malloc (h_malloc h) alloc_size of
        None \<Rightarrow> None
      | Some ret \<Rightarrow> Some (mem_write 0 (take (alloc_size div sizeof_ptr) old) (ptr_array h ret)))"

section \<open>Operations\<close>

definition kMinSize :: nat where
  "kMinSize = 4"

definition sk_new :: "'p heap \<Rightarrow> 'c option \<Rightarrow> ('p, 'c) STACK option" where
  "sk_new h cf =
     (case OPENSSL_malloc (h_malloc h) sizeof_STACK of
        None \<Rightarrow> None
      | Some _ \<Rightarrow>
          (case OPENSSL_malloc (h_malloc h) (sizeof_ptr * kMinSize) of
             None \<Rightarrow> None
           | Some data \<Rightarrow>
               Some \<lparr>st_num = 0, st_data = mem_write 0 (replicate kMinSize None) (ptr_array h data),
                     st_sorted = False, st_num_alloc = kMinSize, st_comp = cf\<rparr>))"

definition sk_new_null :: "'p heap \<Rightarrow> ('p, 'c) STACK option" where
  "sk_new_null h = sk_new h None"

definition sk_num :: "('p, 'c) STACK option \<Rightarrow> nat" where
  "sk_num sk = (case sk of None \<Rightarrow> 0 | Some sk \<Rightarrow> st_num sk)"

definition sk_zero :: "('p, 'c) STACK option \<Rightarrow> ('p, 'c) STACK option" where
  "sk_zero sk =
     (case sk of
        None \<Rightarrow> None
      | Some sk \<Rightarrow>
          if st_num sk = 0 then Some sk
          else Some (sk\<lparr>st_data := mem_write 0 (replicate (st_num sk) None) (st_data sk),
                        st_num := 0, st_sorted := False\<rparr>))"

definition sk_value :: "('p, 'c) STACK option \<Rightarrow> nat \<Rightarrow> 'p option" where
  "sk_value sk i =
     (case sk of
        None \<Rightarrow> None
      | Some sk \<Rightarrow> if i \<ge> st_num sk then None else st_data sk ! i)"

definition sk_set :: "('p, 'c) STACK option \<Rightarrow> nat \<Rightarrow> 'p option \<Rightarrow> 'p option \<times> ('p, 'c) STACK option" where
  "sk_set sk i v =
     (case sk of
        None \<Rightarrow> (None, None)
      | Some sk \<Rightarrow>
          if i \<ge> st_num sk then (None, Some sk)
          else (v, Some (sk\<lparr>st_data := (st_data sk)[i := v]\<rparr>)))"

text \<open>The number of blocks handed back: the array and the stack itself.\<close>

definition sk_free :: "('p, 'c) STACK option \<Rightarrow> nat" where
  "sk_free sk = (case sk of None \<Rightarrow> 0 | Some _ \<Rightarrow> 2)"

text \<open>Freeing an element is an effect on the caller's world \<open>'w\<close>.\<close>

fun free_loop :: "('p \<Rightarrow> 'w \<Rightarrow> 'w) \<Rightarrow> 'p option list \<Rightarrow> 'w \<Rightarrow> 'w" where
  "free_loop free [] w = w"
| "free_loop free (None # ps) w = free_loop free ps w"
| "free_loop free (Some p # ps) w = free_loop free ps (free p w)"

definition sk_pop_free_ex :: "('p, 'c) STACK option \<Rightarrow> ('p \<Rightarrow> 'w \<Rightarrow> 'w) \<Rightarrow> 'w \<Rightarrow> 'w" where
  "sk_pop_free_ex sk free w =
     (case sk of
        None \<Rightarrow> w
      | Some sk \<Rightarrow> free_loop free (take (st_num sk) (st_data sk)) w)"

text \<open>The new size of the array when it is full: doubled, or one more when that overflows;
  \<open>None\<close> when both overflow.\<close>

definition grown_alloc :: "nat \<Rightarrow> (nat \<times> nat) option" where
  "grown_alloc num_alloc =
     (let new_alloc = sz_mul num_alloc 2;
          alloc_size = sz_mul new_alloc sizeof_ptr;
          (new_alloc, alloc_size) =
            (if new_alloc < num_alloc \<or> alloc_size div sizeof_ptr \<noteq> new_alloc
             then (sz_add num_alloc 1, sz_mul (sz_add num_alloc 1) sizeof_ptr)
             else (new_alloc, alloc_size))
      in if new_alloc < num_alloc \<or> alloc_size div sizeof_ptr \<noteq> new_alloc then None
         else Some (new_alloc, alloc_size))"

definition sk_grow :: "'p heap \<Rightarrow> ('p, 'c) STACK \<Rightarrow> ('p, 'c) STACK option" where
  "sk_grow h sk =
     (if st_num_alloc sk \<le> sz_add (st_num sk) 1 then
        (case grown_alloc (st_num_alloc sk) of
           None \<Rightarrow> None
         | Some (new_alloc, alloc_size) \<Rightarrow>
             (case realloc_ptrs h (st_data sk) alloc_size of
                None \<Rightarrow> None
              | Some data \<Rightarrow> Some (sk\<lparr>st_data := data, st_num_alloc := new_alloc\<rparr>)))
      else Some sk)"

definition sk_insert ::
  "'p heap \<Rightarrow> ('p, 'c) STACK option \<Rightarrow> 'p option \<Rightarrow> nat \<Rightarrow> nat \<times> ('p, 'c) STACK option" where
  "sk_insert h sk p pos =
     (case sk of
        None \<Rightarrow> (0, None)
      | Some sk \<Rightarrow>
          (case sk_grow h sk of
             None \<Rightarrow> (0, Some sk)
           | Some sk \<Rightarrow>
               let data = (if pos \<ge> st_num sk then (st_data sk)[st_num sk := p]
                           else (mem_write (pos + 1)
                                  (take (st_num sk - pos) (drop pos (st_data sk)))
                                  (st_data sk))[pos := p]);
                   num = sz_add (st_num sk) 1
               in (num, Some (sk\<lparr>st_data := data, st_num := num, st_sorted := False\<rparr>))))"

definition sk_delete :: "('p, 'c) STACK option \<Rightarrow> nat \<Rightarrow> 'p option \<times> ('p, 'c) STACK option" where
  "sk_delete sk pos =
     (case sk of
        None \<Rightarrow> (None, None)
      | Some sk \<Rightarrow>
          if pos \<ge> st_num sk then (None, Some sk)
          else
            let ret = st_data sk ! pos;
                data = (if pos \<noteq> st_num sk - 1
                        then mem_write pos (take (st_num sk - pos - 1) (drop (pos + 1) (st_data sk)))
                               (st_data sk)
                        else st_data sk)
            in (ret, Some (sk\<lparr>st_data := data, st_num := st_num sk - 1\<rparr>)))"

text \<open>The loops that look for the first element with a property.\<close>

fun find_from :: "('a \<Rightarrow> bool) \<Rightarrow> nat \<Rightarrow> 'a list \<Rightarrow> nat option" where
  "find_from test i [] = None"
| "find_from test i (x # xs) = (if test x then Some i else find_from test (Suc i) xs)"

definition sk_delete_ptr :: "('p, 'c) STACK option \<Rightarrow> 'p option \<Rightarrow> 'p option \<times> ('p, 'c) STACK option" where
  "sk_delete_ptr sk p =
     (case sk of
        None \<Rightarrow> (None, None)
      | Some s \<Rightarrow>
          (case find_from (\<lambda>q. q = p) 0 (take (st_num s) (st_data s)) of
             None \<Rightarrow> (None, sk)
           | Some i \<Rightarrow> sk_delete sk i))"

definition sk_is_sorted :: "('p, 'c) STACK option \<Rightarrow> bool" where
  "sk_is_sorted sk = (case sk of None \<Rightarrow> True | Some sk \<Rightarrow> st_sorted sk)"

text \<open>The binary search; \<open>cmp\<close> is the comparison of the wanted element with another.\<close>

function sk_find_loop :: "('a \<Rightarrow> int) \<Rightarrow> 'a list \<Rightarrow> nat \<Rightarrow> nat \<Rightarrow> nat option" where
  "sk_find_loop cmp data lo hi =
     (if lo < hi then
        let mid = lo + (hi - lo - 1) div 2;
            r = cmp (data ! mid)
        in if r > 0 then sk_find_loop cmp data (mid + 1) hi
           else if r < 0 then sk_find_loop cmp data lo mid
           else if hi - lo = 1 then Some mid
           else sk_find_loop cmp data lo (mid + 1)
      else None)"
  by pat_completeness auto
termination
  by (relation "measure (\<lambda>(cmp, data, lo, hi). hi - lo)") auto

declare sk_find_loop.simps [simp del]

definition sk_find ::
  "('c \<Rightarrow> 'p option \<Rightarrow> 'p option \<Rightarrow> int) \<Rightarrow> ('p, 'c) STACK option \<Rightarrow> 'p option \<Rightarrow> nat option" where
  "sk_find call sk p =
     (case sk of
        None \<Rightarrow> None
      | Some s \<Rightarrow>
          (case st_comp s of
             None \<Rightarrow> find_from (\<lambda>q. q = p) 0 (take (st_num s) (st_data s))
           | Some cf \<Rightarrow>
               if p = None then None
               else if \<not> sk_is_sorted sk then
                 find_from (\<lambda>elem. call cf p elem = 0) 0 (take (st_num s) (st_data s))
               else sk_find_loop (call cf p) (st_data s) 0 (st_num s)))"

definition sk_shift :: "('p, 'c) STACK option \<Rightarrow> 'p option \<times> ('p, 'c) STACK option" where
  "sk_shift sk =
     (case sk of
        None \<Rightarrow> (None, None)
      | Some s \<Rightarrow> if st_num s = 0 then (None, sk) else sk_delete sk 0)"

definition sk_push :: "'p heap \<Rightarrow> ('p, 'c) STACK option \<Rightarrow> 'p option \<Rightarrow> nat \<times> ('p, 'c) STACK option" where
  "sk_push h sk p = sk_insert h sk p (sk_num sk)"

definition sk_pop :: "('p, 'c) STACK option \<Rightarrow> 'p option \<times> ('p, 'c) STACK option" where
  "sk_pop sk =
     (case sk of
        None \<Rightarrow> (None, None)
      | Some s \<Rightarrow> if st_num s = 0 then (None, sk) else sk_delete sk (st_num s - 1))"

definition sk_dup :: "'p heap \<Rightarrow> ('p, 'c) STACK option \<Rightarrow> ('p, 'c) STACK option" where
  "sk_dup h sk =
     (case sk of
        None \<Rightarrow> None
      | Some sk \<Rightarrow>
          (case sk_new h (st_comp sk) of
             None \<Rightarrow> None
           | Some ret \<Rightarrow>
               (case realloc_ptrs h (st_data ret) (sz_mul sizeof_ptr (st_num_alloc sk)) of
                  None \<Rightarrow> None
                | Some s \<Rightarrow>
                    Some \<lparr>st_num = st_num sk, st_data = mem_write 0 (take (st_num sk) (st_data sk)) s,
                          st_sorted = st_sorted sk, st_num_alloc = st_num_alloc sk,
                          st_comp = st_comp sk\<rparr>)))"

definition sk_sort ::
  "('c \<Rightarrow> 'p option \<Rightarrow> 'p option \<Rightarrow> int) \<Rightarrow> ('p, 'c) STACK option \<Rightarrow> ('p, 'c) STACK option" where
  "sk_sort call sk =
     (case sk of
        None \<Rightarrow> None
      | Some s \<Rightarrow>
          (case st_comp s of
             None \<Rightarrow> sk
           | Some cf \<Rightarrow>
               if st_sorted s then sk
               else
                 let s = (if st_num s \<ge> 2
                          then s\<lparr>st_data := mem_write 0
                                  (c_qsort (call cf) (take (st_num s) (st_data s))) (st_data s)\<rparr>
                          else s)
                 in Some (s\<lparr>st_sorted := True\<rparr>)))"

definition sk_set_cmp_func :: "('p, 'c) STACK \<Rightarrow> 'c option \<Rightarrow> 'c option \<times> ('p, 'c) STACK" where
  "sk_set_cmp_func sk cf =
     (let old = st_comp sk;
          sk = (if st_comp sk \<noteq> cf then sk\<lparr>st_sorted := False\<rparr> else sk)
      in (old, sk\<lparr>st_comp := cf\<rparr>))"

text \<open>The copying loop of \<open>sk_deep_copy\<close> at index \<open>i\<close>: \<open>copy\<close> may fail, and
  then the copies made so far are freed.\<close>

function copy_loop ::
  "('p \<Rightarrow> 'w \<Rightarrow> 'p option \<times> 'w) \<Rightarrow> ('p \<Rightarrow> 'w \<Rightarrow> 'w) \<Rightarrow> nat \<Rightarrow> nat \<Rightarrow> 'p option list \<Rightarrow> 'w \<Rightarrow>
     'p option list option \<times> 'w" where
  "copy_loop copy free i num data w =
     (if i < num then
        (case data ! i of
           None \<Rightarrow> copy_loop copy free (Suc i) num data w
         | Some p \<Rightarrow>
             (case copy p w of
                (None, w) \<Rightarrow> (None, free_loop free (take i data) w)
              | (Some q, w) \<Rightarrow> copy_loop copy free (Suc i) num (data[i := Some q]) w))
      else (Some data, w))"
  by pat_completeness auto
termination
  by (relation "measure (\<lambda>(copy, free, i, num, data, w). num - i)") auto

declare copy_loop.simps [simp del]

definition sk_deep_copy ::
  "'p heap \<Rightarrow> ('p, 'c) STACK option \<Rightarrow> ('p \<Rightarrow> 'w \<Rightarrow> 'p option \<times> 'w) \<Rightarrow> ('p \<Rightarrow> 'w \<Rightarrow> 'w) \<Rightarrow> 'w \<Rightarrow>
     ('p, 'c) STACK option \<times> 'w" where
  "sk_deep_copy h sk copy free w =
     (case sk_dup h sk of
        None \<Rightarrow> (None, w)
      | Some ret \<Rightarrow>
          (case copy_loop copy free 0 (st_num ret) (st_data ret) w of
             (None, w) \<Rightarrow> (None, w)
           | (Some data, w) \<Rightarrow> (Some (ret\<lparr>st_data := data\<rparr>), w)))"

section \<open>Invariant and the list of elements\<close>

definition sk_ok :: "('p, 'c) STACK \<Rightarrow> bool" where
  "sk_ok sk \<longleftrightarrow> length (st_data sk) = st_num_alloc sk \<and> st_num sk < st_num_alloc sk \<and>
     kMinSize \<le> st_num_alloc sk \<and> 8 * st_num_alloc sk + 8 < 2 ^ 63"

definition elems :: "('p, 'c) STACK \<Rightarrow> 'p option list" where
  "elems sk = take (st_num sk) (st_data sk)"

lemma length_elems: "sk_ok sk \<Longrightarrow> length (elems sk) = st_num sk"
  by (simp add: sk_ok_def elems_def)

lemma elems_nth: "sk_ok sk \<Longrightarrow> i < st_num sk \<Longrightarrow> elems sk ! i = st_data sk ! i"
  by (simp add: elems_def)

lemma length_ptr_array [simp]: "length (ptr_array h blk) = length blk div 8"
  by (simp add: ptr_array_def)

lemma realloc_ptrs_Some:
  assumes m: "malloc_ok (h_malloc h)" and n: "8 * n + 8 < 2 ^ 64" and le: "length old \<le> n"
    and r: "realloc_ptrs h old (8 * n) = Some new"
  shows "length new = n" and "take (length old) new = old" and "8 * n + 8 < 2 ^ 63"
proof -
  from r obtain ret where ret: "OPENSSL_malloc (h_malloc h) (8 * n) = Some ret"
    and new: "new = mem_write 0 (take n old) (ptr_array h ret)"
    by (auto simp: realloc_ptrs_def sizeof_ptr_def split: option.splits)
  from OPENSSL_malloc_Some [OF m ret] n have len: "length ret = 8 * n" and "8 * n + 8 < 2 ^ 63" by auto
  then show "8 * n + 8 < 2 ^ 63" by simp
  from new le have new': "new = mem_write 0 old (ptr_array h ret)" by simp
  show "length new = n" using len le by (simp add: new')
  show "take (length old) new = old" by (simp add: new' mem_write_def)
qed

lemma sk_new_ok:
  assumes m: "malloc_ok (h_malloc h)" and r: "sk_new h cf = Some sk"
  shows "sk_ok sk \<and> elems sk = [] \<and> st_comp sk = cf \<and> \<not> st_sorted sk"
proof -
  from r obtain d where d: "OPENSSL_malloc (h_malloc h) 32 = Some d"
    and sk: "sk = \<lparr>st_num = 0, st_data = mem_write 0 (replicate kMinSize None) (ptr_array h d),
        st_sorted = False, st_num_alloc = kMinSize, st_comp = cf\<rparr>"
    by (auto simp: sk_new_def sizeof_ptr_def kMinSize_def split: option.splits)
  from OPENSSL_malloc_Some(1) [OF m d] have "length d = 32" by simp
  then show ?thesis by (simp add: sk sk_ok_def elems_def kMinSize_def)
qed

section \<open>Insertion and deletion as list operations\<close>

lemma grown_alloc_eq:
  assumes "8 * n + 8 < 2 ^ 63"
  shows "grown_alloc n = Some (2 * n, 8 * (2 * n))"
proof -
  have "sz_mul n 2 = 2 * n" "sz_mul (2 * n) 8 = 8 * (2 * n)"
    using assms by (simp_all add: sz_mul_def)
  then show ?thesis by (simp add: grown_alloc_def sizeof_ptr_def Let_def)
qed

lemma sk_grow_Some:
  assumes m: "malloc_ok (h_malloc h)" and ok: "sk_ok sk" and r: "sk_grow h sk = Some sk1"
  shows "sk_ok sk1 \<and> st_num sk1 + 1 < st_num_alloc sk1 \<and> elems sk1 = elems sk \<and>
      st_num sk1 = st_num sk \<and> st_comp sk1 = st_comp sk"
proof -
  have num: "sz_add (st_num sk) 1 = st_num sk + 1" using ok by (simp add: sz_add_def sk_ok_def)
  show ?thesis
  proof (cases "st_num_alloc sk \<le> st_num sk + 1")
    case False
    with r ok num show ?thesis by (simp add: sk_grow_def)
  next
    case True
    let ?a = "2 * st_num_alloc sk"
    have g: "grown_alloc (st_num_alloc sk) = Some (?a, 8 * ?a)"
      using ok by (intro grown_alloc_eq) (simp add: sk_ok_def)
    from r True g num obtain data where data: "realloc_ptrs h (st_data sk) (8 * ?a) = Some data"
      and sk1: "sk1 = sk\<lparr>st_data := data, st_num_alloc := ?a\<rparr>"
      by (auto simp: sk_grow_def split: option.splits)
    have big: "8 * ?a + 8 < 2 ^ 64" "length (st_data sk) \<le> ?a" using ok by (simp_all add: sk_ok_def)
    note re = realloc_ptrs_Some [OF m big data]
    have "take (st_num sk) data = take (st_num sk) (take (length (st_data sk)) data)"
      using ok by (simp add: sk_ok_def min_def)
    then have "take (st_num sk) data = elems sk" using re(2) by (simp add: elems_def)
    then show ?thesis using re(1,3) ok by (simp add: sk1 sk_ok_def elems_def kMinSize_def)
  qed
qed

text \<open>A successful insertion is the insertion into the list of elements, and clears the
  \<open>sorted\<close> flag; a failed one changes nothing.\<close>

lemma sk_insert_Some:
  assumes m: "malloc_ok (h_malloc h)" and ok: "sk_ok sk"
    and r: "sk_insert h (Some sk) p pos = (n, Some sk')" and n: "n \<noteq> 0"
  shows "sk_ok sk' \<and> elems sk' = take pos (elems sk) @ [p] @ drop pos (elems sk) \<and>
      \<not> st_sorted sk' \<and> st_comp sk' = st_comp sk \<and> n = length (elems sk) + 1"
proof -
  from r n obtain s where g: "sk_grow h sk = Some s"
    by (auto simp: sk_insert_def split: option.splits)
  from sk_grow_Some [OF m ok g] have s_ok: "sk_ok s" and lt: "st_num s + 1 < st_num_alloc s"
    and es: "elems s = elems sk" and cf: "st_comp s = st_comp sk" by auto
  have num: "sz_add (st_num s) (Suc 0) = Suc (st_num s)" using s_ok by (simp add: sz_add_def sk_ok_def)
  let ?data = "if pos \<ge> st_num s then (st_data s)[st_num s := p]
      else (mem_write (pos + 1) (take (st_num s - pos) (drop pos (st_data s))) (st_data s))[pos := p]"
  have sk': "sk' = s\<lparr>st_data := ?data, st_num := st_num s + 1, st_sorted := False\<rparr>" "n = st_num s + 1"
    using r by (auto simp: sk_insert_def g num Let_def)
  have len: "length (elems s) = st_num s" using s_ok by (rule length_elems)
  have dl: "length (st_data s) = st_num_alloc s" using s_ok by (simp add: sk_ok_def)
  have "take (st_num s + 1) ?data = take pos (elems s) @ [p] @ drop pos (elems s) \<and> length ?data = st_num_alloc s"
  proof (cases "pos \<ge> st_num s")
    case True
    then show ?thesis using len dl lt by (simp add: elems_def take_upd_last)
  next
    case False
    let ?mid = "take (st_num s - pos) (drop pos (st_data s))"
    have ml: "length ?mid = st_num s - pos" using lt dl False by simp
    have mid: "?mid = drop pos (elems s)" by (simp add: elems_def drop_take)
    have pre: "take pos (st_data s) = take pos (elems s)" using False by (simp add: elems_def min_def)
    have le: "pos + 1 + length ?mid = st_num s + 1" using ml False by simp
    have "take (st_num s + 1) ((mem_write (pos + 1) ?mid (st_data s))[pos := p]) =
        (take (st_num s + 1) (mem_write (pos + 1) ?mid (st_data s)))[pos := p]"
      by (simp add: take_update_swap)
    also have "take (st_num s + 1) (mem_write (pos + 1) ?mid (st_data s)) = take (pos + 1) (st_data s) @ ?mid"
      using take_mem_write [of "pos + 1" "st_data s" ?mid] lt dl False unfolding le by simp
    also have "take (pos + 1) (st_data s) = take pos (st_data s) @ [st_data s ! pos]"
      using False lt dl by (simp add: take_Suc_conv_app_nth)
    also have "((take pos (st_data s) @ [st_data s ! pos]) @ ?mid)[pos := p] = take pos (st_data s) @ [p] @ ?mid"
      using lt dl False by (simp add: list_update_append)
    finally show ?thesis using False mid pre lt dl le by simp
  qed
  then show ?thesis
    using s_ok lt es cf len by (simp add: sk' sk_ok_def elems_def [of "s\<lparr>st_data := x, st_num := y, st_sorted := z\<rparr>" for x y z])
qed

lemma sk_insert_fail:
  assumes "sk_ok sk" and "malloc_ok (h_malloc h)" and r: "sk_insert h (Some sk) p pos = (0, sk')"
  shows "sk' = Some sk"
proof (cases "sk_grow h sk")
  case None
  with r show ?thesis by (simp add: sk_insert_def)
next
  case (Some s)
  then have "sz_add (st_num s) 1 \<noteq> 0"
    using sk_grow_Some [OF assms(2,1)] by (auto simp: sz_add_def sk_ok_def)
  with Some r show ?thesis by (simp add: sk_insert_def Let_def)
qed

lemma sk_delete_Some:
  assumes ok: "sk_ok sk" and pos: "pos < st_num sk"
  shows "\<exists>sk'. sk_delete (Some sk) pos = (elems sk ! pos, Some sk') \<and> sk_ok sk' \<and>
      elems sk' = take pos (elems sk) @ drop (pos + 1) (elems sk) \<and>
      st_sorted sk' = st_sorted sk \<and> st_comp sk' = st_comp sk"
proof (cases "pos = st_num sk - 1")
  case True
  then show ?thesis
    using ok pos by (auto simp: sk_delete_def sk_ok_def elems_def min_def)
next
  case False
  let ?tail = "take (st_num sk - pos - 1) (drop (pos + 1) (st_data sk))"
  have tl: "length ?tail = st_num sk - pos - 1" using ok pos by (auto simp: sk_ok_def)
  have te: "?tail = drop (pos + 1) (elems sk)" by (simp add: elems_def drop_take)
  have pre: "take pos (st_data sk) = take pos (elems sk)" using pos by (simp add: elems_def min_def)
  have e: "take (st_num sk - 1) (mem_write pos ?tail (st_data sk)) = take pos (elems sk) @ ?tail"
  proof -
    have "pos + length ?tail = st_num sk - 1" using tl pos by simp
    then show ?thesis
      using take_mem_write [of pos "st_data sk" ?tail] ok pos pre by (simp add: sk_ok_def)
  qed
  let ?sk = "sk\<lparr>st_data := mem_write pos ?tail (st_data sk), st_num := st_num sk - 1\<rparr>"
  have "sk_delete (Some sk) pos = (elems sk ! pos, Some ?sk)"
    using ok pos False by (simp add: sk_delete_def elems_nth Let_def)
  moreover have "sk_ok ?sk"
    using ok pos tl length_mem_write [of pos ?tail "st_data sk"] by (auto simp: sk_ok_def)
  moreover have "elems ?sk = take pos (elems sk) @ drop (pos + 1) (elems sk)"
    unfolding te [symmetric] e [symmetric] by (simp add: elems_def)
  ultimately show ?thesis by simp
qed

text \<open>Pushing and popping are last-in first-out; shifting takes the first element.\<close>

lemma sk_pop_Some:
  assumes "sk_ok sk" and "elems sk = ps @ [p]"
  shows "\<exists>sk'. sk_pop (Some sk) = (p, Some sk') \<and> sk_ok sk' \<and> elems sk' = ps"
proof -
  have n: "st_num sk = Suc (length ps)" using length_elems [OF assms(1)] assms(2) by simp
  then show ?thesis
    using sk_delete_Some [OF assms(1), of "length ps"] assms(2) by (auto simp: sk_pop_def)
qed

lemma sk_shift_Some:
  assumes "sk_ok sk" and "elems sk = p # ps"
  shows "\<exists>sk'. sk_shift (Some sk) = (p, Some sk') \<and> sk_ok sk' \<and> elems sk' = ps"
proof -
  have n: "st_num sk = Suc (length ps)" using length_elems [OF assms(1)] assms(2) by simp
  then show ?thesis
    using sk_delete_Some [OF assms(1), of 0] assms(2) by (auto simp: sk_shift_def)
qed

lemma sk_push_Some:
  assumes "malloc_ok (h_malloc h)" and ok: "sk_ok sk"
    and "sk_push h (Some sk) p = (n, Some sk')" and "n \<noteq> 0"
  shows "sk_ok sk' \<and> elems sk' = elems sk @ [p]"
  using sk_insert_Some [OF assms(1,2), of p "st_num sk" n sk'] assms(3,4) length_elems [OF ok]
  by (simp add: sk_push_def sk_num_def)

section \<open>Searching\<close>

lemma find_from_eq: "find_from test i xs = map_option ((+) i) (find_from test 0 xs)"
proof (induction xs arbitrary: i)
  case (Cons x xs)
  show ?case using Cons [of "Suc i"] Cons [of "Suc 0"] by (cases "find_from test 0 xs") auto
qed simp

lemma find_from_Some:
  "find_from test 0 xs = Some i \<longleftrightarrow> i < length xs \<and> test (xs ! i) \<and> (\<forall>j < i. \<not> test (xs ! j))"
proof (induction xs arbitrary: i)
  case (Cons x xs)
  show ?case
  proof (cases i)
    case 0
    then show ?thesis by (auto simp: find_from_eq [of test "Suc 0"])
  next
    case (Suc k)
    then show ?thesis using Cons [of k]
      by (auto simp: find_from_eq [of test "Suc 0"] less_Suc_eq_0_disj)
  qed
qed simp

lemma find_from_None: "find_from test 0 xs = None \<longleftrightarrow> (\<forall>x \<in> set xs. \<not> test x)"
  by (induction xs) (auto simp: find_from_eq [of test "Suc 0"])

lemma find_from_cong: "(\<And>x. x \<in> set xs \<Longrightarrow> f x = g x) \<Longrightarrow> find_from f i xs = find_from g i xs"
  by (induction xs arbitrary: i) auto

text \<open>The binary search finds the first match of the candidates, when the elements are
  sorted by the comparison.\<close>

text \<open>One round of the binary search.\<close>

lemma sk_find_loop_step:
  assumes "lo < hi" and "mid = lo + (hi - lo - 1) div 2"
  shows "sk_find_loop cmp xs lo hi =
      (if cmp (xs ! mid) > 0 then sk_find_loop cmp xs (mid + 1) hi
       else if cmp (xs ! mid) < 0 then sk_find_loop cmp xs lo mid
       else if hi - lo = 1 then Some mid else sk_find_loop cmp xs lo (mid + 1))"
  by (subst sk_find_loop.simps) (simp only: Let_def assms if_True)

lemma upt_split: "lo \<le> k \<Longrightarrow> k \<le> hi \<Longrightarrow> [lo..<hi] = [lo..<k] @ [k..<hi]"
  using upt_add_eq_append [of lo k "hi - k"] by simp

lemma find_split:
  assumes "lo \<le> k" and "k \<le> hi"
  shows "find test [lo..<hi] = (case find test [lo..<k] of None \<Rightarrow> find test [k..<hi] | Some i \<Rightarrow> Some i)"
proof -
  have "find test (xs @ ys) = (case find test xs of None \<Rightarrow> find test ys | Some i \<Rightarrow> Some i)" for xs ys
    by (induction xs) auto
  then show ?thesis by (simp only: upt_split [OF assms])
qed

context comparator
begin

lemma find_loop_correct:
  assumes sorted: "sorted (map key xs)" and sane: "\<forall>x \<in> set xs. sane x" "sane p"
  shows "hi \<le> length xs \<Longrightarrow>
    sk_find_loop (cmp p) xs lo hi = find (\<lambda>i. cmp p (xs ! i) = 0) [lo..<hi]"
proof (induction "hi - lo" arbitrary: lo hi rule: less_induct)
  case less
  show ?case
  proof (cases "lo < hi")
    case False
    then show ?thesis by (simp add: sk_find_loop.simps)
  next
    case True
    define mid where "mid = lo + (hi - lo - 1) div 2"
    have mid: "lo \<le> mid" "mid < hi" "hi - lo \<noteq> 1 \<Longrightarrow> mid + 1 < hi"
      using True by (auto simp: mid_def)
    have le: "key (xs ! i) \<le> key (xs ! j)" if "i \<le> j" "j < hi" for i j
      using sorted_nth_mono [OF sorted, of i j] that less.prems by simp
    have s: "sane (xs ! i)" if "i < hi" for i using sane(1) less.prems that by simp
    note unfold = sk_find_loop_step [OF True mid_def]
    consider (up) "cmp p (xs ! mid) > 0" | (down) "cmp p (xs ! mid) < 0" | (hit) "cmp p (xs ! mid) = 0"
      by linarith
    then show ?thesis
    proof cases
      case up
      then have "key (xs ! mid) < key p"
        using cmp_le [OF sane(2) s [OF mid(2)]] by auto
      then have "find (\<lambda>i. cmp p (xs ! i) = 0) [lo..<Suc mid] = None"
        using le [of _ mid] mid cmp_eq [OF sane(2) s]
        by (auto simp: find_None_iff simp del: upt_Suc) (metis less_Suc_eq_le leD less_le_trans not_le)
      then have "find (\<lambda>i. cmp p (xs ! i) = 0) [lo..<hi] = find (\<lambda>i. cmp p (xs ! i) = 0) [Suc mid..<hi]"
        using mid by (simp add: find_split [of lo "Suc mid" hi] del: upt_Suc)
      with up less.hyps [of hi "Suc mid"] less.prems mid True show ?thesis
        by (simp add: unfold)
    next
      case down
      then have "key p < key (xs ! mid)"
        using cmp_le [OF sane(2) s [OF mid(2)]] cmp_eq [OF sane(2) s [OF mid(2)]] by auto
      then have "find (\<lambda>i. cmp p (xs ! i) = 0) [mid..<hi] = None"
        using le [of mid] cmp_eq [OF sane(2) s]
        by (auto simp: find_None_iff) (metis leD)
      then have "find (\<lambda>i. cmp p (xs ! i) = 0) [lo..<hi] = find (\<lambda>i. cmp p (xs ! i) = 0) [lo..<mid]"
        using mid by (simp add: find_split [of lo mid hi] split: option.split)
      with down less.hyps [of mid lo] less.prems mid True show ?thesis
        by (simp add: unfold)
    next
      case hit
      show ?thesis
      proof (cases "hi - lo = 1")
        case True
        then have "[lo..<hi] = [mid]" "mid = lo" using mid by (auto simp: upt_rec)
        with hit True mid show ?thesis by (simp add: unfold)
      next
        case False
        have "find (\<lambda>i. cmp p (xs ! i) = 0) [lo..<Suc mid] \<noteq> None"
          using hit mid by (auto simp: find_None_iff simp del: upt_Suc)
        then have "find (\<lambda>i. cmp p (xs ! i) = 0) [lo..<hi] = find (\<lambda>i. cmp p (xs ! i) = 0) [lo..<Suc mid]"
          using mid by (auto simp: find_split [of lo "Suc mid" hi] simp del: upt_Suc split: option.split)
        with hit False less.hyps [of "Suc mid" lo] less.prems mid \<open>lo < hi\<close> show ?thesis
          by (simp add: unfold)
      qed
    qed
  qed
qed

end

lemma find_snoc:
  "find test (xs @ [x]) = (case find test xs of None \<Rightarrow> if test x then Some x else None | Some i \<Rightarrow> Some i)"
  by (induction xs) auto

lemma find_from_snoc:
  "find_from test 0 (ys @ [y]) =
     (case find_from test 0 ys of None \<Rightarrow> if test y then Some (length ys) else None | Some i \<Rightarrow> Some i)"
  by (induction ys) (auto simp: find_from_eq [of test "Suc 0"] split: option.split)

lemma find_from_upt:
  "k \<le> length xs \<Longrightarrow> find_from test 0 (take k xs) = find (\<lambda>i. test (xs ! i)) [0..<k]"
proof (induction k)
  case (Suc k)
  then have "length (take k xs) = k" by simp
  with Suc show ?case by (simp add: take_Suc_conv_app_nth find_from_snoc find_snoc del: length_take split: option.splits)
qed simp

text \<open>The search does not look past its upper bound.\<close>

lemma sk_find_loop_take:
  "hi \<le> n \<Longrightarrow> sk_find_loop cmp xs lo hi = sk_find_loop cmp (take n xs) lo hi"
proof (induction "hi - lo" arbitrary: lo hi rule: less_induct)
  case less
  show ?case
  proof (cases "lo < hi")
    case True
    define mid where "mid = lo + (hi - lo - 1) div 2"
    have mid: "mid < hi" "lo \<le> mid" "hi - lo \<noteq> 1 \<Longrightarrow> mid + 1 < hi" using True by (auto simp: mid_def)
    have nth: "take n xs ! mid = xs ! mid" using mid less.prems by simp
    note eq = sk_find_loop_step [OF True mid_def]
    have "sk_find_loop cmp xs (mid + 1) hi = sk_find_loop cmp (take n xs) (mid + 1) hi"
      "sk_find_loop cmp xs lo mid = sk_find_loop cmp (take n xs) lo mid"
      "hi - lo \<noteq> 1 \<Longrightarrow> sk_find_loop cmp xs lo (mid + 1) = sk_find_loop cmp (take n xs) lo (mid + 1)"
      using less.hyps less.prems mid True by simp_all
    then show ?thesis unfolding eq nth by presburger
  qed (simp add: sk_find_loop.simps)
qed

context comparator
begin

lemma bsearch_linear:
  assumes "sorted (map key (take n xs))" and "\<forall>x \<in> set (take n xs). sane x" "sane p" and n: "n \<le> length xs"
  shows "sk_find_loop (cmp p) xs 0 n = find_from (\<lambda>x. cmp p x = 0) 0 (take n xs)"
proof -
  have "sk_find_loop (cmp p) (take n xs) 0 n = find (\<lambda>i. cmp p (take n xs ! i) = 0) [0..<n]"
    using assms by (intro find_loop_correct) simp_all
  also have "\<dots> = find_from (\<lambda>x. cmp p x = 0) 0 (take n (take n xs))"
    using n by (intro find_from_upt [symmetric]) simp
  finally show ?thesis unfolding sk_find_loop_take [OF order_refl, of "cmp p" xs 0 n] by simp
qed

end

text \<open>With the \<open>sorted\<close> flag set on elements that are sorted, \<open>sk_find\<close> finds the
  first equal element, as without it; with or without a match.\<close>

lemma sk_find_eq:
  assumes c: "comparator (call cf) key sane" and ok: "sk_ok sk" and cf: "st_comp sk = Some cf"
    and sorted: "st_sorted sk \<Longrightarrow> sorted (map key (elems sk))"
    and sane: "\<forall>q \<in> set (elems sk). sane q" "sane (Some p)"
  shows "sk_find call (Some sk) (Some p) = find_from (\<lambda>q. key q = key (Some p)) 0 (elems sk)"
proof -
  have "find_from (\<lambda>q. call cf (Some p) q = 0) 0 (elems sk) = find_from (\<lambda>q. key q = key (Some p)) 0 (elems sk)"
    using comparator.cmp_eq [OF c sane(2)] sane(1) by (intro find_from_cong) auto
  moreover have "sk_find call (Some sk) (Some p) = find_from (\<lambda>q. call cf (Some p) q = 0) 0 (elems sk)"
    using comparator.bsearch_linear [OF c, of "st_num sk" "st_data sk" "Some p"] sorted sane ok
    by (auto simp: sk_find_def cf sk_is_sorted_def elems_def sk_ok_def)
  ultimately show ?thesis by simp
qed

section \<open>Sorting\<close>

lemma sk_sort_Some:
  assumes c: "comparator (call cf) key sane" and ok: "sk_ok sk" and cf: "st_comp sk = Some cf"
    and sorted: "st_sorted sk \<Longrightarrow> sorted (map key (elems sk))"
    and sane: "\<forall>q \<in> set (elems sk). sane q"
  shows "\<exists>sk'. sk_sort call (Some sk) = Some sk' \<and> sk_ok sk' \<and> st_sorted sk' \<and> st_comp sk' = Some cf \<and>
      mset (elems sk') = mset (elems sk) \<and> map key (elems sk') = sort (map key (elems sk))"
proof (cases "st_sorted sk")
  case True
  then show ?thesis using ok cf sorted by (simp add: sk_sort_def sorted_sort_id)
next
  case False
  note len = length_elems [OF ok]
  show ?thesis
  proof (cases "st_num sk \<ge> 2")
    case True
    let ?q = "c_qsort (call cf) (elems sk)"
    let ?sk = "sk\<lparr>st_data := mem_write 0 ?q (st_data sk), st_sorted := True\<rparr>"
    have "sk_sort call (Some sk) = Some ?sk"
      using True False by (simp add: sk_sort_def cf elems_def Let_def)
    moreover have "elems ?sk = ?q"
      using len by (simp add: elems_def [of "sk\<lparr>st_data := x, st_sorted := y\<rparr>" for x y] mem_write_def)
    moreover have "sk_ok ?sk"
      using ok len length_mem_write [of 0 ?q "st_data sk"] by (simp add: sk_ok_def)
    ultimately show ?thesis
      using comparator.c_qsort_key [OF c sane] cf by simp
  next
    case False
    then have "length (map key (elems sk)) \<le> 1" using len by simp
    then have "sort (map key (elems sk)) = map key (elems sk)"
      by (cases "elems sk") auto
    with False \<open>\<not> st_sorted sk\<close> ok cf show ?thesis
      by (simp add: sk_sort_def Let_def sk_ok_def elems_def)
  qed
qed

section \<open>Copies\<close>

lemma sk_dup_Some:
  assumes m: "malloc_ok (h_malloc h)" and ok: "sk_ok sk" and r: "sk_dup h (Some sk) = Some sk'"
  shows "sk_ok sk' \<and> elems sk' = elems sk \<and> st_sorted sk' = st_sorted sk \<and> st_comp sk' = st_comp sk"
proof -
  have al: "sz_mul sizeof_ptr (st_num_alloc sk) = 8 * st_num_alloc sk"
    using ok by (simp add: sizeof_ptr_def sz_mul_def sk_ok_def)
  from r obtain ret s where ret: "sk_new h (st_comp sk) = Some ret"
    and s: "realloc_ptrs h (st_data ret) (8 * st_num_alloc sk) = Some s"
    and sk': "sk' = \<lparr>st_num = st_num sk, st_data = mem_write 0 (take (st_num sk) (st_data sk)) s,
        st_sorted = st_sorted sk, st_num_alloc = st_num_alloc sk, st_comp = st_comp sk\<rparr>"
    by (auto simp: sk_dup_def al split: option.splits)
  have "st_num_alloc ret = kMinSize" using ret by (auto simp: sk_new_def split: option.splits)
  then have "length (st_data ret) \<le> st_num_alloc sk"
    using sk_new_ok [OF m ret] ok by (simp add: sk_ok_def)
  moreover have "8 * st_num_alloc sk + 8 < 2 ^ 64" using ok by (simp add: sk_ok_def)
  ultimately have "length s = st_num_alloc sk"
    using realloc_ptrs_Some(1) [OF m _ _ s] by blast
  then show ?thesis
    using ok length_mem_write [of 0 "take (st_num sk) (st_data sk)" s]
    by (simp add: sk' sk_ok_def elems_def mem_write_def)
qed

text \<open>The copying loop over the elements \<open>ps\<close> that are left, with the copies \<open>cs\<close>
  made so far.\<close>

fun copy_rest ::
  "('p \<Rightarrow> 'w \<Rightarrow> 'p option \<times> 'w) \<Rightarrow> ('p \<Rightarrow> 'w \<Rightarrow> 'w) \<Rightarrow> 'p option list \<Rightarrow> 'p option list \<Rightarrow> 'w \<Rightarrow>
     'p option list option \<times> 'w" where
  "copy_rest copy free cs [] w = (Some cs, w)"
| "copy_rest copy free cs (None # ps) w = copy_rest copy free (cs @ [None]) ps w"
| "copy_rest copy free cs (Some p # ps) w =
     (case copy p w of
        (None, w) \<Rightarrow> (None, free_loop free cs w)
      | (Some q, w) \<Rightarrow> copy_rest copy free (cs @ [Some q]) ps w)"

lemma copy_loop_eq:
  "copy_loop copy free (length cs) (length cs + length ps) (cs @ ps @ rest) w =
     (case copy_rest copy free cs ps w of (r, w) \<Rightarrow> (map_option (\<lambda>xs. xs @ rest) r, w))"
proof (induction copy free cs ps w rule: copy_rest.induct)
  case (1 copy free cs w)
  then show ?case by (simp add: copy_loop.simps)
next
  case (2 copy free cs ps w)
  have "copy_loop copy free (length cs) (length cs + length (None # ps)) (cs @ (None # ps) @ rest) w =
      copy_loop copy free (Suc (length cs)) (length cs + length (None # ps)) (cs @ (None # ps) @ rest) w"
    by (subst copy_loop.simps) simp
  with 2 show ?case by simp
next
  case (3 copy free cs p ps w)
  show ?case
  proof (cases "copy p w")
    case (Pair q w')
    then show ?thesis
      using 3 by (cases q) (subst copy_loop.simps, simp add: list_update_append)+
  qed
qed

definition live_ptrs :: "'p option list \<Rightarrow> 'p multiset" where
  "live_ptrs ps = mset (map the (filter (\<lambda>p. p \<noteq> None) ps))"

lemma live_ptrs_simps [simp]:
  "live_ptrs [] = {#}" "live_ptrs (None # ps) = live_ptrs ps"
  "live_ptrs (Some p # ps) = add_mset p (live_ptrs ps)"
  "live_ptrs (ps @ qs) = live_ptrs ps + live_ptrs qs"
  by (simp_all add: live_ptrs_def)

text \<open>\<open>live w\<close> counts the element objects that exist: a copy makes one, freeing takes it
  away. A failed deep copy leaves none behind.\<close>

lemma free_loop_live:
  assumes "\<And>p w. live (free p w) = live w - {#p#}"
  shows "live (free_loop free ps w) = live w - live_ptrs ps"
proof (induction ps arbitrary: w)
  case (Cons p ps)
  then show ?case by (cases p) (simp_all add: assms)
qed simp

lemma copy_rest_live:
  assumes free: "\<And>p w. live (free p w) = live w - {#p#}"
    and copy: "\<And>p w q w'. copy p w = (Some q, w') \<Longrightarrow> live w' = add_mset q (live w)"
    and fail: "\<And>p w w'. copy p w = (None, w') \<Longrightarrow> live w' = live w"
  shows "live w = base + live_ptrs cs \<Longrightarrow> copy_rest copy free cs ps w = (r, w') \<Longrightarrow>
    (case r of None \<Rightarrow> live w' = base
     | Some ds \<Rightarrow> live w' = base + live_ptrs ds \<and> length ds = length cs + length ps)"
proof (induction ps arbitrary: cs w)
  case Nil
  then show ?case by auto
next
  case (Cons p ps)
  show ?case
  proof (cases p)
    case None
    then show ?thesis using Cons.IH [of w "cs @ [None]"] Cons.prems by (simp split: option.splits)
  next
    case (Some a)
    obtain q w1 where c: "copy a w = (q, w1)" by fastforce
    show ?thesis
    proof (cases q)
      case None
      then have "live w1 = live w" using c fail by blast
      then show ?thesis
        using Cons.prems c None by (auto simp: \<open>p = Some a\<close> free_loop_live [of live free, OF free])
    next
      case (Some b)
      then have "live w1 = add_mset b (live w)" using c copy by blast
      then show ?thesis
        using Cons.IH [of w1 "cs @ [Some b]"] Cons.prems c Some
        by (simp add: \<open>p = Some a\<close> split: option.splits)
    qed
  qed
qed

lemma sk_deep_copy_live:
  assumes m: "malloc_ok (h_malloc h)" and ok: "sk_ok sk"
    and free: "\<And>p w. live (free p w) = live w - {#p#}"
    and copy: "\<And>p w q w'. copy p w = (Some q, w') \<Longrightarrow> live w' = add_mset q (live w)"
    and fail: "\<And>p w w'. copy p w = (None, w') \<Longrightarrow> live w' = live w"
    and r: "sk_deep_copy h (Some sk) copy free w = (r, w')"
  shows "case r of None \<Rightarrow> live w' = live w
    | Some sk' \<Rightarrow> sk_ok sk' \<and> live w' = live w + live_ptrs (elems sk') \<and> length (elems sk') = length (elems sk)"
proof (cases "sk_dup h (Some sk)")
  case None
  with r show ?thesis by (auto simp: sk_deep_copy_def)
next
  case (Some ret)
  from sk_dup_Some [OF m ok Some] have ret: "sk_ok ret" "elems ret = elems sk" by auto
  have num: "st_num ret = length (elems ret)" using length_elems [OF ret(1)] by simp
  have data: "st_data ret = elems ret @ drop (st_num ret) (st_data ret)" by (simp add: elems_def)
  obtain c w1 where c: "copy_rest copy free [] (elems ret) w = (c, w1)" by fastforce
  have loop: "copy_loop copy free 0 (st_num ret) (st_data ret) w =
      (map_option (\<lambda>xs. xs @ drop (st_num ret) (st_data ret)) c, w1)"
    using copy_loop_eq [of copy free "[]" "elems ret" "drop (st_num ret) (st_data ret)" w] c num data by simp
  have l: "case c of None \<Rightarrow> live w1 = live w
     | Some ds \<Rightarrow> live w1 = live w + live_ptrs ds \<and> length ds = length (elems ret)"
    using copy_rest_live [of live free copy w "live w" "[]" "elems ret" c w1] free copy fail c
    by (simp split: option.splits)
  show ?thesis
  proof (cases c)
    case None
    then show ?thesis using r Some loop l by (simp add: sk_deep_copy_def)
  next
    case (Some ds)
    let ?sk = "ret\<lparr>st_data := ds @ drop (st_num ret) (st_data ret)\<rparr>"
    have "elems ?sk = ds" using l Some num by (simp add: elems_def [of "ret\<lparr>st_data := x\<rparr>" for x])
    moreover have "sk_ok ?sk" using ret(1) l Some num by (simp add: sk_ok_def)
    ultimately show ?thesis
      using r \<open>sk_dup h (Some sk) = Some ret\<close> loop l Some ret(2) by (auto simp: sk_deep_copy_def)
  qed
qed

text \<open>Setting an element keeps the \<open>sorted\<close> flag, so the search can then miss an element
  that is there.\<close>

lemma sk_set_stale:
  fixes sk :: "(int, unit) STACK" and call :: "unit \<Rightarrow> int option \<Rightarrow> int option \<Rightarrow> int"
  assumes "call = (\<lambda>_ p q. the p - the q)"
    and "sk = \<lparr>st_num = 2, st_data = [Some 1, Some 2, None, None], st_sorted = True,
               st_num_alloc = 4, st_comp = Some ()\<rparr>"
  shows "\<exists>sk'. sk_set (Some sk) 1 (Some 0) = (Some 0, Some sk') \<and> sk_value (Some sk') 1 = Some 0 \<and>
    st_sorted sk' \<and> sk_find call (Some sk') (Some 0) = None"
  by (simp add: assms sk_set_def sk_value_def sk_find_def sk_is_sorted_def sk_find_loop.simps)

end
