(* ===== verification/Lhash.thy ===== *)
theory Lhash
  imports OpenSSL_Mem "HOL-Library.Multiset"
begin

text \<open>
  The hash table of \<open>crypto/lhash/lhash.c\<close>: chains of items in an array of buckets that
  grows and shrinks. The table, every operation, the invariant, and the refinement to a
  partial map.

  A data pointer is a value of the type \<open>'p\<close>; the hash and comparison functions are the
  function pointers kept in the table, called through the parameters \<open>callh\<close> and
  \<open>callc\<close> as the code calls them through its typed helpers. A chain is the list of its
  items, so a pointer to a \<open>next\<close> field is a bucket and a position in its chain.
\<close>

section \<open>State\<close>

type_synonym 'p chain = "('p \<times> u32) list"

record ('p, 'h, 'c) LHASH =
  lh_items :: nat
  lh_buckets :: "'p chain list"
  lh_num_buckets :: nat
  lh_depth :: nat
  lh_comp :: 'c
  lh_hash :: 'h

definition kMinNumBuckets :: nat where "kMinNumBuckets = 16"
definition kMaxAverageChainLength :: nat where "kMaxAverageChainLength = 2"
definition kMinAverageChainLength :: nat where "kMinAverageChainLength = 1"
definition sizeof_LHASH :: nat where "sizeof_LHASH = 48"
definition sizeof_LHASH_ITEM :: nat where "sizeof_LHASH_ITEM = 24"
definition sizeof_bucket :: nat where "sizeof_bucket = 8"

section \<open>Operations\<close>

definition lh_new :: "allocator \<Rightarrow> 'h \<Rightarrow> 'c \<Rightarrow> ('p, 'h, 'c) LHASH option" where
  "lh_new m hash cmp =
     (case OPENSSL_malloc m sizeof_LHASH of
        None \<Rightarrow> None
      | Some _ \<Rightarrow>
          (case OPENSSL_malloc m (sizeof_bucket * kMinNumBuckets) of
             None \<Rightarrow> None
           | Some _ \<Rightarrow>
               Some \<lparr>lh_items = 0, lh_buckets = replicate kMinNumBuckets [],
                     lh_num_buckets = kMinNumBuckets, lh_depth = 0, lh_comp = cmp, lh_hash = hash\<rparr>))"

text \<open>The number of blocks that \<open>lh_free\<close> hands back: every item, the array and the
  table itself.\<close>

definition lh_free :: "('p, 'h, 'c) LHASH option \<Rightarrow> nat" where
  "lh_free lh =
     (case lh of
        None \<Rightarrow> 0
      | Some lh \<Rightarrow> fold (\<lambda>chain n. fold (\<lambda>_ n. n + 1) chain n) (lh_buckets lh) 0 + 2)"

definition lh_num_items :: "('p, 'h, 'c) LHASH \<Rightarrow> nat" where
  "lh_num_items lh = lh_items lh"

text \<open>The position in a chain of the first item with a property, its length if there is
  none (a pointer to the final NULL).\<close>

fun chain_pos :: "('p \<Rightarrow> bool) \<Rightarrow> 'p chain \<Rightarrow> nat" where
  "chain_pos test [] = 0"
| "chain_pos test ((d, h) # items) = (if test d then 0 else Suc (chain_pos test items))"

definition get_next_ptr_and_hash ::
  "('h \<Rightarrow> 'p \<Rightarrow> u32) \<Rightarrow> ('c \<Rightarrow> 'p \<Rightarrow> 'p \<Rightarrow> int) \<Rightarrow> ('p, 'h, 'c) LHASH \<Rightarrow> 'p \<Rightarrow> u32 \<times> nat \<times> nat" where
  "get_next_ptr_and_hash callh callc lh data =
     (let hash = callh (lh_hash lh) data;
          i = unat hash mod lh_num_buckets lh
      in (hash, i, chain_pos (\<lambda>cur. callc (lh_comp lh) cur data = 0) (lh_buckets lh ! i)))"

definition get_next_ptr_by_key ::
  "('p, 'h, 'c) LHASH \<Rightarrow> 'k \<Rightarrow> u32 \<Rightarrow> ('k \<Rightarrow> 'p \<Rightarrow> int) \<Rightarrow> nat \<times> nat" where
  "get_next_ptr_by_key lh key key_hash cmp_key =
     (let i = unat key_hash mod lh_num_buckets lh
      in (i, chain_pos (\<lambda>cur. cmp_key key cur = 0) (lh_buckets lh ! i)))"

text \<open>The data of the item a \<open>next\<close> pointer points to.\<close>

definition item_at :: "('p, 'h, 'c) LHASH \<Rightarrow> nat \<Rightarrow> nat \<Rightarrow> 'p option" where
  "item_at lh i n =
     (if n < length (lh_buckets lh ! i) then Some (fst (lh_buckets lh ! i ! n)) else None)"

definition lh_retrieve ::
  "('h \<Rightarrow> 'p \<Rightarrow> u32) \<Rightarrow> ('c \<Rightarrow> 'p \<Rightarrow> 'p \<Rightarrow> int) \<Rightarrow> ('p, 'h, 'c) LHASH \<Rightarrow> 'p \<Rightarrow> 'p option" where
  "lh_retrieve callh callc lh data =
     (case get_next_ptr_and_hash callh callc lh data of (hash, i, n) \<Rightarrow> item_at lh i n)"

definition lh_retrieve_key ::
  "('p, 'h, 'c) LHASH \<Rightarrow> 'k \<Rightarrow> u32 \<Rightarrow> ('k \<Rightarrow> 'p \<Rightarrow> int) \<Rightarrow> 'p option" where
  "lh_retrieve_key lh key key_hash cmp_key =
     (case get_next_ptr_by_key lh key key_hash cmp_key of (i, n) \<Rightarrow> item_at lh i n)"

text \<open>The redistribution loop pushes every item on the front of its new chain.\<close>

definition rebucket_item :: "nat \<Rightarrow> 'p \<times> u32 \<Rightarrow> 'p chain list \<Rightarrow> 'p chain list" where
  "rebucket_item new_num_buckets cur new_buckets =
     (let new_bucket = unat (snd cur) mod new_num_buckets
      in new_buckets[new_bucket := cur # new_buckets ! new_bucket])"

definition lh_rebucket ::
  "allocator \<Rightarrow> nat \<Rightarrow> ('p, 'h, 'c) LHASH \<Rightarrow> ('p, 'h, 'c) LHASH" where
  "lh_rebucket m new_num_buckets lh =
     (let alloc_size = sz_mul sizeof_bucket new_num_buckets
      in if alloc_size div sizeof_bucket \<noteq> new_num_buckets then lh
         else case OPENSSL_malloc m alloc_size of
                None \<Rightarrow> lh
              | Some _ \<Rightarrow>
                  lh\<lparr>lh_buckets := fold (fold (rebucket_item new_num_buckets)) (lh_buckets lh)
                                     (replicate new_num_buckets []),
                     lh_num_buckets := new_num_buckets\<rparr>)"

definition lh_maybe_resize :: "allocator \<Rightarrow> ('p, 'h, 'c) LHASH \<Rightarrow> ('p, 'h, 'c) LHASH" where
  "lh_maybe_resize m lh =
     (if lh_depth lh > 0 then lh
      else
        let avg_chain_length = lh_items lh div lh_num_buckets lh
        in if avg_chain_length > kMaxAverageChainLength then
             let new_num_buckets = sz_mul (lh_num_buckets lh) 2
             in if new_num_buckets > lh_num_buckets lh then lh_rebucket m new_num_buckets lh else lh
           else if avg_chain_length < kMinAverageChainLength \<and> lh_num_buckets lh > kMinNumBuckets then
             let new_num_buckets = lh_num_buckets lh div 2;
                 new_num_buckets = (if new_num_buckets < kMinNumBuckets then kMinNumBuckets else new_num_buckets)
             in lh_rebucket m new_num_buckets lh
           else lh)"

text \<open>The result: success, the data that was replaced, the table.\<close>

definition lh_insert ::
  "allocator \<Rightarrow> ('h \<Rightarrow> 'p \<Rightarrow> u32) \<Rightarrow> ('c \<Rightarrow> 'p \<Rightarrow> 'p \<Rightarrow> int) \<Rightarrow> ('p, 'h, 'c) LHASH \<Rightarrow> 'p \<Rightarrow>
     bool \<times> 'p option \<times> ('p, 'h, 'c) LHASH" where
  "lh_insert m callh callc lh data =
     (case get_next_ptr_and_hash callh callc lh data of
        (hash, i, n) \<Rightarrow>
          (case item_at lh i n of
             Some old \<Rightarrow>
               (True, Some old, lh\<lparr>lh_buckets := (lh_buckets lh)[i := (lh_buckets lh ! i)
                                    [n := (data, snd (lh_buckets lh ! i ! n))]]\<rparr>)
           | None \<Rightarrow>
               (case OPENSSL_malloc m sizeof_LHASH_ITEM of
                  None \<Rightarrow> (False, None, lh)
                | Some _ \<Rightarrow>
                    (True, None, lh_maybe_resize m
                       (lh\<lparr>lh_buckets := (lh_buckets lh)[i := lh_buckets lh ! i @ [(data, hash)]],
                           lh_items := sz_add (lh_items lh) 1\<rparr>)))))"

definition lh_delete ::
  "allocator \<Rightarrow> ('h \<Rightarrow> 'p \<Rightarrow> u32) \<Rightarrow> ('c \<Rightarrow> 'p \<Rightarrow> 'p \<Rightarrow> int) \<Rightarrow> ('p, 'h, 'c) LHASH \<Rightarrow> 'p \<Rightarrow>
     'p option \<times> ('p, 'h, 'c) LHASH" where
  "lh_delete m callh callc lh data =
     (case get_next_ptr_and_hash callh callc lh data of
        (hash, i, n) \<Rightarrow>
          (case item_at lh i n of
             None \<Rightarrow> (None, lh)
           | Some ret \<Rightarrow>
               (Some ret, lh_maybe_resize m
                  (lh\<lparr>lh_buckets := (lh_buckets lh)[i := take n (lh_buckets lh ! i) @ drop (Suc n) (lh_buckets lh ! i)],
                      lh_items := sz_sub (lh_items lh) 1\<rparr>))))"

definition UINT_MAX :: nat where
  "UINT_MAX = 4294967295"

text \<open>\<open>func\<close> acts on the caller's world \<open>'w\<close> and leaves the table alone.\<close>

definition lh_doall_arg ::
  "allocator \<Rightarrow> ('p \<Rightarrow> 'w \<Rightarrow> 'w) \<Rightarrow> ('p, 'h, 'c) LHASH option \<Rightarrow> 'w \<Rightarrow> 'w \<times> ('p, 'h, 'c) LHASH option" where
  "lh_doall_arg m func lh w =
     (case lh of
        None \<Rightarrow> (w, None)
      | Some lh \<Rightarrow>
          let lh = (if lh_depth lh < UINT_MAX then lh\<lparr>lh_depth := lh_depth lh + 1\<rparr> else lh);
              w = fold (fold (\<lambda>cur. func (fst cur))) (lh_buckets lh) w;
              lh = (if lh_depth lh < UINT_MAX then lh\<lparr>lh_depth := lh_depth lh - 1\<rparr> else lh)
          in (w, Some (lh_maybe_resize m lh)))"

text \<open>A NULL string is \<open>None\<close>.\<close>

definition lh_strhash :: "u8 list option \<Rightarrow> u32" where
  "lh_strhash c = (case c of None \<Rightarrow> 0 | Some s \<Rightarrow> OPENSSL_hash32 s (c_strlen s))"

section \<open>Invariant and abstraction\<close>

definition lh_data :: "('p, 'h, 'c) LHASH \<Rightarrow> 'p list" where
  "lh_data lh = map fst (concat (lh_buckets lh))"

definition placed :: "nat \<Rightarrow> 'p chain list \<Rightarrow> bool" where
  "placed n buckets \<longleftrightarrow> length buckets = n \<and> (\<forall>i < n. \<forall>it \<in> set (buckets ! i). unat (snd it) mod n = i)"

definition lh_ok :: "('p \<Rightarrow> u32) \<Rightarrow> ('p \<Rightarrow> 'k) \<Rightarrow> ('p, 'h, 'c) LHASH \<Rightarrow> bool" where
  "lh_ok hash key lh \<longleftrightarrow>
     placed (lh_num_buckets lh) (lh_buckets lh) \<and>
     kMinNumBuckets \<le> lh_num_buckets lh \<and> 8 * lh_num_buckets lh + 8 < 2 ^ 63 \<and>
     lh_items lh = length (concat (lh_buckets lh)) \<and>
     (\<forall>it \<in> set (concat (lh_buckets lh)). snd it = hash (fst it)) \<and>
     distinct (map key (lh_data lh))"

definition lh_map :: "('p \<Rightarrow> 'k) \<Rightarrow> ('p, 'h, 'c) LHASH \<Rightarrow> 'k \<rightharpoonup> 'p" where
  "lh_map key lh = map_of (map (\<lambda>d. (key d, d)) (lh_data lh))"

lemma lh_map_iff:
  "distinct (map key (lh_data lh)) \<Longrightarrow> lh_map key lh k = Some d \<longleftrightarrow> d \<in> set (lh_data lh) \<and> key d = k"
  unfolding lh_map_def by (subst map_of_eq_Some_iff) (auto simp: comp_def)

lemma lh_map_mset:
  assumes "distinct (map key (lh_data lh))" and "mset (lh_data lh') = mset (lh_data lh)"
  shows "lh_map key lh' = lh_map key lh"
proof -
  have "mset (map key (lh_data lh')) = mset (map key (lh_data lh))" by (simp add: assms(2))
  then have "distinct (map key (lh_data lh'))"
    using assms(1) mset_eq_imp_distinct_iff by blast
  moreover have "set (lh_data lh') = set (lh_data lh)" using assms(2) by (rule mset_eq_setD)
  ultimately have "lh_map key lh' k = Some d \<longleftrightarrow> lh_map key lh k = Some d" for k d
    using assms(1) by (simp add: lh_map_iff)
  then show ?thesis by (intro ext) (metis option.exhaust)
qed

text \<open>The number of items is the size of the map.\<close>

lemma lh_num_items_card:
  assumes "lh_ok hash key lh"
  shows "lh_num_items lh = card (dom (lh_map key lh))"
proof -
  have d: "distinct (map key (lh_data lh))" using assms by (simp add: lh_ok_def)
  have "dom (lh_map key lh) = set (map key (lh_data lh))"
    by (auto simp: lh_map_def dom_map_of_conv_image_fst image_image)
  then have "card (dom (lh_map key lh)) = length (lh_data lh)"
    using distinct_card [OF d] by simp
  then show ?thesis using assms by (simp add: lh_ok_def lh_num_items_def lh_data_def)
qed

text \<open>The map when one object comes or goes.\<close>

lemma distinct_mset_add:
  assumes "mset ys = add_mset d (mset xs)"
  shows "distinct (map key ys) \<longleftrightarrow> key d \<notin> set (map key xs) \<and> distinct (map key xs)"
proof -
  have "mset (map key ys) = mset (map key (d # xs))" using assms by simp
  then have "distinct (map key ys) = distinct (map key (d # xs))" by (rule mset_eq_imp_distinct_iff)
  then show ?thesis by simp
qed

lemma lh_map_eqI:
  assumes "distinct (map key (lh_data lh))" and "\<And>d. f (key d) = Some d \<longleftrightarrow> d \<in> set (lh_data lh)"
    and "\<And>k d. f k = Some d \<Longrightarrow> key d = k"
  shows "lh_map key lh = f"
proof
  fix k
  have "lh_map key lh k = Some d \<longleftrightarrow> f k = Some d" for d
    using assms by (auto simp: lh_map_iff)
  then show "lh_map key lh k = f k" by (metis option.exhaust)
qed

lemma lh_map_add:
  assumes "mset (lh_data lh') = add_mset d (mset (lh_data lh))" and "distinct (map key (lh_data lh'))"
  shows "lh_map key lh' = (lh_map key lh)(key d \<mapsto> d)"
proof (rule lh_map_eqI [OF assms(2)])
  have dk: "distinct (map key (lh_data lh))" "key d \<notin> key ` set (lh_data lh)"
    using distinct_mset_add [OF assms(1), of key] assms(2) by auto
  have "set (lh_data lh') = insert d (set (lh_data lh))"
    using arg_cong [OF assms(1), of set_mset] by simp
  then show "((lh_map key lh)(key d \<mapsto> d)) (key x) = Some x \<longleftrightarrow> x \<in> set (lh_data lh')" for x
    using dk(2) by (cases "key x = key d") (auto simp: lh_map_iff [OF dk(1)] intro: rev_image_eqI)
  show "((lh_map key lh)(key d \<mapsto> d)) k = Some x \<Longrightarrow> key x = k" for k x
    by (auto simp: lh_map_iff [OF dk(1)] split: if_splits)
qed

lemma lh_map_remove:
  assumes "mset (lh_data lh) = add_mset d (mset (lh_data lh'))" and "distinct (map key (lh_data lh))"
  shows "distinct (map key (lh_data lh')) \<and> lh_map key lh' = (lh_map key lh)(key d := None)"
proof -
  have dk: "distinct (map key (lh_data lh'))" and "key d \<notin> set (map key (lh_data lh'))"
    using distinct_mset_add [OF assms(1), of key] assms(2) by auto
  then have "lh_map key lh' (key d) = None"
    by (auto simp: lh_map_def map_of_eq_None_iff comp_def)
  with lh_map_add [OF assms] dk show ?thesis by auto
qed

text \<open>An object takes the place of another with the same key.\<close>

lemma lh_map_replace:
  assumes m: "add_mset e (mset (lh_data lh')) = add_mset d (mset (lh_data lh))" and k: "key e = key d"
    and e: "e \<in> set (lh_data lh)" and dk: "distinct (map key (lh_data lh))"
  shows "distinct (map key (lh_data lh')) \<and> lh_map key lh' = (lh_map key lh)(key d \<mapsto> d)"
proof -
  obtain R where R: "mset (lh_data lh) = add_mset e R" using e by (metis insert_DiffM set_mset_mset)
  obtain rest where rest: "R = mset rest" by (metis ex_mset)
  define r where "r = \<lparr>lh_items = 0, lh_buckets = [map (\<lambda>x. (x, 0)) rest], lh_num_buckets = 0,
      lh_depth = 0, lh_comp = (), lh_hash = ()\<rparr>"
  have rd: "lh_data r = rest" by (simp add: r_def lh_data_def comp_def)
  have old: "mset (lh_data lh) = add_mset e (mset (lh_data r))" using R rest rd by simp
  have new: "mset (lh_data lh') = add_mset d (mset (lh_data r))" using m R rest rd by simp
  have dk': "distinct (map key (lh_data lh'))"
    using distinct_mset_add [OF old, of key] distinct_mset_add [OF new, of key] dk k by simp
  from lh_map_add [OF old dk] lh_map_add [OF new dk'] k dk' show ?thesis by simp
qed

section \<open>Chains and buckets\<close>

lemma chain_pos_le: "chain_pos test c \<le> length c"
  by (induction test c rule: chain_pos.induct) auto

lemma chain_pos_hit: "chain_pos test c < length c \<Longrightarrow> test (fst (c ! chain_pos test c))"
  by (induction test c rule: chain_pos.induct) (auto split: if_splits)

lemma chain_pos_miss: "\<not> chain_pos test c < length c \<Longrightarrow> it \<in> set c \<Longrightarrow> \<not> test (fst it)"
  by (induction test c rule: chain_pos.induct) (auto split: if_splits)

lemma mset_concat_upd:
  assumes "i < length xs"
  shows "mset (concat (xs[i := y])) + mset (xs ! i) = mset (concat xs) + mset y"
proof -
  have "xs = take i xs @ xs ! i # drop (Suc i) xs" using assms by (rule id_take_nth_drop)
  then have "mset (concat xs) = mset (concat (take i xs)) + mset (xs ! i) + mset (concat (drop (Suc i) xs))"
    by (metis concat.simps(2) concat_append mset_append add.assoc)
  moreover have "mset (concat (xs[i := y])) = mset (concat (take i xs)) + mset y + mset (concat (drop (Suc i) xs))"
    using assms by (simp add: upd_conv_take_nth_drop)
  ultimately show ?thesis by simp
qed

lemma placedD: "placed n b \<Longrightarrow> i < n \<Longrightarrow> it \<in> set (b ! i) \<Longrightarrow> unat (snd it) mod n = i"
  by (simp add: placed_def)

lemma placed_upd:
  "placed n b \<Longrightarrow> i < n \<Longrightarrow> (\<And>it. it \<in> set c \<Longrightarrow> unat (snd it) mod n = i) \<Longrightarrow> placed n (b[i := c])"
  by (auto simp: placed_def nth_list_update)

text \<open>Redistribution keeps the items and puts each where it belongs.\<close>

lemma rebucket_items:
  assumes "0 < n"
  shows "placed n b \<Longrightarrow> placed n (fold (rebucket_item n) its b) \<and>
    mset (concat (fold (rebucket_item n) its b)) = mset its + mset (concat b)"
proof (induction its arbitrary: b)
  case (Cons it its)
  let ?i = "unat (snd it) mod n"
  have i: "?i < n" "?i < length b" using assms Cons.prems by (simp_all add: placed_def)
  have p: "placed n (rebucket_item n it b)"
    unfolding rebucket_item_def Let_def
    by (rule placed_upd [OF Cons.prems i(1)]) (use placedD [OF Cons.prems i(1)] in auto)
  have "mset (concat (rebucket_item n it b)) = add_mset it (mset (concat b))"
    using mset_concat_upd [OF i(2), of "it # b ! ?i"] by (simp add: rebucket_item_def Let_def)
  with Cons.IH [OF p] show ?case by simp
qed simp

lemma fold_fold_concat: "fold (fold f) xss a = fold f (concat xss) a"
  by (induction xss arbitrary: a) auto

lemma lh_rebucket_ok:
  assumes m: "malloc_ok m" and ok: "lh_ok hash key lh" and n: "kMinNumBuckets \<le> n" "8 * n + 8 < 2 ^ 64"
  shows "lh_ok hash key (lh_rebucket m n lh)" and "lh_map key (lh_rebucket m n lh) = lh_map key lh"
    and "lh_items (lh_rebucket m n lh) = lh_items lh"
proof -
  have sz: "sz_mul 8 n = 8 * n" using n by (simp add: sz_mul_def)
  have both: "lh_ok hash key (lh_rebucket m n lh) \<and> lh_map key (lh_rebucket m n lh) = lh_map key lh"
  proof (cases "OPENSSL_malloc m (8 * n)")
    case None
    then show ?thesis using ok by (simp add: lh_rebucket_def sz sizeof_bucket_def Let_def)
  next
    case (Some blk)
    let ?b = "fold (rebucket_item n) (concat (lh_buckets lh)) (replicate n [])"
    let ?lh = "lh\<lparr>lh_buckets := ?b, lh_num_buckets := n\<rparr>"
    have lh': "lh_rebucket m n lh = ?lh"
      using Some by (simp add: lh_rebucket_def sz sizeof_bucket_def fold_fold_concat Let_def)
    have "0 < n" using n by (simp add: kMinNumBuckets_def)
    moreover have "placed n (replicate n [])" by (simp add: placed_def)
    ultimately have b: "placed n ?b" "mset (concat ?b) = mset (concat (lh_buckets lh))"
      using rebucket_items [of n "replicate n []" "concat (lh_buckets lh)"] by (auto simp: concat_replicate_trivial)
    have small: "8 * n + 8 < 2 ^ 63" using OPENSSL_malloc_Some(2) [OF m Some] n by simp
    have d: "mset (lh_data ?lh) = mset (lh_data lh)" by (simp add: lh_data_def b(2))
    then have dk: "distinct (map key (lh_data ?lh)) = distinct (map key (lh_data lh))"
      by (intro mset_eq_imp_distinct_iff) simp
    have "length (concat ?b) = length (concat (lh_buckets lh))" "set (concat ?b) = set (concat (lh_buckets lh))"
      using mset_eq_length [OF b(2)] mset_eq_setD [OF b(2)] by simp_all
    then have "lh_ok hash key ?lh"
      using ok b(1) n(1) small dk unfolding lh_ok_def by simp
    moreover have "lh_map key ?lh = lh_map key lh"
      using ok d by (intro lh_map_mset) (simp_all add: lh_ok_def)
    ultimately show ?thesis by (simp add: lh')
  qed
  then show "lh_ok hash key (lh_rebucket m n lh)" "lh_map key (lh_rebucket m n lh) = lh_map key lh" by auto
  show "lh_items (lh_rebucket m n lh) = lh_items lh"
    by (simp add: lh_rebucket_def Let_def split: option.split)
qed

text \<open>Resizing is invisible.\<close>

lemma lh_maybe_resize_ok:
  assumes m: "malloc_ok m" and ok: "lh_ok hash key lh"
  shows "lh_ok hash key (lh_maybe_resize m lh) \<and> lh_map key (lh_maybe_resize m lh) = lh_map key lh \<and>
    lh_items (lh_maybe_resize m lh) = lh_items lh"
proof -
  have n: "kMinNumBuckets \<le> lh_num_buckets lh" "8 * lh_num_buckets lh + 8 < 2 ^ 63" using ok by (auto simp: lh_ok_def)
  have dbl: "sz_mul (lh_num_buckets lh) 2 = lh_num_buckets lh * 2" using n by (simp add: sz_mul_def)
  have "8 * (lh_num_buckets lh * 2) + 8 < 2 ^ 64" "8 * kMinNumBuckets + 8 < 2 ^ 64"
    "8 * (lh_num_buckets lh div 2) + 8 < 2 ^ 64" "kMinNumBuckets \<le> lh_num_buckets lh * 2"
    using n by (simp_all add: kMinNumBuckets_def)
  then show ?thesis
    using lh_rebucket_ok [OF m ok, of "lh_num_buckets lh * 2"] lh_rebucket_ok [OF m ok, of kMinNumBuckets]
      lh_rebucket_ok [OF m ok, of "lh_num_buckets lh div 2"] ok
    by (simp add: lh_maybe_resize_def dbl Let_def)
qed

section \<open>Operations on the map\<close>

text \<open>The contract of the two callbacks: comparing says whether the keys agree, and objects
  with the same key have the same hash.\<close>

locale hashed =
  fixes hash :: "'p \<Rightarrow> u32"
    and cmp :: "'p \<Rightarrow> 'p \<Rightarrow> int"
    and key :: "'p \<Rightarrow> 'k"
  assumes cmp_key: "cmp x y = 0 \<longleftrightarrow> key x = key y"
    and hash_key: "key x = key y \<Longrightarrow> hash x = hash y"
begin

lemma bucket_mem:
  assumes ok: "lh_ok hash key lh" and i: "i < lh_num_buckets lh" and it: "it \<in> set (lh_buckets lh ! i)"
  shows "fst it \<in> set (lh_data lh) \<and> snd it = hash (fst it) \<and> unat (snd it) mod lh_num_buckets lh = i"
proof -
  have "placed (lh_num_buckets lh) (lh_buckets lh)" using ok by (simp add: lh_ok_def)
  then have "unat (snd it) mod lh_num_buckets lh = i" and "lh_buckets lh ! i \<in> set (lh_buckets lh)"
    using i it by (simp_all add: placed_def)
  moreover from this(2) it have mem: "it \<in> set (concat (lh_buckets lh))" by auto
  then have "snd it = hash (fst it)" using ok unfolding lh_ok_def by blast
  moreover have "fst it \<in> set (lh_data lh)" using mem unfolding lh_data_def set_map by (rule imageI)
  ultimately show ?thesis by simp
qed

lemma data_bucket:
  assumes ok: "lh_ok hash key lh" and e: "e \<in> set (lh_data lh)"
  obtains it where "fst it = e" and "it \<in> set (lh_buckets lh ! (unat (hash e) mod lh_num_buckets lh))"
proof -
  from e obtain ch it where "ch \<in> set (lh_buckets lh)" and it: "it \<in> set ch" "fst it = e"
    by (auto simp: lh_data_def)
  then obtain j where j: "j < length (lh_buckets lh)" "it \<in> set (lh_buckets lh ! j)"
    by (auto simp: in_set_conv_nth)
  then have "j < lh_num_buckets lh" using ok by (simp add: lh_ok_def placed_def)
  from bucket_mem [OF ok this j(2)] it(2)
  have "j = unat (hash e) mod lh_num_buckets lh" by auto
  with that j(2) it(2) show thesis by blast
qed

lemma lh_ok_distinct: "lh_ok hash key lh \<Longrightarrow> distinct (map key (lh_data lh))"
  by (simp add: lh_ok_def)

text \<open>Where the search in a chain ends.\<close>

lemma search_bucket: "lh_ok hash key lh \<Longrightarrow> unat (hash d) mod lh_num_buckets lh < lh_num_buckets lh"
  by (simp add: lh_ok_def kMinNumBuckets_def)

lemma search_hit:
  assumes ok: "lh_ok hash key lh" and c: "c = lh_buckets lh ! (unat (hash d) mod lh_num_buckets lh)"
    and n: "n = chain_pos (\<lambda>cur. cmp cur d = 0) c" and hit: "n < length c"
  shows "key (fst (c ! n)) = key d \<and> fst (c ! n) \<in> set (lh_data lh) \<and> lh_map key lh (key d) = Some (fst (c ! n))"
proof -
  have "key (fst (c ! n)) = key d"
    using chain_pos_hit [of "\<lambda>cur. cmp cur d = 0" c] hit by (simp add: n cmp_key)
  moreover have "fst (c ! n) \<in> set (lh_data lh)"
    using bucket_mem [OF ok search_bucket [OF ok], of "c ! n" d] hit by (simp add: c)
  ultimately show ?thesis by (simp add: lh_map_iff [OF lh_ok_distinct [OF ok]])
qed

lemma search_miss:
  assumes ok: "lh_ok hash key lh" and c: "c = lh_buckets lh ! (unat (hash d) mod lh_num_buckets lh)"
    and n: "n = chain_pos (\<lambda>cur. cmp cur d = 0) c" and miss: "\<not> n < length c"
  shows "key d \<notin> key ` set (lh_data lh)"
proof
  assume "key d \<in> key ` set (lh_data lh)"
  then obtain e where "e \<in> set (lh_data lh)" and k: "key e = key d" by auto
  from data_bucket [OF ok this(1)] obtain it where "fst it = e" and
    "it \<in> set (lh_buckets lh ! (unat (hash e) mod lh_num_buckets lh))" .
  with chain_pos_miss [OF miss [unfolded n], of it] hash_key [OF k] k c show False by (simp add: cmp_key)
qed

lemma search_miss_None:
  assumes "lh_ok hash key lh" and "c = lh_buckets lh ! (unat (hash d) mod lh_num_buckets lh)"
    and "\<not> chain_pos (\<lambda>cur. cmp cur d = 0) c < length c"
  shows "lh_map key lh (key d) = None"
  using search_miss [OF assms(1,2) refl assms(3)]
  by (auto simp: lh_map_def map_of_eq_None_iff comp_def)

lemma get_next_eq:
  assumes "callh (lh_hash lh) = hash" and "callc (lh_comp lh) = cmp"
  shows "get_next_ptr_and_hash callh callc lh d =
    (hash d, unat (hash d) mod lh_num_buckets lh,
     chain_pos (\<lambda>cur. cmp cur d = 0) (lh_buckets lh ! (unat (hash d) mod lh_num_buckets lh)))"
  using assms by (simp add: get_next_ptr_and_hash_def Let_def)

lemma retrieve:
  assumes ok: "lh_ok hash key lh" and fs: "callh (lh_hash lh) = hash" "callc (lh_comp lh) = cmp"
  shows "lh_retrieve callh callc lh d = lh_map key lh (key d)"
proof -
  let ?c = "lh_buckets lh ! (unat (hash d) mod lh_num_buckets lh)"
  have "lh_retrieve callh callc lh d = (if chain_pos (\<lambda>cur. cmp cur d = 0) ?c < length ?c
      then Some (fst (?c ! chain_pos (\<lambda>cur. cmp cur d = 0) ?c)) else None)"
    by (simp only: lh_retrieve_def get_next_eq [where callh = callh and callc = callc and lh = lh and d = d, OF fs] prod.case item_at_def)
  then show ?thesis
    using search_hit [OF ok refl refl, of d] search_miss_None [OF ok refl, of d] by simp
qed

text \<open>Changing the chain of \<open>d\<close>'s bucket to \<open>c\<close>.\<close>

lemma chain_upd:
  assumes ok: "lh_ok hash key lh" and i: "i < lh_num_buckets lh"
    and c: "\<And>it. it \<in> set c \<Longrightarrow> it \<in> set (lh_buckets lh ! i) \<or> snd it = hash (fst it) \<and> unat (snd it) mod lh_num_buckets lh = i"
    and k: "int k = int (lh_items lh) + int (length c) - int (length (lh_buckets lh ! i))"
    and dk: "distinct (map key (lh_data (lh\<lparr>lh_buckets := (lh_buckets lh)[i := c]\<rparr>)))"
  shows "lh_ok hash key (lh\<lparr>lh_buckets := (lh_buckets lh)[i := c], lh_items := k\<rparr>)"
proof -
  have len: "length (lh_buckets lh) = lh_num_buckets lh" and pl: "placed (lh_num_buckets lh) (lh_buckets lh)"
    and it: "\<forall>it \<in> set (concat (lh_buckets lh)). snd it = hash (fst it)"
    using ok by (auto simp: lh_ok_def placed_def)
  let ?b = "(lh_buckets lh)[i := c]"
  have m: "mset (concat ?b) + mset (lh_buckets lh ! i) = mset (concat (lh_buckets lh)) + mset c"
    using mset_concat_upd [of i "lh_buckets lh" c] i len by simp
  have "length (concat ?b) + length (lh_buckets lh ! i) = length (concat (lh_buckets lh)) + length c"
    using arg_cong [OF m, of size] by simp
  then have "k = length (concat ?b)" using k ok unfolding lh_ok_def by linarith
  moreover have "placed (lh_num_buckets lh) ?b"
    using placed_upd [OF pl i, of c] c placedD [OF pl i] by blast
  moreover have "snd x = hash (fst x)" if "x \<in> set (concat ?b)" for x
  proof -
    from that obtain ch where ch: "ch \<in> set ?b" "x \<in> set ch" by auto
    have mem: "lh_buckets lh ! i \<in> set (lh_buckets lh)" using i len by simp
    show ?thesis
    proof (cases "ch \<in> set (lh_buckets lh)")
      case True
      then show ?thesis using ch(2) it by auto
    next
      case False
      then have "ch = c" using ch(1) set_update_subset_insert [of "lh_buckets lh" i c] by blast
      then show ?thesis using c ch(2) it mem by fastforce
    qed
  qed
  ultimately show ?thesis using ok dk by (simp add: lh_ok_def lh_data_def)
qed

lemma chain_data:
  assumes ok: "lh_ok hash key lh" and i: "i < lh_num_buckets lh"
  shows "mset (lh_data (lh\<lparr>lh_buckets := (lh_buckets lh)[i := c]\<rparr>)) + mset (map fst (lh_buckets lh ! i)) =
    mset (lh_data lh) + mset (map fst c)"
proof -
  have "i < length (lh_buckets lh)" using ok i by (simp add: lh_ok_def placed_def)
  from mset_concat_upd [OF this, of c] have
    "image_mset fst (mset (concat ((lh_buckets lh)[i := c])) + mset (lh_buckets lh ! i)) =
     image_mset fst (mset (concat (lh_buckets lh)) + mset c)" by simp
  then show ?thesis by (simp add: lh_data_def del: mset_concat)
qed

text \<open>Replacing, adding and removing an item of the chain.\<close>

lemma replace_item:
  assumes ok: "lh_ok hash key lh" and c: "c = lh_buckets lh ! (unat (hash d) mod lh_num_buckets lh)"
    and n: "n = chain_pos (\<lambda>cur. cmp cur d = 0) c" "n < length c"
  defines "lh' \<equiv> lh\<lparr>lh_buckets := (lh_buckets lh)[unat (hash d) mod lh_num_buckets lh := c[n := (d, snd (c ! n))]]\<rparr>"
  shows "lh_ok hash key lh' \<and> lh_map key lh' = (lh_map key lh)(key d \<mapsto> d)"
proof -
  let ?i = "unat (hash d) mod lh_num_buckets lh" and ?c' = "c[n := (d, snd (c ! n))]"
  note hit = search_hit [OF ok c n] and i = search_bucket [OF ok, of d]
  have "map fst ?c' = (map fst c)[n := d]" by (simp add: map_update)
  then have "add_mset (fst (c ! n)) (mset (map fst ?c')) = add_mset d (mset (map fst c))"
    using n(2) by (simp add: mset_update nth_mem_mset)
  with chain_data [OF ok i, of ?c'] have
    "add_mset (fst (c ! n)) (mset (lh_data lh')) + mset (map fst c) = add_mset d (mset (lh_data lh)) + mset (map fst c)"
    unfolding lh'_def c [symmetric] by (metis union_mset_add_mset_left union_mset_add_mset_right)
  then have "add_mset (fst (c ! n)) (mset (lh_data lh')) = add_mset d (mset (lh_data lh))" by simp
  from lh_map_replace [OF this] hit lh_ok_distinct [OF ok]
  have dk: "distinct (map key (lh_data lh'))" and mp: "lh_map key lh' = (lh_map key lh)(key d \<mapsto> d)" by auto
  have "snd (c ! n) = hash d \<and> unat (snd (c ! n)) mod lh_num_buckets lh = ?i"
    using bucket_mem [OF ok i, of "c ! n"] n(2) hit hash_key [of "fst (c ! n)" d] by (simp add: c)
  then have "it \<in> set c \<or> snd it = hash (fst it) \<and> unat (snd it) mod lh_num_buckets lh = ?i" if "it \<in> set ?c'" for it
    using that set_update_subset_insert [of c n "(d, snd (c ! n))"] by auto
  then have "lh_ok hash key (lh\<lparr>lh_buckets := (lh_buckets lh)[?i := ?c'], lh_items := lh_items lh\<rparr>)"
    using dk unfolding lh'_def by (intro chain_upd [OF ok i]) (auto simp: c)
  then show ?thesis using mp by (simp add: lh'_def)
qed

lemma add_item:
  assumes ok: "lh_ok hash key lh" and c: "c = lh_buckets lh ! (unat (hash d) mod lh_num_buckets lh)"
    and n: "\<not> chain_pos (\<lambda>cur. cmp cur d = 0) c < length c"
  defines "lh' \<equiv> lh\<lparr>lh_buckets := (lh_buckets lh)[unat (hash d) mod lh_num_buckets lh := c @ [(d, hash d)]],
                    lh_items := lh_items lh + 1\<rparr>"
  shows "lh_ok hash key lh' \<and> lh_map key lh' = (lh_map key lh)(key d \<mapsto> d)"
proof -
  let ?i = "unat (hash d) mod lh_num_buckets lh" and ?c' = "c @ [(d, hash d)]"
  note i = search_bucket [OF ok, of d]
  have "mset (lh_data lh') + mset (map fst c) = add_mset d (mset (lh_data lh)) + mset (map fst c)"
    using chain_data [OF ok i, of ?c'] unfolding c [symmetric] lh'_def lh_data_def by simp
  then have m: "mset (lh_data lh') = add_mset d (mset (lh_data lh))" by simp
  have dk: "distinct (map key (lh_data lh'))"
    using distinct_mset_add [OF m, of key] search_miss [OF ok c refl n] lh_ok_distinct [OF ok] by simp
  have "lh_ok hash key lh'"
    unfolding lh'_def
    by (rule chain_upd [OF ok i]) (use dk in \<open>auto simp: c lh'_def lh_data_def\<close>)
  with lh_map_add [OF m dk] show ?thesis by simp
qed

lemma remove_item:
  assumes ok: "lh_ok hash key lh" and c: "c = lh_buckets lh ! (unat (hash d) mod lh_num_buckets lh)"
    and n: "n = chain_pos (\<lambda>cur. cmp cur d = 0) c" "n < length c"
  defines "lh' \<equiv> lh\<lparr>lh_buckets := (lh_buckets lh)[unat (hash d) mod lh_num_buckets lh := take n c @ drop (Suc n) c],
                    lh_items := lh_items lh - 1\<rparr>"
  shows "lh_ok hash key lh' \<and> lh_map key lh' = (lh_map key lh)(key d := None) \<and> 0 < lh_items lh"
proof -
  let ?i = "unat (hash d) mod lh_num_buckets lh" and ?c' = "take n c @ drop (Suc n) c"
  note hit = search_hit [OF ok c n] and i = search_bucket [OF ok, of d]
  have "c = take n c @ c ! n # drop (Suc n) c" using n(2) by (rule id_take_nth_drop)
  then have "mset (map fst c) = add_mset (fst (c ! n)) (mset (map fst ?c'))"
    by (metis (no_types, lifting) list.simps(9) map_append mset.simps(2) mset_append union_mset_add_mset_right)
  then have "add_mset (fst (c ! n)) (mset (lh_data lh')) + mset (map fst ?c') = mset (lh_data lh) + mset (map fst ?c')"
    using chain_data [OF ok i, of ?c'] unfolding c [symmetric] lh'_def lh_data_def by simp
  then have m: "mset (lh_data lh) = add_mset (fst (c ! n)) (mset (lh_data lh'))" by simp
  have "size (mset (lh_data lh)) = Suc (size (mset (lh_data lh')))" unfolding m by simp
  then have pos: "0 < lh_items lh" using ok by (simp add: lh_ok_def lh_data_def)
  from lh_map_remove [OF m lh_ok_distinct [OF ok]] hit
  have dk: "distinct (map key (lh_data lh'))" and mp: "lh_map key lh' = (lh_map key lh)(key d := None)" by auto
  have "lh_ok hash key lh'"
    unfolding lh'_def
    by (rule chain_upd [OF ok i]) (use dk pos n(2) in \<open>auto simp: c lh'_def lh_data_def dest: in_set_takeD in_set_dropD\<close>)
  with mp pos show ?thesis by simp
qed

text \<open>The operations of the table are those of the map; a failed insertion changes nothing.\<close>

lemma lh_insert_ok:
  assumes m: "malloc_ok m" and ok: "lh_ok hash key lh"
    and fs: "callh (lh_hash lh) = hash" "callc (lh_comp lh) = cmp" and big: "lh_items lh + 1 < 2 ^ 64"
    and r: "lh_insert m callh callc lh d = (True, old, lh')"
  shows "lh_ok hash key lh' \<and> lh_map key lh' = (lh_map key lh)(key d \<mapsto> d) \<and> old = lh_map key lh (key d)"
proof -
  let ?c = "lh_buckets lh ! (unat (hash d) mod lh_num_buckets lh)"
  let ?n = "chain_pos (\<lambda>cur. cmp cur d = 0) ?c"
  note unf = lh_insert_def get_next_eq [where callh = callh and callc = callc and lh = lh and d = d, OF fs] item_at_def
  show ?thesis
  proof (cases "?n < length ?c")
    case True
    with r have "lh' = lh\<lparr>lh_buckets := (lh_buckets lh)[unat (hash d) mod lh_num_buckets lh :=
        ?c[?n := (d, snd (?c ! ?n))]]\<rparr>" and "old = Some (fst (?c ! ?n))" by (simp_all add: unf)
    then show ?thesis using replace_item [OF ok refl refl True] search_hit [OF ok refl refl True] by simp
  next
    case False
    have "sz_add (lh_items lh) (Suc 0) = lh_items lh + 1" using big by (simp add: sz_add_def)
    with False r have "lh' = lh_maybe_resize m (lh\<lparr>lh_buckets := (lh_buckets lh)
        [unat (hash d) mod lh_num_buckets lh := ?c @ [(d, hash d)]], lh_items := lh_items lh + 1\<rparr>)"
      and "old = None" by (simp_all add: unf split: option.splits)
    then show ?thesis
      using add_item [OF ok refl False] search_miss_None [OF ok refl False]
        lh_maybe_resize_ok [OF m, of hash key "lh\<lparr>lh_buckets := (lh_buckets lh)
          [unat (hash d) mod lh_num_buckets lh := ?c @ [(d, hash d)]], lh_items := lh_items lh + 1\<rparr>"] by simp
  qed
qed

lemma lh_insert_fail: "lh_insert m callh callc lh d = (False, old, lh') \<Longrightarrow> old = None \<and> lh' = lh"
  by (auto simp: lh_insert_def split: prod.splits option.splits)

lemma lh_delete_ok:
  assumes m: "malloc_ok m" and ok: "lh_ok hash key lh"
    and fs: "callh (lh_hash lh) = hash" "callc (lh_comp lh) = cmp" and big: "lh_items lh < 2 ^ 64"
    and r: "lh_delete m callh callc lh d = (old, lh')"
  shows "lh_ok hash key lh' \<and> lh_map key lh' = (lh_map key lh)(key d := None) \<and> old = lh_map key lh (key d)"
proof -
  let ?c = "lh_buckets lh ! (unat (hash d) mod lh_num_buckets lh)"
  let ?n = "chain_pos (\<lambda>cur. cmp cur d = 0) ?c"
  note unf = lh_delete_def get_next_eq [where callh = callh and callc = callc and lh = lh and d = d, OF fs] item_at_def
  show ?thesis
  proof (cases "?n < length ?c")
    case True
    note rem = remove_item [OF ok refl refl True]
    have "sz_sub (lh_items lh) (Suc 0) = lh_items lh - 1" using sz_sub_id [of "Suc 0" "lh_items lh"] rem big by simp
    with True r have "lh' = lh_maybe_resize m (lh\<lparr>lh_buckets := (lh_buckets lh)
        [unat (hash d) mod lh_num_buckets lh := take ?n ?c @ drop (Suc ?n) ?c], lh_items := lh_items lh - 1\<rparr>)"
      and "old = Some (fst (?c ! ?n))" by (simp_all add: unf)
    then show ?thesis
      using rem search_hit [OF ok refl refl True]
        lh_maybe_resize_ok [OF m, of hash key "lh\<lparr>lh_buckets := (lh_buckets lh)
          [unat (hash d) mod lh_num_buckets lh := take ?n ?c @ drop (Suc ?n) ?c], lh_items := lh_items lh - 1\<rparr>"] by simp
  next
    case False
    with r have "lh' = lh" "old = None" by (simp_all add: unf)
    then show ?thesis using ok search_miss_None [OF ok refl False] by (simp add: fun_upd_idem)
  qed
qed

text \<open>Looking up by a key of another type, which compares and hashes like the objects do.\<close>

lemma lh_retrieve_key_ok:
  assumes ok: "lh_ok hash key lh"
    and cmp_key: "\<And>d. cmp_key k d = 0 \<longleftrightarrow> key d = key' k" and hk: "\<And>d. key d = key' k \<Longrightarrow> hash d = kh"
  shows "lh_retrieve_key lh k kh cmp_key = lh_map key lh (key' k)"
proof -
  let ?i = "unat kh mod lh_num_buckets lh"
  let ?c = "lh_buckets lh ! ?i" and ?test = "\<lambda>cur. cmp_key k cur = 0"
  let ?n = "chain_pos ?test ?c"
  note dk = lh_ok_distinct [OF ok]
  have i: "?i < lh_num_buckets lh" using ok by (simp add: lh_ok_def kMinNumBuckets_def)
  show ?thesis
  proof (cases "?n < length ?c")
    case True
    then have "fst (?c ! ?n) \<in> set (lh_data lh)" using bucket_mem [OF ok i, of "?c ! ?n"] by simp
    moreover have "key (fst (?c ! ?n)) = key' k" using chain_pos_hit [OF True] by (simp add: cmp_key)
    ultimately have "lh_map key lh (key' k) = Some (fst (?c ! ?n))" by (simp add: lh_map_iff [OF dk])
    with True show ?thesis by (simp add: lh_retrieve_key_def get_next_ptr_by_key_def item_at_def Let_def)
  next
    case False
    have "lh_map key lh (key' k) \<noteq> Some e" for e
    proof
      assume "lh_map key lh (key' k) = Some e"
      then have "e \<in> set (lh_data lh)" and ke: "key e = key' k" by (simp_all add: lh_map_iff [OF dk])
      from data_bucket [OF ok this(1)] obtain it where "fst it = e" and
        "it \<in> set (lh_buckets lh ! (unat (hash e) mod lh_num_buckets lh))" .
      with chain_pos_miss [OF False, of it] hk [OF ke] ke show False by (simp add: cmp_key)
    qed
    then have "lh_map key lh (key' k) = None" by (metis option.exhaust)
    with False show ?thesis by (simp add: lh_retrieve_key_def get_next_ptr_by_key_def item_at_def Let_def)
  qed
qed

end

section \<open>New tables, iteration and load\<close>

lemma lh_new_ok:
  "lh_new m h c = Some lh \<Longrightarrow> lh_ok hash key lh \<and> lh_map key lh = Map.empty \<and> lh_hash lh = h \<and> lh_comp lh = c"
  by (auto simp: lh_new_def lh_ok_def lh_map_def lh_data_def placed_def kMinNumBuckets_def
      concat_replicate_trivial split: option.splits)

text \<open>The iteration visits every item once, in bucket order, and keeps the map.\<close>

lemma lh_doall_arg_ok:
  assumes m: "malloc_ok m" and ok: "lh_ok hash key lh" and r: "lh_doall_arg m func (Some lh) w = (w', lh')"
  shows "w' = fold func (lh_data lh) w \<and>
    (\<exists>t. lh' = Some t \<and> lh_ok hash key t \<and> lh_map key t = lh_map key lh)"
proof -
  have visit: "fold (fold (\<lambda>cur. func (fst cur))) bs w = fold func (map fst (concat bs)) w" for bs :: "'a chain list"
    by (simp add: fold_fold_concat fold_map comp_def)
  have depth: "lh_ok hash key (lh\<lparr>lh_depth := n\<rparr>) = lh_ok hash key lh" "lh_map key (lh\<lparr>lh_depth := n\<rparr>) = lh_map key lh" for n
    by (simp_all add: lh_ok_def lh_map_def lh_data_def)
  show ?thesis
  proof (cases "lh_depth lh < UINT_MAX")
    case True
    then show ?thesis
      using r lh_maybe_resize_ok [OF m, of hash key "lh\<lparr>lh_depth := n\<rparr>" for n] ok lh_maybe_resize_ok [OF m ok]
      by (auto simp: lh_doall_arg_def Let_def visit depth lh_data_def split: if_splits)
  next
    case False
    then show ?thesis
      using r lh_maybe_resize_ok [OF m ok] by (auto simp: lh_doall_arg_def Let_def visit lh_data_def)
  qed
qed

text \<open>While allocation succeeds the table is never fuller than three items per bucket.\<close>

lemma lh_maybe_resize_load:
  assumes alloc: "\<forall>k < 2 ^ 62. m k \<noteq> None" and d: "lh_depth lh = 0"
    and n: "0 < lh_num_buckets lh" "lh_num_buckets lh < 2 ^ 57"
    and load: "lh_items lh \<le> 3 * lh_num_buckets lh"
  shows "lh_items (lh_maybe_resize m lh) < 3 * lh_num_buckets (lh_maybe_resize m lh)"
proof -
  have items: "lh_items (lh_maybe_resize m lh) = lh_items lh"
    by (simp add: lh_maybe_resize_def lh_rebucket_def Let_def split: option.split)
  have nb: "lh_num_buckets (lh_rebucket m k lh) = k" if k: "k < 2 ^ 58" for k
  proof -
    have "sz_mul 8 k = 8 * k" "sz_add (8 * k) 8 = 8 * k + 8" using k by (simp_all add: sz_mul_def sz_add_def)
    moreover have "m (8 * k + 8) \<noteq> None" using alloc k by simp
    ultimately show ?thesis
      by (auto simp: lh_rebucket_def sizeof_bucket_def Let_def OPENSSL_malloc_def OPENSSL_MALLOC_PREFIX_def)
  qed
  have dbl: "sz_mul (lh_num_buckets lh) 2 = lh_num_buckets lh * 2" using n by (simp add: sz_mul_def)
  consider (grow) "lh_items lh div lh_num_buckets lh > 2"
    | (shrink) "lh_items lh div lh_num_buckets lh < 1" "lh_num_buckets lh > 16"
    | (stay) "lh_items lh div lh_num_buckets lh \<le> 2" "\<not> (lh_items lh div lh_num_buckets lh < 1 \<and> lh_num_buckets lh > 16)"
    by linarith
  then show ?thesis
  proof cases
    case grow
    then have "lh_maybe_resize m lh = lh_rebucket m (lh_num_buckets lh * 2) lh"
      using d n by (simp add: lh_maybe_resize_def kMaxAverageChainLength_def dbl)
    then show ?thesis using nb [of "lh_num_buckets lh * 2"] n load items by simp
  next
    case shrink
    let ?k = "if lh_num_buckets lh div 2 < 16 then 16 else lh_num_buckets lh div 2"
    have "lh_maybe_resize m lh = lh_rebucket m ?k lh"
      using d shrink by (simp add: lh_maybe_resize_def kMaxAverageChainLength_def kMinAverageChainLength_def
          kMinNumBuckets_def Let_def)
    moreover have "lh_items lh < lh_num_buckets lh"
      using shrink(1) n(1) by (simp add: div_eq_0_iff)
    moreover have "?k < 2 ^ 58" "lh_num_buckets lh < 3 * ?k" using n(2) shrink(2) by auto
    ultimately show ?thesis using nb [of ?k] items by simp
  next
    case stay
    then have "lh_maybe_resize m lh = lh"
      using d by (auto simp: lh_maybe_resize_def kMaxAverageChainLength_def kMinAverageChainLength_def kMinNumBuckets_def)
    moreover have "lh_items lh < 3 * lh_num_buckets lh"
      using stay(1) n(1) by (simp add: less_mult_imp_div_less div_less_iff_less_mult [symmetric] le_less_trans)
    ultimately show ?thesis by simp
  qed
qed

text \<open>Freeing hands back one block per item and the two that \<open>lh_new\<close> allocated.\<close>

lemma lh_free_blocks: "lh_ok hash key lh \<Longrightarrow> lh_free (Some lh) = lh_num_items lh + 2"
proof -
  have count: "fold (\<lambda>_. Suc) xs n = n + length xs" for xs :: "'z list" and n :: nat
    by (induction xs arbitrary: n) auto
  assume "lh_ok hash key lh"
  then show ?thesis by (simp add: lh_free_def fold_fold_concat count lh_ok_def lh_num_items_def)
qed

end
