(* ===== verification/Conf.thy ===== *)
theory Conf
  imports Lhash Sk_Stack "HOL-Library.Monad_Syntax"
begin

text \<open>
  The configuration database of \<open>crypto/conf/conf.c\<close>: its values, their hash and comparison,
  the table of values as a client of the hash table, and the operations on the database
  (\<open>NCONF_new_section\<close>, \<open>get_section\<close>, \<open>NCONF_get_string\<close>, \<open>add_string\<close>, \<open>NCONF_free\<close>).

  A pointer to a \<open>CONF_VALUE\<close> is the object with its address \<open>cv_ptr\<close>: once an object is in the
  database the code does not change it. The stack of a section does change, so a section
  holds its number in \<open>db_stacks\<close>. What the code hands back to the allocator is recorded in
  \<open>db_freed\<close>.

  Comparing a section that is NULL with one that is not calls \<open>strcmp\<close> with NULL, which is
  undefined. \<open>null_compare\<close> says when a search does that; the operations are then undefined
  too (\<open>None\<close>), and what \<open>conf_value_cmp\<close> gives for such a pair does not matter.
\<close>

section \<open>Values\<close>

text \<open>The field \<open>value\<close> is a string in a value that has a name, and the stack of the section
  in one without.\<close>

datatype conf_data = Null | Text "u8 list" | Section_stack nat

record CONF_VALUE =
  cv_ptr :: nat
  cv_section :: "u8 list option"
  cv_name :: "u8 list option"
  cv_value :: conf_data

text \<open>The C library's \<open>strcmp\<close>, on memory that holds a NUL-terminated string.\<close>

fun c_strcmp :: "u8 list \<Rightarrow> u8 list \<Rightarrow> int" where
  "c_strcmp (a # as) (b # bs) =
     (if a = b then (if a = 0 then 0 else c_strcmp as bs) else uint a - uint b)"
| "c_strcmp (a # as) [] = uint a"
| "c_strcmp [] (b # bs) = - uint b"
| "c_strcmp [] [] = 0"

definition conf_value_hash :: "CONF_VALUE \<Rightarrow> u32" where
  "conf_value_hash v = push_bit 2 (lh_strhash (cv_section v)) XOR lh_strhash (cv_name v)"

definition conf_value_cmp :: "CONF_VALUE \<Rightarrow> CONF_VALUE \<Rightarrow> int" where
  "conf_value_cmp a b =
     (let i = (case (cv_section a, cv_section b) of
                 (Some x, Some y) \<Rightarrow> c_strcmp x y
               | (None, None) \<Rightarrow> 0
               | (None, Some _) \<Rightarrow> -1
               | (Some _, None) \<Rightarrow> 1)
      in if i \<noteq> 0 then i
         else case (cv_name a, cv_name b) of
                (Some x, Some y) \<Rightarrow> c_strcmp x y
              | (None, None) \<Rightarrow> 0
              | (None, Some _) \<Rightarrow> -1
              | (Some _, None) \<Rightarrow> 1)"

text \<open>The string a C string stands for.\<close>

definition c_str :: "u8 list \<Rightarrow> u8 list" where
  "c_str s = takeWhile (\<lambda>c. c \<noteq> 0) s"

lemma uint_u8_zero: "uint (a :: u8) = 0 \<longleftrightarrow> a = 0"
  by (metis uint_0_eq word_uint_eq_iff)

lemma c_strcmp_zero: "c_strcmp a b = 0 \<longleftrightarrow> c_str a = c_str b"
proof (induction a b rule: c_strcmp.induct)
  case (1 a as b bs)
  have "uint a - uint b = 0 \<longleftrightarrow> a = b" by (simp add: word_uint_eq_iff)
  with 1 show ?case by (auto simp: c_str_def)
qed (simp_all add: c_str_def uint_u8_zero)

lemma lh_strhash_str:
  assumes "c_str a = c_str b"
  shows "lh_strhash (Some a) = lh_strhash (Some b)"
proof -
  have "take (c_strlen s) s = c_str s" for s
    by (simp add: c_strlen_def c_str_def takeWhile_eq_take [symmetric])
  then have "lh_strhash (Some s) = foldl (\<lambda>h c. (h XOR ucast c) * 16777619) 2166136261 (c_str s)" for s
    by (simp add: lh_strhash_def OPENSSL_hash32_def)
  then show ?thesis using assms by simp
qed

definition conf_key :: "CONF_VALUE \<Rightarrow> u8 list option \<times> u8 list option" where
  "conf_key v = (map_option c_str (cv_section v), map_option c_str (cv_name v))"

interpretation conf_values: hashed conf_value_hash conf_value_cmp conf_key
proof unfold_locales
  show "conf_value_cmp x y = 0 \<longleftrightarrow> conf_key x = conf_key y" for x y
    by (auto simp: conf_value_cmp_def conf_key_def c_strcmp_zero Let_def split: option.splits)
  show "conf_key x = conf_key y \<Longrightarrow> conf_value_hash x = conf_value_hash y" for x y
    by (cases "cv_section x"; cases "cv_section y"; cases "cv_name x"; cases "cv_name y")
       (auto simp: conf_value_hash_def conf_key_def dest!: lh_strhash_str)
qed

section \<open>The database\<close>

type_synonym conf_table = "(CONF_VALUE, unit, unit) LHASH"

text \<open>What is handed back to the allocator.\<close>

datatype conf_block = String_block "u8 list" | Text_block conf_data | Stack_block conf_data | Value_block nat | Table_blocks nat | Conf_block

record conf =
  db_table :: conf_table
  db_stacks :: "(CONF_VALUE, unit) STACK list"
  db_objects :: nat
  db_freed :: "conf_block list"

definition sizeof_CONF :: nat where "sizeof_CONF = 8"
definition sizeof_CONF_VALUE :: nat where "sizeof_CONF_VALUE = 24"

text \<open>The result is \<open>None\<close> for NULL; \<open>meth\<close> is the argument \<open>method\<close>.\<close>

definition NCONF_new :: "CONF_VALUE heap \<Rightarrow> 'x option \<Rightarrow> conf option" where
  "NCONF_new h meth =
     (if meth \<noteq> None then None
      else case OPENSSL_malloc (h_malloc h) sizeof_CONF of
             None \<Rightarrow> None
           | Some _ \<Rightarrow>
               (case lh_new (h_malloc h) () () of
                  None \<Rightarrow> None
                | Some table \<Rightarrow> Some \<lparr>db_table = table, db_stacks = [], db_objects = 0, db_freed = []\<rparr>))"

definition CONF_VALUE_new :: "CONF_VALUE heap \<Rightarrow> conf \<Rightarrow> CONF_VALUE option \<times> conf" where
  "CONF_VALUE_new h conf =
     (case OPENSSL_malloc (h_malloc h) sizeof_CONF_VALUE of
        None \<Rightarrow> (None, conf)
      | Some _ \<Rightarrow> (Some \<lparr>cv_ptr = db_objects conf, cv_section = None, cv_name = None, cv_value = Null\<rparr>,
                   conf\<lparr>db_objects := db_objects conf + 1\<rparr>))"

definition freed :: "conf_block list \<Rightarrow> conf \<Rightarrow> conf" where
  "freed bs conf = conf\<lparr>db_freed := db_freed conf @ bs\<rparr>"

definition value_free_contents :: "CONF_VALUE \<Rightarrow> conf_block list" where
  "value_free_contents v =
     (case cv_section v of None \<Rightarrow> [] | Some s \<Rightarrow> [String_block s]) @
     (case cv_name v of
        Some s \<Rightarrow> [String_block s] @ (if cv_value v \<noteq> Null then [Text_block (cv_value v)] else [])
      | None \<Rightarrow> (if cv_value v \<noteq> Null then [Stack_block (cv_value v)] else []))"

definition value_free :: "CONF_VALUE \<Rightarrow> conf_block list" where
  "value_free v = value_free_contents v @ [Value_block (cv_ptr v)]"

definition NCONF_free :: "CONF_VALUE heap \<Rightarrow> conf option \<Rightarrow> conf_block list" where
  "NCONF_free h conf =
     (case conf of
        None \<Rightarrow> []
      | Some conf \<Rightarrow>
          (case lh_doall_arg (h_malloc h) (\<lambda>v bs. bs @ value_free v) (Some (db_table conf)) [] of
             (bs, table) \<Rightarrow> bs @ [Table_blocks (lh_free table), Conf_block]))"

text \<open>The items that a search for \<open>v\<close> compares it with include one where only one of the two
  sections is NULL.\<close>

definition null_compare :: "conf_table \<Rightarrow> CONF_VALUE \<Rightarrow> bool" where
  "null_compare table v =
     (case get_next_ptr_and_hash (\<lambda>_. conf_value_hash) (\<lambda>_. conf_value_cmp) table v of
        (hash, i, n) \<Rightarrow>
          list_ex (\<lambda>it. (cv_section (fst it) = None) \<noteq> (cv_section v = None)) (take (Suc n) (lh_buckets table ! i)))"

definition lh_CONF_VALUE_retrieve :: "conf_table \<Rightarrow> CONF_VALUE \<Rightarrow> CONF_VALUE option option" where
  "lh_CONF_VALUE_retrieve table v =
     (if null_compare table v then None
      else Some (lh_retrieve (\<lambda>_. conf_value_hash) (\<lambda>_. conf_value_cmp) table v))"

definition lh_CONF_VALUE_insert ::
  "CONF_VALUE heap \<Rightarrow> conf \<Rightarrow> CONF_VALUE \<Rightarrow> (bool \<times> CONF_VALUE option \<times> conf) option" where
  "lh_CONF_VALUE_insert h conf v =
     (if null_compare (db_table conf) v then None
      else case lh_insert (h_malloc h) (\<lambda>_. conf_value_hash) (\<lambda>_. conf_value_cmp) (db_table conf) v of
             (ok, old, table) \<Rightarrow> Some (ok, old, conf\<lparr>db_table := table\<rparr>))"

text \<open>The section that was created, \<open>None\<close> for NULL.\<close>

definition NCONF_new_section :: "CONF_VALUE heap \<Rightarrow> conf \<Rightarrow> u8 list \<Rightarrow> (CONF_VALUE option \<times> conf) option" where
  "NCONF_new_section h conf sect =
     (let (sk, conf) = (case sk_new_null h of
                          None \<Rightarrow> (None, conf)
                        | Some sk \<Rightarrow> (Some (length (db_stacks conf)), conf\<lparr>db_stacks := db_stacks conf @ [sk]\<rparr>));
          (v, conf) = CONF_VALUE_new h conf;
          err = freed ((case sk of None \<Rightarrow> [] | Some k \<Rightarrow> [Stack_block (Section_stack k)]) @
                       (case v of None \<Rightarrow> [] | Some v \<Rightarrow> [Value_block (cv_ptr v)]))
      in case (sk, v) of
           (Some k, Some v) \<Rightarrow>
             (case OPENSSL_strdup (h_malloc h) (Some sect) of
                None \<Rightarrow> Some (None, err conf)
              | Some s \<Rightarrow>
                  let v = v\<lparr>cv_section := Some s, cv_name := None, cv_value := Section_stack k\<rparr>
                  in do {
                       (ok, old_value, conf) \<leftarrow> lh_CONF_VALUE_insert h conf v;
                       if \<not> ok then Some (None, err conf)
                       else Some (Some v, case old_value of None \<Rightarrow> conf | Some old \<Rightarrow> freed (value_free old) conf)
                     })
         | _ \<Rightarrow> Some (None, err conf))"

definition get_section :: "conf \<Rightarrow> u8 list option \<Rightarrow> CONF_VALUE option option" where
  "get_section conf sect =
     lh_CONF_VALUE_retrieve (db_table conf) \<lparr>cv_ptr = 0, cv_section = sect, cv_name = None, cv_value = Null\<rparr>"

definition NCONF_get_section :: "conf \<Rightarrow> u8 list option \<Rightarrow> conf_data option" where
  "NCONF_get_section conf sect = do {
     section_value \<leftarrow> get_section conf sect;
     Some (case section_value of None \<Rightarrow> Null | Some v \<Rightarrow> cv_value v)
   }"

definition NCONF_get_string :: "conf \<Rightarrow> u8 list option \<Rightarrow> u8 list option \<Rightarrow> conf_data option" where
  "NCONF_get_string conf sect name = do {
     value \<leftarrow> lh_CONF_VALUE_retrieve (db_table conf)
                \<lparr>cv_ptr = 0, cv_section = sect, cv_name = name, cv_value = Null\<rparr>;
     Some (case value of None \<Rightarrow> Null | Some v \<Rightarrow> cv_value v)
   }"

text \<open>The value as it is after the call, and the database. Using a string or NULL as a stack is
  undefined. The result of \<open>OPENSSL_strdup\<close> is not checked.\<close>

definition add_string ::
  "CONF_VALUE heap \<Rightarrow> conf \<Rightarrow> CONF_VALUE \<Rightarrow> CONF_VALUE \<Rightarrow> (bool \<times> CONF_VALUE \<times> conf) option" where
  "add_string h conf sect v =
     (case cv_value sect of
        Section_stack k \<Rightarrow>
          let v = v\<lparr>cv_section := OPENSSL_strdup (h_malloc h) (cv_section sect)\<rparr>;
              (n, sk) = sk_push h (Some (db_stacks conf ! k)) (Some v);
              conf = (case sk of None \<Rightarrow> conf | Some sk \<Rightarrow> conf\<lparr>db_stacks := (db_stacks conf)[k := sk]\<rparr>)
          in if n = 0 then Some (False, v, conf)
             else do {
               (ok, old_value, conf) \<leftarrow> lh_CONF_VALUE_insert h conf v;
               if \<not> ok then Some (False, v, conf)
               else case old_value of
                      None \<Rightarrow> Some (True, v, conf)
                    | Some old \<Rightarrow>
                        let (_, sk) = sk_delete_ptr (Some (db_stacks conf ! k)) (Some old);
                            conf = (case sk of None \<Rightarrow> conf | Some sk \<Rightarrow> conf\<lparr>db_stacks := (db_stacks conf)[k := sk]\<rparr>)
                        in Some (True, v, freed (value_free old) conf)
             }
      | _ \<Rightarrow> None)"

end
