(* ===== verification/Container_Props.thy ===== *)
theory Container_Props
  imports Base64 Buf_Mem Sk_Stack Conf
begin

text \<open>
  The properties of the memory helpers, the containers (\<open>BUF_MEM\<close>, \<open>STACK_OF\<close>,
  \<open>LHASH\<close>) and the base64 coder.
\<close>

section \<open>The hash table, with the values of the configuration\<close>

text \<open>C9: \<open>lh_insert\<close> on the table of configuration values is the update of a map from
  section and name to the value: the value replaced, if any, is returned; if an allocation
  fails nothing changes. The table's invariant is kept, through growth and shrinkage too.\<close>

theorem conf_insert:
  assumes "malloc_ok m" and "lh_ok conf_value_hash conf_key lh"
    and "callh (lh_hash lh) = conf_value_hash" and "callc (lh_comp lh) = conf_value_cmp"
    and "lh_items lh + 1 < 2 ^ 64"
  shows "case lh_insert m callh callc lh v of
      (True, old, lh') \<Rightarrow> lh_ok conf_value_hash conf_key lh' \<and>
        lh_map conf_key lh' = (lh_map conf_key lh)(conf_key v \<mapsto> v) \<and> old = lh_map conf_key lh (conf_key v)
    | (False, old, lh') \<Rightarrow> old = None \<and> lh' = lh"
  using conf_values.lh_insert_ok [where m = m and callh = callh and callc = callc and lh = lh and d = v]
    assms conf_values.lh_insert_fail [of m callh callc lh v]
  by (auto split: prod.split bool.split)

text \<open>A table and a value for the examples; the functions are called by name.\<close>

definition conf_table :: "(CONF_VALUE, unit, unit) LHASH" where
  "conf_table = \<lparr>lh_items = 0, lh_buckets = replicate 16 [], lh_num_buckets = 16, lh_depth = 0,
     lh_comp = (), lh_hash = ()\<rparr>"

definition sample_value :: CONF_VALUE where
  "sample_value = \<lparr>cv_ptr = 0, cv_section = Some [97, 0], cv_name = Some [98, 0], cv_value = Text [99, 0]\<rparr>"

lemma conf_table_ok: "lh_ok conf_value_hash conf_key conf_table"
  by (auto simp: lh_ok_def conf_table_def placed_def kMinNumBuckets_def lh_data_def)

definition some_malloc :: allocator where
  "some_malloc n = (if n < 2 ^ 63 then Some (replicate n 7) else None)"

lemma some_malloc_ok [simp]: "malloc_ok some_malloc"
  by (simp add: malloc_ok_def some_malloc_def)

theorem conf_insert_witness:
  "case lh_insert some_malloc (\<lambda>_. conf_value_hash) (\<lambda>_. conf_value_cmp) conf_table sample_value of
      (True, old, lh') \<Rightarrow> lh_ok conf_value_hash conf_key lh' \<and>
        lh_map conf_key lh' = (lh_map conf_key conf_table)(conf_key sample_value \<mapsto> sample_value) \<and>
        old = lh_map conf_key conf_table (conf_key sample_value)
    | (False, old, lh') \<Rightarrow> old = None \<and> lh' = conf_table"
  by (rule conf_insert [OF some_malloc_ok conf_table_ok]) (simp_all add: conf_table_def)

text \<open>C10: \<open>lh_delete\<close> removes exactly the entry of the value's section and name and returns
  it; \<open>lh_retrieve\<close> returns the entry a map lookup returns.\<close>

theorem conf_delete_retrieve:
  assumes "malloc_ok m" and "lh_ok conf_value_hash conf_key lh"
    and "callh (lh_hash lh) = conf_value_hash" and "callc (lh_comp lh) = conf_value_cmp"
    and "lh_items lh < 2 ^ 64"
  shows "(case lh_delete m callh callc lh v of (old, lh') \<Rightarrow>
      lh_ok conf_value_hash conf_key lh' \<and> lh_map conf_key lh' = (lh_map conf_key lh)(conf_key v := None) \<and>
      old = lh_map conf_key lh (conf_key v)) \<and>
    lh_retrieve callh callc lh v = lh_map conf_key lh (conf_key v)"
  using conf_values.lh_delete_ok [where m = m and callh = callh and callc = callc and lh = lh and d = v]
    conf_values.retrieve [where callh = callh and callc = callc and lh = lh and d = v] assms
  by (auto split: prod.split)

theorem conf_delete_retrieve_witness:
  "(case lh_delete some_malloc (\<lambda>_. conf_value_hash) (\<lambda>_. conf_value_cmp) conf_table sample_value of (old, lh') \<Rightarrow>
      lh_ok conf_value_hash conf_key lh' \<and>
      lh_map conf_key lh' = (lh_map conf_key conf_table)(conf_key sample_value := None) \<and>
      old = lh_map conf_key conf_table (conf_key sample_value)) \<and>
    lh_retrieve (\<lambda>_. conf_value_hash) (\<lambda>_. conf_value_cmp) conf_table sample_value =
      lh_map conf_key conf_table (conf_key sample_value)"
  by (rule conf_delete_retrieve [OF some_malloc_ok conf_table_ok]) (simp_all add: conf_table_def)

text \<open>resizing keeps the average chain short: a table that holds at most three items per
  bucket holds fewer than that after \<open>lh_maybe_resize\<close>, while allocation succeeds.\<close>

theorem resize_bounds_load:
  assumes "\<forall>k < 2 ^ 62. m k \<noteq> None" and "lh_depth lh = 0"
    and "0 < lh_num_buckets lh" and "lh_num_buckets lh < 2 ^ 57" and "lh_items lh \<le> 3 * lh_num_buckets lh"
  shows "lh_items (lh_maybe_resize m lh) < 3 * lh_num_buckets (lh_maybe_resize m lh)"
  using assms by (rule lh_maybe_resize_load)

theorem resize_bounds_load_witness:
  "lh_items (lh_maybe_resize some_malloc (conf_table\<lparr>lh_items := 48\<rparr>)) <
     3 * lh_num_buckets (lh_maybe_resize some_malloc (conf_table\<lparr>lh_items := 48\<rparr>))"
  by (rule resize_bounds_load) (simp_all add: some_malloc_def conf_table_def)

section \<open>Stacks\<close>

text \<open>C29: \<open>sk_insert\<close> inserts the pointer at the position, or at the end when the position
  is beyond it, clears the \<open>sorted\<close> flag and returns the new number of elements; when it
  returns zero the stack is unchanged.\<close>

theorem stack_insert:
  assumes "malloc_ok (h_malloc h)" and "sk_ok sk"
  shows "case sk_insert h (Some sk) p pos of
      (n, Some sk') \<Rightarrow>
        if n = 0 then sk' = sk
        else sk_ok sk' \<and> elems sk' = take pos (elems sk) @ [p] @ drop pos (elems sk) \<and>
          \<not> st_sorted sk' \<and> st_comp sk' = st_comp sk \<and> n = length (elems sk) + 1
    | (n, None) \<Rightarrow> False"
proof -
  obtain n r where r: "sk_insert h (Some sk) p pos = (n, r)" by fastforce
  show ?thesis
  proof (cases "n = 0")
    case True
    with r sk_insert_fail [OF assms(2,1), of p pos r] show ?thesis by simp
  next
    case False
    moreover from r False obtain sk' where "r = Some sk'"
      by (auto simp: sk_insert_def Let_def split: option.splits if_splits)
    ultimately show ?thesis
      using r sk_insert_Some [OF assms, of p pos n sk'] by simp
  qed
qed

definition sample_heap :: "int heap" where
  "sample_heap = \<lparr>h_malloc = some_malloc, h_ptr = (\<lambda>_. None)\<rparr>"

definition sample_stack :: "(int, unit) STACK" where
  "sample_stack = \<lparr>st_num = 2, st_data = [Some 5, Some 3, None, None], st_sorted = False,
     st_num_alloc = 4, st_comp = Some ()\<rparr>"

lemma sample_stack_ok: "sk_ok sample_stack"
  by (simp add: sk_ok_def sample_stack_def kMinSize_def)

lemma sample_elems: "elems sample_stack = [Some 5, Some 3]"
  by (simp add: elems_def sample_stack_def numeral_2_eq_2)

theorem stack_insert_witness:
  "case sk_insert sample_heap (Some sample_stack) (Some 4) 1 of
      (n, Some sk') \<Rightarrow>
        if n = 0 then sk' = sample_stack
        else sk_ok sk' \<and> elems sk' = take 1 (elems sample_stack) @ [Some 4] @ drop 1 (elems sample_stack) \<and>
          \<not> st_sorted sk' \<and> st_comp sk' = st_comp sample_stack \<and> n = length (elems sample_stack) + 1
    | (n, None) \<Rightarrow> False"
  by (rule stack_insert) (simp_all add: sample_stack_ok sample_heap_def)

text \<open>C28: \<open>sk_sort\<close> leaves a permutation of the elements in the order of the comparison
  function and sets the flag; a stack that has the flag already is left alone.\<close>

theorem stack_sort:
  assumes "comparator (call cf) key sane" and "sk_ok sk" and "st_comp sk = Some cf"
    and "st_sorted sk \<Longrightarrow> sorted (map key (elems sk))" and "\<forall>q \<in> set (elems sk). sane q"
  shows "\<exists>sk'. sk_sort call (Some sk) = Some sk' \<and> sk_ok sk' \<and> st_sorted sk' \<and> st_comp sk' = Some cf \<and>
      mset (elems sk') = mset (elems sk) \<and> map key (elems sk') = sort (map key (elems sk))"
  using assms by (rule sk_sort_Some)

definition call_sub :: "unit \<Rightarrow> int option \<Rightarrow> int option \<Rightarrow> int" where
  "call_sub cf p q = the p - the q"

lemma call_sub_comparator: "comparator (call_sub ()) the (\<lambda>p. p \<noteq> None)"
  by unfold_locales (auto simp: call_sub_def)

theorem stack_sort_witness:
  "\<exists>sk'. sk_sort call_sub (Some sample_stack) = Some sk' \<and> sk_ok sk' \<and> st_sorted sk' \<and> st_comp sk' = Some () \<and>
      mset (elems sk') = mset (elems sample_stack) \<and> map the (elems sk') = sort (map the (elems sample_stack))"
  using stack_sort [where call = call_sub, OF call_sub_comparator sample_stack_ok]
  by (simp add: sample_elems) (simp add: sample_stack_def)

text \<open>C11: \<open>sk_find\<close> returns the first index whose element compares equal, or nothing if there
  is none: the binary search of a sorted stack finds what the linear search finds.\<close>

theorem stack_find:
  assumes "comparator (call cf) key sane" and "sk_ok sk" and "st_comp sk = Some cf"
    and "st_sorted sk \<Longrightarrow> sorted (map key (elems sk))"
    and "\<forall>q \<in> set (elems sk). sane q" and "sane (Some p)"
  shows "case sk_find call (Some sk) (Some p) of
      None \<Rightarrow> \<forall>q \<in> set (elems sk). key q \<noteq> key (Some p)
    | Some i \<Rightarrow> i < length (elems sk) \<and> key (elems sk ! i) = key (Some p) \<and>
        (\<forall>j < i. key (elems sk ! j) \<noteq> key (Some p))"
proof -
  have "sk_find call (Some sk) (Some p) = find_from (\<lambda>q. key q = key (Some p)) 0 (elems sk)"
    using assms by (rule sk_find_eq)
  then show ?thesis
    by (auto simp: find_from_None [symmetric] find_from_Some split: option.split)
qed

definition sorted_stack :: "(int, unit) STACK" where
  "sorted_stack = sample_stack\<lparr>st_data := [Some 3, Some 5, None, None], st_sorted := True\<rparr>"

lemma sorted_stack_ok: "sk_ok sorted_stack" "elems sorted_stack = [Some 3, Some 5]" "st_comp sorted_stack = Some ()"
  by (simp_all add: sk_ok_def sorted_stack_def sample_stack_def kMinSize_def elems_def)

theorem stack_find_witness:
  "case sk_find call_sub (Some sorted_stack) (Some 5) of
      None \<Rightarrow> False
    | Some i \<Rightarrow> i < 2 \<and> the (elems sorted_stack ! i) = 5"
  using stack_find [where call = call_sub, OF call_sub_comparator sorted_stack_ok(1,3), of 5]
  by (simp add: sorted_stack_ok split: option.splits)

text \<open>C30: \<open>sk_deep_copy\<close> leaks nothing: it returns a stack of as many elements, and the
  objects alive afterwards are those alive before and the copies; when it fails, the
  copies made so far have all been freed.\<close>

theorem stack_deep_copy_no_leak:
  assumes "malloc_ok (h_malloc h)" and "sk_ok sk"
    and "\<And>p w. live (free p w) = live w - {#p#}"
    and "\<And>p w q w'. copy p w = (Some q, w') \<Longrightarrow> live w' = add_mset q (live w)"
    and "\<And>p w w'. copy p w = (None, w') \<Longrightarrow> live w' = live w"
  shows "case sk_deep_copy h (Some sk) copy free w of
      (None, w') \<Rightarrow> live w' = live w
    | (Some sk', w') \<Rightarrow> sk_ok sk' \<and> live w' = live w + live_ptrs (elems sk') \<and> length (elems sk') = length (elems sk)"
  using sk_deep_copy_live [OF assms(1,2), of live free copy w] assms(3-5)
  by (fastforce split: prod.split option.splits)

text \<open>A world that is the multiset of live objects; copying fails on the number 3.\<close>

theorem stack_deep_copy_no_leak_witness:
  "case sk_deep_copy sample_heap (Some sample_stack)
      (\<lambda>p w. if p = 3 then (None, w) else (Some p, add_mset p w)) (\<lambda>p w. w - {#p#}) {#7#} of
      (None, w') \<Rightarrow> w' = {#7 :: int#}
    | (Some sk', w') \<Rightarrow> sk_ok sk' \<and> w' = {#7#} + live_ptrs (elems sk') \<and> length (elems sk') = length (elems sample_stack)"
  by (rule stack_deep_copy_no_leak [where live = "\<lambda>w. w"])
     (simp_all add: sample_stack_ok sample_heap_def split: if_splits)

text \<open>\<open>sk_set\<close> does not clear the \<open>sorted\<close> flag, so a stack can be marked sorted and
  not be: \<open>sk_find\<close> then does not find a pointer that is in it.\<close>

theorem stack_set_keeps_flag:
  "\<exists>sk'. sk_set (Some sorted_stack) 1 (Some 0) = (Some 0, Some sk') \<and> sk_value (Some sk') 1 = Some 0 \<and>
     st_sorted sk' \<and> sk_find call_sub (Some sk') (Some 0) = None"
  by (simp add: sorted_stack_def sample_stack_def call_sub_def sk_set_def sk_value_def sk_find_def
      sk_is_sorted_def sk_find_loop.simps)

section \<open>Buffers and memory\<close>

text \<open>C31: \<open>BUF_MEM_append\<close> appends exactly the bytes it is given and keeps the buffer
  consistent; when it fails the buffer is unchanged.\<close>

theorem buffer_append:
  assumes "malloc_ok m" and "buf_mem_ok buf" and "len \<le> length inp" and "len < 2 ^ 61"
  shows "case BUF_MEM_append m inp len buf of
      (True, buf') \<Rightarrow> buf_mem_ok buf' \<and> contents buf' = contents buf @ take len inp
    | (False, buf') \<Rightarrow> buf' = buf"
  using BUF_MEM_append_Some [OF assms] BUF_MEM_append_fail [of m inp len buf]
  by (auto split: prod.split bool.split)

theorem buffer_append_witness:
  "case BUF_MEM_append some_malloc [1, 2, 3] 2 \<lparr>bm_length = 1, bm_data = [9], bm_max = 1\<rparr> of
      (True, buf') \<Rightarrow> buf_mem_ok buf' \<and>
        contents buf' = contents \<lparr>bm_length = 1, bm_data = [9], bm_max = 1\<rparr> @ take 2 [1, 2, 3]
    | (False, buf') \<Rightarrow> buf' = \<lparr>bm_length = 1, bm_data = [9], bm_max = 1\<rparr>"
  by (rule buffer_append) (simp_all add: buf_mem_ok_def)

text \<open>a sequence of appends that fits succeeds, and the buffer holds the pieces in order.\<close>

theorem buffer_append_all:
  assumes "malloc_ok m" and "buf_mem_ok buf" and "\<forall>x \<in> set xs. length x < 2 ^ 61"
    and "buf_room m buf n" and "bm_length buf + length (concat xs) \<le> n"
  shows "\<exists>buf'. put_all (\<lambda>x. BUF_MEM_append m x (length x)) xs buf = (True, buf') \<and>
      buf_mem_ok buf' \<and> contents buf' = contents buf @ concat xs"
  using assms by (rule append_all)

theorem buffer_append_all_witness:
  "\<exists>buf'. put_all (\<lambda>x. BUF_MEM_append some_malloc x (length x)) [[1], [2, 3]]
        \<lparr>bm_length = 0, bm_data = [], bm_max = 0\<rparr> = (True, buf') \<and>
      buf_mem_ok buf' \<and> contents buf' = contents \<lparr>bm_length = 0, bm_data = [], bm_max = 0\<rparr> @ concat [[1], [2, 3]]"
  by (rule buffer_append_all [where n = 3]) (simp_all add: buf_mem_ok_def buf_room_def some_malloc_def)

text \<open>\<open>CRYPTO_memcmp\<close>, which reads every byte whatever they are, returns zero if and
  only if the two regions are equal.\<close>

theorem memcmp_constant_time:
  assumes "n \<le> length a" and "n \<le> length b"
  shows "CRYPTO_memcmp a b n = 0 \<longleftrightarrow> take n a = take n b"
  using assms by (rule CRYPTO_memcmp_zero)

theorem memcmp_constant_time_witness:
  "CRYPTO_memcmp [1, 2, 3] [1, 2, 4] 3 = 0 \<longleftrightarrow> take 3 [1, 2, 3 :: u8] = take 3 [1, 2, 4]"
  by (rule memcmp_constant_time) simp_all

section \<open>Base64\<close>

text \<open>\<open>EVP_DecodeBase64\<close> inverts \<open>EVP_EncodeBlock\<close> on all byte strings, padding included,
  when the output buffer has the size \<open>EVP_DecodedLength\<close> asks for.\<close>

theorem base64_block_roundtrip:
  assumes "(length bs + 2) div 3 * 3 \<le> max_out"
  shows "case EVP_EncodeBlock (bs @ rest) (length bs) of
    (out, n) \<Rightarrow> EVP_DecodeBase64 max_out out n = Some bs"
  using decode_base64_b64 [OF assms, of "[0]"] by (simp add: EVP_EncodeBlock_eq)

theorem base64_block_roundtrip_witness:
  "case EVP_EncodeBlock [1, 2, 3, 255, 9] 4 of (out, n) \<Rightarrow> EVP_DecodeBase64 6 out n = Some [1, 2, 3, 255]"
proof -
  have len: "length [1, 2, 3, 255 :: u8] = 4" by simp
  from base64_block_roundtrip [of "[1, 2, 3, 255]" 6 "[9]", unfolded len] show ?thesis by simp
qed

text \<open>C12: the streaming coder: a byte string fed to \<open>EVP_EncodeUpdate\<close> in any pieces and
  finished gives a text from which \<open>EVP_DecodeUpdate\<close> recovers the whole string, and
  \<open>EVP_DecodeFinal\<close> accepts.\<close>

theorem base64_stream_roundtrip:
  assumes "length (concat cs) < 2 ^ 29"
  shows "\<exists>r ctx'. EVP_DecodeUpdate EVP_DecodeInit (encode_chunks EVP_EncodeInit cs)
        (length (encode_chunks EVP_EncodeInit cs)) = (r, ctx', concat cs, length (concat cs)) \<and>
      r \<ge> 0 \<and> EVP_DecodeFinal ctx' = 1"
proof -
  have "length (concat cs) \<le> INT_MAX" using assms by (simp add: INT_MAX_def)
  from decode_text [OF this] show ?thesis by (auto simp: encode_stream [OF assms])
qed

theorem base64_stream_roundtrip_witness:
  "\<exists>r ctx'. EVP_DecodeUpdate EVP_DecodeInit (encode_chunks EVP_EncodeInit [[1], [2, 3]])
        (length (encode_chunks EVP_EncodeInit [[1], [2, 3]])) = (r, ctx', concat [[1], [2, 3]], length (concat [[1], [2, 3 :: u8]])) \<and>
      r \<ge> 0 \<and> EVP_DecodeFinal ctx' = 1"
  by (rule base64_stream_roundtrip) simp

end
