(* ===== verification/Conf_Text.thy ===== *)
theory Conf_Text
  imports Conf
begin

text \<open>
  The text of a configuration file: the classes of characters (\<open>crypto/conf/conf_def.h\<close>), the
  functions of \<open>crypto/conf/conf.c\<close> that scan a line, the removal of comments, and
  \<open>CONF_parse_list\<close>. A line is the memory \<open>b\<close> that holds it, a pointer into it a position;
  \<open>chr\<close> reads a character. Every function stops at the NUL (\<open>conf_scan_bounds\<close>), so what
  \<open>chr\<close> gives behind the memory does not matter.
\<close>

section \<open>Classes of characters\<close>

definition CONF_NUMBER :: u16 where "CONF_NUMBER = 1"
definition CONF_UPPER :: u16 where "CONF_UPPER = 2"
definition CONF_LOWER :: u16 where "CONF_LOWER = 4"
definition CONF_UNDER :: u16 where "CONF_UNDER = 256"
definition CONF_PUNCTUATION :: u16 where "CONF_PUNCTUATION = 512"
definition CONF_WS :: u16 where "CONF_WS = 16"
definition CONF_ESC :: u16 where "CONF_ESC = 32"
definition CONF_QUOTE :: u16 where "CONF_QUOTE = 64"
definition CONF_DQUOTE :: u16 where "CONF_DQUOTE = 1024"
definition CONF_COMMENT :: u16 where "CONF_COMMENT = 128"
definition CONF_FCOMMENT :: u16 where "CONF_FCOMMENT = 2048"
definition CONF_EOF :: u16 where "CONF_EOF = 8"

definition CONF_ALPHA :: u16 where
  "CONF_ALPHA = CONF_UPPER OR CONF_LOWER"

definition CONF_ALPHA_NUMERIC :: u16 where
  "CONF_ALPHA_NUMERIC = CONF_ALPHA OR CONF_NUMBER OR CONF_UNDER"

definition CONF_ALPHA_NUMERIC_PUNCT :: u16 where
  "CONF_ALPHA_NUMERIC_PUNCT = CONF_ALPHA OR CONF_NUMBER OR CONF_UNDER OR CONF_PUNCTUATION"

definition CONF_type_default :: "u16 list" where
  "CONF_type_default =
    [0x0008, 0x0000, 0x0000, 0x0000, 0x0000, 0x0000, 0x0000, 0x0000,
     0x0000, 0x0010, 0x0010, 0x0000, 0x0000, 0x0010, 0x0000, 0x0000,
     0x0000, 0x0000, 0x0000, 0x0000, 0x0000, 0x0000, 0x0000, 0x0000,
     0x0000, 0x0000, 0x0000, 0x0000, 0x0000, 0x0000, 0x0000, 0x0000,
     0x0010, 0x0200, 0x0040, 0x0080, 0x0000, 0x0200, 0x0200, 0x0040,
     0x0000, 0x0000, 0x0200, 0x0200, 0x0200, 0x0200, 0x0200, 0x0200,
     0x0001, 0x0001, 0x0001, 0x0001, 0x0001, 0x0001, 0x0001, 0x0001,
     0x0001, 0x0001, 0x0000, 0x0200, 0x0000, 0x0000, 0x0000, 0x0200,
     0x0200, 0x0002, 0x0002, 0x0002, 0x0002, 0x0002, 0x0002, 0x0002,
     0x0002, 0x0002, 0x0002, 0x0002, 0x0002, 0x0002, 0x0002, 0x0002,
     0x0002, 0x0002, 0x0002, 0x0002, 0x0002, 0x0002, 0x0002, 0x0002,
     0x0002, 0x0002, 0x0002, 0x0000, 0x0020, 0x0000, 0x0200, 0x0100,
     0x0040, 0x0004, 0x0004, 0x0004, 0x0004, 0x0004, 0x0004, 0x0004,
     0x0004, 0x0004, 0x0004, 0x0004, 0x0004, 0x0004, 0x0004, 0x0004,
     0x0004, 0x0004, 0x0004, 0x0004, 0x0004, 0x0004, 0x0004, 0x0004,
     0x0004, 0x0004, 0x0004, 0x0000, 0x0200, 0x0000, 0x0200, 0x0000,
     0x1000, 0x1000, 0x1000, 0x1000, 0x1000, 0x1000, 0x1000, 0x1000,
     0x1000, 0x1000, 0x1000, 0x1000, 0x1000, 0x1000, 0x1000, 0x1000,
     0x1000, 0x1000, 0x1000, 0x1000, 0x1000, 0x1000, 0x1000, 0x1000,
     0x1000, 0x1000, 0x1000, 0x1000, 0x1000, 0x1000, 0x1000, 0x1000,
     0x1000, 0x1000, 0x1000, 0x1000, 0x1000, 0x1000, 0x1000, 0x1000,
     0x1000, 0x1000, 0x1000, 0x1000, 0x1000, 0x1000, 0x1000, 0x1000,
     0x1000, 0x1000, 0x1000, 0x1000, 0x1000, 0x1000, 0x1000, 0x1000,
     0x1000, 0x1000, 0x1000, 0x1000, 0x1000, 0x1000, 0x1000, 0x1000,
     0x1000, 0x1000, 0x1000, 0x1000, 0x1000, 0x1000, 0x1000, 0x1000,
     0x1000, 0x1000, 0x1000, 0x1000, 0x1000, 0x1000, 0x1000, 0x1000,
     0x1000, 0x1000, 0x1000, 0x1000, 0x1000, 0x1000, 0x1000, 0x1000,
     0x1000, 0x1000, 0x1000, 0x1000, 0x1000, 0x1000, 0x1000, 0x1000,
     0x1000, 0x1000, 0x1000, 0x1000, 0x1000, 0x1000, 0x1000, 0x1000,
     0x1000, 0x1000, 0x1000, 0x1000, 0x1000, 0x1000, 0x1000, 0x1000,
     0x1000, 0x1000, 0x1000, 0x1000, 0x1000, 0x1000, 0x1000, 0x1000,
     0x1000, 0x1000, 0x1000, 0x1000, 0x1000, 0x1000, 0x1000, 0x1000]"

definition is_type :: "u16 \<Rightarrow> u8 \<Rightarrow> bool" where
  "is_type cls a = (CONF_type_default ! unat a AND cls \<noteq> 0)"

definition IS_COMMENT :: "u8 \<Rightarrow> bool" where "IS_COMMENT a = is_type CONF_COMMENT a"
definition IS_FCOMMENT :: "u8 \<Rightarrow> bool" where "IS_FCOMMENT a = is_type CONF_FCOMMENT a"
definition IS_EOF :: "u8 \<Rightarrow> bool" where "IS_EOF a = is_type CONF_EOF a"
definition IS_ESC :: "u8 \<Rightarrow> bool" where "IS_ESC a = is_type CONF_ESC a"
definition IS_WS :: "u8 \<Rightarrow> bool" where "IS_WS a = is_type CONF_WS a"
definition IS_ALPHA_NUMERIC :: "u8 \<Rightarrow> bool" where "IS_ALPHA_NUMERIC a = is_type CONF_ALPHA_NUMERIC a"
definition IS_ALPHA_NUMERIC_PUNCT :: "u8 \<Rightarrow> bool" where "IS_ALPHA_NUMERIC_PUNCT a = is_type CONF_ALPHA_NUMERIC_PUNCT a"
definition IS_QUOTE :: "u8 \<Rightarrow> bool" where "IS_QUOTE a = is_type CONF_QUOTE a"
definition IS_DQUOTE :: "u8 \<Rightarrow> bool" where "IS_DQUOTE a = is_type CONF_DQUOTE a"

text \<open>The table, read as sets of characters.\<close>

lemma table_entry: "(CONF_type_default ! unat a, uint (a :: u8)) \<in> set (zip CONF_type_default [0..255])"
proof -
  have a: "unat a < 256" using unsigned_less [of a, where ?'a = nat] by simp
  then have "0 + int (unat a) \<le> 255" by linarith
  from nth_upto [OF this] have "[0..255] ! unat a = uint a" by simp
  moreover have "length CONF_type_default = 256" by (simp add: CONF_type_default_def)
  ultimately show ?thesis using a by (auto simp: in_set_zip intro!: exI [of _ "unat a"])
qed

lemma is_type_table:
  assumes "list_all (\<lambda>(v, n). (v AND cls \<noteq> 0) = P (word_of_int n)) (zip CONF_type_default [0..255])"
  shows "is_type cls a = P a"
proof -
  from assms table_entry [of a] show ?thesis by (auto simp: is_type_def list_all_iff)
qed

lemmas conf_masks = CONF_NUMBER_def CONF_UPPER_def CONF_LOWER_def CONF_UNDER_def CONF_PUNCTUATION_def CONF_WS_def
  CONF_ESC_def CONF_QUOTE_def CONF_DQUOTE_def CONF_COMMENT_def CONF_FCOMMENT_def CONF_EOF_def CONF_ALPHA_def
  CONF_ALPHA_NUMERIC_def CONF_ALPHA_NUMERIC_PUNCT_def

lemma is_eof_iff [simp]: "IS_EOF a \<longleftrightarrow> a = 0"
  unfolding IS_EOF_def by (rule is_type_table) code_simp

lemma is_ws_iff: "IS_WS a \<longleftrightarrow> a \<in> {9, 10, 13, 32}"
  unfolding IS_WS_def by (rule is_type_table) code_simp

lemma is_esc_iff [simp]: "IS_ESC a \<longleftrightarrow> a = 92"
  unfolding IS_ESC_def by (rule is_type_table) code_simp

lemma is_quote_iff: "IS_QUOTE a \<longleftrightarrow> a \<in> {34, 39, 96}"
  unfolding IS_QUOTE_def by (rule is_type_table) code_simp

lemma is_dquote: "IS_DQUOTE a = False"
  unfolding IS_DQUOTE_def by (rule is_type_table) code_simp

lemma is_fcomment: "IS_FCOMMENT a = False"
  unfolding IS_FCOMMENT_def by (rule is_type_table) code_simp

lemma is_comment_iff [simp]: "IS_COMMENT a \<longleftrightarrow> a = 35"
  unfolding IS_COMMENT_def by (rule is_type_table) code_simp

lemma is_alpha_numeric_iff:
  "IS_ALPHA_NUMERIC a \<longleftrightarrow> 48 \<le> a \<and> a \<le> 57 \<or> 65 \<le> a \<and> a \<le> 90 \<or> 97 \<le> a \<and> a \<le> 122 \<or> a = 95"
  unfolding IS_ALPHA_NUMERIC_def by (rule is_type_table) code_simp

lemma is_type_all:
  assumes "list_all (\<lambda>(v, n). v AND cls \<noteq> 0 \<longrightarrow> P (word_of_int n)) (zip CONF_type_default [0..255])" and "is_type cls a"
  shows "P a"
proof -
  from assms table_entry [of a] show ?thesis by (auto simp: is_type_def list_all_iff)
qed

lemma is_alpha_numeric_punct: "IS_ALPHA_NUMERIC_PUNCT a \<Longrightarrow> a \<noteq> 0 \<and> a \<noteq> 58 \<and> a \<noteq> 61 \<and> a \<noteq> 91 \<and> a \<noteq> 92 \<and> a \<noteq> 93 \<and> \<not> IS_WS a"
  unfolding IS_ALPHA_NUMERIC_PUNCT_def is_ws_iff insert_iff empty_iff by (erule is_type_all [rotated]) code_simp

lemma alpha_numeric_punct: "IS_ALPHA_NUMERIC a \<Longrightarrow> IS_ALPHA_NUMERIC_PUNCT a"
  unfolding IS_ALPHA_NUMERIC_def
  by (erule is_type_all [rotated]) (code_simp)

lemmas not_classes [simp] = is_dquote [unfolded eq_False] is_fcomment [unfolded eq_False]

section \<open>Scanning a line\<close>

definition chr :: "u8 list \<Rightarrow> nat \<Rightarrow> u8" where
  "chr b p = (if p < length b then b ! p else 0)"

lemma chr_inside: "chr b p \<noteq> 0 \<Longrightarrow> p < length b"
  by (auto simp: chr_def split: if_splits)

lemma no_class_zero [simp]: "\<not> IS_WS 0" "\<not> IS_QUOTE 0" "\<not> IS_ALPHA_NUMERIC 0" "\<not> IS_ALPHA_NUMERIC_PUNCT 0"
  using is_alpha_numeric_punct [of 0] alpha_numeric_punct [of 0] by (auto simp: is_ws_iff is_quote_iff)

lemma class_inside:
  "IS_WS (chr b p) \<Longrightarrow> p < length b" "IS_QUOTE (chr b p) \<Longrightarrow> p < length b"
  "IS_ALPHA_NUMERIC (chr b p) \<Longrightarrow> p < length b" "IS_ALPHA_NUMERIC_PUNCT (chr b p) \<Longrightarrow> p < length b"
  by (auto simp: chr_def split: if_splits)

function eat_ws :: "u8 list \<Rightarrow> nat \<Rightarrow> nat" where
  "eat_ws b p = (if IS_WS (chr b p) \<and> \<not> IS_EOF (chr b p) then eat_ws b (p + 1) else p)"
  by pat_completeness auto
termination by (relation "measure (\<lambda>(b, p). length b - p)") (auto dest: class_inside)

definition scan_esc :: "u8 list \<Rightarrow> nat \<Rightarrow> nat" where
  "scan_esc b p = (if IS_EOF (chr b (p + 1)) then p + 1 else p + 2)"

function eat_alpha_numeric :: "u8 list \<Rightarrow> nat \<Rightarrow> nat" where
  "eat_alpha_numeric b p =
     (if IS_ESC (chr b p) then eat_alpha_numeric b (scan_esc b p)
      else if \<not> IS_ALPHA_NUMERIC_PUNCT (chr b p) then p
      else eat_alpha_numeric b (p + 1))"
  by pat_completeness auto
termination
proof (relation "measure (\<lambda>(b, p). length b - p)")
  fix b p assume "IS_ESC (chr b p)"
  then show "((b, scan_esc b p), b, p) \<in> measure (\<lambda>(b, p). length b - p)"
    using chr_inside [of b p] by (auto simp: scan_esc_def)
qed (auto dest: class_inside)

text \<open>The loop of \<open>scan_quote\<close>; the flag is its early return.\<close>

function scan_quote_loop :: "u8 list \<Rightarrow> u8 \<Rightarrow> nat \<Rightarrow> bool \<times> nat" where
  "scan_quote_loop b q p =
     (if \<not> IS_EOF (chr b p) \<and> chr b p \<noteq> q then
        if IS_ESC (chr b p) then
          if IS_EOF (chr b (p + 1)) then (True, p + 1)
          else scan_quote_loop b q (p + 1 + 1)
        else scan_quote_loop b q (p + 1)
      else (False, p))"
  by pat_completeness auto
termination by (relation "measure (\<lambda>(b, q, p). length b - p)") (auto dest: chr_inside)

definition scan_quote :: "u8 list \<Rightarrow> nat \<Rightarrow> nat" where
  "scan_quote b p =
     (let q = chr b p
      in case scan_quote_loop b q (p + 1) of
           (True, p) \<Rightarrow> p
         | (False, p) \<Rightarrow> if chr b p = q then p + 1 else p)"

function scan_dquote_loop :: "u8 list \<Rightarrow> u8 \<Rightarrow> nat \<Rightarrow> nat" where
  "scan_dquote_loop b q p =
     (if \<not> IS_EOF (chr b p) then
        if chr b p = q then
          if chr b (p + 1) = q then scan_dquote_loop b q (p + 1 + 1) else p
        else scan_dquote_loop b q (p + 1)
      else p)"
  by pat_completeness auto
termination by (relation "measure (\<lambda>(b, q, p). length b - p)") (auto dest: chr_inside)

definition scan_dquote :: "u8 list \<Rightarrow> nat \<Rightarrow> nat" where
  "scan_dquote b p =
     (let q = chr b p; p = scan_dquote_loop b q (p + 1)
      in if chr b p = q then p + 1 else p)"

declare eat_ws.simps [simp del] eat_alpha_numeric.simps [simp del] scan_quote_loop.simps [simp del]
  scan_dquote_loop.simps [simp del]

text \<open>The scanners move forward.\<close>

lemma eat_ws_le: "p \<le> eat_ws b p"
  by (induction b p rule: eat_ws.induct) (subst eat_ws.simps, auto)

lemma scan_esc_less: "p < scan_esc b p"
  by (simp add: scan_esc_def)

lemma eat_alpha_numeric_le: "p \<le> eat_alpha_numeric b p"
proof (induction b p rule: eat_alpha_numeric.induct)
  case (1 b p)
  then show ?case using scan_esc_less [of p b] by (subst eat_alpha_numeric.simps) (auto dest: less_imp_le)
qed

lemma scan_quote_loop_le: "p \<le> snd (scan_quote_loop b q p)"
  by (induction b q p rule: scan_quote_loop.induct) (subst scan_quote_loop.simps, auto)

lemma scan_quote_less: "p < scan_quote b p"
  using scan_quote_loop_le [of "p + 1" b "chr b p"] by (auto simp: scan_quote_def Let_def split: prod.split bool.split)

lemma scan_dquote_loop_le: "p \<le> scan_dquote_loop b q p"
  by (induction b q p rule: scan_dquote_loop.induct) (subst scan_dquote_loop.simps, auto)

lemma scan_dquote_less: "p < scan_dquote b p"
  using scan_dquote_loop_le [of "p + 1" b "chr b p"] by (auto simp: scan_dquote_def Let_def)

section \<open>Comments\<close>

text \<open>The two loops of \<open>clear_comments\<close>; the first ends with the line cut off, or with the
  position of the first character that is not white space.\<close>

function clear_fcomment :: "u8 list \<Rightarrow> nat \<Rightarrow> u8 list + nat" where
  "clear_fcomment b p =
     (if IS_FCOMMENT (chr b p) then Inl (b[p := 0])
      else if \<not> IS_WS (chr b p) then Inr p
      else clear_fcomment b (p + 1))"
  by pat_completeness auto
termination by (relation "measure (\<lambda>(b, p). length b - p)") (auto dest: class_inside)

function clear_comment_loop :: "u8 list \<Rightarrow> nat \<Rightarrow> u8 list" where
  "clear_comment_loop b p =
     (if IS_COMMENT (chr b p) then b[p := 0]
      else if IS_DQUOTE (chr b p) then clear_comment_loop b (scan_dquote b p)
      else if IS_QUOTE (chr b p) then clear_comment_loop b (scan_quote b p)
      else if IS_ESC (chr b p) then clear_comment_loop b (scan_esc b p)
      else if IS_EOF (chr b p) then b
      else clear_comment_loop b (p + 1))"
  by pat_completeness auto
termination
proof (relation "measure (\<lambda>(b, p). length b - p)")
  fix b p assume "IS_QUOTE (chr b p)"
  then show "((b, scan_quote b p), b, p) \<in> measure (\<lambda>(b, p). length b - p)"
    using class_inside(2) [of b p] scan_quote_less [of p b] by auto
next
  fix b p assume "IS_ESC (chr b p)"
  then show "((b, scan_esc b p), b, p) \<in> measure (\<lambda>(b, p). length b - p)"
    using chr_inside [of b p] scan_esc_less [of p b] by auto
qed (auto dest: chr_inside)

definition clear_comments :: "u8 list \<Rightarrow> nat \<Rightarrow> u8 list" where
  "clear_comments b p = (case clear_fcomment b p of Inl b \<Rightarrow> b | Inr p \<Rightarrow> clear_comment_loop b p)"

declare clear_fcomment.simps [simp del] clear_comment_loop.simps [simp del]

section \<open>Lists\<close>

text \<open>\<open>isspace\<close> of the C library in the C locale, and \<open>strchr\<close>.\<close>

definition c_isspace :: "u8 \<Rightarrow> bool" where
  "c_isspace c \<longleftrightarrow> 9 \<le> c \<and> c \<le> 13 \<or> c = 32"

function c_strchr :: "u8 list \<Rightarrow> nat \<Rightarrow> u8 \<Rightarrow> nat option" where
  "c_strchr b p c = (if chr b p = c then Some p else if chr b p = 0 then None else c_strchr b (p + 1) c)"
  by pat_completeness auto
termination by (relation "measure (\<lambda>(b, p, c). length b - p)") (auto dest: chr_inside)

function skip_spaces :: "u8 list \<Rightarrow> nat \<Rightarrow> nat" where
  "skip_spaces b p = (if chr b p \<noteq> 0 \<and> c_isspace (chr b p) then skip_spaces b (p + 1) else p)"
  by pat_completeness auto
termination by (relation "measure (\<lambda>(b, p). length b - p)") (auto dest: chr_inside)

text \<open>Going back over spaces; \<open>None\<close> when there is nothing else back to the start of the memory.\<close>

fun strip_spaces :: "u8 list \<Rightarrow> nat \<Rightarrow> nat option" where
  "strip_spaces b 0 = (if c_isspace (chr b 0) then None else Some 0)"
| "strip_spaces b (Suc e) = (if c_isspace (chr b (Suc e)) then strip_spaces b e else Some (Suc e))"

declare c_strchr.simps [simp del] skip_spaces.simps [simp del]

lemma c_strchr_le: "c_strchr b p c = Some k \<Longrightarrow> p \<le> k"
  by (induction b p c rule: c_strchr.induct) (subst (asm) c_strchr.simps, auto split: if_splits)

lemma skip_spaces_le: "p \<le> skip_spaces b p"
  by (induction b p rule: skip_spaces.induct) (subst skip_spaces.simps, auto)

lemma c_strchr_after: "c_strchr b (if r then skip_spaces b p else p) c = Some k \<Longrightarrow> p \<le> k"
  using skip_spaces_le [of p b] c_strchr_le [of b _ c k] by (auto split: if_splits dest: le_trans)

text \<open>The callback gets an element as the memory from its start on, or NULL, and its length. A
  result of \<open>None\<close> is a read outside of the memory.\<close>

type_synonym 'w list_cb = "u8 list option \<Rightarrow> int \<Rightarrow> 'w \<Rightarrow> int \<times> 'w"

function parse_list_loop :: "u8 list \<Rightarrow> u8 \<Rightarrow> bool \<Rightarrow> 'w list_cb \<Rightarrow> nat \<Rightarrow> 'w \<Rightarrow> (int \<times> 'w) option" where
  "parse_list_loop b sep remove_whitespace list_cb lstart w =
     (if \<not> lstart < length b then None
      else
        let lstart = (if remove_whitespace then skip_spaces b lstart else lstart);
            p = c_strchr b lstart sep
        in case (if p = Some lstart \<or> chr b lstart = 0 then Some (list_cb None 0 w)
                 else
                   let tmpend = (case p of Some p \<Rightarrow> p - 1 | None \<Rightarrow> lstart + c_strlen (drop lstart b) - 1)
                   in case (if remove_whitespace then strip_spaces b tmpend else Some tmpend) of
                        None \<Rightarrow> None
                      | Some tmpend \<Rightarrow> Some (list_cb (Some (drop lstart b)) (int tmpend - int lstart + 1) w)) of
             None \<Rightarrow> None
           | Some (ret, w) \<Rightarrow>
               if ret \<le> 0 then Some (ret, w)
               else (case p of
                       None \<Rightarrow> Some (1, w)
                     | Some p \<Rightarrow> parse_list_loop b sep remove_whitespace list_cb (p + 1) w))"
  by pat_completeness auto
termination
proof (relation "measure (\<lambda>(b, sep, r, cb, p, w). length b - p)", simp, goal_cases)
  case 1
  then show ?case by (auto dest!: c_strchr_after [OF sym])
qed

definition CONF_parse_list :: "u8 list option \<Rightarrow> u8 \<Rightarrow> bool \<Rightarrow> 'w list_cb \<Rightarrow> 'w \<Rightarrow> (int \<times> 'w) option" where
  "CONF_parse_list lst sep remove_whitespace list_cb w =
     (case lst of None \<Rightarrow> Some (0, w) | Some b \<Rightarrow> parse_list_loop b sep remove_whitespace list_cb 0 w)"

declare parse_list_loop.simps [simp del]

end
