(* ===== verification/Conf_Copy.thy ===== *)
theory Conf_Copy
  imports Conf_Text Buf_Mem
begin

text \<open>
  \<open>str_copy\<close> of \<open>crypto/conf/conf.c\<close>: the value of a line with quotes and escapes removed and
  variables expanded. The line is the memory \<open>b\<close>, in which the code puts a NUL behind a
  variable's name while it looks it up; the result is written to a growing buffer at the
  index \<open>to\<close>. A write outside of the buffer's memory is undefined (\<open>None\<close>), as is a variable in
  a section that is NULL.
\<close>

section \<open>The code\<close>

definition MAX_CONF_VALUE_LENGTH :: nat where
  "MAX_CONF_VALUE_LENGTH = 65536"

definition put :: "u8 list \<Rightarrow> nat \<Rightarrow> u8 \<Rightarrow> u8 list option" where
  "put data to c = (if to < length data then Some (data[to := c]) else None)"

text \<open>A quoted text: the position behind it, the memory of the buffer and the index.\<close>

function copy_quote :: "u8 list \<Rightarrow> u8 \<Rightarrow> nat \<Rightarrow> u8 list \<Rightarrow> nat \<Rightarrow> (nat \<times> u8 list \<times> nat) option" where
  "copy_quote b q from data to =
     (if \<not> IS_EOF (chr b from) \<and> chr b from \<noteq> q then
        if IS_ESC (chr b from) then
          if IS_EOF (chr b (from + 1)) then Some (from + 1, data, to)
          else do { data \<leftarrow> put data to (chr b (from + 1)); copy_quote b q (from + 1 + 1) data (to + 1) }
        else do { data \<leftarrow> put data to (chr b from); copy_quote b q (from + 1) data (to + 1) }
      else Some (from, data, to))"
  by pat_completeness auto
termination by (relation "measure (\<lambda>(b, q, from, data, to). length b - from)") (auto dest: chr_inside)

function copy_dquote :: "u8 list \<Rightarrow> u8 \<Rightarrow> nat \<Rightarrow> u8 list \<Rightarrow> nat \<Rightarrow> (nat \<times> u8 list \<times> nat) option" where
  "copy_dquote b q from data to =
     (if \<not> IS_EOF (chr b from) then
        if chr b from = q then
          if chr b (from + 1) = q
          then do { data \<leftarrow> put data to (chr b (from + 1)); copy_dquote b q (from + 1 + 1) data (to + 1) }
          else Some (from, data, to)
        else do { data \<leftarrow> put data to (chr b from); copy_dquote b q (from + 1) data (to + 1) }
      else Some (from, data, to))"
  by pat_completeness auto
termination by (relation "measure (\<lambda>(b, q, from, data, to). length b - from)") (auto dest: chr_inside)

text \<open>Behind the closing quote, if there is one.\<close>

definition behind_quote :: "u8 list \<Rightarrow> u8 \<Rightarrow> nat \<Rightarrow> nat" where
  "behind_quote b q from = (if chr b from = q then from + 1 else from)"

definition escaped :: "u8 \<Rightarrow> u8" where
  "escaped v = (if v = 114 then 13 else if v = 110 then 10 else if v = 98 then 8 else if v = 116 then 9 else v)"

function eat_name :: "u8 list \<Rightarrow> nat \<Rightarrow> nat" where
  "eat_name b e = (if IS_ALPHA_NUMERIC (chr b e) then eat_name b (e + 1) else e)"
  by pat_completeness auto
termination by (relation "measure (\<lambda>(b, e). length b - e)") (auto dest: class_inside)

fun put_string :: "u8 list \<Rightarrow> nat \<Rightarrow> u8 list \<Rightarrow> (u8 list \<times> nat) option" where
  "put_string data to [] = Some (data, to)"
| "put_string data to (c # p) =
     (if c = 0 then Some (data, to) else do { data \<leftarrow> put data to c; put_string data (to + 1) p })"

text \<open>The variable behind the dollar sign at \<open>from\<close>: the closing brace (0 if there is none), the
  start, the end of the section (\<open>rrp\<close>), the start of the name, the line with a NUL
  behind the section, the end of the name.\<close>

definition find_var :: "u8 list \<Rightarrow> nat \<Rightarrow> u8 \<times> nat \<times> nat option \<times> nat \<times> u8 list \<times> nat" where
  "find_var b from =
     (let s = from + 1;
          q = (if chr b s = 123 then 125 else if chr b s = 40 then 41 else 0);
          s = (if q \<noteq> 0 then s + 1 else s);
          e = eat_name b s
      in if chr b e = 58 \<and> chr b (e + 1) = 58
         then let b = b[e := 0] in (q, s, Some e, e + 2, b, eat_name b (e + 2))
         else (q, s, None, s, b, e))"

text \<open>The whole branch for a dollar sign. \<open>Inl\<close> is the jump to \<open>err\<close>; both have the line as it is
  then. The character at the end of the section is a colon.\<close>

definition expand_var ::
  "allocator \<Rightarrow> conf \<Rightarrow> u8 list option \<Rightarrow> u8 list \<Rightarrow> nat \<Rightarrow> BUF_MEM \<Rightarrow> nat \<Rightarrow>
     (u8 list + u8 list \<times> nat \<times> BUF_MEM \<times> nat) option" where
  "expand_var m conf sect b from buf to =
     (case find_var b from of (q, s, rrp, np, b, rp) \<Rightarrow>
        let rr = 58; r = chr b rp; b = b[rp := 0]
        in if q \<noteq> 0 \<and> r \<noteq> q then Some (Inl b)
           else
             let e = (if q \<noteq> 0 then rp + 1 else rp)
             in case NCONF_get_string conf (if rrp = None then sect else Some (drop s b)) (Some (drop np b)) of
                  None \<Rightarrow> None
                | Some p \<Rightarrow>
                    let b = (case rrp of None \<Rightarrow> b | Some rrp \<Rightarrow> b[rrp := rr]); b = b[rp := r]
                    in (case p of
                          Null \<Rightarrow> Some (Inl b)
                        | Section_stack _ \<Rightarrow> None
                        | Text p \<Rightarrow>
                            let newsize = sz_sub (sz_add (c_strlen p) (bm_length buf)) (e - from)
                            in if newsize > MAX_CONF_VALUE_LENGTH then Some (Inl b)
                               else case BUF_MEM_grow_clean m newsize buf of
                                      (n, buf) \<Rightarrow>
                                        if n = 0 then Some (Inl b)
                                        else case put_string (bm_data buf) to p of
                                               None \<Rightarrow> None
                                             | Some (data, to) \<Rightarrow> Some (Inr (b, e, buf\<lparr>bm_data := data\<rparr>, to))))"

declare copy_quote.simps [simp del] copy_dquote.simps [simp del] eat_name.simps [simp del]

lemma copy_quote_le: "copy_quote b q from data to = Some (from', data', to') \<Longrightarrow> from \<le> from'"
proof (induction b q "from" data to rule: copy_quote.induct)
  case (1 b q "from" data to)
  from 1(3) 1(1,2) show ?case
    by (subst (asm) copy_quote.simps) (fastforce split: if_splits bind_splits)
qed

lemma copy_dquote_le: "copy_dquote b q from data to = Some (from', data', to') \<Longrightarrow> from \<le> from'"
proof (induction b q "from" data to rule: copy_dquote.induct)
  case (1 b q "from" data to)
  from 1(3) 1(1,2) show ?case
    by (subst (asm) copy_dquote.simps) (fastforce split: if_splits bind_splits)
qed

lemma behind_quote_le: "from \<le> behind_quote b q from"
  by (simp add: behind_quote_def)

lemma eat_name_le: "e \<le> eat_name b e"
  by (induction b e rule: eat_name.induct) (subst eat_name.simps, auto)

lemma find_var_less:
  "find_var b from = (q, s, rrp, np, b', e) \<Longrightarrow> length b' = length b \<and> from < s \<and> s \<le> np \<and> np \<le> e"
  using eat_name_le [of "Suc (Suc from)" b] eat_name_le [of "Suc from" b]
    eat_name_le [of "Suc (Suc (eat_name b (Suc (Suc from))))"] eat_name_le [of "Suc (Suc (eat_name b (Suc from)))"]
  by (auto simp: find_var_def Let_def split: if_splits)

lemma expand_var_less:
  assumes "expand_var m conf sect b from buf to = Some (Inr (b', from', buf', to'))"
  shows "length b' = length b \<and> from < from'"
proof -
  obtain q s rrp np c rp where v: "find_var b from = (q, s, rrp, np, c, rp)" by (cases "find_var b from") auto
  have "length b' = length c" "rp \<le> from'"
    using assms by (auto simp: expand_var_def v Let_def split: if_splits conf_data.splits prod.splits option.splits)
  then show ?thesis using find_var_less [OF v] by simp
qed

text \<open>The main loop: \<open>Inr\<close> is the end of the text.\<close>

function str_copy_loop ::
  "allocator \<Rightarrow> conf \<Rightarrow> u8 list option \<Rightarrow> u8 list \<Rightarrow> nat \<Rightarrow> BUF_MEM \<Rightarrow> nat \<Rightarrow>
     (u8 list + u8 list \<times> BUF_MEM \<times> nat) option" where
  "str_copy_loop m conf sect b from buf to =
     (if IS_QUOTE (chr b from) then
        let q = chr b from
        in case copy_quote b q (from + 1) (bm_data buf) to of
             None \<Rightarrow> None
           | Some (from, data, to) \<Rightarrow>
               str_copy_loop m conf sect b (behind_quote b q from) (buf\<lparr>bm_data := data\<rparr>) to
      else if IS_DQUOTE (chr b from) then
        let q = chr b from
        in case copy_dquote b q (from + 1) (bm_data buf) to of
             None \<Rightarrow> None
           | Some (from, data, to) \<Rightarrow>
               str_copy_loop m conf sect b (behind_quote b q from) (buf\<lparr>bm_data := data\<rparr>) to
      else if IS_ESC (chr b from) then
        let v = chr b (from + 1)
        in if IS_EOF v then Some (Inr (b, buf, to))
           else case put (bm_data buf) to (escaped v) of
                  None \<Rightarrow> None
                | Some data \<Rightarrow> str_copy_loop m conf sect b (from + 2) (buf\<lparr>bm_data := data\<rparr>) (to + 1)
      else if IS_EOF (chr b from) then Some (Inr (b, buf, to))
      else if chr b from = 36 then
        (case expand_var m conf sect b from buf to of
           None \<Rightarrow> None
         | Some (Inl b) \<Rightarrow> Some (Inl b)
         | Some (Inr (b, from, buf, to)) \<Rightarrow> str_copy_loop m conf sect b from buf to)
      else
        (case put (bm_data buf) to (chr b from) of
           None \<Rightarrow> None
         | Some data \<Rightarrow> str_copy_loop m conf sect b (from + 1) (buf\<lparr>bm_data := data\<rparr>) (to + 1)))"
  by pat_completeness auto
termination
proof (relation "measure (\<lambda>(m, conf, sect, b, from, buf, to). length b - from)", simp_all, goal_cases)
  case (1 b "from" buf to x)
  then show ?case
    using class_inside(2) [of b "from"] copy_quote_le [of b "chr b from" "Suc from"] behind_quote_le
    by (metis Suc_le_lessD diff_less_mono2 less_le_trans)
next
  case (2 b "from")
  then show ?case using chr_inside [of b "from"] by simp
next
  case (3 m conf sect b "from" buf to)
  then show ?case using chr_inside [of b "from"] expand_var_less by fastforce
next
  case (4 b "from")
  then show ?case using chr_inside [of b "from"] by simp
qed

declare str_copy_loop.simps [simp del]

text \<open>The new string, \<open>None\<close> for failure, and the line.\<close>

definition str_copy ::
  "allocator \<Rightarrow> conf \<Rightarrow> u8 list option \<Rightarrow> u8 list \<Rightarrow> nat \<Rightarrow> (u8 list option \<times> u8 list) option" where
  "str_copy m conf sect b from =
     (case BUF_MEM_new m of
        None \<Rightarrow> Some (None, b)
      | Some buf \<Rightarrow>
          let len = c_strlen (drop from b) + 1
          in if len > INT_MAX then None
             else case BUF_MEM_grow m len buf of
                    (n, buf) \<Rightarrow>
                      if n = 0 then Some (None, b)
                      else case str_copy_loop m conf sect b from buf 0 of
                             None \<Rightarrow> None
                           | Some (Inl b) \<Rightarrow> Some (None, b)
                           | Some (Inr (b, buf, to)) \<Rightarrow>
                               do { data \<leftarrow> put (bm_data buf) to 0; Some (Some data, b) })"

end
