(* ===== verification/Conf_Load.thy ===== *)
theory Conf_Load
  imports Conf_Copy
begin

text \<open>
  Loading a configuration file: \<open>def_load_bio\<close> of \<open>crypto/conf/conf.c\<close>. The BIO is the
  parameter \<open>gets\<close>, a function of its state and the size of the buffer that gives the
  bytes it stores there, the NUL included. The loop over the lines is a partial function:
  \<open>None\<close> is a load that does not return, \<open>Some None\<close> undefined behaviour.
\<close>

section \<open>A line\<close>

text \<open>The end of the name of a section that starts at \<open>ss\<close>, the part from \<open>again\<close> on; \<open>None\<close> is a
  missing bracket.\<close>

function section_end :: "u8 list \<Rightarrow> nat \<Rightarrow> nat option" where
  "section_end b ss =
     (let e = eat_alpha_numeric b ss; p = eat_ws b e
      in if chr b p \<noteq> 93 then
           if chr b p \<noteq> 0 \<and> ss \<noteq> p then section_end b p else None
         else Some e)"
  by pat_completeness auto
termination
proof (relation "measure (\<lambda>(b, ss). length b - ss)", simp, goal_cases)
  case (1 b ss e p)
  have "ss \<le> p" using eat_alpha_numeric_le [of ss b] eat_ws_le [of e b] 1(1,2) by simp
  moreover have "p < length b" using 1 chr_inside by simp
  ultimately show ?case using 1 by (simp add: le_neq_implies_less diff_less_mono2)
qed

declare section_end.simps [simp del]

definition section_line ::
  "CONF_VALUE heap \<Rightarrow> conf \<Rightarrow> u8 list \<Rightarrow> CONF_VALUE \<Rightarrow> u8 list \<Rightarrow> nat \<Rightarrow>
     (bool \<times> conf \<times> u8 list \<times> CONF_VALUE \<times> u8 list) option" where
  "section_line h conf sect sv b s =
     (let start = eat_ws b (s + 1)
      in case section_end b start of
           None \<Rightarrow> Some (False, conf, sect, sv, b)
         | Some e \<Rightarrow>
             (case str_copy (h_malloc h) conf None (b[e := 0]) start of
                None \<Rightarrow> None
              | Some (None, b) \<Rightarrow> Some (False, conf, sect, sv, b)
              | Some (Some sect, b) \<Rightarrow> do {
                  found \<leftarrow> get_section conf (Some sect);
                  (found, conf) \<leftarrow> (case found of None \<Rightarrow> NCONF_new_section h conf sect | Some v \<Rightarrow> Some (Some v, conf));
                  case found of
                    None \<Rightarrow> Some (False, conf, sect, sv, b)
                  | Some sv \<Rightarrow> Some (True, conf, sect, sv, b)
                }))"

function to_eof :: "u8 list \<Rightarrow> nat \<Rightarrow> nat" where
  "to_eof b p = (if \<not> IS_EOF (chr b p) then to_eof b (p + 1) else p)"
  by pat_completeness auto
termination by (relation "measure (\<lambda>(b, p). length b - p)") (auto dest: chr_inside)

declare to_eof.simps [simp del]

text \<open>Back over white space as far as \<open>start\<close>; \<open>None\<close> is a read in front of the memory.\<close>

fun trim_ws :: "u8 list \<Rightarrow> nat \<Rightarrow> nat \<Rightarrow> nat option" where
  "trim_ws b start 0 = (if 0 \<noteq> start \<and> IS_WS (chr b 0) then None else Some 0)"
| "trim_ws b start (Suc p) = (if Suc p \<noteq> start \<and> IS_WS (chr b (Suc p)) then trim_ws b start p else Some (Suc p))"

text \<open>The line up to its value: the section if one is named, the name, the start of the value and
  the line with a NUL behind each; \<open>Inl\<close> is a missing equal sign.\<close>

definition split_line :: "u8 list \<Rightarrow> nat \<Rightarrow> (u8 list + nat option \<times> nat \<times> nat \<times> u8 list) option" where
  "split_line b s =
     (let e = eat_alpha_numeric b s;
          (b, psection, pname, e) =
            (if chr b e = 58 \<and> chr b (e + 1) = 58
             then let b = b[e := 0] in (b, Some s, e + 2, eat_alpha_numeric b (e + 2))
             else (b, None, s, e));
          p = eat_ws b e
      in if chr b p \<noteq> 61 then Some (Inl b)
         else
           let b = b[e := 0]; p = p + 1; start = eat_ws b p
           in case trim_ws b start (to_eof b p - 1) of
                None \<Rightarrow> None
              | Some p \<Rightarrow> Some (Inr (psection, pname, start, b[p + 1 := 0])))"

text \<open>What \<open>err\<close> frees of the value that was being made.\<close>

definition abandon :: "CONF_VALUE \<Rightarrow> conf \<Rightarrow> conf" where
  "abandon v conf =
     freed ((case cv_name v of None \<Rightarrow> [] | Some s \<Rightarrow> [String_block s]) @
            (if cv_value v \<noteq> Null then [Text_block (cv_value v)] else []) @ [Value_block (cv_ptr v)]) conf"

definition assign_line ::
  "CONF_VALUE heap \<Rightarrow> conf \<Rightarrow> u8 list \<Rightarrow> CONF_VALUE \<Rightarrow> u8 list \<Rightarrow> nat \<Rightarrow> (bool \<times> conf \<times> u8 list) option" where
  "assign_line h conf sect sv b s =
     (case split_line b s of
        None \<Rightarrow> None
      | Some (Inl b) \<Rightarrow> Some (False, conf, b)
      | Some (Inr (psection, pname, start, b)) \<Rightarrow>
          (case CONF_VALUE_new h conf of
             (None, conf) \<Rightarrow> Some (False, conf, b)
           | (Some v, conf) \<Rightarrow>
               let psect = (case psection of None \<Rightarrow> sect | Some k \<Rightarrow> drop k b)
               in case OPENSSL_strdup (h_malloc h) (Some (drop pname b)) of
                    None \<Rightarrow> Some (False, abandon v conf, b)
                  | Some name \<Rightarrow>
                      let v = v\<lparr>cv_name := Some name\<rparr>
                      in case str_copy (h_malloc h) conf (Some psect) b start of
                           None \<Rightarrow> None
                         | Some (None, b) \<Rightarrow> Some (False, abandon v conf, b)
                         | Some (Some str, b) \<Rightarrow>
                             let v = v\<lparr>cv_value := Text str\<rparr>
                             in do {
                               (tv, conf) \<leftarrow>
                                 (if c_strcmp psect sect \<noteq> 0 then do {
                                    found \<leftarrow> get_section conf (Some psect);
                                    case found of
                                      None \<Rightarrow> NCONF_new_section h conf psect
                                    | Some tv \<Rightarrow> Some (Some tv, conf)
                                  }
                                  else Some (Some sv, conf));
                               case tv of
                                 None \<Rightarrow> Some (False, abandon v conf, b)
                               | Some tv \<Rightarrow> do {
                                   (ok, v, conf) \<leftarrow> add_string h conf tv v;
                                   Some (if ok then (True, conf, b) else (False, abandon v conf, b))
                                 }
                             }))"

definition load_line ::
  "CONF_VALUE heap \<Rightarrow> conf \<Rightarrow> u8 list \<Rightarrow> CONF_VALUE \<Rightarrow> u8 list \<Rightarrow>
     (bool \<times> conf \<times> u8 list \<times> CONF_VALUE \<times> u8 list) option" where
  "load_line h conf sect sv b =
     (let b = clear_comments b 0; s = eat_ws b 0
      in if IS_EOF (chr b s) then Some (True, conf, sect, sv, b)
         else if chr b s = 91 then section_line h conf sect sv b s
         else do {
           (ok, conf, b) \<leftarrow> assign_line h conf sect sv b s;
           Some (ok, conf, sect, sv, b)
         })"

section \<open>The loop\<close>

definition CONFBUFSIZE :: nat where
  "CONFBUFSIZE = 512"

text \<open>The local variables of \<open>def_load_bio\<close>.\<close>

record 's loader =
  ld_conf :: conf
  ld_in :: 's
  ld_buff :: BUF_MEM
  ld_bufnum :: nat
  ld_again :: bool
  ld_eline :: nat
  ld_section :: "u8 list"
  ld_sv :: CONF_VALUE

datatype 's flow = Go_on 's | Leave 's | Go_err 's

fun strip_eol :: "u8 list \<Rightarrow> nat \<Rightarrow> nat" where
  "strip_eol p 0 = 0"
| "strip_eol p (Suc i) = (if chr p i \<noteq> 13 \<and> chr p i \<noteq> 10 then Suc i else strip_eol p i)"

text \<open>The first half of the loop's body: more of a line. \<open>Go_on\<close> says whether the line is
  complete. A BIO that stores more than it may, and a line of more than \<open>INT_MAX\<close> bytes, are
  undefined.\<close>

definition read_more ::
  "allocator \<Rightarrow> ('s \<Rightarrow> nat \<Rightarrow> u8 list \<times> 's) \<Rightarrow> 's loader \<Rightarrow> (bool \<times> 's loader) flow option" where
  "read_more m gets ld =
     (case BUF_MEM_grow m (ld_bufnum ld + CONFBUFSIZE) (ld_buff ld) of
        (n, buff) \<Rightarrow>
          if n = 0 then Some (Go_err (False, ld\<lparr>ld_buff := buff\<rparr>))
          else
            let p = ld_bufnum ld;
                data = (bm_data buff)[p := 0];
                (bs, inp) = gets (ld_in ld) (CONFBUFSIZE - 1);
                data = (mem_write p bs data)[p + (CONFBUFSIZE - 1) := 0];
                ld = ld\<lparr>ld_in := inp, ld_buff := buff\<lparr>bm_data := data\<rparr>\<rparr>;
                ii = c_strlen (drop p data);
                i = strip_eol (drop p data) ii
            in if length bs > CONFBUFSIZE - 1 \<or> p + i > INT_MAX then None
               else if ii = 0 \<and> \<not> ld_again ld then Some (Leave (True, ld))
               else
                 let (again, data, eline) =
                       (if ii \<noteq> 0 \<and> i = ii then (True, data, ld_eline ld)
                        else (False, data[p + i := 0], ld_eline ld + 1));
                     bufnum = p + i;
                     (again, bufnum) =
                       (if bufnum \<ge> 1 \<and> IS_ESC (chr data (bufnum - 1)) \<and>
                           (bufnum \<le> 1 \<or> \<not> IS_ESC (chr data (bufnum - 2)))
                        then (True, bufnum - 1) else (again, bufnum))
                 in Some (Go_on (\<not> again, ld\<lparr>ld_buff := buff\<lparr>bm_data := data\<rparr>, ld_again := again,
                       ld_eline := eline, ld_bufnum := (if again then bufnum else 0)\<rparr>)))"

definition load_step ::
  "CONF_VALUE heap \<Rightarrow> ('s \<Rightarrow> nat \<Rightarrow> u8 list \<times> 's) \<Rightarrow> 's loader \<Rightarrow> 's loader flow option" where
  "load_step h gets ld =
     (case read_more (h_malloc h) gets ld of
        None \<Rightarrow> None
      | Some (Leave (_, ld)) \<Rightarrow> Some (Leave ld)
      | Some (Go_err (_, ld)) \<Rightarrow> Some (Go_err ld)
      | Some (Go_on (False, ld)) \<Rightarrow> Some (Go_on ld)
      | Some (Go_on (True, ld)) \<Rightarrow>
          (case load_line h (ld_conf ld) (ld_section ld) (ld_sv ld) (bm_data (ld_buff ld)) of
             None \<Rightarrow> None
           | Some (ok, conf, sect, sv, b) \<Rightarrow>
               let ld = ld\<lparr>ld_conf := conf, ld_section := sect, ld_sv := sv,
                           ld_buff := (ld_buff ld)\<lparr>bm_data := b\<rparr>\<rparr>
               in Some (if ok then Go_on ld else Go_err ld)))"

partial_function (option) load_loop ::
  "CONF_VALUE heap \<Rightarrow> ('s \<Rightarrow> nat \<Rightarrow> u8 list \<times> 's) \<Rightarrow> 's loader \<Rightarrow> (bool \<times> 's loader) option option" where
  "load_loop h gets ld =
     (case load_step h gets ld of
        None \<Rightarrow> Some None
      | Some (Go_on ld) \<Rightarrow> load_loop h gets ld
      | Some (Leave ld) \<Rightarrow> Some (Some (True, ld))
      | Some (Go_err ld) \<Rightarrow> Some (Some (False, ld)))"

text \<open>The string ``default''.\<close>

definition default_name :: "u8 list" where
  "default_name = [100, 101, 102, 97, 117, 108, 116, 0]"

text \<open>The result, the number of the line that is reported on failure, the database and the BIO.\<close>

definition def_load_bio ::
  "CONF_VALUE heap \<Rightarrow> ('s \<Rightarrow> nat \<Rightarrow> u8 list \<times> 's) \<Rightarrow> conf \<Rightarrow> 's \<Rightarrow> (bool \<times> nat \<times> conf \<times> 's) option option" where
  "def_load_bio h gets conf inp =
     (case BUF_MEM_new (h_malloc h) of
        None \<Rightarrow> Some (Some (False, 0, conf, inp))
      | Some buff \<Rightarrow>
          (case OPENSSL_strdup (h_malloc h) (Some default_name) of
             None \<Rightarrow> Some (Some (False, 0, conf, inp))
           | Some sect \<Rightarrow>
               (case NCONF_new_section h conf sect of
                  None \<Rightarrow> Some None
                | Some (None, conf) \<Rightarrow> Some (Some (False, 0, conf, inp))
                | Some (Some sv, conf) \<Rightarrow>
                    map_option (map_option (\<lambda>(ok, ld). (ok, ld_eline ld, ld_conf ld, ld_in ld)))
                      (load_loop h gets \<lparr>ld_conf = conf, ld_in = inp, ld_buff = buff, ld_bufnum = 0, ld_again = False,
                         ld_eline = 0, ld_section = sect, ld_sv = sv\<rparr>))))"

definition NCONF_load_bio ::
  "CONF_VALUE heap \<Rightarrow> ('s \<Rightarrow> nat \<Rightarrow> u8 list \<times> 's) \<Rightarrow> conf \<Rightarrow> 's \<Rightarrow> (bool \<times> nat \<times> conf \<times> 's) option option" where
  "NCONF_load_bio h gets conf bio = def_load_bio h gets conf bio"

text \<open>\<open>inp\<close> is the file as it was opened; without a file no line is reported.\<close>

definition NCONF_load ::
  "CONF_VALUE heap \<Rightarrow> ('s \<Rightarrow> nat \<Rightarrow> u8 list \<times> 's) \<Rightarrow> conf \<Rightarrow> 's option \<Rightarrow> (bool \<times> nat option \<times> conf) option option" where
  "NCONF_load h gets conf inp =
     (case inp of
        None \<Rightarrow> Some (Some (False, None, conf))
      | Some inp \<Rightarrow>
          map_option (map_option (\<lambda>(ok, eline, conf, inp). (ok, if ok then None else Some eline, conf)))
            (def_load_bio h gets conf inp))"

end
