(* ===== verification/Conf_Inv.thy ===== *)
theory Conf_Inv
  imports Conf_Load
begin

text \<open>
  The invariant of the configuration database and what its operations do to it: the table
  is a map from sections and names to values, every value has a section, a value with a name
  is a string, one without is the stack of its section. On such a database no operation
  compares with NULL or takes a string for a stack.
\<close>

section \<open>The invariant\<close>

definition c_string :: "u8 list \<Rightarrow> bool" where
  "c_string s \<longleftrightarrow> 0 \<in> set s"

definition conf_typed :: "nat \<Rightarrow> CONF_VALUE \<Rightarrow> bool" where
  "conf_typed n v \<longleftrightarrow>
     (\<exists>s. cv_section v = Some s \<and> c_string s \<and> length s < 2 ^ 61) \<and>
     (case cv_name v of
        None \<Rightarrow> \<exists>k < n. cv_value v = Section_stack k
      | Some name \<Rightarrow> c_string name \<and> (\<exists>t. cv_value v = Text t \<and> c_string t \<and> length (c_str t) < 2 ^ 60))"

text \<open>\<open>p\<close> is the number of values that were made but are not yet in the table. The numbers of items
  and of elements are bounded by the number of values ever made.\<close>

definition stack_bound :: "nat \<Rightarrow> nat \<Rightarrow> (CONF_VALUE, unit) STACK \<Rightarrow> bool" where
  "stack_bound p n sk \<longleftrightarrow> sk_ok sk \<and> st_num sk + p \<le> n \<and> st_num_alloc sk \<le> 2 * n + 4"

definition conf_inv :: "nat \<Rightarrow> conf \<Rightarrow> bool" where
  "conf_inv p conf \<longleftrightarrow>
     lh_ok conf_value_hash conf_key (db_table conf) \<and>
     (\<forall>v \<in> set (lh_data (db_table conf)). conf_typed (length (db_stacks conf)) v) \<and>
     lh_items (db_table conf) + p \<le> db_objects conf \<and>
     (\<forall>sk \<in> set (db_stacks conf). stack_bound p (db_objects conf) sk)"

abbreviation conf_ok :: "conf \<Rightarrow> bool" where
  "conf_ok \<equiv> conf_inv 0"

text \<open>The database as a map.\<close>

definition conf_map :: "conf \<Rightarrow> u8 list \<Rightarrow> u8 list option \<Rightarrow> CONF_VALUE option" where
  "conf_map conf s n = lh_map conf_key (db_table conf) (Some s, n)"

definition conf_string :: "conf \<Rightarrow> u8 list \<Rightarrow> u8 list \<Rightarrow> u8 list option" where
  "conf_string conf s n =
     (case conf_map conf s (Some n) of
        None \<Rightarrow> None
      | Some v \<Rightarrow> (case cv_value v of Text t \<Rightarrow> Some (c_str t) | _ \<Rightarrow> None))"

lemma c_string_take: "c_string s \<longleftrightarrow> c_str s \<noteq> s"
  by (auto simp: c_string_def c_str_def takeWhile_eq_all_conv)

lemma conf_ok_typed:
  "conf_inv p conf \<Longrightarrow> conf_map conf s n = Some v \<Longrightarrow>
     conf_typed (length (db_stacks conf)) v \<and> conf_key v = (Some s, n)"
  using lh_map_iff [of conf_key "db_table conf" "(Some s, n)" v] by (auto simp: conf_inv_def conf_map_def lh_ok_def)

lemma no_null_compare:
  assumes "conf_inv p conf" and "cv_section v = Some s"
  shows "\<not> null_compare (db_table conf) v"
proof -
  let ?t = "db_table conf"
  have ok: "lh_ok conf_value_hash conf_key ?t" using assms(1) by (simp add: conf_inv_def)
  have i: "unat (conf_value_hash v) mod lh_num_buckets ?t < lh_num_buckets ?t"
    using ok by (simp add: lh_ok_def kMinNumBuckets_def)
  have "cv_section (fst it) \<noteq> None" if "it \<in> set (lh_buckets ?t ! (unat (conf_value_hash v) mod lh_num_buckets ?t))" for it
    using conf_values.bucket_mem [OF ok i that] assms(1) by (auto simp: conf_inv_def conf_typed_def)
  then show ?thesis
    using assms(2) by (auto simp: null_compare_def get_next_ptr_and_hash_def Let_def list_ex_iff dest!: in_set_takeD)
qed

lemma conf_retrieve:
  assumes "conf_inv p conf" and "cv_section v = Some s"
  shows "lh_CONF_VALUE_retrieve (db_table conf) v = Some (conf_map conf (c_str s) (map_option c_str (cv_name v)))"
proof -
  have ok: "lh_ok conf_value_hash conf_key (db_table conf)" using assms(1) by (simp add: conf_inv_def)
  have "lh_retrieve (\<lambda>_. conf_value_hash) (\<lambda>_. conf_value_cmp) (db_table conf) v =
      lh_map conf_key (db_table conf) (conf_key v)"
    by (rule conf_values.retrieve [OF ok]) simp_all
  then show ?thesis
    using no_null_compare [OF assms] assms(2) by (simp add: lh_CONF_VALUE_retrieve_def conf_map_def conf_key_def)
qed

lemma get_section_ok: "conf_inv p conf \<Longrightarrow> get_section conf (Some s) = Some (conf_map conf (c_str s) None)"
  using conf_retrieve [of p conf "\<lparr>cv_ptr = 0, cv_section = Some s, cv_name = None, cv_value = Null\<rparr>"]
  by (simp add: get_section_def)

lemma NCONF_get_string_ok:
  assumes "conf_inv p conf"
  shows "NCONF_get_string conf (Some s) (Some n) =
     Some (case conf_map conf (c_str s) (Some (c_str n)) of None \<Rightarrow> Null | Some v \<Rightarrow> cv_value v)"
  using conf_retrieve [OF assms, of "\<lparr>cv_ptr = 0, cv_section = Some s, cv_name = Some n, cv_value = Null\<rparr>"]
  by (simp add: NCONF_get_string_def)

text \<open>A lookup gives a string or nothing.\<close>

lemma get_string_cases:
  assumes "conf_inv p conf"
  obtains (none) "conf_string conf (c_str s) (c_str n) = None" "NCONF_get_string conf (Some s) (Some n) = Some Null"
  | (some) t where "conf_string conf (c_str s) (c_str n) = Some (c_str t)" "c_string t" "length (c_str t) < 2 ^ 60"
      "NCONF_get_string conf (Some s) (Some n) = Some (Text t)"
proof (cases "conf_map conf (c_str s) (Some (c_str n))")
  case None
  then show ?thesis using none NCONF_get_string_ok [OF assms] by (simp add: conf_string_def)
next
  case (Some v)
  from conf_ok_typed [OF assms Some] obtain t where "cv_value v = Text t" "c_string t" "length (c_str t) < 2 ^ 60"
    by (auto simp: conf_typed_def conf_key_def split: option.splits)
  with Some show ?thesis using some [of t] NCONF_get_string_ok [OF assms, of s n] by (simp add: conf_string_def)
qed

section \<open>Changes\<close>

text \<open>Memory never runs out.\<close>

definition plenty :: "CONF_VALUE heap \<Rightarrow> bool" where
  "plenty h \<longleftrightarrow> malloc_ok (h_malloc h) \<and> (\<forall>k < 2 ^ 63. h_malloc h k \<noteq> None)"

lemma plenty_malloc: "plenty h \<Longrightarrow> n < 2 ^ 62 \<Longrightarrow> \<exists>p. OPENSSL_malloc (h_malloc h) n = Some p \<and> length p = n"
proof -
  assume h: "plenty h" and n: "n < 2 ^ 62"
  then have "h_malloc h (n + 8) \<noteq> None" by (simp add: plenty_def)
  then obtain p where p: "OPENSSL_malloc (h_malloc h) n = Some p"
    using n by (auto simp: OPENSSL_malloc_def OPENSSL_MALLOC_PREFIX_def sz_add_def)
  moreover have "length p = n"
    by (rule OPENSSL_malloc_Some(1) [OF _ p]) (use h n in \<open>simp_all add: plenty_def\<close>)
  ultimately show ?thesis by blast
qed

lemma c_str_less: "c_string s \<Longrightarrow> length (c_str s) < length s"
  by (induction s) (auto simp: c_string_def c_str_def)

lemma strdup_string:
  assumes "plenty h" and "c_string s" and "length (c_str s) < 2 ^ 61"
  shows "OPENSSL_strdup (h_malloc h) (Some s) = Some (c_str s @ [0])"
proof -
  have l: "c_strlen s = length (c_str s)" "take (Suc (c_strlen s)) s = c_str s @ [0]"
    using assms(2) by (induction s) (auto simp: c_strlen_def c_str_def c_string_def)
  then have sz: "sz_add (length (c_str s)) (Suc 0) = Suc (length (c_str s))" using assms(3) by (simp add: sz_add_def)
  obtain p where p: "OPENSSL_malloc (h_malloc h) (Suc (c_strlen s)) = Some p" "length p = Suc (c_strlen s)"
    using plenty_malloc [OF assms(1), of "Suc (c_strlen s)"] l(1) assms(3) by auto
  have "length (c_str s @ [0]) = Suc (c_strlen s)" by (simp add: c_str_def c_strlen_def)
  with p l show ?thesis by (simp add: OPENSSL_strdup_def Let_def sz mem_write_def)
qed

lemma c_str_snoc: "c_str (c_str s @ [0]) = c_str s" "c_string (t @ [0])"
  by (simp_all add: c_str_def c_string_def takeWhile_tail)

lemma lh_insert_total:
  assumes "plenty h"
  shows "\<exists>old lh'. lh_insert (h_malloc h) callh callc lh d = (True, old, lh')"
  using plenty_malloc [OF assms, of sizeof_LHASH_ITEM]
  by (auto simp: lh_insert_def sizeof_LHASH_ITEM_def split: prod.split option.split)

lemma conf_typed_mono: "conf_typed n v \<Longrightarrow> n \<le> n' \<Longrightarrow> conf_typed n' v"
  by (fastforce simp: conf_typed_def split: option.splits)

lemma stack_bound_mono: "stack_bound p n sk \<Longrightarrow> stack_bound (p + k) (n + k) sk"
  by (simp add: stack_bound_def)

lemma conf_inv_less: "conf_inv (Suc p) conf \<Longrightarrow> conf_inv p conf" "conf_inv (Suc p) conf \<Longrightarrow> lh_items (db_table conf) + Suc p \<le> db_objects conf"
  by (auto simp: conf_inv_def stack_bound_def)

text \<open>Insertion: an update of the map.\<close>

lemma conf_insert_ok:
  assumes h: "plenty h" and c: "conf_inv p conf" "lh_items (db_table conf) + Suc p \<le> db_objects conf" and n: "db_objects conf < 2 ^ 60"
    and v: "conf_typed (length (db_stacks conf)) v" "conf_key v = (Some s, n')"
  shows "\<exists>conf'. lh_CONF_VALUE_insert h conf v = Some (True, conf_map conf s n', conf') \<and> conf_inv p conf' \<and>
    conf_map conf' = (conf_map conf)(s := (conf_map conf s)(n' \<mapsto> v)) \<and>
    db_objects conf' = db_objects conf \<and> db_stacks conf' = db_stacks conf"
proof -
  let ?lh = "db_table conf"
  obtain z where z: "cv_section v = Some z" using v(1) by (auto simp: conf_typed_def)
  obtain old lh' where r: "lh_insert (h_malloc h) (\<lambda>_. conf_value_hash) (\<lambda>_. conf_value_cmp) ?lh v = (True, old, lh')"
    using lh_insert_total [OF h, where callh = "\<lambda>_. conf_value_hash" and callc = "\<lambda>_. conf_value_cmp" and lh = ?lh and d = v] by blast
  have ok: "lh_ok conf_value_hash conf_key ?lh" and it: "lh_items ?lh + 1 < 2 ^ 64"
    using c n by (simp_all add: conf_inv_def)
  from conf_values.lh_insert_ok [OF _ ok refl refl it r] h
  have ins: "lh_ok conf_value_hash conf_key lh'" "lh_map conf_key lh' = (lh_map conf_key ?lh)(conf_key v \<mapsto> v)"
    "old = lh_map conf_key ?lh (conf_key v)" by (simp_all add: plenty_def)
  have dk: "distinct (map conf_key (lh_data lh'))" "distinct (map conf_key (lh_data ?lh))"
    using ins(1) ok by (simp_all add: lh_ok_def)
  have mem: "x = v \<or> x \<in> set (lh_data ?lh)" if "x \<in> set (lh_data lh')" for x
  proof -
    have "lh_map conf_key lh' (conf_key x) = Some x" using that by (simp add: lh_map_iff [OF dk(1)])
    then show ?thesis unfolding ins(2) by (cases "conf_key x = conf_key v") (simp_all add: lh_map_iff [OF dk(2)])
  qed
  have "dom (lh_map conf_key lh') = insert (conf_key v) (dom (lh_map conf_key ?lh))" unfolding ins(2) by simp
  moreover have "finite (dom (lh_map conf_key ?lh))" by (simp add: lh_map_def finite_dom_map_of)
  ultimately have "lh_items lh' \<le> Suc (lh_items ?lh)"
    using lh_num_items_card [OF ok] lh_num_items_card [OF ins(1)] by (simp add: lh_num_items_def card_insert_if)
  then have "conf_inv p (conf\<lparr>db_table := lh'\<rparr>)"
    using c ins(1) mem v(1) unfolding conf_inv_def by auto
  then show ?thesis
    using r ins(2,3) v(2) no_null_compare [OF c(1) z]
    by (auto simp: lh_CONF_VALUE_insert_def conf_map_def fun_eq_iff)
qed

lemma CONF_VALUE_new_ok:
  assumes "plenty h" and "conf_inv p conf"
  shows "\<exists>conf'. CONF_VALUE_new h conf = (Some \<lparr>cv_ptr = db_objects conf, cv_section = None, cv_name = None, cv_value = Null\<rparr>, conf') \<and>
    conf_inv (Suc p) conf' \<and> conf_map conf' = conf_map conf \<and> db_stacks conf' = db_stacks conf \<and>
    db_objects conf' = Suc (db_objects conf)"
proof -
  have "stack_bound (Suc p) (Suc n) sk" if "stack_bound p n sk" for n sk
    using stack_bound_mono [OF that, of 1] by simp
  then show ?thesis
    using plenty_malloc [OF assms(1), of sizeof_CONF_VALUE] assms(2)
    by (auto simp: CONF_VALUE_new_def sizeof_CONF_VALUE_def conf_inv_def conf_map_def fun_eq_iff)
qed

lemma conf_inv_freed [simp]: "conf_inv p (freed bs conf) = conf_inv p conf"
  "conf_map (freed bs conf) = conf_map conf" "db_objects (freed bs conf) = db_objects conf"
  "db_stacks (freed bs conf) = db_stacks conf"
  by (simp_all add: freed_def conf_inv_def conf_map_def fun_eq_iff)

lemma sk_new_plenty:
  assumes "plenty h"
  shows "\<exists>sk :: (CONF_VALUE, unit) STACK. sk_new_null h = Some sk \<and> sk_ok sk \<and> st_num sk = 0 \<and> st_num_alloc sk = 4"
proof -
  obtain sk :: "(CONF_VALUE, unit) STACK" where "sk_new h None = Some sk" "st_num sk = 0" "st_num_alloc sk = 4"
    using plenty_malloc [OF assms, of sizeof_STACK] plenty_malloc [OF assms, of "sizeof_ptr * kMinSize"]
    by (auto simp: sk_new_def sizeof_STACK_def sizeof_ptr_def kMinSize_def)
  then show ?thesis using sk_new_ok [of h None sk] assms by (auto simp: sk_new_null_def plenty_def)
qed

lemma NCONF_new_section_ok:
  assumes h: "plenty h" and c: "conf_inv p conf" and n: "db_objects conf < 2 ^ 59"
    and s: "c_string s" "length (c_str s) < 2 ^ 60"
  shows "\<exists>v conf'. NCONF_new_section h conf s = Some (Some v, conf') \<and> conf_inv p conf' \<and>
    conf_map conf' = (conf_map conf)(c_str s := (conf_map conf (c_str s))(None \<mapsto> v)) \<and>
    conf_typed (length (db_stacks conf')) v \<and> conf_key v = (Some (c_str s), None) \<and>
    db_objects conf' = Suc (db_objects conf) \<and> length (db_stacks conf) \<le> length (db_stacks conf')"
proof -
  obtain sk :: "(CONF_VALUE, unit) STACK" where sk: "sk_new_null h = Some sk" "sk_ok sk" "st_num sk = 0" "st_num_alloc sk = 4"
    using sk_new_plenty [OF h] by blast
  let ?c = "conf\<lparr>db_stacks := db_stacks conf @ [sk]\<rparr>"
  have "stack_bound p (db_objects conf) sk" using sk c by (simp add: stack_bound_def conf_inv_def)
  then have "conf_inv p ?c" using c conf_typed_mono by (fastforce simp: conf_inv_def)
  from CONF_VALUE_new_ok [OF h this] obtain conf1 where c1:
    "CONF_VALUE_new h ?c = (Some \<lparr>cv_ptr = db_objects conf, cv_section = None, cv_name = None, cv_value = Null\<rparr>, conf1)"
    "conf_inv (Suc p) conf1" "conf_map conf1 = conf_map conf" "db_stacks conf1 = db_stacks conf @ [sk]"
    "db_objects conf1 = Suc (db_objects conf)" by (auto simp: conf_map_def fun_eq_iff)
  let ?v = "\<lparr>cv_ptr = db_objects conf, cv_section = Some (c_str s @ [0]), cv_name = None,
      cv_value = Section_stack (length (db_stacks conf))\<rparr>"
  have v: "conf_typed (length (db_stacks conf1)) ?v" "conf_key ?v = (Some (c_str s), None)"
    using c_str_less [OF s(1)] s(2) by (simp_all add: conf_typed_def conf_key_def c_str_snoc c1(4))
  have "db_objects conf1 < 2 ^ 60" using c1(5) n by simp
  from conf_insert_ok [OF h conf_inv_less [OF c1(2)] this v] obtain conf' where
    "lh_CONF_VALUE_insert h conf1 ?v = Some (True, conf_map conf (c_str s) None, conf')" "conf_inv p conf'"
    "conf_map conf' = (conf_map conf1)(c_str s := (conf_map conf1 (c_str s))(None \<mapsto> ?v))"
    "db_objects conf' = db_objects conf1" "db_stacks conf' = db_stacks conf1" unfolding c1(3) by blast
  then show ?thesis
    using v strdup_string [OF h s(1)] s(2) c1 sk(1)
    by (auto simp: NCONF_new_section_def Let_def split: option.splits intro!: exI [of _ ?v])
qed

text \<open>Pushing and removing a value.\<close>

lemma sk_grow_plenty:
  assumes h: "plenty h" and sk: "sk_ok sk" and n: "st_num sk < 2 ^ 56"
  shows "\<exists>sk'. sk_grow h sk = Some sk' \<and> st_num_alloc sk' \<le> max (st_num_alloc sk) (2 * (st_num sk + 1))"
proof (cases "st_num_alloc sk \<le> st_num sk + 1")
  case True
  let ?a = "2 * st_num_alloc sk"
  obtain ret where "OPENSSL_malloc (h_malloc h) (8 * ?a) = Some ret"
    using plenty_malloc [OF h, of "8 * ?a"] True n by auto
  then have "realloc_ptrs h (st_data sk) (8 * ?a) \<noteq> None" by (simp add: realloc_ptrs_def)
  moreover have "grown_alloc (st_num_alloc sk) = Some (?a, 8 * ?a)"
    using True n by (intro grown_alloc_eq) simp
  moreover have "sz_add (st_num sk) (Suc 0) = Suc (st_num sk)" using n by (simp add: sz_add_def)
  ultimately show ?thesis using True by (auto simp: sk_grow_def)
next
  case False
  moreover have "sz_add (st_num sk) (Suc 0) = Suc (st_num sk)" using n by (simp add: sz_add_def)
  ultimately show ?thesis by (auto simp: sk_grow_def)
qed

lemma sk_push_plenty:
  assumes h: "plenty h" and sk: "stack_bound (Suc p) n sk" and n: "n < 2 ^ 56"
  shows "\<exists>k sk'. sk_push h (Some sk) x = (k, Some sk') \<and> k \<noteq> 0 \<and> stack_bound p n sk' \<and> elems sk' = elems sk @ [x]"
proof -
  have ok: "sk_ok sk" and num: "st_num sk < 2 ^ 56" using sk n by (simp_all add: stack_bound_def)
  have m: "malloc_ok (h_malloc h)" using h by (simp add: plenty_def)
  obtain s where s: "sk_grow h sk = Some s" "st_num_alloc s \<le> max (st_num_alloc sk) (2 * (st_num sk + 1))"
    using sk_grow_plenty [OF h ok num] by blast
  have ns: "st_num s = st_num sk" using sk_grow_Some [OF m ok s(1)] by simp
  obtain k sk' where r: "sk_push h (Some sk) x = (k, Some sk')" "st_num_alloc sk' = st_num_alloc s" "k = sz_add (st_num s) 1"
    "st_num sk' = k"
    using s(1) by (simp add: sk_push_def sk_num_def sk_insert_def Let_def)
  have k: "k = Suc (st_num sk)" using r(3) ns num by (simp add: sz_add_def)
  then have "sk_ok sk' \<and> elems sk' = elems sk @ [x]" using sk_push_Some [OF m ok r(1)] by simp
  moreover have "stack_bound p n sk'" using calculation sk s(2) r(2,4) k by (auto simp: stack_bound_def max_def split: if_splits)
  ultimately show ?thesis using r(1) k by auto
qed

lemma sk_delete_ptr_bound:
  assumes "stack_bound p n sk"
  shows "\<exists>y sk'. sk_delete_ptr (Some sk) x = (y, Some sk') \<and> stack_bound p n sk'"
proof (cases "find_from (\<lambda>q. q = x) 0 (take (st_num sk) (st_data sk))")
  case None
  then show ?thesis using assms by (simp add: sk_delete_ptr_def)
next
  case (Some i)
  have ok: "sk_ok sk" using assms by (simp add: stack_bound_def)
  have i: "i < st_num sk" using Some by (simp add: find_from_Some)
  from sk_delete_Some [OF ok i] obtain sk' where d: "sk_delete (Some sk) i = (elems sk ! i, Some sk')" "sk_ok sk'" by blast
  then have "st_num sk' \<le> st_num sk" "st_num_alloc sk' = st_num_alloc sk" using i by (auto simp: sk_delete_def Let_def split: if_splits)
  with d Some assms show ?thesis by (simp add: sk_delete_ptr_def stack_bound_def)
qed

lemma conf_inv_stack:
  assumes "conf_inv p conf" and "k < length (db_stacks conf)" and "stack_bound q (db_objects conf) sk" and "q \<le> p"
  shows "conf_inv q (conf\<lparr>db_stacks := (db_stacks conf)[k := sk]\<rparr>)"
    and "conf_map (conf\<lparr>db_stacks := (db_stacks conf)[k := sk]\<rparr>) = conf_map conf"
proof -
  have "stack_bound q n s" if "stack_bound p n s" for n s using that assms(4) by (simp add: stack_bound_def)
  then show "conf_inv q (conf\<lparr>db_stacks := (db_stacks conf)[k := sk]\<rparr>)"
    using assms set_update_subset_insert [of "db_stacks conf" k sk] by (fastforce simp: conf_inv_def)
  show "conf_map (conf\<lparr>db_stacks := (db_stacks conf)[k := sk]\<rparr>) = conf_map conf"
    by (simp add: conf_map_def fun_eq_iff)
qed

lemma add_string_ok:
  assumes h: "plenty h" and c: "conf_inv (Suc p) conf" and n: "db_objects conf < 2 ^ 55"
    and sect: "conf_typed (length (db_stacks conf)) sect" "conf_key sect = (Some s, None)"
    and v: "cv_name v = Some name" "c_string name" "cv_value v = Text t" "c_string t" "length (c_str t) < 2 ^ 60"
  shows "\<exists>conf'. add_string h conf sect v = Some (True, v\<lparr>cv_section := Some (s @ [0])\<rparr>, conf') \<and> conf_inv p conf' \<and>
    conf_map conf' = (conf_map conf)(s := (conf_map conf s)(Some (c_str name) \<mapsto> v\<lparr>cv_section := Some (s @ [0])\<rparr>)) \<and>
    db_objects conf' = db_objects conf \<and> length (db_stacks conf') = length (db_stacks conf)"
proof -
  let ?v = "v\<lparr>cv_section := Some (s @ [0])\<rparr>"
  obtain z k where z: "cv_section sect = Some z" "c_string z" "length z < 2 ^ 61" and k: "cv_value sect = Section_stack k" "k < length (db_stacks conf)"
    using sect(1,2) by (auto simp: conf_typed_def conf_key_def split: option.splits)
  have cz: "c_str z = s" using z sect(2) by (simp add: conf_key_def)
  have zs: "OPENSSL_strdup (h_malloc h) (Some z) = Some (s @ [0])" using strdup_string [OF h z(2)] c_str_less [OF z(2)] z(3) by (simp add: cz)
  have "db_stacks conf ! k \<in> set (db_stacks conf)" using k(2) by simp
  then have b: "stack_bound (Suc p) (db_objects conf) (db_stacks conf ! k)" using c unfolding conf_inv_def by blast
  have "db_objects conf < 2 ^ 56" using n by simp
  from sk_push_plenty [OF h b this, of "Some ?v"] obtain j sk where
    push: "sk_push h (Some (db_stacks conf ! k)) (Some ?v) = (j, Some sk)" "j \<noteq> 0" "stack_bound p (db_objects conf) sk" by blast
  let ?c = "conf\<lparr>db_stacks := (db_stacks conf)[k := sk]\<rparr>"
  note c1 = conf_inv_stack [OF c k(2) push(3) le_SucI [OF le_refl]]
  have it: "lh_items (db_table ?c) + Suc p \<le> db_objects ?c" "db_objects ?c < 2 ^ 60" using conf_inv_less(2) [OF c] n by simp_all
  have sz: "c_str (s @ [0]) = s" by (metis c_str_snoc(1) cz)
  have tv: "conf_typed (length (db_stacks ?c)) ?v" "conf_key ?v = (Some s, Some (c_str name))"
    using v c_str_less [OF z(2)] z(3) by (simp_all add: conf_typed_def conf_key_def sz c_str_snoc cz)
  from conf_insert_ok [OF h c1(1) it tv] obtain c2 where ins:
    "lh_CONF_VALUE_insert h ?c ?v = Some (True, conf_map conf s (Some (c_str name)), c2)" "conf_inv p c2"
    "conf_map c2 = (conf_map conf)(s := (conf_map conf s)(Some (c_str name) \<mapsto> ?v))" "db_objects c2 = db_objects conf"
    "db_stacks c2 = (db_stacks conf)[k := sk]" unfolding c1(2) by auto
  show ?thesis
  proof (cases "conf_map conf s (Some (c_str name))")
    case None
    then show ?thesis using push(1,2) ins by (simp add: add_string_def k(1) z(1) zs Let_def)
  next
    case (Some old)
    have "db_stacks c2 ! k \<in> set (db_stacks c2)" using k(2) ins(5) by (simp add: set_update_memI)
    then have "stack_bound p (db_objects c2) (db_stacks c2 ! k)" using ins(2) unfolding conf_inv_def by blast
    from sk_delete_ptr_bound [OF this, of "Some old"] obtain y sk2 where
      del: "sk_delete_ptr (Some (db_stacks c2 ! k)) (Some old) = (y, Some sk2)" "stack_bound p (db_objects c2) sk2" by blast
    have "k < length (db_stacks c2)" using k(2) ins(5) by simp
    note c3 = conf_inv_stack [OF ins(2) this del(2) le_refl]
    show ?thesis using push(1,2) ins Some del(1) c3 by (simp add: add_string_def k(1) z(1) zs Let_def)
  qed
qed

end
