(* ===== verification/Conf_Spec.thy ===== *)
theory Conf_Spec
  imports Conf_Inv
begin

text \<open>
  The text of a value, as a function on strings: quotes, escapes and variables, with the
  limit on the length of an expansion (\<open>conf_text\<close>), and that \<open>str_copy\<close> computes it within
  its buffer.
\<close>

section \<open>The reference\<close>

text \<open>Up to the closing quote \<open>q\<close>: the text without the escapes, and the rest from the closing
  quote on.\<close>

fun quoted :: "u8 \<Rightarrow> u8 list \<Rightarrow> u8 list \<times> u8 list" where
  "quoted q [] = ([], [])"
| "quoted q (c # s) =
     (if c = q then ([], c # s)
      else if c = 92 then
        (case s of [] \<Rightarrow> ([], []) | d # s \<Rightarrow> (case quoted q s of (t, r) \<Rightarrow> (d # t, r)))
      else (case quoted q s of (t, r) \<Rightarrow> (c # t, r)))"

text \<open>A variable behind the dollar sign: its section, its name and the rest; \<open>None\<close> when a brace
  is not closed.\<close>

definition brace :: "u8 list \<Rightarrow> u8 option \<times> u8 list" where
  "brace s =
     (case s of
        [] \<Rightarrow> (None, [])
      | c # r \<Rightarrow> if c = 123 then (Some 125, r) else if c = 40 then (Some 41, r) else (None, s))"

definition var_name :: "u8 list \<Rightarrow> u8 list option \<times> u8 list \<times> u8 list" where
  "var_name s =
     (let a = takeWhile IS_ALPHA_NUMERIC s; r = dropWhile IS_ALPHA_NUMERIC s
      in case r of
           c # d # r' \<Rightarrow>
             if c = 58 \<and> d = 58 then (Some a, takeWhile IS_ALPHA_NUMERIC r', dropWhile IS_ALPHA_NUMERIC r')
             else (None, a, r)
         | _ \<Rightarrow> (None, a, r))"

definition variable :: "u8 list \<Rightarrow> (u8 list option \<times> u8 list \<times> u8 list) option" where
  "variable s =
     (case brace s of (q, s) \<Rightarrow>
       (case var_name s of (sec, name, r) \<Rightarrow>
         (case q of
            None \<Rightarrow> Some (sec, name, r)
          | Some q \<Rightarrow> (case r of [] \<Rightarrow> None | c # r \<Rightarrow> if c = q then Some (sec, name, r) else None))))"

lemma brace_length: "brace s = (q, r) \<Longrightarrow> length r \<le> length s"
  by (auto simp: brace_def split: list.splits if_splits)

lemma var_name_length: "var_name s = (sec, name, r) \<Longrightarrow> length r \<le> length s"
proof -
  have d: "length (dropWhile P x) \<le> length x" for P and x :: "u8 list" by (simp add: length_dropWhile_le)
  have "dropWhile IS_ALPHA_NUMERIC s = c # e # r' \<Longrightarrow> length r' \<le> length s" for c e r'
    using d [of IS_ALPHA_NUMERIC s] by simp
  then show "var_name s = (sec, name, r) \<Longrightarrow> length r \<le> length s"
    using d [of IS_ALPHA_NUMERIC s] d [of IS_ALPHA_NUMERIC]
    by (auto simp: var_name_def Let_def split: list.splits if_splits) (meson order_trans)+
qed

lemma variable_length: "variable s = Some (sec, name, r) \<Longrightarrow> length r \<le> length s"
  by (auto simp: variable_def split: prod.splits option.splits list.splits if_splits
      dest!: brace_length var_name_length)

lemma brace_subset: "brace s = (q, r) \<Longrightarrow> set r \<subseteq> set s"
  by (auto simp: brace_def split: list.splits if_splits)

lemma var_name_subset: "var_name s = (sec, name, r) \<Longrightarrow> set r \<subseteq> set s"
proof -
  have d: "set (dropWhile P x) \<subseteq> set x" for P and x :: "u8 list" by (auto dest: set_dropWhileD)
  have "dropWhile IS_ALPHA_NUMERIC s = c # e # r' \<Longrightarrow> set r' \<subseteq> set s" for c e r'
    using d [of IS_ALPHA_NUMERIC s] by auto
  then show "var_name s = (sec, name, r) \<Longrightarrow> set r \<subseteq> set s"
    using d [of IS_ALPHA_NUMERIC s] d [of IS_ALPHA_NUMERIC]
    by (auto simp: var_name_def Let_def split: list.splits if_splits)
qed

lemma variable_subset: "variable s = Some (sec, name, r) \<Longrightarrow> set r \<subseteq> set s"
  by (fastforce simp: variable_def split: prod.splits option.splits list.splits if_splits
      dest: brace_subset var_name_subset)

lemma quoted_length_rest: "quoted q s = (t, r) \<Longrightarrow> length t + length r \<le> length s \<and> set t \<union> set r \<subseteq> set s \<and> (r = [] \<or> (\<exists>r'. r = q # r'))"
proof (induction "length s" arbitrary: s t r rule: less_induct)
  case less
  show ?case
  proof (cases s)
    case Nil
    then show ?thesis using less(2) by simp
  next
    case (Cons c s')
    obtain t1 r1 t2 r2 where q: "quoted q s' = (t1, r1)" "quoted q (tl s') = (t2, r2)" by (metis surj_pair)
    from less(1) [OF _ q(1)] less(1) [OF _ q(2)] less(2) q show ?thesis
      unfolding Cons quoted.simps(2) by (cases s') (auto simp del: quoted.simps split: if_splits)
  qed
qed

lemmas quoted_length = quoted_length_rest [THEN conjunct1]
lemmas quoted_subset = quoted_length_rest [THEN conjunct2, THEN conjunct1]
lemmas quoted_rest = quoted_length_rest [THEN conjunct2, THEN conjunct2]

text \<open>The text of a value; \<open>n\<close> is the space that is thought to be needed, one more than the length
  of the rest at first.\<close>

function conf_text :: "(u8 list option \<Rightarrow> u8 list \<Rightarrow> u8 list option) \<Rightarrow> nat \<Rightarrow> u8 list \<Rightarrow> u8 list option" where
  "conf_text look n [] = Some []"
| "conf_text look n (c # s) =
     (if IS_QUOTE c then
        (case quoted c s of (t, r) \<Rightarrow> map_option (append t) (conf_text look n (drop 1 r)))
      else if c = 92 then
        (case s of [] \<Rightarrow> Some [] | v # s \<Rightarrow> map_option (Cons (escaped v)) (conf_text look n s))
      else if c = 36 then
        (case variable s of
           None \<Rightarrow> None
         | Some (sec, name, r) \<Rightarrow>
             (case look sec name of
                None \<Rightarrow> None
              | Some t \<Rightarrow>
                  let n = length t + n - (length s + 1 - length r)
                  in if n > MAX_CONF_VALUE_LENGTH then None else map_option (append t) (conf_text look n r)))
      else map_option (Cons c) (conf_text look n s))"
  by pat_completeness auto
termination
proof (relation "measure (\<lambda>(look, n, s). length s)", simp_all, goal_cases)
  case (1 c s x y) then show ?case using quoted_length [OF sym] by fastforce
next
  case (2 c s x y z) then show ?case using variable_length by fastforce
qed

declare conf_text.simps(2) [simp del]

section \<open>Positions and suffixes\<close>

lemma chr_drop: "drop p b = c # z \<Longrightarrow> chr b p = c" "drop p b = c # z \<Longrightarrow> drop (Suc p) b = z" "drop p b = c # z \<Longrightarrow> p < length b"
  using hd_drop_conv_nth [of p b] by (auto simp: chr_def drop_Suc tl_drop [symmetric] intro: ccontr)

lemma eat_name_eq: "eat_name b e = e + length (takeWhile IS_ALPHA_NUMERIC (drop e b))"
proof (induction b e rule: eat_name.induct)
  case (1 b e)
  show ?case
  proof (cases "drop e b")
    case Nil
    then show ?thesis by (subst eat_name.simps) (simp add: chr_def)
  next
    case (Cons c z)
    note c = chr_drop [OF Cons]
    show ?thesis using 1 by (subst eat_name.simps) (simp add: c Cons)
  qed
qed

lemma copy_quote_eq:
  assumes "drop from b = s @ 0 # y" and "0 \<notin> set s" and "quoted q s = (t, r)" and "to + length s \<le> length data" and "q \<noteq> 92"
  shows "\<exists>data'. copy_quote b q from data to = Some (from + (length s - length r), data', to + length t) \<and>
    length data' = length data \<and> take (to + length t) data' = take to data @ t \<and>
    drop (from + (length s - length r)) b = r @ 0 # y"
  using assms
proof (induction q s arbitrary: "from" to data t r rule: quoted.induct)
  case (1 q)
  then show ?case using chr_drop [OF 1(1) [unfolded append_Nil]] by (subst copy_quote.simps) simp
next
  case (2 q c s)
  have d: "drop from b = c # s @ 0 # y" using 2(3) by simp
  note c = chr_drop [OF d]
  have nz: "c \<noteq> 0" using 2(4) by auto
  consider "c = q" | "c \<noteq> q" "c = 92" "s = []" | e s' where "c \<noteq> q" "c = 92" "s = e # s'" | "c \<noteq> q" "c \<noteq> 92"
    by (cases s) auto
  then show ?case
  proof cases
    case 1
    then show ?thesis using 2(3,5) c nz by (subst copy_quote.simps) simp
  next
    case 2
    then show ?thesis using \<open>quoted q (c # s) = (t, r)\<close> c nz chr_drop(1) [of "Suc from" b 0 y]
      by (subst copy_quote.simps) simp
  next
    case 3
    have d': "drop (Suc from) b = e # s' @ 0 # y" using c(2) 3 by simp
    note e = chr_drop [OF d']
    have ez: "e \<noteq> 0" using 2(4) 3 by auto
    obtain t' r' where q: "quoted q s' = (t', r')" by (cases "quoted q s'") auto
    have tr: "t = e # t'" "r = r'" using 2(5) 3 q by simp_all
    have "0 \<notin> set s'" "to + 1 + length s' \<le> length (data[to := e])" using 2(4,6) 3 by auto
    from 2(1) [OF 3 e(2) this(1) q this(2) 2(7)] obtain data' where
      "copy_quote b q (Suc (Suc from)) (data[to := e]) (to + 1) = Some (Suc (Suc from) + (length s' - length r'), data', to + 1 + length t')"
      "length data' = length data" "take (to + 1 + length t') data' = take (to + 1) (data[to := e]) @ t'"
      "drop (Suc (Suc from) + (length s' - length r')) b = r' @ 0 # y" by auto
    moreover have "to < length data" using 2(6) by simp
    moreover have "length r' \<le> length s'" using quoted_length [OF q] by simp
    ultimately show ?thesis using 3 c e ez tr nz
      by (subst copy_quote.simps) (simp add: put_def take_upd_last Suc_diff_le)
  next
    case 4
    obtain t' r' where q: "quoted q s = (t', r')" by (cases "quoted q s") auto
    have tr: "t = c # t'" "r = r'" using 2(5) 4 q by simp_all
    have "0 \<notin> set s" "to + 1 + length s \<le> length (data[to := c])" using 2(4,6) by auto
    from 2(2) [OF 4 c(2) this(1) q this(2) 2(7)] obtain data' where
      "copy_quote b q (Suc from) (data[to := c]) (to + 1) = Some (Suc from + (length s - length r'), data', to + 1 + length t')"
      "length data' = length data" "take (to + 1 + length t') data' = take (to + 1) (data[to := c]) @ t'"
      "drop (Suc from + (length s - length r')) b = r' @ 0 # y" by auto
    moreover have "to < length data" using 2(6) by simp
    moreover have "length r' \<le> length s" using quoted_length [OF q] by simp
    ultimately show ?thesis using 4 c tr nz
      by (subst copy_quote.simps) (simp add: put_def take_upd_last Suc_diff_le)
  qed
qed

section \<open>Variables\<close>

lemma c_str_append: "0 \<notin> set a \<Longrightarrow> c_str (a @ 0 # z) = a"
  by (induction a) (auto simp: c_str_def)

lemma c_strlen_append: "0 \<notin> set a \<Longrightarrow> c_strlen (a @ 0 # z) = length a"
  by (induction a) (auto simp: c_strlen_def)

lemma name_no_nul: "0 \<notin> set (takeWhile IS_ALPHA_NUMERIC s)"
  using set_takeWhileD [of 0 IS_ALPHA_NUMERIC s] by auto

text \<open>What \<open>find_var\<close> finds from the start of the name on, and that the line is restored.\<close>

definition var_found :: "u8 list \<Rightarrow> nat \<Rightarrow> u8 list option \<times> u8 list \<times> u8 list \<Rightarrow> nat option \<Rightarrow> nat \<Rightarrow> u8 list \<Rightarrow> nat \<Rightarrow> u8 list \<Rightarrow> bool" where
  "var_found b st v rrp np b1 rp y \<longleftrightarrow>
     (case v of (sec, name, r) \<Rightarrow>
       let b2 = b1[rp := 0]
       in (rrp = None) = (sec = None) \<and> c_str (drop np b2) = name \<and>
          (\<forall>a. sec = Some a \<longrightarrow> c_str (drop st b2) = a) \<and>
          length b1 = length b \<and> rp < length b \<and> drop rp b = r @ 0 # y \<and> chr b1 rp = chr b rp \<and>
          (case rrp of None \<Rightarrow> b2 | Some k \<Rightarrow> b2[k := 58])[rp := chr b1 rp] = b)"

lemma takeWhile_name_stop:
  "dropWhile IS_ALPHA_NUMERIC s = r \<Longrightarrow> takeWhile IS_ALPHA_NUMERIC (s @ 0 # y) = takeWhile IS_ALPHA_NUMERIC s"
  by (induction s) auto

lemma chr_append: "chr (x @ z) (length x) = chr z 0" "chr (c # z) 0 = c" "chr (c # z) (Suc k) = chr z k"
  by (simp_all add: chr_def nth_append)

lemma chr_append_add: "chr (x @ z) (length x + k) = chr z k"
  by (simp add: chr_def nth_append)

lemma var_found_plain:
  assumes b: "b = x @ a @ c # z" and a: "0 \<notin> set a" and r: "c # z = r @ 0 # y"
  shows "var_found b (length x) (None, a, r) None (length x) b (length x + length a) y"
  unfolding var_found_def b using a r [symmetric]
  by (simp add: Let_def chr_append_add chr_append nth_append list_update_append c_str_append)

lemma var_found_section:
  assumes b: "b = x @ a @ 58 # 58 # n @ c # z" and a: "0 \<notin> set a" "0 \<notin> set n" and r: "c # z = r @ 0 # y"
  shows "var_found b (length x) (Some a, n, r) (Some (length x + length a)) (length x + length a + 2)
    (x @ a @ 0 # 58 # n @ c # z) (length x + length a + 2 + length n) y"
proof -
  have i: "length x + length a + 2 + length n = length (x @ a @ [0, 58] @ n)"
    "length x + length a + 2 = length (x @ a @ [0, 58])" for e :: u8 by simp_all
  have j: "x @ a @ 0 # 58 # n @ w = (x @ a @ [0, 58] @ n) @ w" "x @ a @ 58 # 58 # n @ w = (x @ a @ [58, 58] @ n) @ w"
    "length (x @ a @ [0, 58] @ n) = length (x @ a @ [58, 58] @ n)" for w by simp_all
  have c1: "chr (x @ a @ 0 # 58 # n @ c # z) (length x + length a + 2 + length n) = c"
    using chr_append_add [of "x @ a @ [0, 58] @ n" "c # z" 0] by (simp add: chr_append add.assoc)
  have c2: "chr (x @ a @ 58 # 58 # n @ c # z) (length x + length a + 2 + length n) = c"
    using chr_append_add [of "x @ a @ [58, 58] @ n" "c # z" 0] by (simp add: chr_append add.assoc)
  have u: "(x @ a @ 0 # 58 # n @ c # z)[length x + length a + 2 + length n := e] = x @ a @ 0 # 58 # n @ e # z" for e
    using list_update_append1 by (simp add: list_update_append)
  have v: "(x @ a @ 0 # w)[length x + length a := e] = x @ a @ e # w" for e w by (simp add: list_update_append)
  have d: "drop (length x + length a + 2) (x @ a @ 0 # 58 # w) = w"
    "drop (length x + length a + 2 + length n) (x @ a @ 58 # 58 # n @ w) = w" for w by simp_all
  show ?thesis
    unfolding var_found_def b prod.case Let_def option.case u v c1 c2 d
    using a r by (simp add: c_str_append u list_update_append)
qed

text \<open>The two computations of \<open>find_var\<close> from the start of the name on.\<close>

definition name_parts :: "u8 list \<Rightarrow> nat \<Rightarrow> nat option \<times> nat \<times> u8 list \<times> nat" where
  "name_parts b s =
     (let e = eat_name b s
      in if chr b e = 58 \<and> chr b (e + 1) = 58
         then let b = b[e := 0] in (Some e, e + 2, b, eat_name b (e + 2))
         else (None, s, b, e))"

lemma find_var_parts:
  "find_var b from =
     (let s = from + 1;
          q = (if chr b s = 123 then 125 else if chr b s = 40 then 41 else 0);
          s = (if q \<noteq> 0 then s + 1 else s)
      in case name_parts b s of (rrp, np, b, rp) \<Rightarrow> (q, s, rrp, np, b, rp))"
  by (simp add: find_var_def name_parts_def Let_def)

lemma name_parts_found:
  assumes d: "drop st b = s @ 0 # y" and z: "0 \<notin> set s"
  shows "\<exists>rrp np b1 rp. name_parts b st = (rrp, np, b1, rp) \<and> var_found b st (var_name s) rrp np b1 rp y"
proof -
  let ?a = "takeWhile IS_ALPHA_NUMERIC s" and ?r = "dropWhile IS_ALPHA_NUMERIC s"
  obtain x where x: "b = x @ s @ 0 # y" "st = length x"
    using d by (metis append_take_drop_id drop_eq_Nil length_take list.distinct(1) min.absorb4 append_is_Nil_conv not_le_imp_less)
  have s: "s = ?a @ ?r" by simp
  have stop: "takeWhile IS_ALPHA_NUMERIC (s @ 0 # y) = ?a" by (rule takeWhile_name_stop [OF refl])
  have e: "eat_name b st = length x + length ?a" using d stop x(2) by (simp add: eat_name_eq)
  obtain c w where c: "?r @ 0 # y = c # w" by (cases ?r) auto
  have b: "b = x @ ?a @ c # w" unfolding x(1) using c s by (metis append.assoc)
  have c1: "chr b (length x + length ?a) = c" using chr_append_add [of "x @ ?a" "c # w" 0] b by (simp add: chr_append)
  have c2: "chr b (length x + length ?a + 1) = chr w 0"
    using chr_append_add [of "x @ ?a" "c # w" 1] b by (simp add: chr_append)
  show ?thesis
  proof (cases "c = 58 \<and> chr w 0 = 58")
    case False
    then have "name_parts b st = (None, st, b, length x + length ?a)"
      using c1 c2 unfolding name_parts_def e Let_def by auto
    moreover have "var_name s = (None, ?a, ?r)"
      using False c by (auto simp: var_name_def Let_def chr_append split: list.splits)
    ultimately show ?thesis using var_found_plain [OF b name_no_nul c [symmetric]] x(2) by simp
  next
    case True
    then obtain r' where r: "?r = 58 # 58 # r'"
      using c by (cases ?r; cases "tl ?r") (auto simp: chr_append)
    let ?n = "takeWhile IS_ALPHA_NUMERIC r'" and ?q = "dropWhile IS_ALPHA_NUMERIC r'"
    obtain c' w' where c': "c' # w' = ?q @ 0 # y" by (cases ?q) auto
    have w: "c # w = 58 # 58 # ?n @ c' # w'" using c' c r by (metis append.assoc append_Cons takeWhile_dropWhile_id)
    have b': "b = x @ ?a @ 58 # 58 # ?n @ c' # w'" using b w by simp
    let ?b1 = "x @ ?a @ 0 # 58 # ?n @ c' # w'"
    have b1: "b[length x + length ?a := 0] = ?b1" unfolding b' by (simp add: list_update_append)
    have "drop (length x + length ?a + 2) ?b1 = ?n @ c' # w'" by simp
    also have "\<dots> = r' @ 0 # y" unfolding c' by (metis append.assoc takeWhile_dropWhile_id)
    finally have "eat_name ?b1 (length x + length ?a + 2) = length x + length ?a + 2 + length ?n"
      unfolding eat_name_eq by (simp only: takeWhile_name_stop [OF refl])
    then have "name_parts b st = (Some (length x + length ?a), length x + length ?a + 2, ?b1, length x + length ?a + 2 + length ?n)"
      using True c1 c2 unfolding name_parts_def e Let_def b1 by simp
    moreover have "var_name s = (Some ?a, ?n, ?q)" using r by (simp add: var_name_def Let_def)
    ultimately show ?thesis using var_found_section [OF b' name_no_nul name_no_nul c'] x(2) by simp
  qed
qed

text \<open>The lookup of a variable.\<close>

definition lookup_in :: "conf \<Rightarrow> u8 list \<Rightarrow> u8 list option \<Rightarrow> u8 list \<Rightarrow> u8 list option" where
  "lookup_in conf sect sec name = conf_string conf (case sec of None \<Rightarrow> c_str sect | Some s \<Rightarrow> s) name"

lemma brace_position:
  assumes d: "drop (from + 1) b = s @ 0 # y" and z: "0 \<notin> set s" and o: "brace s = (q, s1)"
  shows "(if chr b (from + 1) = 123 then 125 else if chr b (from + 1) = 40 then 41 else 0) = (case q of None \<Rightarrow> 0 | Some q \<Rightarrow> q)"
    and "drop (if (case q of None \<Rightarrow> 0 | Some q \<Rightarrow> q) \<noteq> 0 then from + 1 + 1 else from + 1) b = s1 @ 0 # y" and "0 \<notin> set s1"
    and "q \<noteq> Some 0"
proof -
  have "chr b (from + 1) = (case s of [] \<Rightarrow> 0 | c # _ \<Rightarrow> c)" and dd: "s = c # s' \<Longrightarrow> drop (from + 1 + 1) b = s' @ 0 # y" for c s'
    using d chr_drop [of "from + 1" b] by (auto split: list.splits)
  then show "(if chr b (from + 1) = 123 then 125 else if chr b (from + 1) = 40 then 41 else 0) = (case q of None \<Rightarrow> 0 | Some q \<Rightarrow> q)"
    using o by (auto simp: brace_def split: list.splits if_splits)
  show "drop (if (case q of None \<Rightarrow> 0 | Some q \<Rightarrow> q) \<noteq> 0 then from + 1 + 1 else from + 1) b = s1 @ 0 # y"
    using o d dd by (auto simp: brace_def split: list.splits if_splits)
  show "0 \<notin> set s1" "q \<noteq> Some 0" using o z by (auto simp: brace_def split: list.splits if_splits)
qed

lemma put_string_eq:
  assumes "c_string p" and "to + length (c_str p) \<le> length data"
  shows "\<exists>data'. put_string data to p = Some (data', to + length (c_str p)) \<and> length data' = length data \<and>
    take (to + length (c_str p)) data' = take to data @ c_str p"
  using assms
proof (induction p arbitrary: to data)
  case (Cons c p)
  show ?case
  proof (cases "c = 0")
    case False
    then have "c_string p" "to + 1 + length (c_str p) \<le> length (data[to := c])" "to < length data"
      using Cons(2,3) by (auto simp: c_string_def c_str_def)
    with Cons(1) [OF this(1,2)] False show ?thesis by (auto simp: c_str_def put_def take_upd_last)
  qed (simp add: c_str_def)
qed (simp add: c_string_def)

text \<open>The buffer, with \<open>to\<close> bytes written, and room for \<open>n\<close> in all.\<close>

definition copy_buf :: "BUF_MEM \<Rightarrow> nat \<Rightarrow> nat \<Rightarrow> u8 list \<Rightarrow> bool" where
  "copy_buf buf n to t \<longleftrightarrow> buf_mem_ok buf \<and> bm_length buf = n \<and> take to (bm_data buf) = t \<and> length t = to \<and> to < n"

lemma grow_copy_buf:
  assumes h: "plenty h" and c: "copy_buf buf n to t" and n': "to < n'" "n' < 2 ^ 60"
  shows "\<exists>buf'. BUF_MEM_grow_clean (h_malloc h) n' buf = (n', buf') \<and> copy_buf buf' n' to t"
proof -
  have ok: "buf_mem_ok buf" and m: "malloc_ok (h_malloc h)" using c h by (simp_all add: copy_buf_def plenty_def)
  have room: "buf_room (h_malloc h) buf n'" using n'(2) h by (simp add: buf_room_def plenty_def)
  obtain b where "BUF_MEM_reserve (h_malloc h) n' buf = (True, b)" using BUF_MEM_reserve_total [OF room le_refl] by blast
  then obtain buf' where g: "BUF_MEM_grow (h_malloc h) n' buf = (n', buf')" by (simp add: BUF_MEM_grow_def Let_def)
  have "n' < 2 ^ 63 + 2 ^ 61" "0 < n'" using n' by simp_all
  from BUF_MEM_grow_Some [OF m ok this g] have b: "buf_mem_ok buf'"
    "contents buf' = take n' (contents buf) @ replicate (n' - bm_length buf) 0" using n'(1) by simp_all
  have l: "bm_length buf' = n'"
    using g n'(1) by (auto simp: BUF_MEM_grow_def Let_def split: prod.splits bool.splits)
  have "take to (bm_data buf') = take to (contents buf')" using l n'(1) by (simp add: contents_def min_def)
  also have "\<dots> = take to (contents buf)"
    unfolding b(2) using c n'(1) length_contents [OF ok] by (simp add: copy_buf_def min_def)
  also have "\<dots> = take to (bm_data buf)" using c by (simp add: contents_def copy_buf_def min_def)
  finally show ?thesis using g b(1) l c n'(1) by (simp add: BUF_MEM_grow_clean_def copy_buf_def)
qed

text \<open>The outcome of a step that may jump to \<open>err\<close>.\<close>

lemma variable_found:
  assumes d: "drop from b = 36 # s @ 0 # y" and z: "0 \<notin> set s"
  obtains q st rrp np b1 rp sec name r where "find_var b from = (q, st, rrp, np, b1, rp)"
    "var_found b st (sec, name, r) rrp np b1 rp y" "q = 0 \<longrightarrow> variable s = Some (sec, name, r)"
    "q \<noteq> 0 \<longrightarrow> variable s = (case r of [] \<Rightarrow> None | c # r \<Rightarrow> if c = q then Some (sec, name, r) else None)"
proof -
  obtain qo s1 where o: "brace s = (qo, s1)" by (cases "brace s") auto
  obtain sec name r where v: "var_name s1 = (sec, name, r)" by (metis surj_pair)
  let ?q = "case qo of None \<Rightarrow> 0 | Some q \<Rightarrow> q" and ?st = "if (case qo of None \<Rightarrow> 0 | Some q \<Rightarrow> q) \<noteq> (0 :: u8) then from + 1 + 1 else from + 1"
  have "drop (from + 1) b = s @ 0 # y" using chr_drop(2) [OF d] by simp
  note br = brace_position [OF this z o]
  from name_parts_found [OF br(2,3)] obtain rrp np b1 rp where n: "name_parts b ?st = (rrp, np, b1, rp)"
    "var_found b ?st (var_name s1) rrp np b1 rp y" by blast
  show ?thesis
  proof (rule that [of ?q ?st rrp np b1 rp sec name r])
    show "find_var b from = (?q, ?st, rrp, np, b1, rp)" unfolding find_var_parts Let_def br(1) n(1) by simp
    show "var_found b ?st (sec, name, r) rrp np b1 rp y" using n(2) v by simp
    show "?q = 0 \<longrightarrow> variable s = Some (sec, name, r)"
      using br(4) o v by (auto simp: variable_def split: option.splits)
    show "?q \<noteq> 0 \<longrightarrow> variable s = (case r of [] \<Rightarrow> None | c # r \<Rightarrow> if c = ?q then Some (sec, name, r) else None)"
      using o v by (auto simp: variable_def split: option.splits)
  qed
qed

lemma expand_var_eq:
  assumes h: "plenty h" and conf: "conf_inv p conf"
    and d: "drop from b = 36 # s @ 0 # y" and z: "0 \<notin> set s"
    and buf: "copy_buf buf n to t" and room: "to + length s + 2 \<le> n" and n: "n < 2 ^ 60"
  shows "case variable s of
      None \<Rightarrow> \<exists>b'. expand_var (h_malloc h) conf (Some sect) b from buf to = Some (Inl b') \<and> length b' = length b
    | Some (sec, name, r) \<Rightarrow>
        (case lookup_in conf sect sec name of
           None \<Rightarrow> \<exists>b'. expand_var (h_malloc h) conf (Some sect) b from buf to = Some (Inl b') \<and> length b' = length b
         | Some x \<Rightarrow>
             let n' = length x + n - (length s + 1 - length r)
             in if n' > MAX_CONF_VALUE_LENGTH
                then \<exists>b'. expand_var (h_malloc h) conf (Some sect) b from buf to = Some (Inl b') \<and> length b' = length b
                else \<exists>e buf'. expand_var (h_malloc h) conf (Some sect) b from buf to = Some (Inr (b, e, buf', to + length x)) \<and>
                  drop e b = r @ 0 # y \<and> copy_buf buf' n' (to + length x) (t @ x))"
proof -
  obtain q st rrp np b1 rp sec name r where f: "find_var b from = (q, st, rrp, np, b1, rp)"
    and v: "var_found b st (sec, name, r) rrp np b1 rp y"
    and q0: "q = 0 \<longrightarrow> variable s = Some (sec, name, r)"
    and q1: "q \<noteq> 0 \<longrightarrow> variable s = (case r of [] \<Rightarrow> None | c # r \<Rightarrow> if c = q then Some (sec, name, r) else None)"
    by (rule variable_found [OF d z])
  let ?b2 = "b1[rp := 0]" and ?r = "chr b1 rp"
  let ?b4 = "(case rrp of None \<Rightarrow> ?b2 | Some k \<Rightarrow> ?b2[k := 58])[rp := ?r]"
  have v': "(rrp = None) = (sec = None)" "c_str (drop np ?b2) = name" "\<And>a. sec = Some a \<Longrightarrow> c_str (drop st ?b2) = a"
    "length b1 = length b" "rp < length b" "drop rp b = r @ 0 # y" "?r = chr b rp" "?b4 = b"
    using v unfolding var_found_def Let_def prod.case by blast+
  have r: "?r = (case r of [] \<Rightarrow> 0 | c # _ \<Rightarrow> c)"
    using v'(6,7) chr_drop(1) [of rp b] by (auto split: list.splits)
  show ?thesis
  proof (cases "q \<noteq> 0 \<and> ?r \<noteq> q")
    case True
    then have "variable s = None" using q1 r by (auto split: list.splits)
    then show ?thesis using True v'(4) by (simp add: expand_var_def f Let_def)
  next
    case False
    let ?e = "if q \<noteq> 0 then rp + 1 else rp"
    define r' where "r' = (if q \<noteq> 0 then tl r else r)"
    have var: "variable s = Some (sec, name, r')" and dr: "drop ?e b = r' @ 0 # y"
      using False q0 q1 r v'(6) by (auto simp: r'_def split: list.splits dest: chr_drop)
    have le: "length r' \<le> length s" using variable_length [OF var] .
    have ef: "?e - from = length s + 1 - length r'"
    proof -
      have "length b - from = length s + 2 + length y" using arg_cong [OF d, of length] by simp
      moreover have "length b - ?e = length r' + 1 + length y" using arg_cong [OF dr, of length] by simp
      ultimately show ?thesis using v'(5) by auto
    qed
    let ?sec = "if rrp = None then Some sect else Some (drop st ?b2)"
    have look: "lookup_in conf sect sec name = conf_string conf (c_str (the ?sec)) (c_str (drop np ?b2))"
      using v'(1-3) by (auto simp: lookup_in_def split: option.splits)
    have sec: "?sec = Some (the ?sec)" by simp
    have ex0: "expand_var (h_malloc h) conf (Some sect) b from buf to =
      (case NCONF_get_string conf (Some (the ?sec)) (Some (drop np ?b2)) of
         None \<Rightarrow> None
       | Some p \<Rightarrow>
           (case p of
              Null \<Rightarrow> Some (Inl b)
            | Section_stack _ \<Rightarrow> None
            | Text p \<Rightarrow>
                (if sz_sub (sz_add (c_strlen p) (bm_length buf)) (?e - from) > MAX_CONF_VALUE_LENGTH then Some (Inl b)
                 else case BUF_MEM_grow_clean (h_malloc h) (sz_sub (sz_add (c_strlen p) (bm_length buf)) (?e - from)) buf of
                   (n, buf) \<Rightarrow> if n = 0 then Some (Inl b)
                     else case put_string (bm_data buf) to p of
                            None \<Rightarrow> None | Some (data, to) \<Rightarrow> Some (Inr (b, ?e, buf\<lparr>bm_data := data\<rparr>, to)))))"
      unfolding expand_var_def f prod.case Let_def if_not_P [OF False] v'(8) sec [symmetric] by (rule refl)
    show ?thesis
    proof (cases rule: get_string_cases [OF conf, of "the ?sec" "drop np ?b2"])
      case 1
      then show ?thesis using ex0 var look by simp
    next
      case (2 x)
      let ?x = "c_str x" and ?k = "length s + 1 - length r'"
      have sl: "c_strlen x = length ?x" by (simp add: c_strlen_def c_str_def)
      have bl: "bm_length buf = n" using buf by (simp add: copy_buf_def)
      have kn: "?k \<le> n" using room by simp
      have sz: "sz_sub (sz_add (c_strlen x) (bm_length buf)) (?e - from) = length ?x + n - ?k"
        unfolding ef sl bl using 2(3) n kn by (simp add: sz_add_id sz_sub_id)
      have ex: "expand_var (h_malloc h) conf (Some sect) b from buf to =
        (if length ?x + n - ?k > MAX_CONF_VALUE_LENGTH then Some (Inl b)
         else case BUF_MEM_grow_clean (h_malloc h) (length ?x + n - ?k) buf of
                (n, buf) \<Rightarrow> if n = 0 then Some (Inl b)
                  else case put_string (bm_data buf) to x of
                         None \<Rightarrow> None | Some (data, to) \<Rightarrow> Some (Inr (b, ?e, buf\<lparr>bm_data := data\<rparr>, to)))"
        unfolding ex0 2(4) option.case conf_data.case sz by (rule refl)
      show ?thesis
      proof (cases "length ?x + n - ?k > MAX_CONF_VALUE_LENGTH")
        case True
        then show ?thesis using ex var look 2(1) by (simp add: Let_def)
      next
        case small: False
        let ?n = "length ?x + n - ?k"
        have "to < ?n" "?n < 2 ^ 60" using room le small by (simp_all add: MAX_CONF_VALUE_LENGTH_def)
        from grow_copy_buf [OF h buf this] obtain buf1 where
          g: "BUF_MEM_grow_clean (h_malloc h) ?n buf = (?n, buf1)" "copy_buf buf1 ?n to t" by blast
        have "to + length ?x \<le> length (bm_data buf1)" using g(2) room le unfolding copy_buf_def buf_mem_ok_def by linarith
        from put_string_eq [OF 2(2) this] obtain data where
          data: "put_string (bm_data buf1) to x = Some (data, to + length ?x)" "length data = length (bm_data buf1)"
            "take (to + length ?x) data = take to (bm_data buf1) @ ?x" by blast
        have "copy_buf (buf1\<lparr>bm_data := data\<rparr>) ?n (to + length ?x) (t @ ?x)"
          using g(2) data(2,3) room le by (auto simp: copy_buf_def buf_mem_ok_def)
        then show ?thesis
          using ex small g(1) data(1) var look 2(1) dr \<open>to < ?n\<close> by (simp add: Let_def)
      qed
    qed
  qed
qed

section \<open>The whole text\<close>

definition copies :: "conf \<Rightarrow> u8 list \<Rightarrow> u8 list \<Rightarrow> nat \<Rightarrow> u8 list \<Rightarrow> nat \<Rightarrow> u8 list \<Rightarrow> (u8 list + u8 list \<times> BUF_MEM \<times> nat) option \<Rightarrow> bool" where
  "copies conf sect b n s to t r \<longleftrightarrow>
     (case conf_text (lookup_in conf sect) n s of
        None \<Rightarrow> \<exists>b'. r = Some (Inl b') \<and> length b' = length b
      | Some x \<Rightarrow> \<exists>buf' n'. r = Some (Inr (b, buf', to + length x)) \<and> copy_buf buf' n' (to + length x) (t @ x) \<and> n' < 2 ^ 60)"

text \<open>One byte.\<close>

lemma put_copy_buf:
  assumes "copy_buf buf n to t" and "to + 1 < n"
  shows "put (bm_data buf) to c = Some ((bm_data buf)[to := c])" and "copy_buf (buf\<lparr>bm_data := (bm_data buf)[to := c]\<rparr>) n (to + 1) (t @ [c])"
  using assms by (auto simp: put_def copy_buf_def buf_mem_ok_def take_upd_last)

lemma copies_step:
  assumes "copies conf sect b n s (to + 1) (t @ [c]) r"
    and "conf_text (lookup_in conf sect) n (d # s') = map_option (Cons c) (conf_text (lookup_in conf sect) n s)"
  shows "copies conf sect b n (d # s') to t r"
  using assms by (auto simp: copies_def split: option.splits)

lemma str_copy_loop_eq:
  assumes h: "plenty h" and conf: "conf_inv p conf"
    and "drop from b = s @ 0 # y" and "0 \<notin> set s" and "copy_buf buf n to t" and "to + length s + 1 \<le> n" and "n < 2 ^ 60"
  shows "copies conf sect b n s to t (str_copy_loop (h_malloc h) conf (Some sect) b from buf to)"
  using assms(3-7)
proof (induction "length s" arbitrary: s "from" buf n to t rule: less_induct)
  case less
  let ?look = "lookup_in conf sect"
  show ?case
  proof (cases s)
    case Nil
    then show ?thesis
      using less(2,4,6) chr_drop(1) [of "from" b 0 y] by (subst str_copy_loop.simps) (auto simp: copies_def)
  next
    case (Cons c s')
    have d: "drop from b = c # s' @ 0 # y" using less(2) Cons by simp
    note c = chr_drop [OF d]
    have nz: "c \<noteq> 0" "0 \<notin> set s'" using less(3) Cons by auto
    consider (quote) "IS_QUOTE c" | (escnil) "c = 92" "s' = []" | (esc) v s2 where "c = 92" "s' = v # s2"
      | (var) "c = 36" | (plain) "\<not> IS_QUOTE c" "c \<noteq> 92" "c \<noteq> 36" by (cases s') auto
    then show ?thesis
    proof cases
      case quote
      have qn: "c \<noteq> 92" using quote by (auto simp: is_quote_iff)
      obtain x r where q: "quoted c s' = (x, r)" by (cases "quoted c s'") auto
      have "to + length s' \<le> length (bm_data buf)" using less(4,5) Cons by (simp add: copy_buf_def buf_mem_ok_def)
      from copy_quote_eq [OF c(2) nz(2) q this qn] obtain data where
        data: "copy_quote b c (Suc from) (bm_data buf) to = Some (Suc from + (length s' - length r), data, to + length x)"
          "length data = length (bm_data buf)" "take (to + length x) data = take to (bm_data buf) @ x"
          "drop (Suc from + (length s' - length r)) b = r @ 0 # y" by blast
      let ?f = "behind_quote b c (Suc from + (length s' - length r))"
      have f: "drop ?f b = drop 1 r @ 0 # y"
        using data(4) quoted_rest [OF q] nz chr_drop [of "Suc from + (length s' - length r)" b]
        by (auto simp: behind_quote_def)
      note le = quoted_length [OF q]
      have "0 \<notin> set (drop 1 r)" using quoted_subset [OF q] nz(2) by (auto dest: in_set_dropD)
      have cb: "copy_buf (buf\<lparr>bm_data := data\<rparr>) n (to + length x) (t @ x)"
        using less(4,5) data(2,3) le Cons by (auto simp: copy_buf_def buf_mem_ok_def)
      have "copies conf sect b n (drop 1 r) (to + length x) (t @ x)
          (str_copy_loop (h_malloc h) conf (Some sect) b ?f (buf\<lparr>bm_data := data\<rparr>) (to + length x))"
        by (rule less(1) [OF _ f _ cb]) (use le less(5,6) Cons \<open>0 \<notin> set (drop 1 r)\<close> in auto)
      moreover have "str_copy_loop (h_malloc h) conf (Some sect) b from buf to =
          str_copy_loop (h_malloc h) conf (Some sect) b ?f (buf\<lparr>bm_data := data\<rparr>) (to + length x)"
        by (subst str_copy_loop.simps) (simp add: c quote data(1))
      ultimately show ?thesis
        unfolding Cons copies_def by (simp add: conf_text.simps(2) quote q add.assoc split: option.splits)
    next
      case escnil
      then show ?thesis using chr_drop(1) [of "Suc from" b 0 y] c less(4,6) Cons
        by (subst str_copy_loop.simps) (auto simp: copies_def conf_text.simps(2) is_quote_iff)
    next
      case esc
      have d': "drop (Suc from) b = v # s2 @ 0 # y" using c(2) esc by simp
      note v = chr_drop [OF d']
      have vz: "v \<noteq> 0" "0 \<notin> set s2" using nz esc by auto
      have room: "to + 1 < n" using less(5) Cons esc by simp
      note cb = put_copy_buf [OF less(4) room, of "escaped v"]
      have "copies conf sect b n s2 (to + 1) (t @ [escaped v])
          (str_copy_loop (h_malloc h) conf (Some sect) b (Suc (Suc from)) (buf\<lparr>bm_data := (bm_data buf)[to := escaped v]\<rparr>) (to + 1))"
        by (rule less(1) [OF _ v(2) vz(2) cb(2)]) (use less(5,6) Cons esc in auto)
      moreover have "str_copy_loop (h_malloc h) conf (Some sect) b from buf to =
          str_copy_loop (h_malloc h) conf (Some sect) b (Suc (Suc from)) (buf\<lparr>bm_data := (bm_data buf)[to := escaped v]\<rparr>) (to + 1)"
        using esc(1) c v vz cb(1) by (subst str_copy_loop.simps) (simp add: is_quote_iff)
      ultimately show ?thesis unfolding Cons
        by (intro copies_step [of conf sect b n s2]) (simp_all add: conf_text.simps(2) esc is_quote_iff)
    next
      case var
      have d36: "drop from b = 36 # s' @ 0 # y" using d var by simp
      have room: "to + length s' + 2 \<le> n" using less(5) Cons by simp
      note ex = expand_var_eq [OF h conf d36 nz(2) less(4) room less(6), of sect]
      have loop: "str_copy_loop (h_malloc h) conf (Some sect) b from buf to =
          (case expand_var (h_malloc h) conf (Some sect) b from buf to of
             None \<Rightarrow> None
           | Some (Inl b) \<Rightarrow> Some (Inl b)
           | Some (Inr (b, from, buf, to)) \<Rightarrow> str_copy_loop (h_malloc h) conf (Some sect) b from buf to)"
        using var c by (subst str_copy_loop.simps) (simp add: is_quote_iff)
      have cs: "conf_text ?look n s = (case variable s' of
           None \<Rightarrow> None
         | Some (sec, name, r) \<Rightarrow>
             (case ?look sec name of
                None \<Rightarrow> None
              | Some t \<Rightarrow>
                  let n = length t + n - (length s' + 1 - length r)
                  in if n > MAX_CONF_VALUE_LENGTH then None else map_option (append t) (conf_text ?look n r)))"
        unfolding Cons conf_text.simps(2) using var by (simp add: is_quote_iff)
      show ?thesis
      proof (cases "variable s'")
        case None
        then show ?thesis using ex unfolding copies_def cs loop by auto
      next
        case (Some a)
        obtain sec name r where a: "variable s' = Some (sec, name, r)" using Some by (cases a) auto
        show ?thesis
        proof (cases "?look sec name")
          case None
          then show ?thesis using ex a unfolding copies_def cs loop by auto
        next
          case look: (Some x)
          let ?n = "length x + n - (length s' + 1 - length r)"
          show ?thesis
          proof (cases "?n > MAX_CONF_VALUE_LENGTH")
            case True
            then show ?thesis using ex a look unfolding copies_def cs loop by (auto simp: Let_def)
          next
            case False
            then obtain e buf' where e: "expand_var (h_malloc h) conf (Some sect) b from buf to = Some (Inr (b, e, buf', to + length x))"
              "drop e b = r @ 0 # y" "copy_buf buf' ?n (to + length x) (t @ x)"
              using ex a look by (auto simp: Let_def)
            have le: "length r \<le> length s'" by (rule variable_length [OF a])
            have rz: "0 \<notin> set r" using variable_subset [OF a] nz(2) by auto
            have "copies conf sect b ?n r (to + length x) (t @ x)
                (str_copy_loop (h_malloc h) conf (Some sect) b e buf' (to + length x))"
              by (rule less(1) [OF _ e(2) rz e(3)]) (use le Cons False room in \<open>auto simp: MAX_CONF_VALUE_LENGTH_def\<close>)
            then show ?thesis using False a look unfolding copies_def cs loop e(1)
              by (simp add: Let_def add.assoc split: option.splits)
          qed
        qed
      qed
    next
      case plain
      have room: "to + 1 < n" using less(5) Cons by simp
      note cb = put_copy_buf [OF less(4) room, of c]
      have "copies conf sect b n s' (to + 1) (t @ [c])
          (str_copy_loop (h_malloc h) conf (Some sect) b (Suc from) (buf\<lparr>bm_data := (bm_data buf)[to := c]\<rparr>) (to + 1))"
        by (rule less(1) [OF _ c(2) nz(2) cb(2)]) (use less(5,6) Cons in auto)
      moreover have "str_copy_loop (h_malloc h) conf (Some sect) b from buf to =
          str_copy_loop (h_malloc h) conf (Some sect) b (Suc from) (buf\<lparr>bm_data := (bm_data buf)[to := c]\<rparr>) (to + 1)"
        using plain c nz cb(1) by (subst str_copy_loop.simps) simp
      ultimately show ?thesis unfolding Cons
        by (intro copies_step [of conf sect b n s']) (simp_all add: conf_text.simps(2) plain)
    qed
  qed
qed

lemma conf_text_no_nul:
  assumes "\<And>sec name x. look sec name = Some x \<Longrightarrow> 0 \<notin> set x"
  shows "conf_text look n s = Some x \<Longrightarrow> 0 \<notin> set s \<Longrightarrow> 0 \<notin> set x"
proof (induction "length s" arbitrary: n s x rule: less_induct)
  case less
  show ?case
  proof (cases s)
    case Nil
    then show ?thesis using less(2) by simp
  next
    case (Cons c s')
    have e: "escaped v \<noteq> 0" if "v \<noteq> 0" for v using that by (simp add: escaped_def)
    have q: "length r < length s \<and> 0 \<notin> set t \<and> 0 \<notin> set (drop 1 r)" if "quoted c s' = (t, r)" for t r
      using quoted_length [OF that] quoted_subset [OF that] less(3) Cons by (auto dest: in_set_dropD)
    have v: "length r < length s \<and> 0 \<notin> set r" if "variable s' = Some (sec, name, r)" for sec name r
      using variable_length [OF that] variable_subset [OF that] less(3) Cons by auto
    note x = less(2) [unfolded Cons conf_text.simps(2)]
    have IH: "conf_text look k r = Some z \<Longrightarrow> length r < length s \<Longrightarrow> 0 \<notin> set r \<Longrightarrow> 0 \<notin> set z" for k r z
      using less(1) by blast
    consider (quote) "IS_QUOTE c" | (esc) "\<not> IS_QUOTE c" "c = 92" | (var) "\<not> IS_QUOTE c" "c \<noteq> 92" "c = 36"
      | (plain) "\<not> IS_QUOTE c" "c \<noteq> 92" "c \<noteq> 36" by blast
    then show ?thesis
    proof cases
      case quote
      obtain t r where tr: "quoted c s' = (t, r)" by (cases "quoted c s'") auto
      obtain z where "conf_text look n (drop 1 r) = Some z" "x = t @ z" using x quote tr by auto
      moreover have "length (drop 1 r) < length s" using q [OF tr] by auto
      ultimately show ?thesis using IH [of n "drop 1 r" z] q [OF tr] by simp
    next
      case esc
      show ?thesis
      proof (cases s')
        case Nil
        then show ?thesis using x esc by simp
      next
        case (Cons v r)
        then obtain z where "conf_text look n r = Some z" "x = escaped v # z" using x esc by auto
        with IH [of n r z] e [of v] less(3) \<open>s = c # s'\<close> Cons show ?thesis by auto
      qed
    next
      case var
      then obtain sec name r t k z where r: "variable s' = Some (sec, name, r)" "look sec name = Some t"
        "conf_text look k r = Some z" "x = t @ z"
        using x by (auto simp: Let_def split: option.splits if_splits)
      with IH [of k r z] v [OF r(1)] assms [OF r(2)] show ?thesis by simp
    next
      case plain
      then obtain z where "conf_text look n s' = Some z" "x = c # z" using x by auto
      with IH [of n s' z] less(3) Cons show ?thesis by auto
    qed
  qed
qed

lemma lookup_no_nul: "lookup_in conf sect sec name = Some x \<Longrightarrow> 0 \<notin> set x"
  using set_takeWhileD [of 0 "\<lambda>c. c \<noteq> 0"]
  by (auto simp: lookup_in_def conf_string_def c_str_def split: option.splits conf_data.splits)

text \<open>The text of a value in a section.\<close>

definition value_text :: "conf \<Rightarrow> u8 list \<Rightarrow> u8 list \<Rightarrow> u8 list option" where
  "value_text conf sect s = conf_text (lookup_in conf sect) (length s + 1) s"

lemma str_copy_eq:
  assumes h: "plenty h" and conf: "conf_inv p conf" and s: "drop from b = s @ 0 # y" "0 \<notin> set s" "length s < INT_MAX"
  shows "case value_text conf sect s of
      None \<Rightarrow> \<exists>b'. str_copy (h_malloc h) conf (Some sect) b from = Some (None, b') \<and> length b' = length b
    | Some x \<Rightarrow> \<exists>data. str_copy (h_malloc h) conf (Some sect) b from = Some (Some data, b) \<and> c_string data \<and> c_str data = x \<and> length x < 2 ^ 60"
proof -
  let ?n = "length s + 1"
  obtain buf0 where new: "BUF_MEM_new (h_malloc h) = Some buf0"
    using plenty_malloc [OF h, of sizeof_BUF_MEM] by (auto simp: BUF_MEM_new_def sizeof_BUF_MEM_def)
  have ok0: "buf_mem_ok buf0" using BUF_MEM_new_ok [OF new] by simp
  have small: "?n < 2 ^ 60" using s(3) by (simp add: INT_MAX_def)
  have "buf_room (h_malloc h) buf0 ?n" using h small by (simp add: buf_room_def plenty_def)
  from BUF_MEM_reserve_total [OF this le_refl] obtain buf1 where "BUF_MEM_reserve (h_malloc h) ?n buf0 = (True, buf1)" by blast
  then obtain buf where g: "BUF_MEM_grow (h_malloc h) ?n buf0 = (?n, buf)" "bm_length buf = ?n" by (simp add: BUF_MEM_grow_def Let_def)
  have "malloc_ok (h_malloc h)" "?n < 2 ^ 63 + 2 ^ 61" using h small by (simp_all add: plenty_def)
  from BUF_MEM_grow_Some [OF this(1) ok0 this(2) _ g(1)] have cb: "copy_buf buf ?n 0 []"
    using g(2) by (simp add: copy_buf_def)
  have len: "c_strlen (drop from b) = length s" using c_strlen_append [OF s(2)] s(1) by simp
  have copy: "str_copy (h_malloc h) conf (Some sect) b from =
      (case str_copy_loop (h_malloc h) conf (Some sect) b from buf 0 of
         None \<Rightarrow> None
       | Some (Inl b) \<Rightarrow> Some (None, b)
       | Some (Inr (b, buf, to)) \<Rightarrow> Option.bind (put (bm_data buf) to 0) (\<lambda>data. Some (Some data, b)))"
    using s(3) g(1) by (simp add: str_copy_def new len Let_def)
  have "copies conf sect b ?n s 0 [] (str_copy_loop (h_malloc h) conf (Some sect) b from buf 0)"
    by (rule str_copy_loop_eq [OF h conf s(1,2) cb _ small]) simp
  note c = this [unfolded copies_def, folded value_text_def]
  show ?thesis
  proof (cases "value_text conf sect s")
    case None
    then show ?thesis using c copy by auto
  next
    case (Some x)
    then obtain buf' n' where r: "str_copy_loop (h_malloc h) conf (Some sect) b from buf 0 = Some (Inr (b, buf', length x))"
      "copy_buf buf' n' (length x) x" "n' < 2 ^ 60" using c by auto
    have x: "0 \<notin> set x"
      by (rule conf_text_no_nul [OF lookup_no_nul Some [unfolded value_text_def] s(2)])
    let ?d = "(bm_data buf')[length x := 0]"
    have l: "length x < length (bm_data buf')" "take (length x) (bm_data buf') = x" "length x < n'"
      using r(2) by (auto simp: copy_buf_def buf_mem_ok_def)
    then have "take (Suc (length x)) ?d = x @ [0]" by (simp add: take_upd_last)
    then have "?d = x @ 0 # drop (Suc (length x)) ?d" by (metis append.assoc append_Cons append_Nil append_take_drop_id)
    then have "c_string ?d" "c_str ?d = x" using x c_str_append [OF x] by (metis c_string_def in_set_conv_decomp, metis)
    then show ?thesis using Some copy r(1,3) l by (simp add: put_def)
  qed
qed

end
