(* ===== verification/Conf_Lines.thy ===== *)
theory Conf_Lines
  imports Conf_Spec
begin

text \<open>
  The lines of a configuration file: every scanner stays in front of the line's NUL, every
  line is read without undefined behaviour and keeps the invariant of the database.
\<close>

section \<open>Bounds\<close>

text \<open>The memory has a NUL at \<open>z\<close>.\<close>

definition nul_at :: "u8 list \<Rightarrow> nat \<Rightarrow> bool" where
  "nul_at b z \<longleftrightarrow> z < length b \<and> b ! z = 0"

lemma chr_nul: "nul_at b z \<Longrightarrow> chr b z = 0"
  by (simp add: nul_at_def chr_def)

lemma nul_next: "nul_at b z \<Longrightarrow> p \<le> z \<Longrightarrow> chr b p \<noteq> 0 \<Longrightarrow> Suc p \<le> z"
  using chr_nul [of b z] by (cases "p = z") auto

lemma class_next:
  assumes "nul_at b z" and "p \<le> z"
  shows "IS_WS (chr b p) \<Longrightarrow> Suc p \<le> z" "IS_QUOTE (chr b p) \<Longrightarrow> Suc p \<le> z" "IS_ALPHA_NUMERIC_PUNCT (chr b p) \<Longrightarrow> Suc p \<le> z"
  using nul_next [OF assms] by (cases "chr b p = 0"; simp)+

lemma nul_upd: "nul_at b z \<Longrightarrow> nul_at (b[e := 0]) z"
  by (cases "e = z") (auto simp: nul_at_def)

lemma nul_here: "e < length b \<Longrightarrow> nul_at (b[e := 0]) e"
  by (simp add: nul_at_def)

lemma nul_string: "nul_at b z \<Longrightarrow> p \<le> z \<Longrightarrow> c_string (drop p b)"
  by (auto simp: nul_at_def c_string_def in_set_conv_nth intro!: exI [of _ "z - p"])

lemma nul_length: "nul_at b z \<Longrightarrow> p \<le> z \<Longrightarrow> length (c_str (drop p b)) \<le> z - p"
proof -
  assume n: "nul_at b z" and p: "p \<le> z"
  have "length (takeWhile (\<lambda>c. c \<noteq> 0) w) \<le> k" if "k < length w" "w ! k = 0" for w k and c :: u8
    using that by (induction w arbitrary: k) (auto simp: nth_Cons split: nat.splits)
  moreover have "z - p < length (drop p b)" using n p by (simp add: nul_at_def diff_less_mono)
  moreover have "drop p b ! (z - p) = 0" using n p by (simp add: nul_at_def)
  ultimately show ?thesis unfolding c_str_def by blast
qed

lemma eat_ws_nul: "nul_at b z \<Longrightarrow> p \<le> z \<Longrightarrow> eat_ws b p \<le> z"
proof (induction b p rule: eat_ws.induct)
  case (1 b p)
  then show ?case using nul_next [of b z p] by (subst eat_ws.simps) auto
qed

lemma scan_esc_nul: "nul_at b z \<Longrightarrow> p \<le> z \<Longrightarrow> IS_ESC (chr b p) \<Longrightarrow> scan_esc b p \<le> z"
  using nul_next [of b z p] nul_next [of b z "Suc p"] by (simp add: scan_esc_def)

lemma eat_alpha_numeric_nul: "nul_at b z \<Longrightarrow> p \<le> z \<Longrightarrow> eat_alpha_numeric b p \<le> z"
proof (induction b p rule: eat_alpha_numeric.induct)
  case (1 b p)
  then show ?case using class_next(3) [of b z p] scan_esc_nul [of b z p] by (subst eat_alpha_numeric.simps) auto
qed

lemma scan_quote_nul:
  assumes "nul_at b z" and "p \<le> z" and "IS_QUOTE (chr b p)"
  shows "scan_quote b p \<le> z"
proof -
  have l: "snd (scan_quote_loop b q p) \<le> z" if "nul_at b z" "p \<le> z" for q p
    using that
  proof (induction b q p rule: scan_quote_loop.induct)
    case (1 b q p)
    then show ?case using nul_next [of b z p] nul_next [of b z "Suc p"]
      by (subst scan_quote_loop.simps) (auto simp del: is_eof_iff simp: is_eof_iff [symmetric])
  qed
  have q: "chr b p \<noteq> 0" using assms(3) by (metis no_class_zero(2))
  have "Suc p \<le> z" using class_next(2) assms by blast
  from l [OF assms(1) this, of "chr b p"] q show ?thesis
    using nul_next [OF assms(1)] by (auto simp: scan_quote_def Let_def split: prod.split bool.split)
qed

lemma to_eof_nul: "nul_at b z \<Longrightarrow> p \<le> z \<Longrightarrow> to_eof b p \<le> z \<and> p \<le> to_eof b p \<and> eat_ws b p \<le> to_eof b p \<and> chr b (to_eof b p) = 0"
proof (induction b p rule: to_eof.induct)
  case (1 b p)
  show ?case
  proof (cases "chr b p = 0")
    case True
    then show ?thesis using 1(3) by (subst (1 2 3 4) to_eof.simps, subst eat_ws.simps) simp
  next
    case False
    then have e: "to_eof b p = to_eof b (Suc p)" by (subst to_eof.simps) simp
    have "eat_ws b p \<le> max p (eat_ws b (Suc p))" by (subst eat_ws.simps) simp
    then show ?thesis using 1(1) [of] 1(2,3) False nul_next [of b z p] e by auto
  qed
qed

lemma trim_ws_found:
  "k \<le> q \<Longrightarrow> \<not> IS_WS (chr b k) \<or> k = start \<Longrightarrow> \<exists>r. trim_ws b start q = Some r \<and> k \<le> r \<and> r \<le> q"
proof (induction b start q rule: trim_ws.induct)
  case (2 b start p)
  then show ?case by (cases "k = Suc p") auto
qed auto

lemma clear_fcomment_eq: "clear_fcomment b p = Inr (eat_ws b p)"
  by (induction b p rule: clear_fcomment.induct) (subst clear_fcomment.simps, subst eat_ws.simps, auto)

lemma clear_comments_nul:
  assumes "nul_at b z" and "p \<le> z"
  shows "nul_at (clear_comments b p) z \<and> length (clear_comments b p) = length b"
proof -
  have l: "nul_at (clear_comment_loop b p) z \<and> length (clear_comment_loop b p) = length b" if "nul_at b z" "p \<le> z" for p
    using that
  proof (induction b p rule: clear_comment_loop.induct)
    case (1 b p)
    then show ?case using nul_next [of b z p] scan_quote_nul [of b z p] scan_esc_nul [of b z p] nul_upd [of b z p]
      by (subst (1 2) clear_comment_loop.simps) auto
  qed
  show ?thesis using l [OF assms(1) eat_ws_nul [OF assms]] by (simp add: clear_comments_def clear_fcomment_eq)
qed

section \<open>Splitting a line\<close>

lemma split_line_ok:
  assumes z: "nul_at b z" "s \<le> z"
  shows "\<exists>r. split_line b s = Some r \<and>
    (case r of
       Inl b' \<Rightarrow> length b' = length b
     | Inr (psection, pname, start, b') \<Rightarrow>
         length b' = length b \<and> nul_at b' z \<and> pname \<le> z \<and> start \<le> z \<and> (\<forall>k. psection = Some k \<longrightarrow> k \<le> z))"
proof -
  let ?e = "eat_alpha_numeric b s"
  define colon where "colon \<longleftrightarrow> chr b ?e = 58 \<and> chr b (?e + 1) = 58"
  define b1 where "b1 = (if colon then b[?e := 0] else b)"
  define pn where "pn = (if colon then ?e + 2 else s)"
  define e where "e = (if colon then eat_alpha_numeric b1 (?e + 2) else ?e)"
  define ps where "ps = (if colon then Some s else None)"
  have e0: "?e \<le> z" using eat_alpha_numeric_nul [OF z] .
  have b1: "nul_at b1 z" "length b1 = length b" using nul_upd [OF z(1)] z(1) by (auto simp: b1_def)
  have c2: "colon \<Longrightarrow> ?e + 2 \<le> z" using nul_next [OF z(1) e0] nul_next [OF z(1), of "Suc ?e"] by (auto simp: colon_def)
  have pn: "pn \<le> z" using c2 z(2) by (simp add: pn_def)
  have e: "e \<le> z" using eat_alpha_numeric_nul [OF b1(1)] c2 e0 by (simp add: e_def)
  let ?p = "eat_ws b1 e"
  have p: "?p \<le> z" using eat_ws_nul [OF b1(1) e] .
  have parts: "(if chr b ?e = 58 \<and> chr b (?e + 1) = 58
      then (b[?e := 0], Some s, ?e + 2, eat_alpha_numeric (b[?e := 0]) (?e + 2)) else (b, None, s, ?e)) = (b1, ps, pn, e)"
    unfolding colon_def [symmetric] by (simp add: b1_def ps_def pn_def e_def)
  have split: "split_line b s = (if chr b1 ?p \<noteq> 61 then Some (Inl b1)
     else (case trim_ws (b1[e := 0]) (eat_ws (b1[e := 0]) (?p + 1)) (to_eof (b1[e := 0]) (?p + 1) - 1) of
             None \<Rightarrow> None
           | Some q \<Rightarrow> Some (Inr (ps, pn, eat_ws (b1[e := 0]) (?p + 1), b1[e := 0, q + 1 := 0]))))"
    unfolding split_line_def Let_def parts prod.case by (rule if_cong [OF refl refl refl])
  show ?thesis
  proof (cases "chr b1 ?p = 61")
    case False
    then show ?thesis using split b1(2) by simp
  next
    case True
    let ?b2 = "b1[e := 0]"
    have b2: "nul_at ?b2 z" "length ?b2 = length b" using nul_upd [OF b1(1)] b1(2) by simp_all
    have p1: "?p + 1 \<le> z" using nul_next [OF b1(1) p] True by simp
    note eof = to_eof_nul [OF b2(1) p1]
    have "\<not> IS_WS (chr ?b2 ?p)" using True by (cases "e = ?p") (auto simp: chr_def is_ws_iff nth_list_update split: if_splits)
    moreover have "?p \<le> to_eof ?b2 (?p + 1) - 1" using eof by linarith
    ultimately obtain q where q: "trim_ws ?b2 (eat_ws ?b2 (?p + 1)) (to_eof ?b2 (?p + 1) - 1) = Some q" "q \<le> to_eof ?b2 (?p + 1) - 1"
      using trim_ws_found [of ?p "to_eof ?b2 (?p + 1) - 1" ?b2 "eat_ws ?b2 (?p + 1)"] by blast
    have "nul_at (?b2[q + 1 := 0]) z" using nul_upd [OF b2(1)] .
    then show ?thesis using split True q(1) eof b2(2) pn z(2) by (auto simp: ps_def)
  qed
qed

section \<open>The name of a section\<close>

text \<open>The name in a section's brackets has no quotes, and every dollar sign in it is escaped, so
  that \<open>str_copy\<close> never looks for a variable in it, and does not need the section it is called
  with.\<close>

fun closed_text :: "u8 list \<Rightarrow> bool" where
  "closed_text [] = True"
| "closed_text (c # s) =
     (if c = 92 then (case s of [] \<Rightarrow> False | v # s \<Rightarrow> closed_text s)
      else \<not> IS_QUOTE c \<and> c \<noteq> 36 \<and> closed_text s)"

lemma closed_append: "closed_text a \<Longrightarrow> closed_text b \<Longrightarrow> closed_text (a @ b)"
  by (induction a rule: closed_text.induct) (auto split: list.splits)

lemma punct_plain: "IS_ALPHA_NUMERIC_PUNCT a \<Longrightarrow> \<not> IS_QUOTE a \<and> a \<noteq> 36"
  unfolding IS_ALPHA_NUMERIC_PUNCT_def is_quote_iff insert_iff empty_iff by (erule is_type_all [rotated]) code_simp

lemma ws_plain: "IS_WS a \<Longrightarrow> a \<noteq> 92 \<and> \<not> IS_QUOTE a \<and> a \<noteq> 36 \<and> a \<noteq> 0"
  by (auto simp: is_ws_iff is_quote_iff)

lemma eat_alpha_numeric_text:
  "drop p b = s @ 0 # y \<Longrightarrow> 0 \<notin> set s \<Longrightarrow> \<exists>w r. s = w @ r \<and> eat_alpha_numeric b p = p + length w \<and> (closed_text w \<or> r = [])"
proof (induction "length s" arbitrary: s p rule: less_induct)
  case less
  show ?case
  proof (cases s)
    case Nil
    then have "chr b p = 0" using chr_drop(1) [of p b 0 y] less(2) by simp
    then show ?thesis using Nil by (subst eat_alpha_numeric.simps) simp
  next
    case (Cons c s')
    have d: "drop p b = c # s' @ 0 # y" using less(2) Cons by simp
    note c = chr_drop [OF d]
    have nz: "c \<noteq> 0" "0 \<notin> set s'" using less(3) Cons by auto
    consider (escnil) "c = 92" "s' = []" | (esc) v s2 where "c = 92" "s' = v # s2" | (punct) "IS_ALPHA_NUMERIC_PUNCT c" "c \<noteq> 92"
      | (stop) "\<not> IS_ALPHA_NUMERIC_PUNCT c" "c \<noteq> 92" by (cases s') auto
    then show ?thesis
    proof cases
      case escnil
      have n: "chr b (Suc p) = 0" using chr_drop(1) [of "Suc p" b 0 y] c(2) escnil by simp
      then have "eat_alpha_numeric b (Suc p) = Suc p" by (subst eat_alpha_numeric.simps) simp
      then have "eat_alpha_numeric b p = Suc p"
        using escnil(1) c(1) n by (subst eat_alpha_numeric.simps) (simp add: scan_esc_def)
      then show ?thesis using Cons escnil by (intro exI [of _ s] exI [of _ "[]"]) simp
    next
      case esc
      have d': "drop (Suc p) b = v # s2 @ 0 # y" using c(2) esc by simp
      note v = chr_drop [OF d']
      have "v \<noteq> 0" "0 \<notin> set s2" using nz esc by auto
      with less(1) [OF _ v(2)] esc Cons obtain w r where w: "s2 = w @ r"
        "eat_alpha_numeric b (Suc (Suc p)) = Suc (Suc p) + length w" "closed_text w \<or> r = []" by auto
      have "eat_alpha_numeric b p = eat_alpha_numeric b (Suc (Suc p))"
        using esc(1) c(1) v(1) \<open>v \<noteq> 0\<close> by (subst eat_alpha_numeric.simps) (simp add: scan_esc_def)
      then show ?thesis using w esc Cons by (intro exI [of _ "c # v # w"] exI [of _ r]) auto
    next
      case punct
      with less(1) [OF _ c(2) nz(2)] Cons obtain w r where w: "s' = w @ r"
        "eat_alpha_numeric b (Suc p) = Suc p + length w" "closed_text w \<or> r = []" by auto
      have "eat_alpha_numeric b p = eat_alpha_numeric b (Suc p)"
        using punct c(1) by (subst eat_alpha_numeric.simps) simp
      then show ?thesis using w punct Cons punct_plain [OF punct(1)] by (intro exI [of _ "c # w"] exI [of _ r]) auto
    next
      case stop
      then have "eat_alpha_numeric b p = p" using c(1) by (subst eat_alpha_numeric.simps) simp
      then show ?thesis by (intro exI [of _ "[]"] exI [of _ s]) simp
    qed
  qed
qed

lemma eat_ws_text:
  "drop p b = s @ 0 # y \<Longrightarrow> \<exists>w r. s = w @ r \<and> eat_ws b p = p + length w \<and> closed_text w"
proof (induction s arbitrary: p)
  case Nil
  then have "chr b p = 0" using chr_drop(1) [of p b 0 y] by simp
  then show ?case by (subst eat_ws.simps) simp
next
  case (Cons c s)
  have d: "drop p b = c # s @ 0 # y" using Cons(2) by simp
  note c = chr_drop [OF d]
  show ?case
  proof (cases "IS_WS c")
    case True
    then have "eat_ws b p = eat_ws b (Suc p)" using ws_plain [OF True] c(1) by (subst eat_ws.simps) simp
    moreover obtain w r where "s = w @ r" "eat_ws b (Suc p) = Suc p + length w" "closed_text w" using Cons(1) [OF c(2)] by blast
    ultimately show ?thesis using ws_plain [OF True] by (intro exI [of _ "c # w"] exI [of _ r]) simp
  next
    case False
    then have "eat_ws b p = p" using c(1) by (subst eat_ws.simps) simp
    then show ?thesis by (intro exI [of _ "[]"] exI [of _ "c # s"]) simp
  qed
qed

lemma section_end_text:
  "section_end b p = Some e \<Longrightarrow> drop p b = s @ 0 # y \<Longrightarrow> 0 \<notin> set s \<Longrightarrow>
     \<exists>w r. s = w @ r \<and> e = p + length w \<and> closed_text w"
proof (induction b p arbitrary: s e rule: section_end.induct)
  case (1 b p)
  let ?e = "eat_alpha_numeric b p" and ?p = "eat_ws b (eat_alpha_numeric b p)"
  obtain w r where w: "s = w @ r" "?e = p + length w" "closed_text w \<or> r = []"
    using eat_alpha_numeric_text [OF 1(3,4)] by blast
  have de: "drop ?e b = r @ 0 # y" using 1(3) w(1,2) by (metis add.commute append.assoc append_eq_conv_conj drop_drop)
  obtain v t where v: "r = v @ t" "?p = ?e + length v" "closed_text v" using eat_ws_text [OF de] by blast
  have dp: "drop ?p b = t @ 0 # y" using de v(1,2) by (metis add.commute append.assoc append_eq_conv_conj drop_drop)
  have nz: "chr b ?p \<noteq> 0"
    using 1(2) by (subst (asm) section_end.simps) (auto simp: Let_def split: if_splits)
  have "r \<noteq> []" using nz v dp chr_drop(1) [of ?p b 0 y] by auto
  then have cw: "closed_text w" using w(3) by simp
  show ?case
  proof (cases "chr b ?p = 93")
    case True
    then have "e = ?e" using 1(2) by (subst (asm) section_end.simps) (simp add: Let_def)
    then show ?thesis using w cw by auto
  next
    case False
    have pe: "section_end b ?p = Some e" and ne: "p \<noteq> ?p"
      using 1(2) False by (subst (asm) section_end.simps, simp add: Let_def split: if_splits)+
    have "0 \<notin> set t" using 1(4) w(1) v(1) by auto
    from 1(1) [OF refl refl False _ pe dp this] nz ne obtain w' r' where
      "t = w' @ r'" "e = ?p + length w'" "closed_text w'" by blast
    then show ?thesis using w(1,2) v cw closed_append by (intro exI [of _ "w @ v @ w'"] exI [of _ r']) auto
  qed
qed

lemma str_copy_loop_closed:
  "drop from b = s @ 0 # y \<Longrightarrow> 0 \<notin> set s \<Longrightarrow> closed_text s \<Longrightarrow>
     str_copy_loop m conf sect b from buf to = str_copy_loop m conf sect' b from buf to"
proof (induction "length s" arbitrary: s "from" buf to rule: less_induct)
  case less
  show ?case
  proof (cases s)
    case Nil
    then have "chr b from = 0" using chr_drop(1) [of "from" b 0 y] less(2) by simp
    then show ?thesis by (subst (1 2) str_copy_loop.simps) simp
  next
    case (Cons c s')
    have d: "drop from b = c # s' @ 0 # y" using less(2) Cons by simp
    note c = chr_drop [OF d]
    have nz: "0 \<notin> set s'" using less(3) Cons by auto
    show ?thesis
    proof (cases "c = 92")
      case True
      then obtain v s2 where v: "s' = v # s2" "closed_text s2" using less(4) Cons by (auto split: list.splits)
      then have d': "drop (Suc from) b = v # s2 @ 0 # y" using c(2) by simp
      note IH = less(1) [OF _ chr_drop(2) [OF d'] _ v(2)]
      show ?thesis using IH Cons v nz True c(1)
        by (subst (1 2) str_copy_loop.simps) (simp add: Let_def is_quote_iff split: option.split)
    next
      case False
      then have "\<not> IS_QUOTE c" "c \<noteq> 36" "closed_text s'" using less(4) Cons by auto
      then show ?thesis using less(1) [OF _ c(2) nz] Cons c(1) False
        by (subst (1 2) str_copy_loop.simps) (simp split: option.split)
    qed
  qed
qed

section \<open>Reading a line\<close>

text \<open>The section that is current.\<close>

definition current :: "conf \<Rightarrow> u8 list \<Rightarrow> CONF_VALUE \<Rightarrow> bool" where
  "current conf sect sv \<longleftrightarrow>
     c_string sect \<and> length (c_str sect) < 2 ^ 60 \<and> conf_typed (length (db_stacks conf)) sv \<and> conf_key sv = (Some (c_str sect), None)"

lemma current_mono: "current conf sect sv \<Longrightarrow> length (db_stacks conf) \<le> length (db_stacks conf') \<Longrightarrow> current conf' sect sv"
  by (auto simp: current_def intro: conf_typed_mono)

lemma c_string_split: "c_string z \<Longrightarrow> \<exists>y. z = c_str z @ 0 # y"
  by (induction z) (auto simp: c_string_def c_str_def)

lemma c_str_no_nul: "0 \<notin> set (c_str z)"
  by (auto simp: c_str_def dest: set_takeWhileD)

lemma str_copy_string:
  assumes h: "plenty h" and conf: "conf_inv p conf" and b: "c_string (drop from b)" "length (c_str (drop from b)) < INT_MAX"
  shows "case value_text conf sect (c_str (drop from b)) of
      None \<Rightarrow> \<exists>b'. str_copy (h_malloc h) conf (Some sect) b from = Some (None, b') \<and> length b' = length b
    | Some x \<Rightarrow> \<exists>data. str_copy (h_malloc h) conf (Some sect) b from = Some (Some data, b) \<and> c_string data \<and> c_str data = x \<and> length x < 2 ^ 60"
proof -
  obtain y where "drop from b = c_str (drop from b) @ 0 # y" using c_string_split [OF b(1)] by blast
  from str_copy_eq [OF h conf this c_str_no_nul b(2)] show ?thesis .
qed

text \<open>The name of a section is copied in any section.\<close>

lemma str_copy_closed:
  assumes "c_string (drop from b)" and "closed_text (c_str (drop from b))"
  shows "str_copy m conf None b from = str_copy m conf (Some sect) b from"
proof -
  obtain y where "drop from b = c_str (drop from b) @ 0 # y" using c_string_split [OF assms(1)] by blast
  note e = str_copy_loop_closed [OF this c_str_no_nul assms(2), of m conf None _ _ "Some sect"]
  show ?thesis unfolding str_copy_def e by (rule refl)
qed

text \<open>The section with a name, found or made.\<close>

lemma find_or_new_section:
  assumes h: "plenty h" and conf: "conf_inv p conf" and n: "db_objects conf < 2 ^ 59"
    and s: "c_string s" "length (c_str s) < 2 ^ 60"
  obtains v conf' where "Option.bind (get_section conf (Some s)) (\<lambda>found.
      case found of None \<Rightarrow> NCONF_new_section h conf s | Some v \<Rightarrow> Some (Some v, conf)) = Some (Some v, conf')"
    "conf_inv p conf'" "conf_typed (length (db_stacks conf')) v" "conf_key v = (Some (c_str s), None)"
    "length (db_stacks conf) \<le> length (db_stacks conf')" "db_objects conf \<le> db_objects conf'" "db_objects conf' \<le> Suc (db_objects conf)"
    "conf_string conf' = conf_string conf" "\<forall>x. (conf_map conf' x None \<noteq> None) = (x = c_str s \<or> conf_map conf x None \<noteq> None)"
proof (cases "conf_map conf (c_str s) None")
  case None
  from NCONF_new_section_ok [OF h conf n s] obtain v conf' where v: "NCONF_new_section h conf s = Some (Some v, conf')" "conf_inv p conf'"
    "conf_map conf' = (conf_map conf)(c_str s := (conf_map conf (c_str s))(None \<mapsto> v))"
    "conf_typed (length (db_stacks conf')) v" "conf_key v = (Some (c_str s), None)"
    "db_objects conf' = Suc (db_objects conf)" "length (db_stacks conf) \<le> length (db_stacks conf')" by blast
  show ?thesis
    by (rule that [of v conf']) (use v None in \<open>auto simp: get_section_ok [OF conf] conf_string_def fun_eq_iff\<close>)
next
  case (Some v)
  show ?thesis
    by (rule that [of v conf]) (use Some conf_ok_typed [OF conf Some] conf in \<open>auto simp: get_section_ok [OF conf]\<close>)
qed

lemma section_line_ok:
  assumes h: "plenty h" and conf: "conf_inv 0 conf" and n: "db_objects conf < 2 ^ 59" and cur: "current conf sect sv"
    and z: "nul_at b z" "s < z" "z < INT_MAX"
  shows "\<exists>ok conf' sect' sv' b'. section_line h conf sect sv b s = Some (ok, conf', sect', sv', b') \<and> conf_inv 0 conf' \<and>
    current conf' sect' sv' \<and> length b' = length b \<and> db_objects conf' \<le> Suc (db_objects conf)"
proof -
  let ?start = "eat_ws b (s + 1)"
  have st: "?start \<le> z" using eat_ws_nul [OF z(1)] z(2) by simp
  show ?thesis
  proof (cases "section_end b ?start")
    case None
    then show ?thesis using conf cur by (auto simp: section_line_def Let_def)
  next
    case (Some e)
    obtain y where y: "drop ?start b = c_str (drop ?start b) @ 0 # y" using c_string_split [OF nul_string [OF z(1) st]] by blast
    from section_end_text [OF Some this c_str_no_nul] obtain w r where
      w: "c_str (drop ?start b) = w @ r" "e = ?start + length w" "closed_text w" by blast
    let ?b = "b[e := 0]"
    have nw: "0 \<notin> set w" using w(1) c_str_no_nul [of "drop ?start b"] by auto
    have "drop ?start ?b = (drop ?start b)[length w := 0]" using w(2) by (simp add: drop_update_swap)
    also have "\<dots> = w @ 0 # tl (r @ 0 # y)"
      unfolding y [unfolded w(1)] by (cases "r @ 0 # y") (auto simp: list_update_append Cons_eq_append_conv)
    finally have d: "drop ?start ?b = w @ 0 # tl (r @ 0 # y)" .
    have cs: "c_string (drop ?start ?b)" "c_str (drop ?start ?b) = w" unfolding d by (simp_all add: c_string_def c_str_append [OF nw])
    have "length w \<le> z" using nul_length [OF z(1) st] w(1) by simp
    then have "length (c_str (drop ?start ?b)) < INT_MAX" using cs(2) z(3) by simp
    note copy = str_copy_string [OF h conf cs(1) this, of "[]", unfolded cs(2)]
    have nosec: "str_copy (h_malloc h) conf None ?b ?start = str_copy (h_malloc h) conf (Some []) ?b ?start"
      using str_copy_closed [OF cs(1)] w(3) cs(2) by simp
    show ?thesis
    proof (cases "value_text conf [] w")
      case None
      then show ?thesis using copy nosec Some conf cur by (auto simp: section_line_def Let_def)
    next
      case (Some x)
      then obtain data where data: "str_copy (h_malloc h) conf None ?b ?start = Some (Some data, ?b)"
        "c_string data" "c_str data = x" "length x < 2 ^ 60" using copy nosec by auto
      have lx: "length (c_str data) < 2 ^ 60" using data by simp
      obtain v conf' where v: "Option.bind (get_section conf (Some data)) (\<lambda>found.
          case found of None \<Rightarrow> NCONF_new_section h conf data | Some v \<Rightarrow> Some (Some v, conf)) = Some (Some v, conf')"
        "conf_inv 0 conf'" "conf_typed (length (db_stacks conf')) v" "conf_key v = (Some (c_str data), None)"
        "db_objects conf' \<le> Suc (db_objects conf)"
        by (rule find_or_new_section [OF h conf n data(2) lx])
      have "section_line h conf sect sv b s = Some (True, conf', data, v, ?b)"
        using \<open>section_end b ?start = Some e\<close> data(1) v(1)
        by (auto simp: section_line_def Let_def bind_eq_Some_conv)
      then show ?thesis using v data(2) lx by (auto simp: current_def)
    qed
  qed
qed

lemma abandon_ok: "conf_inv (Suc p) conf \<Longrightarrow> conf_inv p (abandon v conf) \<and> db_objects (abandon v conf) = db_objects conf \<and>
    db_stacks (abandon v conf) = db_stacks conf"
  by (simp add: abandon_def conf_inv_less)

text \<open>From the name and the value on: the value is made, copied and added.\<close>

lemma assign_line_ok:
  assumes h: "plenty h" and conf: "conf_inv 0 conf" and n: "db_objects conf < 2 ^ 50" and cur: "current conf sect sv"
    and z: "nul_at b z" "s \<le> z" "z < INT_MAX"
  shows "\<exists>ok conf' b'. assign_line h conf sect sv b s = Some (ok, conf', b') \<and> conf_inv 0 conf' \<and>
    length (db_stacks conf) \<le> length (db_stacks conf') \<and> length b' = length b \<and> db_objects conf' \<le> db_objects conf + 2"
proof -
  obtain r where r: "split_line b s = Some r" and rr: "case r of
       Inl b' \<Rightarrow> length b' = length b
     | Inr (psection, pname, start, b') \<Rightarrow>
         length b' = length b \<and> nul_at b' z \<and> pname \<le> z \<and> start \<le> z \<and> (\<forall>k. psection = Some k \<longrightarrow> k \<le> z)"
    using split_line_ok [OF z(1,2)] by blast
  show ?thesis
  proof (cases r)
    case (Inl b')
    then show ?thesis using r rr conf by (auto simp: assign_line_def)
  next
    case (Inr t)
    obtain psection pname start b1 where t: "t = (psection, pname, start, b1)" by (cases t) auto
    have b1: "length b1 = length b" "nul_at b1 z" "pname \<le> z" "start \<le> z" "\<And>k. psection = Some k \<Longrightarrow> k \<le> z"
      using rr Inr t by simp_all
    note split = r [unfolded Inr t]
    let ?psect = "case psection of None \<Rightarrow> sect | Some k \<Rightarrow> drop k b1"
    have ps: "c_string ?psect" "length (c_str ?psect) < 2 ^ 60"
    proof -
      have "length (c_str (drop k b1)) < 2 ^ 60" if "k \<le> z" for k
        using nul_length [OF b1(2) that] z(3) by (simp add: INT_MAX_def)
      then show "c_string ?psect" "length (c_str ?psect) < 2 ^ 60"
        using cur nul_string [OF b1(2)] b1(5) by (auto simp: current_def split: option.split)
    qed
    let ?name = "c_str (drop pname b1) @ [0]"
    have "length (c_str (drop pname b1)) < 2 ^ 61" using nul_length [OF b1(2,3)] z(3) by (simp add: INT_MAX_def)
    note name = strdup_string [OF h nul_string [OF b1(2,3)] this]
    from CONF_VALUE_new_ok [OF h conf] obtain conf1 where new:
      "CONF_VALUE_new h conf = (Some \<lparr>cv_ptr = db_objects conf, cv_section = None, cv_name = None, cv_value = Null\<rparr>, conf1)"
      "conf_inv (Suc 0) conf1" "db_stacks conf1 = db_stacks conf" "db_objects conf1 = Suc (db_objects conf)" by blast
    let ?v = "\<lparr>cv_ptr = db_objects conf, cv_section = None, cv_name = Some ?name, cv_value = Null\<rparr>"
    have st: "c_string (drop start b1)" "length (c_str (drop start b1)) < INT_MAX"
      using nul_string [OF b1(2,4)] nul_length [OF b1(2,4)] z(3) by simp_all
    note copy = str_copy_string [OF h new(2) st, of ?psect]
    show ?thesis
    proof (cases "value_text conf1 ?psect (c_str (drop start b1))")
      case None
      then obtain b' where "str_copy (h_malloc h) conf1 (Some ?psect) b1 start = Some (None, b')" "length b' = length b1" using copy by auto
      then have "assign_line h conf sect sv b s = Some (False, abandon ?v conf1, b')" "length b' = length b"
        using b1(1) by (simp_all add: assign_line_def split new(1) Let_def name)
      then show ?thesis using abandon_ok [OF new(2), of ?v] new(3,4) by auto
    next
      case (Some x)
      then obtain data where data: "str_copy (h_malloc h) conf1 (Some ?psect) b1 start = Some (Some data, b1)"
        "c_string data" "c_str data = x" "length x < 2 ^ 60" using copy by auto
      let ?w = "?v\<lparr>cv_value := Text data\<rparr>"
      let ?find = "if c_strcmp ?psect sect \<noteq> 0
        then Option.bind (get_section conf1 (Some ?psect)) (\<lambda>found.
          case found of None \<Rightarrow> NCONF_new_section h conf1 ?psect | Some v \<Rightarrow> Some (Some v, conf1))
        else Some (Some sv, conf1)"
      have n1: "db_objects conf1 < 2 ^ 59" using n new(4) by simp
      obtain tv conf2 where tv: "?find = Some (Some tv, conf2)" "conf_inv (Suc 0) conf2" "conf_typed (length (db_stacks conf2)) tv"
        "conf_key tv = (Some (c_str ?psect), None)" "length (db_stacks conf1) \<le> length (db_stacks conf2)"
        "db_objects conf2 \<le> Suc (db_objects conf1)"
      proof (cases "c_strcmp ?psect sect = 0")
        case True
        then show ?thesis using that [of sv conf1] cur new(2,3) by (simp add: current_def c_strcmp_zero)
      next
        case False
        obtain v conf' where "Option.bind (get_section conf1 (Some ?psect)) (\<lambda>found.
            case found of None \<Rightarrow> NCONF_new_section h conf1 ?psect | Some v \<Rightarrow> Some (Some v, conf1)) = Some (Some v, conf')"
          "conf_inv (Suc 0) conf'" "conf_typed (length (db_stacks conf')) v" "conf_key v = (Some (c_str ?psect), None)"
          "length (db_stacks conf1) \<le> length (db_stacks conf')" "db_objects conf' \<le> Suc (db_objects conf1)"
          by (rule find_or_new_section [OF h new(2) n1 ps])
        then show ?thesis using that [of v conf'] False by simp
      qed
      have n2: "db_objects conf2 < 2 ^ 55" using tv(6) new(4) n by simp
      have w: "cv_name ?w = Some ?name" "c_string ?name" "cv_value ?w = Text data" "length (c_str data) < 2 ^ 60"
        using data by (simp_all add: c_string_def)
      from add_string_ok [OF h tv(2) n2 tv(3,4) w(1-3) data(2) w(4)] obtain conf3 where add:
        "add_string h conf2 tv ?w = Some (True, ?w\<lparr>cv_section := Some (c_str ?psect @ [0])\<rparr>, conf3)" "conf_inv 0 conf3"
        "db_objects conf3 = db_objects conf2" "length (db_stacks conf3) = length (db_stacks conf2)" by blast
      have "assign_line h conf sect sv b s = Some (True, conf3, b1)"
        using tv(1) add(1) by (simp add: assign_line_def split new(1) Let_def name data(1) cong: if_cong)
      then show ?thesis using add(2-4) tv(5,6) new(3,4) b1(1) by auto
    qed
  qed
qed

text \<open>Every line is read, and leaves the database and the current section in order.\<close>

lemma load_line_ok:
  assumes h: "plenty h" and conf: "conf_inv 0 conf" and n: "db_objects conf < 2 ^ 50" and cur: "current conf sect sv"
    and z: "nul_at b z" "z < INT_MAX"
  shows "\<exists>ok conf' sect' sv' b'. load_line h conf sect sv b = Some (ok, conf', sect', sv', b') \<and> conf_inv 0 conf' \<and>
    current conf' sect' sv' \<and> length b' = length b \<and> db_objects conf' \<le> db_objects conf + 2"
proof -
  let ?b = "clear_comments b 0"
  have b: "nul_at ?b z" "length ?b = length b" using clear_comments_nul [OF z(1)] by auto
  let ?s = "eat_ws ?b 0"
  have s: "?s \<le> z" using eat_ws_nul [OF b(1)] by simp
  consider (blank) "chr ?b ?s = 0" | (header) "chr ?b ?s = 91" | (assign) "chr ?b ?s \<noteq> 0" "chr ?b ?s \<noteq> 91" by blast
  then show ?thesis
  proof cases
    case blank
    then show ?thesis using conf cur b(2) by (auto simp: load_line_def Let_def)
  next
    case header
    have lt: "?s < z" using nul_next [OF b(1) s] header by simp
    have "db_objects conf < 2 ^ 59" using n by simp
    from section_line_ok [OF h conf this cur b(1) lt z(2)] show ?thesis
      using header b(2) by (auto simp: load_line_def Let_def)
  next
    case assign
    from assign_line_ok [OF h conf n cur b(1) s z(2)] obtain ok conf' b' where
      "assign_line h conf sect sv ?b ?s = Some (ok, conf', b')" "conf_inv 0 conf'"
      "length (db_stacks conf) \<le> length (db_stacks conf')" "length b' = length ?b" "db_objects conf' \<le> db_objects conf + 2" by blast
    then show ?thesis using assign b(2) current_mono [OF cur] by (auto simp: load_line_def Let_def)
  qed
qed

end
