(* ===== verification/Line_Source.thy ===== *)
theory Line_Source
  imports Prelude
begin

text \<open>
  Sources of text that are read line by line (\<open>BIO_gets\<close>): the interface that the
  configuration loader uses.
\<close>

text \<open>The bytes up to and including the first newline.\<close>

fun line_length :: "u8 list \<Rightarrow> nat" where
  "line_length [] = 0"
| "line_length (c # p) = (if c = 10 then 1 else Suc (line_length p))"

text \<open>What a reader of lines gives with a buffer of \<open>n\<close> bytes.\<close>

definition piece :: "nat \<Rightarrow> u8 list \<Rightarrow> u8 list" where
  "piece n x = take (line_length (take (n - 1) x)) x"

lemma line_length_le: "line_length x \<le> length x"
  by (induction x) auto

lemma piece_length: "length (piece n x) \<le> n - 1" "length (piece n x) \<le> length x"
  using line_length_le [of "take (n - 1) x"] by (auto simp: piece_def)

lemma piece_empty: "1 < n \<Longrightarrow> piece n x = [] \<longleftrightarrow> x = []"
  by (cases x) (auto simp: piece_def take_Cons split: nat.splits)

text \<open>\<open>gets s n\<close> gives the bytes stored in a buffer of \<open>n\<close> bytes; \<open>rest\<close> is the text that is
  left to read.\<close>

locale line_source =
  fixes gets :: "'s \<Rightarrow> nat \<Rightarrow> u8 list \<times> 's" and rest :: "'s \<Rightarrow> u8 list" and valid :: "'s \<Rightarrow> bool"
  assumes gets_piece: "valid s \<Longrightarrow> 1 < n \<Longrightarrow> n < 2 ^ 31 \<Longrightarrow> fst (gets s n) = piece n (rest s) @ [0]"
    and gets_rest: "valid s \<Longrightarrow> 1 < n \<Longrightarrow> n < 2 ^ 31 \<Longrightarrow> rest (snd (gets s n)) = drop (length (piece n (rest s))) (rest s)"
    and gets_valid: "valid s \<Longrightarrow> 1 < n \<Longrightarrow> n < 2 ^ 31 \<Longrightarrow> valid (snd (gets s n))"

end
