(* ===== verification/Bio_Mem.thy ===== *)
theory Bio_Mem
  imports Buf_Mem Line_Source
begin

text \<open>
  Memory BIOs: \<open>crypto/bio/bio_mem.c\<close> and the functions of \<open>crypto/bio/bio.c\<close> that read and
  write through them. The data pointer of a read-only BIO moves through memory of the
  caller's; \<open>bm_data\<close> is the memory from the pointer on.
\<close>

section \<open>State and operations\<close>

record BIO =
  bio_init :: bool
  bio_shutdown :: bool
  bio_flags :: u32
  bio_retry_reason :: int
  bio_num :: int
  bio_ptr :: BUF_MEM
  bio_num_read :: nat
  bio_num_write :: nat

definition sizeof_BIO :: nat where "sizeof_BIO = 80"
definition BIO_FLAGS_READ :: u32 where "BIO_FLAGS_READ = 0x01"
definition BIO_FLAGS_WRITE :: u32 where "BIO_FLAGS_WRITE = 0x02"
definition BIO_FLAGS_IO_SPECIAL :: u32 where "BIO_FLAGS_IO_SPECIAL = 0x04"
definition BIO_FLAGS_SHOULD_RETRY :: u32 where "BIO_FLAGS_SHOULD_RETRY = 0x08"
definition BIO_FLAGS_MEM_RDONLY :: u32 where "BIO_FLAGS_MEM_RDONLY = 0x200"

definition BIO_FLAGS_RWS :: u32 where
  "BIO_FLAGS_RWS = BIO_FLAGS_READ OR BIO_FLAGS_WRITE OR BIO_FLAGS_IO_SPECIAL"

definition kRetryFlags :: u32 where
  "kRetryFlags = BIO_FLAGS_RWS OR BIO_FLAGS_SHOULD_RETRY"

definition BIO_clear_retry_flags :: "BIO \<Rightarrow> BIO" where
  "BIO_clear_retry_flags bio = bio\<lparr>bio_flags := bio_flags bio AND NOT kRetryFlags, bio_retry_reason := 0\<rparr>"

definition BIO_set_retry_read :: "BIO \<Rightarrow> BIO" where
  "BIO_set_retry_read bio = bio\<lparr>bio_flags := bio_flags bio OR BIO_FLAGS_READ OR BIO_FLAGS_SHOULD_RETRY\<rparr>"

definition rdonly :: "BIO \<Rightarrow> bool" where
  "rdonly bio \<longleftrightarrow> bio_flags bio AND BIO_FLAGS_MEM_RDONLY \<noteq> 0"

text \<open>\<open>BIO_new\<close> with the method for memory, whose \<open>create\<close> is \<open>mem_new\<close>.\<close>

definition BIO_new_mem :: "allocator \<Rightarrow> BIO option" where
  "BIO_new_mem m =
     (case OPENSSL_malloc m sizeof_BIO of
        None \<Rightarrow> None
      | Some _ \<Rightarrow>
          (case BUF_MEM_new m of
             None \<Rightarrow> None
           | Some b \<Rightarrow>
               Some \<lparr>bio_init = True, bio_shutdown = True, bio_flags = 0, bio_retry_reason = 0, bio_num = -1,
                     bio_ptr = b, bio_num_read = 0, bio_num_write = 0\<rparr>))"

text \<open>\<open>None\<close> is undefined: the length of NULL is taken before NULL is refused.\<close>

definition BIO_new_mem_buf :: "allocator \<Rightarrow> u8 list option \<Rightarrow> int \<Rightarrow> BIO option option" where
  "BIO_new_mem_buf m buf len =
     (if buf = None \<and> len < 0 then None
      else if buf = None \<and> len \<noteq> 0 then Some None
      else
        let data = (case buf of None \<Rightarrow> [] | Some data \<Rightarrow> data);
            sz = (if len < 0 then c_strlen data else nat len)
        in Some (case BIO_new_mem m of
                   None \<Rightarrow> None
                 | Some ret \<Rightarrow>
                     Some (ret\<lparr>bio_ptr := \<lparr>bm_length = sz, bm_data = data, bm_max = sz\<rparr>,
                               bio_flags := bio_flags ret OR BIO_FLAGS_MEM_RDONLY, bio_num := 0\<rparr>)))"

text \<open>The result, the bytes stored in the caller's buffer, and the BIO.\<close>

definition mem_read :: "BIO \<Rightarrow> int \<Rightarrow> int \<times> u8 list \<times> BIO" where
  "mem_read bio outl =
     (let bio = BIO_clear_retry_flags bio;
          b = bio_ptr bio;
          ret = (if bm_length b < INT_MAX \<and> outl > int (bm_length b) then int (bm_length b) else outl)
      in if ret > 0 then
           let len = bm_length b - nat ret;
               data = (if rdonly bio then drop (nat ret) (bm_data b)
                       else Prelude.mem_write 0 (take len (drop (nat ret) (bm_data b))) (bm_data b))
           in (ret, take (nat ret) (bm_data b), bio\<lparr>bio_ptr := b\<lparr>bm_length := len, bm_data := data\<rparr>\<rparr>)
         else if bm_length b = 0 then
           (bio_num bio, [], if bio_num bio \<noteq> 0 then BIO_set_retry_read bio else bio)
         else (ret, [], bio))"

definition bio_mem_write :: "allocator \<Rightarrow> BIO \<Rightarrow> u8 list \<Rightarrow> int \<Rightarrow> int \<times> BIO" where
  "bio_mem_write m bio inp inl =
     (if rdonly bio then (-1, bio)
      else
        let bio = BIO_clear_retry_flags bio;
            b = bio_ptr bio;
            blen = sint (word_of_nat (bm_length b) :: 32 word)
        in if int INT_MAX - blen < inl then (-1, bio)
           else case BUF_MEM_grow_clean m (nat (blen + inl)) b of
                  (n, b) \<Rightarrow>
                    if int n \<noteq> blen + inl then (-1, bio\<lparr>bio_ptr := b\<rparr>)
                    else (inl, bio\<lparr>bio_ptr := b\<lparr>bm_data :=
                            Prelude.mem_write (nat blen) (take (nat inl) inp) (bm_data b)\<rparr>\<rparr>))"

definition mem_gets :: "BIO \<Rightarrow> int \<Rightarrow> int \<times> u8 list \<times> BIO" where
  "mem_gets bio sz =
     (let bio = BIO_clear_retry_flags bio;
          b = bio_ptr bio;
          j = sint (word_of_nat (bm_length b) :: 32 word);
          j = (if sz - 1 < j then sz - 1 else j)
      in if j \<le> 0 then (0, if sz > 0 then [0] else [], bio)
         else case mem_read bio (int (line_length (take (nat j) (bm_data b)))) of
                (i, bs, bio) \<Rightarrow> (i, if i > 0 then bs @ [0] else bs, bio))"

definition BIO_read :: "BIO option \<Rightarrow> int \<Rightarrow> int \<times> u8 list \<times> BIO option" where
  "BIO_read bio len =
     (case bio of
        None \<Rightarrow> (-2, [], None)
      | Some bio \<Rightarrow>
          if \<not> bio_init bio then (-2, [], Some bio)
          else if len \<le> 0 then (0, [], Some bio)
          else case mem_read bio len of
                 (ret, bs, bio) \<Rightarrow>
                   (ret, bs, Some (if ret > 0 then bio\<lparr>bio_num_read := sz_add (bio_num_read bio) (nat ret)\<rparr> else bio)))"

definition BIO_gets :: "BIO option \<Rightarrow> int \<Rightarrow> int \<times> u8 list \<times> BIO option" where
  "BIO_gets bio len =
     (case bio of
        None \<Rightarrow> (-2, [], None)
      | Some bio \<Rightarrow>
          if \<not> bio_init bio then (-2, [], Some bio)
          else if len \<le> 0 then (0, [], Some bio)
          else case mem_gets bio len of
                 (ret, bs, bio) \<Rightarrow>
                   (ret, bs, Some (if ret > 0 then bio\<lparr>bio_num_read := sz_add (bio_num_read bio) (nat ret)\<rparr> else bio)))"

definition BIO_write :: "allocator \<Rightarrow> BIO option \<Rightarrow> u8 list \<Rightarrow> int \<Rightarrow> int \<times> BIO option" where
  "BIO_write m bio inp inl =
     (case bio of
        None \<Rightarrow> (-2, None)
      | Some bio \<Rightarrow>
          if \<not> bio_init bio then (-2, Some bio)
          else if inl \<le> 0 then (0, Some bio)
          else case bio_mem_write m bio inp inl of
                 (ret, bio) \<Rightarrow>
                   (ret, Some (if ret > 0 then bio\<lparr>bio_num_write := sz_add (bio_num_write bio) (nat ret)\<rparr> else bio)))"

text \<open>The argument of the configuration loader: the bytes that \<open>BIO_gets\<close> stores.\<close>

definition bio_gets :: "BIO option \<Rightarrow> nat \<Rightarrow> u8 list \<times> BIO option" where
  "bio_gets bio n = (case BIO_gets bio (int n) of (ret, bs, bio) \<Rightarrow> (bs, bio))"

section \<open>A queue of bytes\<close>

text \<open>What is in the BIO, and that it is in order.\<close>

definition bio_text :: "BIO option \<Rightarrow> u8 list" where
  "bio_text bio = (case bio of None \<Rightarrow> [] | Some b \<Rightarrow> contents (bio_ptr b))"

definition bio_ok :: "BIO option \<Rightarrow> bool" where
  "bio_ok bio \<longleftrightarrow>
     (case bio of
        None \<Rightarrow> False
      | Some b \<Rightarrow> bio_init b \<and> bm_length (bio_ptr b) \<le> length (bm_data (bio_ptr b)) \<and> bm_length (bio_ptr b) < INT_MAX)"

lemma sint32_nat: "n < INT_MAX \<Longrightarrow> sint (word_of_nat n :: 32 word) = int n"
  by (simp add: INT_MAX_def signed_of_nat signed_take_bit_int_eq_self)

lemma clear_retry [simp]:
  "bio_ptr (BIO_clear_retry_flags bio) = bio_ptr bio" "bio_init (BIO_clear_retry_flags bio) = bio_init bio"
  by (simp_all add: BIO_clear_retry_flags_def)

text \<open>A read takes bytes from the front.\<close>

lemma mem_read_front:
  assumes ok: "bio_ok (Some b)" and n: "0 < n" "n \<le> length (bio_text (Some b))"
  shows "\<exists>b'. mem_read b (int n) = (int n, take n (bio_text (Some b)), b') \<and> bio_ok (Some b') \<and> bio_text (Some b') = drop n (bio_text (Some b))"
proof -
  let ?m = "bio_ptr b"
  have len: "bm_length ?m \<le> length (bm_data ?m)" "bm_length ?m < INT_MAX" "bio_init b" using ok by (simp_all add: bio_ok_def)
  have t: "bio_text (Some b) = take (bm_length ?m) (bm_data ?m)" "length (bio_text (Some b)) = bm_length ?m"
    using len(1) by (simp_all add: bio_text_def contents_def)
  have le: "n \<le> bm_length ?m" using n(2) t(2) by simp
  let ?len = "bm_length ?m - n" and ?c = "BIO_clear_retry_flags b"
  let ?data = "if rdonly ?c then drop n (bm_data ?m) else Prelude.mem_write 0 (take ?len (drop n (bm_data ?m))) (bm_data ?m)"
  have r: "mem_read b (int n) = (int n, take n (bm_data ?m), ?c\<lparr>bio_ptr := ?m\<lparr>bm_length := ?len, bm_data := ?data\<rparr>\<rparr>)"
    using n(1) le by (simp add: mem_read_def Let_def nat_diff_distrib)
  have l: "take ?len ?data = drop n (take (bm_length ?m) (bm_data ?m))" "?len \<le> length ?data"
    using len(1) le by (auto simp: mem_write_def take_drop)
  show ?thesis using r l len t le by (simp add: bio_ok_def bio_text_def contents_def min_def)
qed

lemma bio_gets_piece:
  assumes ok: "bio_ok bio" and n: "1 < n" "n < 2 ^ 31"
  shows "\<exists>bio'. bio_gets bio n = (piece n (bio_text bio) @ [0], bio') \<and> bio_ok bio' \<and> bio_text bio' = drop (length (piece n (bio_text bio))) (bio_text bio)"
proof -
  obtain b where b: "bio = Some b" using ok by (cases bio) (auto simp: bio_ok_def)
  let ?m = "bio_ptr b" and ?x = "bio_text bio"
  have init: "bio_init b" and len: "bm_length ?m \<le> length (bm_data ?m)" "bm_length ?m < INT_MAX" using ok b by (simp_all add: bio_ok_def)
  have x: "?x = take (bm_length ?m) (bm_data ?m)" "length ?x = bm_length ?m" using len(1) b by (simp_all add: bio_text_def contents_def)
  have s: "sint (word_of_nat (bm_length ?m) :: 32 word) = int (bm_length ?m)" by (rule sint32_nat [OF len(2)])
  let ?j = "min (n - 1) (bm_length ?m)"
  have j: "(if int n - 1 < int (bm_length ?m) then int n - 1 else int (bm_length ?m)) = int ?j" using n(1) by auto
  have tk: "take ?j (bm_data ?m) = take (n - 1) ?x" unfolding x(1) by (simp add: min.commute)
  show ?thesis
  proof (cases "bm_length ?m = 0")
    case True
    then have "?x = []" using x(2) by simp
    moreover have "mem_gets b (int n) = (0, [0], BIO_clear_retry_flags b)"
      using True n(1) s by (simp add: mem_gets_def Let_def)
    ultimately show ?thesis
      using b init n(1) True ok by (simp add: bio_gets_def BIO_gets_def piece_def bio_ok_def bio_text_def contents_def)
  next
    case False
    then have xe: "?x \<noteq> []" using x(2) by auto
    let ?i = "length (piece n ?x)"
    have i: "line_length (take (n - 1) ?x) = ?i"
      using line_length_le [of "take (n - 1) ?x"] by (simp add: piece_def)
    have pos: "0 < ?i" "?i \<le> length ?x" using piece_empty [OF n(1), of ?x] xe piece_length(2) by auto
    have "take ?i ?x = piece n ?x" using i by (simp add: piece_def)
    with mem_read_front [OF ok [unfolded b] pos [unfolded b]] obtain b' where
      r: "mem_read b (int ?i) = (int ?i, piece n ?x, b')" "bio_ok (Some b')" "bio_text (Some b') = drop ?i ?x" unfolding b by auto
    have "mem_read (BIO_clear_retry_flags b) k = mem_read b k" for k
      by (simp add: mem_read_def BIO_clear_retry_flags_def Let_def)
    then have "mem_gets b (int n) = (int ?i, piece n ?x @ [0], b')"
      using r(1) pos(1) False n(1) unfolding mem_gets_def Let_def clear_retry s j by (simp add: tk [unfolded One_nat_def] i [unfolded One_nat_def])
    then show ?thesis
      using b init n(1) pos(1) r(2,3) by (auto simp: bio_gets_def BIO_gets_def bio_ok_def bio_text_def)
  qed
qed

text \<open>A memory BIO is a source of lines.\<close>

interpretation bio_lines: line_source bio_gets bio_text bio_ok
proof unfold_locales
  fix bio and n :: nat assume "bio_ok bio" "1 < n" "n < 2 ^ 31"
  from bio_gets_piece [OF this] show "fst (bio_gets bio n) = piece n (bio_text bio) @ [0]"
    "bio_text (snd (bio_gets bio n)) = drop (length (piece n (bio_text bio))) (bio_text bio)" "bio_ok (snd (bio_gets bio n))" by auto
qed

end
