(* ===== verification/Conf_File.thy ===== *)
theory Conf_File
  imports Conf_Lines Bio_Mem
begin

text \<open>
  Loading from a source of text: how the loop joins the pieces that the source gives into
  lines, and that it ends, on every text, with a database in order.
\<close>

section \<open>Pieces of lines\<close>

text \<open>A piece without the ends of lines.\<close>

definition strip :: "u8 list \<Rightarrow> u8 list" where
  "strip t = take (strip_eol t (length t)) t"

lemma strip_eol_le: "strip_eol p i \<le> i"
  by (induction i) auto

lemma strip_eol_append: "k \<le> length t \<Longrightarrow> strip_eol (t @ z) k = strip_eol t k"
  by (induction k) (auto simp: chr_def nth_append)

text \<open>The line so far and a piece \<open>t\<close>: nothing at the end of the text, otherwise whether the line
  goes on, the line, and whether the end of a line was missing.\<close>

definition join_piece :: "u8 list \<Rightarrow> bool \<Rightarrow> u8 list \<Rightarrow> (bool \<times> u8 list \<times> bool) option" where
  "join_piece l again t =
     (if t = [] \<and> \<not> again then None
      else
        let l' = l @ strip t; again = (t \<noteq> [] \<and> strip t = t)
        in if l' \<noteq> [] \<and> last l' = 92 \<and> (length l' = 1 \<or> l' ! (length l' - 2) \<noteq> 92)
           then Some (True, butlast l', again) else Some (again, l', again))"

text \<open>The variables of the loop, with the line so far.\<close>

definition reading_line :: "'s loader \<Rightarrow> u8 list \<Rightarrow> bool" where
  "reading_line ld l \<longleftrightarrow>
     buf_mem_ok (ld_buff ld) \<and> ld_bufnum ld = length l \<and> length l \<le> bm_length (ld_buff ld) \<and>
     take (length l) (bm_data (ld_buff ld)) = l \<and> 0 \<notin> set l"

lemma grow_line:
  assumes h: "malloc_ok m" "\<forall>k < 2 ^ 63. m k \<noteq> None" and l: "reading_line ld l" and n: "length l < 2 ^ 59"
  shows "\<exists>buff. BUF_MEM_grow m (length l + CONFBUFSIZE) (ld_buff ld) = (length l + CONFBUFSIZE, buff) \<and> buf_mem_ok buff \<and>
    bm_length buff = length l + CONFBUFSIZE \<and> take (length l) (bm_data buff) = l"
proof -
  let ?n = "length l + CONFBUFSIZE"
  have ok: "buf_mem_ok (ld_buff ld)" using l by (simp add: reading_line_def)
  have "buf_room m (ld_buff ld) ?n" using h n by (simp add: buf_room_def CONFBUFSIZE_def)
  from BUF_MEM_reserve_total [OF this le_refl] obtain b where "BUF_MEM_reserve m ?n (ld_buff ld) = (True, b)" by blast
  then obtain buff where g: "BUF_MEM_grow m ?n (ld_buff ld) = (?n, buff)" "bm_length buff = ?n" by (simp add: BUF_MEM_grow_def Let_def)
  have "?n < 2 ^ 63 + 2 ^ 61" "0 < ?n" using n by (simp_all add: CONFBUFSIZE_def)
  from BUF_MEM_grow_Some [OF h(1) ok this g(1)] have b: "buf_mem_ok buff"
    "contents buff = take ?n (contents (ld_buff ld)) @ replicate (?n - bm_length (ld_buff ld)) 0" by (simp_all add: CONFBUFSIZE_def)
  have "take (length l) (bm_data buff) = take (length l) (contents buff)" using g(2) by (simp add: contents_def min_def)
  also have "\<dots> = take (length l) (contents (ld_buff ld))"
    unfolding b(2) using l length_contents [OF ok] by (simp add: reading_line_def min_def)
  also have "\<dots> = l" using l by (simp add: contents_def reading_line_def min_def)
  finally show ?thesis using g b(1) by blast
qed

text \<open>What a piece \<open>t\<close> does to the line in the buffer.\<close>

lemma strip_append: "strip_eol (t @ z) (length t) = length (strip t)"
  using strip_eol_le [of t "length t"] by (simp add: strip_def strip_eol_append)

lemma strip_take: "take (length (strip t)) t = strip t"
  using strip_eol_le [of t "length t"] by (simp add: strip_def)

lemma strip_all: "length (strip t) = length t \<longleftrightarrow> strip t = t"
  using strip_take [of t] by auto

lemma backslash_end:
  assumes "take (length l) data = l" and "length l \<le> length data"
  shows "(length l \<ge> 1 \<and> IS_ESC (chr data (length l - 1)) \<and> (length l \<le> 1 \<or> \<not> IS_ESC (chr data (length l - 2)))) \<longleftrightarrow>
    l \<noteq> [] \<and> last l = 92 \<and> (length l = 1 \<or> l ! (length l - 2) \<noteq> 92)"
proof -
  have c: "chr data k = l ! k" if "k < length l" for k
    using that assms nth_take [of k "length l" data] by (simp add: chr_def)
  show ?thesis using c by (cases l rule: rev_cases) (auto simp: nth_append)
qed

lemma join_line:
  assumes data: "take (length l) data = l" "drop (length l) data = t @ 0 # y" "0 \<notin> set l" "0 \<notin> set t"
    and j: "join_piece l again t = Some (ag, l', miss)"
  defines "data2 \<equiv> if t \<noteq> [] \<and> strip t = t then data else data[length l + length (strip t) := 0]"
  shows "take (length l') data2 = l'" and "0 \<notin> set l'" and "length l' \<le> length l + length t" and "length data2 = length data"
    and "nul_at data2 (length l + length (strip t))" and "\<not> ag \<Longrightarrow> l' = l @ strip t"
    and "take (length (l @ strip t)) data2 = l @ strip t"
proof -
  have d: "data = l @ t @ 0 # y" using data(1,2) by (metis append_take_drop_id)
  have tt: "t = strip t @ drop (length (strip t)) t" by (metis append_take_drop_id strip_take)
  have le: "length (strip t) \<le> length t" using strip_take [of t] by (metis length_take min.cobounded1 nat_le_linear take_all)
  obtain w where d2: "data2 = l @ strip t @ 0 # w"
  proof (cases "t \<noteq> [] \<and> strip t = t")
    case True
    then have "data2 = l @ strip t @ 0 # y" unfolding data2_def d by simp
    then show ?thesis by (rule that)
  next
    case False
    obtain c v where v: "drop (length (strip t)) t @ 0 # y = c # v" by (cases "drop (length (strip t)) t") auto
    have "data = l @ strip t @ c # v" unfolding d using tt v by (metis append.assoc)
    then have "data2 = l @ strip t @ 0 # v" unfolding data2_def if_not_P [OF False] by (simp add: list_update_append)
    then show ?thesis by (rule that)
  qed
  show "length data2 = length data" by (simp add: data2_def)
  show "nul_at data2 (length l + length (strip t))" unfolding d2 nul_at_def by (simp add: nth_append)
  show "take (length (l @ strip t)) data2 = l @ strip t" unfolding d2 by simp
  have l': "l' = l @ strip t \<or> l' = butlast (l @ strip t)" using j by (auto simp: join_piece_def Let_def split: if_splits)
  have "take (length (butlast L)) (L @ z) = butlast L" for L z :: "u8 list" by (simp add: butlast_conv_take)
  from l' this [of "l @ strip t" "0 # w"] show "take (length l') data2 = l'" unfolding d2 by auto
  have "set (strip t) \<subseteq> set t" using tt by (metis Un_upper1 set_append)
  then have "0 \<notin> set (l @ strip t)" using data(3,4) by auto
  then show "0 \<notin> set l'" using l' by (auto dest: in_set_butlastD)
  show "length l' \<le> length l + length t" using l' le by auto
  show "\<not> ag \<Longrightarrow> l' = l @ strip t" using j by (auto simp: join_piece_def Let_def split: if_splits)
qed

section \<open>Reading from a source\<close>

context line_source begin

text \<open>One piece more. The state \<open>ld'\<close> differs from \<open>ld\<close> in the buffer, the source and the counters.\<close>

lemma read_more_ok:
  assumes h: "malloc_ok m" "\<forall>k < 2 ^ 63. m k \<noteq> None" and l: "reading_line ld l" and s: "valid (ld_in ld)"
    and n: "length l + length (rest (ld_in ld)) < INT_MAX"
  defines "t \<equiv> c_str (piece 511 (rest (ld_in ld)) @ [0])" and "src \<equiv> snd (gets (ld_in ld) 511)"
  shows "case join_piece l (ld_again ld) t of
      None \<Rightarrow> \<exists>ld'. read_more m gets ld = Some (Leave (True, ld')) \<and> ld_conf ld' = ld_conf ld \<and> ld_in ld' = src \<and> ld_eline ld' = ld_eline ld
    | Some (ag, l', miss) \<Rightarrow> \<exists>ld'. read_more m gets ld = Some (Go_on (\<not> ag, ld')) \<and>
        ld_conf ld' = ld_conf ld \<and> ld_section ld' = ld_section ld \<and> ld_sv ld' = ld_sv ld \<and> ld_in ld' = src \<and> ld_again ld' = ag \<and>
        ld_eline ld' = ld_eline ld + (if miss then 0 else 1) \<and> 0 \<notin> set l' \<and> length l' \<le> length l + length t \<and>
        (ag \<longrightarrow> reading_line ld' l') \<and>
        (\<not> ag \<longrightarrow> reading_line ld' [] \<and> (\<exists>y. bm_data (ld_buff ld') = l' @ 0 # y))"
proof -
  have "length l < 2 ^ 59" using n by (simp add: INT_MAX_def)
  from grow_line [OF h l this] obtain buff where g: "BUF_MEM_grow m (length l + CONFBUFSIZE) (ld_buff ld) = (length l + CONFBUFSIZE, buff)"
    "buf_mem_ok buff" "bm_length buff = length l + CONFBUFSIZE" "take (length l) (bm_data buff) = l" by blast
  let ?x = "piece 511 (rest (ld_in ld))" and ?p = "length l"
  have big: "?p + 512 \<le> length (bm_data buff)" using g(2,3) by (simp add: buf_mem_ok_def CONFBUFSIZE_def)
  have x: "length ?x \<le> 510" "length ?x \<le> length (rest (ld_in ld))" using piece_length [of 511] by simp_all
  have src: "gets (ld_in ld) 511 = (?x @ [0], src)"
    using gets_piece [OF s, of 511] by (simp add: src_def prod_eq_iff)
  define data where "data = (mem_write ?p (?x @ [0]) ((bm_data buff)[?p := 0]))[?p + 511 := 0]"
  have len: "length data = length (bm_data buff)" unfolding data_def using big x by simp
  have "take ?p ((bm_data buff)[?p := 0]) = l" using g(4) by simp
  then have "mem_write ?p (?x @ [0]) ((bm_data buff)[?p := 0]) = l @ ?x @ 0 # drop (?p + length ?x + 1) (bm_data buff)"
    by (simp add: mem_write_def)
  then have dd: "data = l @ ?x @ 0 # (drop (?p + length ?x + 1) (bm_data buff))[510 - length ?x := 0]"
  proof -
    have "511 - length ?x = Suc (510 - length ?x)" using x(1) by simp
    with \<open>mem_write ?p (?x @ [0]) ((bm_data buff)[?p := 0]) = l @ ?x @ 0 # drop (?p + length ?x + 1) (bm_data buff)\<close>
    show ?thesis unfolding data_def using x(1) by (simp add: list_update_append)
  qed
  have l0: "0 \<notin> set l" "ld_bufnum ld = ?p" using l by (simp_all add: reading_line_def)
  have t: "0 \<notin> set t" "length t \<le> length ?x" unfolding t_def
    using c_str_no_nul [of "?x @ [0]"] c_str_less [of "?x @ [0]"] by (auto simp: c_string_def)
  obtain y where y: "?x @ 0 # (drop (?p + length ?x + 1) (bm_data buff))[510 - length ?x := 0] = t @ 0 # y"
  proof -
    have "c_string (?x @ [0])" by (simp add: c_string_def)
    then obtain z where "?x @ [0] = t @ 0 # z" unfolding t_def using c_string_split by blast
    then have "?x @ 0 # w = t @ 0 # z @ w" for w by (metis append.assoc append_Cons append_Nil)
    then show ?thesis by (rule that)
  qed
  have dl: "drop ?p data = t @ 0 # y" "take ?p data = l" unfolding dd y [symmetric] by simp_all
  have ii: "c_strlen (drop ?p data) = length t" unfolding dl(1) using t(1) by (simp add: c_strlen_append)
  have i: "strip_eol (drop ?p data) (length t) = length (strip t)" unfolding dl(1) by (rule strip_append)
  have le: "length (strip t) \<le> length t" using strip_eol_le [of t "length t"] by (simp add: strip_def)
  have room: "\<not> (length (?x @ [0]) > CONFBUFSIZE - 1 \<or> ?p + length (strip t) > INT_MAX)"
    using x le t(2) n by (simp add: CONFBUFSIZE_def)
  let ?ld = "ld\<lparr>ld_in := src, ld_buff := buff\<lparr>bm_data := data\<rparr>\<rparr>"
  define data2 where "data2 = (if t \<noteq> [] \<and> strip t = t then data else data[?p + length (strip t) := 0])"
  have rm: "read_more m gets ld =
     (if length t = 0 \<and> \<not> ld_again ld then Some (Leave (True, ?ld))
      else
        let (again, data, eline) = (if length t \<noteq> 0 \<and> length (strip t) = length t then (True, data, ld_eline ld)
              else (False, data[?p + length (strip t) := 0], ld_eline ld + 1));
            bufnum = ?p + length (strip t);
            (again, bufnum) =
              (if bufnum \<ge> 1 \<and> IS_ESC (chr data (bufnum - 1)) \<and> (bufnum \<le> 1 \<or> \<not> IS_ESC (chr data (bufnum - 2)))
               then (True, bufnum - 1) else (again, bufnum))
        in Some (Go_on (\<not> again, ?ld\<lparr>ld_buff := buff\<lparr>bm_data := data\<rparr>, ld_again := again,
              ld_eline := eline, ld_bufnum := (if again then bufnum else 0)\<rparr>)))"
  proof -
    have e: "CONFBUFSIZE - 1 = 511" by (simp add: CONFBUFSIZE_def)
    have nz: "length l + CONFBUFSIZE \<noteq> 0" by (simp add: CONFBUFSIZE_def)
    have room': "\<not> (length (?x @ [0]) > 511 \<or> ?p + length (strip t) > INT_MAX)" using room e by simp
    show ?thesis
      unfolding read_more_def l0(2) g(1) prod.case if_not_P [OF nz] Let_def e src data_def [symmetric] ii i if_not_P [OF room']
      by (simp add: Let_def)
  qed
  show ?thesis
  proof (cases "join_piece l (ld_again ld) t")
    case None
    then have "length t = 0 \<and> \<not> ld_again ld" by (auto simp: join_piece_def Let_def split: if_splits)
    then show ?thesis using rm None by simp
  next
    case (Some r)
    obtain ag l' miss where r: "r = (ag, l', miss)" by (cases r) auto
    note j = Some [unfolded r]
    note jl = join_line [OF dl(2,1) l0(1) t(1) j, folded data2_def]
    have nt: "\<not> (length t = 0 \<and> \<not> ld_again ld)" using j by (auto simp: join_piece_def split: if_splits)
    let ?again = "t \<noteq> [] \<and> strip t = t" and ?l = "l @ strip t"
    have ll: "?p + length (strip t) = length ?l" by simp
    have part: "(if length t \<noteq> 0 \<and> length (strip t) = length t then (True, data, ld_eline ld)
        else (False, data[length ?l := 0], ld_eline ld + 1)) = (?again, data2, ld_eline ld + (if ?again then 0 else 1))"
      unfolding data2_def by (auto simp: strip_all)
    have tl: "take (length ?l) data2 = ?l" by (rule jl(7))
    have lb: "length ?l \<le> length data2"
      using jl(5) unfolding nul_at_def by (simp add: less_imp_le)
    note bs = backslash_end [OF tl lb]
    let ?esc = "?l \<noteq> [] \<and> last ?l = 92 \<and> (length ?l = 1 \<or> ?l ! (length ?l - 2) \<noteq> 92)"
    have rm2: "read_more m gets ld =
       (case (if ?esc then (True, length ?l - 1) else (?again, length ?l)) of (again, bufnum) \<Rightarrow>
          Some (Go_on (\<not> again, ?ld\<lparr>ld_buff := buff\<lparr>bm_data := data2\<rparr>, ld_again := again,
              ld_eline := ld_eline ld + (if ?again then 0 else 1), ld_bufnum := (if again then bufnum else 0)\<rparr>)))"
      unfolding rm if_not_P [OF nt] ll part Let_def prod.case bs by (rule refl)
    have res: "(ag, l', miss) = (if ?esc then (True, butlast ?l, ?again) else (?again, ?l, ?again))"
      using j nt unfolding join_piece_def by (auto simp: Let_def split: if_splits)
    let ?ld' = "?ld\<lparr>ld_buff := buff\<lparr>bm_data := data2\<rparr>, ld_again := ag,
              ld_eline := ld_eline ld + (if miss then 0 else 1), ld_bufnum := (if ag then length l' else 0)\<rparr>"
    have go: "read_more m gets ld = Some (Go_on (\<not> ag, ?ld'))"
      unfolding rm2 using res by (auto split: if_splits)
    have ok2: "buf_mem_ok (buff\<lparr>bm_data := data2\<rparr>)" using g(2) jl(4) len by (simp add: buf_mem_ok_def)
    have small: "length l' \<le> bm_length buff" using jl(3) t(2) x(1) g(3) by (simp add: CONFBUFSIZE_def)
    have rl: "reading_line ?ld' l'" if ag using that ok2 small jl(1,2) by (simp add: reading_line_def)
    have rn: "reading_line ?ld' [] \<and> (\<exists>y. data2 = l' @ 0 # y)" if "\<not> ag"
    proof -
      have "length l' < length data2" "data2 ! length l' = 0" using jl(5,6) that by (simp_all add: nul_at_def)
      then have "data2 = l' @ 0 # drop (Suc (length l')) data2" using jl(1) by (metis id_take_nth_drop)
      then show ?thesis using that ok2 by (auto simp: reading_line_def)
    qed
    show ?thesis unfolding j option.case prod.case
      by (rule exI [of _ ?ld']) (use go jl(2,3) rl rn in auto)
  qed
qed

end

section \<open>Every load ends\<close>

definition lines_left :: "nat \<Rightarrow> bool \<Rightarrow> nat" where
  "lines_left n again = 2 * n + (if again then 2 else 0)"

lemma join_piece_length:
  assumes "join_piece l again t = Some (ag, l', miss)"
  shows "length l' \<le> length l + length t" and "t = [] \<Longrightarrow> again \<and> (ag \<longrightarrow> length l' < length l)"
proof -
  have le: "length (strip t) \<le> length t" using strip_eol_le [of t "length t"] by (simp add: strip_def)
  show "length l' \<le> length l + length t"
    using assms le by (auto simp: join_piece_def Let_def split: if_splits)
  show "again \<and> (ag \<longrightarrow> length l' < length l)" if "t = []"
  proof -
    have st: "strip t = []" using that by (simp add: strip_def)
    show ?thesis using assms unfolding join_piece_def st using that by (cases l rule: rev_cases) (auto simp: Let_def split: if_splits)
  qed
qed

lemma plenty_alloc: "plenty h \<Longrightarrow> malloc_ok (h_malloc h)" "plenty h \<Longrightarrow> \<forall>k < 2 ^ 63. h_malloc h k \<noteq> None"
  by (simp_all add: plenty_def)

context line_source begin

definition loading :: "'s loader \<Rightarrow> u8 list \<Rightarrow> bool" where
  "loading ld l \<longleftrightarrow>
     reading_line ld l \<and> conf_ok (ld_conf ld) \<and> current (ld_conf ld) (ld_section ld) (ld_sv ld) \<and> valid (ld_in ld) \<and>
     length l + length (rest (ld_in ld)) < INT_MAX - 1 \<and>
     db_objects (ld_conf ld) + lines_left (length (rest (ld_in ld))) (ld_again ld) < 2 ^ 50"

lemma load_step_ok:
  assumes h: "plenty h" and ld: "loading ld l"
  shows "(\<exists>ld'. (load_step h gets ld = Some (Leave ld') \<or> load_step h gets ld = Some (Go_err ld')) \<and> conf_ok (ld_conf ld')) \<or>
    (\<exists>ld' l'. load_step h gets ld = Some (Go_on ld') \<and> loading ld' l' \<and>
       ((length (rest (ld_in ld')), if ld_again ld' then Suc (length l') else 0), (length (rest (ld_in ld)), if ld_again ld then Suc (length l) else 0))
         \<in> less_than <*lex*> less_than)"
proof -
  let ?r = "rest (ld_in ld)"
  define t src where "t = c_str (piece 511 ?r @ [0])" and "src = snd (gets (ld_in ld) 511)"
  have v: "valid (ld_in ld)" and l: "reading_line ld l" and n: "length l + length ?r < INT_MAX" using ld by (auto simp: loading_def)
  note rm = read_more_ok [OF plenty_alloc [OF h] l v n, folded t_def src_def]
  have src: "valid src" "length (rest src) = length ?r - length (piece 511 ?r)"
    using gets_valid [OF v, of 511] gets_rest [OF v, of 511] by (simp_all add: src_def)
  have tl: "length t \<le> length (piece 511 ?r)" "length (piece 511 ?r) \<le> length ?r"
    using c_str_less [of "piece 511 ?r @ [0]"] piece_length(2) by (auto simp: t_def c_string_def)
  have r: "length (rest src) + length t \<le> length ?r" using src(2) tl by simp
  have r2: "t \<noteq> [] \<Longrightarrow> lines_left (length (rest src)) a + 2 \<le> lines_left (length ?r) b + (if a then 2 else 0)" for a b
    using r by (cases t) (auto simp: lines_left_def)
  have r3: "length (rest src) \<le> length ?r \<Longrightarrow> lines_left (length (rest src)) a \<le> lines_left (length ?r) True" for a
    by (simp add: lines_left_def)
  show ?thesis
  proof (cases "join_piece l (ld_again ld) t")
    case None
    then show ?thesis using rm ld by (auto simp: load_step_def loading_def)
  next
    case (Some p)
    obtain ag l' miss where p: "p = (ag, l', miss)" by (cases p) auto
    note j = Some [unfolded p]
    note jl = join_piece_length [OF j]
    obtain ld' where go: "read_more (h_malloc h) gets ld = Some (Go_on (\<not> ag, ld'))" "ld_conf ld' = ld_conf ld"
      "ld_section ld' = ld_section ld" "ld_sv ld' = ld_sv ld" "ld_in ld' = src" "ld_again ld' = ag" "ag \<longrightarrow> reading_line ld' l'"
      "\<not> ag \<longrightarrow> reading_line ld' [] \<and> (\<exists>y. bm_data (ld_buff ld') = l' @ 0 # y)"
      using rm unfolding j by auto
    show ?thesis
    proof (cases ag)
      case True
      have "lines_left (length (rest src)) True \<le> lines_left (length ?r) (ld_again ld)"
        using r2 [of True "ld_again ld"] r3 [of True] r jl(2) by (cases "t = []") auto
      then have "loading ld' l'"
        using ld go(2-7) True src(1) r jl(1) unfolding loading_def by auto
      moreover have "((length (rest (ld_in ld')), if ld_again ld' then Suc (length l') else 0), (length ?r, if ld_again ld then Suc (length l) else 0))
         \<in> less_than <*lex*> less_than"
        using go(5,6) True r jl(2) by (cases "t = []"; cases t) auto
      moreover have "load_step h gets ld = Some (Go_on ld')" using go(1) True by (simp add: load_step_def)
      ultimately show ?thesis by blast
    next
      case False
      then obtain y where y: "bm_data (ld_buff ld') = l' @ 0 # y" using go(8) by blast
      have ll: "length l' < INT_MAX" using jl(1) tl ld by (auto simp: loading_def)
      have z: "nul_at (bm_data (ld_buff ld')) (length l')" unfolding y nul_at_def by (simp add: nth_append)
      have c: "conf_ok (ld_conf ld')" "db_objects (ld_conf ld') < 2 ^ 50" "current (ld_conf ld') (ld_section ld') (ld_sv ld')"
        using ld go(2-4) by (simp_all add: loading_def)
      from load_line_ok [OF h c z ll] obtain ok conf' sect' sv' b' where
        line: "load_line h (ld_conf ld') (ld_section ld') (ld_sv ld') (bm_data (ld_buff ld')) = Some (ok, conf', sect', sv', b')"
        "conf_ok conf'" "current conf' sect' sv'" "length b' = length (bm_data (ld_buff ld'))"
        "db_objects conf' \<le> db_objects (ld_conf ld') + 2" by blast
      let ?ld = "ld'\<lparr>ld_conf := conf', ld_section := sect', ld_sv := sv', ld_buff := (ld_buff ld')\<lparr>bm_data := b'\<rparr>\<rparr>"
      have step: "load_step h gets ld = Some (if ok then Go_on ?ld else Go_err ?ld)"
        using go(1) False line(1) by (simp add: load_step_def Let_def)
      show ?thesis
      proof (cases ok)
        case True
        have "reading_line ?ld []" using go(8) False line(4) by (simp add: reading_line_def buf_mem_ok_def)
        moreover have "lines_left (length (rest src)) False + 2 \<le> lines_left (length ?r) (ld_again ld)"
          using r2 [of False "ld_again ld"] r jl(2) by (cases "t = []") (auto simp: lines_left_def)
        ultimately have "loading ?ld []"
          using ld go(2-6) \<open>\<not> ag\<close> src(1) r line(2,3,5) unfolding loading_def by simp
        moreover have "((length (rest (ld_in ?ld)), if ld_again ?ld then Suc (length []) else 0), (length ?r, if ld_again ld then Suc (length l) else 0))
           \<in> less_than <*lex*> less_than"
          using go(5,6) \<open>\<not> ag\<close> r jl(2) by (cases "t = []"; cases t) auto
        ultimately show ?thesis using step True by auto
      next
        case False
        then show ?thesis using step line(2) by auto
      qed
    qed
  qed
qed

lemma load_loop_ok:
  assumes h: "plenty h" and "loading ld l"
  shows "\<exists>ok ld'. load_loop h gets ld = Some (Some (ok, ld')) \<and> conf_ok (ld_conf ld')"
proof -
  have wf: "wf (less_than <*lex*> less_than)" by auto
  show ?thesis using assms(2)
  proof (induction "(length (rest (ld_in ld)), if ld_again ld then Suc (length l) else 0)" arbitrary: ld l rule: wf_induct_rule [OF wf])
    case (1 ld l)
    note unf = load_loop.simps [of h gets ld]
    from load_step_ok [OF h 1(2)] consider
      (stop) ld' where "load_step h gets ld = Some (Leave ld') \<or> load_step h gets ld = Some (Go_err ld')" "conf_ok (ld_conf ld')"
    | (go) ld' l' where "load_step h gets ld = Some (Go_on ld')" "loading ld' l'"
       "((length (rest (ld_in ld')), if ld_again ld' then Suc (length l') else 0), (length (rest (ld_in ld)), if ld_again ld then Suc (length l) else 0))
         \<in> less_than <*lex*> less_than" by blast
    then show ?case
    proof cases
      case stop
      then show ?thesis unfolding unf by auto
    next
      case go
      from 1(1) [OF go(3,2)] show ?thesis unfolding unf go(1) by simp
    qed
  qed
qed

end

lemma start_loading:
  assumes h: "plenty h" and conf: "conf_ok conf" and n: "db_objects conf < 2 ^ 59"
  shows "\<exists>buff sv conf'. BUF_MEM_new (h_malloc h) = Some buff \<and> OPENSSL_strdup (h_malloc h) (Some default_name) = Some default_name \<and>
    NCONF_new_section h conf default_name = Some (Some sv, conf') \<and> conf_ok conf' \<and> current conf' default_name sv \<and>
    db_objects conf' = Suc (db_objects conf) \<and> conf_string conf' = conf_string conf \<and>
    (\<forall>x. (conf_map conf' x None \<noteq> None) = (x = c_str default_name \<or> conf_map conf x None \<noteq> None)) \<and>
    (\<forall>ld. ld_buff ld = buff \<longrightarrow> ld_bufnum ld = 0 \<longrightarrow> reading_line ld [])"
proof -
  obtain buff where b: "BUF_MEM_new (h_malloc h) = Some buff"
    using plenty_malloc [OF h, of sizeof_BUF_MEM] by (auto simp: BUF_MEM_new_def sizeof_BUF_MEM_def)
  have d: "c_string default_name" "length (c_str default_name) < 2 ^ 60" "c_str default_name @ [0] = default_name"
    by (simp_all add: default_name_def c_string_def c_str_def)
  from NCONF_new_section_ok [OF h conf n d(1,2)] obtain sv conf' where
    "NCONF_new_section h conf default_name = Some (Some sv, conf')" "conf_ok conf'"
    "conf_map conf' = (conf_map conf)(c_str default_name := (conf_map conf (c_str default_name))(None \<mapsto> sv))"
    "conf_typed (length (db_stacks conf')) sv" "conf_key sv = (Some (c_str default_name), None)"
    "db_objects conf' = Suc (db_objects conf)" by blast
  then show ?thesis
    using b BUF_MEM_new_ok [OF b] strdup_string [OF h d(1)] d
    by (auto simp: current_def conf_string_def fun_eq_iff reading_line_def)
qed

context line_source begin

lemma def_load_bio_ok:
  assumes h: "plenty h" and conf: "conf_ok conf" and inp: "valid inp"
    and n: "length (rest inp) < INT_MAX - 1" "db_objects conf < 2 ^ 40"
  shows "\<exists>ok eline conf' inp'. def_load_bio h gets conf inp = Some (Some (ok, eline, conf', inp')) \<and> conf_ok conf'"
proof -
  have "db_objects conf < 2 ^ 59" using n(2) by simp
  from start_loading [OF h conf this] obtain buff sv conf1 where
    s: "BUF_MEM_new (h_malloc h) = Some buff" "OPENSSL_strdup (h_malloc h) (Some default_name) = Some default_name"
      "NCONF_new_section h conf default_name = Some (Some sv, conf1)" "conf_ok conf1" "current conf1 default_name sv"
      "db_objects conf1 = Suc (db_objects conf)" "\<And>ld :: 's loader. ld_buff ld = buff \<Longrightarrow> ld_bufnum ld = 0 \<Longrightarrow> reading_line ld []" by blast
  let ?ld = "\<lparr>ld_conf = conf1, ld_in = inp, ld_buff = buff, ld_bufnum = 0, ld_again = False, ld_eline = 0,
      ld_section = default_name, ld_sv = sv\<rparr>"
  have "loading ?ld []" using s n inp by (simp add: loading_def lines_left_def INT_MAX_def)
  from load_loop_ok [OF h this] obtain ok ld' where "load_loop h gets ?ld = Some (Some (ok, ld'))" "conf_ok (ld_conf ld')" by blast
  then show ?thesis by (simp add: def_load_bio_def s(1-3))
qed

end

end
