(* ===== verification/Conf_Format.thy ===== *)
theory Conf_Format
  imports Conf_File
begin

text \<open>
  Configuration files as a list of items, their text, and that loading the text gives what
  the items say.
\<close>

section \<open>Items and their text\<close>

datatype conf_item = Header "u8 list" | Assign "u8 list" "u8 list"

definition escape :: "u8 list \<Rightarrow> u8 list" where
  "escape v = concat (map (\<lambda>c. if c = 34 \<or> c = 92 then [92, c] else [c]) v)"

fun item_text :: "conf_item \<Rightarrow> u8 list" where
  "item_text (Header s) = 91 # s @ [93]"
| "item_text (Assign n v) = n @ 61 # 34 # escape v @ [34]"

text \<open>Names are letters, digits and underscores; values have no NUL and no newline; a line fits the
  loader's buffer.\<close>

fun item_ok :: "conf_item \<Rightarrow> bool" where
  "item_ok (Header s) \<longleftrightarrow> list_all IS_ALPHA_NUMERIC s \<and> length s < 500"
| "item_ok (Assign n v) \<longleftrightarrow> list_all IS_ALPHA_NUMERIC n \<and> 0 \<notin> set v \<and> 10 \<notin> set v \<and> length n + length (escape v) < 500"

definition file_text :: "conf_item list \<Rightarrow> u8 list" where
  "file_text its = concat (map (\<lambda>it. item_text it @ [10]) its)"

text \<open>What the items say, in the section \<open>cur\<close>.\<close>

fun conf_meaning :: "u8 list \<Rightarrow> (u8 list \<Rightarrow> u8 list \<Rightarrow> u8 list option) \<Rightarrow> conf_item list \<Rightarrow> u8 list \<Rightarrow> u8 list \<Rightarrow> u8 list option" where
  "conf_meaning cur m [] = m"
| "conf_meaning cur m (Header s # its) = conf_meaning s m its"
| "conf_meaning cur m (Assign n v # its) = conf_meaning cur (m(cur := (m cur)(n \<mapsto> v))) its"

fun conf_sections :: "conf_item list \<Rightarrow> u8 list set" where
  "conf_sections [] = {}"
| "conf_sections (Header s # its) = insert s (conf_sections its)"
| "conf_sections (Assign n v # its) = conf_sections its"

section \<open>Scanning the text of an item\<close>

lemma escape_simps: "escape [] = []" "escape (c # v) = (if c = 34 \<or> c = 92 then 92 # c # escape v else c # escape v)"
  by (simp_all add: escape_def)

lemma escape_no: "x \<notin> set v \<Longrightarrow> x \<noteq> 92 \<Longrightarrow> x \<notin> set (escape v)"
  by (induction v) (auto simp: escape_simps)

lemma alpha_plain: "IS_ALPHA_NUMERIC c \<Longrightarrow> IS_ALPHA_NUMERIC_PUNCT c \<and> \<not> IS_QUOTE c \<and> c \<noteq> 0 \<and> c \<noteq> 10 \<and> c \<noteq> 13 \<and> c \<noteq> 35 \<and> c \<noteq> 36 \<and> c \<noteq> 58 \<and>
    c \<noteq> 61 \<and> c \<noteq> 91 \<and> c \<noteq> 92 \<and> c \<noteq> 93 \<and> \<not> IS_WS c"
  using alpha_numeric_punct [of c] is_alpha_numeric_punct [of c] punct_plain [of c]
  by (auto simp: is_ws_iff is_alpha_numeric_iff)

lemma eat_ws_stop: "drop p b = c # z \<Longrightarrow> \<not> IS_WS c \<Longrightarrow> eat_ws b p = p"
  using chr_drop(1) by (subst eat_ws.simps) simp

lemma eat_alpha_numeric_name:
  "drop p b = n @ c # z \<Longrightarrow> list_all IS_ALPHA_NUMERIC n \<Longrightarrow> \<not> IS_ALPHA_NUMERIC_PUNCT c \<Longrightarrow> c \<noteq> 92 \<Longrightarrow> eat_alpha_numeric b p = p + length n"
proof (induction n arbitrary: p)
  case Nil
  then show ?case using chr_drop(1) [of p b c z] by (subst eat_alpha_numeric.simps) simp
next
  case (Cons a n)
  have d: "drop p b = a # n @ c # z" using Cons(2) by simp
  show ?case using Cons(1) [OF chr_drop(2) [OF d]] Cons(3-5) chr_drop(1) [OF d] alpha_plain [of a]
    by (subst eat_alpha_numeric.simps) simp
qed

lemma comment_name:
  "drop p b = n @ z \<Longrightarrow> list_all IS_ALPHA_NUMERIC n \<Longrightarrow> clear_comment_loop b p = clear_comment_loop b (p + length n)"
proof (induction n arbitrary: p)
  case (Cons a n)
  have d: "drop p b = a # n @ z" using Cons(2) by simp
  show ?case using Cons(1) [OF chr_drop(2) [OF d]] Cons(3) chr_drop(1) [OF d] alpha_plain [of a]
    by (subst clear_comment_loop.simps) simp
qed simp

lemma comment_plain:
  "drop p b = c # z \<Longrightarrow> c \<noteq> 35 \<Longrightarrow> \<not> IS_QUOTE c \<Longrightarrow> c \<noteq> 92 \<Longrightarrow> clear_comment_loop b p = (if c = 0 then b else clear_comment_loop b (Suc p))"
  using chr_drop(1) [of p b c z] by (subst clear_comment_loop.simps) simp

lemma scan_quote_loop_escape:
  "drop p b = escape v @ 34 # z \<Longrightarrow> 0 \<notin> set v \<Longrightarrow> scan_quote_loop b 34 p = (False, p + length (escape v))"
proof (induction v arbitrary: p)
  case Nil
  then show ?case using chr_drop(1) [of p b 34 z] by (subst scan_quote_loop.simps) (simp add: escape_simps)
next
  case (Cons c v)
  show ?case
  proof (cases "c = 34 \<or> c = 92")
    case True
    then have d: "drop p b = 92 # c # escape v @ 34 # z" using Cons(2) by (simp add: escape_simps)
    note d2 = chr_drop(2) [OF d]
    show ?thesis using Cons(1) [OF chr_drop(2) [OF d2]] Cons(3) True chr_drop(1) [OF d] chr_drop(1) [OF d2]
      by (subst scan_quote_loop.simps) (auto simp: escape_simps)
  next
    case False
    then have d: "drop p b = c # escape v @ 34 # z" using Cons(2) by (simp add: escape_simps)
    show ?thesis using Cons(1) [OF chr_drop(2) [OF d]] Cons(3) False chr_drop(1) [OF d]
      by (subst scan_quote_loop.simps) (auto simp: escape_simps)
  qed
qed

lemma comment_quoted:
  assumes d: "drop p b = 34 # escape v @ 34 # 0 # z" and v: "0 \<notin> set v"
  shows "clear_comment_loop b p = b"
proof -
  let ?q = "Suc p + length (escape v)"
  have dq: "drop ?q b = 34 # 0 # z" using chr_drop(2) [OF d] by (metis add.commute append_eq_conv_conj drop_drop)
  have "scan_quote b p = Suc ?q"
    using scan_quote_loop_escape [OF chr_drop(2) [OF d] v] chr_drop(1) [OF d] chr_drop(1) [OF dq]
    by (simp add: scan_quote_def Let_def)
  then have "clear_comment_loop b p = clear_comment_loop b (Suc ?q)"
    using chr_drop(1) [OF d] by (subst clear_comment_loop.simps) (simp add: is_quote_iff)
  also have "\<dots> = b" using comment_plain [OF chr_drop(2) [OF dq]] by (simp add: is_quote_iff)
  finally show ?thesis .
qed

lemma to_eof_end: "drop p b = s @ 0 # z \<Longrightarrow> 0 \<notin> set s \<Longrightarrow> to_eof b p = p + length s"
proof (induction s arbitrary: p)
  case Nil
  then show ?case using chr_drop(1) [of p b 0 z] by (subst to_eof.simps) simp
next
  case (Cons c s)
  have d: "drop p b = c # s @ 0 # z" using Cons(2) by simp
  show ?case using Cons(1) [OF chr_drop(2) [OF d]] Cons(3) chr_drop(1) [OF d] by (subst to_eof.simps) auto
qed

lemma conf_text_name: "list_all IS_ALPHA_NUMERIC n \<Longrightarrow> conf_text look k n = Some n"
  using alpha_plain by (induction n) (auto simp: conf_text.simps(2))

lemma quoted_escape: "quoted 34 (escape v @ 34 # r) = (v, 34 # r)"
  by (induction v) (auto simp: escape_simps)

lemma conf_text_quoted: "conf_text look k (34 # escape v @ [34]) = Some v"
  by (simp add: conf_text.simps(2) is_quote_iff quoted_escape)

section \<open>Loading an item\<close>

lemma name_no_nul_all: "list_all IS_ALPHA_NUMERIC n \<Longrightarrow> 0 \<notin> set n"
  by (auto simp: list_all_iff)

lemma alpha_closed: "list_all IS_ALPHA_NUMERIC n \<Longrightarrow> closed_text n"
  using alpha_plain by (induction n) auto

lemma first_not_ws: "list_all IS_ALPHA_NUMERIC n \<Longrightarrow> \<not> IS_WS c \<Longrightarrow> drop p b = n @ c # z \<Longrightarrow> eat_ws b p = p"
  using eat_ws_stop alpha_plain by (cases n) auto

text \<open>What reading the line of an item does: the database, the current section and the buffer.\<close>

lemma load_header:
  assumes h: "plenty h" and conf: "conf_ok conf" and n: "db_objects conf < 2 ^ 50"
    and it: "item_ok (Header s)" and b: "b = item_text (Header s) @ 0 # z"
  shows "\<exists>conf' sect' sv' b'. load_line h conf sect sv b = Some (True, conf', sect', sv', b') \<and> conf_ok conf' \<and>
    current conf' sect' sv' \<and> c_str sect' = s \<and> length b' = length b \<and> db_objects conf' \<le> db_objects conf + 2 \<and>
    conf_string conf' = conf_string conf \<and> (\<forall>x. (conf_map conf' x None \<noteq> None) = (x = s \<or> conf_map conf x None \<noteq> None))"
proof -
  have s: "list_all IS_ALPHA_NUMERIC s" "length s < 500" using it by simp_all
  have d0: "drop 0 b = 91 # s @ 93 # 0 # z" and d1: "drop 1 b = s @ 93 # 0 # z" using b by simp_all
  have de: "drop (1 + length s) b = 93 # 0 # z" using d1 by (metis add.commute append_eq_conv_conj drop_drop)
  have w0: "eat_ws b 0 = 0" by (rule eat_ws_stop [OF d0]) (simp add: is_ws_iff)
  have "clear_comment_loop b 0 = clear_comment_loop b 1" using comment_plain [OF d0] by (simp add: is_quote_iff)
  also have "\<dots> = clear_comment_loop b (1 + length s)" by (rule comment_name [OF d1 s(1)])
  also have "\<dots> = b"
    using comment_plain [OF de] comment_plain [OF chr_drop(2) [OF de]] by (simp add: is_quote_iff)
  finally have cc: "clear_comments b 0 = b" by (simp add: clear_comments_def clear_fcomment_eq w0)
  have w1: "eat_ws b 1 = 1" by (rule first_not_ws [OF s(1) _ d1]) (simp add: is_ws_iff)
  have p93: "\<not> IS_ALPHA_NUMERIC_PUNCT 93" using is_alpha_numeric_punct [of 93] by auto
  have e1: "eat_alpha_numeric b 1 = 1 + length s" by (rule eat_alpha_numeric_name [OF d1 s(1) p93]) simp
  have w2: "eat_ws b (1 + length s) = 1 + length s" by (rule eat_ws_stop [OF de]) (simp add: is_ws_iff)
  have se: "section_end b 1 = Some (1 + length s)"
    using e1 w2 chr_drop(1) [OF de] by (subst section_end.simps) (simp add: Let_def)
  let ?b = "b[1 + length s := 0]"
  have db: "drop 1 ?b = s @ 0 # 0 # z" unfolding b by (simp add: list_update_append)
  have cs: "c_string (drop 1 ?b)" "c_str (drop 1 ?b) = s"
    unfolding db using c_str_append [OF name_no_nul_all [OF s(1)]] by (simp_all add: c_string_def)
  have "length (c_str (drop 1 ?b)) < INT_MAX" using cs(2) s(2) by (simp add: INT_MAX_def)
  note copy = str_copy_string [OF h conf cs(1) this, of "[]", unfolded cs(2)]
  have vt: "value_text conf [] s = Some s" by (simp add: value_text_def conf_text_name [OF s(1)])
  have "str_copy (h_malloc h) conf None ?b 1 = str_copy (h_malloc h) conf (Some []) ?b 1"
    using str_copy_closed [OF cs(1)] alpha_closed [OF s(1)] cs(2) by simp
  with copy vt obtain data where data: "str_copy (h_malloc h) conf None ?b 1 = Some (Some data, ?b)" "c_string data" "c_str data = s"
    by auto
  have small: "length (c_str data) < 2 ^ 60" "db_objects conf < 2 ^ 59" using data(3) s(2) n by simp_all
  obtain v conf' where v: "Option.bind (get_section conf (Some data)) (\<lambda>found.
      case found of None \<Rightarrow> NCONF_new_section h conf data | Some v \<Rightarrow> Some (Some v, conf)) = Some (Some v, conf')"
    "conf_ok conf'" "conf_typed (length (db_stacks conf')) v" "conf_key v = (Some (c_str data), None)"
    "db_objects conf' \<le> Suc (db_objects conf)" "conf_string conf' = conf_string conf"
    "\<forall>x. (conf_map conf' x None \<noteq> None) = (x = c_str data \<or> conf_map conf x None \<noteq> None)"
    by (rule find_or_new_section [OF h conf small(2) data(2) small(1)])
  have "section_line h conf sect sv b 0 = Some (True, conf', data, v, ?b)"
    using se data(1) v(1) w1 by (auto simp: section_line_def Let_def bind_eq_Some_conv)
  then have "load_line h conf sect sv b = Some (True, conf', data, v, ?b)"
    using chr_drop(1) [OF d0] by (simp add: load_line_def Let_def cc w0)
  then show ?thesis using v data small(1) by (auto simp: current_def)
qed

lemma split_assign:
  assumes n: "list_all IS_ALPHA_NUMERIC n" and v: "0 \<notin> set v" and b: "b = n @ 61 # 34 # escape v @ 34 # 0 # z"
  shows "split_line b 0 = Some (Inr (None, 0, length n + 1, n @ 0 # 34 # escape v @ 34 # 0 # z))"
proof -
  let ?k = "length n" and ?b = "n @ 0 # 34 # escape v @ 34 # 0 # z" and ?t = "34 # escape v @ [34]"
  have dk: "drop ?k b = 61 # 34 # escape v @ 34 # 0 # z" using b by simp
  have p61: "\<not> IS_ALPHA_NUMERIC_PUNCT 61" using is_alpha_numeric_punct [of 61] by auto
  have "drop 0 b = n @ 61 # 34 # escape v @ 34 # 0 # z" using b by simp
  from eat_alpha_numeric_name [OF this n p61] have e: "eat_alpha_numeric b 0 = ?k" by simp
  have w: "eat_ws b ?k = ?k" by (rule eat_ws_stop [OF dk]) (simp add: is_ws_iff)
  have c: "chr b ?k = 61" by (rule chr_drop(1) [OF dk])
  have b1: "b[?k := 0] = ?b" unfolding b by simp
  have d1: "drop (?k + 1) ?b = 34 # escape v @ 34 # 0 # z" by simp
  have w1: "eat_ws ?b (?k + 1) = ?k + 1" by (rule eat_ws_stop [OF d1]) (simp add: is_ws_iff)
  have "drop (?k + 1) ?b = ?t @ 0 # z" by simp
  moreover have "0 \<notin> set ?t" using escape_no [OF v] by simp
  ultimately have eof: "to_eof ?b (?k + 1) = ?k + 1 + length ?t" by (rule to_eof_end)
  have last: "chr ?b (Suc (Suc (?k + length (escape v)))) = 34"
  proof -
    have "drop (Suc (Suc (?k + length (escape v)))) ?b = 34 # 0 # z" by simp
    then show ?thesis by (rule chr_drop(1))
  qed
  have t: "trim_ws ?b (?k + 1) (?k + 1 + length ?t - 1) = Some (?k + 1 + length ?t - 1)"
    using last by (simp add: is_ws_iff)
  have same: "?b[?k + 1 + length ?t - 1 + 1 := 0] = ?b" by (simp add: list_update_append)
  have nc: "\<not> (chr b ?k = 58 \<and> chr b (?k + 1) = 58)" and eq: "\<not> (chr b ?k \<noteq> 61)" using c by simp_all
  show ?thesis
    unfolding split_line_def e Let_def if_not_P [OF nc] prod.case w if_not_P [OF eq] b1 w1 eof t option.case same by (rule refl)
qed

lemma load_assign:
  assumes h: "plenty h" and conf: "conf_ok conf" and n: "db_objects conf < 2 ^ 50" and cur: "current conf sect sv"
    and it: "item_ok (Assign n v)" and b: "b = item_text (Assign n v) @ 0 # z"
  shows "\<exists>conf' b'. load_line h conf sect sv b = Some (True, conf', sect, sv, b') \<and> conf_ok conf' \<and>
    current conf' sect sv \<and> length b' = length b \<and> db_objects conf' \<le> db_objects conf + 2 \<and>
    conf_string conf' = (conf_string conf)(c_str sect := (conf_string conf (c_str sect))(n \<mapsto> v)) \<and>
    (\<forall>x. conf_map conf' x None = conf_map conf x None)"
proof -
  have nv: "list_all IS_ALPHA_NUMERIC n" "0 \<notin> set v" "length n + length (escape v) < 500" using it by simp_all
  have bb: "b = n @ 61 # 34 # escape v @ 34 # 0 # z" using b by simp
  let ?k = "length n" and ?b = "n @ 0 # 34 # escape v @ 34 # 0 # z"
  have d0: "drop 0 b = n @ 61 # 34 # escape v @ 34 # 0 # z" and dk: "drop ?k b = 61 # 34 # escape v @ 34 # 0 # z" using bb by simp_all
  have w0: "eat_ws b 0 = 0" by (rule first_not_ws [OF nv(1) _ d0]) (simp add: is_ws_iff)
  have "clear_comment_loop b 0 = clear_comment_loop b ?k" using comment_name [OF d0 nv(1)] by simp
  also have "\<dots> = clear_comment_loop b (Suc ?k)" using comment_plain [OF dk] by (simp add: is_quote_iff)
  also have "\<dots> = b" by (rule comment_quoted [OF chr_drop(2) [OF dk] nv(2)])
  finally have cc: "clear_comments b 0 = b" by (simp add: clear_comments_def clear_fcomment_eq w0)
  have first: "chr b 0 \<noteq> 0 \<and> chr b 0 \<noteq> 91"
    using nv(1) alpha_plain unfolding bb by (cases n) (auto simp: chr_def)
  note split = split_assign [OF nv(1,2) bb]
  from CONF_VALUE_new_ok [OF h conf] obtain conf1 where new:
    "CONF_VALUE_new h conf = (Some \<lparr>cv_ptr = db_objects conf, cv_section = None, cv_name = None, cv_value = Null\<rparr>, conf1)"
    "conf_inv (Suc 0) conf1" "conf_map conf1 = conf_map conf" "db_stacks conf1 = db_stacks conf" "db_objects conf1 = Suc (db_objects conf)" by blast
  have n0: "c_str (drop 0 ?b) = n" "c_string (drop 0 ?b)"
    using c_str_append [OF name_no_nul_all [OF nv(1)]] by (simp_all add: c_string_def)
  have "length (c_str (drop 0 ?b)) < 2 ^ 61" unfolding n0 using nv(3) by simp
  note name = strdup_string [OF h n0(2) this, unfolded n0]
  let ?t = "34 # escape v @ [34]"
  have dt: "drop (?k + 1) ?b = ?t @ 0 # z" by simp
  have t0: "0 \<notin> set ?t" using escape_no [OF nv(2)] by simp
  have st: "c_string (drop (?k + 1) ?b)" "c_str (drop (?k + 1) ?b) = ?t"
    unfolding dt c_str_append [OF t0] by (simp_all add: c_string_def)
  have "length (c_str (drop (?k + 1) ?b)) < INT_MAX" unfolding st using nv(3) by (simp add: INT_MAX_def)
  note copy = str_copy_string [OF h new(2) st(1) this, of sect, unfolded st(2)]
  have vt: "value_text conf1 sect ?t = Some v" unfolding value_text_def by (rule conf_text_quoted)
  obtain data where data: "str_copy (h_malloc h) conf1 (Some sect) ?b (?k + 1) = Some (Some data, ?b)" "c_string data" "c_str data = v"
    "length v < 2 ^ 60" using copy unfolding vt by auto
  let ?w = "\<lparr>cv_ptr = db_objects conf, cv_section = None, cv_name = Some (n @ [0]), cv_value = Text data\<rparr>"
  have n1: "db_objects conf1 < 2 ^ 55" using n new(5) by simp
  have w: "cv_name ?w = Some (n @ [0])" "c_string (n @ [0])" "cv_value ?w = Text data" "length (c_str data) < 2 ^ 60"
    using data by (simp_all add: c_string_def)
  have tv: "conf_typed (length (db_stacks conf1)) sv" "conf_key sv = (Some (c_str sect), None)"
    using cur new(4) by (simp_all add: current_def)
  from add_string_ok [OF h new(2) n1 tv w(1-3) data(2) w(4)] obtain conf3 where add:
    "add_string h conf1 sv ?w = Some (True, ?w\<lparr>cv_section := Some (c_str sect @ [0])\<rparr>, conf3)" "conf_ok conf3"
    "conf_map conf3 = (conf_map conf1)(c_str sect := (conf_map conf1 (c_str sect))(Some (c_str (n @ [0])) \<mapsto> ?w\<lparr>cv_section := Some (c_str sect @ [0])\<rparr>))"
    "db_objects conf3 = db_objects conf1" "length (db_stacks conf3) = length (db_stacks conf1)" by blast
  have cn: "c_str (n @ [0]) = n" by (rule c_str_append [OF name_no_nul_all [OF nv(1)]])
  have "c_strcmp sect sect = 0" by (simp add: c_strcmp_zero)
  then have "assign_line h conf sect sv b 0 = Some (True, conf3, ?b)"
    using new(1) name data(1) add(1) by (simp add: assign_line_def split Let_def)
  then have "load_line h conf sect sv b = Some (True, conf3, sect, sv, ?b)"
    using first by (simp add: load_line_def Let_def cc w0)
  moreover have "conf_string conf3 = (conf_string conf)(c_str sect := (conf_string conf (c_str sect))(n \<mapsto> v))"
    using add(3) cn new(3) data(3) by (auto simp: conf_string_def fun_eq_iff)
  ultimately show ?thesis using add new cur bb cn by (auto simp: current_def)
qed

section \<open>Loading a file\<close>

lemma item_text_plain:
  assumes "item_ok it"
  shows "0 \<notin> set (item_text it)" and "10 \<notin> set (item_text it)" and "length (item_text it) < 510" and "item_text it \<noteq> []"
    and "last (item_text it) \<noteq> 92 \<and> last (item_text it) \<noteq> 13 \<and> last (item_text it) \<noteq> 10"
proof -
  have n: "list_all IS_ALPHA_NUMERIC n \<Longrightarrow> 0 \<notin> set n \<and> 10 \<notin> set n" for n
    using alpha_plain by (auto simp: list_all_iff)
  show "0 \<notin> set (item_text it)" "10 \<notin> set (item_text it)" "length (item_text it) < 510" "item_text it \<noteq> []"
    "last (item_text it) \<noteq> 92 \<and> last (item_text it) \<noteq> 13 \<and> last (item_text it) \<noteq> 10"
    using assms n escape_no by (cases it; auto)+
qed

lemma line_length_newline: "10 \<notin> set x \<Longrightarrow> line_length (x @ 10 # y) = length x + 1"
  by (induction x) auto

lemma piece_item:
  assumes "item_ok it"
  shows "piece 511 (item_text it @ 10 # r) = item_text it @ [10]"
proof -
  note it = item_text_plain [OF assms]
  let ?x = "item_text it"
  have "take 510 (?x @ 10 # r) = ?x @ 10 # take (509 - length ?x) r"
  proof -
    have "510 - length ?x = Suc (509 - length ?x)" using it(3) by simp
    then show ?thesis using it(3) by simp
  qed
  then show ?thesis unfolding piece_def by (simp add: line_length_newline [OF it(2)])
qed

lemma strip_item:
  assumes "item_ok it"
  shows "strip (item_text it @ [10]) = item_text it"
proof -
  note it = item_text_plain [OF assms]
  obtain w c where x: "item_text it = w @ [c]" using it(4) by (cases "item_text it" rule: rev_cases) auto
  have "c \<noteq> 13" "c \<noteq> 10" using it(5) x by simp_all
  then show ?thesis unfolding strip_def x by (simp add: chr_def nth_append)
qed

lemma join_item:
  assumes "item_ok it"
  shows "join_piece [] False (item_text it @ [10]) = Some (False, item_text it, False)"
  using item_text_plain [OF assms] by (simp add: join_piece_def strip_item [OF assms] Let_def)

context line_source begin

lemma load_items:
  assumes h: "plenty h"
  shows "reading_line ld [] \<Longrightarrow> \<not> ld_again ld \<Longrightarrow> conf_ok (ld_conf ld) \<Longrightarrow> current (ld_conf ld) (ld_section ld) (ld_sv ld) \<Longrightarrow>
    valid (ld_in ld) \<Longrightarrow> rest (ld_in ld) = file_text its \<Longrightarrow> list_all item_ok its \<Longrightarrow> length (file_text its) < INT_MAX \<Longrightarrow>
    db_objects (ld_conf ld) + 2 * length its < 2 ^ 50 \<Longrightarrow>
    \<exists>ld'. load_loop h gets ld = Some (Some (True, ld')) \<and> conf_ok (ld_conf ld') \<and> ld_eline ld' = ld_eline ld + length its \<and>
      conf_string (ld_conf ld') = conf_meaning (c_str (ld_section ld)) (conf_string (ld_conf ld)) its \<and>
      (\<forall>x. (conf_map (ld_conf ld') x None \<noteq> None) = (x \<in> conf_sections its \<or> conf_map (ld_conf ld) x None \<noteq> None))"
proof (induction its arbitrary: ld)
  case Nil
  have "length ([] :: u8 list) + length (rest (ld_in ld)) < INT_MAX" using Nil(6) by (simp add: file_text_def INT_MAX_def)
  note rm = read_more_ok [OF plenty_alloc [OF h] Nil(1,5) this]
  have t: "c_str (piece 511 (rest (ld_in ld)) @ [0]) = []" using Nil(6) by (simp add: file_text_def piece_def c_str_def)
  from rm obtain ld' where "read_more (h_malloc h) gets ld = Some (Leave (True, ld'))" "ld_conf ld' = ld_conf ld" "ld_eline ld' = ld_eline ld"
    unfolding t using Nil(2) by (auto simp: join_piece_def)
  then show ?case using Nil(3) by (subst load_loop.simps) (simp add: load_step_def)
next
  case (Cons it its)
  let ?x = "item_text it"
  have it: "item_ok it" using Cons(8) by simp
  note plain = item_text_plain [OF it]
  have r: "rest (ld_in ld) = ?x @ 10 # file_text its" using Cons(7) by (simp add: file_text_def)
  have n: "length ([] :: u8 list) + length (rest (ld_in ld)) < INT_MAX" using Cons(7,9) by simp
  note rm = read_more_ok [OF plenty_alloc [OF h] Cons(2,6) n]
  have p: "piece 511 (rest (ld_in ld)) = ?x @ [10]" unfolding r by (rule piece_item [OF it])
  have "0 \<notin> set (?x @ [10])" using plain(1) by simp
  then have t: "c_str (piece 511 (rest (ld_in ld)) @ [0]) = ?x @ [10]" unfolding p by (rule c_str_append)
  have "ld_again ld = False" using Cons(3) by simp
  with rm obtain ld1 z where ld1: "read_more (h_malloc h) gets ld = Some (Go_on (True, ld1))" "ld_conf ld1 = ld_conf ld"
    "ld_section ld1 = ld_section ld" "ld_sv ld1 = ld_sv ld" "ld_in ld1 = snd (gets (ld_in ld) 511)" "\<not> ld_again ld1"
    "ld_eline ld1 = Suc (ld_eline ld)" "reading_line ld1 []" "bm_data (ld_buff ld1) = ?x @ 0 # z"
    unfolding t \<open>ld_again ld = False\<close> join_item [OF it] by auto
  have src: "valid (ld_in ld1)" "rest (ld_in ld1) = file_text its"
    using gets_valid [OF Cons(6), of 511] gets_rest [OF Cons(6), of 511] unfolding ld1(5) r piece_item [OF it] by simp_all
  let ?conf = "ld_conf ld" and ?sect = "ld_section ld" and ?sv = "ld_sv ld"
  have small: "db_objects ?conf < 2 ^ 50" using Cons(10) by simp
  have "\<exists>conf' sect' sv' b'. load_line h ?conf ?sect ?sv (?x @ 0 # z) = Some (True, conf', sect', sv', b') \<and> conf_ok conf' \<and>
      current conf' sect' sv' \<and> length b' = length (?x @ 0 # z) \<and> db_objects conf' \<le> db_objects ?conf + 2 \<and>
      conf_meaning (c_str sect') (conf_string conf') its = conf_meaning (c_str ?sect) (conf_string ?conf) (it # its) \<and>
      (\<forall>x. (x \<in> conf_sections its \<or> conf_map conf' x None \<noteq> None) = (x \<in> conf_sections (it # its) \<or> conf_map ?conf x None \<noteq> None))"
  proof (cases it)
    case (Header s)
    from load_header [OF h Cons(4) small it [unfolded Header] refl, of ?sect ?sv z] obtain conf' sect' sv' b' where
      "load_line h ?conf ?sect ?sv (item_text (Header s) @ 0 # z) = Some (True, conf', sect', sv', b')" "conf_ok conf'"
      "current conf' sect' sv'" "c_str sect' = s" "length b' = length (item_text (Header s) @ 0 # z)" "db_objects conf' \<le> db_objects ?conf + 2"
      "conf_string conf' = conf_string ?conf" "\<forall>x. (conf_map conf' x None \<noteq> None) = (x = s \<or> conf_map ?conf x None \<noteq> None)" by blast
    then show ?thesis unfolding Header by (intro exI [of _ conf'] exI [of _ sect'] exI [of _ sv'] exI [of _ b']) auto
  next
    case (Assign m v)
    from load_assign [OF h Cons(4) small Cons(5) it [unfolded Assign] refl, of z] obtain conf' b' where
      "load_line h ?conf ?sect ?sv (item_text (Assign m v) @ 0 # z) = Some (True, conf', ?sect, ?sv, b')" "conf_ok conf'"
      "current conf' ?sect ?sv" "length b' = length (item_text (Assign m v) @ 0 # z)" "db_objects conf' \<le> db_objects ?conf + 2"
      "conf_string conf' = (conf_string ?conf)(c_str ?sect := (conf_string ?conf (c_str ?sect))(m \<mapsto> v))"
      "\<forall>x. conf_map conf' x None = conf_map ?conf x None" by blast
    then show ?thesis unfolding Assign by (intro exI [of _ conf'] exI [of _ ?sect] exI [of _ ?sv] exI [of _ b']) auto
  qed
  then obtain conf' sect' sv' b' where line: "load_line h ?conf ?sect ?sv (?x @ 0 # z) = Some (True, conf', sect', sv', b')" "conf_ok conf'"
    "current conf' sect' sv'" "length b' = length (?x @ 0 # z)" "db_objects conf' \<le> db_objects ?conf + 2"
    "conf_meaning (c_str sect') (conf_string conf') its = conf_meaning (c_str ?sect) (conf_string ?conf) (it # its)"
    "\<forall>x. (x \<in> conf_sections its \<or> conf_map conf' x None \<noteq> None) = (x \<in> conf_sections (it # its) \<or> conf_map ?conf x None \<noteq> None)" by blast
  let ?ld = "ld1\<lparr>ld_conf := conf', ld_section := sect', ld_sv := sv', ld_buff := (ld_buff ld1)\<lparr>bm_data := b'\<rparr>\<rparr>"
  have step: "load_step h gets ld = Some (Go_on ?ld)"
    unfolding load_step_def ld1(1) option.case flow.case prod.case bool.case ld1(2-4,9) line(1) Let_def by simp
  have "reading_line ?ld []" using ld1(8,9) line(4) by (simp add: reading_line_def buf_mem_ok_def)
  moreover have "length (file_text its) < INT_MAX" using Cons(9) by (simp add: file_text_def)
  moreover have "db_objects conf' + 2 * length its < 2 ^ 50" using Cons(10) line(5) by simp
  ultimately obtain ld' where "load_loop h gets ?ld = Some (Some (True, ld'))" "conf_ok (ld_conf ld')" "ld_eline ld' = ld_eline ?ld + length its"
    "conf_string (ld_conf ld') = conf_meaning (c_str sect') (conf_string conf') its"
    "\<forall>x. (conf_map (ld_conf ld') x None \<noteq> None) = (x \<in> conf_sections its \<or> conf_map conf' x None \<noteq> None)"
    using Cons(1) [of ?ld] ld1(6) line(2,3) src Cons(8) by auto
  then show ?case using line(6,7) ld1(7) by (subst load_loop.simps) (simp add: step)
qed

lemma def_load_bio_items:
  assumes h: "plenty h" and conf: "conf_ok conf" and inp: "valid inp" and its: "rest inp = file_text its" "list_all item_ok its"
    and n: "length (file_text its) < INT_MAX" "db_objects conf < 2 ^ 40"
  shows "\<exists>conf' inp'. def_load_bio h gets conf inp = Some (Some (True, length its, conf', inp')) \<and> conf_ok conf' \<and>
    conf_string conf' = conf_meaning (c_str default_name) (conf_string conf) its \<and>
    (\<forall>x. (conf_map conf' x None \<noteq> None) = (x \<in> insert (c_str default_name) (conf_sections its) \<or> conf_map conf x None \<noteq> None))"
proof -
  have "db_objects conf < 2 ^ 59" using n(2) by simp
  from start_loading [OF h conf this] obtain buff sv conf1 where
    s: "BUF_MEM_new (h_malloc h) = Some buff" "OPENSSL_strdup (h_malloc h) (Some default_name) = Some default_name"
      "NCONF_new_section h conf default_name = Some (Some sv, conf1)" "conf_ok conf1" "current conf1 default_name sv"
      "db_objects conf1 = Suc (db_objects conf)" "conf_string conf1 = conf_string conf"
      "\<forall>x. (conf_map conf1 x None \<noteq> None) = (x = c_str default_name \<or> conf_map conf x None \<noteq> None)"
      "\<And>ld :: 's loader. ld_buff ld = buff \<Longrightarrow> ld_bufnum ld = 0 \<Longrightarrow> reading_line ld []" by blast
  let ?ld = "\<lparr>ld_conf = conf1, ld_in = inp, ld_buff = buff, ld_bufnum = 0, ld_again = False, ld_eline = 0,
      ld_section = default_name, ld_sv = sv\<rparr>"
  have "length its \<le> length (file_text its)" by (induction its) (simp_all add: file_text_def)
  then have "db_objects conf1 + 2 * length its < 2 ^ 50" using n s(6) by (simp add: INT_MAX_def)
  with load_items [OF h, of ?ld its] s inp its n(1) obtain ld' where
    "load_loop h gets ?ld = Some (Some (True, ld'))" "conf_ok (ld_conf ld')" "ld_eline ld' = length its"
    "conf_string (ld_conf ld') = conf_meaning (c_str default_name) (conf_string conf) its"
    "\<forall>x. (conf_map (ld_conf ld') x None \<noteq> None) = (x \<in> conf_sections its \<or> conf_map conf1 x None \<noteq> None)" by auto
  then show ?thesis using s(8) by (auto simp: def_load_bio_def s(1-3))
qed

end

end
