(* ===== verification/Conf_List.thy ===== *)
theory Conf_List
  imports Conf_Spec
begin

text \<open>
  \<open>CONF_parse_list\<close> against a reference on strings: the list is cut at the separators, white
  space is removed at both ends of every member if that is asked for, and the callback sees
  the members in order until it returns zero or less.
\<close>

fun pieces_at :: "u8 \<Rightarrow> u8 list \<Rightarrow> u8 list list" where
  "pieces_at sep [] = [[]]"
| "pieces_at sep (c # s) = (if c = sep then [] # pieces_at sep s else (case pieces_at sep s of [] \<Rightarrow> [[c]] | m # ms \<Rightarrow> (c # m) # ms))"

definition rstrip :: "u8 list \<Rightarrow> u8 list" where
  "rstrip m = rev (dropWhile c_isspace (rev m))"

definition element :: "bool \<Rightarrow> u8 list \<Rightarrow> u8 list" where
  "element ws m = (if ws then rstrip (dropWhile c_isspace m) else m)"

text \<open>The calls for the members, and what the whole returns.\<close>

fun visit :: "(u8 list \<Rightarrow> 'w \<Rightarrow> int \<times> 'w) \<Rightarrow> u8 list list \<Rightarrow> 'w \<Rightarrow> int \<times> 'w" where
  "visit f [] w = (1, w)"
| "visit f (m # ms) w = (case f m w of (ret, w) \<Rightarrow> if ret \<le> 0 then (ret, w) else visit f ms w)"

text \<open>A callback that looks at the bytes of its member only.\<close>

definition element_cb :: "(u8 list \<Rightarrow> 'w \<Rightarrow> int \<times> 'w) \<Rightarrow> 'w list_cb" where
  "element_cb f elem len w = (case elem of None \<Rightarrow> f [] w | Some e \<Rightarrow> f (take (nat len) e) w)"

lemma pieces_at_not_Nil: "pieces_at sep s \<noteq> []"
  by (cases s) (auto split: list.splits)

lemma pieces_at_none: "sep \<notin> set s \<Longrightarrow> pieces_at sep s = [s]"
  by (induction s) auto

lemma pieces_at_append: "sep \<notin> set a \<Longrightarrow> pieces_at sep (a @ sep # r) = a # pieces_at sep r"
  by (induction a) auto

lemma space_no_nul: "\<not> c_isspace 0"
  by (simp add: c_isspace_def)

lemma skip_spaces_eq: "drop p b = a @ c # z \<Longrightarrow> \<not> c_isspace c \<Longrightarrow> 0 \<notin> set a \<Longrightarrow> skip_spaces b p = p + length (takeWhile c_isspace a)"
proof (induction a arbitrary: p)
  case Nil
  then show ?case using chr_drop(1) [of p b c z] by (subst skip_spaces.simps) simp
next
  case (Cons x a)
  have d: "drop p b = x # a @ c # z" using Cons(2) by simp
  show ?case using Cons(1) [OF chr_drop(2) [OF d]] Cons(3,4) chr_drop(1) [OF d] by (subst skip_spaces.simps) auto
qed

lemma strchr_found: "drop p b = a @ c # z \<Longrightarrow> c \<notin> set a \<Longrightarrow> 0 \<notin> set a \<Longrightarrow> c_strchr b p c = Some (p + length a)"
proof (induction a arbitrary: p)
  case Nil
  then show ?case using chr_drop(1) [of p b c z] by (subst c_strchr.simps) simp
next
  case (Cons x a)
  have d: "drop p b = x # a @ c # z" using Cons(2) by simp
  show ?case using Cons(1) [OF chr_drop(2) [OF d]] Cons(3,4) chr_drop(1) [OF d] by (subst c_strchr.simps) auto
qed

lemma strchr_none: "drop p b = a @ 0 # z \<Longrightarrow> c \<notin> set a \<Longrightarrow> 0 \<notin> set a \<Longrightarrow> c \<noteq> 0 \<Longrightarrow> c_strchr b p c = None"
proof (induction a arbitrary: p)
  case Nil
  then show ?case using chr_drop(1) [of p b 0 z] by (subst c_strchr.simps) simp
next
  case (Cons x a)
  have d: "drop p b = x # a @ 0 # z" using Cons(2) by simp
  show ?case using Cons(1) [OF chr_drop(2) [OF d]] Cons(3-5) chr_drop(1) [OF d] by (subst c_strchr.simps) auto
qed

lemma strip_spaces_step: "c_isspace (chr b e) \<Longrightarrow> 0 < e \<Longrightarrow> strip_spaces b e = strip_spaces b (e - 1)"
  "\<not> c_isspace (chr b e) \<Longrightarrow> strip_spaces b e = Some e"
  by (cases e; simp)+

lemma strip_spaces_eq:
  "drop p b = a @ z \<Longrightarrow> a \<noteq> [] \<Longrightarrow> \<not> c_isspace (hd a) \<Longrightarrow> strip_spaces b (p + length a - 1) = Some (p + length (rstrip a) - 1) \<and> rstrip a \<noteq> []"
proof (induction a arbitrary: z rule: rev_induct)
  case (snoc x a)
  have "drop (p + length a) b = x # z" using snoc(2) by (metis add.commute append.assoc append_Cons append_Nil append_eq_conv_conj drop_drop)
  then have x: "chr b (p + length a) = x" by (rule chr_drop(1))
  show ?case
  proof (cases "c_isspace x")
    case True
    then have a: "a \<noteq> []" using snoc(4) by auto
    then have "\<not> c_isspace (hd a)" using snoc(4) by simp
    moreover have "drop p b = a @ x # z" using snoc(2) by simp
    ultimately have IH: "strip_spaces b (p + length a - 1) = Some (p + length (rstrip a) - 1)" "rstrip a \<noteq> []"
      using snoc(1) a by blast+
    have r: "rstrip (a @ [x]) = rstrip a" using True by (simp add: rstrip_def)
    have "strip_spaces b (p + length a) = strip_spaces b (p + length a - 1)"
      by (rule strip_spaces_step(1)) (use True x a in auto)
    then show ?thesis using IH r by simp
  next
    case False
    then have "rstrip (a @ [x]) = a @ [x]" by (simp add: rstrip_def)
    moreover have "strip_spaces b (p + length a) = Some (p + length a)" using strip_spaces_step(2) False x by simp
    ultimately show ?thesis by simp
  qed
qed simp

lemma rstrip_prefix: "take (length (rstrip m)) m = rstrip m"
proof -
  have "rev (dropWhile c_isspace (rev m)) @ rev (takeWhile c_isspace (rev m)) = m"
    by (metis rev_append rev_rev_ident takeWhile_dropWhile_id)
  then show ?thesis unfolding rstrip_def by (metis append_eq_conv_conj)
qed

lemma rstrip_le: "length (rstrip m) \<le> length m"
  using length_dropWhile_le [of c_isspace "rev m"] by (simp add: rstrip_def)

text \<open>The callback for one member, which ends at \<open>c\<close>.\<close>

lemma parse_element:
  assumes d: "drop l b = a @ c # z" and a: "0 \<notin> set a" "sep \<notin> set a" and c: "c = sep \<or> c = 0" "sep \<noteq> 0" "ws \<longrightarrow> \<not> c_isspace sep"
  defines "l' \<equiv> if ws then skip_spaces b l else l" and "p \<equiv> if c = sep then Some (l + length a) else None"
  shows "c_strchr b l' sep = p" and
    "(if p = Some l' \<or> chr b l' = 0 then Some (element_cb f None 0 w)
      else
        let tmpend = (case p of Some p \<Rightarrow> p - 1 | None \<Rightarrow> l' + c_strlen (drop l' b) - 1)
        in case (if ws then strip_spaces b tmpend else Some tmpend) of
             None \<Rightarrow> None
           | Some tmpend \<Rightarrow> Some (element_cb f (Some (drop l' b)) (int tmpend - int l' + 1) w)) = Some (f (element ws a) w)"
proof -
  define a' where "a' = (if ws then dropWhile c_isspace a else a)"
  have sp: "\<not> c_isspace c" if ws using c that space_no_nul by auto
  obtain u where u: "a = u @ a'" "l' = l + length u"
  proof
    show "a = (if ws then takeWhile c_isspace a else []) @ a'" by (simp add: a'_def)
    show "l' = l + length (if ws then takeWhile c_isspace a else [])"
      using skip_spaces_eq [OF d sp a(1)] by (auto simp: l'_def)
  qed
  have d': "drop l' b = a' @ c # z"
  proof -
    have "drop l' b = drop (length u) (drop l b)" by (simp add: u(2) add.commute)
    then show ?thesis using d u(1) by simp
  qed
  have a0: "0 \<notin> set a'" "sep \<notin> set a'" using a unfolding u(1) by auto
  have e: "l + length a = l' + length a'" using arg_cong [OF u(1), of length] u(2) by simp
  show "c_strchr b l' sep = p"
    using c strchr_found [of l' b a' sep z] strchr_none [of l' b a' z sep] d' a0 e by (auto simp: p_def)
  have m: "element ws a = (if ws then rstrip a' else a')" by (simp add: element_def a'_def)
  show "(if p = Some l' \<or> chr b l' = 0 then Some (element_cb f None 0 w)
      else
        let tmpend = (case p of Some p \<Rightarrow> p - 1 | None \<Rightarrow> l' + c_strlen (drop l' b) - 1)
        in case (if ws then strip_spaces b tmpend else Some tmpend) of
             None \<Rightarrow> None
           | Some tmpend \<Rightarrow> Some (element_cb f (Some (drop l' b)) (int tmpend - int l' + 1) w)) = Some (f (element ws a) w)"
  proof (cases "a' = []")
    case True
    then have "p = Some l' \<or> chr b l' = 0" using c(1) e chr_drop(1) d' by (auto simp: p_def)
    moreover have "element ws a = []" using m True by (simp add: rstrip_def)
    ultimately show ?thesis by (simp add: element_cb_def)
  next
    case False
    have pn: "p \<noteq> Some l'" using e False by (auto simp: p_def)
    have cn: "chr b l' \<noteq> 0" using d' a0 False chr_drop(1) by (cases a') auto
    have te: "(case p of Some p \<Rightarrow> p - 1 | None \<Rightarrow> l' + c_strlen (drop l' b) - 1) = l' + length a' - 1"
      using e c(1) c_strlen_append [OF a0(1), of z] d' by (auto simp: p_def)
    let ?k = "length (element ws a)"
    have hd: "ws \<Longrightarrow> \<not> c_isspace (hd a')" using False by (auto simp: a'_def hd_dropWhile)
    have k: "(if ws then strip_spaces b (l' + length a' - 1) else Some (l' + length a' - 1)) = Some (l' + ?k - 1)" "0 < ?k"
      using strip_spaces_eq [OF d' False hd] m False by auto
    have "take ?k (drop l' b) = element ws a"
      unfolding d' using m rstrip_prefix [of a'] rstrip_le [of a'] by simp
    moreover have "nat (int (l' + ?k - 1) - int l' + 1) = ?k" using k(2) by linarith
    ultimately show ?thesis using pn cn unfolding Let_def te k(1) by (simp add: element_cb_def)
  qed
qed

lemma parse_list_loop_eq:
  "drop l b = s @ 0 # z \<Longrightarrow> 0 \<notin> set s \<Longrightarrow> sep \<noteq> 0 \<Longrightarrow> ws \<longrightarrow> \<not> c_isspace sep \<Longrightarrow>
    parse_list_loop b sep ws (element_cb f) l w = Some (visit f (map (element ws) (pieces_at sep s)) w)"
proof (induction "length s" arbitrary: l s w rule: less_induct)
  case less
  note d = less(2)
  have in_b: "\<not> \<not> l < length b" using arg_cong [OF d, of length] by simp
  show ?case
  proof (cases "sep \<in> set s")
    case True
    then obtain a t where s: "s = a @ sep # t" "sep \<notin> set a" by (auto dest: split_list_first)
    obtain ret w' where r: "f (element ws a) w = (ret, w')" by (cases "f (element ws a) w")
    have da: "drop l b = a @ sep # (t @ 0 # z)" using d s by simp
    have a0: "0 \<notin> set a" using less(3) s by simp
    note pm = parse_element(1) [OF da a0 s(2) disjI1 [OF refl] less(4,5)] parse_element(2) [OF da a0 s(2) disjI1 [OF refl] less(4,5), of f w]
    have "drop (l + length a + 1) b = t @ 0 # z"
      using arg_cong [OF da, of "drop (length a + 1)"] by (simp add: add.commute)
    then have IH: "parse_list_loop b sep ws (element_cb f) (l + length a + 1) w' = Some (visit f (map (element ws) (pieces_at sep t)) w')"
      by (intro less(1)) (use s less(3-5) in auto)
    show ?thesis
      unfolding parse_list_loop.simps [of b sep ws "element_cb f" l w] Let_def pm(1) if_not_P [OF in_b] pm(2) [unfolded Let_def]
      using r IH by (simp add: s(1) pieces_at_append [OF s(2)])
  next
    case False
    obtain ret w' where r: "f (element ws s) w = (ret, w')" by (cases "f (element ws s) w")
    note pm = parse_element(1) [OF d less(3) False disjI2 [OF refl] less(4,5)] parse_element(2) [OF d less(3) False disjI2 [OF refl] less(4,5), of f w]
    show ?thesis
      unfolding parse_list_loop.simps [of b sep ws "element_cb f" l w] Let_def pm(1) if_not_P [OF in_b] pm(2) [unfolded Let_def]
      using r less(4) by (simp add: pieces_at_none [OF False])
  qed
qed

end
