(* ===== verification/Conf_Props.thy ===== *)
theory Conf_Props
  imports Conf_Format Conf_List
begin

text \<open>
  The properties of the configuration loader (\<open>crypto/conf/conf.c\<close>), with the files read
  from memory BIOs (\<open>crypto/bio/bio_mem.c\<close>).
\<close>

section \<open>A BIO and a database to start from\<close>




text \<open>An allocator that always serves, and an empty database, for the examples.\<close>

definition plain_heap :: "CONF_VALUE heap" where
  "plain_heap = \<lparr>h_malloc = \<lambda>n. if n < 2 ^ 63 then Some (replicate n 7) else None, h_ptr = \<lambda>_. None\<rparr>"

definition no_conf :: conf where
  "no_conf = \<lparr>db_table = \<lparr>lh_items = 0, lh_buckets = replicate 16 [], lh_num_buckets = 16, lh_depth = 0, lh_comp = (), lh_hash = ()\<rparr>,
     db_stacks = [], db_objects = 0, db_freed = []\<rparr>"

lemma plain_heap_plenty: "plenty plain_heap"
  by (simp add: plenty_def malloc_ok_def plain_heap_def)

lemma no_conf_ok: "conf_ok no_conf" "db_objects no_conf = 0"
  by (auto simp: conf_inv_def lh_ok_def no_conf_def placed_def kMinNumBuckets_def lh_data_def)

section \<open>Files\<close>







section \<open>Values and lists\<close>

text \<open>C14: \<open>str_copy\<close> computes the text of a value: on any line in which a NUL ends the value, at any
  position, and with any database in order, while memory does not run out, it returns what the reference
  on strings says (quotes removed, escapes translated, \<open>$name\<close>, \<open>${name}\<close>, \<open>$(name)\<close> and
  \<open>$section::name\<close> replaced by their values), with a NUL behind it, and leaves the line as it was; it
  fails exactly if the reference does: a variable is unknown, a brace is not closed, or after the
  expansion of a variable the value with its NUL, with quotes and escapes still counted, is longer than
  65536 bytes.\<close>

theorem conf_value_exact:
  assumes "plenty h" and "conf_ok conf" and "0 \<notin> set s" and "length s < INT_MAX"
  shows "case value_text conf sect s of
      None \<Rightarrow> \<exists>b'. str_copy (h_malloc h) conf (Some sect) (before @ s @ 0 # after) (length before) = Some (None, b')
    | Some x \<Rightarrow> \<exists>data. str_copy (h_malloc h) conf (Some sect) (before @ s @ 0 # after) (length before) =
          Some (Some data, before @ s @ 0 # after) \<and> 0 \<in> set data \<and> c_str data = x"
  using str_copy_eq [OF assms(1,2) _ assms(3,4), of "length before" "before @ s @ 0 # after" after sect]
  by (auto simp: c_string_def split: option.splits)

theorem conf_value_exact_witness:
  "\<exists>data. str_copy (h_malloc plain_heap) no_conf (Some default_name) [97, 61, 39, 36, 39, 92, 110, 0] 2 =
     Some (Some data, [97, 61, 39, 36, 39, 92, 110, 0]) \<and> 0 \<in> set data \<and> c_str data = [36, 10]"
proof -
  have "value_text no_conf default_name [39, 36, 39, 92, 110] = Some [36, 10]"
    by (simp add: value_text_def conf_text.simps(2) is_quote_iff escaped_def)
  moreover have "0 \<notin> set [39, 36, 39, 92, 110 :: u8]" "length [39, 36, 39, 92, 110 :: u8] < INT_MAX"
    and l: "length [97, 61 :: u8] = 2" by (simp_all add: INT_MAX_def)
  ultimately show ?thesis
    using conf_value_exact [OF plain_heap_plenty no_conf_ok(1), of "[39, 36, 39, 92, 110]" default_name "[97, 61]" "[]", unfolded l]
    by simp
qed



section \<open>What the code does not keep\<close>

text \<open>A section of NULL, which the comment in \<open>conf.h\<close> allows for the default section, finds nothing:
  the lookup gives NULL or compares with NULL.\<close>

lemma conf_null_section:
  assumes conf: "conf_ok conf"
  shows "NCONF_get_string conf None n \<in> {None, Some Null}"
proof -
  let ?v = "\<lparr>cv_ptr = 0, cv_section = None, cv_name = n, cv_value = Null\<rparr>"
  have ok: "lh_ok conf_value_hash conf_key (db_table conf)" using conf by (simp add: conf_inv_def)
  have "lh_map conf_key (db_table conf) (conf_key ?v) = None"
  proof (rule ccontr)
    assume "\<not> ?thesis"
    then obtain x where "lh_map conf_key (db_table conf) (conf_key ?v) = Some x" by auto
    then have "x \<in> set (lh_data (db_table conf))" "conf_key x = conf_key ?v"
      using lh_map_iff [of conf_key "db_table conf" "conf_key ?v" x] ok by (auto simp: lh_ok_def)
    then show False using conf by (auto simp: conf_inv_def conf_typed_def conf_key_def)
  qed
  moreover have "lh_retrieve (\<lambda>_. conf_value_hash) (\<lambda>_. conf_value_cmp) (db_table conf) ?v =
      lh_map conf_key (db_table conf) (conf_key ?v)"
    by (rule conf_values.retrieve [OF ok]) simp_all
  ultimately show ?thesis by (simp add: NCONF_get_string_def lh_CONF_VALUE_retrieve_def)
qed

text \<open>A line of more than 510 bytes whose byte 510 is a backslash loses it: the backslash at the end of
  a piece is taken for one at the end of a line.\<close>

lemma conf_long_line:
  assumes m: "malloc_ok m" "\<forall>k < 2 ^ 63. m k \<noteq> None" and l: "reading_line ld []" "\<not> ld_again ld"
    and bio: "bio_ok (ld_in ld)" "bio_text (ld_in ld) = x @ 92 # y" "length (x @ 92 # y) < INT_MAX"
    and x: "length x = 509" "0 \<notin> set x" "10 \<notin> set x" "x ! 508 \<noteq> 92"
  shows "\<exists>ld'. read_more m bio_gets ld = Some (Go_on (False, ld')) \<and> reading_line ld' x \<and> bio_text (ld_in ld') = y"
proof -
  let ?b = "x @ [92]"
  have ll: "line_length a = length a" if "10 \<notin> set a" for a using that by (induction a) auto
  have "take 510 (x @ 92 # y) = ?b" using x(1) by simp
  then have piece: "piece 511 (x @ 92 # y) = ?b" using x(1,3) ll [of ?b] by (simp add: piece_def)
  have t: "c_str (?b @ [0]) = ?b" using x(2) c_str_append [of ?b "[]"] by simp
  have "strip_eol ?b (Suc (length x)) = Suc (length x)" unfolding strip_eol.simps by (simp add: chr_def)
  then have s: "strip ?b = ?b" by (simp add: strip_def)
  have "x \<noteq> []" "?b ! (length ?b - 2) = x ! 508" using x(1) by (auto simp: nth_append)
  then have j: "join_piece [] False ?b = Some (True, x, True)" using s x(1,4) by (simp add: join_piece_def)
  have "length [] + length (bio_text (ld_in ld)) < INT_MAX" using bio(2,3) by simp
  from bio_lines.read_more_ok [OF m l(1) bio(1) this, unfolded bio(2) piece t] l(2) j obtain ld' where
    r: "read_more m bio_gets ld = Some (Go_on (False, ld'))" "reading_line ld' x" "ld_in ld' = snd (bio_gets (ld_in ld) 511)" by auto
  have "bio_text (ld_in ld') = drop (length ?b) (x @ 92 # y)"
    using bio_lines.gets_rest [OF bio(1), of 511] unfolding r(3) bio(2) piece by simp
  then show ?thesis using r by simp
qed

end
