(* ===== verification/Pb_Field.thy ===== *)
theory Pb_Field
  imports Prelude
begin

text \<open>
  Field descriptors and the field iterator of \<open>nanopb/pb_common.c\<close>. A message type is the
  array of its descriptors, ended by one with tag 0; the iterator is a position in it with
  the addresses of the field's data and of its size, as offsets into the message structure.
\<close>

section \<open>Descriptors\<close>

record pb_field =
  f_tag :: nat
  f_type :: u8
  data_offset :: nat
  size_offset :: int
  data_size :: nat
  array_size :: nat
  f_ptr :: nat

definition PB_LTYPE :: "u8 \<Rightarrow> u8" where "PB_LTYPE x = x AND 0x0F"
definition PB_HTYPE :: "u8 \<Rightarrow> u8" where "PB_HTYPE x = x AND 0x30"
definition PB_ATYPE :: "u8 \<Rightarrow> u8" where "PB_ATYPE x = x AND 0xC0"

definition PB_LTYPE_BOOL :: u8 where "PB_LTYPE_BOOL = 0x00"
definition PB_LTYPE_VARINT :: u8 where "PB_LTYPE_VARINT = 0x01"
definition PB_LTYPE_UVARINT :: u8 where "PB_LTYPE_UVARINT = 0x02"
definition PB_LTYPE_SVARINT :: u8 where "PB_LTYPE_SVARINT = 0x03"
definition PB_LTYPE_FIXED32 :: u8 where "PB_LTYPE_FIXED32 = 0x04"
definition PB_LTYPE_FIXED64 :: u8 where "PB_LTYPE_FIXED64 = 0x05"
definition PB_LTYPE_BYTES :: u8 where "PB_LTYPE_BYTES = 0x06"
definition PB_LTYPE_STRING :: u8 where "PB_LTYPE_STRING = 0x07"
definition PB_LTYPE_SUBMESSAGE :: u8 where "PB_LTYPE_SUBMESSAGE = 0x08"
definition PB_LTYPE_EXTENSION :: u8 where "PB_LTYPE_EXTENSION = 0x09"
definition PB_LTYPE_FIXED_LENGTH_BYTES :: u8 where "PB_LTYPE_FIXED_LENGTH_BYTES = 0x0A"

definition PB_LTYPE_LAST_PACKABLE :: u8 where "PB_LTYPE_LAST_PACKABLE = 0x05"

definition PB_HTYPE_REQUIRED :: u8 where "PB_HTYPE_REQUIRED = 0x00"
definition PB_HTYPE_OPTIONAL :: u8 where "PB_HTYPE_OPTIONAL = 0x10"
definition PB_HTYPE_REPEATED :: u8 where "PB_HTYPE_REPEATED = 0x20"
definition PB_HTYPE_ONEOF :: u8 where "PB_HTYPE_ONEOF = 0x30"

definition PB_ATYPE_STATIC :: u8 where "PB_ATYPE_STATIC = 0x00"
definition PB_ATYPE_CALLBACK :: u8 where "PB_ATYPE_CALLBACK = 0x40"
definition PB_ATYPE_POINTER :: u8 where "PB_ATYPE_POINTER = 0x80"

definition PB_SIZE_MAX :: nat where
  "PB_SIZE_MAX = 2 ^ 32 - 1"

definition sizeof_voidp :: nat where
  "sizeof_voidp = 8"

section \<open>The iterator\<close>

text \<open>Addresses are relative to the message structure; the size may lie before the data.\<close>

record pb_field_iter =
  it_start :: "pb_field list"
  it_pos :: nat
  required_field_index :: nat
  it_pData :: int
  it_pSize :: int

definition field_at :: "pb_field_iter \<Rightarrow> pb_field" where
  "field_at iter = it_start iter ! it_pos iter"

definition pb_field_iter_begin :: "pb_field list \<Rightarrow> bool \<times> pb_field_iter" where
  "pb_field_iter_begin descs =
     (let pData = int (data_offset (descs ! 0))
      in (f_tag (descs ! 0) \<noteq> 0,
          \<lparr>it_start = descs, it_pos = 0, required_field_index = 0,
           it_pData = pData, it_pSize = pData + size_offset (descs ! 0)\<rparr>))"

text \<open>The distance from one field's data to the end of its place in the structure.\<close>

definition prev_size :: "pb_field \<Rightarrow> nat" where
  "prev_size prev =
     (if PB_ATYPE (f_type prev) = PB_ATYPE_STATIC \<and> PB_HTYPE (f_type prev) = PB_HTYPE_REPEATED
      then data_size prev * array_size prev
      else if PB_ATYPE (f_type prev) = PB_ATYPE_POINTER then sizeof_voidp
      else data_size prev)"

definition pb_field_iter_next :: "pb_field_iter \<Rightarrow> bool \<times> pb_field_iter" where
  "pb_field_iter_next iter =
     (let prev = field_at iter
      in if f_tag prev = 0 then (False, iter)
         else
           let iter = iter\<lparr>it_pos := it_pos iter + 1\<rparr>; cur = field_at iter
           in if f_tag cur = 0 then (False, snd (pb_field_iter_begin (it_start iter)))
              else if PB_HTYPE (f_type prev) = PB_HTYPE_ONEOF \<and> PB_HTYPE (f_type cur) = PB_HTYPE_ONEOF \<and>
                      data_offset cur = PB_SIZE_MAX
              then (True, iter)
              else
                let iter = (if PB_HTYPE (f_type prev) = PB_HTYPE_REQUIRED
                            then iter\<lparr>required_field_index := required_field_index iter + 1\<rparr> else iter);
                    pData = it_pData iter + int (prev_size prev) + int (data_offset cur)
                in (True, iter\<lparr>it_pData := pData, it_pSize := pData + size_offset cur\<rparr>))"

text \<open>The search goes round from \<open>start\<close>; \<open>n\<close> bounds the number of steps.\<close>

fun iter_find_loop :: "nat \<Rightarrow> nat \<Rightarrow> nat \<Rightarrow> pb_field_iter \<Rightarrow> (bool \<times> pb_field_iter) option" where
  "iter_find_loop 0 start tag iter = None"
| "iter_find_loop (Suc n) start tag iter =
     (if f_tag (field_at iter) = tag \<and> PB_LTYPE (f_type (field_at iter)) \<noteq> PB_LTYPE_EXTENSION
      then Some (True, iter)
      else
        let iter = snd (pb_field_iter_next iter)
        in if it_pos iter \<noteq> start then iter_find_loop n start tag iter else Some (False, iter))"

definition pb_field_iter_find :: "pb_field_iter \<Rightarrow> nat \<Rightarrow> (bool \<times> pb_field_iter) option" where
  "pb_field_iter_find iter tag =
     iter_find_loop (length (it_start iter)) (it_pos iter) tag iter"

end
