(* ===== verification/Pb_Read.thy ===== *)
theory Pb_Read
  imports Pb_Field
begin

text \<open>
  The input side of nanopb's wire format (\<open>nanopb/pb_decode.c\<close>), built as the Podfile's
  configuration builds it (64-bit integers, error messages, 32-bit field sizes): the
  input stream with its callback, the integer readers, tags, skipping and substreams.

  A stream's callback is the parameter \<open>src\<close>: it gets the state and the number of bytes
  and gives the bytes, or fails, with the new state; as its documentation asks, it leaves
  \<open>bytes_left\<close> alone. \<open>src_is_buf\<close> says that it is \<open>buf_read\<close>, which the code tests by
  comparing the pointer. A result \<open>None\<close> is the code's \<open>false\<close>.
\<close>

section \<open>Streams\<close>

record 's istream =
  is_state :: 's
  bytes_left :: nat
  is_errmsg :: "string option"

record 's source =
  src_is_buf :: bool
  src_read :: "'s \<Rightarrow> nat \<Rightarrow> u8 list option \<times> 's"

definition PB_RETURN_ERROR :: "'s istream \<Rightarrow> string \<Rightarrow> 'a option \<times> 's istream" where
  "PB_RETURN_ERROR stream msg =
     (None, stream\<lparr>is_errmsg := (case is_errmsg stream of None \<Rightarrow> Some msg | Some e \<Rightarrow> Some e)\<rparr>)"

text \<open>The state of a buffer stream is the memory from its pointer on.\<close>

definition buf_read :: "u8 list \<Rightarrow> nat \<Rightarrow> u8 list option \<times> u8 list" where
  "buf_read state count = (Some (take count state), drop count state)"

definition buf_source :: "u8 list source" where
  "buf_source = \<lparr>src_is_buf = True, src_read = buf_read\<rparr>"

text \<open>The rest of \<open>pb_read\<close> after the skipping special case.\<close>

definition read_checked :: "'s source \<Rightarrow> nat \<Rightarrow> 's istream \<Rightarrow> u8 list option \<times> 's istream" where
  "read_checked src count stream =
     (if bytes_left stream < count then PB_RETURN_ERROR stream ''end-of-stream''
      else case src_read src (is_state stream) count of
             (None, st) \<Rightarrow> PB_RETURN_ERROR (stream\<lparr>is_state := st\<rparr>) ''io error''
           | (Some bs, st) \<Rightarrow> (Some bs, stream\<lparr>is_state := st, bytes_left := bytes_left stream - count\<rparr>))"

definition pb_read :: "'s source \<Rightarrow> nat \<Rightarrow> 's istream \<Rightarrow> u8 list option \<times> 's istream" where
  "pb_read src count stream =
     (if count = 0 then (Some [], stream) else read_checked src count stream)"

text \<open>\<open>pb_read\<close> with a NULL buffer: a buffer stream moves its pointer, any other reads into
  sixteen bytes of scratch memory.\<close>

fun skip_input :: "'s source \<Rightarrow> nat \<Rightarrow> 's istream \<Rightarrow> unit option \<times> 's istream" where
  "skip_input src count stream =
     (if count > 16 then
        (case pb_read src 16 stream of
           (None, stream) \<Rightarrow> (None, stream)
         | (Some _, stream) \<Rightarrow> skip_input src (count - 16) stream)
      else (case pb_read src count stream of
              (None, stream) \<Rightarrow> (None, stream)
            | (Some _, stream) \<Rightarrow> (Some (), stream)))"

declare skip_input.simps [simp del]

definition pb_read_null :: "'s source \<Rightarrow> nat \<Rightarrow> 's istream \<Rightarrow> unit option \<times> 's istream" where
  "pb_read_null src count stream =
     (if count = 0 then (Some (), stream)
      else if \<not> src_is_buf src then skip_input src count stream
      else case read_checked src count stream of
             (None, stream) \<Rightarrow> (None, stream)
           | (Some _, stream) \<Rightarrow> (Some (), stream))"

definition pb_readbyte :: "'s source \<Rightarrow> 's istream \<Rightarrow> u8 option \<times> 's istream" where
  "pb_readbyte src stream =
     (if bytes_left stream = 0 then PB_RETURN_ERROR stream ''end-of-stream''
      else case src_read src (is_state stream) 1 of
             (None, st) \<Rightarrow> PB_RETURN_ERROR (stream\<lparr>is_state := st\<rparr>) ''io error''
           | (Some bs, st) \<Rightarrow> (Some (hd bs), stream\<lparr>is_state := st, bytes_left := bytes_left stream - 1\<rparr>))"

definition pb_istream_from_buffer :: "u8 list \<Rightarrow> nat \<Rightarrow> u8 list istream" where
  "pb_istream_from_buffer buf bufsize = \<lparr>is_state = buf, bytes_left = bufsize, is_errmsg = None\<rparr>"

lemma pb_readbyte_left:
  "pb_readbyte src stream = (Some b, stream') \<Longrightarrow> bytes_left stream' < bytes_left stream"
  by (auto simp: pb_readbyte_def PB_RETURN_ERROR_def split: if_splits prod.splits option.splits)

section \<open>Integers\<close>

text \<open>\<open>bitpos\<close> is a \<open>uint_fast8_t\<close>, eight bits wide on the targets, and wraps.\<close>

function varint32_loop :: "'s source \<Rightarrow> nat \<Rightarrow> u32 \<Rightarrow> 's istream \<Rightarrow> (u32 \<times> nat \<times> u8) option \<times> 's istream" where
  "varint32_loop src bitpos result stream =
     (case pb_readbyte src stream of
        (None, stream') \<Rightarrow> (None, stream')
      | (Some byte, stream') \<Rightarrow>
          if bitpos \<ge> 32 \<and>
             byte AND 0x7F \<noteq> 0 \<and>
             (drop_bit 31 result = 0 \<or> byte \<noteq> (if bitpos < 63 then 0xFF else 0x01))
          then PB_RETURN_ERROR stream' ''varint overflow''
          else
            let result = (if bitpos \<ge> 32 then result
                          else result OR push_bit bitpos (ucast (byte AND 0x7F)));
                bitpos = (bitpos + 7) mod 256
            in if byte AND 0x80 \<noteq> 0 then varint32_loop src bitpos result stream'
               else (Some (result, bitpos, byte), stream'))"
  by pat_completeness auto
termination
  by (relation "measure (\<lambda>(src, bitpos, result, stream). bytes_left stream)")
     (auto dest: pb_readbyte_left [OF sym] split: if_splits)

declare varint32_loop.simps [simp del]

text \<open>The last component is the value stored through \<open>eof\<close>, when it is stored.\<close>

definition pb_decode_varint32_eof :: "'s source \<Rightarrow> 's istream \<Rightarrow> u32 option \<times> 's istream \<times> bool" where
  "pb_decode_varint32_eof src stream =
     (case pb_readbyte src stream of
        (None, stream) \<Rightarrow> (None, stream, bytes_left stream = 0)
      | (Some byte, stream) \<Rightarrow>
          if byte AND 0x80 = 0 then (Some (ucast byte), stream, False)
          else
            (case varint32_loop src 7 (ucast (byte AND 0x7F)) stream of
               (None, stream) \<Rightarrow> (None, stream, False)
             | (Some (result, bitpos, byte), stream) \<Rightarrow>
                 if bitpos = 35 \<and> byte AND 0x70 \<noteq> 0
                 then (case PB_RETURN_ERROR stream ''varint overflow'' of (r, stream) \<Rightarrow> (r, stream, False))
                 else (Some result, stream, False)))"

definition pb_decode_varint32 :: "'s source \<Rightarrow> 's istream \<Rightarrow> u32 option \<times> 's istream" where
  "pb_decode_varint32 src stream =
     (case pb_decode_varint32_eof src stream of (r, stream, _) \<Rightarrow> (r, stream))"

function varint_loop :: "'s source \<Rightarrow> nat \<Rightarrow> u64 \<Rightarrow> 's istream \<Rightarrow> u64 option \<times> 's istream" where
  "varint_loop src bitpos result stream =
     (if bitpos \<ge> 64 then PB_RETURN_ERROR stream ''varint overflow''
      else case pb_readbyte src stream of
             (None, stream') \<Rightarrow> (None, stream')
           | (Some byte, stream') \<Rightarrow>
               let result = result OR push_bit bitpos (ucast (byte AND 0x7F));
                   bitpos = (bitpos + 7) mod 256
               in if byte AND 0x80 \<noteq> 0 then varint_loop src bitpos result stream'
                  else (Some result, stream'))"
  by pat_completeness auto
termination
  by (relation "measure (\<lambda>(src, bitpos, result, stream). bytes_left stream)")
     (auto dest: pb_readbyte_left [OF sym] split: if_splits)

declare varint_loop.simps [simp del]

definition pb_decode_varint :: "'s source \<Rightarrow> 's istream \<Rightarrow> u64 option \<times> 's istream" where
  "pb_decode_varint src stream = varint_loop src 0 0 stream"

lemma pb_read_one_left:
  "pb_read src 1 stream = (Some bs, stream') \<Longrightarrow> bytes_left stream' < bytes_left stream"
  by (auto simp: pb_read_def read_checked_def PB_RETURN_ERROR_def split: if_splits prod.splits option.splits)

function pb_skip_varint :: "'s source \<Rightarrow> 's istream \<Rightarrow> unit option \<times> 's istream" where
  "pb_skip_varint src stream =
     (case pb_read src 1 stream of
        (None, stream') \<Rightarrow> (None, stream')
      | (Some bs, stream') \<Rightarrow> if hd bs AND 0x80 \<noteq> 0 then pb_skip_varint src stream' else (Some (), stream'))"
  by pat_completeness auto
termination
  by (relation "measure (\<lambda>(src, stream). bytes_left stream)")
     (auto dest: pb_read_one_left [OF sym, unfolded One_nat_def])

declare pb_skip_varint.simps [simp del]

definition pb_skip_string :: "'s source \<Rightarrow> 's istream \<Rightarrow> unit option \<times> 's istream" where
  "pb_skip_string src stream =
     (case pb_decode_varint32 src stream of
        (None, stream) \<Rightarrow> (None, stream)
      | (Some len, stream) \<Rightarrow> pb_read_null src (unat len) stream)"

section \<open>Tags, skipping and substreams\<close>

text \<open>The wire types the code names; any other number is an error where it matters.\<close>

definition PB_WT_VARINT :: u32 where "PB_WT_VARINT = 0"
definition PB_WT_64BIT :: u32 where "PB_WT_64BIT = 1"
definition PB_WT_STRING :: u32 where "PB_WT_STRING = 2"
definition PB_WT_32BIT :: u32 where "PB_WT_32BIT = 5"

lemmas wire_types = PB_WT_VARINT_def PB_WT_64BIT_def PB_WT_STRING_def PB_WT_32BIT_def

text \<open>The wire type and the tag, and the value of \<open>eof\<close>.\<close>

definition pb_decode_tag :: "'s source \<Rightarrow> 's istream \<Rightarrow> (u32 \<times> u32) option \<times> bool \<times> 's istream" where
  "pb_decode_tag src stream =
     (case pb_decode_varint32_eof src stream of
        (None, stream, eof) \<Rightarrow> (None, eof, stream)
      | (Some temp, stream, eof) \<Rightarrow>
          if temp = 0 then (None, True, stream)
          else (Some (temp AND 7, drop_bit 3 temp), eof, stream))"

definition pb_skip_field :: "'s source \<Rightarrow> u32 \<Rightarrow> 's istream \<Rightarrow> unit option \<times> 's istream" where
  "pb_skip_field src wire_type stream =
     (if wire_type = PB_WT_VARINT then pb_skip_varint src stream
      else if wire_type = PB_WT_64BIT then pb_read_null src 8 stream
      else if wire_type = PB_WT_STRING then pb_skip_string src stream
      else if wire_type = PB_WT_32BIT then pb_read_null src 4 stream
      else PB_RETURN_ERROR stream ''invalid wire_type'')"

text \<open>The bytes of a varint read one by one, at most \<open>max_size\<close>; \<open>acc\<close> are those stored
  so far.\<close>

function raw_varint :: "'s source \<Rightarrow> nat \<Rightarrow> u8 list \<Rightarrow> 's istream \<Rightarrow> u8 list option \<times> 's istream" where
  "raw_varint src max_size acc stream =
     (if length acc + 1 > max_size then (None, stream)
      else case pb_read src 1 stream of
             (None, stream') \<Rightarrow> (None, stream')
           | (Some bs, stream') \<Rightarrow>
               if hd bs AND 0x80 \<noteq> 0 then raw_varint src max_size (acc @ [hd bs]) stream'
               else (Some (acc @ [hd bs]), stream'))"
  by pat_completeness auto
termination
  by (relation "measure (\<lambda>(src, max_size, acc, stream). max_size - length acc)") auto

declare raw_varint.simps [simp del]

definition read_raw_value :: "'s source \<Rightarrow> u32 \<Rightarrow> nat \<Rightarrow> 's istream \<Rightarrow> u8 list option \<times> 's istream" where
  "read_raw_value src wire_type max_size stream =
     (if wire_type = PB_WT_VARINT then raw_varint src max_size [] stream
      else if wire_type = PB_WT_64BIT then pb_read src 8 stream
      else if wire_type = PB_WT_32BIT then pb_read src 4 stream
      else PB_RETURN_ERROR stream ''invalid wire_type'')"

text \<open>The substream and the parent, which has already given up the substream's bytes.\<close>

definition pb_make_string_substream :: "'s source \<Rightarrow> 's istream \<Rightarrow> 's istream option \<times> 's istream" where
  "pb_make_string_substream src stream =
     (case pb_decode_varint32 src stream of
        (None, stream) \<Rightarrow> (None, stream)
      | (Some sz, stream) \<Rightarrow>
          if bytes_left stream < unat sz then PB_RETURN_ERROR stream ''parent stream too short''
          else (Some (stream\<lparr>bytes_left := unat sz\<rparr>), stream\<lparr>bytes_left := bytes_left stream - unat sz\<rparr>))"

definition pb_close_string_substream :: "'s source \<Rightarrow> 's istream \<Rightarrow> 's istream \<Rightarrow> unit option \<times> 's istream" where
  "pb_close_string_substream src substream stream =
     (case (if bytes_left substream \<noteq> 0 then pb_read_null src (bytes_left substream) substream
            else (Some (), substream)) of
        (None, _) \<Rightarrow> (None, stream)
      | (Some _, substream) \<Rightarrow>
          (Some (), stream\<lparr>is_state := is_state substream, is_errmsg := is_errmsg substream\<rparr>))"

section \<open>Field values\<close>

definition pb_decode_svarint :: "'s source \<Rightarrow> 's istream \<Rightarrow> u64 option \<times> 's istream" where
  "pb_decode_svarint src stream =
     (case pb_decode_varint src stream of
        (None, stream) \<Rightarrow> (None, stream)
      | (Some v, stream) \<Rightarrow>
          (Some (if v AND 1 \<noteq> 0 then NOT (drop_bit 1 v) else drop_bit 1 v), stream))"

definition pb_decode_fixed32 :: "'s source \<Rightarrow> 's istream \<Rightarrow> u32 option \<times> 's istream" where
  "pb_decode_fixed32 src stream =
     (case pb_read src 4 stream of
        (None, stream) \<Rightarrow> (None, stream)
      | (Some bs, stream) \<Rightarrow>
          (Some (ucast (bs ! 0) OR push_bit 8 (ucast (bs ! 1)) OR push_bit 16 (ucast (bs ! 2)) OR
                 push_bit 24 (ucast (bs ! 3))), stream))"

definition pb_decode_fixed64 :: "'s source \<Rightarrow> 's istream \<Rightarrow> u64 option \<times> 's istream" where
  "pb_decode_fixed64 src stream =
     (case pb_read src 8 stream of
        (None, stream) \<Rightarrow> (None, stream)
      | (Some bs, stream) \<Rightarrow>
          (Some (ucast (bs ! 0) OR push_bit 8 (ucast (bs ! 1)) OR push_bit 16 (ucast (bs ! 2)) OR
                 push_bit 24 (ucast (bs ! 3)) OR push_bit 32 (ucast (bs ! 4)) OR push_bit 40 (ucast (bs ! 5)) OR
                 push_bit 48 (ucast (bs ! 6)) OR push_bit 56 (ucast (bs ! 7))), stream))"

definition pb_dec_bool :: "'s source \<Rightarrow> 's istream \<Rightarrow> bool option \<times> 's istream" where
  "pb_dec_bool src stream =
     (case pb_decode_varint32 src stream of
        (None, stream) \<Rightarrow> (None, stream)
      | (Some v, stream) \<Rightarrow> (Some (v \<noteq> 0), stream))"

definition pb_decode_bool :: "'s source \<Rightarrow> 's istream \<Rightarrow> bool option \<times> 's istream" where
  "pb_decode_bool src stream = pb_dec_bool src stream"

text \<open>What a field of \<open>data_size\<close> bytes holds after a 64-bit number is stored in it; no other
  size occurs in a call.\<close>

definition store_int :: "nat \<Rightarrow> int \<Rightarrow> int" where
  "store_int dsize i =
     (if dsize = 8 then sint (word_of_int i :: u64)
      else if dsize = 4 then sint (word_of_int i :: u32)
      else if dsize = 2 then sint (word_of_int i :: u16)
      else sint (word_of_int i :: u8))"

definition store_nat :: "nat \<Rightarrow> nat \<Rightarrow> nat" where
  "store_nat dsize i =
     (if dsize = 8 then unat (word_of_nat i :: u64)
      else if dsize = 4 then unat (word_of_nat i :: u32)
      else if dsize = 2 then unat (word_of_nat i :: u16)
      else unat (word_of_nat i :: u8))"

definition pb_dec_varint :: "'s source \<Rightarrow> nat \<Rightarrow> 's istream \<Rightarrow> int option \<times> 's istream" where
  "pb_dec_varint src dsize stream =
     (case pb_decode_varint src stream of
        (None, stream) \<Rightarrow> (None, stream)
      | (Some v, stream) \<Rightarrow>
          let svalue = (if dsize = 8 then sint v else sint (ucast v :: u32))
          in if dsize \<notin> {8, 4, 2, 1} then PB_RETURN_ERROR stream ''invalid data_size''
             else
               let clamped = store_int dsize svalue
               in if clamped \<noteq> svalue then PB_RETURN_ERROR stream ''integer too large''
                  else (Some clamped, stream))"

definition pb_dec_uvarint :: "'s source \<Rightarrow> nat \<Rightarrow> 's istream \<Rightarrow> nat option \<times> 's istream" where
  "pb_dec_uvarint src dsize stream =
     (case pb_decode_varint src stream of
        (None, stream) \<Rightarrow> (None, stream)
      | (Some v, stream) \<Rightarrow>
          if dsize \<notin> {8, 4, 2, 1} then PB_RETURN_ERROR stream ''invalid data_size''
          else
            let clamped = store_nat dsize (unat v)
            in if clamped \<noteq> unat v then PB_RETURN_ERROR stream ''integer too large''
               else (Some clamped, stream))"

definition pb_dec_svarint :: "'s source \<Rightarrow> nat \<Rightarrow> 's istream \<Rightarrow> int option \<times> 's istream" where
  "pb_dec_svarint src dsize stream =
     (case pb_decode_svarint src stream of
        (None, stream) \<Rightarrow> (None, stream)
      | (Some v, stream) \<Rightarrow>
          if dsize \<notin> {8, 4, 2, 1} then PB_RETURN_ERROR stream ''invalid data_size''
          else
            let clamped = store_int dsize (sint v)
            in if clamped \<noteq> sint v then PB_RETURN_ERROR stream ''integer too large''
               else (Some clamped, stream))"

definition pb_dec_fixed32 :: "'s source \<Rightarrow> 's istream \<Rightarrow> u32 option \<times> 's istream" where
  "pb_dec_fixed32 src stream = pb_decode_fixed32 src stream"

definition pb_dec_fixed64 :: "'s source \<Rightarrow> 's istream \<Rightarrow> u64 option \<times> 's istream" where
  "pb_dec_fixed64 src stream = pb_decode_fixed64 src stream"

text \<open>A fixed-length bytes field of \<open>data_size\<close> bytes.\<close>

definition pb_dec_fixed_length_bytes :: "'s source \<Rightarrow> nat \<Rightarrow> 's istream \<Rightarrow> u8 list option \<times> 's istream" where
  "pb_dec_fixed_length_bytes src dsize stream =
     (case pb_decode_varint32 src stream of
        (None, stream) \<Rightarrow> (None, stream)
      | (Some sz, stream) \<Rightarrow>
          if unat sz > PB_SIZE_MAX then PB_RETURN_ERROR stream ''bytes overflow''
          else if sz = 0 then (Some (replicate dsize 0), stream)
          else if unat sz \<noteq> dsize then PB_RETURN_ERROR stream ''incorrect fixed length bytes size''
          else pb_read src dsize stream)"

section \<open>Bytes and strings\<close>

text \<open>\<open>realloc n\<close>: whether the allocator gives \<open>n\<close> bytes. The result is the number of bytes
  asked for.\<close>

definition allocate_field :: "(nat \<Rightarrow> bool) \<Rightarrow> nat \<Rightarrow> nat \<Rightarrow> 's istream \<Rightarrow> nat option \<times> 's istream" where
  "allocate_field realloc dsize asize stream =
     (if dsize = 0 \<or> asize = 0 then PB_RETURN_ERROR stream ''invalid size''
      else
        let check_limit = 2 ^ 32
        in if (dsize \<ge> check_limit \<or> asize \<ge> check_limit) \<and> (2 ^ 64 - 1) div asize < dsize
           then PB_RETURN_ERROR stream ''size too large''
           else if \<not> realloc (sz_mul asize dsize) then PB_RETURN_ERROR stream ''realloc failed''
           else (Some (sz_mul asize dsize), stream))"

text \<open>Where the bytes of a field go: a new allocation or the field's own \<open>data_size\<close> bytes.
  \<open>offsetof(pb_bytes_array_t, bytes)\<close> is four.\<close>

definition PB_BYTES_ARRAY_T_ALLOCSIZE :: "nat \<Rightarrow> nat" where
  "PB_BYTES_ARRAY_T_ALLOCSIZE n = sz_add n 4"

definition pb_dec_bytes :: "'s source \<Rightarrow> (nat \<Rightarrow> bool) \<Rightarrow> pb_field \<Rightarrow> 's istream \<Rightarrow> (nat \<times> u8 list) option \<times> 's istream" where
  "pb_dec_bytes src realloc field stream =
     (case pb_decode_varint32 src stream of
        (None, stream) \<Rightarrow> (None, stream)
      | (Some sz, stream) \<Rightarrow>
          if unat sz > PB_SIZE_MAX then PB_RETURN_ERROR stream ''bytes overflow''
          else
            let alloc_size = PB_BYTES_ARRAY_T_ALLOCSIZE (unat sz)
            in if unat sz > alloc_size then PB_RETURN_ERROR stream ''size too large''
               else
                 (case (if PB_ATYPE (f_type field) = PB_ATYPE_POINTER then
                          if bytes_left stream < unat sz then PB_RETURN_ERROR stream ''end-of-stream''
                          else allocate_field realloc alloc_size 1 stream
                        else if alloc_size > data_size field then PB_RETURN_ERROR stream ''bytes overflow''
                        else (Some (data_size field), stream)) of
                    (None, stream) \<Rightarrow> (None, stream)
                  | (Some _, stream) \<Rightarrow>
                      (case pb_read src (unat sz) stream of
                         (None, stream) \<Rightarrow> (None, stream)
                       | (Some bs, stream) \<Rightarrow> (Some (unat sz, bs), stream))))"

text \<open>The string with its NUL; \<open>size + 1\<close> is a \<open>uint32_t\<close> sum.\<close>

definition pb_dec_string :: "'s source \<Rightarrow> (nat \<Rightarrow> bool) \<Rightarrow> pb_field \<Rightarrow> 's istream \<Rightarrow> u8 list option \<times> 's istream" where
  "pb_dec_string src realloc field stream =
     (case pb_decode_varint32 src stream of
        (None, stream) \<Rightarrow> (None, stream)
      | (Some sz, stream) \<Rightarrow>
          let alloc_size = unat (sz + 1)
          in if alloc_size < unat sz then PB_RETURN_ERROR stream ''size too large''
             else
               (case (if PB_ATYPE (f_type field) = PB_ATYPE_POINTER then
                        if bytes_left stream < unat sz then PB_RETURN_ERROR stream ''end-of-stream''
                        else allocate_field realloc alloc_size 1 stream
                      else if alloc_size > data_size field then PB_RETURN_ERROR stream ''string overflow''
                      else (Some (data_size field), stream)) of
                  (None, stream) \<Rightarrow> (None, stream)
                | (Some _, stream) \<Rightarrow>
                    (case pb_read src (unat sz) stream of
                       (None, stream) \<Rightarrow> (None, stream)
                     | (Some bs, stream) \<Rightarrow> (Some (bs @ [0]), stream))))"

end
