(* ===== verification/Pb_Write.thy ===== *)
theory Pb_Write
  imports Pb_Read Sink
begin

text \<open>
  The output side of nanopb's wire format (\<open>nanopb/pb_encode.c\<close>): the output stream, the
  integer and string writers and the field encoders. A stream's callback is the parameter
  \<open>wr\<close>; \<open>None\<close> is the NULL callback of a stream that only counts. A callback gets the
  state and the bytes and gives success and the new state.
\<close>

section \<open>Streams\<close>

record 's ostream =
  os_state :: 's
  max_size :: nat
  bytes_written :: nat
  os_errmsg :: "string option"

type_synonym 's writer = "('s \<Rightarrow> u8 list \<Rightarrow> bool \<times> 's) option"

definition PB_RETURN_OERROR :: "'s ostream \<Rightarrow> string \<Rightarrow> bool \<times> 's ostream" where
  "PB_RETURN_OERROR stream msg =
     (False, stream\<lparr>os_errmsg := (case os_errmsg stream of None \<Rightarrow> Some msg | Some e \<Rightarrow> Some e)\<rparr>)"

text \<open>The state of a buffer stream: the memory and the position of the pointer in it.\<close>

definition buf_write :: "u8 list \<times> nat \<Rightarrow> u8 list \<Rightarrow> bool \<times> u8 list \<times> nat" where
  "buf_write st buf = (case st of (mem, dest) \<Rightarrow> (True, mem_write dest buf mem, dest + length buf))"

definition pb_ostream_from_buffer :: "u8 list \<Rightarrow> nat \<Rightarrow> (u8 list \<times> nat) ostream" where
  "pb_ostream_from_buffer buf bufsize =
     \<lparr>os_state = (buf, 0), max_size = bufsize, bytes_written = 0, os_errmsg = None\<rparr>"

definition PB_OSTREAM_SIZING :: "'s \<Rightarrow> 's ostream" where
  "PB_OSTREAM_SIZING null = \<lparr>os_state = null, max_size = 0, bytes_written = 0, os_errmsg = None\<rparr>"

definition pb_write :: "'s writer \<Rightarrow> u8 list \<Rightarrow> nat \<Rightarrow> 's ostream \<Rightarrow> bool \<times> 's ostream" where
  "pb_write wr buf count stream =
     (case wr of
        Some callback \<Rightarrow>
          if count > 0 then
            if sz_add (bytes_written stream) count < bytes_written stream \<or>
               sz_add (bytes_written stream) count > max_size stream
            then PB_RETURN_OERROR stream ''stream full''
            else (case callback (os_state stream) (take count buf) of
                    (False, st) \<Rightarrow> PB_RETURN_OERROR (stream\<lparr>os_state := st\<rparr>) ''io error''
                  | (True, st) \<Rightarrow>
                      (True, stream\<lparr>os_state := st, bytes_written := sz_add (bytes_written stream) count\<rparr>))
          else (True, stream\<lparr>bytes_written := sz_add (bytes_written stream) count\<rparr>)
      | None \<Rightarrow> (True, stream\<lparr>bytes_written := sz_add (bytes_written stream) count\<rparr>))"

section \<open>Integers, tags and strings\<close>

function varint_groups :: "u64 \<Rightarrow> u8 list" where
  "varint_groups v =
     (if v \<noteq> 0 then ucast ((v AND 0x7F) OR 0x80) # varint_groups (drop_bit 7 v) else [])"
  by pat_completeness auto
termination
proof (relation "measure unat", goal_cases)
  case (2 v)
  then have "unat v \<noteq> 0" by (simp add: unat_eq_zero)
  then show ?case using unat_drop_u64 [of 7 v] by simp
qed simp

declare varint_groups.simps [simp del]

definition pb_encode_varint :: "'s writer \<Rightarrow> u64 \<Rightarrow> 's ostream \<Rightarrow> bool \<times> 's ostream" where
  "pb_encode_varint wr v stream =
     (if v \<le> 0x7F then pb_write wr [ucast v] 1 stream
      else
        let buffer = varint_groups v; i = length buffer
        in pb_write wr (buffer[i - 1 := buffer ! (i - 1) AND 0x7F]) i stream)"

text \<open>The argument is the 64-bit pattern of the signed number.\<close>

definition pb_encode_svarint :: "'s writer \<Rightarrow> u64 \<Rightarrow> 's ostream \<Rightarrow> bool \<times> 's ostream" where
  "pb_encode_svarint wr v stream =
     (let zigzagged = (if sint v < 0 then NOT (push_bit 1 v) else push_bit 1 v)
      in pb_encode_varint wr zigzagged stream)"

definition pb_encode_fixed32 :: "'s writer \<Rightarrow> u32 \<Rightarrow> 's ostream \<Rightarrow> bool \<times> 's ostream" where
  "pb_encode_fixed32 wr val stream =
     pb_write wr [ucast (val AND 0xFF), ucast (drop_bit 8 val AND 0xFF), ucast (drop_bit 16 val AND 0xFF),
                  ucast (drop_bit 24 val AND 0xFF)] 4 stream"

definition pb_encode_fixed64 :: "'s writer \<Rightarrow> u64 \<Rightarrow> 's ostream \<Rightarrow> bool \<times> 's ostream" where
  "pb_encode_fixed64 wr val stream =
     pb_write wr [ucast (val AND 0xFF), ucast (drop_bit 8 val AND 0xFF), ucast (drop_bit 16 val AND 0xFF),
                  ucast (drop_bit 24 val AND 0xFF), ucast (drop_bit 32 val AND 0xFF),
                  ucast (drop_bit 40 val AND 0xFF), ucast (drop_bit 48 val AND 0xFF),
                  ucast (drop_bit 56 val AND 0xFF)] 8 stream"

definition pb_encode_tag :: "'s writer \<Rightarrow> u32 \<Rightarrow> u32 \<Rightarrow> 's ostream \<Rightarrow> bool \<times> 's ostream" where
  "pb_encode_tag wr wiretype field_number stream =
     pb_encode_varint wr (push_bit 3 (ucast field_number) OR ucast wiretype) stream"

text \<open>The wire type of a field, if its type has one.\<close>

definition wiretype_of :: "pb_field \<Rightarrow> u32 option" where
  "wiretype_of field =
     (let l = PB_LTYPE (f_type field)
      in if l \<in> {PB_LTYPE_BOOL, PB_LTYPE_VARINT, PB_LTYPE_UVARINT, PB_LTYPE_SVARINT} then Some 0
         else if l = PB_LTYPE_FIXED32 then Some 5
         else if l = PB_LTYPE_FIXED64 then Some 1
         else if l \<in> {PB_LTYPE_BYTES, PB_LTYPE_STRING, PB_LTYPE_SUBMESSAGE, PB_LTYPE_FIXED_LENGTH_BYTES} then Some 2
         else None)"

definition pb_encode_tag_for_field :: "'s writer \<Rightarrow> pb_field \<Rightarrow> 's ostream \<Rightarrow> bool \<times> 's ostream" where
  "pb_encode_tag_for_field wr field stream =
     (case wiretype_of field of
        None \<Rightarrow> PB_RETURN_OERROR stream ''invalid field type''
      | Some wiretype \<Rightarrow> pb_encode_tag wr wiretype (word_of_nat (f_tag field)) stream)"

definition pb_encode_string :: "'s writer \<Rightarrow> u8 list \<Rightarrow> nat \<Rightarrow> 's ostream \<Rightarrow> bool \<times> 's ostream" where
  "pb_encode_string wr buffer sz stream =
     (case pb_encode_varint wr (word_of_nat sz) stream of
        (False, stream) \<Rightarrow> (False, stream)
      | (True, stream) \<Rightarrow> pb_write wr buffer sz stream)"

section \<open>Field encoders\<close>

text \<open>\<open>src\<close> is the memory that holds the field, little-endian.\<close>

definition le_nat :: "u8 list \<Rightarrow> nat" where
  "le_nat bs = be_nat (rev bs)"

definition safe_read_bool :: "u8 list \<Rightarrow> bool" where
  "safe_read_bool src = (src ! 0 \<noteq> 0)"

definition pb_enc_bool :: "'s writer \<Rightarrow> u8 list \<Rightarrow> 's ostream \<Rightarrow> bool \<times> 's ostream" where
  "pb_enc_bool wr src stream = pb_encode_varint wr (if safe_read_bool src then 1 else 0) stream"

text \<open>Reading a signed field of \<open>n\<close> bytes into an \<open>int64_t\<close> extends its sign.\<close>

definition signed_field :: "u8 list \<Rightarrow> nat \<Rightarrow> u64" where
  "signed_field src n = word_of_int (signed_take_bit (8 * n - 1) (int (le_nat (take n src))))"

definition pb_enc_varint :: "'s writer \<Rightarrow> nat \<Rightarrow> u8 list \<Rightarrow> 's ostream \<Rightarrow> bool \<times> 's ostream" where
  "pb_enc_varint wr dsize src stream =
     (if dsize \<in> {1, 2, 4, 8} then pb_encode_varint wr (signed_field src dsize) stream
      else PB_RETURN_OERROR stream ''invalid data_size'')"

definition pb_enc_uvarint :: "'s writer \<Rightarrow> nat \<Rightarrow> u8 list \<Rightarrow> 's ostream \<Rightarrow> bool \<times> 's ostream" where
  "pb_enc_uvarint wr dsize src stream =
     (if dsize \<in> {1, 2, 4, 8} then pb_encode_varint wr (word_of_nat (le_nat (take dsize src))) stream
      else PB_RETURN_OERROR stream ''invalid data_size'')"

definition pb_enc_svarint :: "'s writer \<Rightarrow> nat \<Rightarrow> u8 list \<Rightarrow> 's ostream \<Rightarrow> bool \<times> 's ostream" where
  "pb_enc_svarint wr dsize src stream =
     (if dsize \<in> {1, 2, 4, 8} then pb_encode_svarint wr (signed_field src dsize) stream
      else PB_RETURN_OERROR stream ''invalid data_size'')"

definition pb_enc_fixed32 :: "'s writer \<Rightarrow> u8 list \<Rightarrow> 's ostream \<Rightarrow> bool \<times> 's ostream" where
  "pb_enc_fixed32 wr src stream = pb_encode_fixed32 wr (word_of_nat (le_nat (take 4 src))) stream"

definition pb_enc_fixed64 :: "'s writer \<Rightarrow> u8 list \<Rightarrow> 's ostream \<Rightarrow> bool \<times> 's ostream" where
  "pb_enc_fixed64 wr src stream = pb_encode_fixed64 wr (word_of_nat (le_nat (take 8 src))) stream"

text \<open>A bytes field is its size and its bytes; \<open>None\<close> is NULL.\<close>

definition pb_enc_bytes :: "'s writer \<Rightarrow> pb_field \<Rightarrow> (nat \<times> u8 list) option \<Rightarrow> 's ostream \<Rightarrow> bool \<times> 's ostream" where
  "pb_enc_bytes wr field src stream =
     (case src of
        None \<Rightarrow> pb_encode_string wr [] 0 stream
      | Some (sz, bytes) \<Rightarrow>
          let allocsize = PB_BYTES_ARRAY_T_ALLOCSIZE sz
          in if allocsize < sz \<or> (PB_ATYPE (f_type field) = PB_ATYPE_STATIC \<and> allocsize > data_size field)
             then PB_RETURN_OERROR stream ''bytes size exceeded''
             else pb_encode_string wr bytes sz stream)"

text \<open>The length of the string: up to its NUL, but not past \<open>n\<close> bytes.\<close>

fun string_size :: "u8 list \<Rightarrow> nat \<Rightarrow> nat" where
  "string_size (c # p) (Suc n) = (if c \<noteq> 0 then Suc (string_size p n) else 0)"
| "string_size p n = 0"

definition pb_enc_string :: "'s writer \<Rightarrow> pb_field \<Rightarrow> u8 list option \<Rightarrow> 's ostream \<Rightarrow> bool \<times> 's ostream" where
  "pb_enc_string wr field src stream =
     (let max_size = (if PB_ATYPE (f_type field) = PB_ATYPE_POINTER then 2 ^ 64 - 1 else data_size field)
      in case src of
           None \<Rightarrow> pb_encode_string wr [] 0 stream
         | Some p \<Rightarrow> pb_encode_string wr p (string_size p max_size) stream)"

definition pb_enc_fixed_length_bytes :: "'s writer \<Rightarrow> pb_field \<Rightarrow> u8 list \<Rightarrow> 's ostream \<Rightarrow> bool \<times> 's ostream" where
  "pb_enc_fixed_length_bytes wr field src stream = pb_encode_string wr src (data_size field) stream"

end
