(* ===== verification/Pb_Wire.thy ===== *)
theory Pb_Wire
  imports Pb_Write
begin

text \<open>
  The wire format itself, as a reference, and the proof that the writer produces it and
  the reader inverts it. A base-128 varint is written least significant group first; the
  reader accepts any sequence of groups, not only the shortest.
\<close>

section \<open>Varints\<close>

fun varint :: "nat \<Rightarrow> u8 list" where
  "varint n = (if n < 128 then [word_of_nat n] else word_of_nat (128 + n mod 128) # varint (n div 128))"

declare varint.simps [simp del]

text \<open>The value of a sequence of groups, the continuation bits ignored.\<close>

fun groups_nat :: "u8 list \<Rightarrow> nat" where
  "groups_nat [] = 0"
| "groups_nat (b # bs) = unat b mod 128 + 128 * groups_nat bs"

lemma varint_nonempty [simp]: "varint n \<noteq> []"
  by (subst varint.simps) simp

lemma groups_nat_varint: "groups_nat (varint n) = n"
proof (induction n rule: varint.induct)
  case (1 n)
  show ?case
  proof (cases "n < 128")
    case True
    then show ?thesis by (subst varint.simps) (simp add: unat_u8_of_nat)
  next
    case False
    have "unat (word_of_nat (128 + n mod 128) :: u8) = 128 + n mod 128"
      by (rule unat_u8_of_nat) simp
    with 1 False show ?thesis by (subst varint.simps) simp
  qed
qed

lemma length_varint: "n < 128 ^ Suc k \<Longrightarrow> length (varint n) \<le> Suc k"
proof (induction k arbitrary: n)
  case 0
  then show ?case by (subst varint.simps) simp
next
  case (Suc k)
  show ?case
  proof (cases "n < 128")
    case True
    then show ?thesis by (subst varint.simps) simp
  next
    case False
    have "n div 128 < 128 ^ Suc k" using Suc.prems by (simp add: div_less_iff_less_mult mult.commute)
    from Suc.IH [OF this] False show ?thesis by (subst varint.simps) simp
  qed
qed

text \<open>The continuation bits: set on all bytes but the last.\<close>

lemma varint_split: "\<exists>hs l. varint n = hs @ [l] \<and> (\<forall>h \<in> set hs. 128 \<le> unat h) \<and> unat l < 128"
proof (induction n rule: varint.induct)
  case (1 n)
  show ?case
  proof (cases "n < 128")
    case True
    then show ?thesis
      by (intro exI [of _ "[]"] exI [of _ "word_of_nat n"]) (simp add: varint.simps [of n] unat_u8_of_nat)
  next
    case False
    from 1 [OF False] obtain hs l where
      "varint (n div 128) = hs @ [l]" "\<forall>h \<in> set hs. 128 \<le> unat h" "unat l < 128" by blast
    moreover have "unat (word_of_nat (128 + n mod 128) :: u8) = 128 + n mod 128"
      by (rule unat_u8_of_nat) simp
    ultimately show ?thesis
      using False by (intro exI [of _ "word_of_nat (128 + n mod 128) # hs"] exI [of _ l])
        (simp add: varint.simps [of n])
  qed
qed

section \<open>Writing\<close>

lemma and_7f_nat: "(v :: 'a::len word) AND 0x7F = word_of_nat (unat v mod 128)"
proof -
  have n: "take_bit 7 (unat v) = unat v mod 128" by (simp add: take_bit_eq_mod)
  have "v AND 0x7F = take_bit 7 v" by (simp add: take_bit_eq_mask mask_eq_exp_minus_1)
  also have "\<dots> = take_bit 7 (word_of_nat (unat v))" by (simp only: of_nat_unat ucast_id)
  also have "\<dots> = word_of_nat (unat v mod 128)" unfolding take_bit_of_nat n by (rule refl)
  finally show ?thesis .
qed

lemma group_byte: "ucast ((v AND 0x7F) OR 0x80 :: u64) = (word_of_nat (128 + unat v mod 128) :: u8)"
proof -
  have "push_bit 7 (word_of_nat 1) OR word_of_nat (unat v mod 128) = (word_of_nat (1 * 2 ^ 7 + unat v mod 128) :: u64)"
    by (rule push_bit_or_nat) simp
  then have "(v AND 0x7F) OR 0x80 = (word_of_nat (128 + unat v mod 128) :: u64)"
    unfolding and_7f_nat by (simp add: or.commute push_bit_eq_mult)
  moreover have "unat (word_of_nat (128 + unat v mod 128) :: u64) = 128 + unat v mod 128"
    by (rule unat_of_nat64) simp
  ultimately show ?thesis by (metis of_nat_unat)
qed

lemma last_group: "n < 128 \<Longrightarrow> (word_of_nat (128 + n) :: u8) AND 0x7F = word_of_nat n"
  using unat_u8_of_nat [of "128 + n"] by (simp add: and_7f_nat)

lemma varint_groups_eq:
  "v \<noteq> 0 \<Longrightarrow> varint_groups v \<noteq> [] \<and> length (varint_groups v) = length (varint (unat v)) \<and>
     butlast (varint_groups v) @ [last (varint_groups v) AND 0x7F] = varint (unat v)"
proof (induction v rule: varint_groups.induct)
  case (1 v)
  have unfold: "varint_groups v = word_of_nat (128 + unat v mod 128) # varint_groups (drop_bit 7 v)"
    using 1(2) by (subst varint_groups.simps) (simp add: group_byte)
  have d: "unat (drop_bit 7 v) = unat v div 128" using unat_drop_u64 [of 7 v] by simp
  show ?case
  proof (cases "unat v < 128")
    case True
    then have "drop_bit 7 v = 0" using d by (simp add: unat_eq_zero [symmetric])
    then have "varint_groups (drop_bit 7 v) = []" by (simp add: varint_groups.simps)
    moreover have "word_of_nat (128 + unat v mod 128) AND 0x7F = (word_of_nat (unat v) :: u8)"
      using last_group [of "unat v mod 128"] True by (simp del: of_nat_add)
    ultimately show ?thesis
      using True unfolding unfold by (simp add: varint.simps [of "unat v"] del: of_nat_add)
  next
    case False
    then have "drop_bit 7 v \<noteq> 0" using d by (metis div_eq_0_iff unat_0 zero_neq_numeral)
    with 1 have ih: "varint_groups (drop_bit 7 v) \<noteq> []"
      "length (varint_groups (drop_bit 7 v)) = length (varint (unat v div 128))"
      "butlast (varint_groups (drop_bit 7 v)) @ [last (varint_groups (drop_bit 7 v)) AND 0x7F] = varint (unat v div 128)"
      by (auto simp: d)
    with unfold False show ?thesis by (simp add: varint.simps [of "unat v"])
  qed
qed

lemma length_varint64: "length (varint (unat (v :: u64))) \<le> 10"
proof -
  have "unat v < 128 ^ Suc 9" using unsigned_less [of v, where ?'a = nat] by simp
  from length_varint [OF this] show ?thesis by simp
qed

text \<open>The writer's ten-byte buffer is enough, and what it writes is the varint.\<close>

lemma pb_encode_varint_eq:
  "pb_encode_varint wr v stream = pb_write wr (varint (unat v)) (length (varint (unat v))) stream"
proof (cases "v \<le> 0x7F")
  case True
  then have v: "unat v < 128" by (simp add: word_le_nat_alt)
  have "ucast v = (word_of_nat (unat v) :: u8)" by simp
  with True v show ?thesis by (simp add: pb_encode_varint_def varint.simps [of "unat v"])
next
  case False
  then have nz: "v \<noteq> 0" by auto
  note g = varint_groups_eq [OF nz]
  have "(varint_groups v)[length (varint_groups v) - 1 := varint_groups v ! (length (varint_groups v) - 1) AND 0x7F] =
      butlast (varint_groups v) @ [last (varint_groups v) AND 0x7F]"
    using g by (metis append_butlast_last_id last_conv_nth length_butlast list_update_length)
  with g False show ?thesis by (simp add: pb_encode_varint_def Let_def)
qed

section \<open>Output streams as sinks\<close>

text \<open>A buffer stream that has received the bytes \<open>w\<close>: its memory is the buffer, with these
  bytes and then the room left, between \<open>before\<close> and \<open>behind\<close>, which stay as they are.\<close>

definition obuf :: "u8 list \<Rightarrow> u8 list \<Rightarrow> (u8 list \<times> nat) ostream \<Rightarrow> u8 list \<Rightarrow> bool" where
  "obuf before behind s w \<longleftrightarrow>
     (\<exists>room. os_state s = (before @ w @ room @ behind, length before + length w) \<and>
        max_size s = length w + length room) \<and>
     bytes_written s = length w \<and> max_size s < 2 ^ 64"

lemma obuf_from_buffer:
  "length buf < 2 ^ 64 \<Longrightarrow> obuf [] behind (pb_ostream_from_buffer (buf @ behind) (length buf)) []"
  by (simp add: obuf_def pb_ostream_from_buffer_def)

text \<open>A write is all or nothing: it appends the bytes if they fit, else it only records the error.\<close>

lemma pb_write_buffer:
  assumes h: "obuf before behind s w" and x: "length x < 2 ^ 64"
  shows "if length w + length x \<le> max_size s
    then \<exists>s'. pb_write (Some buf_write) x (length x) s = (True, s') \<and> obuf before behind s' (w @ x) \<and>
      max_size s' = max_size s \<and> os_errmsg s' = os_errmsg s
    else \<exists>e. pb_write (Some buf_write) x (length x) s = (False, s\<lparr>os_errmsg := Some e\<rparr>)"
proof -
  from h obtain room where st: "os_state s = (before @ w @ room @ behind, length before + length w)"
    and mx: "max_size s = length w + length room" and bw: "bytes_written s = length w" and lt: "max_size s < 2 ^ 64"
    unfolding obuf_def by blast
  show ?thesis
  proof (cases "x = []")
    case True
    have "sz_add (length w) 0 = length w" using lt mx by (simp add: sz_add_def)
    with True show ?thesis using h bw lt mx by (cases s) (simp add: pb_write_def)
  next
    case False
    show ?thesis
    proof (cases "length w + length x \<le> max_size s")
      case True
      then have add: "sz_add (length w) (length x) = length w + length x"
        using lt by (intro sz_add_id) simp
      have len: "length x \<le> length room" using True mx by simp
      have "mem_write (length before + length w) x (before @ w @ room @ behind) =
          before @ (w @ x) @ drop (length x) room @ behind"
        using len by (simp add: mem_write_def)
      moreover have "\<not> length w + length x < length w" "\<not> length w + length x > max_size s" using True by simp_all
      ultimately have "pb_write (Some buf_write) x (length x) s = (True, s\<lparr>
          os_state := (before @ (w @ x) @ drop (length x) room @ behind, length before + length (w @ x)),
          bytes_written := length (w @ x)\<rparr>)"
        using False by (simp add: pb_write_def bw add buf_write_def st add.assoc)
      moreover have "obuf before behind (s\<lparr>
          os_state := (before @ (w @ x) @ drop (length x) room @ behind, length before + length (w @ x)),
          bytes_written := length (w @ x)\<rparr>) (w @ x)"
        unfolding obuf_def using len mx lt by (intro conjI exI [of _ "drop (length x) room"]) simp_all
      ultimately show ?thesis using True by simp
    next
      case full: False
      have "sz_add (length w) (length x) < length w \<or> sz_add (length w) (length x) > max_size s"
        using full x mx lt sz_add_overflow [of "length w" "length x"] sz_add_id [of "length w" "length x"]
        by (cases "length w + length x < 2 ^ 64") auto
      with bw full False show ?thesis
        by (auto simp: pb_write_def PB_RETURN_OERROR_def split: option.split)
    qed
  qed
qed

text \<open>The interface of a sink, on a buffer and on a stream that only counts.\<close>

interpretation pb_out: total_sink "\<lambda>x. pb_write (Some buf_write) x (length x)" "\<lambda>x. x" "\<lambda>x. length x < 2 ^ 64"
    "obuf before behind" "\<lambda>s n. n \<le> max_size s" for before behind
proof unfold_locales
  fix x s w s'
  assume "length (x :: u8 list) < 2 ^ 64" "obuf before behind s w" "pb_write (Some buf_write) x (length x) s = (True, s')"
  then show "obuf before behind s' (w @ x)" using pb_write_buffer [of before behind s w x] by (auto split: if_splits)
next
  fix x s w n
  assume "length (x :: u8 list) < 2 ^ 64" "obuf before behind s w" "n \<le> max_size s" "length w + length x \<le> n"
  then show "\<exists>s'. pb_write (Some buf_write) x (length x) s = (True, s') \<and> n \<le> max_size s'"
    using pb_write_buffer [of before behind s w x] by (auto split: if_splits)
qed

definition sizing_holds :: "'s ostream \<Rightarrow> u8 list \<Rightarrow> bool" where
  "sizing_holds s w \<longleftrightarrow> bytes_written s = length w mod 2 ^ 64"

interpretation pb_size: total_sink "\<lambda>x. pb_write None x (length x)" "\<lambda>x. x" "\<lambda>x. True"
    "sizing_holds :: 's ostream \<Rightarrow> u8 list \<Rightarrow> bool" "\<lambda>s n. True"
  by unfold_locales (auto simp: pb_write_def sizing_holds_def sz_add_def mod_add_left_eq)

end
