(* ===== verification/Pb_Source.thy ===== *)
theory Pb_Source
  imports Pb_Wire
begin

text \<open>
  Reading back. An input stream is any callback that delivers the bytes it is asked for as
  long as there are some: this contract is a locale, the code's \<open>buf_read\<close> an instance of
  it. \<open>has st bs after\<close>: the stream has the bytes \<open>bs\<close> left and its source the bytes
  \<open>after\<close> behind them, which nothing may read.
\<close>

definition stream_has :: "('s \<Rightarrow> u8 list) \<Rightarrow> 's istream \<Rightarrow> u8 list \<Rightarrow> u8 list \<Rightarrow> bool" where
  "stream_has behind st bs after \<longleftrightarrow> behind (is_state st) = bs @ after \<and> bytes_left st = length bs"

text \<open>\<open>f\<close> reads exactly \<open>x\<close> and returns \<open>v\<close>, whatever follows, and leaves the error
  message alone.\<close>

definition decodes :: "('s \<Rightarrow> u8 list) \<Rightarrow> ('s istream \<Rightarrow> 'v option \<times> 's istream) \<Rightarrow> u8 list \<Rightarrow> 'v \<Rightarrow> bool" where
  "decodes behind f x v \<longleftrightarrow>
     (\<forall>st bs after. stream_has behind st (x @ bs) after \<longrightarrow>
        (\<exists>st'. f st = (Some v, st') \<and> stream_has behind st' bs after \<and> is_errmsg st' = is_errmsg st))"

text \<open>\<open>f\<close> fails on a stream that has only \<open>x\<close>.\<close>

definition refuses :: "('s \<Rightarrow> u8 list) \<Rightarrow> ('s istream \<Rightarrow> 'v option \<times> 's istream) \<Rightarrow> u8 list \<Rightarrow> bool" where
  "refuses behind f x \<longleftrightarrow> (\<forall>st after. stream_has behind st x after \<longrightarrow> fst (f st) = None)"

lemma decodesD:
  "decodes behind f x v \<Longrightarrow> stream_has behind st (x @ bs) after \<Longrightarrow>
     \<exists>st'. f st = (Some v, st') \<and> stream_has behind st' bs after \<and> is_errmsg st' = is_errmsg st"
  unfolding decodes_def by blast

lemma decodes_bind:
  assumes "decodes behind f x v" and "decodes behind (g v) y u"
    and "\<And>st. h st = (case f st of (None, st) \<Rightarrow> (None, st) | (Some v, st) \<Rightarrow> g v st)"
  shows "decodes behind h (x @ y) u"
  unfolding decodes_def
proof (intro allI impI)
  fix st bs after
  assume "stream_has behind st ((x @ y) @ bs) after"
  with decodesD [OF assms(1), of st "y @ bs" after] obtain st1 where
    1: "f st = (Some v, st1)" "stream_has behind st1 (y @ bs) after" "is_errmsg st1 = is_errmsg st" by auto
  from decodesD [OF assms(2) 1(2)] 1 assms(3) show
    "\<exists>st'. h st = (Some u, st') \<and> stream_has behind st' bs after \<and> is_errmsg st' = is_errmsg st" by auto
qed

lemma decodes_map:
  assumes "decodes behind f x v"
    and "\<And>st. h st = (case f st of (None, st) \<Rightarrow> (None, st) | (Some v, st) \<Rightarrow> (Some (t v), st))"
  shows "decodes behind h x (t v)"
  using assms unfolding decodes_def by fastforce

locale pb_source =
  fixes src :: "'s source" and behind :: "'s \<Rightarrow> u8 list"
  assumes src_read: "n \<le> length (behind s) \<Longrightarrow>
    \<exists>s'. src_read src s n = (Some (take n (behind s)), s') \<and> behind s' = drop n (behind s)"
begin

lemma pb_read_has:
  assumes "stream_has behind st (x @ bs) after"
  shows "\<exists>st'. pb_read src (length x) st = (Some x, st') \<and> stream_has behind st' bs after \<and> is_errmsg st' = is_errmsg st"
  using src_read [of "length x" "is_state st"] assms
  by (auto simp: pb_read_def read_checked_def stream_has_def)

lemma pb_read_short:
  assumes "stream_has behind st bs after" and "length bs < n"
  shows "fst (pb_read src n st) = None"
  using assms by (auto simp: pb_read_def read_checked_def stream_has_def PB_RETURN_ERROR_def)

lemma pb_read_decodes: "length x = n \<Longrightarrow> decodes behind (pb_read src n) x x"
  using pb_read_has unfolding decodes_def by blast

lemma pb_readbyte_decodes: "decodes behind (pb_readbyte src) [b] b"
  unfolding decodes_def
proof (intro allI impI)
  fix st bs after
  assume "stream_has behind st ([b] @ bs) after"
  with src_read [of 1 "is_state st"] show
    "\<exists>st'. pb_readbyte src st = (Some b, st') \<and> stream_has behind st' bs after \<and> is_errmsg st' = is_errmsg st"
    by (auto simp: pb_readbyte_def stream_has_def)
qed

lemma skip_input_has:
  "stream_has behind st (x @ bs) after \<Longrightarrow>
     \<exists>st'. skip_input src (length x) st = (Some (), st') \<and> stream_has behind st' bs after \<and> is_errmsg st' = is_errmsg st"
proof (induction "length x" arbitrary: x st rule: less_induct)
  case less
  show ?case
  proof (cases "length x > 16")
    case False
    with pb_read_has [OF less.prems] show ?thesis by (subst skip_input.simps) auto
  next
    case True
    have "stream_has behind st (take 16 x @ drop 16 x @ bs) after" using less.prems by (simp flip: append_assoc)
    from pb_read_has [OF this] True obtain st1 where
      1: "pb_read src 16 st = (Some (take 16 x), st1)" "stream_has behind st1 (drop 16 x @ bs) after" "is_errmsg st1 = is_errmsg st"
      by (auto simp: min_def)
    from less.hyps [OF _ 1(2)] True 1 show ?thesis
      by (subst skip_input.simps) auto
  qed
qed

lemma pb_read_null_has:
  assumes "stream_has behind st (x @ bs) after"
  shows "\<exists>st'. pb_read_null src (length x) st = (Some (), st') \<and> stream_has behind st' bs after \<and> is_errmsg st' = is_errmsg st"
proof (cases "x = [] \<or> \<not> src_is_buf src")
  case True
  with skip_input_has [OF assms] assms show ?thesis by (auto simp: pb_read_null_def)
next
  case False
  then have "pb_read src (length x) st = read_checked src (length x) st" by (simp add: pb_read_def)
  with pb_read_has [OF assms] False show ?thesis by (auto simp: pb_read_null_def)
qed

lemma pb_read_null_decodes: "length x = n \<Longrightarrow> decodes behind (pb_read_null src n) x ()"
  using pb_read_null_has unfolding decodes_def by blast

end

section \<open>Integers\<close>

text \<open>One more group.\<close>

lemma add_group:
  assumes "r < 2 ^ k"
  shows "word_of_nat r OR push_bit k (ucast (b AND 0x7F)) = (word_of_nat (r + 2 ^ k * (unat (b :: u8) mod 128)) :: 'a::len word)"
proof -
  have "unat b mod 128 < 256" by simp
  then have "unat (word_of_nat (unat b mod 128) :: u8) = unat b mod 128" by (rule unat_u8_of_nat)
  then have "ucast (b AND 0x7F) = (word_of_nat (unat b mod 128) :: 'a word)"
    unfolding and_7f_nat by (metis of_nat_unat)
  with push_bit_or_nat [OF assms, of "unat b mod 128"] show ?thesis
    by (simp add: or.commute add.commute mult.commute)
qed

lemma group_bound:
  fixes r k :: nat
  assumes "r < 2 ^ k"
  shows "r + 2 ^ k * (unat (b :: u8) mod 128) < 2 ^ (k + 7)"
proof -
  have "unat b mod 128 \<le> 127" by (simp add: less_Suc_eq_le [symmetric])
  then have "r + 2 ^ k * (unat b mod 128) < 2 ^ k + 2 ^ k * 127"
    using assms by (intro add_less_le_mono mult_le_mono2)
  then show ?thesis by (simp add: power_add)
qed

context pb_source
begin

lemma readbyte_has:
  "stream_has behind st (b # bs) after \<Longrightarrow>
     \<exists>st'. pb_readbyte src st = (Some b, st') \<and> stream_has behind st' bs after \<and> is_errmsg st' = is_errmsg st"
  using decodesD [OF pb_readbyte_decodes, of st b bs after] by simp

lemma readbyte_empty: "stream_has behind st [] after \<Longrightarrow> fst (pb_readbyte src st) = None \<and> bytes_left (snd (pb_readbyte src st)) = 0"
  by (simp add: pb_readbyte_def stream_has_def PB_RETURN_ERROR_def)

text \<open>A byte with its continuation bit set is one round of the loop.\<close>

lemma varint_loop_step:
  assumes h: "128 \<le> unat h" and k: "k < 10" and r: "r < 2 ^ (7 * k)"
    and st: "stream_has behind st (h # bs) after"
  shows "\<exists>st1. varint_loop src (7 * k) (word_of_nat r) st =
      varint_loop src (7 * Suc k) (word_of_nat (r + 2 ^ (7 * k) * (unat h mod 128))) st1 \<and>
    stream_has behind st1 bs after \<and> is_errmsg st1 = is_errmsg st"
proof -
  from readbyte_has [OF st] obtain st1 where
    1: "pb_readbyte src st = (Some h, st1)" "stream_has behind st1 bs after" "is_errmsg st1 = is_errmsg st" by auto
  have "h AND 0x80 \<noteq> 0" using h by (simp add: and_80_eq_0_iff)
  moreover have "(7 * k + 7) mod 256 = 7 * Suc k" "\<not> 64 \<le> 7 * k" using k by simp_all
  ultimately have "varint_loop src (7 * k) (word_of_nat r) st =
      varint_loop src (7 * Suc k) (word_of_nat (r + 2 ^ (7 * k) * (unat h mod 128))) st1"
    unfolding varint_loop.simps [of src "7 * k" "word_of_nat r" st]
    using 1(1) by (simp only: Let_def add_group [OF r] prod.case option.case if_False if_True) simp
  with 1 show ?thesis by blast
qed

lemma varint_loop_has:
  "\<forall>h \<in> set hs. 128 \<le> unat h \<Longrightarrow> unat l < 128 \<Longrightarrow> k + length hs < 10 \<Longrightarrow> r < 2 ^ (7 * k) \<Longrightarrow>
     stream_has behind st (hs @ l # bs) after \<Longrightarrow>
     \<exists>st'. varint_loop src (7 * k) (word_of_nat r) st =
         (Some (word_of_nat (r + 2 ^ (7 * k) * groups_nat (hs @ [l]))), st') \<and>
       stream_has behind st' bs after \<and> is_errmsg st' = is_errmsg st"
proof (induction hs arbitrary: k r st)
  case Nil
  from readbyte_has [of st l bs after] Nil(5) obtain st1 where
    1: "pb_readbyte src st = (Some l, st1)" "stream_has behind st1 bs after" "is_errmsg st1 = is_errmsg st" by auto
  have "l AND 0x80 = 0" using Nil(2) by (simp add: and_80_eq_0_iff)
  with 1 Nil show ?case
    by (subst varint_loop.simps) (simp add: Let_def add_group del: of_nat_add of_nat_mult)
next
  case (Cons h hs)
  let ?r = "r + 2 ^ (7 * k) * (unat h mod 128)"
  from varint_loop_step [of h k r st "hs @ l # bs" after] Cons.prems obtain st1 where
    1: "varint_loop src (7 * k) (word_of_nat r) st = varint_loop src (7 * Suc k) (word_of_nat ?r) st1"
      "stream_has behind st1 (hs @ l # bs) after" "is_errmsg st1 = is_errmsg st" by auto
  have "?r < 2 ^ (7 * Suc k)"
    using group_bound [OF Cons.prems(4), of h] by (simp add: add.commute)
  from Cons.IH [OF _ Cons.prems(2) _ this 1(2)] Cons.prems(1,3) obtain st2 where
    2: "varint_loop src (7 * Suc k) (word_of_nat ?r) st1 =
        (Some (word_of_nat (?r + 2 ^ (7 * Suc k) * groups_nat (hs @ [l]))), st2)"
      "stream_has behind st2 bs after" "is_errmsg st2 = is_errmsg st1" by auto
  have "?r + 2 ^ (7 * Suc k) * groups_nat (hs @ [l]) = r + 2 ^ (7 * k) * groups_nat ((h # hs) @ [l])"
    by (simp add: power_add algebra_simps)
  with 1 2 show ?case by metis
qed

text \<open>Too many groups, or no last one.\<close>

lemma varint_loop_fails:
  "\<forall>h \<in> set hs. 128 \<le> unat h \<Longrightarrow> k + length hs \<le> 10 \<Longrightarrow> r < 2 ^ (7 * k) \<Longrightarrow>
     stream_has behind st (hs @ bs) after \<Longrightarrow> k + length hs = 10 \<or> bs = [] \<Longrightarrow>
     fst (varint_loop src (7 * k) (word_of_nat r) st) = None"
proof (induction hs arbitrary: k r st)
  case Nil
  show ?case
  proof (cases "k = 10")
    case True
    then show ?thesis by (subst varint_loop.simps) (simp add: PB_RETURN_ERROR_def)
  next
    case False
    with Nil have "fst (pb_readbyte src st) = None" by (auto dest: readbyte_empty)
    with Nil False show ?thesis
      by (subst varint_loop.simps) (auto simp: PB_RETURN_ERROR_def split: prod.splits)
  qed
next
  case (Cons h hs)
  let ?r = "r + 2 ^ (7 * k) * (unat h mod 128)"
  from varint_loop_step [of h k r st "hs @ bs" after] Cons.prems obtain st1 where
    1: "varint_loop src (7 * k) (word_of_nat r) st = varint_loop src (7 * Suc k) (word_of_nat ?r) st1"
      "stream_has behind st1 (hs @ bs) after" by auto
  have "?r < 2 ^ (7 * Suc k)"
    using group_bound [OF Cons.prems(3), of h] by (simp add: add.commute)
  from Cons.IH [OF _ _ this 1(2)] Cons.prems 1(1) show ?case by simp
qed

text \<open>On every input: the reader takes the bytes up to the first without a continuation bit,
  if there is one within ten bytes.\<close>

lemma pb_decode_varint_exact:
  assumes st: "stream_has behind st bs after"
  shows "let hs = takeWhile (\<lambda>b. 128 \<le> unat b) bs
    in if length hs < 10 \<and> length hs < length bs
       then \<exists>st'. pb_decode_varint src st = (Some (word_of_nat (groups_nat (take (Suc (length hs)) bs))), st') \<and>
         stream_has behind st' (drop (Suc (length hs)) bs) after \<and> is_errmsg st' = is_errmsg st
       else fst (pb_decode_varint src st) = None"
proof -
  let ?hs = "takeWhile (\<lambda>b. 128 \<le> unat b) bs" and ?rest = "dropWhile (\<lambda>b. 128 \<le> unat b) bs"
  have hs: "\<forall>h \<in> set ?hs. 128 \<le> unat h" by (auto dest: set_takeWhileD)
  have bs: "bs = ?hs @ ?rest" by simp
  show ?thesis
  proof (cases "length ?hs < 10 \<and> length ?hs < length bs")
    case True
    then have "?rest \<noteq> []" using bs by (metis append_Nil2 less_irrefl)
    then obtain l bs' where rest: "?rest = l # bs'" by (cases ?rest) auto
    then have l: "unat l < 128" by (metis dropWhile_eq_Cons_conv not_le)
    have tk: "take (Suc (length ?hs)) bs = ?hs @ [l]" "drop (Suc (length ?hs)) bs = bs'"
      using bs rest by (metis append_take_drop_id takeWhile_eq_take take_Suc_conv_app_nth length_append less_add_same_cancel1
        list.size(4) add_Suc_right zero_less_Suc nth_append_length, metis append_Cons append_Nil append_assoc append_eq_conv_conj
        length_append_singleton)
    from varint_loop_has [OF hs l, of 0 0 st bs' after] True st bs rest obtain st' where
      "varint_loop src 0 0 st = (Some (word_of_nat (groups_nat (?hs @ [l]))), st')"
      "stream_has behind st' bs' after" "is_errmsg st' = is_errmsg st" by auto
    with True show ?thesis by (auto simp: Let_def tk pb_decode_varint_def)
  next
    case False
    have "fst (varint_loop src 0 0 st) = None"
    proof (cases "length ?hs < 10")
      case True
      with False bs have "?rest = []" by (metis length_append length_greater_0_conv less_add_same_cancel1)
      with varint_loop_fails [OF hs, of 0 0 st "[]" after] True st bs show ?thesis by simp
    next
      case big: False
      have st': "stream_has behind st (take 10 ?hs @ drop 10 ?hs @ ?rest) after"
        using st by (simp only: append_assoc [symmetric] append_take_drop_id takeWhile_dropWhile_id)
      have "\<forall>h \<in> set (take 10 ?hs). 128 \<le> unat h" using hs by (meson in_set_takeD)
      from varint_loop_fails [OF this, of 0 0 st "drop 10 ?hs @ ?rest" after] st' big show ?thesis by simp
    qed
    with False show ?thesis by (auto simp: Let_def pb_decode_varint_def)
  qed
qed

text \<open>What the writer writes is read back.\<close>

lemma pb_decode_varint_decodes: "decodes behind (pb_decode_varint src) (varint (unat v)) v"
  unfolding decodes_def
proof (intro allI impI)
  fix st bs after
  assume st: "stream_has behind st (varint (unat v) @ bs) after"
  obtain hs l where v: "varint (unat v) = hs @ [l]" "\<forall>h \<in> set hs. 128 \<le> unat h" "unat l < 128"
    using varint_split by blast
  then have "length hs < 10" using length_varint64 [of v] by simp
  with varint_loop_has [OF v(2,3), of 0 0 st bs after] st v(1)
  have "\<exists>st'. varint_loop src 0 0 st = (Some (word_of_nat (groups_nat (varint (unat v)))), st') \<and>
      stream_has behind st' bs after \<and> is_errmsg st' = is_errmsg st" by simp
  then show "\<exists>st'. pb_decode_varint src st = (Some v, st') \<and> stream_has behind st' bs after \<and> is_errmsg st' = is_errmsg st"
    by (simp add: groups_nat_varint pb_decode_varint_def)
qed

lemma varint32_loop_has:
  "\<forall>h \<in> set hs. 128 \<le> unat h \<Longrightarrow> unat l < 128 \<Longrightarrow> k + length hs < 5 \<Longrightarrow> r < 2 ^ (7 * k) \<Longrightarrow>
     stream_has behind st (hs @ l # bs) after \<Longrightarrow>
     \<exists>st'. varint32_loop src (7 * k) (word_of_nat r) st =
         (Some (word_of_nat (r + 2 ^ (7 * k) * groups_nat (hs @ [l])), 7 * Suc (k + length hs), l), st') \<and>
       stream_has behind st' bs after \<and> is_errmsg st' = is_errmsg st"
proof (induction hs arbitrary: k r st)
  case Nil
  from readbyte_has [of st l bs after] Nil(5) obtain st1 where
    1: "pb_readbyte src st = (Some l, st1)" "stream_has behind st1 bs after" "is_errmsg st1 = is_errmsg st" by auto
  have "l AND 0x80 = 0" using Nil(2) by (simp add: and_80_eq_0_iff)
  with 1 Nil show ?case
    by (subst varint32_loop.simps) (simp add: Let_def add_group del: of_nat_add of_nat_mult)
next
  case (Cons h hs)
  let ?r = "r + 2 ^ (7 * k) * (unat h mod 128)"
  from readbyte_has [of st h "hs @ l # bs" after] Cons.prems(5) obtain st1 where
    1: "pb_readbyte src st = (Some h, st1)" "stream_has behind st1 (hs @ l # bs) after" "is_errmsg st1 = is_errmsg st" by auto
  have h: "h AND 0x80 \<noteq> 0" using Cons.prems(1) by (simp add: and_80_eq_0_iff)
  have b: "(7 * k + 7) mod 256 = 7 * Suc k" "\<not> 32 \<le> 7 * k" using Cons.prems(3) by simp_all
  have step: "varint32_loop src (7 * k) (word_of_nat r) st = varint32_loop src (7 * Suc k) (word_of_nat ?r) st1"
    unfolding varint32_loop.simps [of src "7 * k" "word_of_nat r" st]
    using 1(1) h b by (simp only: Let_def add_group [OF Cons.prems(4)] prod.case option.case if_False if_True) simp
  have "?r < 2 ^ (7 * Suc k)"
    using group_bound [OF Cons.prems(4), of h] by (simp add: add.commute)
  from Cons.IH [OF _ Cons.prems(2) _ this 1(2)] Cons.prems(1,3) obtain st2 where
    2: "varint32_loop src (7 * Suc k) (word_of_nat ?r) st1 =
        (Some (word_of_nat (?r + 2 ^ (7 * Suc k) * groups_nat (hs @ [l])), 7 * Suc (Suc k + length hs), l), st2)"
      "stream_has behind st2 bs after" "is_errmsg st2 = is_errmsg st1" by auto
  have "?r + 2 ^ (7 * Suc k) * groups_nat (hs @ [l]) = r + 2 ^ (7 * k) * groups_nat ((h # hs) @ [l])"
    by (simp add: power_add algebra_simps)
  moreover have "Suc k + length hs = k + length (h # hs)" by simp
  ultimately have "varint32_loop src (7 * k) (word_of_nat r) st =
      (Some (word_of_nat (r + 2 ^ (7 * k) * groups_nat ((h # hs) @ [l])), 7 * Suc (k + length (h # hs)), l), st2)"
    using step 2(1) by (simp only:)
  with 1(3) 2(2,3) show ?case by auto
qed

text \<open>The last of five groups of a 32-bit value has its high bits clear.\<close>

lemma groups_nat_append: "groups_nat (xs @ ys) = groups_nat xs + 128 ^ length xs * groups_nat ys"
  by (induction xs) (simp_all add: algebra_simps)

lemma and_70: "unat (l :: u8) < 16 \<Longrightarrow> l AND 0x70 = 0"
proof -
  assume l: "unat l < 16"
  have "take_bit 4 l = l" using l by (simp add: word_unat_eq_iff unsigned_take_bit_eq take_bit_nat_eq_self_iff)
  then have "l AND 0x70 = l AND (mask 4 AND 0x70)" by (metis and.assoc take_bit_eq_mask)
  also have "mask 4 AND (0x70 :: u8) = 0" by (simp add: mask_eq_exp_minus_1)
  finally show ?thesis by simp
qed

lemma pb_decode_varint32_eof_has:
  assumes n: "n < 2 ^ 32" and st: "stream_has behind st (varint n @ bs) after"
  shows "\<exists>st'. pb_decode_varint32_eof src st = (Some (word_of_nat n), st', False) \<and>
    stream_has behind st' bs after \<and> is_errmsg st' = is_errmsg st"
proof -
  obtain hs l where v: "varint n = hs @ [l]" "\<forall>h \<in> set hs. 128 \<le> unat h" "unat l < 128"
    using varint_split by blast
  have "length (varint n) \<le> Suc 4" using n by (intro length_varint) simp
  then have len: "length hs \<le> 4" using v(1) by simp
  have val: "groups_nat hs + 128 ^ length hs * unat l = n"
    using groups_nat_varint [of n] v(3) unfolding v(1) groups_nat_append by simp
  show ?thesis
  proof (cases hs)
    case Nil
    from readbyte_has [of st l bs after] st v(1) Nil obtain st1 where
      1: "pb_readbyte src st = (Some l, st1)" "stream_has behind st1 bs after" "is_errmsg st1 = is_errmsg st" by auto
    have "l AND 0x80 = 0" using v(3) by (simp add: and_80_eq_0_iff)
    moreover have "ucast l = (word_of_nat (unat l) :: u32)" by (metis of_nat_unat)
    moreover have "unat l = n" using val Nil by simp
    ultimately show ?thesis using 1 by (simp add: pb_decode_varint32_eof_def)
  next
    case (Cons h hs')
    from readbyte_has [of st h "hs' @ l # bs" after] st v(1) Cons obtain st1 where
      1: "pb_readbyte src st = (Some h, st1)" "stream_has behind st1 (hs' @ l # bs) after" "is_errmsg st1 = is_errmsg st" by auto
    have h: "h AND 0x80 \<noteq> 0" using v(2) Cons by (simp add: and_80_eq_0_iff)
    have uc: "ucast (h AND 0x7F) = (word_of_nat (unat h mod 128) :: u32)"
      using add_group [of 0 0 h, where 'a = 32] by simp
    from varint32_loop_has [of hs' l 1 "unat h mod 128" st1 bs after] v len Cons 1(2) obtain st2 where
      2: "varint32_loop src 7 (word_of_nat (unat h mod 128)) st1 =
        (Some (word_of_nat n, 7 * Suc (1 + length hs'), l), st2)"
        "stream_has behind st2 bs after" "is_errmsg st2 = is_errmsg st1"
      using groups_nat_varint [of n] by (auto simp del: of_nat_add of_nat_mult)
    have "l AND 0x70 = 0" if "length hs' = 3"
    proof -
      have "length hs = 4" using that Cons by simp
      with val n have "128 ^ 4 * unat l < 2 ^ 32" by (metis le_add2 le_less_trans)
      then have "unat l < 16" by simp
      then show ?thesis by (rule and_70)
    qed
    then have "\<not> (7 * Suc (1 + length hs') = 35 \<and> l AND 0x70 \<noteq> 0)" by auto
    with 1 2 h uc show ?thesis
      unfolding pb_decode_varint32_eof_def by (simp only: prod.case option.case if_False) auto
  qed
qed

end

section \<open>Bits of the fixed and zigzag forms\<close>

lemma low_byte: "ucast (v AND 0xFF :: 'a::len word) = (ucast v :: u8)"
proof -
  have "v AND 0xFF = take_bit 8 v" by (simp add: take_bit_eq_mask mask_eq_exp_minus_1)
  then show ?thesis by (simp only:) (rule bit_word_eqI, simp add: bit_simps)
qed

lemma split_byte: "v = ucast (ucast v :: u8) OR push_bit 8 (drop_bit 8 (v :: 'a::len word))"
proof (rule bit_word_eqI)
  fix n assume "n < LENGTH('a)"
  then show "bit v n \<longleftrightarrow> bit (ucast (ucast v :: u8) OR push_bit 8 (drop_bit 8 v)) n"
    by (cases "n < 8") (simp_all add: bit_simps)
qed

lemma top_byte: "v = ucast (ucast v :: u8)" if "drop_bit 8 (v :: 'a::len word) = 0"
  using split_byte [of v] that by simp

lemma bytes_of_u32:
  "ucast (ucast v :: u8) OR push_bit 8 (ucast (ucast (drop_bit 8 v) :: u8)) OR
     push_bit 16 (ucast (ucast (drop_bit 16 v) :: u8)) OR
     push_bit 24 (ucast (ucast (drop_bit 24 v) :: u8)) = (v :: u32)"
proof -
  have top: "drop_bit 24 v = ucast (ucast (drop_bit 24 v) :: u8)"
    by (rule top_byte) (simp add: drop_bit_drop_bit drop_bit_word_beyond)
  have "v = ucast (ucast v :: u8) OR push_bit 8 (ucast (ucast (drop_bit 8 v) :: u8) OR
      push_bit 8 (ucast (ucast (drop_bit 16 v) :: u8) OR push_bit 8 (drop_bit 24 v)))"
    using split_byte [of v] split_byte [of "drop_bit 8 v"] split_byte [of "drop_bit 16 v"]
    by (simp only: drop_bit_drop_bit numeral_plus_numeral semiring_norm)
  also have "\<dots> = ucast (ucast v :: u8) OR push_bit 8 (ucast (ucast (drop_bit 8 v) :: u8)) OR
     push_bit 16 (ucast (ucast (drop_bit 16 v) :: u8)) OR
     push_bit 24 (drop_bit 24 v)"
    by (simp only: push_bit_or push_bit_push_bit numeral_plus_numeral semiring_norm or.assoc)
  finally show ?thesis using top by (simp only:)
qed

definition zigzag :: "u64 \<Rightarrow> u64" where
  "zigzag v = (if sint v < 0 then NOT (push_bit 1 v) else push_bit 1 v)"

lemma bit_double: "bit (push_bit 1 (v :: u64)) n \<longleftrightarrow> 0 < n \<and> n < 64 \<and> bit v (n - 1)"
  by (auto simp only: bit_push_bit_iff possible_bit_word Suc_le_eq One_nat_def) simp_all

lemma unzigzag:
  "(if zigzag v AND 1 \<noteq> 0 then NOT (drop_bit 1 (zigzag v)) else drop_bit 1 (zigzag v)) = v"
proof -
  have neg: "sint v < 0 \<longleftrightarrow> bit v 63" by (simp add: sint_uint signed_take_bit_negative_iff bit_uint_iff)
  have odd: "w AND 1 \<noteq> 0 \<longleftrightarrow> bit w 0" for w :: u64
    by (simp add: and_one_eq odd_iff_mod_2_eq_one [symmetric] bit_0)
  obtain d where d: "push_bit 1 v = d" by blast
  have bit_d: "bit d n \<longleftrightarrow> 0 < n \<and> n < 64 \<and> bit v (n - 1)" for n using bit_double [of v n] unfolding d .
  show ?thesis
  proof (cases "bit v 63")
    case True
    have "bit (NOT d) 0" by (simp add: bit_not_iff bit_d)
    moreover have "NOT (drop_bit 1 (NOT d)) = v"
    proof (rule bit_word_eqI)
      fix n assume "n < LENGTH(64)"
      then show "bit (NOT (drop_bit 1 (NOT d))) n = bit v n"
        using True by (cases "n = 63") (auto simp: bit_not_iff bit_drop_bit_eq bit_d)
    qed
    ultimately show ?thesis using True by (simp only: zigzag_def d neg odd if_True)
  next
    case False
    have "\<not> bit d 0" by (simp add: bit_d)
    moreover have "drop_bit 1 d = v"
    proof (rule bit_word_eqI)
      fix n assume "n < LENGTH(64)"
      then show "bit (drop_bit 1 d) n = bit v n"
        using False by (cases "n = 63") (auto simp: bit_drop_bit_eq bit_d)
    qed
    ultimately show ?thesis using False by (simp only: zigzag_def d neg odd if_False)
  qed
qed

text \<open>The code's own source: memory.\<close>

interpretation mem: pb_source buf_source "\<lambda>s. s"
  by unfold_locales (simp add: buf_source_def buf_read_def)

end
