(* ===== verification/Pb_Codec.thy ===== *)
theory Pb_Codec
  imports Pb_Source
begin

text \<open>
  Tags, scalar values, skipping and substreams: each reader of \<open>nanopb/pb_decode.c\<close> inverts
  the writer of \<open>nanopb/pb_encode.c\<close> on any stream that keeps its contract, and the skipper
  leaves the stream right behind the value it skips.
\<close>

section \<open>Words from their bytes\<close>

lemma split_bytes: "drop_bit k v = ucast (ucast (drop_bit k v) :: u8) OR push_bit 8 (drop_bit (k + 8) (v :: 'a::len word))"
  using split_byte [of "drop_bit k v"] by (simp only: drop_bit_drop_bit add.commute)

lemma bytes_of_u64:
  "ucast (ucast v :: u8) OR push_bit 8 (ucast (ucast (drop_bit 8 v) :: u8)) OR
     push_bit 16 (ucast (ucast (drop_bit 16 v) :: u8)) OR
     push_bit 24 (ucast (ucast (drop_bit 24 v) :: u8)) OR
     push_bit 32 (ucast (ucast (drop_bit 32 v) :: u8)) OR
     push_bit 40 (ucast (ucast (drop_bit 40 v) :: u8)) OR
     push_bit 48 (ucast (ucast (drop_bit 48 v) :: u8)) OR
     push_bit 56 (ucast (ucast (drop_bit 56 v) :: u8)) = (v :: u64)"
proof -
  have top: "drop_bit 56 v = ucast (ucast (drop_bit 56 v) :: u8)"
    by (rule top_byte) (simp add: drop_bit_drop_bit drop_bit_word_beyond)
  note add = numeral_plus_numeral semiring_norm
  have "v = ucast (ucast v :: u8) OR push_bit 8 (ucast (ucast (drop_bit 8 v) :: u8) OR
      push_bit 8 (ucast (ucast (drop_bit 16 v) :: u8) OR push_bit 8 (ucast (ucast (drop_bit 24 v) :: u8) OR
      push_bit 8 (ucast (ucast (drop_bit 32 v) :: u8) OR push_bit 8 (ucast (ucast (drop_bit 40 v) :: u8) OR
      push_bit 8 (ucast (ucast (drop_bit 48 v) :: u8) OR push_bit 8 (drop_bit 56 v)))))))"
    using split_byte [of v] split_bytes [of 8 v] split_bytes [of 16 v] split_bytes [of 24 v]
      split_bytes [of 32 v] split_bytes [of 40 v] split_bytes [of 48 v]
    by (simp only: add)
  then show ?thesis
    unfolding top [symmetric] by (simp only: push_bit_or push_bit_push_bit add or.assoc)
qed

section \<open>Integers\<close>

context pb_source
begin

lemma pb_decode_varint32_decodes:
  "n < 2 ^ 32 \<Longrightarrow> decodes behind (pb_decode_varint32 src) (varint n) (word_of_nat n)"
  using pb_decode_varint32_eof_has unfolding decodes_def by (fastforce simp: pb_decode_varint32_def)

lemma pb_decode_svarint_decodes:
  "decodes behind (pb_decode_svarint src) (varint (unat (zigzag v))) v"
  using decodes_map [OF pb_decode_varint_decodes,
      of "pb_decode_svarint src" "\<lambda>v. if v AND 1 \<noteq> 0 then NOT (drop_bit 1 v) else drop_bit 1 v" "zigzag v"]
  by (simp only: unzigzag pb_decode_svarint_def)

lemma pb_decode_fixed32_decodes:
  "decodes behind (pb_decode_fixed32 src)
     [ucast v, ucast (drop_bit 8 v), ucast (drop_bit 16 v), ucast (drop_bit 24 v)] v"
  (is "decodes behind _ ?x v")
proof -
  have "decodes behind (pb_read src 4) ?x ?x" by (rule pb_read_decodes) simp
  from decodes_map [OF this, of "pb_decode_fixed32 src"
      "\<lambda>bs. ucast (bs ! 0) OR push_bit 8 (ucast (bs ! 1)) OR push_bit 16 (ucast (bs ! 2)) OR push_bit 24 (ucast (bs ! 3))"]
  show ?thesis by (simp only: pb_decode_fixed32_def nth_Cons_0 nth_Cons_numeral nth_Cons_Suc One_nat_def bytes_of_u32
      numeral_2_eq_2 numeral_3_eq_3)
qed

lemma pb_decode_fixed64_decodes:
  "decodes behind (pb_decode_fixed64 src)
     [ucast v, ucast (drop_bit 8 v), ucast (drop_bit 16 v), ucast (drop_bit 24 v),
      ucast (drop_bit 32 v), ucast (drop_bit 40 v), ucast (drop_bit 48 v), ucast (drop_bit 56 v)] v"
  (is "decodes behind _ ?x v")
proof -
  have r: "decodes behind (pb_read src 8) ?x ?x" by (rule pb_read_decodes) simp
  let ?t = "\<lambda>bs :: u8 list. ucast (bs ! 0) OR push_bit 8 (ucast (bs ! 1)) OR push_bit 16 (ucast (bs ! 2)) OR
     push_bit 24 (ucast (bs ! 3)) OR push_bit 32 (ucast (bs ! 4)) OR push_bit 40 (ucast (bs ! 5)) OR
     push_bit 48 (ucast (bs ! 6)) OR push_bit 56 (ucast (bs ! 7))"
  have "?x ! 0 = ucast v" "?x ! 1 = ucast (drop_bit 8 v)" "?x ! 2 = ucast (drop_bit 16 v)"
    "?x ! 3 = ucast (drop_bit 24 v)" "?x ! 4 = ucast (drop_bit 32 v)" "?x ! 5 = ucast (drop_bit 40 v)"
    "?x ! 6 = ucast (drop_bit 48 v)" "?x ! 7 = ucast (drop_bit 56 v)" by simp_all
  then have "?t ?x = v" by (simp only: bytes_of_u64)
  with decodes_map [OF r, of "pb_decode_fixed64 src" ?t] show ?thesis
    by (simp only: pb_decode_fixed64_def)
qed

section \<open>Tags\<close>

text \<open>The field number and the wire type share one 32-bit varint; zero ends a message.\<close>

lemma pb_decode_tag_has:
  assumes w: "w < 8" and n: "8 * n + w < 2 ^ 32" "8 * n + w \<noteq> 0"
    and st: "stream_has behind st (varint (8 * n + w) @ bs) after"
  shows "\<exists>st'. pb_decode_tag src st = (Some (word_of_nat w, word_of_nat n), False, st') \<and>
    stream_has behind st' bs after \<and> is_errmsg st' = is_errmsg st"
proof -
  let ?t = "word_of_nat (8 * n + w) :: u32"
  from pb_decode_varint32_eof_has [OF n(1) st] obtain st' where
    1: "pb_decode_varint32_eof src st = (Some ?t, st', False)"
      "stream_has behind st' bs after" "is_errmsg st' = is_errmsg st" by auto
  have u: "unat ?t = 8 * n + w" using n(1) by (simp add: unat_of_nat take_bit_nat_eq_self_iff del: of_nat_add of_nat_mult)
  then have nz: "?t \<noteq> 0" using n(2) by (metis unat_0)
  have "?t AND 7 = take_bit 3 ?t" by (simp add: take_bit_eq_mask mask_eq_exp_minus_1)
  also have "\<dots> = word_of_nat (take_bit 3 (8 * n + w))" by (rule take_bit_of_nat)
  also have "take_bit 3 (8 * n + w) = w" using w by (simp add: take_bit_eq_mod)
  finally have a: "?t AND 7 = word_of_nat w" .
  have "unat (drop_bit 3 ?t) = n" using w unfolding unat_drop_bit_eq u by (simp add: drop_bit_eq_div)
  then have d: "drop_bit 3 ?t = word_of_nat n" by (metis of_nat_unat ucast_id)
  show ?thesis using 1 nz a d by (simp only: pb_decode_tag_def prod.case option.case if_False) auto
qed

lemma pb_decode_tag_end:
  assumes "stream_has behind st [] after"
  shows "\<exists>st'. pb_decode_tag src st = (None, True, st')"
proof -
  from readbyte_empty [OF assms] obtain st' where "pb_readbyte src st = (None, st')" "bytes_left st' = 0"
    by (cases "pb_readbyte src st") auto
  then show ?thesis by (simp add: pb_decode_tag_def pb_decode_varint32_eof_def)
qed

section \<open>Skipping\<close>

end

text \<open>What a value looks like on the wire, by its wire type. A varint may have any number of
  groups.\<close>

inductive wire_value :: "u32 \<Rightarrow> u8 list \<Rightarrow> bool" where
  groups: "\<forall>h \<in> set hs. 128 \<le> unat h \<Longrightarrow> unat l < 128 \<Longrightarrow> wire_value 0 (hs @ [l])"
| eight: "length x = 8 \<Longrightarrow> wire_value 1 x"
| block: "length x < 2 ^ 32 \<Longrightarrow> wire_value 2 (varint (length x) @ x)"
| four: "length x = 4 \<Longrightarrow> wire_value 5 x"

inductive_cases wire_valueE: "wire_value wt x"

context pb_source
begin

lemma pb_read_one_decodes: "decodes behind (pb_read src 1) [b] [b]"
  by (rule pb_read_decodes) simp

lemma pb_skip_varint_has:
  "\<forall>h \<in> set hs. 128 \<le> unat h \<Longrightarrow> unat l < 128 \<Longrightarrow> stream_has behind st (hs @ l # bs) after \<Longrightarrow>
     \<exists>st'. pb_skip_varint src st = (Some (), st') \<and> stream_has behind st' bs after \<and> is_errmsg st' = is_errmsg st"
proof (induction hs arbitrary: st)
  case Nil
  from decodesD [OF pb_read_one_decodes, of st l bs after] Nil show ?case
    by (subst pb_skip_varint.simps) (auto simp: and_80_eq_0_iff)
next
  case (Cons h hs)
  from decodesD [OF pb_read_one_decodes, of st h "hs @ l # bs" after] Cons.prems(3) obtain st1 where
    1: "pb_read src 1 st = (Some [h], st1)" "stream_has behind st1 (hs @ l # bs) after" "is_errmsg st1 = is_errmsg st" by auto
  from Cons.IH [OF _ Cons.prems(2) 1(2)] Cons.prems(1) 1 show ?case
    by (subst pb_skip_varint.simps) (auto simp: and_80_eq_0_iff)
qed

lemma pb_skip_string_decodes:
  assumes "length x < 2 ^ 32"
  shows "decodes behind (pb_skip_string src) (varint (length x) @ x) ()"
proof (rule decodes_bind [OF pb_decode_varint32_decodes [OF assms]])
  show "decodes behind (\<lambda>st. pb_read_null src (unat (word_of_nat (length x) :: u32)) st) x ()"
    using assms by (intro pb_read_null_decodes) (simp add: unat_of_nat take_bit_nat_eq_self_iff)
qed (simp add: pb_skip_string_def)

text \<open>Skipping a value leaves the stream right behind it.\<close>

lemma pb_skip_field_decodes:
  assumes "wire_value wt x"
  shows "decodes behind (pb_skip_field src wt) x ()"
  using assms
proof cases
  case (groups hs l)
  then show ?thesis using pb_skip_varint_has [of hs l]
    by (auto simp: decodes_def pb_skip_field_def wire_types)
next
  case eight
  with pb_read_null_decodes [of x 8] show ?thesis by (simp add: pb_skip_field_def [abs_def] wire_types)
next
  case (block y)
  with pb_skip_string_decodes [of y] show ?thesis by (simp add: pb_skip_field_def [abs_def] wire_types)
next
  case four
  with pb_read_null_decodes [of x 4] show ?thesis by (simp add: pb_skip_field_def [abs_def] wire_types)
qed

text \<open>The raw bytes of a value, for a caller that stores them.\<close>

lemma raw_varint_has:
  "\<forall>h \<in> set hs. 128 \<le> unat h \<Longrightarrow> unat l < 128 \<Longrightarrow> stream_has behind st (hs @ l # bs) after \<Longrightarrow>
     length acc + Suc (length hs) \<le> m \<Longrightarrow>
     \<exists>st'. raw_varint src m acc st = (Some (acc @ hs @ [l]), st') \<and>
       stream_has behind st' bs after \<and> is_errmsg st' = is_errmsg st"
proof (induction hs arbitrary: st acc)
  case Nil
  from decodesD [OF pb_read_one_decodes, of st l bs after] Nil show ?case
    by (subst raw_varint.simps) (auto simp: and_80_eq_0_iff)
next
  case (Cons h hs)
  from decodesD [OF pb_read_one_decodes, of st h "hs @ l # bs" after] Cons.prems(3) obtain st1 where
    1: "pb_read src 1 st = (Some [h], st1)" "stream_has behind st1 (hs @ l # bs) after" "is_errmsg st1 = is_errmsg st" by auto
  from Cons.IH [OF _ Cons.prems(2) 1(2), of "acc @ [h]"] Cons.prems(1,4) 1 show ?case
    by (subst raw_varint.simps) (auto simp: and_80_eq_0_iff)
qed

lemma raw_varint_bounded:
  "raw_varint src m acc st = (Some bs, st') \<Longrightarrow> length bs \<le> m"
proof (induction src m acc st arbitrary: bs st' rule: raw_varint.induct)
  case (1 src m acc st)
  show ?case
  proof (cases "length acc + 1 > m")
    case True
    with 1(2) show ?thesis by (subst (asm) raw_varint.simps) simp
  next
    case False
    obtain r st1 where r: "(r, st1) = pb_read src 1 st" by (cases "pb_read src 1 st") auto
    with 1(2) False obtain b where b: "r = Some b"
      by (subst (asm) raw_varint.simps) (cases r; auto split: prod.splits)
    show ?thesis
    proof (cases "hd b AND 0x80 = 0")
      case True
      with 1(2) r b False show ?thesis by (subst (asm) raw_varint.simps) (auto split: prod.splits)
    next
      case more: False
      with 1(2) r b False have "raw_varint src m (acc @ [hd b]) st1 = (Some bs, st')"
        by (subst (asm) raw_varint.simps) (auto split: prod.splits)
      from 1(1) [OF False r b more this] show ?thesis .
    qed
  qed
qed

lemma read_raw_value_decodes:
  assumes "wire_value wt x" and "wt \<noteq> 2" and "length x \<le> m"
  shows "decodes behind (read_raw_value src wt m) x x"
  using assms(1)
proof cases
  case (groups hs l)
  then show ?thesis using raw_varint_has [of hs l _ _ _ "[]" m] assms(3)
    by (auto simp: decodes_def read_raw_value_def wire_types)
next
  case eight
  with pb_read_decodes [of x 8] show ?thesis by (simp add: read_raw_value_def [abs_def] wire_types)
next
  case four
  with pb_read_decodes [of x 4] show ?thesis by (simp add: read_raw_value_def [abs_def] wire_types)
qed (use assms(2) in simp)

section \<open>Substreams\<close>

text \<open>The substream sees the field's bytes and no more; the parent, closed, goes on right
  behind them, however far the substream was read.\<close>

lemma pb_make_string_substream_has:
  assumes len: "length x < 2 ^ 32" and st: "stream_has behind st (varint (length x) @ x @ bs) after"
  shows "\<exists>sub par. pb_make_string_substream src st = (Some sub, par) \<and>
    stream_has behind sub x (bs @ after) \<and> bytes_left par = length bs \<and> is_errmsg sub = is_errmsg st"
proof -
  from decodesD [OF pb_decode_varint32_decodes [OF len] st] obtain st1 where
    1: "pb_decode_varint32 src st = (Some (word_of_nat (length x)), st1)"
      "stream_has behind st1 (x @ bs) after" "is_errmsg st1 = is_errmsg st" by auto
  have "unat (word_of_nat (length x) :: u32) = length x"
    using len by (simp add: unat_of_nat take_bit_nat_eq_self_iff)
  with 1 show ?thesis by (auto simp: pb_make_string_substream_def stream_has_def)
qed

lemma pb_close_string_substream_has:
  assumes sub: "stream_has behind sub rest (bs @ after)" and par: "bytes_left par = length bs"
  shows "\<exists>st'. pb_close_string_substream src sub par = (Some (), st') \<and> stream_has behind st' bs after \<and>
    is_errmsg st' = is_errmsg sub"
proof (cases "rest = []")
  case True
  with assms show ?thesis by (auto simp: pb_close_string_substream_def stream_has_def)
next
  case False
  have "stream_has behind sub (rest @ []) (bs @ after)" using sub by simp
  from pb_read_null_has [OF this] obtain s' where
    "pb_read_null src (length rest) sub = (Some (), s')" "stream_has behind s' [] (bs @ after)" "is_errmsg s' = is_errmsg sub"
    by auto
  with False assms show ?thesis by (auto simp: pb_close_string_substream_def stream_has_def)
qed

lemma pb_make_string_substream_short:
  assumes "n < 2 ^ 32" and "length x < n" and "stream_has behind st (varint n @ x) after"
  shows "fst (pb_make_string_substream src st) = None"
proof -
  from decodesD [OF pb_decode_varint32_decodes [OF assms(1)] assms(3)] assms(1,2) show ?thesis
    by (auto simp: pb_make_string_substream_def stream_has_def PB_RETURN_ERROR_def unat_of_nat take_bit_nat_eq_self_iff)
qed

end

end
