(* ===== verification/Pb_Values.thy ===== *)
theory Pb_Values
  imports Pb_Codec
begin

text \<open>
  The field decoders and encoders of nanopb: which values each accepts, and that what an
  encoder writes from the memory of a field its decoder reads back.
\<close>

section \<open>Numbers of one, two, four and eight bytes\<close>

definition signed_range :: "nat \<Rightarrow> int \<Rightarrow> bool" where
  "signed_range n i \<longleftrightarrow> - (2 ^ (8 * n - 1)) \<le> i \<and> i < 2 ^ (8 * n - 1)"

lemma sint_of_int_iff:
  assumes "LENGTH('a) = 8 * n"
  shows "sint (word_of_int i :: 'a::len word) = i \<longleftrightarrow> signed_range n i"
proof -
  have "sint (word_of_int i :: 'a word) = signed_take_bit (8 * n - 1) i"
    using assms by (simp add: sint_sbintrunc')
  then show ?thesis by (simp only: signed_take_bit_int_eq_self_iff signed_range_def)
qed

lemma store_int_eq: "n \<in> {8, 4, 2, 1} \<Longrightarrow> store_int n i = i \<longleftrightarrow> signed_range n i"
  using sint_of_int_iff [where 'a = 64, of 8 i] sint_of_int_iff [where 'a = 32, of 4 i]
    sint_of_int_iff [where 'a = 16, of 2 i] sint_of_int_iff [where 'a = 8, of 1 i]
  by (auto simp: store_int_def)

lemma store_nat_eq: "n \<in> {8, 4, 2, 1} \<Longrightarrow> store_nat n k = k \<longleftrightarrow> k < 256 ^ n"
  unfolding store_nat_def by (auto simp: unat_of_nat take_bit_nat_eq_self_iff)

text \<open>What a decoder of a field of \<open>n\<close> bytes stores for the 64-bit value \<open>v\<close>, if
  anything. In a signed field of up to four bytes only the low half of \<open>v\<close> counts.\<close>

definition signed_value :: "nat \<Rightarrow> u64 \<Rightarrow> int option" where
  "signed_value n v =
     (let s = (if n = 8 then sint v else sint (ucast v :: u32))
      in if n \<in> {8, 4, 2, 1} \<and> signed_range n s then Some s else None)"

definition unsigned_value :: "nat \<Rightarrow> u64 \<Rightarrow> nat option" where
  "unsigned_value n v = (if n \<in> {8, 4, 2, 1} \<and> unat v < 256 ^ n then Some (unat v) else None)"

definition zigzag_value :: "nat \<Rightarrow> u64 \<Rightarrow> int option" where
  "zigzag_value n v = (if n \<in> {8, 4, 2, 1} \<and> signed_range n (sint v) then Some (sint v) else None)"

definition size_error :: "nat \<Rightarrow> string" where
  "size_error n = (if n \<in> {8, 4, 2, 1} then ''integer too large'' else ''invalid data_size'')"

lemma pb_dec_varint_eq:
  "pb_dec_varint src n st =
     (case pb_decode_varint src st of
        (None, st) \<Rightarrow> (None, st)
      | (Some v, st) \<Rightarrow> (case signed_value n v of Some i \<Rightarrow> (Some i, st) | None \<Rightarrow> PB_RETURN_ERROR st (size_error n)))"
  by (cases "n \<in> {8, 4, 2, 1}")
     (simp_all add: pb_dec_varint_def signed_value_def size_error_def Let_def store_int_eq split: prod.split option.split)

lemma pb_dec_uvarint_eq:
  "pb_dec_uvarint src n st =
     (case pb_decode_varint src st of
        (None, st) \<Rightarrow> (None, st)
      | (Some v, st) \<Rightarrow> (case unsigned_value n v of Some i \<Rightarrow> (Some i, st) | None \<Rightarrow> PB_RETURN_ERROR st (size_error n)))"
  by (cases "n \<in> {8, 4, 2, 1}")
     (simp_all add: pb_dec_uvarint_def unsigned_value_def size_error_def Let_def store_nat_eq split: prod.split option.split)

lemma pb_dec_svarint_eq:
  "pb_dec_svarint src n st =
     (case pb_decode_svarint src st of
        (None, st) \<Rightarrow> (None, st)
      | (Some v, st) \<Rightarrow> (case zigzag_value n v of Some i \<Rightarrow> (Some i, st) | None \<Rightarrow> PB_RETURN_ERROR st (size_error n)))"
  by (cases "n \<in> {8, 4, 2, 1}")
     (simp_all add: pb_dec_svarint_def zigzag_value_def size_error_def Let_def store_int_eq split: prod.split option.split)

lemma decodes_value:
  assumes "decodes behind f x v" and "val v = Some i"
    and "\<And>st. h st = (case f st of (None, st) \<Rightarrow> (None, st)
      | (Some v, st) \<Rightarrow> (case val v of Some i \<Rightarrow> (Some i, st) | None \<Rightarrow> PB_RETURN_ERROR st e))"
  shows "decodes behind h x i"
  using assms unfolding decodes_def by fastforce

lemma refuses_value:
  assumes "decodes behind f x v" and "val v = None"
    and "\<And>st. h st = (case f st of (None, st) \<Rightarrow> (None, st)
      | (Some v, st) \<Rightarrow> (case val v of Some i \<Rightarrow> (Some i, st) | None \<Rightarrow> PB_RETURN_ERROR st e))"
  shows "refuses behind h x"
  unfolding refuses_def
proof (intro allI impI)
  fix st after
  assume "stream_has behind st x after"
  with decodesD [OF assms(1), of st "[]" after] assms(2,3) show "fst (h st) = None"
    by (auto simp: PB_RETURN_ERROR_def)
qed

context pb_source
begin

lemmas pb_dec_varint_decodes = decodes_value [where val = "signed_value n" and h = "pb_dec_varint src n" for n,
    OF pb_decode_varint_decodes _ pb_dec_varint_eq]
lemmas pb_dec_uvarint_decodes = decodes_value [where val = "unsigned_value n" and h = "pb_dec_uvarint src n" for n,
    OF pb_decode_varint_decodes _ pb_dec_uvarint_eq]
lemmas pb_dec_svarint_decodes = decodes_value [where val = "zigzag_value n" and h = "pb_dec_svarint src n" for n,
    OF pb_decode_svarint_decodes _ pb_dec_svarint_eq]
lemmas pb_dec_varint_refuses = refuses_value [where val = "signed_value n" and h = "pb_dec_varint src n" for n,
    OF pb_decode_varint_decodes _ pb_dec_varint_eq]
lemmas pb_dec_uvarint_refuses = refuses_value [where val = "unsigned_value n" and h = "pb_dec_uvarint src n" for n,
    OF pb_decode_varint_decodes _ pb_dec_uvarint_eq]
lemmas pb_dec_svarint_refuses = refuses_value [where val = "zigzag_value n" and h = "pb_dec_svarint src n" for n,
    OF pb_decode_svarint_decodes _ pb_dec_svarint_eq]

lemma pb_dec_bool_decodes: "decodes behind (pb_dec_bool src) (varint (if b then 1 else 0)) b"
proof -
  have "decodes behind (pb_decode_varint32 src) (varint (if b then 1 else 0)) (word_of_nat (if b then 1 else 0))"
    by (rule pb_decode_varint32_decodes) simp
  from decodes_map [OF this, of "pb_dec_bool src" "\<lambda>v. v \<noteq> 0"] show ?thesis
    by (cases b) (simp_all add: pb_dec_bool_def)
qed

text \<open>Blocks of bytes: the fixed size, the largest size.\<close>

lemma unat_block_len: "length x < 2 ^ 32 \<Longrightarrow> unat (word_of_nat (length x) :: u32) = length x"
  by (simp add: unat_of_nat take_bit_nat_eq_self_iff)

lemma pb_dec_fixed_length_bytes_decodes:
  assumes len: "length x < 2 ^ 32" and n: "length x = n \<or> x = []"
  shows "decodes behind (pb_dec_fixed_length_bytes src n) (varint (length x) @ x) (if x = [] then replicate n 0 else x)"
proof (rule decodes_bind [OF pb_decode_varint32_decodes [OF len]])
  note u = unat_block_len [OF len]
  have nz: "word_of_nat (length x) = (0 :: u32) \<longleftrightarrow> x = []" by (simp only: unat_eq_zero [symmetric] u length_0_conv)
  let ?g = "\<lambda>sz st. if unat (sz :: u32) > PB_SIZE_MAX then PB_RETURN_ERROR st ''bytes overflow''
      else if sz = 0 then (Some (replicate n 0), st)
      else if unat sz \<noteq> n then PB_RETURN_ERROR st ''incorrect fixed length bytes size''
      else pb_read src n st"
  show "decodes behind (?g (word_of_nat (length x))) x (if x = [] then replicate n 0 else x)"
  proof (cases "x = []")
    case False
    with n have xn: "length x = n" by simp
    have "?g (word_of_nat (length x)) = pb_read src n"
      using False nz u xn len by (simp add: fun_eq_iff PB_SIZE_MAX_def)
    with pb_read_decodes [OF xn] False show ?thesis by simp
  qed (simp add: decodes_def PB_SIZE_MAX_def)
qed (simp add: pb_dec_fixed_length_bytes_def)

end

section \<open>Allocation\<close>

text \<open>The size asked for is the true product: the overflow check never lets it wrap.\<close>

lemma allocate_field_exact:
  assumes "dsize < 2 ^ 64" and "asize < 2 ^ 64"
  shows "allocate_field realloc dsize asize st =
    (if 0 < asize * dsize \<and> asize * dsize < 2 ^ 64 \<and> realloc (asize * dsize)
     then (Some (asize * dsize), st)
     else PB_RETURN_ERROR st
       (if asize * dsize = 0 then ''invalid size''
        else if asize * dsize < 2 ^ 64 then ''realloc failed'' else ''size too large''))"
proof (cases "dsize = 0 \<or> asize = 0")
  case False
  then have pos: "0 < asize * dsize" "0 < asize" by auto
  have big: "(2 ^ 64 - 1) div asize < dsize \<longleftrightarrow> 2 ^ 64 \<le> asize * dsize"
    using div_less_iff_less_mult [OF pos(2), of "2 ^ 64 - 1" dsize] by (auto simp: mult.commute)
  have small: "asize * dsize < 2 ^ 64" if "dsize < 2 ^ 32" "asize < 2 ^ 32"
    using mult_strict_mono [OF that(2,1)] by simp
  show ?thesis
  proof (cases "asize * dsize < 2 ^ 64")
    case True
    then have "sz_mul asize dsize = asize * dsize" by (simp add: sz_mul_def)
    then show ?thesis using True pos big False unfolding allocate_field_def by (simp add: Let_def)
  next
    case over: False
    then have "dsize \<ge> 2 ^ 32 \<or> asize \<ge> 2 ^ 32" using small by force
    then show ?thesis using over pos big False unfolding allocate_field_def by (simp add: Let_def)
  qed
qed (auto simp: allocate_field_def)

text \<open>The place for a block of \<open>n\<close> bytes: a new allocation or the field itself.\<close>

definition field_has_room :: "(nat \<Rightarrow> bool) \<Rightarrow> pb_field \<Rightarrow> nat \<Rightarrow> bool" where
  "field_has_room realloc field n \<longleftrightarrow>
     (if PB_ATYPE (f_type field) = PB_ATYPE_POINTER then realloc n else n \<le> data_size field)"

section \<open>Bytes and strings\<close>

context pb_source
begin

lemma pb_dec_string_decodes:
  assumes len: "length x < 2 ^ 32 - 1" and room: "field_has_room realloc field (length x + 1)"
  shows "decodes behind (pb_dec_string src realloc field) (varint (length x) @ x) (x @ [0])"
  unfolding decodes_def
proof (intro allI impI)
  fix st bs after
  assume "stream_has behind st ((varint (length x) @ x) @ bs) after"
  with decodesD [OF pb_decode_varint32_decodes [of "length x"], of st "x @ bs" after] len obtain st1 where
    1: "pb_decode_varint32 src st = (Some (word_of_nat (length x)), st1)"
      "stream_has behind st1 (x @ bs) after" "is_errmsg st1 = is_errmsg st" by auto
  have l: "length x < 2 ^ 32" using len by simp
  note u = unat_block_len [OF l]
  have "unat (word_of_nat (Suc (length x)) :: u32) = length x + 1"
    using len by (subst unat_of_nat) (simp del: of_nat_Suc)
  then have "unat (word_of_nat (length x) + 1 :: u32) = length x + 1" by (simp only: of_nat_Suc add.commute)
  moreover have "allocate_field realloc (length x + 1) 1 st1 = (Some (length x + 1), st1)" if "realloc (length x + 1)"
    using that len by (simp add: allocate_field_exact)
  moreover have "\<not> bytes_left st1 < length x" using 1(2) by (simp add: stream_has_def)
  moreover from decodesD [OF pb_read_decodes [OF refl] 1(2)] obtain st2 where
    "pb_read src (length x) st1 = (Some x, st2)" "stream_has behind st2 bs after" "is_errmsg st2 = is_errmsg st1" by auto
  ultimately show "\<exists>st'. pb_dec_string src realloc field st = (Some (x @ [0]), st') \<and> stream_has behind st' bs after \<and>
      is_errmsg st' = is_errmsg st"
    using 1 room u by (simp add: pb_dec_string_def field_has_room_def Let_def split: if_splits)
qed

lemma pb_dec_bytes_decodes:
  assumes len: "length x < 2 ^ 32" and room: "field_has_room realloc field (length x + 4)"
  shows "decodes behind (pb_dec_bytes src realloc field) (varint (length x) @ x) (length x, x)"
  unfolding decodes_def
proof (intro allI impI)
  fix st bs after
  assume "stream_has behind st ((varint (length x) @ x) @ bs) after"
  with decodesD [OF pb_decode_varint32_decodes [OF len], of st "x @ bs" after] obtain st1 where
    1: "pb_decode_varint32 src st = (Some (word_of_nat (length x)), st1)"
      "stream_has behind st1 (x @ bs) after" "is_errmsg st1 = is_errmsg st" by auto
  have "PB_BYTES_ARRAY_T_ALLOCSIZE (length x) = length x + 4" "length x \<le> PB_SIZE_MAX"
    using len by (simp_all add: PB_BYTES_ARRAY_T_ALLOCSIZE_def sz_add_def PB_SIZE_MAX_def)
  moreover have "allocate_field realloc (length x + 4) 1 st1 = (Some (length x + 4), st1)" if "realloc (length x + 4)"
    using that len by (simp add: allocate_field_exact)
  moreover have "\<not> bytes_left st1 < length x" using 1(2) by (simp add: stream_has_def)
  moreover from decodesD [OF pb_read_decodes [OF refl] 1(2)] obtain st2 where
    "pb_read src (length x) st1 = (Some x, st2)" "stream_has behind st2 bs after" "is_errmsg st2 = is_errmsg st1" by auto
  ultimately show "\<exists>st'. pb_dec_bytes src realloc field st = (Some (length x, x), st') \<and> stream_has behind st' bs after \<and>
      is_errmsg st' = is_errmsg st"
    using 1 room unat_block_len [OF len] by (simp add: pb_dec_bytes_def field_has_room_def Let_def split: if_splits)
qed

text \<open>Whatever the input says, no more bytes are stored than there is room for.\<close>

lemma pb_read_length:
  "stream_has behind st bs after \<Longrightarrow> pb_read src n st = (Some x, st') \<Longrightarrow> length x = n"
  using src_read [of n "is_state st"]
  by (auto simp: pb_read_def read_checked_def stream_has_def PB_RETURN_ERROR_def split: if_splits prod.splits option.splits)

end

section \<open>The encoders\<close>

text \<open>The number in a signed field: its bytes, two's complement.\<close>

definition field_int :: "nat \<Rightarrow> u8 list \<Rightarrow> int" where
  "field_int n mem = signed_take_bit (8 * n - 1) (int (le_nat (take n mem)))"

lemma signed_range_field_int: "0 < n \<Longrightarrow> signed_range n (field_int n mem)"
  by (simp add: signed_range_def field_int_def signed_take_bit_int_greater_eq_minus_exp signed_take_bit_int_less_exp)

lemma signed_range_mono: "signed_range n i \<Longrightarrow> n \<le> m \<Longrightarrow> signed_range m i"
proof -
  assume "signed_range n i" "n \<le> m"
  moreover from this have "(2 :: int) ^ (8 * n - 1) \<le> 2 ^ (8 * m - 1)" by (intro power_increasing) auto
  ultimately show ?thesis unfolding signed_range_def by linarith
qed

lemma signed_field_eq: "signed_field mem n = word_of_int (field_int n mem)"
  by (simp add: signed_field_def field_int_def)

lemma signed_value_field:
  assumes "n \<in> {8, 4, 2, 1}"
  shows "signed_value n (signed_field mem n) = Some (field_int n mem)"
proof -
  let ?i = "field_int n mem"
  have r: "signed_range n ?i" using assms by (intro signed_range_field_int) auto
  have "sint (word_of_int ?i :: u64) = ?i"
    using signed_range_mono [OF r, of 8] assms sint_of_int_iff [where 'a = 64, of 8 ?i] by auto
  moreover have "sint (word_of_int ?i :: u32) = ?i" if "n \<noteq> 8"
    using that signed_range_mono [OF r, of 4] assms sint_of_int_iff [where 'a = 32, of 4 ?i] by auto
  moreover have "(ucast (word_of_int ?i :: u64) :: u32) = word_of_int ?i"
    by (rule bit_word_eqI) (simp add: bit_simps)
  ultimately show ?thesis using assms r
    by (cases "n = 8") (simp_all only: signed_value_def signed_field_eq Let_def if_True if_False simp_thms)
qed

lemma zigzag_value_field:
  assumes "n \<in> {8, 4, 2, 1}"
  shows "zigzag_value n (signed_field mem n) = Some (field_int n mem)"
proof -
  have r: "signed_range n (field_int n mem)" using assms by (intro signed_range_field_int) auto
  have "sint (word_of_int (field_int n mem) :: u64) = field_int n mem"
    using signed_range_mono [OF r, of 8] assms sint_of_int_iff [where 'a = 64, of 8 "field_int n mem"] by auto
  with assms r show ?thesis by (simp add: zigzag_value_def signed_field_eq)
qed

lemma le_nat_less: "le_nat bs < 256 ^ length bs"
  using be_nat_less [of "rev bs"] by (simp add: le_nat_def)

lemma unsigned_value_field:
  assumes n: "n \<in> {8, 4, 2, 1}" and len: "n \<le> length mem"
  shows "unat (word_of_nat (le_nat (take n mem)) :: u64) = le_nat (take n mem)"
    and "unsigned_value n (word_of_nat (le_nat (take n mem))) = Some (le_nat (take n mem))"
proof -
  have l: "le_nat (take n mem) < 256 ^ n" using le_nat_less [of "take n mem"] len by simp
  also have "\<dots> \<le> 256 ^ 8" using n by (intro power_increasing) auto
  finally show u: "unat (word_of_nat (le_nat (take n mem)) :: u64) = le_nat (take n mem)"
    by (intro unat_of_nat64) simp
  show "unsigned_value n (word_of_nat (le_nat (take n mem))) = Some (le_nat (take n mem))"
    using n l by (simp add: unsigned_value_def u)
qed

text \<open>\<open>emits f x\<close>: on a buffer, \<open>f\<close> appends exactly \<open>x\<close> if there is room and fails if there
  is not. \<open>counts f n\<close>: on a stream that only counts, it adds \<open>n\<close>.\<close>

definition emits :: "((u8 list \<times> nat) ostream \<Rightarrow> bool \<times> (u8 list \<times> nat) ostream) \<Rightarrow> u8 list \<Rightarrow> bool" where
  "emits f x \<longleftrightarrow>
     (\<forall>before behind s w. obuf before behind s w \<longrightarrow>
        (if length w + length x \<le> max_size s
         then \<exists>s'. f s = (True, s') \<and> obuf before behind s' (w @ x) \<and> max_size s' = max_size s \<and> os_errmsg s' = os_errmsg s
         else \<exists>s' w'. f s = (False, s') \<and> obuf before behind s' w' \<and> max_size s' = max_size s))"

definition counts :: "('s ostream \<Rightarrow> bool \<times> 's ostream) \<Rightarrow> nat \<Rightarrow> bool" where
  "counts f n \<longleftrightarrow> (\<forall>s. f s = (True, s\<lparr>bytes_written := sz_add (bytes_written s) n\<rparr>))"

lemma emits_write:
  assumes "length x = n" and "n < 2 ^ 64"
  shows "emits (pb_write (Some buf_write) x n) x"
  unfolding emits_def
proof (intro allI impI)
  fix before behind s w
  assume s: "obuf before behind s w"
  have err: "obuf before behind (s\<lparr>os_errmsg := e\<rparr>) w" for e using s by (simp add: obuf_def)
  show "if length w + length x \<le> max_size s
    then \<exists>s'. pb_write (Some buf_write) x n s = (True, s') \<and> obuf before behind s' (w @ x) \<and>
      max_size s' = max_size s \<and> os_errmsg s' = os_errmsg s
    else \<exists>s' w'. pb_write (Some buf_write) x n s = (False, s') \<and> obuf before behind s' w' \<and> max_size s' = max_size s"
    using pb_write_buffer [OF s, of x] assms
    by (auto split: if_splits intro!: exI [where P = "obuf before behind s'" for s', OF err])
qed

lemma counts_write: "counts (pb_write None x n) n"
  by (simp add: counts_def pb_write_def)

lemma emits_bind:
  assumes f: "emits f x" and g: "emits g y"
    and h: "\<And>s. h s = (case f s of (False, s) \<Rightarrow> (False, s) | (True, s) \<Rightarrow> g s)"
  shows "emits h (x @ y)"
  unfolding emits_def
proof (intro allI impI)
  fix before behind s w
  assume s: "obuf before behind s w"
  show "if length w + length (x @ y) \<le> max_size s
    then \<exists>s'. h s = (True, s') \<and> obuf before behind s' (w @ x @ y) \<and> max_size s' = max_size s \<and> os_errmsg s' = os_errmsg s
    else \<exists>s' w'. h s = (False, s') \<and> obuf before behind s' w' \<and> max_size s' = max_size s"
  proof (cases "length w + length x \<le> max_size s")
    case True
    with f s obtain s1 where 1: "f s = (True, s1)" "obuf before behind s1 (w @ x)" "max_size s1 = max_size s"
        "os_errmsg s1 = os_errmsg s"
      unfolding emits_def by metis
    from g 1(2) have "if length (w @ x) + length y \<le> max_size s1
      then \<exists>s'. g s1 = (True, s') \<and> obuf before behind s' ((w @ x) @ y) \<and> max_size s' = max_size s1 \<and> os_errmsg s' = os_errmsg s1
      else \<exists>s' w'. g s1 = (False, s') \<and> obuf before behind s' w' \<and> max_size s' = max_size s1" unfolding emits_def by blast
    with 1 h show ?thesis by (simp add: add.assoc cong: if_cong)
  next
    case False
    with f s have "\<exists>s' w'. f s = (False, s') \<and> obuf before behind s' w' \<and> max_size s' = max_size s"
      unfolding emits_def by (metis (full_types))
    with False h show ?thesis by auto
  qed
qed

lemma counts_bind:
  assumes "counts f m" and "counts g n"
    and "\<And>s. h s = (case f s of (False, s) \<Rightarrow> (False, s) | (True, s) \<Rightarrow> g s)"
  shows "counts h (m + n)"
  using assms by (simp add: counts_def sz_add_def mod_add_left_eq add.assoc)

text \<open>Each writer, on both kinds of stream.\<close>

lemma pb_encode_varint_emits: "emits (pb_encode_varint (Some buf_write) v) (varint (unat v))"
  using length_varint64 [of v] emits_write [of "varint (unat v)" "length (varint (unat v))"]
  by (simp add: pb_encode_varint_eq [abs_def])

lemma pb_encode_varint_counts: "counts (pb_encode_varint None v) (length (varint (unat v)))"
  using counts_write by (simp add: pb_encode_varint_eq [abs_def])

lemma pb_encode_svarint_eq: "pb_encode_svarint wr v s = pb_encode_varint wr (zigzag v) s"
  by (simp only: pb_encode_svarint_def zigzag_def Let_def)

definition fixed32 :: "u32 \<Rightarrow> u8 list" where
  "fixed32 v = [ucast v, ucast (drop_bit 8 v), ucast (drop_bit 16 v), ucast (drop_bit 24 v)]"

definition fixed64 :: "u64 \<Rightarrow> u8 list" where
  "fixed64 v = [ucast v, ucast (drop_bit 8 v), ucast (drop_bit 16 v), ucast (drop_bit 24 v),
    ucast (drop_bit 32 v), ucast (drop_bit 40 v), ucast (drop_bit 48 v), ucast (drop_bit 56 v)]"

lemma pb_encode_fixed32_eq: "pb_encode_fixed32 wr v s = pb_write wr (fixed32 v) 4 s"
  by (simp only: pb_encode_fixed32_def fixed32_def low_byte)

lemma pb_encode_fixed64_eq: "pb_encode_fixed64 wr v s = pb_write wr (fixed64 v) 8 s"
  by (simp only: pb_encode_fixed64_def fixed64_def low_byte)

lemma length_fixed [simp]: "length (fixed32 v) = 4" "length (fixed64 w) = 8"
  by (simp_all add: fixed32_def fixed64_def)

lemma pb_encode_fixed_emits:
  "emits (pb_encode_fixed32 (Some buf_write) v) (fixed32 v)" "emits (pb_encode_fixed64 (Some buf_write) w) (fixed64 w)"
  by (simp_all add: pb_encode_fixed32_eq [abs_def] pb_encode_fixed64_eq [abs_def] emits_write)

text \<open>The field encoders.\<close>

lemma pb_enc_varint_emits:
  "n \<in> {8, 4, 2, 1} \<Longrightarrow> emits (pb_enc_varint (Some buf_write) n mem) (varint (unat (signed_field mem n)))"
  using pb_encode_varint_emits by (auto simp: pb_enc_varint_def [abs_def])

lemma pb_enc_svarint_emits:
  "n \<in> {8, 4, 2, 1} \<Longrightarrow> emits (pb_enc_svarint (Some buf_write) n mem) (varint (unat (zigzag (signed_field mem n))))"
  using pb_encode_varint_emits by (auto simp: pb_enc_svarint_def [abs_def] pb_encode_svarint_eq [abs_def])

lemma pb_enc_uvarint_emits:
  "n \<in> {8, 4, 2, 1} \<Longrightarrow>
     emits (pb_enc_uvarint (Some buf_write) n mem) (varint (unat (word_of_nat (le_nat (take n mem)) :: u64)))"
  using pb_encode_varint_emits by (auto simp: pb_enc_uvarint_def [abs_def])

text \<open>A tag: the field number above the wire type.\<close>

lemma tag_value:
  assumes "w < 8" and "n < 2 ^ 32"
  shows "unat (push_bit 3 (ucast (word_of_nat n :: u32)) OR ucast (word_of_nat w :: u32) :: u64) = 8 * n + w"
proof -
  have u: "ucast (word_of_nat k :: u32) = (word_of_nat k :: u64)" if "k < 2 ^ 32" for k
  proof -
    have "unat (word_of_nat k :: u32) = k" using that by (subst unat_of_nat) simp
    then show ?thesis by (metis of_nat_unat)
  qed
  have "push_bit 3 (ucast (word_of_nat n :: u32)) OR ucast (word_of_nat w :: u32) = (word_of_nat (n * 2 ^ 3 + w) :: u64)"
    using assms u [of n] u [of w] push_bit_or_nat [of w 3 n] by (simp del: of_nat_add of_nat_mult)
  also have "unat \<dots> = n * 2 ^ 3 + w" using assms by (intro unat_of_nat64) simp
  finally show ?thesis by simp
qed

lemma pb_encode_tag_emits:
  assumes "w < 8" and "n < 2 ^ 32"
  shows "emits (pb_encode_tag (Some buf_write) (word_of_nat w) (word_of_nat n)) (varint (8 * n + w))"
  using pb_encode_varint_emits [of "push_bit 3 (ucast (word_of_nat n :: u32)) OR ucast (word_of_nat w :: u32)"]
  unfolding tag_value [OF assms] by (simp only: pb_encode_tag_def [abs_def])

lemma pb_encode_tag_counts:
  assumes "w < 8" and "n < 2 ^ 32"
  shows "counts (pb_encode_tag None (word_of_nat w) (word_of_nat n)) (length (varint (8 * n + w)))"
  using pb_encode_varint_counts [of "push_bit 3 (ucast (word_of_nat n :: u32)) OR ucast (word_of_nat w :: u32)"]
  unfolding tag_value [OF assms] by (simp only: pb_encode_tag_def [abs_def])

text \<open>A block: its length and its bytes.\<close>

lemma pb_encode_string_emits:
  assumes "length x = n" and "n < 2 ^ 64"
  shows "emits (pb_encode_string (Some buf_write) (x @ rest) n) (varint n @ x)"
proof (rule emits_bind)
  have "unat (word_of_nat n :: u64) = n" using assms(2) by (rule unat_of_nat64)
  then show "emits (pb_encode_varint (Some buf_write) (word_of_nat n)) (varint n)"
    using pb_encode_varint_emits [of "word_of_nat n"] by simp
  have "pb_write (Some buf_write) (x @ rest) n = pb_write (Some buf_write) x n"
    using assms(1) by (intro ext) (simp add: pb_write_def)
  then show "emits (pb_write (Some buf_write) (x @ rest) n) x"
    using emits_write [OF assms] by (simp only:)
qed (simp add: pb_encode_string_def)

lemma pb_encode_string_counts:
  assumes "n < 2 ^ 64"
  shows "counts (pb_encode_string None x n) (length (varint n) + n)"
proof (rule counts_bind)
  have "unat (word_of_nat n :: u64) = n" using assms by (rule unat_of_nat64)
  then show "counts (pb_encode_varint None (word_of_nat n)) (length (varint n))"
    using pb_encode_varint_counts [of "word_of_nat n"] by simp
qed (rule counts_write, simp add: pb_encode_string_def)

lemma string_size_le: "string_size p n \<le> length p" "string_size p n \<le> n"
  by (induction p n rule: string_size.induct) auto

lemma string_size_nul: "n \<notin> set (take (string_size p m) p)" if "n = 0"
  using that by (induction p m rule: string_size.induct) auto

end
