(* ===== verification/Pb_Iter.thy ===== *)
theory Pb_Iter
  imports Pb_Field
begin

text \<open>
  The field iterator of \<open>nanopb/pb_common.c\<close>: its state is determined by the position
  alone, one step goes to the next field and round to the first from the last, and the
  search finds a field exactly if there is one, whatever field it starts from.
\<close>

text \<open>A descriptor array: the fields, each with a tag, and the terminator with tag 0.\<close>

definition descriptors :: "pb_field list \<Rightarrow> pb_field list \<Rightarrow> bool" where
  "descriptors descs fs \<longleftrightarrow> (\<exists>t. descs = fs @ [t] \<and> f_tag t = 0) \<and> (\<forall>f \<in> set fs. f_tag f \<noteq> 0)"

text \<open>The iterator at the field \<open>i\<close>, as stepping from the beginning reaches it.\<close>

fun iter_state :: "pb_field list \<Rightarrow> nat \<Rightarrow> pb_field_iter" where
  "iter_state descs 0 = snd (pb_field_iter_begin descs)"
| "iter_state descs (Suc i) = snd (pb_field_iter_next (iter_state descs i))"

lemma descriptors_nth:
  assumes "descriptors descs fs"
  shows "i < length fs \<Longrightarrow> descs ! i = fs ! i" and "i < length fs \<Longrightarrow> f_tag (fs ! i) > 0" and "f_tag (descs ! length fs) = 0"
    and "length descs = Suc (length fs)"
  using assms by (auto simp: descriptors_def nth_append)

lemma iter_next_start [simp]: "it_start (snd (pb_field_iter_next iter)) = it_start iter"
  by (simp add: pb_field_iter_next_def pb_field_iter_begin_def Let_def)

lemma iter_state_start [simp]: "it_start (iter_state descs i) = descs"
  by (induction i) (simp_all add: pb_field_iter_begin_def Let_def)

lemma iter_next_pos:
  assumes "f_tag (field_at iter) \<noteq> 0" and "f_tag (it_start iter ! Suc (it_pos iter)) \<noteq> 0"
  shows "fst (pb_field_iter_next iter)" and "it_pos (snd (pb_field_iter_next iter)) = Suc (it_pos iter)"
  using assms by (simp_all add: pb_field_iter_next_def field_at_def Let_def)

lemma iter_next_last:
  assumes "f_tag (field_at iter) \<noteq> 0" and "f_tag (it_start iter ! Suc (it_pos iter)) = 0"
  shows "pb_field_iter_next iter = (False, iter_state (it_start iter) 0)"
  using assms by (simp add: pb_field_iter_next_def field_at_def Let_def)

lemma iter_state_pos:
  assumes d: "descriptors descs fs"
  shows "i < length fs \<Longrightarrow> it_pos (iter_state descs i) = i"
proof (induction i)
  case 0
  then show ?case by (simp add: pb_field_iter_begin_def Let_def)
next
  case (Suc i)
  then have p: "it_pos (iter_state descs i) = i" by simp
  have "f_tag (field_at (iter_state descs i)) \<noteq> 0" "f_tag (it_start (iter_state descs i) ! Suc (it_pos (iter_state descs i))) \<noteq> 0"
    using descriptors_nth(1,2) [OF d] Suc.prems p by (simp_all add: field_at_def)
  from iter_next_pos(2) [OF this] p show ?case by simp
qed

lemma field_at_state:
  "descriptors descs fs \<Longrightarrow> i < length fs \<Longrightarrow> field_at (iter_state descs i) = fs ! i"
  by (simp add: field_at_def iter_state_pos descriptors_nth(1))

text \<open>One step: on to the next field, or round to the first.\<close>

lemma iter_next_state:
  assumes d: "descriptors descs fs" and i: "i < length fs"
  shows "pb_field_iter_next (iter_state descs i) = (Suc i < length fs, iter_state descs (Suc i mod length fs))"
proof -
  note p = iter_state_pos [OF d i] and f = field_at_state [OF d i]
  have nz: "f_tag (field_at (iter_state descs i)) \<noteq> 0"
    using descriptors_nth(2) [OF d i] f by simp
  show ?thesis
  proof (cases "Suc i < length fs")
    case True
    then have "f_tag (it_start (iter_state descs i) ! Suc (it_pos (iter_state descs i))) \<noteq> 0"
      using descriptors_nth(1,2) [OF d True] p by simp
    from iter_next_pos(1) [OF nz this] True show ?thesis by (simp add: prod_eq_iff)
  next
    case False
    then have last: "Suc i = length fs" using i by simp
    then have "f_tag (it_start (iter_state descs i) ! Suc (it_pos (iter_state descs i))) = 0"
      using descriptors_nth(3) [OF d] p by simp
    from iter_next_last [OF nz this] last show ?thesis by simp
  qed
qed

section \<open>The search\<close>

definition is_match :: "nat \<Rightarrow> pb_field \<Rightarrow> bool" where
  "is_match tag f \<longleftrightarrow> f_tag f = tag \<and> PB_LTYPE (f_type f) \<noteq> PB_LTYPE_EXTENSION"

text \<open>What the search gives from the field \<open>s\<close> on, after \<open>m\<close> fields that do not match.\<close>

definition search_result :: "pb_field list \<Rightarrow> pb_field list \<Rightarrow> nat \<Rightarrow> nat \<Rightarrow> nat \<Rightarrow> bool \<times> pb_field_iter" where
  "search_result descs fs tag s m =
     (case find (\<lambda>k. is_match tag (fs ! ((s + k) mod length fs))) [m..<length fs] of
        Some k \<Rightarrow> (True, iter_state descs ((s + k) mod length fs))
      | None \<Rightarrow> (False, iter_state descs s))"

lemma cyclic_neq: "s < (n :: nat) \<Longrightarrow> 0 < m \<Longrightarrow> m < n \<Longrightarrow> (s + m) mod n \<noteq> s"
  by (cases "s + m < n") (simp_all add: mod_if, linarith)

lemma iter_find_loop_eq:
  assumes d: "descriptors descs fs" and s: "s < length fs"
  shows "m < length fs \<Longrightarrow> length fs \<le> n + m \<Longrightarrow>
    iter_find_loop n s tag (iter_state descs ((s + m) mod length fs)) = Some (search_result descs fs tag s m)"
proof (induction n arbitrary: m)
  case (Suc n)
  let ?i = "(s + m) mod length fs" and ?j = "(s + Suc m) mod length fs"
  have pos: "0 < length fs" using s by (rule le_less_trans [OF le0])
  then have ij: "?i < length fs" "?j < length fs" by (auto intro: mod_less_divisor)
  have up: "[m..<length fs] = m # [Suc m..<length fs]" using Suc.prems by (simp add: upt_conv_Cons)
  have nx: "snd (pb_field_iter_next (iter_state descs ?i)) = iter_state descs ?j"
    by (simp add: iter_next_state [OF d ij(1)] mod_Suc_eq)
  have jp: "it_pos (iter_state descs ?j) = ?j" by (rule iter_state_pos [OF d ij(2)])
  show ?case
  proof (cases "is_match tag (fs ! ?i)")
    case True
    then show ?thesis
      by (simp add: search_result_def up field_at_state [OF d ij(1)]) (simp add: is_match_def)
  next
    case False
    then have step: "iter_find_loop (Suc n) s tag (iter_state descs ?i) =
        (if ?j \<noteq> s then iter_find_loop n s tag (iter_state descs ?j) else Some (False, iter_state descs ?j))"
      unfolding is_match_def field_at_state [OF d ij(1), symmetric] iter_find_loop.simps Let_def nx jp
      by (simp only: if_False)
    have res: "search_result descs fs tag s m = search_result descs fs tag s (Suc m)"
      using False by (simp add: search_result_def up)
    show ?thesis
    proof (cases "Suc m < length fs")
      case True
      with cyclic_neq [OF s _ True] Suc.IH [OF True] Suc.prems(2) show ?thesis unfolding step res by simp
    next
      case last: False
      then have "Suc m = length fs" using Suc.prems(1) by simp
      then have "?j = s" using s by simp
      with last show ?thesis unfolding step res by (simp add: search_result_def)
    qed
  qed
qed simp

lemma pb_field_iter_find_eq:
  assumes d: "descriptors descs fs" and s: "s < length fs"
  shows "pb_field_iter_find (iter_state descs s) tag = Some (search_result descs fs tag s 0)"
  using iter_find_loop_eq [OF d s, of 0 "Suc (length fs)" tag] s
  by (cases "fs = []") (simp_all add: pb_field_iter_find_def iter_state_pos [OF d s] descriptors_nth(4) [OF d] del: iter_find_loop.simps)

lemma cyclic_onto: "s < (n :: nat) \<Longrightarrow> j < n \<Longrightarrow> \<exists>k < n. (s + k) mod n = j"
  by (intro exI [of _ "(j + n - s) mod n"]) (auto simp: mod_if)

text \<open>The search always ends; it finds a field exactly if one matches, and stands on it then,
  otherwise where it was.\<close>

lemma pb_field_iter_find_iff:
  assumes d: "descriptors descs fs" and s: "s < length fs"
  shows "(\<exists>j < length fs. is_match tag (fs ! j) \<and> pb_field_iter_find (iter_state descs s) tag = Some (True, iter_state descs j)) \<or>
    (\<forall>j < length fs. \<not> is_match tag (fs ! j)) \<and> pb_field_iter_find (iter_state descs s) tag = Some (False, iter_state descs s)"
proof (cases "find (\<lambda>k. is_match tag (fs ! ((s + k) mod length fs))) [0..<length fs]")
  case None
  then have "\<forall>k < length fs. \<not> is_match tag (fs ! ((s + k) mod length fs))"
    by (simp add: find_None_iff)
  then have "\<forall>j < length fs. \<not> is_match tag (fs ! j)" using cyclic_onto [OF s] by metis
  with None show ?thesis by (simp add: pb_field_iter_find_eq [OF d s] search_result_def)
next
  case (Some k)
  then have "is_match tag (fs ! ((s + k) mod length fs))" by (auto simp: find_Some_iff)
  moreover have "(s + k) mod length fs < length fs" using s by (intro mod_less_divisor) linarith
  ultimately show ?thesis using Some by (auto simp: pb_field_iter_find_eq [OF d s] search_result_def)
qed

section \<open>The beginning, and the kinds of a field\<close>

lemma begin_descriptors:
  assumes d: "descriptors ds fs"
  shows "pb_field_iter_begin ds = (fs \<noteq> [], iter_state ds 0)"
proof (cases fs)
  case Nil
  with descriptors_nth(3) [OF d] show ?thesis by (simp add: pb_field_iter_begin_def Let_def)
next
  case (Cons f fs')
  with descriptors_nth(1,2) [OF d, of 0] show ?thesis by (simp add: pb_field_iter_begin_def Let_def)
qed

lemma htype_cases:
  "PB_HTYPE x = PB_HTYPE_REQUIRED \<or> PB_HTYPE x = PB_HTYPE_OPTIONAL \<or> PB_HTYPE x = PB_HTYPE_REPEATED \<or> PB_HTYPE x = PB_HTYPE_ONEOF"
proof -
  have m: "(0x30 :: u8) = push_bit 4 (mask 2)" by (simp add: mask_eq_exp_minus_1)
  have "x AND push_bit 4 k = push_bit 4 (drop_bit 4 x AND k)" for k
    by (rule bit_word_eqI) (auto simp: bit_simps)
  then have h: "PB_HTYPE x = push_bit 4 (drop_bit 4 x AND mask 2)"
    unfolding PB_HTYPE_def m .
  obtain y where y: "drop_bit 4 x AND mask 2 = y" by blast
  have "unat (drop_bit 4 x AND mask 2) < 4"
    unfolding take_bit_eq_mask [symmetric] unsigned_take_bit_eq by (simp add: take_bit_eq_mod)
  then have "unat y \<in> {0, 1, 2, 3}" unfolding y by auto
  then have "y = 0 \<or> y = 1 \<or> y = 2 \<or> y = 3" by (simp add: word_unat_eq_iff)
  then show ?thesis unfolding h y
    by (auto simp: PB_HTYPE_REQUIRED_def PB_HTYPE_OPTIONAL_def PB_HTYPE_REPEATED_def PB_HTYPE_ONEOF_def)
qed

declare iter_state.simps [simp del]

end
