(* ===== verification/Pb_Props.thy ===== *)
theory Pb_Props
  imports Pb_Values Pb_Iter
begin

text \<open>
  What nanopb's wire format promises. \<open>decodes behind f x v\<close>: on every stream whose next
  bytes are \<open>x\<close>, \<open>f\<close> reads just these and gives \<open>v\<close>; \<open>emits f x\<close>: on every buffer, \<open>f\<close>
  appends just \<open>x\<close>, or fails if they do not fit.
\<close>

text \<open>C23: On every memory buffer the 64-bit varint reader takes the bytes up to the first
  without continuation bit, if there is one among the first ten, and returns the number they
  spell; otherwise it fails.\<close>

theorem pb_varint_exact:
  "let hs = takeWhile (\<lambda>b. 128 \<le> unat b) bs; st = pb_istream_from_buffer (bs @ after) (length bs)
   in if length hs < 10 \<and> length hs < length bs
      then \<exists>st'. pb_decode_varint buf_source st = (Some (word_of_nat (groups_nat (take (Suc (length hs)) bs))), st') \<and>
        stream_has (\<lambda>s. s) st' (drop (Suc (length hs)) bs) after
      else fst (pb_decode_varint buf_source st) = None"
proof -
  have "stream_has (\<lambda>s. s) (pb_istream_from_buffer (bs @ after) (length bs)) bs after"
    by (simp add: stream_has_def pb_istream_from_buffer_def)
  from mem.pb_decode_varint_exact [OF this] show ?thesis by (auto simp: Let_def split: if_splits)
qed

text \<open>C22: Scalars round-trip: for every value, what the varint, the zigzag, the 32-bit and the
  64-bit writer put into a buffer is what the reader of the same kind reads back, exactly
  and with nothing left over.\<close>

theorem pb_scalars_roundtrip:
  "emits (pb_encode_varint (Some buf_write) v) (varint (unat v)) \<and>
   decodes (\<lambda>s. s) (pb_decode_varint buf_source) (varint (unat v)) v \<and>
   emits (pb_encode_svarint (Some buf_write) v) (varint (unat (zigzag v))) \<and>
   decodes (\<lambda>s. s) (pb_decode_svarint buf_source) (varint (unat (zigzag v))) v \<and>
   emits (pb_encode_fixed32 (Some buf_write) w) (fixed32 w) \<and>
   decodes (\<lambda>s. s) (pb_decode_fixed32 buf_source) (fixed32 w) w \<and>
   emits (pb_encode_fixed64 (Some buf_write) v) (fixed64 v) \<and>
   decodes (\<lambda>s. s) (pb_decode_fixed64 buf_source) (fixed64 v) v"
  using pb_encode_varint_emits [of v] pb_encode_varint_emits [of "zigzag v"] pb_encode_fixed_emits(1) [of w] pb_encode_fixed_emits(2) [of v]
    mem.pb_decode_varint_decodes [of v] mem.pb_decode_svarint_decodes [of v]
    mem.pb_decode_fixed32_decodes [of w] mem.pb_decode_fixed64_decodes [of v]
  by (simp only: pb_encode_svarint_eq [abs_def] fixed32_def fixed64_def simp_thms)

text \<open>C36: Integer fields round-trip: the encoder of a signed, zigzag or unsigned field of one,
  two, four or eight bytes writes from the field's memory what the decoder of the same kind
  and size reads back as the same number.\<close>

theorem pb_integer_fields_roundtrip:
  assumes "n \<in> {8, 4, 2, 1}" and "n \<le> length mem"
  shows "(\<exists>x. emits (pb_enc_varint (Some buf_write) n mem) x \<and>
       decodes (\<lambda>s. s) (pb_dec_varint buf_source n) x (field_int n mem)) \<and>
     (\<exists>x. emits (pb_enc_svarint (Some buf_write) n mem) x \<and>
       decodes (\<lambda>s. s) (pb_dec_svarint buf_source n) x (field_int n mem)) \<and>
     (\<exists>x. emits (pb_enc_uvarint (Some buf_write) n mem) x \<and>
       decodes (\<lambda>s. s) (pb_dec_uvarint buf_source n) x (le_nat (take n mem)))"
  using pb_enc_varint_emits [OF assms(1)] mem.pb_dec_varint_decodes [OF signed_value_field [OF assms(1)]]
    pb_enc_svarint_emits [OF assms(1)] mem.pb_dec_svarint_decodes [OF zigzag_value_field [OF assms(1)]]
    pb_enc_uvarint_emits [OF assms(1)] mem.pb_dec_uvarint_decodes [OF unsigned_value_field(2) [OF assms]]
  by blast

theorem pb_integer_fields_roundtrip_witness:
  "(\<exists>x. emits (pb_enc_varint (Some buf_write) 2 [0xFE, 0xFF]) x \<and>
       decodes (\<lambda>s. s) (pb_dec_varint buf_source 2) x (field_int 2 [0xFE, 0xFF])) \<and>
     (\<exists>x. emits (pb_enc_svarint (Some buf_write) 2 [0xFE, 0xFF]) x \<and>
       decodes (\<lambda>s. s) (pb_dec_svarint buf_source 2) x (field_int 2 [0xFE, 0xFF])) \<and>
     (\<exists>x. emits (pb_enc_uvarint (Some buf_write) 2 [0xFE, 0xFF]) x \<and>
       decodes (\<lambda>s. s) (pb_dec_uvarint buf_source 2) x (le_nat (take 2 [0xFE, 0xFF])))"
  by (rule pb_integer_fields_roundtrip) simp_all

lemma sint_low_half: "sint (ucast (v :: u64) :: u32) = (uint v + 2 ^ 31) mod 2 ^ 32 - 2 ^ 31"
proof -
  have "sint (ucast v :: u32) = signed_take_bit 31 (uint v)"
    by (simp add: sint_uint unsigned_ucast_eq signed_take_bit_take_bit)
  then show ?thesis by (simp add: signed_take_bit_eq_take_bit_shift take_bit_eq_mod)
qed

lemma field_range:
  assumes "n \<in> {1, 2, 4, 8}"
  shows "signed_range n i \<longleftrightarrow> - (256 ^ n div 2) \<le> i \<and> i < 256 ^ n div 2"
  using assms by (auto simp: signed_range_def)

lemma integer_values:
  fixes v :: u64
  shows "unsigned_value n v = (if n \<in> {1, 2, 4, 8} \<and> uint v < 256 ^ n then Some (unat v) else None)"
    and "zigzag_value n v = (if n \<in> {1, 2, 4, 8} \<and> - (256 ^ n div 2) \<le> sint v \<and> sint v < 256 ^ n div 2 then Some (sint v) else None)"
    and "signed_value n v =
      (let i = (if n = 8 then sint v else (uint v + 2 ^ 31) mod 2 ^ 32 - 2 ^ 31)
       in if n \<in> {1, 2, 4, 8} \<and> - (256 ^ n div 2) \<le> i \<and> i < 256 ^ n div 2 then Some i else None)"
proof -
  have s: "n \<in> {8, 4, 2, 1} \<longleftrightarrow> n \<in> {1, 2, 4, 8}" by auto
  have "uint v = int (unat v)" "(256 :: int) ^ n = int (256 ^ n)" by simp_all
  then have u: "uint v < 256 ^ n \<longleftrightarrow> unat v < 256 ^ n" by (simp only: of_nat_less_iff)
  show "unsigned_value n v = (if n \<in> {1, 2, 4, 8} \<and> uint v < 256 ^ n then Some (unat v) else None)"
    unfolding unsigned_value_def s u by (rule refl)
  show "zigzag_value n v = (if n \<in> {1, 2, 4, 8} \<and> - (256 ^ n div 2) \<le> sint v \<and> sint v < 256 ^ n div 2 then Some (sint v) else None)"
    unfolding zigzag_value_def s using field_range [of n "sint v"] by (simp only: cong: conj_cong)
  show "signed_value n v =
      (let i = (if n = 8 then sint v else (uint v + 2 ^ 31) mod 2 ^ 32 - 2 ^ 31)
       in if n \<in> {1, 2, 4, 8} \<and> - (256 ^ n div 2) \<le> i \<and> i < 256 ^ n div 2 then Some i else None)"
    unfolding signed_value_def s sint_low_half Let_def using field_range [of n] by (simp only: cong: conj_cong)
qed

lemma case_if_Some: "(case (if c then Some x else None) of Some i \<Rightarrow> P i | None \<Rightarrow> Q) \<longleftrightarrow> (if c then P x else Q)"
  by simp

lemma integer_fields_read:
  "(case signed_value n v of
      Some i \<Rightarrow> decodes (\<lambda>s. s) (pb_dec_varint buf_source n) (varint (unat v)) i
    | None \<Rightarrow> refuses (\<lambda>s. s) (pb_dec_varint buf_source n) (varint (unat v))) \<and>
   (case unsigned_value n v of
      Some i \<Rightarrow> decodes (\<lambda>s. s) (pb_dec_uvarint buf_source n) (varint (unat v)) i
    | None \<Rightarrow> refuses (\<lambda>s. s) (pb_dec_uvarint buf_source n) (varint (unat v))) \<and>
   (case zigzag_value n v of
      Some i \<Rightarrow> decodes (\<lambda>s. s) (pb_dec_svarint buf_source n) (varint (unat (zigzag v))) i
    | None \<Rightarrow> refuses (\<lambda>s. s) (pb_dec_svarint buf_source n) (varint (unat (zigzag v))))"
  by (auto intro: mem.pb_dec_varint_decodes mem.pb_dec_uvarint_decodes mem.pb_dec_svarint_decodes
      mem.pb_dec_varint_refuses mem.pb_dec_uvarint_refuses mem.pb_dec_svarint_refuses split: option.split)

text \<open>C35: What the decoders of integer fields make of every 64-bit number: the number is stored if
  it fits the field, and refused otherwise; only the signed decoder looks at part of it. An
  unsigned field of \<open>n\<close> bytes holds the numbers below \<open>256 ^ n\<close>, a signed one those from
  \<open>- (256 ^ n) div 2\<close> on and below \<open>256 ^ n div 2\<close>, which is the test for a zigzag number. For a
  signed field of eight bytes the number is taken as two's complement and always fits. For a
  shorter one the high 32 bits are dropped and the low 32 are taken as two's complement
  before the test: \<open>2 ^ 32 + 5\<close> is accepted as 5, and a field of four bytes accepts every
  number. Sizes other than 1, 2, 4 and 8 are refused.\<close>

theorem pb_integer_fields_exact:
  fixes v :: u64
  shows "(if n \<in> {1, 2, 4, 8} \<and> uint v < 256 ^ n
     then decodes (\<lambda>s. s) (pb_dec_uvarint buf_source n) (varint (unat v)) (unat v)
     else refuses (\<lambda>s. s) (pb_dec_uvarint buf_source n) (varint (unat v))) \<and>
   (if n \<in> {1, 2, 4, 8} \<and> - (256 ^ n div 2) \<le> sint v \<and> sint v < 256 ^ n div 2
     then decodes (\<lambda>s. s) (pb_dec_svarint buf_source n) (varint (unat (zigzag v))) (sint v)
     else refuses (\<lambda>s. s) (pb_dec_svarint buf_source n) (varint (unat (zigzag v)))) \<and>
   (let i = (if n = 8 then sint v else (uint v + 2 ^ 31) mod 2 ^ 32 - 2 ^ 31)
    in if n \<in> {1, 2, 4, 8} \<and> - (256 ^ n div 2) \<le> i \<and> i < 256 ^ n div 2
       then decodes (\<lambda>s. s) (pb_dec_varint buf_source n) (varint (unat v)) i
       else refuses (\<lambda>s. s) (pb_dec_varint buf_source n) (varint (unat v)))"
  using integer_fields_read [of n v] unfolding integer_values Let_def case_if_Some by blast

text \<open>C37: A tag round-trips: the reader returns the field number and the wire type that the
  writer was given, as long as they fit the 32 bits the reader has for both and are not both
  zero, which ends a message.\<close>

theorem pb_tag_roundtrip:
  assumes "w < 8" and "8 * n + w < 2 ^ 32" and "8 * n + w \<noteq> 0"
  shows "\<exists>x. emits (pb_encode_tag (Some buf_write) (word_of_nat w) (word_of_nat n)) x \<and>
    (\<forall>st bs after. stream_has (\<lambda>s. s) st (x @ bs) after \<longrightarrow>
       (\<exists>st'. pb_decode_tag buf_source st = (Some (word_of_nat w, word_of_nat n), False, st') \<and>
          stream_has (\<lambda>s. s) st' bs after))"
proof (intro exI [of _ "varint (8 * n + w)"] conjI allI impI)
  show "emits (pb_encode_tag (Some buf_write) (word_of_nat w) (word_of_nat n)) (varint (8 * n + w))"
    using pb_encode_tag_emits [OF assms(1), of n] assms(2) by simp
next
  fix st bs after
  assume "stream_has (\<lambda>s. s) st (varint (8 * n + w) @ bs) after"
  from mem.pb_decode_tag_has [OF assms this]
  show "\<exists>st'. pb_decode_tag buf_source st = (Some (word_of_nat w, word_of_nat n), False, st') \<and>
      stream_has (\<lambda>s. s) st' bs after" by blast
qed

theorem pb_tag_roundtrip_witness:
  "\<exists>x. emits (pb_encode_tag (Some buf_write) (word_of_nat 2) (word_of_nat 536870911)) x \<and>
    (\<forall>st bs after. stream_has (\<lambda>s. s) st (x @ bs) after \<longrightarrow>
       (\<exists>st'. pb_decode_tag buf_source st = (Some (word_of_nat 2, word_of_nat 536870911), False, st') \<and>
          stream_has (\<lambda>s. s) st' bs after))"
  by (rule pb_tag_roundtrip) simp_all

text \<open>C24: Skipping: on every value of a known wire type, whatever follows it, the skipper
  succeeds and leaves the stream right behind the value.\<close>

theorem pb_skip_exact:
  assumes "wire_value wt x"
  shows "decodes (\<lambda>s. s) (pb_skip_field buf_source wt) x ()"
  by (rule mem.pb_skip_field_decodes [OF assms])

theorem pb_skip_exact_witness:
  "decodes (\<lambda>s. s) (pb_skip_field buf_source 0) ([0x80, 0x80] @ [0x01]) ()"
  by (rule pb_skip_exact) (rule wire_value.groups, simp_all)

lemma string_size_chars:
  "string_size p n = length (takeWhile (\<lambda>c. c \<noteq> 0) (take n p)) \<and> take (string_size p n) p = takeWhile (\<lambda>c. c \<noteq> 0) (take n p)"
  by (induction p n rule: string_size.induct) auto

text \<open>C38: Strings round-trip: for a string field that is not a pointer, with all of the field in
  memory, the encoder writes the length of, and then, the characters before the first NUL, all of the
  field if there is no NUL; from these bytes the decoder gives the characters back with a NUL
  behind them, if there are fewer than \<open>2 ^ 32 - 1\<close> and the destination has room for both.\<close>

theorem pb_string_roundtrip:
  assumes "chars = takeWhile (\<lambda>c. c \<noteq> 0) (take (data_size field) mem)" and "data_size field \<le> length mem"
    and "PB_ATYPE (f_type field) \<noteq> PB_ATYPE_POINTER" and "length chars < 2 ^ 32 - 1" and "field_has_room realloc dest (length chars + 1)"
  shows "emits (pb_enc_string (Some buf_write) field (Some mem)) (varint (length chars) @ chars) \<and>
    decodes (\<lambda>s. s) (pb_dec_string buf_source realloc dest) (varint (length chars) @ chars) (chars @ [0])"
proof -
  let ?n = "string_size mem (data_size field)"
  have n: "?n = length chars" "take ?n mem = chars" using string_size_chars [of mem "data_size field"] assms(1) by metis+
  have len: "length (take ?n mem) = ?n" using string_size_le(1) by simp
  have e: "emits (pb_encode_string (Some buf_write) (take ?n mem @ drop ?n mem) ?n) (varint ?n @ take ?n mem)"
    using assms(4) n by (intro pb_encode_string_emits len) simp
  have "emits (pb_encode_string (Some buf_write) mem (length chars)) (varint (length chars) @ chars)"
    by (rule e [unfolded append_take_drop_id, unfolded n(2), unfolded n(1)])
  then have "emits (pb_enc_string (Some buf_write) field (Some mem)) (varint (length chars) @ chars)"
    using assms(3) by (simp add: pb_enc_string_def [abs_def] n(1))
  with mem.pb_dec_string_decodes [of chars realloc dest] assms(4,5) show ?thesis by auto
qed

definition string_field :: pb_field where
  "string_field = \<lparr>f_tag = 1, f_type = PB_LTYPE_STRING, data_offset = 0, size_offset = 0, data_size = 8, array_size = 0, f_ptr = 0\<rparr>"

theorem pb_string_roundtrip_witness:
  "emits (pb_enc_string (Some buf_write) string_field (Some [104, 105, 0, 7, 7, 7, 7, 7])) (varint 2 @ [104, 105]) \<and>
    decodes (\<lambda>s. s) (pb_dec_string buf_source (\<lambda>_. False) string_field) (varint 2 @ [104, 105]) [104, 105, 0]"
proof -
  have c: "[104, 105] = takeWhile (\<lambda>c. c \<noteq> 0) (take (data_size string_field) [104, 105, 0, 7, 7, 7, 7, 7 :: u8])"
    and l: "length [104, 105 :: u8] = 2" by (simp_all add: string_field_def)
  have a: "PB_ATYPE (f_type string_field) \<noteq> PB_ATYPE_POINTER" "data_size string_field \<le> length [104, 105, 0, 7, 7, 7, 7, 7 :: u8]"
    "length [104, 105 :: u8] < 2 ^ 32 - 1" "field_has_room (\<lambda>_. False) string_field (length [104, 105 :: u8] + 1)"
    by (simp_all add: field_has_room_def string_field_def PB_ATYPE_def PB_ATYPE_POINTER_def PB_LTYPE_STRING_def)
  from pb_string_roundtrip [OF c a(2,1,3,4)] show ?thesis unfolding l append_Cons append_Nil .
qed

text \<open>C39: A substream sees the bytes of its field and nothing behind them; when it is closed,
  however much of it was read, the parent goes on right behind the field.\<close>

theorem pb_substream_isolated:
  assumes "length x < 2 ^ 32" and "stream_has (\<lambda>s. s) st (varint (length x) @ x @ bs) after"
  shows "\<exists>sub par. pb_make_string_substream buf_source st = (Some sub, par) \<and>
    stream_has (\<lambda>s. s) sub x (bs @ after) \<and>
    (\<forall>sub' rest. stream_has (\<lambda>s. s) sub' rest (bs @ after) \<longrightarrow>
       (\<exists>st'. pb_close_string_substream buf_source sub' par = (Some (), st') \<and> stream_has (\<lambda>s. s) st' bs after))"
proof -
  from mem.pb_make_string_substream_has [OF assms] obtain sub par where
    1: "pb_make_string_substream buf_source st = (Some sub, par)" "stream_has (\<lambda>s. s) sub x (bs @ after)"
      "bytes_left par = length bs" by blast
  moreover have "\<exists>st'. pb_close_string_substream buf_source sub' par = (Some (), st') \<and> stream_has (\<lambda>s. s) st' bs after"
    if "stream_has (\<lambda>s. s) sub' rest (bs @ after)" for sub' rest
    using mem.pb_close_string_substream_has [OF that 1(3)] by blast
  ultimately show ?thesis by blast
qed

theorem pb_substream_isolated_witness:
  "\<exists>sub par. pb_make_string_substream buf_source (pb_istream_from_buffer (varint (length [5, 6 :: u8]) @ [5, 6] @ [7]) (length (varint (length [5, 6 :: u8])) + 3)) = (Some sub, par) \<and>
    stream_has (\<lambda>s. s) sub [5, 6] ([7] @ []) \<and>
    (\<forall>sub' rest. stream_has (\<lambda>s. s) sub' rest ([7] @ []) \<longrightarrow>
       (\<exists>st'. pb_close_string_substream buf_source sub' par = (Some (), st') \<and> stream_has (\<lambda>s. s) st' [7] []))"
  by (rule pb_substream_isolated) (simp_all add: stream_has_def pb_istream_from_buffer_def)

text \<open>A write to a buffer is all or nothing: it appends the bytes if the room is enough,
  and otherwise leaves buffer and count as they were and records an error; the memory around
  the buffer is untouched. So are the
  composed writers of tags and strings, up to what they wrote before.\<close>

theorem pb_write_all_or_nothing:
  assumes "obuf before behind s w" and "length x < 2 ^ 64"
  shows "if length w + length x \<le> max_size s
    then \<exists>s'. pb_write (Some buf_write) x (length x) s = (True, s') \<and> obuf before behind s' (w @ x) \<and>
      max_size s' = max_size s \<and> os_errmsg s' = os_errmsg s
    else \<exists>e. pb_write (Some buf_write) x (length x) s = (False, s\<lparr>os_errmsg := Some e\<rparr>)"
  by (rule pb_write_buffer [OF assms])

theorem pb_write_all_or_nothing_witness:
  "let s = pb_ostream_from_buffer ([9, 9] @ [7]) (length [9, 9 :: u8]) in
   if length ([] :: u8 list) + length [1, 2, 3 :: u8] \<le> max_size s
    then \<exists>s'. pb_write (Some buf_write) [1, 2, 3] (length [1, 2, 3 :: u8]) s = (True, s') \<and> obuf [] [7] s' ([] @ [1, 2, 3]) \<and>
      max_size s' = max_size s \<and> os_errmsg s' = os_errmsg s
    else \<exists>e. pb_write (Some buf_write) [1, 2, 3] (length [1, 2, 3 :: u8]) s = (False, s\<lparr>os_errmsg := Some e\<rparr>)"
  unfolding Let_def by (rule pb_write_all_or_nothing [OF obuf_from_buffer]) simp_all

text \<open>C40: \<open>allocate_field\<close> asks for exactly the product of its sizes; if the product does not fit
  in 64 bits, or is zero, it fails without asking.\<close>

theorem pb_allocation_exact:
  assumes "dsize < 2 ^ 64" and "asize < 2 ^ 64"
  shows "allocate_field realloc dsize asize st =
    (if 0 < asize * dsize \<and> asize * dsize < 2 ^ 64 \<and> realloc (asize * dsize)
     then (Some (asize * dsize), st)
     else PB_RETURN_ERROR st
       (if asize * dsize = 0 then ''invalid size''
        else if asize * dsize < 2 ^ 64 then ''realloc failed'' else ''size too large''))"
  by (rule allocate_field_exact [OF assms])

theorem pb_allocation_exact_witness:
  "fst (allocate_field (\<lambda>_. True) (2 ^ 33) (2 ^ 31) (pb_istream_from_buffer [] 0)) = None"
  using pb_allocation_exact [of "2 ^ 33" "2 ^ 31" "\<lambda>_. True" "pb_istream_from_buffer [] 0"]
  by (simp add: PB_RETURN_ERROR_def)

text \<open>C25: The field search always ends; from any field it finds the field with the tag exactly
  if the message has one and stops on it, with the addresses that stepping there from the
  first field gives; otherwise it is where it was.\<close>

theorem pb_field_search:
  assumes "descriptors descs fs" and "s < length fs"
  shows "(\<exists>j < length fs. is_match tag (fs ! j) \<and> pb_field_iter_find (iter_state descs s) tag = Some (True, iter_state descs j)) \<or>
    (\<forall>j < length fs. \<not> is_match tag (fs ! j)) \<and> pb_field_iter_find (iter_state descs s) tag = Some (False, iter_state descs s)"
  by (rule pb_field_iter_find_iff [OF assms])

definition last_field :: pb_field where
  "last_field = \<lparr>f_tag = 0, f_type = 0, data_offset = 0, size_offset = 0, data_size = 0, array_size = 0, f_ptr = 0\<rparr>"

theorem pb_field_search_witness:
  "(\<exists>j < length [string_field, string_field\<lparr>f_tag := 2\<rparr>]. is_match 2 ([string_field, string_field\<lparr>f_tag := 2\<rparr>] ! j) \<and>
      pb_field_iter_find (iter_state [string_field, string_field\<lparr>f_tag := 2\<rparr>, last_field] 1) 2 =
        Some (True, iter_state [string_field, string_field\<lparr>f_tag := 2\<rparr>, last_field] j)) \<or>
    (\<forall>j < length [string_field, string_field\<lparr>f_tag := 2\<rparr>]. \<not> is_match 2 ([string_field, string_field\<lparr>f_tag := 2\<rparr>] ! j)) \<and>
      pb_field_iter_find (iter_state [string_field, string_field\<lparr>f_tag := 2\<rparr>, last_field] 1) 2 =
        Some (False, iter_state [string_field, string_field\<lparr>f_tag := 2\<rparr>, last_field] 1)"
  by (rule pb_field_search) (auto simp: descriptors_def string_field_def last_field_def)

lemma varint32_loop_80:
  "p < 256 \<Longrightarrow> bytes_left st = k + n \<Longrightarrow> is_state st = replicate k 0x80 @ bs \<Longrightarrow>
     varint32_loop buf_source p r st =
     varint32_loop buf_source ((p + 7 * k) mod 256) r (st\<lparr>is_state := bs, bytes_left := n\<rparr>)"
proof (induction k arbitrary: p st)
  case 0
  then show ?case by (cases st) simp
next
  case (Suc k)
  have "varint32_loop buf_source p r st =
      varint32_loop buf_source ((p + 7) mod 256) r (st\<lparr>is_state := replicate k 0x80 @ bs, bytes_left := k + n\<rparr>)"
    using Suc.prems by (subst varint32_loop.simps) (simp add: pb_readbyte_def buf_source_def buf_read_def Let_def)
  also have "\<dots> = varint32_loop buf_source (((p + 7) mod 256 + 7 * k) mod 256) r (st\<lparr>is_state := bs, bytes_left := n\<rparr>)"
    by (subst Suc.IH) simp_all
  also have "((p + 7) mod 256 + 7 * k) mod 256 = (p + 7 * Suc k) mod 256" by (simp add: mod_add_left_eq add.assoc)
  finally show ?case .
qed

text \<open>The 32-bit varint reader has no bound on the number of groups, and its eight-bit
  position wraps: it accepts a varint of 38 bytes that the 64-bit reader rejects and returns 8
  for it. Nor does it see that a varint of more than five bytes overflows in its fifth.\<close>

theorem pb_varint32_wraps:
  "fst (pb_decode_varint32 buf_source (pb_istream_from_buffer (replicate 37 0x80 @ [0x01]) 38)) = Some 8 \<and>
   fst (pb_decode_varint buf_source (pb_istream_from_buffer (replicate 37 0x80 @ [0x01]) 38)) = None \<and>
   fst (pb_decode_varint32 buf_source (pb_istream_from_buffer [0x80, 0x80, 0x80, 0x80, 0xF0, 0x00] 6)) = Some 0 \<and>
   fst (pb_decode_varint buf_source (pb_istream_from_buffer [0x80, 0x80, 0x80, 0x80, 0xF0, 0x00] 6)) = Some 0x700000000"
  proof (intro conjI)
  let ?long = "replicate 37 0x80 @ [0x01 :: u8]" and ?six = "[0x80, 0x80, 0x80, 0x80, 0xF0, 0x00] :: u8 list"
  have long: "?long = 0x80 # replicate 36 0x80 @ [0x01]" by (simp add: numeral_eq_Suc)
  let ?st = "pb_istream_from_buffer (replicate 36 0x80 @ [0x01]) 37"
  have first: "pb_readbyte buf_source (pb_istream_from_buffer ?long 38) = (Some 0x80, ?st)"
    unfolding long by (simp add: pb_readbyte_def buf_source_def buf_read_def pb_istream_from_buffer_def)
  have "varint32_loop buf_source 7 0 ?st = varint32_loop buf_source 3 0 (pb_istream_from_buffer [0x01] 1)"
    using varint32_loop_80 [of 7 ?st 36 1 "[0x01]" 0] by (simp add: pb_istream_from_buffer_def)
  also have "\<dots> = (Some (8, 10, 0x01), pb_istream_from_buffer [] 0)"
    by (subst varint32_loop.simps) (simp add: pb_readbyte_def buf_source_def buf_read_def pb_istream_from_buffer_def)
  finally show "fst (pb_decode_varint32 buf_source (pb_istream_from_buffer ?long 38)) = Some 8"
    by (simp add: pb_decode_varint32_def pb_decode_varint32_eof_def first)
  have tw: "takeWhile (\<lambda>b. 128 \<le> unat b) ?long = replicate 37 0x80" by (simp add: takeWhile_append)
  have "stream_has (\<lambda>s. s) (pb_istream_from_buffer ?long 38) ?long []"
    by (simp add: stream_has_def pb_istream_from_buffer_def)
  from mem.pb_decode_varint_exact [OF this] show "fst (pb_decode_varint buf_source (pb_istream_from_buffer ?long 38)) = None"
    unfolding tw by simp
  show "fst (pb_decode_varint32 buf_source (pb_istream_from_buffer ?six 6)) = Some 0"
    by (simp add: pb_decode_varint32_def pb_decode_varint32_eof_def pb_readbyte_def buf_source_def buf_read_def
      pb_istream_from_buffer_def varint32_loop.simps)
  have "stream_has (\<lambda>s. s) (pb_istream_from_buffer ?six 6) ?six []"
    by (simp add: stream_has_def pb_istream_from_buffer_def)
  from mem.pb_decode_varint_exact [OF this] show
    "fst (pb_decode_varint buf_source (pb_istream_from_buffer ?six 6)) = Some 0x700000000" by (auto simp: Let_def)
qed

end
