(* ===== verification/Pb_Run.thy ===== *)
theory Pb_Run
  imports Prelude
begin

text \<open>
  Operations on a state that return the code's \<open>bool\<close>, shared by nanopb's encoder and
  decoder. \<open>None\<close> is not returning: running out of the nesting allowed, or a loop that goes
  on forever.
\<close>

type_synonym 'st run = "'st \<Rightarrow> (bool \<times> 'st) option"

definition returns :: "('st \<Rightarrow> bool \<times> 'st) \<Rightarrow> 'st run" where
  "returns f st = Some (f st)"

definition succeed :: "'st run" where
  "succeed st = Some (True, st)"

text \<open>\<open>if (!f) return false;\<close> and then \<open>g\<close>.\<close>

definition and_then :: "'st run \<Rightarrow> 'st run \<Rightarrow> 'st run" where
  "and_then f g st =
     (case f st of
        None \<Rightarrow> None
      | Some (False, st) \<Rightarrow> Some (False, st)
      | Some (True, st) \<Rightarrow> g st)"

definition always :: "'st run \<Rightarrow> bool" where
  "always f \<longleftrightarrow> (\<forall>st. f st \<noteq> None)"

named_theorems always_intros

lemma always_simple [always_intros]: "always succeed" "always (returns g)"
  by (simp_all add: always_def succeed_def returns_def)

lemma always_and_then [always_intros]: "always f \<Longrightarrow> always g \<Longrightarrow> always (and_then f g)"
  by (auto simp: always_def and_then_def split: option.split prod.split bool.split)

lemma always_if [always_intros]: "(b \<Longrightarrow> always f) \<Longrightarrow> (\<not> b \<Longrightarrow> always g) \<Longrightarrow> always (if b then f else g)"
  by simp

lemma if_not_None: "(b \<Longrightarrow> x \<noteq> None) \<Longrightarrow> (\<not> b \<Longrightarrow> y \<noteq> None) \<Longrightarrow> (if b then x else y) \<noteq> None"
  by simp

end
