(* ===== verification/Pb_Encode.thy ===== *)
theory Pb_Encode
  imports Pb_Values Pb_Iter Pb_Run
begin

text \<open>
  Encoding a whole message (\<open>nanopb/pb_encode.c\<close>). The program's memory is the list \<open>mem\<close>,
  an address a position in it, NULL the address 0; pointers are stored in eight bytes,
  \<open>pb_size_t\<close> in four. \<open>descs\<close> gives the descriptor array at an address. The callback
  functions are parameters, called by address; \<open>null_state\<close> is the state of a sizing stream.

  A function that can meet a submessage or an extension takes fuel, the nesting allowed;
  \<open>None\<close> is running out of it (or calling the NULL entry of the table of encoders).
\<close>

record 's pb_env =
  mem :: "u8 list"
  descs :: "nat \<Rightarrow> pb_field list"
  encode_fun :: "nat \<Rightarrow> 's writer \<Rightarrow> pb_field \<Rightarrow> int \<Rightarrow> 's ostream \<Rightarrow> bool \<times> 's ostream"
  extension_fun :: "nat \<Rightarrow> 's writer \<Rightarrow> nat \<Rightarrow> 's ostream \<Rightarrow> bool \<times> 's ostream"
  null_state :: 's

definition at :: "'s pb_env \<Rightarrow> int \<Rightarrow> u8 list" where
  "at env a = drop (nat a) (mem env)"

definition read_ptr :: "'s pb_env \<Rightarrow> int \<Rightarrow> nat" where
  "read_ptr env a = le_nat (take 8 (at env a))"

definition read_size :: "'s pb_env \<Rightarrow> int \<Rightarrow> nat" where
  "read_size env a = le_nat (take 4 (at env a))"

type_synonym 's enc = "'s ostream run"

definition fails :: "string \<Rightarrow> 's enc" where
  "fails msg stream = Some (PB_RETURN_OERROR stream msg)"

section \<open>The proto3 default\<close>

text \<open>A loop over all fields that stops at the first that is not default; \<open>k\<close> bounds it.\<close>

fun all_default :: "(pb_field \<Rightarrow> int \<Rightarrow> bool option) \<Rightarrow> int \<Rightarrow> nat \<Rightarrow> pb_field_iter \<Rightarrow> bool option" where
  "all_default f src 0 iter = None"
| "all_default f src (Suc k) iter =
     (case f (field_at iter) (src + it_pData iter) of
        None \<Rightarrow> None
      | Some False \<Rightarrow> Some False
      | Some True \<Rightarrow>
          (case pb_field_iter_next iter of
             (again, iter) \<Rightarrow> if again then all_default f src k iter else Some True))"

definition check_default :: "(nat \<Rightarrow> int \<Rightarrow> bool option) \<Rightarrow> 's pb_env \<Rightarrow> pb_field \<Rightarrow> int \<Rightarrow> bool option" where
  "check_default sub env field pData =
     (let h = PB_HTYPE (f_type field); l = PB_LTYPE (f_type field); a = PB_ATYPE (f_type field);
          pSize = pData + size_offset field
      in if h = PB_HTYPE_REQUIRED then Some False
         else if h = PB_HTYPE_REPEATED \<and> size_offset field \<noteq> 0 then Some (read_size env pSize = 0)
         else if h = PB_HTYPE_REPEATED \<and> a = PB_ATYPE_STATIC then Some False
         else if h = PB_HTYPE_ONEOF then Some (read_size env pSize = 0)
         else if h = PB_HTYPE_OPTIONAL \<and> size_offset field \<noteq> 0 then Some (\<not> safe_read_bool (at env pSize))
         else if a = PB_ATYPE_STATIC \<and> l = PB_LTYPE_BYTES then Some (read_size env pData = 0)
         else if a = PB_ATYPE_STATIC \<and> l = PB_LTYPE_STRING then Some (at env pData ! 0 = 0)
         else if a = PB_ATYPE_STATIC \<and> l = PB_LTYPE_FIXED_LENGTH_BYTES then Some (data_size field = 0)
         else if a = PB_ATYPE_STATIC \<and> l = PB_LTYPE_SUBMESSAGE then sub (f_ptr field) pData
         else if a = PB_ATYPE_POINTER \<and> l > PB_LTYPE_LAST_PACKABLE then Some (read_ptr env pData = 0)
         else Some (list_all (\<lambda>b. b = 0) (take (data_size field) (at env pData))))"

fun pb_check_proto3_default_value :: "nat \<Rightarrow> 's pb_env \<Rightarrow> pb_field \<Rightarrow> int \<Rightarrow> bool option" where
  "pb_check_proto3_default_value 0 env field pData = None"
| "pb_check_proto3_default_value (Suc n) env field pData =
     check_default
       (\<lambda>desc src.
          case pb_field_iter_begin (descs env desc) of
            (False, iter) \<Rightarrow> Some True
          | (True, iter) \<Rightarrow> all_default (pb_check_proto3_default_value n env) src (length (descs env desc)) iter)
       env field pData"

section \<open>Values\<close>

text \<open>\<open>sub\<close> encodes a message: the descriptors and the structure, by their addresses.\<close>

text \<open>The second pass, after the size \<open>sz\<close> has been written; a sizing stream needs none.\<close>

definition encode_sized ::
  "('s writer \<Rightarrow> nat \<Rightarrow> int \<Rightarrow> 's enc) \<Rightarrow> 's writer \<Rightarrow> nat \<Rightarrow> int \<Rightarrow> nat \<Rightarrow> 's enc" where
  "encode_sized sub wr desc src sz stream =
     (if wr = None then Some (pb_write wr [] sz stream)
      else if sz_add (bytes_written stream) sz > max_size stream
      then Some (PB_RETURN_OERROR stream ''stream full'')
      else
        (case sub wr desc src \<lparr>os_state = os_state stream, max_size = sz, bytes_written = 0, os_errmsg = None\<rparr> of
           None \<Rightarrow> None
         | Some (status, substream) \<Rightarrow>
             let stream = stream\<lparr>bytes_written := sz_add (bytes_written stream) (bytes_written substream),
                                 os_state := os_state substream, os_errmsg := os_errmsg substream\<rparr>
             in if bytes_written substream \<noteq> sz
                then Some (PB_RETURN_OERROR stream ''submsg size changed'')
                else Some (status, stream)))"

definition pb_encode_submessage ::
  "('s writer \<Rightarrow> nat \<Rightarrow> int \<Rightarrow> 's enc) \<Rightarrow> 's pb_env \<Rightarrow> 's writer \<Rightarrow> nat \<Rightarrow> int \<Rightarrow> 's enc" where
  "pb_encode_submessage sub env wr desc src stream =
     (case sub None desc src (PB_OSTREAM_SIZING (null_state env)) of
        None \<Rightarrow> None
      | Some (False, substream) \<Rightarrow> Some (False, stream\<lparr>os_errmsg := os_errmsg substream\<rparr>)
      | Some (True, substream) \<Rightarrow>
          and_then (returns (pb_encode_varint wr (word_of_nat (bytes_written substream))))
            (encode_sized sub wr desc src (bytes_written substream)) stream)"

definition pb_enc_submessage ::
  "('s writer \<Rightarrow> nat \<Rightarrow> int \<Rightarrow> 's enc) \<Rightarrow> 's pb_env \<Rightarrow> 's writer \<Rightarrow> pb_field \<Rightarrow> int \<Rightarrow> 's enc" where
  "pb_enc_submessage sub env wr field src =
     (if f_ptr field = 0 then fails ''invalid field descriptor''
      else pb_encode_submessage sub env wr (f_ptr field) src)"

text \<open>The table of encoders; the entry of extensions is NULL.\<close>

definition PB_ENCODERS ::
  "('s writer \<Rightarrow> nat \<Rightarrow> int \<Rightarrow> 's enc) \<Rightarrow> 's pb_env \<Rightarrow> 's writer \<Rightarrow> pb_field \<Rightarrow> int \<Rightarrow> 's enc" where
  "PB_ENCODERS sub env wr field src =
     (let l = PB_LTYPE (f_type field); p = at env src; n = data_size field
      in if l = PB_LTYPE_BOOL then returns (pb_enc_bool wr p)
         else if l = PB_LTYPE_VARINT then returns (pb_enc_varint wr n p)
         else if l = PB_LTYPE_UVARINT then returns (pb_enc_uvarint wr n p)
         else if l = PB_LTYPE_SVARINT then returns (pb_enc_svarint wr n p)
         else if l = PB_LTYPE_FIXED32 then returns (pb_enc_fixed32 wr p)
         else if l = PB_LTYPE_FIXED64 then returns (pb_enc_fixed64 wr p)
         else if l = PB_LTYPE_BYTES then
           returns (pb_enc_bytes wr field (if src = 0 then None else Some (read_size env src, at env (src + 4))))
         else if l = PB_LTYPE_STRING then returns (pb_enc_string wr field (if src = 0 then None else Some p))
         else if l = PB_LTYPE_SUBMESSAGE then pb_enc_submessage sub env wr field src
         else if l = PB_LTYPE_FIXED_LENGTH_BYTES then returns (pb_enc_fixed_length_bytes wr field p)
         else (\<lambda>stream. None))"

section \<open>Arrays\<close>

text \<open>\<open>func\<close> encodes an item at an address. The loop of a packed array and the other.\<close>

fun encode_packed :: "(int \<Rightarrow> 's enc) \<Rightarrow> nat \<Rightarrow> nat \<Rightarrow> int \<Rightarrow> 's enc" where
  "encode_packed func dsize 0 p = succeed"
| "encode_packed func dsize (Suc n) p = and_then (func p) (encode_packed func dsize n (p + int dsize))"

fun encode_unpacked :: "'s pb_env \<Rightarrow> 's writer \<Rightarrow> pb_field \<Rightarrow> (int \<Rightarrow> 's enc) \<Rightarrow> nat \<Rightarrow> int \<Rightarrow> 's enc" where
  "encode_unpacked env wr field func 0 p = succeed"
| "encode_unpacked env wr field func (Suc n) p =
     and_then (returns (pb_encode_tag_for_field wr field))
       (and_then
          (func (if PB_ATYPE (f_type field) = PB_ATYPE_POINTER \<and>
                    (PB_LTYPE (f_type field) = PB_LTYPE_STRING \<or> PB_LTYPE (f_type field) = PB_LTYPE_BYTES)
                 then int (read_ptr env p) else p))
          (encode_unpacked env wr field func n (p + int (data_size field))))"

definition encode_array ::
  "'s pb_env \<Rightarrow> 's writer \<Rightarrow> pb_field \<Rightarrow> ('s writer \<Rightarrow> int \<Rightarrow> 's enc) \<Rightarrow> nat \<Rightarrow> int \<Rightarrow> 's enc" where
  "encode_array env wr field func count pData =
     (let l = PB_LTYPE (f_type field)
      in if count = 0 then succeed
         else if PB_ATYPE (f_type field) \<noteq> PB_ATYPE_POINTER \<and> count > array_size field
         then fails ''array max size exceeded''
         else if l \<le> PB_LTYPE_LAST_PACKABLE then
           and_then (returns (pb_encode_tag wr PB_WT_STRING (word_of_nat (f_tag field))))
             (\<lambda>stream.
                case (if l = PB_LTYPE_FIXED32 then Some (True, sz_mul 4 count)
                      else if l = PB_LTYPE_FIXED64 then Some (True, sz_mul 8 count)
                      else map_option (\<lambda>(ok, sizestream). (ok, bytes_written sizestream))
                             (encode_packed (func None) (data_size field) count pData
                                (PB_OSTREAM_SIZING (null_state env)))) of
                  None \<Rightarrow> None
                | Some (False, sz) \<Rightarrow> Some (False, stream)
                | Some (True, sz) \<Rightarrow>
                    and_then (returns (pb_encode_varint wr (word_of_nat sz)))
                      (if wr = None then returns (pb_write wr [] sz)
                       else encode_packed (func wr) (data_size field) count pData) stream)
         else encode_unpacked env wr field (func wr) count pData)"

section \<open>Fields\<close>

definition encode_basic_field ::
  "nat \<Rightarrow> ('s writer \<Rightarrow> nat \<Rightarrow> int \<Rightarrow> 's enc) \<Rightarrow> 's pb_env \<Rightarrow> 's writer \<Rightarrow> pb_field \<Rightarrow> int \<Rightarrow> 's enc" where
  "encode_basic_field n sub env wr field pData =
     (let h = PB_HTYPE (f_type field);
          func = (\<lambda>wr. PB_ENCODERS sub env wr field);
          pSize = pData + size_offset field
      in case (if size_offset field \<noteq> 0 then Some False
               else if h = PB_HTYPE_OPTIONAL then map_option Not (pb_check_proto3_default_value n env field pData)
               else Some True) of
           None \<Rightarrow> (\<lambda>stream. None)
         | Some implicit_has \<Rightarrow>
             let is_ptr = (PB_ATYPE (f_type field) = PB_ATYPE_POINTER);
                 p = (if is_ptr then int (read_ptr env pData) else pData);
                 implicit_has = (if is_ptr then p \<noteq> 0 else implicit_has)
             in if h = PB_HTYPE_REQUIRED then
                  (if p = 0 then fails ''missing required field''
                   else and_then (returns (pb_encode_tag_for_field wr field)) (func wr p))
                else if h = PB_HTYPE_OPTIONAL then
                  (if (if size_offset field \<noteq> 0 then safe_read_bool (at env pSize) else implicit_has)
                   then and_then (returns (pb_encode_tag_for_field wr field)) (func wr p)
                   else succeed)
                else if h = PB_HTYPE_REPEATED then
                  encode_array env wr field func
                    (if size_offset field \<noteq> 0 then read_size env pSize else array_size field) p
                else if h = PB_HTYPE_ONEOF then
                  (if (if size_offset field \<noteq> 0 then read_size env pSize else of_bool implicit_has) = f_tag field
                   then and_then (returns (pb_encode_tag_for_field wr field)) (func wr p)
                   else succeed)
                else fails ''invalid field type'')"

text \<open>\<open>funcs.encode\<close> is the first word of a \<open>pb_callback_t\<close>, \<open>arg\<close> the second.\<close>

definition encode_callback_field :: "'s pb_env \<Rightarrow> 's writer \<Rightarrow> pb_field \<Rightarrow> int \<Rightarrow> 's enc" where
  "encode_callback_field env wr field pData stream =
     (let f = read_ptr env pData
      in if f \<noteq> 0 then
           (case encode_fun env f wr field (pData + 8) stream of
              (False, stream) \<Rightarrow> Some (PB_RETURN_OERROR stream ''callback error'')
            | (True, stream) \<Rightarrow> Some (True, stream))
         else Some (True, stream))"

definition encode_field ::
  "nat \<Rightarrow> ('s writer \<Rightarrow> nat \<Rightarrow> int \<Rightarrow> 's enc) \<Rightarrow> 's pb_env \<Rightarrow> 's writer \<Rightarrow> pb_field \<Rightarrow> int \<Rightarrow> 's enc" where
  "encode_field n sub env wr field pData =
     (let a = PB_ATYPE (f_type field)
      in if a = PB_ATYPE_STATIC \<or> a = PB_ATYPE_POINTER then encode_basic_field n sub env wr field pData
         else if a = PB_ATYPE_CALLBACK then encode_callback_field env wr field pData
         else fails ''invalid field type'')"

text \<open>A \<open>pb_extension_t\<close> is the words \<open>type\<close>, \<open>dest\<close> and \<open>next\<close> and a flag, its type the words
  \<open>decode\<close>, \<open>encode\<close> and \<open>arg\<close>.\<close>

definition default_extension_encoder ::
  "nat \<Rightarrow> ('s writer \<Rightarrow> nat \<Rightarrow> int \<Rightarrow> 's enc) \<Rightarrow> 's pb_env \<Rightarrow> 's writer \<Rightarrow> nat \<Rightarrow> 's enc" where
  "default_extension_encoder n sub env wr extension =
     (let field = descs env (read_ptr env (int (read_ptr env (int extension)) + 16)) ! 0
      in if PB_ATYPE (f_type field) = PB_ATYPE_POINTER
         then encode_field n sub env wr field (int extension + 8)
         else encode_field n sub env wr field (int (read_ptr env (int extension + 8))))"

text \<open>The linked list of extensions; \<open>k\<close> bounds its length.\<close>

fun encode_extensions ::
  "nat \<Rightarrow> nat \<Rightarrow> ('s writer \<Rightarrow> nat \<Rightarrow> int \<Rightarrow> 's enc) \<Rightarrow> 's pb_env \<Rightarrow> 's writer \<Rightarrow> nat \<Rightarrow> 's enc" where
  "encode_extensions 0 n sub env wr extension = (if extension = 0 then succeed else (\<lambda>stream. None))"
| "encode_extensions (Suc k) n sub env wr extension =
     (if extension = 0 then succeed
      else
        let f = read_ptr env (int (read_ptr env (int extension)) + 8)
        in and_then
             (if f \<noteq> 0 then returns (extension_fun env f wr extension)
              else default_extension_encoder n sub env wr extension)
             (encode_extensions k n sub env wr (read_ptr env (int extension + 16))))"

definition encode_extension_field ::
  "nat \<Rightarrow> ('s writer \<Rightarrow> nat \<Rightarrow> int \<Rightarrow> 's enc) \<Rightarrow> 's pb_env \<Rightarrow> 's writer \<Rightarrow> int \<Rightarrow> 's enc" where
  "encode_extension_field n sub env wr pData = encode_extensions n n sub env wr (read_ptr env pData)"

section \<open>Messages\<close>

fun encode_fields :: "(pb_field \<Rightarrow> int \<Rightarrow> 's enc) \<Rightarrow> int \<Rightarrow> nat \<Rightarrow> pb_field_iter \<Rightarrow> 's enc" where
  "encode_fields f src 0 iter = (\<lambda>stream. None)"
| "encode_fields f src (Suc k) iter =
     and_then (f (field_at iter) (src + it_pData iter))
       (case pb_field_iter_next iter of
          (again, iter) \<Rightarrow> if again then encode_fields f src k iter else succeed)"

fun pb_encode :: "nat \<Rightarrow> 's pb_env \<Rightarrow> 's writer \<Rightarrow> nat \<Rightarrow> int \<Rightarrow> 's enc" where
  "pb_encode 0 env wr desc src = (\<lambda>stream. None)"
| "pb_encode (Suc n) env wr desc src =
     (case pb_field_iter_begin (descs env desc) of
        (False, iter) \<Rightarrow> succeed
      | (True, iter) \<Rightarrow>
          encode_fields
            (\<lambda>field pData.
               if PB_LTYPE (f_type field) = PB_LTYPE_EXTENSION
               then encode_extension_field n (pb_encode n env) env wr pData
               else encode_field n (pb_encode n env) env wr field pData)
            src (length (descs env desc)) iter)"

definition pb_encode_delimited :: "nat \<Rightarrow> 's pb_env \<Rightarrow> 's writer \<Rightarrow> nat \<Rightarrow> int \<Rightarrow> 's enc" where
  "pb_encode_delimited n env wr desc src = pb_encode_submessage (pb_encode n env) env wr desc src"

definition pb_encode_nullterminated :: "nat \<Rightarrow> 's pb_env \<Rightarrow> 's writer \<Rightarrow> nat \<Rightarrow> int \<Rightarrow> 's enc" where
  "pb_encode_nullterminated n env wr desc src =
     and_then (pb_encode n env wr desc src) (returns (pb_write wr [0] 1))"

definition pb_get_encoded_size :: "nat \<Rightarrow> 's pb_env \<Rightarrow> nat \<Rightarrow> int \<Rightarrow> nat option option" where
  "pb_get_encoded_size n env desc src =
     map_option (\<lambda>(ok, stream). if ok then Some (bytes_written stream) else None)
       (pb_encode n env None desc src (PB_OSTREAM_SIZING (null_state env)))"

end
