(* ===== verification/Pb_Message.thy ===== *)
theory Pb_Message
  imports Pb_Encode
begin

text \<open>
  What a message is on the wire, in one pass and without streams: a reference for the
  encoder, which makes two passes over every submessage and packed array. The outcome is
  \<open>Emits x\<close>, the bytes, below \<open>2 ^ 63\<close> of them; \<open>Fails\<close>; or \<open>Unclear\<close>: more bytes than that,
  or a nesting deeper than the fuel. The encoder refines it on every kind of stream.
\<close>

datatype outcome = Unclear | Fails | Emits "u8 list"

definition emit :: "u8 list \<Rightarrow> outcome" where
  "emit x = (if length x < 2 ^ 63 then Emits x else Unclear)"

fun cat :: "outcome \<Rightarrow> outcome \<Rightarrow> outcome" where
  "cat (Emits x) (Emits y) = emit (x @ y)"
| "cat (Emits x) r = r"
| "cat r _ = r"

text \<open>A block: its length and its bytes.\<close>

fun block :: "outcome \<Rightarrow> outcome" where
  "block (Emits x) = emit (varint (length x) @ x)"
| "block r = r"

section \<open>The reference\<close>

text \<open>\<open>cb\<close> and \<open>xb\<close> are what the callback functions write.\<close>

record pb_callbacks =
  cb :: "nat \<Rightarrow> pb_field \<Rightarrow> int \<Rightarrow> outcome"
  xb :: "nat \<Rightarrow> nat \<Rightarrow> outcome"

definition tag_bytes :: "nat \<Rightarrow> nat \<Rightarrow> outcome" where
  "tag_bytes wt n = emit (varint (8 * (n mod 2 ^ 32) + wt))"

definition field_tag :: "pb_field \<Rightarrow> outcome" where
  "field_tag field =
     (case wiretype_of field of None \<Rightarrow> Fails | Some wt \<Rightarrow> tag_bytes (unat wt) (f_tag field))"

definition number :: "bool \<Rightarrow> nat \<Rightarrow> outcome" where
  "number ok v = (if ok then emit (varint v) else Fails)"

text \<open>\<open>n\<close> bytes of memory.\<close>

definition string_value :: "nat \<Rightarrow> u8 list \<Rightarrow> outcome" where
  "string_value n p = (if n \<le> length p then block (emit (take n p)) else Unclear)"

definition value_bytes :: "(nat \<Rightarrow> int \<Rightarrow> outcome) \<Rightarrow> 's pb_env \<Rightarrow> pb_field \<Rightarrow> int \<Rightarrow> outcome" where
  "value_bytes sub env field src =
     (let l = PB_LTYPE (f_type field); p = at env src; n = data_size field; ok = (n \<in> {1, 2, 4, 8})
      in if l = PB_LTYPE_BOOL then emit (varint (of_bool (safe_read_bool p)))
         else if l = PB_LTYPE_VARINT then number ok (unat (signed_field p n))
         else if l = PB_LTYPE_UVARINT then number ok (unat (word_of_nat (le_nat (take n p)) :: u64))
         else if l = PB_LTYPE_SVARINT then number ok (unat (zigzag (signed_field p n)))
         else if l = PB_LTYPE_FIXED32 then emit (fixed32 (word_of_nat (le_nat (take 4 p))))
         else if l = PB_LTYPE_FIXED64 then emit (fixed64 (word_of_nat (le_nat (take 8 p))))
         else if l = PB_LTYPE_BYTES then
           (if src = 0 then block (emit [])
            else if PB_ATYPE (f_type field) = PB_ATYPE_STATIC \<and> read_size env src + 4 > n then Fails
            else string_value (read_size env src) (at env (src + 4)))
         else if l = PB_LTYPE_STRING then
           (if src = 0 then block (emit [])
            else string_value (string_size p (if PB_ATYPE (f_type field) = PB_ATYPE_POINTER then 2 ^ 64 - 1 else n)) p)
         else if l = PB_LTYPE_SUBMESSAGE then (if f_ptr field = 0 then Fails else block (sub (f_ptr field) src))
         else if l = PB_LTYPE_FIXED_LENGTH_BYTES then string_value n p
         else Unclear)"

text \<open>An array, packed or not; \<open>val\<close> are the bytes of an item at an address.\<close>

fun items :: "(int \<Rightarrow> outcome) \<Rightarrow> nat \<Rightarrow> nat \<Rightarrow> int \<Rightarrow> outcome" where
  "items val dsize 0 p = Emits []"
| "items val dsize (Suc n) p = cat (val p) (items val dsize n (p + int dsize))"

definition array_bytes :: "'s pb_env \<Rightarrow> pb_field \<Rightarrow> (int \<Rightarrow> outcome) \<Rightarrow> nat \<Rightarrow> int \<Rightarrow> outcome" where
  "array_bytes env field val count p =
     (if count = 0 then Emits []
      else if PB_ATYPE (f_type field) \<noteq> PB_ATYPE_POINTER \<and> count > array_size field then Fails
      else if PB_LTYPE (f_type field) \<le> PB_LTYPE_LAST_PACKABLE
      then cat (tag_bytes 2 (f_tag field)) (block (items val (data_size field) count p))
      else items (\<lambda>p. cat (field_tag field)
             (val (if PB_ATYPE (f_type field) = PB_ATYPE_POINTER \<and>
                      (PB_LTYPE (f_type field) = PB_LTYPE_STRING \<or> PB_LTYPE (f_type field) = PB_LTYPE_BYTES)
                   then int (read_ptr env p) else p))) (data_size field) count p)"

text \<open>Which fields are there.\<close>

definition field_bytes :: "nat \<Rightarrow> pb_callbacks \<Rightarrow> (nat \<Rightarrow> int \<Rightarrow> outcome) \<Rightarrow> 's pb_env \<Rightarrow> pb_field \<Rightarrow> int \<Rightarrow> outcome" where
  "field_bytes n c sub env field pData =
     (let h = PB_HTYPE (f_type field); a = PB_ATYPE (f_type field); has_size = (size_offset field \<noteq> 0);
          pSize = pData + size_offset field;
          p = (if a = PB_ATYPE_POINTER then int (read_ptr env pData) else pData);
          one = cat (field_tag field) (value_bytes sub env field p)
      in if a = PB_ATYPE_CALLBACK then (if read_ptr env pData = 0 then Emits [] else cb c (read_ptr env pData) field (pData + 8))
         else if a \<noteq> PB_ATYPE_STATIC \<and> a \<noteq> PB_ATYPE_POINTER then Fails
         else if h = PB_HTYPE_REQUIRED then (if p = 0 then Fails else one)
         else if h = PB_HTYPE_OPTIONAL then
           (if has_size then (if safe_read_bool (at env pSize) then one else Emits [])
            else case pb_check_proto3_default_value n env field pData of
                   None \<Rightarrow> Unclear
                 | Some is_default \<Rightarrow>
                     if (if a = PB_ATYPE_POINTER then p \<noteq> 0 else \<not> is_default) then one else Emits [])
         else if h = PB_HTYPE_REPEATED then
           array_bytes env field (value_bytes sub env field) (if has_size then read_size env pSize else array_size field) p
         else
           (if (if has_size then read_size env pSize
                else of_bool (if a = PB_ATYPE_POINTER then p \<noteq> 0 else True)) = f_tag field then one else Emits []))"

fun extension_bytes :: "nat \<Rightarrow> nat \<Rightarrow> pb_callbacks \<Rightarrow> (nat \<Rightarrow> int \<Rightarrow> outcome) \<Rightarrow> 's pb_env \<Rightarrow> nat \<Rightarrow> outcome" where
  "extension_bytes 0 n c sub env x = (if x = 0 then Emits [] else Unclear)"
| "extension_bytes (Suc k) n c sub env x =
     (if x = 0 then Emits []
      else
        let xtype = int (read_ptr env (int x)); field = descs env (read_ptr env (xtype + 16)) ! 0
        in cat
             (if read_ptr env (xtype + 8) \<noteq> 0 then xb c (read_ptr env (xtype + 8)) x
              else field_bytes n c sub env field
                     (if PB_ATYPE (f_type field) = PB_ATYPE_POINTER then int x + 8
                      else int (read_ptr env (int x + 8))))
             (extension_bytes k n c sub env (read_ptr env (int x + 16))))"

text \<open>A message: its fields one after the other, each at its place in the structure.\<close>

fun message_fields :: "(pb_field \<Rightarrow> int \<Rightarrow> outcome) \<Rightarrow> int \<Rightarrow> nat \<Rightarrow> pb_field_iter \<Rightarrow> outcome" where
  "message_fields f src 0 iter = Unclear"
| "message_fields f src (Suc k) iter =
     cat (f (field_at iter) (src + it_pData iter))
       (case pb_field_iter_next iter of
          (again, iter) \<Rightarrow> if again then message_fields f src k iter else Emits [])"

fun message_bytes :: "nat \<Rightarrow> pb_callbacks \<Rightarrow> 's pb_env \<Rightarrow> nat \<Rightarrow> int \<Rightarrow> outcome" where
  "message_bytes 0 c env desc src = Unclear"
| "message_bytes (Suc n) c env desc src =
     (if fst (pb_field_iter_begin (descs env desc))
      then message_fields
             (\<lambda>field p.
                if PB_LTYPE (f_type field) = PB_LTYPE_EXTENSION
                then extension_bytes n n c (message_bytes n c env) env (read_ptr env p)
                else field_bytes n c (message_bytes n c env) env field p)
             src (length (descs env desc)) (snd (pb_field_iter_begin (descs env desc)))
      else Emits [])"

section \<open>Refinement\<close>

text \<open>\<open>writes f x\<close>: on a buffer of at most \<open>2 ^ 63\<close> bytes \<open>f\<close> appends \<open>x\<close>, or fails if there is
  no room; then too the memory around the buffer is as it was.\<close>

definition refused :: "((u8 list \<times> nat) enc) \<Rightarrow> u8 list \<Rightarrow> u8 list \<Rightarrow> (u8 list \<times> nat) ostream \<Rightarrow> bool" where
  "refused f before behind s \<longleftrightarrow>
     (\<exists>s' w. f s = Some (False, s') \<and> obuf before behind s' w \<and> max_size s' = max_size s)"

definition writes :: "(u8 list \<times> nat) enc \<Rightarrow> u8 list \<Rightarrow> bool" where
  "writes f x \<longleftrightarrow>
     (\<forall>before behind s w. obuf before behind s w \<and> max_size s < 2 ^ 63 \<longrightarrow>
        (if length w + length x \<le> max_size s
         then \<exists>s'. f s = Some (True, s') \<and> obuf before behind s' (w @ x) \<and> max_size s' = max_size s
         else refused f before behind s))"

definition adds :: "'s enc \<Rightarrow> nat \<Rightarrow> bool" where
  "adds f n \<longleftrightarrow> (\<forall>s. bytes_written s < 2 ^ 64 \<longrightarrow> f s = Some (True, s\<lparr>bytes_written := sz_add (bytes_written s) n\<rparr>))"

fun implements :: "((u8 list \<times> nat) writer \<Rightarrow> (u8 list \<times> nat) enc) \<Rightarrow> outcome \<Rightarrow> bool" where
  "implements f Unclear = True"
| "implements f Fails \<longleftrightarrow>
     (\<forall>before behind s w. obuf before behind s w \<and> max_size s < 2 ^ 63 \<longrightarrow> refused (f (Some buf_write)) before behind s) \<and>
     (\<forall>s. bytes_written s < 2 ^ 64 \<longrightarrow> (\<exists>s'. f None s = Some (False, s')))"
| "implements f (Emits x) \<longleftrightarrow> length x < 2 ^ 63 \<and> writes (f (Some buf_write)) x \<and> adds (f None) (length x)"

lemma implements_emit:
  "(length x < 2 ^ 63 \<Longrightarrow> implements f (Emits x)) \<Longrightarrow> implements f (emit x)"
  by (simp add: emit_def)

lemma implements_returns:
  assumes "emits (f (Some buf_write)) x" and "counts (f None) (length x)"
  shows "implements (\<lambda>wr. returns (f wr)) (emit x)"
proof (rule implements_emit)
  assume "length x < 2 ^ 63"
  moreover have "writes (returns (f (Some buf_write))) x"
    using assms(1) unfolding writes_def emits_def refused_def returns_def by (simp cong: if_cong) metis
  moreover have "adds (returns (f None)) (length x)"
    using assms(2) by (simp add: adds_def counts_def returns_def)
  ultimately show "implements (\<lambda>wr. returns (f wr)) (Emits x)" by simp
qed

lemma obuf_errmsg [simp]: "obuf before behind (s\<lparr>os_errmsg := e\<rparr>) w = obuf before behind s w"
  by (simp add: obuf_def)

lemma implements_succeed: "implements (\<lambda>wr. succeed) (Emits [])"
  by (auto simp: writes_def adds_def succeed_def sz_add_def obuf_def)

lemma implements_fails: "implements (\<lambda>wr. fails msg) Fails"
proof -
  have "refused (fails msg) before behind s" if "obuf before behind s w" for before behind s w
    using that by (auto simp: refused_def fails_def PB_RETURN_OERROR_def obuf_def)
  then show ?thesis by (auto simp: fails_def PB_RETURN_OERROR_def)
qed

lemma implements_and_then:
  assumes f: "implements f r" and g: "implements g q"
  shows "implements (\<lambda>wr. and_then (f wr) (g wr)) (cat r q)"
proof (cases r)
  case Fails
  with f show ?thesis by (fastforce simp: refused_def and_then_def)
next
  case (Emits x)
  with f have x: "length x < 2 ^ 63" and fw: "writes (f (Some buf_write)) x" and fa: "adds (f None) (length x)" by simp_all
  have step: "(\<exists>s1. f (Some buf_write) s = Some (True, s1) \<and> obuf before behind s1 (w @ x) \<and> max_size s1 = max_size s) \<and>
      length w + length x \<le> max_size s \<or>
      (\<not> length w + length x \<le> max_size s \<and> refused (f (Some buf_write)) before behind s)"
    if "obuf before behind s w" "max_size s < 2 ^ 63" for before behind s w
    using fw that unfolding writes_def by metis
  show ?thesis
  proof (cases q)
    case Fails
    have "refused (and_then (f (Some buf_write)) (g (Some buf_write))) before behind s"
      if s: "obuf before behind s w" "max_size s < 2 ^ 63" for before behind s w
      using step [OF s] g s(2) unfolding Fails by (fastforce simp: refused_def and_then_def)
    moreover have "\<exists>s'. and_then (f None) (g None) s = Some (False, s')" if "bytes_written s < 2 ^ 64" for s
      using fa g that unfolding Fails by (simp add: adds_def and_then_def sz_add_def)
    ultimately show ?thesis unfolding Emits Fails by auto
  next
    case q: (Emits y)
    with g have y: "length y < 2 ^ 63" and gw: "writes (g (Some buf_write)) y" and ga: "adds (g None) (length y)" by simp_all
    have "writes (and_then (f (Some buf_write)) (g (Some buf_write))) (x @ y)"
      unfolding writes_def
    proof (intro allI impI, elim conjE)
      fix before behind s w
      assume s: "obuf before behind s w" "max_size s < 2 ^ 63"
      from step [OF s] show "if length w + length (x @ y) \<le> max_size s
        then \<exists>s'. and_then (f (Some buf_write)) (g (Some buf_write)) s = Some (True, s') \<and>
          obuf before behind s' (w @ x @ y) \<and> max_size s' = max_size s
        else refused (and_then (f (Some buf_write)) (g (Some buf_write))) before behind s"
      proof (elim disjE conjE exE)
        fix s1
        assume s1: "f (Some buf_write) s = Some (True, s1)" "obuf before behind s1 (w @ x)" "max_size s1 = max_size s"
        with gw s(2) have "if length (w @ x) + length y \<le> max_size s1
          then \<exists>s'. g (Some buf_write) s1 = Some (True, s') \<and> obuf before behind s' ((w @ x) @ y) \<and> max_size s' = max_size s1
          else refused (g (Some buf_write)) before behind s1" unfolding writes_def by metis
        with s1 show ?thesis by (simp add: and_then_def refused_def add.assoc cong: if_cong)
      next
        assume "\<not> length w + length x \<le> max_size s" "refused (f (Some buf_write)) before behind s"
        then show ?thesis by (auto simp: refused_def and_then_def)
      qed
    qed
    moreover have "adds (and_then (f None) (g None)) (length (x @ y))"
      using fa ga by (simp add: adds_def and_then_def sz_add_def mod_add_left_eq add.assoc)
    ultimately show ?thesis unfolding Emits q by (simp add: emit_def)
  qed (simp add: Emits)
qed simp

end
