(* ===== verification/Pb_Refine.thy ===== *)
theory Pb_Refine
  imports Pb_Message
begin

text \<open>
  The encoder of \<open>nanopb/pb_encode.c\<close> refines the reference of \<open>Pb_Message\<close>, function by
  function: scalars, blocks, submessages with their two passes, arrays, fields, extensions
  and whole messages.
\<close>

section \<open>Values\<close>

lemma implements_varint: "implements (\<lambda>wr. returns (pb_encode_varint wr v)) (emit (varint (unat v)))"
  by (intro implements_returns pb_encode_varint_emits pb_encode_varint_counts)

lemma implements_number:
  assumes "\<And>wr. f wr = (if ok then pb_encode_varint wr v else (\<lambda>s. PB_RETURN_OERROR s msg))"
  shows "implements (\<lambda>wr. returns (f wr)) (number ok (unat v))"
proof (cases ok)
  case True
  with assms implements_varint show ?thesis by (simp add: number_def)
next
  case False
  have "returns (f wr) = fails msg" for wr
    using assms False by (simp add: fun_eq_iff returns_def fails_def)
  with False implements_fails [of msg] show ?thesis by (simp add: number_def del: implements.simps)
qed

lemma word_mod32: "(word_of_nat n :: u32) = word_of_nat (n mod 2 ^ 32)"
  by (simp add: word_unat_eq_iff unat_of_nat)

lemma implements_tag:
  assumes "w < 8"
  shows "implements (\<lambda>wr. returns (pb_encode_tag wr (word_of_nat w) (word_of_nat n))) (tag_bytes w n)"
  unfolding tag_bytes_def word_mod32 [of n]
  by (intro implements_returns pb_encode_tag_emits pb_encode_tag_counts assms) simp_all

lemma wiretype_small: "wiretype_of field = Some wt \<Longrightarrow> unat wt < 8"
  by (auto simp: wiretype_of_def Let_def split: if_splits)

lemma implements_field_tag: "implements (\<lambda>wr. returns (pb_encode_tag_for_field wr field)) (field_tag field)"
proof (cases "wiretype_of field")
  case None
  then have "returns (pb_encode_tag_for_field wr field) = fails ''invalid field type''" for wr :: "(u8 list \<times> nat) writer"
    by (simp add: fun_eq_iff returns_def fails_def pb_encode_tag_for_field_def)
  with None implements_fails [of "''invalid field type''"] show ?thesis
    by (simp add: field_tag_def del: implements.simps)
next
  case (Some wt)
  then have "pb_encode_tag_for_field wr field = pb_encode_tag wr (word_of_nat (unat wt)) (word_of_nat (f_tag field))" for wr :: "(u8 list \<times> nat) writer"
    by (simp add: fun_eq_iff pb_encode_tag_for_field_def)
  with Some implements_tag [OF wiretype_small [OF Some], of "f_tag field"] show ?thesis
    by (simp add: field_tag_def)
qed

lemma implements_if:
  "(b \<Longrightarrow> implements f r) \<Longrightarrow> (\<not> b \<Longrightarrow> implements g q) \<Longrightarrow>
     implements (\<lambda>wr. if b then f wr else g wr) (if b then r else q)"
  by simp

lemma implements_block_string:
  assumes "n \<le> length p"
  shows "implements (\<lambda>wr. returns (pb_encode_string wr p n)) (block (emit (take n p)))"
proof (cases "n < 2 ^ 63")
  case True
  have "implements (\<lambda>wr. returns (pb_encode_string wr (take n p @ drop n p) n)) (emit (varint n @ take n p))"
  proof (rule implements_returns)
    show "emits (pb_encode_string (Some buf_write) (take n p @ drop n p) n) (varint n @ take n p)"
      using assms True by (intro pb_encode_string_emits) simp_all
    show "counts (pb_encode_string None (take n p @ drop n p) n) (length (varint n @ take n p))"
      using assms True pb_encode_string_counts [of n "take n p @ drop n p"] by simp
  qed
  with True assms show ?thesis by (simp add: emit_def)
qed (simp add: emit_def assms)

lemma implements_string_value: "implements (\<lambda>wr. returns (pb_encode_string wr p n)) (string_value n p)"
  using implements_block_string [of n p] by (simp add: string_value_def)

lemma implements_write: "length x = n \<Longrightarrow> implements (\<lambda>wr. returns (pb_write wr x n)) (emit x)"
proof (rule implements_emit)
  assume n: "length x = n" and x: "length x < 2 ^ 63"
  then have "n < 2 ^ 64" by simp
  from implements_returns [where f = "\<lambda>wr. pb_write wr x n", OF emits_write [OF n this]] n x counts_write [of x n]
  show "implements (\<lambda>wr. returns (pb_write wr x n)) (Emits x)"
    by (simp add: emit_def)
qed

text \<open>Two passes over the submessage: the sizes agree, so the second fills just its part.\<close>

lemma obuf_split:
  assumes s: "obuf before behind s w" and n: "length w + n \<le> max_size s"
  shows "\<exists>rest. obuf (before @ w) (rest @ behind)
    \<lparr>os_state = os_state s, max_size = n, bytes_written = 0, os_errmsg = None\<rparr> [] \<and>
    length w + n + length rest = max_size s"
proof -
  from s obtain room where st: "os_state s = (before @ w @ room @ behind, length before + length w)"
    and mx: "max_size s = length w + length room" "max_size s < 2 ^ 64" unfolding obuf_def by blast
  have "obuf (before @ w) (drop n room @ behind)
      \<lparr>os_state = os_state s, max_size = n, bytes_written = 0, os_errmsg = None\<rparr> []"
    unfolding obuf_def using n mx st by (intro conjI exI [of _ "take n room"]) simp_all
  moreover have "length w + n + length (drop n room) = max_size s" using n mx by simp
  ultimately show ?thesis by blast
qed

lemma obuf_join:
  assumes sub: "obuf (before @ w) (rest @ behind) sub x" and full: "max_size sub = length x"
    and lim: "length w + length x + length rest = max_size s" "max_size s < 2 ^ 64" and bw: "bytes_written s = length w"
  shows "obuf before behind (s\<lparr>bytes_written := sz_add (bytes_written s) (bytes_written sub),
    os_state := os_state sub, os_errmsg := e\<rparr>) (w @ x)"
proof -
  from sub full have st: "os_state sub = (before @ (w @ x) @ rest @ behind, length before + length (w @ x))"
    and b: "bytes_written sub = length x" unfolding obuf_def by auto
  have "sz_add (length w) (length x) = length w + length x" using lim by (intro sz_add_id) simp
  with st b bw lim show ?thesis unfolding obuf_def by simp
qed

lemma encode_sized_writes:
  assumes x: "length x < 2 ^ 63" and sw: "writes (sub (Some buf_write) d src) x"
  shows "writes (encode_sized sub (Some buf_write) d src (length x)) x"
  unfolding writes_def
proof (intro allI impI, elim conjE)
  fix before behind s w
  assume s: "obuf before behind s w" and m: "max_size s < 2 ^ 63"
  from s have bw: "bytes_written s = length w" "length w \<le> max_size s" unfolding obuf_def by auto
  have add: "sz_add (length w) (length x) = length w + length x" using bw m x by (intro sz_add_id) simp
  show "if length w + length x \<le> max_size s
    then \<exists>s'. encode_sized sub (Some buf_write) d src (length x) s = Some (True, s') \<and>
      obuf before behind s' (w @ x) \<and> max_size s' = max_size s
    else refused (encode_sized sub (Some buf_write) d src (length x)) before behind s"
  proof (cases "length w + length x \<le> max_size s")
    case True
    let ?sub = "\<lparr>os_state = os_state s, max_size = length x, bytes_written = 0, os_errmsg = None\<rparr>"
    from obuf_split [OF s True] obtain rest where "obuf (before @ w) (rest @ behind) ?sub []"
      and lim: "length w + length x + length rest = max_size s" by blast
    with sw x obtain s1 where s1: "sub (Some buf_write) d src ?sub = Some (True, s1)"
        "obuf (before @ w) (rest @ behind) s1 ([] @ x)" "max_size s1 = length x"
      unfolding writes_def by fastforce
    from obuf_join [of before w rest behind s1 x s] s1 lim m bw have
      "obuf before behind (s\<lparr>bytes_written := sz_add (bytes_written s) (bytes_written s1),
        os_state := os_state s1, os_errmsg := os_errmsg s1\<rparr>) (w @ x)" by simp
    moreover have "bytes_written s1 = length x" using s1(2) unfolding obuf_def by auto
    ultimately show ?thesis using True s1(1) add bw by (simp add: encode_sized_def Let_def)
  next
    case False
    with add bw s show ?thesis
      by (auto simp: encode_sized_def refused_def PB_RETURN_OERROR_def obuf_def)
  qed
qed

lemma implements_submessage:
  assumes sub: "implements (\<lambda>wr. sub wr d src) r"
  shows "implements (\<lambda>wr. pb_encode_submessage sub env wr d src) (block r)"
proof (cases r)
  case Fails
  with sub have "\<exists>s'. sub None d src (PB_OSTREAM_SIZING (null_state env)) = Some (False, s')"
    by (simp add: PB_OSTREAM_SIZING_def)
  then obtain s1 where "sub None d src (PB_OSTREAM_SIZING (null_state env)) = Some (False, s1)" by blast
  then have "pb_encode_submessage sub env wr d src s = Some (False, s\<lparr>os_errmsg := os_errmsg s1\<rparr>)" for wr s
    by (simp add: pb_encode_submessage_def)
  with Fails show ?thesis by (auto simp: refused_def obuf_def)
next
  case (Emits x)
  with sub have x: "length x < 2 ^ 63" and sw: "writes (sub (Some buf_write) d src) x"
    and sa: "adds (sub None d src) (length x)" by simp_all
  have "sub None d src (PB_OSTREAM_SIZING (null_state env)) =
      Some (True, (PB_OSTREAM_SIZING (null_state env))\<lparr>bytes_written := length x\<rparr>)"
    using sa x by (simp add: adds_def PB_OSTREAM_SIZING_def sz_add_def)
  then obtain z where size: "sub None d src (PB_OSTREAM_SIZING (null_state env)) = Some (True, z)" "bytes_written z = length x"
    by simp
  have u: "unat (word_of_nat (length x) :: u64) = length x" using x by (intro unat_of_nat64) simp
  have v: "length (varint (length x)) \<le> 10" using length_varint64 [of "word_of_nat (length x)"] unfolding u .
  have eq: "pb_encode_submessage sub env wr d src =
      and_then (returns (pb_encode_varint wr (word_of_nat (length x)))) (encode_sized sub wr d src (length x))" for wr
    by (rule ext) (simp add: pb_encode_submessage_def size)
  have "adds (encode_sized sub None d src (length x)) (length x)" by (simp add: adds_def pb_write_def encode_sized_def)
  with encode_sized_writes [of x sub d src, OF x sw] x have "implements (\<lambda>wr. encode_sized sub wr d src (length x)) (Emits x)" by simp
  from implements_and_then [OF implements_varint [of "word_of_nat (length x)"] this] show ?thesis
    using v x unfolding eq Emits u by (simp add: emit_def)
qed simp

section \<open>Values and arrays\<close>

lemma read_size_less: "read_size env a < 2 ^ 32"
proof -
  have "read_size env a < 256 ^ length (take 4 (at env a))" unfolding read_size_def by (rule le_nat_less)
  also have "\<dots> \<le> 256 ^ 4" by (intro power_increasing) simp_all
  finally show ?thesis by simp
qed

lemma pb_enc_bytes_eq:
  "returns (pb_enc_bytes wr field (Some (read_size env a, p))) =
     (if PB_ATYPE (f_type field) = PB_ATYPE_STATIC \<and> read_size env a + 4 > data_size field
      then fails ''bytes size exceeded'' else returns (pb_encode_string wr p (read_size env a)))"
proof -
  have "PB_BYTES_ARRAY_T_ALLOCSIZE (read_size env a) = read_size env a + 4"
    using read_size_less [of env a] by (simp add: PB_BYTES_ARRAY_T_ALLOCSIZE_def sz_add_def)
  then show ?thesis by (auto simp: fun_eq_iff returns_def fails_def pb_enc_bytes_def)
qed

lemma implements_bytes_value:
  "implements (\<lambda>wr. returns (pb_enc_bytes wr field (if src = 0 then None else Some (read_size env src, p))))
     (if src = 0 then block (emit [])
      else if PB_ATYPE (f_type field) = PB_ATYPE_STATIC \<and> read_size env src + 4 > data_size field then Fails
      else string_value (read_size env src) p)"
proof (cases "src = 0")
  case True
  with implements_block_string [of 0 "[]"] show ?thesis by (simp add: pb_enc_bytes_def [abs_def])
next
  case False
  show ?thesis
  proof (cases "PB_ATYPE (f_type field) = PB_ATYPE_STATIC \<and> read_size env src + 4 > data_size field")
    case True
    with False implements_fails [of "''bytes size exceeded''"] show ?thesis
      by (simp add: pb_enc_bytes_eq del: implements.simps)
  next
    case fits: False
    with False implements_string_value [of p "read_size env src"] show ?thesis
      by (simp add: pb_enc_bytes_eq if_not_P)
  qed
qed

lemma implements_enc_string:
  "implements (\<lambda>wr. returns (pb_enc_string wr field (if src = 0 then None else Some p)))
     (if src = 0 then block (emit [])
      else string_value (string_size p (if PB_ATYPE (f_type field) = PB_ATYPE_POINTER then 2 ^ 64 - 1 else data_size field)) p)"
  using implements_block_string [of 0 "[]"] implements_string_value [of p]
  by (simp add: pb_enc_string_def [abs_def])

lemma implements_enc_bool:
  "implements (\<lambda>wr. returns (pb_enc_bool wr p)) (emit (varint (of_bool (safe_read_bool p))))"
  using implements_varint [of 0] implements_varint [of 1] by (simp add: pb_enc_bool_def [abs_def])

lemma implements_fixed32: "implements (\<lambda>wr. returns (pb_encode_fixed32 wr v)) (emit (fixed32 v))"
  using implements_write [of "fixed32 v" 4] by (simp add: pb_encode_fixed32_eq [abs_def])

lemma implements_fixed64: "implements (\<lambda>wr. returns (pb_encode_fixed64 wr v)) (emit (fixed64 v))"
  using implements_write [of "fixed64 v" 8] by (simp add: pb_encode_fixed64_eq [abs_def])

lemma implements_enc_varint:
  "implements (\<lambda>wr. returns (pb_enc_varint wr n p)) (number (n \<in> {1, 2, 4, 8}) (unat (signed_field p n)))"
  by (rule implements_number [where msg = "''invalid data_size''"]) (simp add: fun_eq_iff pb_enc_varint_def)

lemma implements_enc_svarint:
  "implements (\<lambda>wr. returns (pb_enc_svarint wr n p)) (number (n \<in> {1, 2, 4, 8}) (unat (zigzag (signed_field p n))))"
  by (rule implements_number [where msg = "''invalid data_size''"]) (simp add: fun_eq_iff pb_enc_svarint_def pb_encode_svarint_eq)

lemma implements_enc_uvarint:
  "implements (\<lambda>wr. returns (pb_enc_uvarint wr n p))
     (number (n \<in> {1, 2, 4, 8}) (unat (word_of_nat (le_nat (take n p)) :: u64)))"
  by (rule implements_number [where msg = "''invalid data_size''"]) (simp add: fun_eq_iff pb_enc_uvarint_def)

lemma implements_enc_submessage:
  assumes sub: "\<And>d src. implements (\<lambda>wr. sub wr d src) (subref d src)"
  shows "implements (\<lambda>wr. pb_enc_submessage sub env wr field src)
    (if f_ptr field = 0 then Fails else block (subref (f_ptr field) src))"
  using implements_fails [of "''invalid field descriptor''"] implements_submessage [of sub "f_ptr field" src "subref (f_ptr field) src" env, OF sub]
  by (simp add: pb_enc_submessage_def [abs_def] del: implements.simps)

lemma implements_value:
  assumes sub: "\<And>d src. implements (\<lambda>wr. sub wr d src) (subref d src)"
  shows "implements (\<lambda>wr. PB_ENCODERS sub env wr field src) (value_bytes subref env field src)"
  unfolding PB_ENCODERS_def value_bytes_def Let_def pb_enc_fixed32_def pb_enc_fixed64_def pb_enc_fixed_length_bytes_def
  by (intro implements_if implements_enc_bool implements_enc_varint implements_enc_uvarint implements_enc_svarint
      implements_fixed32 implements_fixed64 implements_bytes_value implements_enc_string
      implements_enc_submessage [where subref = subref, OF sub] implements_string_value implements.simps(1) [THEN iffD2] TrueI)

lemma implements_packed:
  assumes "\<And>p. implements (\<lambda>wr. func wr p) (val p)"
  shows "implements (\<lambda>wr. encode_packed (func wr) dsize n p) (items val dsize n p)"
proof (induction n arbitrary: p)
  case 0
  then show ?case using implements_succeed by (simp del: implements.simps)
next
  case (Suc n)
  from implements_and_then [OF assms Suc] show ?case by simp
qed

lemma implements_unpacked:
  assumes "\<And>p. implements (\<lambda>wr. func wr p) (val p)"
  shows "implements (\<lambda>wr. encode_unpacked env wr field (func wr) n p)
    (items (\<lambda>p. cat (field_tag field)
       (val (if PB_ATYPE (f_type field) = PB_ATYPE_POINTER \<and>
                (PB_LTYPE (f_type field) = PB_LTYPE_STRING \<or> PB_LTYPE (f_type field) = PB_LTYPE_BYTES)
             then int (read_ptr env p) else p))) (data_size field) n p)"
proof (induction n arbitrary: p)
  case 0
  then show ?case using implements_succeed by (simp del: implements.simps)
next
  case (Suc n)
  have assoc: "and_then f (and_then g h) = and_then (and_then f g) h" for f g h :: "(u8 list \<times> nat) enc"
    by (simp add: and_then_def fun_eq_iff split: option.split prod.split bool.split)
  from implements_and_then [OF implements_and_then [OF implements_field_tag assms] Suc] show ?case
    by (simp only: encode_unpacked.simps items.simps assoc)
qed

lemma items_fixed:
  assumes "\<And>p. \<exists>y. val p = emit y \<and> length y = k"
  shows "items val dsize n p = Unclear \<or> (\<exists>x. items val dsize n p = Emits x \<and> length x = k * n)"
proof (induction n arbitrary: p)
  case (Suc n)
  from assms [of p] obtain y where "val p = emit y" "length y = k" by blast
  with Suc [of "p + int dsize"] show ?case by (auto simp: emit_def)
qed simp

text \<open>The size of a packed array is computed or counted before it is written.\<close>

lemma implements_sized_items:
  assumes f: "\<And>p. implements (\<lambda>wr. func wr p) (val p)"
    and r: "r = items val dsize n p"
    and sz: "\<And>x. r = Emits x \<Longrightarrow> tot = Some (True, length x)"
    and bad: "r = Fails \<Longrightarrow> \<exists>k. tot = Some (False, k)"
  shows "implements (\<lambda>wr stream. case tot of
      None \<Rightarrow> None
    | Some (False, sz) \<Rightarrow> Some (False, stream)
    | Some (True, sz) \<Rightarrow>
        and_then (returns (pb_encode_varint wr (word_of_nat sz)))
          (if wr = None then returns (pb_write wr [] sz) else encode_packed (func wr) dsize n p) stream) (block r)"
proof (cases r)
  case Fails
  with bad obtain k where "tot = Some (False, k)" by blast
  with Fails show ?thesis by (auto simp: refused_def)
next
  case (Emits x)
  have "implements (\<lambda>wr. encode_packed (func wr) dsize n p) (Emits x)"
    unfolding Emits [symmetric] r by (rule implements_packed [OF f])
  then have x: "length x < 2 ^ 63"
    and w: "writes (encode_packed (func (Some buf_write)) dsize n p) x" by simp_all
  have u: "unat (word_of_nat (length x) :: u64) = length x" using x by (intro unat_of_nat64) simp
  have v: "length (varint (length x)) \<le> 10" using length_varint64 [of "word_of_nat (length x)"] unfolding u .
  have "adds (returns (pb_write None [] (length x))) (length x)" by (simp add: adds_def pb_write_def returns_def)
  with x w have "implements (\<lambda>wr. if wr = None then returns (pb_write wr [] (length x)) else encode_packed (func wr) dsize n p) (Emits x)"
    by simp
  from implements_and_then [OF implements_varint [of "word_of_nat (length x)"] this] show ?thesis
    using v x sz [OF Emits] unfolding u Emits by (simp add: emit_def)
qed simp

lemma implements_array:
  assumes f: "\<And>p. implements (\<lambda>wr. func wr p) (val p)"
    and f32: "\<And>p. PB_LTYPE (f_type field) = PB_LTYPE_FIXED32 \<Longrightarrow> \<exists>y. val p = emit y \<and> length y = 4"
    and f64: "\<And>p. PB_LTYPE (f_type field) = PB_LTYPE_FIXED64 \<Longrightarrow> \<exists>y. val p = emit y \<and> length y = 8"
  shows "implements (\<lambda>wr. encode_array env wr field func count p) (array_bytes env field val count p)"
proof -
  let ?d = "data_size field" and ?l = "PB_LTYPE (f_type field)"
  let ?r = "items val ?d count p"
  let ?tot = "if ?l = PB_LTYPE_FIXED32 then Some (True, sz_mul 4 count)
      else if ?l = PB_LTYPE_FIXED64 then Some (True, sz_mul 8 count)
      else map_option (\<lambda>(ok, sizestream). (ok, bytes_written sizestream))
             (encode_packed (func None) ?d count p (PB_OSTREAM_SIZING (null_state env)))"
  have imp: "implements (\<lambda>wr. encode_packed (func wr) ?d count p) ?r" by (rule implements_packed [OF f])
  have "?tot = Some (True, length x)" if x: "?r = Emits x" for x
  proof -
    have less: "length x < 2 ^ 63" using imp x by simp
    consider "?l = PB_LTYPE_FIXED32" | "?l = PB_LTYPE_FIXED64" "?l \<noteq> PB_LTYPE_FIXED32"
      | "?l \<noteq> PB_LTYPE_FIXED32" "?l \<noteq> PB_LTYPE_FIXED64" by blast
    then show ?thesis
    proof cases
      case 1
      with items_fixed [of val 4 ?d count p, OF f32] x less show ?thesis by (simp add: sz_mul_def)
    next
      case 2
      with items_fixed [of val 8 ?d count p, OF f64] x less show ?thesis by (simp add: sz_mul_def)
    next
      case 3
      with imp x less show ?thesis by (simp add: adds_def PB_OSTREAM_SIZING_def sz_add_def)
    qed
  qed
  moreover have "\<exists>k. ?tot = Some (False, k)" if x: "?r = Fails"
  proof -
    have "?l \<noteq> PB_LTYPE_FIXED32" using items_fixed [of val 4 ?d count p, OF f32] x by auto
    moreover have "?l \<noteq> PB_LTYPE_FIXED64" using items_fixed [of val 8 ?d count p, OF f64] x by auto
    moreover have "\<exists>s'. encode_packed (func None) ?d count p (PB_OSTREAM_SIZING (null_state env)) = Some (False, s')"
      using imp x by (simp add: PB_OSTREAM_SIZING_def)
    ultimately show ?thesis by auto
  qed
  ultimately have sized: "implements (\<lambda>wr stream. case ?tot of
      None \<Rightarrow> None
    | Some (False, sz) \<Rightarrow> Some (False, stream)
    | Some (True, sz) \<Rightarrow>
        and_then (returns (pb_encode_varint wr (word_of_nat sz)))
          (if wr = None then returns (pb_write wr [] sz) else encode_packed (func wr) ?d count p) stream) (block ?r)"
    by (intro implements_sized_items [where val = val] f refl)
  have two: "(2 :: nat) < 8" by simp
  have wt: "PB_WT_STRING = word_of_nat 2" by (simp add: PB_WT_STRING_def)
  show ?thesis
    unfolding encode_array_def array_bytes_def Let_def wt
    by (intro implements_if implements_succeed implements_fails implements_and_then implements_tag [OF two] sized
        implements_unpacked [OF f])
qed

section \<open>Fields and messages\<close>

text \<open>The callbacks do on every stream what the reference says.\<close>

definition callbacks_ok :: "pb_callbacks \<Rightarrow> (u8 list \<times> nat) pb_env \<Rightarrow> bool" where
  "callbacks_ok c env \<longleftrightarrow>
     (\<forall>f field a. implements (\<lambda>wr. returns (encode_fun env f wr field a)) (cb c f field a)) \<and>
     (\<forall>f x. implements (\<lambda>wr. returns (extension_fun env f wr x)) (xb c f x))"

lemma value_fixed:
  "PB_LTYPE (f_type field) = PB_LTYPE_FIXED32 \<Longrightarrow> \<exists>y. value_bytes sub env field p = emit y \<and> length y = 4"
  "PB_LTYPE (f_type field) = PB_LTYPE_FIXED64 \<Longrightarrow> \<exists>y. value_bytes sub env field p = emit y \<and> length y = 8"
  unfolding value_bytes_def Let_def PB_LTYPE_FIXED32_def PB_LTYPE_FIXED64_def PB_LTYPE_BOOL_def PB_LTYPE_VARINT_def
    PB_LTYPE_UVARINT_def PB_LTYPE_SVARINT_def
  by (auto intro: length_fixed)

lemma implements_callback:
  assumes c: "callbacks_ok c env"
  shows "implements (\<lambda>wr. encode_callback_field env wr field p)
    (if read_ptr env p = 0 then Emits [] else cb c (read_ptr env p) field (p + 8))"
proof (cases "read_ptr env p = 0")
  case True
  have "encode_callback_field env wr field p = succeed" for wr
    using True by (simp add: fun_eq_iff encode_callback_field_def succeed_def)
  with True implements_succeed show ?thesis by (simp del: implements.simps)
next
  case False
  let ?g = "\<lambda>wr. encode_fun env (read_ptr env p) wr field (p + 8)"
  have imp: "implements (\<lambda>wr. returns (?g wr)) (cb c (read_ptr env p) field (p + 8))"
    using c by (simp add: callbacks_ok_def)
  have eq: "encode_callback_field env wr field p s =
      (case ?g wr s of (False, s) \<Rightarrow> Some (PB_RETURN_OERROR s ''callback error'') | (True, s) \<Rightarrow> Some (True, s))" for wr s
    using False by (simp add: encode_callback_field_def)
  have ref: "refused (encode_callback_field env (Some buf_write) field p) before behind s"
    if "refused (returns (?g (Some buf_write))) before behind s" for before behind s
    using that by (fastforce simp: refused_def returns_def eq PB_RETURN_OERROR_def)
  show ?thesis
  proof (cases "cb c (read_ptr env p) field (p + 8)")
    case Fails
    with imp ref False show ?thesis by (auto simp: eq returns_def PB_RETURN_OERROR_def)
  next
    case (Emits x)
    have "adds (encode_callback_field env None field p) (length x)"
      using imp unfolding Emits by (auto simp: adds_def eq returns_def)
    moreover have "writes (encode_callback_field env (Some buf_write) field p) x"
      unfolding writes_def
    proof (intro allI impI, elim conjE)
      fix before behind s w
      assume s: "obuf before behind s w" "max_size s < 2 ^ 63"
      from imp s have "if length w + length x \<le> max_size s
        then \<exists>s'. returns (?g (Some buf_write)) s = Some (True, s') \<and> obuf before behind s' (w @ x) \<and> max_size s' = max_size s
        else refused (returns (?g (Some buf_write))) before behind s"
        unfolding Emits writes_def implements.simps by blast
      then show "if length w + length x \<le> max_size s
        then \<exists>s'. encode_callback_field env (Some buf_write) field p s = Some (True, s') \<and>
          obuf before behind s' (w @ x) \<and> max_size s' = max_size s
        else refused (encode_callback_field env (Some buf_write) field p) before behind s"
        using ref by (auto simp: eq returns_def split: if_splits)
    qed
    ultimately show ?thesis using imp False Emits by simp
  qed (simp add: False)
qed

lemma implements_basic:
  assumes sub: "\<And>d src. implements (\<lambda>wr. sub wr d src) (subref d src)"
    and a: "PB_ATYPE (f_type field) = PB_ATYPE_STATIC \<or> PB_ATYPE (f_type field) = PB_ATYPE_POINTER"
  shows "implements (\<lambda>wr. encode_basic_field n sub env wr field p) (field_bytes n c subref env field p)"
proof -
  have nc: "PB_ATYPE (f_type field) \<noteq> PB_ATYPE_CALLBACK"
    using a by (auto simp: PB_ATYPE_STATIC_def PB_ATYPE_POINTER_def PB_ATYPE_CALLBACK_def)
  have na: "(PB_ATYPE (f_type field) \<noteq> PB_ATYPE_STATIC \<and> PB_ATYPE (f_type field) \<noteq> PB_ATYPE_POINTER) = False"
    using a by blast
  let ?h = "PB_HTYPE (f_type field)" and ?ps = "p + size_offset field"
  let ?p = "if PB_ATYPE (f_type field) = PB_ATYPE_POINTER then int (read_ptr env p) else p"
  let ?one = "\<lambda>wr. and_then (returns (pb_encode_tag_for_field wr field)) (PB_ENCODERS sub env wr field ?p)"
  note v = implements_value [where subref = subref, OF sub]
  note one = implements_and_then [OF implements_field_tag v [of env field ?p]]
  note h = PB_HTYPE_REQUIRED_def PB_HTYPE_OPTIONAL_def PB_HTYPE_REPEATED_def PB_HTYPE_ONEOF_def
  have h32: "PB_HTYPE_OPTIONAL \<noteq> PB_HTYPE_REQUIRED" "PB_HTYPE_REPEATED \<noteq> PB_HTYPE_REQUIRED"
    "PB_HTYPE_REPEATED \<noteq> PB_HTYPE_OPTIONAL" "PB_HTYPE_ONEOF \<noteq> PB_HTYPE_REQUIRED"
    "PB_HTYPE_ONEOF \<noteq> PB_HTYPE_OPTIONAL" "PB_HTYPE_ONEOF \<noteq> PB_HTYPE_REPEATED" by (simp_all add: h)
  consider "?h = PB_HTYPE_REQUIRED" | "?h = PB_HTYPE_OPTIONAL" "size_offset field \<noteq> 0"
    | "?h = PB_HTYPE_OPTIONAL" "size_offset field = 0" | "?h = PB_HTYPE_REPEATED" | "?h = PB_HTYPE_ONEOF"
    using htype_cases by blast
  then show ?thesis
  proof cases
    case 1
    then have "encode_basic_field n sub env wr field p = (if ?p = 0 then fails ''missing required field'' else ?one wr)" for wr
      by (simp add: encode_basic_field_def Let_def h)
    then show ?thesis using nc 1
      by (simp only: field_bytes_def Let_def na if_False if_True HOL.simp_thms cong: if_cong)
        (intro implements_if implements_fails one)
  next
    case 2
    then have "encode_basic_field n sub env wr field p = (if safe_read_bool (at env ?ps) then ?one wr else succeed)" for wr
      by (simp add: encode_basic_field_def Let_def h)
    then show ?thesis using nc 2
      by (simp only: field_bytes_def Let_def na if_False if_True HOL.simp_thms h32 cong: if_cong)
        (intro implements_if implements_succeed one)
  next
    case 3
    show ?thesis
    proof (cases "pb_check_proto3_default_value n env field p")
      case None
      with nc 3 show ?thesis
        by (simp only: field_bytes_def Let_def na if_False if_True HOL.simp_thms h32 option.case implements.simps cong: if_cong)
    next
      case (Some b)
      with 3 have "encode_basic_field n sub env wr field p =
          (if (if PB_ATYPE (f_type field) = PB_ATYPE_POINTER then ?p \<noteq> 0 else \<not> b) then ?one wr else succeed)" for wr
        by (simp add: encode_basic_field_def Let_def h)
      then show ?thesis using nc 3 Some
        by (simp only: field_bytes_def Let_def na if_False if_True HOL.simp_thms h32 option.case cong: if_cong)
          (intro implements_if implements_succeed one)
    qed
  next
    case 4
    then have "encode_basic_field n sub env wr field p =
        encode_array env wr field (\<lambda>wr. PB_ENCODERS sub env wr field)
          (if size_offset field \<noteq> 0 then read_size env ?ps else array_size field) ?p" for wr
      by (simp add: encode_basic_field_def Let_def h)
    then show ?thesis using nc 4
      by (simp only: field_bytes_def Let_def na if_False if_True HOL.simp_thms h32 cong: if_cong)
        (intro implements_array v value_fixed)
  next
    case 5
    then have "encode_basic_field n sub env wr field p =
        (if (if size_offset field \<noteq> 0 then read_size env ?ps
             else of_bool (if PB_ATYPE (f_type field) = PB_ATYPE_POINTER then ?p \<noteq> 0 else True)) = f_tag field
         then ?one wr else succeed)" for wr
      by (simp add: encode_basic_field_def Let_def h)
    then show ?thesis using nc 5
      by (simp only: field_bytes_def Let_def na if_False if_True HOL.simp_thms h32 cong: if_cong)
        (intro implements_if implements_succeed one)
  qed
qed

lemma implements_field:
  assumes sub: "\<And>d src. implements (\<lambda>wr. sub wr d src) (subref d src)" and c: "callbacks_ok c env"
  shows "implements (\<lambda>wr. encode_field n sub env wr field p) (field_bytes n c subref env field p)"
proof -
  note a = PB_ATYPE_STATIC_def PB_ATYPE_POINTER_def PB_ATYPE_CALLBACK_def
  consider "PB_ATYPE (f_type field) = PB_ATYPE_STATIC \<or> PB_ATYPE (f_type field) = PB_ATYPE_POINTER"
    | "PB_ATYPE (f_type field) = PB_ATYPE_CALLBACK"
    | "PB_ATYPE (f_type field) \<noteq> PB_ATYPE_STATIC" "PB_ATYPE (f_type field) \<noteq> PB_ATYPE_POINTER"
      "PB_ATYPE (f_type field) \<noteq> PB_ATYPE_CALLBACK" by blast
  then show ?thesis
  proof cases
    case 1
    then have "encode_field n sub env wr field p = encode_basic_field n sub env wr field p" for wr
      by (simp add: encode_field_def Let_def)
    with implements_basic [where sub = sub and subref = subref, OF sub 1] show ?thesis by simp
  next
    case 2
    then have "encode_field n sub env wr field p = encode_callback_field env wr field p" for wr
      by (simp add: encode_field_def Let_def a)
    moreover have "field_bytes n c subref env field p = (if read_ptr env p = 0 then Emits [] else cb c (read_ptr env p) field (p + 8))"
      using 2 by (simp add: field_bytes_def Let_def)
    ultimately show ?thesis using implements_callback [OF c] by simp
  next
    case 3
    then have "encode_field n sub env wr field p = fails ''invalid field type''" for wr
      by (simp add: encode_field_def Let_def)
    moreover have "field_bytes n c subref env field p = Fails" using 3 by (simp add: field_bytes_def Let_def)
    ultimately show ?thesis using implements_fails [of "''invalid field type''"] by (simp del: implements.simps)
  qed
qed

lemma implements_extensions:
  assumes sub: "\<And>d src. implements (\<lambda>wr. sub wr d src) (subref d src)" and c: "callbacks_ok c env"
  shows "implements (\<lambda>wr. encode_extensions k n sub env wr x) (extension_bytes k n c subref env x)"
proof (induction k arbitrary: x)
  case 0
  show ?case using implements_succeed by (simp del: implements.simps(3))
next
  case (Suc k)
  let ?t = "int (read_ptr env (int x))"
  let ?field = "descs env (read_ptr env (?t + 16)) ! 0"
  let ?p = "if PB_ATYPE (f_type ?field) = PB_ATYPE_POINTER then int x + 8 else int (read_ptr env (int x + 8))"
  have dflt: "default_extension_encoder n sub env wr x = encode_field n sub env wr ?field ?p" for wr
    by (simp add: default_extension_encoder_def Let_def)
  have ext: "implements (\<lambda>wr. returns (extension_fun env f wr x)) (xb c f x)" for f
    using c by (simp add: callbacks_ok_def)
  show ?case
    unfolding encode_extensions.simps extension_bytes.simps Let_def dflt
    by (intro implements_if implements_succeed implements_and_then ext Suc
        implements_field [where subref = subref, OF sub c])
qed

lemma implements_fields:
  assumes "\<And>field p. implements (\<lambda>wr. f wr field p) (r field p)"
  shows "implements (\<lambda>wr. encode_fields (f wr) src k iter) (message_fields r src k iter)"
proof (induction k arbitrary: iter)
  case (Suc k)
  have "implements (\<lambda>wr. case pb_field_iter_next iter of (again, iter) \<Rightarrow> if again then encode_fields (f wr) src k iter else succeed)
      (case pb_field_iter_next iter of (again, iter) \<Rightarrow> if again then message_fields r src k iter else Emits [])"
    by (cases "pb_field_iter_next iter") (simp only: prod.case, intro implements_if Suc implements_succeed)
  from implements_and_then [OF assms this] show ?case by simp
qed simp

text \<open>The encoder writes the message, on a buffer and on a sizing stream.\<close>

lemma implements_message:
  assumes c: "callbacks_ok c env"
  shows "implements (\<lambda>wr. pb_encode n env wr desc src) (message_bytes n c env desc src)"
proof (induction n arbitrary: desc src)
  case (Suc n)
  note sub = Suc
  have each: "implements (\<lambda>wr. if PB_LTYPE (f_type field) = PB_LTYPE_EXTENSION
        then encode_extension_field n (pb_encode n env) env wr p else encode_field n (pb_encode n env) env wr field p)
      (if PB_LTYPE (f_type field) = PB_LTYPE_EXTENSION
       then extension_bytes n n c (message_bytes n c env) env (read_ptr env p)
       else field_bytes n c (message_bytes n c env) env field p)" for field p
    unfolding encode_extension_field_def
    by (intro implements_if implements_extensions implements_field sub c)
  consider (some) iter where "pb_field_iter_begin (descs env desc) = (True, iter)"
    | (none) iter where "pb_field_iter_begin (descs env desc) = (False, iter)"
    by (metis (full_types) surj_pair)
  then show ?case
  proof cases
    case some
    show ?thesis
      unfolding pb_encode.simps message_bytes.simps some prod.case fst_conv snd_conv bool.case if_True
      by (rule implements_fields) (rule each)
  next
    case none
    show ?thesis
      unfolding pb_encode.simps message_bytes.simps none prod.case fst_conv snd_conv bool.case if_False
      by (rule implements_succeed)
  qed
qed simp

end
