(* ===== verification/Pb_Encode_Total.thy ===== *)
theory Pb_Encode_Total
  imports Pb_Encode
begin

text \<open>
  The encoder returns: with descriptors that have no extension fields and do not contain
  themselves, a fuel above the depth of their nesting is enough, on any memory and any stream.
\<close>

text \<open>\<open>rank\<close> bounds the nesting of a descriptor array: each of its fields has a type of the
  table other than that of extensions, whose lists are in memory, and a submessage field points to descriptors of smaller rank.\<close>

definition well_nested :: "'s pb_env \<Rightarrow> (nat \<Rightarrow> nat) \<Rightarrow> bool" where
  "well_nested env rank \<longleftrightarrow>
     (\<forall>desc. \<exists>fs. descriptors (descs env desc) fs \<and>
        (\<forall>f \<in> set fs. PB_LTYPE (f_type f) \<le> PB_LTYPE_FIXED_LENGTH_BYTES \<and> PB_LTYPE (f_type f) \<noteq> PB_LTYPE_EXTENSION \<and>
           (PB_LTYPE (f_type f) = PB_LTYPE_SUBMESSAGE \<longrightarrow> rank (f_ptr f) < rank desc)))"

lemma always_fails [always_intros]: "always (fails msg)"
  by (simp add: always_def fails_def)

lemma always_packed [always_intros]: "(\<And>p. always (func p)) \<Longrightarrow> always (encode_packed func dsize n p)"
  by (induction n arbitrary: p) (auto intro: always_intros)

lemma always_unpacked [always_intros]: "(\<And>p. always (func p)) \<Longrightarrow> always (encode_unpacked env wr field func n p)"
  by (induction n arbitrary: p) (auto intro!: always_intros)

lemma always_sized [always_intros]:
  "tot \<noteq> None \<Longrightarrow> (\<And>sz. always (g sz)) \<Longrightarrow>
     always (\<lambda>stream. case tot of None \<Rightarrow> None | Some (False, sz) \<Rightarrow> Some (False, stream) | Some (True, sz) \<Rightarrow> g sz stream)"
  by (auto simp: always_def split: bool.split)

lemma always_array [always_intros]:
  assumes f: "\<And>wr p. always (func wr p)"
  shows "always (encode_array env wr field func count p)"
proof -
  have "encode_packed (func None) (data_size field) count p s \<noteq> None" for s
    using always_packed [OF f] by (simp add: always_def)
  then show ?thesis
    unfolding encode_array_def Let_def by (intro always_intros f) auto
qed

lemma always_submessage [always_intros]:
  assumes sub: "\<And>wr. always (sub wr d src)"
  shows "always (pb_encode_submessage sub env wr d src)"
proof -
  have ok: "sub wr d src s \<noteq> None" for wr s using sub by (simp add: always_def)
  have "encode_sized sub wr d src sz s \<noteq> None" for sz s
    using ok [of wr "\<lparr>os_state = os_state s, max_size = sz, bytes_written = 0, os_errmsg = None\<rparr>"]
    by (auto simp: encode_sized_def Let_def split: option.split prod.split)
  then have "always (encode_sized sub wr d src sz)" for sz by (simp add: always_def)
  from always_and_then [OF always_simple(2) this]
  have "and_then (returns f) (encode_sized sub wr d src sz) s \<noteq> None" for f sz s by (simp add: always_def)
  with ok [of None "PB_OSTREAM_SIZING (null_state env)"] show ?thesis
    by (auto simp: always_def pb_encode_submessage_def split: option.split prod.split bool.split)
qed

text \<open>The types of the table.\<close>

lemma always_value:
  assumes sub: "\<And>wr src. f_ptr field \<noteq> 0 \<Longrightarrow> PB_LTYPE (f_type field) = PB_LTYPE_SUBMESSAGE \<Longrightarrow> always (sub wr (f_ptr field) src)"
    and l: "PB_LTYPE (f_type field) \<le> PB_LTYPE_FIXED_LENGTH_BYTES" "PB_LTYPE (f_type field) \<noteq> PB_LTYPE_EXTENSION"
  shows "always (PB_ENCODERS sub env wr field src)"
proof -
  have cases: "l \<in> {0, 1, 2, 3, 4, 5, 6, 7, 8, 10}" if "l \<le> 10" "l \<noteq> 9" for l :: u8
  proof -
    have "unat l \<le> 10" "unat l \<noteq> 9" using that by (simp_all add: word_le_nat_alt word_unat_eq_iff)
    then have "unat l \<in> {0, 1, 2, 3, 4, 5, 6, 7, 8, 10}" unfolding insert_iff empty_iff by arith
    then show ?thesis by (simp add: word_unat_eq_iff)
  qed
  note defs = PB_LTYPE_BOOL_def PB_LTYPE_VARINT_def PB_LTYPE_UVARINT_def PB_LTYPE_SVARINT_def PB_LTYPE_FIXED32_def
    PB_LTYPE_FIXED64_def PB_LTYPE_BYTES_def PB_LTYPE_STRING_def PB_LTYPE_SUBMESSAGE_def PB_LTYPE_FIXED_LENGTH_BYTES_def
    PB_LTYPE_EXTENSION_def
  have "PB_LTYPE (f_type field) \<in> {0, 1, 2, 3, 4, 5, 6, 7, 8, 10}"
    using cases [of "PB_LTYPE (f_type field)"] l by (simp add: defs)
  with sub show ?thesis
    unfolding PB_ENCODERS_def pb_enc_submessage_def Let_def defs
    by (intro always_intros) auto
qed

section \<open>Loops over the fields\<close>

lemma always_fields:
  assumes d: "descriptors ds fs" and f: "\<And>f p. f \<in> set fs \<Longrightarrow> always (g f p)"
  shows "i < length fs \<Longrightarrow> length fs \<le> i + k \<Longrightarrow> always (encode_fields g src k (iter_state ds i))"
proof (induction k arbitrary: i)
  case (Suc k)
  have "fs ! i \<in> set fs" using Suc.prems by simp
  moreover have "always (if Suc i < length fs then encode_fields g src k (iter_state ds (Suc i mod length fs)) else succeed)"
    using Suc.IH [of "Suc i"] Suc.prems by (intro always_intros) simp_all
  ultimately show ?case
    using Suc.prems f by (simp add: iter_next_state [OF d] field_at_state [OF d] always_and_then)
qed simp

lemma all_default_returns:
  assumes d: "descriptors ds fs" and f: "\<forall>f \<in> set fs. \<forall>p. g f p \<noteq> None"
  shows "i < length fs \<Longrightarrow> length fs \<le> i + k \<Longrightarrow> all_default g src k (iter_state ds i) \<noteq> None"
proof (induction k arbitrary: i)
  case (Suc k)
  have "fs ! i \<in> set fs" using Suc.prems by simp
  with f obtain b where b: "g (fs ! i) (src + it_pData (iter_state ds i)) = Some b" by blast
  note step = iter_next_state [OF d Suc.prems(1)] field_at_state [OF d Suc.prems(1)]
  show ?case
  proof (cases "b \<and> Suc i < length fs")
    case True
    then have "all_default g src k (iter_state ds (Suc i)) \<noteq> None" using Suc.prems(2) by (intro Suc.IH) simp_all
    with True b show ?thesis by (simp add: step)
  next
    case False
    with b show ?thesis by (auto simp: step split: bool.split)
  qed
qed simp

lemma check_default_returns:
  assumes "PB_LTYPE (f_type field) = PB_LTYPE_SUBMESSAGE \<Longrightarrow> sub (f_ptr field) p \<noteq> None"
  shows "check_default sub env field p \<noteq> None"
  unfolding check_default_def Let_def by (intro if_not_None option.distinct(2) assms) simp

lemma proto3_default_returns:
  assumes w: "well_nested env rank"
  shows "0 < n \<Longrightarrow> (PB_LTYPE (f_type field) = PB_LTYPE_SUBMESSAGE \<Longrightarrow> Suc (rank (f_ptr field)) < n) \<Longrightarrow>
    pb_check_proto3_default_value n env field p \<noteq> None"
proof (induction n arbitrary: field p)
  case (Suc n)
  have "(case pb_field_iter_begin (descs env (f_ptr field)) of
      (False, iter) \<Rightarrow> Some True
    | (True, iter) \<Rightarrow> all_default (pb_check_proto3_default_value n env) src (length (descs env (f_ptr field))) iter) \<noteq> None"
    if l: "PB_LTYPE (f_type field) = PB_LTYPE_SUBMESSAGE" for src
  proof -
    from w obtain fs where d: "descriptors (descs env (f_ptr field)) fs"
      and fs: "\<forall>f \<in> set fs. PB_LTYPE (f_type f) = PB_LTYPE_SUBMESSAGE \<longrightarrow> rank (f_ptr f) < rank (f_ptr field)"
      unfolding well_nested_def by blast
    have n: "rank (f_ptr field) < n" using Suc.prems(2) [OF l] by simp
    have "\<forall>f \<in> set fs. \<forall>p. pb_check_proto3_default_value n env f p \<noteq> None"
      using fs n by (intro ballI allI Suc.IH) auto
    note loop = all_default_returns [OF d this]
    show ?thesis
    proof (cases "fs = []")
      case True
      then show ?thesis unfolding begin_descriptors [OF d] by simp
    next
      case False
      with loop [of 0 "length (descs env (f_ptr field))" src] descriptors_nth(4) [OF d] show ?thesis
        unfolding begin_descriptors [OF d] by simp
    qed
  qed
  then show ?case unfolding pb_check_proto3_default_value.simps by (rule check_default_returns)
qed simp

section \<open>Messages\<close>

lemma always_field:
  assumes w: "well_nested env rank" and n: "0 < n"
    and sub: "\<And>wr src. f_ptr field \<noteq> 0 \<Longrightarrow> PB_LTYPE (f_type field) = PB_LTYPE_SUBMESSAGE \<Longrightarrow> always (sub wr (f_ptr field) src)"
    and l: "PB_LTYPE (f_type field) \<le> PB_LTYPE_FIXED_LENGTH_BYTES" "PB_LTYPE (f_type field) \<noteq> PB_LTYPE_EXTENSION"
    and r: "PB_LTYPE (f_type field) = PB_LTYPE_SUBMESSAGE \<Longrightarrow> Suc (rank (f_ptr field)) < n"
  shows "always (encode_field n sub env wr field p)"
proof -
  note v = always_value [of field sub, OF sub l]
  have "pb_check_proto3_default_value n env field p \<noteq> None" by (rule proto3_default_returns [OF w n r])
  then have "(if size_offset field \<noteq> 0 then Some False
      else if PB_HTYPE (f_type field) = PB_HTYPE_OPTIONAL then map_option Not (pb_check_proto3_default_value n env field p)
      else Some True) \<noteq> None" by auto
  then obtain implicit where i: "(if size_offset field \<noteq> 0 then Some False
      else if PB_HTYPE (f_type field) = PB_HTYPE_OPTIONAL then map_option Not (pb_check_proto3_default_value n env field p)
      else Some True) = Some implicit" by blast
  have "always (encode_basic_field n sub env wr field p)"
    unfolding encode_basic_field_def Let_def i option.case by (intro always_intros v)
  moreover have "always (encode_callback_field env wr field p)"
    by (auto simp: always_def encode_callback_field_def Let_def split: prod.split bool.split)
  ultimately show ?thesis
    unfolding encode_field_def Let_def by (intro always_intros)
qed

text \<open>A fuel of the rank and two more is enough.\<close>

lemma pb_encode_always:
  assumes w: "well_nested env rank"
  shows "rank desc + 2 \<le> n \<Longrightarrow> always (pb_encode n env wr desc src)"
proof (induction n arbitrary: wr desc src)
  case (Suc n)
  from w obtain fs where d: "descriptors (descs env desc) fs"
    and fs: "\<forall>f \<in> set fs. PB_LTYPE (f_type f) \<le> PB_LTYPE_FIXED_LENGTH_BYTES \<and> PB_LTYPE (f_type f) \<noteq> PB_LTYPE_EXTENSION \<and>
      (PB_LTYPE (f_type f) = PB_LTYPE_SUBMESSAGE \<longrightarrow> rank (f_ptr f) < rank desc)"
    unfolding well_nested_def by blast
  let ?g = "\<lambda>field p. if PB_LTYPE (f_type field) = PB_LTYPE_EXTENSION
      then encode_extension_field n (pb_encode n env) env wr p else encode_field n (pb_encode n env) env wr field p"
  have g: "always (?g f p)" if "f \<in> set fs" for f p
  proof -
    have "always (encode_field n (pb_encode n env) env wr f p)"
      using fs that Suc.prems by (intro always_field [OF w] Suc.IH) auto
    with fs that show ?thesis by simp
  qed
  show ?case
  proof (cases "fs = []")
    case True
    then show ?thesis unfolding pb_encode.simps begin_descriptors [OF d] by (simp add: always_simple)
  next
    case False
    then show ?thesis
      unfolding pb_encode.simps begin_descriptors [OF d] prod.case
      using always_fields [OF d, of ?g 0 "length (descs env desc)" src] g descriptors_nth(4) [OF d] by simp
  qed
qed simp

end
