(* ===== verification/Pb_Message_Props.thy ===== *)
theory Pb_Message_Props
  imports Pb_Refine Pb_Encode_Total
begin

text \<open>
  What nanopb promises of whole messages. \<open>message_bytes\<close> is the message on the wire, computed
  in one pass from the structure in memory.
\<close>

text \<open>C16: The encoder writes the message: on every buffer \<open>pb_encode\<close> appends exactly the bytes
  of the reference, if they fit, and returns true; otherwise it returns false. In both cases
  the memory around the buffer is as it was.\<close>

theorem pb_encode_refines:
  assumes "callbacks_ok c env" and "message_bytes n c env desc src = Emits x"
    and "obuf before behind s w" and "max_size s < 2 ^ 63"
  shows "if length w + length x \<le> max_size s
    then \<exists>s'. pb_encode n env (Some buf_write) desc src s = Some (True, s') \<and> obuf before behind s' (w @ x)
    else \<exists>s' w'. pb_encode n env (Some buf_write) desc src s = Some (False, s') \<and> obuf before behind s' w'"
proof -
  have "writes (pb_encode n env (Some buf_write) desc src) x"
    using implements_message [OF assms(1), of n desc src] unfolding assms(2) implements.simps by blast
  with assms(3,4) show ?thesis unfolding writes_def refused_def by (cases "length w + length x \<le> max_size s") metis+
qed

text \<open>A message with a number, a nested message with a string and a packed array.\<close>

definition plain_field :: pb_field where
  "plain_field = \<lparr>f_tag = 1, f_type = 0x02, data_offset = 0, size_offset = 0, data_size = 4, array_size = 0, f_ptr = 0\<rparr>"

definition sample_env :: "(u8 list \<times> nat) pb_env" where
  "sample_env = \<lparr>
     mem = replicate 8 0 @ [150, 0, 0, 0, 1, 0, 0, 0, 104, 105, 0, 0, 2, 0, 0, 0, 1, 0, 0, 0, 2, 0, 0, 0],
     descs = (\<lambda>a.
       if a = 1 then [plain_field,
         plain_field\<lparr>f_tag := 2, f_type := 0x18, data_offset := 4, size_offset := -4, f_ptr := 2\<rparr>,
         plain_field\<lparr>f_tag := 3, f_type := 0x24, data_offset := 4, size_offset := -4, array_size := 2\<rparr>,
         plain_field\<lparr>f_tag := 0\<rparr>]
       else if a = 2 then [plain_field\<lparr>f_type := 0x17\<rparr>, plain_field\<lparr>f_tag := 0\<rparr>]
       else [plain_field\<lparr>f_tag := 0\<rparr>]),
     encode_fun = (\<lambda>f wr field a s. (False, s)), extension_fun = (\<lambda>f wr x s. (False, s)),
     null_state = ([], 0)\<rparr>"

definition no_callbacks :: pb_callbacks where
  "no_callbacks = \<lparr>cb = \<lambda>f field a. Fails, xb = \<lambda>f x. Fails\<rparr>"

lemma sample_callbacks: "callbacks_ok no_callbacks sample_env"
  by (auto simp: callbacks_ok_def no_callbacks_def sample_env_def refused_def returns_def)

lemmas pb_types = PB_LTYPE_def PB_HTYPE_def PB_ATYPE_def PB_LTYPE_BOOL_def PB_LTYPE_VARINT_def PB_LTYPE_UVARINT_def
  PB_LTYPE_SVARINT_def PB_LTYPE_FIXED32_def PB_LTYPE_FIXED64_def PB_LTYPE_BYTES_def PB_LTYPE_STRING_def
  PB_LTYPE_SUBMESSAGE_def PB_LTYPE_EXTENSION_def PB_LTYPE_FIXED_LENGTH_BYTES_def PB_LTYPE_LAST_PACKABLE_def
  PB_HTYPE_REQUIRED_def PB_HTYPE_OPTIONAL_def PB_HTYPE_REPEATED_def PB_HTYPE_ONEOF_def
  PB_ATYPE_STATIC_def PB_ATYPE_POINTER_def PB_ATYPE_CALLBACK_def

lemma varint_small: "n < 128 \<Longrightarrow> varint n = [word_of_nat n]"
  by (subst varint.simps) simp

lemma string_size_numeral:
  "string_size (b # p) (numeral k) = (if b \<noteq> 0 then Suc (string_size p (pred_numeral k)) else 0)"
  by (simp add: numeral_eq_Suc)

lemma items_numeral:
  "items val dsize (numeral k) p = cat (val p) (items val dsize (pred_numeral k) (p + int dsize))"
  by (simp add: numeral_eq_Suc)

lemma varint_150: "varint 150 = [0x96, 1]"
  by (subst varint.simps) (simp add: varint_small)

lemmas message_eval = pb_field_iter_begin_def pb_field_iter_next_def prev_size_def field_at_def Let_def
    field_bytes_def check_default_def pb_types value_bytes_def field_tag_def wiretype_of_def tag_bytes_def
    at_def read_size_def varint_small varint_150 emit_def string_value_def string_size_numeral items_numeral
    array_bytes_def safe_read_bool_def le_nat_def be_nat_def fixed32_def

lemmas sample_eval = plain_field_def message_eval number_def
  arg_cong [where f = mem, OF sample_env_def, simplified] arg_cong [where f = descs, OF sample_env_def, simplified]

lemma sample_message_2: "message_bytes (Suc (Suc 0)) no_callbacks sample_env 2 16 = Emits [0x0A, 2, 104, 105]"
  by (simp add: sample_eval)

lemma sample_message:
  "message_bytes 3 no_callbacks sample_env 1 8 =
     Emits [0x08, 0x96, 1, 0x12, 4, 0x0A, 2, 104, 105, 0x1A, 8, 1, 0, 0, 0, 2, 0, 0, 0]"
  unfolding numeral_3_eq_3 message_bytes.simps(2) [of "Suc (Suc 0)"]
  by (simp add: sample_message_2 sample_eval del: message_bytes.simps)

theorem pb_encode_refines_witness:
  "\<exists>s'. pb_encode 3 sample_env (Some buf_write) 1 8 (pb_ostream_from_buffer (replicate 20 0) 20) = Some (True, s') \<and>
     obuf [] [] s' [0x08, 0x96, 1, 0x12, 4, 0x0A, 2, 104, 105, 0x1A, 8, 1, 0, 0, 0, 2, 0, 0, 0]"
proof -
  have "obuf [] [] (pb_ostream_from_buffer (replicate 20 0) 20) []" "max_size (pb_ostream_from_buffer (replicate 20 0) 20) = 20"
    using obuf_from_buffer [of "replicate 20 0" "[]"] by (simp_all add: pb_ostream_from_buffer_def)
  with pb_encode_refines [OF sample_callbacks sample_message this(1)] show ?thesis by simp
qed

text \<open>C33: The size \<open>pb_get_encoded_size\<close> computes is the length of the message the encoder writes,
  and it fails exactly if the message cannot be encoded: its memory lacks a required field, has
  more items than an array can hold, or is refused by a callback.\<close>

theorem pb_encoded_size_exact:
  assumes "callbacks_ok c env" and "message_bytes n c env desc src \<noteq> Unclear"
  shows "pb_get_encoded_size n env desc src =
    Some (case message_bytes n c env desc src of Emits x \<Rightarrow> Some (length x) | _ \<Rightarrow> None)"
proof -
  note i = implements_message [OF assms(1), of n desc src]
  show ?thesis
  proof (cases "message_bytes n c env desc src")
    case Fails
    with i have "\<exists>s'. pb_encode n env None desc src (PB_OSTREAM_SIZING (null_state env)) = Some (False, s')"
      by (simp add: PB_OSTREAM_SIZING_def)
    then obtain s' where "pb_encode n env None desc src (PB_OSTREAM_SIZING (null_state env)) = Some (False, s')" ..
    with Fails show ?thesis by (simp add: pb_get_encoded_size_def)
  next
    case (Emits x)
    with i have "adds (pb_encode n env None desc src) (length x)" and "length x < 2 ^ 63" by simp_all
    then have "pb_encode n env None desc src (PB_OSTREAM_SIZING (null_state env)) =
        Some (True, (PB_OSTREAM_SIZING (null_state env))\<lparr>bytes_written := length x\<rparr>)"
      by (simp add: adds_def PB_OSTREAM_SIZING_def sz_add_def)
    with Emits show ?thesis by (simp add: pb_get_encoded_size_def)
  qed (use assms(2) in simp)
qed

theorem pb_encoded_size_exact_witness: "pb_get_encoded_size 3 sample_env 1 8 = Some (Some 19)"
  using pb_encoded_size_exact [OF sample_callbacks, of 3 1 8] unfolding sample_message by simp

text \<open>C34: With descriptors that have no extension fields and do not contain themselves,
  \<open>pb_encode\<close> returns, with enough fuel for the nesting of the descriptors, whatever the memory
  holds and whatever stream it writes to, errors included. (An extension field is a linked
  list in the memory of the message; if the list is cyclic the code does not return.)\<close>

theorem pb_encode_terminates:
  assumes "well_nested env rank" and "rank desc + 2 \<le> n"
  shows "\<exists>ok stream'. pb_encode n env wr desc src stream = Some (ok, stream')"
  using pb_encode_always [OF assms, of wr src] unfolding always_def by auto

lemma sample_nested: "well_nested sample_env (\<lambda>a. of_bool (a = 1))"
proof -
  have "\<exists>fs. descriptors (descs sample_env desc) fs \<and>
        (\<forall>f \<in> set fs. PB_LTYPE (f_type f) \<le> PB_LTYPE_FIXED_LENGTH_BYTES \<and> PB_LTYPE (f_type f) \<noteq> PB_LTYPE_EXTENSION \<and>
           (PB_LTYPE (f_type f) = PB_LTYPE_SUBMESSAGE \<longrightarrow> of_bool (f_ptr f = 1) < (of_bool (desc = 1) :: nat)))" for desc
    by (rule exI [of _ "butlast (descs sample_env desc)"]) (simp add: descriptors_def sample_eval)
  then show ?thesis unfolding well_nested_def by blast
qed

theorem pb_encode_terminates_witness:
  "\<exists>ok stream'. pb_encode 3 sample_env (Some buf_write) 1 8 (pb_ostream_from_buffer [0] 1) = Some (ok, stream')"
  by (rule pb_encode_terminates [OF sample_nested]) simp

end
