(* ===== verification/Pb_Decode.thy ===== *)
theory Pb_Decode
  imports Pb_Read Pb_Write Pb_Iter Pb_Run
begin

text \<open>
  Decoding a whole message (\<open>nanopb/pb_decode.c\<close>). The program's memory is a list of bytes, an
  address a position in it, NULL the address 0; pointers are stored in eight bytes,
  \<open>pb_size_t\<close> in four, \<open>bool\<close> in one. Descriptor arrays, the callback functions and the
  allocator are parameters, the functions called by their addresses; the allocator keeps its
  data in the memory.
\<close>

section \<open>Memory and streams\<close>

definition load :: "nat \<Rightarrow> u8 list \<Rightarrow> int \<Rightarrow> nat" where
  "load n m a = le_nat (take n (drop (nat a) m))"

definition le_bytes :: "nat \<Rightarrow> nat \<Rightarrow> u8 list" where
  "le_bytes n v = rev (be_bytes n v)"

definition store :: "int \<Rightarrow> u8 list \<Rightarrow> u8 list \<Rightarrow> u8 list" where
  "store a bs m = mem_write (nat a) bs m"

text \<open>The memory, the local variable \<open>fixed_count_size\<close> of the innermost \<open>pb_decode_noinit\<close>, and
  its stream.\<close>

record 's dstate =
  dmem :: "u8 list"
  fixed_count_size :: nat
  inp :: "'s istream"

type_synonym 's dec = "'s dstate run"

text \<open>A callback is given a stream of the message's kind or one from a buffer.\<close>

record 's pb_denv =
  fields_at :: "nat \<Rightarrow> pb_field list"
  d_source :: "'s source"
  decode_fun :: "nat \<Rightarrow> pb_field \<Rightarrow> int \<Rightarrow> 's dstate \<Rightarrow> bool \<times> 's dstate"
  decode_buf_fun :: "nat \<Rightarrow> pb_field \<Rightarrow> int \<Rightarrow> u8 list dstate \<Rightarrow> bool \<times> u8 list dstate"
  ext_decode_fun :: "nat \<Rightarrow> nat \<Rightarrow> u32 \<Rightarrow> u32 \<Rightarrow> 's dstate \<Rightarrow> bool \<times> 's dstate"
  pb_realloc :: "nat \<Rightarrow> nat \<Rightarrow> u8 list \<Rightarrow> nat \<times> u8 list"
  pb_free :: "nat \<Rightarrow> u8 list \<Rightarrow> u8 list"

definition d_fails :: "string \<Rightarrow> 's dec" where
  "d_fails msg st = Some (False, st\<lparr>inp := snd (PB_RETURN_ERROR (inp st) msg :: unit option \<times> _)\<rparr>)"

text \<open>\<open>if (!r(stream, &v)) return false;\<close> and then \<open>g v\<close>.\<close>

definition reading :: "('s istream \<Rightarrow> 'a option \<times> 's istream) \<Rightarrow> ('a \<Rightarrow> 's dec) \<Rightarrow> 's dec" where
  "reading r g st =
     (case r (inp st) of
        (None, s) \<Rightarrow> Some (False, st\<lparr>inp := s\<rparr>)
      | (Some v, s) \<Rightarrow> g v (st\<lparr>inp := s\<rparr>))"

definition storing :: "int \<Rightarrow> u8 list \<Rightarrow> 's dec \<Rightarrow> 's dec" where
  "storing a bs g st = g (st\<lparr>dmem := store a bs (dmem st)\<rparr>)"

text \<open>An operation on the memory that always succeeds, if it returns.\<close>

definition on_mem :: "(u8 list \<Rightarrow> u8 list option) \<Rightarrow> 's dec" where
  "on_mem f st = map_option (\<lambda>m. (True, st\<lparr>dmem := m\<rparr>)) (f (dmem st))"

text \<open>A substream and its end; \<open>parent\<close> is the stream it was taken from.\<close>

definition open_sub :: "'s pb_denv \<Rightarrow> ('s istream \<Rightarrow> 's dec) \<Rightarrow> 's dec" where
  "open_sub env body st =
     (case pb_make_string_substream (d_source env) (inp st) of
        (None, s) \<Rightarrow> Some (False, st\<lparr>inp := s\<rparr>)
      | (Some sub, s) \<Rightarrow> body s (st\<lparr>inp := sub\<rparr>))"

definition close_sub :: "'s pb_denv \<Rightarrow> 's istream \<Rightarrow> bool \<Rightarrow> 's dec" where
  "close_sub env parent status st =
     (case pb_close_string_substream (d_source env) (inp st) parent of
        (None, s) \<Rightarrow> Some (False, st\<lparr>inp := s\<rparr>)
      | (Some _, s) \<Rightarrow> Some (status, st\<lparr>inp := s\<rparr>))"

section \<open>Extensions as fields\<close>

text \<open>The iterator of an extension and the address its offsets count from. A \<open>pb_extension_t\<close>
  is the words \<open>type\<close>, \<open>dest\<close> and \<open>next\<close> and the flag \<open>found\<close>, its type the words \<open>decode\<close>,
  \<open>encode\<close> and \<open>arg\<close>.\<close>

definition iter_from_extension :: "'s pb_denv \<Rightarrow> u8 list \<Rightarrow> nat \<Rightarrow> int \<times> pb_field_iter" where
  "iter_from_extension env m x =
     (let iter = snd (pb_field_iter_begin (fields_at env (load 8 m (int (load 8 m (int x)) + 16))));
          dest = int (load 8 m (int x + 8));
          pData = (if PB_ATYPE (f_type (field_at iter)) = PB_ATYPE_POINTER then int x + 8 else dest)
      in (dest, iter\<lparr>it_pData := pData - dest, it_pSize := int x + 24 - dest\<rparr>))"

section \<open>Default values\<close>

definition field_default ::
  "(nat \<Rightarrow> int \<Rightarrow> u8 list \<Rightarrow> u8 list option) \<Rightarrow> (nat \<Rightarrow> u8 list \<Rightarrow> u8 list option) \<Rightarrow>
     pb_field \<Rightarrow> int \<Rightarrow> int \<Rightarrow> u8 list \<Rightarrow> u8 list option" where
  "field_default sub exts field pData pSize m =
     (let h = PB_HTYPE (f_type field); l = PB_LTYPE (f_type field); a = PB_ATYPE (f_type field)
      in if l = PB_LTYPE_EXTENSION then exts (load 8 m pData) m
         else if a = PB_ATYPE_STATIC then
           (if h = PB_HTYPE_REPEATED \<or> h = PB_HTYPE_ONEOF then Some (store pSize (le_bytes 4 0) m)
            else
              let m = (if h = PB_HTYPE_OPTIONAL \<and> pSize \<noteq> pData then store pSize [0] m else m)
              in if l = PB_LTYPE_SUBMESSAGE then sub (f_ptr field) pData m
                 else if f_ptr field \<noteq> 0
                 then Some (store pData (take (data_size field) (drop (f_ptr field) m)) m)
                 else Some (store pData (replicate (data_size field) 0) m))
         else if a = PB_ATYPE_POINTER then
           (let m = store pData (le_bytes 8 0) m
            in Some (if h = PB_HTYPE_REPEATED \<or> h = PB_HTYPE_ONEOF then store pSize (le_bytes 4 0) m else m))
         else Some m)"

text \<open>The linked list of extensions; \<open>k\<close> bounds its length.\<close>

fun extension_defaults ::
  "(int \<Rightarrow> pb_field_iter \<Rightarrow> u8 list \<Rightarrow> u8 list option) \<Rightarrow> 's pb_denv \<Rightarrow> nat \<Rightarrow> nat \<Rightarrow> u8 list \<Rightarrow> u8 list option" where
  "extension_defaults f env 0 x m = (if x = 0 then Some m else None)"
| "extension_defaults f env (Suc k) x m =
     (if x = 0 then Some m
      else
        let m = store (int x + 24) [0] m
        in case iter_from_extension env m x of
             (dest, iter) \<Rightarrow>
               (case f dest iter m of
                  None \<Rightarrow> None
                | Some m \<Rightarrow> extension_defaults f env k (load 8 m (int x + 16)) m))"

text \<open>A loop over all fields of a message.\<close>

fun each_field ::
  "(int \<Rightarrow> pb_field_iter \<Rightarrow> u8 list \<Rightarrow> u8 list option) \<Rightarrow> int \<Rightarrow> nat \<Rightarrow> pb_field_iter \<Rightarrow> u8 list \<Rightarrow> u8 list option" where
  "each_field f dest 0 iter m = None"
| "each_field f dest (Suc k) iter m =
     (case f dest iter m of
        None \<Rightarrow> None
      | Some m \<Rightarrow>
          (case pb_field_iter_next iter of
             (again, iter) \<Rightarrow> if again then each_field f dest k iter m else Some m))"

definition each_of_message ::
  "(int \<Rightarrow> pb_field_iter \<Rightarrow> u8 list \<Rightarrow> u8 list option) \<Rightarrow> 's pb_denv \<Rightarrow> nat \<Rightarrow> int \<Rightarrow> u8 list \<Rightarrow> u8 list option" where
  "each_of_message f env desc dest m =
     (case pb_field_iter_begin (fields_at env desc) of
        (False, iter) \<Rightarrow> Some m
      | (True, iter) \<Rightarrow> each_field f dest (length (fields_at env desc)) iter m)"

fun pb_field_set_to_default :: "nat \<Rightarrow> 's pb_denv \<Rightarrow> int \<Rightarrow> pb_field_iter \<Rightarrow> u8 list \<Rightarrow> u8 list option" where
  "pb_field_set_to_default 0 env dest iter m = None"
| "pb_field_set_to_default (Suc n) env dest iter m =
     field_default (each_of_message (pb_field_set_to_default n env) env)
       (extension_defaults (pb_field_set_to_default n env) env n)
       (field_at iter) (dest + it_pData iter) (dest + it_pSize iter) m"

definition pb_message_set_to_defaults :: "nat \<Rightarrow> 's pb_denv \<Rightarrow> nat \<Rightarrow> int \<Rightarrow> u8 list \<Rightarrow> u8 list option" where
  "pb_message_set_to_defaults n env desc dest m = each_of_message (pb_field_set_to_default n env) env desc dest m"

section \<open>Release\<close>

fun extension_releases ::
  "(int \<Rightarrow> pb_field_iter \<Rightarrow> u8 list \<Rightarrow> u8 list option) \<Rightarrow> 's pb_denv \<Rightarrow> nat \<Rightarrow> nat \<Rightarrow> u8 list \<Rightarrow> u8 list option" where
  "extension_releases f env 0 x m = (if x = 0 then Some m else None)"
| "extension_releases f env (Suc k) x m =
     (if x = 0 then Some m
      else
        case iter_from_extension env m x of
          (dest, iter) \<Rightarrow>
            (case f dest iter m of
               None \<Rightarrow> None
             | Some m \<Rightarrow> extension_releases f env k (load 8 m (int x + 16)) m))"

text \<open>The items of an array of submessages.\<close>

fun release_items :: "(int \<Rightarrow> u8 list \<Rightarrow> u8 list option) \<Rightarrow> nat \<Rightarrow> nat \<Rightarrow> int \<Rightarrow> u8 list \<Rightarrow> u8 list option" where
  "release_items f dsize 0 p m = Some m"
| "release_items f dsize (Suc count) p m =
     (case f p m of None \<Rightarrow> None | Some m \<Rightarrow> release_items f dsize count (p + int dsize) m)"

text \<open>The pointers of an array of strings.\<close>

fun free_items :: "'s pb_denv \<Rightarrow> nat \<Rightarrow> int \<Rightarrow> u8 list \<Rightarrow> u8 list" where
  "free_items env 0 p m = m"
| "free_items env (Suc count) p m =
     free_items env count (p + 8) (store p (le_bytes 8 0) (pb_free env (load 8 m p) m))"

definition release_pointer :: "'s pb_denv \<Rightarrow> pb_field \<Rightarrow> int \<Rightarrow> int \<Rightarrow> u8 list \<Rightarrow> u8 list" where
  "release_pointer env field pData pSize m =
     (let h = PB_HTYPE (f_type field); l = PB_LTYPE (f_type field);
          m = (if h = PB_HTYPE_REPEATED \<and> (l = PB_LTYPE_STRING \<or> l = PB_LTYPE_BYTES)
               then free_items env (load 4 m pSize) (int (load 8 m pData)) m else m);
          m = (if h = PB_HTYPE_REPEATED then store pSize (le_bytes 4 0) m else m)
      in store pData (le_bytes 8 0) (pb_free env (load 8 m pData) m))"

definition release_field ::
  "(nat \<Rightarrow> int \<Rightarrow> u8 list \<Rightarrow> u8 list option) \<Rightarrow> (nat \<Rightarrow> u8 list \<Rightarrow> u8 list option) \<Rightarrow>
     's pb_denv \<Rightarrow> pb_field \<Rightarrow> int \<Rightarrow> int \<Rightarrow> u8 list \<Rightarrow> u8 list option" where
  "release_field sub exts env field pData pSize m =
     (let h = PB_HTYPE (f_type field); l = PB_LTYPE (f_type field); a = PB_ATYPE (f_type field)
      in if h = PB_HTYPE_ONEOF \<and> load 4 m pSize \<noteq> f_tag field then Some m
         else
           map_option (\<lambda>m. if a = PB_ATYPE_POINTER then release_pointer env field pData pSize m else m)
             (if l = PB_LTYPE_EXTENSION then exts (load 8 m pData) m
              else if l = PB_LTYPE_SUBMESSAGE \<and> a \<noteq> PB_ATYPE_CALLBACK then
                (let pItem = (if a = PB_ATYPE_POINTER then int (load 8 m pData) else pData);
                     count = (if h = PB_HTYPE_REPEATED then
                                (let c = (if a = PB_ATYPE_STATIC \<and> pSize = pData then array_size field
                                          else load 4 m pSize)
                                 in if a = PB_ATYPE_STATIC \<and> c > array_size field then array_size field else c)
                              else 1)
                 in if pItem = 0 then Some m
                    else release_items (sub (f_ptr field)) (data_size field) count pItem m)
              else Some m))"

text \<open>\<open>pb_release\<close> given the function for a field.\<close>

definition release_message ::
  "(int \<Rightarrow> pb_field_iter \<Rightarrow> u8 list \<Rightarrow> u8 list option) \<Rightarrow> 's pb_denv \<Rightarrow> nat \<Rightarrow> int \<Rightarrow> u8 list \<Rightarrow> u8 list option" where
  "release_message f env desc dest m = (if dest = 0 then Some m else each_of_message f env desc dest m)"

fun pb_release_single_field :: "nat \<Rightarrow> 's pb_denv \<Rightarrow> int \<Rightarrow> pb_field_iter \<Rightarrow> u8 list \<Rightarrow> u8 list option" where
  "pb_release_single_field 0 env dest iter m = None"
| "pb_release_single_field (Suc n) env dest iter m =
     release_field (release_message (pb_release_single_field n env) env)
       (extension_releases (pb_release_single_field n env) env n) env
       (field_at iter) (dest + it_pData iter) (dest + it_pSize iter) m"

definition pb_release :: "nat \<Rightarrow> 's pb_denv \<Rightarrow> nat \<Rightarrow> int \<Rightarrow> u8 list \<Rightarrow> u8 list option" where
  "pb_release n env desc dest m = release_message (pb_release_single_field n env) env desc dest m"

end
