(* ===== verification/Pb_Layout.thy ===== *)
theory Pb_Layout
  imports Pb_Decode
begin

text \<open>
  The layout of a message's structure: when a descriptor array describes places inside a
  structure of a given size. On such a structure setting the defaults returns and writes
  nothing else, and a release has nothing to do.
\<close>

section \<open>Regions of memory\<close>

text \<open>From \<open>m\<close> to \<open>m'\<close> only bytes from \<open>lo\<close> to \<open>hi - 1\<close> have changed.\<close>

definition outside_same :: "nat \<Rightarrow> nat \<Rightarrow> u8 list \<Rightarrow> u8 list \<Rightarrow> bool" where
  "outside_same lo hi m m' \<longleftrightarrow> length m' = length m \<and> (\<forall>i < length m. i < lo \<or> hi \<le> i \<longrightarrow> m' ! i = m ! i)"

lemma outside_same_refl [simp]: "outside_same lo hi m m"
  by (simp add: outside_same_def)

lemma outside_same_trans: "outside_same lo hi m m' \<Longrightarrow> outside_same lo hi m' m'' \<Longrightarrow> outside_same lo hi m m''"
  by (simp add: outside_same_def)

lemma outside_same_mono: "outside_same lo' hi' m m' \<Longrightarrow> lo \<le> lo' \<Longrightarrow> hi' \<le> hi \<Longrightarrow> outside_same lo hi m m'"
  by (auto simp: outside_same_def)

lemma outside_same_length: "outside_same lo hi m m' \<Longrightarrow> length m' = length m"
  by (simp add: outside_same_def)

definition inside :: "nat \<Rightarrow> nat \<Rightarrow> int \<Rightarrow> nat \<Rightarrow> bool" where
  "inside lo hi a n \<longleftrightarrow> int lo \<le> a \<and> a + int n \<le> int hi"

lemma inside_mono: "inside lo hi a n \<Longrightarrow> int k + int n' \<le> int n \<Longrightarrow> inside lo hi (a + int k) n'"
  by (simp add: inside_def)

lemma store_outside:
  assumes "inside lo hi a (length bs)" and "hi \<le> length m"
  shows "outside_same lo hi m (store a bs m)"
proof -
  have a: "nat a + length bs \<le> hi" "lo \<le> nat a" "nat a \<le> length m" using assms by (simp_all add: inside_def) linarith+
  have "store a bs m ! i = m ! i" if "i < length m" "i < lo \<or> hi \<le> i" for i
    using that a assms(2) by (auto simp: store_def mem_write_def nth_append min_def)
  moreover have "length (store a bs m) = length m" using a assms(2) by (simp add: store_def mem_write_def)
  ultimately show ?thesis by (simp add: outside_same_def)
qed

lemma length_le_bytes [simp]: "length (le_bytes n v) = n"
  by (simp add: le_bytes_def)

text \<open>An operation on the memory that returns and stays inside.\<close>

definition mem_safe :: "nat \<Rightarrow> nat \<Rightarrow> (u8 list \<Rightarrow> u8 list option) \<Rightarrow> bool" where
  "mem_safe lo hi f \<longleftrightarrow> (\<forall>m. hi \<le> length m \<longrightarrow> (\<exists>m'. f m = Some m' \<and> outside_same lo hi m m'))"

lemma mem_safeD: "mem_safe lo hi f \<Longrightarrow> hi \<le> length m \<Longrightarrow> \<exists>m'. f m = Some m' \<and> outside_same lo hi m m'"
  by (simp add: mem_safe_def)

lemma mem_safe_Some: "mem_safe lo hi Some"
  by (simp add: mem_safe_def)

lemma mem_safe_bind:
  assumes "mem_safe lo hi f" and "mem_safe lo hi g"
  shows "mem_safe lo hi (\<lambda>m. case f m of None \<Rightarrow> None | Some m \<Rightarrow> g m)"
  unfolding mem_safe_def
proof (intro allI impI)
  fix m :: "u8 list" assume m: "hi \<le> length m"
  from mem_safeD [OF assms(1) m] obtain m1 where f: "f m = Some m1" and o: "outside_same lo hi m m1" by blast
  from outside_same_length [OF o] m have "hi \<le> length m1" by simp
  from mem_safeD [OF assms(2) this] obtain m2 where "g m1 = Some m2" "outside_same lo hi m1 m2" by blast
  with f o show "\<exists>m'. (case f m of None \<Rightarrow> None | Some m \<Rightarrow> g m) = Some m' \<and> outside_same lo hi m m'"
    by (auto intro: outside_same_trans)
qed

lemma mem_safe_store:
  assumes "inside lo hi a (length bs)" and "mem_safe lo hi g"
  shows "mem_safe lo hi (\<lambda>m. g (store a bs m))"
proof -
  have "mem_safe lo hi (\<lambda>m. Some (store a bs m))"
    using store_outside [OF assms(1)] by (simp add: mem_safe_def)
  from mem_safe_bind [OF this assms(2)] show ?thesis by simp
qed

lemma mem_safe_if: "(c \<Longrightarrow> mem_safe lo hi f) \<Longrightarrow> (\<not> c \<Longrightarrow> mem_safe lo hi g) \<Longrightarrow> mem_safe lo hi (\<lambda>m. if c then f m else g m)"
  by (cases c) simp_all

section \<open>Layouts\<close>

text \<open>How many items a static field has room for.\<close>

definition items_of :: "pb_field \<Rightarrow> nat" where
  "items_of field = (if PB_HTYPE (f_type field) = PB_HTYPE_REPEATED then array_size field else 1)"

definition size_fits :: "(nat \<Rightarrow> nat \<Rightarrow> bool) \<Rightarrow> pb_field \<Rightarrow> bool" where
  "size_fits sub field \<longleftrightarrow>
     (let l = PB_LTYPE (f_type field); n = data_size field
      in l \<le> PB_LTYPE_FIXED_LENGTH_BYTES \<and> l \<noteq> PB_LTYPE_EXTENSION \<and>
         (l = PB_LTYPE_BOOL \<longrightarrow> 1 \<le> n) \<and> (l = PB_LTYPE_FIXED32 \<longrightarrow> 4 \<le> n) \<and> (l = PB_LTYPE_FIXED64 \<longrightarrow> 8 \<le> n) \<and>
         (l = PB_LTYPE_SUBMESSAGE \<longrightarrow> sub (f_ptr field) n))"

text \<open>A static field whose items, flag or counter are at \<open>pData\<close> and \<open>pSize\<close> in a structure of
  \<open>sz\<close> bytes. A field that counts has four bytes at \<open>pSize\<close>, one with a flag a single byte.\<close>

definition field_fits :: "(nat \<Rightarrow> nat \<Rightarrow> bool) \<Rightarrow> nat \<Rightarrow> pb_field \<Rightarrow> int \<Rightarrow> int \<Rightarrow> bool" where
  "field_fits sub sz field pData pSize \<longleftrightarrow>
     (let h = PB_HTYPE (f_type field)
      in PB_ATYPE (f_type field) = PB_ATYPE_STATIC \<and> size_fits sub field \<and>
         inside 0 sz pData (data_size field * items_of field) \<and>
         (h = PB_HTYPE_REPEATED \<or> h = PB_HTYPE_ONEOF \<longrightarrow> inside 0 sz pSize 4) \<and>
         (h = PB_HTYPE_OPTIONAL \<and> pSize \<noteq> pData \<longrightarrow> inside 0 sz pSize 1))"

text \<open>A message of structures nested at most \<open>n\<close> deep.\<close>

fun fits :: "nat \<Rightarrow> 's pb_denv \<Rightarrow> nat \<Rightarrow> nat \<Rightarrow> bool" where
  "fits 0 env desc sz \<longleftrightarrow> False"
| "fits (Suc n) env desc sz \<longleftrightarrow>
     (let descs = fields_at env desc; fs = butlast descs
      in descs \<noteq> [] \<and> descriptors descs fs \<and> f_type (last descs) = 0 \<and> data_offset (last descs) = 0 \<and> 0 < sz \<and> sz < 2 ^ 32 \<and>
         (\<forall>i < length fs.
            field_fits (fits n env) sz (fs ! i) (it_pData (iter_state descs i)) (it_pSize (iter_state descs i))))"

lemma fits_descriptors: "fits (Suc n) env desc sz \<Longrightarrow> descriptors (fields_at env desc) (butlast (fields_at env desc))"
  by (simp add: Let_def)

lemma fits_field:
  "fits (Suc n) env desc sz \<Longrightarrow> i < length (butlast (fields_at env desc)) \<Longrightarrow>
     field_fits (fits n env) sz (butlast (fields_at env desc) ! i)
       (it_pData (iter_state (fields_at env desc) i)) (it_pSize (iter_state (fields_at env desc) i))"
  by (simp add: Let_def)

lemma fits_mono: "fits n env desc sz \<Longrightarrow> n \<le> N \<Longrightarrow> fits N env desc sz"
proof (induction n arbitrary: N desc sz)
  case (Suc n)
  then obtain k where k: "N = Suc k" "n \<le> k" by (cases N) auto
  have "field_fits (fits n env) sz' f pd ps \<Longrightarrow> field_fits (fits k env) sz' f pd ps" for sz' f pd ps
    using Suc.IH [OF _ k(2)] by (auto simp: field_fits_def size_fits_def Let_def)
  with Suc.prems(1) show ?case unfolding k(1) fits.simps Let_def by blast
qed simp

section \<open>Loops over the fields\<close>

lemma mem_safe_each:
  assumes d: "descriptors ds fs" and f: "\<And>i. i < length fs \<Longrightarrow> mem_safe lo hi (f dest (iter_state ds i))"
  shows "i < length fs \<Longrightarrow> length fs \<le> i + k \<Longrightarrow> mem_safe lo hi (each_field f dest k (iter_state ds i))"
proof (induction k arbitrary: i)
  case (Suc k)
  have "each_field f dest (Suc k) (iter_state ds i) =
      (\<lambda>m. case f dest (iter_state ds i) m of None \<Rightarrow> None
         | Some m \<Rightarrow> if Suc i < length fs then each_field f dest k (iter_state ds (Suc i mod length fs)) m else Some m)"
    by (rule ext) (simp add: iter_next_state [OF d Suc.prems(1)] cong: option.case_cong)
  moreover have "mem_safe lo hi (\<lambda>m. if Suc i < length fs then each_field f dest k (iter_state ds (Suc i mod length fs)) m else Some m)"
    using Suc.IH [of "Suc i"] Suc.prems(2) by (intro mem_safe_if mem_safe_Some) simp_all
  ultimately show ?case using mem_safe_bind [OF f [OF Suc.prems(1)]] by simp
qed simp

lemma mem_safe_message:
  assumes d: "descriptors (fields_at env desc) fs"
    and f: "\<And>i. i < length fs \<Longrightarrow> mem_safe lo hi (f dest (iter_state (fields_at env desc) i))"
  shows "mem_safe lo hi (each_of_message f env desc dest)"
proof (cases "fs = []")
  case True
  have "each_of_message f env desc dest = Some"
    by (rule ext) (simp add: each_of_message_def begin_descriptors [OF d] True)
  then show ?thesis by (simp add: mem_safe_Some)
next
  case False
  have "each_of_message f env desc dest = each_field f dest (length (fields_at env desc)) (iter_state (fields_at env desc) 0)"
    by (rule ext) (simp add: each_of_message_def begin_descriptors [OF d] False)
  moreover have "mem_safe lo hi \<dots>"
    using False descriptors_nth(4) [OF d] by (intro mem_safe_each [OF d] f) simp_all
  ultimately show ?thesis by simp
qed

section \<open>Defaults\<close>

lemma inside_shift: "inside 0 sz p n \<Longrightarrow> inside lo (lo + sz) (int lo + p) n"
  by (simp add: inside_def)

lemma mem_safe_copy:
  assumes "inside lo hi a n" and "mem_safe lo hi g"
  shows "mem_safe lo hi (\<lambda>m. g (store a (take n (drop p m)) m))"
  unfolding mem_safe_def
proof (intro allI impI)
  fix m :: "u8 list" assume m: "hi \<le> length m"
  have "inside lo hi a (length (take n (drop p m)))" using assms(1) by (simp add: inside_def min_def)
  from store_outside [OF this m] have o: "outside_same lo hi m (store a (take n (drop p m)) m)" .
  from outside_same_length [OF o] m have "hi \<le> length (store a (take n (drop p m)) m)" by simp
  from mem_safeD [OF assms(2) this] o
  show "\<exists>m'. g (store a (take n (drop p m)) m) = Some m' \<and> outside_same lo hi m m'" by (auto intro: outside_same_trans)
qed

lemma mem_safe_mono: "mem_safe lo' hi' f \<Longrightarrow> lo \<le> lo' \<Longrightarrow> hi' \<le> hi \<Longrightarrow> mem_safe lo hi f"
  unfolding mem_safe_def by (meson le_trans outside_same_mono)

lemma field_default_safe:
  assumes f: "field_fits fit sz field pd ps"
    and sub: "\<And>a. PB_LTYPE (f_type field) = PB_LTYPE_SUBMESSAGE \<Longrightarrow> fit (f_ptr field) (data_size field) \<Longrightarrow>
      mem_safe a (a + data_size field) (sub (f_ptr field) (int a))"
  shows "mem_safe lo (lo + sz) (field_default sub exts field (int lo + pd) (int lo + ps))"
proof -
  let ?h = "PB_HTYPE (f_type field)" and ?l = "PB_LTYPE (f_type field)"
  note fits = f [unfolded field_fits_def size_fits_def Let_def]
  have pd: "inside lo (lo + sz) (int lo + pd) (data_size field)" if "?h \<noteq> PB_HTYPE_REPEATED"
    using fits that by (intro inside_shift) (simp add: items_of_def)
  have sub': "mem_safe lo (lo + sz) (sub (f_ptr field) (int lo + pd))" if "?h \<noteq> PB_HTYPE_REPEATED" "?l = PB_LTYPE_SUBMESSAGE"
  proof -
    have p: "0 \<le> pd" "pd + int (data_size field) \<le> int sz" using pd [OF that(1)] by (simp_all add: inside_def)
    have "mem_safe (lo + nat pd) (lo + nat pd + data_size field) (sub (f_ptr field) (int (lo + nat pd)))"
      using fits that by (intro sub) simp_all
    with p have "mem_safe (lo + nat pd) (lo + nat pd + data_size field) (sub (f_ptr field) (int lo + pd))" by simp
    with p show ?thesis by (elim mem_safe_mono) linarith+
  qed
  let ?data = "\<lambda>m. if ?l = PB_LTYPE_SUBMESSAGE then sub (f_ptr field) (int lo + pd) m
      else if f_ptr field \<noteq> 0 then Some (store (int lo + pd) (take (data_size field) (drop (f_ptr field) m)) m)
      else Some (store (int lo + pd) (replicate (data_size field) 0) m)"
  have data: "mem_safe lo (lo + sz) ?data" if "?h \<noteq> PB_HTYPE_REPEATED"
    using pd [OF that] by (intro mem_safe_if mem_safe_copy mem_safe_store mem_safe_Some sub' that) simp_all
  have eq: "field_default sub exts field (int lo + pd) (int lo + ps) =
      (\<lambda>m. if ?h = PB_HTYPE_REPEATED \<or> ?h = PB_HTYPE_ONEOF then Some (store (int lo + ps) (le_bytes 4 0) m)
        else if ?h = PB_HTYPE_OPTIONAL \<and> ps \<noteq> pd then ?data (store (int lo + ps) [0] m) else ?data m)"
    using fits by (simp add: fun_eq_iff field_default_def Let_def)
  have c: "inside lo (lo + sz) (int lo + ps) (length (le_bytes 4 0))" if "?h = PB_HTYPE_REPEATED \<or> ?h = PB_HTYPE_ONEOF"
    using fits that by (intro inside_shift) auto
  have o: "inside lo (lo + sz) (int lo + ps) (length [0 :: u8])" if "?h = PB_HTYPE_OPTIONAL \<and> ps \<noteq> pd"
    using fits that by (intro inside_shift) auto
  show ?thesis
    unfolding eq
  proof (rule mem_safe_if)
    show "mem_safe lo (lo + sz) (\<lambda>m. Some (store (int lo + ps) (le_bytes 4 0) m))" if "?h = PB_HTYPE_REPEATED \<or> ?h = PB_HTYPE_ONEOF"
      using mem_safe_store [OF c [OF that] mem_safe_Some] by simp
  next
    assume "\<not> (?h = PB_HTYPE_REPEATED \<or> ?h = PB_HTYPE_ONEOF)"
    then have data: "mem_safe lo (lo + sz) ?data" using data by blast
    show "mem_safe lo (lo + sz) (\<lambda>m. if ?h = PB_HTYPE_OPTIONAL \<and> ps \<noteq> pd then ?data (store (int lo + ps) [0] m) else ?data m)"
      by (rule mem_safe_if) (use mem_safe_store [OF o data] data in blast)+
  qed
qed

lemma defaults_safe: "fits n env desc sz \<Longrightarrow> mem_safe a (a + sz) (pb_message_set_to_defaults n env desc (int a))"
proof (induction n arbitrary: desc sz a)
  case (Suc n)
  note d = fits_descriptors [OF Suc.prems]
  have "mem_safe a (a + sz) (pb_field_set_to_default (Suc n) env (int a) (iter_state (fields_at env desc) i))"
    if "i < length (butlast (fields_at env desc))" for i
  proof -
    have "pb_message_set_to_defaults n env = each_of_message (pb_field_set_to_default n env) env"
      by (simp add: fun_eq_iff pb_message_set_to_defaults_def)
    with Suc.IH have sub: "fits n env d sz' \<Longrightarrow> mem_safe a (a + sz') (each_of_message (pb_field_set_to_default n env) env d (int a))" for d sz' a
      by metis
    have "pb_field_set_to_default (Suc n) env (int a) (iter_state (fields_at env desc) i) =
        field_default (each_of_message (pb_field_set_to_default n env) env) (extension_defaults (pb_field_set_to_default n env) env n)
          (butlast (fields_at env desc) ! i) (int a + it_pData (iter_state (fields_at env desc) i))
          (int a + it_pSize (iter_state (fields_at env desc) i))"
      by (rule ext) (simp add: field_at_state [OF d that])
    with field_default_safe [OF fits_field [OF Suc.prems that] sub] show ?thesis by simp
  qed
  then have "mem_safe a (a + sz) (each_of_message (pb_field_set_to_default (Suc n) env) env desc (int a))"
    by (rule mem_safe_message [OF d])
  then show ?case by (simp add: pb_message_set_to_defaults_def [abs_def])
qed simp

section \<open>Release\<close>

text \<open>Nothing to release in static fields.\<close>

lemma each_field_id:
  assumes d: "descriptors ds fs" and f: "\<And>i m. i < length fs \<Longrightarrow> f dest (iter_state ds i) m = Some m"
  shows "i < length fs \<Longrightarrow> length fs \<le> i + k \<Longrightarrow> each_field f dest k (iter_state ds i) m = Some m"
proof (induction k arbitrary: i)
  case (Suc k)
  with Suc.IH [of "Suc i"] f show ?case by (simp add: iter_next_state [OF d Suc.prems(1)])
qed simp

lemma each_of_message_id:
  assumes d: "descriptors (fields_at env desc) fs"
    and f: "\<And>i m. i < length fs \<Longrightarrow> f dest (iter_state (fields_at env desc) i) m = Some m"
  shows "each_of_message f env desc dest m = Some m"
proof (cases "fs = []")
  case False
  then have "each_field f dest (length (fields_at env desc)) (iter_state (fields_at env desc) 0) m = Some m"
    using descriptors_nth(4) [OF d] by (intro each_field_id [OF d] f) simp_all
  with False show ?thesis by (simp add: each_of_message_def begin_descriptors [OF d])
qed (simp add: each_of_message_def begin_descriptors [OF d])

lemma release_items_id: "(\<And>p m. f p m = Some m) \<Longrightarrow> release_items f dsize count p m = Some m"
  by (induction count arbitrary: p) simp_all

lemma release_field_id:
  assumes "PB_ATYPE (f_type field) = PB_ATYPE_STATIC" and "PB_LTYPE (f_type field) \<noteq> PB_LTYPE_EXTENSION"
    and "\<And>p m. PB_LTYPE (f_type field) = PB_LTYPE_SUBMESSAGE \<Longrightarrow> sub (f_ptr field) p m = Some m"
  shows "release_field sub exts env field pData pSize m = Some m"
proof -
  have "PB_ATYPE_STATIC \<noteq> PB_ATYPE_POINTER" by (simp add: PB_ATYPE_STATIC_def PB_ATYPE_POINTER_def)
  with assms release_items_id [of "sub (f_ptr field)"] show ?thesis
    by (simp add: release_field_def Let_def)
qed

lemma release_fields_id:
  "fits n env desc sz \<Longrightarrow> i < length (butlast (fields_at env desc)) \<Longrightarrow>
     pb_release_single_field n env dest (iter_state (fields_at env desc) i) m = Some m"
proof (induction n arbitrary: desc sz dest i m)
  case (Suc n)
  let ?f = "butlast (fields_at env desc) ! i"
  note d = fits_descriptors [OF Suc.prems(1)]
  note f = fits_field [OF Suc.prems, unfolded field_fits_def size_fits_def Let_def]
  have "release_message (pb_release_single_field n env) env (f_ptr ?f) p m = Some m"
    if l: "PB_LTYPE (f_type ?f) = PB_LTYPE_SUBMESSAGE" for p m
  proof -
    from f l have fit: "fits n env (f_ptr ?f) (data_size ?f)" by simp
    then obtain k where k: "n = Suc k" by (cases n) simp_all
    show ?thesis
      using each_of_message_id [OF fits_descriptors [OF fit [unfolded k]]] Suc.IH [OF fit] by (simp add: release_message_def)
  qed
  with f show ?case by (simp add: field_at_state [OF d Suc.prems(2)] release_field_id)
qed simp

lemma release_id: "fits n env desc sz \<Longrightarrow> pb_release n env desc dest m = Some m"
proof -
  assume fit: "fits n env desc sz"
  then obtain k where k: "n = Suc k" by (cases n) simp_all
  from each_of_message_id [OF fits_descriptors [OF fit [unfolded k]]] release_fields_id [OF fit]
  show ?thesis by (simp add: pb_release_def release_message_def)
qed

end
