(* ===== verification/Pb_Decode_Field.thy ===== *)
theory Pb_Decode_Field
  imports Pb_Decode
begin

text \<open>
  Decoding a single field of a message into the memory (\<open>nanopb/pb_decode.c\<close>): the decoders
  of the table with what they store, also when they fail, and static, pointer and callback
  fields. \<open>sub\<close> is \<open>pb_decode_noinit\<close> for the messages inside.
\<close>

section \<open>Values\<close>

definition dec_bool_at :: "'s pb_denv \<Rightarrow> int \<Rightarrow> 's dec" where
  "dec_bool_at env dest = reading (pb_decode_varint32 (d_source env)) (\<lambda>v. storing dest [of_bool (v \<noteq> 0)] succeed)"

text \<open>The low bytes of a number are stored before it is known whether it fits.\<close>

definition dec_varint_at :: "'s pb_denv \<Rightarrow> pb_field \<Rightarrow> int \<Rightarrow> 's dec" where
  "dec_varint_at env field dest =
     reading (pb_decode_varint (d_source env)) (\<lambda>v.
       let n = data_size field; svalue = (if n = 8 then sint v else sint (ucast v :: u32))
       in if n \<notin> {8, 4, 2, 1} then d_fails ''invalid data_size''
          else storing dest (le_bytes n (nat (svalue mod 256 ^ n)))
                 (if store_int n svalue \<noteq> svalue then d_fails ''integer too large'' else succeed))"

definition dec_uvarint_at :: "'s pb_denv \<Rightarrow> pb_field \<Rightarrow> int \<Rightarrow> 's dec" where
  "dec_uvarint_at env field dest =
     reading (pb_decode_varint (d_source env)) (\<lambda>v.
       let n = data_size field
       in if n \<notin> {8, 4, 2, 1} then d_fails ''invalid data_size''
          else storing dest (le_bytes n (unat v))
                 (if store_nat n (unat v) \<noteq> unat v then d_fails ''integer too large'' else succeed))"

definition dec_svarint_at :: "'s pb_denv \<Rightarrow> pb_field \<Rightarrow> int \<Rightarrow> 's dec" where
  "dec_svarint_at env field dest =
     reading (pb_decode_svarint (d_source env)) (\<lambda>v.
       let n = data_size field
       in if n \<notin> {8, 4, 2, 1} then d_fails ''invalid data_size''
          else storing dest (le_bytes n (nat (sint v mod 256 ^ n)))
                 (if store_int n (sint v) \<noteq> sint v then d_fails ''integer too large'' else succeed))"

definition dec_fixed32_at :: "'s pb_denv \<Rightarrow> int \<Rightarrow> 's dec" where
  "dec_fixed32_at env dest =
     reading (pb_decode_fixed32 (d_source env)) (\<lambda>v. storing dest (le_bytes 4 (unat v)) succeed)"

definition dec_fixed64_at :: "'s pb_denv \<Rightarrow> int \<Rightarrow> 's dec" where
  "dec_fixed64_at env dest =
     reading (pb_decode_fixed64 (d_source env)) (\<lambda>v. storing dest (le_bytes 8 (unat v)) succeed)"

text \<open>Storage for a pointer field; the pointer is at \<open>pData\<close>.\<close>

definition allocate_at :: "'s pb_denv \<Rightarrow> int \<Rightarrow> nat \<Rightarrow> nat \<Rightarrow> 's dec" where
  "allocate_at env pData dsize asize st =
     (if dsize = 0 \<or> asize = 0 then d_fails ''invalid size'' st
      else
        let check_limit = 2 ^ 32
        in if (dsize \<ge> check_limit \<or> asize \<ge> check_limit) \<and> (2 ^ 64 - 1) div asize < dsize
           then d_fails ''size too large'' st
           else
             case pb_realloc env (load 8 (dmem st) pData) (sz_mul asize dsize) (dmem st) of
               (ptr, m) \<Rightarrow>
                 let st = st\<lparr>dmem := m\<rparr>
                 in if ptr = 0 then d_fails ''realloc failed'' st
                    else storing pData (le_bytes 8 ptr) succeed st)"

definition dec_bytes_at :: "'s pb_denv \<Rightarrow> pb_field \<Rightarrow> int \<Rightarrow> 's dec" where
  "dec_bytes_at env field dest =
     reading (pb_decode_varint32 (d_source env)) (\<lambda>sz.
       let sz = unat sz; alloc_size = PB_BYTES_ARRAY_T_ALLOCSIZE sz;
           is_ptr = (PB_ATYPE (f_type field) = PB_ATYPE_POINTER)
       in if sz > PB_SIZE_MAX then d_fails ''bytes overflow''
          else if sz > alloc_size then d_fails ''size too large''
          else
            and_then
              (if is_ptr
               then (\<lambda>st. (if bytes_left (inp st) < sz then d_fails ''end-of-stream''
                           else allocate_at env dest alloc_size 1) st)
               else if alloc_size > data_size field then d_fails ''bytes overflow'' else succeed)
              (\<lambda>st.
                 let bdest = (if is_ptr then int (load 8 (dmem st) dest) else dest)
                 in storing bdest (le_bytes 4 sz)
                      (reading (pb_read (d_source env) sz) (\<lambda>bs. storing (bdest + 4) bs succeed)) st))"

text \<open>The NUL is stored whether the bytes could be read or not.\<close>

definition read_string_at :: "'s pb_denv \<Rightarrow> nat \<Rightarrow> int \<Rightarrow> 's dec" where
  "read_string_at env sz dest st =
     (case pb_read (d_source env) sz (inp st) of
        (None, s) \<Rightarrow> storing (dest + int sz) [0] (\<lambda>st. Some (False, st)) (st\<lparr>inp := s\<rparr>)
      | (Some bs, s) \<Rightarrow> storing dest bs (storing (dest + int sz) [0] succeed) (st\<lparr>inp := s\<rparr>))"

definition dec_string_at :: "'s pb_denv \<Rightarrow> pb_field \<Rightarrow> int \<Rightarrow> 's dec" where
  "dec_string_at env field dest =
     reading (pb_decode_varint32 (d_source env)) (\<lambda>sz.
       let alloc_size = unat (sz + 1); sz = unat sz; is_ptr = (PB_ATYPE (f_type field) = PB_ATYPE_POINTER)
       in if alloc_size < sz then d_fails ''size too large''
          else
            and_then
              (if is_ptr
               then (\<lambda>st. (if bytes_left (inp st) < sz then d_fails ''end-of-stream''
                           else allocate_at env dest alloc_size 1) st)
               else if alloc_size > data_size field then d_fails ''string overflow'' else succeed)
              (\<lambda>st. read_string_at env sz (if is_ptr then int (load 8 (dmem st) dest) else dest) st))"

definition dec_fixed_length_bytes_at :: "'s pb_denv \<Rightarrow> pb_field \<Rightarrow> int \<Rightarrow> 's dec" where
  "dec_fixed_length_bytes_at env field dest =
     reading (pb_decode_varint32 (d_source env)) (\<lambda>sz.
       let n = data_size field
       in if unat sz > PB_SIZE_MAX then d_fails ''bytes overflow''
          else if sz = 0 then storing dest (replicate n 0) succeed
          else if unat sz \<noteq> n then d_fails ''incorrect fixed length bytes size''
          else reading (pb_read (d_source env) n) (\<lambda>bs. storing dest bs succeed))"

section \<open>Messages inside\<close>

text \<open>\<open>pb_decode\<close> given \<open>pb_decode_noinit\<close>; \<open>n\<close> is the nesting allowed to defaults and release.\<close>

definition decode_with :: "(nat \<Rightarrow> int \<Rightarrow> 's dec) \<Rightarrow> nat \<Rightarrow> 's pb_denv \<Rightarrow> nat \<Rightarrow> int \<Rightarrow> 's dec" where
  "decode_with noinit n env desc dest =
     and_then (on_mem (pb_message_set_to_defaults n env desc dest))
       (\<lambda>st. case noinit desc dest st of
               None \<Rightarrow> None
             | Some (True, st) \<Rightarrow> Some (True, st)
             | Some (False, st) \<Rightarrow> map_option (\<lambda>(_, st). (False, st)) (on_mem (pb_release n env desc dest) st))"

definition pb_dec_submessage :: "(nat \<Rightarrow> int \<Rightarrow> 's dec) \<Rightarrow> nat \<Rightarrow> 's pb_denv \<Rightarrow> pb_field \<Rightarrow> int \<Rightarrow> 's dec" where
  "pb_dec_submessage sub n env field dest =
     open_sub env (\<lambda>parent st.
       if f_ptr field = 0 then d_fails ''invalid field descriptor'' (st\<lparr>inp := parent\<rparr>)
       else
         case (if PB_HTYPE (f_type field) = PB_HTYPE_REPEATED then decode_with sub n env (f_ptr field) dest
               else sub (f_ptr field) dest) st of
           None \<Rightarrow> None
         | Some (status, st) \<Rightarrow> close_sub env parent status st)"

text \<open>The table of decoders; the entry of extensions is NULL.\<close>

definition PB_DECODERS :: "(nat \<Rightarrow> int \<Rightarrow> 's dec) \<Rightarrow> nat \<Rightarrow> 's pb_denv \<Rightarrow> pb_field \<Rightarrow> int \<Rightarrow> 's dec" where
  "PB_DECODERS sub n env field dest =
     (let l = PB_LTYPE (f_type field)
      in if l = PB_LTYPE_BOOL then dec_bool_at env dest
         else if l = PB_LTYPE_VARINT then dec_varint_at env field dest
         else if l = PB_LTYPE_UVARINT then dec_uvarint_at env field dest
         else if l = PB_LTYPE_SVARINT then dec_svarint_at env field dest
         else if l = PB_LTYPE_FIXED32 then dec_fixed32_at env dest
         else if l = PB_LTYPE_FIXED64 then dec_fixed64_at env dest
         else if l = PB_LTYPE_BYTES then dec_bytes_at env field dest
         else if l = PB_LTYPE_STRING then dec_string_at env field dest
         else if l = PB_LTYPE_SUBMESSAGE then pb_dec_submessage sub n env field dest
         else if l = PB_LTYPE_FIXED_LENGTH_BYTES then dec_fixed_length_bytes_at env field dest
         else (\<lambda>st. None))"

section \<open>Static fields\<close>

text \<open>The variable \<open>pSize\<close> points to: the local one for a field without a counter of its own.\<close>

definition counter :: "bool \<Rightarrow> int \<Rightarrow> 's dstate \<Rightarrow> nat" where
  "counter loc pSize st = (if loc then fixed_count_size st else load 4 (dmem st) pSize)"

definition set_counter :: "bool \<Rightarrow> int \<Rightarrow> nat \<Rightarrow> 's dstate \<Rightarrow> 's dstate" where
  "set_counter loc pSize v st =
     (if loc then st\<lparr>fixed_count_size := v mod 2 ^ 32\<rparr> else st\<lparr>dmem := store pSize (le_bytes 4 v) (dmem st)\<rparr>)"

text \<open>Where the item \<open>i\<close> of an array is, computed in 32 bits.\<close>

definition item_offset :: "pb_field \<Rightarrow> nat \<Rightarrow> int" where
  "item_offset field i = int ((data_size field * i) mod 2 ^ 32)"

text \<open>The items of a packed array as long as there are bytes and room; \<open>func\<close> decodes one.\<close>

partial_function (option) static_items ::
  "(int \<Rightarrow> 's dec) \<Rightarrow> pb_field \<Rightarrow> bool \<Rightarrow> int \<Rightarrow> int \<Rightarrow> 's dstate \<Rightarrow> (bool \<times> 's dstate) option" where
  "static_items func field loc pData pSize st =
     (if bytes_left (inp st) > 0 \<and> counter loc pSize st < array_size field then
        (case func (pData + item_offset field (counter loc pSize st)) st of
           None \<Rightarrow> None
         | Some (ok, st) \<Rightarrow>
             if ok then static_items func field loc pData pSize (set_counter loc pSize (counter loc pSize st + 1) st)
             else Some (False, st))
      else Some (True, st))"

definition decode_static_field ::
  "(nat \<Rightarrow> int \<Rightarrow> 's dec) \<Rightarrow> nat \<Rightarrow> 's pb_denv \<Rightarrow> u32 \<Rightarrow> bool \<Rightarrow> pb_field \<Rightarrow> int \<Rightarrow> int \<Rightarrow> 's dec" where
  "decode_static_field sub n env wire_type loc field pData pSize st =
     (let h = PB_HTYPE (f_type field); l = PB_LTYPE (f_type field); func = PB_DECODERS sub n env field
      in if h = PB_HTYPE_REQUIRED then func pData st
         else if h = PB_HTYPE_OPTIONAL then
           (if pSize \<noteq> pData then storing pSize [1] (func pData) st else func pData st)
         else if h = PB_HTYPE_REPEATED then
           (if wire_type = PB_WT_STRING \<and> l \<le> PB_LTYPE_LAST_PACKABLE then
              open_sub env (\<lambda>parent st.
                case static_items func field loc pData pSize st of
                  None \<Rightarrow> None
                | Some (status, st) \<Rightarrow>
                    if bytes_left (inp st) \<noteq> 0 then d_fails ''array overflow'' (st\<lparr>inp := parent\<rparr>)
                    else close_sub env parent status st) st
            else
              let sz = counter loc pSize st; st = set_counter loc pSize (sz + 1) st
              in if sz \<ge> array_size field then d_fails ''array overflow'' st
                 else func (pData + item_offset field sz) st)
         else if h = PB_HTYPE_ONEOF then
           and_then
             (if l = PB_LTYPE_SUBMESSAGE \<and> load 4 (dmem st) pSize \<noteq> f_tag field
              then on_mem (\<lambda>m. pb_message_set_to_defaults n env (f_ptr field) pData
                                  (store pData (replicate (data_size field) 0) m))
              else succeed)
             (storing pSize (le_bytes 4 (f_tag field)) (func pData)) st
         else d_fails ''invalid field type'' st)"

section \<open>Pointer fields\<close>

definition initialize_pointer_field :: "nat \<Rightarrow> 's pb_denv \<Rightarrow> pb_field \<Rightarrow> int \<Rightarrow> u8 list \<Rightarrow> u8 list option" where
  "initialize_pointer_field n env field pItem m =
     (let l = PB_LTYPE (f_type field)
      in if l = PB_LTYPE_STRING \<or> l = PB_LTYPE_BYTES then Some (store pItem (le_bytes 8 0) m)
         else if l = PB_LTYPE_SUBMESSAGE then
           pb_message_set_to_defaults n env (f_ptr field) pItem (store pItem (replicate (data_size field) 0) m)
         else Some m)"

text \<open>How much storage a packed array gets when it is full: \<open>allocated\<close> items and the number
  that the remaining \<open>left\<close> bytes may hold.\<close>

definition grown_size :: "pb_field \<Rightarrow> nat \<Rightarrow> nat \<Rightarrow> nat" where
  "grown_size field left allocated =
     (let remain = (left - 1) div data_size field + 1
      in if remain < sz_sub PB_SIZE_MAX allocated then allocated + remain else allocated + 1)"

text \<open>The items of a packed array. The result has the parent stream too, which gets the error
  message of a full array.\<close>

partial_function (option) pointer_items ::
  "(int \<Rightarrow> 's dec) \<Rightarrow> nat \<Rightarrow> 's pb_denv \<Rightarrow> pb_field \<Rightarrow> bool \<Rightarrow> int \<Rightarrow> int \<Rightarrow> nat \<Rightarrow> 's istream \<Rightarrow> 's dstate \<Rightarrow>
     (bool \<times> 's istream \<times> 's dstate) option" where
  "pointer_items func n env field loc pData pSize allocated parent st =
     (if bytes_left (inp st) = 0 then Some (True, parent, st)
      else if counter loc pSize st = PB_SIZE_MAX
      then Some (False, parent\<lparr>is_errmsg := Some ''too many array entries''\<rparr>, st)
      else
        let full = counter loc pSize st + 1 > allocated;
            allocated = (if full then grown_size field (bytes_left (inp st)) allocated else allocated)
        in case (if full then allocate_at env pData (data_size field) allocated else succeed) st of
             None \<Rightarrow> None
           | Some (ok, st) \<Rightarrow>
               if \<not> ok then Some (False, parent, st)
               else
                 let pItem = int (load 8 (dmem st) pData) + item_offset field (counter loc pSize st)
                 in case and_then (on_mem (initialize_pointer_field n env field pItem)) (func pItem) st of
                      None \<Rightarrow> None
                    | Some (ok, st) \<Rightarrow>
                        if ok
                        then pointer_items func n env field loc pData pSize allocated parent
                               (set_counter loc pSize (counter loc pSize st + 1) st)
                        else Some (False, parent, st))"

definition decode_pointer_field ::
  "(nat \<Rightarrow> int \<Rightarrow> 's dec) \<Rightarrow> nat \<Rightarrow> 's pb_denv \<Rightarrow> u32 \<Rightarrow> bool \<Rightarrow> int \<Rightarrow> pb_field_iter \<Rightarrow> 's dec" where
  "decode_pointer_field sub n env wire_type loc dest iter st =
     (let field = field_at iter; pData = dest + it_pData iter; pSize = dest + it_pSize iter;
          h = PB_HTYPE (f_type field); l = PB_LTYPE (f_type field); func = PB_DECODERS sub n env field
      in if h = PB_HTYPE_REQUIRED \<or> h = PB_HTYPE_OPTIONAL \<or> h = PB_HTYPE_ONEOF then
           and_then
             (if l = PB_LTYPE_SUBMESSAGE \<and> load 8 (dmem st) pData \<noteq> 0
              then on_mem (pb_release_single_field n env dest iter) else succeed)
             ((if h = PB_HTYPE_ONEOF then storing pSize (le_bytes 4 (f_tag field)) else (\<lambda>g. g))
                (if l = PB_LTYPE_STRING \<or> l = PB_LTYPE_BYTES then func pData
                 else
                   and_then (allocate_at env pData (data_size field) 1)
                     (\<lambda>st.
                        let p = int (load 8 (dmem st) pData)
                        in and_then (on_mem (initialize_pointer_field n env field p))
                             (\<lambda>st. func (int (load 8 (dmem st) pData)) st) st)))
             st
         else if h = PB_HTYPE_REPEATED then
           (if wire_type = PB_WT_STRING \<and> l \<le> PB_LTYPE_LAST_PACKABLE then
              open_sub env (\<lambda>parent st.
                case pointer_items func n env field loc pData pSize (counter loc pSize st) parent st of
                  None \<Rightarrow> None
                | Some (status, parent, st) \<Rightarrow> close_sub env parent status st) st
            else
              let sz = counter loc pSize st
              in if sz = PB_SIZE_MAX then d_fails ''too many array entries'' st
                 else
                   and_then (allocate_at env pData (data_size field) (sz + 1))
                     (\<lambda>st.
                        let sz = counter loc pSize st;
                            pItem = int (load 8 (dmem st) pData) + item_offset field sz;
                            st = set_counter loc pSize (sz + 1) st
                        in and_then (on_mem (initialize_pointer_field n env field pItem)) (func pItem) st)
                     st)
         else d_fails ''invalid field type'' st)"

end
