(* ===== verification/Pb_Decode_Message.thy ===== *)
theory Pb_Decode_Message
  imports Pb_Decode_Field
begin

text \<open>
  Callback fields, oneof, extensions and the loop over the fields of a message
  (\<open>nanopb/pb_decode.c\<close>). A local variable that the code passes by its address is part of the
  state (\<open>fixed_count_size\<close>) or of the result.
\<close>

section \<open>Callback fields\<close>

partial_function (option) callback_loop ::
  "('s dstate \<Rightarrow> bool \<times> 's dstate) \<Rightarrow> 's istream \<Rightarrow> 's dstate \<Rightarrow> (bool \<times> 's istream \<times> 's dstate) option" where
  "callback_loop f parent st =
     (case f st of
        (ok, st) \<Rightarrow>
          if \<not> ok then Some (False, snd (PB_RETURN_ERROR parent ''callback failed'' :: unit option \<times> _), st)
          else if bytes_left (inp st) \<noteq> 0 then callback_loop f parent st
          else Some (True, parent, st))"

definition decode_callback_field :: "'s pb_denv \<Rightarrow> u32 \<Rightarrow> pb_field \<Rightarrow> int \<Rightarrow> 's dec" where
  "decode_callback_field env wire_type field pData st =
     (let f = load 8 (dmem st) pData
      in if pData = 0 \<or> f = 0 then reading (pb_skip_field (d_source env) wire_type) (\<lambda>_. succeed) st
         else if wire_type = PB_WT_STRING then
           open_sub env (\<lambda>parent st.
             case callback_loop (decode_fun env f field (pData + 8)) parent st of
               None \<Rightarrow> None
             | Some (False, parent, st) \<Rightarrow> Some (False, st\<lparr>inp := parent\<rparr>)
             | Some (True, parent, st) \<Rightarrow> close_sub env parent True st) st
         else
           reading (read_raw_value (d_source env) wire_type 10) (\<lambda>buffer st.
             case decode_buf_fun env f field (pData + 8)
                    \<lparr>dmem = dmem st, fixed_count_size = fixed_count_size st,
                     inp = pb_istream_from_buffer buffer (length buffer)\<rparr> of
               (status, sub) \<Rightarrow>
                 Some (status, st\<lparr>dmem := dmem sub, fixed_count_size := fixed_count_size sub\<rparr>)) st)"

section \<open>Oneof\<close>

text \<open>What was in the union is released before a field of another tag goes there.\<close>

definition pb_release_union_field ::
  "nat \<Rightarrow> 's pb_denv \<Rightarrow> int \<Rightarrow> pb_field_iter \<Rightarrow> 's dstate \<Rightarrow> (bool \<times> pb_field_iter \<times> 's dstate) option" where
  "pb_release_union_field n env dest iter st =
     (let old_tag = load 4 (dmem st) (dest + it_pSize iter); new_tag = f_tag (field_at iter);
          failed = (\<lambda>iter msg st. map_option (\<lambda>(ok, st). (ok, iter, st)) (d_fails msg st))
      in if old_tag = 0 then Some (True, iter, st)
         else if old_tag = new_tag then Some (True, iter, st)
         else
           case pb_field_iter_find iter old_tag of
             None \<Rightarrow> None
           | Some (False, iter) \<Rightarrow> failed iter ''invalid union tag'' st
           | Some (True, iter) \<Rightarrow>
               (case pb_release_single_field n env dest iter (dmem st) of
                  None \<Rightarrow> None
                | Some m \<Rightarrow>
                    let st = st\<lparr>dmem := m\<rparr>
                    in case pb_field_iter_find iter new_tag of
                         None \<Rightarrow> None
                       | Some (False, iter) \<Rightarrow> failed iter ''iterator error'' st
                       | Some (True, iter) \<Rightarrow>
                           Some (True, iter,
                             if PB_ATYPE (f_type (field_at iter)) = PB_ATYPE_POINTER
                             then st\<lparr>dmem := store (dest + it_pData iter) (le_bytes 8 0) (dmem st)\<rparr> else st)))"

definition decode_field ::
  "(nat \<Rightarrow> int \<Rightarrow> 's dec) \<Rightarrow> nat \<Rightarrow> 's pb_denv \<Rightarrow> u32 \<Rightarrow> bool \<Rightarrow> int \<Rightarrow> pb_field_iter \<Rightarrow> 's dstate \<Rightarrow>
     (bool \<times> pb_field_iter \<times> 's dstate) option" where
  "decode_field sub n env wire_type loc dest iter st =
     (case (if PB_HTYPE (f_type (field_at iter)) = PB_HTYPE_ONEOF then pb_release_union_field n env dest iter st
            else Some (True, iter, st)) of
        None \<Rightarrow> None
      | Some (False, iter, st) \<Rightarrow> Some (False, iter, st)
      | Some (True, iter, st) \<Rightarrow>
          (let field = field_at iter; a = PB_ATYPE (f_type field);
               pData = dest + it_pData iter; pSize = dest + it_pSize iter
           in map_option (\<lambda>(ok, st). (ok, iter, st))
                ((if a = PB_ATYPE_STATIC then decode_static_field sub n env wire_type loc field pData pSize
                  else if a = PB_ATYPE_POINTER then decode_pointer_field sub n env wire_type loc dest iter
                  else if a = PB_ATYPE_CALLBACK then decode_callback_field env wire_type field pData
                  else d_fails ''invalid field type'') st)))"

section \<open>Extensions\<close>

definition default_extension_decoder ::
  "(nat \<Rightarrow> int \<Rightarrow> 's dec) \<Rightarrow> nat \<Rightarrow> 's pb_denv \<Rightarrow> nat \<Rightarrow> u32 \<Rightarrow> u32 \<Rightarrow> 's dec" where
  "default_extension_decoder sub n env x tag wire_type st =
     (let field = fields_at env (load 8 (dmem st) (int (load 8 (dmem st) (int x)) + 16)) ! 0
      in if f_tag field \<noteq> unat tag then succeed st
         else
           case iter_from_extension env (dmem st) x of
             (dest, iter) \<Rightarrow>
               map_option (\<lambda>(ok, iter, st). (ok, st))
                 (decode_field sub n env wire_type False dest iter (st\<lparr>dmem := store (int x + 24) [1] (dmem st)\<rparr>)))"

text \<open>\<open>pos\<close> is \<open>bytes_left\<close> at the start: the walk ends as soon as one has read something.\<close>

partial_function (option) extension_loop ::
  "(nat \<Rightarrow> 's dec) \<Rightarrow> nat \<Rightarrow> nat \<Rightarrow> 's dstate \<Rightarrow> (bool \<times> 's dstate) option" where
  "extension_loop f pos x st =
     (if x \<noteq> 0 \<and> pos = bytes_left (inp st) then
        (case f x st of
           None \<Rightarrow> None
         | Some (ok, st) \<Rightarrow>
             if ok then extension_loop f pos (load 8 (dmem st) (int x + 16)) st else Some (False, st))
      else Some (True, st))"

definition decode_extension ::
  "(nat \<Rightarrow> int \<Rightarrow> 's dec) \<Rightarrow> nat \<Rightarrow> 's pb_denv \<Rightarrow> u32 \<Rightarrow> u32 \<Rightarrow> int \<Rightarrow> 's dec" where
  "decode_extension sub n env tag wire_type pData st =
     extension_loop
       (\<lambda>x st.
          let f = load 8 (dmem st) (int (load 8 (dmem st) (int x)))
          in if f \<noteq> 0 then returns (ext_decode_fun env f x tag wire_type) st
             else default_extension_decoder sub n env x tag wire_type st)
       (bytes_left (inp st)) (load 8 (dmem st) pData) st"

text \<open>\<open>k\<close> bounds the steps round the descriptors.\<close>

fun find_extension_loop :: "nat \<Rightarrow> nat \<Rightarrow> pb_field_iter \<Rightarrow> (bool \<times> pb_field_iter) option" where
  "find_extension_loop 0 start iter = None"
| "find_extension_loop (Suc k) start iter =
     (if PB_LTYPE (f_type (field_at iter)) = PB_LTYPE_EXTENSION then Some (True, iter)
      else
        let iter = snd (pb_field_iter_next iter)
        in if it_pos iter \<noteq> start then find_extension_loop k start iter else Some (False, iter))"

definition find_extension_field :: "pb_field_iter \<Rightarrow> (bool \<times> pb_field_iter) option" where
  "find_extension_field iter = find_extension_loop (length (it_start iter)) (it_pos iter) iter"

section \<open>Messages\<close>

definition PB_MAX_REQUIRED_FIELDS :: nat where
  "PB_MAX_REQUIRED_FIELDS = 64"

text \<open>The local variables of \<open>pb_decode_noinit\<close>.\<close>

record dlocals =
  fields_seen :: "u32 list"
  extension_range_start :: u32
  d_iter :: pb_field_iter
  fixed_count_field :: "nat option"

datatype flow = Again | Break | Return_false

text \<open>\<open>fixed_count_size != fixed_count_field->array_size\<close>\<close>

definition fixed_count_wrong :: "dlocals \<Rightarrow> 's dstate \<Rightarrow> bool" where
  "fixed_count_wrong l st =
     (case fixed_count_field l of
        None \<Rightarrow> False
      | Some pos \<Rightarrow> fixed_count_size st \<noteq> array_size (it_start (d_iter l) ! pos))"

text \<open>A tag without a field: an extension or data to skip.\<close>

definition decode_unknown ::
  "(nat \<Rightarrow> int \<Rightarrow> 's dec) \<Rightarrow> nat \<Rightarrow> 's pb_denv \<Rightarrow> int \<Rightarrow> u32 \<Rightarrow> u32 \<Rightarrow> dlocals \<Rightarrow> 's dstate \<Rightarrow>
     (flow \<times> dlocals \<times> 's dstate) option" where
  "decode_unknown sub n env dest tag wire_type l st =
     (let skip = (\<lambda>l st. map_option (\<lambda>(ok, st). (if ok then Again else Return_false, l, st))
                           (reading (pb_skip_field (d_source env) wire_type) (\<lambda>_. succeed) st))
      in if tag \<ge> extension_range_start l then
           (case find_extension_field (d_iter l) of
              None \<Rightarrow> None
            | Some (found, iter) \<Rightarrow>
                let l = l\<lparr>d_iter := iter,
                          extension_range_start := (if found then word_of_nat (f_tag (field_at iter)) else -1)\<rparr>
                in if tag \<ge> extension_range_start l then
                     (case decode_extension sub n env tag wire_type (dest + it_pData iter) st of
                        None \<Rightarrow> None
                      | Some (False, st) \<Rightarrow> Some (Return_false, l, st)
                      | Some (True, st') \<Rightarrow>
                          if bytes_left (inp st) \<noteq> bytes_left (inp st') then Some (Again, l, st') else skip l st')
                   else skip l st)
         else skip l st)"

text \<open>A tag with a field, on which the iterator stands.\<close>

definition decode_known ::
  "(nat \<Rightarrow> int \<Rightarrow> 's dec) \<Rightarrow> nat \<Rightarrow> 's pb_denv \<Rightarrow> int \<Rightarrow> u32 \<Rightarrow> dlocals \<Rightarrow> 's dstate \<Rightarrow>
     (flow \<times> dlocals \<times> 's dstate) option" where
  "decode_known sub n env dest wire_type l st =
     (let iter = d_iter l; field = field_at iter; h = PB_HTYPE (f_type field);
          loc = (h = PB_HTYPE_REPEATED \<and> it_pSize iter = it_pData iter);
          new = (loc \<and> fixed_count_field l \<noteq> Some (it_pos iter))
      in if new \<and> fixed_count_wrong l st
         then map_option (\<lambda>(_, st). (Return_false, l, st)) (d_fails ''wrong size for fixed count field'' st)
         else
           let l = (if new then l\<lparr>fixed_count_field := Some (it_pos iter)\<rparr> else l);
               st = (if new then st\<lparr>fixed_count_size := 0\<rparr> else st);
               r = required_field_index iter;
               l = (if h = PB_HTYPE_REQUIRED \<and> r < PB_MAX_REQUIRED_FIELDS
                    then l\<lparr>fields_seen := (fields_seen l)[r div 32 := fields_seen l ! (r div 32) OR push_bit (r mod 32) 1]\<rparr>
                    else l)
           in case decode_field sub n env wire_type loc dest iter st of
                None \<Rightarrow> None
              | Some (ok, iter, st) \<Rightarrow> Some (if ok then Again else Return_false, l\<lparr>d_iter := iter\<rparr>, st))"

definition decode_step ::
  "(nat \<Rightarrow> int \<Rightarrow> 's dec) \<Rightarrow> nat \<Rightarrow> 's pb_denv \<Rightarrow> int \<Rightarrow> dlocals \<Rightarrow> 's dstate \<Rightarrow> (flow \<times> dlocals \<times> 's dstate) option" where
  "decode_step sub n env dest l st =
     (case pb_decode_tag (d_source env) (inp st) of
        (None, eof, s) \<Rightarrow> Some (if eof then Break else Return_false, l, st\<lparr>inp := s\<rparr>)
      | (Some (wire_type, tag), eof, s) \<Rightarrow>
          (case pb_field_iter_find (d_iter l) (unat tag) of
             None \<Rightarrow> None
           | Some (False, iter) \<Rightarrow> decode_unknown sub n env dest tag wire_type (l\<lparr>d_iter := iter\<rparr>) (st\<lparr>inp := s\<rparr>)
           | Some (True, iter) \<Rightarrow> decode_known sub n env dest wire_type (l\<lparr>d_iter := iter\<rparr>) (st\<lparr>inp := s\<rparr>)))"

partial_function (option) fields_loop ::
  "(dlocals \<Rightarrow> 's dstate \<Rightarrow> (flow \<times> dlocals \<times> 's dstate) option) \<Rightarrow> dlocals \<Rightarrow> 's dstate \<Rightarrow>
     (bool \<times> dlocals \<times> 's dstate) option" where
  "fields_loop step l st =
     (if bytes_left (inp st) = 0 then Some (True, l, st)
      else
        case step l st of
          None \<Rightarrow> None
        | Some (flow, l, st) \<Rightarrow>
            if flow = Again then fields_loop step l st else Some (flow = Break, l, st))"

text \<open>The number of required fields: the iterator goes to the end of the array and wraps.\<close>

fun count_required :: "nat \<Rightarrow> pb_field_iter \<Rightarrow> (nat \<times> u8 \<times> pb_field_iter) option" where
  "count_required 0 iter = None"
| "count_required (Suc k) iter =
     (let req_field_count = required_field_index iter; last_type = f_type (field_at iter)
      in case pb_field_iter_next iter of
           (again, iter) \<Rightarrow> if again then count_required k iter else Some (req_field_count, last_type, iter))"

definition required_seen :: "u32 list \<Rightarrow> nat \<Rightarrow> bool" where
  "required_seen seen req =
     (req = 0 \<or>
      list_all (\<lambda>w. w = -1) (take (req div 32) seen) \<and>
      (req mod 32 = 0 \<or> seen ! (req div 32) = drop_bit (32 - req mod 32) (-1)))"

definition check_end :: "dlocals \<Rightarrow> 's dec" where
  "check_end l st =
     (if fixed_count_wrong l st then d_fails ''wrong size for fixed count field'' st
      else
        case count_required (length (it_start (d_iter l))) (d_iter l) of
          None \<Rightarrow> None
        | Some (req, last_type, iter) \<Rightarrow>
            let req = (if PB_HTYPE last_type = PB_HTYPE_REQUIRED \<and> f_tag (field_at iter) \<noteq> 0 then req + 1 else req)
            in if required_seen (fields_seen l) (min req PB_MAX_REQUIRED_FIELDS) then succeed st
               else d_fails ''missing required field'' st)"

text \<open>\<open>n\<close> is the nesting of messages allowed. The caller's \<open>fixed_count_size\<close> is its own.\<close>

fun pb_decode_noinit :: "nat \<Rightarrow> 's pb_denv \<Rightarrow> nat \<Rightarrow> int \<Rightarrow> 's dec" where
  "pb_decode_noinit 0 env desc dest st = None"
| "pb_decode_noinit (Suc n) env desc dest st =
     map_option (\<lambda>(ok, st'). (ok, st'\<lparr>fixed_count_size := fixed_count_size st\<rparr>))
       (case fields_loop (decode_step (pb_decode_noinit n env) (Suc n) env dest)
               \<lparr>fields_seen = [0, 0], extension_range_start = 0,
                d_iter = snd (pb_field_iter_begin (fields_at env desc)), fixed_count_field = None\<rparr>
               (st\<lparr>fixed_count_size := 0\<rparr>) of
          None \<Rightarrow> None
        | Some (False, l, st) \<Rightarrow> Some (False, st)
        | Some (True, l, st) \<Rightarrow> check_end l st)"

definition pb_decode :: "nat \<Rightarrow> 's pb_denv \<Rightarrow> nat \<Rightarrow> int \<Rightarrow> 's dec" where
  "pb_decode n env desc dest = decode_with (pb_decode_noinit n env) n env desc dest"

definition pb_decode_delimited_noinit :: "nat \<Rightarrow> 's pb_denv \<Rightarrow> nat \<Rightarrow> int \<Rightarrow> 's dec" where
  "pb_decode_delimited_noinit n env desc dest =
     open_sub env (\<lambda>parent st.
       case pb_decode_noinit n env desc dest st of
         None \<Rightarrow> None
       | Some (status, st) \<Rightarrow> close_sub env parent status st)"

definition pb_decode_delimited :: "nat \<Rightarrow> 's pb_denv \<Rightarrow> nat \<Rightarrow> int \<Rightarrow> 's dec" where
  "pb_decode_delimited n env desc dest =
     open_sub env (\<lambda>parent st.
       case pb_decode n env desc dest st of
         None \<Rightarrow> None
       | Some (status, st) \<Rightarrow> close_sub env parent status st)"

definition pb_decode_nullterminated :: "nat \<Rightarrow> 's pb_denv \<Rightarrow> nat \<Rightarrow> int \<Rightarrow> 's dec" where
  "pb_decode_nullterminated n env desc dest = pb_decode n env desc dest"

end
