(* ===== verification/Pb_Reader.thy ===== *)
theory Pb_Reader
  imports Pb_Read
begin

text \<open>
  How much a reader of \<open>pb_decode.c\<close> takes from its stream, on any source: \<open>bytes_left\<close> never
  grows, and a value read has cost at least a byte.
\<close>

definition takes :: "bool \<Rightarrow> ('s istream \<Rightarrow> 'a option \<times> 's istream) \<Rightarrow> bool" where
  "takes strict r \<longleftrightarrow>
     (\<forall>s v s'. r s = (v, s') \<longrightarrow>
        bytes_left s' \<le> bytes_left s \<and> (strict \<and> v \<noteq> None \<longrightarrow> bytes_left s' < bytes_left s))"

lemma takesD: "takes strict r \<Longrightarrow> r s = (v, s') \<Longrightarrow> bytes_left s' \<le> bytes_left s"
  by (auto simp: takes_def)

lemma takes_strictD: "takes True r \<Longrightarrow> r s = (Some v, s') \<Longrightarrow> bytes_left s' < bytes_left s"
  by (auto simp: takes_def)

lemma takes_weaken: "takes strict r \<Longrightarrow> takes False r"
  by (auto simp: takes_def)

text \<open>One reader after another.\<close>

lemma takes_bind:
  assumes "takes b r" and "\<And>v. takes False (g v)"
    and "\<And>s. h s = (case r s of (None, s) \<Rightarrow> (None, s) | (Some v, s) \<Rightarrow> g v s)"
  shows "takes b h"
  unfolding takes_def
proof (intro allI impI)
  fix s v s'
  assume h: "h s = (v, s')"
  obtain u t where r: "r s = (u, t)" by fastforce
  show "bytes_left s' \<le> bytes_left s \<and> (b \<and> v \<noteq> None \<longrightarrow> bytes_left s' < bytes_left s)"
  proof (cases u)
    case None
    with h r assms(3) have "s' = t" "v = None" by auto
    with takesD [OF assms(1) r] show ?thesis by simp
  next
    case (Some w)
    with h r assms(3) have g: "g w t = (v, s')" by auto
    have "bytes_left t < bytes_left s" if b using assms(1) r that unfolding Some takes_def by blast
    with takesD [OF assms(2) g] takesD [OF assms(1) r] show ?thesis by fastforce
  qed
qed

lemma takes_error [simp]: "takes b (\<lambda>s. PB_RETURN_ERROR s msg)"
  by (auto simp: takes_def PB_RETURN_ERROR_def)

lemma takes_value [simp]: "takes False (\<lambda>s. (Some v, s))"
  by (auto simp: takes_def)

lemma takes_if: "(c \<Longrightarrow> takes b f) \<Longrightarrow> (\<not> c \<Longrightarrow> takes b g) \<Longrightarrow> takes b (\<lambda>s. if c then f s else g s)"
  by (cases c) simp_all

section \<open>The readers\<close>

lemma takes_pb_read: "takes (n \<noteq> 0) (pb_read src n)"
  by (auto simp: takes_def pb_read_def read_checked_def PB_RETURN_ERROR_def split: if_splits prod.splits option.splits)

lemma takes_skip_input: "takes False (skip_input src n)"
proof (induction n rule: less_induct)
  case (less n)
  note rd = takes_weaken [OF takes_pb_read]
  have h: "skip_input src n s =
     (case pb_read src (if n > 16 then 16 else n) s of
        (None, s) \<Rightarrow> (None, s) | (Some _, s) \<Rightarrow> if n > 16 then skip_input src (n - 16) s else (Some (), s))" for s
    by (subst skip_input.simps) (simp split: prod.split option.split)
  have "takes False (\<lambda>s. if n > 16 then skip_input src (n - 16) s else (Some (), s))"
    using less by (intro takes_if) simp_all
  from takes_bind [OF rd this, of "skip_input src n"] h show ?case by blast
qed

lemma takes_pb_read_null: "takes False (pb_read_null src n)"
proof -
  have "takes False (\<lambda>s. case read_checked src n s of (None, s) \<Rightarrow> (None, s) | (Some _, s) \<Rightarrow> (Some (), s))"
    by (auto simp: takes_def read_checked_def PB_RETURN_ERROR_def split: if_splits prod.splits option.splits)
  with takes_skip_input [of src n] show ?thesis
    by (auto simp: takes_def pb_read_null_def split: if_splits)
qed

lemma takes_pb_readbyte: "takes True (pb_readbyte src)"
  by (auto simp: takes_def pb_readbyte_def PB_RETURN_ERROR_def split: if_splits prod.splits option.splits)

lemma takes_varint32_loop: "takes True (varint32_loop src bitpos result)"
proof -
  have "varint32_loop src bitpos result s = (v, s') \<Longrightarrow>
      bytes_left s' \<le> bytes_left s \<and> (v \<noteq> None \<longrightarrow> bytes_left s' < bytes_left s)" for s v s'
  proof (induction "bytes_left s" arbitrary: bitpos result s rule: less_induct)
    case less
    obtain u s1 where r: "pb_readbyte src s = (u, s1)" by fastforce
    note step = takesD [OF takes_pb_readbyte r]
    show ?case
    proof (cases u)
      case None
      with less.prems step show ?thesis unfolding varint32_loop.simps [of src bitpos result s] r by simp
    next
      case (Some byte)
      from takes_strictD [OF takes_pb_readbyte r [unfolded Some]] have lt: "bytes_left s1 < bytes_left s" .
      with less.prems show ?thesis
        unfolding varint32_loop.simps [of src bitpos result s] r Some
        by (auto simp: Let_def PB_RETURN_ERROR_def dest!: less.hyps [OF lt] split: if_splits)
    qed
  qed
  then show ?thesis by (simp add: takes_def)
qed

lemma takes_varint_loop: "takes True (varint_loop src bitpos result)"
proof -
  have "varint_loop src bitpos result s = (v, s') \<Longrightarrow>
      bytes_left s' \<le> bytes_left s \<and> (v \<noteq> None \<longrightarrow> bytes_left s' < bytes_left s)" for s v s'
  proof (induction "bytes_left s" arbitrary: bitpos result s rule: less_induct)
    case less
    obtain u s1 where r: "pb_readbyte src s = (u, s1)" by fastforce
    note step = takesD [OF takes_pb_readbyte r]
    show ?case
    proof (cases u)
      case None
      with less.prems step show ?thesis unfolding varint_loop.simps [of src bitpos result s] r
        by (auto simp: PB_RETURN_ERROR_def split: if_splits)
    next
      case (Some byte)
      from takes_strictD [OF takes_pb_readbyte r [unfolded Some]] have lt: "bytes_left s1 < bytes_left s" .
      with less.prems show ?thesis
        unfolding varint_loop.simps [of src bitpos result s] r Some
        by (auto simp: Let_def PB_RETURN_ERROR_def dest!: less.hyps [OF lt] split: if_splits)
    qed
  qed
  then show ?thesis by (simp add: takes_def)
qed

lemma takes_pb_decode_varint: "takes True (pb_decode_varint src)"
proof -
  have "pb_decode_varint src = varint_loop src 0 0" by (simp add: fun_eq_iff pb_decode_varint_def)
  with takes_varint_loop [of src 0 0] show ?thesis by simp
qed

lemma takes_pb_decode_varint32_eof:
  "takes True (\<lambda>s. case pb_decode_varint32_eof src s of (r, s, eof) \<Rightarrow> (r, s))"
proof (rule takes_bind [OF takes_pb_readbyte])
  let ?g = "\<lambda>byte s. if byte AND 0x80 = 0 then (Some (ucast byte), s)
      else case varint32_loop src 7 (ucast (byte AND 0x7F :: u8)) s of
             (None, s) \<Rightarrow> (None, s)
           | (Some (result, bitpos, byte), s) \<Rightarrow>
               if bitpos = 35 \<and> byte AND 0x70 \<noteq> 0 then PB_RETURN_ERROR s ''varint overflow'' else (Some (result :: u32), s)"
  show "takes False (?g byte)" for byte
  proof (rule takes_if)
    show "takes False (\<lambda>s. case varint32_loop src 7 (ucast (byte AND 0x7F)) s of
             (None, s) \<Rightarrow> (None, s)
           | (Some (result, bitpos, byte), s) \<Rightarrow>
               if bitpos = 35 \<and> byte AND 0x70 \<noteq> 0 then PB_RETURN_ERROR s ''varint overflow'' else (Some result, s))"
    proof (rule takes_bind [OF takes_weaken [OF takes_varint32_loop]])
      show "takes False (\<lambda>s. case v of (result, bitpos, byte) \<Rightarrow>
          if bitpos = 35 \<and> byte AND 0x70 \<noteq> 0 then PB_RETURN_ERROR s ''varint overflow'' else (Some result, s))" for v :: "u32 \<times> nat \<times> u8"
        by (cases v) (auto simp: takes_def PB_RETURN_ERROR_def split: if_splits)
    qed (simp split: prod.split option.split)
  qed simp
  show "(case pb_decode_varint32_eof src s of (r, s, eof) \<Rightarrow> (r, s)) =
      (case pb_readbyte src s of (None, s) \<Rightarrow> (None, s) | (Some v, s) \<Rightarrow> ?g v s)" for s
    by (auto simp: pb_decode_varint32_eof_def PB_RETURN_ERROR_def split: prod.splits option.splits if_splits)
qed

lemma takes_pb_decode_varint32: "takes True (pb_decode_varint32 src)"
  using takes_pb_decode_varint32_eof unfolding pb_decode_varint32_def takes_def by simp

lemma takes_pb_decode_svarint: "takes True (pb_decode_svarint src)"
  using takes_pb_decode_varint [of src]
  by (auto simp: takes_def pb_decode_svarint_def split: prod.splits option.splits)

lemma takes_pb_decode_fixed: "takes True (pb_decode_fixed32 src)" "takes True (pb_decode_fixed64 src)"
  using takes_pb_read [of 4 src] takes_pb_read [of 8 src]
  by (auto simp: takes_def pb_decode_fixed32_def pb_decode_fixed64_def split: prod.splits option.splits)

lemma takes_pb_skip_varint: "takes False (pb_skip_varint src)"
proof -
  have "bytes_left (snd (pb_skip_varint src s)) \<le> bytes_left s" for s
  proof (induction src s rule: pb_skip_varint.induct)
    case (1 src s)
    obtain v s1 where r: "pb_read src 1 s = (v, s1)" by fastforce
    note le = takesD [OF takes_pb_read r]
    show ?case
    proof (cases v)
      case None
      with r le show ?thesis by (subst pb_skip_varint.simps) simp
    next
      case (Some bs)
      from "1.IH" [OF r [symmetric] Some] r le Some show ?thesis
        by (subst pb_skip_varint.simps) (auto split: if_splits)
    qed
  qed
  then show ?thesis unfolding takes_def by (metis snd_conv)
qed

lemma takes_pb_skip_field: "takes False (pb_skip_field src wire_type)"
proof -
  have "takes False (pb_skip_string src)"
    by (rule takes_bind [OF takes_weaken [OF takes_pb_decode_varint32] takes_pb_read_null])
       (simp add: pb_skip_string_def)
  then show ?thesis
    using takes_pb_skip_varint [of src] takes_pb_read_null [of src 8] takes_pb_read_null [of src 4]
    by (auto simp: takes_def pb_skip_field_def PB_RETURN_ERROR_def split: if_splits)
qed

text \<open>A tag costs a byte and is below \<open>2 ^ 29\<close>.\<close>

lemma pb_decode_tag_takes:
  "pb_decode_tag src s = (r, eof, s') \<Longrightarrow>
     bytes_left s' \<le> bytes_left s \<and> (r \<noteq> None \<longrightarrow> bytes_left s' < bytes_left s)"
  using takes_pb_decode_varint32_eof [of src]
  by (fastforce simp: takes_def pb_decode_tag_def split: prod.splits option.splits if_splits)

lemma pb_decode_tag_less: "pb_decode_tag src s = (Some (wt, tag), eof, s') \<Longrightarrow> unat tag < 2 ^ 29"
proof -
  have "unat (drop_bit 3 (t :: u32)) < 2 ^ 29" for t
    using unsigned_less [of t, where ?'a = nat] by (simp only: unat_drop_bit_eq) (simp add: drop_bit_eq_div less_mult_imp_div_less)
  then show "pb_decode_tag src s = (Some (wt, tag), eof, s') \<Longrightarrow> ?thesis"
    by (auto simp: pb_decode_tag_def split: prod.splits option.splits if_splits)
qed

text \<open>A substream and its parent share the bytes that were there, less the length.\<close>

lemma make_substream_takes:
  "pb_make_string_substream src s = (r, p) \<Longrightarrow>
     (case r of None \<Rightarrow> bytes_left p \<le> bytes_left s | Some sub \<Rightarrow> bytes_left sub + bytes_left p < bytes_left s)"
  using takes_pb_decode_varint32 [of src]
  by (fastforce simp: takes_def pb_make_string_substream_def PB_RETURN_ERROR_def split: prod.splits option.splits if_splits)

lemma close_substream_takes: "pb_close_string_substream src sub p = (r, p') \<Longrightarrow> bytes_left p' = bytes_left p"
  by (auto simp: pb_close_string_substream_def split: prod.splits option.splits if_splits)

end
