(* ===== verification/Pb_Decode_Safe.thy ===== *)
theory Pb_Decode_Safe
  imports Pb_Layout Pb_Decode_Message Pb_Reader
begin

text \<open>
  The decoder on a structure whose layout fits: it returns, whatever the input is, and
  changes no byte of the memory outside the structure.
\<close>

section \<open>Safe operations\<close>

text \<open>\<open>f\<close> returns, changes memory from \<open>lo\<close> to \<open>hi - 1\<close> only and lets \<open>bytes_left\<close> never grow;
  with \<open>b\<close>, it succeeds only after having read something.\<close>

definition safe :: "nat \<Rightarrow> nat \<Rightarrow> bool \<Rightarrow> 's dec \<Rightarrow> bool" where
  "safe lo hi b f \<longleftrightarrow>
     (\<forall>st. hi \<le> length (dmem st) \<longrightarrow>
        (\<exists>ok st'. f st = Some (ok, st') \<and> outside_same lo hi (dmem st) (dmem st') \<and>
           bytes_left (inp st') \<le> bytes_left (inp st) \<and> (b \<and> ok \<longrightarrow> bytes_left (inp st') < bytes_left (inp st))))"

named_theorems safe_intros

lemma safeD:
  assumes "safe lo hi b f" and "hi \<le> length (dmem st)"
  obtains ok st' where "f st = Some (ok, st')" and "outside_same lo hi (dmem st) (dmem st')"
    and "hi \<le> length (dmem st')" and "bytes_left (inp st') \<le> bytes_left (inp st)"
    and "b \<Longrightarrow> ok \<Longrightarrow> bytes_left (inp st') < bytes_left (inp st)"
  using assms unfolding safe_def by (metis outside_same_length)

lemma safeI:
  assumes "\<And>st. hi \<le> length (dmem st) \<Longrightarrow>
    \<exists>ok st'. f st = Some (ok, st') \<and> outside_same lo hi (dmem st) (dmem st') \<and>
      bytes_left (inp st') \<le> bytes_left (inp st) \<and> (b \<and> ok \<longrightarrow> bytes_left (inp st') < bytes_left (inp st))"
  shows "safe lo hi b f"
  using assms by (simp add: safe_def)

lemma safe_weaken: "safe lo hi True f \<Longrightarrow> safe lo hi b f"
  unfolding safe_def by blast

lemma safe_mono: "safe lo' hi' b f \<Longrightarrow> lo \<le> lo' \<Longrightarrow> hi' \<le> hi \<Longrightarrow> safe lo hi b f"
  unfolding safe_def by (meson le_trans outside_same_mono)

lemma safe_succeed [safe_intros]: "safe lo hi False succeed"
  by (auto simp: safe_def succeed_def)

lemma safe_fails [safe_intros]: "safe lo hi b (d_fails msg)"
  by (auto simp: safe_def d_fails_def PB_RETURN_ERROR_def)

lemma safe_if [safe_intros]: "(c \<Longrightarrow> safe lo hi b f) \<Longrightarrow> (\<not> c \<Longrightarrow> safe lo hi b g) \<Longrightarrow> safe lo hi b (if c then f else g)"
  by simp

text \<open>A part that looks at the state.\<close>

lemma safe_state: "(\<And>x. hi \<le> length (dmem x) \<Longrightarrow> safe lo hi b (F x)) \<Longrightarrow> safe lo hi b (\<lambda>st. F st st)"
  unfolding safe_def by blast

lemma safe_reading_when:
  fixes r :: "'s istream \<Rightarrow> 'v option \<times> 's istream"
  assumes r: "takes b r" and P: "\<And>s v s'. r s = (Some v, s') \<Longrightarrow> P v" and g: "\<And>v. P v \<Longrightarrow> safe lo hi False (g v)"
  shows "safe lo hi b (reading r g)"
proof (rule safeI)
  fix st :: "'s dstate" assume m: "hi \<le> length (dmem st)"
  obtain u s1 where e: "r (inp st) = (u, s1)" by fastforce
  note le = takesD [OF r e]
  show "\<exists>ok st'. reading r g st = Some (ok, st') \<and> outside_same lo hi (dmem st) (dmem st') \<and>
      bytes_left (inp st') \<le> bytes_left (inp st) \<and> (b \<and> ok \<longrightarrow> bytes_left (inp st') < bytes_left (inp st))"
  proof (cases u)
    case None
    with e le show ?thesis by (auto simp: reading_def)
  next
    case (Some v)
    have lt: "b \<Longrightarrow> bytes_left s1 < bytes_left (inp st)" using r e unfolding Some takes_def by blast
    from m have "hi \<le> length (dmem (st\<lparr>inp := s1\<rparr>))" by simp
    from safeD [OF g [OF P [OF e [unfolded Some]]] this] obtain ok st' where "g v (st\<lparr>inp := s1\<rparr>) = Some (ok, st')"
      "outside_same lo hi (dmem (st\<lparr>inp := s1\<rparr>)) (dmem st')" "bytes_left (inp st') \<le> bytes_left (inp (st\<lparr>inp := s1\<rparr>))" by metis
    with e Some lt le show ?thesis by (auto simp: reading_def)
  qed
qed

lemma safe_reading [safe_intros]: "takes b r \<Longrightarrow> (\<And>v. safe lo hi False (g v)) \<Longrightarrow> safe lo hi b (reading r g)"
  by (rule safe_reading_when [where P = "\<lambda>_. True"]) simp_all

lemma safe_storing:
  fixes g :: "'s dec"
  assumes "inside lo hi a (length bs)" and g: "safe lo hi b g"
  shows "safe lo hi b (storing a bs g)"
proof (rule safeI)
  fix st :: "'s dstate" assume m: "hi \<le> length (dmem st)"
  note o = store_outside [OF assms(1) m]
  from outside_same_length [OF o] m have "hi \<le> length (dmem (st\<lparr>dmem := store a bs (dmem st)\<rparr>))" by simp
  from safeD [OF g this] obtain ok st' where "g (st\<lparr>dmem := store a bs (dmem st)\<rparr>) = Some (ok, st')"
    "outside_same lo hi (dmem (st\<lparr>dmem := store a bs (dmem st)\<rparr>)) (dmem st')"
    "bytes_left (inp st') \<le> bytes_left (inp (st\<lparr>dmem := store a bs (dmem st)\<rparr>))"
    "b \<Longrightarrow> ok \<Longrightarrow> bytes_left (inp st') < bytes_left (inp (st\<lparr>dmem := store a bs (dmem st)\<rparr>))"
    by metis
  with o show "\<exists>ok st'. storing a bs g st = Some (ok, st') \<and> outside_same lo hi (dmem st) (dmem st') \<and>
      bytes_left (inp st') \<le> bytes_left (inp st) \<and> (b \<and> ok \<longrightarrow> bytes_left (inp st') < bytes_left (inp st))"
    by (auto simp: storing_def intro: outside_same_trans)
qed

lemma safe_and_then [safe_intros]:
  fixes f g :: "'s dec"
  assumes f: "safe lo hi False f" and g: "safe lo hi b g"
  shows "safe lo hi b (and_then f g)"
proof (rule safeI)
  fix st :: "'s dstate" assume m: "hi \<le> length (dmem st)"
  from safeD [OF f m] obtain ok st1 where 1: "f st = Some (ok, st1)" "outside_same lo hi (dmem st) (dmem st1)"
    "bytes_left (inp st1) \<le> bytes_left (inp st)" and m1: "hi \<le> length (dmem st1)" by metis
  from safeD [OF g m1] obtain ok' st2 where 2: "g st1 = Some (ok', st2)" "outside_same lo hi (dmem st1) (dmem st2)"
    "bytes_left (inp st2) \<le> bytes_left (inp st1)" "b \<Longrightarrow> ok' \<Longrightarrow> bytes_left (inp st2) < bytes_left (inp st1)" by metis
  show "\<exists>ok st'. and_then f g st = Some (ok, st') \<and> outside_same lo hi (dmem st) (dmem st') \<and>
      bytes_left (inp st') \<le> bytes_left (inp st) \<and> (b \<and> ok \<longrightarrow> bytes_left (inp st') < bytes_left (inp st))"
  proof (cases ok)
    case True
    with 1 2 outside_same_trans [OF 1(2) 2(2)] show ?thesis by (fastforce simp: and_then_def)
  next
    case False
    with 1 show ?thesis by (auto simp: and_then_def)
  qed
qed

lemma safe_on_mem [safe_intros]:
  assumes "mem_safe lo hi f"
  shows "safe lo hi False (on_mem f :: 's dec)"
proof (rule safeI)
  fix st :: "'s dstate" assume m: "hi \<le> length (dmem st)"
  from mem_safeD [OF assms m] obtain m' where "f (dmem st) = Some m'" "outside_same lo hi (dmem st) m'" by blast
  then show "\<exists>ok st'. on_mem f st = Some (ok, st') \<and> outside_same lo hi (dmem st) (dmem st') \<and>
      bytes_left (inp st') \<le> bytes_left (inp st) \<and> (False \<and> ok \<longrightarrow> bytes_left (inp st') < bytes_left (inp st))"
    by (auto simp: on_mem_def)
qed

text \<open>A substream: whatever the body does with it, the parent has lost the bytes of the field.\<close>

lemma safe_open_sub:
  fixes env :: "'s pb_denv"
  assumes body: "\<And>parent st. hi \<le> length (dmem st) \<Longrightarrow>
    \<exists>ok st'. body parent st = Some (ok, st') \<and> outside_same lo hi (dmem st) (dmem st') \<and> bytes_left (inp st') = bytes_left parent"
  shows "safe lo hi True (open_sub env body)"
proof (rule safeI)
  fix st :: "'s dstate" assume m: "hi \<le> length (dmem st)"
  obtain r p where e: "pb_make_string_substream (d_source env) (inp st) = (r, p)" by fastforce
  note t = make_substream_takes [OF e]
  show "\<exists>ok st'. open_sub env body st = Some (ok, st') \<and> outside_same lo hi (dmem st) (dmem st') \<and>
      bytes_left (inp st') \<le> bytes_left (inp st) \<and> (True \<and> ok \<longrightarrow> bytes_left (inp st') < bytes_left (inp st))"
  proof (cases r)
    case None
    with e t show ?thesis by (auto simp: open_sub_def)
  next
    case (Some sub)
    from body [of "st\<lparr>inp := sub\<rparr>" p] m obtain ok st' where "body p (st\<lparr>inp := sub\<rparr>) = Some (ok, st')"
      "outside_same lo hi (dmem st) (dmem st')" "bytes_left (inp st') = bytes_left p" by auto
    with e t Some show ?thesis by (auto simp: open_sub_def)
  qed
qed

lemma close_sub_bytes: "\<exists>ok st'. close_sub env parent status st = Some (ok, st') \<and> dmem st' = dmem st \<and> bytes_left (inp st') = bytes_left parent"
proof -
  obtain r p where e: "pb_close_string_substream (d_source env) (inp st) parent = (r, p)" by fastforce
  from close_substream_takes [OF e] e show ?thesis by (cases r) (auto simp: close_sub_def)
qed

lemma safe_close:
  assumes f: "safe lo hi b f" and m: "hi \<le> length (dmem st)"
  shows "\<exists>ok st'. (case f st of None \<Rightarrow> None | Some (status, st) \<Rightarrow> close_sub env parent status st) = Some (ok, st') \<and>
    outside_same lo hi (dmem st) (dmem st') \<and> bytes_left (inp st') = bytes_left parent"
proof -
  from safeD [OF f m] obtain ok st1 where 1: "f st = Some (ok, st1)" "outside_same lo hi (dmem st) (dmem st1)" by metis
  from close_sub_bytes [of env parent ok st1] 1 show ?thesis by auto
qed

section \<open>Values\<close>

text \<open>A stream's callback gives no more bytes than it is asked for.\<close>

definition short_reads :: "'s source \<Rightarrow> bool" where
  "short_reads src \<longleftrightarrow> (\<forall>s n bs s'. src_read src s n = (Some bs, s') \<longrightarrow> length bs \<le> n)"

lemma short_reads_buf: "short_reads buf_source"
  by (simp add: short_reads_def buf_source_def buf_read_def)

lemma pb_read_at_most: "short_reads src \<Longrightarrow> pb_read src n s = (Some bs, s') \<Longrightarrow> length bs \<le> n"
  by (auto simp: short_reads_def pb_read_def read_checked_def PB_RETURN_ERROR_def split: if_splits prod.splits option.splits)

lemmas number_readers = takes_pb_decode_varint takes_pb_decode_varint32 takes_pb_decode_svarint takes_pb_decode_fixed

lemma inside_prefix: "inside lo hi a n \<Longrightarrow> k \<le> n \<Longrightarrow> inside lo hi a k"
  by (simp add: inside_def)

lemma safe_numbers:
  assumes "inside lo hi dest (data_size field)"
  shows "1 \<le> data_size field \<Longrightarrow> safe lo hi True (dec_bool_at env dest)"
    and "safe lo hi True (dec_varint_at env field dest)"
    and "safe lo hi True (dec_uvarint_at env field dest)"
    and "safe lo hi True (dec_svarint_at env field dest)"
    and "4 \<le> data_size field \<Longrightarrow> safe lo hi True (dec_fixed32_at env dest)"
    and "8 \<le> data_size field \<Longrightarrow> safe lo hi True (dec_fixed64_at env dest)"
  unfolding dec_bool_at_def dec_varint_at_def dec_uvarint_at_def dec_svarint_at_def dec_fixed32_at_def dec_fixed64_at_def Let_def
  by (intro safe_intros safe_storing number_readers; simp add: assms inside_prefix [OF assms])+

lemma safe_read_storing:
  assumes src: "short_reads src" and i: "inside lo hi a n" and g: "safe lo hi False g"
  shows "safe lo hi False (reading (pb_read src n) (\<lambda>bs. storing a bs g))"
  by (rule safe_reading_when [where P = "\<lambda>bs. length bs \<le> n", OF takes_weaken [OF takes_pb_read]])
     (use pb_read_at_most [OF src] inside_prefix [OF i] g in \<open>auto intro: safe_storing\<close>)

lemma safe_read_string:
  assumes src: "short_reads (d_source env)" and i: "inside lo hi dest (Suc n)"
  shows "safe lo hi False (read_string_at env n dest)"
proof -
  have i': "inside lo hi dest n" "inside lo hi (dest + int n) (length [0 :: u8])" using i by (simp_all add: inside_def)
  have no: "safe lo hi False (storing (dest + int n) [0] (\<lambda>st. Some (False, st)))"
    by (rule safe_storing [OF i'(2)]) (auto simp: safe_def)
  have yes: "safe lo hi False (storing dest bs (storing (dest + int n) [0] succeed))" if "length bs \<le> n" for bs
    by (intro safe_storing safe_intros i'(2) inside_prefix [OF i'(1)] that)
  show ?thesis
  proof (rule safeI)
    fix st :: "'a dstate" assume m: "hi \<le> length (dmem st)"
    obtain r s where e: "pb_read (d_source env) n (inp st) = (r, s)" by fastforce
    note le = takesD [OF takes_pb_read e]
    have ms: "hi \<le> length (dmem (st\<lparr>inp := s\<rparr>))" using m by simp
    show "\<exists>ok st'. read_string_at env n dest st = Some (ok, st') \<and> outside_same lo hi (dmem st) (dmem st') \<and>
        bytes_left (inp st') \<le> bytes_left (inp st) \<and> (False \<and> ok \<longrightarrow> bytes_left (inp st') < bytes_left (inp st))"
    proof (cases r)
      case None
      from safeD [OF no ms] obtain ok st' where
        "storing (dest + int n) [0] (\<lambda>st. Some (False, st)) (st\<lparr>inp := s\<rparr>) = Some (ok, st')"
        "outside_same lo hi (dmem (st\<lparr>inp := s\<rparr>)) (dmem st')" "bytes_left (inp st') \<le> bytes_left (inp (st\<lparr>inp := s\<rparr>))" by metis
      with e None le show ?thesis by (simp add: read_string_at_def)
    next
      case (Some bs)
      from safeD [OF yes [OF pb_read_at_most [OF src e [unfolded Some]]] ms] obtain ok st' where
        "storing dest bs (storing (dest + int n) [0] succeed) (st\<lparr>inp := s\<rparr>) = Some (ok, st')"
        "outside_same lo hi (dmem (st\<lparr>inp := s\<rparr>)) (dmem st')" "bytes_left (inp st') \<le> bytes_left (inp (st\<lparr>inp := s\<rparr>))" by metis
      with e Some le show ?thesis by (simp add: read_string_at_def)
    qed
  qed
qed

text \<open>The part of \<open>pb_dec_bytes\<close> and \<open>pb_dec_string\<close> that makes room, for a static field.\<close>

lemma safe_room:
  assumes a: "PB_ATYPE (f_type field) \<noteq> PB_ATYPE_POINTER" and g: "\<not> c \<Longrightarrow> safe lo hi False g"
  shows "safe lo hi False (and_then
    (if PB_ATYPE (f_type field) = PB_ATYPE_POINTER then p else if c then d_fails msg else succeed) g)"
proof (cases c)
  case True
  have "and_then (d_fails msg) g = d_fails msg" by (simp add: fun_eq_iff and_then_def d_fails_def)
  with a True show ?thesis by (simp add: safe_fails)
next
  case False
  with a g show ?thesis by (auto intro: safe_intros)
qed

lemma safe_bytes:
  assumes src: "short_reads (d_source env)" and i: "inside lo hi dest (data_size field)"
    and a: "PB_ATYPE (f_type field) \<noteq> PB_ATYPE_POINTER"
  shows "safe lo hi True (dec_bytes_at env field dest)"
proof -
  have fit: "inside lo hi dest (length (le_bytes 4 k))" "inside lo hi (dest + 4) k"
    if "k < 2 ^ 32" "\<not> data_size field < PB_BYTES_ARRAY_T_ALLOCSIZE k" for k
    using that i by (simp_all add: PB_BYTES_ARRAY_T_ALLOCSIZE_def sz_add_def inside_def)
  have v: "unat v < 2 ^ 32" for v :: u32 using unsigned_less [of v, where ?'a = nat] by simp
  have "safe lo hi False (storing dest (le_bytes 4 k) (reading (pb_read (d_source env) k) (\<lambda>bs. storing (dest + 4) bs succeed)))"
    if "k < 2 ^ 32" "\<not> data_size field < PB_BYTES_ARRAY_T_ALLOCSIZE k" for k
    using fit [OF that] by (intro safe_storing safe_read_storing src safe_succeed)
  from safe_room [OF a this [OF v]] show ?thesis
    unfolding dec_bytes_at_def Let_def
    using a by (intro safe_reading takes_pb_decode_varint32 safe_if safe_fails) simp
qed

lemma safe_string:
  assumes src: "short_reads (d_source env)" and i: "inside lo hi dest (data_size field)"
    and a: "PB_ATYPE (f_type field) \<noteq> PB_ATYPE_POINTER"
  shows "safe lo hi True (dec_string_at env field dest)"
proof -
  have "inside lo hi dest (Suc (unat v))" if "\<not> unat (v + 1) < unat v" "\<not> data_size field < unat (v + 1)" for v :: u32
  proof -
    have "unat (v + 1) = Suc (unat v) mod 2 ^ 32" by (simp add: unat_word_ariths(1))
    moreover have "unat v < 2 ^ 32" using unsigned_less [of v, where ?'a = nat] by simp
    ultimately have "unat (v + 1) = Suc (unat v)" using that(1) by (cases "Suc (unat v) = 2 ^ 32") simp_all
    with i that(2) show ?thesis by (intro inside_prefix [OF i]) simp
  qed
  then have "safe lo hi False (read_string_at env (unat v) dest)"
    if "\<not> unat (v + 1) < unat v" "\<not> data_size field < unat (v + 1)" for v :: u32
    using that by (intro safe_read_string src)
  from safe_room [OF a this] show ?thesis
    unfolding dec_string_at_def Let_def
    using a by (intro safe_reading takes_pb_decode_varint32 safe_if safe_fails) simp
qed

lemma safe_fixed_length_bytes:
  assumes src: "short_reads (d_source env)" and i: "inside lo hi dest (data_size field)"
  shows "safe lo hi True (dec_fixed_length_bytes_at env field dest)"
  unfolding dec_fixed_length_bytes_at_def Let_def
  by (intro safe_reading takes_pb_decode_varint32 safe_if safe_fails safe_read_storing safe_storing src safe_succeed)
     (simp_all add: i)

end
