(* ===== verification/Pb_Decode_Total.thy ===== *)
theory Pb_Decode_Total
  imports Pb_Decode_Safe
begin

text \<open>
  The fields and the messages of \<open>pb_decode.c\<close> on a structure whose layout fits: safe as
  their values are, and the loops end because every round takes a byte.
\<close>

section \<open>Messages inside\<close>

text \<open>What is needed of \<open>pb_decode_noinit\<close> for the messages nested in a structure.\<close>

definition sub_safe :: "nat \<Rightarrow> 's pb_denv \<Rightarrow> (nat \<Rightarrow> int \<Rightarrow> 's dec) \<Rightarrow> bool" where
  "sub_safe n env sub \<longleftrightarrow> (\<forall>desc sz a. fits n env desc sz \<longrightarrow> safe a (a + sz) False (sub desc (int a)))"

lemma insideE:
  assumes "inside lo hi dest n"
  obtains a where "dest = int a" and "lo \<le> a" and "a + n \<le> hi"
proof
  show "dest = int (nat dest)" "lo \<le> nat dest" "nat dest + n \<le> hi" using assms by (simp_all add: inside_def) linarith+
qed

lemma safe_decode_with:
  fixes env :: "'s pb_denv"
  assumes sub: "sub_safe n env sub" and fit: "fits n env desc sz" and N: "n \<le> N"
  shows "safe a (a + sz) False (decode_with sub N env desc (int a))"
  unfolding decode_with_def
proof (intro safe_and_then safe_on_mem defaults_safe [OF fits_mono [OF fit N]] safeI)
  fix st :: "'s dstate" assume m: "a + sz \<le> length (dmem st)"
  from sub fit have "safe a (a + sz) False (sub desc (int a))" by (simp add: sub_safe_def)
  from safeD [OF this m] obtain ok st' where "sub desc (int a) st = Some (ok, st')" "outside_same a (a + sz) (dmem st) (dmem st')"
    "bytes_left (inp st') \<le> bytes_left (inp st)" by metis
  then show "\<exists>ok st'. (case sub desc (int a) st of None \<Rightarrow> None | Some (True, st) \<Rightarrow> Some (True, st)
        | Some (False, st) \<Rightarrow> map_option (\<lambda>(_, st). (False, st)) (on_mem (pb_release N env desc (int a)) st)) = Some (ok, st') \<and>
      outside_same a (a + sz) (dmem st) (dmem st') \<and> bytes_left (inp st') \<le> bytes_left (inp st) \<and>
      (False \<and> ok \<longrightarrow> bytes_left (inp st') < bytes_left (inp st))"
    by (cases ok) (auto simp: on_mem_def release_id [OF fits_mono [OF fit N]])
qed

lemma safe_submessage:
  fixes env :: "'s pb_denv"
  assumes sub: "sub_safe n env sub" and N: "n \<le> N" and fit: "fits n env (f_ptr field) (data_size field)"
    and i: "inside lo hi dest (data_size field)"
  shows "safe lo hi True (pb_dec_submessage sub N env field dest)"
proof -
  from insideE [OF i] obtain a where a: "dest = int a" "lo \<le> a" "a + data_size field \<le> hi" .
  have "safe a (a + data_size field) False
      (if PB_HTYPE (f_type field) = PB_HTYPE_REPEATED then decode_with sub N env (f_ptr field) dest else sub (f_ptr field) dest)"
    unfolding a(1) using safe_decode_with [OF sub fit N] sub fit by (simp add: sub_safe_def)
  from safe_mono [OF this a(2,3)] have body: "safe lo hi False
      (if PB_HTYPE (f_type field) = PB_HTYPE_REPEATED then decode_with sub N env (f_ptr field) dest else sub (f_ptr field) dest)" .
  show ?thesis
    unfolding pb_dec_submessage_def
  proof (rule safe_open_sub)
    fix parent and st :: "'s dstate" assume m: "hi \<le> length (dmem st)"
    show "\<exists>ok st'. (if f_ptr field = 0 then d_fails ''invalid field descriptor'' (st\<lparr>inp := parent\<rparr>)
        else case (if PB_HTYPE (f_type field) = PB_HTYPE_REPEATED then decode_with sub N env (f_ptr field) dest
                   else sub (f_ptr field) dest) st of
               None \<Rightarrow> None | Some (status, st) \<Rightarrow> close_sub env parent status st) = Some (ok, st') \<and>
        outside_same lo hi (dmem st) (dmem st') \<and> bytes_left (inp st') = bytes_left parent"
      using safe_close [OF body m] by (cases "f_ptr field = 0") (auto simp: d_fails_def PB_RETURN_ERROR_def)
  qed
qed

lemma static_no_pointer: "a = PB_ATYPE_STATIC \<Longrightarrow> a \<noteq> PB_ATYPE_POINTER"
  by (simp add: PB_ATYPE_STATIC_def PB_ATYPE_POINTER_def)

lemma ltype_cases:
  assumes "l \<le> PB_LTYPE_FIXED_LENGTH_BYTES" and "l \<noteq> PB_LTYPE_EXTENSION"
  shows "l \<in> {PB_LTYPE_BOOL, PB_LTYPE_VARINT, PB_LTYPE_UVARINT, PB_LTYPE_SVARINT, PB_LTYPE_FIXED32, PB_LTYPE_FIXED64,
    PB_LTYPE_BYTES, PB_LTYPE_STRING, PB_LTYPE_SUBMESSAGE, PB_LTYPE_FIXED_LENGTH_BYTES}"
proof -
  note defs = PB_LTYPE_BOOL_def PB_LTYPE_VARINT_def PB_LTYPE_UVARINT_def PB_LTYPE_SVARINT_def PB_LTYPE_FIXED32_def
    PB_LTYPE_FIXED64_def PB_LTYPE_BYTES_def PB_LTYPE_STRING_def PB_LTYPE_SUBMESSAGE_def PB_LTYPE_FIXED_LENGTH_BYTES_def
    PB_LTYPE_EXTENSION_def
  have "unat l \<le> 10" "unat l \<noteq> 9" using assms by (simp_all add: defs word_le_nat_alt word_unat_eq_iff)
  then have "unat l \<in> {0, 1, 2, 3, 4, 5, 6, 7, 8, 10}" unfolding insert_iff empty_iff by arith
  then show ?thesis by (simp add: word_unat_eq_iff defs)
qed

lemma safe_value:
  assumes src: "short_reads (d_source env)" and sub: "sub_safe n env sub" and N: "n \<le> N"
    and fit: "PB_ATYPE (f_type field) = PB_ATYPE_STATIC" "size_fits (fits n env) field"
    and i: "inside lo hi dest (data_size field)"
  shows "safe lo hi True (PB_DECODERS sub N env field dest)"
proof -
  note f = fit(2) [unfolded size_fits_def Let_def]
  note vals = safe_numbers [OF i] safe_bytes [OF src i] safe_string [OF src i] safe_fixed_length_bytes [OF src i]
    safe_submessage [OF sub N _ i]
  have l: "PB_LTYPE (f_type field) \<in> {PB_LTYPE_BOOL, PB_LTYPE_VARINT, PB_LTYPE_UVARINT, PB_LTYPE_SVARINT, PB_LTYPE_FIXED32,
    PB_LTYPE_FIXED64, PB_LTYPE_BYTES, PB_LTYPE_STRING, PB_LTYPE_SUBMESSAGE, PB_LTYPE_FIXED_LENGTH_BYTES}"
    using f by (intro ltype_cases) simp_all
  show ?thesis
    unfolding PB_DECODERS_def Let_def
    by (intro safe_if vals; use l f static_no_pointer [OF fit(1)] in simp)
qed

section \<open>Static fields\<close>

lemma set_counter_simps [simp]:
  "inp (set_counter loc pSize v st) = inp st"
  by (simp add: set_counter_def)

lemma set_counter_outside:
  assumes "\<not> loc \<Longrightarrow> inside lo hi pSize 4" and "hi \<le> length (dmem st)"
  shows "outside_same lo hi (dmem st) (dmem (set_counter loc pSize v st))"
  using assms by (cases loc) (simp_all add: set_counter_def store_outside)

lemma inside_item:
  assumes i: "inside lo hi p (data_size field * items)" and k: "k < items" and lt: "data_size field * items < 2 ^ 32"
  shows "inside lo hi (p + item_offset field k) (data_size field)"
proof -
  have "data_size field * Suc k \<le> data_size field * items" using k by (intro mult_le_mono2) simp
  then have le: "data_size field * k + data_size field \<le> data_size field * items" by simp
  with lt have e: "item_offset field k = int (data_size field * k)" by (simp add: item_offset_def)
  from le have "int (data_size field * k) + int (data_size field) \<le> int (data_size field * items)" by linarith
  from inside_mono [OF i this] show ?thesis unfolding e .
qed

lemma static_items_safe:
  assumes func: "\<And>k. k < array_size field \<Longrightarrow> safe lo hi True (func (pData + item_offset field k))"
    and c: "\<not> loc \<Longrightarrow> inside lo hi pSize 4"
  shows "hi \<le> length (dmem st) \<Longrightarrow>
    \<exists>ok st'. static_items func field loc pData pSize st = Some (ok, st') \<and> outside_same lo hi (dmem st) (dmem st')"
proof (induction "bytes_left (inp st)" arbitrary: st rule: less_induct)
  case less
  show ?case
  proof (cases "bytes_left (inp st) > 0 \<and> counter loc pSize st < array_size field")
    case True
    from safeD [OF func less.prems, of "counter loc pSize st"] True obtain ok st1 where
      1: "func (pData + item_offset field (counter loc pSize st)) st = Some (ok, st1)" "outside_same lo hi (dmem st) (dmem st1)"
      "hi \<le> length (dmem st1)" "ok \<Longrightarrow> bytes_left (inp st1) < bytes_left (inp st)" by metis
    show ?thesis
    proof (cases ok)
      case ok: True
      let ?st = "set_counter loc pSize (counter loc pSize st1 + 1) st1"
      have o: "outside_same lo hi (dmem st1) (dmem ?st)" by (rule set_counter_outside [OF c 1(3)])
      from outside_same_length [OF o] 1 ok obtain ok' st' where
        "static_items func field loc pData pSize ?st = Some (ok', st')" "outside_same lo hi (dmem ?st) (dmem st')"
        using less.hyps [of ?st] by auto
      with 1 ok True o show ?thesis
        by (subst static_items.simps) (auto intro: outside_same_trans)
    next
      case False
      with 1 True show ?thesis by (subst static_items.simps) auto
    qed
  next
    case False
    then show ?thesis by (subst static_items.simps) auto
  qed
qed

lemma safe_set_counter:
  fixes f :: "'s dec"
  assumes c: "\<not> loc \<Longrightarrow> inside lo hi pSize 4" and f: "safe lo hi b f"
  shows "safe lo hi b (\<lambda>st. f (set_counter loc pSize v st))"
proof (rule safeI)
  fix st :: "'s dstate" assume m: "hi \<le> length (dmem st)"
  let ?st = "set_counter loc pSize v st"
  have o: "outside_same lo hi (dmem st) (dmem ?st)" by (rule set_counter_outside [OF c m])
  from outside_same_length [OF o] m have "hi \<le> length (dmem ?st)" by simp
  from safeD [OF f this] obtain ok st' where "f ?st = Some (ok, st')" "outside_same lo hi (dmem ?st) (dmem st')"
    "bytes_left (inp st') \<le> bytes_left (inp st)" "b \<Longrightarrow> ok \<Longrightarrow> bytes_left (inp st') < bytes_left (inp st)"
    unfolding set_counter_simps by metis
  with o show "\<exists>ok st'. f ?st = Some (ok, st') \<and> outside_same lo hi (dmem st) (dmem st') \<and>
      bytes_left (inp st') \<le> bytes_left (inp st) \<and> (b \<and> ok \<longrightarrow> bytes_left (inp st') < bytes_left (inp st))"
    by (auto intro: outside_same_trans)
qed

lemma safe_packed:
  fixes env :: "'s pb_denv"
  assumes func: "\<And>k. k < array_size field \<Longrightarrow> safe lo hi True (func (pData + item_offset field k))"
    and c: "\<not> loc \<Longrightarrow> inside lo hi pSize 4"
  shows "safe lo hi True (open_sub env (\<lambda>parent st.
      case static_items func field loc pData pSize st of
        None \<Rightarrow> None
      | Some (status, st) \<Rightarrow>
          if bytes_left (inp st) \<noteq> 0 then d_fails ''array overflow'' (st\<lparr>inp := parent\<rparr>) else close_sub env parent status st))"
proof (rule safe_open_sub)
  fix parent and st :: "'s dstate" assume m: "hi \<le> length (dmem st)"
  have "\<exists>ok st'. static_items func field loc pData pSize st = Some (ok, st') \<and> outside_same lo hi (dmem st) (dmem st')"
    by (rule static_items_safe) (use func c m in auto)
  then obtain ok st1 where
    1: "static_items func field loc pData pSize st = Some (ok, st1)" "outside_same lo hi (dmem st) (dmem st1)" by blast
  with close_sub_bytes [of env parent ok st1]
  show "\<exists>ok st'. (case static_items func field loc pData pSize st of
        None \<Rightarrow> None
      | Some (status, st) \<Rightarrow>
          if bytes_left (inp st) \<noteq> 0 then d_fails ''array overflow'' (st\<lparr>inp := parent\<rparr>) else close_sub env parent status st) =
          Some (ok, st') \<and>
      outside_same lo hi (dmem st) (dmem st') \<and> bytes_left (inp st') = bytes_left parent"
    by (cases "bytes_left (inp st1) = 0") (auto simp: d_fails_def PB_RETURN_ERROR_def)
qed

lemma safe_single:
  assumes func: "\<And>k. k < array_size field \<Longrightarrow> safe lo hi True (func (pData + item_offset field k))"
    and c: "\<not> loc \<Longrightarrow> inside lo hi pSize 4"
  shows "safe lo hi True (\<lambda>st. if k \<ge> array_size field then d_fails ''array overflow'' (set_counter loc pSize (k + 1) st)
      else func (pData + item_offset field k) (set_counter loc pSize (k + 1) st))"
proof (cases "k \<ge> array_size field")
  case True
  have "safe lo hi True (\<lambda>st. d_fails ''array overflow'' (set_counter loc pSize (k + 1) st))"
    by (rule safe_set_counter [OF c safe_fails])
  with True show ?thesis by simp
next
  case False
  have "safe lo hi True (\<lambda>st. func (pData + item_offset field k) (set_counter loc pSize (k + 1) st))"
    by (rule safe_set_counter [OF c func]) (use False in simp_all)
  with False show ?thesis by simp
qed

lemma safe_union:
  assumes i: "inside lo hi pData (data_size field)" and c: "inside lo hi pSize 4" and f: "safe lo hi True f"
    and fit: "PB_LTYPE (f_type field) = PB_LTYPE_SUBMESSAGE \<Longrightarrow> fits N env (f_ptr field) (data_size field)"
  shows "safe lo hi True (and_then
      (if PB_LTYPE (f_type field) = PB_LTYPE_SUBMESSAGE \<and> x
       then on_mem (\<lambda>m. pb_message_set_to_defaults N env (f_ptr field) pData (store pData (replicate (data_size field) 0) m))
       else succeed)
      (storing pSize (le_bytes 4 v) f))"
proof -
  have "mem_safe lo hi (pb_message_set_to_defaults N env (f_ptr field) pData)" if "PB_LTYPE (f_type field) = PB_LTYPE_SUBMESSAGE"
  proof -
    from insideE [OF i] obtain a where a: "pData = int a" "lo \<le> a" "a + data_size field \<le> hi" .
    from mem_safe_mono [OF defaults_safe [OF fit [OF that]] a(2,3)] show ?thesis unfolding a(1) .
  qed
  then show ?thesis
    using i c f by (intro safe_and_then safe_if safe_on_mem mem_safe_store safe_succeed safe_storing) simp_all
qed

lemma safe_static_field:
  fixes env :: "'s pb_denv"
  assumes src: "short_reads (d_source env)" and sub: "sub_safe n env sub" and N: "n \<le> N"
    and fit: "field_fits (fits n env) sz field pd ps" and sz: "sz < 2 ^ 32"
    and loc: "loc \<Longrightarrow> PB_HTYPE (f_type field) = PB_HTYPE_REPEATED"
  shows "safe lo (lo + sz) True (decode_static_field sub N env wire_type loc field (int lo + pd) (int lo + ps))"
proof -
  let ?h = "PB_HTYPE (f_type field)" and ?hi = "lo + sz" and ?func = "PB_DECODERS sub N env field"
  note f = fit [unfolded field_fits_def Let_def]
  have pd: "inside lo ?hi (int lo + pd) (data_size field * items_of field)" using f by (intro inside_shift) simp
  have func: "safe lo ?hi True (?func p)" if "inside lo ?hi p (data_size field)" for p
    using f that by (intro safe_value [OF src sub N]) simp_all
  have "int (data_size field * items_of field) \<le> int sz" using f unfolding inside_def by linarith
  with sz have lt: "data_size field * items_of field < 2 ^ 32" by linarith
  note distinct = PB_HTYPE_REQUIRED_def PB_HTYPE_OPTIONAL_def PB_HTYPE_REPEATED_def PB_HTYPE_ONEOF_def
  from htype_cases [of "f_type field"] consider "?h = PB_HTYPE_REQUIRED" | "?h = PB_HTYPE_OPTIONAL"
    | "?h = PB_HTYPE_REPEATED" | "?h = PB_HTYPE_ONEOF" by blast
  then show ?thesis
  proof cases
    case 1
    then have "safe lo ?hi True (?func (int lo + pd))" using pd by (intro func) (simp add: items_of_def distinct)
    with 1 show ?thesis by (simp add: decode_static_field_def [abs_def] Let_def)
  next
    case 2
    then have "safe lo ?hi True (?func (int lo + pd))" using pd by (intro func) (simp add: items_of_def distinct)
    moreover have "inside lo ?hi (int lo + ps) (length [1 :: u8])" if "ps \<noteq> pd"
      using f 2 that by (intro inside_shift) simp
    ultimately have "safe lo ?hi True (if ps \<noteq> pd then storing (int lo + ps) [1] (?func (int lo + pd)) else ?func (int lo + pd))"
      by (intro safe_if safe_storing) simp_all
    moreover have "decode_static_field sub N env wire_type loc field (int lo + pd) (int lo + ps) =
        (if ps \<noteq> pd then storing (int lo + ps) [1] (?func (int lo + pd)) else ?func (int lo + pd))"
      using 2 by (simp add: fun_eq_iff decode_static_field_def Let_def distinct)
    ultimately show ?thesis by simp
  next
    case 3
    have item: "safe lo ?hi True (?func (int lo + pd + item_offset field k))" if "k < array_size field" for k
      using that pd lt 3 by (intro func inside_item [where items = "array_size field"]) (simp_all add: items_of_def)
    have c: "inside lo ?hi (int lo + ps) 4" using f 3 by (intro inside_shift) blast
    show ?thesis
    proof (cases "wire_type = PB_WT_STRING \<and> PB_LTYPE (f_type field) \<le> PB_LTYPE_LAST_PACKABLE")
      case True
      with 3 safe_packed [where func = ?func and pData = "int lo + pd", OF item c] show ?thesis by (simp add: decode_static_field_def [abs_def] Let_def distinct)
    next
      case False
      have "safe lo ?hi True (\<lambda>st. (\<lambda>st'. if k st \<ge> array_size field then d_fails ''array overflow'' (set_counter loc (int lo + ps) (k st + 1) st')
          else ?func (int lo + pd + item_offset field (k st)) (set_counter loc (int lo + ps) (k st + 1) st')) st)" for k
        by (rule safe_state) (rule safe_single [where func = ?func and pData = "int lo + pd", OF item c])
      from this [of "counter loc (int lo + ps)"] show ?thesis
        unfolding decode_static_field_def [abs_def] Let_def 3 if_not_P [OF False] by (simp add: distinct)
    qed
  next
    case 4
    then have i: "inside lo ?hi (int lo + pd) (data_size field)" using pd by (simp add: items_of_def distinct)
    have c: "inside lo ?hi (int lo + ps) 4" using f 4 by (intro inside_shift) blast
    have fit: "PB_LTYPE (f_type field) = PB_LTYPE_SUBMESSAGE \<Longrightarrow> fits N env (f_ptr field) (data_size field)"
      using f by (intro fits_mono [OF _ N]) (simp add: size_fits_def Let_def)
    have "safe lo ?hi True (\<lambda>st. (and_then
      (if PB_LTYPE (f_type field) = PB_LTYPE_SUBMESSAGE \<and> x st
       then on_mem (\<lambda>m. pb_message_set_to_defaults N env (f_ptr field) (int lo + pd)
                           (store (int lo + pd) (replicate (data_size field) 0) m))
       else succeed)
      (storing (int lo + ps) (le_bytes 4 (f_tag field)) (?func (int lo + pd)))) st)" for x
      by (rule safe_state) (rule safe_union [OF i c func [OF i] fit])
    from this [of "\<lambda>st. load 4 (dmem st) (int lo + ps) \<noteq> f_tag field"] 4 show ?thesis
      by (simp add: decode_static_field_def [abs_def] Let_def distinct)
  qed
qed

section \<open>The iterator of a message\<close>

text \<open>On the descriptors of a message the iterator stands on a field, or on the terminator of
  an empty array.\<close>

definition iter_ok :: "pb_field list \<Rightarrow> pb_field_iter \<Rightarrow> bool" where
  "iter_ok ds iter \<longleftrightarrow>
     (\<exists>i < length (butlast ds). iter = iter_state ds i) \<or> butlast ds = [] \<and> iter = snd (pb_field_iter_begin ds)"

lemma iter_ok_begin:
  assumes d: "descriptors ds (butlast ds)"
  shows "iter_ok ds (snd (pb_field_iter_begin ds))"
proof (cases "butlast ds = []")
  case False
  then have "0 < length (butlast ds)" by (metis length_greater_0_conv)
  then show ?thesis unfolding iter_ok_def begin_descriptors [OF d] snd_conv by blast
qed (simp add: iter_ok_def)

lemma iter_ok_start: "iter_ok ds iter \<Longrightarrow> it_start iter = ds"
  by (auto simp: iter_ok_def pb_field_iter_begin_def Let_def)

lemma begin_terminator:
  assumes d: "descriptors ds (butlast ds)" and e: "butlast ds = []"
  shows "f_tag (field_at (snd (pb_field_iter_begin ds))) = 0" and "field_at (snd (pb_field_iter_begin ds)) = last ds"
    and "length ds = 1"
proof -
  from d e obtain t where "ds = [t]" "f_tag t = 0" by (auto simp: descriptors_def)
  then show "f_tag (field_at (snd (pb_field_iter_begin ds))) = 0" "field_at (snd (pb_field_iter_begin ds)) = last ds" "length ds = 1"
    by (simp_all add: pb_field_iter_begin_def field_at_def Let_def)
qed

text \<open>The terminator of an empty array matches the tag 0.\<close>

lemma find_iter_ok:
  assumes d: "descriptors ds (butlast ds)" and l: "PB_LTYPE (f_type (last ds)) \<noteq> PB_LTYPE_EXTENSION" and i: "iter_ok ds iter"
  shows "\<exists>found iter'. pb_field_iter_find iter tag = Some (found, iter') \<and> iter_ok ds iter' \<and> (\<not> found \<longrightarrow> iter' = iter)"
proof (cases "butlast ds = []")
  case True
  with i have iter: "iter = snd (pb_field_iter_begin ds)" by (simp add: iter_ok_def)
  note t = begin_terminator [OF d True]
  have "snd (pb_field_iter_next iter) = iter" unfolding iter using t(1) by (simp add: pb_field_iter_next_def Let_def)
  then have "pb_field_iter_find iter tag = Some (tag = 0, iter)"
    using t l unfolding iter [symmetric] by (simp add: pb_field_iter_find_def iter_ok_start [OF i] Let_def)
  with i show ?thesis by simp
next
  case False
  with i obtain s where s: "s < length (butlast ds)" "iter = iter_state ds s" by (auto simp: iter_ok_def)
  from pb_field_iter_find_iff [OF d s(1), of tag] show ?thesis
    unfolding s(2) using s(1) by (auto simp: iter_ok_def)
qed

text \<open>Without extension fields the search for one goes round once, as the search for the tag 0.\<close>

lemma find_extension_none:
  assumes d: "descriptors ds (butlast ds)" and l: "\<forall>f \<in> set ds. PB_LTYPE (f_type f) \<noteq> PB_LTYPE_EXTENSION" and i: "iter_ok ds iter"
  shows "find_extension_field iter = Some (False, iter)"
proof (cases "butlast ds = []")
  case True
  with i have iter: "iter = snd (pb_field_iter_begin ds)" by (simp add: iter_ok_def)
  note t = begin_terminator [OF d True]
  have "last ds \<in> set ds" using t(3) by (cases ds) auto
  moreover have "snd (pb_field_iter_next iter) = iter" unfolding iter using t(1) by (simp add: pb_field_iter_next_def Let_def)
  ultimately show ?thesis
    using t l unfolding iter [symmetric] by (simp add: find_extension_field_def iter_ok_start [OF i] Let_def)
next
  case False
  with i obtain s where s: "s < length (butlast ds)" "iter = iter_state ds s" by (auto simp: iter_ok_def)
  have "find_extension_loop k p (iter_state ds j) = iter_find_loop k p 0 (iter_state ds j)" if "j < length (butlast ds)" for j k p
    using that
  proof (induction k arbitrary: j)
    case (Suc k)
    have f: "butlast ds ! j \<in> set ds" using Suc.prems nth_mem [of j "butlast ds"] by (blast dest: in_set_butlastD)
    moreover have "f_tag (butlast ds ! j) \<noteq> 0" using descriptors_nth(2) [OF d Suc.prems] by simp
    moreover have "Suc j mod length (butlast ds) < length (butlast ds)" using Suc.prems by (intro mod_less_divisor) simp
    ultimately show ?case
      using l Suc.IH by (simp add: field_at_state [OF d Suc.prems] iter_next_state [OF d Suc.prems] Let_def)
  qed simp
  with s have "find_extension_field iter = pb_field_iter_find iter 0"
    by (simp add: find_extension_field_def pb_field_iter_find_def)
  moreover have "\<not> (\<exists>j < length (butlast ds). is_match 0 (butlast ds ! j))"
    using descriptors_nth(2) [OF d] by (auto simp: is_match_def)
  ultimately show ?thesis using pb_field_iter_find_iff [OF d s(1), of 0] s(2) by auto
qed

text \<open>The count of required fields returns.\<close>

lemma count_required_returns:
  assumes d: "descriptors ds (butlast ds)" and i: "iter_ok ds iter"
  shows "count_required (length ds) iter \<noteq> None"
proof (cases "butlast ds = []")
  case True
  with i have iter: "iter = snd (pb_field_iter_begin ds)" by (simp add: iter_ok_def)
  note t = begin_terminator [OF d True]
  have "fst (pb_field_iter_next iter) = False" unfolding iter using t(1) by (simp add: pb_field_iter_next_def Let_def)
  with t(3) show ?thesis by (cases "pb_field_iter_next iter") (simp add: Let_def)
next
  case False
  with i obtain s where s: "s < length (butlast ds)" "iter = iter_state ds s" by (auto simp: iter_ok_def)
  have "j < length (butlast ds) \<Longrightarrow> length (butlast ds) \<le> j + k \<Longrightarrow> count_required k (iter_state ds j) \<noteq> None" for j k
  proof (induction k arbitrary: j)
    case (Suc k)
    with Suc.IH [of "Suc j"] show ?case by (simp add: iter_next_state [OF d Suc.prems(1)] Let_def)
  qed simp
  with s show ?thesis by simp
qed

end
