(* ===== verification/Pb_Decode_Bounds.thy ===== *)
theory Pb_Decode_Bounds
  imports Pb_Decode_Total
begin

text \<open>
  \<open>pb_decode\<close> and \<open>pb_decode_noinit\<close> on a structure whose layout fits: the loop over the
  fields of the input ends, and nothing outside the structure is changed.
\<close>

section \<open>Fields\<close>

lemma fits_last:
  assumes "fits (Suc n) env desc sz"
  shows "f_type (last (fields_at env desc)) = 0" and "data_offset (last (fields_at env desc)) = 0"
    and "0 < sz" and "sz < 2 ^ 32"
  using assms by (simp_all add: Let_def)

lemma zero_types: "PB_HTYPE 0 = PB_HTYPE_REQUIRED" "PB_ATYPE 0 = PB_ATYPE_STATIC" "PB_LTYPE 0 = PB_LTYPE_BOOL"
  by (simp_all add: PB_HTYPE_def PB_ATYPE_def PB_LTYPE_def PB_HTYPE_REQUIRED_def PB_ATYPE_STATIC_def PB_LTYPE_BOOL_def)

text \<open>The field on which the iterator stands, or a terminator read as a \<open>bool\<close>.\<close>

lemma safe_iter_static:
  assumes fit: "fits (Suc n) env desc sz" and N: "n \<le> N" and src: "short_reads (d_source env)" and sub: "sub_safe n env sub"
    and i: "iter_ok (fields_at env desc) iter" and loc: "loc \<Longrightarrow> PB_HTYPE (f_type (field_at iter)) = PB_HTYPE_REPEATED"
  shows "PB_ATYPE (f_type (field_at iter)) = PB_ATYPE_STATIC"
    and "safe lo (lo + sz) True
      (decode_static_field sub N env wire_type loc (field_at iter) (int lo + it_pData iter) (int lo + it_pSize iter))"
proof -
  let ?ds = "fields_at env desc"
  note d = fits_descriptors [OF fit]
  have "PB_ATYPE (f_type (field_at iter)) = PB_ATYPE_STATIC \<and> safe lo (lo + sz) True
      (decode_static_field sub N env wire_type loc (field_at iter) (int lo + it_pData iter) (int lo + it_pSize iter))"
  proof (cases "butlast ?ds = []")
    case True
    with i have iter: "iter = snd (pb_field_iter_begin ?ds)" by (simp add: iter_ok_def)
    note t = begin_terminator [OF d True]
    have "hd ?ds = last ?ds" using t(3) by (cases ?ds) auto
    then have pd: "it_pData iter = 0" using fits_last(2) [OF fit] t(3)
      by (cases ?ds) (simp_all add: iter pb_field_iter_begin_def Let_def)
    have type: "f_type (field_at iter) = 0" using t(2) fits_last(1) [OF fit] by (simp add: iter)
    have "inside lo (lo + sz) (int lo + it_pData iter) (length [of_bool (v \<noteq> 0) :: u8])" for v :: u32
      using fits_last(3) [OF fit] by (simp add: pd inside_def)
    then have "safe lo (lo + sz) True (dec_bool_at env (int lo + it_pData iter))"
      unfolding dec_bool_at_def by (intro safe_reading takes_pb_decode_varint32 safe_storing safe_succeed)
    then show ?thesis
      by (simp add: type zero_types decode_static_field_def [abs_def] PB_DECODERS_def Let_def)
  next
    case False
    with i obtain k where k: "k < length (butlast ?ds)" "iter = iter_state ?ds k" by (auto simp: iter_ok_def)
    note f = fits_field [OF fit k(1)]
    note e = field_at_state [OF d k(1)]
    from safe_static_field [OF src sub N f fits_last(4) [OF fit], of loc lo wire_type] loc f show ?thesis
      unfolding k(2) e by (simp add: field_fits_def Let_def)
  qed
  then show "PB_ATYPE (f_type (field_at iter)) = PB_ATYPE_STATIC" "safe lo (lo + sz) True
      (decode_static_field sub N env wire_type loc (field_at iter) (int lo + it_pData iter) (int lo + it_pSize iter))" by blast+
qed

lemma release_iter_id:
  assumes fit: "fits (Suc n) env desc sz" and i: "iter_ok (fields_at env desc) iter"
  shows "pb_release_single_field (Suc n) env dest iter m = Some m"
proof (cases "butlast (fields_at env desc) = []")
  case True
  note d = fits_descriptors [OF fit]
  from i True have iter: "iter = snd (pb_field_iter_begin (fields_at env desc))" by (simp add: iter_ok_def)
  have type: "f_type (field_at iter) = 0" using begin_terminator(2) [OF d True] fits_last(1) [OF fit] by (simp add: iter)
  show ?thesis
    unfolding pb_release_single_field.simps
    by (rule release_field_id) (simp_all add: type zero_types PB_LTYPE_BOOL_def PB_LTYPE_EXTENSION_def PB_LTYPE_SUBMESSAGE_def)
next
  case False
  with i obtain k where "k < length (butlast (fields_at env desc))" "iter = iter_state (fields_at env desc) k" by (auto simp: iter_ok_def)
  with release_fields_id [OF fit] show ?thesis by simp
qed

text \<open>Releasing the old field of a union leaves the memory as it is.\<close>

lemma fits_no_extension:
  assumes fit: "fits (Suc n) env desc sz"
  shows "\<forall>f \<in> set (fields_at env desc). PB_LTYPE (f_type f) \<noteq> PB_LTYPE_EXTENSION"
proof
  fix f assume f: "f \<in> set (fields_at env desc)"
  let ?ds = "fields_at env desc"
  have ne: "?ds \<noteq> []" using f by auto
  then have "f \<in> set (butlast ?ds) \<or> f = last ?ds" using f append_butlast_last_id [OF ne]
    by (metis Un_iff empty_iff list.set(1) set_ConsD set_append)
  then show "PB_LTYPE (f_type f) \<noteq> PB_LTYPE_EXTENSION"
  proof
    assume "f \<in> set (butlast ?ds)"
    then obtain k where "k < length (butlast ?ds)" "f = butlast ?ds ! k" by (auto simp: in_set_conv_nth)
    with fits_field [OF fit this(1)] show ?thesis by (simp add: field_fits_def size_fits_def Let_def)
  next
    assume "f = last ?ds"
    with fits_last(1) [OF fit] show ?thesis by (simp add: zero_types PB_LTYPE_BOOL_def PB_LTYPE_EXTENSION_def)
  qed
qed

lemma release_union_safe:
  assumes fit: "fits (Suc n) env desc sz" and i: "iter_ok (fields_at env desc) iter"
  shows "\<exists>ok iter' st'. pb_release_union_field (Suc n) env dest iter st = Some (ok, iter', st') \<and> iter_ok (fields_at env desc) iter' \<and>
    dmem st' = dmem st \<and> bytes_left (inp st') = bytes_left (inp st)"
proof -
  let ?ds = "fields_at env desc"
  note d = fits_descriptors [OF fit]
  have l: "PB_LTYPE (f_type (last ?ds)) \<noteq> PB_LTYPE_EXTENSION"
    using fits_last(1) [OF fit] by (simp add: zero_types PB_LTYPE_BOOL_def PB_LTYPE_EXTENSION_def)
  note find = find_iter_ok [OF d l]
  from find [OF i, of "load 4 (dmem st) (dest + it_pSize iter)"] obtain found iter1 where
    1: "pb_field_iter_find iter (load 4 (dmem st) (dest + it_pSize iter)) = Some (found, iter1)" "iter_ok ?ds iter1" by blast
  from find [OF 1(2), of "f_tag (field_at iter)"] obtain found' iter2 where
    2: "pb_field_iter_find iter1 (f_tag (field_at iter)) = Some (found', iter2)" "iter_ok ?ds iter2" by blast
  have "PB_ATYPE (f_type (field_at iter2)) \<noteq> PB_ATYPE_POINTER"
  proof (cases "butlast ?ds = []")
    case True
    with 2(2) begin_terminator(2) [OF d True] fits_last(1) [OF fit] show ?thesis
      by (simp add: iter_ok_def zero_types static_no_pointer)
  next
    case False
    with 2(2) obtain k where "k < length (butlast ?ds)" "iter2 = iter_state ?ds k" by (auto simp: iter_ok_def)
    with fits_field [OF fit this(1)] show ?thesis
      by (simp add: field_at_state [OF d] field_fits_def Let_def static_no_pointer)
  qed
  with i 1 2 release_iter_id [OF fit 1(2)] show ?thesis
    by (cases found; cases found')
       (auto simp: pb_release_union_field_def Let_def d_fails_def PB_RETURN_ERROR_def simp del: pb_release_single_field.simps)
qed

lemma decode_field_safe:
  fixes env :: "'s pb_denv"
  assumes fit: "fits (Suc n) env desc sz" and src: "short_reads (d_source env)" and sub: "sub_safe n env sub"
    and i: "iter_ok (fields_at env desc) iter" and loc: "loc \<Longrightarrow> PB_HTYPE (f_type (field_at iter)) = PB_HTYPE_REPEATED"
    and m: "lo + sz \<le> length (dmem st)"
  shows "\<exists>ok iter' st'. decode_field sub (Suc n) env wire_type loc (int lo) iter st = Some (ok, iter', st') \<and>
    iter_ok (fields_at env desc) iter' \<and> outside_same lo (lo + sz) (dmem st) (dmem st') \<and>
    bytes_left (inp st') \<le> bytes_left (inp st)"
proof -
  let ?ds = "fields_at env desc" and ?one = "PB_HTYPE (f_type (field_at iter)) = PB_HTYPE_ONEOF"
  have loc': "loc \<Longrightarrow> \<not> ?one" using loc by (simp add: PB_HTYPE_ONEOF_def PB_HTYPE_REPEATED_def)
  have "\<exists>ok iter' st'. (if ?one then pb_release_union_field (Suc n) env (int lo) iter st else Some (True, iter, st)) = Some (ok, iter', st') \<and>
      iter_ok ?ds iter' \<and> dmem st' = dmem st \<and> bytes_left (inp st') = bytes_left (inp st) \<and>
      (loc \<longrightarrow> PB_HTYPE (f_type (field_at iter')) = PB_HTYPE_REPEATED)"
  proof (cases ?one)
    case True
    with loc' release_union_safe [OF fit i, of "int lo" st] show ?thesis by auto
  next
    case False
    with i loc show ?thesis by auto
  qed
  then obtain ok1 iter1 st1 where 1:
    "(if ?one then pb_release_union_field (Suc n) env (int lo) iter st else Some (True, iter, st)) = Some (ok1, iter1, st1)"
    "iter_ok ?ds iter1" "dmem st1 = dmem st" "bytes_left (inp st1) = bytes_left (inp st)"
    "loc \<Longrightarrow> PB_HTYPE (f_type (field_at iter1)) = PB_HTYPE_REPEATED" by blast
  show ?thesis
  proof (cases ok1)
    case True
    have n: "n \<le> Suc n" by simp
    note static = safe_iter_static [OF fit n src sub 1(2,5)]
    from m 1(3) have "lo + sz \<le> length (dmem st1)" by simp
    from safeD [OF static(2) [where wire_type = wire_type] this] obtain ok2 st2 where
      "decode_static_field sub (Suc n) env wire_type loc (field_at iter1) (int lo + it_pData iter1) (int lo + it_pSize iter1) st1 =
        Some (ok2, st2)" "outside_same lo (lo + sz) (dmem st1) (dmem st2)" "bytes_left (inp st2) \<le> bytes_left (inp st1)" by metis
    with True 1 static(1) show ?thesis unfolding decode_field_def 1(1) by (simp add: Let_def)
  next
    case False
    with 1 show ?thesis unfolding decode_field_def 1(1) by auto
  qed
qed

section \<open>The loop\<close>

text \<open>What a step keeps of the local variables.\<close>

definition locals_ok :: "pb_field list \<Rightarrow> dlocals \<Rightarrow> bool" where
  "locals_ok ds l \<longleftrightarrow> iter_ok ds (d_iter l)"

definition step_safe :: "pb_field list \<Rightarrow> nat \<Rightarrow> nat \<Rightarrow> 's dstate \<Rightarrow> (flow \<times> dlocals \<times> 's dstate) option \<Rightarrow> bool" where
  "step_safe ds lo hi st r \<longleftrightarrow>
     (\<exists>flow l' st'. r = Some (flow, l', st') \<and> locals_ok ds l' \<and> outside_same lo hi (dmem st) (dmem st') \<and>
        bytes_left (inp st') \<le> bytes_left (inp st))"

lemma step_safe_if: "(c \<Longrightarrow> step_safe ds lo hi st f) \<Longrightarrow> (\<not> c \<Longrightarrow> step_safe ds lo hi st g) \<Longrightarrow> step_safe ds lo hi st (if c then f else g)"
  by simp

lemma skip_safe:
  assumes "locals_ok ds l"
  shows "step_safe ds lo hi st (map_option (\<lambda>(ok, st). (if ok then Again else Return_false, l, st))
    (reading (pb_skip_field (d_source env) wire_type) (\<lambda>_. succeed) st))"
proof -
  obtain r s where e: "pb_skip_field (d_source env) wire_type (inp st) = (r, s)" by fastforce
  from takesD [OF takes_pb_skip_field e] e assms show ?thesis
    by (cases r) (auto simp: step_safe_def reading_def succeed_def)
qed

lemma decode_unknown_safe:
  assumes fit: "fits (Suc n) env desc sz" and l: "locals_ok (fields_at env desc) l" and t: "unat tag < 2 ^ 29"
  shows "step_safe (fields_at env desc) lo hi st (decode_unknown sub N env dest tag wire_type l st)"
proof -
  note d = fits_descriptors [OF fit]
  from l have i: "iter_ok (fields_at env desc) (d_iter l)" by (simp add: locals_ok_def)
  note none = find_extension_none [OF d fits_no_extension [OF fit] i]
  have "\<not> (- 1 :: u32) \<le> tag" using t by (simp add: word_le_nat_alt unsigned_minus_1_eq_mask mask_eq_exp_minus_1)
  moreover have "locals_ok (fields_at env desc) (l\<lparr>extension_range_start := e\<rparr>)" for e using l by (simp add: locals_ok_def)
  ultimately show ?thesis
    unfolding decode_unknown_def none Let_def
    by (intro step_safe_if) (auto simp: none intro: skip_safe l)
qed

lemma decode_known_safe:
  fixes env :: "'s pb_denv"
  assumes fit: "fits (Suc n) env desc sz" and src: "short_reads (d_source env)" and sub: "sub_safe n env sub"
    and l: "locals_ok (fields_at env desc) l" and m: "lo + sz \<le> length (dmem st)"
  shows "step_safe (fields_at env desc) lo (lo + sz) st (decode_known sub (Suc n) env (int lo) wire_type l st)"
proof -
  let ?iter = "d_iter l"
  let ?loc = "PB_HTYPE (f_type (field_at ?iter)) = PB_HTYPE_REPEATED \<and> it_pSize ?iter = it_pData ?iter"
  let ?new = "?loc \<and> fixed_count_field l \<noteq> Some (it_pos ?iter)"
  let ?st = "if ?new then st\<lparr>fixed_count_size := 0\<rparr> else st"
  from l have i: "iter_ok (fields_at env desc) ?iter" by (simp add: locals_ok_def)
  show ?thesis
  proof (cases "?new \<and> fixed_count_wrong l st")
    case True
    with l show ?thesis by (simp add: decode_known_def Let_def step_safe_def d_fails_def PB_RETURN_ERROR_def)
  next
    case False
    define st1 where "st1 = ?st"
    have st1: "dmem st1 = dmem st" "inp st1 = inp st" by (simp_all add: st1_def)
    then have "lo + sz \<le> length (dmem st1)" using m by simp
    from decode_field_safe [OF fit src sub i, where loc = ?loc and wire_type = wire_type, OF _ this] obtain ok iter' st' where
      "decode_field sub (Suc n) env wire_type ?loc (int lo) ?iter st1 = Some (ok, iter', st')"
      "iter_ok (fields_at env desc) iter'" "outside_same lo (lo + sz) (dmem st1) (dmem st')" "bytes_left (inp st') \<le> bytes_left (inp st1)"
      by blast
    with st1 show ?thesis
      unfolding decode_known_def Let_def if_not_P [OF False] step_safe_def locals_ok_def st1_def [symmetric] by simp
  qed
qed

lemma decode_step_safe:
  fixes env :: "'s pb_denv"
  assumes fit: "fits (Suc n) env desc sz" and src: "short_reads (d_source env)" and sub: "sub_safe n env sub"
    and l: "locals_ok (fields_at env desc) l" and m: "lo + sz \<le> length (dmem st)"
  obtains flow l' st' where "decode_step sub (Suc n) env (int lo) l st = Some (flow, l', st')"
    and "locals_ok (fields_at env desc) l'" and "outside_same lo (lo + sz) (dmem st) (dmem st')"
    and "bytes_left (inp st') \<le> bytes_left (inp st)" and "flow = Again \<Longrightarrow> bytes_left (inp st') < bytes_left (inp st)"
proof -
  let ?ds = "fields_at env desc"
  note d = fits_descriptors [OF fit]
  from l have i: "iter_ok ?ds (d_iter l)" by (simp add: locals_ok_def)
  obtain r eof s where e: "pb_decode_tag (d_source env) (inp st) = (r, eof, s)" by (metis surj_pair)
  note t = pb_decode_tag_takes [OF e]
  show thesis
  proof (cases r)
    case None
    with e t l that [of "if eof then Break else Return_false" l "st\<lparr>inp := s\<rparr>"] show ?thesis
      by (cases eof) (simp_all add: decode_step_def)
  next
    case (Some x)
    then obtain wt tag where r: "r = Some (wt, tag)" by (cases x) simp
    note tag = pb_decode_tag_less [OF e [unfolded r]]
    have "PB_LTYPE (f_type (last ?ds)) \<noteq> PB_LTYPE_EXTENSION"
      using fits_last(1) [OF fit] by (simp add: zero_types PB_LTYPE_BOOL_def PB_LTYPE_EXTENSION_def)
    from find_iter_ok [OF d this i, of "unat tag"] obtain found iter where
      f: "pb_field_iter_find (d_iter l) (unat tag) = Some (found, iter)" "iter_ok ?ds iter" by blast
    let ?l = "l\<lparr>d_iter := iter\<rparr>" and ?st = "st\<lparr>inp := s\<rparr>"
    have lo: "locals_ok ?ds ?l" using f(2) by (simp add: locals_ok_def)
    have m': "lo + sz \<le> length (dmem ?st)" using m by simp
    have step: "decode_step sub (Suc n) env (int lo) l st =
        (if found then decode_known sub (Suc n) env (int lo) wt ?l ?st else decode_unknown sub (Suc n) env (int lo) tag wt ?l ?st)"
      by (simp add: decode_step_def e r f(1))
    have "step_safe ?ds lo (lo + sz) ?st (decode_step sub (Suc n) env (int lo) l st)"
      unfolding step by (intro step_safe_if decode_known_safe [OF fit src sub lo m'] decode_unknown_safe [OF fit lo tag])
    with that t r show ?thesis unfolding step_safe_def by fastforce
  qed
qed

lemma fields_loop_safe:
  fixes env :: "'s pb_denv"
  assumes fit: "fits (Suc n) env desc sz" and src: "short_reads (d_source env)" and sub: "sub_safe n env sub"
  shows "locals_ok (fields_at env desc) l \<Longrightarrow> lo + sz \<le> length (dmem st) \<Longrightarrow>
    \<exists>ok l' st'. fields_loop (decode_step sub (Suc n) env (int lo)) l st = Some (ok, l', st') \<and>
      locals_ok (fields_at env desc) l' \<and> outside_same lo (lo + sz) (dmem st) (dmem st') \<and>
      bytes_left (inp st') \<le> bytes_left (inp st)"
proof (induction "bytes_left (inp st)" arbitrary: l st rule: less_induct)
  case less
  show ?case
  proof (cases "bytes_left (inp st) = 0")
    case True
    with less.prems show ?thesis by (subst fields_loop.simps) auto
  next
    case False
    from decode_step_safe [OF fit src sub less.prems] obtain flow l1 st1 where
      1: "decode_step sub (Suc n) env (int lo) l st = Some (flow, l1, st1)" "locals_ok (fields_at env desc) l1"
      "outside_same lo (lo + sz) (dmem st) (dmem st1)" "bytes_left (inp st1) \<le> bytes_left (inp st)"
      "flow = Again \<Longrightarrow> bytes_left (inp st1) < bytes_left (inp st)" by blast
    show ?thesis
    proof (cases "flow = Again")
      case True
      from outside_same_length [OF 1(3)] less.prems have "lo + sz \<le> length (dmem st1)" by simp
      from less.hyps [OF 1(5) [OF True] 1(2) this] obtain ok l2 st2 where
        "fields_loop (decode_step sub (Suc n) env (int lo)) l1 st1 = Some (ok, l2, st2)" "locals_ok (fields_at env desc) l2"
        "outside_same lo (lo + sz) (dmem st1) (dmem st2)" "bytes_left (inp st2) \<le> bytes_left (inp st1)" by blast
      with 1 False True outside_same_trans [OF 1(3)] show ?thesis by (subst fields_loop.simps) auto
    next
      case no: False
      with 1 False show ?thesis by (subst fields_loop.simps) auto
    qed
  qed
qed

lemma check_end_safe:
  assumes fit: "fits (Suc n) env desc sz" and l: "locals_ok (fields_at env desc) l"
  shows "\<exists>ok st'. check_end l st = Some (ok, st') \<and> dmem st' = dmem st \<and> bytes_left (inp st') = bytes_left (inp st)"
proof -
  from l have i: "iter_ok (fields_at env desc) (d_iter l)" by (simp add: locals_ok_def)
  from count_required_returns [OF fits_descriptors [OF fit] i] obtain req t iter where
    "count_required (length (it_start (d_iter l))) (d_iter l) = Some (req, t, iter)"
    unfolding iter_ok_start [OF i] by (metis option.exhaust surj_pair)
  then show ?thesis
    by (auto simp: check_end_def Let_def d_fails_def succeed_def PB_RETURN_ERROR_def)
qed

section \<open>Messages\<close>

lemma pb_decode_noinit_safe:
  fixes env :: "'s pb_denv"
  assumes src: "short_reads (d_source env)"
  shows "sub_safe n env (pb_decode_noinit n env)"
proof (induction n)
  case 0
  then show ?case by (simp add: sub_safe_def)
next
  case (Suc n)
  have "safe a (a + sz) False (pb_decode_noinit (Suc n) env desc (int a))" if fit: "fits (Suc n) env desc sz" for desc sz a
  proof (rule safeI)
    fix st :: "'s dstate" assume m: "a + sz \<le> length (dmem st)"
    let ?l = "\<lparr>fields_seen = [0, 0], extension_range_start = 0,
      d_iter = snd (pb_field_iter_begin (fields_at env desc)), fixed_count_field = None\<rparr>"
    have "locals_ok (fields_at env desc) ?l" using iter_ok_begin [OF fits_descriptors [OF fit]] by (simp add: locals_ok_def)
    from fields_loop_safe [OF fit src Suc.IH this, of a "st\<lparr>fixed_count_size := 0\<rparr>"] m obtain ok l1 st1 where
      1: "fields_loop (decode_step (pb_decode_noinit n env) (Suc n) env (int a)) ?l (st\<lparr>fixed_count_size := 0\<rparr>) = Some (ok, l1, st1)"
      "locals_ok (fields_at env desc) l1" "outside_same a (a + sz) (dmem st) (dmem st1)" "bytes_left (inp st1) \<le> bytes_left (inp st)" by auto
    from check_end_safe [OF fit 1(2), of st1] obtain ok2 st2 where
      "check_end l1 st1 = Some (ok2, st2)" "dmem st2 = dmem st1" "bytes_left (inp st2) = bytes_left (inp st1)" by blast
    with 1 show "\<exists>ok st'. pb_decode_noinit (Suc n) env desc (int a) st = Some (ok, st') \<and>
        outside_same a (a + sz) (dmem st) (dmem st') \<and> bytes_left (inp st') \<le> bytes_left (inp st) \<and>
        (False \<and> ok \<longrightarrow> bytes_left (inp st') < bytes_left (inp st))"
      by (cases ok) auto
  qed
  then show ?case unfolding sub_safe_def by blast
qed

lemma pb_decode_safe:
  assumes "short_reads (d_source env)" and "fits n env desc sz"
  shows "safe a (a + sz) False (pb_decode n env desc (int a))"
  unfolding pb_decode_def by (rule safe_decode_with [OF pb_decode_noinit_safe [OF assms(1)] assms(2) order_refl])

end
