(* ===== verification/Pb_Required.thy ===== *)
theory Pb_Required
  imports Pb_Decode_Total
begin

text \<open>
  The loop of \<open>pb_decode_noinit\<close> as a relation with the tags it reads, and the bitmap of
  required fields: a bit is set only by the tag of its field, so a message is accepted only
  with a tag of every required field.
\<close>

section \<open>Required fields by number\<close>

definition is_required :: "pb_field \<Rightarrow> bool" where
  "is_required f \<longleftrightarrow> PB_HTYPE (f_type f) = PB_HTYPE_REQUIRED"

text \<open>The number of a required field: how many there are before it.\<close>

definition required_before :: "pb_field list \<Rightarrow> nat \<Rightarrow> nat" where
  "required_before fs i = length (filter is_required (take i fs))"

lemma required_before_Suc: "i < length fs \<Longrightarrow> required_before fs (Suc i) = required_before fs i + of_bool (is_required (fs ! i))"
  by (simp add: required_before_def take_Suc_conv_app_nth)

lemma required_before_mono: "i \<le> j \<Longrightarrow> required_before fs i \<le> required_before fs j"
proof -
  assume "i \<le> j"
  then have "take j fs = take i fs @ take (j - i) (drop i fs)" by (metis take_add le_add_diff_inverse)
  then show ?thesis by (simp add: required_before_def)
qed

lemma required_before_less:
  assumes "i < j" and "j \<le> length fs" and "is_required (fs ! i)"
  shows "required_before fs i < required_before fs j"
proof -
  have "required_before fs (Suc i) = Suc (required_before fs i)" using assms by (simp add: required_before_Suc)
  with required_before_mono [of "Suc i" j fs] assms(1) show ?thesis by simp
qed

lemma required_before_inj:
  assumes "i < length fs" "j < length fs" "is_required (fs ! i)" "is_required (fs ! j)"
    and "required_before fs i = required_before fs j"
  shows "i = j"
  using assms required_before_less [of i j fs] required_before_less [of j i fs] by (cases i j rule: linorder_cases) auto

text \<open>The iterator counts so.\<close>

lemma required_field_index_state:
  assumes d: "descriptors ds fs"
  shows "i < length fs \<Longrightarrow> required_field_index (iter_state ds i) = required_before fs i"
proof (induction i)
  case 0
  then show ?case by (simp add: iter_state.simps pb_field_iter_begin_def Let_def required_before_def)
next
  case (Suc i)
  then have i: "i < length fs" by simp
  note now = field_at_state [OF d i] iter_state_pos [OF d i]
  have nz: "f_tag (fs ! i) \<noteq> 0" "f_tag (ds ! Suc i) \<noteq> 0"
    using descriptors_nth(2) [OF d i] descriptors_nth(1,2) [OF d Suc.prems] by simp_all
  have one: "PB_HTYPE (f_type (fs ! i)) = PB_HTYPE_ONEOF \<Longrightarrow> \<not> is_required (fs ! i)"
    by (simp add: is_required_def PB_HTYPE_ONEOF_def PB_HTYPE_REQUIRED_def)
  have "required_field_index (snd (pb_field_iter_next (iter_state ds i))) =
      required_field_index (iter_state ds i) + of_bool (is_required (fs ! i))"
    using nz one now by (auto simp: pb_field_iter_next_def Let_def is_required_def field_at_def)
  with Suc.IH [OF i] show ?case by (simp add: iter_state.simps required_before_Suc [OF i])
qed

lemma count_required_state:
  assumes d: "descriptors ds fs"
  shows "i < length fs \<Longrightarrow> length fs \<le> i + k \<Longrightarrow>
    count_required k (iter_state ds i) =
      Some (required_before fs (length fs - 1), f_type (fs ! (length fs - 1)), iter_state ds 0)"
proof (induction k arbitrary: i)
  case (Suc k)
  show ?case
  proof (cases "Suc i < length fs")
    case True
    with Suc.IH [of "Suc i"] Suc.prems show ?thesis by (simp add: iter_next_state [OF d Suc.prems(1)] Let_def)
  next
    case False
    then have "length fs = Suc i" using Suc.prems(1) by simp
    then have e: "length fs - 1 = i" "Suc i mod length fs = 0" "\<not> Suc i < length fs" by simp_all
    show ?thesis
      unfolding e(1) by (simp add: e iter_next_state [OF d Suc.prems(1)] field_at_state [OF d Suc.prems(1)]
          required_field_index_state [OF d Suc.prems(1)] Let_def)
  qed
qed simp

section \<open>The bitmap\<close>

definition seen_bit :: "u32 list \<Rightarrow> nat \<Rightarrow> bool" where
  "seen_bit seen r = bit (seen ! (r div 32)) (r mod 32)"

lemma seen_bit_set:
  assumes "length seen = 2" and "r < 64" and "q < 64"
  shows "seen_bit (seen[r div 32 := seen ! (r div 32) OR push_bit (r mod 32) 1]) q \<longleftrightarrow> seen_bit seen q \<or> q = r"
proof -
  have "r div 32 < 2" using assms(2) by (simp add: div_less_iff_less_mult)
  moreover have "(q = r) = (q div 32 = r div 32 \<and> q mod 32 = r mod 32)" by (metis div_mod_decomp)
  ultimately show ?thesis
    using assms by (cases "q div 32 = r div 32") (auto simp: seen_bit_def bit_simps)
qed

lemma required_seen_bits:
  assumes s: "required_seen seen k" and k: "k \<le> 64" "length seen = 2" and r: "r < k"
  shows "seen_bit seen r"
proof (cases "r div 32 < k div 32")
  case True
  then have "seen ! (r div 32) = -1"
    using s r k by (auto simp: required_seen_def list_all_length)
  then show ?thesis by (simp add: seen_bit_def)
next
  case False
  then have e: "r div 32 = k div 32" using r div_le_mono [of r k 32] by simp
  then have m: "r mod 32 < k mod 32" using r by (metis add_less_cancel_left mult_div_mod_eq)
  then have "seen ! (k div 32) = drop_bit (32 - k mod 32) (-1)" using s r by (auto simp: required_seen_def)
  with e m show ?thesis by (simp add: seen_bit_def bit_simps)
qed

section \<open>The loop as a relation\<close>

text \<open>\<open>decode_run \<dots> l st tags l' st'\<close>: from \<open>l\<close>, \<open>st\<close> the loop reads fields with \<open>tags\<close> and
  leaves the state \<open>l'\<close>, \<open>st'\<close>, at the end of the stream or at a zero byte.\<close>

inductive decode_run ::
  "(nat \<Rightarrow> int \<Rightarrow> 's dec) \<Rightarrow> nat \<Rightarrow> 's pb_denv \<Rightarrow> int \<Rightarrow> dlocals \<Rightarrow> 's dstate \<Rightarrow> nat list \<Rightarrow> dlocals \<Rightarrow> 's dstate \<Rightarrow> bool"
  for sub n env dest where
  run_end: "bytes_left (inp st) = 0 \<Longrightarrow> decode_run sub n env dest l st [] l st"
| run_break: "bytes_left (inp st) \<noteq> 0 \<Longrightarrow> decode_step sub n env dest l st = Some (Break, l', st') \<Longrightarrow>
    decode_run sub n env dest l st [] l' st'"
| run_field: "bytes_left (inp st) \<noteq> 0 \<Longrightarrow> pb_decode_tag (d_source env) (inp st) = (Some (wire_type, tag), eof, s) \<Longrightarrow>
    decode_step sub n env dest l st = Some (Again, l1, st1) \<Longrightarrow> decode_run sub n env dest l1 st1 tags l' st' \<Longrightarrow>
    decode_run sub n env dest l st (unat tag # tags) l' st'"

lemma again_tag:
  "decode_step sub n env dest l st = Some (Again, l1, st1) \<Longrightarrow>
     \<exists>wire_type tag eof s. pb_decode_tag (d_source env) (inp st) = (Some (wire_type, tag), eof, s)"
  by (auto simp: decode_step_def split: prod.splits option.splits if_splits)

lemma fields_loop_end: "bytes_left (inp st) = 0 \<Longrightarrow> fields_loop step l st = Some (True, l, st)"
  by (subst fields_loop.simps) simp

lemma fields_loop_again:
  "bytes_left (inp st) \<noteq> 0 \<Longrightarrow> step l st = Some (Again, l1, st1) \<Longrightarrow> fields_loop step l st = fields_loop step l1 st1"
  by (subst fields_loop.simps) simp

lemma fields_loop_run:
  fixes env :: "'s pb_denv"
  shows "fields_loop (decode_step sub n env dest) l st = Some (True, l', st') \<Longrightarrow> \<exists>tags. decode_run sub n env dest l st tags l' st'"
proof -
  let ?s = "decode_step sub n env dest"
  let ?P = "\<lambda>s l st r. s = ?s \<longrightarrow> fst r \<longrightarrow> (\<exists>tags. decode_run sub n env dest l st tags (fst (snd r)) (snd (snd r)))"
  assume loop: "fields_loop ?s l st = Some (True, l', st')"
  have "?P ?s l st (True, l', st')"
  proof (rule fields_loop.raw_induct [OF _ loop, where P = ?P], intro impI)
    fix loop s l st and r :: "bool \<times> dlocals \<times> 's dstate"
    assume IH: "\<And>s l st r. loop s l st = Some r \<Longrightarrow> ?P s l st r"
      and body: "(if bytes_left (inp st) = 0 then Some (True, l, st)
        else case s l st of None \<Rightarrow> None
          | Some (flow, l, st) \<Rightarrow> if flow = Again then loop s l st else Some (flow = Break, l, st)) = Some r"
      and s: "s = ?s" and r: "fst r"
    show "\<exists>tags. decode_run sub n env dest l st tags (fst (snd r)) (snd (snd r))"
    proof (cases "bytes_left (inp st) = 0")
      case True
      with body show ?thesis by (auto intro!: exI [of _ "[]"] run_end)
    next
      case False
      with body s obtain flow l1 st1 where step: "?s l st = Some (flow, l1, st1)"
        and rest: "(if flow = Again then loop ?s l1 st1 else Some (flow = Break, l1, st1)) = Some r"
        by (auto split: option.splits)
      show ?thesis
      proof (cases flow)
        case Again
        with rest r IH [of ?s l1 st1 r] have "\<exists>tags. decode_run sub n env dest l1 st1 tags (fst (snd r)) (snd (snd r))" by simp
        with again_tag [OF step [unfolded Again]] run_field [OF False _ step [unfolded Again]] show ?thesis by blast
      next
        case Break
        with rest step False show ?thesis by (auto intro!: exI [of _ "[]"] run_break)
      next
        case Return_false
        with rest r show ?thesis by auto
      qed
    qed
  qed
  then show ?thesis by simp
qed

section \<open>The iterator stays on the descriptors\<close>

lemma find_keeps:
  assumes d: "descriptors ds fs" and i: "i < length fs" and f: "pb_field_iter_find (iter_state ds i) tag = Some (found, iter)"
  shows "\<exists>j < length fs. iter = iter_state ds j \<and> (found \<longrightarrow> f_tag (fs ! j) = tag)"
  using pb_field_iter_find_iff [OF d i, of tag] f i by (auto simp: is_match_def)

lemma find_extension_keeps:
  assumes d: "descriptors ds fs"
  shows "i < length fs \<Longrightarrow> find_extension_loop k p (iter_state ds i) = Some (found, iter) \<Longrightarrow> \<exists>j < length fs. iter = iter_state ds j"
proof (induction k arbitrary: i)
  case (Suc k)
  have "Suc i mod length fs < length fs" using Suc.prems(1) by (intro mod_less_divisor) linarith
  with Suc show ?case
    by (auto simp: iter_next_state [OF d Suc.prems(1)] Let_def split: if_splits)
qed simp

lemma release_union_keeps:
  assumes d: "descriptors ds fs" and i: "i < length fs"
    and r: "pb_release_union_field n env dest (iter_state ds i) st = Some (ok, iter, st')"
  shows "\<exists>j < length fs. iter = iter_state ds j"
proof -
  let ?old = "load 4 (dmem st) (dest + it_pSize (iter_state ds i))" and ?new = "f_tag (field_at (iter_state ds i))"
  have find: "\<exists>found k. k < length fs \<and> pb_field_iter_find (iter_state ds j) tag = Some (found, iter_state ds k)"
    if "j < length fs" for j tag
    using pb_field_iter_find_iff [OF d that, of tag] that by auto
  from find [OF i, of ?old] obtain found1 j1 where
    1: "j1 < length fs" "pb_field_iter_find (iter_state ds i) ?old = Some (found1, iter_state ds j1)" by blast
  from find [OF 1(1), of ?new] obtain found2 j2 where
    2: "j2 < length fs" "pb_field_iter_find (iter_state ds j1) ?new = Some (found2, iter_state ds j2)" by blast
  have "iter \<in> {iter_state ds i, iter_state ds j1, iter_state ds j2}"
    using r unfolding pb_release_union_field_def Let_def 1(2) 2(2) option.case prod.case
    by (cases found1; cases found2) (auto simp: d_fails_def 2(2) split: if_splits option.splits)
  with i 1(1) 2(1) show ?thesis by auto
qed

lemma decode_field_keeps:
  assumes d: "descriptors ds fs" and i: "i < length fs"
    and f: "decode_field sub n env wire_type loc dest (iter_state ds i) st = Some (ok, iter, st')"
  shows "\<exists>j < length fs. iter = iter_state ds j"
proof -
  let ?r = "if PB_HTYPE (f_type (field_at (iter_state ds i))) = PB_HTYPE_ONEOF
    then pb_release_union_field n env dest (iter_state ds i) st else Some (True, iter_state ds i, st)"
  obtain ok1 iter1 st1 where r: "?r = Some (ok1, iter1, st1)"
    using f unfolding decode_field_def by (cases ?r) auto
  have "iter = iter1" using f unfolding decode_field_def r by (cases ok1) (auto simp: Let_def)
  moreover have "\<exists>j < length fs. iter1 = iter_state ds j"
    using r i release_union_keeps [OF d i, of n env dest st] by (auto split: if_splits)
  ultimately show ?thesis by simp
qed

section \<open>The invariant\<close>

definition seen_ok :: "pb_field list \<Rightarrow> pb_field list \<Rightarrow> nat set \<Rightarrow> dlocals \<Rightarrow> bool" where
  "seen_ok ds fs tags l \<longleftrightarrow>
     (\<exists>i < length fs. d_iter l = iter_state ds i) \<and> length (fields_seen l) = 2 \<and>
     (\<forall>r < 64. seen_bit (fields_seen l) r \<longrightarrow>
        (\<exists>j < length fs. is_required (fs ! j) \<and> required_before fs j = r \<and> f_tag (fs ! j) \<in> tags))"

lemma seen_ok_mono: "seen_ok ds fs tags l \<Longrightarrow> tags \<subseteq> tags' \<Longrightarrow> seen_ok ds fs tags' l"
  unfolding seen_ok_def by blast

lemma decode_unknown_seen:
  assumes d: "descriptors ds fs" and l: "seen_ok ds fs tags l"
    and u: "decode_unknown sub n env dest tag wire_type l st = Some (flow, l', st')"
  shows "seen_ok ds fs tags l'"
proof -
  from l obtain i where i: "i < length fs" "d_iter l = iter_state ds i" by (auto simp: seen_ok_def)
  have "fields_seen l' = fields_seen l \<and> (\<exists>j < length fs. d_iter l' = iter_state ds j)"
    using u i find_extension_keeps [OF d i(1)]
    by (auto simp: decode_unknown_def find_extension_field_def Let_def reading_def succeed_def
        split: if_splits option.splits prod.splits bool.splits)
  with l show ?thesis by (simp add: seen_ok_def)
qed

lemma decode_known_seen:
  assumes d: "descriptors ds fs" and l: "seen_ok ds fs tags l" and i: "i < length fs" "d_iter l = iter_state ds i"
    and tag: "f_tag (fs ! i) \<in> tags" and k: "decode_known sub n env dest wire_type l st = Some (flow, l', st')"
  shows "seen_ok ds fs tags l'"
proof -
  let ?r = "required_before fs i"
  let ?seen = "if is_required (fs ! i) \<and> ?r < 64
    then (fields_seen l)[?r div 32 := fields_seen l ! (?r div 32) OR push_bit (?r mod 32) 1] else fields_seen l"
  note at = field_at_state [OF d i(1)] required_field_index_state [OF d i(1)]
  have "(fields_seen l' = fields_seen l \<or> fields_seen l' = ?seen) \<and> (\<exists>j < length fs. d_iter l' = iter_state ds j)"
    (is ?result)
  proof -
    let ?loc = "PB_HTYPE (f_type (fs ! i)) = PB_HTYPE_REPEATED \<and> it_pSize (iter_state ds i) = it_pData (iter_state ds i)"
    let ?new = "?loc \<and> fixed_count_field l \<noteq> Some (it_pos (iter_state ds i))"
    note def = k [unfolded decode_known_def Let_def i(2) at]
    show ?result
    proof (cases "?new \<and> fixed_count_wrong l st")
      case True
      from def [unfolded if_P [OF True]] i show ?result by (auto simp: d_fails_def)
    next
      case False
      let ?st = "if ?new then st\<lparr>fixed_count_size := 0\<rparr> else st"
      from def [unfolded if_not_P [OF False]] obtain ok iter st1 where
        f: "decode_field sub n env wire_type ?loc dest (iter_state ds i) ?st = Some (ok, iter, st1)"
        by (cases "decode_field sub n env wire_type ?loc dest (iter_state ds i) ?st") auto
      from decode_field_keeps [OF d i(1) f] def [unfolded if_not_P [OF False] f] show ?result
        by (auto simp: is_required_def PB_MAX_REQUIRED_FIELDS_def split: if_splits)
    qed
  qed
  then obtain j where j: "j < length fs" "d_iter l' = iter_state ds j"
    and seen: "fields_seen l' = fields_seen l \<or> fields_seen l' = ?seen" by blast
  have bits: "length (fields_seen l) = 2" "\<And>q. q < 64 \<Longrightarrow> seen_bit (fields_seen l) q \<Longrightarrow>
      \<exists>j < length fs. is_required (fs ! j) \<and> required_before fs j = q \<and> f_tag (fs ! j) \<in> tags"
    using l by (auto simp: seen_ok_def)
  have "\<exists>j < length fs. is_required (fs ! j) \<and> required_before fs j = q \<and> f_tag (fs ! j) \<in> tags"
    if "q < 64" "seen_bit (fields_seen l') q" for q
  proof (cases "seen_bit (fields_seen l) q")
    case True
    with bits that show ?thesis by blast
  next
    case False
    with seen that seen_bit_set [OF bits(1), of ?r q] have "is_required (fs ! i) \<and> q = ?r" by (auto split: if_splits)
    with i(1) tag show ?thesis by blast
  qed
  moreover have "length (fields_seen l') = 2" using seen bits(1) by auto
  ultimately show ?thesis using j unfolding seen_ok_def by blast
qed

lemma break_no_tag:
  assumes "decode_step sub n env dest l st = Some (Break, l', st')"
  shows "l' = l"
proof -
  have "decode_unknown sub n env dest tag wt l st \<noteq> Some (Break, l', st')" for tag wt l st
    by (auto simp: decode_unknown_def Let_def split: if_splits option.splits prod.splits bool.splits)
  moreover have "decode_known sub n env dest wt l st \<noteq> Some (Break, l', st')" for wt l st
    by (auto simp: decode_known_def Let_def split: if_splits option.splits prod.splits)
  ultimately show ?thesis using assms
    by (auto simp: decode_step_def split: if_splits option.splits prod.splits bool.splits)
qed

lemma decode_step_seen:
  assumes d: "descriptors ds fs" and l: "seen_ok ds fs tags l"
    and t: "pb_decode_tag (d_source env) (inp st) = (Some (wire_type, tag), eof, s)"
    and step: "decode_step sub n env dest l st = Some (flow, l', st')"
  shows "seen_ok ds fs (insert (unat tag) tags) l'"
proof -
  from l obtain i where i: "i < length fs" "d_iter l = iter_state ds i" by (auto simp: seen_ok_def)
  obtain found iter where f: "pb_field_iter_find (iter_state ds i) (unat tag) = Some (found, iter)"
    using pb_field_iter_find_iff [OF d i(1), of "unat tag"] by auto
  from find_keeps [OF d i(1) f] obtain j where j: "j < length fs" "iter = iter_state ds j" "found \<Longrightarrow> f_tag (fs ! j) = unat tag" by blast
  let ?l = "l\<lparr>d_iter := iter\<rparr>" and ?st = "st\<lparr>inp := s\<rparr>"
  have l': "seen_ok ds fs (insert (unat tag) tags) ?l" using l j(1,2) by (auto simp: seen_ok_def)
  show ?thesis
  proof (cases found)
    case True
    with step have "decode_known sub n env dest wire_type ?l ?st = Some (flow, l', st')" by (simp add: decode_step_def t i(2) f)
    from decode_known_seen [OF d l' j(1) _ _ this] j True show ?thesis by simp
  next
    case False
    with step have "decode_unknown sub n env dest tag wire_type ?l ?st = Some (flow, l', st')" by (simp add: decode_step_def t i(2) f)
    from decode_unknown_seen [OF d l' this] show ?thesis .
  qed
qed

lemma decode_run_seen:
  assumes "decode_run sub n env dest l st tags l' st'" and d: "descriptors ds fs"
  shows "seen_ok ds fs before l \<Longrightarrow> seen_ok ds fs (before \<union> set tags) l'"
  using assms(1)
proof (induction arbitrary: before rule: decode_run.induct)
  case (run_break st l l' st')
  with break_no_tag [OF run_break.hyps(2)] show ?case by simp
next
  case (run_field st wire_type tag eof s l l1 st1 tags l' st')
  from run_field.IH [OF decode_step_seen [OF d run_field.prems run_field.hyps(2,3)]] show ?case by simp
qed simp

text \<open>The local variables of \<open>pb_decode_noinit\<close> at its start.\<close>

definition decode_start :: "'s pb_denv \<Rightarrow> nat \<Rightarrow> dlocals" where
  "decode_start env desc =
     \<lparr>fields_seen = [0, 0], extension_range_start = 0,
      d_iter = snd (pb_field_iter_begin (fields_at env desc)), fixed_count_field = None\<rparr>"

lemma start_seen: "descriptors (fields_at env desc) fs \<Longrightarrow> fs \<noteq> [] \<Longrightarrow> seen_ok (fields_at env desc) fs {} (decode_start env desc)"
  by (auto simp: seen_ok_def decode_start_def begin_descriptors seen_bit_def nth_Cons' intro!: exI [of _ 0])

lemma check_end_seen:
  assumes d: "descriptors ds fs" and l: "seen_ok ds fs tags l" and c: "check_end l st = Some (True, st')"
    and i: "i < length fs" "is_required (fs ! i)" "required_before fs i < 64"
  shows "f_tag (fs ! i) \<in> tags"
proof -
  from l obtain k where k: "k < length fs" "d_iter l = iter_state ds k" by (auto simp: seen_ok_def)
  have ne: "0 < length fs" using k(1) by linarith
  let ?n = "length fs - 1"
  have count: "count_required (length ds) (iter_state ds k) = Some (required_before fs ?n, f_type (fs ! ?n), iter_state ds 0)"
    using descriptors_nth(4) [OF d] k(1) by (intro count_required_state [OF d]) simp_all
  have nz: "f_tag (field_at (iter_state ds 0)) \<noteq> 0" using descriptors_nth(2) [OF d ne] field_at_state [OF d ne] by simp
  have "required_before fs (Suc ?n) = required_before fs ?n + of_bool (is_required (fs ! ?n))"
    using ne by (intro required_before_Suc) simp
  then have req: "(if is_required (fs ! ?n) then required_before fs ?n + 1 else required_before fs ?n) = required_before fs (length fs)"
    using ne by simp
  have "required_seen (fields_seen l) (min (required_before fs (length fs)) 64)"
    using c nz unfolding check_end_def k(2) iter_state_start count req [symmetric]
    by (auto simp: Let_def is_required_def PB_MAX_REQUIRED_FIELDS_def d_fails_def split: if_splits)
  moreover have "required_before fs i < required_before fs (length fs)" by (rule required_before_less) (use i in simp_all)
  ultimately have "seen_bit (fields_seen l) (required_before fs i)"
    using l i(3) by (intro required_seen_bits [where k = "min (required_before fs (length fs)) 64"]) (simp_all add: seen_ok_def)
  with l i(3) obtain j where j: "j < length fs" "is_required (fs ! j)" "required_before fs j = required_before fs i" "f_tag (fs ! j) \<in> tags"
    unfolding seen_ok_def by blast
  from required_before_inj [OF j(1) i(1) j(2) i(2) j(3)] j(4) show ?thesis by simp
qed

lemma required_tags_read:
  fixes env :: "'s pb_denv"
  assumes d: "descriptors (fields_at env desc) fs" and ok: "pb_decode_noinit (Suc n) env desc dest st = Some (True, st')"
  shows "\<exists>tags l' st1. decode_run (pb_decode_noinit n env) (Suc n) env dest (decode_start env desc) (st\<lparr>fixed_count_size := 0\<rparr>) tags l' st1 \<and>
    (\<forall>i < length fs. is_required (fs ! i) \<and> required_before fs i < 64 \<longrightarrow> f_tag (fs ! i) \<in> set tags)"
proof -
  let ?step = "decode_step (pb_decode_noinit n env) (Suc n) env dest"
  from ok obtain l1 st1 st2 where loop: "fields_loop ?step (decode_start env desc) (st\<lparr>fixed_count_size := 0\<rparr>) = Some (True, l1, st1)"
    and c: "check_end l1 st1 = Some (True, st2)"
    unfolding pb_decode_noinit.simps decode_start_def [symmetric] by (auto split: option.splits bool.splits)
  from fields_loop_run [OF loop] obtain tags where
    run: "decode_run (pb_decode_noinit n env) (Suc n) env dest (decode_start env desc) (st\<lparr>fixed_count_size := 0\<rparr>) tags l1 st1" ..
  have "f_tag (fs ! i) \<in> set tags" if "i < length fs" "is_required (fs ! i)" "required_before fs i < 64" for i
  proof -
    have "fs \<noteq> []" using that(1) by auto
    from decode_run_seen [OF run d start_seen [OF d this]] have "seen_ok (fields_at env desc) fs (set tags) l1" by simp
    from check_end_seen [OF d this c that] show ?thesis .
  qed
  with run show ?thesis by blast
qed

end
