(* ===== verification/Pb_Decode_Props.thy ===== *)
theory Pb_Decode_Props
  imports Pb_Decode_Bounds Pb_Required
begin

text \<open>
  What nanopb promises when it decodes a whole message.
\<close>

definition number_field :: pb_field where
  "number_field = \<lparr>f_tag = 1, f_type = 0x02, data_offset = 0, size_offset = 0, data_size = 4, array_size = 0, f_ptr = 0\<rparr>"

text \<open>A required number, an optional message with a string, an array of two numbers; and a
  message whose only field is an array of two \<open>bool\<close>s without a counter.\<close>

definition sample_denv :: "u8 list pb_denv" where
  "sample_denv = \<lparr>
     fields_at = (\<lambda>a.
       if a = 1 then [number_field,
         number_field\<lparr>f_tag := 2, f_type := 0x18, data_offset := 4, size_offset := -4, f_ptr := 2\<rparr>,
         number_field\<lparr>f_tag := 3, f_type := 0x24, data_offset := 4, size_offset := -4, array_size := 2\<rparr>,
         number_field\<lparr>f_tag := 0, f_type := 0\<rparr>]
       else if a = 2 then [number_field\<lparr>f_type := 0x17\<rparr>, number_field\<lparr>f_tag := 0, f_type := 0\<rparr>]
       else if a = 4 then [number_field, number_field\<lparr>f_tag := 0, f_type := 0\<rparr>]
       else if a = 5 then [number_field\<lparr>f_tag := 0, f_type := 0\<rparr>]
       else [number_field\<lparr>f_type := 0x20, data_size := 1, array_size := 2\<rparr>, number_field\<lparr>f_tag := 0, f_type := 0\<rparr>]),
     d_source = buf_source, decode_fun = (\<lambda>f field a st. (False, st)), decode_buf_fun = (\<lambda>f field a st. (False, st)),
     ext_decode_fun = (\<lambda>f x tag wt st. (False, st)), pb_realloc = (\<lambda>p n m. (0, m)), pb_free = (\<lambda>p m. m)\<rparr>"

lemmas pb_dtypes = PB_LTYPE_def PB_HTYPE_def PB_ATYPE_def PB_LTYPE_BOOL_def PB_LTYPE_VARINT_def PB_LTYPE_UVARINT_def
  PB_LTYPE_SVARINT_def PB_LTYPE_FIXED32_def PB_LTYPE_FIXED64_def PB_LTYPE_BYTES_def PB_LTYPE_STRING_def
  PB_LTYPE_SUBMESSAGE_def PB_LTYPE_EXTENSION_def PB_LTYPE_FIXED_LENGTH_BYTES_def PB_LTYPE_LAST_PACKABLE_def
  PB_HTYPE_REQUIRED_def PB_HTYPE_OPTIONAL_def PB_HTYPE_REPEATED_def PB_HTYPE_ONEOF_def
  PB_ATYPE_STATIC_def PB_ATYPE_POINTER_def PB_ATYPE_CALLBACK_def

lemmas sample_deval = arg_cong [where f = fields_at, OF sample_denv_def, simplified]
  arg_cong [where f = d_source, OF sample_denv_def, simplified] number_field_def pb_dtypes Let_def

text \<open>C18: Decoding never leaves the structure: with a layout of static fields that fits a structure
  of \<open>sz\<close> bytes, \<open>pb_decode\<close> returns, true or false, on every input and every memory, and no byte
  outside the structure has changed. The nesting of the structures is enough fuel.\<close>

theorem pb_decode_in_bounds:
  assumes "fits n env desc sz" and "short_reads (d_source env)" and "a + sz \<le> length (dmem st)"
  shows "\<exists>ok st'. pb_decode n env desc (int a) st = Some (ok, st') \<and> outside_same a (a + sz) (dmem st) (dmem st')"
  using pb_decode_safe [OF assms(2,1), of a] assms(3) unfolding safe_def by blast

lemma decode_sample_fits: "fits (Suc (Suc 0)) sample_denv 1 24"
  by (simp add: sample_deval All_less_Suc descriptors_def field_fits_def size_fits_def inside_def items_of_def
    iter_state.simps pb_field_iter_begin_def pb_field_iter_next_def field_at_def prev_size_def)

theorem pb_decode_in_bounds_witness:
  "\<exists>ok st'. pb_decode 2 sample_denv 1 8 \<lparr>dmem = replicate 40 7, fixed_count_size = 0,
       inp = pb_istream_from_buffer [0x08, 0x96, 1, 0x1A, 8, 1, 0, 0, 0, 2, 0, 0, 0] 13\<rparr> = Some (ok, st') \<and>
     outside_same 8 32 (replicate 40 7) (dmem st')"
  using pb_decode_in_bounds [OF decode_sample_fits [folded numeral_2_eq_2], of 8 "\<lparr>dmem = replicate 40 7, fixed_count_size = 0,
       inp = pb_istream_from_buffer [0x08, 0x96, 1, 0x1A, 8, 1, 0, 0, 0, 2, 0, 0, 0] 13\<rparr>"] short_reads_buf
  by (simp add: sample_deval)

text \<open>C19: If \<open>pb_decode_noinit\<close> accepts a message, its loop has read the tag of each of the first
  \<open>PB_MAX_REQUIRED_FIELDS\<close> (64) required fields of the descriptors; the code keeps no track of
  required fields behind those. Nothing is claimed for messages that are refused.\<close>

theorem pb_decode_required:
  assumes "descriptors (fields_at env desc) fs" and "pb_decode_noinit (Suc n) env desc dest st = Some (True, st')"
  shows "\<exists>tags l' st1. decode_run (pb_decode_noinit n env) (Suc n) env dest (decode_start env desc) (st\<lparr>fixed_count_size := 0\<rparr>) tags l' st1 \<and>
    (\<forall>i < length fs. is_required (fs ! i) \<and> required_before fs i < PB_MAX_REQUIRED_FIELDS \<longrightarrow> f_tag (fs ! i) \<in> set tags)"
  using required_tags_read [OF assms] by (simp add: PB_MAX_REQUIRED_FIELDS_def)

lemma decode_sample_tag:
  "pb_decode_tag buf_source \<lparr>is_state = [8, 5], bytes_left = 2, is_errmsg = None\<rparr> =
     (Some (0, 1), False, \<lparr>is_state = [5], bytes_left = 1, is_errmsg = None\<rparr>)"
  by (simp add: pb_decode_tag_def pb_decode_varint32_eof_def pb_readbyte_def buf_source_def buf_read_def)

lemma decode_sample_value:
  "pb_decode_varint buf_source \<lparr>is_state = [5], bytes_left = Suc 0, is_errmsg = None\<rparr> =
     (Some 5, \<lparr>is_state = [], bytes_left = 0, is_errmsg = None\<rparr>)"
  unfolding pb_decode_varint_def
  by (subst varint_loop.simps) (simp add: pb_readbyte_def buf_source_def buf_read_def)

lemma decode_sample_step:
  "decode_step sub (Suc 0) sample_denv 8 (decode_start sample_denv 4)
     \<lparr>dmem = replicate 12 7, fixed_count_size = 0, inp = \<lparr>is_state = [8, 5], bytes_left = 2, is_errmsg = None\<rparr>\<rparr> =
   Some (Again, (decode_start sample_denv 4)\<lparr>fields_seen := [1, 0]\<rparr>,
     \<lparr>dmem = store 8 (le_bytes 4 5) (replicate 12 7), fixed_count_size = 0, inp = \<lparr>is_state = [], bytes_left = 0, is_errmsg = None\<rparr>\<rparr>)"
  by (simp add: decode_step_def sample_deval decode_sample_tag decode_sample_value decode_known_def decode_field_def decode_static_field_def
    PB_DECODERS_def dec_uvarint_at_def reading_def storing_def succeed_def decode_start_def pb_field_iter_begin_def
    pb_field_iter_find_def field_at_def fixed_count_wrong_def PB_MAX_REQUIRED_FIELDS_def store_nat_def unat_of_nat)

lemma decode_sample_end: "check_end ((decode_start sample_denv 4)\<lparr>fields_seen := [1, 0]\<rparr>) st = Some (True, st)"
  by (simp add: check_end_def fixed_count_wrong_def decode_start_def sample_deval pb_field_iter_begin_def pb_field_iter_next_def
    field_at_def required_seen_def succeed_def PB_MAX_REQUIRED_FIELDS_def)

lemma decode_sample:
  "\<exists>st'. pb_decode_noinit (Suc 0) sample_denv 4 8 \<lparr>dmem = replicate 12 7, fixed_count_size = 0,
     inp = pb_istream_from_buffer [8, 5] 2\<rparr> = Some (True, st')"
  by (simp add: decode_start_def [symmetric] pb_istream_from_buffer_def 
    fields_loop_again [where step = "decode_step (pb_decode_noinit 0 sample_denv) (Suc 0) sample_denv 8", OF _ decode_sample_step]
    fields_loop_end decode_sample_end)

theorem pb_decode_required_witness:
  "\<exists>tags l' st1. decode_run (pb_decode_noinit 0 sample_denv) (Suc 0) sample_denv 8 (decode_start sample_denv 4)
     (\<lparr>dmem = replicate 12 7, fixed_count_size = 0, inp = pb_istream_from_buffer [8, 5] 2\<rparr>) tags l' st1 \<and> 1 \<in> set tags"
proof -
  have d: "descriptors (fields_at sample_denv 4) [number_field]" by (simp add: sample_deval descriptors_def)
  obtain st' where "pb_decode_noinit (Suc 0) sample_denv 4 8
    \<lparr>dmem = replicate 12 7, fixed_count_size = 0, inp = pb_istream_from_buffer [8, 5] 2\<rparr> = Some (True, st')" using decode_sample ..
  from pb_decode_required [OF d this] show ?thesis
    by (simp add: is_required_def required_before_def number_field_def pb_dtypes PB_MAX_REQUIRED_FIELDS_def)
qed

lemma be_bytes_numeral: "be_bytes (numeral k) v = be_bytes (pred_numeral k) (v div 256) @ [word_of_nat v]"
  unfolding numeral_eq_Suc [of k] by (rule be_bytes.simps(2))

lemma le_bytes_zero: "le_bytes 4 0 = [0, 0, 0, 0]"
  by (simp add: le_bytes_def be_bytes_numeral)

text \<open>Setting the defaults of an array without a counter writes a counter all the same: in a
  structure of two \<open>bool\<close>s the two bytes behind it are cleared.\<close>

theorem fixed_count_default_overflows:
  "pb_message_set_to_defaults 1 sample_denv 3 8 (replicate 8 7 @ [1, 1] @ [9, 9, 9]) =
     Some (replicate 8 7 @ [0, 0] @ [0, 0, 9])"
  by (simp add: le_bytes_zero pb_message_set_to_defaults_def each_of_message_def field_default_def sample_deval
    pb_field_iter_begin_def pb_field_iter_next_def field_at_def store_def mem_write_def)

text \<open>A field with the number 0, which no message has, is accepted by a descriptor without fields: the
  search stops at the terminator of the descriptors, and its type is read as a required \<open>bool\<close>,
  which is stored at the start of the structure.\<close>

theorem zero_tag_accepted:
  "map_option (\<lambda>(ok, st). (ok, dmem st)) (pb_decode 1 sample_denv 5 8
     \<lparr>dmem = replicate 8 7 @ [9, 9], fixed_count_size = 0, inp = pb_istream_from_buffer [0x05, 0x02] 2\<rparr>) =
   Some (True, replicate 8 7 @ [1, 9])"
proof -
  let ?st = "\<lparr>dmem = replicate 8 7 @ [9, 9], fixed_count_size = 0, inp = \<lparr>is_state = [5, 2], bytes_left = 2, is_errmsg = None\<rparr>\<rparr>"
  let ?st' = "\<lparr>dmem = replicate 8 7 @ [1, 9], fixed_count_size = 0, inp = \<lparr>is_state = [] :: u8 list, bytes_left = 0, is_errmsg = None\<rparr>\<rparr>"
  let ?l = "(decode_start sample_denv 5)\<lparr>fields_seen := [1, 0]\<rparr>"
  have step: "decode_step (pb_decode_noinit 0 sample_denv) (Suc 0) sample_denv 8 (decode_start sample_denv 5) ?st = Some (Again, ?l, ?st')"
    by (simp add: decode_step_def sample_deval pb_decode_tag_def pb_decode_varint32_def pb_decode_varint32_eof_def pb_readbyte_def
      buf_source_def buf_read_def decode_known_def decode_field_def decode_static_field_def PB_DECODERS_def dec_bool_at_def reading_def
      storing_def succeed_def decode_start_def pb_field_iter_begin_def pb_field_iter_find_def field_at_def fixed_count_wrong_def
      PB_MAX_REQUIRED_FIELDS_def store_def mem_write_def)
  have "check_end ?l ?st' = Some (True, ?st')"
    by (simp add: check_end_def fixed_count_wrong_def decode_start_def sample_deval pb_field_iter_begin_def pb_field_iter_next_def
      field_at_def required_seen_def succeed_def PB_MAX_REQUIRED_FIELDS_def)
  with step have "pb_decode_noinit 1 sample_denv 5 8 ?st = Some (True, ?st')"
    by (simp add: decode_start_def [symmetric] fields_loop_again [where step = "decode_step (pb_decode_noinit 0 sample_denv) (Suc 0) sample_denv 8", OF _ step]
      fields_loop_end)
  then show ?thesis
    by (simp add: pb_decode_def decode_with_def and_then_def on_mem_def pb_message_set_to_defaults_def each_of_message_def
      pb_istream_from_buffer_def sample_deval pb_field_iter_begin_def del: pb_decode_noinit.simps)
qed

end
