(* ===== verification/Pb_Place.thy ===== *)
theory Pb_Place
  imports Pb_Message Pb_Layout
begin

text \<open>
  Places in a message's structure: the bytes a field occupies, operations that change only some
  places, and values that depend on their place alone. This is what lets the fields of a message
  be decoded one after the other.
\<close>

section \<open>Places\<close>

text \<open>A place is an address and a number of bytes.\<close>

type_synonym place = "int \<times> nat"

definition bytes_at :: "u8 list \<Rightarrow> int \<Rightarrow> nat \<Rightarrow> u8 list" where
  "bytes_at m a n = take n (drop (nat a) m)"

definition apart :: "place \<Rightarrow> place \<Rightarrow> bool" where
  "apart p q \<longleftrightarrow> fst p + int (snd p) \<le> fst q \<or> fst q + int (snd q) \<le> fst p"

definition all_apart :: "place list \<Rightarrow> place list \<Rightarrow> bool" where
  "all_apart P Q \<longleftrightarrow> (\<forall>p \<in> set P. \<forall>q \<in> set Q. apart p q)"

text \<open>From \<open>m\<close> to \<open>m'\<close> only bytes in \<open>P\<close> have changed.\<close>

definition only :: "place list \<Rightarrow> u8 list \<Rightarrow> u8 list \<Rightarrow> bool" where
  "only P m m' \<longleftrightarrow> length m' = length m \<and>
     (\<forall>i < length m. (\<forall>(a, n) \<in> set P. int i < a \<or> a + int n \<le> int i) \<longrightarrow> m' ! i = m ! i)"

lemma only_refl [simp]: "only P m m"
  by (simp add: only_def)

lemma only_length: "only P m m' \<Longrightarrow> length m' = length m"
  by (simp add: only_def)

lemma only_trans: "only P m m' \<Longrightarrow> only P m' m'' \<Longrightarrow> only P m m''"
  by (simp add: only_def)

lemma only_mono:
  assumes "only P m m'" and "\<And>a n. (a, n) \<in> set P \<Longrightarrow> \<exists>(b, k) \<in> set Q. b \<le> a \<and> a + int n \<le> b + int k"
  shows "only Q m m'"
proof -
  have "m' ! i = m ! i" if i: "i < length m" "\<forall>(b, k) \<in> set Q. int i < b \<or> b + int k \<le> int i" for i
  proof -
    have "int i < a \<or> a + int n \<le> int i" if "(a, n) \<in> set P" for a n
      using assms(2) [OF that] i(2) by fastforce
    with assms(1) i(1) show ?thesis unfolding only_def by blast
  qed
  with assms(1) show ?thesis by (simp add: only_def)
qed

lemma only_subset: "only P m m' \<Longrightarrow> set P \<subseteq> set Q \<Longrightarrow> only Q m m'"
  by (erule only_mono) blast

lemma only_outside: "only [(int lo, n)] m m' \<longleftrightarrow> outside_same lo (lo + n) m m'"
  unfolding only_def outside_same_def by (auto; metis not_less of_nat_add of_nat_le_iff of_nat_less_iff)

lemma store_only:
  assumes "0 \<le> a" and "a + int (length bs) \<le> int (length m)"
  shows "only [(a, length bs)] m (store a bs m)"
  using store_outside [of "nat a" "nat a + length bs" a bs m] only_outside [of "nat a" "length bs"] assms
  by (simp add: inside_def)

lemma only_apart:
  assumes "only P m m'" and "0 \<le> a" and "all_apart [(a, n)] P"
  shows "bytes_at m' a n = bytes_at m a n"
proof (rule nth_equalityI)
  show l: "length (bytes_at m' a n) = length (bytes_at m a n)" using assms(1) by (simp add: bytes_at_def only_def)
  fix i assume "i < length (bytes_at m' a n)"
  then have i: "nat a + i < length m" "i < n" using assms(1) by (auto simp: bytes_at_def only_def)
  have "\<forall>(b, k) \<in> set P. int (nat a + i) < b \<or> b + int k \<le> int (nat a + i)"
    using assms(2,3) i(2) by (fastforce simp: all_apart_def apart_def)
  with assms(1) i show "bytes_at m' a n ! i = bytes_at m a n ! i" by (simp add: only_def bytes_at_def)
qed

text \<open>Equal places have equal parts.\<close>

lemma bytes_at_part:
  assumes "bytes_at m' a' n = bytes_at m a n" and "0 \<le> a" "0 \<le> a'" "0 \<le> d" "d + int k \<le> int n"
  shows "bytes_at m' (a' + d) k = bytes_at m (a + d) k"
proof -
  have "bytes_at m (a + d) k = take k (drop (nat d) (bytes_at m a n))" if "0 \<le> a" for m a
    using that assms(4,5) by (simp add: bytes_at_def drop_take nat_add_distrib add.commute min_def)
  with assms show ?thesis by simp
qed

lemma bytes_at_prefix: "bytes_at m' a' n = bytes_at m a n \<Longrightarrow> k \<le> n \<Longrightarrow> bytes_at m' a' k = bytes_at m a k"
  by (metis bytes_at_def min.absorb1 take_take)

lemma bytes_at_store:
  "0 \<le> a \<Longrightarrow> a + int (length bs) \<le> int (length m) \<Longrightarrow> bytes_at (store a bs m) a (length bs) = bs"
  by (simp add: bytes_at_def store_def mem_write_def)

lemma length_bytes_at: "0 \<le> a \<Longrightarrow> a + int n \<le> int (length m) \<Longrightarrow> length (bytes_at m a n) = n"
  by (simp add: bytes_at_def)

lemma load_bytes_at: "load n m a = le_nat (bytes_at m a n)"
  by (simp add: load_def bytes_at_def)

text \<open>The bytes of a field: its items, and its counter or flag.\<close>

definition counted :: "pb_field \<Rightarrow> bool" where
  "counted f \<longleftrightarrow> PB_HTYPE (f_type f) = PB_HTYPE_REPEATED"

definition flagged :: "pb_field \<Rightarrow> bool" where
  "flagged f \<longleftrightarrow> PB_HTYPE (f_type f) = PB_HTYPE_OPTIONAL \<and> size_offset f \<noteq> 0"

definition places :: "pb_field \<Rightarrow> int \<Rightarrow> place list" where
  "places f p = (p, data_size f * items_of f) #
     (if counted f then [(p + size_offset f, 4)] else if flagged f then [(p + size_offset f, 1)] else [])"

section \<open>Values\<close>

text \<open>The same value in two memories, given from the value on: a \<open>bool\<close> is true or not, a string
  ends at its first NUL, a block of bytes has its length in front.\<close>

definition same_value :: "pb_field \<Rightarrow> u8 list \<Rightarrow> u8 list \<Rightarrow> bool" where
  "same_value f p q \<longleftrightarrow>
     (let l = PB_LTYPE (f_type f); n = data_size f
      in n \<le> length p \<and> n \<le> length q \<and>
         (if l = PB_LTYPE_BOOL then safe_read_bool p = safe_read_bool q
          else if l = PB_LTYPE_STRING
          then string_size p n = string_size q n \<and> take (string_size p n) p = take (string_size p n) q
          else if l = PB_LTYPE_BYTES
          then le_nat (take 4 p) = le_nat (take 4 q) \<and>
            (le_nat (take 4 p) + 4 \<le> n \<longrightarrow> take (le_nat (take 4 p)) (drop 4 p) = take (le_nat (take 4 p)) (drop 4 q))
          else take n p = take n q))"

text \<open>The sizes the generator gives to values.\<close>

definition exact_size :: "pb_field \<Rightarrow> bool" where
  "exact_size f \<longleftrightarrow>
     (let l = PB_LTYPE (f_type f); n = data_size f
      in (l = PB_LTYPE_BOOL \<longrightarrow> n = 1) \<and> (l = PB_LTYPE_FIXED32 \<longrightarrow> n = 4) \<and> (l = PB_LTYPE_FIXED64 \<longrightarrow> n = 8) \<and>
         (l = PB_LTYPE_BYTES \<longrightarrow> 4 \<le> n) \<and> (l = PB_LTYPE_STRING \<longrightarrow> 1 \<le> n))"

lemma string_size_take: "string_size (take n p) n = string_size p n"
  by (induction p n rule: string_size.induct) auto

lemma same_value_bytes:
  assumes "exact_size f" and "take (data_size f) p = take (data_size f) q" and "data_size f \<le> length p" "data_size f \<le> length q"
  shows "same_value f p q"
proof -
  let ?n = "data_size f"
  have pre: "take k p = take k q" if "k \<le> ?n" for k
    using arg_cong [OF assms(2), of "take k"] that by (simp add: min_def)
  have mid: "take k (drop 4 p) = take k (drop 4 q)" if "k + 4 \<le> ?n" for k
    using arg_cong [OF pre [of "k + 4"], of "drop 4"] that by (simp add: take_drop)
  have "p ! 0 = q ! 0" if "?n = 1"
    using assms(2-4) that by (cases p; cases q) auto
  moreover have "string_size p ?n = string_size q ?n"
    using arg_cong [OF assms(2), of "\<lambda>p. string_size p ?n"] by (simp add: string_size_take)
  ultimately show ?thesis
    using assms pre mid pre [OF string_size_le(2)]
    by (simp add: same_value_def exact_size_def safe_read_bool_def Let_def)
qed

text \<open>The same value gives the same bytes.\<close>

lemmas ltype_values = PB_LTYPE_BOOL_def PB_LTYPE_VARINT_def PB_LTYPE_UVARINT_def PB_LTYPE_SVARINT_def PB_LTYPE_FIXED32_def
  PB_LTYPE_FIXED64_def PB_LTYPE_BYTES_def PB_LTYPE_STRING_def PB_LTYPE_SUBMESSAGE_def PB_LTYPE_EXTENSION_def
  PB_LTYPE_FIXED_LENGTH_BYTES_def PB_LTYPE_LAST_PACKABLE_def

lemma value_bytes_same:
  assumes "PB_ATYPE (f_type f) = PB_ATYPE_STATIC" and "exact_size f" and "PB_LTYPE (f_type f) \<noteq> PB_LTYPE_SUBMESSAGE"
    and same: "same_value f (at env src) (at env' dest)" and "src \<noteq> 0" "dest \<noteq> 0" "0 \<le> src" "0 \<le> dest"
  shows "value_bytes sub env f src = value_bytes sub' env' f dest"
proof -
  have d: "at e (a + 4) = drop 4 (at e a)" if "0 \<le> a" for e :: "'x pb_env" and a
    using that by (simp add: at_def nat_add_distrib add.commute)
  let ?n = "data_size f"
  have ptr: "PB_ATYPE (f_type f) \<noteq> PB_ATYPE_POINTER" using assms(1) by (simp add: PB_ATYPE_STATIC_def PB_ATYPE_POINTER_def)
  have len: "string_size (at env src) ?n \<le> length (at env src)" "string_size (at env src) ?n \<le> length (at env' dest)"
    using same order_trans [OF string_size_le(2)] by (auto simp: same_value_def Let_def)
  have eq: "take ?n (at env src) = take ?n (at env' dest)"
    if "PB_LTYPE (f_type f) \<notin> {PB_LTYPE_BOOL, PB_LTYPE_STRING, PB_LTYPE_BYTES}"
    using same that by (simp add: same_value_def Let_def)
  have n: "?n \<le> length (at env src)" "?n \<le> length (at env' dest)" using same by (simp_all add: same_value_def Let_def)
  have b: "read_size env src = read_size env' dest"
    "read_size env src + 4 \<le> ?n \<Longrightarrow> string_value (read_size env src) (at env (src + 4)) = string_value (read_size env src) (at env' (dest + 4))"
    if l: "PB_LTYPE (f_type f) = PB_LTYPE_BYTES"
  proof -
    define z where "z = read_size env src"
    have same: "z = read_size env' dest" "z + 4 \<le> ?n \<Longrightarrow> take z (drop 4 (at env src)) = take z (drop 4 (at env' dest))"
      using same l unfolding z_def by (auto simp: same_value_def Let_def read_size_def ltype_values)
    then show "read_size env src = read_size env' dest" by (simp add: z_def)
    assume "read_size env src + 4 \<le> ?n"
    then have "z + 4 \<le> ?n" by (simp add: z_def)
    with same(2) n show "string_value (read_size env src) (at env (src + 4)) = string_value (read_size env src) (at env' (dest + 4))"
      unfolding d [OF assms(7)] d [OF assms(8)] z_def [symmetric] by (simp add: string_value_def)
  qed
  have s: "string_value (string_size (at env src) ?n) (at env src) = string_value (string_size (at env' dest) ?n) (at env' dest)"
    if "PB_LTYPE (f_type f) = PB_LTYPE_STRING"
    using same that len by (auto simp: same_value_def Let_def string_value_def ltype_values)
  show ?thesis
    unfolding value_bytes_def Let_def
  proof (intro if_cong refl)
    assume l: "PB_LTYPE (f_type f) = PB_LTYPE_BOOL"
    with same show "emit (varint (of_bool (safe_read_bool (at env src)))) = emit (varint (of_bool (safe_read_bool (at env' dest))))"
      by (simp add: same_value_def Let_def)
  qed (use assms eq n ptr b s in
     \<open>simp_all add: signed_field_def exact_size_def string_value_def ltype_values cong: if_cong\<close>)
qed

end
