(* ===== verification/Pb_Plain.thy ===== *)
theory Pb_Plain
  imports Pb_Place
begin

text \<open>
  Messages of static fields in places of their own, as the generator lays them out, and what
  the memory must be for them: before encoding, strings with a NUL; before decoding, the
  defaults. What a message is on the wire depends on the bytes of its structure only.
\<close>

section \<open>Plain messages\<close>

definition simple_field :: "(nat \<Rightarrow> bool) \<Rightarrow> pb_field \<Rightarrow> bool" where
  "simple_field sub f \<longleftrightarrow>
     (let h = PB_HTYPE (f_type f); l = PB_LTYPE (f_type f)
      in exact_size f \<and> f_tag f < 2 ^ 29 \<and> h \<noteq> PB_HTYPE_ONEOF \<and> (counted f \<longrightarrow> size_offset f \<noteq> 0) \<and>
         (h = PB_HTYPE_OPTIONAL \<and> size_offset f = 0 \<longrightarrow> f_ptr f = 0 \<and> l \<noteq> PB_LTYPE_SUBMESSAGE) \<and>
         all_apart [hd (places f 0)] (tl (places f 0)) \<and>
         (l = PB_LTYPE_SUBMESSAGE \<longrightarrow> sub (f_ptr f)))"

text \<open>The places of the field \<open>i\<close> in a structure at \<open>a\<close>.\<close>

definition field_places :: "'s pb_denv \<Rightarrow> nat \<Rightarrow> int \<Rightarrow> nat \<Rightarrow> place list" where
  "field_places env desc a i = places (fields_at env desc ! i) (a + it_pData (iter_state (fields_at env desc) i))"

fun plain :: "nat \<Rightarrow> 's pb_denv \<Rightarrow> nat \<Rightarrow> bool" where
  "plain 0 env desc \<longleftrightarrow> False"
| "plain (Suc n) env desc \<longleftrightarrow>
     (let fs = butlast (fields_at env desc)
      in distinct (map f_tag fs) \<and> (\<forall>f \<in> set fs. simple_field (plain n env) f) \<and>
         (\<forall>i < length fs. \<forall>j < length fs. i \<noteq> j \<longrightarrow> all_apart (field_places env desc 0 i) (field_places env desc 0 j)))"

section \<open>The memory\<close>

text \<open>A string that is there has its NUL inside its field.\<close>

definition value_terminated :: "(nat \<Rightarrow> int \<Rightarrow> bool) \<Rightarrow> u8 list \<Rightarrow> pb_field \<Rightarrow> int \<Rightarrow> bool" where
  "value_terminated sub m f p \<longleftrightarrow>
     (PB_LTYPE (f_type f) = PB_LTYPE_STRING \<longrightarrow> string_size (drop (nat p) m) (data_size f) < data_size f) \<and>
     (PB_LTYPE (f_type f) = PB_LTYPE_SUBMESSAGE \<longrightarrow> sub (f_ptr f) p)"

definition field_terminated :: "(nat \<Rightarrow> int \<Rightarrow> bool) \<Rightarrow> u8 list \<Rightarrow> pb_field \<Rightarrow> int \<Rightarrow> bool" where
  "field_terminated sub m f p \<longleftrightarrow>
     (if counted f then \<forall>k < load 4 m (p + size_offset f). value_terminated sub m f (p + int (data_size f * k))
      else flagged f \<and> \<not> safe_read_bool (drop (nat (p + size_offset f)) m) \<or> value_terminated sub m f p)"

fun terminated :: "nat \<Rightarrow> 's pb_denv \<Rightarrow> u8 list \<Rightarrow> nat \<Rightarrow> int \<Rightarrow> bool" where
  "terminated 0 env m desc a \<longleftrightarrow> False"
| "terminated (Suc n) env m desc a \<longleftrightarrow>
     (\<forall>i < length (butlast (fields_at env desc)).
        field_terminated (terminated n env m) m (fields_at env desc ! i) (a + it_pData (iter_state (fields_at env desc) i)))"

text \<open>Counters and flags are zero, and so are values that have none.\<close>

definition fresh_field :: "(nat \<Rightarrow> u8 list \<Rightarrow> int \<Rightarrow> bool) \<Rightarrow> u8 list \<Rightarrow> pb_field \<Rightarrow> int \<Rightarrow> bool" where
  "fresh_field sub m f p \<longleftrightarrow>
     (if counted f then load 4 m (p + size_offset f) = 0
      else
        (flagged f \<longrightarrow> bytes_at m (p + size_offset f) 1 = [0]) \<and>
        (PB_LTYPE (f_type f) = PB_LTYPE_SUBMESSAGE \<longrightarrow> sub (f_ptr f) m p) \<and>
        (PB_HTYPE (f_type f) = PB_HTYPE_OPTIONAL \<and> size_offset f = 0 \<longrightarrow> bytes_at m p (data_size f) = replicate (data_size f) 0))"

fun fresh :: "nat \<Rightarrow> 's pb_denv \<Rightarrow> nat \<Rightarrow> u8 list \<Rightarrow> int \<Rightarrow> bool" where
  "fresh 0 env desc m a \<longleftrightarrow> False"
| "fresh (Suc n) env desc m a \<longleftrightarrow>
     (\<forall>i < length (butlast (fields_at env desc)).
        fresh_field (fresh n env) m (fields_at env desc ! i) (a + it_pData (iter_state (fields_at env desc) i)))"

section \<open>Equal bytes, equal messages\<close>

definition kept :: "place list \<Rightarrow> u8 list \<Rightarrow> u8 list \<Rightarrow> bool" where
  "kept P m m' \<longleftrightarrow> length m' = length m \<and>
     (\<forall>(a, n) \<in> set P. 0 \<le> a \<and> a + int n \<le> int (length m) \<and> bytes_at m' a n = bytes_at m a n)"

lemma kept_place:
  "kept P m m' \<Longrightarrow> (a, n) \<in> set P \<Longrightarrow> 0 \<le> a \<and> a + int n \<le> int (length m) \<and> bytes_at m' a n = bytes_at m a n"
  by (auto simp: kept_def)

lemma kept_part:
  assumes "kept P m m'" and "(b, k) \<in> set P" and "b \<le> a" "a + int n \<le> b + int k"
  shows "kept [(a, n)] m m'"
proof -
  from kept_place [OF assms(1,2)] have b: "0 \<le> b" "b + int k \<le> int (length m)" "bytes_at m' b k = bytes_at m b k" by blast+
  from bytes_at_part [OF b(3,1,1), of "a - b" n] assms b show ?thesis by (simp add: kept_def)
qed

lemma kept_at: "kept [(a, n)] m m' \<Longrightarrow> take n (drop (nat a) m') = take n (drop (nat a) m)"
  by (simp add: kept_def bytes_at_def)

lemma at_mem [simp]: "at (env\<lparr>mem := m\<rparr>) a = drop (nat a) m"
  by (simp add: at_def)

lemma items_cong: "(\<And>k. k < count \<Longrightarrow> val (p + int (dsize * k)) = val' (p + int (dsize * k))) \<Longrightarrow>
  items val dsize count p = items val' dsize count p"
proof (induction count arbitrary: p)
  case (Suc count)
  have "items val dsize count (p + int dsize) = items val' dsize count (p + int dsize)"
    using Suc.prems [of "Suc _"] by (intro Suc.IH) (simp add: algebra_simps)
  with Suc.prems [of 0] show ?case by simp
qed simp

text \<open>A value.\<close>

lemma kept_same_value:
  assumes "exact_size f" and "kept [(p, data_size f)] m m'"
  shows "same_value f (drop (nat p) m) (drop (nat p) m')"
  using assms by (intro same_value_bytes) (auto simp: kept_def bytes_at_def)

lemma value_bytes_kept:
  assumes "PB_ATYPE (f_type f) = PB_ATYPE_STATIC" and "exact_size f" and k: "kept [(p, data_size f)] m m'" and "0 < p"
    and sub: "PB_LTYPE (f_type f) = PB_LTYPE_SUBMESSAGE \<Longrightarrow> sub' (f_ptr f) p = sub (f_ptr f) p"
  shows "value_bytes sub' (env\<lparr>mem := m'\<rparr>) f p = value_bytes sub (env\<lparr>mem := m\<rparr>) f p"
proof (cases "PB_LTYPE (f_type f) = PB_LTYPE_SUBMESSAGE")
  case True
  with sub show ?thesis by (simp add: value_bytes_def Let_def ltype_values)
next
  case False
  with assms kept_same_value [OF assms(2) k] show ?thesis
    by (intro value_bytes_same [symmetric]) simp_all
qed

section \<open>Fields\<close>

lemma htype_values [simp]: "PB_HTYPE_REQUIRED \<noteq> PB_HTYPE_OPTIONAL" "PB_HTYPE_REQUIRED \<noteq> PB_HTYPE_REPEATED"
  "PB_HTYPE_OPTIONAL \<noteq> PB_HTYPE_REPEATED" "PB_HTYPE_REPEATED \<noteq> PB_HTYPE_OPTIONAL" "PB_HTYPE_REPEATED \<noteq> PB_HTYPE_REQUIRED"
  "PB_HTYPE_OPTIONAL \<noteq> PB_HTYPE_REQUIRED"
  by (simp_all add: PB_HTYPE_REQUIRED_def PB_HTYPE_OPTIONAL_def PB_HTYPE_REPEATED_def)

text \<open>The proto3 default of a value.\<close>

definition is_default :: "pb_field \<Rightarrow> u8 list \<Rightarrow> bool" where
  "is_default f p \<longleftrightarrow>
     (let l = PB_LTYPE (f_type f)
      in if l = PB_LTYPE_BYTES then le_nat (take 4 p) = 0
         else if l = PB_LTYPE_STRING then p ! 0 = 0
         else if l = PB_LTYPE_FIXED_LENGTH_BYTES then data_size f = 0
         else list_all (\<lambda>b. b = 0) (take (data_size f) p))"

lemma string_size_0: "1 \<le> n \<Longrightarrow> n \<le> length p \<Longrightarrow> string_size p n = 0 \<longleftrightarrow> p ! 0 = 0"
  by (cases p; cases n) auto

lemma is_default_same:
  assumes "exact_size f" and "same_value f p q"
  shows "is_default f p = is_default f q"
proof (cases "PB_LTYPE (f_type f) = PB_LTYPE_STRING")
  case True
  with assms string_size_0 [of "data_size f" p] string_size_0 [of "data_size f" q] show ?thesis
    by (simp add: is_default_def same_value_def exact_size_def Let_def ltype_values)
next
  case False
  show ?thesis
  proof (cases "PB_LTYPE (f_type f) = PB_LTYPE_BOOL")
    case True
    with assms have n: "data_size f = 1" "1 \<le> length p" "1 \<le> length q" "(p ! 0 \<noteq> 0) = (q ! 0 \<noteq> 0)"
      by (simp_all add: same_value_def exact_size_def safe_read_bool_def Let_def)
    then have "list_all (\<lambda>b. b = 0) (take 1 p) = list_all (\<lambda>b. b = 0) (take 1 q)" by (cases p; cases q) auto
    with True n(1) show ?thesis by (simp add: is_default_def Let_def ltype_values)
  next
    case other: False
    with False assms(2) show ?thesis by (simp add: is_default_def same_value_def Let_def ltype_values cong: if_cong)
  qed
qed

lemma check_default_simple:
  assumes "PB_ATYPE (f_type f) = PB_ATYPE_STATIC" and "PB_HTYPE (f_type f) = PB_HTYPE_OPTIONAL" and "size_offset f = 0"
    and "PB_LTYPE (f_type f) \<noteq> PB_LTYPE_SUBMESSAGE"
  shows "pb_check_proto3_default_value n env f p = (if n = 0 then None else Some (is_default f (at env p)))"
proof -
  have "PB_HTYPE_OPTIONAL \<noteq> PB_HTYPE_ONEOF" by (simp add: PB_HTYPE_OPTIONAL_def PB_HTYPE_ONEOF_def)
  moreover have "PB_ATYPE_STATIC \<noteq> PB_ATYPE_POINTER" by (simp add: PB_ATYPE_STATIC_def PB_ATYPE_POINTER_def)
  ultimately show ?thesis
    using assms by (cases n) (simp_all add: check_default_def is_default_def read_size_def Let_def)
qed

text \<open>What a simple field is on the wire.\<close>

lemma field_bytes_simple:
  assumes a: "PB_ATYPE (f_type f) = PB_ATYPE_STATIC" and s: "simple_field fit f"
  shows "field_bytes n c sub env f p =
    (let one = cat (field_tag f) (value_bytes sub env f p)
     in if counted f then array_bytes env f (value_bytes sub env f) (read_size env (p + size_offset f)) p
        else if flagged f then (if safe_read_bool (at env (p + size_offset f)) then one else Emits [])
        else if PB_HTYPE (f_type f) = PB_HTYPE_REQUIRED then (if p = 0 then Fails else one)
        else if n = 0 then Unclear else if is_default f (at env p) then Emits [] else one)"
proof -
  have ne: "PB_ATYPE_STATIC \<noteq> PB_ATYPE_POINTER" "PB_ATYPE_STATIC \<noteq> PB_ATYPE_CALLBACK"
    by (simp_all add: PB_ATYPE_STATIC_def PB_ATYPE_POINTER_def PB_ATYPE_CALLBACK_def)
  note h = htype_cases [of "f_type f"] and s = s [unfolded simple_field_def Let_def]
  show ?thesis
    using h a ne s check_default_simple [OF a, of n env p]
    by (auto simp: field_bytes_def counted_def flagged_def Let_def)
qed

text \<open>It depends on the field's places only.\<close>

lemma field_bytes_kept:
  assumes a: "PB_ATYPE (f_type f) = PB_ATYPE_STATIC" and s: "simple_field fit f" and k: "kept (places f p) m m'" and p: "0 < p"
    and sub: "\<And>q. PB_LTYPE (f_type f) = PB_LTYPE_SUBMESSAGE \<Longrightarrow> 0 < q \<Longrightarrow> kept [(q, data_size f)] m m' \<Longrightarrow>
      sub' (f_ptr f) q = sub (f_ptr f) q"
  shows "field_bytes n c sub' (env\<lparr>mem := m'\<rparr>) f p = field_bytes n c sub (env\<lparr>mem := m\<rparr>) f p"
proof -
  note x = s [unfolded simple_field_def Let_def]
  have exact: "exact_size f" using x by blast
  have item: "kept [(p + int (data_size f * i), data_size f)] m m'" if "i < items_of f" for i
  proof (rule kept_part [OF k])
    show "(p, data_size f * items_of f) \<in> set (places f p)" by (simp add: places_def)
    from that have "data_size f * (i + 1) \<le> data_size f * items_of f" by (intro mult_le_mono2) simp
    then have "data_size f * i + data_size f \<le> data_size f * items_of f" by simp
    then show "p + int (data_size f * i) + int (data_size f) \<le> p + int (data_size f * items_of f)" by linarith
  qed simp
  have val: "value_bytes sub' (env\<lparr>mem := m'\<rparr>) f (p + int (data_size f * i)) = value_bytes sub (env\<lparr>mem := m\<rparr>) f (p + int (data_size f * i))"
    if "i < items_of f" for i
    using p by (intro value_bytes_kept [OF a exact item [OF that]] sub item [OF that]) (simp_all add: add_pos_nonneg)
  show ?thesis
  proof (cases "counted f")
    case True
    then have "(p + size_offset f, 4) \<in> set (places f p)" by (simp add: places_def)
    from kept_place [OF k this] have rs: "read_size (env\<lparr>mem := m'\<rparr>) (p + size_offset f) = read_size (env\<lparr>mem := m\<rparr>) (p + size_offset f)"
      by (simp add: read_size_def bytes_at_def)
    have "array_bytes (env\<lparr>mem := m'\<rparr>) f (value_bytes sub' (env\<lparr>mem := m'\<rparr>) f) count p =
        array_bytes (env\<lparr>mem := m\<rparr>) f (value_bytes sub (env\<lparr>mem := m\<rparr>) f) count p" for count
    proof (cases "count \<le> array_size f")
      case c: True
      with True val have val: "\<And>i. i < count \<Longrightarrow>
          value_bytes sub' (env\<lparr>mem := m'\<rparr>) f (p + int (data_size f * i)) = value_bytes sub (env\<lparr>mem := m\<rparr>) f (p + int (data_size f * i))"
        by (simp add: items_of_def counted_def)
      have ptr: "PB_ATYPE (f_type f) \<noteq> PB_ATYPE_POINTER" using a by (simp add: PB_ATYPE_STATIC_def PB_ATYPE_POINTER_def)
      show ?thesis
        unfolding array_bytes_def by (intro if_cong refl arg_cong2 [where f = cat] arg_cong [where f = block] items_cong) (use val ptr in simp_all)
    qed (simp add: array_bytes_def a PB_ATYPE_STATIC_def PB_ATYPE_POINTER_def)
    with True show ?thesis unfolding field_bytes_simple [OF a s] by (simp add: Let_def rs)
  next
    case False
    then have one: "items_of f = 1" by (simp add: items_of_def counted_def)
    with val [of 0] item [of 0] have v: "value_bytes sub' (env\<lparr>mem := m'\<rparr>) f p = value_bytes sub (env\<lparr>mem := m\<rparr>) f p"
      and i: "kept [(p, data_size f)] m m'" by simp_all
    have flag: "safe_read_bool (drop (nat (p + size_offset f)) m') = safe_read_bool (drop (nat (p + size_offset f)) m)" if "flagged f"
    proof -
      from that False have "(p + size_offset f, 1) \<in> set (places f p)" by (simp add: places_def)
      from kept_place [OF k this] k have "drop (nat (p + size_offset f)) m' \<noteq> []" "drop (nat (p + size_offset f)) m \<noteq> []"
        "take 1 (drop (nat (p + size_offset f)) m') = take 1 (drop (nat (p + size_offset f)) m)"
        by (simp_all add: bytes_at_def kept_def) linarith+
      then show ?thesis by (cases "drop (nat (p + size_offset f)) m'"; cases "drop (nat (p + size_offset f)) m") (simp_all add: safe_read_bool_def)
    qed
    show ?thesis
      unfolding field_bytes_simple [OF a s] Let_def
      using False flag v p is_default_same [OF exact kept_same_value [OF exact i]] by (simp cong: if_cong)
  qed
qed

section \<open>Messages\<close>

fun cats :: "outcome list \<Rightarrow> outcome" where
  "cats [] = Emits []"
| "cats (r # rs) = cat r (cats rs)"

lemma cat_Emits: "cat r q = Emits z \<longleftrightarrow> (\<exists>x y. r = Emits x \<and> q = Emits y \<and> z = x @ y \<and> length z < 2 ^ 63)"
  by (cases r; cases q) (auto simp: emit_def)

lemma cats_Emits: "cats rs = Emits z \<longleftrightarrow> (\<exists>xs. rs = map Emits xs \<and> z = concat xs \<and> length z < 2 ^ 63)"
proof (induction rs arbitrary: z)
  case (Cons r rs)
  show ?case
  proof
    assume "cats (r # rs) = Emits z"
    then obtain x y where xy: "r = Emits x" "cats rs = Emits y" "z = x @ y" "length z < 2 ^ 63" by (auto simp: cat_Emits)
    with Cons.IH obtain xs where "rs = map Emits xs" "y = concat xs" by blast
    with xy have "r # rs = map Emits (x # xs) \<and> z = concat (x # xs) \<and> length z < 2 ^ 63" by simp
    then show "\<exists>xs. r # rs = map Emits xs \<and> z = concat xs \<and> length z < 2 ^ 63" ..
  next
    assume "\<exists>xs. r # rs = map Emits xs \<and> z = concat xs \<and> length z < 2 ^ 63"
    then obtain x xs where "r = Emits x" "rs = map Emits xs" "z = x @ concat xs" "length z < 2 ^ 63" by (auto simp: Cons_eq_map_conv)
    moreover from this have "cats rs = Emits (concat xs)" unfolding Cons.IH by auto
    ultimately show "cats (r # rs) = Emits z" by (simp add: emit_def)
  qed
qed auto

lemma items_cats: "items val dsize count p = cats (map (\<lambda>i. val (p + int (dsize * i))) [0..<count])"
proof (induction count arbitrary: p)
  case (Suc count)
  have "[0..<Suc count] = 0 # map Suc [0..<count]" by (simp add: upt_conv_Cons map_Suc_upt del: upt_Suc)
  with Suc.IH show ?case by (simp add: algebra_simps comp_def del: upt_Suc)
qed simp

lemma message_fields_cats:
  assumes d: "descriptors ds fs"
  shows "i < length fs \<Longrightarrow> length fs \<le> i + k \<Longrightarrow>
    message_fields F src k (iter_state ds i) = cats (map (\<lambda>j. F (fs ! j) (src + it_pData (iter_state ds j))) [i..<length fs])"
proof (induction k arbitrary: i)
  case (Suc k)
  have up: "[i..<length fs] = i # [Suc i..<length fs]" using Suc.prems by (simp add: upt_conv_Cons)
  show ?case
    using Suc.IH [of "Suc i"] Suc.prems unfolding up by (simp add: iter_next_state [OF d Suc.prems(1)] field_at_state [OF d Suc.prems(1)])
qed simp

lemma message_bytes_cats:
  assumes d: "descriptors (descs env desc) fs" and e: "\<forall>f \<in> set fs. PB_LTYPE (f_type f) \<noteq> PB_LTYPE_EXTENSION"
  shows "message_bytes (Suc n) c env desc src =
    cats (map (\<lambda>i. field_bytes n c (message_bytes n c env) env (fs ! i) (src + it_pData (iter_state (descs env desc) i))) [0..<length fs])"
proof (cases "fs = []")
  case False
  then have "0 < length fs" by simp
  note loop = message_fields_cats [OF d this, of "Suc (length fs)"]
  from False descriptors_nth(4) [OF d] show ?thesis
    by (simp add: begin_descriptors [OF d] loop del: message_fields.simps) (rule arg_cong [where f = cats], use e in simp)
qed (simp add: begin_descriptors [OF d])

text \<open>Where the iterator finds the counter.\<close>

lemma it_pSize_state:
  assumes d: "descriptors ds fs" and h: "\<forall>f \<in> set fs. PB_HTYPE (f_type f) \<noteq> PB_HTYPE_ONEOF"
  shows "i < length fs \<Longrightarrow> it_pSize (iter_state ds i) = it_pData (iter_state ds i) + size_offset (fs ! i)"
proof (induction i)
  case 0
  with descriptors_nth(1) [OF d, of 0] show ?case by (simp add: iter_state.simps pb_field_iter_begin_def Let_def)
next
  case (Suc i)
  then have i: "i < length fs" by simp
  note p = iter_state_pos [OF d i]
  have "PB_HTYPE (f_type (fs ! i)) \<noteq> PB_HTYPE_ONEOF" using h i by simp
  moreover have "f_tag (ds ! i) \<noteq> 0" "f_tag (ds ! Suc i) \<noteq> 0" "ds ! i = fs ! i" "ds ! Suc i = fs ! Suc i"
    using descriptors_nth(1,2) [OF d i] descriptors_nth(1,2) [OF d Suc.prems] by simp_all
  ultimately show ?case by (simp add: iter_state.simps pb_field_iter_next_def field_at_def p Let_def)
qed

section \<open>A plain message whose layout fits\<close>

text \<open>What \<open>fits\<close> and \<open>plain\<close> give for the field \<open>i\<close>.\<close>

lemma plain_field_fits:
  assumes "fits (Suc n) env desc sz" and "plain (Suc n) env desc" and "i < length (butlast (fields_at env desc))"
  defines "f \<equiv> butlast (fields_at env desc) ! i" and "pd \<equiv> it_pData (iter_state (fields_at env desc) i)"
  shows "fields_at env desc ! i = f" and "PB_ATYPE (f_type f) = PB_ATYPE_STATIC" and "simple_field (plain n env) f"
    and "size_fits (fits n env) f" and "it_pSize (iter_state (fields_at env desc) i) = pd + size_offset f"
    and "(b, k) \<in> set (places f pd) \<Longrightarrow> 0 \<le> b \<and> b + int k \<le> int sz" and "0 \<le> pd"
proof -
  note d = fits_descriptors [OF assms(1)]
  have simple: "\<forall>f \<in> set (butlast (fields_at env desc)). simple_field (plain n env) f"
    using assms(2) by (simp add: Let_def)
  then show s: "simple_field (plain n env) f" using assms(3) by (simp add: f_def)
  have "\<forall>f \<in> set (butlast (fields_at env desc)). PB_HTYPE (f_type f) \<noteq> PB_HTYPE_ONEOF"
    using simple by (auto simp: simple_field_def Let_def)
  from it_pSize_state [OF d this assms(3)] show ps: "it_pSize (iter_state (fields_at env desc) i) = pd + size_offset f"
    by (simp add: f_def pd_def)
  show "fields_at env desc ! i = f" using assms(3) by (simp add: f_def nth_butlast)
  note fit = fits_field [OF assms(1,3), folded f_def pd_def, unfolded ps field_fits_def Let_def]
  then show "PB_ATYPE (f_type f) = PB_ATYPE_STATIC" "size_fits (fits n env) f" by blast+
  show "0 \<le> b \<and> b + int k \<le> int sz" if "(b, k) \<in> set (places f pd)"
    using that fit by (auto simp: places_def inside_def counted_def flagged_def split: if_splits)
  show "0 \<le> pd" using fit by (simp add: inside_def)
qed

lemma places_shift: "places f (a + p) = map (\<lambda>(b, k). (a + b, k)) (places f p)"
  by (simp add: places_def)

lemma kept_inside:
  assumes "kept [(a, sz)] m m'" and "\<And>b k. (b, k) \<in> set P \<Longrightarrow> 0 \<le> b \<and> b + int k \<le> int sz"
  shows "kept (map (\<lambda>(b, k). (a + b, k)) P) m m'"
proof -
  have "kept [(a + b, k)] m m'" if "(b, k) \<in> set P" for b k
    using assms(2) [OF that] by (intro kept_part [OF assms(1), of a sz]) auto
  with assms(1) show ?thesis by (auto simp: kept_def)
qed

lemma size_fits_ltype: "size_fits fit f \<Longrightarrow> PB_LTYPE (f_type f) \<noteq> PB_LTYPE_EXTENSION"
  by (simp add: size_fits_def Let_def)

lemma size_fits_sub: "size_fits fit f \<Longrightarrow> PB_LTYPE (f_type f) = PB_LTYPE_SUBMESSAGE \<Longrightarrow> fit (f_ptr f) (data_size f)"
  by (simp add: size_fits_def Let_def)

lemma simple_field_sub: "simple_field sub f \<Longrightarrow> PB_LTYPE (f_type f) = PB_LTYPE_SUBMESSAGE \<Longrightarrow> sub (f_ptr f)"
  by (simp add: simple_field_def Let_def)

lemma plain_message_cats:
  assumes fit: "fits (Suc n) denv desc sz" and pl: "plain (Suc n) denv desc" and "descs env = fields_at denv"
  shows "message_bytes (Suc n) c env desc src =
    cats (map (\<lambda>i. field_bytes n c (message_bytes n c env) env (fields_at denv desc ! i) (src + it_pData (iter_state (fields_at denv desc) i)))
      [0..<length (butlast (fields_at denv desc))])"
proof -
  let ?fs = "butlast (fields_at denv desc)"
  have d: "descriptors (descs env desc) ?fs" using fits_descriptors [OF fit] assms(3) by simp
  have "\<forall>f \<in> set ?fs. PB_LTYPE (f_type f) \<noteq> PB_LTYPE_EXTENSION"
    using plain_field_fits(4) [OF fit pl] size_fits_ltype by (metis in_set_conv_nth)
  from message_bytes_cats [OF d this] show ?thesis
    using assms(3) plain_field_fits(1) [OF fit pl] by (auto intro!: arg_cong [where f = cats])
qed

text \<open>The message on the wire depends on the structure only, as do freshness and termination.\<close>

lemma message_bytes_kept:
  assumes e: "descs env = fields_at denv"
  shows "fits n denv desc sz \<Longrightarrow> plain n denv desc \<Longrightarrow> kept [(a, sz)] m m' \<Longrightarrow> 0 < a \<Longrightarrow>
    message_bytes n c (env\<lparr>mem := m'\<rparr>) desc a = message_bytes n c (env\<lparr>mem := m\<rparr>) desc a"
proof (induction n arbitrary: desc sz a)
  case (Suc n)
  have e': "descs (env\<lparr>mem := m\<rparr>) = fields_at denv" for m using e by simp
  let ?pd = "\<lambda>i. it_pData (iter_state (fields_at denv desc) i)"
  have "field_bytes n c (message_bytes n c (env\<lparr>mem := m'\<rparr>)) (env\<lparr>mem := m'\<rparr>) (fields_at denv desc ! i) (a + ?pd i) =
      field_bytes n c (message_bytes n c (env\<lparr>mem := m\<rparr>)) (env\<lparr>mem := m\<rparr>) (fields_at denv desc ! i) (a + ?pd i)"
    if i: "i < length (butlast (fields_at denv desc))" for i
  proof -
    note f = plain_field_fits [OF Suc.prems(1,2) i]
    have "kept (places (fields_at denv desc ! i) (a + ?pd i)) m m'"
      unfolding f(1) places_shift using f(6) by (intro kept_inside [OF Suc.prems(3)]) blast
    moreover have "0 < a + ?pd i" using f(7) Suc.prems(4) by simp
    ultimately show ?thesis
      using size_fits_sub [OF f(4)] simple_field_sub [OF f(3)] unfolding f(1)
      by (intro field_bytes_kept [OF f(2,3)] Suc.IH) auto
  qed
  then show ?case
    unfolding plain_message_cats [OF Suc.prems(1,2) e'] by (auto intro!: arg_cong [where f = cats])
qed simp

lemma fresh_field_kept:
  assumes k: "kept (places f p) m m'"
    and sub: "PB_LTYPE (f_type f) = PB_LTYPE_SUBMESSAGE \<Longrightarrow> \<not> counted f \<Longrightarrow> kept [(p, data_size f)] m m' \<Longrightarrow> sub (f_ptr f) m' p = sub (f_ptr f) m p"
  shows "fresh_field sub m' f p = fresh_field sub m f p"
proof (cases "counted f")
  case True
  then have "(p + size_offset f, 4) \<in> set (places f p)" by (simp add: places_def)
  from kept_place [OF k this] True show ?thesis by (simp add: fresh_field_def load_bytes_at)
next
  case False
  have "kept [(p, data_size f)] m m'"
    by (rule kept_part [OF k, of p "data_size f"]) (use False in \<open>simp_all add: places_def items_of_def counted_def\<close>)
  moreover have "bytes_at m' (p + size_offset f) 1 = bytes_at m (p + size_offset f) 1" if "flagged f"
    using that False kept_place [OF k, of "p + size_offset f" 1] by (simp add: places_def)
  ultimately show ?thesis using False sub by (auto simp: fresh_field_def kept_def)
qed

lemma fresh_kept:
  "fits n denv desc sz \<Longrightarrow> plain n denv desc \<Longrightarrow> kept [(a, sz)] m m' \<Longrightarrow> fresh n denv desc m' a = fresh n denv desc m a"
proof (induction n arbitrary: desc sz a)
  case (Suc n)
  let ?pd = "\<lambda>i. it_pData (iter_state (fields_at denv desc) i)"
  have "fresh_field (fresh n denv) m' (fields_at denv desc ! i) (a + ?pd i) = fresh_field (fresh n denv) m (fields_at denv desc ! i) (a + ?pd i)"
    if i: "i < length (butlast (fields_at denv desc))" for i
  proof -
    note f = plain_field_fits [OF Suc.prems(1,2) i]
    have "kept (places (fields_at denv desc ! i) (a + ?pd i)) m m'"
      unfolding f(1) places_shift using f(6) by (intro kept_inside [OF Suc.prems(3)]) blast
    then show ?thesis
      using size_fits_sub [OF f(4)] simple_field_sub [OF f(3)] unfolding f(1) by (intro fresh_field_kept Suc.IH) auto
  qed
  then show ?case by simp
qed simp

end
