(* ===== verification/Pb_Fresh.thy ===== *)
theory Pb_Fresh
  imports Pb_Plain
begin

text \<open>
  Setting the defaults makes a plain message fresh: every counter and flag is zero.
\<close>

lemma only_kept:
  assumes "only Q m m'" and "all_apart P Q" and "\<And>b k. (b, k) \<in> set P \<Longrightarrow> 0 \<le> b \<and> b + int k \<le> int (length m)"
  shows "kept P m m'"
proof -
  have "bytes_at m' b k = bytes_at m b k" if "(b, k) \<in> set P" for b k
    using that assms(2,3) by (intro only_apart [OF assms(1)]) (auto simp: all_apart_def)
  with assms(1,3) show ?thesis by (auto simp: kept_def only_def)
qed

lemma all_apart_shift: "all_apart (places f (a + p)) (places g (a + q)) = all_apart (places f p) (places g q)"
  unfolding places_shift by (simp add: all_apart_def apart_def case_prod_unfold)

lemma all_apart_sym: "all_apart P Q \<Longrightarrow> all_apart Q P"
  by (auto simp: all_apart_def apart_def)

lemma all_apart_subset: "all_apart P Q \<Longrightarrow> set P' \<subseteq> set P \<Longrightarrow> set Q' \<subseteq> set Q \<Longrightarrow> all_apart P' Q'"
  by (auto simp: all_apart_def)

lemma plain_apart:
  assumes "fits (Suc n) env desc sz" "plain (Suc n) env desc" and "i < length (butlast (fields_at env desc))" "j < length (butlast (fields_at env desc))" "i \<noteq> j"
  shows "all_apart (field_places env desc a i) (field_places env desc a j)"
proof -
  have "all_apart (field_places env desc 0 i) (field_places env desc 0 j)"
    using assms by (auto simp: Let_def)
  then show ?thesis by (simp add: field_places_def all_apart_shift)
qed

lemma field_places_inside:
  assumes "fits (Suc n) env desc sz" "plain (Suc n) env desc" and "i < length (butlast (fields_at env desc))" and "(b, k) \<in> set (field_places env desc a i)"
  shows "a \<le> b \<and> b + int k \<le> a + int sz"
proof -
  note f = plain_field_fits [OF assms(1,2,3)]
  from assms(4) obtain c where c: "b = a + c" "(c, k) \<in> set (places (butlast (fields_at env desc) ! i) (it_pData (iter_state (fields_at env desc) i)))"
    unfolding field_places_def f(1) places_shift by auto
  from f(6) [OF c(2)] c(1) show ?thesis by simp
qed

text \<open>What holds of a field is not disturbed by another one.\<close>

lemma field_kept_by_other:
  assumes "fits (Suc n) env desc sz" "plain (Suc n) env desc" and "i < length (butlast (fields_at env desc))" "j < length (butlast (fields_at env desc))" "i \<noteq> j"
    and "only (field_places env desc a j) m m'" and "0 \<le> a" "a + int sz \<le> int (length m)"
  shows "kept (field_places env desc a i) m m'"
  using field_places_inside [OF assms(1-3)] assms(7,8)
  by (intro only_kept [OF assms(6) plain_apart [OF assms(1-5)]]) force

lemma each_field_establishes:
  assumes d: "descriptors ds fs"
    and step: "\<And>i m. i < length fs \<Longrightarrow> length m = L \<Longrightarrow> \<exists>m'. f dest (iter_state ds i) m = Some m' \<and> only (P i) m m' \<and> Q i m'"
    and frame: "\<And>i j m m'. i < length fs \<Longrightarrow> j < length fs \<Longrightarrow> i \<noteq> j \<Longrightarrow> length m = L \<Longrightarrow> only (P j) m m' \<Longrightarrow> Q i m \<Longrightarrow> Q i m'"
  shows "i < length fs \<Longrightarrow> length fs \<le> i + k \<Longrightarrow> length m = L \<Longrightarrow> \<forall>j < i. Q j m \<Longrightarrow>
    \<exists>m'. each_field f dest k (iter_state ds i) m = Some m' \<and> (\<forall>j < length fs. Q j m')"
proof (induction k arbitrary: i m)
  case (Suc k)
  from step [OF Suc.prems(1,3)] obtain m1 where m1: "f dest (iter_state ds i) m = Some m1" "only (P i) m m1" "Q i m1" by blast
  have q: "Q j m1" if "j < Suc i" for j
  proof (cases "j = i")
    case False
    with that have j: "j < i" "j < length fs" using Suc.prems(1) by simp_all
    from frame [OF j(2) Suc.prems(1) False Suc.prems(3) m1(2)] Suc.prems(4) j(1) show ?thesis by blast
  qed (use m1(3) in simp)
  have l: "length m1 = L" using only_length [OF m1(2)] Suc.prems(3) by simp
  show ?case
  proof (cases "Suc i < length fs")
    case True
    with Suc.IH [OF True _ l] q Suc.prems(2) m1(1) show ?thesis by (simp add: iter_next_state [OF d Suc.prems(1)])
  next
    case False
    with Suc.prems(1) have "length fs = Suc i" by simp
    with q m1(1) False show ?thesis by (simp add: iter_next_state [OF d Suc.prems(1)])
  qed
qed simp

section \<open>A field\<close>

lemma le_nat_le_bytes: "le_nat (le_bytes n v) = v mod 256 ^ n"
  by (simp add: le_nat_def le_bytes_def be_nat_be_bytes)

lemma load_store: "0 \<le> a \<Longrightarrow> a + 4 \<le> int (length m) \<Longrightarrow> load 4 (store a (le_bytes 4 v) m) a = v mod 2 ^ 32"
  using bytes_at_store [of a "le_bytes 4 v" m] by (simp add: load_bytes_at le_nat_le_bytes)

text \<open>The data of a field that does not count.\<close>

lemma default_data:
  assumes f: "\<not> counted f" and k: "0 \<le> p" "p + int (data_size f) \<le> int (length m)"
    and ptr: "PB_HTYPE (f_type f) = PB_HTYPE_OPTIONAL \<and> size_offset f = 0 \<Longrightarrow> f_ptr f = 0 \<and> PB_LTYPE (f_type f) \<noteq> PB_LTYPE_SUBMESSAGE"
    and sub: "PB_LTYPE (f_type f) = PB_LTYPE_SUBMESSAGE \<Longrightarrow>
      \<exists>m'. sub (f_ptr f) p m = Some m' \<and> only [(p, data_size f)] m m' \<and> fr (f_ptr f) m' p"
  shows "\<exists>m'. (if PB_LTYPE (f_type f) = PB_LTYPE_SUBMESSAGE then sub (f_ptr f) p m
      else if f_ptr f \<noteq> 0 then Some (store p (take (data_size f) (drop (f_ptr f) m)) m)
      else Some (store p (replicate (data_size f) 0) m)) = Some m' \<and> only [(p, data_size f)] m m' \<and>
    (PB_LTYPE (f_type f) = PB_LTYPE_SUBMESSAGE \<longrightarrow> fr (f_ptr f) m' p) \<and>
    (PB_HTYPE (f_type f) = PB_HTYPE_OPTIONAL \<and> size_offset f = 0 \<longrightarrow> bytes_at m' p (data_size f) = replicate (data_size f) 0)"
proof (cases "PB_LTYPE (f_type f) = PB_LTYPE_SUBMESSAGE")
  case True
  with sub ptr show ?thesis by fastforce
next
  case False
  let ?bs = "take (data_size f) (drop (f_ptr f) m)"
  have "only [(p, length ?bs)] m (store p ?bs m)" using k by (intro store_only) simp_all
  then have "only [(p, data_size f)] m (store p ?bs m)" by (rule only_mono) simp
  moreover have "only [(p, data_size f)] m (store p (replicate (data_size f) 0) m)"
    using store_only [of p "replicate (data_size f) 0" m] k by simp
  moreover have "bytes_at (store p (replicate (data_size f) 0) m) p (data_size f) = replicate (data_size f) 0"
    using bytes_at_store [of p "replicate (data_size f) 0" m] k by simp
  ultimately show ?thesis using False ptr by auto
qed

lemma field_default_fresh:
  assumes a: "PB_ATYPE (f_type f) = PB_ATYPE_STATIC" and s: "simple_field fit f" and l: "PB_LTYPE (f_type f) \<noteq> PB_LTYPE_EXTENSION"
    and k: "\<And>b k. (b, k) \<in> set (places f p) \<Longrightarrow> 0 \<le> b \<and> b + int k \<le> int (length m)"
    and sub: "\<And>m. PB_LTYPE (f_type f) = PB_LTYPE_SUBMESSAGE \<Longrightarrow> p + int (data_size f) \<le> int (length m) \<Longrightarrow> 0 \<le> p \<Longrightarrow>
      \<exists>m'. sub (f_ptr f) p m = Some m' \<and> only [(p, data_size f)] m m' \<and> fr (f_ptr f) m' p"
  shows "\<exists>m'. field_default sub exts f p (p + size_offset f) m = Some m' \<and> only (places f p) m m' \<and> fresh_field fr m' f p"
proof -
  note s = s [unfolded simple_field_def Let_def]
  show ?thesis
  proof (cases "counted f")
    case True
    then have "(p + size_offset f, 4) \<in> set (places f p)" by (simp add: places_def)
    with k have c: "0 \<le> p + size_offset f" "p + size_offset f + 4 \<le> int (length m)" by fastforce+
    have "only [(p + size_offset f, 4)] m (store (p + size_offset f) (le_bytes 4 0) m)"
      using store_only [of "p + size_offset f" "le_bytes 4 0" m] c by simp
    then have "only (places f p) m (store (p + size_offset f) (le_bytes 4 0) m)"
      by (rule only_subset) (simp add: places_def True)
    with True a l load_store [OF c, of 0] show ?thesis
      by (simp add: field_default_def counted_def fresh_field_def Let_def)
  next
    case False
    have here: "(p, data_size f) \<in> set (places f p)" using False by (simp add: places_def items_of_def counted_def)
    from k [OF here] have p: "0 \<le> p" "p + int (data_size f) \<le> int (length m)" by blast+
    have opt: "PB_HTYPE (f_type f) = PB_HTYPE_OPTIONAL \<and> p + size_offset f \<noteq> p \<longleftrightarrow> flagged f" by (simp add: flagged_def)
    let ?m = "if flagged f then store (p + size_offset f) [0] m else m"
    have flag: "only (places f p) m ?m \<and> (flagged f \<longrightarrow> bytes_at ?m (p + size_offset f) 1 = [0] \<and>
        all_apart [(p, data_size f)] [(p + size_offset f, 1)] \<and> 0 \<le> p + size_offset f)"
    proof (cases "flagged f")
      case True
      then have "(p + size_offset f, 1) \<in> set (places f p)" using False by (simp add: places_def)
      with k have c: "0 \<le> p + size_offset f" "p + size_offset f + 1 \<le> int (length m)" by fastforce+
      have "only [(p + size_offset f, 1)] m (store (p + size_offset f) [0] m)"
        using store_only [of "p + size_offset f" "[0]" m] c by simp
      then have "only (places f p) m (store (p + size_offset f) [0] m)"
        by (rule only_subset) (simp add: places_def True False)
      moreover have "all_apart [(p, data_size f)] [(p + size_offset f, 1)]"
        using s True False by (simp add: places_def all_apart_def apart_def items_of_def counted_def)
      ultimately show ?thesis using True c bytes_at_store [of "p + size_offset f" "[0]" m] by simp
    qed simp
    from flag have m: "p + int (data_size f) \<le> int (length ?m)" using p(2) only_length [of "places f p" m ?m] by simp
    note data = default_data [OF False p(1) m, of sub fr]
    from s have "PB_HTYPE (f_type f) = PB_HTYPE_OPTIONAL \<and> size_offset f = 0 \<Longrightarrow> f_ptr f = 0 \<and> PB_LTYPE (f_type f) \<noteq> PB_LTYPE_SUBMESSAGE" by blast
    from data [OF this sub] m p(1) obtain m' where
      m': "(if PB_LTYPE (f_type f) = PB_LTYPE_SUBMESSAGE then sub (f_ptr f) p ?m
        else if f_ptr f \<noteq> 0 then Some (store p (take (data_size f) (drop (f_ptr f) ?m)) ?m)
        else Some (store p (replicate (data_size f) 0) ?m)) = Some m'" "only [(p, data_size f)] ?m m'"
        "PB_LTYPE (f_type f) = PB_LTYPE_SUBMESSAGE \<longrightarrow> fr (f_ptr f) m' p"
        "PB_HTYPE (f_type f) = PB_HTYPE_OPTIONAL \<and> size_offset f = 0 \<longrightarrow> bytes_at m' p (data_size f) = replicate (data_size f) 0"
      by blast
    have "only (places f p) ?m m'" by (rule only_subset [OF m'(2)]) (use here in simp)
    with flag have "only (places f p) m m'" by (blast intro: only_trans)
    moreover have "bytes_at m' (p + size_offset f) 1 = [0]" if "flagged f"
      using only_apart [OF m'(2), of "p + size_offset f" 1] flag that by (auto dest: all_apart_sym)
    moreover have "PB_HTYPE (f_type f) \<noteq> PB_HTYPE_REPEATED" "PB_HTYPE (f_type f) \<noteq> PB_HTYPE_ONEOF"
      using False s by (simp_all add: counted_def)
    moreover from this have "field_default sub exts f p (p + size_offset f) m = Some m'"
      using m'(1) a l unfolding field_default_def Let_def opt by simp
    ultimately show ?thesis using m'(3,4) False by (auto simp: fresh_field_def)
  qed
qed

section \<open>Messages\<close>

lemma defaults_fresh:
  "fits n env desc sz \<Longrightarrow> plain n env desc \<Longrightarrow> n \<le> N \<Longrightarrow> 0 \<le> a \<Longrightarrow> a + int sz \<le> int (length m) \<Longrightarrow>
     \<exists>m'. pb_message_set_to_defaults N env desc a m = Some m' \<and> only [(a, sz)] m m' \<and> fresh n env desc m' a"
proof (induction n arbitrary: N desc sz a m)
  case (Suc n)
  let ?ds = "fields_at env desc" and ?fs = "butlast (fields_at env desc)"
  let ?Q = "\<lambda>i m. fresh_field (fresh n env) m (?ds ! i) (a + it_pData (iter_state ?ds i))"
  note d = fits_descriptors [OF Suc.prems(1)]
  from Suc.prems(3) obtain k where N: "N = Suc k" "n \<le> k" by (cases N) auto
  have step: "\<exists>m2. pb_field_set_to_default N env a (iter_state ?ds i) m1 = Some m2 \<and> only (field_places env desc a i) m1 m2 \<and> ?Q i m2"
    if i: "i < length ?fs" and m: "length m1 = length m" for i m1
  proof -
    note f = plain_field_fits [OF Suc.prems(1,2) i] and e = field_at_state [OF d i]
    let ?p = "a + it_pData (iter_state ?ds i)" and ?f = "?fs ! i"
    have places: "0 \<le> b \<and> b + int k \<le> int (length m1)" if "(b, k) \<in> set (places ?f ?p)" for b k
      using field_places_inside [OF Suc.prems(1,2) i, of b k a] that Suc.prems(4,5) unfolding field_places_def f(1) by (simp add: m)
    have sub: "\<exists>m'. each_of_message (pb_field_set_to_default k env) env (f_ptr ?f) ?p m2 = Some m' \<and> only [(?p, data_size ?f)] m2 m' \<and>
        fresh n env (f_ptr ?f) m' ?p"
      if "PB_LTYPE (f_type ?f) = PB_LTYPE_SUBMESSAGE" "?p + int (data_size ?f) \<le> int (length m2)" "0 \<le> ?p" for m2
      using Suc.IH [OF size_fits_sub [OF f(4) that(1)] simple_field_sub [OF f(3) that(1)] N(2) that(3,2)]
      by (simp add: pb_message_set_to_defaults_def)
    have "\<exists>m2. field_default (each_of_message (pb_field_set_to_default k env) env) (extension_defaults (pb_field_set_to_default k env) env k)
        ?f ?p (?p + size_offset ?f) m1 = Some m2 \<and> only (places ?f ?p) m1 m2 \<and> fresh_field (fresh n env) m2 ?f ?p"
      by (rule field_default_fresh [OF f(2,3) size_fits_ltype [OF f(4)] places]) (use sub in blast)+
    then show ?thesis by (simp add: N(1) e f(1,5) field_places_def add.assoc)
  qed
  have frame: "?Q i m2" if "i < length ?fs" "j < length ?fs" "i \<noteq> j" "length m1 = length m" "only (field_places env desc a j) m1 m2" "?Q i m1" for i j m1 m2
  proof -
    note f = plain_field_fits [OF Suc.prems(1,2) that(1)]
    have "kept (field_places env desc a i) m1 m2"
      using Suc.prems(4,5) that(4) by (intro field_kept_by_other [OF Suc.prems(1,2) that(1,2,3,5)]) simp_all
    then have "?Q i m2 = ?Q i m1"
      using fresh_kept [OF size_fits_sub [OF f(4)] simple_field_sub [OF f(3)]] unfolding field_places_def f(1)
      by (intro fresh_field_kept) blast+
    with that(6) show ?thesis by blast
  qed
  have safe: "\<exists>m'. pb_message_set_to_defaults N env desc a m = Some m' \<and> only [(a, sz)] m m'"
    using mem_safeD [OF defaults_safe [OF fits_mono [OF Suc.prems(1,3)], of "nat a"], of m] Suc.prems(4,5) only_outside [of "nat a" sz] by auto
  show ?case
  proof (cases "?fs = []")
    case False
    then have fs: "0 < length ?fs" by (metis length_greater_0_conv)
    have len: "length ?fs \<le> 0 + length ?ds" using descriptors_nth(4) [OF d] by linarith
    have "\<exists>m'. each_field (pb_field_set_to_default N env) a (length ?ds) (iter_state ?ds 0) m = Some m' \<and> (\<forall>j < length ?fs. ?Q j m')"
      by (rule each_field_establishes [OF d, where P = "field_places env desc a" and Q = ?Q and L = "length m"])
         (use step frame fs len in blast)+
    with safe False show ?thesis
      by (auto simp: pb_message_set_to_defaults_def each_of_message_def begin_descriptors [OF d])
  qed (use safe in simp)
qed simp

end
