(* ===== verification/Pb_Reads.thy ===== *)
theory Pb_Reads
  imports Pb_Fresh Pb_Decode_Bounds
begin

text \<open>
  Decoding what has been encoded, one value at a time: the decoder of a field reads the bytes
  that the reference encoding gives for a value in memory, and stores the same value.
\<close>

section \<open>Reading exactly\<close>

text \<open>On a stream from memory that starts with \<open>x\<close>, and memory that satisfies \<open>P\<close>, \<open>f\<close> succeeds,
  takes just \<open>x\<close>, changes the memory by \<open>R\<close> and nothing else of the state. \<open>reads_all\<close>: on a
  stream that has \<open>x\<close> only.\<close>

definition reads :: "(u8 list \<Rightarrow> bool) \<Rightarrow> u8 list dec \<Rightarrow> u8 list \<Rightarrow> (u8 list \<Rightarrow> u8 list \<Rightarrow> bool) \<Rightarrow> bool" where
  "reads P f x R \<longleftrightarrow>
     (\<forall>st bs after. P (dmem st) \<longrightarrow> stream_has (\<lambda>s. s) (inp st) (x @ bs) after \<longrightarrow>
        (\<exists>s' m'. f st = Some (True, st\<lparr>dmem := m', inp := s'\<rparr>) \<and> stream_has (\<lambda>s. s) s' bs after \<and> R (dmem st) m'))"

definition reads_all :: "(u8 list \<Rightarrow> bool) \<Rightarrow> u8 list dec \<Rightarrow> u8 list \<Rightarrow> (u8 list \<Rightarrow> u8 list \<Rightarrow> bool) \<Rightarrow> bool" where
  "reads_all P f x R \<longleftrightarrow>
     (\<forall>st after. P (dmem st) \<longrightarrow> stream_has (\<lambda>s. s) (inp st) x after \<longrightarrow>
        (\<exists>s' m'. f st = Some (True, st\<lparr>dmem := m', inp := s'\<rparr>) \<and> stream_has (\<lambda>s. s) s' [] after \<and> R (dmem st) m'))"

lemma readsD:
  assumes "reads P f x R" and "P (dmem st)" and "stream_has (\<lambda>s. s) (inp st) (x @ bs) after"
  obtains s' m' where "f st = Some (True, st\<lparr>dmem := m', inp := s'\<rparr>)" and "stream_has (\<lambda>s. s) s' bs after" and "R (dmem st) m'"
  using assms unfolding reads_def by blast

lemma reads_allD:
  assumes "reads_all P f x R" and "P (dmem st)" and "stream_has (\<lambda>s. s) (inp st) x after"
  obtains s' m' where "f st = Some (True, st\<lparr>dmem := m', inp := s'\<rparr>)" and "stream_has (\<lambda>s. s) s' [] after" and "R (dmem st) m'"
  using assms unfolding reads_all_def by blast

lemma reads_weaken:
  "reads P f x R \<Longrightarrow> (\<And>m. P' m \<Longrightarrow> P m) \<Longrightarrow> (\<And>m m'. P' m \<Longrightarrow> R m m' \<Longrightarrow> Q m m') \<Longrightarrow> reads P' f x Q"
  unfolding reads_def by meson

lemma reads_all_weaken:
  "reads_all P f x R \<Longrightarrow> (\<And>m. P' m \<Longrightarrow> P m) \<Longrightarrow> (\<And>m m'. P' m \<Longrightarrow> R m m' \<Longrightarrow> Q m m') \<Longrightarrow> reads_all P' f x Q"
  unfolding reads_all_def by meson

lemma reads_succeed: "reads (\<lambda>_. True) succeed [] (\<lambda>m m'. m' = m)"
  by (auto simp: reads_def succeed_def intro!: exI [of _ "inp _"])

lemma reads_reading:
  assumes r: "decodes (\<lambda>s. s) r x v" and g: "reads P (g v) y R"
  shows "reads P (reading r g) (x @ y) R"
  unfolding reads_def
proof (intro allI impI)
  fix st :: "u8 list dstate" and bs after
  assume P: "P (dmem st)" and "stream_has (\<lambda>s. s) (inp st) ((x @ y) @ bs) after"
  then have "stream_has (\<lambda>s. s) (inp st) (x @ (y @ bs)) after" by simp
  from decodesD [OF r this] obtain s1 where 1: "r (inp st) = (Some v, s1)" "stream_has (\<lambda>s. s) s1 (y @ bs) after" by blast
  then have "stream_has (\<lambda>s. s) (inp (st\<lparr>inp := s1\<rparr>)) (y @ bs) after" "P (dmem (st\<lparr>inp := s1\<rparr>))" using P by simp_all
  from readsD [OF g this(2,1)] obtain s' m' where "g v (st\<lparr>inp := s1\<rparr>) = Some (True, st\<lparr>inp := s1, dmem := m', inp := s'\<rparr>)"
    "stream_has (\<lambda>s. s) s' bs after" "R (dmem (st\<lparr>inp := s1\<rparr>)) m'" .
  with 1(1) show "\<exists>s' m'. reading r g st = Some (True, st\<lparr>dmem := m', inp := s'\<rparr>) \<and> stream_has (\<lambda>s. s) s' bs after \<and> R (dmem st) m'"
    by (auto simp: reading_def)
qed

lemma reads_storing:
  assumes "reads P g y R"
  shows "reads (\<lambda>m. P (store a bs m)) (storing a bs g) y (\<lambda>m m'. R (store a bs m) m')"
  unfolding reads_def
proof (intro allI impI)
  fix st :: "u8 list dstate" and ys after
  assume P: "P (store a bs (dmem st))" and "stream_has (\<lambda>s. s) (inp st) (y @ ys) after"
  then have "stream_has (\<lambda>s. s) (inp (st\<lparr>dmem := store a bs (dmem st)\<rparr>)) (y @ ys) after" "P (dmem (st\<lparr>dmem := store a bs (dmem st)\<rparr>))" by simp_all
  from readsD [OF assms this(2,1)] obtain s' m' where
    "g (st\<lparr>dmem := store a bs (dmem st)\<rparr>) = Some (True, st\<lparr>dmem := store a bs (dmem st), dmem := m', inp := s'\<rparr>)"
    "stream_has (\<lambda>s. s) s' ys after" "R (dmem (st\<lparr>dmem := store a bs (dmem st)\<rparr>)) m'" .
  then show "\<exists>s' m'. storing a bs g st = Some (True, st\<lparr>dmem := m', inp := s'\<rparr>) \<and> stream_has (\<lambda>s. s) s' ys after \<and> R (store a bs (dmem st)) m'"
    by (auto simp: storing_def)
qed

lemma reads_and_then:
  assumes f: "reads P f x R" and g: "reads Q g y S" and q: "\<And>m m'. P m \<Longrightarrow> R m m' \<Longrightarrow> Q m'"
  shows "reads P (and_then f g) (x @ y) (\<lambda>m m'. \<exists>m1. R m m1 \<and> S m1 m')"
  unfolding reads_def
proof (intro allI impI)
  fix st :: "u8 list dstate" and bs after
  assume P: "P (dmem st)" and "stream_has (\<lambda>s. s) (inp st) ((x @ y) @ bs) after"
  then have "stream_has (\<lambda>s. s) (inp st) (x @ (y @ bs)) after" by simp
  from readsD [OF f P this] obtain s1 m1 where 1: "f st = Some (True, st\<lparr>dmem := m1, inp := s1\<rparr>)" "stream_has (\<lambda>s. s) s1 (y @ bs) after"
    "R (dmem st) m1" .
  have "Q (dmem (st\<lparr>dmem := m1, inp := s1\<rparr>))" "stream_has (\<lambda>s. s) (inp (st\<lparr>dmem := m1, inp := s1\<rparr>)) (y @ bs) after"
    using q [OF P 1(3)] 1(2) by simp_all
  from readsD [OF g this] obtain s' m' where "g (st\<lparr>dmem := m1, inp := s1\<rparr>) = Some (True, st\<lparr>dmem := m1, inp := s1, dmem := m', inp := s'\<rparr>)"
    "stream_has (\<lambda>s. s) s' bs after" "S (dmem (st\<lparr>dmem := m1, inp := s1\<rparr>)) m'" .
  with 1 show "\<exists>s' m'. and_then f g st = Some (True, st\<lparr>dmem := m', inp := s'\<rparr>) \<and> stream_has (\<lambda>s. s) s' bs after \<and> (\<exists>m1. R (dmem st) m1 \<and> S m1 m')"
    by (auto simp: and_then_def)
qed

lemma reads_store_succeed: "reads (\<lambda>_. True) (storing a bs succeed) [] (\<lambda>m m'. m' = store a bs m)"
  by (rule reads_storing [OF reads_succeed, THEN reads_weaken]) simp_all

lemma reads_number:
  assumes r: "decodes (\<lambda>s. s) r x v" and g: "g v = storing dest bs succeed"
  shows "reads (\<lambda>_. True) (reading r g) x (\<lambda>m m'. m' = store dest bs m)"
  using reads_reading [OF r, of "\<lambda>_. True" g "[]"] reads_store_succeed [of dest bs] g by simp

text \<open>A block: its length and then a substream.\<close>

lemma reads_open:
  assumes src: "d_source env = buf_source" and len: "length x < 2 ^ 32"
    and body: "\<And>parent st after. P (dmem st) \<Longrightarrow> stream_has (\<lambda>s. s) (inp st) x after \<Longrightarrow>
      \<exists>s' m'. body parent st = close_sub env parent True (st\<lparr>dmem := m', inp := s'\<rparr>) \<and> stream_has (\<lambda>s. s) s' [] after \<and> R (dmem st) m'"
  shows "reads P (open_sub env body) (varint (length x) @ x) R"
  unfolding reads_def
proof (intro allI impI)
  fix st :: "u8 list dstate" and bs after
  assume P: "P (dmem st)" and "stream_has (\<lambda>s. s) (inp st) ((varint (length x) @ x) @ bs) after"
  then have "stream_has (\<lambda>s. s) (inp st) (varint (length x) @ x @ bs) after" by simp
  from mem.pb_make_string_substream_has [OF len this] obtain sub par where
    1: "pb_make_string_substream buf_source (inp st) = (Some sub, par)" "stream_has (\<lambda>s. s) sub x (bs @ after)" "bytes_left par = length bs" by blast
  have "P (dmem (st\<lparr>inp := sub\<rparr>))" "stream_has (\<lambda>s. s) (inp (st\<lparr>inp := sub\<rparr>)) x (bs @ after)" using P 1(2) by simp_all
  from body [OF this, of par] obtain s' m' where 2: "body par (st\<lparr>inp := sub\<rparr>) = close_sub env par True (st\<lparr>dmem := m', inp := s'\<rparr>)"
    "stream_has (\<lambda>s. s) s' [] (bs @ after)" "R (dmem st) m'" by auto
  from mem.pb_close_string_substream_has [OF 2(2) 1(3)] obtain s'' where
    "pb_close_string_substream buf_source s' par = (Some (), s'')" "stream_has (\<lambda>s. s) s'' bs after" by blast
  with 1 2 show "\<exists>s' m'. open_sub env body st = Some (True, st\<lparr>dmem := m', inp := s'\<rparr>) \<and> stream_has (\<lambda>s. s) s' bs after \<and> R (dmem st) m'"
    by (auto simp: open_sub_def close_sub_def src)
qed

section \<open>Numbers\<close>

lemma le_bytes_le_nat: "n \<le> length p \<Longrightarrow> le_bytes n (le_nat (take n p)) = take n p"
proof -
  assume "n \<le> length p"
  then have "length (rev (take n p)) = n" by simp
  then show ?thesis using be_bytes_be_nat [of "rev (take n p)"] by (simp add: le_bytes_def le_nat_def)
qed

lemma field_int_bytes:
  assumes "n \<in> {8, 4, 2, 1}" and "n \<le> length p"
  shows "le_bytes n (nat (field_int n p mod 256 ^ n)) = take n p"
proof -
  have pos: "0 < 8 * n" using assms(1) by auto
  have lt: "le_nat (take n p) < 256 ^ n" using le_nat_less [of "take n p"] assms(2) by simp
  have e: "(256 :: int) ^ n = 2 ^ (8 * n)" by (simp add: power_mult)
  have "field_int n p mod 256 ^ n = take_bit (8 * n) (field_int n p)" unfolding e by (simp add: take_bit_eq_mod)
  also have "\<dots> = take_bit (8 * n) (int (le_nat (take n p)))"
    using pos by (simp add: field_int_def take_bit_signed_take_bit)
  also have "\<dots> = int (le_nat (take n p))"
    unfolding take_bit_eq_mod e [symmetric] using lt by (simp flip: of_nat_power)
  finally show ?thesis using le_bytes_le_nat [OF assms(2)] by simp
qed

text \<open>The numbers of the table; \<open>p\<close> is the source from the value on.\<close>

lemma reads_numbers:
  assumes src: "d_source denv = buf_source"
  shows "reads (\<lambda>_. True) (dec_bool_at denv dest) (varint (of_bool b)) (\<lambda>m m'. m' = store dest [of_bool b] m)"
    and "data_size field \<in> {8, 4, 2, 1} \<Longrightarrow> data_size field \<le> length p \<Longrightarrow>
      reads (\<lambda>_. True) (dec_varint_at denv field dest) (varint (unat (signed_field p (data_size field))))
        (\<lambda>m m'. m' = store dest (take (data_size field) p) m)"
    and "data_size field \<in> {8, 4, 2, 1} \<Longrightarrow> data_size field \<le> length p \<Longrightarrow>
      reads (\<lambda>_. True) (dec_uvarint_at denv field dest) (varint (unat (word_of_nat (le_nat (take (data_size field) p)) :: u64)))
        (\<lambda>m m'. m' = store dest (take (data_size field) p) m)"
    and "data_size field \<in> {8, 4, 2, 1} \<Longrightarrow> data_size field \<le> length p \<Longrightarrow>
      reads (\<lambda>_. True) (dec_svarint_at denv field dest) (varint (unat (zigzag (signed_field p (data_size field)))))
        (\<lambda>m m'. m' = store dest (take (data_size field) p) m)"
    and "4 \<le> length p \<Longrightarrow> reads (\<lambda>_. True) (dec_fixed32_at denv dest) (fixed32 (word_of_nat (le_nat (take 4 p))))
        (\<lambda>m m'. m' = store dest (take 4 p) m)"
    and "8 \<le> length p \<Longrightarrow> reads (\<lambda>_. True) (dec_fixed64_at denv dest) (fixed64 (word_of_nat (le_nat (take 8 p))))
        (\<lambda>m m'. m' = store dest (take 8 p) m)"
proof -
  let ?n = "data_size field"
  have "decodes (\<lambda>s. s) (pb_decode_varint32 buf_source) (varint (of_bool b)) (word_of_nat (of_bool b))"
    by (rule mem.pb_decode_varint32_decodes) (cases b; simp)
  from reads_number [OF this, of "\<lambda>v. storing dest [of_bool (v \<noteq> 0)] succeed" dest "[of_bool b]"]
  show "reads (\<lambda>_. True) (dec_bool_at denv dest) (varint (of_bool b)) (\<lambda>m m'. m' = store dest [of_bool b] m)"
    unfolding dec_bool_at_def src by (cases b) simp_all
next
  let ?n = "data_size field" and ?v = "signed_field p (data_size field)"
  assume n: "?n \<in> {8, 4, 2, 1}" "?n \<le> length p"
  have "store_int ?n (field_int ?n p) = field_int ?n p"
    using n(1) signed_range_field_int [of ?n p] by (subst store_int_eq) auto
  moreover have "(if ?n = 8 then sint ?v else sint (ucast ?v :: u32)) = field_int ?n p"
    using signed_value_field [OF n(1), of p] by (auto simp: signed_value_def Let_def split: if_splits)
  ultimately show "reads (\<lambda>_. True) (dec_varint_at denv field dest) (varint (unat ?v)) (\<lambda>m m'. m' = store dest (take ?n p) m)"
    unfolding dec_varint_at_def src
    by (intro reads_number [OF mem.pb_decode_varint_decodes]) (simp only: Let_def n(1) not_not if_False simp_thms field_int_bytes [OF n])
next
  let ?n = "data_size field"
  assume n: "?n \<in> {8, 4, 2, 1}" "?n \<le> length p"
  have "store_nat ?n (le_nat (take ?n p)) = le_nat (take ?n p)"
    using n le_nat_less [of "take ?n p"] by (subst store_nat_eq) auto
  then show "reads (\<lambda>_. True) (dec_uvarint_at denv field dest) (varint (unat (word_of_nat (le_nat (take ?n p)) :: u64)))
      (\<lambda>m m'. m' = store dest (take ?n p) m)"
    unfolding dec_uvarint_at_def src
    by (intro reads_number [OF mem.pb_decode_varint_decodes])
       (simp only: Let_def n(1) not_not if_False simp_thms unsigned_value_field(1) [OF n] le_bytes_le_nat [OF n(2)])
next
  let ?n = "data_size field"
  assume n: "?n \<in> {8, 4, 2, 1}" "?n \<le> length p"
  have "store_int ?n (field_int ?n p) = field_int ?n p"
    using n(1) signed_range_field_int [of ?n p] by (subst store_int_eq) auto
  moreover have "sint (signed_field p ?n) = field_int ?n p"
    using zigzag_value_field [OF n(1), of p] by (auto simp: zigzag_value_def split: if_splits)
  ultimately show "reads (\<lambda>_. True) (dec_svarint_at denv field dest) (varint (unat (zigzag (signed_field p ?n)))) (\<lambda>m m'. m' = store dest (take ?n p) m)"
    unfolding dec_svarint_at_def src
    by (intro reads_number [OF mem.pb_decode_svarint_decodes]) (simp only: Let_def n(1) not_not if_False simp_thms field_int_bytes [OF n])
next
  assume n: "4 \<le> length p"
  have "le_nat (take 4 p) < 2 ^ 32" using le_nat_less [of "take 4 p"] n by simp
  then have "unat (word_of_nat (le_nat (take 4 p)) :: u32) = le_nat (take 4 p)" by (simp add: unat_of_nat take_bit_nat_eq_self_iff)
  with le_bytes_le_nat [OF n] show "reads (\<lambda>_. True) (dec_fixed32_at denv dest) (fixed32 (word_of_nat (le_nat (take 4 p)))) (\<lambda>m m'. m' = store dest (take 4 p) m)"
    unfolding dec_fixed32_at_def src fixed32_def by (intro reads_number [OF mem.pb_decode_fixed32_decodes]) simp
next
  assume n: "8 \<le> length p"
  have "le_nat (take 8 p) < 2 ^ 64" using le_nat_less [of "take 8 p"] n by simp
  then have "unat (word_of_nat (le_nat (take 8 p)) :: u64) = le_nat (take 8 p)" by (simp add: unat_of_nat take_bit_nat_eq_self_iff)
  with le_bytes_le_nat [OF n] show "reads (\<lambda>_. True) (dec_fixed64_at denv dest) (fixed64 (word_of_nat (le_nat (take 8 p)))) (\<lambda>m m'. m' = store dest (take 8 p) m)"
    unfolding dec_fixed64_at_def src fixed64_def by (intro reads_number [OF mem.pb_decode_fixed64_decodes]) simp
qed

section \<open>Blocks of bytes\<close>

lemma reads_fixed_length:
  assumes src: "d_source denv = buf_source" and len: "length x = data_size field" "length x < 2 ^ 32"
  shows "reads (\<lambda>_. True) (dec_fixed_length_bytes_at denv field dest) (varint (length x) @ x) (\<lambda>m m'. m' = store dest x m)"
  unfolding dec_fixed_length_bytes_at_def src
proof (rule reads_reading [OF mem.pb_decode_varint32_decodes [OF len(2)]])
  note u = mem.unat_block_len [OF len(2)]
  have nz: "word_of_nat (length x) = (0 :: u32) \<longleftrightarrow> x = []" by (simp only: unat_eq_zero [symmetric] u length_0_conv)
  have big: "\<not> length x > PB_SIZE_MAX" using len(2) by (simp add: PB_SIZE_MAX_def)
  show "reads (\<lambda>_. True) (let n = data_size field in
      if unat (word_of_nat (length x) :: u32) > PB_SIZE_MAX then d_fails ''bytes overflow''
      else if word_of_nat (length x) = (0 :: u32) then storing dest (replicate n 0) succeed
      else if unat (word_of_nat (length x) :: u32) \<noteq> n then d_fails ''incorrect fixed length bytes size''
      else reading (pb_read buf_source n) (\<lambda>bs. storing dest bs succeed)) x (\<lambda>m m'. m' = store dest x m)"
    unfolding Let_def u nz if_not_P [OF big]
  proof (cases "x = []")
    case True
    with len reads_store_succeed [of dest "[]"]
    show "reads (\<lambda>_. True) (if x = [] then storing dest (replicate (data_size field) 0) succeed
        else if length x \<noteq> data_size field then d_fails ''incorrect fixed length bytes size''
        else reading (pb_read buf_source (data_size field)) (\<lambda>bs. storing dest bs succeed)) x (\<lambda>m m'. m' = store dest x m)" by simp
  next
    case False
    have "reads (\<lambda>_. True) (reading (pb_read buf_source (data_size field)) (\<lambda>bs. storing dest bs succeed)) x (\<lambda>m m'. m' = store dest x m)"
      by (rule reads_number [OF mem.pb_read_decodes [OF len(1)]]) simp
    with False len(1)
    show "reads (\<lambda>_. True) (if x = [] then storing dest (replicate (data_size field) 0) succeed
        else if length x \<noteq> data_size field then d_fails ''incorrect fixed length bytes size''
        else reading (pb_read buf_source (data_size field)) (\<lambda>bs. storing dest bs succeed)) x (\<lambda>m m'. m' = store dest x m)" by simp
  qed
qed

lemma reads_bytes:
  assumes src: "d_source denv = buf_source" and a: "PB_ATYPE (f_type field) = PB_ATYPE_STATIC"
    and room: "length x + 4 \<le> data_size field" and len: "length x < 2 ^ 32"
  shows "reads (\<lambda>_. True) (dec_bytes_at denv field dest) (varint (length x) @ x)
    (\<lambda>m m'. m' = store (dest + 4) x (store dest (le_bytes 4 (length x)) m))"
  unfolding dec_bytes_at_def src
proof (rule reads_reading [OF mem.pb_decode_varint32_decodes [OF len]])
  note u = mem.unat_block_len [OF len]
  have big: "\<not> length x > PB_SIZE_MAX" "PB_BYTES_ARRAY_T_ALLOCSIZE (length x) = length x + 4"
    using len by (simp_all add: PB_SIZE_MAX_def PB_BYTES_ARRAY_T_ALLOCSIZE_def sz_add_def)
  have ptr: "PB_ATYPE (f_type field) \<noteq> PB_ATYPE_POINTER" using a static_no_pointer by blast
  have "reads (\<lambda>_. True) (storing dest (le_bytes 4 (length x)) (reading (pb_read buf_source (length x)) (\<lambda>bs. storing (dest + 4) bs succeed)))
      x (\<lambda>m m'. m' = store (dest + 4) x (store dest (le_bytes 4 (length x)) m))"
    by (rule reads_storing [OF reads_number [OF mem.pb_read_decodes [OF refl]], THEN reads_weaken]) simp_all
  with ptr room show "reads (\<lambda>_. True) (let sz = unat (word_of_nat (length x) :: u32); alloc_size = PB_BYTES_ARRAY_T_ALLOCSIZE sz;
        is_ptr = (PB_ATYPE (f_type field) = PB_ATYPE_POINTER)
      in if sz > PB_SIZE_MAX then d_fails ''bytes overflow''
         else if sz > alloc_size then d_fails ''size too large''
         else
           and_then
             (if is_ptr
              then (\<lambda>st. (if bytes_left (inp st) < sz then d_fails ''end-of-stream''
                          else allocate_at denv dest alloc_size 1) st)
              else if alloc_size > data_size field then d_fails ''bytes overflow'' else succeed)
             (\<lambda>st.
                let bdest = (if is_ptr then int (load 8 (dmem st) dest) else dest)
                in storing bdest (le_bytes 4 sz)
                     (reading (pb_read buf_source sz) (\<lambda>bs. storing (bdest + 4) bs succeed)) st)) x
      (\<lambda>m m'. m' = store (dest + 4) x (store dest (le_bytes 4 (length x)) m))"
    unfolding Let_def u if_not_P [OF big(1)] big(2) by (simp add: and_then_def [abs_def] succeed_def)
qed

lemma reads_read_string:
  assumes src: "d_source denv = buf_source"
  shows "reads (\<lambda>_. True) (read_string_at denv (length x) dest) x
    (\<lambda>m m'. m' = store (dest + int (length x)) [0] (store dest x m))"
  unfolding reads_def
proof (intro allI impI)
  fix st :: "u8 list dstate" and bs after
  assume "stream_has (\<lambda>s. s) (inp st) (x @ bs) after"
  from decodesD [OF mem.pb_read_decodes [OF refl] this] obtain s' where
    "pb_read buf_source (length x) (inp st) = (Some x, s')" "stream_has (\<lambda>s. s) s' bs after" by blast
  then show "\<exists>s' m'. read_string_at denv (length x) dest st = Some (True, st\<lparr>dmem := m', inp := s'\<rparr>) \<and>
      stream_has (\<lambda>s. s) s' bs after \<and> m' = store (dest + int (length x)) [0] (store dest x (dmem st))"
    by (auto simp: read_string_at_def src storing_def succeed_def intro!: exI [of _ s'])
qed

lemma reads_string:
  assumes src: "d_source denv = buf_source" and a: "PB_ATYPE (f_type field) = PB_ATYPE_STATIC"
    and room: "length x < data_size field" and len: "length x + 1 < 2 ^ 32"
  shows "reads (\<lambda>_. True) (dec_string_at denv field dest) (varint (length x) @ x)
    (\<lambda>m m'. m' = store (dest + int (length x)) [0] (store dest x m))"
  unfolding dec_string_at_def src
proof (rule reads_reading [OF mem.pb_decode_varint32_decodes])
  show "length x < 2 ^ 32" using len by simp
  note u = mem.unat_block_len [OF this]
  have "unat (word_of_nat (Suc (length x)) :: u32) = Suc (length x)"
    using len by (subst unat_of_nat) (simp del: of_nat_Suc)
  then have s: "unat (word_of_nat (length x) + 1 :: u32) = Suc (length x)" by (simp only: of_nat_Suc add.commute)
  have ptr: "PB_ATYPE (f_type field) \<noteq> PB_ATYPE_POINTER" using a static_no_pointer by blast
  from reads_read_string [OF src, of x dest] ptr room
  show "reads (\<lambda>_. True) (let alloc_size = unat (word_of_nat (length x) + 1 :: u32); sz = unat (word_of_nat (length x) :: u32);
        is_ptr = (PB_ATYPE (f_type field) = PB_ATYPE_POINTER)
      in if alloc_size < sz then d_fails ''size too large''
         else
           and_then
             (if is_ptr
              then (\<lambda>st. (if bytes_left (inp st) < sz then d_fails ''end-of-stream''
                          else allocate_at denv dest alloc_size 1) st)
              else if alloc_size > data_size field then d_fails ''string overflow'' else succeed)
             (\<lambda>st. read_string_at denv sz (if is_ptr then int (load 8 (dmem st) dest) else dest) st)) x
      (\<lambda>m m'. m' = store (dest + int (length x)) [0] (store dest x m))"
    unfolding Let_def u s by (simp add: and_then_def [abs_def] succeed_def)
qed

section \<open>The value of a field\<close>

text \<open>The value is at \<open>src\<close> in the memory of the encoder and gets to \<open>dest\<close> in the decoder's.\<close>

lemma store_value:
  assumes "0 \<le> dest" and "dest + int (length bs) \<le> int (length m)"
  shows "take (length bs) (drop (nat dest) (store dest bs m)) = bs"
  using bytes_at_store [OF assms] by (simp add: bytes_at_def)

lemma block_emit: "block (emit y) = Emits x \<Longrightarrow> x = varint (length y) @ y"
  by (auto simp: emit_def split: if_splits)

lemma same_value_store:
  assumes "exact_size f" and "data_size f \<le> length q" and "0 \<le> dest" and "dest + int (data_size f) \<le> int (length m)"
    and "length bs = data_size f" and "bs = take (data_size f) q"
  shows "only [(dest, data_size f)] m (store dest bs m) \<and> same_value f q (drop (nat dest) (store dest bs m))"
proof
  show o: "only [(dest, data_size f)] m (store dest bs m)" using store_only [of dest bs m] assms by simp
  have "take (data_size f) (drop (nat dest) (store dest bs m)) = bs" using store_value [of dest bs m] assms by simp
  with assms only_length [OF o] show "same_value f q (drop (nat dest) (store dest bs m))"
    by (intro same_value_bytes) (simp_all add: nat_le_iff)
qed

text \<open>A string and the NUL behind it.\<close>

lemma string_size_terminated: "0 \<notin> set x \<Longrightarrow> length x < n \<Longrightarrow> string_size (x @ 0 # r) n = length x"
proof (induction x arbitrary: n)
  case Nil
  then show ?case by (cases n) simp_all
next
  case (Cons c x)
  then show ?case by (cases n) auto
qed

text \<open>A block of bytes behind its length.\<close>

lemma same_value_block:
  assumes l: "PB_LTYPE (f_type f) = PB_LTYPE_BYTES" and q: "data_size f \<le> length q" and d: "0 \<le> dest" and m: "dest + int (data_size f) \<le> int (length m)"
    and z: "z = le_nat (take 4 q)" "z + 4 \<le> data_size f" "z < 2 ^ 32" and y: "y = take z (drop 4 q)" "length y = z"
  defines "m' \<equiv> store (dest + 4) y (store dest (le_bytes 4 z) m)"
  shows "only [(dest, data_size f)] m m' \<and> same_value f q (drop (nat dest) m')"
proof -
  let ?m = "store dest (le_bytes 4 z) m"
  have 1: "only [(dest, 4)] m ?m" using store_only [of dest "le_bytes 4 z" m] d m z(2) by simp
  note len = only_length [OF 1]
  have 2: "only [(dest + 4, z)] ?m m'" using store_only [of "dest + 4" y ?m] d m z(2) len by (simp add: m'_def y(2))
  have "only [(dest, data_size f)] m ?m" "only [(dest, data_size f)] ?m m'"
    by (rule only_mono [OF 1] only_mono [OF 2], use z(2) in simp)+
  then have o: "only [(dest, data_size f)] m m'" by (rule only_trans)
  have "bytes_at m' dest 4 = le_bytes 4 z"
    using only_apart [OF 2 d, of 4] bytes_at_store [of dest "le_bytes 4 z" m] d m z(2) by (simp add: all_apart_def apart_def)
  then have "le_nat (take 4 (drop (nat dest) m')) = z" using z(3) by (simp add: bytes_at_def le_nat_le_bytes)
  moreover have "take z (drop 4 (drop (nat dest) m')) = y"
    using store_value [of "dest + 4" y ?m] d m z(2) len by (simp add: m'_def y(2) nat_add_distrib add.commute)
  moreover have "data_size f \<le> length (drop (nat dest) m')" using only_length [OF o] m d by (simp add: nat_le_iff)
  ultimately show ?thesis using o q l z(1) y(1) by (simp add: same_value_def Let_def ltype_values)
qed

lemma same_value_string:
  assumes l: "PB_LTYPE (f_type f) = PB_LTYPE_STRING" and q: "data_size f \<le> length q" and d: "0 \<le> dest" and m: "dest + int (data_size f) \<le> int (length m)"
    and y: "0 \<notin> set y" "y = take (string_size q (data_size f)) q" "length y = string_size q (data_size f)" "length y < data_size f"
  defines "m' \<equiv> store (dest + int (length y)) [0] (store dest y m)"
  shows "only [(dest, data_size f)] m m' \<and> same_value f q (drop (nat dest) m')"
proof -
  let ?m = "store dest y m" and ?z = "length y"
  have 1: "only [(dest, ?z)] m ?m" using store_only [of dest y m] d m y(4) by simp
  note len = only_length [OF 1]
  have 2: "only [(dest + int ?z, 1)] ?m m'" using store_only [of "dest + int ?z" "[0]" ?m] d m y(4) len by (simp add: m'_def)
  have "only [(dest, data_size f)] m ?m" "only [(dest, data_size f)] ?m m'"
    by (rule only_mono [OF 1] only_mono [OF 2], use y(4) in simp)+
  then have o: "only [(dest, data_size f)] m m'" by (rule only_trans)
  have "take ?z (drop (nat dest) m') = y"
    using only_apart [OF 2 d, of ?z] bytes_at_store [of dest y m] d m y(4) by (simp add: all_apart_def apart_def bytes_at_def)
  moreover have "take 1 (drop ?z (drop (nat dest) m')) = [0]"
    using store_value [of "dest + int ?z" "[0]" ?m] d m y(4) len by (simp add: m'_def nat_add_distrib add.commute)
  moreover from this have "drop ?z (drop (nat dest) m') = 0 # tl (drop ?z (drop (nat dest) m'))"
    by (cases "drop ?z (drop (nat dest) m')") (simp_all del: drop_drop)
  ultimately obtain r where r: "drop (nat dest) m' = y @ 0 # r" by (metis append_take_drop_id)
  have "data_size f \<le> length (drop (nat dest) m')" using only_length [OF o] m d by (simp add: nat_le_iff)
  with o q l y string_size_terminated [OF y(1,4), of r] show ?thesis
    by (simp add: same_value_def Let_def ltype_values r)
qed

text \<open>Every value but a message.\<close>

lemma reads_value:
  assumes src: "d_source denv = buf_source" and a: "PB_ATYPE (f_type f) = PB_ATYPE_STATIC" and exact: "exact_size f"
    and l: "PB_LTYPE (f_type f) \<le> PB_LTYPE_FIXED_LENGTH_BYTES" "PB_LTYPE (f_type f) \<noteq> PB_LTYPE_EXTENSION" "PB_LTYPE (f_type f) \<noteq> PB_LTYPE_SUBMESSAGE"
    and v: "value_bytes sub env f p = Emits x" "0 < p" "p + int (data_size f) \<le> int (length (mem env))"
    and nul: "PB_LTYPE (f_type f) = PB_LTYPE_STRING \<Longrightarrow> string_size (at env p) (data_size f) < data_size f"
    and n: "data_size f < 2 ^ 32" and d: "0 \<le> dest"
  shows "reads (\<lambda>m. dest + int (data_size f) \<le> int (length m)) (PB_DECODERS dsub N denv f dest) x
    (\<lambda>m m'. only [(dest, data_size f)] m m' \<and> same_value f (at env p) (drop (nat dest) m'))"
proof -
  let ?n = "data_size f" and ?q = "at env p" and ?l = "PB_LTYPE (f_type f)"
  let ?P = "\<lambda>m :: u8 list. dest + int ?n \<le> int (length m)"
  let ?R = "\<lambda>m m'. only [(dest, ?n)] m m' \<and> same_value f ?q (drop (nat dest) m')"
  have q: "?n \<le> length ?q" using v(2,3) by (simp add: at_def)
  have ptr: "PB_ATYPE (f_type f) \<noteq> PB_ATYPE_POINTER" using a static_no_pointer by blast
  note bytes = value_bytes_def Let_def ltype_values
  have plain: "reads ?P g x ?R" if "reads (\<lambda>_. True) g x (\<lambda>m m'. m' = store dest (take ?n ?q) m)" for g
    by (rule reads_weaken [OF that]) (use same_value_store [OF exact q d] q in simp_all)
  have num: "?n \<in> {8, 4, 2, 1}" if "?l \<in> {PB_LTYPE_VARINT, PB_LTYPE_UVARINT, PB_LTYPE_SVARINT}"
    using v(1) that by (auto simp: bytes number_def split: if_splits)
  from ltype_cases [OF l(1,2)] l(3)
  consider "?l = PB_LTYPE_BOOL" | "?l = PB_LTYPE_VARINT" | "?l = PB_LTYPE_UVARINT" | "?l = PB_LTYPE_SVARINT" | "?l = PB_LTYPE_FIXED32"
    | "?l = PB_LTYPE_FIXED64" | "?l = PB_LTYPE_BYTES" | "?l = PB_LTYPE_STRING" | "?l = PB_LTYPE_FIXED_LENGTH_BYTES" by auto
  then show ?thesis
  proof cases
    case 1
    have x: "x = varint (of_bool (safe_read_bool ?q))" using v(1) by (auto simp: 1 bytes emit_def split: if_splits)
    have n: "?n = 1" using exact 1 by (simp add: exact_size_def Let_def)
    have "?R m (store dest [of_bool (safe_read_bool ?q)] m)" if "?P m" for m
    proof -
      let ?bs = "[of_bool (safe_read_bool ?q)] :: u8 list"
      have o: "only [(dest, 1)] m (store dest ?bs m)" using store_only [of dest ?bs m] that d n by simp
      have "take 1 (drop (nat dest) (store dest ?bs m)) = ?bs" using store_value [of dest ?bs m] that d n by simp
      then have "safe_read_bool (drop (nat dest) (store dest ?bs m)) = safe_read_bool ?q" "1 \<le> length (drop (nat dest) (store dest ?bs m))"
        by (cases "drop (nat dest) (store dest ?bs m)"; simp add: safe_read_bool_def)+
      with o n q 1 show ?thesis by (simp add: same_value_def Let_def)
    qed
    then have "reads ?P (dec_bool_at denv dest) x ?R"
      unfolding x by (intro reads_weaken [OF reads_numbers(1) [OF src]]) simp_all
    with 1 show ?thesis by (simp add: PB_DECODERS_def ltype_values)
  next
    case 2
    with num have n: "?n \<in> {8, 4, 2, 1}" by simp
    have x: "x = varint (unat (signed_field ?q ?n))" using v(1) by (auto simp: 2 bytes number_def emit_def split: if_splits)
    from plain [OF reads_numbers(2) [OF src n q, folded x]] 2 show ?thesis by (simp add: PB_DECODERS_def ltype_values)
  next
    case 3
    with num have n: "?n \<in> {8, 4, 2, 1}" by simp
    have x: "x = varint (unat (word_of_nat (le_nat (take ?n ?q)) :: u64))" using v(1) by (auto simp: 3 bytes number_def emit_def split: if_splits)
    from plain [OF reads_numbers(3) [OF src n q, folded x]] 3 show ?thesis by (simp add: PB_DECODERS_def ltype_values)
  next
    case 4
    with num have n: "?n \<in> {8, 4, 2, 1}" by simp
    have x: "x = varint (unat (zigzag (signed_field ?q ?n)))" using v(1) by (auto simp: 4 bytes number_def emit_def split: if_splits)
    from plain [OF reads_numbers(4) [OF src n q, folded x]] 4 show ?thesis by (simp add: PB_DECODERS_def ltype_values)
  next
    case 5
    have n: "?n = 4" using exact 5 by (simp add: exact_size_def Let_def ltype_values)
    have x: "x = fixed32 (word_of_nat (le_nat (take 4 ?q)))" using v(1) by (auto simp: 5 bytes emit_def split: if_splits)
    from plain [unfolded n, OF reads_numbers(5) [OF src q [unfolded n], folded x]] 5 n show ?thesis by (simp add: PB_DECODERS_def ltype_values)
  next
    case 6
    have n: "?n = 8" using exact 6 by (simp add: exact_size_def Let_def ltype_values)
    have x: "x = fixed64 (word_of_nat (le_nat (take 8 ?q)))" using v(1) by (auto simp: 6 bytes emit_def split: if_splits)
    from plain [unfolded n, OF reads_numbers(6) [OF src q [unfolded n], folded x]] 6 n show ?thesis by (simp add: PB_DECODERS_def ltype_values)
  next
    case 7
    let ?z = "le_nat (take 4 ?q)" and ?y = "take (le_nat (take 4 ?q)) (drop 4 ?q)"
    have d4: "at env (p + 4) = drop 4 ?q" using v(2) by (simp add: at_def nat_add_distrib add.commute)
    have z: "?z + 4 \<le> ?n" "?z + 4 \<le> length ?q" "x = varint (length ?y) @ ?y"
    proof -
      have "(if ?z + 4 > ?n then Fails else string_value ?z (drop 4 ?q)) = Emits x"
        using v(1,2) a by (simp add: 7 bytes read_size_def d4 cong: if_cong)
      then have z: "?z + 4 \<le> ?n" "string_value ?z (drop 4 ?q) = Emits x" by (simp_all split: if_splits)
      then show "?z + 4 \<le> ?n" "?z + 4 \<le> length ?q" using q by simp_all
      then have "?z \<le> length (drop 4 ?q)" by simp
      from if_P [OF this] have "string_value ?z (drop 4 ?q) = block (emit ?y)" unfolding string_value_def .
      with z(2) show "x = varint (length ?y) @ ?y" by (intro block_emit) simp
    qed
    then have y: "length ?y = ?z" by simp
    have r: "reads (\<lambda>_. True) (dec_bytes_at denv f dest) x (\<lambda>m m'. m' = store (dest + 4) ?y (store dest (le_bytes 4 ?z) m))"
    proof -
      have "length ?y + 4 \<le> ?n" "length ?y < 2 ^ 32" using z(1) n unfolding y by simp_all
      from reads_bytes [OF src a this, folded z(3)] show ?thesis unfolding y .
    qed
    have "?R m (store (dest + 4) ?y (store dest (le_bytes 4 ?z) m))" if m: "?P m" for m
      using same_value_block [OF _ q d m, of ?z ?y] z(1) y n 7 by simp
    then have "reads ?P (dec_bytes_at denv f dest) x ?R" by (intro reads_weaken [OF r]) blast+
    with 7 show ?thesis by (simp add: PB_DECODERS_def ltype_values)
  next
    case 8
    let ?z = "string_size ?q ?n" and ?y = "take (string_size ?q ?n) ?q"
    have z: "?z < ?n" "?z \<le> length ?q" using nul [OF 8] string_size_le by blast+
    then have y: "length ?y = ?z" "0 \<notin> set ?y" using string_size_nul [OF refl] by simp_all
    have x: "x = varint (length ?y) @ ?y"
      using v(1,2) ptr z by (intro block_emit) (simp add: 8 bytes string_value_def)
    have r: "reads (\<lambda>_. True) (dec_string_at denv f dest) x (\<lambda>m m'. m' = store (dest + int ?z) [0] (store dest ?y m))"
    proof -
      have "length ?y < ?n" "length ?y + 1 < 2 ^ 32" using z(1) n unfolding y(1) by simp_all
      from reads_string [OF src a this, folded x] show ?thesis unfolding y(1) .
    qed
    have "?R m (store (dest + int ?z) [0] (store dest ?y m))" if m: "?P m" for m
      using same_value_string [OF 8 q d m y(2)] y(1) z(1) by simp
    then have "reads ?P (dec_string_at denv f dest) x ?R" by (intro reads_weaken [OF r]) blast+
    with 8 show ?thesis by (simp add: PB_DECODERS_def ltype_values)
  next
    case 9
    have "length (take ?n ?q) = ?n" using q by simp
    moreover have "x = varint (length (take ?n ?q)) @ take ?n ?q"
      using v(1) q by (intro block_emit) (simp add: 9 bytes string_value_def)
    ultimately have "reads (\<lambda>_. True) (dec_fixed_length_bytes_at denv f dest) x (\<lambda>m m'. m' = store dest (take ?n ?q) m)"
      using reads_fixed_length [OF src, of "take ?n ?q" f dest] n by simp
    from plain [OF this] 9 show ?thesis by (simp add: PB_DECODERS_def ltype_values)
  qed
qed

end
