(* ===== verification/Pb_Reads_Item.thy ===== *)
theory Pb_Reads_Item
  imports Pb_Reads
begin

text \<open>
  Decoding what has been encoded: values, messages among them, and what is known of the items
  of an array that have been read.
\<close>

section \<open>A value, messages included\<close>

text \<open>The memory \<open>m\<close> in place of the encoder's.\<close>

abbreviation on :: "u8 list \<Rightarrow> 's pb_env \<Rightarrow> 's pb_env" where
  "on m env \<equiv> env\<lparr>mem := m\<rparr>"

text \<open>The claim for messages of depth \<open>n\<close>, on a structure with its defaults.\<close>

definition messages_read :: "nat \<Rightarrow> pb_callbacks \<Rightarrow> 's pb_env \<Rightarrow> u8 list pb_denv \<Rightarrow> bool" where
  "messages_read n c env denv \<longleftrightarrow>
     (\<forall>desc sz p x dest. fits n denv desc sz \<longrightarrow> plain n denv desc \<longrightarrow> message_bytes n c env desc p = Emits x \<longrightarrow>
        0 < p \<longrightarrow> p + int sz \<le> int (length (mem env)) \<longrightarrow> terminated n denv (mem env) desc p \<longrightarrow> length x < 2 ^ 32 \<longrightarrow> 0 < dest \<longrightarrow>
        reads_all (\<lambda>m. dest + int sz \<le> int (length m) \<and> fresh n denv desc m dest) (pb_decode_noinit n denv desc dest) x
          (\<lambda>m m'. only [(dest, sz)] m m' \<and> message_bytes n c (on m' env) desc dest = Emits x))"

lemma block_Emits: "block r = Emits z \<Longrightarrow> \<exists>x. r = Emits x \<and> z = varint (length x) @ x"
  by (cases r) (auto simp: emit_def split: if_splits)

lemma emit_Emits: "emit x = Emits y \<Longrightarrow> y = x"
  by (simp add: emit_def split: if_splits)

lemma reads_decode_with:
  assumes fit: "fits n denv desc sz" and pl: "plain n denv desc" and N: "n \<le> N" and d: "0 \<le> dest"
    and sub: "reads_all (\<lambda>m. dest + int sz \<le> int (length m) \<and> fresh n denv desc m dest) (noinit desc dest) x R"
    and R: "\<And>m m1 m'. only [(dest, sz)] m m1 \<Longrightarrow> R m1 m' \<Longrightarrow> S m m'"
  shows "reads_all (\<lambda>m. dest + int sz \<le> int (length m)) (decode_with noinit N denv desc dest) x S"
  unfolding reads_all_def
proof (intro allI impI)
  fix st :: "u8 list dstate" and after
  assume m: "dest + int sz \<le> int (length (dmem st))" and s: "stream_has (\<lambda>s. s) (inp st) x after"
  from defaults_fresh [OF fit pl N d m] obtain m1 where
    1: "pb_message_set_to_defaults N denv desc dest (dmem st) = Some m1" "only [(dest, sz)] (dmem st) m1" "fresh n denv desc m1 dest" by blast
  have "dest + int sz \<le> int (length (dmem (st\<lparr>dmem := m1\<rparr>))) \<and> fresh n denv desc (dmem (st\<lparr>dmem := m1\<rparr>)) dest"
    "stream_has (\<lambda>s. s) (inp (st\<lparr>dmem := m1\<rparr>)) x after" using 1(3) only_length [OF 1(2)] m s by simp_all
  from reads_allD [OF sub this] obtain s' m' where
    2: "noinit desc dest (st\<lparr>dmem := m1\<rparr>) = Some (True, st\<lparr>dmem := m1, dmem := m', inp := s'\<rparr>)"
      "stream_has (\<lambda>s. s) s' [] after" "R m1 m'" by auto
  with 1 R [OF 1(2) 2(3)] show "\<exists>s' m'. decode_with noinit N denv desc dest st = Some (True, st\<lparr>dmem := m', inp := s'\<rparr>) \<and>
      stream_has (\<lambda>s. s) s' [] after \<and> S (dmem st) m'"
    by (auto simp: decode_with_def and_then_def on_mem_def)
qed

lemma reads_submessage:
  assumes src: "d_source denv = buf_source" and len: "length y < 2 ^ 32" and ptr: "f_ptr f \<noteq> 0"
    and body: "reads_all P (if PB_HTYPE (f_type f) = PB_HTYPE_REPEATED then decode_with sub N denv (f_ptr f) dest else sub (f_ptr f) dest) y R"
  shows "reads P (pb_dec_submessage sub N denv f dest) (varint (length y) @ y) R"
  unfolding pb_dec_submessage_def
proof (rule reads_open [OF src len])
  fix parent :: "u8 list istream" and st :: "u8 list dstate" and after
  assume "P (dmem st)" "stream_has (\<lambda>s. s) (inp st) y after"
  from reads_allD [OF body this] obtain s' m' where
    "(if PB_HTYPE (f_type f) = PB_HTYPE_REPEATED then decode_with sub N denv (f_ptr f) dest else sub (f_ptr f) dest) st =
       Some (True, st\<lparr>dmem := m', inp := s'\<rparr>)" "stream_has (\<lambda>s. s) s' [] after" "R (dmem st) m'" .
  with ptr show "\<exists>s' m'. (if f_ptr f = 0 then d_fails ''invalid field descriptor'' (st\<lparr>inp := parent\<rparr>)
      else case (if PB_HTYPE (f_type f) = PB_HTYPE_REPEATED then decode_with sub N denv (f_ptr f) dest else sub (f_ptr f) dest) st of
             None \<Rightarrow> None | Some (status, st) \<Rightarrow> close_sub denv parent status st) = close_sub denv parent True (st\<lparr>dmem := m', inp := s'\<rparr>) \<and>
      stream_has (\<lambda>s. s) s' [] after \<and> R (dmem st) m'"
    by (intro exI [of _ s'] exI [of _ m']) simp
qed

text \<open>\<open>f\<close> is a field of a plain message whose layout fits, in the encoder at \<open>p\<close>.\<close>

definition good_field :: "nat \<Rightarrow> u8 list pb_denv \<Rightarrow> pb_field \<Rightarrow> bool" where
  "good_field n denv f \<longleftrightarrow> PB_ATYPE (f_type f) = PB_ATYPE_STATIC \<and> simple_field (plain n denv) f \<and> size_fits (fits n denv) f \<and>
     d_source denv = buf_source \<and> data_size f * items_of f < 2 ^ 32"

lemma reads_item:
  assumes good: "good_field n denv f" and msgs: "messages_read n c env denv" and e: "descs env = fields_at denv" and N: "n \<le> N"
    and v: "value_bytes (message_bytes n c env) env f p = Emits x" "0 < p" "p + int (data_size f) \<le> int (length (mem env))"
    and nul: "value_terminated (terminated n denv (mem env)) (mem env) f p" and len: "length x < 2 ^ 32" and d: "0 < dest" and n: "data_size f < 2 ^ 32"
  shows "reads (\<lambda>m. dest + int (data_size f) \<le> int (length m) \<and>
      (PB_LTYPE (f_type f) = PB_LTYPE_SUBMESSAGE \<and> \<not> counted f \<longrightarrow> fresh n denv (f_ptr f) m dest))
    (PB_DECODERS (pb_decode_noinit n denv) N denv f dest) x
    (\<lambda>m m'. only [(dest, data_size f)] m m' \<and> value_bytes (message_bytes n c (on m' env)) (on m' env) f dest = Emits x \<and>
       (PB_LTYPE (f_type f) \<noteq> PB_LTYPE_SUBMESSAGE \<longrightarrow> is_default f (drop (nat dest) m') = is_default f (at env p)))"
    (is "reads ?P _ _ ?R")
proof (cases "PB_LTYPE (f_type f) = PB_LTYPE_SUBMESSAGE")
  case True
  let ?msg = "\<lambda>m. message_bytes n c (on m env) (f_ptr f) dest"
  note g = good [unfolded good_field_def]
  from v(1) have "f_ptr f \<noteq> 0" "block (message_bytes n c env (f_ptr f) p) = Emits x"
    by (simp_all add: value_bytes_def Let_def True ltype_values split: if_splits)
  with block_Emits obtain y where y: "f_ptr f \<noteq> 0" "message_bytes n c env (f_ptr f) p = Emits y" "x = varint (length y) @ y" by blast
  have fit: "fits n denv (f_ptr f) (data_size f)" "plain n denv (f_ptr f)" using g size_fits_sub simple_field_sub True by blast+
  have ly: "length y < 2 ^ 32" using len y(3) by simp
  have tm: "terminated n denv (mem env) (f_ptr f) p" using nul True by (simp add: value_terminated_def)
  have msg: "reads_all (\<lambda>m. dest + int (data_size f) \<le> int (length m) \<and> fresh n denv (f_ptr f) m dest)
      (pb_decode_noinit n denv (f_ptr f) dest) y (\<lambda>m m'. only [(dest, data_size f)] m m' \<and> ?msg m' = Emits y)"
    using msgs fit y(2) v(2,3) tm ly d unfolding messages_read_def by blast
  have "reads_all ?P (if PB_HTYPE (f_type f) = PB_HTYPE_REPEATED then decode_with (pb_decode_noinit n denv) N denv (f_ptr f) dest
      else pb_decode_noinit n denv (f_ptr f) dest) y (\<lambda>m m'. only [(dest, data_size f)] m m' \<and> ?msg m' = Emits y)"
  proof (cases "counted f")
    case c: True
    have "reads_all (\<lambda>m. dest + int (data_size f) \<le> int (length m)) (decode_with (pb_decode_noinit n denv) N denv (f_ptr f) dest) y
        (\<lambda>m m'. only [(dest, data_size f)] m m' \<and> ?msg m' = Emits y)"
      by (rule reads_decode_with [where noinit = "pb_decode_noinit n denv", OF fit N _ msg]) (use d in \<open>auto intro: only_trans\<close>)
    with c show ?thesis by (simp add: counted_def)
  next
    case False
    with msg True show ?thesis by (simp add: counted_def)
  qed
  then have r: "reads ?P (pb_dec_submessage (pb_decode_noinit n denv) N denv f dest) x (\<lambda>m m'. only [(dest, data_size f)] m m' \<and> ?msg m' = Emits y)"
    unfolding y(3) using g by (intro reads_submessage ly y(1)) simp_all
  have "value_bytes (message_bytes n c (on m' env)) (on m' env) f dest = Emits x" if "?msg m' = Emits y" for m'
    using that y(1) v(1) unfolding value_bytes_def Let_def True by (simp add: ltype_values y(2))
  moreover have "PB_DECODERS (pb_decode_noinit n denv) N denv f dest = pb_dec_submessage (pb_decode_noinit n denv) N denv f dest"
    by (simp add: PB_DECODERS_def Let_def True ltype_values)
  ultimately show ?thesis
    using True by (auto intro: reads_weaken [OF r])
next
  case False
  note g = good [unfolded good_field_def simple_field_def Let_def]
  have l: "PB_LTYPE (f_type f) \<le> PB_LTYPE_FIXED_LENGTH_BYTES" "PB_LTYPE (f_type f) \<noteq> PB_LTYPE_EXTENSION"
    using g by (simp_all add: size_fits_def Let_def)
  have s: "PB_LTYPE (f_type f) = PB_LTYPE_STRING \<Longrightarrow> string_size (at env p) (data_size f) < data_size f"
    using nul by (simp add: value_terminated_def at_def)
  have exact: "exact_size f" "PB_ATYPE (f_type f) = PB_ATYPE_STATIC" "d_source denv = buf_source" using g by blast+
  have "reads (\<lambda>m. dest + int (data_size f) \<le> int (length m)) (PB_DECODERS (pb_decode_noinit n denv) N denv f dest) x
      (\<lambda>m m'. only [(dest, data_size f)] m m' \<and> same_value f (at env p) (drop (nat dest) m'))"
    using d by (intro reads_value [OF exact(3,2,1) l False v s n]) simp_all
  then show ?thesis
  proof (rule reads_weaken)
    fix m m'
    assume r: "only [(dest, data_size f)] m m' \<and> same_value f (at env p) (drop (nat dest) m')"
    have "value_bytes (message_bytes n c env) env f p = value_bytes (message_bytes n c (on m' env)) (on m' env) f dest"
      using r v(2) d by (intro value_bytes_same [OF exact(2,1) False]) simp_all
    with r v(1) is_default_same [OF exact(1), of "at env p" "drop (nat dest) m'"] show "?R m m'" by simp
  qed simp
qed

section \<open>Arrays\<close>

text \<open>The first \<open>k\<close> items of the array at \<open>q\<close> are there, with \<open>xs\<close> on the wire.\<close>

definition has_items :: "nat \<Rightarrow> pb_callbacks \<Rightarrow> 's pb_env \<Rightarrow> pb_field \<Rightarrow> int \<Rightarrow> u8 list list \<Rightarrow> nat \<Rightarrow> u8 list \<Rightarrow> bool" where
  "has_items n c env f q xs k m \<longleftrightarrow> load 4 m (q + size_offset f) = k \<and>
     (\<forall>i < k. value_bytes (message_bytes n c (on m env)) (on m env) f (q + int (data_size f * i)) = Emits (xs ! i))"

text \<open>The places are in the memory, behind the address 0.\<close>

definition room :: "pb_field \<Rightarrow> int \<Rightarrow> u8 list \<Rightarrow> bool" where
  "room f q m \<longleftrightarrow> 0 < q \<and> (\<forall>(b, k) \<in> set (places f q). 0 \<le> b \<and> b + int k \<le> int (length m))"

lemma room_only: "room f q m \<Longrightarrow> only P m m' \<Longrightarrow> room f q m'"
  by (simp add: room_def only_length)

lemma room_item:
  assumes "room f q m" and "counted f" and "k < array_size f"
  shows "q + int (data_size f * k) + int (data_size f) \<le> int (length m)"
proof -
  have "(q, data_size f * array_size f) \<in> set (places f q)" using assms(2) by (simp add: places_def items_of_def counted_def)
  with assms(1) have "q + int (data_size f * array_size f) \<le> int (length m)" by (auto simp: room_def)
  moreover have "data_size f * (k + 1) \<le> data_size f * array_size f" using assms(3) by (intro mult_le_mono2) simp
  then have "data_size f * k + data_size f \<le> data_size f * array_size f" by simp
  ultimately show ?thesis by linarith
qed

lemma item_before:
  assumes "i < k"
  shows "apart (q + int (data_size f * i), data_size f) (q + int (data_size f * k), data_size f)"
proof -
  have "data_size f * (i + 1) \<le> data_size f * k" using assms by (intro mult_le_mono2) simp
  then have "data_size f * i + data_size f \<le> data_size f * k" by simp
  then show ?thesis unfolding apart_def fst_conv snd_conv by linarith
qed

lemma item_not_counter:
  assumes "simple_field sub f" and "counted f" and "i < array_size f"
  shows "apart (q + int (data_size f * i), data_size f) (q + size_offset f, 4)"
proof -
  have "all_apart [hd (places f 0)] (tl (places f 0))" using assms(1) by (simp add: simple_field_def Let_def)
  then have "apart (0, data_size f * array_size f) (size_offset f, 4)"
    using assms(2) by (simp add: places_def all_apart_def counted_def items_of_def)
  moreover have "data_size f * (i + 1) \<le> data_size f * array_size f" using assms(3) by (intro mult_le_mono2) simp
  then have "data_size f * i + data_size f \<le> data_size f * array_size f" by simp
  ultimately show ?thesis unfolding apart_def fst_conv snd_conv by linarith
qed

lemma value_kept:
  assumes good: "good_field n denv f" and e: "descs env = fields_at denv" and k: "kept [(p, data_size f)] m m'" and p: "0 < p"
  shows "value_bytes (message_bytes n c (on m' env)) (on m' env) f p = value_bytes (message_bytes n c (on m env)) (on m env) f p"
proof (rule value_bytes_kept [OF _ _ k p])
  show "PB_ATYPE (f_type f) = PB_ATYPE_STATIC" "exact_size f" using good by (simp_all add: good_field_def simple_field_def Let_def)
  assume "PB_LTYPE (f_type f) = PB_LTYPE_SUBMESSAGE"
  with good size_fits_sub simple_field_sub have "fits n denv (f_ptr f) (data_size f)" "plain n denv (f_ptr f)" unfolding good_field_def by blast+
  from message_bytes_kept [OF e this k p] show "message_bytes n c (on m' env) (f_ptr f) p = message_bytes n c (on m env) (f_ptr f) p" .
qed

lemma has_items_next:
  assumes good: "good_field n denv f" and e: "descs env = fields_at denv" and cf: "counted f" and r: "room f q m"
    and h: "has_items n c env f q xs k m" and k: "k < array_size f"
    and o: "only [(q + int (data_size f * k), data_size f), (q + size_offset f, 4)] m m'"
    and new: "load 4 m' (q + size_offset f) = Suc k"
      "value_bytes (message_bytes n c (on m' env)) (on m' env) f (q + int (data_size f * k)) = Emits (xs ! k)"
  shows "has_items n c env f q xs (Suc k) m'"
  unfolding has_items_def
proof (intro conjI allI impI)
  fix i assume "i < Suc k"
  show "value_bytes (message_bytes n c (on m' env)) (on m' env) f (q + int (data_size f * i)) = Emits (xs ! i)"
  proof (cases "i = k")
    case False
    with \<open>i < Suc k\<close> have i: "i < k" by simp
    have q: "0 < q" using r by (simp add: room_def)
    have s: "simple_field (plain n denv) f" using good by (simp add: good_field_def)
    have "all_apart [(q + int (data_size f * i), data_size f)] [(q + int (data_size f * k), data_size f), (q + size_offset f, 4)]"
      using item_before [OF i] item_not_counter [OF s cf] i k by (simp add: all_apart_def)
    then have "kept [(q + int (data_size f * i), data_size f)] m m'"
      using room_item [OF r cf, of i] i k q by (intro only_kept [OF o]) auto
    from value_kept [OF good e this] q h i show ?thesis by (simp add: has_items_def add_pos_nonneg)
  qed (use new(2) in simp)
qed (use new(1) in simp)

lemma counter_place: "counted f \<Longrightarrow> room f q m \<Longrightarrow> 0 \<le> q + size_offset f \<and> q + size_offset f + 4 \<le> int (length m)"
  by (fastforce simp: room_def places_def)

lemma counter_only:
  assumes "counted f" and "room f q m"
  shows "only [(q + size_offset f, 4)] m (store (q + size_offset f) (le_bytes 4 v) m)"
  using store_only [of "q + size_offset f" "le_bytes 4 v" m] counter_place [OF assms] by simp

lemma item_places:
  assumes "counted f" and "k < array_size f" and "only [(q + int (data_size f * k), data_size f), (q + size_offset f, 4)] m m'"
  shows "only (places f q) m m'"
proof (rule only_mono [OF assms(3)])
  fix a n assume "(a, n) \<in> set [(q + int (data_size f * k), data_size f), (q + size_offset f, 4)]"
  moreover have "data_size f * (k + 1) \<le> data_size f * array_size f" using assms(2) by (intro mult_le_mono2) simp
  then have "data_size f * k + data_size f \<le> data_size f * array_size f" by simp
  then have "int (data_size f * k) + int (data_size f) \<le> int (data_size f * array_size f)" by linarith
  ultimately show "\<exists>(b, j) \<in> set (places f q). b \<le> a \<and> a + int n \<le> b + int j"
    using assms(1) by (auto simp: places_def items_of_def counted_def)
qed

end
