(* ===== verification/Pb_Reads_Field.thy ===== *)
theory Pb_Reads_Field
  imports Pb_Reads_Item Pb_Required
begin

text \<open>
  Decoding what has been encoded, field by field: the bytes of a field are those of its records,
  each a tag and a payload, and reading the payloads one by one fills the field.
\<close>

section \<open>Items of an array\<close>

lemma item_offset_eq:
  assumes "good_field n denv f" and "counted f" and "k < array_size f"
  shows "item_offset f k = int (data_size f * k)"
proof -
  have "data_size f * array_size f < 2 ^ 32" using assms(1,2) by (simp add: good_field_def items_of_def counted_def)
  moreover have "data_size f * k \<le> data_size f * array_size f" using assms(3) by (intro mult_le_mono2) simp
  ultimately have "data_size f * k < 2 ^ 32" by linarith
  then show ?thesis by (simp add: item_offset_def)
qed

lemma item_size:
  assumes "good_field n denv f" and "counted f" and "k < array_size f"
  shows "data_size f < 2 ^ 32"
proof -
  have "data_size f * array_size f < 2 ^ 32" using assms(1,2) by (simp add: good_field_def items_of_def counted_def)
  moreover have "data_size f * 1 \<le> data_size f * array_size f" using assms(3) by (intro mult_le_mono2) simp
  ultimately show ?thesis by linarith
qed

text \<open>In the encoder the array has \<open>count\<close> items; \<open>xs\<close> are they on the wire.\<close>

definition source_items :: "nat \<Rightarrow> pb_callbacks \<Rightarrow> 's pb_env \<Rightarrow> u8 list pb_denv \<Rightarrow> pb_field \<Rightarrow> int \<Rightarrow> u8 list list \<Rightarrow> bool" where
  "source_items n c env denv f p xs \<longleftrightarrow>
     length xs \<le> array_size f \<and> 0 < p \<and> p + int (data_size f * array_size f) \<le> int (length (mem env)) \<and>
     (\<forall>k < length xs. value_bytes (message_bytes n c env) env f (p + int (data_size f * k)) = Emits (xs ! k) \<and>
        value_terminated (terminated n denv (mem env)) (mem env) f (p + int (data_size f * k)) \<and> length (xs ! k) < 2 ^ 32)"

lemma reads_array_item:
  assumes good: "good_field n denv f" and msgs: "messages_read n c env denv" and e: "descs env = fields_at denv" and N: "n \<le> N"
    and cf: "counted f" and s: "source_items n c env denv f p xs" and k: "k < length xs" and q: "0 < q"
  shows "reads (room f q) (PB_DECODERS (pb_decode_noinit n denv) N denv f (q + item_offset f k)) (xs ! k)
    (\<lambda>m m'. only [(q + int (data_size f * k), data_size f)] m m' \<and>
       value_bytes (message_bytes n c (on m' env)) (on m' env) f (q + int (data_size f * k)) = Emits (xs ! k))"
proof -
  from s k have k': "k < array_size f" by (simp add: source_items_def)
  have "data_size f * (k + 1) \<le> data_size f * array_size f" using k' by (intro mult_le_mono2) simp
  then have "data_size f * k + data_size f \<le> data_size f * array_size f" by simp
  then have "p + int (data_size f * k) + int (data_size f) \<le> int (length (mem env))" "0 < p + int (data_size f * k)"
    using s unfolding source_items_def by linarith+
  note item = reads_item [OF good msgs e N _ this(2,1)]
  have "reads (\<lambda>m. (q + int (data_size f * k)) + int (data_size f) \<le> int (length m) \<and>
        (PB_LTYPE (f_type f) = PB_LTYPE_SUBMESSAGE \<and> \<not> counted f \<longrightarrow> fresh n denv (f_ptr f) m (q + int (data_size f * k))))
      (PB_DECODERS (pb_decode_noinit n denv) N denv f (q + int (data_size f * k))) (xs ! k)
      (\<lambda>m m'. only [(q + int (data_size f * k), data_size f)] m m' \<and>
         value_bytes (message_bytes n c (on m' env)) (on m' env) f (q + int (data_size f * k)) = Emits (xs ! k) \<and>
         (PB_LTYPE (f_type f) \<noteq> PB_LTYPE_SUBMESSAGE \<longrightarrow>
            is_default f (drop (nat (q + int (data_size f * k))) m') = is_default f (at env (p + int (data_size f * k)))))"
    using s k q by (intro item item_size [OF good cf k']) (auto simp: source_items_def add_pos_nonneg)
  then show ?thesis
    unfolding item_offset_eq [OF good cf k'] by (rule reads_weaken) (use room_item [OF _ cf k'] cf in auto)
qed

text \<open>One more item of an array that is not packed: the counter is first.\<close>

lemma reads_unpacked_item:
  assumes good: "good_field n denv f" and msgs: "messages_read n c env denv" and e: "descs env = fields_at denv" and N: "n \<le> N"
    and cf: "counted f" and s: "source_items n c env denv f p xs" and k: "k < length xs" and q: "0 < q"
    and wt: "\<not> (wt = PB_WT_STRING \<and> PB_LTYPE (f_type f) \<le> PB_LTYPE_LAST_PACKABLE)" and big: "length xs < 2 ^ 32"
  shows "reads (\<lambda>m. room f q m \<and> has_items n c env f q xs k m)
    (decode_static_field (pb_decode_noinit n denv) N denv wt False f q (q + size_offset f)) (xs ! k)
    (\<lambda>m m'. only (places f q) m m' \<and> has_items n c env f q xs (Suc k) m')"
proof -
  let ?set = "store (q + size_offset f) (le_bytes 4 (k + 1))" and ?v = "\<lambda>m. value_bytes (message_bytes n c (on m env)) (on m env) f"
  let ?R = "\<lambda>m m'. only (places f q) m m' \<and> has_items n c env f q xs (Suc k) m'"
  from s k have k': "k < array_size f" by (simp add: source_items_def)
  have h: "PB_HTYPE (f_type f) = PB_HTYPE_REPEATED" using cf by (simp add: counted_def)
  have step: "decode_static_field (pb_decode_noinit n denv) N denv wt False f q (q + size_offset f) st =
      storing (q + size_offset f) (le_bytes 4 (k + 1)) (PB_DECODERS (pb_decode_noinit n denv) N denv f (q + item_offset f k)) st"
    if "has_items n c env f q xs k (dmem st)" for st
    using that k' unfolding decode_static_field_def Let_def h if_not_P [OF wt]
    by (simp add: has_items_def counter_def set_counter_def storing_def)
  have "reads (\<lambda>m. room f q (?set m)) (storing (q + size_offset f) (le_bytes 4 (k + 1))
      (PB_DECODERS (pb_decode_noinit n denv) N denv f (q + item_offset f k))) (xs ! k)
      (\<lambda>m m'. only [(q + int (data_size f * k), data_size f)] (?set m) m' \<and> ?v m' (q + int (data_size f * k)) = Emits (xs ! k))"
    by (rule reads_storing [OF reads_array_item [OF good msgs e N cf s k q]])
  then have r: "reads (\<lambda>m. room f q m \<and> has_items n c env f q xs k m) (storing (q + size_offset f) (le_bytes 4 (k + 1))
      (PB_DECODERS (pb_decode_noinit n denv) N denv f (q + item_offset f k))) (xs ! k) ?R"
  proof (rule reads_weaken)
    fix m assume "room f q m \<and> has_items n c env f q xs k m"
    then show "room f q (?set m)" using room_only counter_only [OF cf] by blast
  next
    fix m m'
    assume m: "room f q m \<and> has_items n c env f q xs k m"
      and m': "only [(q + int (data_size f * k), data_size f)] (?set m) m' \<and> ?v m' (q + int (data_size f * k)) = Emits (xs ! k)"
    let ?P = "[(q + int (data_size f * k), data_size f), (q + size_offset f, 4)]"
    from m have r: "room f q m" ..
    have "only ?P m (?set m)" by (rule only_subset [OF counter_only [OF cf r]]) simp
    moreover have "only ?P (?set m) m'" by (rule only_subset [OF conjunct1 [OF m']]) simp
    ultimately have o: "only ?P m m'" by (rule only_trans)
    have "simple_field (plain n denv) f" using good by (simp add: good_field_def)
    from item_not_counter [OF this cf k', of q] have "bytes_at m' (q + size_offset f) 4 = bytes_at (?set m) (q + size_offset f) 4"
      using counter_place [OF cf r] m' by (intro only_apart [OF conjunct1 [OF m']]) (auto simp: all_apart_def apart_def)
    then have "load 4 m' (q + size_offset f) = Suc k"
      using load_store [of "q + size_offset f" m "k + 1"] counter_place [OF cf r] k big by (simp add: load_bytes_at)
    with m' m has_items_next [OF good e cf r _ k' o] item_places [OF cf k' o] show "?R m m'" by blast
  qed
  then show ?thesis unfolding reads_def using step by simp
qed

text \<open>All the items of a packed array: the counter comes after the item.\<close>

lemma packable_not_empty:
  assumes "PB_LTYPE (f_type f) \<le> PB_LTYPE_LAST_PACKABLE" and "value_bytes sub env f p = Emits x"
  shows "x \<noteq> []"
proof -
  have v: "varint v \<noteq> []" for v by (subst varint.simps) simp
  have "unat (PB_LTYPE (f_type f)) \<le> 5" using assms(1) by (simp add: word_le_nat_alt PB_LTYPE_LAST_PACKABLE_def)
  then have "unat (PB_LTYPE (f_type f)) \<in> {0, 1, 2, 3, 4, 5}" unfolding insert_iff empty_iff by arith
  then have "PB_LTYPE (f_type f) \<in> {PB_LTYPE_BOOL, PB_LTYPE_VARINT, PB_LTYPE_UVARINT, PB_LTYPE_SVARINT, PB_LTYPE_FIXED32, PB_LTYPE_FIXED64}"
    by (simp add: word_unat_eq_iff ltype_values)
  then show ?thesis
    using assms(2) v by (auto simp: value_bytes_def number_def emit_def fixed32_def fixed64_def Let_def ltype_values split: if_splits simp del: varint.simps)
qed

lemma dstate_order: "st\<lparr>inp := s, dmem := m\<rparr> = st\<lparr>dmem := m, inp := s\<rparr>"
  by simp

lemma static_items_read:
  assumes good: "good_field n denv f" and msgs: "messages_read n c env denv" and e: "descs env = fields_at denv" and N: "n \<le> N"
    and cf: "counted f" and s: "source_items n c env denv f p xs" and q: "0 < q" and big: "length xs < 2 ^ 32"
    and ne: "\<And>x. x \<in> set xs \<Longrightarrow> x \<noteq> []"
  shows "k \<le> length xs \<Longrightarrow> room f q (dmem st) \<Longrightarrow> has_items n c env f q xs k (dmem st) \<Longrightarrow>
    stream_has (\<lambda>s. s) (inp st) (concat (drop k xs)) after \<Longrightarrow>
    \<exists>s' m'. static_items (PB_DECODERS (pb_decode_noinit n denv) N denv f) f False q (q + size_offset f) st =
        Some (True, st\<lparr>dmem := m', inp := s'\<rparr>) \<and>
      stream_has (\<lambda>s. s) s' [] after \<and> only (places f q) (dmem st) m' \<and> has_items n c env f q xs (length xs) m'"
proof (induction "length xs - k" arbitrary: k st)
  case 0
  then have k: "k = length xs" "bytes_left (inp st) = 0" by (simp_all add: stream_has_def)
  with 0 show ?case by (subst static_items.simps) (auto intro!: exI [of _ "inp st"] exI [of _ "dmem st"])
next
  case (Suc l)
  let ?P = "[(q + int (data_size f * k), data_size f), (q + size_offset f, 4)]"
  let ?v = "\<lambda>m. value_bytes (message_bytes n c (on m env)) (on m env) f"
  from Suc.hyps(2) have k: "k < length xs" by simp
  with s have k': "k < array_size f" by (simp add: source_items_def)
  have x: "concat (drop k xs) = xs ! k @ concat (drop (Suc k) xs)" using k by (simp add: Cons_nth_drop_Suc [symmetric])
  note r = Suc.prems(2)
  from readsD [OF reads_array_item [OF good msgs e N cf s k q] r Suc.prems(4) [unfolded x]] obtain s1 m1 where
    1: "PB_DECODERS (pb_decode_noinit n denv) N denv f (q + item_offset f k) st = Some (True, st\<lparr>dmem := m1, inp := s1\<rparr>)"
      "stream_has (\<lambda>s. s) s1 (concat (drop (Suc k) xs)) after"
      "only [(q + int (data_size f * k), data_size f)] (dmem st) m1" "?v m1 (q + int (data_size f * k)) = Emits (xs ! k)" by blast
  let ?m = "store (q + size_offset f) (le_bytes 4 (k + 1)) m1" and ?st = "st\<lparr>dmem := m1, inp := s1\<rparr>"
  note r1 = room_only [OF r 1(3)]
  have s0: "simple_field (plain n denv) f" using good by (simp add: good_field_def)
  have cnt: "counter False (q + size_offset f) st = k" "counter False (q + size_offset f) ?st = k"
  proof -
    from item_not_counter [OF s0 cf k', of q] have "bytes_at m1 (q + size_offset f) 4 = bytes_at (dmem st) (q + size_offset f) 4"
      using counter_place [OF cf r] by (intro only_apart [OF 1(3)]) (auto simp: all_apart_def apart_def)
    with Suc.prems(3) show "counter False (q + size_offset f) st = k" "counter False (q + size_offset f) ?st = k"
      by (simp_all add: counter_def has_items_def load_bytes_at)
  qed
  have o: "only ?P (dmem st) ?m"
    using only_subset [OF 1(3), of ?P] only_subset [OF counter_only [OF cf r1, of "k + 1"], of ?P] by (auto intro: only_trans)
  have new: "?v ?m (q + int (data_size f * k)) = Emits (xs ! k)"
  proof -
    have "kept [(q + int (data_size f * k), data_size f)] m1 ?m"
      using item_not_counter [OF s0 cf k', of q] room_item [OF r1 cf k'] q
      by (intro only_kept [OF counter_only [OF cf r1]]) (auto simp: all_apart_def)
    from value_kept [OF good e this] q 1(4) show ?thesis by (simp add: add_pos_nonneg)
  qed
  have "load 4 ?m (q + size_offset f) = Suc k"
    using load_store [of "q + size_offset f" m1 "k + 1"] counter_place [OF cf r1] k big by simp
  from has_items_next [OF good e cf r Suc.prems(3) k' o this new]
  have next_items: "has_items n c env f q xs (Suc k) ?m" .
  have "bytes_left (inp st) > 0" using Suc.prems(4) ne [of "xs ! k"] k unfolding x by (simp add: stream_has_def)
  with 1(1) cnt k' have "static_items (PB_DECODERS (pb_decode_noinit n denv) N denv f) f False q (q + size_offset f) st =
      static_items (PB_DECODERS (pb_decode_noinit n denv) N denv f) f False q (q + size_offset f) (st\<lparr>dmem := ?m, inp := s1\<rparr>)"
    by (subst static_items.simps) (simp add: set_counter_def dstate_order)
  moreover have "\<exists>s' m'. static_items (PB_DECODERS (pb_decode_noinit n denv) N denv f) f False q (q + size_offset f) (st\<lparr>dmem := ?m, inp := s1\<rparr>) =
        Some (True, (st\<lparr>dmem := ?m, inp := s1\<rparr>)\<lparr>dmem := m', inp := s'\<rparr>) \<and>
      stream_has (\<lambda>s. s) s' [] after \<and> only (places f q) (dmem (st\<lparr>dmem := ?m, inp := s1\<rparr>)) m' \<and> has_items n c env f q xs (length xs) m'"
    using Suc.hyps(2) k room_only [OF r o] next_items 1(2) by (intro Suc.hyps(1) [of "Suc k"]) simp_all
  ultimately show ?case using item_places [OF cf k' o] by (auto intro: only_trans)
qed

lemma reads_packed:
  assumes good: "good_field n denv f" and msgs: "messages_read n c env denv" and e: "descs env = fields_at denv" and N: "n \<le> N"
    and cf: "counted f" and s: "source_items n c env denv f p xs" and q: "0 < q" and big: "length xs < 2 ^ 32"
    and l: "PB_LTYPE (f_type f) \<le> PB_LTYPE_LAST_PACKABLE" and len: "length (concat xs) < 2 ^ 32"
  shows "reads (\<lambda>m. room f q m \<and> has_items n c env f q xs 0 m)
    (decode_static_field (pb_decode_noinit n denv) N denv PB_WT_STRING False f q (q + size_offset f))
    (varint (length (concat xs)) @ concat xs)
    (\<lambda>m m'. only (places f q) m m' \<and> has_items n c env f q xs (length xs) m')"
proof -
  have h: "PB_HTYPE (f_type f) = PB_HTYPE_REPEATED" using cf by (simp add: counted_def)
  have ne: "x \<noteq> []" if "x \<in> set xs" for x
    using packable_not_empty [OF l] s that unfolding source_items_def by (metis in_set_conv_nth)
  have eq: "decode_static_field (pb_decode_noinit n denv) N denv PB_WT_STRING False f q (q + size_offset f) =
      open_sub denv (\<lambda>parent st.
        case static_items (PB_DECODERS (pb_decode_noinit n denv) N denv f) f False q (q + size_offset f) st of
          None \<Rightarrow> None
        | Some (status, st) \<Rightarrow>
            if bytes_left (inp st) \<noteq> 0 then d_fails ''array overflow'' (st\<lparr>inp := parent\<rparr>)
            else close_sub denv parent status st)"
    using l by (intro ext) (simp add: decode_static_field_def Let_def h)
  show ?thesis
    unfolding eq
  proof (rule reads_open [OF _ len])
    show "d_source denv = buf_source" using good by (simp add: good_field_def)
    fix parent :: "u8 list istream" and st :: "u8 list dstate" and after
    assume m: "room f q (dmem st) \<and> has_items n c env f q xs 0 (dmem st)" and st: "stream_has (\<lambda>s. s) (inp st) (concat xs) after"
    have "stream_has (\<lambda>s. s) (inp st) (concat (drop 0 xs)) after" using st by simp
    from static_items_read [OF good msgs e N cf s q big ne le0 _ _ this] m obtain s' m' where
      "static_items (PB_DECODERS (pb_decode_noinit n denv) N denv f) f False q (q + size_offset f) st =
        Some (True, st\<lparr>dmem := m', inp := s'\<rparr>)" "stream_has (\<lambda>s. s) s' [] after" "only (places f q) (dmem st) m'"
      "has_items n c env f q xs (length xs) m'" by blast
    then show "\<exists>s' m'. (case static_items (PB_DECODERS (pb_decode_noinit n denv) N denv f) f False q (q + size_offset f) st of
          None \<Rightarrow> None
        | Some (status, st) \<Rightarrow>
            if bytes_left (inp st) \<noteq> 0 then d_fails ''array overflow'' (st\<lparr>inp := parent\<rparr>)
            else close_sub denv parent status st) = close_sub denv parent True (st\<lparr>dmem := m', inp := s'\<rparr>) \<and>
        stream_has (\<lambda>s. s) s' [] after \<and> only (places f q) (dmem st) m' \<and> has_items n c env f q xs (length xs) m'"
      by (intro exI [of _ s'] exI [of _ m']) (simp add: stream_has_def)
  qed
qed

section \<open>Fields that do not count\<close>

lemma good_simple:
  assumes "good_field n denv f"
  shows "PB_ATYPE (f_type f) = PB_ATYPE_STATIC" and "simple_field (plain n denv) f" and "f_tag f < 2 ^ 29" and "exact_size f"
  using assms by (simp_all add: good_field_def simple_field_def Let_def)

lemma not_counted_cases:
  assumes "simple_field sub f" and "\<not> counted f"
  obtains "is_required f" "\<not> flagged f" | "flagged f" "PB_HTYPE (f_type f) = PB_HTYPE_OPTIONAL"
    | "PB_HTYPE (f_type f) = PB_HTYPE_OPTIONAL" "size_offset f = 0" "\<not> flagged f" "\<not> is_required f"
  using assms htype_cases [of "f_type f"]
  by (auto simp: simple_field_def counted_def flagged_def is_required_def Let_def)

text \<open>A place with nothing in it.\<close>

lemma default_zeros: "exact_size f \<Longrightarrow> is_default f p \<Longrightarrow> take (data_size f) q = replicate (data_size f) 0 \<Longrightarrow>
  data_size f \<le> length q \<Longrightarrow> is_default f q"
proof -
  assume a: "exact_size f" "is_default f p" "take (data_size f) q = replicate (data_size f) 0" "data_size f \<le> length q"
  have "take k q = replicate k 0" if "k \<le> data_size f" for k
    using arg_cong [OF a(3), of "take k"] that by (simp add: min_def)
  moreover have "q ! 0 = 0" if "1 \<le> data_size f"
    using arg_cong [OF a(3), of "\<lambda>q. q ! 0"] that by (simp add: nth_replicate)
  moreover have "le_nat (replicate 4 0) = 0" by (simp add: le_nat_def be_nat_def numeral_eq_Suc)
  moreover have "list_all (\<lambda>b. b = 0) (take (data_size f) q)" unfolding a(3) by (simp add: list_all_iff)
  ultimately show ?thesis using a(1,2) by (auto simp: is_default_def exact_size_def Let_def ltype_values)
qed

lemma fresh_absent:
  assumes good: "good_field n denv f" and nc: "\<not> counted f" "\<not> is_required f"
    and fb: "field_bytes n c sub env f p = Emits []" and r: "room f q m" and fr: "fresh_field fresh_sub m f q"
  shows "field_bytes n c sub' (on m env') f q = Emits []"
proof -
  note g = good_simple [OF good]
  from g(2) nc(1) show ?thesis
  proof (cases rule: not_counted_cases)
    case 2
    then have "bytes_at m (q + size_offset f) 1 = [0]" using fr nc(1) by (simp add: fresh_field_def)
    then have "\<not> safe_read_bool (drop (nat (q + size_offset f)) m)"
      by (cases "drop (nat (q + size_offset f)) m") (simp_all add: bytes_at_def safe_read_bool_def)
    with 2 nc show ?thesis by (simp add: field_bytes_simple [OF g(1,2)] Let_def)
  next
    case 3
    have no: "cat (field_tag f) v \<noteq> Emits []" for v
      by (cases "field_tag f"; cases v) (auto simp: field_tag_def tag_bytes_def emit_def split: option.splits if_splits)
    have "0 < n \<and> is_default f (at env p)"
      using fb 3 nc no by (auto simp: field_bytes_simple [OF g(1,2)] is_required_def Let_def split: if_splits)
    moreover have "is_default f (drop (nat q) m)"
    proof (rule default_zeros [OF g(4) conjunct2 [OF calculation]])
      have "(q, data_size f) \<in> set (places f q)" using nc(1) by (simp add: places_def items_of_def counted_def)
      with r have "0 \<le> q" "q + int (data_size f) \<le> int (length m)" by (auto simp: room_def)
      then show "data_size f \<le> length (drop (nat q) m)" by simp
      show "take (data_size f) (drop (nat q) m) = replicate (data_size f) 0"
        using fr 3 nc(1) by (simp add: fresh_field_def bytes_at_def)
    qed
    ultimately show ?thesis using 3 nc by (simp add: field_bytes_simple [OF g(1,2)] is_required_def Let_def)
  qed (use nc in simp)
qed

text \<open>A value that is there.\<close>

lemma reads_single:
  assumes good: "good_field n denv f" and msgs: "messages_read n c env denv" and e: "descs env = fields_at denv" and N: "n \<le> N"
    and cf: "\<not> counted f" and p: "0 < p" "p + int (data_size f) \<le> int (length (mem env))"
    and one: "field_bytes n c (message_bytes n c env) env f p = Emits y" "y \<noteq> []"
    and nul: "value_terminated (terminated n denv (mem env)) (mem env) f p" and len: "length y < 2 ^ 32" and q: "0 < q"
  shows "\<exists>t x. field_tag f = Emits t \<and> y = t @ x \<and>
    reads (\<lambda>m. room f q m \<and> fresh_field (fresh n denv) m f q) (decode_static_field (pb_decode_noinit n denv) N denv wt False f q (q + size_offset f)) x
      (\<lambda>m m'. only (places f q) m m' \<and> field_bytes n c (message_bytes n c (on m' env)) (on m' env) f q = Emits y)"
proof -
  note g = good_simple [OF good]
  let ?v = "\<lambda>m. value_bytes (message_bytes n c (on m env)) (on m env) f q"
  let ?dec = "PB_DECODERS (pb_decode_noinit n denv) N denv f q" and ?sub = "PB_LTYPE (f_type f) = PB_LTYPE_SUBMESSAGE"
  have here: "(q, data_size f) \<in> set (places f q)" using cf by (simp add: places_def items_of_def counted_def)
  have flag_place: "(q + size_offset f, 1) \<in> set (places f q)" if "flagged f" using cf that by (simp add: places_def)
  have "cat (field_tag f) (value_bytes (message_bytes n c env) env f p) = Emits y"
    using one by (auto simp: field_bytes_simple [OF g(1,2)] cf Let_def split: if_splits)
  then obtain t x where tx: "field_tag f = Emits t" "value_bytes (message_bytes n c env) env f p = Emits x" "y = t @ x" "length y < 2 ^ 63"
    by (auto simp: cat_Emits)
  have n: "data_size f < 2 ^ 32" using good cf by (simp add: good_field_def items_of_def counted_def)
  have lx: "length x < 2 ^ 32" using len tx(3) by simp
  note item = reads_item [OF good msgs e N tx(2) p nul lx q n]
  have cat: "cat (field_tag f) (Emits x) = Emits y" using tx by (simp add: emit_def)
  let ?fb = "\<lambda>m. field_bytes n c (message_bytes n c (on m env)) (on m env) f q"
  have sub: "fresh n denv (f_ptr f) m q" if "fresh_field (fresh n denv) m f q" "?sub" for m
    using that cf by (simp add: fresh_field_def)
  have inb: "q + int (data_size f) \<le> int (length m)" if "room f q m" for m
    using that here by (auto simp: room_def)
  have static: "decode_static_field (pb_decode_noinit n denv) N denv wt False f q (q + size_offset f) =
      (if flagged f then storing (q + size_offset f) [1] ?dec else ?dec)"
    using g(2) cf
  proof (cases rule: not_counted_cases)
    case 1
    then show ?thesis by (simp add: decode_static_field_def is_required_def Let_def fun_eq_iff)
  next
    case 2
    then have "q + size_offset f \<noteq> q" by (simp add: flagged_def)
    with 2 show ?thesis by (simp add: decode_static_field_def Let_def fun_eq_iff)
  next
    case 3
    then show ?thesis by (simp add: decode_static_field_def Let_def fun_eq_iff)
  qed
  let ?pre = "\<lambda>m. room f q m \<and> fresh_field (fresh n denv) m f q"
  have "reads ?pre (decode_static_field (pb_decode_noinit n denv) N denv wt False f q (q + size_offset f)) x
      (\<lambda>m m'. only (places f q) m m' \<and> ?fb m' = Emits y)"
  proof (cases "flagged f")
    case True
    let ?set = "store (q + size_offset f) [1]"
    have set: "only [(q + size_offset f, 1)] m (?set m)" "0 \<le> q + size_offset f" "bytes_at (?set m) (q + size_offset f) 1 = [1]" if "room f q m" for m
      using that flag_place [OF True] store_only [of "q + size_offset f" "[1]" m] bytes_at_store [of "q + size_offset f" "[1]" m]
      by (auto simp: room_def)
    have ap: "all_apart [(q, data_size f)] [(q + size_offset f, 1)]"
      using g(2) True cf by (simp add: simple_field_def Let_def places_def all_apart_def apart_def items_of_def counted_def)
    show ?thesis
      unfolding static if_P [OF True]
    proof (rule reads_weaken [OF reads_storing [OF item]])
      fix m assume m: "?pre m"
      have "kept [(q, data_size f)] m (?set m)"
        using set(1) inb m q ap by (intro only_kept [OF _ ap]) auto
      moreover have "fits n denv (f_ptr f) (data_size f)" "plain n denv (f_ptr f)" if ?sub
        using good that size_fits_sub simple_field_sub unfolding good_field_def by blast+
      ultimately show "q + int (data_size f) \<le> int (length (?set m)) \<and> (?sub \<and> \<not> counted f \<longrightarrow> fresh n denv (f_ptr f) (?set m) q)"
        using inb sub m fresh_kept only_length [OF set(1)] by metis
    next
      fix m m' assume m: "?pre m" and m': "only [(q, data_size f)] (?set m) m' \<and> ?v m' = Emits x \<and>
        (\<not> ?sub \<longrightarrow> is_default f (drop (nat q) m') = is_default f (at env p))"
      then have r: "room f q m" by blast
      have "only (places f q) m (?set m)" by (rule only_subset [OF set(1) [OF r]]) (use flag_place [OF True] in simp)
      moreover have "only (places f q) (?set m) m'" by (rule only_subset [OF conjunct1 [OF m']]) (use here in simp)
      ultimately have o: "only (places f q) m m'" by (rule only_trans)
      have "bytes_at m' (q + size_offset f) 1 = [1]"
        using only_apart [OF conjunct1 [OF m'], of "q + size_offset f" 1] set [OF r] ap by (auto dest: all_apart_sym)
      then have "safe_read_bool (drop (nat (q + size_offset f)) m')"
        by (cases "drop (nat (q + size_offset f)) m'") (simp_all add: bytes_at_def safe_read_bool_def)
      with o m' True cf cat tx(1) show "only (places f q) m m' \<and> ?fb m' = Emits y"
        by (simp add: field_bytes_simple [OF g(1,2)] Let_def)
    qed
  next
    case False
    have pres: "n \<noteq> 0 \<and> \<not> is_default f (at env p) \<and> \<not> ?sub" if "\<not> is_required f"
      using one g(2) that cf False htype_cases [of "f_type f"]
      by (auto simp: field_bytes_simple [OF g(1,2)] simple_field_def flagged_def counted_def is_required_def Let_def split: if_splits)
    show ?thesis
      unfolding static if_not_P [OF False]
    proof (rule reads_weaken [OF item])
      fix m assume "?pre m"
      with inb sub show "q + int (data_size f) \<le> int (length m) \<and> (?sub \<and> \<not> counted f \<longrightarrow> fresh n denv (f_ptr f) m q)" by blast
    next
      fix m m' assume m: "?pre m" and m': "only [(q, data_size f)] m m' \<and> ?v m' = Emits x \<and>
        (\<not> ?sub \<longrightarrow> is_default f (drop (nat q) m') = is_default f (at env p))"
      have "only (places f q) m m'" by (rule only_subset [OF conjunct1 [OF m']]) (use here in simp)
      with m' False cf cat tx(1) pres q show "only (places f q) m m' \<and> ?fb m' = Emits y"
        by (auto simp: field_bytes_simple [OF g(1,2)] is_required_def Let_def)
    qed
  qed
  with tx show ?thesis by blast
qed

end
