(* ===== verification/Pb_Records.thy ===== *)
theory Pb_Records
  imports Pb_Reads_Field
begin

text \<open>
  The bytes of a field as a list of records, each the tag and a payload: none for a field that
  is not there, one for a value and for a packed array, and one for each item of another array.
\<close>

lemma field_tag_Emits:
  assumes "field_tag f = Emits t" and "f_tag f < 2 ^ 29"
  shows "\<exists>wt < 8. t = varint (8 * f_tag f + wt)"
proof -
  from assms(1) obtain w where w: "wiretype_of f = Some w" "t = varint (8 * (f_tag f mod 2 ^ 32) + unat w)"
    by (auto simp: field_tag_def tag_bytes_def dest: emit_Emits split: option.splits)
  have "unat w < 8" using w(1) by (auto simp: wiretype_of_def Let_def split: if_splits)
  with w(2) assms(2) show ?thesis by auto
qed

text \<open>\<open>zs\<close> are the payloads; \<open>I k\<close> is what holds of the memory when \<open>k\<close> of them have been read.\<close>

definition records_read ::
  "nat \<Rightarrow> pb_callbacks \<Rightarrow> 's pb_env \<Rightarrow> u8 list pb_denv \<Rightarrow> nat \<Rightarrow> pb_field \<Rightarrow> int \<Rightarrow> u8 list \<Rightarrow> bool" where
  "records_read n c env denv N f q y \<longleftrightarrow>
     (\<exists>zs I wt. wt < 8 \<and> y = concat (map (\<lambda>z. varint (8 * f_tag f + wt) @ z) zs) \<and> (is_required f \<longrightarrow> length zs = 1) \<and>
        (\<forall>m. room f q m \<and> fresh_field (fresh n denv) m f q \<longrightarrow> I 0 m) \<and>
        (\<forall>k < length zs. reads (I k)
           (decode_static_field (pb_decode_noinit n denv) N denv (word_of_nat wt) False f q (q + size_offset f)) (zs ! k)
           (\<lambda>m m'. only (places f q) m m' \<and> I (Suc k) m')) \<and>
        (\<forall>m. I (length zs) m \<longrightarrow> field_bytes n c (message_bytes n c (on m env)) (on m env) f q = Emits y))"

lemma records_readI:
  assumes "wt < 8" and "y = concat (map (\<lambda>z. varint (8 * f_tag f + wt) @ z) zs)" and "is_required f \<Longrightarrow> length zs = 1"
    and "\<And>m. room f q m \<Longrightarrow> fresh_field (fresh n denv) m f q \<Longrightarrow> I 0 m"
    and "\<And>k. k < length zs \<Longrightarrow> reads (I k)
      (decode_static_field (pb_decode_noinit n denv) N denv (word_of_nat wt) False f q (q + size_offset f)) (zs ! k)
      (\<lambda>m m'. only (places f q) m m' \<and> I (Suc k) m')"
    and "\<And>m. I (length zs) m \<Longrightarrow> field_bytes n c (message_bytes n c (on m env)) (on m env) f q = Emits y"
  shows "records_read n c env denv N f q y"
  unfolding records_read_def using assms by (intro exI [of _ zs] exI [of _ I] exI [of _ wt]) blast

section \<open>Values\<close>

lemma single_records:
  assumes good: "good_field n denv f" and msgs: "messages_read n c env denv" and e: "descs env = fields_at denv" and N: "n \<le> N"
    and nc: "\<not> counted f" and p: "0 < p" "p + int (data_size f) \<le> int (length (mem env))"
    and fb: "field_bytes n c (message_bytes n c env) env f p = Emits y"
    and nul: "field_terminated (terminated n denv (mem env)) (mem env) f p" and len: "length y < 2 ^ 32" and q: "0 < q"
  shows "records_read n c env denv N f q y"
proof (cases "y = []")
  case True
  note g = good_simple [OF good]
  have "\<not> is_required f"
    using fb True nc by (auto simp: field_bytes_simple [OF g(1,2)] flagged_def is_required_def field_tag_def tag_bytes_def cat_Emits
        varint_nonempty [THEN not_sym] dest!: emit_Emits split: if_splits option.splits)
  with fresh_absent [OF good nc this fb [unfolded True]] True show ?thesis
    by (intro records_readI [of 0 y f "[]" q n denv "\<lambda>_ m. room f q m \<and> fresh_field (fresh n denv) m f q"]) auto
next
  case False
  note g = good_simple [OF good]
  have there: "value_terminated (terminated n denv (mem env)) (mem env) f p"
    using nul fb False nc by (auto simp: field_terminated_def field_bytes_simple [OF g(1,2)] at_def Let_def split: if_splits)
  let ?I = "\<lambda>k m. if k = 0 then room f q m \<and> fresh_field (fresh n denv) m f q
    else field_bytes n c (message_bytes n c (on m env)) (on m env) f q = Emits y"
  note single = reads_single [OF good msgs e N nc p fb False there len q]
  from single obtain t where t: "field_tag f = Emits t" by blast
  with field_tag_Emits [OF _ g(3)] obtain wt where wt: "wt < 8" "t = varint (8 * f_tag f + wt)" by blast
  from single [of "word_of_nat wt"] t obtain x where x: "y = t @ x"
    "reads (\<lambda>m. room f q m \<and> fresh_field (fresh n denv) m f q)
      (decode_static_field (pb_decode_noinit n denv) N denv (word_of_nat wt) False f q (q + size_offset f)) x
      (\<lambda>m m'. only (places f q) m m' \<and> field_bytes n c (message_bytes n c (on m' env)) (on m' env) f q = Emits y)" by auto
  show ?thesis
    by (rule records_readI [of wt y f "[x]" q n denv ?I]) (use wt x in simp_all)
qed

section \<open>Arrays\<close>

lemma array_bytes_cong:
  assumes "PB_ATYPE (f_type f) = PB_ATYPE_STATIC"
    and "\<And>i. i < count \<Longrightarrow> val (p + int (data_size f * i)) = val' (q + int (data_size f * i))"
  shows "array_bytes env f val count p = array_bytes env' f val' count q"
proof -
  have "PB_ATYPE (f_type f) \<noteq> PB_ATYPE_POINTER" using assms(1) static_no_pointer by blast
  then show ?thesis
    unfolding array_bytes_def items_cats using assms(2)
    by (intro if_cong refl arg_cong2 [where f = cat] arg_cong [where f = block] arg_cong [where f = cats] map_cong) simp_all
qed

lemma map_Emits: "map F [0..<k] = map Emits xs \<Longrightarrow> length xs = k \<and> (\<forall>i < k. F i = Emits (xs ! i))"
proof -
  assume a: "map F [0..<k] = map Emits xs"
  have l: "length xs = k" using arg_cong [OF a, of length] by simp
  have "F i = Emits (xs ! i)" if "i < k" for i
    using arg_cong [OF a, of "\<lambda>ys. ys ! i"] that l by simp
  with l show ?thesis by blast
qed

lemma array_records:
  assumes good: "good_field n denv f" and msgs: "messages_read n c env denv" and e: "descs env = fields_at denv" and N: "n \<le> N"
    and cf: "counted f" and p: "0 < p" "p + int (data_size f * array_size f) \<le> int (length (mem env))"
    and fb: "field_bytes n c (message_bytes n c env) env f p = Emits y"
    and nul: "field_terminated (terminated n denv (mem env)) (mem env) f p" and len: "length y < 2 ^ 32" and q: "0 < q"
  shows "records_read n c env denv N f q y"
proof -
  note g = good_simple [OF good]
  let ?v = "value_bytes (message_bytes n c env) env f" and ?count = "load 4 (mem env) (p + size_offset f)"
  have rs: "read_size E a = load 4 (mem E) a" for E :: "'x pb_env" and a by (simp add: read_size_def load_def at_def)
  have ab: "array_bytes env f ?v ?count p = Emits y"
    using fb cf by (simp add: field_bytes_simple [OF g(1,2)] Let_def rs)
  have ptr: "PB_ATYPE (f_type f) \<noteq> PB_ATYPE_POINTER" using g(1) static_no_pointer by blast
  have nr: "\<not> is_required f" using cf by (simp add: is_required_def counted_def)
  have filled: "field_bytes n c (message_bytes n c (on m env)) (on m env) f q = Emits y"
    if "has_items n c env f q xs ?count m" "\<forall>k < ?count. ?v (p + int (data_size f * k)) = Emits (xs ! k)" for xs m
    unfolding field_bytes_simple [OF g(1,2)] Let_def if_P [OF cf] rs ab [symmetric]
    using that by (auto simp: has_items_def intro!: array_bytes_cong [OF g(1)])
  show ?thesis
  proof (cases "?count = 0")
    case True
    with ab have "y = []" by (simp add: array_bytes_def)
    with nr filled [of "[]"] True show ?thesis
      by (intro records_readI [of 0 y f "[]" q n denv "\<lambda>_. has_items n c env f q [] 0"]) (auto simp: has_items_def fresh_field_def cf)
  next
    case False
    from ab False ptr have count: "?count \<le> array_size f" by (simp add: array_bytes_def split: if_splits)
    note ab' = ab [unfolded array_bytes_def if_not_P [OF False]]
    have source: "source_items n c env denv f p xs"
      if "length xs = ?count" "\<forall>k < ?count. ?v (p + int (data_size f * k)) = Emits (xs ! k)" "\<forall>k < ?count. length (xs ! k) < 2 ^ 32" for xs
      using that p count nul cf by (simp add: source_items_def field_terminated_def)
    have big: "?count < 2 ^ 32"
    proof -
      have "?count < 256 ^ length (take 4 (drop (nat (p + size_offset f)) (mem env)))" unfolding load_def by (rule le_nat_less)
      also have "\<dots> \<le> 256 ^ 4" by (intro power_increasing) simp_all
      finally show ?thesis by simp
    qed
    show ?thesis
    proof (cases "PB_LTYPE (f_type f) \<le> PB_LTYPE_LAST_PACKABLE")
      case l: True
      with ab' count ptr obtain t b where tb: "tag_bytes 2 (f_tag f) = Emits t" "block (items ?v (data_size f) ?count p) = Emits b" "y = t @ b"
        by (auto simp: cat_Emits split: if_splits)
      from block_Emits [OF tb(2)] obtain z where z: "items ?v (data_size f) ?count p = Emits z" "b = varint (length z) @ z" by blast
      from z(1) obtain xs where xs: "map (\<lambda>i. ?v (p + int (data_size f * i))) [0..<?count] = map Emits xs" "z = concat xs"
        unfolding items_cats cats_Emits by blast
      note xs' = map_Emits [OF xs(1)]
      have t: "t = varint (8 * f_tag f + 2)" using tb(1) g(3) by (auto simp: tag_bytes_def dest!: emit_Emits)
      have lz: "length z < 2 ^ 32" using len tb(3) z(2) by simp
      have lx: "length (xs ! k) < 2 ^ 32" if "k < ?count" for k
      proof -
        have "xs ! k \<in> set xs" using xs' that by simp
        then have "length (xs ! k) \<le> length (concat xs)" by (auto simp: length_concat intro: member_le_sum_list)
        with lz xs(2) show ?thesis by simp
      qed
      let ?I = "\<lambda>(k :: nat) m. room f q m \<and> has_items n c env f q xs (if k = 0 then 0 else ?count) m"
      have r: "reads (?I 0) (decode_static_field (pb_decode_noinit n denv) N denv PB_WT_STRING False f q (q + size_offset f)) b
          (\<lambda>m m'. only (places f q) m m' \<and> ?I 1 m')"
      proof -
        have s: "source_items n c env denv f p xs" using xs' lx by (intro source) simp_all
        have "length xs < 2 ^ 32" "length (concat xs) < 2 ^ 32" using big xs' lz xs(2) by simp_all
        note raw = reads_packed [OF good msgs e N cf s q this(1) l this(2), folded xs(2), folded z(2)]
        show ?thesis
        proof (rule reads_weaken [OF raw])
          fix m m' assume "?I 0 m" "only (places f q) m m' \<and> has_items n c env f q xs (length xs) m'"
          with room_only xs' show "only (places f q) m m' \<and> ?I 1 m'" by auto
        qed simp
      qed
      show ?thesis
      proof (rule records_readI [of 2 y f "[b]" q n denv ?I])
        show "reads (?I k) (decode_static_field (pb_decode_noinit n denv) N denv (word_of_nat 2) False f q (q + size_offset f)) ([b] ! k)
          (\<lambda>m m'. only (places f q) m m' \<and> ?I (Suc k) m')" if "k < length [b]" for k
          using r that by (simp add: PB_WT_STRING_def)
        show "y = concat (map (\<lambda>z. varint (8 * f_tag f + 2) @ z) [b])" using tb(3) unfolding t by (simp del: varint.simps)
        show "?I 0 m" if "room f q m" "fresh_field (fresh n denv) m f q" for m
          using that by (simp add: has_items_def fresh_field_def cf)
        show "field_bytes n c (message_bytes n c (on m env)) (on m env) f q = Emits y" if "?I (length [b]) m" for m
          using that xs' by (intro filled [of xs]) simp_all
      qed (use nr in simp_all)
    next
      case l: False
      let ?one = "\<lambda>k. cat (field_tag f) (?v (p + int (data_size f * k)))"
      have "items (\<lambda>p. cat (field_tag f) (?v p)) (data_size f) ?count p = Emits y"
        using ab' count ptr l by simp
      then obtain ys where ys: "map ?one [0..<?count] = map Emits ys" "y = concat ys"
        unfolding items_cats cats_Emits by blast
      note ys' = map_Emits [OF ys(1)]
      from False have "?one 0 = Emits (ys ! 0)" using spec [OF conjunct2 [OF ys'], of 0] by simp
      then obtain t where t: "field_tag f = Emits t" unfolding cat_Emits by blast
      from field_tag_Emits [OF t g(3)] obtain wt where wt: "wt < 8" "t = varint (8 * f_tag f + wt)" by blast
      let ?xs = "map (drop (length t)) ys"
      have xs: "ys ! k = t @ ?xs ! k \<and> ?v (p + int (data_size f * k)) = Emits (?xs ! k)" if "k < ?count" for k
      proof -
        from ys' that have "?one k = Emits (ys ! k)" "k < length ys" by simp_all
        then show ?thesis using t by (auto simp: cat_Emits)
      qed
      have y: "y = concat (map (\<lambda>x. t @ x) ?xs)"
        unfolding ys(2) by (rule arg_cong [where f = concat], rule nth_equalityI) (use xs ys' in auto)
      have lx: "length (?xs ! k) < 2 ^ 32" if "k < ?count" for k
      proof -
        have "ys ! k \<in> set ys" using ys' that by simp
        then have "length (ys ! k) \<le> length (concat ys)" by (auto simp: length_concat intro: member_le_sum_list)
        with len ys(2) xs [OF that] show ?thesis by simp
      qed
      let ?I = "\<lambda>k m. room f q m \<and> has_items n c env f q ?xs k m"
      show ?thesis
      proof (rule records_readI [of wt y f ?xs q n denv ?I])
        fix k assume k: "k < length ?xs"
        have s: "source_items n c env denv f p ?xs" by (rule source) (use xs lx ys' in simp_all)
        show "reads (?I k) (decode_static_field (pb_decode_noinit n denv) N denv (word_of_nat wt) False f q (q + size_offset f)) (?xs ! k)
          (\<lambda>m m'. only (places f q) m m' \<and> ?I (Suc k) m')"
          using big ys' by (intro reads_weaken [OF reads_unpacked_item [OF good msgs e N cf s k q]]) (auto simp: l intro: room_only)
      next
        show "y = concat (map (\<lambda>z. varint (8 * f_tag f + wt) @ z) ?xs)" using y unfolding wt(2) by simp
        show "?I 0 m" if "room f q m" "fresh_field (fresh n denv) m f q" for m
          using that by (simp add: has_items_def fresh_field_def cf)
        show "field_bytes n c (message_bytes n c (on m env)) (on m env) f q = Emits y" if "?I (length ?xs) m" for m
          using that xs ys' by (intro filled [of ?xs]) simp_all
      qed (use nr wt(1) in simp_all)
    qed
  qed
qed

text \<open>Every field.\<close>

lemma field_records:
  assumes good: "good_field n denv f" and msgs: "messages_read n c env denv" and e: "descs env = fields_at denv" and N: "n \<le> N"
    and p: "room f p (mem env)" and fb: "field_bytes n c (message_bytes n c env) env f p = Emits y"
    and nul: "field_terminated (terminated n denv (mem env)) (mem env) f p" and len: "length y < 2 ^ 32" and q: "0 < q"
  shows "records_read n c env denv N f q y"
proof -
  have p': "0 < p" "p + int (data_size f * items_of f) \<le> int (length (mem env))"
    using p by (auto simp: room_def places_def)
  show ?thesis
  proof (cases "counted f")
    case True
    with p' show ?thesis by (intro array_records [OF good msgs e N True _ _ fb nul len q]) (simp_all add: items_of_def counted_def)
  next
    case False
    with p' show ?thesis by (intro single_records [OF good msgs e N False _ _ fb nul len q]) (simp_all add: items_of_def counted_def)
  qed
qed

end
