(* ===== verification/Pb_Roundtrip.thy ===== *)
theory Pb_Roundtrip
  imports Pb_Records
begin

text \<open>
  The round trip of a plain message: what the encoder writes is decoded to a structure that is
  the same on the wire.
\<close>

section \<open>One record\<close>

text \<open>The local variables when the fields before \<open>k\<close> have been read, and of the field \<open>k\<close> a
  record if \<open>b\<close>: the bits of just the required fields among them are set.\<close>

definition progress :: "pb_field list \<Rightarrow> pb_field list \<Rightarrow> nat \<Rightarrow> bool \<Rightarrow> dlocals \<Rightarrow> bool" where
  "progress ds fs k b l \<longleftrightarrow>
     (\<exists>j < length fs. d_iter l = iter_state ds j) \<and> length (fields_seen l) = 2 \<and> fixed_count_field l = None \<and>
     (\<forall>r < 64. seen_bit (fields_seen l) r \<longleftrightarrow> r < required_before fs k \<or> b \<and> is_required (fs ! k) \<and> r = required_before fs k)"

lemma progress_next:
  assumes "progress ds fs k b l" and "k < length fs" and "is_required (fs ! k) \<Longrightarrow> b"
  shows "progress ds fs (Suc k) False l"
  using assms by (auto simp: progress_def required_before_Suc)

lemma find_tag:
  assumes d: "descriptors ds fs" and dist: "distinct (map f_tag fs)" and j: "j < length fs" and k: "k < length fs"
    and l: "PB_LTYPE (f_type (fs ! k)) \<noteq> PB_LTYPE_EXTENSION"
  shows "pb_field_iter_find (iter_state ds j) (f_tag (fs ! k)) = Some (True, iter_state ds k)"
proof -
  have "is_match (f_tag (fs ! k)) (fs ! k)" using l by (simp add: is_match_def)
  with pb_field_iter_find_iff [OF d j, of "f_tag (fs ! k)"] k obtain i where
    i: "i < length fs" "is_match (f_tag (fs ! k)) (fs ! i)"
      "pb_field_iter_find (iter_state ds j) (f_tag (fs ! k)) = Some (True, iter_state ds i)" by blast
  from dist i k have "i = k" by (auto simp: distinct_conv_nth is_match_def)
  with i(3) show ?thesis by simp
qed

lemma known_step:
  fixes denv :: "u8 list pb_denv"
  assumes d: "descriptors ds fs" and dist: "distinct (map f_tag fs)" and k: "k < length fs" and src: "d_source denv = buf_source"
    and f: "f_tag (fs ! k) < 2 ^ 29" "PB_LTYPE (f_type (fs ! k)) \<noteq> PB_LTYPE_EXTENSION" "PB_ATYPE (f_type (fs ! k)) = PB_ATYPE_STATIC"
      "PB_HTYPE (f_type (fs ! k)) \<noteq> PB_HTYPE_ONEOF" "counted (fs ! k) \<Longrightarrow> size_offset (fs ! k) \<noteq> 0"
    and ps: "it_pSize (iter_state ds k) = it_pData (iter_state ds k) + size_offset (fs ! k)" and wt: "wt < 8"
    and l: "progress ds fs k b l" and st: "stream_has (\<lambda>s. s) (inp st) ((varint (8 * f_tag (fs ! k) + wt) @ z) @ bs) after"
    and r: "reads I (decode_static_field sub N denv (word_of_nat wt) False (fs ! k) (dest + it_pData (iter_state ds k))
        (dest + it_pData (iter_state ds k) + size_offset (fs ! k))) z R" and I: "I (dmem st)"
  shows "\<exists>l' s' m'. fields_loop (decode_step sub N denv dest) l st = fields_loop (decode_step sub N denv dest) l' (st\<lparr>dmem := m', inp := s'\<rparr>) \<and>
    stream_has (\<lambda>s. s) s' bs after \<and> R (dmem st) m' \<and> progress ds fs k True l'"
proof -
  let ?f = "fs ! k" and ?it = "iter_state ds k"
  from l obtain j where j: "j < length fs" "d_iter l = iter_state ds j" by (auto simp: progress_def)
  have tag: "0 < f_tag ?f" using descriptors_nth(2) [OF d k] .
  have "stream_has (\<lambda>s. s) (inp st) (varint (8 * f_tag ?f + wt) @ (z @ bs)) after" using st by simp
  from mem.pb_decode_tag_has [OF wt _ _ this] f(1) tag wt obtain s1 where
    1: "pb_decode_tag buf_source (inp st) = (Some (word_of_nat wt, word_of_nat (f_tag ?f)), False, s1)" "stream_has (\<lambda>s. s) s1 (z @ bs) after" by auto
  have u: "unat (word_of_nat (f_tag ?f) :: u32) = f_tag ?f"
    using f(1) by (simp add: unat_of_nat take_bit_nat_eq_self_iff)
  have "stream_has (\<lambda>s. s) (inp (st\<lparr>inp := s1\<rparr>)) (z @ bs) after" "I (dmem (st\<lparr>inp := s1\<rparr>))" using 1(2) I by simp_all
  from readsD [OF r this(2,1)] obtain s' m' where
    2: "decode_static_field sub N denv (word_of_nat wt) False ?f (dest + it_pData ?it) (dest + it_pData ?it + size_offset ?f) (st\<lparr>inp := s1\<rparr>) =
        Some (True, st\<lparr>inp := s1, dmem := m', inp := s'\<rparr>)" "stream_has (\<lambda>s. s) s' bs after" "R (dmem st) m'" by auto
  let ?r = "required_before fs k"
  let ?l = "l\<lparr>d_iter := ?it, fields_seen :=
    (if is_required ?f \<and> ?r < 64 then (fields_seen l)[?r div 32 := fields_seen l ! (?r div 32) OR push_bit (?r mod 32) 1] else fields_seen l)\<rparr>"
  have loc: "\<not> (PB_HTYPE (f_type ?f) = PB_HTYPE_REPEATED \<and> it_pSize ?it = it_pData ?it)"
    using f(5) unfolding ps counted_def by simp
  note at = field_at_state [OF d k] required_field_index_state [OF d k]
  have "decode_known sub N denv dest (word_of_nat wt) (l\<lparr>d_iter := ?it\<rparr>) (st\<lparr>inp := s1\<rparr>) =
      Some (Again, ?l, st\<lparr>dmem := m', inp := s'\<rparr>)"
    using 2(1) f(3,4) loc
    by (auto simp: decode_known_def decode_field_def Let_def at ps is_required_def PB_MAX_REQUIRED_FIELDS_def add.assoc)
  then have "decode_step sub N denv dest l st = Some (Again, ?l, st\<lparr>dmem := m', inp := s'\<rparr>)"
    by (simp add: decode_step_def src 1(1) j(2) u find_tag [OF d dist j(1) k f(2)])
  moreover have "bytes_left (inp st) \<noteq> 0" using st by (simp add: stream_has_def)
  moreover have "progress ds fs k True ?l"
    using l k seen_bit_set [of "fields_seen l" ?r] unfolding progress_def by auto
  ultimately show ?thesis using 2 by (blast intro: fields_loop_again)
qed

text \<open>All the records of a field.\<close>

lemma records_run:
  fixes denv :: "u8 list pb_denv"
  assumes d: "descriptors ds fs" and dist: "distinct (map f_tag fs)" and k: "k < length fs" and src: "d_source denv = buf_source"
    and f: "f_tag (fs ! k) < 2 ^ 29" "PB_LTYPE (f_type (fs ! k)) \<noteq> PB_LTYPE_EXTENSION" "PB_ATYPE (f_type (fs ! k)) = PB_ATYPE_STATIC"
      "PB_HTYPE (f_type (fs ! k)) \<noteq> PB_HTYPE_ONEOF" "counted (fs ! k) \<Longrightarrow> size_offset (fs ! k) \<noteq> 0"
    and ps: "it_pSize (iter_state ds k) = it_pData (iter_state ds k) + size_offset (fs ! k)" and wt: "wt < 8"
  shows "(\<And>i. i < length zs \<Longrightarrow> reads (I i) (decode_static_field sub N denv (word_of_nat wt) False (fs ! k) (dest + it_pData (iter_state ds k))
        (dest + it_pData (iter_state ds k) + size_offset (fs ! k))) (zs ! i) (\<lambda>m m'. only P m m' \<and> I (Suc i) m')) \<Longrightarrow>
    I 0 (dmem st) \<Longrightarrow> stream_has (\<lambda>s. s) (inp st) (concat (map (\<lambda>z. varint (8 * f_tag (fs ! k) + wt) @ z) zs) @ bs) after \<Longrightarrow>
    progress ds fs k b l \<Longrightarrow>
    \<exists>l' s' m'. fields_loop (decode_step sub N denv dest) l st = fields_loop (decode_step sub N denv dest) l' (st\<lparr>dmem := m', inp := s'\<rparr>) \<and>
      stream_has (\<lambda>s. s) s' bs after \<and> only P (dmem st) m' \<and> I (length zs) m' \<and> progress ds fs k (b \<or> zs \<noteq> []) l'"
proof (induction zs arbitrary: I st b l)
  case Nil
  then show ?case by (intro exI [of _ l] exI [of _ "inp st"] exI [of _ "dmem st"]) simp
next
  case (Cons z zs)
  let ?t = "varint (8 * f_tag (fs ! k) + wt)"
  have st: "stream_has (\<lambda>s. s) (inp st) ((?t @ z) @ (concat (map (\<lambda>z. ?t @ z) zs) @ bs)) after"
    using Cons.prems(3) by simp
  from known_step [OF d dist k src f ps wt Cons.prems(4) st Cons.prems(1) [of 0, simplified] Cons.prems(2)] obtain l1 s1 m1 where
    1: "fields_loop (decode_step sub N denv dest) l st = fields_loop (decode_step sub N denv dest) l1 (st\<lparr>dmem := m1, inp := s1\<rparr>)"
      "stream_has (\<lambda>s. s) s1 (concat (map (\<lambda>z. ?t @ z) zs) @ bs) after" "only P (dmem st) m1" "I (Suc 0) m1" "progress ds fs k True l1" by blast
  have "\<exists>l' s' m'. fields_loop (decode_step sub N denv dest) l1 (st\<lparr>dmem := m1, inp := s1\<rparr>) =
        fields_loop (decode_step sub N denv dest) l' ((st\<lparr>dmem := m1, inp := s1\<rparr>)\<lparr>dmem := m', inp := s'\<rparr>) \<and>
      stream_has (\<lambda>s. s) s' bs after \<and> only P (dmem (st\<lparr>dmem := m1, inp := s1\<rparr>)) m' \<and> I (Suc (length zs)) m' \<and> progress ds fs k (True \<or> zs \<noteq> []) l'"
    using Cons.prems(1) [of "Suc _"] 1(2,4) by (intro Cons.IH [where I = "\<lambda>i. I (Suc i)"] 1(5)) simp_all
  then obtain l' s' m' where 2: "fields_loop (decode_step sub N denv dest) l1 (st\<lparr>dmem := m1, inp := s1\<rparr>) =
      fields_loop (decode_step sub N denv dest) l' (st\<lparr>dmem := m', inp := s'\<rparr>)"
    "stream_has (\<lambda>s. s) s' bs after" "only P m1 m'" "I (Suc (length zs)) m'" "progress ds fs k True l'" by auto
  with 1 show ?case by (intro exI [of _ l'] exI [of _ s'] exI [of _ m']) (auto intro: only_trans)
qed

section \<open>The end of a message\<close>

lemma required_seenI:
  assumes len: "length seen = 2" and k: "k \<le> 64" and bits: "\<forall>r < 64. seen_bit seen r \<longleftrightarrow> r < k"
  shows "required_seen seen k"
proof -
  have word: "bit (seen ! i) b \<longleftrightarrow> 32 * i + b < k" if "i < 2" "b < 32" for i b
    using bits [rule_format, of "32 * i + b"] that by (simp add: seen_bit_def)
  have "seen ! i = -1" if "i < k div 32" for i
  proof (rule bit_word_eqI)
    fix b assume "b < LENGTH(32)"
    moreover have "i < 2" "32 * i + 32 \<le> k" using that k by linarith+
    ultimately show "bit (seen ! i) b = bit (- 1 :: u32) b" using word [of i b] by simp
  qed
  then have "list_all (\<lambda>w. w = -1) (take (k div 32) seen)" by (simp add: list_all_length)
  moreover have "seen ! (k div 32) = drop_bit (32 - k mod 32) (-1)" if m: "k mod 32 \<noteq> 0"
  proof (rule bit_word_eqI)
    fix b assume b: "b < LENGTH(32)"
    have "k div 32 < 2" using k m by (cases "k = 64") (simp_all add: div_less_iff_less_mult)
    moreover have "32 * (k div 32) + b < k \<longleftrightarrow> b < k mod 32" using mult_div_mod_eq [of 32 k] by linarith
    ultimately have "bit (seen ! (k div 32)) b \<longleftrightarrow> b < k mod 32" using word [of "k div 32" b] b by simp
    then show "bit (seen ! (k div 32)) b = bit (drop_bit (32 - k mod 32) (- 1 :: u32)) b"
      using b m by (auto simp: bit_simps)
  qed
  ultimately show ?thesis by (cases "k mod 32 = 0") (simp_all add: required_seen_def)
qed

lemma check_end_ok:
  assumes d: "descriptors ds fs" and fs: "fs \<noteq> []" and l: "progress ds fs (length fs) False l"
  shows "check_end l st = Some (True, st)"
proof -
  let ?req = "required_before fs (length fs)"
  from l obtain j where j: "j < length fs" "d_iter l = iter_state ds j" by (auto simp: progress_def)
  have pos: "0 < length fs" using fs by simp
  have "count_required (length ds) (iter_state ds j) =
      Some (required_before fs (length fs - 1), f_type (fs ! (length fs - 1)), iter_state ds 0)"
    using descriptors_nth(4) [OF d] by (intro count_required_state [OF d j(1)]) simp
  moreover have "f_tag (field_at (iter_state ds 0)) \<noteq> 0"
    using field_at_state [OF d pos] descriptors_nth(2) [OF d pos] by simp
  moreover have "?req = required_before fs (length fs - 1) + of_bool (is_required (fs ! (length fs - 1)))"
    using required_before_Suc [of "length fs - 1" fs] pos by simp
  moreover have "required_seen (fields_seen l) (min ?req 64)"
    using l by (intro required_seenI) (auto simp: progress_def)
  ultimately show ?thesis
    using l j by (cases "is_required (fs ! (length fs - 1))")
      (simp_all add: check_end_def fixed_count_wrong_def progress_def is_required_def PB_MAX_REQUIRED_FIELDS_def succeed_def Let_def)
qed

lemma check_end_empty:
  assumes "descriptors ds []" and "f_type (last ds) = 0" and "fixed_count_field l = None" and "d_iter l = snd (pb_field_iter_begin ds)"
  shows "check_end l st = Some (True, st)"
proof -
  from assms(1) obtain t where "ds = [t]" "f_tag t = 0" by (auto simp: descriptors_def)
  with assms(2-4) show ?thesis
    by (simp add: check_end_def fixed_count_wrong_def pb_field_iter_begin_def pb_field_iter_next_def field_at_def required_seen_def
        succeed_def PB_MAX_REQUIRED_FIELDS_def Let_def)
qed

section \<open>The fields one after the other\<close>

text \<open>The field \<open>k\<close> of the message \<open>desc\<close> in a structure at \<open>a\<close>.\<close>

abbreviation field_addr :: "'s pb_denv \<Rightarrow> nat \<Rightarrow> int \<Rightarrow> nat \<Rightarrow> int" where
  "field_addr denv desc a k \<equiv> a + it_pData (iter_state (fields_at denv desc) k)"

definition field_on :: "nat \<Rightarrow> pb_callbacks \<Rightarrow> 's pb_env \<Rightarrow> u8 list pb_denv \<Rightarrow> nat \<Rightarrow> int \<Rightarrow> nat \<Rightarrow> outcome" where
  "field_on n c env denv desc a k = field_bytes n c (message_bytes n c env) env (fields_at denv desc ! k) (field_addr denv desc a k)"

lemma plain_good_field:
  assumes fit: "fits (Suc n) denv desc sz" and pl: "plain (Suc n) denv desc" and src: "d_source denv = buf_source"
    and k: "k < length (butlast (fields_at denv desc))"
  shows "good_field n denv (fields_at denv desc ! k)"
    and "0 < a \<Longrightarrow> a + int sz \<le> int (length m) \<Longrightarrow> room (fields_at denv desc ! k) (field_addr denv desc a k) m"
proof -
  note f = plain_field_fits [OF fit pl k]
  have "it_pData (iter_state (fields_at denv desc) k) + int (data_size (fields_at denv desc ! k) * items_of (fields_at denv desc ! k)) \<le> int sz"
    unfolding f(1) by (rule conjunct2 [OF f(6)]) (simp add: places_def)
  with f(7) fits_last(4) [OF fit] have "data_size (fields_at denv desc ! k) * items_of (fields_at denv desc ! k) < 2 ^ 32" by linarith
  with f src show "good_field n denv (fields_at denv desc ! k)" by (simp add: good_field_def)
  assume a: "0 < a" "a + int sz \<le> int (length m)"
  have "0 \<le> b \<and> b + int j \<le> int (length m)" if "(b, j) \<in> set (places (fields_at denv desc ! k) (field_addr denv desc a k))" for b j
    using field_places_inside [OF fit pl k, of b j a] that a by (simp add: field_places_def)
  with f(7) a show "room (fields_at denv desc ! k) (field_addr denv desc a k) m" by (auto simp: room_def)
qed

lemma field_run:
  assumes fit: "fits (Suc n) denv desc sz" and pl: "plain (Suc n) denv desc" and src: "d_source denv = buf_source"
    and e: "descs env = fields_at denv" and msgs: "messages_read n c env denv" and N: "n \<le> N" and k: "k < length (butlast (fields_at denv desc))"
    and p: "0 < p" "p + int sz \<le> int (length (mem env))" and fb: "field_on n c env denv desc p k = Emits y"
    and nul: "field_terminated (terminated n denv (mem env)) (mem env) (fields_at denv desc ! k) (field_addr denv desc p k)"
    and len: "length y < 2 ^ 32" and q: "0 < a" "a + int sz \<le> int (length (dmem st))"
    and fr: "fresh_field (fresh n denv) (dmem st) (fields_at denv desc ! k) (field_addr denv desc a k)"
    and st: "stream_has (\<lambda>s. s) (inp st) (y @ bs) after" and l: "progress (fields_at denv desc) (butlast (fields_at denv desc)) k False l"
  defines "step \<equiv> decode_step (pb_decode_noinit n denv) N denv a"
  shows "\<exists>l' s' m'. fields_loop step l st = fields_loop step l' (st\<lparr>dmem := m', inp := s'\<rparr>) \<and>
    stream_has (\<lambda>s. s) s' bs after \<and> only (field_places denv desc a k) (dmem st) m' \<and> field_on n c (on m' env) denv desc a k = Emits y \<and>
    progress (fields_at denv desc) (butlast (fields_at denv desc)) (Suc k) False l'"
proof -
  let ?ds = "fields_at denv desc" and ?fs = "butlast (fields_at denv desc)"
  let ?f = "?ds ! k" and ?q = "field_addr denv desc a k"
  note f = plain_field_fits [OF fit pl k] and d = fits_descriptors [OF fit]
  note good = plain_good_field [OF fit pl src k]
  have "0 < ?q" using f(7) q(1) by simp
  from field_records [OF good(1) msgs e N good(2) [OF p] fb [unfolded field_on_def] nul len this]
  obtain zs I wt where z: "wt < 8" "y = concat (map (\<lambda>z. varint (8 * f_tag ?f + wt) @ z) zs)" "is_required ?f \<Longrightarrow> length zs = 1"
    "\<And>m. room ?f ?q m \<Longrightarrow> fresh_field (fresh n denv) m ?f ?q \<Longrightarrow> I 0 m"
    "\<And>i. i < length zs \<Longrightarrow> reads (I i) (decode_static_field (pb_decode_noinit n denv) N denv (word_of_nat wt) False ?f ?q (?q + size_offset ?f))
      (zs ! i) (\<lambda>m m'. only (places ?f ?q) m m' \<and> I (Suc i) m')"
    "\<And>m. I (length zs) m \<Longrightarrow> field_bytes n c (message_bytes n c (on m env)) (on m env) ?f ?q = Emits y"
    unfolding records_read_def by blast
  have dist: "distinct (map f_tag ?fs)" using pl by (simp add: Let_def)
  note s = good_simple [OF good(1), unfolded f(1)] and s' = f(3) [unfolded simple_field_def Let_def]
  have h: "PB_HTYPE (f_type (?fs ! k)) \<noteq> PB_HTYPE_ONEOF" "counted (?fs ! k) \<Longrightarrow> size_offset (?fs ! k) \<noteq> 0" using s' by blast+
  have "\<exists>l' s' m'. fields_loop step l st = fields_loop step l' (st\<lparr>dmem := m', inp := s'\<rparr>) \<and>
      stream_has (\<lambda>s. s) s' bs after \<and> only (places ?f ?q) (dmem st) m' \<and> I (length zs) m' \<and> progress ?ds ?fs k (False \<or> zs \<noteq> []) l'"
    unfolding step_def f(1)
    by (rule records_run [OF d dist k src s(3) size_fits_ltype [OF f(4)] s(1) h f(5) z(1)])
      (use z(2,5) z(4) [OF good(2) [OF q] fr] st l in \<open>simp_all add: f(1)\<close>)
  then obtain l' s' m' where r: "fields_loop step l st = fields_loop step l' (st\<lparr>dmem := m', inp := s'\<rparr>)"
    "stream_has (\<lambda>s. s) s' bs after" "only (places ?f ?q) (dmem st) m'" "I (length zs) m'" "progress ?ds ?fs k (zs \<noteq> []) l'" by auto
  have "progress ?ds ?fs (Suc k) False l'"
    using z(3) by (intro progress_next [OF r(5) k]) (auto simp: f(1))
  with r z(6) [OF r(4)] show ?thesis unfolding field_on_def field_places_def by blast
qed

text \<open>What other fields are is kept.\<close>

lemma other_field_kept:
  assumes fit: "fits (Suc n) denv desc sz" and pl: "plain (Suc n) denv desc" and e: "descs env = fields_at denv"
    and i: "i < length (butlast (fields_at denv desc))" and k: "k < length (butlast (fields_at denv desc))" and ik: "i \<noteq> k"
    and q: "0 < a" "a + int sz \<le> int (length m)" and o: "only (field_places denv desc a k) m m'"
  shows "field_on n c (on m' env) denv desc a i = field_on n c (on m env) denv desc a i"
    and "fresh_field (fresh n denv) m' (fields_at denv desc ! i) (field_addr denv desc a i) =
      fresh_field (fresh n denv) m (fields_at denv desc ! i) (field_addr denv desc a i)"
proof -
  note f = plain_field_fits [OF fit pl i]
  have "kept (field_places denv desc a i) m m'"
    using q by (intro field_kept_by_other [OF fit pl i k ik o]) simp_all
  then have kp: "kept (places (butlast (fields_at denv desc) ! i) (field_addr denv desc a i)) m m'" unfolding field_places_def f(1) .
  have pos: "0 < field_addr denv desc a i" using f(7) q(1) by simp
  show "field_on n c (on m' env) denv desc a i = field_on n c (on m env) denv desc a i"
    unfolding field_on_def f(1)
    by (rule field_bytes_kept [OF f(2,3) kp pos]) (use message_bytes_kept [OF e size_fits_sub [OF f(4)] simple_field_sub [OF f(3)]] in blast)
  show "fresh_field (fresh n denv) m' (fields_at denv desc ! i) (field_addr denv desc a i) =
      fresh_field (fresh n denv) m (fields_at denv desc ! i) (field_addr denv desc a i)"
    unfolding f(1) by (rule fresh_field_kept [OF kp]) (use fresh_kept [OF size_fits_sub [OF f(4)] simple_field_sub [OF f(3)]] in blast)
qed

text \<open>From the field \<open>k\<close> on, with the fields before it done and the others fresh.\<close>

lemma fields_run:
  assumes fit: "fits (Suc n) denv desc sz" and pl: "plain (Suc n) denv desc" and src: "d_source denv = buf_source"
    and e: "descs env = fields_at denv" and msgs: "messages_read n c env denv" and N: "n \<le> N"
    and p: "0 < p" "p + int sz \<le> int (length (mem env))" and nul: "terminated (Suc n) denv (mem env) desc p"
    and ys: "length ys = length (butlast (fields_at denv desc))" "\<And>i. i < length ys \<Longrightarrow> field_on n c env denv desc p i = Emits (ys ! i)"
    and len: "length (concat ys) < 2 ^ 32" and a: "0 < a"
  defines "step \<equiv> decode_step (pb_decode_noinit n denv) N denv a"
  shows "k \<le> length ys \<Longrightarrow> a + int sz \<le> int (length (dmem st)) \<Longrightarrow>
    (\<And>i. i < k \<Longrightarrow> field_on n c (on (dmem st) env) denv desc a i = Emits (ys ! i)) \<Longrightarrow>
    (\<And>i. k \<le> i \<Longrightarrow> i < length ys \<Longrightarrow> fresh_field (fresh n denv) (dmem st) (fields_at denv desc ! i) (field_addr denv desc a i)) \<Longrightarrow>
    stream_has (\<lambda>s. s) (inp st) (concat (drop k ys)) after \<Longrightarrow>
    progress (fields_at denv desc) (butlast (fields_at denv desc)) k False l \<Longrightarrow>
    \<exists>l' s' m'. fields_loop step l st = Some (True, l', st\<lparr>dmem := m', inp := s'\<rparr>) \<and> stream_has (\<lambda>s. s) s' [] after \<and>
      only [(a, sz)] (dmem st) m' \<and> (\<forall>i < length ys. field_on n c (on m' env) denv desc a i = Emits (ys ! i)) \<and>
      progress (fields_at denv desc) (butlast (fields_at denv desc)) (length ys) False l'"
proof (induction "length ys - k" arbitrary: k st l)
  case 0
  then have "k = length ys" by simp
  with 0 show ?case
    by (intro exI [of _ l] exI [of _ "inp st"] exI [of _ "dmem st"]) (simp add: fields_loop_end stream_has_def)
next
  case (Suc d)
  then have k: "k < length ys" by simp
  note k' = k [unfolded ys(1)]
  have x: "concat (drop k ys) = ys ! k @ concat (drop (Suc k) ys)" using k by (simp add: Cons_nth_drop_Suc [symmetric])
  have nul': "field_terminated (terminated n denv (mem env)) (mem env) (fields_at denv desc ! k) (field_addr denv desc p k)"
    using nul k' by simp
  have "length (ys ! k) \<le> length (concat ys)" using k by (auto simp: length_concat intro!: member_le_sum_list)
  then have lk: "length (ys ! k) < 2 ^ 32" using len by simp
  from field_run [OF fit pl src e msgs N k' p ys(2) [OF k] nul' lk a Suc.prems(2) Suc.prems(4) [OF order_refl k]
      Suc.prems(5) [unfolded x] Suc.prems(6)] obtain l1 s1 m1 where
    1: "fields_loop step l st = fields_loop step l1 (st\<lparr>dmem := m1, inp := s1\<rparr>)" "stream_has (\<lambda>s. s) s1 (concat (drop (Suc k) ys)) after"
      "only (field_places denv desc a k) (dmem st) m1" "field_on n c (on m1 env) denv desc a k = Emits (ys ! k)"
      "progress (fields_at denv desc) (butlast (fields_at denv desc)) (Suc k) False l1" unfolding step_def by blast
  note others = other_field_kept [OF fit pl e _ k' _ a Suc.prems(2) 1(3), folded ys(1)]
  have before: "field_on n c (on m1 env) denv desc a i = Emits (ys ! i)" if "i < Suc k" for i
    using that others(1) [of i] k Suc.prems(3) [of i] 1(4) by (cases "i = k") simp_all
  have behind: "fresh_field (fresh n denv) m1 (fields_at denv desc ! i) (field_addr denv desc a i)" if "Suc k \<le> i" "i < length ys" for i
    using that others(2) [of i] Suc.prems(4) [of i] by simp
  have o: "only [(a, sz)] (dmem st) m1"
    using field_places_inside [OF fit pl k'] by (intro only_mono [OF 1(3)]) simp
  have "\<exists>l' s' m'. fields_loop step l1 (st\<lparr>dmem := m1, inp := s1\<rparr>) = Some (True, l', (st\<lparr>dmem := m1, inp := s1\<rparr>)\<lparr>dmem := m', inp := s'\<rparr>) \<and>
      stream_has (\<lambda>s. s) s' [] after \<and> only [(a, sz)] (dmem (st\<lparr>dmem := m1, inp := s1\<rparr>)) m' \<and>
      (\<forall>i < length ys. field_on n c (on m' env) denv desc a i = Emits (ys ! i)) \<and>
      progress (fields_at denv desc) (butlast (fields_at denv desc)) (length ys) False l'"
    by (rule Suc.hyps(1) [of "Suc k"]) (use Suc.hyps(2) k only_length [OF o] Suc.prems(2) before behind 1(2,5) in simp_all)
  then obtain l' s' m' where 2: "fields_loop step l1 (st\<lparr>dmem := m1, inp := s1\<rparr>) = Some (True, l', st\<lparr>dmem := m', inp := s'\<rparr>)"
    "stream_has (\<lambda>s. s) s' [] after" "only [(a, sz)] m1 m'" "\<forall>i < length ys. field_on n c (on m' env) denv desc a i = Emits (ys ! i)"
    "progress (fields_at denv desc) (butlast (fields_at denv desc)) (length ys) False l'" by auto
  with 1(1) only_trans [OF o] show ?case by auto
qed

section \<open>Messages\<close>

lemma plain_message_fields:
  assumes "fits (Suc n) denv desc sz" and "plain (Suc n) denv desc" and "descs env = fields_at denv"
  shows "message_bytes (Suc n) c env desc a = cats (map (field_on n c env denv desc a) [0..<length (butlast (fields_at denv desc))])"
  unfolding plain_message_cats [OF assms] field_on_def [abs_def] ..

lemma messages_read_Suc:
  assumes msgs: "messages_read n c env denv" and e: "descs env = fields_at denv" and src: "d_source denv = buf_source"
  shows "messages_read (Suc n) c env denv"
  unfolding messages_read_def
proof (intro allI impI)
  fix desc sz :: nat and p :: int and x :: "u8 list" and a :: int
  assume fit: "fits (Suc n) denv desc sz" and pl: "plain (Suc n) denv desc" and x: "message_bytes (Suc n) c env desc p = Emits x"
    and p: "0 < p" "p + int sz \<le> int (length (mem env))" and nul: "terminated (Suc n) denv (mem env) desc p"
    and len: "length x < 2 ^ 32" and a: "0 < a"
  let ?ds = "fields_at denv desc" and ?fs = "butlast (fields_at denv desc)"
  let ?step = "decode_step (pb_decode_noinit n denv) (Suc n) denv a"
  note d = fits_descriptors [OF fit]
  have e': "descs (on m env) = fields_at denv" for m using e by simp
  from x obtain ys where ys: "map (field_on n c env denv desc p) [0..<length ?fs] = map Emits ys" "x = concat ys" "length x < 2 ^ 63"
    unfolding plain_message_fields [OF fit pl e] cats_Emits by blast
  note ys' = map_Emits [OF ys(1)]
  show "reads_all (\<lambda>m. a + int sz \<le> int (length m) \<and> fresh (Suc n) denv desc m a) (pb_decode_noinit (Suc n) denv desc a) x
    (\<lambda>m m'. only [(a, sz)] m m' \<and> message_bytes (Suc n) c (on m' env) desc a = Emits x)"
    unfolding reads_all_def
  proof (intro allI impI)
    fix st :: "u8 list dstate" and after
    assume m: "a + int sz \<le> int (length (dmem st)) \<and> fresh (Suc n) denv desc (dmem st) a" and st: "stream_has (\<lambda>s. s) (inp st) x after"
    let ?st = "st\<lparr>fixed_count_size := 0\<rparr>" and ?l = "decode_start denv desc"
    have run: "\<exists>l' s' m'. fields_loop ?step ?l ?st = Some (True, l', ?st\<lparr>dmem := m', inp := s'\<rparr>) \<and> stream_has (\<lambda>s. s) s' [] after \<and>
        only [(a, sz)] (dmem st) m' \<and> (\<forall>i < length ys. field_on n c (on m' env) denv desc a i = Emits (ys ! i)) \<and>
        check_end l' (?st\<lparr>dmem := m', inp := s'\<rparr>) = Some (True, ?st\<lparr>dmem := m', inp := s'\<rparr>)"
    proof (cases "?fs = []")
      case True
      then have "x = []" using ys' ys(2) by simp
      then have "fields_loop ?step ?l ?st = Some (True, ?l, ?st)" using st by (intro fields_loop_end) (simp add: stream_has_def)
      moreover have "check_end ?l st' = Some (True, st')" for st' :: "u8 list dstate"
        using d True fits_last(1) [OF fit] by (intro check_end_empty [of ?ds]) (simp_all add: decode_start_def)
      ultimately show ?thesis
        using st \<open>x = []\<close> ys' True by (intro exI [of _ ?l] exI [of _ "inp st"] exI [of _ "dmem st"]) simp
    next
      case False
      then have pos: "0 < length ?fs" by (metis length_greater_0_conv)
      have l: "progress ?ds ?fs 0 False ?l"
        unfolding progress_def using pos by (intro conjI exI [of _ 0]) (auto simp: decode_start_def begin_descriptors [OF d] required_before_def seen_bit_def nth_Cons')
      have fr: "fresh_field (fresh n denv) (dmem ?st) (?ds ! i) (field_addr denv desc a i)" if "i < length ys" for i
        using m that ys' by simp
      have "\<exists>l' s' m'. fields_loop ?step ?l ?st = Some (True, l', ?st\<lparr>dmem := m', inp := s'\<rparr>) \<and> stream_has (\<lambda>s. s) s' [] after \<and>
        only [(a, sz)] (dmem ?st) m' \<and> (\<forall>i < length ys. field_on n c (on m' env) denv desc a i = Emits (ys ! i)) \<and>
        progress ?ds ?fs (length ys) False l'"
        by (rule fields_run [OF fit pl src e msgs _ p nul _ _ _ a, where k = 0]) (use ys' ys(2) len m fr st l in simp_all)
      then obtain l' s' m' where r: "fields_loop ?step ?l ?st = Some (True, l', ?st\<lparr>dmem := m', inp := s'\<rparr>)" "stream_has (\<lambda>s. s) s' [] after"
        "only [(a, sz)] (dmem st) m'" "\<forall>i < length ys. field_on n c (on m' env) denv desc a i = Emits (ys ! i)"
        "progress ?ds ?fs (length ?fs) False l'" using ys' by auto
      with check_end_ok [OF d False r(5)] show ?thesis by blast
    qed
    then obtain l' s' m' where r: "fields_loop ?step ?l ?st = Some (True, l', ?st\<lparr>dmem := m', inp := s'\<rparr>)" "stream_has (\<lambda>s. s) s' [] after"
      "only [(a, sz)] (dmem st) m'" "\<forall>i < length ys. field_on n c (on m' env) denv desc a i = Emits (ys ! i)"
      "check_end l' (?st\<lparr>dmem := m', inp := s'\<rparr>) = Some (True, ?st\<lparr>dmem := m', inp := s'\<rparr>)" by blast
    have "map (field_on n c (on m' env) denv desc a) [0..<length ?fs] = map Emits ys"
      using r(4) ys' by (intro nth_equalityI) simp_all
    then have "message_bytes (Suc n) c (on m' env) desc a = Emits x"
      unfolding plain_message_fields [OF fit pl e'] cats_Emits using ys(2,3) by blast
    moreover have "pb_decode_noinit (Suc n) denv desc a st = Some (True, st\<lparr>dmem := m', inp := s'\<rparr>)"
      using r(1,5) by (simp add: decode_start_def)
    ultimately show "\<exists>s' m'. pb_decode_noinit (Suc n) denv desc a st = Some (True, st\<lparr>dmem := m', inp := s'\<rparr>) \<and> stream_has (\<lambda>s. s) s' [] after \<and>
        only [(a, sz)] (dmem st) m' \<and> message_bytes (Suc n) c (on m' env) desc a = Emits x"
      using r(2,3) by blast
  qed
qed

lemma messages_read_all:
  assumes "descs env = fields_at denv" and "d_source denv = buf_source"
  shows "messages_read n c env denv"
proof (induction n)
  case 0
  show ?case by (simp add: messages_read_def)
next
  case (Suc n)
  then show ?case by (rule messages_read_Suc [OF _ assms])
qed

text \<open>\<open>pb_decode\<close> sets the defaults first.\<close>

lemma pb_decode_reads:
  assumes e: "descs env = fields_at denv" and src: "d_source denv = buf_source"
    and fit: "fits n denv desc sz" and pl: "plain n denv desc" and x: "message_bytes n c env desc p = Emits x" "length x < 2 ^ 32"
    and p: "0 < p" "p + int sz \<le> int (length (mem env))" and nul: "terminated n denv (mem env) desc p" and a: "0 < a"
  shows "reads_all (\<lambda>m. a + int sz \<le> int (length m)) (pb_decode n denv desc a) x
    (\<lambda>m m'. only [(a, sz)] m m' \<and> message_bytes n c (on m' env) desc a = Emits x)"
  unfolding pb_decode_def
proof (rule reads_decode_with [where noinit = "pb_decode_noinit n denv", OF fit pl order_refl])
  show "reads_all (\<lambda>m. a + int sz \<le> int (length m) \<and> fresh n denv desc m a) (pb_decode_noinit n denv desc a) x
    (\<lambda>m m'. only [(a, sz)] m m' \<and> message_bytes n c (on m' env) desc a = Emits x)"
    using messages_read_all [OF e src] fit pl x p nul a unfolding messages_read_def by blast
qed (use a in \<open>auto intro: only_trans\<close>)

end
