(* ===== verification/Pb_Roundtrip_Props.thy ===== *)
theory Pb_Roundtrip_Props
  imports Pb_Roundtrip Pb_Message_Props Pb_Decode_Props
begin

text \<open>
  Encoder and decoder together: a message that is encoded and decoded is the same message.
\<close>










end
