(* ===== verification/Spec2Isabelle.thy ===== *)
theory Spec2Isabelle
  imports Bytestring_Props Container_Props Conf_Props Pb_Props Pb_Message_Props Pb_Decode_Props Pb_Roundtrip_Props
begin

text \<open>
  The C code this application ships in its iOS build, verified where it carries logic of its
  own: the byte-string, container and text libraries of BoringSSL
  (\<open>src/ios/Pods/BoringSSL-GRPC/src/crypto\<close>, below \<open>crypto/\<close>) and the protocol-buffer runtime
  nanopb (\<open>src/ios/Pods/nanopb\<close>). Firestore and gRPC use both: TLS and certificate parsing
  read DER with the byte-string library and keep their objects in its stacks and hash
  tables; Firestore's messages go over the wire through nanopb.

  \<^bold>\<open>Conventions.\<close> Bytes are \<open>8 word\<close>, C integers words of their width; \<open>size_t\<close> is a \<open>nat\<close>
  whose arithmetic wraps by \<open>sz_add\<close>, \<open>sz_mul\<close>, \<open>sz_sub\<close> wherever the code can overflow. A
  function returns its C result and the objects it changed; out-parameters become an option,
  where \<open>None\<close> is the code's failure. Memory is a list of bytes, \<open>mem_write\<close> a \<open>memcpy\<close> into
  it. The allocator \<open>m\<close>, comparison and hash functions and stream callbacks are parameters;
  \<open>malloc_ok\<close>, the locales \<open>comparator\<close>, \<open>hashed\<close>, \<open>line_source\<close> and \<open>pb_source\<close> state what the code relies on
  of them, and the properties' witnesses instantiate them. Loops that are not structural are
  functions with a termination proof; the BER walks, the count of the elements of a SET OF and
  nanopb's search of its descriptors take fuel, bounded by the length of the input or the
  array (see below).

  \<^bold>\<open>The byte-string library\<close> (\<open>crypto/bytestring\<close>):
  \<^item> \<open>Cbs\<close>, \<open>Cbs_Asn1\<close>: \<open>cbs.c\<close>. \<open>CBS\<close> is the memory from the pointer on and a length; one
    definition per function, \<open>cbs_get_any_asn1_element\<close> the common parser of DER and BER.
  \<^item> \<open>Cbb\<close>, \<open>Cbb_Asn1\<close>: \<open>cbb.c\<close>. All \<open>CBB\<close> objects over one buffer are one record, the root
    first and the chain of open children behind it; an object is its depth \<open>d\<close> in the chain.
  \<^item> \<open>Der\<close>, \<open>Der_Int\<close>: DER as a function of tag and contents, and that the parser accepts just
    its range (\<open>get_any_asn1_der\<close>, \<open>get_any_asn1_inv\<close>, the same for INTEGER and BOOLEAN).
  \<^item> \<open>Cbb_Spec\<close>: the abstract builder, a tree of open children without lengths, and the
    simulation \<open>flush_rep\<close>; \<open>Cbb_Ops\<close>: every adding operation as a step of it; \<open>Cbb_Total\<close>:
    with room and a working allocator no step fails.
  \<^item> \<open>Set_Of\<close> (\<open>CBB_flush_asn1_set_of\<close>), \<open>Oid\<close> (object identifiers as text), \<open>Unicode\<close>
    (\<open>unicode.c\<close>): writers and readers against a reference encoding.
  \<^item> \<open>Ber\<close>: \<open>ber.c\<close>. The recursion of \<open>cbs_find_ber\<close> and \<open>cbs_convert_ber\<close> takes fuel: every
    element takes at least one byte (\<open>ber_progress\<close>), so the length of the input and one more is
    enough (\<open>convert_ber_fuel\<close>), besides the code's own limit \<open>kMaxDepth\<close> of 2048.
    \<open>Ber_Der\<close>: BER trees with minimal definite lengths (the code reads no others), what the
    converter writes for them, and that a successful conversion gives it; \<open>Ber_Total\<close>: that it
    succeeds. \<open>Ber_Values\<close>: the values of the trees by the rules of BER, and that what is written
    is their DER, unless a BIT STRING is in fragments.
  \<^item> \<open>Bytestring_Props\<close>: the properties.

  \<^bold>\<open>Memory, containers, base64\<close>:
  \<^item> \<open>OpenSSL_Mem\<close>: \<open>mem.c\<close>, the allocation prefix and the string helpers; \<open>Buf_Mem\<close>:
    \<open>buf/buf.c\<close>.
  \<^item> \<open>Sk_Stack\<close>: \<open>stack/stack.c\<close>; pointers are values of a type \<open>'p\<close>, their sorting and
    searching an instance of \<open>comparator\<close> (\<open>Comparator\<close>, with the C library's \<open>qsort\<close>).
  \<^item> \<open>Lhash\<close>: \<open>lhash/lhash.c\<close> as buckets of chains; the locale \<open>hashed\<close> proves it a finite map.
  \<^item> \<open>Base64\<close>: \<open>base64/base64.c\<close> with the constant-time arithmetic of \<open>internal.h\<close>, block and
    streaming interfaces.
  \<^item> \<open>Container_Props\<close>: the properties.

  \<^bold>\<open>Configuration files\<close> (\<open>crypto/conf\<close>, \<open>crypto/bio/bio_mem.c\<close>):
  \<^item> \<open>Conf\<close>: the database, values of sections and names in a hash table (an instance of
    \<open>hashed\<close>) and a stack for each section. A comparison with a NULL section is undefined in C
    and \<open>None\<close> here, as are writes outside of a buffer, reads in front of it, and strings used as
    stacks in all of these theories; scanners read as far as the NUL, and a character behind the
    memory is taken for one.
  \<^item> \<open>Conf_Text\<close>: character classes, the scanners of a line, comments, \<open>CONF_parse_list\<close>;
    \<open>Conf_Copy\<close>: \<open>str_copy\<close>, with the NULs it puts into the line and takes out again;
    \<open>Conf_Load\<close>: \<open>def_load_bio\<close>, its two kinds of lines and its loop, a partial function over
    the local variables, with \<open>BIO_gets\<close> as a parameter.
  \<^item> \<open>Line_Source\<close>: the locale of such parameters; \<open>Bio_Mem\<close>: memory BIOs, its instance.
  \<^item> \<open>Conf_Inv\<close>: the invariant of the database (\<open>conf_ok\<close>) and each operation as a change of a
    map; \<open>Conf_Spec\<close>: values as a function on strings, and that \<open>str_copy\<close> computes it;
    \<open>Conf_Lines\<close>: every line, good or bad, keeps the invariant; \<open>Conf_File\<close>: the pieces the
    loop reads and that it ends; \<open>Conf_Format\<close>: files as lists of items, their text and
    meaning; \<open>Conf_List\<close>: lists as strings cut at separators. The lemmas on loading assume that
    memory does not run out (\<open>plenty\<close>).
  \<^item> \<open>Conf_Props\<close>: the properties.

  \<^bold>\<open>nanopb\<close>, as the Podfile builds it (\<open>PB_FIELD_32BIT\<close>, \<open>PB_ENABLE_MALLOC\<close>, 64-bit integers):
  \<^item> \<open>Pb_Field\<close>, \<open>Pb_Iter\<close>: descriptors and the iterator of \<open>pb_common.c\<close>; its state depends on
    the position only, and the search is bounded by the number of descriptors.
  \<^item> \<open>Pb_Read\<close>: the reading side of \<open>pb_decode.c\<close>; \<open>Pb_Write\<close>: the writing side of \<open>pb_encode.c\<close>.
  \<^item> \<open>Pb_Wire\<close>: varints as numbers, and buffer and sizing streams as instances of the sink
    interface; \<open>Pb_Source\<close>: the locale of input streams, with \<open>buf_read\<close> as its instance;
    \<open>Pb_Codec\<close>: tags, fixed forms, skipping, substreams; \<open>Pb_Values\<close>: the field encoders and
    decoders and what each accepts.
  \<^item> \<open>Pb_Encode\<close>: the encoding of whole messages. The structure is memory read at addresses, so
    that descriptors, has-flags, counts, pointers, nested structures and extension lists are
    found as the code finds them; the callbacks are parameters. The recursion into submessages
    takes fuel, the nesting allowed.
  \<^item> \<open>Pb_Message\<close>: the reference, a message's bytes computed in one pass (\<open>message_bytes\<close>);
    \<open>Pb_Refine\<close>: the two-pass encoder implements it on buffers and on sizing streams, function
    by function (\<open>implements\<close>). It asks of the callbacks that they write what the reference says
    (\<open>callbacks_ok\<close>), on every stream alike. \<open>Pb_Encode_Total\<close>: for descriptors that do not
    contain themselves and have no extension fields, whose lists are in the memory and may be
    cyclic, a fuel of two more than the depth of their nesting is enough.
  \<^item> \<open>Pb_Decode\<close>: setting defaults and releasing; \<open>Pb_Decode_Field\<close>: decoding a field into the
    memory; \<open>Pb_Decode_Message\<close>: callbacks, oneof, extensions and the loop over the fields of the
    input, with the local variables of \<open>pb_decode_noinit\<close> as a record. The memory is part of the
    state, the allocator and the callbacks are parameters, the loops are partial functions, so
    that a callback that never reads is seen as not returning. Submessages, defaults and
    release take fuel, the nesting allowed.
  \<^item> \<open>Pb_Layout\<close>: when descriptors fit a structure of a given size (\<open>fits\<close>, by recursion on the
    nesting of static structures); \<open>Pb_Reader\<close>: what each reader takes from its stream;
    \<open>Pb_Decode_Safe\<close>, \<open>Pb_Decode_Total\<close>, \<open>Pb_Decode_Bounds\<close>: every operation returns and stays
    inside the structure, function by function (\<open>safe\<close>), with the depth in \<open>fits\<close> as enough fuel.
  \<^item> \<open>Pb_Required\<close>: the loop as the step relation \<open>decode_run\<close> with the tags it reads, and the
    bitmap of required fields as its invariant.
  \<^item> The round trip of whole messages. \<open>Pb_Place\<close>: places in memory, what an operation that
    changes only some of them keeps (\<open>only\<close>); \<open>Pb_Plain\<close>: descriptors of static fields in
    places of their own, as the generator lays them out (\<open>plain\<close>), and that the bytes of such a
    message depend on its places only; \<open>Pb_Fresh\<close>: the structure after the defaults;
    \<open>Pb_Reads\<close>, \<open>Pb_Reads_Item\<close>, \<open>Pb_Reads_Field\<close>: what a decoder does with a given prefix of
    its input (\<open>reads\<close>), for values, items and fields; \<open>Pb_Records\<close>: the bytes of a field as
    records of tag and value; \<open>Pb_Roundtrip\<close>: the loop over all of them.
  \<^item> \<open>Pb_Run\<close>: operations that may not return, shared by encoder and decoder.
  \<^item> \<open>Pb_Props\<close>, \<open>Pb_Message_Props\<close>, \<open>Pb_Decode_Props\<close>, \<open>Pb_Roundtrip_Props\<close>: the properties.

  \<open>Prelude\<close> and \<open>Sink\<close> are shared: words as numbers, wrapping sizes, memory; and the interface
  of everything bytes are appended to, with the builder, the buffer and the nanopb stream as
  its providers.

  \<^bold>\<open>What the code does not keep.\<close> \<open>bit_fragments_keep_octet\<close>: a BIT STRING in fragments is
  converted to another one. \<open>ber_search_forgets\<close>: \<open>cbs_find_ber\<close> overlooks BER in an
  element that has a later constructed sibling. \<open>stack_set_keeps_flag\<close>: \<open>sk_set\<close> leaves an
  unsorted stack marked as sorted. \<open>pb_varint32_wraps\<close>: nanopb's 32-bit varint reader accepts
  varints of any length, with wrong values. \<open>fixed_count_default_overflows\<close>: the default of a
  short array without a counter is written past its end. \<open>zero_tag_accepted\<close>: field number 0 is
  accepted in a message without fields. \<open>conf_long_line\<close>: a long line of a configuration file can lose a
  backslash. \<open>conf_null_section\<close>: a section of NULL does not stand for the default section.

  \<^bold>\<open>Not modelled.\<close> Of BoringSSL: X.509 and the ASN.1 templates (tables and generated code over
  the library verified here), the cryptographic arithmetic (a development of its own per
  algorithm), input/output other than memory BIOs, error queues and threads, and TLS (C++). The rest of the
  repository is the Dart application and vendored C++ and Objective-C.
\<close>

end
